(* ===== verification/Lapis_Prelude.thy ===== *)
theory Lapis_Prelude
  imports Main "HOL-Library.Word" "HOL-Library.Monad_Syntax"
begin

text \<open>
  Shared vocabulary of the development: the machine integers and the error numbers of the
  kernel, the alignment macros of \<^verbatim>\<open>mm/page.h\<close>, and the generic facts about words, lists
  and options that the component theories use.

  Conventions. A \<^verbatim>\<open>uintN_t\<close> is an \<open>N\<close>-bit word, so its arithmetic wraps as in C. A pointer is
  a 64-bit word and \<open>NULL\<close> is 0; the objects of one C type are a function from addresses to
  records (one such function per type). A function that takes a spinlock returns an
  \<open>option\<close>: \<open>None\<close> says that the CPU never returns from it, because it spins on a lock nobody
  will release, or because it halts.
\<close>

type_synonym u8 = "8 word"
type_synonym u16 = "16 word"
type_synonym u32 = "32 word"
type_synonym u64 = "64 word"

unbundle bit_operations_syntax

named_theorems lapis_defs \<open>definitions of small helpers that proofs unfold together\<close>
named_theorems word_mask \<open>facts about flag words and masks\<close>

abbreviation NULL :: u64 where "NULL \<equiv> 0"

section \<open>Error numbers (util/errno.h)\<close>

abbreviation (input) "EOK \<equiv> (0::int)"
abbreviation (input) "ENOENT \<equiv> (2::int)"
abbreviation (input) "EBADF \<equiv> (9::int)"
abbreviation (input) "ECHILD \<equiv> (10::int)"
abbreviation (input) "ENOMEM \<equiv> (12::int)"
abbreviation (input) "EFAULT \<equiv> (14::int)"
abbreviation (input) "EBUSY \<equiv> (16::int)"
abbreviation (input) "EEXIST \<equiv> (17::int)"
abbreviation (input) "ENOTDIR \<equiv> (20::int)"
abbreviation (input) "EISDIR \<equiv> (21::int)"
abbreviation (input) "EINVAL \<equiv> (22::int)"
abbreviation (input) "EMFILE \<equiv> (24::int)"
abbreviation (input) "ENOSYS \<equiv> (38::int)"
abbreviation (input) "ENOTEMPTY \<equiv> (39::int)"
abbreviation (input) "ELOOP \<equiv> (40::int)"
abbreviation (input) "ENOTRECOVERABLE \<equiv> (131::int)"

section \<open>Loops\<close>

text \<open>A \<^verbatim>\<open>for\<close> loop over a list of indices whose body may not return.\<close>

fun for_each :: "('x \<Rightarrow> 's \<Rightarrow> 's option) \<Rightarrow> 'x list \<Rightarrow> 's \<Rightarrow> 's option" where
  "for_each f [] s = Some s"
| "for_each f (x # xs) s = f x s \<bind> for_each f xs"

section \<open>Alignment (mm/page.h)\<close>

abbreviation (input) PAGE_SIZE :: u64 where "PAGE_SIZE \<equiv> 0x1000"

definition DIV_ROUND_UP :: "u64 \<Rightarrow> u64 \<Rightarrow> u64" where
  "DIV_ROUND_UP x y = (x + (y - 1)) div y"

definition ALIGN_UP :: "u64 \<Rightarrow> u64 \<Rightarrow> u64" where
  "ALIGN_UP x y = DIV_ROUND_UP x y * y"

definition ALIGN_DOWN :: "u64 \<Rightarrow> u64 \<Rightarrow> u64" where
  "ALIGN_DOWN x y = (x div y) * y"

lemma unat_bound: "unat (x::'a::len word) < 2 ^ LENGTH('a)"
  by (rule unsigned_less)

lemma unat64_bound [simp]: "unat (x::u64) < 18446744073709551616"
  using unat_bound [of x] by simp

lemma unat32_bound [simp]: "unat (x::u32) < 4294967296"
  using unat_bound [of x] by simp

lemma unat_div: "unat (x div y) = unat x div unat y" for x y :: "'a::len word"
  by (simp add: unat_div_distrib)

lemma unat_add_no_wrap:
  "unat a + unat b < 2 ^ LENGTH('a) \<Longrightarrow> unat (a + b) = unat a + unat b" for a b :: "'a::len word"
  by (simp add: unat_word_ariths)

lemma unat_mult_no_wrap:
  "unat a * unat b < 2 ^ LENGTH('a) \<Longrightarrow> unat (a * b) = unat a * unat b" for a b :: "'a::len word"
  by (simp add: unat_word_ariths)

lemma unat_of_nat_small: "n < 2 ^ LENGTH('a) \<Longrightarrow> unat (of_nat n :: 'a::len word) = n"
  by (simp add: unat_of_nat)

lemma unat_of_nat_le: "n \<le> unat (w :: 'a::len word) \<Longrightarrow> unat (of_nat n :: 'a word) = n"
  by (rule unat_of_nat_small) (use unat_bound [of w] in linarith)

lemma unat_ucast_mod: "unat (ucast (w :: 'a::len word) :: 'b::len word) = unat w mod 2 ^ LENGTH('b)"
  by (simp add: unsigned_ucast_eq take_bit_eq_mod)

lemma unat_ucast_le: "unat (ucast (w :: 'a::len word) :: 'b::len word) \<le> unat w"
  by (simp add: unat_ucast_mod)

lemma unat_ALIGN_DOWN: "unat (ALIGN_DOWN x y) = unat x div unat y * unat y"
proof -
  have "unat x div unat y * unat y < 2 ^ 64"
    by (rule le_less_trans [OF div_times_less_eq_dividend]) simp
  then show ?thesis
    by (simp add: ALIGN_DOWN_def unat_mult_no_wrap unat_div)
qed

lemma unat_ALIGN_UP:
  assumes "0 < unat y" and "unat x + unat y \<le> 2 ^ 64"
  shows "unat (ALIGN_UP x y) = (unat x + (unat y - 1)) div unat y * unat y"
proof -
  have y1: "unat (y - 1) = unat y - 1"
    using assms(1) by (metis unat_eq_zero neq0_conv unat_minus_one)
  have s: "unat (x + (y - 1)) = unat x + (unat y - 1)"
    using assms by (subst unat_add_no_wrap) (auto simp: y1)
  have "(unat x + (unat y - 1)) div unat y * unat y < 2 ^ 64"
    by (rule le_less_trans [OF div_times_less_eq_dividend]) (use assms in linarith)
  then show ?thesis
    by (simp add: ALIGN_UP_def DIV_ROUND_UP_def unat_mult_no_wrap unat_div s)
qed

lemma and_not_mask_word: "x AND NOT (mask n) = push_bit n (drop_bit n x)" for x :: "'a::len word"
  by (rule bit_word_eqI) (auto simp: bit_simps dest: bit_imp_le_length)

lemma and_not_low12: "x AND NOT 0xFFF = ALIGN_DOWN x PAGE_SIZE" for x :: u64
proof -
  have "x AND NOT 0xFFF = x AND NOT (mask 12)" by (simp add: mask_eq_exp_minus_1)
  also have "\<dots> = push_bit 12 (drop_bit 12 x)" by (rule and_not_mask_word)
  also have "\<dots> = ALIGN_DOWN x PAGE_SIZE"
    by (simp add: push_bit_eq_mult drop_bit_eq_div ALIGN_DOWN_def)
  finally show ?thesis .
qed

lemma and_neg_page_size: "x AND - PAGE_SIZE = ALIGN_DOWN x PAGE_SIZE" for x :: u64
  using and_not_low12 [of x] by simp

section \<open>Flag words\<close>

lemma and_not_self_word [simp, word_mask]: "w AND NOT w = 0" for w :: "'a::len word"
  by (simp add: bit_eq_iff bit_simps)

lemma and_not_and_self [word_mask]: "(w AND NOT m) AND m = 0" for w m :: "'a::len word"
  by (auto simp: bit_eq_iff bit_simps)

lemma or_and_absorb [word_mask]: "(w OR m) AND m = m" for w m :: "'a::len word"
  by (auto simp: bit_eq_iff bit_simps)

lemma and_not_and [word_mask]: "m AND k = 0 \<Longrightarrow> (w AND NOT m) AND k = w AND k"
  for w m k :: "'a::len word"
proof (rule bit_word_eqI)
  fix n
  assume mk: "m AND k = 0" and "n < LENGTH('a)"
  from mk have "\<not> (bit m n \<and> bit k n)"
    by (metis bit_0_eq bit_and_iff bot_apply bot_bool_def)
  then show "bit ((w AND NOT m) AND k) n = bit (w AND k) n"
    using \<open>n < LENGTH('a)\<close> by (auto simp: bit_simps)
qed

section \<open>Lists\<close>

lemma fold_invariant:
  assumes "P s" and "\<And>x s. x \<in> set xs \<Longrightarrow> P s \<Longrightarrow> P (f x s)"
  shows "P (fold f xs s)"
  using assms by (induction xs arbitrary: s) auto

end
