(* ===== verification/Spinlock.thy ===== *)
theory Spinlock
  imports Lapis_Prelude
begin

text \<open>
  The spinlock of \<^verbatim>\<open>util/spinlock.c\<close>, twice: as a sequential operation for the components
  that take locks (\<open>spinlock_acquire\<close>, \<open>spinlock_release\<close>), and as a step relation over any
  number of CPUs that executes the two C functions statement by statement (\<open>spin_step\<close>).
\<close>

section \<open>The lock and the part of a CPU it uses\<close>

record spinlock =
  locked :: int
  owner :: int
  irq_lock :: int
  saved_rflags :: u64

definition SPINLOCK_INIT :: spinlock where
  "SPINLOCK_INIT = \<lparr>locked = 0, owner = -1, irq_lock = 0, saved_rflags = 0\<rparr>"

definition SPINLOCK_IRQ_INIT :: spinlock where
  "SPINLOCK_IRQ_INIT = \<lparr>locked = 0, owner = -1, irq_lock = 1, saved_rflags = 0\<rparr>"

record cpu_ctx =
  cpuid :: int
  rflags :: u64

text \<open>\<open>RFLAGS.IF\<close> is bit 9; \<^verbatim>\<open>_cli\<close> clears it.\<close>

definition RFLAGS_IF :: u64 where "RFLAGS_IF = 0x200"

definition cli_flags :: "u64 \<Rightarrow> u64" where
  "cli_flags f = f AND NOT RFLAGS_IF"

section \<open>The sequential view\<close>

text \<open>
  \<open>spinlock_acquire\<close> on a CPU that runs alone: the compare-and-exchange succeeds at the first
  attempt when the lock is free, and never when it is taken (\<open>None\<close>: the loop does not end).
\<close>

definition spinlock_acquire :: "cpu_ctx \<Rightarrow> spinlock \<Rightarrow> (cpu_ctx \<times> spinlock) option" where
  "spinlock_acquire c l =
     (let l1 = (if irq_lock l \<noteq> 0 then l\<lparr>saved_rflags := rflags c\<rparr> else l);
          c1 = (if irq_lock l \<noteq> 0 then c\<lparr>rflags := cli_flags (rflags c)\<rparr> else c)
      in if locked l1 = 0 then Some (c1, l1\<lparr>locked := 1, owner := cpuid c\<rparr>) else None)"

definition spinlock_release :: "cpu_ctx \<Rightarrow> spinlock \<Rightarrow> cpu_ctx \<times> spinlock" where
  "spinlock_release c l =
     (let l1 = l\<lparr>owner := -1, locked := 0\<rparr>
      in (if irq_lock l \<noteq> 0 then c\<lparr>rflags := saved_rflags l1\<rparr> else c, l1))"

text \<open>A lock made by \<open>SPINLOCK_INIT\<close> leaves the CPU alone; components use it through these two.\<close>

definition lock_acquire :: "int \<Rightarrow> spinlock \<Rightarrow> spinlock option" where
  "lock_acquire me l = map_option snd (spinlock_acquire \<lparr>cpuid = me, rflags = 0\<rparr> l)"

definition lock_release :: "int \<Rightarrow> spinlock \<Rightarrow> spinlock" where
  "lock_release me l = snd (spinlock_release \<lparr>cpuid = me, rflags = 0\<rparr> l)"

definition lock_free :: "spinlock \<Rightarrow> bool" where
  "lock_free l \<longleftrightarrow> l = SPINLOCK_INIT"

section \<open>The concurrent view\<close>

text \<open>
  Where a CPU stands in \<^verbatim>\<open>spinlock_acquire\<close> or \<^verbatim>\<open>spinlock_release\<close>: outside; flags stored in
  the lock; in the spinning loop; exchange won, owner not written; inside the critical section;
  owner reset, lock not yet stored; lock stored, flags not yet restored.
\<close>

datatype spin_pc = Outside | Saved | Spinning | Won | Critical | Unowned | Unlocked

record spin_sys =
  lck :: spinlock
  pcs :: "nat \<Rightarrow> spin_pc"
  flags_of :: "nat \<Rightarrow> u64"

inductive spin_step :: "spin_sys \<Rightarrow> spin_sys \<Rightarrow> bool" where
  save: "pcs s i = Outside \<Longrightarrow> irq_lock (lck s) \<noteq> 0 \<Longrightarrow>
    spin_step s (s\<lparr>lck := (lck s)\<lparr>saved_rflags := flags_of s i\<rparr>, pcs := (pcs s)(i := Saved)\<rparr>)"
| cli: "pcs s i = Saved \<Longrightarrow>
    spin_step s (s\<lparr>flags_of := (flags_of s)(i := cli_flags (flags_of s i)),
                   pcs := (pcs s)(i := Spinning)\<rparr>)"
| enter: "pcs s i = Outside \<Longrightarrow> irq_lock (lck s) = 0 \<Longrightarrow>
    spin_step s (s\<lparr>pcs := (pcs s)(i := Spinning)\<rparr>)"
| cas_won: "pcs s i = Spinning \<Longrightarrow> locked (lck s) = 0 \<Longrightarrow>
    spin_step s (s\<lparr>lck := (lck s)\<lparr>locked := 1\<rparr>, pcs := (pcs s)(i := Won)\<rparr>)"
| cas_lost: "pcs s i = Spinning \<Longrightarrow> locked (lck s) \<noteq> 0 \<Longrightarrow> spin_step s s"
| own: "pcs s i = Won \<Longrightarrow>
    spin_step s (s\<lparr>lck := (lck s)\<lparr>owner := int i\<rparr>, pcs := (pcs s)(i := Critical)\<rparr>)"
| disown: "pcs s i = Critical \<Longrightarrow>
    spin_step s (s\<lparr>lck := (lck s)\<lparr>owner := -1\<rparr>, pcs := (pcs s)(i := Unowned)\<rparr>)"
| unlock: "pcs s i = Unowned \<Longrightarrow>
    spin_step s (s\<lparr>lck := (lck s)\<lparr>locked := 0\<rparr>, pcs := (pcs s)(i := Unlocked)\<rparr>)"
| restore: "pcs s i = Unlocked \<Longrightarrow>
    spin_step s (s\<lparr>flags_of := (if irq_lock (lck s) \<noteq> 0
                                 then (flags_of s)(i := saved_rflags (lck s)) else flags_of s),
                   pcs := (pcs s)(i := Outside)\<rparr>)"

definition spin_init :: "spinlock \<Rightarrow> (nat \<Rightarrow> u64) \<Rightarrow> spin_sys" where
  "spin_init l f = \<lparr>lck = l, pcs = (\<lambda>_. Outside), flags_of = f\<rparr>"

inductive spin_reach :: "spin_sys \<Rightarrow> spin_sys \<Rightarrow> bool" for s0 :: spin_sys where
  start: "spin_reach s0 s0"
| step: "spin_reach s0 s \<Longrightarrow> spin_step s t \<Longrightarrow> spin_reach s0 t"

definition holding :: "spin_pc \<Rightarrow> bool" where
  "holding p \<longleftrightarrow> p = Won \<or> p = Critical \<or> p = Unowned"

text \<open>
  The invariant: the lock word and the program counters agree on who, if anybody, holds the
  lock, and the owner field names the holder exactly while it is in its critical section.
\<close>

definition held_by :: "spin_sys \<Rightarrow> nat option \<Rightarrow> bool" where
  "held_by s h \<longleftrightarrow>
     (\<forall>i. holding (pcs s i) \<longleftrightarrow> h = Some i) \<and>
     (locked (lck s) = 0 \<longleftrightarrow> h = None) \<and>
     owner (lck s) = (case h of None \<Rightarrow> -1 | Some i \<Rightarrow> if pcs s i = Critical then int i else -1)"

definition spin_inv :: "spin_sys \<Rightarrow> bool" where
  "spin_inv s \<longleftrightarrow> (\<exists>h. held_by s h)"

section \<open>Lemmas\<close>

lemma lock_acquire_free [simp]:
  "lock_free l \<Longrightarrow> lock_acquire me l = Some (l\<lparr>locked := 1, owner := me\<rparr>)"
  by (simp add: lock_acquire_def spinlock_acquire_def lock_free_def SPINLOCK_INIT_def)

lemma lock_acquire_taken [simp]: "locked l \<noteq> 0 \<Longrightarrow> lock_acquire me l = None"
  by (simp add: lock_acquire_def spinlock_acquire_def Let_def)

lemma lock_release_free [simp]:
  "lock_free l \<Longrightarrow> lock_release me (l\<lparr>locked := 1, owner := me\<rparr>) = l"
  by (simp add: lock_release_def spinlock_release_def lock_free_def SPINLOCK_INIT_def)

lemma lock_free_INIT [simp]: "lock_free SPINLOCK_INIT"
  by (simp add: lock_free_def)

lemma holding_simps [simp]:
  "\<not> holding Outside" "\<not> holding Saved" "\<not> holding Spinning" "\<not> holding Unlocked"
  "holding Won" "holding Critical" "holding Unowned"
  by (simp_all add: holding_def)

lemma held_by_pc:
  assumes "held_by s h"
  shows "pcs s i = Outside \<Longrightarrow> h \<noteq> Some i" "pcs s i = Saved \<Longrightarrow> h \<noteq> Some i"
    "pcs s i = Spinning \<Longrightarrow> h \<noteq> Some i" "pcs s i = Unlocked \<Longrightarrow> h \<noteq> Some i"
    "pcs s i = Won \<Longrightarrow> h = Some i" "pcs s i = Critical \<Longrightarrow> h = Some i"
    "pcs s i = Unowned \<Longrightarrow> h = Some i"
  using assms by (metis held_by_def holding_simps)+

lemma spin_inv_init: "locked l = 0 \<Longrightarrow> owner l = -1 \<Longrightarrow> spin_inv (spin_init l f)"
  by (auto simp: spin_inv_def held_by_def spin_init_def intro!: exI [of _ None])

text \<open>A move of CPU \<open>i\<close> between two places outside the critical section changes no holder.\<close>

lemma held_by_outside:
  assumes "held_by s h" and "\<not> holding (pcs s i)" and "\<not> holding p"
    and "pcs t = (pcs s)(i := p)"
    and "locked (lck t) = locked (lck s)" and "owner (lck t) = owner (lck s)"
  shows "held_by t h"
proof -
  from assms(1,2) have "h \<noteq> Some i" by (auto simp: held_by_def)
  with assms show ?thesis by (auto simp: held_by_def split: option.splits)
qed

text \<open>A move of the holder inside, or of a CPU that becomes or stops being the holder.\<close>

lemma held_by_move:
  assumes "held_by s h" and "h = None \<or> h = Some i"
    and "pcs t = (pcs s)(i := p)" and "locked (lck t) = 0 \<longleftrightarrow> \<not> holding p"
    and "owner (lck t) = (if p = Critical then int i else -1)"
  shows "held_by t (if holding p then Some i else None)"
  using assms by (auto simp: held_by_def)

lemma spin_step_inv:
  assumes "spin_step s t" and "spin_inv s"
  shows "spin_inv t"
proof -
  from assms(2) obtain h where h: "held_by s h" by (auto simp: spin_inv_def)
  note out = held_by_outside [OF h] and move = held_by_move [OF h] and pc = held_by_pc [OF h]
  from assms(1) show ?thesis
  proof cases
    case (save i)
    then have "held_by t h" by (intro out [of i Saved]) auto
    then show ?thesis by (auto simp: spin_inv_def)
  next
    case (cli i)
    then have "held_by t h" by (intro out [of i Spinning]) auto
    then show ?thesis by (auto simp: spin_inv_def)
  next
    case (enter i)
    then have "held_by t h" by (intro out [of i Spinning]) auto
    then show ?thesis by (auto simp: spin_inv_def)
  next
    case (cas_won i)
    then have "h = None" and "owner (lck s) = -1" using h by (auto simp: held_by_def)
    with cas_won show ?thesis using move [of i t Won] by (auto simp: spin_inv_def)
  next
    case (cas_lost i)
    then show ?thesis using assms(2) by simp
  next
    case (own i)
    then have "h = Some i" and "locked (lck s) \<noteq> 0" using h pc by (auto simp: held_by_def)
    with own show ?thesis using move [of i t Critical] by (auto simp: spin_inv_def)
  next
    case (disown i)
    then have "h = Some i" and "locked (lck s) \<noteq> 0" using h pc by (auto simp: held_by_def)
    with disown show ?thesis using move [of i t Unowned] by (auto simp: spin_inv_def)
  next
    case (unlock i)
    then have "h = Some i" and "owner (lck s) = -1" using h pc by (auto simp: held_by_def)
    with unlock show ?thesis using move [of i t Unlocked] by (auto simp: spin_inv_def)
  next
    case (restore i)
    then have "held_by t h" by (intro out [of i Outside]) auto
    then show ?thesis by (auto simp: spin_inv_def)
  qed
qed

lemma spin_reach_inv: "spin_reach s0 s \<Longrightarrow> spin_inv s0 \<Longrightarrow> spin_inv s"
  by (induction rule: spin_reach.induct) (auto intro: spin_step_inv)

lemma spin_reach_trans: "spin_reach a b \<Longrightarrow> spin_reach b c \<Longrightarrow> spin_reach a c"
  by (rotate_tac 1, induction rule: spin_reach.induct) (auto intro: spin_reach.step)

lemma spin_reach_step: "spin_reach a b \<Longrightarrow> spin_step b c \<Longrightarrow> c = d \<Longrightarrow> spin_reach a d"
  by (auto intro: spin_reach.step)

text \<open>The run of one CPU through \<^verbatim>\<open>spinlock_acquire\<close> on a free lock, and through the release.\<close>

definition acquired :: "spin_sys \<Rightarrow> nat \<Rightarrow> spin_sys" where
  "acquired s i = (let irq = irq_lock (lck s) \<noteq> 0 in
     s\<lparr>lck := (lck s)\<lparr>saved_rflags := (if irq then flags_of s i else saved_rflags (lck s)),
                       locked := 1, owner := int i\<rparr>,
       pcs := (pcs s)(i := Critical),
       flags_of := (if irq then (flags_of s)(i := cli_flags (flags_of s i)) else flags_of s)\<rparr>)"

lemma spin_run_acquire:
  assumes pc: "pcs s i = Outside" and free: "locked (lck s) = 0"
  shows "spin_reach s (acquired s i)"
proof (cases "irq_lock (lck s) = 0")
  case True
  define s1 where "s1 = s\<lparr>pcs := (pcs s)(i := Spinning)\<rparr>"
  define s2 where "s2 = s1\<lparr>lck := (lck s1)\<lparr>locked := 1\<rparr>, pcs := (pcs s1)(i := Won)\<rparr>"
  have "spin_reach s s1"
    unfolding s1_def using pc True by (blast intro: spin_reach.intros spin_step.enter)
  then have "spin_reach s s2"
    unfolding s2_def using free by (intro spin_reach_step [OF _ spin_step.cas_won refl]) (auto simp: s1_def)
  then show ?thesis
    by (rule spin_reach_step [OF _ spin_step.own [of _ i]])
      (use True in \<open>auto simp: s1_def s2_def acquired_def\<close>)
next
  case False
  define s1 where "s1 = s\<lparr>lck := (lck s)\<lparr>saved_rflags := flags_of s i\<rparr>, pcs := (pcs s)(i := Saved)\<rparr>"
  define s2 where "s2 = s1\<lparr>flags_of := (flags_of s1)(i := cli_flags (flags_of s1 i)),
                           pcs := (pcs s1)(i := Spinning)\<rparr>"
  define s3 where "s3 = s2\<lparr>lck := (lck s2)\<lparr>locked := 1\<rparr>, pcs := (pcs s2)(i := Won)\<rparr>"
  have "spin_reach s s1"
    unfolding s1_def using pc False by (blast intro: spin_reach.intros spin_step.save)
  then have "spin_reach s s2"
    unfolding s2_def by (intro spin_reach_step [OF _ spin_step.cli refl]) (auto simp: s1_def)
  then have "spin_reach s s3"
    unfolding s3_def using free
    by (intro spin_reach_step [OF _ spin_step.cas_won refl]) (auto simp: s1_def s2_def)
  then show ?thesis
    by (rule spin_reach_step [OF _ spin_step.own [of _ i]])
      (use False in \<open>auto simp: s1_def s2_def s3_def acquired_def\<close>)
qed

lemma spin_run_release:
  assumes pc: "pcs s i = Critical"
  shows "spin_reach s (s\<lparr>lck := (lck s)\<lparr>owner := -1, locked := 0\<rparr>,
    pcs := (pcs s)(i := Outside),
    flags_of := (if irq_lock (lck s) \<noteq> 0 then (flags_of s)(i := saved_rflags (lck s)) else flags_of s)\<rparr>)"
proof -
  define s1 where "s1 = s\<lparr>lck := (lck s)\<lparr>owner := -1\<rparr>, pcs := (pcs s)(i := Unowned)\<rparr>"
  define s2 where "s2 = s1\<lparr>lck := (lck s1)\<lparr>locked := 0\<rparr>, pcs := (pcs s1)(i := Unlocked)\<rparr>"
  have "spin_reach s s1"
    unfolding s1_def using pc by (blast intro: spin_reach.intros spin_step.disown)
  then have "spin_reach s s2"
    unfolding s2_def by (intro spin_reach_step [OF _ spin_step.unlock refl]) (auto simp: s1_def)
  then show ?thesis
    by (rule spin_reach_step [OF _ spin_step.restore [of _ i]]) (auto simp: s1_def s2_def)
qed

section \<open>Properties\<close>

text \<open>
  C1. Mutual exclusion: from a free lock, whatever the interleaving of any number of CPUs, at
  most one of them is between winning the exchange and storing the lock free again; and while a
  CPU is in its critical section the owner field names it, so the diagnostics of
  \<^verbatim>\<open>spinlock_release\<close> (released by a CPU that does not own it) never fires.
\<close>
theorem spinlock_mutual_exclusion:
  assumes "spin_reach (spin_init l f) s" and "locked l = 0" and "owner l = -1"
  shows "(holding (pcs s i) \<longrightarrow> holding (pcs s j) \<longrightarrow> i = j) \<and>
    (pcs s i = Critical \<longrightarrow> owner (lck s) = int i \<and> locked (lck s) \<noteq> 0)"
proof -
  from assms have "spin_inv s" by (blast intro: spin_reach_inv spin_inv_init)
  then obtain h where "held_by s h" by (auto simp: spin_inv_def)
  then show ?thesis using held_by_pc(6) [of s h i] by (auto simp: held_by_def)
qed

theorem spinlock_mutual_exclusion_witness:
  "pcs (acquired (spin_init SPINLOCK_INIT (\<lambda>_. 0)) 3) 3 = Critical \<and>
   owner (lck (acquired (spin_init SPINLOCK_INIT (\<lambda>_. 0)) 3)) = int 3 \<and>
   locked (lck (acquired (spin_init SPINLOCK_INIT (\<lambda>_. 0)) 3)) \<noteq> 0"
proof -
  let ?s = "spin_init SPINLOCK_INIT (\<lambda>_. 0)"
  have "spin_reach ?s (acquired ?s 3)"
    by (rule spin_run_acquire) (simp_all add: spin_init_def SPINLOCK_INIT_def)
  from spinlock_mutual_exclusion [OF this, of 3 3] show ?thesis
    by (simp add: SPINLOCK_INIT_def acquired_def Let_def)
qed

text \<open>
  C2. The sequential operations are what the statements do when no other CPU interferes: from
  any state in which CPU \<open>i\<close> is outside and the lock is free, the steps of CPU \<open>i\<close> alone reach
  its critical section with the lock and the CPU flags that \<open>spinlock_acquire\<close> computes; from
  there the steps of the release lead back outside with what \<open>spinlock_release\<close> computes, and
  the flags are those the CPU had before it took the lock.
\<close>
theorem spinlock_sequential_refinement:
  assumes "pcs s i = Outside" and "locked (lck s) = 0"
  shows "\<exists>c' l'. spinlock_acquire \<lparr>cpuid = int i, rflags = flags_of s i\<rparr> (lck s) = Some (c', l') \<and>
    spin_reach s (s\<lparr>lck := l', pcs := (pcs s)(i := Critical),
                    flags_of := (flags_of s)(i := rflags c')\<rparr>) \<and>
    spin_reach s (s\<lparr>lck := snd (spinlock_release c' l')\<rparr>) \<and>
    rflags (fst (spinlock_release c' l')) = flags_of s i"
proof -
  let ?a = "acquired s i"
  have 1: "spin_reach s ?a" by (rule spin_run_acquire) (use assms in auto)
  have "pcs ?a i = Critical" by (simp add: acquired_def Let_def)
  note 2 = spin_reach_trans [OF 1 spin_run_release [OF this]]
  show ?thesis
  proof (cases "irq_lock (lck s) = 0")
    case True
    then show ?thesis using 1 2 assms
      by (simp add: spinlock_acquire_def spinlock_release_def acquired_def fun_upd_idem)
  next
    case False
    then show ?thesis using 1 2 assms
      by (simp add: spinlock_acquire_def spinlock_release_def acquired_def fun_upd_idem)
  qed
qed

theorem spinlock_sequential_refinement_witness:
  "\<exists>c' l'. spinlock_acquire \<lparr>cpuid = int 1, rflags = 0x202\<rparr> SPINLOCK_IRQ_INIT = Some (c', l') \<and>
    rflags (fst (spinlock_release c' l')) = 0x202"
  using spinlock_sequential_refinement [of "spin_init SPINLOCK_IRQ_INIT (\<lambda>_. 0x202)" 1]
  by (auto simp: spin_init_def SPINLOCK_IRQ_INIT_def)

text \<open>
  An IRQ lock does not keep the interrupt flag of its holder under contention: the saved
  flags live in the lock and a CPU writes them before it has the lock. CPU 0 runs with
  interrupts disabled, takes the lock and releases it; CPU 1, entering in between with interrupts
  enabled, overwrites the saved flags, and CPU 0 comes out with interrupts enabled.
\<close>
theorem irq_flags_clobbered:
  "\<exists>s. spin_reach (spin_init SPINLOCK_IRQ_INIT (\<lambda>i. if i = 1 then RFLAGS_IF else 0)) s \<and>
    pcs s 0 = Outside \<and> flags_of s 0 AND RFLAGS_IF \<noteq> 0"
proof -
  let ?s = "spin_init SPINLOCK_IRQ_INIT (\<lambda>i. if i = 1 then RFLAGS_IF else 0)"
  define t where "t = acquired ?s 0"
  have 1: "spin_reach ?s t"
    unfolding t_def by (rule spin_run_acquire) (simp_all add: spin_init_def SPINLOCK_IRQ_INIT_def)
  define u where "u = t\<lparr>lck := (lck t)\<lparr>saved_rflags := flags_of t 1\<rparr>, pcs := (pcs t)(1 := Saved)\<rparr>"
  have 2: "spin_reach ?s u"
    unfolding u_def by (rule spin_reach.step [OF 1], rule spin_step.save)
      (simp_all add: t_def acquired_def spin_init_def SPINLOCK_IRQ_INIT_def)
  have "pcs u 0 = Critical"
    by (simp add: u_def t_def acquired_def Let_def)
  from spin_reach_trans [OF 2 spin_run_release [OF this]] show ?thesis
    by - (rule exI, rule conjI, assumption, simp add: u_def t_def acquired_def spin_init_def SPINLOCK_IRQ_INIT_def RFLAGS_IF_def)
qed

end
