(* ===== verification/Semaphore.thy ===== *)
theory Semaphore
  imports Lapis_Prelude
begin

text \<open>
  The counting semaphore of \<^verbatim>\<open>util/semaphore.c\<close>: its operations on a CPU that runs alone, and a
  step relation in which any number of threads load the value, compare-and-exchange it and
  signal, one atomic access at a time. The value is an \<^verbatim>\<open>int32_t\<close>, here a 32-bit word read
  with \<open>sint\<close>.
\<close>

section \<open>The sequential view\<close>

record semaphore =
  sem_value :: u32

definition semaphore_init :: "semaphore \<Rightarrow> u32 \<Rightarrow> semaphore" where
  "semaphore_init sem count = sem\<lparr>sem_value := (if sint count < 0 then 0 else count)\<rparr>"

text \<open>\<open>None\<close>: the inner loop polls a value nobody changes.\<close>

definition semaphore_wait :: "semaphore \<Rightarrow> semaphore option" where
  "semaphore_wait sem =
     (if sint (sem_value sem) \<le> 0 then None else Some (sem\<lparr>sem_value := sem_value sem - 1\<rparr>))"

definition semaphore_signal :: "semaphore \<Rightarrow> semaphore" where
  "semaphore_signal sem = sem\<lparr>sem_value := sem_value sem + 1\<rparr>"

definition semaphore_try_wait :: "semaphore \<Rightarrow> bool \<times> semaphore" where
  "semaphore_try_wait sem =
     (if 0 < sint (sem_value sem) then (True, sem\<lparr>sem_value := sem_value sem - 1\<rparr>) else (False, sem))"

section \<open>The concurrent view\<close>

text \<open>
  Where a thread stands: outside, at the load of \<open>semaphore_wait\<close> or \<open>semaphore_try_wait\<close>, or
  before the compare-and-exchange, with the value it loaded. The two counters are history
  variables: completed signals and completed successful waits.
\<close>

datatype sem_pc = SemIdle | WaitLoad | WaitCas u32 | TryLoad | TryCas u32

record sem_sys =
  sem :: semaphore
  sem_pcs :: "nat \<Rightarrow> sem_pc"
  signals :: nat
  taken :: nat

inductive sem_step :: "sem_sys \<Rightarrow> sem_sys \<Rightarrow> bool" where
  call_wait: "sem_pcs s i = SemIdle \<Longrightarrow> sem_step s (s\<lparr>sem_pcs := (sem_pcs s)(i := WaitLoad)\<rparr>)"
| wait_poll: "sem_pcs s i = WaitLoad \<Longrightarrow> sint (sem_value (sem s)) \<le> 0 \<Longrightarrow> sem_step s s"
| wait_load: "sem_pcs s i = WaitLoad \<Longrightarrow> old = sem_value (sem s) \<Longrightarrow> 0 < sint old \<Longrightarrow>
    sem_step s (s\<lparr>sem_pcs := (sem_pcs s)(i := WaitCas old)\<rparr>)"
| wait_won: "sem_pcs s i = WaitCas old \<Longrightarrow> sem_value (sem s) = old \<Longrightarrow>
    sem_step s (s\<lparr>sem := (sem s)\<lparr>sem_value := old - 1\<rparr>, sem_pcs := (sem_pcs s)(i := SemIdle),
                  taken := Suc (taken s)\<rparr>)"
| wait_lost: "sem_pcs s i = WaitCas old \<Longrightarrow> sem_value (sem s) \<noteq> old \<Longrightarrow>
    sem_step s (s\<lparr>sem_pcs := (sem_pcs s)(i := WaitLoad)\<rparr>)"
| call_try: "sem_pcs s i = SemIdle \<Longrightarrow> sem_step s (s\<lparr>sem_pcs := (sem_pcs s)(i := TryLoad)\<rparr>)"
| try_fail: "sem_pcs s i = TryLoad \<Longrightarrow> sint (sem_value (sem s)) \<le> 0 \<Longrightarrow>
    sem_step s (s\<lparr>sem_pcs := (sem_pcs s)(i := SemIdle)\<rparr>)"
| try_load: "sem_pcs s i = TryLoad \<Longrightarrow> old = sem_value (sem s) \<Longrightarrow> 0 < sint old \<Longrightarrow>
    sem_step s (s\<lparr>sem_pcs := (sem_pcs s)(i := TryCas old)\<rparr>)"
| try_won: "sem_pcs s i = TryCas old \<Longrightarrow> sem_value (sem s) = old \<Longrightarrow>
    sem_step s (s\<lparr>sem := (sem s)\<lparr>sem_value := old - 1\<rparr>, sem_pcs := (sem_pcs s)(i := SemIdle),
                  taken := Suc (taken s)\<rparr>)"
| try_lost: "sem_pcs s i = TryCas old \<Longrightarrow> sem_value (sem s) \<noteq> old \<Longrightarrow>
    sem_step s (s\<lparr>sem_pcs := (sem_pcs s)(i := TryLoad)\<rparr>)"
| signal: "sem_pcs s i = SemIdle \<Longrightarrow>
    sem_step s (s\<lparr>sem := semaphore_signal (sem s), signals := Suc (signals s)\<rparr>)"

inductive sem_reach :: "u32 \<Rightarrow> sem_sys \<Rightarrow> bool" for n :: u32 where
  start: "sem_reach n \<lparr>sem = semaphore_init \<lparr>sem_value = 0\<rparr> n, sem_pcs = (\<lambda>_. SemIdle),
                       signals = 0, taken = 0\<rparr>"
| step: "sem_reach n s \<Longrightarrow> sem_step s t \<Longrightarrow> sem_reach n t"

section \<open>Lemmas\<close>

text \<open>A thread about to exchange loaded a positive value.\<close>

definition sem_inv :: "nat \<Rightarrow> sem_sys \<Rightarrow> bool" where
  "sem_inv n s \<longleftrightarrow>
     (\<forall>i old. sem_pcs s i = WaitCas old \<or> sem_pcs s i = TryCas old \<longrightarrow> 0 < sint old) \<and>
     (n + signals s < 2 ^ 31 \<longrightarrow> taken s \<le> n + signals s \<and>
        sint (sem_value (sem s)) = int (n + signals s) - int (taken s))"

lemma sint_dec: "0 < sint w \<Longrightarrow> sint (w - 1) = sint w - 1" for w :: u32
  using sint_range_size [of w]
  by (simp add: sint_word_ariths signed_take_bit_int_eq_self word_size)

lemma sint_inc: "sint w < 2 ^ 31 - 1 \<Longrightarrow> sint (w + 1) = sint w + 1" for w :: u32
  using sint_range_size [of w]
  by (simp add: sint_word_ariths signed_take_bit_int_eq_self word_size)

lemma sem_inv_take:
  assumes inv: "sem_inv n s" and pos: "0 < sint (sem_value (sem s))"
  shows "sem_inv n (s\<lparr>sem := (sem s)\<lparr>sem_value := sem_value (sem s) - 1\<rparr>,
    sem_pcs := (sem_pcs s)(i := SemIdle), taken := Suc (taken s)\<rparr>)"
proof -
  have "sint (sem_value (sem s) - 1) = sint (sem_value (sem s)) - 1" using pos by (rule sint_dec)
  with inv pos show ?thesis by (auto simp: sem_inv_def)
qed

lemma sem_step_inv:
  assumes "sem_step s t" and inv: "sem_inv n s"
  shows "sem_inv n t"
  using assms
proof (induction rule: sem_step.induct)
  case (wait_won s i old)
  then have "0 < sint (sem_value (sem s))" by (auto simp: sem_inv_def)
  with wait_won sem_inv_take [of n s i] show ?case by simp
next
  case (try_won s i old)
  then have "0 < sint (sem_value (sem s))" by (auto simp: sem_inv_def)
  with try_won sem_inv_take [of n s i] show ?case by simp
next
  case (signal s i)
  then show ?case by (auto simp: sem_inv_def semaphore_signal_def sint_inc)
qed (auto simp: sem_inv_def)

lemma sem_reach_inv:
  assumes "sem_reach n s" and "0 \<le> sint n"
  shows "sem_inv (nat (sint n)) s"
  using assms(1)
proof (induction rule: sem_reach.induct)
  case start
  with assms(2) show ?case by (simp add: sem_inv_def semaphore_init_def)
next
  case (step s t)
  then show ?case by (blast intro: sem_step_inv)
qed

section \<open>Properties\<close>

text \<open>
  C3. No lost and no surplus permits: in every interleaving of waits, try-waits and signals, as
  long as the permits ever issued fit the \<^verbatim>\<open>int32_t\<close>, the value is the initial count plus the
  signals minus the successful waits; so no more waits succeed than permits were issued, and
  the value never becomes negative.
\<close>
theorem semaphore_conservation:
  assumes "sem_reach n s" and "0 \<le> sint n" and "nat (sint n) + signals s < 2 ^ 31"
  shows "taken s \<le> nat (sint n) + signals s \<and>
    sint (sem_value (sem s)) = int (nat (sint n) + signals s) - int (taken s) \<and>
    0 \<le> sint (sem_value (sem s))"
  using sem_reach_inv [OF assms(1,2)] assms(3) by (auto simp: sem_inv_def)

theorem semaphore_conservation_witness:
  "\<exists>s. sem_reach 1 s \<and> taken s = 1 \<and> 0 \<le> sint (sem_value (sem s))"
proof -
  let ?s0 = "\<lparr>sem = semaphore_init \<lparr>sem_value = 0\<rparr> 1, sem_pcs = (\<lambda>_. SemIdle), signals = 0, taken = 0\<rparr>"
  let ?s1 = "?s0\<lparr>sem_pcs := (sem_pcs ?s0)(0 := WaitLoad)\<rparr>"
  let ?s2 = "?s1\<lparr>sem_pcs := (sem_pcs ?s1)(0 := WaitCas 1)\<rparr>"
  let ?s3 = "?s2\<lparr>sem := (sem ?s2)\<lparr>sem_value := 1 - 1\<rparr>, sem_pcs := (sem_pcs ?s2)(0 := SemIdle),
                 taken := Suc (taken ?s2)\<rparr>"
  have "sem_reach 1 ?s1" by (rule sem_reach.step [OF sem_reach.start], rule sem_step.call_wait) simp
  then have "sem_reach 1 ?s2"
    by (rule sem_reach.step, intro sem_step.wait_load) (simp_all add: semaphore_init_def)
  then have r: "sem_reach 1 ?s3"
    by (rule sem_reach.step, intro sem_step.wait_won) (simp_all add: semaphore_init_def)
  then show ?thesis using semaphore_conservation [OF r] by (intro exI [of _ ?s3]) simp
qed

end
