(* ===== verification/Dll.thy ===== *)
theory Dll
  imports Lapis_Prelude
begin

text \<open>
  Intrusive doubly linked lists. The kernel threads three kinds of objects on such lists: free
  pages (\<^verbatim>\<open>mm/pmm.c\<close>), runnable threads (\<^verbatim>\<open>sched/sched.c\<close>) and waiting threads
  (\<^verbatim>\<open>sched/waitqueue.c\<close>). This theory holds the predicate that ties the \<^verbatim>\<open>next\<close> and \<^verbatim>\<open>prev\<close>
  fields to the list of addresses they link, what a push at either end and an unlink do to
  it, and the interface of a queue made this way.
\<close>

text \<open>
  \<open>dseg n p pr h xs la nx\<close>: from \<open>h\<close>, following \<open>n\<close>, the cells \<open>xs\<close> are met before \<open>nx\<close>; the
  \<open>p\<close> field of the first holds \<open>pr\<close>, that of any other its predecessor; \<open>la\<close> is the last cell.
\<close>

fun dseg :: "(u64 \<Rightarrow> u64) \<Rightarrow> (u64 \<Rightarrow> u64) \<Rightarrow> u64 \<Rightarrow> u64 \<Rightarrow> u64 list \<Rightarrow> u64 \<Rightarrow> u64 \<Rightarrow> bool" where
  "dseg n p pr h [] la nx \<longleftrightarrow> h = nx \<and> la = pr"
| "dseg n p pr h (x # xs) la nx \<longleftrightarrow> h = x \<and> x \<noteq> NULL \<and> p x = pr \<and> dseg n p x (n x) xs la nx"

definition dll :: "(u64 \<Rightarrow> u64) \<Rightarrow> (u64 \<Rightarrow> u64) \<Rightarrow> u64 \<Rightarrow> u64 list \<Rightarrow> u64 \<Rightarrow> bool" where
  "dll n p h xs t \<longleftrightarrow> dseg n p NULL h xs t NULL"

section \<open>Segments\<close>

lemma dseg_append:
  "dseg n p pr h (xs @ ys) la nx \<longleftrightarrow> (\<exists>k m. dseg n p pr h xs k m \<and> dseg n p k m ys la nx)"
  by (induction xs arbitrary: pr h) auto

lemma dseg_cong:
  assumes "\<And>a. a \<in> set xs \<Longrightarrow> n' a = n a" and "\<And>a. a \<in> set xs \<Longrightarrow> p' a = p a"
  shows "dseg n' p' pr h xs la nx = dseg n p pr h xs la nx"
  using assms by (induction xs arbitrary: pr h) auto

lemma dseg_null: "dseg n p pr h xs la nx \<Longrightarrow> NULL \<notin> set xs"
  by (induction xs arbitrary: pr h) auto

lemma dseg_head_null: "dseg n p pr NULL xs la NULL \<Longrightarrow> xs = []"
  by (cases xs) auto

lemma dseg_unique: "dseg n p pr h xs la NULL \<Longrightarrow> dseg n q pr' h ys la' NULL \<Longrightarrow> xs = ys"
proof (induction xs arbitrary: ys h pr pr')
  case Nil
  then show ?case by (auto dest: dseg_head_null)
next
  case (Cons x xs)
  then show ?case by (cases ys) auto
qed

lemma dseg_distinct: "dseg n p pr h xs la NULL \<Longrightarrow> distinct xs"
proof (induction xs arbitrary: h pr)
  case (Cons x xs)
  have "x \<notin> set xs"
  proof
    assume "x \<in> set xs"
    then obtain ys zs where xs: "xs = ys @ x # zs" by (meson split_list)
    from Cons.prems have "dseg n p x (n x) xs la NULL" by simp
    then obtain k where "dseg n p k x (x # zs) la NULL"
      unfolding xs dseg_append by auto
    then have "dseg n p x (n x) zs la NULL" by simp
    with Cons.prems have "xs = zs" by (auto dest: dseg_unique)
    then show False by (simp add: xs)
  qed
  with Cons show ?case by auto
qed simp

lemma dseg_last: "dseg n p pr h xs la nx \<Longrightarrow> la = (if xs = [] then pr else last xs)"
  by (induction xs arbitrary: pr h) auto

lemma dseg_head: "dseg n p pr h xs la nx \<Longrightarrow> h = (if xs = [] then nx else hd xs)"
  by (cases xs) auto

text \<open>Redirecting the \<open>next\<close> field of the last cell moves the end of the segment.\<close>

lemma dseg_redirect:
  assumes "dseg n p pr h (xs @ [x]) la nx" and "distinct (xs @ [x])"
    and "\<And>a. a \<in> set xs \<Longrightarrow> n' a = n a" and "n' x = m"
    and "\<And>a. a \<in> set (xs @ [x]) \<Longrightarrow> p' a = p a"
  shows "dseg n' p' pr h (xs @ [x]) x m"
proof -
  from assms(1) obtain k where "dseg n p pr h xs k x" and "x \<noteq> NULL" and "p x = k"
    by (auto simp: dseg_append)
  moreover have "dseg n' p' pr h xs k x = dseg n p pr h xs k x"
    by (rule dseg_cong) (use assms in auto)
  ultimately show ?thesis using assms by (auto simp: dseg_append)
qed

text \<open>Changing the \<open>prev\<close> field of the first cell.\<close>

lemma dseg_reprev:
  assumes "dseg n p pr h (x # xs) la nx" and "distinct (x # xs)"
    and "\<And>a. a \<in> set (x # xs) \<Longrightarrow> n' a = n a" and "p' x = q"
    and "\<And>a. a \<in> set xs \<Longrightarrow> p' a = p a"
  shows "dseg n' p' q h (x # xs) la nx"
proof -
  have "dseg n' p' x (n x) xs la nx = dseg n p x (n x) xs la nx"
    by (rule dseg_cong) (use assms in auto)
  with assms show ?thesis by auto
qed

section \<open>Whole lists\<close>

lemma dll_distinct: "dll n p h xs t \<Longrightarrow> distinct xs"
  by (auto simp: dll_def dest: dseg_distinct)

lemma dll_null: "dll n p h xs t \<Longrightarrow> NULL \<notin> set xs"
  by (auto simp: dll_def dest: dseg_null)

lemma dll_unique: "dll n p h xs t \<Longrightarrow> dll n p h ys t' \<Longrightarrow> xs = ys"
  by (auto simp: dll_def dest: dseg_unique)

lemma dll_Nil [simp]: "dll n p h [] t \<longleftrightarrow> h = NULL \<and> t = NULL"
  by (simp add: dll_def)

lemma dll_head: "dll n p h xs t \<Longrightarrow> h = (if xs = [] then NULL else hd xs)"
  by (auto simp: dll_def dest: dseg_head)

lemma dll_head_NULL [simp]: "dll n p NULL xs t \<longleftrightarrow> xs = [] \<and> t = NULL"
  by (cases xs) (auto simp: dll_def)

lemma dll_head_not_NULL: "dll n p h xs t \<Longrightarrow> h \<noteq> NULL \<Longrightarrow> \<exists>ys. xs = h # ys"
  by (cases xs) (auto simp: dll_def)

lemma dll_tail: "dll n p h xs t \<Longrightarrow> t = (if xs = [] then NULL else last xs)"
  by (auto simp: dll_def dest: dseg_last)

lemma dll_tail_NULL: "dll n p h xs t \<Longrightarrow> t = NULL \<longleftrightarrow> xs = []"
  by (metis dll_null dll_tail last_in_set)

lemma dll_cong:
  assumes "\<And>a. a \<in> set xs \<Longrightarrow> n' a = n a" and "\<And>a. a \<in> set xs \<Longrightarrow> p' a = p a"
  shows "dll n' p' h xs t = dll n p h xs t"
  unfolding dll_def by (rule dseg_cong) (use assms in auto)

text \<open>The neighbours that the two fields of a member name.\<close>

lemma dll_neighbours:
  assumes "dll n p h (xs @ x # ys) t"
  shows "p x = (if xs = [] then NULL else last xs)" and "n x = (if ys = [] then NULL else hd ys)"
    and "x \<noteq> NULL"
proof -
  from assms obtain k where a: "dseg n p NULL h xs k x" and "p x = k"
    and b: "dseg n p x (n x) ys t NULL" and "x \<noteq> NULL"
    by (auto simp: dll_def dseg_append)
  then show "p x = (if xs = [] then NULL else last xs)" "n x = (if ys = [] then NULL else hd ys)"
    "x \<noteq> NULL"
    using dseg_last [OF a] dseg_head [OF b] by auto
qed

lemma dll_prev_NULL: "dll n p h (xs @ x # ys) t \<Longrightarrow> p x = NULL \<longleftrightarrow> xs = []"
  by (metis dll_neighbours(1) dll_null last_in_set Un_iff set_append)

lemma dll_next_NULL: "dll n p h (xs @ x # ys) t \<Longrightarrow> n x = NULL \<longleftrightarrow> ys = []"
  by (metis dll_neighbours(2) dll_null hd_in_set Un_iff set_append list.set_intros(2))

section \<open>Push and unlink\<close>

lemma dll_push_front:
  assumes "dll n p h xs t" and "x \<noteq> NULL" and "x \<notin> set xs"
    and "n' x = h" and "p' x = NULL" and "h \<noteq> NULL \<Longrightarrow> p' h = x"
    and "\<And>a. a \<in> set xs \<Longrightarrow> n' a = n a" and "\<And>a. a \<in> set xs \<Longrightarrow> a \<noteq> h \<Longrightarrow> p' a = p a"
  shows "dll n' p' x (x # xs) (if xs = [] then x else t)"
proof (cases xs)
  case Nil
  with assms show ?thesis by (auto simp: dll_def)
next
  case (Cons y ys)
  with assms(1) have h: "h = y" "y \<noteq> NULL" "y \<notin> set ys"
    using dll_distinct [OF assms(1)] by (auto simp: dll_def)
  have "dseg n' p' x h (y # ys) t NULL"
  proof (rule dseg_reprev [where p = p and n = n and pr = NULL])
    show "dseg n p NULL h (y # ys) t NULL" using assms(1) Cons by (simp add: dll_def)
    show "distinct (y # ys)" using dll_distinct [OF assms(1)] Cons by simp
  qed (use assms Cons h in auto)
  with assms Cons show ?thesis by (simp add: dll_def)
qed

lemma dll_push_back:
  assumes "dll n p h xs t" and "x \<noteq> NULL" and "x \<notin> set xs"
    and "n' x = NULL" and "p' x = t" and "t \<noteq> NULL \<Longrightarrow> n' t = x"
    and "\<And>a. a \<in> set xs \<Longrightarrow> a \<noteq> t \<Longrightarrow> n' a = n a" and "\<And>a. a \<in> set xs \<Longrightarrow> p' a = p a"
  shows "dll n' p' (if xs = [] then x else h) (xs @ [x]) x"
proof (cases xs rule: rev_cases)
  case Nil
  with assms show ?thesis by (auto simp: dll_def)
next
  case (snoc ys y)
  with assms(1) have t: "t = y" "t \<noteq> NULL"
    using dll_tail [OF assms(1)] dll_null [OF assms(1)] by auto
  have "dseg n' p' NULL h (ys @ [y]) y x"
  proof (rule dseg_redirect [where p = p and n = n])
    show "dseg n p NULL h (ys @ [y]) t NULL" using assms(1) snoc by (simp add: dll_def)
    show "distinct (ys @ [y])" using dll_distinct [OF assms(1)] snoc by simp
    show "n' a = n a" if "a \<in> set ys" for a
      using assms(7) [of a] that snoc t dll_distinct [OF assms(1)] by auto
  qed (use assms snoc t in auto)
  with assms snoc t show ?thesis
    by (simp only: dll_def dseg_append) auto
qed

lemma dll_unlink:
  assumes d: "dll n p h (xs @ x # ys) t"
    and np: "p x \<noteq> NULL \<Longrightarrow> n' (p x) = n x" and pn: "n x \<noteq> NULL \<Longrightarrow> p' (n x) = p x"
    and n: "\<And>a. a \<in> set (xs @ ys) \<Longrightarrow> a \<noteq> p x \<Longrightarrow> n' a = n a"
    and p: "\<And>a. a \<in> set (xs @ ys) \<Longrightarrow> a \<noteq> n x \<Longrightarrow> p' a = p a"
  shows "dll n' p' (if p x = NULL then n x else h) (xs @ ys) (if n x = NULL then p x else t)"
proof -
  have dist: "distinct (xs @ x # ys)" using d by (rule dll_distinct)
  from d obtain k where a: "dseg n p NULL h xs k x" and px: "p x = k"
    and b: "dseg n p x (n x) ys t NULL" and x: "x \<noteq> NULL"
    by (auto simp: dll_def dseg_append)
  have nx: "n x = (if ys = [] then NULL else hd ys)" using dseg_head [OF b] .
  have kx: "k = (if xs = [] then NULL else last xs)" using dseg_last [OF a] .
  have kys: "k \<notin> set ys"
    using kx dist dll_null [OF d] by (auto dest: last_in_set split: if_splits)
  have nxs: "n x \<notin> set xs"
    using nx dist dll_null [OF d] by (auto dest: hd_in_set split: if_splits)
  have b': "dseg n' p' k (n x) ys (if n x = NULL then k else t) NULL"
  proof (cases ys)
    case Nil
    with nx b show ?thesis by auto
  next
    case (Cons y zs)
    then have "y \<noteq> NULL" "n x = y" using b by auto
    moreover have "dseg n' p' k (n x) (y # zs) t NULL"
    proof (rule dseg_reprev [where p = p and n = n and pr = x])
      show "n' a = n a" if "a \<in> set (y # zs)" for a
        using that n [of a] kys px Cons by auto
    qed (use b Cons dist px pn p \<open>y \<noteq> NULL\<close> \<open>n x = y\<close> in auto)
    ultimately show ?thesis using Cons by simp
  qed
  show ?thesis
  proof (cases xs rule: rev_cases)
    case Nil
    with b' kx px show ?thesis by (cases "n x = NULL") (simp_all add: dll_def)
  next
    case (snoc zs z)
    then have z: "k = z" "z \<noteq> NULL" using kx dll_null [OF d] by auto
    have "dseg n' p' NULL h (zs @ [z]) z (n x)"
    proof (rule dseg_redirect [where p = p and n = n and la = k and nx = x])
      show "p' a = p a" if "a \<in> set (zs @ [z])" for a
        using that p [of a] nxs snoc by auto
    qed (use a snoc dist np px z n in auto)
    with b' snoc z px show ?thesis by (simp only: dll_def dseg_append) auto
  qed
qed

section \<open>Singly linked chains\<close>

text \<open>From \<open>h\<close>, following \<open>n\<close>, the cells \<open>xs\<close> are met before \<open>NULL\<close>.\<close>

fun chain :: "(u64 \<Rightarrow> u64) \<Rightarrow> u64 \<Rightarrow> u64 list \<Rightarrow> bool" where
  "chain n h [] \<longleftrightarrow> h = NULL"
| "chain n h (x # xs) \<longleftrightarrow> h = x \<and> x \<noteq> NULL \<and> chain n (n x) xs"

lemma dseg_chain: "dseg n p pr h xs la NULL \<Longrightarrow> chain n h xs"
  by (induction xs arbitrary: pr h) auto

lemma chain_cong: "(\<And>a. a \<in> set xs \<Longrightarrow> n' a = n a) \<Longrightarrow> chain n' h xs = chain n h xs"
  by (induction xs arbitrary: h) auto

lemma chain_not_NULL: "chain n h xs \<Longrightarrow> NULL \<notin> set xs"
  by (induction xs arbitrary: h) auto

lemma chain_head: "chain n h xs \<Longrightarrow> h = (if xs = [] then NULL else hd xs)"
  by (cases xs) auto

lemma chain_head_NULL [simp]: "chain n NULL xs \<longleftrightarrow> xs = []"
  by (cases xs) auto

lemma chain_unlink:
  assumes "chain n h (xs @ x # ys)" and "distinct (xs @ x # ys)"
    and "\<And>a. a \<in> set (xs @ ys) \<Longrightarrow> xs = [] \<or> a \<noteq> last xs \<Longrightarrow> n' a = n a"
    and "xs \<noteq> [] \<Longrightarrow> n' (last xs) = n x"
  shows "chain n' (if xs = [] then n x else h) (xs @ ys)"
  using assms
proof (induction xs arbitrary: h)
  case Nil
  then have "chain n' (n x) ys = chain n (n x) ys" by (intro chain_cong) auto
  with Nil show ?case by simp
next
  case (Cons y xs)
  have "chain n' (if xs = [] then n x else n y) (xs @ ys)"
    by (rule Cons.IH) (use Cons.prems in \<open>auto split: if_splits\<close>)
  moreover have "n' y = (if xs = [] then n x else n y)"
  proof (cases "xs = []")
    case False
    then have "y \<noteq> last xs" using Cons.prems(2) last_in_set [of xs] by fastforce
    with False show ?thesis using Cons.prems(3) [of y] by simp
  qed (use Cons.prems(4) in simp)
  ultimately show ?case using Cons.prems(1) by auto
qed

section \<open>The queue interface\<close>

text \<open>
  What the scheduler and the wait queues rely on: a state that represents a list of addresses,
  with an insertion at the end, a removal at the front and an unlink of a member.
\<close>

locale intrusive_queue =
  fixes repr :: "'s \<Rightarrow> u64 list \<Rightarrow> bool"
    and push :: "u64 \<Rightarrow> 's \<Rightarrow> 's"
    and pop :: "'s \<Rightarrow> u64 \<times> 's"
    and unlink :: "u64 \<Rightarrow> 's \<Rightarrow> 's"
  assumes repr_distinct: "repr s xs \<Longrightarrow> distinct xs \<and> NULL \<notin> set xs"
    and repr_unique: "repr s xs \<Longrightarrow> repr s ys \<Longrightarrow> xs = ys"
    and push_repr: "repr s xs \<Longrightarrow> x \<noteq> NULL \<Longrightarrow> x \<notin> set xs \<Longrightarrow> repr (push x s) (xs @ [x])"
    and pop_empty: "repr s [] \<Longrightarrow> pop s = (NULL, s)"
    and pop_repr: "repr s (x # xs) \<Longrightarrow> fst (pop s) = x \<and> repr (snd (pop s)) xs"
    and unlink_repr: "repr s (xs @ x # ys) \<Longrightarrow> repr (unlink x s) (xs @ ys)"
begin

fun pops :: "nat \<Rightarrow> 's \<Rightarrow> u64 list \<times> 's" where
  "pops 0 s = ([], s)"
| "pops (Suc k) s = (let (x, s1) = pop s; (xs, s2) = pops k s1 in (x # xs, s2))"

lemma push_all_repr:
  "repr s xs \<Longrightarrow> distinct (xs @ ys) \<Longrightarrow> NULL \<notin> set ys \<Longrightarrow> repr (fold push ys s) (xs @ ys)"
proof (induction ys arbitrary: s xs)
  case (Cons y ys)
  have "repr (push y s) (xs @ [y])" using Cons.prems by (intro push_repr) auto
  from Cons.IH [OF this] Cons.prems show ?case by simp
qed simp

lemma pops_repr: "repr s (xs @ ys) \<Longrightarrow> fst (pops (length xs) s) = xs \<and> repr (snd (pops (length xs) s)) ys"
proof (induction xs arbitrary: s)
  case (Cons x xs)
  then have "fst (pop s) = x" "repr (snd (pop s)) (xs @ ys)" using pop_repr [of s x] by auto
  with Cons.IH [of "snd (pop s)"] show ?case by (simp add: case_prod_beta Let_def)
qed simp

text \<open>First in, first out: what is pushed on an empty queue comes out in the same order.\<close>

lemma fifo:
  assumes "repr s []" and "distinct ys" and "NULL \<notin> set ys"
  shows "fst (pops (length ys) (fold push ys s)) = ys \<and>
    pop (snd (pops (length ys) (fold push ys s))) = (NULL, snd (pops (length ys) (fold push ys s)))"
proof -
  have "repr (fold push ys s) (ys @ [])" using push_all_repr [of s "[]" ys] assms by simp
  from pops_repr [OF this] show ?thesis using pop_empty by auto
qed

text \<open>A member can leave from anywhere, and the others keep their order.\<close>

lemma unlink_member:
  assumes "repr s xs" and "x \<in> set xs"
  shows "repr (unlink x s) (remove1 x xs)"
proof -
  obtain ys zs where xs: "xs = ys @ x # zs" using assms(2) by (meson split_list)
  then have "x \<notin> set ys" using repr_distinct [OF assms(1)] by auto
  with unlink_repr [of s ys x zs] assms(1) show ?thesis by (simp add: xs remove1_append)
qed

end

end
