(* ===== verification/Slist.thy ===== *)
theory Slist
  imports Dll "HOL-Library.Monad_Syntax"
begin

text \<open>
  Removal from a singly linked list the way the kernel writes it: a pointer walks over the links until
  the link that leads to the element is found, and that link is overwritten. The locale states what
  the walk needs of the links; the process list, the children of a process and its threads interpret it.
\<close>

locale link_walk =
  fixes nxt :: "'s \<Rightarrow> u64 \<Rightarrow> u64"
    and front :: "'s \<Rightarrow> u64"
    and set_nxt :: "u64 \<Rightarrow> u64 \<Rightarrow> 's \<Rightarrow> 's"
    and set_front :: "u64 \<Rightarrow> 's \<Rightarrow> 's"
    and walk_off :: "u64 \<Rightarrow> u64 \<Rightarrow> u64 \<Rightarrow> 's \<Rightarrow> 's option"
  assumes nxt_set_nxt: "nxt (set_nxt p v s) = (nxt s)(p := v)"
    and front_set_nxt: "p \<noteq> NULL \<Longrightarrow> front (set_nxt p v s) = front s"
    and nxt_set_front: "nxt (set_front v s) = nxt s"
    and front_set_front: "front (set_front v s) = v"
    and walk_unfold: "walk_off x prev cur s =
      (if cur = NULL then Some s
       else if cur = x then Some (if prev = NULL then set_front (nxt s x) s else set_nxt prev (nxt s x) s)
       else walk_off x cur (nxt s cur) s)"
begin

lemma walk_finds:
  assumes "chain (nxt s) cur (ys @ x # zs)" and "x \<notin> set ys"
  shows "walk_off x prev cur s =
    (let pr = (if ys = [] then prev else last ys)
     in Some (if pr = NULL then set_front (nxt s x) s else set_nxt pr (nxt s x) s))"
  using assms
proof (induction ys arbitrary: prev cur)
  case Nil
  then show ?case by (subst walk_unfold) simp
next
  case (Cons y ys)
  then have "walk_off x prev cur s = walk_off x y (nxt s y) s" by (subst walk_unfold) auto
  also have "\<dots> = (let pr = (if ys = [] then y else last ys)
     in Some (if pr = NULL then set_front (nxt s x) s else set_nxt pr (nxt s x) s))"
    by (rule Cons.IH) (use Cons.prems in auto)
  finally show ?case by simp
qed

lemma walk_misses: "chain (nxt s) cur xs \<Longrightarrow> x \<notin> set xs \<Longrightarrow> walk_off x prev cur s = Some s"
proof (induction xs arbitrary: prev cur)
  case Nil
  then show ?case by (subst walk_unfold) simp
next
  case (Cons y ys)
  then show ?case by (subst walk_unfold) auto
qed

lemma walk_removes:
  assumes "chain (nxt s) (front s) xs" and "distinct xs"
  obtains t where "walk_off x NULL (front s) s = Some t" "chain (nxt t) (front t) (remove1 x xs)"
    "t = s \<or> (\<exists>v. t = set_front v s) \<or> (\<exists>p v. p \<in> set xs \<and> p \<noteq> NULL \<and> t = set_nxt p v s)"
proof (cases "x \<in> set xs")
  case True
  then obtain ys zs where xs: "xs = ys @ x # zs" "x \<notin> set ys" by (meson split_list_first)
  have d: "distinct (ys @ x # zs)" and c: "chain (nxt s) (front s) (ys @ x # zs)" using assms xs by simp_all
  have r: "remove1 x xs = ys @ zs" using xs by (simp add: remove1_append)
  note w = walk_finds [OF c xs(2), of NULL]
  show thesis
  proof (cases "ys = []")
    case True
    let ?t = "set_front (nxt s x) s"
    have "chain (nxt ?t) (front ?t) (remove1 x xs)"
      using c True by (simp add: r nxt_set_front front_set_front)
    then show thesis using w True that [of ?t] by auto
  next
    case False
    let ?t = "set_nxt (last ys) (nxt s x) s"
    have l: "last ys \<noteq> NULL" using chain_not_NULL [OF c] last_in_set [OF False] by (metis Un_iff set_append)
    have "chain (nxt ?t) (if ys = [] then nxt s x else front s) (ys @ zs)"
      by (rule chain_unlink [OF c d]) (use False in \<open>auto simp: nxt_set_nxt\<close>)
    then have "chain (nxt ?t) (front ?t) (remove1 x xs)" using False by (simp add: r front_set_nxt [OF l])
    moreover have "last ys \<in> set xs" using False xs last_in_set [of ys] by simp
    ultimately show thesis using w False l that [of ?t] by (auto simp: Let_def)
  qed
next
  case False
  then show thesis using walk_misses [OF assms(1) False] assms(1) that [of s] by (simp add: remove1_idem)
qed

end

end
