(* ===== verification/Pfn_Db.thy ===== *)
theory Pfn_Db
  imports Lapis_Prelude
begin

text \<open>
  The page-frame database of \<^verbatim>\<open>mm/pfn_db.c\<close> and the page descriptor of \<^verbatim>\<open>mm/page.h\<close>: one
  \<^verbatim>\<open>page_t\<close> (64 bytes) per frame in the array \<open>mem_map\<close>, built from the boot loader's memory map.
  A \<^verbatim>\<open>page_t *\<close> is its address; \<open>page_at\<close> holds the descriptors by address. The two unions of
  \<^verbatim>\<open>page_t\<close> are one word each: \<open>u1\<close> is the \<^verbatim>\<open>next\<close> link, \<open>u2\<close> is the \<^verbatim>\<open>prev\<close> link or the
  \<^verbatim>\<open>sharecount\<close>, whichever the code last stored.

  The memory map comes from the Limine boot protocol, whose header is not part of the
  repository: the numeric value of \<^verbatim>\<open>LIMINE_MEMMAP_USABLE\<close> is the argument \<open>usable\<close>.
\<close>

section \<open>Page descriptors\<close>

record page =
  u1_next :: u64
  u2 :: u64
  pg_flags :: u64
  refcount :: u32

abbreviation (input) PAGE_FREE :: u32 where "PAGE_FREE \<equiv> 1"
abbreviation (input) PAGE_ALLOCATED :: u32 where "PAGE_ALLOCATED \<equiv> 2"
abbreviation (input) PAGE_RESERVED :: u32 where "PAGE_RESERVED \<equiv> 4"
abbreviation (input) PAGE_SHARED :: u32 where "PAGE_SHARED \<equiv> 8"
abbreviation (input) PAGE_COW :: u32 where "PAGE_COW \<equiv> 16"
abbreviation (input) PAGE_DIRTY :: u32 where "PAGE_DIRTY \<equiv> 32"

text \<open>
  The flag macros are \<^verbatim>\<open>unsigned int\<close>, the field is 64 bits wide: \<^verbatim>\<open>flags & ~m\<close> complements in 32
  bits and so clears the upper half of the field as well.
\<close>

definition set_flags :: "u64 \<Rightarrow> u32 \<Rightarrow> u64" where
  "set_flags f m = f OR ucast m"

definition clear_flags :: "u64 \<Rightarrow> u32 \<Rightarrow> u64" where
  "clear_flags f m = f AND ucast (NOT m)"

definition has_flag :: "u64 \<Rightarrow> u32 \<Rightarrow> bool" where
  "has_flag f m \<longleftrightarrow> f AND ucast m \<noteq> 0"

definition is_page_free :: "page \<Rightarrow> bool" where
  "is_page_free p \<longleftrightarrow> has_flag (pg_flags p) PAGE_FREE"

definition is_page_reserved :: "page \<Rightarrow> bool" where
  "is_page_reserved p \<longleftrightarrow> has_flag (pg_flags p) PAGE_RESERVED"

definition is_page_shared :: "page \<Rightarrow> bool" where
  "is_page_shared p \<longleftrightarrow> has_flag (pg_flags p) PAGE_SHARED"

definition is_page_cow :: "page \<Rightarrow> bool" where
  "is_page_cow p \<longleftrightarrow> has_flag (pg_flags p) PAGE_COW"

definition is_page_dirty :: "page \<Rightarrow> bool" where
  "is_page_dirty p \<longleftrightarrow> has_flag (pg_flags p) PAGE_DIRTY"

section \<open>The database\<close>

record pfn_db =
  mem_map :: u64
  max_pfn :: u64
  db_phys :: u64
  hhdm_offset :: u64
  page_at :: "u64 \<Rightarrow> page"

definition PHYS_TO_VIRT :: "'a pfn_db_scheme \<Rightarrow> u64 \<Rightarrow> u64" where
  "PHYS_TO_VIRT d p = p + hhdm_offset d"

definition VIRT_TO_PHYS :: "'a pfn_db_scheme \<Rightarrow> u64 \<Rightarrow> u64" where
  "VIRT_TO_PHYS d p = p - hhdm_offset d"

text \<open>\<^verbatim>\<open>&mem_map[i]\<close>\<close>

definition page_ptr :: "'a pfn_db_scheme \<Rightarrow> u64 \<Rightarrow> u64" where
  "page_ptr d i = mem_map d + i * 64"

definition upd_page :: "u64 \<Rightarrow> (page \<Rightarrow> page) \<Rightarrow> 'a pfn_db_scheme \<Rightarrow> 'a pfn_db_scheme" where
  "upd_page p f d = d\<lparr>page_at := (page_at d)(p := f (page_at d p))\<rparr>"

record memmap_entry =
  e_base :: u64
  e_length :: u64
  e_type :: u64

definition pfn_db_calc_max_pfn :: "u64 \<Rightarrow> memmap_entry list \<Rightarrow> u64" where
  "pfn_db_calc_max_pfn usable es =
     fold (\<lambda>e m. if e_type e \<noteq> usable then m
                 else let fin = (e_base e + e_length e + PAGE_SIZE - 1) div PAGE_SIZE
                      in if m < fin then fin else m) es 0"

text \<open>Where the array goes: the first usable region large enough gives up its beginning.\<close>

fun reserve_in :: "u64 \<Rightarrow> u64 \<Rightarrow> memmap_entry list \<Rightarrow> (u64 \<times> memmap_entry list) option" where
  "reserve_in usable sz [] = None"
| "reserve_in usable sz (e # es) =
     (if e_type e \<noteq> usable \<or> e_length e < sz
      then map_option (\<lambda>(p, es'). (p, e # es')) (reserve_in usable sz es)
      else Some (e_base e, e\<lparr>e_base := e_base e + sz, e_length := e_length e - sz\<rparr> # es))"

definition db_size :: "u64 \<Rightarrow> u64" where
  "db_size mx = ((mx + 1) * 64 + PAGE_SIZE - 1) AND NOT (PAGE_SIZE - 1)"

definition pfn_db_reserve :: "u64 \<Rightarrow> u64 \<Rightarrow> memmap_entry list \<Rightarrow> (u64 \<times> memmap_entry list) option" where
  "pfn_db_reserve usable mx es = reserve_in usable (db_size mx) es"

definition init_page :: "u64 \<Rightarrow> 'a pfn_db_scheme \<Rightarrow> 'a pfn_db_scheme" where
  "init_page i d =
     upd_page (page_ptr d i)
       (\<lambda>p. p\<lparr>pg_flags := ucast PAGE_RESERVED, refcount := 0,
             u1_next := (if i < max_pfn d then page_ptr d (i + 1) else NULL)\<rparr>) d"

definition mark_free :: "u64 \<Rightarrow> 'a pfn_db_scheme \<Rightarrow> 'a pfn_db_scheme" where
  "mark_free i d =
     upd_page (page_ptr d i)
       (\<lambda>p. p\<lparr>pg_flags := set_flags (clear_flags (pg_flags p) (PAGE_RESERVED OR PAGE_ALLOCATED))
                            PAGE_FREE\<rparr>) d"

text \<open>The frames of a usable region: from \<open>start\<close> while below \<open>end\<close> and within the array.\<close>

definition region_pfns :: "u64 \<Rightarrow> memmap_entry \<Rightarrow> u64 list" where
  "region_pfns mx e =
     (let start = e_base e div PAGE_SIZE; fin = (e_base e + e_length e) div PAGE_SIZE
      in map of_nat [unat start ..< min (unat fin) (Suc (unat mx))])"

definition mark_regions :: "u64 \<Rightarrow> u64 \<Rightarrow> memmap_entry list \<Rightarrow> 'a pfn_db_scheme \<Rightarrow> 'a pfn_db_scheme" where
  "mark_regions usable mx es d =
     fold (\<lambda>e t. if e_type e \<noteq> usable then t else fold mark_free (region_pfns mx e) t) es d"

definition all_pfns :: "u64 \<Rightarrow> u64 list" where
  "all_pfns mx = map of_nat [0 ..< Suc (unat mx)]"

definition pfn_db_init ::
  "u64 \<Rightarrow> memmap_entry list \<Rightarrow> 'a pfn_db_scheme \<Rightarrow> ('a pfn_db_scheme \<times> memmap_entry list) option" where
  "pfn_db_init usable es d =
     (let mx = pfn_db_calc_max_pfn usable es in
      case pfn_db_reserve usable mx es of None \<Rightarrow> None
      | Some (phys, es') \<Rightarrow>
          let d1 = d\<lparr>max_pfn := mx, db_phys := phys\<rparr>;
              d2 = d1\<lparr>mem_map := PHYS_TO_VIRT d1 phys\<rparr>
          in if mem_map d2 = NULL then None
             else let d3 = fold init_page (all_pfns mx) d2;
                      d4 = mark_regions usable mx es' d3;
                      d5 = upd_page (page_ptr d4 0)
                             (\<lambda>p. p\<lparr>pg_flags := ucast PAGE_RESERVED, refcount := 0\<rparr>) d4
                  in Some (d5, es'))"

definition pfn_db_pfnaddr :: "'a pfn_db_scheme \<Rightarrow> u64 \<Rightarrow> u64" where
  "pfn_db_pfnaddr d pfn = (if max_pfn d < pfn then 0 else pfn * PAGE_SIZE)"

definition pfn_db_getptr :: "'a pfn_db_scheme \<Rightarrow> u64 \<Rightarrow> u64" where
  "pfn_db_getptr d pfn = (if max_pfn d < pfn then NULL else page_ptr d pfn)"

definition pfn_db_getpfn :: "'a pfn_db_scheme \<Rightarrow> u64 \<Rightarrow> u64" where
  "pfn_db_getpfn d pg =
     (if pg = NULL \<or> mem_map d = NULL then -1
      else if pg < mem_map d \<or> page_ptr d (max_pfn d) < pg then -1
      else (pg - mem_map d) div 64)"

definition pfn_db_page_to_phys :: "'a pfn_db_scheme \<Rightarrow> u64 \<Rightarrow> u64" where
  "pfn_db_page_to_phys d pg =
     (if pg = NULL \<or> mem_map d = NULL then 0
      else if pg < mem_map d \<or> page_ptr d (max_pfn d) < pg then 0
      else (pg - mem_map d) div 64 * PAGE_SIZE)"

definition pfn_db_phys_to_page :: "'a pfn_db_scheme \<Rightarrow> u64 \<Rightarrow> u64" where
  "pfn_db_phys_to_page d phys =
     (let pfn = phys div PAGE_SIZE in if max_pfn d < pfn then NULL else page_ptr d pfn)"

text \<open>The array is mapped, does not wrap around the address space, and frame numbers are
  those of 64-bit physical addresses.\<close>

definition db_wf :: "'a pfn_db_scheme \<Rightarrow> bool" where
  "db_wf d \<longleftrightarrow> mem_map d \<noteq> NULL \<and> unat (mem_map d) + 64 * (unat (max_pfn d) + 1) \<le> 2 ^ 64 \<and>
     unat (max_pfn d) < 2 ^ 52"

section \<open>Flag words\<close>

lemma has_flag_bit [simp]:
  "has_flag f PAGE_FREE \<longleftrightarrow> bit f 0" "has_flag f PAGE_ALLOCATED \<longleftrightarrow> bit f 1"
  "has_flag f PAGE_RESERVED \<longleftrightarrow> bit f 2" "has_flag f PAGE_SHARED \<longleftrightarrow> bit f 3"
  "has_flag f PAGE_COW \<longleftrightarrow> bit f 4" "has_flag f PAGE_DIRTY \<longleftrightarrow> bit f 5"
  using and_exp_eq_0_iff_not_bit [of f 0] and_exp_eq_0_iff_not_bit [of f 1]
    and_exp_eq_0_iff_not_bit [of f 2] and_exp_eq_0_iff_not_bit [of f 3]
    and_exp_eq_0_iff_not_bit [of f 4] and_exp_eq_0_iff_not_bit [of f 5]
  by (simp_all add: has_flag_def)

lemma bit_set_flags [simp]: "bit (set_flags f m) n \<longleftrightarrow> bit f n \<or> bit m n"
  by (auto simp: set_flags_def bit_simps dest: bit_imp_le_length)

lemma bit_clear_flags [simp]: "n < 32 \<Longrightarrow> bit (clear_flags f m) n \<longleftrightarrow> bit f n \<and> \<not> bit m n"
  by (auto simp: clear_flags_def bit_simps)

lemmas page_flag_defs =
  is_page_free_def is_page_reserved_def is_page_shared_def is_page_cow_def is_page_dirty_def

section \<open>Pointers into the array\<close>

lemma unat_page_ptr:
  assumes "db_wf d" and "i \<le> max_pfn d"
  shows "unat (page_ptr d i) = unat (mem_map d) + 64 * unat i"
proof -
  have i: "unat i \<le> unat (max_pfn d)" using assms(2) by (simp add: word_le_nat_alt)
  with assms(1) have "unat (i * 64) = unat i * 64"
    by (subst unat_mult_no_wrap) (auto simp: db_wf_def)
  with assms(1) i show ?thesis
    unfolding page_ptr_def by (subst unat_add_no_wrap) (auto simp: db_wf_def)
qed

lemma page_ptr_inj:
  "db_wf d \<Longrightarrow> i \<le> max_pfn d \<Longrightarrow> j \<le> max_pfn d \<Longrightarrow> page_ptr d i = page_ptr d j \<longleftrightarrow> i = j"
  by (metis unat_page_ptr add_left_cancel mult_left_cancel word_unat_eq_iff zero_neq_numeral)

lemma page_ptr_not_NULL: "db_wf d \<Longrightarrow> i \<le> max_pfn d \<Longrightarrow> page_ptr d i \<noteq> NULL"
  using unat_page_ptr [of d i] by (auto simp: db_wf_def word_unat_eq_iff)

lemma page_ptr_diff: "(page_ptr d i - mem_map d) = i * 64"
  by (simp add: page_ptr_def)

lemma unat_le_mono: "(i::u64) \<le> j \<Longrightarrow> unat i \<le> unat j"
  by (simp add: word_le_nat_alt)

lemma page_ptr_in_array:
  assumes "db_wf d" and "i \<le> max_pfn d"
  shows "\<not> (page_ptr d i < mem_map d \<or> page_ptr d (max_pfn d) < page_ptr d i)"
  using assms unat_page_ptr [OF assms] unat_page_ptr [OF assms(1), of "max_pfn d"]
    unat_le_mono [OF assms(2)]
  by (auto simp: word_less_nat_alt)

lemma times_64_div: "db_wf d \<Longrightarrow> i \<le> max_pfn d \<Longrightarrow> i * 64 div 64 = i"
proof -
  assume a: "db_wf d" "i \<le> max_pfn d"
  then have "unat (i * 64) = unat i * 64"
    using unat_le_mono [OF a(2)] by (subst unat_mult_no_wrap) (auto simp: db_wf_def)
  then show ?thesis by (simp add: word_unat_eq_iff unat_div)
qed

lemma times_4096_div: "db_wf d \<Longrightarrow> i \<le> max_pfn d \<Longrightarrow> i * 0x1000 div 0x1000 = i"
proof -
  assume a: "db_wf d" "i \<le> max_pfn d"
  then have "unat (i * 0x1000) = unat i * 0x1000"
    using unat_le_mono [OF a(2)] by (subst unat_mult_no_wrap) (auto simp: db_wf_def)
  then show ?thesis by (simp add: word_unat_eq_iff unat_div)
qed

lemma getpfn_page_ptr: "db_wf d \<Longrightarrow> i \<le> max_pfn d \<Longrightarrow> pfn_db_getpfn d (page_ptr d i) = i"
  using page_ptr_in_array [of d i] page_ptr_not_NULL [of d i] times_64_div [of d i]
  by (auto simp: pfn_db_getpfn_def page_ptr_diff db_wf_def)

lemma page_to_phys_page_ptr:
  "db_wf d \<Longrightarrow> i \<le> max_pfn d \<Longrightarrow> pfn_db_page_to_phys d (page_ptr d i) = i * PAGE_SIZE"
  using page_ptr_in_array [of d i] page_ptr_not_NULL [of d i] times_64_div [of d i]
  by (auto simp: pfn_db_page_to_phys_def page_ptr_diff db_wf_def)

lemma phys_to_page_ptr:
  "db_wf d \<Longrightarrow> i \<le> max_pfn d \<Longrightarrow> pfn_db_phys_to_page d (i * PAGE_SIZE) = page_ptr d i"
  using times_4096_div [of d i] by (auto simp: pfn_db_phys_to_page_def dest: leD)

text \<open>The addresses of descriptors.\<close>

definition db_page :: "'a pfn_db_scheme \<Rightarrow> u64 \<Rightarrow> bool" where
  "db_page d p \<longleftrightarrow> (\<exists>i \<le> max_pfn d. p = page_ptr d i)"

lemma db_page_not_NULL: "db_wf d \<Longrightarrow> db_page d p \<Longrightarrow> p \<noteq> NULL"
  by (auto simp: db_page_def page_ptr_not_NULL)

section \<open>Building the database\<close>

lemma upd_page_fields [simp]:
  "mem_map (upd_page p f d) = mem_map d" "max_pfn (upd_page p f d) = max_pfn d"
  "db_phys (upd_page p f d) = db_phys d" "hhdm_offset (upd_page p f d) = hhdm_offset d"
  "page_at (upd_page p f d) = (page_at d)(p := f (page_at d p))"
  "page_ptr (upd_page p f d) = page_ptr d"
  by (auto simp: upd_page_def page_ptr_def)

lemma db_wf_cong:
  "mem_map d' = mem_map d \<Longrightarrow> max_pfn d' = max_pfn d \<Longrightarrow> db_wf d' = db_wf d"
  by (simp add: db_wf_def)

lemma init_page_fields [simp]:
  "mem_map (init_page i d) = mem_map d" "max_pfn (init_page i d) = max_pfn d"
  "page_ptr (init_page i d) = page_ptr d" "db_phys (init_page i d) = db_phys d"
  by (simp_all add: init_page_def)

lemma mark_free_fields [simp]:
  "mem_map (mark_free i d) = mem_map d" "max_pfn (mark_free i d) = max_pfn d"
  "page_ptr (mark_free i d) = page_ptr d" "db_phys (mark_free i d) = db_phys d"
  by (simp_all add: mark_free_def)

lemma fold_init_page:
  assumes "db_wf d" and "\<And>i. i \<in> set xs \<Longrightarrow> i \<le> max_pfn d" and "j \<le> max_pfn d"
  shows "mem_map (fold init_page xs d) = mem_map d \<and> max_pfn (fold init_page xs d) = max_pfn d \<and>
    (j \<in> set xs \<or> (pg_flags (page_at d (page_ptr d j)) = 4 \<and> refcount (page_at d (page_ptr d j)) = 0) \<longrightarrow>
     pg_flags (page_at (fold init_page xs d) (page_ptr d j)) = 4 \<and>
     refcount (page_at (fold init_page xs d) (page_ptr d j)) = 0)"
  using assms
proof (induction xs arbitrary: d)
  case (Cons i xs)
  have wf: "db_wf (init_page i d)" using Cons.prems by (simp add: db_wf_def)
  have eq: "page_ptr d j = page_ptr d i \<longleftrightarrow> j = i" using Cons.prems by (simp add: page_ptr_inj)
  have upd: "pg_flags (page_at (init_page i d) (page_ptr d i)) = 4"
    "refcount (page_at (init_page i d) (page_ptr d i)) = 0"
    "j \<noteq> i \<Longrightarrow> page_at (init_page i d) (page_ptr d j) = page_at d (page_ptr d j)"
    using eq by (simp_all add: init_page_def)
  from Cons.IH [OF wf] Cons.prems upd show ?case by (cases "j = i") auto
qed auto

text \<open>What marking a frame free does to its flag word.\<close>

definition free_word :: "u64 \<Rightarrow> u64" where
  "free_word f = set_flags (clear_flags f (PAGE_RESERVED OR PAGE_ALLOCATED)) PAGE_FREE"

lemma free_word_simps [simp]: "free_word 4 = 1" "free_word (free_word f) = free_word f"
proof -
  show "free_word 4 = 1" by (simp add: free_word_def set_flags_def clear_flags_def)
  show "free_word (free_word f) = free_word f"
    by (rule bit_word_eqI) (auto simp: free_word_def set_flags_def clear_flags_def bit_simps)
qed

lemma fold_mark_free:
  assumes "db_wf d" and "\<And>i. i \<in> set xs \<Longrightarrow> i \<le> max_pfn d" and "j \<le> max_pfn d"
  shows "mem_map (fold mark_free xs d) = mem_map d \<and> max_pfn (fold mark_free xs d) = max_pfn d \<and>
    pg_flags (page_at (fold mark_free xs d) (page_ptr d j)) =
       (if j \<in> set xs then free_word (pg_flags (page_at d (page_ptr d j)))
        else pg_flags (page_at d (page_ptr d j))) \<and>
    refcount (page_at (fold mark_free xs d) (page_ptr d j)) = refcount (page_at d (page_ptr d j))"
  using assms
proof (induction xs arbitrary: d)
  case (Cons i xs)
  have wf: "db_wf (mark_free i d)" using Cons.prems by (simp add: db_wf_def)
  have eq: "page_ptr d j = page_ptr d i \<longleftrightarrow> j = i" using Cons.prems by (simp add: page_ptr_inj)
  have upd: "pg_flags (page_at (mark_free i d) (page_ptr d i)) = free_word (pg_flags (page_at d (page_ptr d i)))"
    "refcount (page_at (mark_free i d) (page_ptr d i)) = refcount (page_at d (page_ptr d i))"
    "j \<noteq> i \<Longrightarrow> page_at (mark_free i d) (page_ptr d j) = page_at d (page_ptr d j)"
    using eq by (simp_all add: mark_free_def free_word_def)
  from Cons.IH [OF wf] Cons.prems upd show ?case by (cases "j = i") auto
qed auto

text \<open>The loop over the regions.\<close>

lemma unat_of_nat_below: "k < Suc (unat (mx::u64)) \<Longrightarrow> unat (of_nat k :: u64) = k"
proof -
  assume "k < Suc (unat mx)"
  then have "k < 18446744073709551616" using unat64_bound [of mx] by linarith
  then show ?thesis by (simp add: unat_of_nat)
qed

lemma region_pfns_iff:
  "j \<in> set (region_pfns mx e) \<longleftrightarrow>
     e_base e div PAGE_SIZE \<le> j \<and> j < (e_base e + e_length e) div PAGE_SIZE \<and> j \<le> mx"
proof
  let ?a = "unat (e_base e div PAGE_SIZE)" and ?b = "unat ((e_base e + e_length e) div PAGE_SIZE)"
  assume "j \<in> set (region_pfns mx e)"
  then obtain k where k: "j = of_nat k" "?a \<le> k" "k < ?b" "k < Suc (unat mx)"
    by (auto simp: region_pfns_def Let_def)
  then have "unat j = k" by (simp add: unat_of_nat_below)
  with k show "e_base e div PAGE_SIZE \<le> j \<and> j < (e_base e + e_length e) div PAGE_SIZE \<and> j \<le> mx"
    by (simp add: word_le_nat_alt word_less_nat_alt)
next
  assume "e_base e div PAGE_SIZE \<le> j \<and> j < (e_base e + e_length e) div PAGE_SIZE \<and> j \<le> mx"
  then show "j \<in> set (region_pfns mx e)"
    unfolding region_pfns_def Let_def set_map
    by (intro image_eqI [of _ _ "unat j"]) (simp_all add: word_le_nat_alt word_less_nat_alt)
qed

lemma all_pfns_iff: "j \<in> set (all_pfns mx) \<longleftrightarrow> j \<le> mx"
proof
  assume "j \<in> set (all_pfns mx)"
  then obtain k where k: "j = of_nat k" "k < Suc (unat mx)" by (auto simp: all_pfns_def simp del: upt_Suc)
  then have "unat j = k" by (simp add: unat_of_nat_below)
  with k show "j \<le> mx" by (simp add: word_le_nat_alt)
next
  assume "j \<le> mx"
  then show "j \<in> set (all_pfns mx)"
    unfolding all_pfns_def set_map
    by (intro image_eqI [of _ _ "unat j"]) (simp_all add: word_le_nat_alt less_Suc_eq_le del: upt_Suc)
qed

definition in_usable :: "u64 \<Rightarrow> memmap_entry list \<Rightarrow> u64 \<Rightarrow> bool" where
  "in_usable usable es j \<longleftrightarrow> (\<exists>e \<in> set es. e_type e = usable \<and>
     e_base e div PAGE_SIZE \<le> j \<and> j < (e_base e + e_length e) div PAGE_SIZE)"

lemma mark_regions_simps [simp]:
  "mark_regions usable mx [] d = d"
  "mark_regions usable mx (e # es) d =
     (if e_type e \<noteq> usable then mark_regions usable mx es d
      else mark_regions usable mx es (fold mark_free (region_pfns mx e) d))"
  by (simp_all add: mark_regions_def)

lemma fold_init_page_fields:
  "mem_map (fold init_page xs d) = mem_map d \<and> max_pfn (fold init_page xs d) = max_pfn d \<and>
   db_phys (fold init_page xs d) = db_phys d"
  by (rule fold_invariant [where P = "\<lambda>t. mem_map t = mem_map d \<and> max_pfn t = max_pfn d \<and> db_phys t = db_phys d"]) auto

lemma fold_mark_free_fields:
  "mem_map (fold mark_free xs d) = mem_map d \<and> max_pfn (fold mark_free xs d) = max_pfn d \<and>
   db_phys (fold mark_free xs d) = db_phys d"
  by (rule fold_invariant [where P = "\<lambda>t. mem_map t = mem_map d \<and> max_pfn t = max_pfn d \<and> db_phys t = db_phys d"]) auto

lemma mark_regions_fields:
  "mem_map (mark_regions usable mx es d) = mem_map d \<and> max_pfn (mark_regions usable mx es d) = max_pfn d \<and>
   db_phys (mark_regions usable mx es d) = db_phys d"
  by (induction es arbitrary: d) (simp_all add: fold_mark_free_fields)

lemma mark_regions_page:
  assumes "db_wf d" and "j \<le> max_pfn d" and "mx = max_pfn d"
  shows "pg_flags (page_at (mark_regions usable mx es d) (page_ptr d j)) =
      (if in_usable usable es j then free_word (pg_flags (page_at d (page_ptr d j)))
       else pg_flags (page_at d (page_ptr d j))) \<and>
    refcount (page_at (mark_regions usable mx es d) (page_ptr d j)) = refcount (page_at d (page_ptr d j))"
  using assms
proof (induction es arbitrary: d)
  case (Cons e es)
  show ?case
  proof (cases "e_type e = usable")
    case False
    then show ?thesis using Cons by (simp add: in_usable_def)
  next
    case True
    let ?d = "fold mark_free (region_pfns mx e) d"
    have r: "mem_map ?d = mem_map d \<and> max_pfn ?d = max_pfn d \<and>
      pg_flags (page_at ?d (page_ptr d j)) =
        (if j \<in> set (region_pfns mx e) then free_word (pg_flags (page_at d (page_ptr d j)))
         else pg_flags (page_at d (page_ptr d j))) \<and>
      refcount (page_at ?d (page_ptr d j)) = refcount (page_at d (page_ptr d j))"
      by (rule fold_mark_free) (use Cons.prems in \<open>auto simp: region_pfns_iff\<close>)
    then have "db_wf ?d" and "page_ptr ?d = page_ptr d"
      using Cons.prems by (auto simp: db_wf_def page_ptr_def)
    with Cons.IH [of ?d] Cons.prems r True show ?thesis
      by (auto simp: in_usable_def region_pfns_iff)
  qed
qed (simp add: in_usable_def)

lemma calc_max_pfn_small: "unat (pfn_db_calc_max_pfn usable es) < 2 ^ 52"
  unfolding pfn_db_calc_max_pfn_def
proof (rule fold_invariant)
  fix e :: memmap_entry and m :: u64
  have "unat (w div PAGE_SIZE) < 2 ^ 52" for w :: u64
    using unat64_bound [of w] by (simp add: unat_div less_mult_imp_div_less)
  moreover assume "unat m < 2 ^ 52"
  ultimately show "unat (if e_type e \<noteq> usable then m
      else let fin = (e_base e + e_length e + PAGE_SIZE - 1) div PAGE_SIZE
           in if m < fin then fin else m) < 2 ^ 52"
    by (simp add: Let_def)
qed simp

text \<open>The stages of \<open>pfn_db_init\<close>.\<close>

lemma pfn_db_init_stages:
  assumes "pfn_db_init usable es d = Some (d', es')"
  obtains phys d2 where "pfn_db_reserve usable (pfn_db_calc_max_pfn usable es) es = Some (phys, es')"
    and "d2 = d\<lparr>max_pfn := pfn_db_calc_max_pfn usable es, db_phys := phys, mem_map := phys + hhdm_offset d\<rparr>"
    and "mem_map d2 \<noteq> NULL"
    and "d' = upd_page (page_ptr d2 0) (\<lambda>p. p\<lparr>pg_flags := ucast PAGE_RESERVED, refcount := 0\<rparr>)
           (mark_regions usable (max_pfn d2) es' (fold init_page (all_pfns (max_pfn d2)) d2))"
    and "mem_map d' = mem_map d2" and "max_pfn d' = max_pfn d2" and "page_ptr d' = page_ptr d2"
proof -
  let ?mx = "pfn_db_calc_max_pfn usable es"
  from assms obtain phys where r: "pfn_db_reserve usable ?mx es = Some (phys, es')"
    by (auto simp: pfn_db_init_def Let_def split: option.splits if_splits)
  let ?d2 = "d\<lparr>max_pfn := ?mx, db_phys := phys, mem_map := phys + hhdm_offset d\<rparr>"
  let ?d4 = "mark_regions usable ?mx es' (fold init_page (all_pfns ?mx) ?d2)"
  have m: "mem_map ?d4 = mem_map ?d2 \<and> max_pfn ?d4 = max_pfn ?d2"
    by (simp add: mark_regions_fields fold_init_page_fields)
  then have p: "page_ptr ?d4 = page_ptr ?d2" by (auto simp: page_ptr_def)
  have "d' = upd_page (page_ptr ?d2 0) (\<lambda>p. p\<lparr>pg_flags := ucast PAGE_RESERVED, refcount := 0\<rparr>) ?d4"
    and "mem_map ?d2 \<noteq> NULL"
    using assms r p by (auto simp: pfn_db_init_def Let_def PHYS_TO_VIRT_def split: if_splits)
  with that [OF r refl] m p show thesis by simp
qed

lemma pfn_db_init_page:
  assumes "pfn_db_init usable es d = Some (d', es')" and "i \<le> max_pfn d'"
    and "unat (mem_map d') + 64 * (unat (max_pfn d') + 1) \<le> 2 ^ 64"
  shows "refcount (page_at d' (page_ptr d' i)) = 0 \<and>
    pg_flags (page_at d' (page_ptr d' i)) =
      (if i \<noteq> 0 \<and> in_usable usable es' i then ucast PAGE_FREE else ucast PAGE_RESERVED)"
proof -
  from assms(1) obtain phys d2 where d2: "mem_map d2 \<noteq> NULL"
      "d2 = d\<lparr>max_pfn := pfn_db_calc_max_pfn usable es, db_phys := phys, mem_map := phys + hhdm_offset d\<rparr>"
    and d': "d' = upd_page (page_ptr d2 0) (\<lambda>p. p\<lparr>pg_flags := ucast PAGE_RESERVED, refcount := 0\<rparr>)
        (mark_regions usable (max_pfn d2) es' (fold init_page (all_pfns (max_pfn d2)) d2))"
      "mem_map d' = mem_map d2" "max_pfn d' = max_pfn d2" "page_ptr d' = page_ptr d2"
    by (rule pfn_db_init_stages)
  define d3 where "d3 = fold init_page (all_pfns (max_pfn d2)) d2"
  have m: "mem_map d3 = mem_map d2" "max_pfn d3 = max_pfn d2" "page_ptr d3 = page_ptr d2"
    by (auto simp: d3_def fold_init_page_fields page_ptr_def)
  have wf: "db_wf d2" "db_wf d3"
    using assms(3) d'(2,3) d2 m(1,2) calc_max_pfn_small [of usable es] by (auto simp: db_wf_def)
  have i: "i \<le> max_pfn d2" using assms(2) d'(3) by simp
  have "pg_flags (page_at d3 (page_ptr d2 i)) = 4 \<and> refcount (page_at d3 (page_ptr d2 i)) = 0"
    using fold_init_page [OF wf(1), of "all_pfns (max_pfn d2)" i] i
    by (auto simp: d3_def all_pfns_iff)
  moreover have "i \<le> max_pfn d3" and "max_pfn d2 = max_pfn d3" using i m(2) by auto
  note mark_regions_page [OF wf(2) this, of usable es', unfolded m(3)]
  ultimately have "pg_flags (page_at (mark_regions usable (max_pfn d2) es' d3) (page_ptr d2 i)) =
      (if in_usable usable es' i then 1 else 4) \<and>
    refcount (page_at (mark_regions usable (max_pfn d2) es' d3) (page_ptr d2 i)) = 0"
    by simp
  moreover have "page_ptr d2 i = page_ptr d2 0 \<longleftrightarrow> i = 0"
    using page_ptr_inj [OF wf(1), of i 0] i by simp
  moreover have "page_at d' = (page_at (mark_regions usable (max_pfn d2) es' d3))(page_ptr d2 0 :=
      (page_at (mark_regions usable (max_pfn d2) es' d3) (page_ptr d2 0))\<lparr>pg_flags := 4, refcount := 0\<rparr>)"
    by (simp add: d'(1) d3_def)
  ultimately show ?thesis by (auto simp: d'(4))
qed

text \<open>
  What the boot protocol promises of usable regions: page aligned, within the address space, and
  disjoint from each other.
\<close>

definition entry_disjoint :: "memmap_entry \<Rightarrow> memmap_entry \<Rightarrow> bool" where
  "entry_disjoint a b \<longleftrightarrow>
     unat (e_base a) + unat (e_length a) \<le> unat (e_base b) \<or>
     unat (e_base b) + unat (e_length b) \<le> unat (e_base a)"

definition memmap_ok :: "u64 \<Rightarrow> memmap_entry list \<Rightarrow> bool" where
  "memmap_ok usable es \<longleftrightarrow>
     (\<forall>e \<in> set es. e_type e = usable \<longrightarrow> unat (e_base e) mod 4096 = 0 \<and>
        unat (e_base e) + unat (e_length e) < 2 ^ 64) \<and>
     sorted_wrt (\<lambda>a b. e_type a = usable \<longrightarrow> e_type b = usable \<longrightarrow> entry_disjoint a b) es"

lemma reserve_in_Some:
  "reserve_in usable sz es = Some (p, es') \<Longrightarrow>
   \<exists>pre e post. es = pre @ e # post \<and> e_type e = usable \<and> sz \<le> e_length e \<and> p = e_base e \<and>
     es' = pre @ e\<lparr>e_base := e_base e + sz, e_length := e_length e - sz\<rparr> # post"
proof (induction es arbitrary: es')
  case (Cons a es)
  show ?case
  proof (cases "e_type a \<noteq> usable \<or> e_length a < sz")
    case True
    with Cons.prems obtain es'' where "reserve_in usable sz es = Some (p, es'')" "es' = a # es''"
      by auto
    with Cons.IH [of es''] show ?thesis by (metis append_Cons)
  next
    case False
    with Cons.prems show ?thesis by (intro exI [of _ "[]"]) auto
  qed
qed simp

text \<open>A frame inside an aligned region, in terms of byte addresses.\<close>

lemma in_region_bytes:
  assumes "unat (e_base e) mod 4096 = 0" and "unat (e_base e) + unat (e_length e) < 2 ^ 64"
    and "e_base e div PAGE_SIZE \<le> i" and "i < (e_base e + e_length e) div PAGE_SIZE"
  shows "unat (e_base e) \<le> unat i * 4096 \<and> unat i * 4096 < unat (e_base e) + unat (e_length e)"
proof -
  have "unat (e_base e) div 4096 \<le> unat i"
    using assms(3) by (simp add: word_le_nat_alt unat_div)
  moreover have "unat (e_base e + e_length e) = unat (e_base e) + unat (e_length e)"
    using assms(2) by (simp add: unat_add_no_wrap)
  then have "unat i < (unat (e_base e) + unat (e_length e)) div 4096"
    using assms(4) by (simp add: word_less_nat_alt unat_div)
  ultimately show ?thesis using assms(1) by (auto simp: mod_eq_0_iff_dvd)
qed

lemma db_size_aligned:
  assumes "unat mx < 2 ^ 52"
  shows "unat (db_size mx) mod 4096 = 0"
  by (simp add: db_size_def and_neg_page_size unat_ALIGN_DOWN)

lemma in_usable_reserved:
  assumes r: "reserve_in usable sz es = Some (p, es')" and ok: "memmap_ok usable es"
    and sz: "unat sz mod 4096 = 0"
    and i: "unat p \<le> unat i * 4096" "unat i * 4096 < unat p + unat sz"
  shows "\<not> in_usable usable es' i"
proof
  assume "in_usable usable es' i"
  then obtain e where e: "e \<in> set es'" "e_type e = usable"
    "e_base e div PAGE_SIZE \<le> i" "i < (e_base e + e_length e) div PAGE_SIZE"
    by (auto simp: in_usable_def)
  from reserve_in_Some [OF r] obtain pre a post where
    es: "es = pre @ a # post" and a: "e_type a = usable" "sz \<le> e_length a" "p = e_base a"
    and es': "es' = pre @ a\<lparr>e_base := e_base a + sz, e_length := e_length a - sz\<rparr> # post"
    by blast
  let ?a = "a\<lparr>e_base := e_base a + sz, e_length := e_length a - sz\<rparr>"
  have oka: "unat (e_base a) mod 4096 = 0" "unat (e_base a) + unat (e_length a) < 2 ^ 64"
    using ok a es by (auto simp: memmap_ok_def)
  have len: "unat sz \<le> unat (e_length a)" using a(2) by (simp add: word_le_nat_alt)
  show False
  proof (cases "e = ?a")
    case True
    have "unat (e_base a + sz) = unat (e_base a) + unat sz"
      using oka len by (simp add: unat_add_no_wrap)
    moreover have "unat (e_length a - sz) = unat (e_length a) - unat sz"
      using a(2) by (simp add: unat_sub)
    ultimately have "unat (e_base ?a) mod 4096 = 0" "unat (e_base ?a) + unat (e_length ?a) < 2 ^ 64"
      "unat (e_base ?a) = unat p + unat sz"
      using oka sz len a(3) by (auto simp: mod_add_eq [symmetric])
    with in_region_bytes [of ?a i] e True i show False by simp
  next
    case False
    with e es' have m: "e \<in> set pre \<or> e \<in> set post" by auto
    then have "unat (e_base e) mod 4096 = 0" "unat (e_base e) + unat (e_length e) < 2 ^ 64"
      using ok e es by (auto simp: memmap_ok_def)
    note b = in_region_bytes [OF this e(3,4)]
    have "entry_disjoint e a \<or> entry_disjoint a e"
      using m ok a e es by (auto simp: memmap_ok_def sorted_wrt_append)
    with b i a len show False by (auto simp: entry_disjoint_def)
  qed
qed

section \<open>Properties\<close>

text \<open>
  C4. What \<open>pfn_db_init\<close> leaves behind: every descriptor of the array has reference count 0 and is
  exactly \<open>PAGE_FREE\<close> when its frame is not frame 0 and lies in a usable region of the memory map
  (as it is after the array took its space), and exactly \<open>PAGE_RESERVED\<close> otherwise. With a memory
  map as the boot protocol describes it, no frame that holds the array itself is free.
\<close>
theorem pfn_db_init_pages:
  assumes "pfn_db_init usable es d = Some (d', es')" and "i \<le> max_pfn d'"
    and "unat (mem_map d') + 64 * (unat (max_pfn d') + 1) \<le> 2 ^ 64"
  shows "refcount (page_at d' (page_ptr d' i)) = 0 \<and>
    pg_flags (page_at d' (page_ptr d' i)) =
      (if i \<noteq> 0 \<and> in_usable usable es' i then ucast PAGE_FREE else ucast PAGE_RESERVED) \<and>
    (memmap_ok usable es \<and> unat (db_phys d') \<le> unat i * 4096 \<and>
     unat i * 4096 < unat (db_phys d') + unat (db_size (max_pfn d')) \<longrightarrow>
       \<not> is_page_free (page_at d' (page_ptr d' i)))"
proof -
  note pg = pfn_db_init_page [OF assms]
  obtain phys d2 where "reserve_in usable (db_size (pfn_db_calc_max_pfn usable es)) es = Some (phys, es')"
    and "max_pfn d' = pfn_db_calc_max_pfn usable es" and "db_phys d' = phys"
    using assms(1) by (rule pfn_db_init_stages)
      (auto simp: pfn_db_reserve_def mark_regions_fields fold_init_page_fields)
  then have "\<not> in_usable usable es' i"
    if "memmap_ok usable es" "unat (db_phys d') \<le> unat i * 4096"
      "unat i * 4096 < unat (db_phys d') + unat (db_size (max_pfn d'))"
    using in_usable_reserved db_size_aligned calc_max_pfn_small that by metis
  with pg show ?thesis by (auto simp: is_page_free_def)
qed

text \<open>A machine with 16 kB of memory: the array takes frame 0, frames 1 to 3 are free.\<close>

definition boot_map :: "memmap_entry list" where
  "boot_map = [\<lparr>e_base = 0, e_length = 0x4000, e_type = 0\<rparr>]"

definition boot_db :: pfn_db where
  "boot_db = \<lparr>mem_map = 0, max_pfn = 0, db_phys = 0, hhdm_offset = 0xFFFF800000000000,
     page_at = (\<lambda>_. \<lparr>u1_next = 0, u2 = 0, pg_flags = 0, refcount = 0\<rparr>)\<rparr>"

lemma boot_init:
  obtains d' where "pfn_db_init 0 boot_map boot_db =
    Some (d', [\<lparr>e_base = 0x1000, e_length = 0x3000, e_type = 0\<rparr>])"
    and "max_pfn d' = 4" and "mem_map d' = 0xFFFF800000000000"
proof -
  have "\<exists>d'. pfn_db_init 0 boot_map boot_db =
    Some (d', [\<lparr>e_base = 0x1000, e_length = 0x3000, e_type = 0\<rparr>])"
    by (simp add: pfn_db_init_def boot_map_def boot_db_def pfn_db_calc_max_pfn_def
        pfn_db_reserve_def db_size_def Let_def PHYS_TO_VIRT_def)
  then obtain d' where d': "pfn_db_init 0 boot_map boot_db =
    Some (d', [\<lparr>e_base = 0x1000, e_length = 0x3000, e_type = 0\<rparr>])" ..
  have "pfn_db_calc_max_pfn 0 boot_map = 4"
    by (simp add: pfn_db_calc_max_pfn_def boot_map_def)
  moreover have "pfn_db_reserve 0 4 boot_map = Some (0, [\<lparr>e_base = 0x1000, e_length = 0x3000, e_type = 0\<rparr>])"
    by (simp add: pfn_db_reserve_def boot_map_def db_size_def)
  ultimately have "max_pfn d' = 4 \<and> mem_map d' = 0xFFFF800000000000"
    using d' by (elim pfn_db_init_stages) (simp add: boot_db_def)
  with that d' show thesis by blast
qed

theorem pfn_db_init_pages_witness:
  "\<exists>d' es'. pfn_db_init 0 boot_map boot_db = Some (d', es') \<and>
     pg_flags (page_at d' (page_ptr d' 2)) = 1 \<and> pg_flags (page_at d' (page_ptr d' 0)) = 4"
proof -
  obtain d' where d': "pfn_db_init 0 boot_map boot_db =
    Some (d', [\<lparr>e_base = 0x1000, e_length = 0x3000, e_type = 0\<rparr>])"
    and m: "max_pfn d' = 4" "mem_map d' = 0xFFFF800000000000" by (rule boot_init)
  have "(2::u64) \<le> max_pfn d'" "(0::u64) \<le> max_pfn d'"
    and w: "unat (mem_map d') + 64 * (unat (max_pfn d') + 1) \<le> 2 ^ 64" using m by simp_all
  from pfn_db_init_pages [OF d' this(1) w] pfn_db_init_pages [OF d' this(2) w] d'
  show ?thesis by (auto simp: in_usable_def)
qed

text \<open>
  Frame numbers, descriptors and physical addresses convert back and forth without loss for
  every frame of the array, and each conversion answers its error value outside it.
\<close>
theorem pfn_db_conversions:
  assumes "db_wf d"
  shows "(i \<le> max_pfn d \<longrightarrow>
      pfn_db_getpfn d (pfn_db_getptr d i) = i \<and>
      pfn_db_page_to_phys d (pfn_db_getptr d i) = pfn_db_pfnaddr d i \<and>
      pfn_db_phys_to_page d (pfn_db_pfnaddr d i) = pfn_db_getptr d i \<and>
      pfn_db_getptr d i \<noteq> NULL) \<and>
    (max_pfn d < i \<longrightarrow> pfn_db_getptr d i = NULL \<and> pfn_db_pfnaddr d i = 0 \<and>
      pfn_db_getpfn d (pfn_db_getptr d i) = -1)"
proof (cases "i \<le> max_pfn d")
  case True
  then have "\<not> max_pfn d < i" by simp
  with True assms show ?thesis
    by (simp add: pfn_db_getptr_def pfn_db_pfnaddr_def getpfn_page_ptr page_to_phys_page_ptr
        phys_to_page_ptr page_ptr_not_NULL)
next
  case False
  then show ?thesis by (simp add: pfn_db_getptr_def pfn_db_pfnaddr_def pfn_db_getpfn_def)
qed

theorem pfn_db_conversions_witness:
  "let d = boot_db\<lparr>mem_map := 0xFFFF800000000000, max_pfn := 4\<rparr> in
   pfn_db_getpfn d (pfn_db_getptr d 3) = 3 \<and> pfn_db_getptr d 5 = NULL"
proof -
  have "db_wf (boot_db\<lparr>mem_map := 0xFFFF800000000000, max_pfn := 4\<rparr>)"
    by (simp add: db_wf_def boot_db_def)
  from pfn_db_conversions [OF this, of 3] pfn_db_conversions [OF this, of 5]
  show ?thesis by (simp add: boot_db_def Let_def)
qed

end
