(* ===== verification/Pmm.thy ===== *)
theory Pmm
  imports Pfn_Db Spinlock Dll
begin

text \<open>
  The physical page allocator of \<^verbatim>\<open>mm/pmm.c\<close>: a doubly linked list of free descriptors threaded
  through the page-frame database, with reference and share counts. Every function takes
  \<open>pmm_lock\<close> around its whole body and releases it on every path; \<open>with_pmm_lock\<close> is that
  bracket, and the argument \<open>me\<close> is the CPU. A result \<open>None\<close> means that the lock was taken and
  the CPU spins.
\<close>

section \<open>State and operations\<close>

record pmm = pfn_db +
  free_list :: u64
  free_pages :: u64
  total_pages :: u64
  pmm_lock :: spinlock

definition with_pmm_lock ::
  "int \<Rightarrow> ('b pmm_scheme \<Rightarrow> 'a \<times> 'b pmm_scheme) \<Rightarrow> 'b pmm_scheme \<Rightarrow> ('a \<times> 'b pmm_scheme) option" where
  "with_pmm_lock me body s =
     (case lock_acquire me (pmm_lock s) of None \<Rightarrow> None
      | Some l \<Rightarrow> let (r, s') = body (s\<lparr>pmm_lock := l\<rparr>)
                 in Some (r, s'\<lparr>pmm_lock := lock_release me (pmm_lock s')\<rparr>))"

definition free_list_remove :: "u64 \<Rightarrow> 'b pmm_scheme \<Rightarrow> 'b pmm_scheme" where
  "free_list_remove pg s =
     (let prev = u2 (page_at s pg); next = u1_next (page_at s pg);
          s1 = (if prev \<noteq> NULL then upd_page prev (\<lambda>p. p\<lparr>u1_next := next\<rparr>) s
                else s\<lparr>free_list := next\<rparr>);
          s2 = (if next \<noteq> NULL then upd_page next (\<lambda>p. p\<lparr>u2 := prev\<rparr>) s1 else s1)
      in upd_page pg (\<lambda>p. p\<lparr>u1_next := NULL, u2 := NULL\<rparr>) s2)"

definition free_list_push :: "u64 \<Rightarrow> 'b pmm_scheme \<Rightarrow> 'b pmm_scheme" where
  "free_list_push pg s =
     (let s1 = upd_page pg (\<lambda>p. p\<lparr>u2 := NULL, u1_next := free_list s\<rparr>) s;
          s2 = (if free_list s1 \<noteq> NULL then upd_page (free_list s1) (\<lambda>p. p\<lparr>u2 := pg\<rparr>) s1 else s1)
      in s2\<lparr>free_list := pg\<rparr>)"

text \<open>One round of the loop of \<^verbatim>\<open>pmm_init\<close>.\<close>

definition pmm_init_page :: "u64 \<Rightarrow> 'b pmm_scheme \<Rightarrow> 'b pmm_scheme" where
  "pmm_init_page i s =
     (let pg = page_ptr s i;
          s1 = upd_page pg (\<lambda>p. p\<lparr>u1_next := NULL, u2 := NULL\<rparr>) s
      in if is_page_free (page_at s pg)
         then (free_list_push pg s1)\<lparr>free_pages := free_pages s + 1\<rparr> else s1)"

definition pmm_init :: "int \<Rightarrow> 'b pmm_scheme \<Rightarrow> (unit \<times> 'b pmm_scheme) option" where
  "pmm_init me = with_pmm_lock me (\<lambda>s.
     let s1 = s\<lparr>free_list := NULL, free_pages := 0, total_pages := max_pfn s + 1\<rparr>
     in if mem_map s1 = NULL then ((), s1)
        else ((), fold pmm_init_page (all_pfns (max_pfn s1)) s1))"

text \<open>
  Taking a descriptor off the list and handing it out with one reference: the statements that
  \<^verbatim>\<open>pmm_alloc_page\<close> and the inner loop of \<^verbatim>\<open>pmm_alloc_pages\<close> have in common.
\<close>

definition claim_page :: "u64 \<Rightarrow> 'b pmm_scheme \<Rightarrow> 'b pmm_scheme" where
  "claim_page pg s =
     (let s1 = free_list_remove pg s;
          s2 = (if 0 < free_pages s1 then s1\<lparr>free_pages := free_pages s1 - 1\<rparr> else s1)
      in upd_page pg (\<lambda>p. p\<lparr>pg_flags := set_flags (clear_flags (pg_flags p)
               (PAGE_FREE OR PAGE_RESERVED OR PAGE_SHARED OR PAGE_COW)) PAGE_ALLOCATED,
             refcount := 1, u2 := 1\<rparr>) s2)"

definition alloc_locked :: "'b pmm_scheme \<Rightarrow> u64 \<times> 'b pmm_scheme" where
  "alloc_locked s =
     (if free_list s = NULL then (NULL, s) else let pg = free_list s in (pg, claim_page pg s))"

definition pmm_alloc_page :: "int \<Rightarrow> 'b pmm_scheme \<Rightarrow> (u64 \<times> 'b pmm_scheme) option" where
  "pmm_alloc_page me = with_pmm_lock me alloc_locked"

definition palloc :: "int \<Rightarrow> 'b pmm_scheme \<Rightarrow> (u64 \<times> 'b pmm_scheme) option" where
  "palloc me s =
     (case pmm_alloc_page me s of None \<Rightarrow> None
      | Some (pg, s') \<Rightarrow> if pg = NULL then Some (NULL, s')
          else Some (PHYS_TO_VIRT s' (pfn_db_page_to_phys s' pg), s'))"

definition retain_locked :: "u64 \<Rightarrow> 'b pmm_scheme \<Rightarrow> unit \<times> 'b pmm_scheme" where
  "retain_locked pg s =
     (let s1 = (if is_page_free (page_at s pg)
                then let t = free_list_remove pg s;
                         t1 = (if 0 < free_pages t then t\<lparr>free_pages := free_pages t - 1\<rparr> else t)
                     in upd_page pg (\<lambda>p. p\<lparr>pg_flags := set_flags (clear_flags (pg_flags p)
                          (PAGE_FREE OR PAGE_RESERVED)) PAGE_ALLOCATED\<rparr>) t1
                else s);
          s2 = upd_page pg (\<lambda>p. p\<lparr>refcount := refcount p + 1\<rparr>) s1
      in ((), if refcount (page_at s2 pg) = 1 then upd_page pg (\<lambda>p. p\<lparr>u2 := 1\<rparr>) s2 else s2))"

definition pmm_page_retain :: "int \<Rightarrow> u64 \<Rightarrow> 'b pmm_scheme \<Rightarrow> (unit \<times> 'b pmm_scheme) option" where
  "pmm_page_retain me pg s = (if pg = NULL then Some ((), s) else with_pmm_lock me (retain_locked pg) s)"

definition release_locked :: "u64 \<Rightarrow> 'b pmm_scheme \<Rightarrow> unit \<times> 'b pmm_scheme" where
  "release_locked pg s =
     (if refcount (page_at s pg) = 0 then ((), s)
      else let s1 = upd_page pg (\<lambda>p. p\<lparr>refcount := refcount p - 1\<rparr>) s in
        if 0 < refcount (page_at s1 pg) then ((), s1)
        else if is_page_reserved (page_at s1 pg) then ((), s1)
        else let s2 = upd_page pg (\<lambda>p. p\<lparr>pg_flags := set_flags (clear_flags (pg_flags p)
                   (PAGE_ALLOCATED OR PAGE_SHARED OR PAGE_COW)) PAGE_FREE, u2 := 0\<rparr>) s1
          in if \<not> is_page_dirty (page_at s2 pg)
             then let s3 = free_list_push pg s2 in ((), s3\<lparr>free_pages := free_pages s3 + 1\<rparr>)
             else ((), s2))"

definition pmm_page_release :: "int \<Rightarrow> u64 \<Rightarrow> 'b pmm_scheme \<Rightarrow> (unit \<times> 'b pmm_scheme) option" where
  "pmm_page_release me pg s = (if pg = NULL then Some ((), s) else with_pmm_lock me (release_locked pg) s)"

definition share_locked :: "u64 \<Rightarrow> 'b pmm_scheme \<Rightarrow> unit \<times> 'b pmm_scheme" where
  "share_locked pg s =
     (let s1 = (if \<not> is_page_shared (page_at s pg)
                then upd_page pg (\<lambda>p. p\<lparr>pg_flags := set_flags (pg_flags p) PAGE_SHARED,
                                      u2 := (if u2 p = 0 then 1 else u2 p)\<rparr>) s
                else s)
      in ((), upd_page pg (\<lambda>p. p\<lparr>u2 := u2 p + 1\<rparr>) s1))"

definition pmm_page_share :: "int \<Rightarrow> u64 \<Rightarrow> 'b pmm_scheme \<Rightarrow> (unit \<times> 'b pmm_scheme) option" where
  "pmm_page_share me pg s = (if pg = NULL then Some ((), s) else with_pmm_lock me (share_locked pg) s)"

definition unshare_locked :: "u64 \<Rightarrow> 'b pmm_scheme \<Rightarrow> unit \<times> 'b pmm_scheme" where
  "unshare_locked pg s =
     (if \<not> is_page_shared (page_at s pg) then ((), s)
      else let s1 = (if 0 < u2 (page_at s pg) then upd_page pg (\<lambda>p. p\<lparr>u2 := u2 p - 1\<rparr>) s else s)
        in ((), if u2 (page_at s1 pg) \<le> 1
                then upd_page pg (\<lambda>p. p\<lparr>pg_flags := clear_flags (pg_flags p) PAGE_SHARED\<rparr>) s1
                else s1))"

definition pmm_page_unshare :: "int \<Rightarrow> u64 \<Rightarrow> 'b pmm_scheme \<Rightarrow> (unit \<times> 'b pmm_scheme) option" where
  "pmm_page_unshare me pg s = (if pg = NULL then Some ((), s) else with_pmm_lock me (unshare_locked pg) s)"

definition pmm_page_mark_cow :: "int \<Rightarrow> u64 \<Rightarrow> 'b pmm_scheme \<Rightarrow> (unit \<times> 'b pmm_scheme) option" where
  "pmm_page_mark_cow me pg s =
     (if pg = NULL then Some ((), s)
      else with_pmm_lock me (\<lambda>s.
        ((), upd_page pg (\<lambda>p. p\<lparr>pg_flags := set_flags (pg_flags p) PAGE_COW\<rparr>) s)) s)"

definition pmm_page_clear_cow :: "int \<Rightarrow> u64 \<Rightarrow> 'b pmm_scheme \<Rightarrow> (unit \<times> 'b pmm_scheme) option" where
  "pmm_page_clear_cow me pg s =
     (if pg = NULL then Some ((), s)
      else with_pmm_lock me (\<lambda>s.
        ((), upd_page pg (\<lambda>p. p\<lparr>pg_flags := clear_flags (pg_flags p) PAGE_COW\<rparr>) s)) s)"

definition pmm_free_pages :: "int \<Rightarrow> 'b pmm_scheme \<Rightarrow> (u64 \<times> 'b pmm_scheme) option" where
  "pmm_free_pages me = with_pmm_lock me (\<lambda>s. (free_pages s, s))"

text \<open>
  The search of \<^verbatim>\<open>pmm_alloc_pages\<close>. \<open>first_used\<close> is the inner loop: the first \<open>j < count\<close> at which the
  run breaks. \<open>find_run\<close> is the outer loop with its skip \<^verbatim>\<open>i += j\<close>; it is partial because the loop
  on a 64-bit counter need not end for a database of \<open>2^64\<close> frames.
\<close>

definition first_used :: "'b pmm_scheme \<Rightarrow> u64 \<Rightarrow> u64 \<Rightarrow> nat option" where
  "first_used s i count =
     find (\<lambda>j. \<not> is_page_free (page_at s (page_ptr s (i + of_nat j)))) [0 ..< unat count]"

partial_function (option) find_run :: "'b pmm_scheme \<Rightarrow> u64 \<Rightarrow> u64 \<Rightarrow> u64 option option" where
  "find_run s count i =
     (if i + count - 1 \<le> max_pfn s
      then case first_used s i count of
             Some j \<Rightarrow> find_run s count (i + of_nat j + 1)
           | None \<Rightarrow> Some (Some i)
      else Some None)"

definition pmm_alloc_pages :: "int \<Rightarrow> u64 \<Rightarrow> 'b pmm_scheme \<Rightarrow> (u64 \<times> 'b pmm_scheme) option" where
  "pmm_alloc_pages me count s =
     (if count = 0 then Some (NULL, s)
      else if count = 1 then pmm_alloc_page me s
      else case lock_acquire me (pmm_lock s) of None \<Rightarrow> None
        | Some l \<Rightarrow>
            let s0 = s\<lparr>pmm_lock := l\<rparr> in
            case find_run s0 count 0 of None \<Rightarrow> None
            | Some None \<Rightarrow> Some (NULL, s0\<lparr>pmm_lock := lock_release me (pmm_lock s0)\<rparr>)
            | Some (Some i) \<Rightarrow>
                let s1 = fold (\<lambda>j t. claim_page (page_ptr t (i + of_nat j)) t) [0 ..< unat count] s0
                in Some (page_ptr s1 i, s1\<lparr>pmm_lock := lock_release me (pmm_lock s1)\<rparr>))"

fun release_each :: "int \<Rightarrow> u64 list \<Rightarrow> 'b pmm_scheme \<Rightarrow> (unit \<times> 'b pmm_scheme) option" where
  "release_each me [] s = Some ((), s)"
| "release_each me (p # ps) s =
     (case pmm_page_release me p s of None \<Rightarrow> None | Some (_, s') \<Rightarrow> release_each me ps s')"

definition pmm_pages_release :: "int \<Rightarrow> u64 \<Rightarrow> u64 \<Rightarrow> 'b pmm_scheme \<Rightarrow> (unit \<times> 'b pmm_scheme) option" where
  "pmm_pages_release me pg count = release_each me (map (\<lambda>i. pg + of_nat i * 64) [0 ..< unat count])"

section \<open>The invariant\<close>

abbreviation nexts :: "'b pmm_scheme \<Rightarrow> u64 \<Rightarrow> u64" where
  "nexts s p \<equiv> u1_next (page_at s p)"

abbreviation prevs :: "'b pmm_scheme \<Rightarrow> u64 \<Rightarrow> u64" where
  "prevs s p \<equiv> u2 (page_at s p)"

definition frees :: "'b pmm_scheme \<Rightarrow> u64 set" where
  "frees s = {p. db_page s p \<and> is_page_free (page_at s p)}"

text \<open>
  \<open>pmm_rel s xs\<close>: the free list links exactly the descriptors \<open>xs\<close>, these are the descriptors
  flagged free, none of them has a reference, and the counter counts them. No descriptor is
  flagged dirty: no code of the kernel sets \<^verbatim>\<open>PAGE_DIRTY\<close>.
\<close>

definition pmm_rel :: "'b pmm_scheme \<Rightarrow> u64 list \<Rightarrow> bool" where
  "pmm_rel s xs \<longleftrightarrow> db_wf s \<and> (\<exists>t. dll (nexts s) (prevs s) (free_list s) xs t) \<and> set xs = frees s \<and>
     (\<forall>p \<in> set xs. refcount (page_at s p) = 0) \<and>
     (\<forall>p. db_page s p \<longrightarrow> \<not> is_page_dirty (page_at s p)) \<and>
     free_pages s = of_nat (length xs)"

definition pmm_inv :: "'b pmm_scheme \<Rightarrow> bool" where
  "pmm_inv s \<longleftrightarrow> lock_free (pmm_lock s) \<and> (\<exists>xs. pmm_rel s xs)"

section \<open>Lemmas\<close>

lemma upd_page_pmm [simp]:
  "free_list (upd_page p f s) = free_list s" "free_pages (upd_page p f s) = free_pages s"
  "total_pages (upd_page p f s) = total_pages s" "pmm_lock (upd_page p f s) = pmm_lock s"
  for s :: "'b pmm_scheme"
  by (simp_all add: upd_page_def)

lemma db_page_upd [simp]:
  "db_page (upd_page q f s) = db_page s" "db_wf (upd_page q f s) = db_wf s"
  "db_page (s'\<lparr>free_list := a\<rparr>) = db_page s'" "db_page (s'\<lparr>free_pages := b\<rparr>) = db_page s'"
  "db_page (s'\<lparr>pmm_lock := l\<rparr>) = db_page s'"
  "db_wf (s'\<lparr>free_list := a\<rparr>) = db_wf s'" "db_wf (s'\<lparr>free_pages := b\<rparr>) = db_wf s'"
  "db_wf (s'\<lparr>pmm_lock := l\<rparr>) = db_wf s'"
  by (simp_all add: db_page_def db_wf_def page_ptr_def fun_eq_iff)

lemma page_ptr_pmm [simp]:
  "page_ptr (s\<lparr>free_list := a\<rparr>) = page_ptr s" "page_ptr (s\<lparr>free_pages := b\<rparr>) = page_ptr s"
  "page_ptr (s\<lparr>pmm_lock := l\<rparr>) = page_ptr s"
  for s :: "'b pmm_scheme"
  by (simp_all add: page_ptr_def fun_eq_iff)

text \<open>The list of free descriptors cannot be longer than the database.\<close>

lemma db_page_finite: "finite {p. db_page s p} \<and> card {p. db_page s p} \<le> unat (max_pfn s) + 1"
proof -
  have "{p. db_page s p} = page_ptr s ` set (all_pfns (max_pfn s))"
    by (auto simp: db_page_def all_pfns_iff)
  moreover have "card (set (all_pfns (max_pfn s))) \<le> unat (max_pfn s) + 1"
    using card_length [of "all_pfns (max_pfn s)"] by (simp add: all_pfns_def)
  ultimately show ?thesis
    using card_image_le [of "set (all_pfns (max_pfn s))" "page_ptr s"] by simp
qed

lemma pmm_rel_length:
  assumes "pmm_rel s xs"
  shows "length xs \<le> unat (max_pfn s) + 1" and "distinct xs"
    and "unat (free_pages s) = length xs"
proof -
  from assms show d: "distinct xs" by (auto simp: pmm_rel_def dest: dll_distinct)
  have "set xs \<subseteq> {p. db_page s p}" using assms by (auto simp: pmm_rel_def frees_def)
  then have "card (set xs) \<le> card {p. db_page s p}"
    using db_page_finite [of s] by (intro card_mono) auto
  then show l: "length xs \<le> unat (max_pfn s) + 1"
    using db_page_finite [of s] d by (simp add: distinct_card)
  have "unat (max_pfn s) < 2 ^ 52" using assms by (auto simp: pmm_rel_def db_wf_def)
  then have "length xs < 2 ^ 64" using l by simp
  with assms show "unat (free_pages s) = length xs"
    by (simp add: pmm_rel_def unat_of_nat)
qed

lemma pmm_rel_lock [simp]: "pmm_rel (s\<lparr>pmm_lock := l\<rparr>) xs = pmm_rel s xs"
  by (simp add: pmm_rel_def frees_def)

lemma frees_lock [simp]: "frees (s\<lparr>pmm_lock := l\<rparr>) = frees s"
  by (simp add: frees_def)

lemma pmm_rel_frees: "pmm_rel s xs \<Longrightarrow> set xs = frees s"
  by (simp add: pmm_rel_def)

lemma pmm_rel_head:
  assumes "pmm_rel s xs"
  shows "free_list s = (if xs = [] then NULL else hd xs)" and "free_list s = NULL \<longleftrightarrow> xs = []"
proof -
  from assms obtain t where d: "dll (nexts s) (prevs s) (free_list s) xs t" by (auto simp: pmm_rel_def)
  show "free_list s = (if xs = [] then NULL else hd xs)" using d by (rule dll_head)
  then show "free_list s = NULL \<longleftrightarrow> xs = []" by (metis d dll_null hd_in_set)
qed

subsection \<open>Unlinking and pushing\<close>

lemma free_list_remove_fields [simp]:
  "pg_flags (page_at (free_list_remove p s) a) = pg_flags (page_at s a)"
  "refcount (page_at (free_list_remove p s) a) = refcount (page_at s a)"
  "free_pages (free_list_remove p s) = free_pages s" "pmm_lock (free_list_remove p s) = pmm_lock s"
  "max_pfn (free_list_remove p s) = max_pfn s" "mem_map (free_list_remove p s) = mem_map s"
  by (auto simp: free_list_remove_def Let_def)

lemma free_list_remove_links:
  assumes "u2 (page_at s p) \<noteq> p" and "u1_next (page_at s p) \<noteq> p"
  shows "nexts (free_list_remove p s) a =
      (if a = p then NULL else if a = prevs s p \<and> prevs s p \<noteq> NULL then nexts s p else nexts s a)"
    and "prevs (free_list_remove p s) a =
      (if a = p then NULL else if a = nexts s p \<and> nexts s p \<noteq> NULL then prevs s p else prevs s a)"
    and "free_list (free_list_remove p s) = (if prevs s p = NULL then nexts s p else free_list s)"
  using assms by (auto simp: free_list_remove_def Let_def)

lemma db_page_cong:
  "mem_map s' = mem_map s \<Longrightarrow> max_pfn s' = max_pfn s \<Longrightarrow> db_page s' = db_page s"
  by (auto simp: db_page_def page_ptr_def fun_eq_iff)

lemma free_list_push_links:
  assumes "p \<noteq> free_list s"
  shows "nexts (free_list_push p s) a = (if a = p then free_list s else nexts s a)"
    and "prevs (free_list_push p s) a =
      (if a = p then NULL else if a = free_list s \<and> free_list s \<noteq> NULL then p else prevs s a)"
    and "free_list (free_list_push p s) = p"
    and "pg_flags (page_at (free_list_push p s) a) = pg_flags (page_at s a)"
    and "refcount (page_at (free_list_push p s) a) = refcount (page_at s a)"
    and "free_pages (free_list_push p s) = free_pages s"
    and "pmm_lock (free_list_push p s) = pmm_lock s"
    and "max_pfn (free_list_push p s) = max_pfn s" and "mem_map (free_list_push p s) = mem_map s"
  using assms by (auto simp: free_list_push_def Let_def)


lemma free_list_remove_dll:
  assumes r: "pmm_rel s xs" and p: "p \<in> set xs"
    and n: "\<And>a. a \<noteq> p \<Longrightarrow> nexts s' a = nexts (free_list_remove p s) a"
    and v: "\<And>a. a \<noteq> p \<Longrightarrow> prevs s' a = prevs (free_list_remove p s) a"
    and h: "free_list s' = free_list (free_list_remove p s)"
  shows "\<exists>t. dll (nexts s') (prevs s') (free_list s') (remove1 p xs) t"
proof -
  obtain ys zs where xs: "xs = ys @ p # zs" using p by (meson split_list)
  from r obtain t where d: "dll (nexts s) (prevs s) (free_list s) (ys @ p # zs) t"
    by (auto simp: pmm_rel_def xs)
  have dist: "distinct (ys @ p # zs)" "NULL \<notin> set (ys @ p # zs)"
    using dll_distinct [OF d] dll_null [OF d] by auto
  note nb = dll_neighbours [OF d]
  have "prevs s p \<noteq> p" "nexts s p \<noteq> p" using nb dist by (auto dest: last_in_set hd_in_set)
  note links = free_list_remove_links [OF this]
  have pv: "prevs s p \<noteq> NULL \<Longrightarrow> nexts s' (prevs s p) = nexts s p"
    using n [of "prevs s p"] links(1) \<open>prevs s p \<noteq> p\<close> by simp
  have nx: "nexts s p \<noteq> NULL \<Longrightarrow> prevs s' (nexts s p) = prevs s p"
    using v [of "nexts s p"] links(2) \<open>nexts s p \<noteq> p\<close> by simp
  have n1: "nexts s' a = nexts s a" if "a \<in> set (ys @ zs)" "a \<noteq> prevs s p" for a
    using n [of a] links(1) [of a] that dist by fastforce
  have v1: "prevs s' a = prevs s a" if "a \<in> set (ys @ zs)" "a \<noteq> nexts s p" for a
    using v [of a] links(2) [of a] that dist by fastforce
  have "dll (nexts s') (prevs s') (if prevs s p = NULL then nexts s p else free_list s) (ys @ zs)
      (if nexts s p = NULL then prevs s p else t)"
    by (rule dll_unlink [where n' = "nexts s'" and p' = "prevs s'", OF d pv nx n1 v1])
  moreover have "remove1 p xs = ys @ zs" using dist by (simp add: xs remove1_append)
  ultimately show ?thesis by (auto simp: h links)
qed

lemma set_remove1_rel: "pmm_rel s xs \<Longrightarrow> set (remove1 p xs) = set xs - {p}"
  by (simp add: set_remove1_eq pmm_rel_length(2))

text \<open>The counter after a removal.\<close>

lemma pmm_rel_count_dec:
  assumes "pmm_rel s xs" and "p \<in> set xs"
  shows "0 < free_pages s" and "free_pages s - 1 = of_nat (length (remove1 p xs))"
proof -
  have "0 < length xs" using assms(2) by (cases xs) auto
  then show "0 < free_pages s"
    using pmm_rel_length(3) [OF assms(1)] by (auto simp: word_less_nat_alt)
  have "free_pages s = of_nat (Suc (length (remove1 p xs)))"
    using assms \<open>0 < length xs\<close> by (simp add: pmm_rel_def length_remove1)
  then show "free_pages s - 1 = of_nat (length (remove1 p xs))" by simp
qed

text \<open>A descriptor leaves the free list: the state changes nothing else but that descriptor.\<close>

lemma pmm_rel_take:
  assumes r: "pmm_rel s xs" and p: "p \<in> set xs"
    and n: "\<And>a. a \<noteq> p \<Longrightarrow> nexts s' a = nexts (free_list_remove p s) a"
    and v: "\<And>a. a \<noteq> p \<Longrightarrow> prevs s' a = prevs (free_list_remove p s) a"
    and h: "free_list s' = free_list (free_list_remove p s)"
    and m: "mem_map s' = mem_map s" "max_pfn s' = max_pfn s"
    and f: "\<And>a. a \<noteq> p \<Longrightarrow> pg_flags (page_at s' a) = pg_flags (page_at s a)"
    and c: "\<And>a. a \<noteq> p \<Longrightarrow> refcount (page_at s' a) = refcount (page_at s a)"
    and q: "\<not> is_page_free (page_at s' p)" "\<not> is_page_dirty (page_at s' p)"
    and k: "free_pages s' = free_pages s - 1"
  shows "pmm_rel s' (remove1 p xs)"
proof -
  have db: "db_page s' = db_page s" "db_wf s' = db_wf s"
    using db_page_cong [OF m] m by (auto simp: db_wf_def)
  have "frees s' = frees s - {p}"
    using f q(1) by (auto simp: frees_def db is_page_free_def) (metis f)+
  then have "set (remove1 p xs) = frees s'"
    using r by (simp add: set_remove1_rel [OF r] pmm_rel_frees)
  moreover have "\<forall>a. db_page s' a \<longrightarrow> \<not> is_page_dirty (page_at s' a)"
    using r f q(2) by (auto simp: pmm_rel_def db is_page_dirty_def) (metis f)
  moreover have "\<forall>a \<in> set (remove1 p xs). refcount (page_at s' a) = 0"
    using r c by (auto simp: set_remove1_rel [OF r] pmm_rel_def)
  ultimately show ?thesis
    using free_list_remove_dll [OF r p n v h] r db pmm_rel_count_dec [OF r p] k
    by (simp add: pmm_rel_def)
qed

definition others_kept :: "u64 set \<Rightarrow> 'b pmm_scheme \<Rightarrow> 'b pmm_scheme \<Rightarrow> bool" where
  "others_kept P s s' \<longleftrightarrow> mem_map s' = mem_map s \<and> max_pfn s' = max_pfn s \<and>
     (\<forall>a. a \<notin> P \<longrightarrow> pg_flags (page_at s' a) = pg_flags (page_at s a) \<and>
                      refcount (page_at s' a) = refcount (page_at s a))"

lemma claim_page_rel:
  assumes r: "pmm_rel s xs" and p: "p \<in> set xs"
  shows "pmm_rel (claim_page p s) (remove1 p xs)"
    and "others_kept {p} s (claim_page p s)"
    and "refcount (page_at (claim_page p s) p) = 1"
    and "\<not> is_page_reserved (page_at (claim_page p s) p)"
    and "pmm_lock (claim_page p s) = pmm_lock s"
proof -
  have d: "\<not> bit (pg_flags (page_at s p)) 5"
    using r p by (auto simp: pmm_rel_def frees_def is_page_dirty_def)
  show "pmm_rel (claim_page p s) (remove1 p xs)"
    by (rule pmm_rel_take [OF r p])
      (use pmm_rel_count_dec(1) [OF r p] d in \<open>auto simp: claim_page_def page_flag_defs Let_def bit_simps\<close>)
qed (auto simp: claim_page_def page_flag_defs Let_def bit_simps others_kept_def)

text \<open>A descriptor without references joins the free list at its head.\<close>

lemma pmm_rel_put:
  assumes r: "pmm_rel s xs" and p: "db_page s p" "p \<notin> set xs"
    and t: "page_at t = (page_at s)(p := pg)" "free_list t = free_list s" "free_pages t = free_pages s"
      "mem_map t = mem_map s" "max_pfn t = max_pfn s"
    and pg: "is_page_free pg" "\<not> is_page_dirty pg" "refcount pg = 0"
  shows "pmm_rel ((free_list_push p t)\<lparr>free_pages := free_pages (free_list_push p t) + 1\<rparr>) (p # xs)"
    (is "pmm_rel ?s' _")
proof -
  from r obtain e where d: "dll (nexts s) (prevs s) (free_list s) xs e" by (auto simp: pmm_rel_def)
  have wf: "db_wf s" using r by (simp add: pmm_rel_def)
  have pn: "p \<noteq> NULL" using p(1) wf page_ptr_not_NULL by (auto simp: db_page_def)
  have "p \<noteq> free_list t"
    using pmm_rel_head(1) [OF r] p(2) pn t(2) by (auto split: if_splits)
  note links = free_list_push_links [OF this]
  have pt: "page_at t a = (if a = p then pg else page_at s a)" for a by (simp add: t(1))
  have "dll (nexts ?s') (prevs ?s') p (p # xs) (if xs = [] then p else e)"
    by (rule dll_push_front [OF d pn p(2)])
      (use links p(2) t(2) pt \<open>p \<noteq> free_list t\<close> in \<open>auto simp: pt\<close>)
  moreover have db: "db_page ?s' = db_page s"
    using db_page_cong [of ?s' s] links t by simp
  moreover have "db_wf ?s'" using wf links t by (simp add: db_wf_def)
  moreover have "frees ?s' = insert p (frees s)"
    unfolding frees_def db using p(1) pg(1) by (auto simp: is_page_free_def links pt split: if_splits)
  moreover have "\<forall>a. db_page s a \<longrightarrow> \<not> is_page_dirty (page_at ?s' a)"
    using r pg(2) by (auto simp: pmm_rel_def is_page_dirty_def links pt)
  moreover have "\<forall>a \<in> set (p # xs). refcount (page_at ?s' a) = 0"
    using r pg(3) by (auto simp: pmm_rel_def links pt)
  ultimately show ?thesis
    using r links t by (auto simp: pmm_rel_def)
qed

text \<open>A change to a descriptor that is not on the list.\<close>

lemma pmm_rel_upd:
  assumes r: "pmm_rel s xs" and p: "p \<notin> set xs"
    and f: "\<not> is_page_free (f (page_at s p))" "\<not> is_page_dirty (f (page_at s p))"
  shows "pmm_rel (upd_page p f s) xs"
proof -
  from r obtain e where d: "dll (nexts s) (prevs s) (free_list s) xs e" by (auto simp: pmm_rel_def)
  have "dll (nexts (upd_page p f s)) (prevs (upd_page p f s)) (free_list s) xs e"
    by (rule dll_cong [THEN iffD2, OF _ _ d]) (use p in auto)
  moreover have "frees (upd_page p f s) = frees s"
    using r p f(1) pmm_rel_frees [OF r] by (auto simp: frees_def)
  ultimately show ?thesis
    using r p f(2) by (auto simp: pmm_rel_def)
qed

lemma pmm_rel_not_free: "pmm_rel s xs \<Longrightarrow> db_page s p \<Longrightarrow> p \<in> set xs \<longleftrightarrow> is_page_free (page_at s p)"
  by (simp add: pmm_rel_def frees_def)

section \<open>The lock bracket\<close>

text \<open>The allocator is not in use, and its free list holds \<open>xs\<close>.\<close>

definition pmm_idle :: "'b pmm_scheme \<Rightarrow> u64 list \<Rightarrow> bool" where
  "pmm_idle s xs \<longleftrightarrow> lock_free (pmm_lock s) \<and> pmm_rel s xs"

lemma with_pmm_lock_idle:
  assumes i: "pmm_idle s xs"
    and b: "\<And>t. pmm_rel t xs \<Longrightarrow> page_at t = page_at s \<Longrightarrow> mem_map t = mem_map s \<Longrightarrow>
      max_pfn t = max_pfn s \<Longrightarrow> free_list t = free_list s \<Longrightarrow> free_pages t = free_pages s \<Longrightarrow>
      \<exists>r t'. body t = (r, t') \<and> pmm_lock t' = pmm_lock t \<and> pmm_rel t' ys \<and> others_kept P t t' \<and> Q r (page_at t')"
  shows "\<exists>r s'. with_pmm_lock me body s = Some (r, s') \<and> pmm_idle s' ys \<and> others_kept P s s' \<and> Q r (page_at s')"
proof -
  let ?l = "(pmm_lock s)\<lparr>locked := 1, owner := me\<rparr>"
  obtain r t' where t': "body (s\<lparr>pmm_lock := ?l\<rparr>) = (r, t')" "pmm_lock t' = ?l" "pmm_rel t' ys"
    "others_kept P (s\<lparr>pmm_lock := ?l\<rparr>) t'" "Q r (page_at t')"
    using b [of "s\<lparr>pmm_lock := ?l\<rparr>"] i by (auto simp: pmm_idle_def)
  then show ?thesis
    using i by (intro exI [of _ r] exI [of _ "t'\<lparr>pmm_lock := pmm_lock s\<rparr>"])
      (auto simp: with_pmm_lock_def pmm_idle_def others_kept_def)
qed

text \<open>An operation that returns early leaves the state as it was.\<close>

lemma with_pmm_lock_id:
  assumes "lock_free (pmm_lock s)" and "\<And>l. body (s\<lparr>pmm_lock := l\<rparr>) = (r, s\<lparr>pmm_lock := l\<rparr>)"
  shows "with_pmm_lock me body s = Some (r, s)"
  using assms by (simp add: with_pmm_lock_def)

section \<open>The operations on an idle allocator\<close>

lemma pmm_alloc_page_empty:
  assumes "pmm_idle s []"
  shows "pmm_alloc_page me s = Some (NULL, s)"
  unfolding pmm_alloc_page_def
  by (rule with_pmm_lock_id) (use assms in \<open>auto simp: alloc_locked_def pmm_idle_def dest: pmm_rel_head\<close>)

lemma pmm_alloc_page_idle:
  assumes "pmm_idle s (p # xs)"
  shows "\<exists>r s'. pmm_alloc_page me s = Some (r, s') \<and> pmm_idle s' xs \<and> others_kept {p} s s' \<and>
    (r = p \<and> refcount (page_at s' p) = 1 \<and> \<not> is_page_reserved (page_at s' p))"
  unfolding pmm_alloc_page_def
proof (rule with_pmm_lock_idle [OF assms])
  fix t assume r: "pmm_rel t (p # xs)"
  then have "free_list t = p" "free_list t \<noteq> NULL" using pmm_rel_head [OF r] by auto
  with claim_page_rel [OF r, of p]
  show "\<exists>r t'. alloc_locked t = (r, t') \<and> pmm_lock t' = pmm_lock t \<and> pmm_rel t' xs \<and>
      others_kept {p} t t' \<and> (r = p \<and> refcount (page_at t' p) = 1 \<and> \<not> is_page_reserved (page_at t' p))"
    by (auto simp: alloc_locked_def Let_def)
qed

lemma pmm_page_release_last:
  assumes i: "pmm_idle s xs" and p: "db_page s p" "p \<noteq> NULL" "\<not> is_page_free (page_at s p)"
    "refcount (page_at s p) = 1" "\<not> is_page_reserved (page_at s p)"
  shows "\<exists>r s'. pmm_page_release me p s = Some (r, s') \<and> pmm_idle s' (p # xs) \<and> others_kept {p} s s' \<and> True"
proof -
  define pg where "pg = (let q = page_at s p in q\<lparr>refcount := 0, pg_flags := set_flags (clear_flags (pg_flags q)
                     (PAGE_ALLOCATED OR PAGE_SHARED OR PAGE_COW)) PAGE_FREE, u2 := 0\<rparr>)"
  have nx: "p \<notin> set xs" using i p(1,3) pmm_rel_not_free by (auto simp: pmm_idle_def)
  have d: "\<not> bit (pg_flags (page_at s p)) 5"
    using i p(1) by (auto simp: pmm_idle_def pmm_rel_def is_page_dirty_def)
  have pg: "is_page_free pg" "\<not> is_page_dirty pg" "refcount pg = 0" "\<not> is_page_dirty pg"
    using d by (auto simp: pg_def Let_def page_flag_defs bit_simps)
  have "\<exists>r s'. with_pmm_lock me (release_locked p) s = Some (r, s') \<and> pmm_idle s' (p # xs) \<and>
      others_kept {p} s s' \<and> True"
  proof (rule with_pmm_lock_idle [OF i])
    fix t :: "'a pmm_scheme"
    assume r: "pmm_rel t xs" and t: "page_at t = page_at s" "mem_map t = mem_map s" "max_pfn t = max_pfn s"
    let ?t2 = "t\<lparr>page_at := (page_at t)(p := pg)\<rparr>"
    have "db_page t p" using p(1) db_page_cong [of t s] t by simp
    then have rel: "pmm_rel ((free_list_push p ?t2)\<lparr>free_pages := free_pages (free_list_push p ?t2) + 1\<rparr>) (p # xs)"
      by (intro pmm_rel_put [OF r _ nx]) (auto simp: pg)
    have "upd_page p (\<lambda>p. p\<lparr>pg_flags := set_flags (clear_flags (pg_flags p)
            (PAGE_ALLOCATED OR PAGE_SHARED OR PAGE_COW)) PAGE_FREE, u2 := 0\<rparr>)
          (upd_page p (\<lambda>p. p\<lparr>refcount := refcount p - 1\<rparr>) t) = ?t2"
      using p(4) t by (simp add: upd_page_def pg_def Let_def)
    moreover have "p \<noteq> free_list ?t2"
      using pmm_rel_head(1) [OF r] nx p(2) by (auto split: if_splits)
    note free_list_push_links [OF this]
    ultimately show "\<exists>r t'. release_locked p t = (r, t') \<and> pmm_lock t' = pmm_lock t \<and>
        pmm_rel t' (p # xs) \<and> others_kept {p} t t' \<and> True"
      using p(4,5) rel pg(4) by (auto simp: release_locked_def Let_def t is_page_reserved_def others_kept_def)
  qed
  then show ?thesis using p(2) by (simp add: pmm_page_release_def)
qed

text \<open>A release that is not the last one only counts down; one on a count of 0 does nothing.\<close>

lemma pmm_page_release_none:
  assumes "pmm_idle s xs" and "refcount (page_at s p) = 0"
  shows "pmm_page_release me p s = Some ((), s)"
proof -
  have "with_pmm_lock me (release_locked p) s = Some ((), s)"
    by (rule with_pmm_lock_id) (use assms in \<open>auto simp: pmm_idle_def release_locked_def\<close>)
  then show ?thesis by (simp add: pmm_page_release_def)
qed

text \<open>The operations that only change the descriptor of a page in use.\<close>

lemma in_use_op:
  assumes i: "pmm_idle s xs" and p: "db_page s p" "\<not> is_page_free (page_at s p)"
    and b: "\<And>t. page_at t = page_at s \<Longrightarrow> body t = (r, upd_page p f t)"
    and f: "\<not> is_page_free (f (page_at s p))" "\<not> is_page_dirty (f (page_at s p))"
  shows "\<exists>s'. with_pmm_lock me body s = Some (r, s') \<and> pmm_idle s' xs \<and> others_kept {p} s s' \<and>
    page_at s' p = f (page_at s p)"
proof -
  have "\<exists>r' s'. with_pmm_lock me body s = Some (r', s') \<and> pmm_idle s' xs \<and> others_kept {p} s s' \<and>
      (\<lambda>r' h. r' = r \<and> h p = f (page_at s p)) r' (page_at s')"
  proof (rule with_pmm_lock_idle [OF i])
    fix t :: "'a pmm_scheme" assume r: "pmm_rel t xs" and t: "page_at t = page_at s"
      "mem_map t = mem_map s" "max_pfn t = max_pfn s"
    have "p \<notin> set xs" using i p pmm_rel_not_free by (auto simp: pmm_idle_def)
    then have "pmm_rel (upd_page p f t) xs" by (rule pmm_rel_upd [OF r]) (use f t in auto)
    with b [OF t(1)] t show "\<exists>r' t'. body t = (r', t') \<and> pmm_lock t' = pmm_lock t \<and> pmm_rel t' xs \<and>
        others_kept {p} t t' \<and> (\<lambda>r' h. r' = r \<and> h p = f (page_at s p)) r' (page_at t')"
      by (auto simp: others_kept_def)
  qed
  then show ?thesis by auto
qed

lemma pmm_rel_clean: "pmm_idle s xs \<Longrightarrow> db_page s p \<Longrightarrow> \<not> bit (pg_flags (page_at s p)) 5"
  by (auto simp: pmm_idle_def pmm_rel_def is_page_dirty_def)

lemma idle_page_not_NULL: "pmm_idle s xs \<Longrightarrow> db_page s p \<Longrightarrow> p \<noteq> NULL"
  by (auto simp: pmm_idle_def pmm_rel_def db_page_def page_ptr_not_NULL)

lemma pmm_page_release_more:
  assumes i: "pmm_idle s xs" and p: "db_page s p" "\<not> is_page_free (page_at s p)"
    and c: "1 < refcount (page_at s p) \<or> refcount (page_at s p) = 1 \<and> is_page_reserved (page_at s p)"
  shows "\<exists>s'. pmm_page_release me p s = Some ((), s') \<and> pmm_idle s' xs \<and> others_kept {p} s s' \<and>
    page_at s' p = (page_at s p)\<lparr>refcount := refcount (page_at s p) - 1\<rparr>"
proof -
  have nz: "refcount (page_at s p) \<noteq> 0" using c by auto
  have "0 < refcount (page_at s p) - 1 \<or> is_page_reserved (page_at s p)"
    using c nz by (metis diff_eq_eq add.left_neutral order_less_irrefl word_neq_0_conv)
  then have "\<exists>s'. with_pmm_lock me (release_locked p) s = Some ((), s') \<and> pmm_idle s' xs \<and> others_kept {p} s s' \<and>
      page_at s' p = (\<lambda>q. q\<lparr>refcount := refcount q - 1\<rparr>) (page_at s p)"
    by (intro in_use_op [OF i p])
      (use p(2) nz pmm_rel_clean [OF i p(1)] in \<open>auto simp: release_locked_def Let_def page_flag_defs\<close>)
  with idle_page_not_NULL [OF i p(1)] show ?thesis by (simp add: pmm_page_release_def)
qed

lemma pmm_page_retain_used:
  assumes i: "pmm_idle s xs" and p: "db_page s p" "\<not> is_page_free (page_at s p)"
  shows "\<exists>s'. pmm_page_retain me p s = Some ((), s') \<and> pmm_idle s' xs \<and> others_kept {p} s s' \<and>
    page_at s' p = (let c = refcount (page_at s p) + 1 in
      (page_at s p)\<lparr>refcount := c, u2 := (if c = 1 then 1 else u2 (page_at s p))\<rparr>)"
proof -
  let ?f = "\<lambda>q. q\<lparr>refcount := refcount q + 1, u2 := (if refcount q + 1 = 1 then 1 else u2 q)\<rparr>"
  have "\<exists>s'. with_pmm_lock me (retain_locked p) s = Some ((), s') \<and> pmm_idle s' xs \<and> others_kept {p} s s' \<and>
      page_at s' p = ?f (page_at s p)"
    by (rule in_use_op [OF i p])
      (use p(2) pmm_rel_clean [OF i p(1)] in
        \<open>auto simp: retain_locked_def Let_def page_flag_defs upd_page_def\<close>)
  with idle_page_not_NULL [OF i p(1)] show ?thesis by (simp add: pmm_page_retain_def Let_def)
qed

lemma pmm_page_retain_free:
  assumes i: "pmm_idle s xs" and p: "p \<in> set xs"
  shows "\<exists>s'. pmm_page_retain me p s = Some ((), s') \<and> pmm_idle s' (remove1 p xs) \<and> others_kept {p} s s' \<and>
    refcount (page_at s' p) = 1"
proof -
  have db: "db_page s p" "is_page_free (page_at s p)" "refcount (page_at s p) = 0"
    using i p by (auto simp: pmm_idle_def pmm_rel_def frees_def)
  have "\<exists>r' s'. with_pmm_lock me (retain_locked p) s = Some (r', s') \<and> pmm_idle s' (remove1 p xs) \<and>
      others_kept {p} s s' \<and> (\<lambda>r' h. refcount (h p) = 1) r' (page_at s')"
  proof (rule with_pmm_lock_idle [OF i])
    fix t :: "'a pmm_scheme" assume r: "pmm_rel t xs" and t: "page_at t = page_at s"
    have "pmm_rel (snd (retain_locked p t)) (remove1 p xs)"
      by (rule pmm_rel_take [OF r p])
        (use pmm_rel_count_dec(1) [OF r p] pmm_rel_clean [OF i db(1)] db t
          in \<open>auto simp: retain_locked_def Let_def page_flag_defs bit_simps\<close>)
    moreover have "others_kept {p} t (snd (retain_locked p t))"
      "pmm_lock (snd (retain_locked p t)) = pmm_lock t"
      "refcount (page_at (snd (retain_locked p t)) p) = 1"
      using db t by (auto simp: retain_locked_def Let_def others_kept_def)
    ultimately show "\<exists>r' t'. retain_locked p t = (r', t') \<and> pmm_lock t' = pmm_lock t \<and>
        pmm_rel t' (remove1 p xs) \<and> others_kept {p} t t' \<and> (\<lambda>r' h. refcount (h p) = 1) r' (page_at t')"
      by (metis prod.collapse)
  qed
  with idle_page_not_NULL [OF i db(1)] show ?thesis by (simp add: pmm_page_retain_def)
qed

lemma pmm_page_share_used:
  assumes i: "pmm_idle s xs" and p: "db_page s p" "\<not> is_page_free (page_at s p)"
  shows "\<exists>s'. pmm_page_share me p s = Some ((), s') \<and> pmm_idle s' xs \<and> others_kept {p} s s' \<and>
    page_at s' p = (page_at s p)\<lparr>pg_flags := set_flags (pg_flags (page_at s p)) PAGE_SHARED,
      u2 := (if \<not> is_page_shared (page_at s p) \<and> u2 (page_at s p) = 0 then 2 else u2 (page_at s p) + 1)\<rparr>"
proof -
  have idem: "set_flags w PAGE_SHARED = w" if "bit w 3" for w
  proof -
    have "w OR 2 ^ 3 = w" by (rule bit_word_eqI) (use that in \<open>auto simp only: bit_or_iff bit_exp_iff\<close>)
    then show ?thesis by (simp add: set_flags_def)
  qed
  let ?f = "\<lambda>q. q\<lparr>pg_flags := set_flags (pg_flags q) PAGE_SHARED,
      u2 := (if \<not> is_page_shared q \<and> u2 q = 0 then 2 else u2 q + 1)\<rparr>"
  have "\<exists>s'. with_pmm_lock me (share_locked p) s = Some ((), s') \<and> pmm_idle s' xs \<and> others_kept {p} s s' \<and>
      page_at s' p = ?f (page_at s p)"
    by (rule in_use_op [OF i p])
      (use p(2) pmm_rel_clean [OF i p(1)] idem in
        \<open>auto simp: share_locked_def Let_def page_flag_defs upd_page_def bit_simps\<close>)
  with idle_page_not_NULL [OF i p(1)] show ?thesis by (simp add: pmm_page_share_def)
qed

lemma pmm_page_unshare_used:
  assumes i: "pmm_idle s xs" and p: "db_page s p" "\<not> is_page_free (page_at s p)"
  shows "\<exists>s'. pmm_page_unshare me p s = Some ((), s') \<and> pmm_idle s' xs \<and> others_kept {p} s s' \<and>
    page_at s' p = (let q = page_at s p; c = (if 0 < u2 q then u2 q - 1 else u2 q) in
      if is_page_shared q
      then q\<lparr>u2 := c, pg_flags := (if c \<le> 1 then clear_flags (pg_flags q) PAGE_SHARED else pg_flags q)\<rparr> else q)"
proof -
  let ?f = "\<lambda>q. let c = (if 0 < u2 q then u2 q - 1 else u2 q) in
      if is_page_shared q
      then q\<lparr>u2 := c, pg_flags := (if c \<le> 1 then clear_flags (pg_flags q) PAGE_SHARED else pg_flags q)\<rparr> else q"
  have body: "unshare_locked p t = ((), upd_page p ?f t)" for t :: "'a pmm_scheme"
    by (cases "is_page_shared (page_at t p)")
      (simp_all add: unshare_locked_def Let_def upd_page_def fun_upd_idem)
  have "\<exists>s'. with_pmm_lock me (unshare_locked p) s = Some ((), s') \<and> pmm_idle s' xs \<and> others_kept {p} s s' \<and>
      page_at s' p = ?f (page_at s p)"
    by (rule in_use_op [OF i p body])
      (use p(2) pmm_rel_clean [OF i p(1)] in \<open>auto simp: Let_def page_flag_defs bit_simps\<close>)
  with idle_page_not_NULL [OF i p(1)] show ?thesis by (simp add: pmm_page_unshare_def Let_def)
qed

lemma pmm_page_cow_used:
  assumes i: "pmm_idle s xs" and p: "db_page s p" "\<not> is_page_free (page_at s p)"
  shows "\<exists>s'. pmm_page_mark_cow me p s = Some ((), s') \<and> pmm_idle s' xs \<and> others_kept {p} s s' \<and>
      page_at s' p = (page_at s p)\<lparr>pg_flags := set_flags (pg_flags (page_at s p)) PAGE_COW\<rparr>"
    and "\<exists>s'. pmm_page_clear_cow me p s = Some ((), s') \<and> pmm_idle s' xs \<and> others_kept {p} s s' \<and>
      page_at s' p = (page_at s p)\<lparr>pg_flags := clear_flags (pg_flags (page_at s p)) PAGE_COW\<rparr>"
proof -
  note op = in_use_op [OF i p]
  show "\<exists>s'. pmm_page_mark_cow me p s = Some ((), s') \<and> pmm_idle s' xs \<and> others_kept {p} s s' \<and>
      page_at s' p = (page_at s p)\<lparr>pg_flags := set_flags (pg_flags (page_at s p)) PAGE_COW\<rparr>"
    using op [of "\<lambda>t. ((), upd_page p (\<lambda>q. q\<lparr>pg_flags := set_flags (pg_flags q) PAGE_COW\<rparr>) t)" "()"
        "\<lambda>q. q\<lparr>pg_flags := set_flags (pg_flags q) PAGE_COW\<rparr>" me]
      p(2) pmm_rel_clean [OF i p(1)] idle_page_not_NULL [OF i p(1)]
    by (simp add: pmm_page_mark_cow_def page_flag_defs bit_simps)
  show "\<exists>s'. pmm_page_clear_cow me p s = Some ((), s') \<and> pmm_idle s' xs \<and> others_kept {p} s s' \<and>
      page_at s' p = (page_at s p)\<lparr>pg_flags := clear_flags (pg_flags (page_at s p)) PAGE_COW\<rparr>"
    using op [of "\<lambda>t. ((), upd_page p (\<lambda>q. q\<lparr>pg_flags := clear_flags (pg_flags q) PAGE_COW\<rparr>) t)" "()"
        "\<lambda>q. q\<lparr>pg_flags := clear_flags (pg_flags q) PAGE_COW\<rparr>" me]
      p(2) pmm_rel_clean [OF i p(1)] idle_page_not_NULL [OF i p(1)]
    by (simp add: pmm_page_clear_cow_def page_flag_defs bit_simps)
qed

section \<open>Initialisation\<close>

text \<open>
  After the rounds for the frames below \<open>k\<close>, the list holds the free ones among them; frames
  from \<open>k\<close> on are as they were.
\<close>

definition init_upto :: "'b pmm_scheme \<Rightarrow> 'b pmm_scheme \<Rightarrow> nat \<Rightarrow> bool" where
  "init_upto s0 s k \<longleftrightarrow> mem_map s = mem_map s0 \<and> max_pfn s = max_pfn s0 \<and> pmm_lock s = pmm_lock s0 \<and>
     total_pages s = total_pages s0 \<and>
     (\<forall>a. pg_flags (page_at s a) = pg_flags (page_at s0 a) \<and> refcount (page_at s a) = refcount (page_at s0 a)) \<and>
     (\<exists>t. let xs = rev (filter (\<lambda>p. is_page_free (page_at s0 p)) (map (\<lambda>i. page_ptr s0 (of_nat i)) [0 ..< k]))
          in dll (nexts s) (prevs s) (free_list s) xs t \<and> free_pages s = of_nat (length xs))"

lemma page_ptr_fresh:
  assumes "db_wf s" and "k \<le> unat (max_pfn s)"
  shows "page_ptr s (of_nat k) \<notin> set (map (\<lambda>i. page_ptr s (of_nat i)) [0 ..< k])"
proof
  assume "page_ptr s (of_nat k) \<in> set (map (\<lambda>i. page_ptr s (of_nat i)) [0 ..< k])"
  then obtain i where "i < k" and e: "page_ptr s (of_nat k) = page_ptr s (of_nat i)" by auto
  have le: "of_nat j \<le> max_pfn s \<and> unat (of_nat j :: u64) = j" if "j \<le> k" for j
    using that assms(2) unat_of_nat_le [of j "max_pfn s"] by (simp add: word_le_nat_alt)
  from e have "(of_nat k :: u64) = of_nat i"
    using page_ptr_inj [OF assms(1)] le [of k] le [of i] \<open>i < k\<close> by simp
  then have "unat (of_nat k :: u64) = unat (of_nat i :: u64)" by simp
  then show False using le [of k] le [of i] \<open>i < k\<close> by simp
qed

lemma pmm_init_page_step:
  assumes wf: "db_wf s0" and k: "k \<le> unat (max_pfn s0)" and u: "init_upto s0 s k"
  shows "init_upto s0 (pmm_init_page (of_nat k) s) (Suc k)"
proof -
  let ?p = "page_ptr s0 (of_nat k)"
  define xs where
    "xs = rev (filter (\<lambda>p. is_page_free (page_at s0 p)) (map (\<lambda>i. page_ptr s0 (of_nat i)) [0 ..< k]))"
  from u obtain t where d: "dll (nexts s) (prevs s) (free_list s) xs t"
    and c: "free_pages s = of_nat (length xs)" by (auto simp: init_upto_def Let_def xs_def)
  have m: "page_ptr s (of_nat k) = ?p" using u by (simp add: init_upto_def page_ptr_def)
  have fresh: "?p \<notin> set xs" using page_ptr_fresh [OF wf k] by (auto simp: xs_def)
  have pn: "?p \<noteq> NULL"
    using page_ptr_not_NULL [OF wf] k unat_of_nat_le [OF k] by (simp add: word_le_nat_alt)
  let ?s1 = "upd_page ?p (\<lambda>p. p\<lparr>u1_next := NULL, u2 := NULL\<rparr>) s"
  have d1: "dll (nexts ?s1) (prevs ?s1) (free_list s) xs t"
    by (rule dll_cong [THEN iffD2, OF _ _ d]) (use fresh in auto)
  have f: "is_page_free (page_at s ?p) = is_page_free (page_at s0 ?p)"
    using u by (simp add: init_upto_def is_page_free_def)
  show ?thesis
  proof (cases "is_page_free (page_at s0 ?p)")
    case True
    have hp: "?p \<noteq> free_list ?s1"
      using dll_head [OF d] fresh pn by (auto split: if_splits)
    note links = free_list_push_links [OF hp]
    let ?s' = "free_list_push ?p ?s1"
    have "dll (nexts ?s') (prevs ?s') ?p (?p # xs) (if xs = [] then ?p else t)"
      by (rule dll_push_front [OF d1 pn fresh]) (use links hp fresh in auto)
    moreover have "pmm_init_page (of_nat k) s = ?s'\<lparr>free_pages := free_pages s + 1\<rparr>"
      using True f m by (simp add: pmm_init_page_def Let_def)
    moreover have "total_pages ?s' = total_pages s" by (simp add: free_list_push_def Let_def)
    ultimately show ?thesis using True u links c by (auto simp: init_upto_def Let_def xs_def)
  next
    case False
    then have "pmm_init_page (of_nat k) s = ?s1" using f m by (simp add: pmm_init_page_def Let_def)
    with False u d1 c show ?thesis by (auto simp: init_upto_def Let_def xs_def)
  qed
qed

lemma pmm_init_fold:
  assumes "db_wf s0" and "init_upto s0 s 0" and "k \<le> Suc (unat (max_pfn s0))"
  shows "init_upto s0 (fold pmm_init_page (map of_nat [0 ..< k]) s) k"
  using assms(3)
proof (induction k)
  case (Suc k)
  then show ?case using pmm_init_page_step [OF assms(1), of k] by simp
qed (use assms in simp)

lemma pmm_init_idle:
  assumes wf: "db_wf s" and l: "lock_free (pmm_lock s)"
    and c: "\<And>p. db_page s p \<Longrightarrow> \<not> is_page_dirty (page_at s p) \<and> (is_page_free (page_at s p) \<longrightarrow> refcount (page_at s p) = 0)"
  shows "\<exists>s'. pmm_init me s = Some ((), s') \<and>
    pmm_idle s' (rev (filter (\<lambda>p. is_page_free (page_at s p)) (map (page_ptr s) (all_pfns (max_pfn s))))) \<and>
    total_pages s' = max_pfn s + 1 \<and> others_kept {} s s'"
proof -
  let ?l = "(pmm_lock s)\<lparr>locked := 1, owner := me\<rparr>"
  let ?s0 = "s\<lparr>pmm_lock := ?l, free_list := NULL, free_pages := 0, total_pages := max_pfn s + 1\<rparr>"
  let ?xs = "rev (filter (\<lambda>p. is_page_free (page_at s p)) (map (page_ptr s) (all_pfns (max_pfn s))))"
  define s1 where "s1 = fold pmm_init_page (all_pfns (max_pfn s)) ?s0"
  have pp: "page_ptr ?s0 = page_ptr s" by (simp add: page_ptr_def fun_eq_iff)
  have "init_upto ?s0 s1 (Suc (unat (max_pfn s)))"
    unfolding s1_def all_pfns_def using wf by (intro pmm_init_fold) (auto simp: init_upto_def db_wf_def)
  then have u: "mem_map s1 = mem_map s" "max_pfn s1 = max_pfn s" "pmm_lock s1 = ?l"
      "total_pages s1 = max_pfn s + 1"
      "\<And>a. pg_flags (page_at s1 a) = pg_flags (page_at s a) \<and> refcount (page_at s1 a) = refcount (page_at s a)"
    and d: "\<exists>t. dll (nexts s1) (prevs s1) (free_list s1) ?xs t" "free_pages s1 = of_nat (length ?xs)"
    by (auto simp: init_upto_def Let_def pp all_pfns_def comp_def simp del: upt_Suc)
  have db: "db_page s1 = db_page s" "db_wf s1" using u wf db_page_cong [of s1 s] by (auto simp: db_wf_def)
  have fs: "set ?xs = frees s1"
    using u(5) by (auto simp: frees_def db is_page_free_def db_page_def all_pfns_iff)
  have "pmm_rel s1 ?xs"
    unfolding pmm_rel_def using d fs db u(5) c
    by (auto simp: frees_def is_page_free_def is_page_dirty_def simp del: set_rev set_filter)
  moreover have "pmm_init me s = Some ((), s1\<lparr>pmm_lock := lock_release me ?l\<rparr>)"
    using l wf u(3) by (simp add: pmm_init_def with_pmm_lock_def s1_def db_wf_def Let_def)
  ultimately show ?thesis using l u by (auto simp: pmm_idle_def others_kept_def)
qed

section \<open>Contiguous runs\<close>

definition run_free :: "'b pmm_scheme \<Rightarrow> nat \<Rightarrow> u64 \<Rightarrow> bool" where
  "run_free s k count \<longleftrightarrow> k + unat count \<le> unat (max_pfn s) + 1 \<and>
     (\<forall>j < unat count. is_page_free (page_at s (page_ptr s (of_nat (k + j)))))"

text \<open>\<open>r\<close> is the first run of \<open>count\<close> free frames at or after \<open>i\<close>, or none exists.\<close>

definition first_run :: "'b pmm_scheme \<Rightarrow> u64 \<Rightarrow> nat \<Rightarrow> u64 option \<Rightarrow> bool" where
  "first_run s count i r \<longleftrightarrow>
     (case r of
        Some k \<Rightarrow> i \<le> unat k \<and> run_free s (unat k) count \<and>
          (\<forall>k'. i \<le> k' \<and> k' < unat k \<longrightarrow> \<not> run_free s k' count)
      | None \<Rightarrow> \<forall>k'. i \<le> k' \<longrightarrow> \<not> run_free s k' count)"

lemma first_used_None:
  "first_used s i count = None \<longleftrightarrow>
   (\<forall>j < unat count. is_page_free (page_at s (page_ptr s (i + of_nat j))))"
  by (auto simp: first_used_def find_None_iff)

lemma first_used_Some:
  "first_used s i count = Some j \<Longrightarrow> j < unat count \<and> \<not> is_page_free (page_at s (page_ptr s (i + of_nat j)))"
  by (auto simp: first_used_def find_Some_iff)

lemma find_run_guard:
  assumes wf: "db_wf s" and "0 < unat count" and "unat i \<le> unat (max_pfn s) + 1"
    and "i = 0 \<or> unat count \<le> unat (max_pfn s) + 1"
  shows "i + count - 1 \<le> max_pfn s \<longleftrightarrow> unat i + unat count \<le> unat (max_pfn s) + 1"
proof -
  have m: "unat (max_pfn s) < 2 ^ 52" using wf by (simp add: db_wf_def)
  have sum: "unat (i + count) = unat i + unat count"
  proof (rule unat_add_no_wrap)
    from assms(4) show "unat i + unat count < 2 ^ LENGTH(64)"
      using m assms(3) unat_bound [of count] by auto
  qed
  then have "i + count \<noteq> 0" using assms(2) by (metis add_is_0 neq0_conv unat_0)
  then have "unat (i + count - 1) = unat i + unat count - 1" by (simp add: unat_minus_one sum)
  then show ?thesis using assms(2) by (auto simp: word_le_nat_alt)
qed

lemma find_run_spec:
  assumes wf: "db_wf s" and c: "0 < unat count" and "unat i \<le> unat (max_pfn s) + 1"
    and "i = 0 \<or> unat count \<le> unat (max_pfn s) + 1"
  shows "\<exists>r. find_run s count i = Some r \<and> first_run s count (unat i) r"
  using assms(3,4)
proof (induction "unat (max_pfn s) + 1 - unat i" arbitrary: i rule: less_induct)
  case less
  note guard = find_run_guard [OF wf c less.prems]
  show ?case
  proof (cases "unat i + unat count \<le> unat (max_pfn s) + 1")
    case False
    then have "find_run s count i = Some None" using guard by (subst find_run.simps) simp
    with False show ?thesis by (auto simp: first_run_def run_free_def)
  next
    case True
    show ?thesis
    proof (cases "first_used s i count")
      case None
      then have "find_run s count i = Some (Some i)" using guard True by (subst find_run.simps) simp
      moreover have "run_free s (unat i) count" using None True by (auto simp: run_free_def first_used_None)
      ultimately show ?thesis by (auto simp: first_run_def)
    next
      case (Some j)
      note j = first_used_Some [OF Some]
      let ?i' = "i + of_nat j + 1"
      have "unat (of_nat j :: u64) = j" using j by (intro unat_of_nat_le [of _ count]) simp
      then have "unat (i + of_nat j) = unat i + j"
        using j True less.prems wf by (subst unat_add_no_wrap) (auto simp: db_wf_def)
      then have i': "unat ?i' = unat i + j + 1"
        using j True wf by (subst unat_add_no_wrap) (auto simp: db_wf_def)
      have skip: "\<not> run_free s k' count" if "unat i \<le> k'" "k' < unat i + j + 1" for k'
      proof
        assume "run_free s k' count"
        moreover have "unat i + j - k' < unat count" "k' + (unat i + j - k') = unat i + j" using that j by auto
        ultimately have "is_page_free (page_at s (page_ptr s (of_nat (unat i + j))))"
          unfolding run_free_def by metis
        then show False using j by simp
      qed
      have e: "find_run s count i = find_run s count ?i'"
        using guard True Some by (subst find_run.simps) simp
      have "unat (max_pfn s) + 1 - unat ?i' < unat (max_pfn s) + 1 - unat i"
        using i' j True by linarith
      moreover have "unat ?i' \<le> unat (max_pfn s) + 1" "unat count \<le> unat (max_pfn s) + 1"
        using i' j True by linarith+
      ultimately obtain r where r: "find_run s count ?i' = Some r" "first_run s count (unat ?i') r"
        using less.hyps [of ?i'] by blast
      have far: "\<not> run_free s k' count" if "unat i \<le> k'" "unat ?i' \<le> k' \<Longrightarrow> \<not> run_free s k' count" for k'
        using skip [of k'] that i' by fastforce
      with r e i' show ?thesis by (cases r) (auto simp: first_run_def)
    qed
  qed
qed

text \<open>The descriptors of a run, and a page handed out by the allocator.\<close>

definition run_pages :: "'b pmm_scheme \<Rightarrow> u64 \<Rightarrow> u64 \<Rightarrow> u64 list" where
  "run_pages s i count = map (\<lambda>j. page_ptr s (i + of_nat j)) [0 ..< unat count]"

definition handed_out :: "(u64 \<Rightarrow> page) \<Rightarrow> u64 \<Rightarrow> bool" where
  "handed_out h p \<longleftrightarrow> refcount (h p) = 1 \<and> \<not> is_page_reserved (h p)"

lemma others_kept_trans:
  "others_kept P s t \<Longrightarrow> others_kept Q t u \<Longrightarrow> others_kept (P \<union> Q) s u"
  by (auto simp: others_kept_def)

lemma claim_each:
  assumes "pmm_rel s xs" and "set ps \<subseteq> set xs" and "distinct ps"
  shows "\<exists>ys. pmm_rel (fold claim_page ps s) ys \<and> set ys = set xs - set ps \<and>
    others_kept (set ps) s (fold claim_page ps s) \<and> pmm_lock (fold claim_page ps s) = pmm_lock s \<and>
    (\<forall>p \<in> set ps. handed_out (page_at (fold claim_page ps s)) p)"
  using assms
proof (induction ps arbitrary: s xs)
  case Nil
  then show ?case by (auto simp: others_kept_def)
next
  case (Cons p ps)
  let ?s = "claim_page p s"
  have p: "p \<in> set xs" using Cons.prems(2) by simp
  note c = claim_page_rel [OF Cons.prems(1) p]
  have s': "set (remove1 p xs) = set xs - {p}" by (rule set_remove1_rel [OF Cons.prems(1)])
  obtain ys where ys: "pmm_rel (fold claim_page ps ?s) ys" "set ys = set (remove1 p xs) - set ps"
    "others_kept (set ps) ?s (fold claim_page ps ?s)" "pmm_lock (fold claim_page ps ?s) = pmm_lock ?s"
    "\<forall>q \<in> set ps. handed_out (page_at (fold claim_page ps ?s)) q"
    using Cons.IH [OF c(1)] Cons.prems s' by auto
  have "handed_out (page_at (fold claim_page ps ?s)) p"
    using ys(3) Cons.prems(3) c(3,4) by (simp add: handed_out_def others_kept_def is_page_reserved_def)
  with ys c(2,5) s' others_kept_trans [OF c(2) ys(3)] show ?case
    by (intro exI [of _ ys]) auto
qed

lemma claim_page_page_ptr: "page_ptr (claim_page p s) = page_ptr s"
  by (simp add: claim_page_def Let_def page_ptr_def fun_eq_iff)

lemma claim_run_fold:
  "fold (\<lambda>j t. claim_page (page_ptr t (i + of_nat j)) t) js s =
   fold claim_page (map (\<lambda>j. page_ptr s (i + of_nat j)) js) s"
  by (induction js arbitrary: s) (simp_all add: claim_page_page_ptr)

lemma run_pages_free:
  assumes "pmm_rel s xs" and "run_free s (unat i) count"
  shows "set (run_pages s i count) \<subseteq> set xs" and "distinct (run_pages s i count)"
proof -
  have wf: "db_wf s" using assms(1) by (simp add: pmm_rel_def)
  have le: "i + of_nat j \<le> max_pfn s \<and> unat (i + of_nat j) = unat i + j" if "j < unat count" for j
  proof -
    have "unat i + j \<le> unat (max_pfn s)" using assms(2) that by (simp add: run_free_def)
    from unat_of_nat_le [OF this] this show ?thesis by (simp add: word_le_nat_alt)
  qed
  show "set (run_pages s i count) \<subseteq> set xs"
  proof
    fix p assume "p \<in> set (run_pages s i count)"
    then obtain j where j: "j < unat count" "p = page_ptr s (i + of_nat j)" by (auto simp: run_pages_def)
    then have "db_page s p" using le [of j] by (auto simp: db_page_def)
    moreover have "is_page_free (page_at s p)" using assms(2) j by (simp add: run_free_def)
    ultimately show "p \<in> set xs" using assms(1) by (simp add: pmm_rel_def frees_def)
  qed
  have "inj_on (\<lambda>j. page_ptr s (i + of_nat j)) {0 ..< unat count}"
  proof (rule inj_onI)
    fix j k assume "j \<in> {0 ..< unat count}" "k \<in> {0 ..< unat count}"
      and "page_ptr s (i + of_nat j) = page_ptr s (i + of_nat k)"
    with page_ptr_inj [OF wf] le [of j] le [of k] show "j = k" by (metis add_left_cancel atLeastLessThan_iff)
  qed
  then show "distinct (run_pages s i count)" by (simp add: run_pages_def distinct_map)
qed

lemma pmm_alloc_pages_idle:
  assumes i: "pmm_idle s xs" and c: "1 < unat count"
  shows "if \<exists>k. run_free s k count
    then \<exists>k s' ys. first_run s count 0 (Some k) \<and> pmm_alloc_pages me count s = Some (page_ptr s k, s') \<and>
      pmm_idle s' ys \<and> set ys = set xs - set (run_pages s k count) \<and>
      others_kept (set (run_pages s k count)) s s' \<and> (\<forall>p \<in> set (run_pages s k count). handed_out (page_at s') p)
    else pmm_alloc_pages me count s = Some (NULL, s)"
proof -
  let ?l = "(pmm_lock s)\<lparr>locked := 1, owner := me\<rparr>"
  let ?s = "s\<lparr>pmm_lock := ?l\<rparr>"
  have r: "pmm_rel ?s xs" and l: "lock_free (pmm_lock s)" using i by (auto simp: pmm_idle_def)
  have cnt: "count \<noteq> 0" "count \<noteq> 1" using c by auto
  have "run_free ?s = run_free s" by (simp add: run_free_def fun_eq_iff)
  moreover have "first_run ?s = first_run s"
    unfolding first_run_def [abs_def] by (simp add: calculation)
  ultimately have rf: "run_free ?s = run_free s" "first_run ?s = first_run s" by simp_all
  have rp: "run_pages ?s = run_pages s" by (simp add: run_pages_def fun_eq_iff)
  obtain x where x: "find_run ?s count 0 = Some x" "first_run s count 0 x"
    using find_run_spec [of ?s count 0] r c rf by (auto simp: pmm_rel_def)
  show ?thesis
  proof (cases x)
    case None
    then have "\<not> (\<exists>k. run_free s k count)" using x(2) by (auto simp: first_run_def)
    with None x(1) cnt l show ?thesis by (simp add: pmm_alloc_pages_def Let_def)
  next
    case (Some k)
    then have run: "run_free ?s (unat k) count" using x(2) by (simp add: first_run_def rf)
    let ?s1 = "fold claim_page (run_pages s k count) ?s"
    obtain ys where ys: "pmm_rel ?s1 ys" "set ys = set xs - set (run_pages s k count)"
      "others_kept (set (run_pages s k count)) ?s ?s1" "pmm_lock ?s1 = ?l"
      "\<forall>p \<in> set (run_pages s k count). handed_out (page_at ?s1) p"
      using claim_each [OF r run_pages_free [OF r run]] by (auto simp: rp)
    have folded: "fold (\<lambda>j t. claim_page (page_ptr t (k + of_nat j)) t) [0 ..< unat count] ?s = ?s1"
      by (simp add: claim_run_fold run_pages_def)
    have ptr: "page_ptr ?s1 k = page_ptr s k" using ys(3) by (simp add: others_kept_def page_ptr_def)
    have "pmm_alloc_pages me count s = Some (page_ptr s k, ?s1\<lparr>pmm_lock := pmm_lock s\<rparr>)"
      using cnt l x(1) Some ys(4) ptr by (simp add: pmm_alloc_pages_def Let_def folded)
    moreover have "pmm_idle (?s1\<lparr>pmm_lock := pmm_lock s\<rparr>) ys"
      "others_kept (set (run_pages s k count)) s (?s1\<lparr>pmm_lock := pmm_lock s\<rparr>)"
      using ys l by (auto simp: pmm_idle_def others_kept_def)
    moreover have "\<exists>k. run_free s k count" using run by (auto simp: rf)
    moreover have "first_run s count 0 (Some k)" using x(2) Some by simp
    moreover have "\<forall>p \<in> set (run_pages s k count). handed_out (page_at (?s1\<lparr>pmm_lock := pmm_lock s\<rparr>)) p"
      using ys(5) by simp
    ultimately show ?thesis using ys(2) by (simp del: split_paired_Ex) blast
  qed
qed

section \<open>The interface to the rest of the kernel\<close>

text \<open>
  What the heap and the page tables rely on: an allocation takes one of the available pages or
  answers \<open>NULL\<close> when there is none, and a page that is released is available again.
\<close>

locale page_allocator =
  fixes inv :: "'s \<Rightarrow> bool" and avail :: "'s \<Rightarrow> u64 set" and owned :: "'s \<Rightarrow> u64 set"
    and alloc :: "'s \<Rightarrow> (u64 \<times> 's) option" and release :: "u64 \<Rightarrow> 's \<Rightarrow> (unit \<times> 's) option"
  assumes avail_finite: "inv s \<Longrightarrow> finite (avail s)"
    and avail_not_null: "inv s \<Longrightarrow> NULL \<notin> avail s"
    and alloc_empty: "inv s \<Longrightarrow> avail s = {} \<Longrightarrow> alloc s = Some (NULL, s)"
    and alloc_some: "inv s \<Longrightarrow> avail s \<noteq> {} \<Longrightarrow>
      \<exists>p s'. alloc s = Some (p, s') \<and> inv s' \<and> p \<in> avail s \<and> avail s' = avail s - {p} \<and>
        owned s' = insert p (owned s)"
    and release_owned: "inv s \<Longrightarrow> p \<in> owned s \<Longrightarrow>
      \<exists>s'. release p s = Some ((), s') \<and> inv s' \<and> avail s' = insert p (avail s) \<and>
        owned s' = owned s - {p}"
begin

fun allocs :: "nat \<Rightarrow> 's \<Rightarrow> (u64 list \<times> 's) option" where
  "allocs 0 s = Some ([], s)"
| "allocs (Suc n) s =
     (case alloc s of None \<Rightarrow> None
      | Some (p, s1) \<Rightarrow> case allocs n s1 of None \<Rightarrow> None | Some (ps, s2) \<Rightarrow> Some (p # ps, s2))"

fun releases :: "u64 list \<Rightarrow> 's \<Rightarrow> 's option" where
  "releases [] s = Some s"
| "releases (p # ps) s = (case release p s of None \<Rightarrow> None | Some (_, s1) \<Rightarrow> releases ps s1)"

lemma allocs_distinct:
  "inv s \<Longrightarrow> n \<le> card (avail s) \<Longrightarrow>
   \<exists>ps s'. allocs n s = Some (ps, s') \<and> inv s' \<and> length ps = n \<and> distinct ps \<and> set ps \<subseteq> avail s \<and>
     avail s' = avail s - set ps \<and> owned s' = owned s \<union> set ps"
proof (induction n arbitrary: s)
  case (Suc n)
  then have "avail s \<noteq> {}" by auto
  with alloc_some [OF Suc.prems(1)] obtain p s1 where
    1: "alloc s = Some (p, s1)" "inv s1" "p \<in> avail s" "avail s1 = avail s - {p}" "owned s1 = insert p (owned s)"
    by blast
  have "n \<le> card (avail s1)" using Suc.prems(2) 1(3,4) avail_finite [OF Suc.prems(1)] by simp
  from Suc.IH [OF 1(2) this] obtain ps s2 where
    "allocs n s1 = Some (ps, s2)" "inv s2" "length ps = n" "distinct ps" "set ps \<subseteq> avail s1"
    "avail s2 = avail s1 - set ps" "owned s2 = owned s1 \<union> set ps"
    by blast
  with 1 show ?case by (intro exI [of _ "p # ps"] exI [of _ s2]) auto
qed auto

lemma releases_avail:
  "inv s \<Longrightarrow> distinct ps \<Longrightarrow> set ps \<subseteq> owned s \<Longrightarrow>
   \<exists>s'. releases ps s = Some s' \<and> inv s' \<and> avail s' = avail s \<union> set ps \<and> owned s' = owned s - set ps"
proof (induction ps arbitrary: s)
  case (Cons p ps)
  then obtain s1 where
    1: "release p s = Some ((), s1)" "inv s1" "avail s1 = insert p (avail s)" "owned s1 = owned s - {p}"
    using release_owned [of s p] by auto
  moreover have "set ps \<subseteq> owned s1" "distinct ps" using Cons.prems 1(4) by auto
  ultimately show ?case using Cons.IH [OF 1(2)] by auto
qed auto

text \<open>The allocator hands out every page exactly once, says so when none is left, and has them
  all again when they are released in any order.\<close>

lemma drain_and_refill:
  assumes "inv s"
  shows "\<exists>ps s'. allocs (card (avail s)) s = Some (ps, s') \<and> distinct ps \<and> set ps = avail s \<and>
    alloc s' = Some (NULL, s') \<and>
    (\<forall>qs. distinct qs \<and> set qs = set ps \<longrightarrow> (\<exists>s''. releases qs s' = Some s'' \<and> inv s'' \<and> avail s'' = avail s))"
proof -
  obtain ps s' where 1: "allocs (card (avail s)) s = Some (ps, s')" "inv s'" "length ps = card (avail s)"
    "distinct ps" "set ps \<subseteq> avail s" "avail s' = avail s - set ps" "owned s' = owned s \<union> set ps"
    using allocs_distinct [OF assms order_refl] by blast
  have "set ps = avail s"
    using 1(3-5) avail_finite [OF assms] by (simp add: card_subset_eq distinct_card)
  moreover from this have "\<exists>s''. releases qs s' = Some s'' \<and> inv s'' \<and> avail s'' = avail s"
    if "distinct qs" "set qs = set ps" for qs
    using releases_avail [OF 1(2), of qs] that 1(6,7) by auto
  ultimately show ?thesis using 1 alloc_empty [OF 1(2)] by auto
qed

end

text \<open>Pages with one reference, neither free nor reserved: the next release frees them.\<close>

definition last_ref :: "'b pmm_scheme \<Rightarrow> u64 set" where
  "last_ref s = {p. db_page s p \<and> \<not> is_page_free (page_at s p) \<and> handed_out (page_at s) p}"

definition pmm_ready :: "'b pmm_scheme \<Rightarrow> bool" where
  "pmm_ready s \<longleftrightarrow> (\<exists>xs. pmm_idle s xs)"

lemma pmm_idle_frees: "pmm_idle s xs \<Longrightarrow> set xs = frees s"
  by (simp add: pmm_idle_def pmm_rel_def)

lemma last_ref_kept:
  assumes "others_kept {p} s s'"
  shows "last_ref s' - {p} = last_ref s - {p}"
  using assms db_page_cong [of s' s]
  by (auto simp: last_ref_def others_kept_def handed_out_def page_flag_defs)

lemma frees_kept: "others_kept {p} s s' \<Longrightarrow> frees s' - {p} = frees s - {p}"
  using db_page_cong [of s' s] by (auto simp: frees_def others_kept_def is_page_free_def)

interpretation pmm: page_allocator pmm_ready frees last_ref "pmm_alloc_page me" "pmm_page_release me" for me
proof
  fix s :: "'a pmm_scheme" assume "pmm_ready s"
  then obtain xs where i: "pmm_idle s xs" by (auto simp: pmm_ready_def)
  show "finite (frees s)" using pmm_idle_frees [OF i] by (metis finite_set)
  show "NULL \<notin> frees s" using i by (auto simp: frees_def dest: idle_page_not_NULL)
  show "pmm_alloc_page me s = Some (NULL, s)" if "frees s = {}"
    using that i pmm_idle_frees [OF i] by (auto intro: pmm_alloc_page_empty)
  show "\<exists>p s'. pmm_alloc_page me s = Some (p, s') \<and> pmm_ready s' \<and> p \<in> frees s \<and> frees s' = frees s - {p} \<and>
      last_ref s' = insert p (last_ref s)" if ne: "frees s \<noteq> {}"
  proof -
    have "xs \<noteq> []" using ne pmm_idle_frees [OF i] by auto
    then obtain p ys where xs: "xs = p # ys" by (meson list.exhaust)
    have p: "p \<in> frees s" using pmm_idle_frees [OF i] xs by auto
    obtain s' where s': "pmm_alloc_page me s = Some (p, s')" "pmm_idle s' ys" "others_kept {p} s s'"
      "handed_out (page_at s') p"
      using pmm_alloc_page_idle [of s p ys me] i xs by (auto simp: handed_out_def)
    have "p \<notin> set ys" using i xs pmm_rel_length(2) [of s xs] by (auto simp: pmm_idle_def)
    then have "p \<notin> frees s'" using pmm_idle_frees [OF s'(2)] by simp
    moreover have "db_page s' p" using p s'(3) db_page_cong [of s' s] by (auto simp: others_kept_def frees_def)
    ultimately have "p \<in> last_ref s'" using s'(4) by (auto simp: last_ref_def frees_def)
    with last_ref_kept [OF s'(3)] frees_kept [OF s'(3)] \<open>p \<notin> frees s'\<close> p s' show ?thesis
      by (intro exI [of _ p] exI [of _ s']) (auto simp: pmm_ready_def)
  qed
  show "\<exists>s'. pmm_page_release me p s = Some ((), s') \<and> pmm_ready s' \<and> frees s' = insert p (frees s) \<and>
      last_ref s' = last_ref s - {p}" if l: "p \<in> last_ref s" for p
  proof -
    obtain s' where s': "pmm_page_release me p s = Some ((), s')" "pmm_idle s' (p # xs)" "others_kept {p} s s'"
      using pmm_page_release_last [OF i, of p me] l idle_page_not_NULL [OF i, of p]
      by (auto simp: last_ref_def handed_out_def)
    have "p \<in> frees s'" using pmm_idle_frees [OF s'(2)] by auto
    moreover from this have "p \<notin> last_ref s'" by (auto simp: last_ref_def frees_def)
    moreover have "p \<notin> frees s" using l by (auto simp: last_ref_def frees_def)
    ultimately show ?thesis
      using last_ref_kept [OF s'(3)] frees_kept [OF s'(3)] s' by (auto simp: pmm_ready_def)
  qed
qed

section \<open>Runs of pages in terms of the interface\<close>

definition frame_ptrs :: "'b pmm_scheme \<Rightarrow> nat \<Rightarrow> nat \<Rightarrow> u64 set" where
  "frame_ptrs s k n = (\<lambda>j. page_ptr s (of_nat j)) ` {k ..< k + n}"

lemma run_pages_ptrs: "set (run_pages s (of_nat k) count) = frame_ptrs s k (unat count)"
proof -
  have "(\<lambda>j. page_ptr s (of_nat k + of_nat j)) ` {0 ..< unat count} =
      (\<lambda>j. page_ptr s (of_nat j)) ` ((+) k ` {0 ..< unat count})"
    by (simp only: image_image of_nat_add)
  then show ?thesis by (simp add: run_pages_def frame_ptrs_def add.commute [of k])
qed

lemma last_ref_run:
  assumes "others_kept P s t" and "P \<subseteq> {p. db_page s p}" and "\<And>p. p \<in> P \<Longrightarrow> handed_out (page_at t) p \<and> p \<notin> frees t"
  shows "last_ref t = last_ref s \<union> P"
proof -
  have "p \<in> last_ref t \<longleftrightarrow> p \<in> last_ref s" if "p \<notin> P" for p
    using assms(1) that db_page_cong [of t s]
    by (auto simp: last_ref_def others_kept_def handed_out_def page_flag_defs)
  moreover have "p \<in> last_ref t" if "p \<in> P" for p
    using assms that db_page_cong [of t s] by (auto simp: last_ref_def frees_def others_kept_def)
  ultimately show ?thesis by blast
qed

lemma alloc_run:
  assumes rd: "pmm_ready s" and c: "0 < unat count"
  shows "(\<forall>k. \<not> run_free s k count) \<and> pmm_alloc_pages me count s = Some (NULL, s) \<or>
    (\<exists>k t. run_free s k count \<and> pmm_alloc_pages me count s = Some (page_ptr s (of_nat k), t) \<and> pmm_ready t \<and>
      mem_map t = mem_map s \<and> max_pfn t = max_pfn s \<and> frame_ptrs s k (unat count) \<subseteq> frees s \<and>
      frees t = frees s - frame_ptrs s k (unat count) \<and> last_ref t = last_ref s \<union> frame_ptrs s k (unat count))"
proof -
  from rd obtain xs where i: "pmm_idle s xs" by (auto simp: pmm_ready_def)
  note fx = pmm_idle_frees [OF i]
  have run: "\<exists>k t. run_free s k count \<and> pmm_alloc_pages me count s = Some (page_ptr s (of_nat k), t) \<and> pmm_ready t \<and>
      mem_map t = mem_map s \<and> max_pfn t = max_pfn s \<and> frame_ptrs s k (unat count) \<subseteq> frees s \<and>
      frees t = frees s - frame_ptrs s k (unat count) \<and> last_ref t = last_ref s \<union> frame_ptrs s k (unat count)"
    if r: "run_free s (unat k) count" "pmm_alloc_pages me count s = Some (page_ptr s k, t)" "pmm_idle t ys"
      "set ys = set xs - set (run_pages s k count)" "others_kept (set (run_pages s k count)) s t"
      "\<forall>p \<in> set (run_pages s k count). handed_out (page_at t) p" for k t ys
  proof -
    have k: "set (run_pages s k count) = frame_ptrs s (unat k) (unat count)" using run_pages_ptrs [of s "unat k" count] by simp
    have sub: "frame_ptrs s (unat k) (unat count) \<subseteq> frees s"
      using run_pages_free(1) [OF _ r(1), of xs] i fx k by (auto simp: pmm_idle_def)
    have ft: "frees t = frees s - frame_ptrs s (unat k) (unat count)"
      using pmm_idle_frees [OF r(3)] r(4) fx k by simp
    have "last_ref t = last_ref s \<union> frame_ptrs s (unat k) (unat count)"
      by (rule last_ref_run) (use r(5,6) k sub ft in \<open>auto simp: frees_def\<close>)
    moreover have "pmm_ready t" using r(3) by (auto simp: pmm_ready_def)
    ultimately show ?thesis using r(1,2,5) sub ft by (intro exI [of _ "unat k"] exI [of _ t]) (auto simp: others_kept_def)
  qed
  show ?thesis
  proof (cases "unat count = 1")
    case True
    then have c1: "count = 1" by (simp add: word_unat_eq_iff)
    show ?thesis
    proof (cases xs)
      case Nil
      then have "frees s = {}" using fx by simp
      moreover have "page_ptr s (of_nat k) \<in> frees s" if "run_free s k count" for k
        using that unat_of_nat_le [of k "max_pfn s"]
        by (auto simp: run_free_def c1 frees_def db_page_def word_le_nat_alt intro: exI [of _ "of_nat k"])
      ultimately have "\<not> run_free s k count" for k by blast
      then show ?thesis using Nil i pmm_alloc_page_empty by (simp add: pmm_alloc_pages_def c1)
    next
      case (Cons p ys)
      have p: "p \<in> frees s" using fx Cons by auto
      then obtain k where k: "k \<le> max_pfn s" "p = page_ptr s k" by (auto simp: frees_def db_page_def)
      have rp: "set (run_pages s k count) = {p}" by (simp add: run_pages_def c1 k)
      obtain t where t: "pmm_alloc_page me s = Some (p, t)" "pmm_idle t ys" "others_kept {p} s t" "handed_out (page_at t) p"
        using pmm_alloc_page_idle [of s p ys me] i Cons by (auto simp: handed_out_def)
      have "run_free s (unat k) count" using p k by (simp add: run_free_def c1 frees_def word_le_nat_alt)
      moreover have "p \<notin> set ys" using i Cons pmm_rel_length(2) [of s xs] by (auto simp: pmm_idle_def)
      ultimately show ?thesis
        by (intro disjI2 run [of k t ys]) (use t k rp Cons in \<open>auto simp: pmm_alloc_pages_def c1\<close>)
    qed
  next
    case False
    then have "1 < unat count" using c by simp
    from pmm_alloc_pages_idle [OF i this, of me] show ?thesis
      using run by (auto simp: first_run_def split: if_splits)
  qed
qed

lemma release_run:
  assumes "pmm_ready s" and "distinct ps" and "set ps \<subseteq> last_ref s"
  shows "\<exists>t. release_each me ps s = Some ((), t) \<and> pmm_ready t \<and> mem_map t = mem_map s \<and> max_pfn t = max_pfn s \<and>
    frees t = frees s \<union> set ps \<and> last_ref t = last_ref s - set ps"
  using assms
proof (induction ps arbitrary: s)
  case (Cons p ps)
  obtain xs where i: "pmm_idle s xs" using Cons.prems(1) by (auto simp: pmm_ready_def)
  have p: "p \<in> last_ref s" using Cons.prems(3) by simp
  obtain s' where s': "pmm_page_release me p s = Some ((), s')" "pmm_ready s'"
    "frees s' = insert p (frees s)" "last_ref s' = last_ref s - {p}"
    using pmm.release_owned [OF Cons.prems(1) p, of me] by blast
  have k: "mem_map s' = mem_map s" "max_pfn s' = max_pfn s"
    using pmm_page_release_last [OF i, of p me] p idle_page_not_NULL [OF i, of p] s'(1)
    by (auto simp: last_ref_def handed_out_def others_kept_def)
  obtain t where "release_each me ps s' = Some ((), t)" "pmm_ready t" "mem_map t = mem_map s'" "max_pfn t = max_pfn s'"
    "frees t = frees s' \<union> set ps" "last_ref t = last_ref s' - set ps"
    using Cons.IH [OF s'(2)] Cons.prems s'(4) by auto
  then show ?case using s' k by auto
qed simp

section \<open>A machine with four frames\<close>

definition boot_pmm :: pmm where
  "boot_pmm = \<lparr>mem_map = 0xFFFF800000000000, max_pfn = 3, db_phys = 0, hhdm_offset = 0xFFFF800000000000,
     page_at = (\<lambda>p. \<lparr>u1_next = 0, u2 = 0, pg_flags = (if p = 0xFFFF800000000000 then 4 else 1), refcount = 0\<rparr>),
     free_list = 0, free_pages = 0, total_pages = 0, pmm_lock = SPINLOCK_INIT\<rparr>"

lemma boot_pmm_ok:
  "db_wf boot_pmm" "lock_free (pmm_lock boot_pmm)"
  "\<not> is_page_dirty (page_at boot_pmm p) \<and> (is_page_free (page_at boot_pmm p) \<longrightarrow> refcount (page_at boot_pmm p) = 0)"
  by (auto simp: boot_pmm_def db_wf_def is_page_dirty_def bit_simps)

lemma boot_pmm_idle:
  obtains s where "pmm_init me boot_pmm = Some ((), s)"
    and "pmm_idle s [0xFFFF8000000000C0, 0xFFFF800000000080, 0xFFFF800000000040]"
    and "mem_map s = 0xFFFF800000000000" and "max_pfn s = 3"
    and "pg_flags (page_at s 0xFFFF800000000000) = 4" and "refcount (page_at s 0xFFFF800000000000) = 0"
proof -
  have "rev (filter (\<lambda>p. is_page_free (page_at boot_pmm p)) (map (page_ptr boot_pmm) (all_pfns (max_pfn boot_pmm)))) =
      [0xFFFF8000000000C0, 0xFFFF800000000080, 0xFFFF800000000040]"
    by (simp add: boot_pmm_def all_pfns_def page_ptr_def is_page_free_def upt_rec)
  with pmm_init_idle [OF boot_pmm_ok(1,2), of me] boot_pmm_ok(3) obtain s
    where s: "pmm_init me boot_pmm = Some ((), s)"
      "pmm_idle s [0xFFFF8000000000C0, 0xFFFF800000000080, 0xFFFF800000000040]" "others_kept {} boot_pmm s"
    by auto
  from s(3) show thesis by (intro that [OF s(1,2)]) (simp_all add: others_kept_def boot_pmm_def)
qed

section \<open>Properties\<close>

text \<open>
  \<open>pmm_init\<close> returns, and leaves a free list that links exactly the descriptors flagged free, the
  highest frame first, with the counters right; it changes no flag and no reference count.
\<close>
theorem pmm_init_free_list:
  assumes "db_wf s" and "lock_free (pmm_lock s)"
    and "\<forall>p. db_page s p \<longrightarrow> \<not> is_page_dirty (page_at s p) \<and> (is_page_free (page_at s p) \<longrightarrow> refcount (page_at s p) = 0)"
  shows "\<exists>s'. pmm_init me s = Some ((), s') \<and>
    pmm_idle s' (rev (filter (\<lambda>p. is_page_free (page_at s p)) (map (page_ptr s) (all_pfns (max_pfn s))))) \<and>
    unat (free_pages s') = card (frees s) \<and> total_pages s' = max_pfn s + 1 \<and> others_kept {} s s'"
proof -
  obtain s' where s': "pmm_init me s = Some ((), s')" "total_pages s' = max_pfn s + 1" "others_kept {} s s'"
    and i: "pmm_idle s' (rev (filter (\<lambda>p. is_page_free (page_at s p)) (map (page_ptr s) (all_pfns (max_pfn s)))))"
    using pmm_init_idle [OF assms(1,2)] assms(3) by blast
  have "frees s' = frees s"
    using s'(3) db_page_cong [of s' s] by (auto simp: frees_def others_kept_def is_page_free_def)
  then have "unat (free_pages s') = card (frees s)"
    using i pmm_rel_length(2,3) pmm_idle_frees [OF i] by (metis distinct_card pmm_idle_def)
  with s' i show ?thesis by blast
qed

theorem pmm_init_free_list_witness:
  "\<exists>s'. pmm_init 0 boot_pmm = Some ((), s') \<and> total_pages s' = 4"
proof -
  have "\<forall>p. db_page boot_pmm p \<longrightarrow> \<not> is_page_dirty (page_at boot_pmm p) \<and>
      (is_page_free (page_at boot_pmm p) \<longrightarrow> refcount (page_at boot_pmm p) = 0)"
    using boot_pmm_ok(3) by blast
  from pmm_init_free_list [OF boot_pmm_ok(1,2) this, of 0] show ?thesis by (auto simp: boot_pmm_def)
qed

text \<open>
  C5. The requests for one page and for a run of pages. \<open>pmm_alloc_page\<close> hands out the head of the free
  list with one reference, or \<open>NULL\<close> when the list is empty. For more than one page the search ends:
  when a run of \<open>count\<close> free frames exists, \<open>pmm_alloc_pages\<close> takes exactly the first such run and each of
  its pages has one reference; otherwise it answers \<open>NULL\<close> and the state is unchanged. Nothing
  else changes, and the free list stays exact.
\<close>
theorem pmm_alloc_correct:
  assumes "pmm_idle s xs"
  shows "(case xs of [] \<Rightarrow> pmm_alloc_page me s = Some (NULL, s)
      | p # ys \<Rightarrow> \<exists>s'. pmm_alloc_page me s = Some (p, s') \<and> pmm_idle s' ys \<and> others_kept {p} s s' \<and>
          handed_out (page_at s') p) \<and>
    (1 < unat count \<longrightarrow>
      (if \<exists>k. run_free s k count
       then \<exists>k s' ys. first_run s count 0 (Some k) \<and> pmm_alloc_pages me count s = Some (page_ptr s k, s') \<and>
         pmm_idle s' ys \<and> set ys = set xs - set (run_pages s k count) \<and>
         others_kept (set (run_pages s k count)) s s' \<and> (\<forall>p \<in> set (run_pages s k count). handed_out (page_at s') p)
       else pmm_alloc_pages me count s = Some (NULL, s)))"
proof (intro conjI impI)
  show "case xs of [] \<Rightarrow> pmm_alloc_page me s = Some (NULL, s)
      | p # ys \<Rightarrow> \<exists>s'. pmm_alloc_page me s = Some (p, s') \<and> pmm_idle s' ys \<and> others_kept {p} s s' \<and>
          handed_out (page_at s') p"
    using assms pmm_alloc_page_empty [of s me] pmm_alloc_page_idle [of s _ _ me]
    by (cases xs) (auto simp: handed_out_def)
qed (rule pmm_alloc_pages_idle [OF assms])

theorem pmm_alloc_correct_witness:
  "\<exists>s s'. pmm_init 0 boot_pmm = Some ((), s) \<and> pmm_alloc_page 0 s = Some (0xFFFF8000000000C0, s')"
proof -
  obtain s where "pmm_init 0 boot_pmm = Some ((), s)"
    "pmm_idle s [0xFFFF8000000000C0, 0xFFFF800000000080, 0xFFFF800000000040]"
    by (rule boot_pmm_idle)
  with pmm_alloc_correct [OF this(2), of 0] show ?thesis by auto
qed

text \<open>Repeating an operation.\<close>

fun repeat_op :: "nat \<Rightarrow> ('s \<Rightarrow> (unit \<times> 's) option) \<Rightarrow> 's \<Rightarrow> 's option" where
  "repeat_op 0 f s = Some s"
| "repeat_op (Suc n) f s = (case f s of None \<Rightarrow> None | Some (_, s') \<Rightarrow> repeat_op n f s')"

lemma retain_many:
  assumes "pmm_idle s xs" and "db_page s p" and "\<not> is_page_free (page_at s p)" and "unat (refcount (page_at s p)) = c"
    and "c + n < 2 ^ 32"
  shows "\<exists>s'. repeat_op n (pmm_page_retain me p) s = Some s' \<and> pmm_idle s' xs \<and> others_kept {p} s s' \<and>
    unat (refcount (page_at s' p)) = c + n \<and> pg_flags (page_at s' p) = pg_flags (page_at s p)"
  using assms
proof (induction n arbitrary: s c)
  case 0
  then show ?case by (auto simp: others_kept_def)
next
  case (Suc n)
  obtain s1 where s1: "pmm_page_retain me p s = Some ((), s1)" "pmm_idle s1 xs" "others_kept {p} s s1"
    "page_at s1 p = (let c = refcount (page_at s p) + 1 in
      (page_at s p)\<lparr>refcount := c, u2 := (if c = 1 then 1 else u2 (page_at s p))\<rparr>)"
    using pmm_page_retain_used [OF Suc.prems(1-3)] by blast
  have "unat (refcount (page_at s1 p)) = Suc c"
    using Suc.prems(4,5) s1(4) by (simp add: Let_def unat_add_no_wrap)
  moreover have "db_page s1 p" using Suc.prems(2) s1(3) db_page_cong [of s1 s] by (simp add: others_kept_def)
  moreover have f: "pg_flags (page_at s1 p) = pg_flags (page_at s p)" using s1(4) by (simp add: Let_def)
  then have "\<not> is_page_free (page_at s1 p)" using Suc.prems(3) by (simp add: is_page_free_def)
  ultimately obtain s' where s': "repeat_op n (pmm_page_retain me p) s1 = Some s'" "pmm_idle s' xs"
    "others_kept {p} s1 s'" "unat (refcount (page_at s' p)) = Suc c + n"
    "pg_flags (page_at s' p) = pg_flags (page_at s1 p)"
    using Suc.IH [OF s1(2)] Suc.prems(5) by fastforce
  then show ?case using s1 f others_kept_trans [OF s1(3) s'(3)] by (intro exI [of _ s']) simp
qed

lemma release_many:
  assumes "pmm_idle s xs" and "db_page s p" and "\<not> is_page_free (page_at s p)"
    and "unat (refcount (page_at s p)) = Suc n"
  shows "\<exists>s'. repeat_op n (pmm_page_release me p) s = Some s' \<and> pmm_idle s' xs \<and> others_kept {p} s s' \<and>
    refcount (page_at s' p) = 1 \<and> pg_flags (page_at s' p) = pg_flags (page_at s p)"
  using assms
proof (induction n arbitrary: s)
  case 0
  then have "refcount (page_at s p) = 1" by (simp add: word_unat_eq_iff)
  with 0 show ?case by (auto simp: others_kept_def)
next
  case (Suc n)
  have "1 < refcount (page_at s p)" using Suc.prems(4) by (simp add: word_less_nat_alt)
  then obtain s1 where s1: "pmm_page_release me p s = Some ((), s1)" "pmm_idle s1 xs" "others_kept {p} s s1"
    "page_at s1 p = (page_at s p)\<lparr>refcount := refcount (page_at s p) - 1\<rparr>"
    using pmm_page_release_more [OF Suc.prems(1-3)] by blast
  have "unat (refcount (page_at s1 p)) = Suc n"
    using Suc.prems(4) s1(4) unat_minus_one [of "refcount (page_at s p)"] by fastforce
  moreover have "db_page s1 p" using Suc.prems(2) s1(3) db_page_cong [of s1 s] by (simp add: others_kept_def)
  moreover have f: "pg_flags (page_at s1 p) = pg_flags (page_at s p)" using s1(4) by simp
  then have "\<not> is_page_free (page_at s1 p)" using Suc.prems(3) by (simp add: is_page_free_def)
  ultimately obtain s' where s': "repeat_op n (pmm_page_release me p) s1 = Some s'" "pmm_idle s' xs"
    "others_kept {p} s1 s'" "refcount (page_at s' p) = 1" "pg_flags (page_at s' p) = pg_flags (page_at s1 p)"
    using Suc.IH [OF s1(2)] by blast
  then show ?case using s1 f others_kept_trans [OF s1(3) s'(3)] by (intro exI [of _ s']) simp
qed

text \<open>
  C6. Reference counts: a page that is allocated and then retained \<open>n\<close> times stays off the free list
  through \<open>n\<close> releases, and the release after those puts it back at the head, so the list is again
  what it was; no other page changes. The bound is that of the 32-bit counter.
\<close>
theorem pmm_refcount_balance:
  assumes "pmm_idle s (p # xs)" and "n + 1 < 2 ^ 32"
  shows "\<exists>s1 s2 s3 s4. pmm_alloc_page me s = Some (p, s1) \<and>
    repeat_op n (pmm_page_retain me p) s1 = Some s2 \<and> unat (refcount (page_at s2 p)) = n + 1 \<and>
    repeat_op n (pmm_page_release me p) s2 = Some s3 \<and> pmm_idle s3 xs \<and>
    pmm_page_release me p s3 = Some ((), s4) \<and> pmm_idle s4 (p # xs) \<and> others_kept {p} s s4"
proof -
  obtain s1 where s1: "pmm_alloc_page me s = Some (p, s1)" "pmm_idle s1 xs" "others_kept {p} s s1"
    "refcount (page_at s1 p) = 1" "\<not> is_page_reserved (page_at s1 p)"
    using pmm_alloc_page_idle [OF assms(1)] by blast
  have dp: "db_page s p" using assms(1) by (auto simp: pmm_idle_def pmm_rel_def frees_def)
  have px: "p \<notin> set xs" using assms(1) pmm_rel_length(2) [of s "p # xs"] by (simp add: pmm_idle_def)
  have db: "db_page s' p" if "others_kept {p} s s'" for s'
    using dp that db_page_cong [of s' s] by (simp add: others_kept_def)
  have f1: "\<not> is_page_free (page_at s1 p)"
    using px s1(2) pmm_idle_frees [OF s1(2)] db [OF s1(3)] by (auto simp: frees_def)
  obtain s2 where s2: "repeat_op n (pmm_page_retain me p) s1 = Some s2" "pmm_idle s2 xs" "others_kept {p} s1 s2"
    "unat (refcount (page_at s2 p)) = 1 + n" "pg_flags (page_at s2 p) = pg_flags (page_at s1 p)"
    using retain_many [OF s1(2) db [OF s1(3)] f1, of 1 n me] assms(2) s1(4) by auto
  have k2: "others_kept {p} s s2" using others_kept_trans [OF s1(3) s2(3)] by simp
  have f2: "\<not> is_page_free (page_at s2 p)" using f1 s2(5) by (simp add: is_page_free_def)
  obtain s3 where s3: "repeat_op n (pmm_page_release me p) s2 = Some s3" "pmm_idle s3 xs" "others_kept {p} s2 s3"
    "refcount (page_at s3 p) = 1" "pg_flags (page_at s3 p) = pg_flags (page_at s2 p)"
    using release_many [OF s2(2) db [OF k2] f2, of n me] s2(4) by auto
  have k3: "others_kept {p} s s3" using others_kept_trans [OF k2 s3(3)] by simp
  have f3: "\<not> is_page_free (page_at s3 p)" "\<not> is_page_reserved (page_at s3 p)"
    using f2 s1(5) s2(5) s3(5) by (simp_all add: page_flag_defs)
  obtain s4 where s4: "pmm_page_release me p s3 = Some ((), s4)" "pmm_idle s4 (p # xs)" "others_kept {p} s3 s4"
    using pmm_page_release_last [OF s3(2) db [OF k3] _ f3(1) s3(4) f3(2)] idle_page_not_NULL [OF assms(1) dp]
    by auto
  have "others_kept {p} s s4" using others_kept_trans [OF k3 s4(3)] by simp
  with s1 s2 s3 s4 show ?thesis by auto
qed

theorem pmm_refcount_balance_witness:
  "\<exists>s s1 s2. pmm_init 0 boot_pmm = Some ((), s) \<and> pmm_alloc_page 0 s = Some (0xFFFF8000000000C0, s1) \<and>
     repeat_op 5 (pmm_page_retain 0 0xFFFF8000000000C0) s1 = Some s2 \<and>
     unat (refcount (page_at s2 0xFFFF8000000000C0)) = 6"
proof -
  obtain s where s: "pmm_init 0 boot_pmm = Some ((), s)"
    "pmm_idle s [0xFFFF8000000000C0, 0xFFFF800000000080, 0xFFFF800000000040]"
    by (rule boot_pmm_idle)
  have "(5::nat) + 1 < 2 ^ 32" by simp
  from pmm_refcount_balance [OF s(2) this, of 0] s(1) show ?thesis by auto
qed

text \<open>
  The whole memory can be handed out and taken back: as many allocations as there are free
  pages give pairwise different pages, which are all the free ones; the next allocation answers
  \<open>NULL\<close>; and when the pages are released, in any order, exactly they are free again. (This is what
  \<^verbatim>\<open>pmm_stress_test\<close> tries at boot.)
\<close>
theorem pmm_drain_and_refill:
  assumes "pmm_idle s xs"
  shows "\<exists>ps s'. pmm.allocs me (length xs) s = Some (ps, s') \<and> distinct ps \<and> set ps = set xs \<and>
    pmm_alloc_page me s' = Some (NULL, s') \<and>
    (\<forall>qs. distinct qs \<and> set qs = set ps \<longrightarrow>
      (\<exists>s'' ys. pmm.releases me qs s' = Some s'' \<and> pmm_idle s'' ys \<and> set ys = set xs))"
proof -
  have "pmm_ready s" using assms by (auto simp: pmm_ready_def)
  from pmm.drain_and_refill [where me = me, OF this] obtain ps s' where
    1: "pmm.allocs me (card (frees s)) s = Some (ps, s')" "distinct ps" "set ps = frees s"
      "pmm_alloc_page me s' = Some (NULL, s')" and
    2: "\<And>qs. distinct qs \<Longrightarrow> set qs = set ps \<Longrightarrow>
      \<exists>s''. pmm.releases me qs s' = Some s'' \<and> pmm_ready s'' \<and> frees s'' = frees s"
    by blast
  have "\<exists>s'' ys. pmm.releases me qs s' = Some s'' \<and> pmm_idle s'' ys \<and> set ys = set xs"
    if "distinct qs" "set qs = set ps" for qs
    using 2 [OF that] pmm_idle_frees [OF assms] pmm_idle_frees by (fastforce simp: pmm_ready_def)
  moreover have "distinct xs" using assms pmm_rel_length(2) by (auto simp: pmm_idle_def)
  then have "card (frees s) = length xs" using pmm_idle_frees [OF assms] by (metis distinct_card)
  ultimately show ?thesis using 1 pmm_idle_frees [OF assms] by auto
qed

theorem pmm_drain_and_refill_witness:
  "\<exists>s ps s'. pmm_init 0 boot_pmm = Some ((), s) \<and> pmm.allocs 0 3 s = Some (ps, s') \<and>
     set ps = {0xFFFF8000000000C0, 0xFFFF800000000080, 0xFFFF800000000040} \<and> pmm_alloc_page 0 s' = Some (NULL, s')"
proof -
  obtain s where s: "pmm_init 0 boot_pmm = Some ((), s)"
    "pmm_idle s [0xFFFF8000000000C0, 0xFFFF800000000080, 0xFFFF800000000040]"
    by (rule boot_pmm_idle)
  from pmm_drain_and_refill [OF s(2), of 0] s(1) show ?thesis by (simp add: numeral_3_eq_3) blast
qed

text \<open>
  Sharing and copy-on-write marks on a page in use: \<open>pmm_page_share\<close> followed by
  \<open>pmm_page_unshare\<close> on a page that was not shared leaves its share count where an unshared page
  has it and its flags as they were; marking and clearing copy-on-write cancel on the mark bit; the
  free list, the counter and every other page are untouched throughout.
\<close>
theorem pmm_share_unshare:
  assumes "pmm_idle s xs" and "db_page s p" and "\<not> is_page_free (page_at s p)"
    and "\<not> is_page_shared (page_at s p)" and "u2 (page_at s p) = 1"
  shows "\<exists>s1 s2 s3 s4. pmm_page_share me p s = Some ((), s1) \<and> is_page_shared (page_at s1 p) \<and>
    u2 (page_at s1 p) = 2 \<and> pmm_page_unshare me p s1 = Some ((), s2) \<and> \<not> is_page_shared (page_at s2 p) \<and>
    u2 (page_at s2 p) = 1 \<and> pmm_page_mark_cow me p s2 = Some ((), s3) \<and> is_page_cow (page_at s3 p) \<and>
    pmm_page_clear_cow me p s3 = Some ((), s4) \<and> \<not> is_page_cow (page_at s4 p) \<and>
    refcount (page_at s4 p) = refcount (page_at s p) \<and> pmm_idle s4 xs \<and> others_kept {p} s s4"
proof -
  have db: "db_page s' p" if "others_kept {p} s s'" for s'
    using assms(2) that db_page_cong [of s' s] by (simp add: others_kept_def)
  note defs = page_flag_defs bit_simps Let_def
  obtain s1 where s1: "pmm_page_share me p s = Some ((), s1)" "pmm_idle s1 xs" "others_kept {p} s s1"
    "page_at s1 p = (page_at s p)\<lparr>pg_flags := set_flags (pg_flags (page_at s p)) PAGE_SHARED, u2 := 2\<rparr>"
    using pmm_page_share_used [OF assms(1-3), of me] assms(4,5) by auto
  have f1: "\<not> is_page_free (page_at s1 p)" "is_page_shared (page_at s1 p)"
    using s1(4) assms(3) by (auto simp: defs)
  obtain s2 where s2: "pmm_page_unshare me p s1 = Some ((), s2)" "pmm_idle s2 xs" "others_kept {p} s1 s2"
    "page_at s2 p = (page_at s1 p)\<lparr>u2 := 1, pg_flags := clear_flags (pg_flags (page_at s1 p)) PAGE_SHARED\<rparr>"
    using pmm_page_unshare_used [OF s1(2) db [OF s1(3)] f1(1), of me] f1(2) s1(4) by (auto simp: Let_def)
  have k2: "others_kept {p} s s2" using others_kept_trans [OF s1(3) s2(3)] by simp
  have f2: "\<not> is_page_free (page_at s2 p)" "\<not> is_page_shared (page_at s2 p)"
    using s2(4) f1 by (auto simp: defs)
  obtain s3 where s3: "pmm_page_mark_cow me p s2 = Some ((), s3)" "pmm_idle s3 xs" "others_kept {p} s2 s3"
    "page_at s3 p = (page_at s2 p)\<lparr>pg_flags := set_flags (pg_flags (page_at s2 p)) PAGE_COW\<rparr>"
    using pmm_page_cow_used(1) [OF s2(2) db [OF k2] f2(1), of me] by blast
  have k3: "others_kept {p} s s3" using others_kept_trans [OF k2 s3(3)] by simp
  have f3: "\<not> is_page_free (page_at s3 p)" "is_page_cow (page_at s3 p)" using s3(4) f2 by (auto simp: defs)
  obtain s4 where s4: "pmm_page_clear_cow me p s3 = Some ((), s4)" "pmm_idle s4 xs" "others_kept {p} s3 s4"
    "page_at s4 p = (page_at s3 p)\<lparr>pg_flags := clear_flags (pg_flags (page_at s3 p)) PAGE_COW\<rparr>"
    using pmm_page_cow_used(2) [OF s3(2) db [OF k3] f3(1), of me] by blast
  have "others_kept {p} s s4" using others_kept_trans [OF k3 s4(3)] by simp
  moreover have "\<not> is_page_cow (page_at s4 p)" using s4(4) by (auto simp: defs)
  moreover have "refcount (page_at s4 p) = refcount (page_at s p)" using s1(4) s2(4) s3(4) s4(4) by simp
  ultimately show ?thesis using s1 f1 s2 f2 s3 f3 s4 by auto
qed

theorem pmm_share_unshare_witness:
  "\<exists>s s1 s2. pmm_init 0 boot_pmm = Some ((), s) \<and> pmm_alloc_page 0 s = Some (0xFFFF8000000000C0, s1) \<and>
     pmm_page_share 0 0xFFFF800000000000 (upd_page 0xFFFF800000000000 (\<lambda>p. p\<lparr>u2 := 1\<rparr>) s) = Some ((), s2)"
proof -
  obtain s where s: "pmm_init 0 boot_pmm = Some ((), s)"
    "pmm_idle s [0xFFFF8000000000C0, 0xFFFF800000000080, 0xFFFF800000000040]"
    "mem_map s = 0xFFFF800000000000" "max_pfn s = 3" "pg_flags (page_at s 0xFFFF800000000000) = 4"
    by (rule boot_pmm_idle)
  let ?p = "0xFFFF800000000000 :: u64" and ?s = "upd_page 0xFFFF800000000000 (\<lambda>p. p\<lparr>u2 := 1\<rparr>) s"
  have dp: "db_page ?s ?p" using s(3,4) by (auto simp: db_page_def page_ptr_def intro!: exI [of _ 0])
  have i: "pmm_idle ?s [0xFFFF8000000000C0, 0xFFFF800000000080, 0xFFFF800000000040]"
    using s(2,5) unfolding pmm_idle_def
    by (auto intro!: pmm_rel_upd simp: is_page_free_def is_page_dirty_def)
  have "\<not> is_page_free (page_at ?s ?p)" "\<not> is_page_shared (page_at ?s ?p)" "u2 (page_at ?s ?p) = 1"
    using s(5) by (auto simp: is_page_free_def is_page_shared_def)
  from pmm_share_unshare [OF i dp this, of 0] pmm_alloc_page_idle [OF s(2), of 0] s(1) show ?thesis by auto
qed

end
