(* ===== verification/Memory.thy ===== *)
theory Memory
  imports Lapis_Prelude "HOL-Library.Char_ord"
begin

text \<open>
  The memory and string routines of \<^verbatim>\<open>util/memory.c\<close> on a byte-addressed memory. A loop that runs
  to a terminating zero is partial (\<open>None\<close>: the loop does not end); the properties show that it
  ends on every C string. \<open>cstr m p s\<close> says that \<open>p\<close> points to the string \<open>s\<close>, which is what lets
  the file-system theories work on strings rather than on pointers.
\<close>

type_synonym mem = "u64 \<Rightarrow> u8"

section \<open>Blocks\<close>

definition copy_byte :: "u64 \<Rightarrow> u64 \<Rightarrow> nat \<Rightarrow> mem \<Rightarrow> mem" where
  "copy_byte dest src i m = m(dest + of_nat i := m (src + of_nat i))"

definition memcpy :: "mem \<Rightarrow> u64 \<Rightarrow> u64 \<Rightarrow> u64 \<Rightarrow> mem" where
  "memcpy m dest src n = fold (copy_byte dest src) [0 ..< unat n] m"

definition memset :: "mem \<Rightarrow> u64 \<Rightarrow> int \<Rightarrow> u64 \<Rightarrow> mem" where
  "memset m s c n = fold (\<lambda>i m. m(s + of_nat i := word_of_int c)) [0 ..< unat n] m"

definition memmove :: "mem \<Rightarrow> u64 \<Rightarrow> u64 \<Rightarrow> u64 \<Rightarrow> mem" where
  "memmove m dest src n =
     (if dest < src then fold (copy_byte dest src) [0 ..< unat n] m
      else if src < dest then fold (copy_byte dest src) (rev [0 ..< unat n]) m
      else m)"

definition memcmp :: "mem \<Rightarrow> u64 \<Rightarrow> u64 \<Rightarrow> u64 \<Rightarrow> int" where
  "memcmp m s1 s2 n =
     (case find (\<lambda>i. m (s1 + of_nat i) \<noteq> m (s2 + of_nat i)) [0 ..< unat n] of
        Some i \<Rightarrow> if m (s1 + of_nat i) < m (s2 + of_nat i) then -1 else 1
      | None \<Rightarrow> 0)"

text \<open>64-bit words in memory, the least significant byte first.\<close>

definition put64 :: "u64 \<Rightarrow> u64 \<Rightarrow> mem \<Rightarrow> mem" where
  "put64 a w m = (\<lambda>x. if x - a < 8 then ucast (drop_bit (8 * unat (x - a)) w) else m x)"

definition get64 :: "mem \<Rightarrow> u64 \<Rightarrow> u64" where
  "get64 m a = foldr (\<lambda>i w. push_bit 8 w OR ucast (m (a + of_nat i))) [0 ..< 8] 0"

section \<open>Strings\<close>

text \<open>The difference of two characters read as \<^verbatim>\<open>unsigned char\<close>.\<close>

definition char_diff :: "u8 \<Rightarrow> u8 \<Rightarrow> int" where
  "char_diff a b = uint a - uint b"

partial_function (option) strcmp :: "mem \<Rightarrow> u64 \<Rightarrow> u64 \<Rightarrow> int option" where
  "strcmp m s1 s2 =
     (if m s1 \<noteq> 0 \<and> m s1 = m s2 then strcmp m (s1 + 1) (s2 + 1) else Some (char_diff (m s1) (m s2)))"

definition strncmp :: "mem \<Rightarrow> u64 \<Rightarrow> u64 \<Rightarrow> u64 \<Rightarrow> int" where
  "strncmp m s1 s2 n =
     (case find (\<lambda>i. m (s1 + of_nat i) \<noteq> m (s2 + of_nat i) \<or> m (s1 + of_nat i) = 0) [0 ..< unat n] of
        Some i \<Rightarrow> if m (s1 + of_nat i) \<noteq> m (s2 + of_nat i)
                   then char_diff (m (s1 + of_nat i)) (m (s2 + of_nat i)) else 0
      | None \<Rightarrow> 0)"

partial_function (option) strlen_loop :: "mem \<Rightarrow> u64 \<Rightarrow> u64 \<Rightarrow> u64 option" where
  "strlen_loop m str len = (if m (str + len) \<noteq> 0 then strlen_loop m str (len + 1) else Some len)"

definition strlen :: "mem \<Rightarrow> u64 \<Rightarrow> u64 option" where
  "strlen m str = strlen_loop m str 0"

partial_function (option) strcpy_loop :: "u64 \<Rightarrow> u64 \<Rightarrow> u64 \<Rightarrow> mem \<Rightarrow> mem option" where
  "strcpy_loop dest src i m =
     (if m (src + i) \<noteq> 0 then strcpy_loop dest src (i + 1) (m(dest + i := m (src + i)))
      else Some (m(dest + i := 0)))"

definition strcpy :: "mem \<Rightarrow> u64 \<Rightarrow> u64 \<Rightarrow> mem option" where
  "strcpy m dest src = strcpy_loop dest src 0 m"

definition strcat :: "mem \<Rightarrow> u64 \<Rightarrow> u64 \<Rightarrow> mem option" where
  "strcat m dest src =
     (case strlen m dest of None \<Rightarrow> None | Some dest_len \<Rightarrow> strcpy_loop (dest + dest_len) src 0 m)"

partial_function (option) strncpy_loop :: "u64 \<Rightarrow> u64 \<Rightarrow> u64 \<Rightarrow> u64 \<Rightarrow> mem \<Rightarrow> mem option" where
  "strncpy_loop dest src n i m =
     (if i < n \<and> m (src + i) \<noteq> 0 then strncpy_loop dest src n (i + 1) (m(dest + i := m (src + i)))
      else Some (if i < n then m(dest + i := 0) else m))"

definition strncpy :: "mem \<Rightarrow> u64 \<Rightarrow> u64 \<Rightarrow> u64 \<Rightarrow> mem option" where
  "strncpy m dest src n = strncpy_loop dest src n 0 m"

partial_function (option) strchr :: "mem \<Rightarrow> u64 \<Rightarrow> u8 \<Rightarrow> u64 option" where
  "strchr m str c =
     (if m str \<noteq> 0 then if m str = c then Some str else strchr m (str + 1) c
      else Some (if c = 0 then str else NULL))"

partial_function (option) strrchr_loop :: "mem \<Rightarrow> u64 \<Rightarrow> u8 \<Rightarrow> u64 \<Rightarrow> u64 option" where
  "strrchr_loop m s c lst =
     (if m s \<noteq> 0 then strrchr_loop m (s + 1) c (if m s = c then s else lst)
      else Some (if c = 0 then s else lst))"

definition strrchr :: "mem \<Rightarrow> u64 \<Rightarrow> u8 \<Rightarrow> u64 option" where
  "strrchr m s c = strrchr_loop m s c NULL"

text \<open>
  The two scanning loops of \<^verbatim>\<open>strtok\<close> and \<^verbatim>\<open>strtok_r\<close>: \<open>want = True\<close> skips delimiters,
  \<open>want = False\<close> skips the characters of a token.
\<close>

partial_function (option) tok_scan :: "mem \<Rightarrow> u64 \<Rightarrow> bool \<Rightarrow> u64 \<Rightarrow> u64 option" where
  "tok_scan m delim want next =
     (if m next \<noteq> 0
      then case strchr m delim (m next) of None \<Rightarrow> None
           | Some r \<Rightarrow> if (r \<noteq> NULL) = want then tok_scan m delim want (next + 1) else Some next
      else Some next)"

text \<open>The result is the token, the new save pointer and the memory.\<close>

definition strtok_r :: "mem \<Rightarrow> u64 \<Rightarrow> u64 \<Rightarrow> u64 \<Rightarrow> (u64 \<times> u64 \<times> mem) option" where
  "strtok_r m str delim saveptr =
     (let next = (if str \<noteq> NULL then str else saveptr) in
      if next = NULL then Some (NULL, saveptr, m)
      else case tok_scan m delim True next of None \<Rightarrow> None
        | Some start \<Rightarrow>
            if m start = 0 then Some (NULL, saveptr, m)
            else case tok_scan m delim False start of None \<Rightarrow> None
              | Some next \<Rightarrow>
                  if m next \<noteq> 0 then Some (start, next + 1, m(next := 0)) else Some (start, NULL, m))"

text \<open>\<^verbatim>\<open>strtok\<close> keeps its position in a static variable, which also moves when no token is left.\<close>

definition strtok :: "mem \<Rightarrow> u64 \<Rightarrow> u64 \<Rightarrow> u64 \<Rightarrow> (u64 \<times> u64 \<times> mem) option" where
  "strtok m str delim static_next =
     (let next = (if str \<noteq> NULL then str else static_next) in
      if next = NULL then Some (NULL, next, m)
      else case tok_scan m delim True next of None \<Rightarrow> None
        | Some start \<Rightarrow>
            if m start = 0 then Some (NULL, start, m)
            else case tok_scan m delim False start of None \<Rightarrow> None
              | Some next \<Rightarrow>
                  if m next \<noteq> 0 then Some (start, next + 1, m(next := 0)) else Some (start, NULL, m))"

section \<open>Numbers\<close>

definition is_space :: "u8 \<Rightarrow> bool" where
  "is_space c \<longleftrightarrow> c = 32 \<or> c = 9 \<or> c = 10 \<or> c = 11 \<or> c = 12 \<or> c = 13"

partial_function (option) skip_spaces :: "mem \<Rightarrow> u64 \<Rightarrow> u64 option" where
  "skip_spaces m str = (if is_space (m str) then skip_spaces m (str + 1) else Some str)"

definition digit_of :: "u8 \<Rightarrow> int option" where
  "digit_of c =
     (if 48 \<le> c \<and> c \<le> 57 then Some (uint c - 48)
      else if 97 \<le> c \<and> c \<le> 102 then Some (uint c - 97 + 10)
      else if 65 \<le> c \<and> c \<le> 70 then Some (uint c - 65 + 10)
      else None)"

partial_function (option) digits_loop :: "mem \<Rightarrow> int \<Rightarrow> u64 \<Rightarrow> u64 \<Rightarrow> (u64 \<times> u64) option" where
  "digits_loop m base str result =
     (if m str \<noteq> 0
      then case digit_of (m str) of
             Some d \<Rightarrow> if base \<le> d then Some (result, str)
                       else digits_loop m base (str + 1) (result * word_of_int base + word_of_int d)
           | None \<Rightarrow> Some (result, str)
      else Some (result, str))"

text \<open>The result is the number and the end pointer.\<close>

definition strtoull :: "mem \<Rightarrow> u64 \<Rightarrow> int \<Rightarrow> (u64 \<times> u64) option" where
  "strtoull m str base =
     (case skip_spaces m str of None \<Rightarrow> None
      | Some p \<Rightarrow>
          let prefix = (base = 0 \<or> base = 16) \<and> m p = 48 \<and> (m (p + 1) = 120 \<or> m (p + 1) = 88);
              p1 = (if prefix then p + 2 else p);
              b1 = (if prefix then 16 else base);
              b2 = (if b1 = 0 then (if m p1 = 48 then 8 else 10) else b1)
          in digits_loop m b2 p1 0)"

section \<open>Copying\<close>

lemma ptr_inj:
  "i < 2 ^ 64 \<Longrightarrow> j < 2 ^ 64 \<Longrightarrow> p + of_nat i = p + of_nat j \<longleftrightarrow> i = j" for p :: u64
proof -
  assume "i < 2 ^ 64" "j < 2 ^ 64"
  then have "unat (of_nat i :: u64) = i" "unat (of_nat j :: u64) = j"
    by (simp_all add: unat_of_nat)
  then show ?thesis by (metis add_left_cancel)
qed

text \<open>
  Copying the bytes of \<open>js\<close> one after the other copies the original bytes when no step reads a
  byte that an earlier step wrote.
\<close>

lemma copy_bytes:
  assumes "distinct js" and "\<forall>j \<in> set js. j < 2 ^ 64"
    and "sorted_wrt (\<lambda>j k. src + of_nat k \<noteq> dest + of_nat j) js"
  shows "fold (copy_byte dest src) js m a =
    (if \<exists>j \<in> set js. a = dest + of_nat j then m (a - dest + src) else m a)"
  using assms
proof (induction js arbitrary: m)
  case (Cons j js)
  let ?m = "copy_byte dest src j m"
  have keep: "?m (src + of_nat k) = m (src + of_nat k)" if "k \<in> set js" for k
    using Cons.prems(3) that by (auto simp: copy_byte_def)
  have "a \<noteq> dest + of_nat j" if "k \<in> set js" "a = dest + of_nat k" for k
    using Cons.prems(1,2) that ptr_inj [of k j dest] by auto
  then show ?case
    using Cons.IH [of ?m] Cons.prems keep
    by (auto simp: copy_byte_def add.commute add.left_commute diff_add_eq)
qed simp

lemma in_range: "(\<exists>i < unat n. q = p + of_nat i) \<longleftrightarrow> q - p < n" for n p q :: u64
proof
  assume "\<exists>i < unat n. q = p + of_nat i"
  then obtain i where i: "i < unat n" "q = p + of_nat i" by blast
  then have "unat (of_nat i :: u64) = i" by (intro unat_of_nat_le [of i n]) simp
  with i show "q - p < n" by (simp add: word_less_nat_alt)
next
  assume "q - p < n"
  then show "\<exists>i < unat n. q = p + of_nat i" by (intro exI [of _ "unat (q - p)"]) (simp add: word_less_nat_alt)
qed

lemma memset_apply: "memset m p c n q = (if q - p < n then word_of_int c else m q)"
proof -
  have "fold (\<lambda>i m. m(p + of_nat i := word_of_int c)) js m q =
      (if \<exists>i \<in> set js. q = p + of_nat i then word_of_int c else m q)" for js
    by (induction js arbitrary: m) auto
  then have "memset m p c n q = (if \<exists>i < unat n. q = p + of_nat i then word_of_int c else m q)"
    by (simp add: memset_def Bex_def)
  then show ?thesis by (simp only: in_range)
qed

text \<open>Copying between ranges that do not overlap.\<close>

lemma memcpy_apply:
  assumes "\<And>i j. i < unat n \<Longrightarrow> j < unat n \<Longrightarrow> src + of_nat i \<noteq> dest + of_nat j"
  shows "memcpy m dest src n q = (if q - dest < n then m (q - dest + src) else m q)"
proof -
  have "fold (copy_byte dest src) [0 ..< unat n] m q =
      (if \<exists>j \<in> set [0 ..< unat n]. q = dest + of_nat j then m (q - dest + src) else m q)"
  proof (rule copy_bytes)
    have "j < 2 ^ 64" if "j < unat n" for j using less_trans [OF that unat_bound] by simp
    then show "\<forall>j \<in> set [0 ..< unat n]. j < 2 ^ 64" by auto
    show "sorted_wrt (\<lambda>j k. src + of_nat k \<noteq> dest + of_nat j) [0 ..< unat n]"
      using assms by (auto simp: sorted_wrt_iff_nth_less)
  qed simp
  moreover have "(\<exists>j \<in> set [0 ..< unat n]. q = dest + of_nat j) \<longleftrightarrow> (\<exists>j < unat n. q = dest + of_nat j)" by auto
  ultimately show ?thesis by (simp only: memcpy_def in_range)
qed

text \<open>Words stored and read.\<close>

lemma bit_get64: "bit (get64 m a) n \<longleftrightarrow> n < 64 \<and> bit (m (a + of_nat (n div 8))) (n mod 8)"
proof -
  have "bit (foldr (\<lambda>i w. push_bit 8 w OR ucast (f i)) [j ..< k] (0 :: u64)) n \<longleftrightarrow>
     n < 64 \<and> n div 8 < k - j \<and> bit (f (j + n div 8) :: u8) (n mod 8)" if "j \<le> k" "k \<le> 8" for f j k n
    using that
  proof (induction "k - j" arbitrary: j n)
    case (Suc d)
    then have jk: "j < k" by simp
    then have j: "[j ..< k] = j # [Suc j ..< k]" by (simp add: upt_rec)
    let ?w = "foldr (\<lambda>i w. push_bit 8 w OR ucast (f i)) [Suc j ..< k] (0 :: u64)"
    have IH: "bit ?w i \<longleftrightarrow> i < 64 \<and> i div 8 < k - Suc j \<and> bit (f (Suc j + i div 8)) (i mod 8)" for i
      by (rule Suc.hyps(1)) (use Suc.hyps(2) Suc.prems in auto)
    have e: "foldr (\<lambda>i w. push_bit 8 w OR ucast (f i)) [j ..< k] (0 :: u64) = push_bit 8 ?w OR ucast (f j)"
      unfolding j by simp
    show ?case
    proof (cases "n < 8")
      case True
      then have "n div 8 = 0" "n mod 8 = n" by simp_all
      then show ?thesis unfolding e using True jk by (simp add: bit_or_iff bit_push_bit_iff bit_ucast_iff)
    next
      case False
      then have i: "n div 8 = Suc ((n - 8) div 8)" "n mod 8 = (n - 8) mod 8" by (simp_all add: le_div_geq le_mod_geq)
      have "\<not> bit (f j) n" using False bit_imp_le_length [of "f j" n] by auto
      then have "bit (push_bit 8 ?w OR ucast (f j)) n \<longleftrightarrow> n < 64 \<and> bit ?w (n - 8)"
        using False by (simp add: bit_or_iff bit_push_bit_iff bit_ucast_iff)
      then show ?thesis unfolding e IH i by auto
    qed
  qed simp
  from this [of 0 8 "\<lambda>i. m (a + of_nat i)" n] show ?thesis by (auto simp: get64_def)
qed

lemma get_put64: "get64 (put64 a w m) a = w"
proof (rule bit_word_eqI)
  fix n assume n: "n < LENGTH(64)"
  define i where "i = n div 8"
  have i: "i < 8" using n by (simp add: i_def)
  then have u: "unat (of_nat i :: u64) = i" by (simp add: unat_of_nat)
  then have "(of_nat i :: u64) < 8" using i by (simp add: word_less_nat_alt)
  then have "bit (get64 (put64 a w m) a) n \<longleftrightarrow> bit w (8 * i + n mod 8)"
    using n i u by (simp add: bit_get64 i_def [symmetric] put64_def bit_simps)
  moreover have "8 * i + n mod 8 = n" by (simp add: i_def)
  ultimately show "bit (get64 (put64 a w m) a) n = bit w n" by simp
qed

lemma get64_cong: "(\<And>i. i < 8 \<Longrightarrow> m' (b + of_nat i) = m (a + of_nat i)) \<Longrightarrow> get64 m' b = get64 m a"
  by (rule bit_word_eqI) (simp add: bit_get64)

lemma put64_outside: "8 \<le> unat (x - a) \<Longrightarrow> put64 a w m x = m x"
  by (simp add: put64_def word_less_nat_alt)

lemma memmove_order:
  fixes src dest :: u64
  assumes "unat src + n \<le> 2 ^ 64" and "unat dest + n \<le> 2 ^ 64" and "i < n" and "j < n"
  shows "src + of_nat i = dest + of_nat j \<longleftrightarrow> unat src + i = unat dest + j"
proof -
  have "unat (src + of_nat i) = unat src + i" "unat (dest + of_nat j) = unat dest + j"
    using assms by (auto simp: unat_word_ariths unat_of_nat)
  then show ?thesis by (metis word_unat_eq_iff)
qed

section \<open>C strings\<close>

fun cstr :: "mem \<Rightarrow> u64 \<Rightarrow> string \<Rightarrow> bool" where
  "cstr m p [] \<longleftrightarrow> p \<noteq> NULL \<and> m p = 0"
| "cstr m p (c # s) \<longleftrightarrow> p \<noteq> NULL \<and> m p = of_char c \<and> of_char c \<noteq> (0::u8) \<and> cstr m (p + 1) s"

lemma of_char_u8_inj [simp]: "(of_char c :: u8) = of_char d \<longleftrightarrow> c = d"
proof
  have "unat (of_nat (of_char x) :: u8) = of_char x" for x
    by (rule unat_of_nat_small) simp
  then have "unat (of_char x :: u8) = of_char x" for x by (simp only: of_nat_of_char)
  moreover assume "(of_char c :: u8) = of_char d"
  ultimately have "(of_char c :: nat) = of_char d" by metis
  then show "c = d" by simp
qed simp

lemma cstr_bound: "cstr m p s \<Longrightarrow> unat p + length s < 2 ^ 64"
proof (induction s arbitrary: p)
  case (Cons c s)
  then have "unat (p + 1) + length s < 2 ^ 64" and "p + 1 \<noteq> 0" by (cases s; auto)+
  then show ?case by (simp add: unatSuc add.commute)
qed simp

lemma cstr_not_NULL: "cstr m p s \<Longrightarrow> p \<noteq> NULL"
  by (cases s) auto

lemma cstr_unique: "cstr m p s \<Longrightarrow> cstr m p t \<Longrightarrow> s = t"
proof (induction s arbitrary: p t)
  case Nil
  then show ?case by (cases t) auto
next
  case (Cons c s)
  then show ?case by (cases t) auto
qed

lemma cstr_append:
  "cstr m p (s @ t) \<longleftrightarrow> cstr m (p + of_nat (length s)) t \<and> (\<forall>i < length s. p + of_nat i \<noteq> NULL \<and>
     m (p + of_nat i) = of_char (s ! i) \<and> of_char (s ! i) \<noteq> (0::u8))"
proof (induction s arbitrary: p)
  case (Cons c s)
  then show ?case
    by (auto simp: add.assoc [symmetric] All_less_Suc2)
qed simp

text \<open>A write outside the string and its terminator.\<close>

lemma cstr_upd:
  "cstr m p s \<Longrightarrow> (\<And>i. i \<le> length s \<Longrightarrow> a \<noteq> p + of_nat i) \<Longrightarrow> cstr (m(a := x)) p s"
proof (induction s arbitrary: p)
  case Nil
  from Nil.prems(2) [of 0] Nil.prems(1) show ?case by simp
next
  case (Cons c s)
  have "a \<noteq> p + 1 + of_nat i" if "i \<le> length s" for i
    using Cons.prems(2) [of "Suc i"] that by (simp add: add.assoc)
  moreover have "a \<noteq> p" using Cons.prems(2) [of 0] by simp
  ultimately show ?case using Cons by auto
qed

lemma cstr_nth:
  "cstr m p s \<Longrightarrow> i < length s \<Longrightarrow> m (p + of_nat i) = of_char (s ! i) \<and> m (p + of_nat i) \<noteq> 0"
  using cstr_append [of m p s "[]"] by simp

lemma cstr_end: "cstr m p s \<Longrightarrow> m (p + of_nat (length s)) = 0"
  using cstr_append [of m p s "[]"] by simp

section \<open>The string routines on C strings\<close>

lemma strlen_loop_cstr: "cstr m (str + len) s \<Longrightarrow> strlen_loop m str len = Some (len + of_nat (length s))"
proof (induction s arbitrary: len)
  case Nil
  then show ?case by (subst strlen_loop.simps) simp
next
  case (Cons c s)
  then have "strlen_loop m str (len + 1) = Some (len + 1 + of_nat (length s))"
    by (intro Cons.IH) (simp add: add.assoc)
  with Cons.prems show ?case by (subst strlen_loop.simps) (simp add: add.assoc)
qed

lemma strlen_cstr: "cstr m p s \<Longrightarrow> strlen m p = Some (of_nat (length s))"
  using strlen_loop_cstr [of m p 0 s] by (simp add: strlen_def)

lemma char_diff_of_char:
  "char_diff (of_char c) (of_char d) < 0 \<longleftrightarrow> c < d"
proof -
  have "unat (of_nat (of_char x) :: u8) = of_char x" for x
    by (rule unat_of_nat_small) simp
  then have u: "uint (of_char x :: u8) = int (of_char x)" for x
    by (metis of_nat_of_char uint_nat)
  show "char_diff (of_char c) (of_char d) < 0 \<longleftrightarrow> c < d"
    by (simp only: char_diff_def u less_char_def diff_less_0_iff_less of_nat_less_iff)
qed

lemma char_diff_same [simp]: "char_diff a b = 0 \<longleftrightarrow> a = b"
  by (simp add: char_diff_def word_uint_eq_iff)

lemma char_diff_self [simp]: "char_diff a a = 0"
  by simp

lemma char_diff_zero: "c \<noteq> 0 \<Longrightarrow> char_diff 0 c < 0" "c \<noteq> 0 \<Longrightarrow> 0 < char_diff c 0"
  unfolding char_diff_def using uint_ge_0 [of c] by (auto simp: less_le uint_0_iff)

lemma strcmp_cstr:
  "cstr m p s \<Longrightarrow> cstr m q t \<Longrightarrow>
   \<exists>r. strcmp m p q = Some r \<and> (r = 0 \<longleftrightarrow> s = t) \<and> (r < 0 \<longleftrightarrow> ord_class.lexordp s t)"
proof (induction s arbitrary: p q t)
  case Nil
  then show ?case
    by (cases t) (auto simp: char_diff_zero char_diff_zero(1) [THEN less_imp_neq] strcmp.simps [of m p q] char_diff_same)
next
  case (Cons c s)
  show ?case
  proof (cases t)
    case Nil
    with Cons.prems char_diff_zero [of "m p"] show ?thesis
      by (auto simp: strcmp.simps [of m p q])
  next
    case (Cons d u)
    show ?thesis
    proof (cases "c = d")
      case True
      have "cstr m (p + 1) s" "cstr m (q + 1) u" using Cons.prems Cons by auto
      from Cons.IH [OF this] True Cons.prems Cons show ?thesis
        by (auto simp: strcmp.simps [of m p q])
    next
      case False
      with Cons.prems Cons show ?thesis
        using char_diff_of_char [of c d]
        by (auto simp: strcmp.simps [of m p q])
    qed
  qed
qed

lemma find_first:
  assumes "find P [0 ..< n] = Some i"
  shows "i < n" and "P i" and "\<And>j. j < i \<Longrightarrow> \<not> P j"
proof -
  from assms obtain k where k: "k < n" "P ([0 ..< n] ! k)" "i = [0 ..< n] ! k" "\<forall>j < k. \<not> P ([0 ..< n] ! j)"
    by (auto simp: find_Some_iff)
  then have "i = k" by simp
  with k show "i < n" "P i" by simp_all
  show "\<not> P j" if "j < i" for j using k \<open>i = k\<close> that by (metis nth_upt add_0 less_trans)
qed

text \<open>Two C strings agree on \<open>n\<close> characters up to and including a terminator.\<close>

lemma cstr_take_eq:
  "cstr m p s \<Longrightarrow> cstr m q t \<Longrightarrow>
   take n s = take n t \<longleftrightarrow> (\<forall>i < n. (\<forall>j < i. m (p + of_nat j) \<noteq> 0) \<longrightarrow> m (p + of_nat i) = m (q + of_nat i))"
proof (induction n arbitrary: p q s t)
  case (Suc n)
  have split: "(\<forall>i < Suc n. (\<forall>j < i. m (p + of_nat j) \<noteq> 0) \<longrightarrow> m (p + of_nat i) = m (q + of_nat i)) \<longleftrightarrow>
    m p = m q \<and> (m p \<noteq> 0 \<longrightarrow> (\<forall>i < n. (\<forall>j < i. m (p + 1 + of_nat j) \<noteq> 0) \<longrightarrow> m (p + 1 + of_nat i) = m (q + 1 + of_nat i)))"
    by (auto simp: All_less_Suc2 add.assoc)
  show ?case
  proof (cases s; cases t)
    fix c s' d t' assume st: "s = c # s'" "t = d # t'"
    then have "cstr m (p + 1) s'" "cstr m (q + 1) t'" using Suc.prems by auto
    from Suc.IH [OF this] split st Suc.prems show ?thesis by auto
  qed (use Suc.prems split in auto)
qed simp

lemma strncmp_cstr:
  assumes "cstr m p s" and "cstr m q t"
  shows "strncmp m p q n = 0 \<longleftrightarrow> take (unat n) s = take (unat n) t"
proof -
  let ?P = "\<lambda>i. m (p + of_nat i) \<noteq> m (q + of_nat i) \<or> m (p + of_nat i) = 0"
  show ?thesis
  proof (cases "find ?P [0 ..< unat n]")
    case None
    then have "\<forall>i < unat n. m (p + of_nat i) = m (q + of_nat i)" by (auto simp: find_None_iff)
    with None show ?thesis by (simp add: strncmp_def cstr_take_eq [OF assms])
  next
    case (Some i)
    note f = find_first [OF Some]
    have "strncmp m p q n = 0 \<longleftrightarrow> m (p + of_nat i) = m (q + of_nat i)"
      using Some by (simp add: strncmp_def)
    moreover have "(\<forall>k < unat n. (\<forall>j < k. m (p + of_nat j) \<noteq> 0) \<longrightarrow> m (p + of_nat k) = m (q + of_nat k)) \<longleftrightarrow>
        m (p + of_nat i) = m (q + of_nat i)" (is "?A \<longleftrightarrow> ?B")
    proof
      assume ?A
      moreover have "\<forall>j < i. m (p + of_nat j) \<noteq> 0" using f(3) by blast
      ultimately show ?B using f(1) by blast
    next
      assume B: ?B
      show ?A
      proof (intro allI impI)
        fix k assume k: "k < unat n" "\<forall>j < k. m (p + of_nat j) \<noteq> 0"
        consider "k < i" | "k = i" | "i < k" by linarith
        then show "m (p + of_nat k) = m (q + of_nat k)"
          using f(2) f(3) [of k] B k(2) by cases blast+
      qed
    qed
    ultimately show ?thesis by (simp only: cstr_take_eq [OF assms])
  qed
qed

lemma strchr_cstr:
  "cstr m p s \<Longrightarrow> c \<noteq> 0 \<Longrightarrow>
   strchr m p c = Some (if c \<in> of_char ` set s then p + of_nat (length (takeWhile (\<lambda>d. of_char d \<noteq> c) s)) else NULL)"
proof (induction s arbitrary: p)
  case Nil
  then show ?case by (simp add: strchr.simps [of m p c])
next
  case (Cons d s)
  then have "cstr m (p + 1) s" by simp
  from Cons.IH [OF this Cons.prems(2)] Cons.prems show ?case
    by (auto simp: strchr.simps [of m p c] add.assoc)
qed

lemma strchr_cstr_NULL: "cstr m p s \<Longrightarrow> c \<noteq> 0 \<Longrightarrow> \<exists>r. strchr m p c = Some r \<and> (r \<noteq> NULL \<longleftrightarrow> c \<in> of_char ` set s)"
proof (induction s arbitrary: p)
  case Nil
  then show ?case by (simp add: strchr.simps [of m p c])
next
  case (Cons d s)
  then have "cstr m (p + 1) s" by simp
  from Cons.IH [OF this Cons.prems(2)] Cons.prems show ?case
    by (auto simp: strchr.simps [of m p c])
qed

lemma strrchr_loop_cstr:
  "cstr m p s \<Longrightarrow> ch \<notin> set s \<Longrightarrow> of_char ch \<noteq> (0::u8) \<Longrightarrow> strrchr_loop m p (of_char ch) l = Some l"
proof (induction s arbitrary: p)
  case Nil
  then show ?case by (simp add: strrchr_loop.simps [of m p])
next
  case (Cons d s)
  then show ?case by (auto simp: strrchr_loop.simps [of m p])
qed

lemma strrchr_loop_last:
  "cstr m p (s @ ch # t) \<Longrightarrow> ch \<notin> set t \<Longrightarrow> of_char ch \<noteq> (0::u8) \<Longrightarrow>
   strrchr_loop m p (of_char ch) l = Some (p + of_nat (length s))"
proof (induction s arbitrary: p l)
  case Nil
  then have "strrchr_loop m (p + 1) (of_char ch) p = Some p" by (intro strrchr_loop_cstr) auto
  with Nil show ?case by (auto simp: strrchr_loop.simps [of m p])
next
  case (Cons d s)
  then show ?case by (auto simp: strrchr_loop.simps [of m p] add.assoc)
qed

lemma cstr_frame:
  "cstr m p s \<Longrightarrow> (\<And>i. i \<le> length s \<Longrightarrow> m' (p + of_nat i) = m (p + of_nat i)) \<Longrightarrow> cstr m' p s"
proof (induction s arbitrary: p)
  case Nil
  from Nil.prems(2) [of 0] Nil.prems(1) show ?case by simp
next
  case (Cons c s)
  have "m' (p + 1 + of_nat i) = m (p + 1 + of_nat i)" if "i \<le> length s" for i
    using Cons.prems(2) [of "Suc i"] that by (simp add: add.assoc)
  moreover have "m' p = m p" using Cons.prems(2) [of 0] by simp
  ultimately show ?case using Cons by auto
qed

text \<open>The bytes of a string of length \<open>n\<close>, its terminator included.\<close>

definition span :: "u64 \<Rightarrow> nat \<Rightarrow> u64 set" where
  "span p n = {p + of_nat i | i. i \<le> n}"

lemma span_step: "insert p (span (p + 1) n) = span p (Suc n)"
proof
  show "insert p (span (p + 1) n) \<subseteq> span p (Suc n)"
    by (auto simp: span_def add.assoc intro: exI [of _ 0]) (metis Suc_le_mono of_nat_Suc)
  show "span p (Suc n) \<subseteq> insert p (span (p + 1) n)"
  proof
    fix a assume "a \<in> span p (Suc n)"
    then obtain i where "i \<le> Suc n" "a = p + of_nat i" by (auto simp: span_def)
    then show "a \<in> insert p (span (p + 1) n)" by (cases i) (auto simp: span_def add.assoc)
  qed
qed

lemma span_memI: "i \<le> n \<Longrightarrow> a = p + of_nat i \<Longrightarrow> a \<in> span p n"
  by (auto simp: span_def)

lemma span_start: "p \<in> span p n"
  by (auto simp: span_def intro: exI [of _ 0])

lemma strcpy_loop_cstr:
  "cstr m (src + i) s \<Longrightarrow> span (dest + i) (length s) \<inter> span (src + i) (length s) = {} \<Longrightarrow>
   NULL \<notin> span (dest + i) (length s) \<Longrightarrow> length s < 2 ^ 64 \<Longrightarrow>
   \<exists>m'. strcpy_loop dest src i m = Some m' \<and> cstr m' (dest + i) s \<and>
     (\<forall>a. a \<notin> span (dest + i) (length s) \<longrightarrow> m' a = m a)"
proof (induction s arbitrary: i m)
  case Nil
  then show ?case by (subst strcpy_loop.simps) (auto simp: span_def)
next
  case (Cons c s)
  let ?m = "m(dest + i := m (src + i))"
  have sp: "span (dest + i) (length (c # s)) = insert (dest + i) (span (dest + (i + 1)) (length s))"
    "span (src + i) (length (c # s)) = insert (src + i) (span (src + (i + 1)) (length s))"
    using span_step [of "dest + i" "length s"] span_step [of "src + i" "length s"] by (simp_all add: add.assoc)
  have "cstr ?m (src + (i + 1)) s"
  proof (rule cstr_upd)
    show "cstr m (src + (i + 1)) s" using Cons.prems(1) by (simp add: add.assoc)
    show "dest + i \<noteq> src + (i + 1) + of_nat j" if "j \<le> length s" for j
      using Cons.prems(2) that unfolding sp by (auto simp: span_def)
  qed
  moreover have "span (dest + (i + 1)) (length s) \<inter> span (src + (i + 1)) (length s) = {}"
    "NULL \<notin> span (dest + (i + 1)) (length s)"
    using Cons.prems(2,3) unfolding sp by auto
  ultimately obtain m' where m': "strcpy_loop dest src (i + 1) ?m = Some m'" "cstr m' (dest + (i + 1)) s"
    "\<And>a. a \<notin> span (dest + (i + 1)) (length s) \<Longrightarrow> m' a = ?m a"
    using Cons.IH [where i = "i + 1" and m = ?m] Suc_lessD [of "length s" "2 ^ 64"] Cons.prems(4)
    by (metis length_Cons)
  have "dest + i \<notin> span (dest + (i + 1)) (length s)"
  proof
    assume "dest + i \<in> span (dest + (i + 1)) (length s)"
    then obtain j where "j \<le> length s" "dest + i + of_nat 0 = dest + i + of_nat (Suc j)"
      by (auto simp: span_def add.assoc)
    with Cons.prems(4) ptr_inj [of 0 "Suc j" "dest + i"] show False by simp
  qed
  then have "m' (dest + i) = m (src + i)" using m'(3) by simp
  moreover have "strcpy_loop dest src i m = Some m'"
    using m'(1) Cons.prems(1) by (subst strcpy_loop.simps) simp
  ultimately show ?case using m'(2,3) Cons.prems(1,3) sp by (auto simp: add.assoc)
qed

section \<open>Tokens\<close>

text \<open>What a tokeniser should give: the non-empty words between delimiters.\<close>

fun split_on :: "char set \<Rightarrow> string \<Rightarrow> string list" where
  "split_on D [] = [[]]"
| "split_on D (c # s) =
     (if c \<in> D then [] # split_on D s
      else case split_on D s of w # ws \<Rightarrow> (c # w) # ws | [] \<Rightarrow> [[c]])"

definition tokens :: "char set \<Rightarrow> string \<Rightarrow> string list" where
  "tokens D s = filter (\<lambda>w. w \<noteq> []) (split_on D s)"

lemma split_on_word:
  "split_on D s = takeWhile (\<lambda>c. c \<notin> D) s #
     (case dropWhile (\<lambda>c. c \<notin> D) s of [] \<Rightarrow> [] | _ # r \<Rightarrow> split_on D r)"
  by (induction s) (auto split: list.splits)

lemma tokens_skip: "tokens D (dropWhile (\<lambda>c. c \<in> D) s) = tokens D s"
  by (induction s) (auto simp: tokens_def)

lemma tokens_unfold:
  "tokens D s =
     (case dropWhile (\<lambda>c. c \<in> D) s of [] \<Rightarrow> []
      | c # t \<Rightarrow> takeWhile (\<lambda>c. c \<notin> D) (c # t) #
          (case dropWhile (\<lambda>c. c \<notin> D) (c # t) of [] \<Rightarrow> [] | _ # r \<Rightarrow> tokens D r))"
proof (cases "dropWhile (\<lambda>c. c \<in> D) s")
  case Nil
  have "tokens D [] = []" by (simp add: tokens_def)
  then show ?thesis using tokens_skip [of D s] unfolding Nil by simp
next
  case (Cons c t)
  then have "c \<notin> D" by (metis hd_dropWhile list.sel(1) list.distinct(1))
  then have "takeWhile (\<lambda>c. c \<notin> D) (c # t) \<noteq> []" by simp
  then have "tokens D (c # t) = takeWhile (\<lambda>c. c \<notin> D) (c # t) #
      (case dropWhile (\<lambda>c. c \<notin> D) (c # t) of [] \<Rightarrow> [] | _ # r \<Rightarrow> tokens D r)"
    unfolding tokens_def split_on_word [of D "c # t"]
    by (cases "dropWhile (\<lambda>c. c \<notin> D) (c # t)") simp_all
  then show ?thesis using tokens_skip [of D s] Cons by simp
qed

lemma tok_scan_cstr:
  "cstr m d ds \<Longrightarrow> cstr m p s \<Longrightarrow>
   tok_scan m d want p = Some (p + of_nat (length (takeWhile (\<lambda>c. (c \<in> set ds) = want) s)))"
proof (induction s arbitrary: p)
  case Nil
  then show ?case by (subst tok_scan.simps) simp
next
  case (Cons c s)
  obtain r where r: "strchr m d (of_char c) = Some r" "r \<noteq> NULL \<longleftrightarrow> c \<in> set ds"
    using strchr_cstr_NULL [OF Cons.prems(1), of "of_char c"] Cons.prems(2) by auto
  have "cstr m (p + 1) s" using Cons.prems(2) by simp
  from Cons.IH [OF Cons.prems(1) this] r Cons.prems(2) show ?case
    by (subst tok_scan.simps) (auto simp: add.assoc)
qed

text \<open>The loop of the callers: the first call with the string, the next ones with \<open>NULL\<close>.\<close>

partial_function (option) tok_loop :: "mem \<Rightarrow> u64 \<Rightarrow> u64 \<Rightarrow> u64 \<Rightarrow> (u64 list \<times> mem) option" where
  "tok_loop m str delim saveptr =
     (case strtok_r m str delim saveptr of None \<Rightarrow> None
      | Some (t, save', m') \<Rightarrow>
          if t = NULL then Some ([], m')
          else Option.bind (tok_loop m' NULL delim save') (\<lambda>(ts, m''). Some (t # ts, m'')))"

text \<open>One call of \<open>strtok_r\<close> on a string.\<close>

lemma strtok_r_end:
  assumes "cstr m d ds" and "cstr m p s" and "p = (if str \<noteq> NULL then str else save)"
    and "dropWhile (\<lambda>c. c \<in> set ds) s = []"
  shows "strtok_r m str d save = Some (NULL, save, m)"
proof -
  have "takeWhile (\<lambda>c. c \<in> set ds) s = s"
    using takeWhile_dropWhile_id [of "\<lambda>c. c \<in> set ds" s] unfolding assms(4) by simp
  then have "tok_scan m d True p = Some (p + of_nat (length s))"
    using tok_scan_cstr [OF assms(1,2), of True] by (simp only: simp_thms)
  then show ?thesis
    unfolding strtok_r_def Let_def assms(3) [symmetric]
    using cstr_not_NULL [OF assms(2)] cstr_end [OF assms(2)] by simp
qed

lemma strtok_r_token:
  assumes d: "cstr m d ds" and p: "cstr m p s" and n: "p = (if str \<noteq> NULL then str else save)"
    and s: "dropWhile (\<lambda>c. c \<in> set ds) s = c # t"
    and t: "tok = takeWhile (\<lambda>c. c \<notin> set ds) (c # t)" "rest = dropWhile (\<lambda>c. c \<notin> set ds) (c # t)"
    and st: "start = p + of_nat (length (takeWhile (\<lambda>c. c \<in> set ds) s))" "fin = start + of_nat (length tok)"
  shows "strtok_r m str d save =
    Some (if rest = [] then (start, NULL, m) else (start, fin + 1, m(fin := 0)))"
    and "cstr m start (tok @ rest)"
proof -
  have "takeWhile (\<lambda>c. c \<in> set ds) s @ c # t = s" using s takeWhile_dropWhile_id by metis
  then have q: "cstr m start (c # t)" using p cstr_append [of m p _ "c # t"] by (metis st(1))
  moreover have ct: "c # t = tok @ rest" by (simp only: t takeWhile_dropWhile_id)
  ultimately show "cstr m start (tok @ rest)" by simp
  then have r: "cstr m fin rest" using cstr_append [of m start tok rest] st(2) by simp
  have "tok_scan m d True p = Some start" "tok_scan m d False start = Some fin"
    using tok_scan_cstr [OF d p, of True] tok_scan_cstr [OF d q, of False] st t(1) by simp_all
  moreover have "m start \<noteq> 0" using q by simp
  moreover have "m fin \<noteq> 0 \<longleftrightarrow> rest \<noteq> []" using r by (cases rest) auto
  ultimately show "strtok_r m str d save =
    Some (if rest = [] then (start, NULL, m) else (start, fin + 1, m(fin := 0)))"
    unfolding strtok_r_def Let_def n [symmetric] using cstr_not_NULL [OF p] by simp
qed

lemma tok_loop_cstr:
  assumes "cstr m d ds" and "cstr m p s" and "p = (if str \<noteq> NULL then str else save)"
    and "span p (length s) \<inter> span d (length ds) = {}"
  shows "\<exists>ts m'. tok_loop m str d save = Some (ts, m') \<and> list_all2 (cstr m') ts (tokens (set ds) s) \<and>
    (\<forall>a. a \<notin> span p (length s) \<longrightarrow> m' a = m a)"
  using assms
proof (induction "length s" arbitrary: s m p str save rule: less_induct)
  case less
  show ?case
  proof (cases "dropWhile (\<lambda>c. c \<in> set ds) s")
    case Nil
    have "tokens (set ds) s = []" unfolding tokens_unfold [of "set ds" s] Nil by simp
    with strtok_r_end [OF less.prems(1-3) Nil] show ?thesis by (subst tok_loop.simps) simp
  next
    case (Cons c t)
    define tok where "tok = takeWhile (\<lambda>c. c \<notin> set ds) (c # t)"
    define rest where "rest = dropWhile (\<lambda>c. c \<notin> set ds) (c # t)"
    define pre where "pre = takeWhile (\<lambda>c. c \<in> set ds) s"
    define start where "start = p + of_nat (length pre)"
    define fin where "fin = start + of_nat (length tok)"
    note call = strtok_r_token [OF less.prems(1-3) Cons tok_def rest_def start_def [unfolded pre_def] fin_def]
    have s: "s = pre @ tok @ rest"
      using Cons takeWhile_dropWhile_id by (metis tok_def rest_def pre_def)
    have len: "length s < 2 ^ 64" using cstr_bound [OF less.prems(2)] by simp
    have nn: "start \<noteq> NULL" using call(2) cstr_not_NULL by blast
    have toks: "tokens (set ds) s = tok # (case rest of [] \<Rightarrow> [] | _ # r \<Rightarrow> tokens (set ds) r)"
      using Cons by (simp add: tokens_unfold [of "set ds" s] tok_def rest_def)
    show ?thesis
    proof (cases rest)
      case Nil
      have "tok_loop m NULL d NULL = Some ([], m)" by (subst tok_loop.simps) (simp add: strtok_r_def)
      then have "tok_loop m str d save = Some ([start], m)"
        using call(1) Nil nn by (subst tok_loop.simps) simp
      with Nil toks call(2) show ?thesis by auto
    next
      case (Cons e r)
      let ?m = "m(fin := 0)"
      have a: "fin + 1 + of_nat i = p + of_nat (length pre + length tok + 1 + i)" for i
        by (simp add: fin_def start_def add.assoc)
      have f: "fin = p + of_nat (length pre + length tok)" by (simp add: fin_def start_def add.assoc)
      have fd: "fin \<in> span p (length s)" using s Cons f by (intro span_memI [of "length pre + length tok"]) simp_all
      have sub: "span (fin + 1) (length r) \<subseteq> span p (length s)"
      proof
        fix x assume "x \<in> span (fin + 1) (length r)"
        then obtain i where "i \<le> length r" "x = fin + 1 + of_nat i" by (auto simp: span_def)
        with s Cons show "x \<in> span p (length s)"
          by (intro span_memI [of "length pre + length tok + 1 + i"]) (simp_all only: a, simp)
      qed
      have cr: "cstr ?m (fin + 1) r"
      proof (rule cstr_upd)
        show "cstr m (fin + 1) r" using call(2) Cons cstr_append [of m start tok rest] by (simp add: fin_def)
        show "fin \<noteq> fin + 1 + of_nat i" if "i \<le> length r" for i
          using ptr_inj [of "length pre + length tok" "length pre + length tok + 1 + i" p] len s Cons that
          by (simp add: a f)
      qed
      have cd: "cstr ?m d ds"
        using fd less.prems(4) by (intro cstr_upd [OF less.prems(1)]) (auto simp: span_def)
      obtain ts m' where m': "tok_loop ?m NULL d (fin + 1) = Some (ts, m')"
        "list_all2 (cstr m') ts (tokens (set ds) r)" "\<And>x. x \<notin> span (fin + 1) (length r) \<Longrightarrow> m' x = ?m x"
        using less.hyps [of r ?m "fin + 1" NULL "fin + 1"] cr cd sub less.prems(4) s Cons by auto
      have "cstr ?m start tok"
      proof -
        have "cstr ?m fin []" using cstr_not_NULL [OF call(2)] call(2) Cons cstr_append [of m start tok rest]
          by (auto simp: fin_def)
        moreover have "start + of_nat i \<noteq> fin" if "i < length tok" for i
          using ptr_inj [of "length pre + i" "length pre + length tok" p] len s that
          by (auto simp: f start_def add.assoc)
        ultimately show ?thesis
          using call(2) cstr_append [of m start tok rest] cstr_append [of ?m start tok "[]"]
          by (auto simp: fin_def)
      qed
      then have "cstr m' start tok"
      proof (rule cstr_frame)
        fix i assume i: "i \<le> length tok"
        have "start + of_nat i \<notin> span (fin + 1) (length r)"
        proof
          assume "start + of_nat i \<in> span (fin + 1) (length r)"
          then obtain j where j: "j \<le> length r" "start + of_nat i = fin + 1 + of_nat j" by (auto simp: span_def)
          then have "p + of_nat (length pre + i) = p + of_nat (length pre + length tok + 1 + j)"
            unfolding a by (simp add: start_def add.assoc)
          with ptr_inj [of "length pre + i" "length pre + length tok + 1 + j" p] j i len s Cons show False by simp
        qed
        then show "m' (start + of_nat i) = ?m (start + of_nat i)" using m'(3) by simp
      qed
      moreover have "tok_loop m str d save = Some (start # ts, m')"
        using call(1) Cons nn m'(1) by (subst tok_loop.simps) simp
      moreover have "m' x = m x" if "x \<notin> span p (length s)" for x
        using m'(3) [of x] that sub fd by (metis fun_upd_other subsetD)
      ultimately show ?thesis using toks Cons m'(2) by auto
    qed
  qed
qed

section \<open>Hexadecimal numbers\<close>

text \<open>\<open>n\<close> hexadecimal digits of \<open>v\<close>, the most significant first, in upper or lower case.\<close>

definition hex_char :: "bool \<Rightarrow> nat \<Rightarrow> char" where
  "hex_char up d = char_of (if d < 10 then 48 + d else (if up then 55 else 87) + d)"

fun to_hex :: "bool \<Rightarrow> nat \<Rightarrow> nat \<Rightarrow> string" where
  "to_hex up 0 v = []"
| "to_hex up (Suc n) v = to_hex up n (v div 16) @ [hex_char up (v mod 16)]"

definition hex_code :: "bool \<Rightarrow> nat \<Rightarrow> u8" where
  "hex_code up d = of_nat (if d < 10 then 48 + d else (if up then 55 else 87) + d)"

lemma of_hex_char: "d < 16 \<Longrightarrow> of_char (hex_char up d) = hex_code up d"
proof -
  assume "d < 16"
  then have n: "(if d < 10 then 48 + d else (if up then 55 else 87) + d) < 256" by (cases up; cases "d < 10") auto
  have "(of_char (hex_char up d) :: nat) = (if d < 10 then 48 + d else (if up then 55 else 87) + d)"
    unfolding hex_char_def of_char_of by (rule mod_less [OF n])
  moreover have "(of_char (hex_char up d) :: u8) = of_nat (of_char (hex_char up d))" by (simp only: of_nat_of_char)
  ultimately show ?thesis by (simp only: hex_code_def)
qed

lemma hex_char_digit:
  assumes "d < 16"
  shows "digit_of (of_char (hex_char up d)) = Some (int d)" and "of_char (hex_char up d) \<noteq> (0::u8)"
    and "\<not> is_space (of_char (hex_char up d))" and "of_char (hex_char up d) \<noteq> (120::u8)"
    and "of_char (hex_char up d) \<noteq> (88::u8)"
proof -
  have "d = 0 \<or> d = 1 \<or> d = 2 \<or> d = 3 \<or> d = 4 \<or> d = 5 \<or> d = 6 \<or> d = 7 \<or> d = 8 \<or> d = 9 \<or>
    d = 10 \<or> d = 11 \<or> d = 12 \<or> d = 13 \<or> d = 14 \<or> d = 15"
    using assms by (simp add: numeral_eq_Suc less_Suc_eq)
  then have "digit_of (hex_code up d) = Some (int d) \<and> hex_code up d \<noteq> 0 \<and> \<not> is_space (hex_code up d) \<and>
    hex_code up d \<noteq> 120 \<and> hex_code up d \<noteq> 88"
    by (elim disjE; cases up; simp add: digit_of_def is_space_def hex_code_def)
  then show "digit_of (of_char (hex_char up d)) = Some (int d)" "of_char (hex_char up d) \<noteq> (0::u8)"
    "\<not> is_space (of_char (hex_char up d))" "of_char (hex_char up d) \<noteq> (120::u8)"
    "of_char (hex_char up d) \<noteq> (88::u8)" by (simp_all add: of_hex_char [OF assms])
qed

lemma to_hex_chars: "c \<in> set (to_hex up n v) \<Longrightarrow> \<exists>d < 16. c = hex_char up d"
proof (induction n arbitrary: v)
  case (Suc n)
  have "v mod 16 < 16" by simp
  with Suc show ?case by (auto simp del: mod_less_divisor)
qed simp

lemma length_to_hex [simp]: "length (to_hex up n v) = n"
  by (induction n arbitrary: v) auto

lemma digits_loop_hex:
  "cstr m p (s @ to_hex up n v @ t) \<Longrightarrow> q = p + of_nat (length s) \<Longrightarrow>
   digits_loop m 16 q r = digits_loop m 16 (q + of_nat n) (r * 16 ^ n + of_nat (v mod 16 ^ n))"
proof (induction n arbitrary: v t)
  case (Suc n)
  let ?h = "hex_char up (v mod 16)" and ?q = "q + of_nat n"
  have "cstr m p (s @ to_hex up n (v div 16) @ ?h # t)" using Suc.prems(1) by simp
  note IH = Suc.IH [OF this Suc.prems(2)]
  have "cstr m (p + of_nat (length (s @ to_hex up n (v div 16)))) (?h # t)"
    using Suc.prems(1) cstr_append [of m p "s @ to_hex up n (v div 16)" "?h # t"] by simp
  then have at: "m ?q = of_char ?h" using Suc.prems(2) by (simp add: add.assoc)
  have step: "digits_loop m 16 ?q x = digits_loop m 16 (?q + 1) (x * 16 + of_nat (v mod 16))" for x
  proof -
    define d where "d = v mod 16"
    then have "d < 16" by simp
    with hex_char_digit [of d up] at show ?thesis by (subst digits_loop.simps) (simp add: d_def [symmetric])
  qed
  have "v mod 16 ^ Suc n = v mod 16 + 16 * (v div 16 mod 16 ^ n)"
    by (simp add: mod_mult2_eq)
  then have "(r * 16 ^ n + of_nat (v div 16 mod 16 ^ n)) * 16 + of_nat (v mod 16) =
      r * 16 ^ Suc n + (of_nat (v mod 16 ^ Suc n) :: u64)"
    by (simp add: algebra_simps)
  moreover have "?q + 1 = q + of_nat (Suc n)" by simp
  ultimately show ?case using IH step [of "r * 16 ^ n + of_nat (v div 16 mod 16 ^ n)"] by metis
qed simp

lemma strtoull_digits:
  assumes "cstr m p (to_hex up n v)"
  shows "strtoull m p 16 = Some (of_nat (v mod 16 ^ n), p + of_nat n)"
proof -
  let ?s = "to_hex up n v"
  have digit: "\<exists>d < 16. m (p + of_nat i) = of_char (hex_char up d)" if "i < n" for i
    using cstr_nth [OF assms, of i] that to_hex_chars [of "?s ! i" up n v] by (metis nth_mem length_to_hex)
  have stop: "m (p + of_nat n) = 0" using cstr_end [OF assms] by simp
  have sp: "skip_spaces m p = Some p"
  proof (subst skip_spaces.simps)
    have "\<not> is_space (m p)"
      using digit [of 0] stop hex_char_digit(3) by (cases n) (auto simp: is_space_def)
    then show "(if is_space (m p) then skip_spaces m (p + 1) else Some p) = Some p" by simp
  qed
  have nx: "\<not> (m p = 48 \<and> (m (p + 1) = 120 \<or> m (p + 1) = 88))"
    using digit [of 0] digit [of 1] stop hex_char_digit(4,5)
    by (cases "n \<le> 1") (fastforce simp: le_Suc_eq)+
  have "digits_loop m 16 p 0 = digits_loop m 16 (p + of_nat n) (0 * 16 ^ n + of_nat (v mod 16 ^ n))"
    using digits_loop_hex [of m p "[]" up n v "[]" p 0] assms by simp
  also have "\<dots> = Some (of_nat (v mod 16 ^ n), p + of_nat n)"
    using stop by (subst digits_loop.simps) simp
  finally show ?thesis using sp nx by (auto simp: strtoull_def Let_def)
qed

section \<open>Properties\<close>

text \<open>
  C9. \<open>memmove\<close> copies correctly however the two blocks overlap: afterwards the destination holds
  the bytes the source held before, and nothing else has changed. The blocks must not wrap
  around the address space.
\<close>
theorem memmove_correct:
  assumes "unat src + unat n \<le> 2 ^ 64" and "unat dest + unat n \<le> 2 ^ 64"
  shows "memmove m dest src n a =
    (if \<exists>i < unat n. a = dest + of_nat i then m (a - dest + src) else m a)"
proof -
  have bound: "\<forall>j \<in> set [0 ..< unat n]. j < 2 ^ 64" proof
    fix j assume "j \<in> set [0 ..< unat n]"
    then have "j < unat n" by simp
    with unat64_bound [of n] have "j < 18446744073709551616" by linarith
    then show "j < 2 ^ 64" by simp
  qed
  note neq = memmove_order [OF assms]
  consider "dest < src" | "src < dest" | "src = dest" by (metis linorder_neqE)
  then show ?thesis
  proof cases
    case 1
    then have "unat dest < unat src" by (simp add: word_less_nat_alt)
    then have "sorted_wrt (\<lambda>j k. src + of_nat k \<noteq> dest + of_nat j) [0 ..< unat n]"
      using neq by (intro sorted_wrt_mono_rel [OF _ sorted_wrt_upt [of 0 "unat n"]]) auto
    with 1 bound show ?thesis by (auto simp: memmove_def copy_bytes)
  next
    case 2
    then have "unat src < unat dest" by (simp add: word_less_nat_alt)
    then have "sorted_wrt (\<lambda>j k. src + of_nat k \<noteq> dest + of_nat j) (rev [0 ..< unat n])"
      unfolding sorted_wrt_rev
      using neq by (intro sorted_wrt_mono_rel [OF _ sorted_wrt_upt [of 0 "unat n"]]) auto
    moreover have "\<not> dest < src" using 2 by auto
    ultimately show ?thesis using 2 bound by (auto simp: memmove_def copy_bytes)
  next
    case 3
    then show ?thesis by (auto simp: memmove_def)
  qed
qed

theorem memmove_correct_witness:
  "memmove (\<lambda>a. ucast a) 0x1002 0x1000 4 0x1005 = 3"
proof -
  have "unat (0x1000 :: u64) + unat (4 :: u64) \<le> 2 ^ 64" "unat (0x1002 :: u64) + unat (4 :: u64) \<le> 2 ^ 64"
    by simp_all
  moreover have "\<exists>i < unat (4 :: u64). (0x1005 :: u64) = 0x1002 + of_nat i" by (intro exI [of _ 3]) simp
  ultimately show ?thesis using memmove_correct [of "0x1000" 4 "0x1002" "\<lambda>a. ucast a" "0x1005"] by simp
qed

text \<open>
  String comparison: on two C strings \<open>strcmp\<close> returns; its result is 0 exactly when the
  strings are equal and negative exactly when the first comes first in the lexicographic order of
  unsigned characters. \<open>strncmp\<close> is 0 exactly when the first \<open>n\<close> characters agree.
\<close>
theorem strcmp_correct:
  assumes "cstr m p s" and "cstr m q t"
  shows "(\<exists>r. strcmp m p q = Some r \<and> (r = 0 \<longleftrightarrow> s = t) \<and> (r < 0 \<longleftrightarrow> ord_class.lexordp s t)) \<and>
    (strncmp m p q n = 0 \<longleftrightarrow> take (unat n) s = take (unat n) t)"
  using strcmp_cstr [OF assms] strncmp_cstr [OF assms] by blast

definition two_strings :: mem where
  "two_strings = (\<lambda>_. 0)(0x1000 := 97, 0x1001 := 98, 0x2000 := 97, 0x2001 := 99)"

theorem strcmp_correct_witness:
  "\<exists>r. strcmp two_strings 0x1000 0x2000 = Some r \<and> r < 0"
proof -
  have "cstr two_strings 0x1000 ''ab''" "cstr two_strings 0x2000 ''ac''"
    by (simp_all add: two_strings_def)
  from strcmp_correct [OF this, of 0] show ?thesis by auto
qed

text \<open>
  C10. Tokenising: the calls of \<open>strtok_r\<close> that a caller makes until it gets \<open>NULL\<close> end, and return
  one pointer per non-empty word of the string between the delimiters, in order; when the
  loop is over each pointer still points to its word as a C string, and only bytes of the string
  were changed. (The delimiter string lies elsewhere.)
\<close>
theorem strtok_r_tokens:
  assumes "cstr m p s" and "cstr m d ds" and "span p (length s) \<inter> span d (length ds) = {}"
  shows "\<exists>ts m'. tok_loop m p d save = Some (ts, m') \<and> list_all2 (cstr m') ts (tokens (set ds) s) \<and>
    (\<forall>a. a \<notin> span p (length s) \<longrightarrow> m' a = m a)"
  using tok_loop_cstr [OF assms(2,1) _ assms(3), of p save] cstr_not_NULL [OF assms(1)] by simp

definition path_mem :: mem where
  "path_mem = (\<lambda>_. 0)(0x1000 := 47, 0x1001 := 97, 0x1002 := 47, 0x1003 := 47, 0x1004 := 98, 0x2000 := 47)"

theorem strtok_r_tokens_witness:
  "\<exists>ts m'. tok_loop path_mem 0x1000 0x2000 0 = Some (ts, m') \<and> list_all2 (cstr m') ts [''a'', ''b'']"
proof -
  have c: "cstr path_mem 0x1000 ''/a//b''" "cstr path_mem 0x2000 ''/''"
    by (simp_all add: path_mem_def)
  have "span 0x1000 (length ''/a//b'') \<inter> span 0x2000 (length ''/'') = {}"
    by (auto simp: span_def le_Suc_eq)
  from strtok_r_tokens [OF c this, of 0] show ?thesis
    by (auto simp: tokens_def)
qed

text \<open>
  Numbers survive printing and parsing: \<open>strtoull\<close> in base 16 on \<open>n\<close> hexadecimal digits of \<open>v\<close>, in
  upper or lower case, returns \<open>v\<close> (modulo \<open>16^n\<close> and the 64 bits of the result) and the end of the
  digits.
\<close>
theorem strtoull_hex:
  assumes "cstr m p (to_hex up n v)"
  shows "strtoull m p 16 = Some (of_nat (v mod 16 ^ n), p + of_nat n)"
  by (rule strtoull_digits [OF assms])

definition hex_mem :: mem where
  "hex_mem = (\<lambda>_. 0)(0x1000 := 48, 0x1001 := 70, 0x1002 := 69)"

theorem strtoull_hex_witness: "strtoull hex_mem 0x1000 16 = Some (0xFE, 0x1003)"
proof -
  have "cstr hex_mem 0x1000 (to_hex True 3 254)"
    by (simp add: hex_mem_def numeral_3_eq_3 of_hex_char hex_code_def)
  from strtoull_hex [OF this] show ?thesis by simp
qed

end
