(* ===== verification/Kheap.thy ===== *)
theory Kheap
  imports Pmm Memory
begin

text \<open>
  The kernel heap of \<^verbatim>\<open>mm/kheap.c\<close>: eight caches of one-page slabs for objects of 16 to 2048 bytes,
  and runs of whole pages for larger ones. The memory of the heap is seen through three maps: the
  slab headers at the beginning of their pages, the link word at the start of a free object, and
  the bytes of the objects in use. The state extends that of the page allocator.
\<close>

section \<open>State\<close>

record slab =
  sl_next :: u64
  sl_free_list :: u64
  sl_magic :: u32
  sl_object_size :: u16
  sl_capacity :: u16
  sl_free_count :: u16
  sl_cache_index :: u16
  sl_npages :: u32

record slab_cache =
  c_object_size :: u16
  c_slabs :: u64
  c_slab_count :: u32

record kheap = pmm +
  slab_at :: "u64 \<Rightarrow> slab"
  link_at :: "u64 \<Rightarrow> u64"
  heap_mem :: mem
  caches :: "nat \<Rightarrow> slab_cache"
  kheap_lock :: spinlock

definition KHEAP_ALIGN :: u64 where "KHEAP_ALIGN = 16"
definition SLAB_MAGIC :: u32 where "SLAB_MAGIC = 0x534C4142"
definition BIG_CACHE_INDEX :: u16 where "BIG_CACHE_INDEX = 0xFFFF"

definition cache_sizes :: "u16 list" where
  "cache_sizes = [16, 32, 64, 128, 256, 512, 1024, 2048]"

text \<open>\<^verbatim>\<open>sizeof(slab_t)\<close>\<close>

definition slab_header :: u64 where "slab_header = 32"

definition upd_slab :: "u64 \<Rightarrow> (slab \<Rightarrow> slab) \<Rightarrow> 'b kheap_scheme \<Rightarrow> 'b kheap_scheme" where
  "upd_slab a f s = s\<lparr>slab_at := (slab_at s)(a := f (slab_at s a))\<rparr>"

definition upd_cache :: "nat \<Rightarrow> (slab_cache \<Rightarrow> slab_cache) \<Rightarrow> 'b kheap_scheme \<Rightarrow> 'b kheap_scheme" where
  "upd_cache i f s = s\<lparr>caches := (caches s)(i := f (caches s i))\<rparr>"

definition set_link :: "u64 \<Rightarrow> u64 \<Rightarrow> 'b kheap_scheme \<Rightarrow> 'b kheap_scheme" where
  "set_link p v s = s\<lparr>link_at := (link_at s)(p := v)\<rparr>"

text \<open>\<^verbatim>\<open>memset(p, 0, n)\<close> as the three views see it.\<close>

definition clear_slab :: slab where
  "clear_slab = \<lparr>sl_next = 0, sl_free_list = 0, sl_magic = 0, sl_object_size = 0, sl_capacity = 0,
     sl_free_count = 0, sl_cache_index = 0, sl_npages = 0\<rparr>"

definition zero_mem :: "u64 \<Rightarrow> u64 \<Rightarrow> 'b kheap_scheme \<Rightarrow> 'b kheap_scheme" where
  "zero_mem p n s =
     s\<lparr>slab_at := (\<lambda>a. if a - p < n then clear_slab else slab_at s a),
       link_at := (\<lambda>a. if a - p < n then 0 else link_at s a), heap_mem := memset (heap_mem s) p 0 n\<rparr>"

definition align_up_uintptr :: "u64 \<Rightarrow> u64 \<Rightarrow> u64" where
  "align_up_uintptr val align = (val + align - 1) AND NOT (align - 1)"

definition page_base :: "u64 \<Rightarrow> u64" where
  "page_base ptr = ALIGN_DOWN ptr PAGE_SIZE"

section \<open>Slabs\<close>

definition push_free :: "u64 \<Rightarrow> u64 \<Rightarrow> 'b kheap_scheme \<Rightarrow> 'b kheap_scheme" where
  "push_free a obj s =
     upd_slab a (\<lambda>x. x\<lparr>sl_free_list := obj\<rparr>) (set_link obj (sl_free_list (slab_at s a)) s)"

definition slab_create :: "int \<Rightarrow> u16 \<Rightarrow> u16 \<Rightarrow> 'b kheap_scheme \<Rightarrow> (u64 \<times> 'b kheap_scheme) option" where
  "slab_create me osz idx s =
     (case pmm_alloc_page me s of None \<Rightarrow> None
      | Some (pg, s1) \<Rightarrow>
          if pg = NULL then Some (NULL, s1)
          else let a = PHYS_TO_VIRT s1 (pfn_db_page_to_phys s1 pg);
                   s2 = zero_mem a PAGE_SIZE s1;
                   s3 = upd_slab a (\<lambda>x. x\<lparr>sl_magic := SLAB_MAGIC, sl_object_size := osz,
                          sl_cache_index := idx, sl_npages := 1\<rparr>) s2;
                   obj_start = align_up_uintptr (a + slab_header) KHEAP_ALIGN;
                   obj_end = a + PAGE_SIZE;
                   cap = ucast ((obj_end - obj_start) div ucast osz) :: u16
               in if obj_end \<le> obj_start \<or> cap = 0
                  then map_option (\<lambda>(_, t). (NULL, t)) (pmm_page_release me pg s3)
                  else let s4 = upd_slab a (\<lambda>x. x\<lparr>sl_capacity := cap, sl_free_count := cap, sl_free_list := NULL\<rparr>) s3
                       in Some (a, fold (\<lambda>i. push_free a (obj_start + of_nat i * ucast osz)) [0 ..< unat cap] s4))"

definition slab_destroy :: "int \<Rightarrow> u64 \<Rightarrow> 'b kheap_scheme \<Rightarrow> (unit \<times> 'b kheap_scheme) option" where
  "slab_destroy me a s =
     (if a = NULL then Some ((), s)
      else let pg = pfn_db_phys_to_page s (VIRT_TO_PHYS s a) in
        if pg = NULL then Some ((), s)
        else if 1 < sl_npages (slab_at s a) then pmm_pages_release me pg (ucast (sl_npages (slab_at s a))) s
        else pmm_page_release me pg s)"

definition cache_for_size :: "u64 \<Rightarrow> 'b kheap_scheme \<Rightarrow> nat option" where
  "cache_for_size sz s = find (\<lambda>i. sz \<le> ucast (c_object_size (caches s i))) [0 ..< 8]"

definition cache_add_slab :: "nat \<Rightarrow> u64 \<Rightarrow> 'b kheap_scheme \<Rightarrow> 'b kheap_scheme" where
  "cache_add_slab i a s =
     (let s1 = upd_slab a (\<lambda>x. x\<lparr>sl_next := c_slabs (caches s i)\<rparr>) s
      in upd_cache i (\<lambda>c. c\<lparr>c_slabs := a, c_slab_count := c_slab_count c + 1\<rparr>) s1)"

definition unlink_slab :: "nat \<Rightarrow> u64 \<Rightarrow> u64 \<Rightarrow> 'b kheap_scheme \<Rightarrow> 'b kheap_scheme" where
  "unlink_slab i prev cur s =
     (let s1 = (if prev \<noteq> NULL then upd_slab prev (\<lambda>x. x\<lparr>sl_next := sl_next (slab_at s cur)\<rparr>) s
                else upd_cache i (\<lambda>c. c\<lparr>c_slabs := sl_next (slab_at s cur)\<rparr>) s);
          s2 = upd_slab cur (\<lambda>x. x\<lparr>sl_next := NULL\<rparr>) s1
      in if 0 < c_slab_count (caches s2 i)
         then upd_cache i (\<lambda>c. c\<lparr>c_slab_count := c_slab_count c - 1\<rparr>) s2 else s2)"

partial_function (option) remove_loop :: "nat \<Rightarrow> u64 \<Rightarrow> u64 \<Rightarrow> u64 \<Rightarrow> 'b kheap_scheme \<Rightarrow> 'b kheap_scheme option" where
  "remove_loop i a prev cur s =
     (if cur = NULL then Some s
      else if cur = a then Some (unlink_slab i prev cur s)
      else remove_loop i a cur (sl_next (slab_at s cur)) s)"

definition cache_remove_slab :: "nat \<Rightarrow> u64 \<Rightarrow> 'b kheap_scheme \<Rightarrow> 'b kheap_scheme option" where
  "cache_remove_slab i a s = remove_loop i a NULL (c_slabs (caches s i)) s"

section \<open>Allocation\<close>

definition acquire_heap :: "int \<Rightarrow> 'b kheap_scheme \<Rightarrow> 'b kheap_scheme option" where
  "acquire_heap me s = map_option (\<lambda>l. s\<lparr>kheap_lock := l\<rparr>) (lock_acquire me (kheap_lock s))"

definition release_heap :: "int \<Rightarrow> 'b kheap_scheme \<Rightarrow> 'b kheap_scheme" where
  "release_heap me s = s\<lparr>kheap_lock := lock_release me (kheap_lock s)\<rparr>"

definition kheap_init :: "int \<Rightarrow> 'b kheap_scheme \<Rightarrow> 'b kheap_scheme option" where
  "kheap_init me s =
     map_option (\<lambda>s1. release_heap me
         (fold (\<lambda>i. upd_cache i (\<lambda>c. c\<lparr>c_object_size := cache_sizes ! i, c_slabs := NULL, c_slab_count := 0\<rparr>)) [0 ..< 8] s1))
       (acquire_heap me s)"

partial_function (option) find_slab :: "u64 \<Rightarrow> 'b kheap_scheme \<Rightarrow> u64 option" where
  "find_slab a s =
     (if a \<noteq> NULL \<and> sl_free_list (slab_at s a) = NULL then find_slab (sl_next (slab_at s a)) s else Some a)"

text \<open>The path of \<^verbatim>\<open>kmalloc\<close> for sizes above the largest cache.\<close>

definition kmalloc_big :: "int \<Rightarrow> u64 \<Rightarrow> 'b kheap_scheme \<Rightarrow> (u64 \<times> 'b kheap_scheme) option" where
  "kmalloc_big me sz s =
     (let total = slab_header + KHEAP_ALIGN + sz; n = ALIGN_UP total PAGE_SIZE div PAGE_SIZE in
      case pmm_alloc_pages me n s of None \<Rightarrow> None
      | Some (pg, s1) \<Rightarrow>
          if pg = NULL then Some (NULL, s1)
          else let a = PHYS_TO_VIRT s1 (pfn_db_page_to_phys s1 pg);
                   s2 = zero_mem a (n * PAGE_SIZE) s1;
                   s3 = upd_slab a (\<lambda>x. x\<lparr>sl_magic := SLAB_MAGIC,
                          sl_object_size := ucast (if 0xFFFF < sz then 0xFFFF else sz),
                          sl_cache_index := BIG_CACHE_INDEX, sl_capacity := 1, sl_free_count := 0,
                          sl_free_list := NULL, sl_next := NULL, sl_npages := ucast n\<rparr>) s2
               in Some (align_up_uintptr (a + slab_header) KHEAP_ALIGN, s3))"

text \<open>Taking an object from a slab that has one.\<close>

definition take_object :: "nat \<Rightarrow> u64 \<Rightarrow> 'b kheap_scheme \<Rightarrow> (u64 \<times> 'b kheap_scheme) option" where
  "take_object i a s =
     (let obj = sl_free_list (slab_at s a) in
      if obj < 0x1000 then Some (NULL, s)
      else let s1 = upd_slab a (\<lambda>x. x\<lparr>sl_free_list := link_at s obj\<rparr>) s;
               fl = sl_free_list (slab_at s1 a);
               s2 = (if fl \<noteq> 0 \<and> fl < 0x1000 then upd_slab a (\<lambda>x. x\<lparr>sl_free_list := NULL\<rparr>) s1 else s1);
               s3 = (if 0 < sl_free_count (slab_at s2 a)
                     then upd_slab a (\<lambda>x. x\<lparr>sl_free_count := sl_free_count x - 1\<rparr>) s2 else s2)
           in map_option (Pair obj)
                (if sl_free_count (slab_at s3 a) = 0 then cache_remove_slab i a s3 else Some s3))"

definition kmalloc_small :: "int \<Rightarrow> nat \<Rightarrow> 'b kheap_scheme \<Rightarrow> (u64 \<times> 'b kheap_scheme) option" where
  "kmalloc_small me i s =
     (case find_slab (c_slabs (caches s i)) s of None \<Rightarrow> None
      | Some a \<Rightarrow>
          if a \<noteq> NULL then take_object i a s
          else case slab_create me (c_object_size (caches s i)) (of_nat i) s of None \<Rightarrow> None
            | Some (b, s1) \<Rightarrow>
                if b = NULL then Some (NULL, s1) else take_object i b (cache_add_slab i b s1))"

definition kmalloc :: "int \<Rightarrow> u64 \<Rightarrow> 'b kheap_scheme \<Rightarrow> (u64 \<times> 'b kheap_scheme) option" where
  "kmalloc me sz0 s =
     (if sz0 = 0 then Some (NULL, s)
      else let sz = ALIGN_UP sz0 KHEAP_ALIGN in
        case acquire_heap me s of None \<Rightarrow> None
        | Some s1 \<Rightarrow>
            map_option (\<lambda>(p, t). (p, release_heap me t))
              (case cache_for_size sz s1 of None \<Rightarrow> kmalloc_big me sz s1
               | Some i \<Rightarrow> kmalloc_small me i s1))"

definition kzalloc :: "int \<Rightarrow> u64 \<Rightarrow> 'b kheap_scheme \<Rightarrow> (u64 \<times> 'b kheap_scheme) option" where
  "kzalloc me sz s =
     map_option (\<lambda>(p, t). if p = NULL then (NULL, t) else (p, t\<lparr>heap_mem := memset (heap_mem t) p 0 sz\<rparr>))
       (kmalloc me sz s)"

definition kfree :: "int \<Rightarrow> u64 \<Rightarrow> 'b kheap_scheme \<Rightarrow> (unit \<times> 'b kheap_scheme) option" where
  "kfree me ptr s =
     (if ptr = NULL then Some ((), s)
      else let a = page_base ptr in
        if sl_magic (slab_at s a) \<noteq> SLAB_MAGIC then Some ((), s)
        else if a + ucast (sl_npages (slab_at s a)) * PAGE_SIZE \<le> ptr then Some ((), s)
        else case acquire_heap me s of None \<Rightarrow> None
          | Some s1 \<Rightarrow>
              if sl_cache_index (slab_at s1 a) = BIG_CACHE_INDEX \<or> sl_capacity (slab_at s1 a) = 1
              then slab_destroy me a (release_heap me s1)
              else let i = unat (sl_cache_index (slab_at s1 a));
                       s2 = (if sl_free_count (slab_at s1 a) = 0 then cache_add_slab i a s1 else s1);
                       s3 = push_free a ptr s2;
                       s4 = (if sl_free_count (slab_at s3 a) < sl_capacity (slab_at s3 a)
                             then upd_slab a (\<lambda>x. x\<lparr>sl_free_count := sl_free_count x + 1\<rparr>) s3 else s3)
                   in if sl_free_count (slab_at s4 a) = sl_capacity (slab_at s4 a) \<and> 1 < c_slab_count (caches s4 i)
                      then case cache_remove_slab i a s4 of None \<Rightarrow> None
                           | Some s5 \<Rightarrow> slab_destroy me a (release_heap me s5)
                      else Some ((), release_heap me s4))"

definition krealloc :: "int \<Rightarrow> u64 \<Rightarrow> u64 \<Rightarrow> 'b kheap_scheme \<Rightarrow> (u64 \<times> 'b kheap_scheme) option" where
  "krealloc me ptr new_size s =
     (if ptr = NULL then kmalloc me new_size s
      else if new_size = 0 then map_option (\<lambda>(_, t). (NULL, t)) (kfree me ptr s)
      else let a = page_base ptr in
        if sl_magic (slab_at s a) \<noteq> SLAB_MAGIC then Some (NULL, s)
        else let old_size = ucast (sl_object_size (slab_at s a)) in
          if new_size \<le> old_size then Some (ptr, s)
          else case kmalloc me new_size s of None \<Rightarrow> None
            | Some (p, t) \<Rightarrow>
                if p = NULL then Some (NULL, t)
                else map_option (\<lambda>(_, u). (p, u)) (kfree me ptr (t\<lparr>heap_mem := memcpy (heap_mem t) p ptr old_size\<rparr>)))"

definition strdup :: "int \<Rightarrow> u64 \<Rightarrow> 'b kheap_scheme \<Rightarrow> (u64 \<times> 'b kheap_scheme) option" where
  "strdup me str s =
     (case strlen (heap_mem s) str of None \<Rightarrow> None
      | Some n \<Rightarrow>
          (case kzalloc me (n + 1) s of None \<Rightarrow> None
           | Some (p, t) \<Rightarrow>
               if p = NULL then Some (NULL, t)
               else (case strlen (heap_mem t) str of None \<Rightarrow> None
                     | Some k \<Rightarrow> Some (p, t\<lparr>heap_mem := memcpy (heap_mem t) p str (k + 1)\<rparr>))))"

section \<open>The invariant\<close>

text \<open>
  What the boot loader's direct map gives: it is page aligned, does not begin at page 0, does not
  wrap around, and the machine has fewer than \<open>2^32 - 1\<close> frames, so that a slab counter of 32 bits
  cannot wrap.
\<close>

definition hhdm_ok :: "'b kheap_scheme \<Rightarrow> bool" where
  "hhdm_ok s \<longleftrightarrow> unat (hhdm_offset s) mod 4096 = 0 \<and> 4096 \<le> unat (hhdm_offset s) \<and>
     unat (hhdm_offset s) + 4096 * (unat (max_pfn s) + 1) < 2 ^ 64 \<and> unat (max_pfn s) < 2 ^ 32 - 1"

definition frame_va :: "'b kheap_scheme \<Rightarrow> nat \<Rightarrow> u64" where
  "frame_va s k = PHYS_TO_VIRT s (of_nat k * PAGE_SIZE)"

definition frame_no :: "'b kheap_scheme \<Rightarrow> u64 \<Rightarrow> nat" where
  "frame_no s a = (unat a - unat (hhdm_offset s)) div 4096"

definition frames :: "'b kheap_scheme \<Rightarrow> u64 \<Rightarrow> nat \<Rightarrow> nat set" where
  "frames s a n = {frame_no s a ..< frame_no s a + n}"

text \<open>The size of the objects of a slab of \<open>n\<close> pages, and their addresses.\<close>

definition slot_size :: "slab \<Rightarrow> nat \<Rightarrow> nat" where
  "slot_size h n = (if sl_cache_index h = BIG_CACHE_INDEX then n * 4096 - 32 else unat (sl_object_size h))"

definition slots :: "u64 \<Rightarrow> slab \<Rightarrow> nat \<Rightarrow> u64 set" where
  "slots a h n = (\<lambda>k. a + of_nat (32 + k * slot_size h n)) ` {0 ..< unat (sl_capacity h)}"

definition header_ok :: "slab \<Rightarrow> nat \<Rightarrow> u64 list \<Rightarrow> bool" where
  "header_ok h n fl \<longleftrightarrow> sl_magic h = SLAB_MAGIC \<and> sl_npages h = of_nat n \<and> sl_free_count h = of_nat (length fl) \<and>
     (if sl_cache_index h = BIG_CACHE_INDEX
      then fl = [] \<and> sl_capacity h = 1 \<and> unat (sl_object_size h) \<le> n * 4096 - 32
      else unat (sl_cache_index h) < 8 \<and> n = 1 \<and> sl_object_size h = cache_sizes ! unat (sl_cache_index h) \<and>
        unat (sl_capacity h) = 4064 div unat (sl_object_size h))"

text \<open>A slab of \<open>n\<close> pages at \<open>a\<close> whose free objects are \<open>fl\<close>: its pages are in use with one
  reference, its header is right and its free list links \<open>fl\<close>.\<close>

definition slab_ok :: "'b kheap_scheme \<Rightarrow> u64 \<Rightarrow> nat \<Rightarrow> u64 list \<Rightarrow> bool" where
  "slab_ok s a n fl \<longleftrightarrow> 0 < n \<and> frame_no s a + n \<le> unat (max_pfn s) + 1 \<and> a = frame_va s (frame_no s a) \<and>
     (\<forall>k \<in> frames s a n. page_ptr s (of_nat k) \<in> last_ref s) \<and> header_ok (slab_at s a) n fl \<and>
     chain (link_at s) (sl_free_list (slab_at s a)) fl \<and> distinct fl \<and> set fl \<subseteq> slots a (slab_at s a) n"

text \<open>The slab lists of the caches hold exactly the slabs with a free object.\<close>

definition caches_ok :: "'b kheap_scheme \<Rightarrow> (u64 \<Rightarrow> (nat \<times> u64 list) option) \<Rightarrow> (nat \<Rightarrow> u64 list) \<Rightarrow> bool" where
  "caches_ok s G cl \<longleftrightarrow> (\<forall>i < 8. c_object_size (caches s i) = cache_sizes ! i \<and>
     chain (\<lambda>a. sl_next (slab_at s a)) (c_slabs (caches s i)) (cl i) \<and> distinct (cl i) \<and>
     c_slab_count (caches s i) = of_nat (length (cl i)) \<and>
     (\<forall>a. a \<in> set (cl i) \<longleftrightarrow> (\<exists>n fl. G a = Some (n, fl) \<and> fl \<noteq> [] \<and> unat (sl_cache_index (slab_at s a)) = i)))"

definition heap_rel :: "'b kheap_scheme \<Rightarrow> (u64 \<Rightarrow> (nat \<times> u64 list) option) \<Rightarrow> (nat \<Rightarrow> u64 list) \<Rightarrow> bool" where
  "heap_rel s G cl \<longleftrightarrow> pmm_ready s \<and> hhdm_ok s \<and> caches_ok s G cl \<and>
     (\<forall>a n fl. G a = Some (n, fl) \<longrightarrow> slab_ok s a n fl) \<and>
     (\<forall>a b n fl m gl. G a = Some (n, fl) \<longrightarrow> G b = Some (m, gl) \<longrightarrow> a \<noteq> b \<longrightarrow> frames s a n \<inter> frames s b m = {})"

text \<open>The objects in use, with their sizes: \<open>heap s L\<close> is the abstract view of the allocator.\<close>

definition object :: "'b kheap_scheme \<Rightarrow> (u64 \<Rightarrow> (nat \<times> u64 list) option) \<Rightarrow> u64 \<Rightarrow> nat \<Rightarrow> bool" where
  "object s G p c \<longleftrightarrow> (\<exists>a n fl. G a = Some (n, fl) \<and> p \<in> slots a (slab_at s a) n \<and> p \<notin> set fl \<and>
     c = slot_size (slab_at s a) n)"

definition heap :: "'b kheap_scheme \<Rightarrow> (u64 \<Rightarrow> nat option) \<Rightarrow> bool" where
  "heap s L \<longleftrightarrow> lock_free (kheap_lock s) \<and> (\<exists>G cl. heap_rel s G cl \<and> (\<forall>p c. L p = Some c \<longleftrightarrow> object s G p c))"

section \<open>Addresses\<close>

lemma unat_frame_va:
  assumes "hhdm_ok s" and "k \<le> unat (max_pfn s)"
  shows "unat (frame_va s k) = unat (hhdm_offset s) + 4096 * k"
proof -
  have k: "unat (of_nat k :: u64) = k" using assms(2) by (rule unat_of_nat_le)
  have "unat (of_nat k * 0x1000 :: u64) = k * 4096"
    using assms by (subst unat_mult_no_wrap) (auto simp: k hhdm_ok_def)
  then show ?thesis
    using assms unfolding frame_va_def PHYS_TO_VIRT_def
    by (subst unat_add_no_wrap) (auto simp: hhdm_ok_def)
qed

lemma frame_no_va: "hhdm_ok s \<Longrightarrow> k \<le> unat (max_pfn s) \<Longrightarrow> frame_no s (frame_va s k) = k"
  by (simp add: frame_no_def unat_frame_va)

lemma cache_sizes_cases:
  assumes "i < 8"
  obtains "i = 0" "unat (cache_sizes ! i) = 16" | "i = 1" "unat (cache_sizes ! i) = 32"
    | "i = 2" "unat (cache_sizes ! i) = 64" | "i = 3" "unat (cache_sizes ! i) = 128"
    | "i = 4" "unat (cache_sizes ! i) = 256" | "i = 5" "unat (cache_sizes ! i) = 512"
    | "i = 6" "unat (cache_sizes ! i) = 1024" | "i = 7" "unat (cache_sizes ! i) = 2048"
proof -
  from assms have "i = 0 \<or> i = 1 \<or> i = 2 \<or> i = 3 \<or> i = 4 \<or> i = 5 \<or> i = 6 \<or> i = 7" by linarith
  then show thesis by (elim disjE) (use that in \<open>simp_all add: cache_sizes_def\<close>)
qed

text \<open>What every header gives: the objects are multiples of 16 bytes and fit behind the header.\<close>

lemma header_geometry:
  assumes "header_ok h n fl" and "0 < n"
  shows "0 < slot_size h n" and "slot_size h n mod 16 = 0" and "0 < unat (sl_capacity h)"
    and "32 + unat (sl_capacity h) * slot_size h n \<le> n * 4096"
    and "n = 1 \<or> unat (sl_capacity h) = 1"
proof -
  consider (big) "sl_cache_index h = BIG_CACHE_INDEX"
    | (small) "sl_cache_index h \<noteq> BIG_CACHE_INDEX" "unat (sl_cache_index h) < 8" "n = 1"
      "sl_object_size h = cache_sizes ! unat (sl_cache_index h)" "unat (sl_capacity h) = 4064 div unat (sl_object_size h)"
    using assms(1) by (auto simp: header_ok_def split: if_splits)
  then have "0 < slot_size h n \<and> slot_size h n mod 16 = 0 \<and> 0 < unat (sl_capacity h) \<and>
    32 + unat (sl_capacity h) * slot_size h n \<le> n * 4096 \<and> (n = 1 \<or> unat (sl_capacity h) = 1)"
  proof cases
    case big
    then have "unat (sl_capacity h) = 1" "slot_size h n = n * 4096 - 32"
      using assms(1) by (auto simp: header_ok_def slot_size_def)
    moreover have "n * 4096 - 32 = 16 * (n * 256 - 2)" by (simp add: diff_mult_distrib2)
    then have "(n * 4096 - 32) mod 16 = 0" by simp
    ultimately show ?thesis using assms(2) by simp
  next
    case small
    define z where "z = slot_size h n"
    have z: "z = unat (cache_sizes ! unat (sl_cache_index h))" "unat (sl_capacity h) = 4064 div z"
      using small by (auto simp: z_def slot_size_def)
    have "z \<in> {16, 32, 64, 128, 256, 512, 1024, 2048}"
      unfolding z(1) using small(2) by (rule cache_sizes_cases) simp_all
    then show ?thesis unfolding z_def [symmetric] z(2) using small(3) by auto
  qed
  then show "0 < slot_size h n" "slot_size h n mod 16 = 0" "0 < unat (sl_capacity h)"
    "32 + unat (sl_capacity h) * slot_size h n \<le> n * 4096" "n = 1 \<or> unat (sl_capacity h) = 1"
    by blast+
qed

text \<open>The place of a slot in memory.\<close>

lemma slot_place:
  assumes ok: "slab_ok s a n fl" and hh: "hhdm_ok s" and p: "p \<in> slots a (slab_at s a) n"
  obtains k where "k < unat (sl_capacity (slab_at s a))"
    "unat p = unat a + 32 + k * slot_size (slab_at s a) n"
    "32 + (k + 1) * slot_size (slab_at s a) n \<le> n * 4096"
    "32 + k * slot_size (slab_at s a) n < 4096"
    "p = a + of_nat (32 + k * slot_size (slab_at s a) n)"
proof -
  let ?h = "slab_at s a"
  from p obtain k where k: "k < unat (sl_capacity ?h)" "p = a + of_nat (32 + k * slot_size ?h n)"
    by (auto simp: slots_def)
  note g = header_geometry [of ?h n fl]
  have h: "header_ok ?h n fl" "0 < n" using ok by (auto simp: slab_ok_def)
  have "(k + 1) * slot_size ?h n \<le> unat (sl_capacity ?h) * slot_size ?h n"
    using k(1) by (intro mult_le_mono1) simp
  then have le: "32 + (k + 1) * slot_size ?h n \<le> n * 4096" using g(4) [OF h] by linarith
  have lt: "32 + k * slot_size ?h n < 4096"
  proof (cases "n = 1")
    case True
    then show ?thesis using le g(1) [OF h] by simp
  next
    case False
    then show ?thesis using g(5) [OF h] k(1) by simp
  qed
  have "unat a = unat (hhdm_offset s) + 4096 * frame_no s a"
    using ok unat_frame_va [OF hh, of "frame_no s a"] by (auto simp: slab_ok_def)
  moreover have "frame_no s a + n \<le> unat (max_pfn s) + 1" using ok by (simp add: slab_ok_def)
  ultimately have top: "unat a + 4096 * n < 2 ^ 64" using hh by (auto simp: hhdm_ok_def)
  have "unat (of_nat (32 + k * slot_size ?h n) :: u64) = 32 + k * slot_size ?h n"
    by (rule unat_of_nat_small) (use lt in simp)
  then have "unat p = unat a + (32 + k * slot_size ?h n)"
    unfolding k(2) using lt top h(2) by (subst unat_add_no_wrap) auto
  then show thesis using that [OF k(1)] le lt k(2) by simp
qed

lemma slab_base:
  assumes "slab_ok s a n fl" and "hhdm_ok s"
  shows "unat a = unat (hhdm_offset s) + 4096 * frame_no s a" and "unat a mod 4096 = 0"
    and "4096 \<le> unat a" and "unat a + 4096 * n < 2 ^ 64"
proof -
  show a: "unat a = unat (hhdm_offset s) + 4096 * frame_no s a"
    using assms unat_frame_va [OF assms(2), of "frame_no s a"] by (auto simp: slab_ok_def)
  show "unat a mod 4096 = 0" "4096 \<le> unat a" using assms(2) by (auto simp: hhdm_ok_def a)
  have "frame_no s a + n \<le> unat (max_pfn s) + 1" using assms(1) by (simp add: slab_ok_def)
  then show "unat a + 4096 * n < 2 ^ 64" using assms(2) by (auto simp: a hhdm_ok_def)
qed

lemma slot_page_base:
  assumes "slab_ok s a n fl" and "hhdm_ok s" and "p \<in> slots a (slab_at s a) n"
  shows "page_base p = a"
proof -
  obtain k where "unat p = unat a + 32 + k * slot_size (slab_at s a) n"
    "32 + k * slot_size (slab_at s a) n < 4096"
    by (rule slot_place [OF assms])
  moreover obtain q where "unat a = 4096 * q" using slab_base(2) [OF assms(1,2)] by auto
  ultimately have "unat p div 4096 * 4096 = unat a" by simp
  then show ?thesis by (simp add: page_base_def word_unat_eq_iff unat_ALIGN_DOWN)
qed

lemma slot_not_small: "slab_ok s a n fl \<Longrightarrow> hhdm_ok s \<Longrightarrow> p \<in> slots a (slab_at s a) n \<Longrightarrow> 4096 \<le> unat p"
  using slab_base(3) [of s a n fl] by (auto elim: slot_place [of s a n fl p])

text \<open>Two objects in use do not overlap.\<close>

lemma objects_apart:
  assumes r: "heap_rel s G cl" and p: "object s G p c" and q: "object s G q d" and ne: "p \<noteq> q"
  shows "unat p + c \<le> unat q \<or> unat q + d \<le> unat p"
proof -
  have hh: "hhdm_ok s" using r by (simp add: heap_rel_def)
  from p obtain a n fl where a: "G a = Some (n, fl)" "p \<in> slots a (slab_at s a) n" "c = slot_size (slab_at s a) n"
    by (auto simp: object_def)
  from q obtain b m gl where b: "G b = Some (m, gl)" "q \<in> slots b (slab_at s b) m" "d = slot_size (slab_at s b) m"
    by (auto simp: object_def)
  have oka: "slab_ok s a n fl" and okb: "slab_ok s b m gl" using r a b by (auto simp: heap_rel_def)
  obtain k where k: "unat p = unat a + 32 + k * c" "32 + (k + 1) * c \<le> n * 4096"
    "p = a + of_nat (32 + k * c)"
    by (rule slot_place [OF oka hh a(2)]) (auto simp: a)
  obtain l where l: "unat q = unat b + 32 + l * d" "32 + (l + 1) * d \<le> m * 4096"
    "q = b + of_nat (32 + l * d)"
    by (rule slot_place [OF okb hh b(2)]) (auto simp: b)
  show ?thesis
  proof (cases "a = b")
    case True
    then have e: "d = c" using a b by simp
    have "k \<noteq> l" using ne k(3) l(3) True e by auto
    then have "(k + 1) * c \<le> l * c \<or> (l + 1) * c \<le> k * c"
      using mult_le_mono1 [of "k + 1" l c] mult_le_mono1 [of "l + 1" k c] by linarith
    then show ?thesis using k(1) l(1) True e by auto
  next
    case False
    then have "frames s a n \<inter> frames s b m = {}" using r a b unfolding heap_rel_def by blast
    moreover have "frame_no s a \<in> frames s a n" "frame_no s b \<in> frames s b m"
      using oka okb by (auto simp: frames_def slab_ok_def)
    ultimately have "frame_no s a + n \<le> frame_no s b \<or> frame_no s b + m \<le> frame_no s a"
      by (auto simp: frames_def)
    then show ?thesis
      using k l slab_base(1) [OF oka hh] slab_base(1) [OF okb hh] by auto
  qed
qed

section \<open>Steps that touch one slab\<close>

text \<open>Two states with the same page allocator.\<close>

definition pmm_eq :: "'b kheap_scheme \<Rightarrow> 'b kheap_scheme \<Rightarrow> bool" where
  "pmm_eq s t \<longleftrightarrow> mem_map t = mem_map s \<and> max_pfn t = max_pfn s \<and> hhdm_offset t = hhdm_offset s \<and>
     page_at t = page_at s \<and> free_list t = free_list s \<and> free_pages t = free_pages s \<and> pmm_lock t = pmm_lock s"

lemma pmm_eq_facts:
  assumes "pmm_eq s t"
  shows "pmm_ready t = pmm_ready s" and "last_ref t = last_ref s" and "frees t = frees s"
    and "hhdm_ok t = hhdm_ok s" and "frame_no t = frame_no s" and "frame_va t = frame_va s"
    and "frames t = frames s" and "page_ptr t = page_ptr s" and "max_pfn t = max_pfn s"
proof -
  have db: "db_page t = db_page s" "db_wf t = db_wf s"
    using assms by (auto simp: pmm_eq_def db_page_def page_ptr_def db_wf_def fun_eq_iff)
  show "pmm_ready t = pmm_ready s" "last_ref t = last_ref s" "frees t = frees s"
    using assms db by (simp_all add: pmm_eq_def pmm_ready_def pmm_idle_def pmm_rel_def frees_def last_ref_def)
  show "hhdm_ok t = hhdm_ok s" "frame_no t = frame_no s" "frame_va t = frame_va s"
    "page_ptr t = page_ptr s" "max_pfn t = max_pfn s"
    using assms by (auto simp: pmm_eq_def hhdm_ok_def frame_no_def frame_va_def PHYS_TO_VIRT_def page_ptr_def fun_eq_iff)
  then show "frames t = frames s" by (simp add: frames_def fun_eq_iff)
qed

lemma pmm_eq_refl [simp]: "pmm_eq s s"
  by (simp add: pmm_eq_def)

lemma pmm_eq_trans: "pmm_eq s t \<Longrightarrow> pmm_eq t u \<Longrightarrow> pmm_eq s u"
  by (simp add: pmm_eq_def)

text \<open>The header of a slab apart from its link, and what depends on nothing else.\<close>

definition same_header :: "slab \<Rightarrow> slab \<Rightarrow> bool" where
  "same_header h h' \<longleftrightarrow> h' = h\<lparr>sl_next := sl_next h'\<rparr>"

lemma same_header_fields:
  assumes "same_header h h'"
  shows "sl_free_list h' = sl_free_list h" "sl_cache_index h' = sl_cache_index h" "slots a h' n = slots a h n"
    "slot_size h' n = slot_size h n" "header_ok h' n fl = header_ok h n fl"
    "sl_capacity h' = sl_capacity h" "sl_free_count h' = sl_free_count h"
proof -
  obtain x where h': "h' = h\<lparr>sl_next := x\<rparr>" using assms by (auto simp: same_header_def)
  show "sl_free_list h' = sl_free_list h" "sl_cache_index h' = sl_cache_index h" "slots a h' n = slots a h n"
    "slot_size h' n = slot_size h n" "header_ok h' n fl = header_ok h n fl"
    "sl_capacity h' = sl_capacity h" "sl_free_count h' = sl_free_count h"
    by (simp_all add: h' slots_def slot_size_def header_ok_def)
qed

lemma slots_upd [simp]:
  "slot_size (h\<lparr>sl_free_list := v\<rparr>) n = slot_size h n" "slot_size (h\<lparr>sl_free_count := c\<rparr>) n = slot_size h n"
  "slots a (h\<lparr>sl_free_list := v\<rparr>) n = slots a h n" "slots a (h\<lparr>sl_free_count := c\<rparr>) n = slots a h n"
  by (simp_all add: slots_def slot_size_def)

lemma same_header_refl [simp]: "same_header h h"
  by (simp add: same_header_def)

lemma slots_apart:
  assumes "heap_rel s G cl" and "G a = Some (n, fl)" and "G b = Some (m, gl)" and "a \<noteq> b"
    and "p \<in> slots a (slab_at s a) n"
  shows "p \<notin> slots b (slab_at s b) m"
  using assms slot_page_base [of s a n fl p] slot_page_base [of s b m gl p] by (auto simp: heap_rel_def)

text \<open>A step that changes the free list of one slab, and the slab lists of the caches.\<close>

lemma heap_rel_slab:
  assumes r: "heap_rel s G cl" and a: "G a = Some (n, fl)" and e: "pmm_eq s t"
    and others: "\<And>b. b \<noteq> a \<Longrightarrow> same_header (slab_at s b) (slab_at t b)"
    and links: "\<And>p. p \<notin> slots a (slab_at s a) n \<Longrightarrow> link_at t p = link_at s p"
    and ok: "slab_ok t a n gl" and c: "caches_ok t (G(a \<mapsto> (n, gl))) cl'"
  shows "heap_rel t (G(a \<mapsto> (n, gl))) cl'"
proof -
  note f = pmm_eq_facts [OF e]
  have "slab_ok t b m hl" if b: "G b = Some (m, hl)" "b \<noteq> a" for b m hl
  proof -
    have okb: "slab_ok s b m hl" using r b by (simp add: heap_rel_def)
    note h = same_header_fields [OF others [OF b(2)]]
    have "chain (link_at t) (sl_free_list (slab_at s b)) hl = chain (link_at s) (sl_free_list (slab_at s b)) hl"
    proof (rule chain_cong, rule links)
      fix p assume "p \<in> set hl"
      then have "p \<in> slots b (slab_at s b) m" using okb by (auto simp: slab_ok_def)
      then show "p \<notin> slots a (slab_at s a) n" using slots_apart [OF r b(1) a b(2)] by simp
    qed
    then show ?thesis using okb by (simp add: slab_ok_def f h)
  qed
  moreover have "frames s a' n' \<inter> frames s b' m' = {}"
    if "(G(a \<mapsto> (n, gl))) a' = Some (n', fl')" "(G(a \<mapsto> (n, gl))) b' = Some (m', gl')" "a' \<noteq> b'" for a' b' n' m' fl' gl'
  proof -
    have "\<exists>fl. G a' = Some (n', fl)" "\<exists>fl. G b' = Some (m', fl)" using that a by (auto split: if_splits)
    then show ?thesis using r that(3) unfolding heap_rel_def by blast
  qed
  ultimately show ?thesis using r ok c by (simp add: heap_rel_def f)
qed

text \<open>The objects in use after such a step.\<close>

lemma object_slab:
  assumes r: "heap_rel s G cl" and a: "G a = Some (n, fl)"
    and others: "\<And>b. b \<noteq> a \<Longrightarrow> same_header (slab_at s b) (slab_at t b)"
    and sl: "slots a (slab_at t a) n = slots a (slab_at s a) n" "slot_size (slab_at t a) n = slot_size (slab_at s a) n"
  shows "object t (G(a \<mapsto> (n, gl))) p c \<longleftrightarrow>
    (if p \<in> slots a (slab_at s a) n then p \<notin> set gl \<and> c = slot_size (slab_at s a) n else object s G p c)"
proof (cases "p \<in> slots a (slab_at s a) n")
  case True
  then have "b = a" if "G b = Some (m, hl)" "p \<in> slots b (slab_at t b) m" for b m hl
    using that slots_apart [OF r a that(1)] same_header_fields(3) [OF others] by metis
  then show ?thesis using True sl by (auto simp: object_def split: if_splits)
next
  case False
  have "slots b (slab_at t b) m = slots b (slab_at s b) m" "slot_size (slab_at t b) m = slot_size (slab_at s b) m"
    if "b \<noteq> a" for b m
    using same_header_fields [OF others [OF that]] by auto
  then have "(\<exists>m hl. (G(a \<mapsto> (n, gl))) b = Some (m, hl) \<and> p \<in> slots b (slab_at t b) m \<and> p \<notin> set hl \<and> c = slot_size (slab_at t b) m) \<longleftrightarrow>
      (\<exists>m hl. G b = Some (m, hl) \<and> p \<in> slots b (slab_at s b) m \<and> p \<notin> set hl \<and> c = slot_size (slab_at s b) m)" for b
    by (cases "b = a") (use False sl(1) a in simp_all)
  then show ?thesis using False by (simp add: object_def)
qed

section \<open>The slab lists\<close>

lemma upd_fields [simp]:
  "slab_at (upd_slab a f s) = (slab_at s)(a := f (slab_at s a))" "caches (upd_slab a f s) = caches s"
  "link_at (upd_slab a f s) = link_at s" "heap_mem (upd_slab a f s) = heap_mem s"
  "kheap_lock (upd_slab a f s) = kheap_lock s" "pmm_eq t (upd_slab a f s) = pmm_eq t s"
  "caches (upd_cache i g s) = (caches s)(i := g (caches s i))" "slab_at (upd_cache i g s) = slab_at s"
  "link_at (upd_cache i g s) = link_at s" "heap_mem (upd_cache i g s) = heap_mem s"
  "kheap_lock (upd_cache i g s) = kheap_lock s" "pmm_eq t (upd_cache i g s) = pmm_eq t s"
  "slab_at (set_link p v s) = slab_at s" "caches (set_link p v s) = caches s"
  "link_at (set_link p v s) = (link_at s)(p := v)" "heap_mem (set_link p v s) = heap_mem s"
  "kheap_lock (set_link p v s) = kheap_lock s" "pmm_eq t (set_link p v s) = pmm_eq t s"
  by (simp_all add: upd_slab_def upd_cache_def set_link_def pmm_eq_def)

text \<open>A step that leaves the page allocator, the objects and the memory of the heap alone and changes
  at most the links between slabs.\<close>

definition links_only :: "'b kheap_scheme \<Rightarrow> 'b kheap_scheme \<Rightarrow> bool" where
  "links_only s t \<longleftrightarrow> pmm_eq s t \<and> link_at t = link_at s \<and> heap_mem t = heap_mem s \<and> kheap_lock t = kheap_lock s \<and>
     (\<forall>b. same_header (slab_at s b) (slab_at t b))"

lemma unlink_slab_links: "links_only s (unlink_slab i prev cur s)"
  by (auto simp: links_only_def unlink_slab_def Let_def same_header_def)

lemma unlink_slab_cache:
  assumes "chain (\<lambda>b. sl_next (slab_at s b)) (c_slabs (caches s i)) (xs @ a # ys)" and "distinct (xs @ a # ys)"
    and "c_slab_count (caches s i) = of_nat (length (xs @ a # ys))" and "length (xs @ a # ys) < 2 ^ 32"
    and "t = unlink_slab i (if xs = [] then NULL else last xs) a s"
  shows "chain (\<lambda>b. sl_next (slab_at t b)) (c_slabs (caches t i)) (xs @ ys)"
    and "c_slab_count (caches t i) = of_nat (length (xs @ ys))"
    and "c_object_size (caches t i) = c_object_size (caches s i)"
    and "\<And>j. j \<noteq> i \<Longrightarrow> caches t j = caches s j"
    and "\<And>b. b \<notin> set (xs @ a # ys) \<Longrightarrow> slab_at t b = slab_at s b"
proof -
  have nn: "xs \<noteq> [] \<Longrightarrow> last xs \<noteq> NULL" "a \<noteq> NULL" "xs \<noteq> [] \<Longrightarrow> last xs \<noteq> a"
    using chain_not_NULL [OF assms(1)] assms(2) last_in_set [of xs] by fastforce+
  have "unat (c_slab_count (caches s i)) = length (xs @ a # ys)"
    unfolding assms(3) by (rule unat_of_nat_small) (use assms(4) in simp)
  then have pos: "0 < c_slab_count (caches s i)" by (simp add: word_less_nat_alt)
  have cnt: "c_slab_count (caches s i) - 1 = of_nat (length (xs @ ys))" using assms(3) by simp
  have h: "c_slabs (caches t i) = (if xs = [] then sl_next (slab_at s a) else c_slabs (caches s i))"
    using nn pos by (simp add: assms(5) unlink_slab_def Let_def)
  show "chain (\<lambda>b. sl_next (slab_at t b)) (c_slabs (caches t i)) (xs @ ys)"
    unfolding h
    by (rule chain_unlink [OF assms(1,2)])
      (use nn pos assms(2) in \<open>auto simp: assms(5) unlink_slab_def Let_def\<close>)
  show "c_slab_count (caches t i) = of_nat (length (xs @ ys))"
    using nn pos cnt by (simp add: assms(5) unlink_slab_def Let_def)
  show "c_object_size (caches t i) = c_object_size (caches s i)"
    by (simp add: assms(5) unlink_slab_def Let_def)
  show "caches t j = caches s j" if "j \<noteq> i" for j
    using that by (simp add: assms(5) unlink_slab_def Let_def)
  show "slab_at t b = slab_at s b" if "b \<notin> set (xs @ a # ys)" for b
    using that nn last_in_set [of xs] by (auto simp: assms(5) unlink_slab_def Let_def)
qed

lemma remove_loop_chain:
  "chain (\<lambda>b. sl_next (slab_at s b)) cur (xs @ a # ys) \<Longrightarrow> a \<notin> set xs \<Longrightarrow>
   remove_loop i a prev cur s = Some (unlink_slab i (if xs = [] then prev else last xs) a s)"
proof (induction xs arbitrary: prev cur)
  case Nil
  then show ?case by (simp add: remove_loop.simps)
next
  case (Cons y xs)
  then have "remove_loop i a prev cur s = remove_loop i a y (sl_next (slab_at s y)) s"
    by (subst remove_loop.simps) auto
  with Cons show ?case by auto
qed

text \<open>The number of slabs of a cache is bounded by the number of frames.\<close>

lemma cache_length:
  assumes r: "heap_rel s G cl" and i: "i < 8"
  shows "length (cl i) < 2 ^ 32"
proof -
  have c: "distinct (cl i)" "\<And>a. a \<in> set (cl i) \<Longrightarrow> \<exists>n fl. G a = Some (n, fl)"
    using r i by (auto simp: heap_rel_def caches_ok_def)
  have "set (cl i) \<subseteq> frame_va s ` {0 .. unat (max_pfn s)}"
  proof
    fix a assume "a \<in> set (cl i)"
    then obtain n fl where "G a = Some (n, fl)" using c(2) by blast
    then have "slab_ok s a n fl" using r by (simp add: heap_rel_def)
    then have "a = frame_va s (frame_no s a)" "frame_no s a \<le> unat (max_pfn s)" by (auto simp: slab_ok_def)
    then show "a \<in> frame_va s ` {0 .. unat (max_pfn s)}" by auto
  qed
  then have "card (set (cl i)) \<le> card {0 .. unat (max_pfn s)}" by (rule surj_card_le [OF finite_atLeastAtMost])
  then have "length (cl i) \<le> unat (max_pfn s) + 1" using c(1) by (simp add: distinct_card)
  then show ?thesis using r by (auto simp: heap_rel_def hhdm_ok_def)
qed

section \<open>Taking and returning an object\<close>

lemma slots_length:
  assumes "distinct fl" and "set fl \<subseteq> slots a h n"
  shows "length fl \<le> unat (sl_capacity h)"
proof -
  have "card (set fl) \<le> card (slots a h n)" using assms(2) by (intro card_mono) (auto simp: slots_def)
  also have "\<dots> \<le> unat (sl_capacity h)" unfolding slots_def by (rule order_trans [OF card_image_le]) auto
  finally show ?thesis using assms(1) by (simp add: distinct_card)
qed

lemma free_list_length:
  assumes "slab_ok s a n fl"
  shows "length fl \<le> unat (sl_capacity (slab_at s a))" and "unat (sl_free_count (slab_at s a)) = length fl"
proof -
  show l: "length fl \<le> unat (sl_capacity (slab_at s a))"
    using assms slots_length by (auto simp: slab_ok_def)
  show "unat (sl_free_count (slab_at s a)) = length fl"
    using assms unat_of_nat_le [OF l] by (simp add: slab_ok_def header_ok_def)
qed

definition popped :: "u64 \<Rightarrow> u64 \<Rightarrow> 'b kheap_scheme \<Rightarrow> 'b kheap_scheme" where
  "popped a x s = upd_slab a (\<lambda>h. h\<lparr>sl_free_list := link_at s x, sl_free_count := sl_free_count h - 1\<rparr>) s"

lemma popped_fields [simp]:
  "link_at (popped a x s) = link_at s" "heap_mem (popped a x s) = heap_mem s" "caches (popped a x s) = caches s"
  "kheap_lock (popped a x s) = kheap_lock s" "pmm_eq t (popped a x s) = pmm_eq t s"
  "b \<noteq> a \<Longrightarrow> slab_at (popped a x s) b = slab_at s b"
  "sl_next (slab_at (popped a x s) b) = sl_next (slab_at s b)"
  "sl_cache_index (slab_at (popped a x s) b) = sl_cache_index (slab_at s b)"
  "slots a' (slab_at (popped a x s) b) n = slots a' (slab_at s b) n"
  "slot_size (slab_at (popped a x s) b) n = slot_size (slab_at s b) n"
  by (simp_all add: popped_def slots_def slot_size_def)

lemma slab_ok_popped:
  assumes "slab_ok s a n (x # fl)"
  shows "slab_ok (popped a x s) a n fl"
proof -
  note f = pmm_eq_facts [of s "popped a x s", simplified]
  have "header_ok (slab_at s a) n (x # fl)" using assms by (simp add: slab_ok_def)
  then have "header_ok (slab_at (popped a x s) a) n fl"
    by (simp add: header_ok_def popped_def split: if_splits)
  then show ?thesis using assms by (simp add: slab_ok_def f) (simp add: popped_def)
qed

text \<open>The statements of \<^verbatim>\<open>kmalloc\<close> that take the object: the two diagnostics never fire.\<close>

lemma take_object_eq:
  assumes ok: "slab_ok s a n (x # fl)" and hh: "hhdm_ok s"
  shows "take_object i a s =
    map_option (Pair x) (if fl = [] then cache_remove_slab i a (popped a x s) else Some (popped a x s))"
proof -
  have x: "sl_free_list (slab_at s a) = x" "chain (link_at s) (link_at s x) fl" "x \<in> slots a (slab_at s a) n"
    "set fl \<subseteq> slots a (slab_at s a) n"
    using ok by (auto simp: slab_ok_def)
  have big: "\<not> p < 0x1000" if "p \<in> slots a (slab_at s a) n" for p
    using slot_not_small [OF ok hh that] by (simp add: word_less_nat_alt)
  have nx: "link_at s x = (if fl = [] then NULL else hd fl)" using chain_head [OF x(2)] .
  then have nxb: "\<not> (link_at s x \<noteq> 0 \<and> link_at s x < 0x1000)"
    using big [of "hd fl"] subsetD [OF x(4), of "hd fl"] by (cases "fl = []") auto
  have fc: "unat (sl_free_count (slab_at s a)) = Suc (length fl)" using free_list_length(2) [OF ok] by simp
  then have pos: "0 < sl_free_count (slab_at s a)" by (simp add: word_less_nat_alt)
  then have "unat (sl_free_count (slab_at s a) - 1) = length fl"
    using fc by (simp add: unat_minus_one word_gt_0)
  then have z: "sl_free_count (slab_at s a) - 1 = 0 \<longleftrightarrow> fl = []" by (metis length_0_conv unat_eq_zero)
  have eq: "upd_slab a (\<lambda>h. h\<lparr>sl_free_count := sl_free_count h - 1\<rparr>) (upd_slab a (\<lambda>h. h\<lparr>sl_free_list := link_at s x\<rparr>) s) = popped a x s"
    by (simp add: popped_def upd_slab_def)
  have cnt: "sl_free_count (slab_at (popped a x s) a) = 0 \<longleftrightarrow> fl = []" using z by (simp add: popped_def)
  have sel: "sl_free_list (h\<lparr>sl_free_list := v\<rparr>) = v" "sl_free_count (h\<lparr>sl_free_list := v\<rparr>) = sl_free_count h" for h v
    by simp_all
  show ?thesis
    unfolding take_object_def Let_def x(1) if_not_P [OF big [OF x(3)]]
    by (simp only: upd_fields fun_upd_same sel if_not_P [OF nxb] pos if_True eq cnt)
qed

lemma caches_ok_slab:
  assumes c: "caches_ok s G cl" and a: "G a = Some (n, fl)" and ne: "fl \<noteq> []" "gl \<noteq> []"
    and t: "caches t = caches s" "\<And>b. sl_next (slab_at t b) = sl_next (slab_at s b)"
      "\<And>b. sl_cache_index (slab_at t b) = sl_cache_index (slab_at s b)"
  shows "caches_ok t (G(a \<mapsto> (n, gl))) cl"
  using assms by (auto simp: caches_ok_def)

text \<open>A slab leaves the list of its cache when its last free object is taken, or with its page.\<close>

lemma cache_remove_slab_ok:
  assumes c: "caches_ok s G cl" and i: "i < 8" and a: "a \<in> set (cl i)" and len: "length (cl i) < 2 ^ 32"
    and G': "\<And>b. b \<noteq> a \<Longrightarrow> G' b = G b" "\<And>n fl. G' a = Some (n, fl) \<Longrightarrow> fl = []"
  shows "\<exists>t. cache_remove_slab i a s = Some t \<and> caches_ok t G' (cl(i := remove1 a (cl i))) \<and> links_only s t"
proof -
  obtain xs ys where cl: "cl i = xs @ a # ys" "a \<notin> set xs" using a by (meson split_list_first)
  have ci: "chain (\<lambda>b. sl_next (slab_at s b)) (c_slabs (caches s i)) (cl i)" "distinct (cl i)"
    "c_slab_count (caches s i) = of_nat (length (cl i))" "c_object_size (caches s i) = cache_sizes ! i"
    using c i by (auto simp: caches_ok_def)
  define t where "t = unlink_slab i (if xs = [] then NULL else last xs) a s"
  have run: "cache_remove_slab i a s = Some t"
    unfolding cache_remove_slab_def t_def using ci(1) cl by (intro remove_loop_chain) auto
  note u = unlink_slab_cache [OF _ _ _ _ t_def, of ys]
  have lo: "links_only s t" unfolding t_def by (rule unlink_slab_links)
  have idx: "sl_cache_index (slab_at t b) = sl_cache_index (slab_at s b)" for b
    using lo same_header_fields(2) by (auto simp: links_only_def)
  have mem: "b \<in> set (cl j) \<longleftrightarrow> (\<exists>n fl. G b = Some (n, fl) \<and> fl \<noteq> [] \<and> unat (sl_cache_index (slab_at s b)) = j)" if "j < 8" for b j
    using c that by (simp add: caches_ok_def)
  have ia: "unat (sl_cache_index (slab_at s a)) = i" using mem [OF i, of a] a by blast
  have rm: "remove1 a (cl i) = xs @ ys" using cl by (simp add: remove1_append)
  have "c_object_size (caches t j) = cache_sizes ! j \<and>
     chain (\<lambda>a. sl_next (slab_at t a)) (c_slabs (caches t j)) ((cl(i := xs @ ys)) j) \<and> distinct ((cl(i := xs @ ys)) j) \<and>
     c_slab_count (caches t j) = of_nat (length ((cl(i := xs @ ys)) j))" if "j < 8" for j
  proof (cases "j = i")
    case True
    then show ?thesis using u [of] ci cl(1) len by simp
  next
    case False
    have "a' \<notin> set (xs @ a # ys)" if "a' \<in> set (cl j)" for a'
      using that mem [OF \<open>j < 8\<close>, of a'] mem [OF i, of a'] False cl(1) by auto
    then have "chain (\<lambda>b. sl_next (slab_at t b)) (c_slabs (caches s j)) (cl j) =
        chain (\<lambda>b. sl_next (slab_at s b)) (c_slabs (caches s j)) (cl j)"
      using u(5) ci cl(1) len by (intro chain_cong) simp
    moreover have "caches t j = caches s j" using u(4) ci cl(1) len False by simp
    ultimately show ?thesis using c that False by (simp add: caches_ok_def)
  qed
  moreover have "b \<in> set ((cl(i := xs @ ys)) j) \<longleftrightarrow>
      (\<exists>n fl. G' b = Some (n, fl) \<and> fl \<noteq> [] \<and> unat (sl_cache_index (slab_at t b)) = j)" if "j < 8" for b j
  proof (cases "b = a")
    case True
    have "a \<notin> set (xs @ ys)" using ci(2) cl by auto
    then show ?thesis using True G'(2) mem [OF that, of a] ia by (cases "j = i") auto
  next
    case False
    then have "b \<in> set ((cl(i := xs @ ys)) j) \<longleftrightarrow> b \<in> set (cl j)" using cl by auto
    then show ?thesis using mem [OF that, of b] G'(1) [OF False] by (simp add: idx)
  qed
  ultimately have "caches_ok t G' (cl(i := xs @ ys))" unfolding caches_ok_def by blast
  then show ?thesis using run lo rm by auto
qed

lemma object_in_slab:
  assumes "heap_rel s G cl" and "G a = Some (n, fl)" and "p \<in> slots a (slab_at s a) n"
  shows "object s G p c \<longleftrightarrow> p \<notin> set fl \<and> c = slot_size (slab_at s a) n"
  using object_slab [OF assms(1,2), of s fl p c] assms(2,3) by (simp add: fun_upd_idem)

lemma links_only_ok:
  assumes "links_only s t"
  shows "slab_ok t a n fl = slab_ok s a n fl"
proof -
  note f = pmm_eq_facts [of s t]
  have "pmm_eq s t" "link_at t = link_at s" "same_header (slab_at s a) (slab_at t a)" using assms by (auto simp: links_only_def)
  then show ?thesis by (simp add: slab_ok_def f same_header_fields)
qed

lemma same_header_trans: "same_header h h' \<Longrightarrow> same_header h' h'' \<Longrightarrow> same_header h h''"
  unfolding same_header_def by (metis slab.surjective slab.update_convs(1))

lemma take_object_rel:
  assumes r: "heap_rel s G cl" and a: "G a = Some (n, x # fl)" and i: "unat (sl_cache_index (slab_at s a)) = i" "i < 8"
  shows "\<exists>t cl'. take_object i a s = Some (x, t) \<and> heap_rel t (G(a \<mapsto> (n, fl))) cl' \<and> pmm_eq s t \<and>
    heap_mem t = heap_mem s \<and> kheap_lock t = kheap_lock s \<and>
    (\<forall>p c. object t (G(a \<mapsto> (n, fl))) p c \<longleftrightarrow> p = x \<and> c = slot_size (slab_at s a) n \<or> object s G p c)"
proof -
  have ok: "slab_ok s a n (x # fl)" and hh: "hhdm_ok s" and c: "caches_ok s G cl"
    using r a by (auto simp: heap_rel_def)
  let ?s = "popped a x s" and ?G = "G(a \<mapsto> (n, fl))"
  have "\<exists>t cl'. (if fl = [] then cache_remove_slab i a ?s else Some ?s) = Some t \<and> caches_ok t ?G cl' \<and> links_only ?s t"
  proof (cases "fl = []")
    case True
    have "caches_ok ?s G cl" using c by (simp add: caches_ok_def)
    moreover have "a \<in> set (cl i)" using c a i by (auto simp: caches_ok_def)
    ultimately have "\<exists>t. cache_remove_slab i a ?s = Some t \<and> caches_ok t ?G (cl(i := remove1 a (cl i))) \<and> links_only ?s t"
      using i(2) cache_length [OF r i(2)] True by (intro cache_remove_slab_ok [where G = G]) auto
    with True show ?thesis by auto
  next
    case False
    then have "caches_ok ?s ?G cl" by (intro caches_ok_slab [OF c a]) auto
    with False show ?thesis by (auto simp: links_only_def)
  qed
  then obtain t cl' where t: "take_object i a s = Some (x, t)" "caches_ok t ?G cl'" "links_only ?s t"
    by (auto simp: take_object_eq [OF ok hh])
  have hd: "same_header (slab_at ?s b) (slab_at t b)" for b using t(3) by (simp add: links_only_def)
  have others: "same_header (slab_at s b) (slab_at t b)" if "b \<noteq> a" for b using hd [of b] that by simp
  have st: "slots a (slab_at t a) n = slots a (slab_at s a) n" "slot_size (slab_at t a) n = slot_size (slab_at s a) n"
    using same_header_fields(3,4) [OF hd [of a]] by simp_all
  have e: "pmm_eq s t" "link_at t = link_at s" "heap_mem t = heap_mem s" "kheap_lock t = kheap_lock s"
    using t(3) pmm_eq_trans [of s ?s t] by (auto simp: links_only_def)
  have "slab_ok t a n fl" using links_only_ok [OF t(3)] slab_ok_popped [OF ok] by simp
  from heap_rel_slab [OF r a e(1) others _ this t(2)] e(2) have h: "heap_rel t ?G cl'" by simp
  have x: "x \<in> slots a (slab_at s a) n" "x \<notin> set fl" using ok by (auto simp: slab_ok_def)
  have "object t ?G p c \<longleftrightarrow> p = x \<and> c = slot_size (slab_at s a) n \<or> object s G p c" for p c
    using object_slab [OF r a others st, of fl p c] object_in_slab [OF r a, of p c] x by auto
  with t(1) h e show ?thesis by blast
qed

text \<open>Returning an object to its slab: \<open>returned\<close> is the state with the object on the free list, before
  the slab is perhaps given back.\<close>

definition returned :: "nat \<Rightarrow> u64 \<Rightarrow> u64 \<Rightarrow> 'b kheap_scheme \<Rightarrow> 'b kheap_scheme" where
  "returned i a p s =
     (let s2 = (if sl_free_count (slab_at s a) = 0 then cache_add_slab i a s else s); s3 = push_free a p s2
      in if sl_free_count (slab_at s3 a) < sl_capacity (slab_at s3 a)
         then upd_slab a (\<lambda>x. x\<lparr>sl_free_count := sl_free_count x + 1\<rparr>) s3 else s3)"

lemma cache_add_slab_ok:
  assumes c: "caches_ok s G cl" and i: "i < 8" and a: "\<And>j. j < 8 \<Longrightarrow> a \<notin> set (cl j)" and nn: "a \<noteq> NULL"
    and idx: "unat (sl_cache_index (slab_at s a)) = i"
    and G': "\<And>b. b \<noteq> a \<Longrightarrow> G' b = G b" "G' a = Some (n, fl)" "fl \<noteq> []"
  shows "caches_ok (cache_add_slab i a s) G' (cl(i := a # cl i)) \<and> links_only s (cache_add_slab i a s)"
proof -
  let ?t = "cache_add_slab i a s"
  have lo: "links_only s ?t"
    by (auto simp: links_only_def cache_add_slab_def Let_def same_header_def)
  have nx: "sl_next (slab_at ?t b) = (if b = a then c_slabs (caches s i) else sl_next (slab_at s b))"
    "sl_cache_index (slab_at ?t b) = sl_cache_index (slab_at s b)" for b
    by (auto simp: cache_add_slab_def Let_def)
  have ca: "caches ?t j = (if j = i then (caches s i)\<lparr>c_slabs := a, c_slab_count := c_slab_count (caches s i) + 1\<rparr> else caches s j)" for j
    by (simp add: cache_add_slab_def Let_def)
  have mem: "b \<in> set (cl j) \<longleftrightarrow> (\<exists>n fl. G b = Some (n, fl) \<and> fl \<noteq> [] \<and> unat (sl_cache_index (slab_at s b)) = j)" if "j < 8" for b j
    using c that by (simp add: caches_ok_def)
  have cj: "chain (\<lambda>b. if b = a then c_slabs (caches s i) else sl_next (slab_at s b)) h (cl j) = chain (\<lambda>b. sl_next (slab_at s b)) h (cl j)" if "j < 8" for j h
    using a [OF that] by (intro chain_cong) (auto simp: nx)
  have "c_object_size (caches ?t j) = cache_sizes ! j \<and>
     chain (\<lambda>a. sl_next (slab_at ?t a)) (c_slabs (caches ?t j)) ((cl(i := a # cl i)) j) \<and> distinct ((cl(i := a # cl i)) j) \<and>
     c_slab_count (caches ?t j) = of_nat (length ((cl(i := a # cl i)) j))" if "j < 8" for j
    using c that a [OF that] nn by (cases "j = i") (simp_all add: caches_ok_def ca nx cj)
  moreover have "b \<in> set ((cl(i := a # cl i)) j) \<longleftrightarrow>
      (\<exists>n fl. G' b = Some (n, fl) \<and> fl \<noteq> [] \<and> unat (sl_cache_index (slab_at ?t b)) = j)" if "j < 8" for b j
  proof (cases "b = a")
    case True
    then show ?thesis using G'(2,3) a [OF that] idx by (auto simp: nx)
  next
    case False
    then have "b \<in> set ((cl(i := a # cl i)) j) \<longleftrightarrow> b \<in> set (cl j)" by auto
    then show ?thesis using mem [OF that, of b] G'(1) [OF False] by (simp add: nx)
  qed
  ultimately have "caches_ok ?t G' (cl(i := a # cl i))" unfolding caches_ok_def by blast
  with lo show ?thesis by blast
qed

lemma returned_rel:
  assumes r: "heap_rel s G cl" and a: "G a = Some (n, fl)" and p: "p \<in> slots a (slab_at s a) n" "p \<notin> set fl"
    and i: "unat (sl_cache_index (slab_at s a)) = i" "i < 8"
  shows "\<exists>cl'. heap_rel (returned i a p s) (G(a \<mapsto> (n, p # fl))) cl' \<and> pmm_eq s (returned i a p s) \<and>
    heap_mem (returned i a p s) = heap_mem s \<and> kheap_lock (returned i a p s) = kheap_lock s \<and>
    sl_cache_index (slab_at (returned i a p s) a) = sl_cache_index (slab_at s a) \<and>
    (\<forall>q c. object (returned i a p s) (G(a \<mapsto> (n, p # fl))) q c \<longleftrightarrow> q \<noteq> p \<and> object s G q c)"
proof -
  have ok: "slab_ok s a n fl" and hh: "hhdm_ok s" and c: "caches_ok s G cl"
    using r a by (auto simp: heap_rel_def)
  let ?G = "G(a \<mapsto> (n, p # fl))" and ?t = "returned i a p s"
  define s2 where "s2 = (if sl_free_count (slab_at s a) = 0 then cache_add_slab i a s else s)"
  have fc: "unat (sl_free_count (slab_at s a)) = length fl" by (rule free_list_length(2) [OF ok])
  have z: "sl_free_count (slab_at s a) = 0 \<longleftrightarrow> fl = []" using fc by (metis length_0_conv unat_eq_zero)
  have "\<exists>cl'. caches_ok s2 ?G cl' \<and> links_only s s2"
  proof (cases "fl = []")
    case True
    have "a \<notin> set (cl j)" if "j < 8" for j using c that a True by (auto simp: caches_ok_def)
    moreover have "a \<noteq> NULL" using slab_base(3) [OF ok hh] by auto
    ultimately have "caches_ok (cache_add_slab i a s) ?G (cl(i := a # cl i)) \<and> links_only s (cache_add_slab i a s)"
      using i by (intro cache_add_slab_ok [OF c]) auto
    with True z show ?thesis by (auto simp: s2_def)
  next
    case False
    then have "caches_ok s ?G cl" by (intro caches_ok_slab [OF c a]) auto
    with False z show ?thesis by (auto simp: s2_def links_only_def)
  qed
  then obtain cl' where c2: "caches_ok s2 ?G cl'" and lo: "links_only s s2" by blast
  have hd: "same_header (slab_at s b) (slab_at s2 b)" for b using lo by (simp add: links_only_def)
  have fl': "set (p # fl) \<subseteq> slots a (slab_at s a) n" "distinct (p # fl)" using ok p by (auto simp: slab_ok_def)
  have "length (p # fl) \<le> unat (sl_capacity (slab_at s a))" by (rule slots_length [OF fl'(2,1)])
  then have room: "sl_free_count (slab_at s a) < sl_capacity (slab_at s a)" using fc by (simp add: word_less_nat_alt)
  note h2 = same_header_fields [OF hd [of a]]
  have t: "?t = upd_slab a (\<lambda>x. x\<lparr>sl_free_list := p, sl_free_count := sl_free_count x + 1\<rparr>)
      (set_link p (sl_free_list (slab_at s a)) s2)"
    using room h2 by (simp add: returned_def s2_def [symmetric] push_free_def Let_def) (simp add: upd_slab_def)
  have e: "pmm_eq s ?t" "heap_mem ?t = heap_mem s" "kheap_lock ?t = kheap_lock s"
    "link_at ?t = (link_at s)(p := sl_free_list (slab_at s a))" "caches ?t = caches s2"
    using lo by (auto simp: t links_only_def)
  have others: "same_header (slab_at s b) (slab_at ?t b)" if "b \<noteq> a" for b using hd [of b] that by (simp add: t)
  have ta: "slots a (slab_at ?t a) n = slots a (slab_at s a) n" "slot_size (slab_at ?t a) n = slot_size (slab_at s a) n"
    using h2(3) [of a n] h2(4) [of n] by (simp_all add: t)
  have "sl_next (slab_at ?t b) = sl_next (slab_at s2 b)" "sl_cache_index (slab_at ?t b) = sl_cache_index (slab_at s2 b)" for b
    by (simp_all add: t)
  then have c': "caches_ok ?t ?G cl'" using c2 by (simp add: caches_ok_def e(5))
  have "header_ok (slab_at s2 a) n fl" using ok h2(5) [of n fl] by (simp add: slab_ok_def)
  moreover have "sl_cache_index (slab_at s a) \<noteq> BIG_CACHE_INDEX" using i by (auto simp: BIG_CACHE_INDEX_def)
  ultimately have "header_ok (slab_at ?t a) n (p # fl)" using h2(2) by (simp add: header_ok_def t)
  moreover have "chain (link_at ?t) (sl_free_list (slab_at s a)) fl = chain (link_at s) (sl_free_list (slab_at s a)) fl"
    using p(2) by (intro chain_cong) (auto simp: e)
  moreover have "p \<noteq> NULL" using slot_not_small [OF ok hh p(1)] by auto
  ultimately have okt: "slab_ok ?t a n (p # fl)"
    using ok fl' by (simp add: slab_ok_def pmm_eq_facts [OF e(1)] ta) (simp add: t)
  have "heap_rel ?t ?G cl'"
    by (rule heap_rel_slab [OF r a e(1) others _ okt c']) (use p(1) in \<open>auto simp: e(4)\<close>)
  moreover have "object ?t ?G q c \<longleftrightarrow> q \<noteq> p \<and> object s G q c" for q c
    using object_slab [OF r a others ta, of "p # fl" q c] object_in_slab [OF r a, of q c] p by auto
  moreover have "sl_cache_index (slab_at ?t a) = sl_cache_index (slab_at s a)" using h2(2) by (simp add: t)
  ultimately show ?thesis using e by blast
qed

section \<open>The page allocator leaves the heap alone\<close>

definition heap_view :: "'b kheap_scheme \<Rightarrow> (u64 \<Rightarrow> slab) \<times> (u64 \<Rightarrow> u64) \<times> mem \<times> (nat \<Rightarrow> slab_cache) \<times> spinlock \<times> u64" where
  "heap_view s = (slab_at s, link_at s, heap_mem s, caches s, kheap_lock s, hhdm_offset s)"

lemma heap_view_upd [simp]:
  "heap_view (upd_page p f s) = heap_view s" "heap_view (s\<lparr>free_list := a\<rparr>) = heap_view s"
  "heap_view (s\<lparr>free_pages := b\<rparr>) = heap_view s" "heap_view (s\<lparr>pmm_lock := l\<rparr>) = heap_view s"
  by (simp_all add: heap_view_def upd_page_def)

lemma heap_view_lists [simp]:
  "heap_view (free_list_remove p s) = heap_view s" "heap_view (free_list_push p s) = heap_view s"
  "heap_view (claim_page p s) = heap_view s"
proof -
  show r: "heap_view (free_list_remove p s) = heap_view s" by (simp add: free_list_remove_def Let_def)
  show "heap_view (free_list_push p s) = heap_view s" by (simp add: free_list_push_def Let_def)
  show "heap_view (claim_page p s) = heap_view s" by (simp add: claim_page_def Let_def r)
qed

lemma heap_view_fold: "(\<And>x s. heap_view (f x s) = heap_view s) \<Longrightarrow> heap_view (fold f xs s) = heap_view s"
  by (induction xs arbitrary: s) auto

lemma heap_view_lock:
  assumes "\<And>s. heap_view (snd (body s)) = heap_view s" and "with_pmm_lock me body s = Some (r, t)"
  shows "heap_view t = heap_view s"
proof -
  from assms(2) obtain l where t: "t = (snd (body (s\<lparr>pmm_lock := l\<rparr>)))\<lparr>pmm_lock := lock_release me (pmm_lock (snd (body (s\<lparr>pmm_lock := l\<rparr>))))\<rparr>"
    by (auto simp: with_pmm_lock_def case_prod_beta Let_def split: option.splits)
  show ?thesis unfolding t by (simp add: assms(1))
qed

lemma heap_view_alloc: "pmm_alloc_page me s = Some (r, t) \<Longrightarrow> heap_view t = heap_view s"
  unfolding pmm_alloc_page_def by (erule heap_view_lock [rotated]) (simp add: alloc_locked_def Let_def)

lemma heap_view_release: "pmm_page_release me p s = Some (r, t) \<Longrightarrow> heap_view t = heap_view s"
  unfolding pmm_page_release_def
  by (auto split: if_splits elim!: heap_view_lock [rotated] simp: release_locked_def Let_def)

lemma heap_view_release_each: "release_each me ps s = Some (r, t) \<Longrightarrow> heap_view t = heap_view s"
  by (induction ps arbitrary: s) (auto split: option.splits dest: heap_view_release)

lemma heap_view_alloc_pages: "pmm_alloc_pages me n s = Some (r, t) \<Longrightarrow> heap_view t = heap_view s"
  by (auto simp: pmm_alloc_pages_def Let_def heap_view_fold split: if_splits option.splits dest: heap_view_alloc)

section \<open>New slabs\<close>

lemma outside_run:
  fixes a b :: u64
  assumes "unat b < unat a \<or> unat a + len \<le> unat b" and "unat a + len < 2 ^ 64"
  shows "\<not> b - a < of_nat len"
proof -
  have l: "unat (of_nat len :: u64) = len" by (rule unat_of_nat_small) (use assms(2) in simp)
  have "len \<le> unat (b - a)"
  proof (cases "a \<le> b")
    case True
    then show ?thesis using assms(1) by (simp add: unat_sub word_le_nat_alt)
  next
    case False
    then have "unat (b - a) = 2 ^ 64 + unat b - unat a"
      using unat_bound [of a] by (simp add: unat_sub_if' word_le_nat_alt)
    then show ?thesis using assms(2) by simp
  qed
  then show ?thesis by (simp add: word_less_nat_alt l)
qed

text \<open>The frames of a fresh run are those of no slab.\<close>

lemma fresh_run:
  assumes r: "heap_rel s G cl" and b: "G b = Some (m, gl)" and k: "k + n \<le> unat (max_pfn s) + 1"
    and free: "frame_ptrs s k n \<subseteq> frees s"
  shows "frames s b m \<inter> {k ..< k + n} = {}"
proof (rule ccontr)
  assume "\<not> ?thesis"
  then obtain j where j: "j \<in> frames s b m" "j \<in> {k ..< k + n}" by blast
  then have "page_ptr s (of_nat j) \<in> last_ref s" using r b by (auto simp: heap_rel_def slab_ok_def)
  moreover have "page_ptr s (of_nat j) \<in> frees s" using free j(2) by (auto simp: frame_ptrs_def)
  ultimately show False by (simp add: last_ref_def frees_def)
qed

text \<open>A step that turns a fresh run of \<open>n\<close> frames from \<open>k\<close> into a slab.\<close>

lemma heap_rel_new:
  assumes r: "heap_rel s G cl" and n: "0 < n" and k: "k + n \<le> unat (max_pfn s) + 1"
    and free: "frame_ptrs s k n \<subseteq> frees s"
    and pm: "pmm_ready t" "mem_map t = mem_map s" "max_pfn t = max_pfn s" "hhdm_offset t = hhdm_offset s"
      "last_ref t = last_ref s \<union> frame_ptrs s k n"
    and a: "a = frame_va s k"
    and others: "\<And>b. G b \<noteq> None \<Longrightarrow> same_header (slab_at s b) (slab_at t b)"
    and links: "\<And>p b m gl. G b = Some (m, gl) \<Longrightarrow> p \<in> slots b (slab_at s b) m \<Longrightarrow> link_at t p = link_at s p"
    and hd: "header_ok (slab_at t a) n fl" "chain (link_at t) (sl_free_list (slab_at t a)) fl" "distinct fl"
      "set fl \<subseteq> slots a (slab_at t a) n"
    and c: "caches_ok t (G(a \<mapsto> (n, fl))) cl'"
  shows "G a = None" and "heap_rel t (G(a \<mapsto> (n, fl))) cl'"
    and "object t (G(a \<mapsto> (n, fl))) p c \<longleftrightarrow>
      p \<in> slots a (slab_at t a) n \<and> p \<notin> set fl \<and> c = slot_size (slab_at t a) n \<or> object s G p c"
proof -
  have hh: "hhdm_ok s" using r by (simp add: heap_rel_def)
  have fa: "frame_no s a = k" unfolding a by (rule frame_no_va [OF hh]) (use n k in linarith)
  have same: "frame_no t = frame_no s" "frames t = frames s" "frame_va t = frame_va s" "page_ptr t = page_ptr s" "hhdm_ok t"
    using pm hh by (auto simp: frame_no_def frames_def frame_va_def PHYS_TO_VIRT_def page_ptr_def hhdm_ok_def fun_eq_iff)
  note dis = fresh_run [OF r _ k free]
  show none: "G a = None"
  proof (rule ccontr)
    assume "G a \<noteq> None"
    then obtain m gl where g: "G a = Some (m, gl)" by force
    then have "0 < m" using r by (auto simp: heap_rel_def slab_ok_def)
    with dis [OF g] fa n show False by (auto simp: frames_def)
  qed
  have oka: "slab_ok t a n fl"
    using n k hd a fa pm by (auto simp: slab_ok_def same frames_def frame_ptrs_def)
  have okb: "slab_ok t b m gl" if b: "G b = Some (m, gl)" for b m gl
  proof -
    have ok: "slab_ok s b m gl" using r b by (simp add: heap_rel_def)
    have h: "same_header (slab_at s b) (slab_at t b)" by (rule others) (simp add: b)
    have "chain (link_at t) (sl_free_list (slab_at s b)) gl = chain (link_at s) (sl_free_list (slab_at s b)) gl"
      by (rule chain_cong, rule links [OF b]) (use ok in \<open>auto simp: slab_ok_def\<close>)
    then show ?thesis using ok by (simp add: slab_ok_def same pm same_header_fields [OF h])
  qed
  have "slab_ok t b m gl" if "(G(a \<mapsto> (n, fl))) b = Some (m, gl)" for b m gl
    using that oka okb by (cases "b = a") auto
  moreover have "frames s b m \<inter> frames s b' m' = {}"
    if g: "(G(a \<mapsto> (n, fl))) b = Some (m, gl)" "(G(a \<mapsto> (n, fl))) b' = Some (m', gl')" "b \<noteq> b'" for b b' m m' gl gl'
  proof -
    have fr: "frames s a n = {k ..< k + n}" by (simp add: frames_def fa)
    consider "b = a" "G b' = Some (m', gl')" "m = n" | "b' = a" "G b = Some (m, gl)" "m' = n"
      | "G b = Some (m, gl)" "G b' = Some (m', gl')"
      using g by (auto split: if_splits)
    then show ?thesis
    proof cases
      case 1
      then show ?thesis using dis [of b' m' gl'] by (simp add: fr Int_commute)
    next
      case 2
      then show ?thesis using dis [of b m gl] by (simp add: fr)
    next
      case 3
      then show ?thesis using r g(3) unfolding heap_rel_def by blast
    qed
  qed
  ultimately show "heap_rel t (G(a \<mapsto> (n, fl))) cl'"
    using pm(1) same(5) c by (simp add: heap_rel_def same)
  have eq: "(\<exists>m hl. G b = Some (m, hl) \<and> p \<in> slots b (slab_at t b) m \<and> p \<notin> set hl \<and> c = slot_size (slab_at t b) m) \<longleftrightarrow>
      (\<exists>m hl. G b = Some (m, hl) \<and> p \<in> slots b (slab_at s b) m \<and> p \<notin> set hl \<and> c = slot_size (slab_at s b) m)" for b
    using others [of b] by (cases "G b") (auto simp: same_header_fields)
  have "object t (G(a \<mapsto> (n, fl))) p c \<longleftrightarrow> p \<in> slots a (slab_at t a) n \<and> p \<notin> set fl \<and> c = slot_size (slab_at t a) n \<or>
      (\<exists>b. b \<noteq> a \<and> (\<exists>m hl. G b = Some (m, hl) \<and> p \<in> slots b (slab_at t b) m \<and> p \<notin> set hl \<and> c = slot_size (slab_at t b) m))"
    by (auto simp: object_def split: if_splits)
  also have "(\<exists>b. b \<noteq> a \<and> (\<exists>m hl. G b = Some (m, hl) \<and> p \<in> slots b (slab_at t b) m \<and> p \<notin> set hl \<and> c = slot_size (slab_at t b) m)) \<longleftrightarrow>
      object s G p c"
    unfolding eq object_def using none by force
  finally show "object t (G(a \<mapsto> (n, fl))) p c \<longleftrightarrow>
      p \<in> slots a (slab_at t a) n \<and> p \<notin> set fl \<and> c = slot_size (slab_at t a) n \<or> object s G p c" .
qed

text \<open>Memory inside a slab is outside a fresh run.\<close>

lemma outside_fresh:
  assumes r: "heap_rel s G cl" and b: "G b = Some (m, gl)" and n: "0 < n" and k: "k + n \<le> unat (max_pfn s) + 1"
    and free: "frame_ptrs s k n \<subseteq> frees s" and q: "unat b \<le> unat q" "unat q < unat b + m * 4096"
  shows "\<not> q - frame_va s k < of_nat (n * 4096)"
proof (rule outside_run)
  have hh: "hhdm_ok s" and ok: "slab_ok s b m gl" using r b by (auto simp: heap_rel_def)
  have a: "unat (frame_va s k) = unat (hhdm_offset s) + 4096 * k" by (rule unat_frame_va [OF hh]) (use n k in linarith)
  have "frame_no s b + m \<le> k \<or> k + n \<le> frame_no s b"
  proof -
    have "{frame_no s b ..< frame_no s b + m} \<inter> {k ..< k + n} = {}" using fresh_run [OF r b k free] by (simp add: frames_def)
    moreover have "0 < m" using ok by (simp add: slab_ok_def)
    moreover have "max (frame_no s b) k \<in> {frame_no s b ..< frame_no s b + m} \<inter> {k ..< k + n}"
      if "\<not> frame_no s b + m \<le> k" "\<not> k + n \<le> frame_no s b" using that n \<open>0 < m\<close> by (auto simp: max_def)
    ultimately show ?thesis by blast
  qed
  then show "unat q < unat (frame_va s k) \<or> unat (frame_va s k) + n * 4096 \<le> unat q"
    using q slab_base(1) [OF ok hh] a by auto
  show "unat (frame_va s k) + n * 4096 < 2 ^ 64" using hh k by (auto simp: a hhdm_ok_def)
qed

lemma align_16: "align_up_uintptr x 16 = ALIGN_DOWN (x + 15) 16"
proof -
  have "(x + 15) AND NOT 15 = (x + 15) AND NOT (mask 4)" by (simp add: mask_eq_exp_minus_1)
  also have "\<dots> = push_bit 4 (drop_bit 4 (x + 15))" by (rule and_not_mask_word)
  also have "\<dots> = ALIGN_DOWN (x + 15) 16" by (simp add: push_bit_eq_mult drop_bit_eq_div ALIGN_DOWN_def)
  finally show ?thesis by (simp add: align_up_uintptr_def add.commute)
qed

lemma object_start:
  assumes "unat a mod 4096 = 0" and "unat a + 4096 < 2 ^ 64"
  shows "align_up_uintptr (a + slab_header) KHEAP_ALIGN = a + 32"
proof -
  obtain q where q: "unat a = 4096 * q" using assms(1) by auto
  have "unat (a + 47) = unat a + 47" using assms(2) by (subst unat_add_no_wrap) auto
  then have "unat (ALIGN_DOWN (a + 47) 16) = (4096 * q + 47) div 16 * 16" by (simp add: unat_ALIGN_DOWN q)
  moreover have "(4096 * q + 47) div 16 = 256 * q + 2" by (rule div_nat_eqI) simp_all
  moreover have "unat (a + 32) = 4096 * q + 32" using assms(2) by (subst unat_add_no_wrap) (auto simp: q)
  ultimately have "ALIGN_DOWN (a + 47) 16 = a + 32" by (simp add: word_unat_eq_iff)
  then show ?thesis by (simp add: slab_header_def KHEAP_ALIGN_def align_16 add.commute)
qed

text \<open>The loop that threads the objects of a new slab.\<close>

lemma push_free_fields [simp]:
  "caches (push_free a p s) = caches s" "heap_mem (push_free a p s) = heap_mem s"
  "kheap_lock (push_free a p s) = kheap_lock s" "pmm_eq t (push_free a p s) = pmm_eq t s"
  "slab_at (push_free a p s) = (slab_at s)(a := (slab_at s a)\<lparr>sl_free_list := p\<rparr>)"
  "link_at (push_free a p s) = (link_at s)(p := sl_free_list (slab_at s a))"
  by (simp_all add: push_free_def)

lemma push_all:
  fixes f :: "nat \<Rightarrow> u64"
  assumes "sl_free_list (slab_at s a) = NULL" and "inj_on f {0 ..< n}" and "\<And>j. j < n \<Longrightarrow> f j \<noteq> NULL"
  defines "u \<equiv> fold (\<lambda>j. push_free a (f j)) [0 ..< n] s"
  shows "slab_at u = (slab_at s)(a := (slab_at s a)\<lparr>sl_free_list := (if n = 0 then NULL else f (n - 1))\<rparr>) \<and>
    chain (link_at u) (sl_free_list (slab_at u a)) (map f (rev [0 ..< n])) \<and>
    (\<forall>p. p \<notin> f ` {0 ..< n} \<longrightarrow> link_at u p = link_at s p) \<and> caches u = caches s \<and> heap_mem u = heap_mem s \<and>
    kheap_lock u = kheap_lock s \<and> pmm_eq s u"
  using assms(2,3) unfolding u_def
proof (induction n)
  case 0
  then show ?case using assms(1) by (simp add: fun_upd_idem)
next
  case (Suc n)
  let ?v = "fold (\<lambda>j. push_free a (f j)) [0 ..< n] s"
  have inj: "inj_on f {0 ..< n}" by (rule inj_on_subset [OF Suc.prems(1)]) auto
  have new: "f n \<notin> set (map f (rev [0 ..< n]))" using inj_onD [OF Suc.prems(1), of n] by force
  obtain v where v: "v = ?v" by simp
  have w: "fold (\<lambda>j. push_free a (f j)) [0 ..< Suc n] s = push_free a (f n) v" by (simp add: v)
  have IH: "slab_at v = (slab_at s)(a := (slab_at s a)\<lparr>sl_free_list := (if n = 0 then NULL else f (n - 1))\<rparr>)"
    "chain (link_at v) (sl_free_list (slab_at v a)) (map f (rev [0 ..< n]))"
    "\<forall>p. p \<notin> f ` {0 ..< n} \<longrightarrow> link_at v p = link_at s p" "caches v = caches s" "heap_mem v = heap_mem s"
    "kheap_lock v = kheap_lock s" "pmm_eq s v"
    using Suc.IH [OF inj] less_SucI [THEN Suc.prems(2)] unfolding v by blast+
  have "chain ((link_at v)(f n := h')) h (map f (rev [0 ..< n])) = chain (link_at v) h (map f (rev [0 ..< n]))" for h h'
    by (rule chain_cong) (metis fun_upd_other new)
  then have "chain (link_at (push_free a (f n) v)) (sl_free_list (slab_at (push_free a (f n) v) a)) (map f (rev [0 ..< Suc n]))"
    using IH(2) Suc.prems(2) [of n] by simp
  moreover have "\<forall>p. p \<notin> f ` {0 ..< Suc n} \<longrightarrow> link_at (push_free a (f n) v) p = link_at s p"
    using IH(3) by (simp add: atLeast0_lessThan_Suc)
  moreover have "slab_at (push_free a (f n) v) =
      (slab_at s)(a := (slab_at s a)\<lparr>sl_free_list := (if Suc n = 0 then NULL else f (Suc n - 1))\<rparr>)"
    by (simp add: IH(1))
  moreover have "caches (push_free a (f n) v) = caches s" "heap_mem (push_free a (f n) v) = heap_mem s"
    "kheap_lock (push_free a (f n) v) = kheap_lock s" "pmm_eq s (push_free a (f n) v)"
    using IH(4-7) by simp_all
  ultimately show ?case unfolding w by blast
qed

lemma slab_capacity:
  assumes "i < 8"
  shows "unat (ucast (4064 div ucast (cache_sizes ! i) :: u64) :: u16) = 4064 div unat (cache_sizes ! i)"
    and "0 < 4064 div unat (cache_sizes ! i)"
proof -
  from assms have "i = 0 \<or> i = 1 \<or> i = 2 \<or> i = 3 \<or> i = 4 \<or> i = 5 \<or> i = 6 \<or> i = 7" by linarith
  then show "unat (ucast (4064 div ucast (cache_sizes ! i) :: u64) :: u16) = 4064 div unat (cache_sizes ! i)"
    by (elim disjE) (simp_all add: cache_sizes_def)
  from assms show "0 < 4064 div unat (cache_sizes ! i)" by (rule cache_sizes_cases) simp_all
qed

text \<open>The bytes of the objects in use.\<close>

definition mem_kept :: "'b kheap_scheme \<Rightarrow> (u64 \<Rightarrow> (nat \<times> u64 list) option) \<Rightarrow> 'b kheap_scheme \<Rightarrow> bool" where
  "mem_kept s G t \<longleftrightarrow> (\<forall>p c q. object s G p c \<longrightarrow> q < c \<longrightarrow> heap_mem t (p + of_nat q) = heap_mem s (p + of_nat q))"

lemma object_bytes:
  assumes r: "heap_rel s G cl" and b: "G b = Some (m, gl)" and p: "p \<in> slots b (slab_at s b) m"
    and q: "q < slot_size (slab_at s b) m"
  shows "unat (p + of_nat q) = unat p + q" and "unat b \<le> unat p + q" and "unat p + q < unat b + m * 4096"
proof -
  have hh: "hhdm_ok s" and ok: "slab_ok s b m gl" using r b by (auto simp: heap_rel_def)
  obtain k where k: "unat p = unat b + 32 + k * slot_size (slab_at s b) m"
    "32 + (k + 1) * slot_size (slab_at s b) m \<le> m * 4096"
    by (rule slot_place [OF ok hh p])
  show le: "unat b \<le> unat p + q" "unat p + q < unat b + m * 4096" using k q by simp_all
  have top: "unat b + 4096 * m < 2 ^ 64" by (rule slab_base(4) [OF ok hh])
  have "unat (of_nat q :: u64) = q" by (rule unat_of_nat_small) (use le top in simp)
  then show "unat (p + of_nat q) = unat p + q" using le top by (subst unat_add_no_wrap) auto
qed

text \<open>Clearing a fresh run touches no slab and no object.\<close>

lemma zero_fresh:
  assumes r: "heap_rel s G cl" and n: "0 < n" and k: "k + n \<le> unat (max_pfn s) + 1"
    and free: "frame_ptrs s k n \<subseteq> frees s" and v: "heap_view t = heap_view s"
    and z: "z = zero_mem (frame_va s k) (of_nat (n * 4096)) t"
  shows "G b = Some (m, gl) \<Longrightarrow> slab_at z b = slab_at s b"
    and "G b = Some (m, gl) \<Longrightarrow> p \<in> slots b (slab_at s b) m \<Longrightarrow> link_at z p = link_at s p"
    and "mem_kept s G z"
proof -
  have f: "slab_at t = slab_at s" "link_at t = link_at s" "heap_mem t = heap_mem s" using v by (simp_all add: heap_view_def)
  have bytes: "\<not> (p + of_nat q) - frame_va s k < of_nat (n * 4096)"
    if g: "G b = Some (m, gl)" "p \<in> slots b (slab_at s b) m" "q < slot_size (slab_at s b) m" for b m gl p q
    using object_bytes [OF r g] by (intro outside_fresh [OF r g(1) n k free]) simp_all
  show "slab_at z b = slab_at s b" if g: "G b = Some (m, gl)"
  proof -
    have "0 < m" using r g by (auto simp: heap_rel_def slab_ok_def)
    then have "\<not> b - frame_va s k < of_nat (n * 4096)" by (intro outside_fresh [OF r g n k free]) simp_all
    then show ?thesis by (simp add: z zero_mem_def f)
  qed
  show "link_at z p = link_at s p" if g: "G b = Some (m, gl)" "p \<in> slots b (slab_at s b) m"
  proof -
    have "0 < slot_size (slab_at s b) m"
      using r g(1) header_geometry(1) [of "slab_at s b" m gl] by (auto simp: heap_rel_def slab_ok_def)
    from bytes [OF g this] show ?thesis by (simp add: z zero_mem_def f)
  qed
  have "heap_mem z (p + of_nat q) = heap_mem s (p + of_nat q)" if "object s G p c" "q < c" for p c q
    using that bytes by (auto simp: object_def z zero_mem_def f memset_apply)
  then show "mem_kept s G z" by (auto simp: mem_kept_def)
qed

text \<open>What \<^verbatim>\<open>kmalloc\<close> and \<^verbatim>\<open>slab_create\<close> get from the page allocator: the direct-map address of a
  run of fresh frames.\<close>

lemma fresh_run_address:
  assumes r: "heap_rel s G cl" and t: "pmm_ready t" "mem_map t = mem_map s" "max_pfn t = max_pfn s" "heap_view t = heap_view s"
    and k: "k \<le> unat (max_pfn s)"
  shows "PHYS_TO_VIRT t (pfn_db_page_to_phys t (page_ptr s (of_nat k))) = frame_va s k"
    and "page_ptr s (of_nat k) \<noteq> NULL"
proof -
  have wf: "db_wf t" using t(1) by (auto simp: pmm_ready_def pmm_idle_def pmm_rel_def)
  have le: "of_nat k \<le> max_pfn t" using k unat_of_nat_le [OF k] t(3) by (simp add: word_le_nat_alt)
  have ptr: "page_ptr s (of_nat k) = page_ptr t (of_nat k)" using t(2) by (simp add: page_ptr_def)
  show "PHYS_TO_VIRT t (pfn_db_page_to_phys t (page_ptr s (of_nat k))) = frame_va s k"
    unfolding ptr page_to_phys_page_ptr [OF wf le]
    using t(4) by (simp add: frame_va_def PHYS_TO_VIRT_def heap_view_def)
  show "page_ptr s (of_nat k) \<noteq> NULL" unfolding ptr by (rule page_ptr_not_NULL [OF wf le])
qed

text \<open>The header and the free list that \<^verbatim>\<open>slab_create\<close> writes.\<close>

definition new_header :: "nat \<Rightarrow> slab" where
  "new_header i = \<lparr>sl_next = 0, sl_free_list = 0, sl_magic = SLAB_MAGIC, sl_object_size = cache_sizes ! i,
     sl_capacity = ucast (4064 div ucast (cache_sizes ! i) :: u64), sl_free_count = ucast (4064 div ucast (cache_sizes ! i) :: u64),
     sl_cache_index = of_nat i, sl_npages = 1\<rparr>"

definition new_slots :: "nat \<Rightarrow> u64 \<Rightarrow> nat \<Rightarrow> u64" where
  "new_slots i a j = a + 32 + of_nat j * ucast (cache_sizes ! i)"

lemma new_header_ok:
  assumes "i < 8"
  shows "sl_cache_index (new_header i) \<noteq> BIG_CACHE_INDEX" and "unat (sl_cache_index (new_header i)) = i"
    and "unat (sl_capacity (new_header i)) = 4064 div unat (cache_sizes ! i)"
    and "slot_size (new_header i) 1 = unat (cache_sizes ! i)"
    and "length fl = 4064 div unat (cache_sizes ! i) \<Longrightarrow> header_ok ((new_header i)\<lparr>sl_free_list := x\<rparr>) 1 fl"
    and "slots a (new_header i) 1 = new_slots i a ` {0 ..< unat (sl_capacity (new_header i))}"
proof -
  show u: "unat (sl_cache_index (new_header i)) = i"
    using assms by (simp add: new_header_def unat_of_nat_small)
  then show b: "sl_cache_index (new_header i) \<noteq> BIG_CACHE_INDEX" using assms by (auto simp: BIG_CACHE_INDEX_def)
  show c: "unat (sl_capacity (new_header i)) = 4064 div unat (cache_sizes ! i)"
    using slab_capacity(1) [OF assms] by (simp add: new_header_def)
  show sz: "slot_size (new_header i) 1 = unat (cache_sizes ! i)" using b by (simp add: slot_size_def) (simp add: new_header_def)
  have "unat (of_nat (4064 div unat (cache_sizes ! i)) :: u16) = 4064 div unat (cache_sizes ! i)"
    by (rule unat_of_nat_small) (rule le_less_trans [OF div_le_dividend], simp)
  then have fc: "sl_free_count (new_header i) = of_nat (4064 div unat (cache_sizes ! i))"
    using slab_capacity(1) [OF assms] by (simp add: new_header_def word_unat_eq_iff)
  show "header_ok ((new_header i)\<lparr>sl_free_list := x\<rparr>) 1 fl" if "length fl = 4064 div unat (cache_sizes ! i)"
    using b u c fc that assms by (simp add: header_ok_def) (simp add: new_header_def)
  show "slots a (new_header i) 1 = new_slots i a ` {0 ..< unat (sl_capacity (new_header i))}"
    unfolding slots_def sz by (rule image_cong) (simp_all add: new_slots_def)
qed

lemma new_slots_inj:
  assumes "i < 8" and "unat a mod 4096 = 0" and "unat a + 4096 < 2 ^ 64"
  shows "inj_on (new_slots i a) {0 ..< 4064 div unat (cache_sizes ! i)}"
    and "\<And>j. j < 4064 div unat (cache_sizes ! i) \<Longrightarrow> new_slots i a j \<noteq> NULL"
    and "\<And>j. j < 4064 div unat (cache_sizes ! i) \<Longrightarrow> new_slots i a j - a < 4096"
proof -
  define z where "z = unat (cache_sizes ! i)"
  have z: "0 < z" "z \<le> 2048" using assms(1) unfolding z_def by (rule cache_sizes_cases; simp)+
  have u: "unat (new_slots i a j) = unat a + (32 + j * z)" if "j < 4064 div z" for j
  proof -
    have le: "j * z \<le> 4064" using that z by (meson div_times_less_eq_dividend le_trans less_imp_le mult_le_mono1)
    have eq: "new_slots i a j = a + of_nat (32 + j * z)" by (simp add: new_slots_def z_def)
    have "unat (of_nat (32 + j * z) :: u64) = 32 + j * z" by (rule unat_of_nat_small) (use le in simp)
    then show ?thesis unfolding eq using assms(3) le by (subst unat_add_no_wrap) auto
  qed
  show "inj_on (new_slots i a) {0 ..< 4064 div unat (cache_sizes ! i)}"
  proof (rule inj_onI)
    fix j k assume "j \<in> {0 ..< 4064 div unat (cache_sizes ! i)}" "k \<in> {0 ..< 4064 div unat (cache_sizes ! i)}"
      and eq: "new_slots i a j = new_slots i a k"
    then have "j < 4064 div z" "k < 4064 div z" by (simp_all add: z_def)
    from u [OF this(1)] u [OF this(2)] have "j * z = k * z" unfolding eq by linarith
    then show "j = k" using z(1) by simp
  qed
  show "new_slots i a j \<noteq> NULL" if "j < 4064 div unat (cache_sizes ! i)" for j
    using u [of j] that by (auto simp: z_def)
  show "new_slots i a j - a < 4096" if "j < 4064 div unat (cache_sizes ! i)" for j
  proof -
    have "(j + 1) * z \<le> 4064 div z * z" by (rule mult_le_mono1) (use that in \<open>simp add: z_def\<close>)
    also have "\<dots> \<le> 4064" by simp
    finally have le: "32 + j * z < 4096" using z(1) by simp
    then have "unat (of_nat (32 + j * z) :: u64) = 32 + j * z" by (intro unat_of_nat_small) simp
    moreover have "new_slots i a j - a = of_nat (32 + j * z)" by (simp add: new_slots_def z_def)
    ultimately show ?thesis using le by (simp only: word_less_nat_alt unat_numeral) simp
  qed
qed

text \<open>\<^verbatim>\<open>slab_create\<close> on a fresh frame.\<close>

lemma slab_create_eq:
  assumes i: "i < 8" and al: "pmm_alloc_page me s = Some (pg, t)" "pg \<noteq> NULL"
    and a: "PHYS_TO_VIRT t (pfn_db_page_to_phys t pg) = a" "unat a mod 4096 = 0" "unat a + 4096 < 2 ^ 64"
  shows "\<exists>u. slab_create me (cache_sizes ! i) (of_nat i) s = Some (a, u) \<and>
    slab_at u = (slab_at (zero_mem a 4096 t))(a := (new_header i)\<lparr>sl_free_list := sl_free_list (slab_at u a)\<rparr>) \<and>
    chain (link_at u) (sl_free_list (slab_at u a)) (map (new_slots i a) (rev [0 ..< 4064 div unat (cache_sizes ! i)])) \<and>
    (\<forall>p. p \<notin> new_slots i a ` {0 ..< 4064 div unat (cache_sizes ! i)} \<longrightarrow> link_at u p = link_at (zero_mem a 4096 t) p) \<and>
    caches u = caches t \<and> heap_mem u = heap_mem (zero_mem a 4096 t) \<and> kheap_lock u = kheap_lock t \<and> pmm_eq t u"
proof -
  define n where "n = 4064 div unat (cache_sizes ! i)"
  define z where "z = zero_mem a 4096 t"
  define v where "v = z\<lparr>slab_at := (slab_at z)(a := new_header i)\<rparr>"
  have za: "slab_at z a = clear_slab" by (simp add: z_def zero_mem_def)
  have start: "align_up_uintptr (a + slab_header) KHEAP_ALIGN = a + 32" by (rule object_start [OF a(2,3)])
  have ends: "\<not> a + 0x1000 \<le> a + 32"
  proof -
    have "unat (a + 0x1000) = unat a + 4096" "unat (a + 32) = unat a + 32"
      using a(3) by (subst unat_add_no_wrap; simp)+
    then show ?thesis by (simp add: word_le_nat_alt)
  qed
  have cap: "unat (ucast (4064 div ucast (cache_sizes ! i) :: u64) :: u16) = n" "0 < n"
    using slab_capacity [OF i] by (simp_all add: n_def)
  then have cap0: "(ucast (4064 div ucast (cache_sizes ! i) :: u64) :: u16) \<noteq> 0" by auto
  let ?u = "fold (\<lambda>j. push_free a (new_slots i a j)) [0 ..< n] v"
  have v4: "upd_slab a (\<lambda>x. x\<lparr>sl_capacity := ucast (4064 div ucast (cache_sizes ! i) :: u64),
        sl_free_count := ucast (4064 div ucast (cache_sizes ! i) :: u64), sl_free_list := NULL\<rparr>)
      (upd_slab a (\<lambda>x. x\<lparr>sl_magic := SLAB_MAGIC, sl_object_size := cache_sizes ! i,
         sl_cache_index := of_nat i, sl_npages := 1\<rparr>) z) = v"
    by (simp add: v_def upd_slab_def za clear_slab_def new_header_def)
  have run: "slab_create me (cache_sizes ! i) (of_nat i) s = Some (a, ?u)"
    using al ends cap0
    by (simp add: slab_create_def a(1) Let_def start z_def [symmetric] v4 cap(1) new_slots_def add.assoc)
  have va: "slab_at v a = new_header i" "sl_free_list (slab_at v a) = NULL" by (simp_all add: v_def new_header_def)
  note pa = push_all [OF va(2), of "new_slots i a" n]
  have "pmm_eq t v" by (simp add: v_def z_def zero_mem_def pmm_eq_def)
  moreover have "slab_at ?u = (slab_at v)(a := (slab_at v a)\<lparr>sl_free_list := sl_free_list (slab_at ?u a)\<rparr>)"
    using pa new_slots_inj [OF i a(2,3)] by (simp add: n_def)
  ultimately show ?thesis
    using pa new_slots_inj [OF i a(2,3)] run va
    by (intro exI [of _ ?u]) (auto simp: n_def [symmetric] v_def z_def zero_mem_def pmm_eq_def)
qed

lemma fresh_none:
  assumes r: "heap_rel s G cl" and n: "0 < n" and k: "k + n \<le> unat (max_pfn s) + 1"
    and free: "frame_ptrs s k n \<subseteq> frees s"
  shows "G (frame_va s k) = None"
proof (rule ccontr)
  assume "G (frame_va s k) \<noteq> None"
  then obtain m gl where g: "G (frame_va s k) = Some (m, gl)" by force
  have "frame_no s (frame_va s k) = k" using r n k by (intro frame_no_va) (auto simp: heap_rel_def)
  moreover have "0 < m" using r g by (auto simp: heap_rel_def slab_ok_def)
  ultimately show False using fresh_run [OF r g k free] n by (auto simp: frames_def)
qed

lemma caches_ok_frame:
  assumes c: "caches_ok s G cl" and "caches t = caches s" and a: "G a = None"
    and "\<And>b. G b \<noteq> None \<Longrightarrow> slab_at t b = slab_at s b"
  shows "caches_ok t G cl"
proof -
  have eq: "slab_at t b = slab_at s b" if "b \<in> set (cl i)" "i < 8" for b i
    using that assms by (auto simp: caches_ok_def)
  have "chain (\<lambda>b. sl_next (slab_at t b)) h (cl i) = chain (\<lambda>b. sl_next (slab_at s b)) h (cl i)" if "i < 8" for h i
    using eq [OF _ that] by (intro chain_cong) simp
  moreover have "(\<exists>n fl. G b = Some (n, fl) \<and> fl \<noteq> [] \<and> unat (sl_cache_index (slab_at t b)) = i) \<longleftrightarrow>
      (\<exists>n fl. G b = Some (n, fl) \<and> fl \<noteq> [] \<and> unat (sl_cache_index (slab_at s b)) = i)" for b i
    using assms(4) [of b] by (cases "G b") auto
  ultimately show ?thesis using c by (simp add: caches_ok_def assms(2))
qed

lemma frame_va_aligned:
  assumes "hhdm_ok s" and "0 < n" and "k + n \<le> unat (max_pfn s) + 1"
  shows "unat (frame_va s k) mod 4096 = 0" and "unat (frame_va s k) + 4096 * n < 2 ^ 64" and "4096 \<le> unat (frame_va s k)"
proof -
  have u: "unat (frame_va s k) = unat (hhdm_offset s) + 4096 * k" by (rule unat_frame_va) (use assms in auto)
  show "unat (frame_va s k) mod 4096 = 0" "unat (frame_va s k) + 4096 * n < 2 ^ 64" "4096 \<le> unat (frame_va s k)"
    using assms by (auto simp: u hhdm_ok_def)
qed

lemma new_slab:
  assumes r: "heap_rel s G cl" and i: "i < 8"
  shows "(\<forall>k. \<not> run_free s k 1) \<and> slab_create me (cache_sizes ! i) (of_nat i) s = Some (NULL, s) \<or>
    (\<exists>a t fl. slab_create me (cache_sizes ! i) (of_nat i) s = Some (a, t) \<and> a \<noteq> NULL \<and> fl \<noteq> [] \<and>
      heap_rel (cache_add_slab i a t) (G(a \<mapsto> (1, fl))) (cl(i := a # cl i)) \<and>
      unat (sl_cache_index (slab_at (cache_add_slab i a t) a)) = i \<and> mem_kept s G (cache_add_slab i a t) \<and>
      slot_size (slab_at (cache_add_slab i a t) a) 1 = unat (cache_sizes ! i) \<and>
      kheap_lock (cache_add_slab i a t) = kheap_lock s \<and>
      (\<forall>p c. object (cache_add_slab i a t) (G(a \<mapsto> (1, fl))) p c \<longleftrightarrow> object s G p c))"
proof -
  have rd: "pmm_ready s" and hh: "hhdm_ok s" and c: "caches_ok s G cl" using r by (auto simp: heap_rel_def)
  have al: "pmm_alloc_pages me 1 s = pmm_alloc_page me s" by (simp add: pmm_alloc_pages_def)
  have "0 < unat (1 :: u64)" by simp
  from alloc_run [OF rd this, of me] consider
    (none) "\<forall>k. \<not> run_free s k 1" "pmm_alloc_page me s = Some (NULL, s)"
    | (some) k t where "run_free s k 1" "pmm_alloc_page me s = Some (page_ptr s (of_nat k), t)" "pmm_ready t"
      "mem_map t = mem_map s" "max_pfn t = max_pfn s" "frame_ptrs s k 1 \<subseteq> frees s" "last_ref t = last_ref s \<union> frame_ptrs s k 1"
    unfolding al by auto
  then show ?thesis
  proof cases
    case none
    then show ?thesis by (simp add: slab_create_def)
  next
    case (some k t)
    have k: "k + 1 \<le> unat (max_pfn s) + 1" "k \<le> unat (max_pfn s)" using some(1) by (auto simp: run_free_def)
    have v: "heap_view t = heap_view s" by (rule heap_view_alloc [OF some(2)])
    define a where "a = frame_va s k"
    note addr = fresh_run_address [OF r some(3-5) v k(2), folded a_def]
    note al = frame_va_aligned [OF hh zero_less_one k(1), folded a_def]
    have al2: "unat a + 4096 < 2 ^ 64" using al(2) by simp
    define fl where "fl = map (new_slots i a) (rev [0 ..< 4064 div unat (cache_sizes ! i)])"
    obtain u where u: "slab_create me (cache_sizes ! i) (of_nat i) s = Some (a, u)"
      "slab_at u = (slab_at (zero_mem a 4096 t))(a := (new_header i)\<lparr>sl_free_list := sl_free_list (slab_at u a)\<rparr>)"
      "chain (link_at u) (sl_free_list (slab_at u a)) fl"
      "\<And>p. p \<notin> new_slots i a ` {0 ..< 4064 div unat (cache_sizes ! i)} \<Longrightarrow> link_at u p = link_at (zero_mem a 4096 t) p"
      "caches u = caches t" "heap_mem u = heap_mem (zero_mem a 4096 t)" "kheap_lock u = kheap_lock t" "pmm_eq t u"
      using slab_create_eq [OF i some(2) addr(2) addr(1) al(1) al2] unfolding fl_def by blast
    let ?z = "zero_mem a 4096 t" and ?w = "cache_add_slab i a u" and ?G = "G(a \<mapsto> (1, fl))"
    have "?z = zero_mem (frame_va s k) (of_nat (1 * 4096)) t" by (simp add: a_def)
    note zf = zero_fresh [OF r zero_less_one k(1) some(6) v this]
    have none: "G a = None" unfolding a_def by (rule fresh_none [OF r zero_less_one k(1) some(6)])
    have ub: "slab_at u b = slab_at s b" if g: "G b \<noteq> None" for b
    proof -
      obtain m gl where "G b = Some (m, gl)" using g by force
      then show ?thesis using zf(1) [of b m gl] none u(2) by (metis fun_upd_other option.distinct(1))
    qed
    have cu: "caches_ok u G cl" by (rule caches_ok_frame [OF c _ none ub]) (use u(5) v in \<open>simp_all add: heap_view_def\<close>)
    have ua: "slab_at u a = (new_header i)\<lparr>sl_free_list := sl_free_list (slab_at u a)\<rparr>" using u(2) by (metis fun_upd_same)
    have idx: "unat (sl_cache_index (slab_at u a)) = i" using new_header_ok(2) [OF i] by (subst ua) simp
    have ne: "fl \<noteq> []" using slab_capacity(2) [OF i] by (simp add: fl_def)
    have "caches_ok ?w ?G (cl(i := a # cl i)) \<and> links_only u ?w"
      by (rule cache_add_slab_ok [OF cu i]) (use none cu idx al(3) ne in \<open>auto simp: caches_ok_def\<close>)
    then have cw: "caches_ok ?w ?G (cl(i := a # cl i))" and lo: "links_only u ?w" by auto
    have hw: "same_header (slab_at u b) (slab_at ?w b)" for b using lo by (simp add: links_only_def)
    have sl: "slots a (slab_at ?w a) 1 = set fl" "slot_size (slab_at ?w a) 1 = unat (cache_sizes ! i)"
      using new_header_ok(3,4,6) [OF i] by (simp_all add: same_header_fields [OF hw [of a]], (subst ua, simp add: fl_def)+)
    have pw: "pmm_eq t ?w" using u(8) lo pmm_eq_trans by (auto simp: links_only_def)
    have fw: "pmm_ready ?w" "mem_map ?w = mem_map s" "max_pfn ?w = max_pfn s" "hhdm_offset ?w = hhdm_offset s"
      "last_ref ?w = last_ref s \<union> frame_ptrs s k 1"
      using pmm_eq_facts(1,2) [OF pw] pw some v by (auto simp: pmm_eq_def heap_view_def)
    have hd: "header_ok (slab_at ?w a) 1 fl"
      unfolding same_header_fields(5) [OF hw [of a]] by (subst ua, rule new_header_ok(5) [OF i]) (simp add: fl_def)
    have ch: "chain (link_at ?w) (sl_free_list (slab_at ?w a)) fl"
      using u(3) lo same_header_fields(1) [OF hw [of a]] by (simp add: links_only_def)
    have ds: "distinct fl" using new_slots_inj(1) [OF i al(1) al2] by (simp add: fl_def distinct_map)
    have li: "link_at ?w p = link_at s p" if g: "G b = Some (m, gl)" "p \<in> slots b (slab_at s b) m" for p b m gl
    proof -
      have "0 < slot_size (slab_at s b) m"
        using r g(1) header_geometry(1) [of "slab_at s b" m gl] by (auto simp: heap_rel_def slab_ok_def)
      from object_bytes [OF r g this] have "\<not> p - frame_va s k < of_nat (1 * 4096)"
        by (intro outside_fresh [OF r g(1) zero_less_one k(1) some(6)]) simp_all
      then have "p \<notin> new_slots i a ` {0 ..< 4064 div unat (cache_sizes ! i)}"
        using new_slots_inj(3) [OF i al(1) al2] by (auto simp: a_def)
      then show ?thesis using u(4) zf(2) [OF g] lo by (simp add: links_only_def)
    qed
    note hn = heap_rel_new [OF r zero_less_one k(1) some(6) fw a_def _ li hd ch ds _ cw]
    have "same_header (slab_at s b) (slab_at ?w b)" if "G b \<noteq> None" for b using hw [of b] ub [OF that] by simp
    with hn sl have "heap_rel ?w ?G (cl(i := a # cl i))" "\<And>p c. object ?w ?G p c \<longleftrightarrow> object s G p c" by auto
    moreover have "mem_kept s G ?w" using zf(3) u(6) lo by (simp add: mem_kept_def links_only_def)
    moreover have "unat (sl_cache_index (slab_at ?w a)) = i" using idx same_header_fields(2) [OF hw [of a]] by simp
    moreover have "kheap_lock ?w = kheap_lock s" using u(7) v lo by (simp add: links_only_def heap_view_def)
    moreover have "a \<noteq> NULL" using al(3) by auto
    ultimately show ?thesis using u(1) ne sl(2) by blast
  qed
qed

section \<open>Allocation\<close>

lemma kmalloc_small_rel:
  assumes r: "heap_rel s G cl" and i: "i < 8"
  shows "(\<forall>k. \<not> run_free s k 1) \<and> kmalloc_small me i s = Some (NULL, s) \<or>
    (\<exists>p t G' cl'. kmalloc_small me i s = Some (p, t) \<and> p \<noteq> NULL \<and> heap_rel t G' cl' \<and> kheap_lock t = kheap_lock s \<and>
      mem_kept s G t \<and> (\<forall>c. \<not> object s G p c) \<and>
      (\<forall>q c. object t G' q c \<longleftrightarrow> q = p \<and> c = unat (cache_sizes ! i) \<or> object s G q c))"
proof -
  have c: "caches_ok s G cl" and hh: "hhdm_ok s" using r by (auto simp: heap_rel_def)
  have osz: "c_object_size (caches s i) = cache_sizes ! i" using c i by (simp add: caches_ok_def)
  have take: "\<exists>p u G' cl'. take_object i a t = Some (p, u) \<and> p \<noteq> NULL \<and> heap_rel u G' cl' \<and> kheap_lock u = kheap_lock s \<and>
      mem_kept s G u \<and> (\<forall>c. \<not> object s G p c) \<and> (\<forall>q c. object u G' q c \<longleftrightarrow> q = p \<and> c = unat (cache_sizes ! i) \<or> object s G q c)"
    if t: "heap_rel t H dl" "H a = Some (n, fl)" "fl \<noteq> []" "unat (sl_cache_index (slab_at t a)) = i"
      "kheap_lock t = kheap_lock s" "mem_kept s G t" "\<forall>q c. object t H q c \<longleftrightarrow> object s G q c" for t H dl a n fl
  proof -
    obtain x gl where fl: "fl = x # gl" using t(3) by (cases fl) auto
    have ok: "slab_ok t a n (x # gl)" using t(1,2) fl by (simp add: heap_rel_def)
    have x: "x \<in> slots a (slab_at t a) n" using ok by (simp add: slab_ok_def)
    have "sl_cache_index (slab_at t a) \<noteq> BIG_CACHE_INDEX" using t(4) i by (auto simp: BIG_CACHE_INDEX_def)
    then have sz: "slot_size (slab_at t a) n = unat (cache_sizes ! i)"
      using ok t(4) by (simp add: slab_ok_def header_ok_def slot_size_def)
    have nx: "\<not> object t H x c" for c using object_in_slab [OF t(1,2) x] fl by simp
    have "x \<noteq> NULL" using slot_not_small [OF ok _ x] t(1) by (auto simp: heap_rel_def)
    moreover obtain u cl' where u: "take_object i a t = Some (x, u)" "heap_rel u (H(a \<mapsto> (n, gl))) cl'"
      "heap_mem u = heap_mem t" "kheap_lock u = kheap_lock t"
      "\<forall>p c. object u (H(a \<mapsto> (n, gl))) p c \<longleftrightarrow> p = x \<and> c = slot_size (slab_at t a) n \<or> object t H p c"
      using take_object_rel [OF t(1) t(2) [unfolded fl] t(4) i] by blast
    moreover have "mem_kept s G u" using t(6) u(3) by (simp add: mem_kept_def)
    ultimately show ?thesis using t(5,7) nx sz by metis
  qed
  show ?thesis
  proof (cases "cl i")
    case Nil
    then have "c_slabs (caches s i) = NULL" using c i by (auto simp: caches_ok_def)
    then have f: "find_slab (c_slabs (caches s i)) s = Some NULL" by (simp add: find_slab.simps)
    from new_slab [OF r i, of me] show ?thesis
    proof (elim disjE conjE exE)
      fix a t fl
      assume n: "slab_create me (cache_sizes ! i) (of_nat i) s = Some (a, t)" "a \<noteq> NULL" "fl \<noteq> []"
        and t: "heap_rel (cache_add_slab i a t) (G(a \<mapsto> (1, fl))) (cl(i := a # cl i))"
          "unat (sl_cache_index (slab_at (cache_add_slab i a t) a)) = i" "mem_kept s G (cache_add_slab i a t)"
          "kheap_lock (cache_add_slab i a t) = kheap_lock s"
          "\<forall>p c. object (cache_add_slab i a t) (G(a \<mapsto> (1, fl))) p c \<longleftrightarrow> object s G p c"
      have "kmalloc_small me i s = take_object i a (cache_add_slab i a t)"
        using n by (simp add: kmalloc_small_def f osz)
      with take [OF t(1) _ n(3) t(2,4,3,5), of 1] show ?thesis by simp
    qed (simp add: kmalloc_small_def f osz)
  next
    case (Cons a as)
    have "a \<in> set (cl i)" using Cons by simp
    then obtain n fl where a: "G a = Some (n, fl)" "fl \<noteq> []" "unat (sl_cache_index (slab_at s a)) = i"
      using c i unfolding caches_ok_def by blast
    have ok: "slab_ok s a n fl" using r a by (simp add: heap_rel_def)
    have "chain (link_at s) (sl_free_list (slab_at s a)) fl" using ok by (simp add: slab_ok_def)
    then have "sl_free_list (slab_at s a) \<noteq> NULL" using a(2) by auto
    moreover have h: "c_slabs (caches s i) = a" using c i Cons by (auto simp: caches_ok_def)
    ultimately have "find_slab (c_slabs (caches s i)) s = Some a" by (simp add: find_slab.simps)
    moreover have "a \<noteq> NULL" using slab_base(3) [OF ok hh] by auto
    ultimately have "kmalloc_small me i s = take_object i a s" by (simp add: kmalloc_small_def)
    with take [OF r a refl] show ?thesis by (simp add: mem_kept_def)
  qed
qed

text \<open>The path for large objects. The number of pages is that of the header and the object together.\<close>

definition big_pages :: "u64 \<Rightarrow> nat" where
  "big_pages sz = (unat sz + 48 + 4095) div 4096"

lemma big_pages_word:
  assumes "unat sz + 48 + 4096 \<le> 2 ^ 64"
  shows "unat (ALIGN_UP (slab_header + KHEAP_ALIGN + sz) PAGE_SIZE div PAGE_SIZE) = big_pages sz" and "0 < big_pages sz"
    and "unat sz \<le> big_pages sz * 4096 - 48"
proof -
  have "unat (slab_header + KHEAP_ALIGN + sz) = 48 + unat sz"
    unfolding slab_header_def KHEAP_ALIGN_def using assms by (subst unat_add_no_wrap) auto
  then have "unat (ALIGN_UP (slab_header + KHEAP_ALIGN + sz) PAGE_SIZE) = (48 + unat sz + 4095) div 4096 * 4096"
    using assms by (subst unat_ALIGN_UP) auto
  then show "unat (ALIGN_UP (slab_header + KHEAP_ALIGN + sz) PAGE_SIZE div PAGE_SIZE) = big_pages sz"
    by (simp add: unat_div big_pages_def add.commute [of "unat sz"])
  show "0 < big_pages sz" by (simp add: big_pages_def div_greater_zero_iff)
  have "(unat sz + 48 + 4095) mod 4096 < 4096" by simp
  moreover have "unat sz + 48 + 4095 = big_pages sz * 4096 + (unat sz + 48 + 4095) mod 4096"
    unfolding big_pages_def by (rule div_mult_mod_eq [symmetric])
  ultimately show "unat sz \<le> big_pages sz * 4096 - 48" by linarith
qed

lemma fresh_not_object:
  assumes r: "heap_rel s G cl" and n: "0 < n" and k: "k + n \<le> unat (max_pfn s) + 1"
    and free: "frame_ptrs s k n \<subseteq> frees s" and q: "q < n * 4096"
  shows "\<not> object s G (frame_va s k + of_nat q) c"
proof
  let ?p = "frame_va s k + of_nat q"
  assume "object s G ?p c"
  then obtain b m gl where g: "G b = Some (m, gl)" "?p \<in> slots b (slab_at s b) m" by (auto simp: object_def)
  have "0 < slot_size (slab_at s b) m"
    using r g(1) header_geometry(1) [of "slab_at s b" m gl] by (auto simp: heap_rel_def slab_ok_def)
  from object_bytes [OF r g this] have "\<not> ?p - frame_va s k < of_nat (n * 4096)"
    by (intro outside_fresh [OF r g(1) n k free]) simp_all
  moreover have "n * 4096 < 2 ^ 64" using frame_va_aligned(2) [OF _ n k] r by (simp add: heap_rel_def)
  then have "unat (of_nat (n * 4096) :: u64) = n * 4096" "unat (of_nat q :: u64) = q"
    using q by (intro unat_of_nat_small; simp)+
  then have "?p - frame_va s k < of_nat (n * 4096)" using q by (simp only: add_diff_cancel_left' word_less_nat_alt)
  ultimately show False by blast
qed

lemma kmalloc_big_rel:
  assumes r: "heap_rel s G cl" and sz: "unat sz + 48 + 4096 \<le> 2 ^ 64"
  defines "n \<equiv> big_pages sz"
  shows "(\<forall>k. \<not> run_free s k (of_nat n)) \<and> kmalloc_big me sz s = Some (NULL, s) \<or>
    (\<exists>p t G'. kmalloc_big me sz s = Some (p, t) \<and> p \<noteq> NULL \<and> heap_rel t G' cl \<and> kheap_lock t = kheap_lock s \<and>
      mem_kept s G t \<and> (\<forall>c. \<not> object s G p c) \<and>
      (\<forall>q c. object t G' q c \<longleftrightarrow> q = p \<and> c = n * 4096 - 32 \<or> object s G q c))"
proof -
  have rd: "pmm_ready s" and hh: "hhdm_ok s" and c: "caches_ok s G cl" using r by (auto simp: heap_rel_def)
  define w where "w = ALIGN_UP (slab_header + KHEAP_ALIGN + sz) PAGE_SIZE div PAGE_SIZE"
  have w': "unat w = n" "0 < n" "unat sz \<le> n * 4096 - 48" using big_pages_word [OF sz] unfolding w_def n_def by auto
  from w'(1) have "w = of_nat n" by auto
  note w = w' this
  have wn: "0 < unat w" using w by simp
  from alloc_run [OF rd wn, of me] consider
    (none) "\<forall>k. \<not> run_free s k w" "pmm_alloc_pages me w s = Some (NULL, s)"
    | (some) k t where "run_free s k w" "pmm_alloc_pages me w s = Some (page_ptr s (of_nat k), t)" "pmm_ready t"
      "mem_map t = mem_map s" "max_pfn t = max_pfn s" "frame_ptrs s k n \<subseteq> frees s" "last_ref t = last_ref s \<union> frame_ptrs s k n"
    unfolding w(1) by auto
  then show ?thesis
  proof cases
    case none
    then show ?thesis using w(4) by (simp add: kmalloc_big_def w_def [symmetric])
  next
    case (some k t)
    have k: "k + n \<le> unat (max_pfn s) + 1" "k \<le> unat (max_pfn s)" using some(1) w(1,2) by (auto simp: run_free_def)
    have v: "heap_view t = heap_view s" by (rule heap_view_alloc_pages [OF some(2)])
    define a where "a = frame_va s k"
    note addr = fresh_run_address [OF r some(3-5) v k(2), folded a_def]
    note al = frame_va_aligned [OF hh w(2) k(1), folded a_def]
    define z where "z = zero_mem a (w * PAGE_SIZE) t"
    have z: "z = zero_mem (frame_va s k) (of_nat (n * 4096)) t" by (simp add: z_def a_def w(4))
    note zf = zero_fresh [OF r w(2) k(1) some(6) v z]
    have none: "G a = None" unfolding a_def by (rule fresh_none [OF r w(2) k(1) some(6)])
    define h where "h = \<lparr>sl_next = NULL, sl_free_list = NULL, sl_magic = SLAB_MAGIC,
      sl_object_size = ucast (if 0xFFFF < sz then 0xFFFF else sz), sl_capacity = 1, sl_free_count = 0,
      sl_cache_index = BIG_CACHE_INDEX, sl_npages = ucast w\<rparr>"
    define u where "u = z\<lparr>slab_at := (slab_at z)(a := h)\<rparr>"
    have al2: "unat a + 4096 < 2 ^ 64" using al(2) w(2) by simp
    have hx: "x\<lparr>sl_magic := SLAB_MAGIC, sl_object_size := ucast (if 0xFFFF < sz then 0xFFFF else sz),
        sl_cache_index := BIG_CACHE_INDEX, sl_capacity := 1, sl_free_count := 0, sl_free_list := NULL,
        sl_next := NULL, sl_npages := ucast w\<rparr> = h" for x
      unfolding h_def by (rule slab.equality) simp_all
    have run: "kmalloc_big me sz s = Some (a + 32, u)"
      using some(2) addr object_start [OF al(1) al2]
      by (simp only: kmalloc_big_def w_def [symmetric] z_def [symmetric] Let_def upd_slab_def hx option.case prod.case if_False) (simp add: u_def)
    have hdr: "header_ok (slab_at u a) n []"
    proof -
      have "n < 2 ^ 32" using k(1) hh by (auto simp: hhdm_ok_def)
      then have "(ucast w :: u32) = of_nat n" using w(1) by (simp add: word_unat_eq_iff unat_ucast_mod unat_of_nat_small)
      moreover have "unat (if 0xFFFF < sz then 0xFFFF else sz) \<le> unat sz"
        by (simp add: word_less_nat_alt)
      then have "unat (ucast (if 0xFFFF < sz then 0xFFFF else sz) :: u16) \<le> unat sz"
        by (rule order_trans [OF unat_ucast_le])
      ultimately show ?thesis using w(3) by (simp add: u_def h_def header_ok_def)
    qed
    have sl: "slots a (slab_at u a) n = {a + 32}" "slot_size (slab_at u a) n = n * 4096 - 32"
      by (simp_all add: u_def h_def slots_def slot_size_def)
    have others: "slab_at u b = slab_at s b" if g: "G b \<noteq> None" for b
      using zf(1) [of b] none g by (cases "G b") (auto simp: u_def)
    have fw: "pmm_ready u" "mem_map u = mem_map s" "max_pfn u = max_pfn s" "hhdm_offset u = hhdm_offset s"
      "last_ref u = last_ref s \<union> frame_ptrs s k n"
      using pmm_eq_facts(1,2) [of t u] some v by (auto simp: pmm_eq_def heap_view_def u_def z_def zero_mem_def)
    have li: "link_at u p = link_at s p" if "G b = Some (m, gl)" "p \<in> slots b (slab_at s b) m" for p b m gl
      using zf(2) [OF that] by (simp add: u_def)
    have "caches u = caches s" using v by (simp add: u_def z_def zero_mem_def heap_view_def)
    then have "caches_ok u G cl" using caches_ok_frame [OF c _ none others] by simp
    then have cu: "caches_ok u (G(a \<mapsto> (n, []))) cl" using none unfolding caches_ok_def by force
    note hn = heap_rel_new [OF r w(2) k(1) some(6) fw a_def _ li hdr _ _ _ cu]
    have "heap_rel u (G(a \<mapsto> (n, []))) cl"
      "\<And>q c. object u (G(a \<mapsto> (n, []))) q c \<longleftrightarrow> q = a + 32 \<and> c = n * 4096 - 32 \<or> object s G q c"
      using hn others sl by (auto simp: u_def h_def)
    moreover have "mem_kept s G u" using zf(3) by (simp add: mem_kept_def u_def)
    moreover have "kheap_lock u = kheap_lock s" using v by (simp add: u_def z_def zero_mem_def heap_view_def)
    moreover have "unat (a + 32) = unat a + 32" using al2 by (subst unat_add_no_wrap) auto
    then have "a + 32 \<noteq> NULL" by auto
    moreover have "\<not> object s G (a + 32) c" for c
      using fresh_not_object [OF r w(2) k(1) some(6), of 32 c] w(2) by (simp add: a_def)
    ultimately show ?thesis using run by blast
  qed
qed

section \<open>Giving pages back\<close>

text \<open>A slab leaves the heap; its pages are still in use.\<close>

lemma heap_rel_drop:
  assumes r: "heap_rel s G cl" and a: "G a = Some (n, fl)" and lo: "links_only s t"
    and c: "caches_ok t (G(a := None)) cl'"
  shows "heap_rel t (G(a := None)) cl'" and "slab_ok t a n fl"
    and "\<And>b m gl. (G(a := None)) b = Some (m, gl) \<Longrightarrow> frames t a n \<inter> frames t b m = {}"
    and "object t (G(a := None)) q d \<longleftrightarrow> q \<notin> slots a (slab_at s a) n \<and> object s G q d"
proof -
  have e: "pmm_eq s t" and h: "\<And>b. same_header (slab_at s b) (slab_at t b)" using lo by (auto simp: links_only_def)
  note f = pmm_eq_facts [OF e]
  have dis: "frames s b m \<inter> frames s b' m' = {}"
    if "G b = Some (m, gl)" "G b' = Some (m', gl')" "b \<noteq> b'" for b b' m m' gl gl'
    using r that unfolding heap_rel_def by blast
  have ok: "slab_ok t b m gl" if "G b = Some (m, gl)" for b m gl
    using r that by (simp add: links_only_ok [OF lo] heap_rel_def)
  show "slab_ok t a n fl" by (rule ok [OF a])
  show "heap_rel t (G(a := None)) cl'"
    unfolding heap_rel_def f
  proof (intro conjI allI impI)
    show "pmm_ready s" "hhdm_ok s" using r by (auto simp: heap_rel_def)
    show "caches_ok t (G(a := None)) cl'" by (rule c)
    show "slab_ok t b m gl" if "(G(a := None)) b = Some (m, gl)" for b m gl
      using that by (intro ok) (simp split: if_splits)
    show "frames s b m \<inter> frames s b' m' = {}"
      if "(G(a := None)) b = Some (m, gl)" "(G(a := None)) b' = Some (m', gl')" "b \<noteq> b'" for b b' m m' gl gl'
      using that by (intro dis [of b m gl b' m' gl']) (simp_all split: if_splits)
  qed
  show "frames t a n \<inter> frames t b m = {}" if "(G(a := None)) b = Some (m, gl)" for b m gl
    unfolding f using that dis [OF a, of b m gl] by (auto split: if_splits)
  have "(\<exists>m hl. (G(a := None)) b = Some (m, hl) \<and> q \<in> slots b (slab_at t b) m \<and> q \<notin> set hl \<and> d = slot_size (slab_at t b) m) \<longleftrightarrow>
      b \<noteq> a \<and> (\<exists>m hl. G b = Some (m, hl) \<and> q \<in> slots b (slab_at s b) m \<and> q \<notin> set hl \<and> d = slot_size (slab_at s b) m)" for b
    by (simp add: same_header_fields [OF h])
  then have "object t (G(a := None)) q d \<longleftrightarrow>
      (\<exists>b. b \<noteq> a \<and> (\<exists>m hl. G b = Some (m, hl) \<and> q \<in> slots b (slab_at s b) m \<and> q \<notin> set hl \<and> d = slot_size (slab_at s b) m))"
    by (simp add: object_def)
  moreover have "q \<notin> slots a (slab_at s a) n" if "b \<noteq> a" "G b = Some (m, hl)" "q \<in> slots b (slab_at s b) m" for b m hl
    using slots_apart [OF r that(2) a that(1,3)] .
  moreover have "b \<noteq> a" if "q \<notin> slots a (slab_at s a) n" "G b = Some (m, hl)" "q \<in> slots b (slab_at s b) m" for b m hl
    using that a by auto
  ultimately show "object t (G(a := None)) q d \<longleftrightarrow> q \<notin> slots a (slab_at s a) n \<and> object s G q d"
    unfolding object_def by blast
qed

lemma slab_destroy_release:
  assumes ok: "slab_ok s a n fl" and rd: "pmm_ready s" and hh: "hhdm_ok s"
  shows "slab_destroy me a s = release_each me (map (\<lambda>j. page_ptr s (of_nat j)) [frame_no s a ..< frame_no s a + n]) s"
    and "distinct (map (\<lambda>j. page_ptr s (of_nat j)) [frame_no s a ..< frame_no s a + n])"
proof -
  define k where "k = frame_no s a"
  have n: "0 < n" and k: "k + n \<le> unat (max_pfn s) + 1" and a: "a = frame_va s k" "a \<noteq> NULL"
    using ok slab_base(3) [OF ok hh] by (auto simp: slab_ok_def k_def)
  have wf: "db_wf s" using rd by (auto simp: pmm_ready_def pmm_idle_def pmm_rel_def)
  have le: "of_nat j \<le> max_pfn s \<and> unat (of_nat j :: u64) = j" if "j < k + n" for j
  proof -
    have "j \<le> unat (max_pfn s)" using that k by simp
    from unat_of_nat_le [OF this] this show ?thesis by (simp add: word_le_nat_alt)
  qed
  have pg: "pfn_db_phys_to_page s (VIRT_TO_PHYS s a) = page_ptr s (of_nat k)"
    using phys_to_page_ptr [OF wf, of "of_nat k"] le [of k] n by (simp add: a(1) frame_va_def PHYS_TO_VIRT_def VIRT_TO_PHYS_def)
  have nn: "page_ptr s (of_nat k) \<noteq> NULL" using le [of k] n by (intro page_ptr_not_NULL [OF wf]) simp
  have "n < 2 ^ 32" using k hh by (auto simp: hhdm_ok_def)
  then have np: "unat (sl_npages (slab_at s a)) = n" using ok by (simp add: slab_ok_def header_ok_def unat_of_nat_small)
  then have np64: "unat (ucast (sl_npages (slab_at s a)) :: u64) = n"
    using \<open>n < 2 ^ 32\<close> by (simp add: unat_ucast_mod)
  have one: "1 < sl_npages (slab_at s a) \<longleftrightarrow> 1 < n" using np by (simp add: word_less_nat_alt)
  have ptrs: "map (\<lambda>i. page_ptr s (of_nat k) + of_nat i * 64) [0 ..< n] = map (\<lambda>j. page_ptr s (of_nat j)) [k ..< k + n]"
    by (rule nth_equalityI) (simp_all add: page_ptr_def distrib_right add.assoc)
  show "slab_destroy me a s = release_each me (map (\<lambda>j. page_ptr s (of_nat j)) [k ..< k + n]) s"
  proof (cases "1 < n")
    case True
    then show ?thesis
      using a(2) nn one by (simp add: slab_destroy_def Let_def pg pmm_pages_release_def np64 ptrs)
  next
    case False
    then have "n = 1" using n by simp
    then show ?thesis
      using a(2) nn one by (simp add: slab_destroy_def Let_def pg split: option.splits)
  qed
  show "distinct (map (\<lambda>j. page_ptr s (of_nat j)) [k ..< k + n])"
  proof (simp add: distinct_map, rule inj_onI)
    fix i j assume ij: "i \<in> {k ..< k + n}" "j \<in> {k ..< k + n}" and eq: "page_ptr s (of_nat i) = page_ptr s (of_nat j)"
    have i: "i < k + n" and j: "j < k + n" using ij by auto
    have "(of_nat i :: u64) = of_nat j"
      using page_ptr_inj [OF wf conjunct1 [OF le [OF i]] conjunct1 [OF le [OF j]]] eq by blast
    then show "i = j" using le [OF i] le [OF j] by metis
  qed
qed

text \<open>\<^verbatim>\<open>slab_destroy\<close> on a slab that has left the heap gives its pages back.\<close>

lemma slab_destroy_rel:
  assumes r: "heap_rel s G cl" and ok: "slab_ok s a n fl"
    and dis: "\<And>b m gl. G b = Some (m, gl) \<Longrightarrow> frames s a n \<inter> frames s b m = {}"
  shows "\<exists>t. slab_destroy me a s = Some ((), t) \<and> heap_rel t G cl \<and> heap_view t = heap_view s \<and>
    frees t = frees s \<union> frame_ptrs s (frame_no s a) n \<and> (\<forall>q d. object t G q d \<longleftrightarrow> object s G q d)"
proof -
  have rd: "pmm_ready s" and hh: "hhdm_ok s" using r by (auto simp: heap_rel_def)
  have wf: "db_wf s" using rd by (auto simp: pmm_ready_def pmm_idle_def pmm_rel_def)
  let ?ps = "map (\<lambda>j. page_ptr s (of_nat j)) [frame_no s a ..< frame_no s a + n]"
  note d = slab_destroy_release(1) [OF ok rd hh, of me] slab_destroy_release(2) [OF ok rd hh]
  have "set ?ps \<subseteq> last_ref s" using ok by (auto simp: slab_ok_def frames_def)
  from release_run [OF rd d(2) this, of me] obtain t where
    t: "release_each me ?ps s = Some ((), t)" "pmm_ready t" "mem_map t = mem_map s" "max_pfn t = max_pfn s"
      "frees t = frees s \<union> set ?ps" "last_ref t = last_ref s - set ?ps"
    by blast
  have v: "heap_view t = heap_view s" by (rule heap_view_release_each [OF t(1)])
  then have hv: "slab_at t = slab_at s" "link_at t = link_at s" "caches t = caches s" "hhdm_offset t = hhdm_offset s"
    by (simp_all add: heap_view_def)
  have same: "frame_no t = frame_no s" "frames t = frames s" "frame_va t = frame_va s" "page_ptr t = page_ptr s" "hhdm_ok t = hhdm_ok s"
    using t hv by (auto simp: frame_no_def frames_def frame_va_def PHYS_TO_VIRT_def page_ptr_def hhdm_ok_def fun_eq_iff)
  have keep: "page_ptr s (of_nat j) \<notin> set ?ps" if g: "G b = Some (m, gl)" "j \<in> frames s b m" for b m gl j
  proof
    assume "page_ptr s (of_nat j) \<in> set ?ps"
    then obtain i where i: "i \<in> frames s a n" "page_ptr s (of_nat j) = page_ptr s (of_nat i)" by (auto simp: frames_def)
    have "slab_ok s b m gl" using r g by (simp add: heap_rel_def)
    then have "i \<le> unat (max_pfn s)" "j \<le> unat (max_pfn s)" using ok i(1) g(2) by (auto simp: slab_ok_def frames_def)
    then have "i = j"
      using page_ptr_inj [OF wf, of "of_nat j" "of_nat i"] i(2) unat_of_nat_le [of i "max_pfn s"] unat_of_nat_le [of j "max_pfn s"]
      by (auto simp: word_le_nat_alt)
    then show False using dis [OF g(1)] i(1) g(2) by blast
  qed
  have "slab_ok t b m gl" if g: "G b = Some (m, gl)" for b m gl
  proof -
    have "slab_ok s b m gl" using r g by (simp add: heap_rel_def)
    then show ?thesis using keep [OF g] t by (auto simp: slab_ok_def same hv)
  qed
  moreover have "caches_ok t G cl" using r by (simp add: heap_rel_def caches_ok_def hv)
  ultimately have "heap_rel t G cl" using r t(2) by (simp add: heap_rel_def same)
  moreover have "\<forall>q d. object t G q d \<longleftrightarrow> object s G q d" by (simp add: object_def hv)
  moreover have "set ?ps = frame_ptrs s (frame_no s a) n" by (simp add: frame_ptrs_def)
  ultimately show ?thesis using d(1) t v by auto
qed

section \<open>The lock around an operation\<close>

lemma kheap_lock_upd [simp]:
  "heap_rel (s\<lparr>kheap_lock := l\<rparr>) G cl = heap_rel s G cl" "object (s\<lparr>kheap_lock := l\<rparr>) G q c = object s G q c"
  "mem_kept (s\<lparr>kheap_lock := l\<rparr>) G t = mem_kept s G t" "mem_kept s G (t\<lparr>kheap_lock := l\<rparr>) = mem_kept s G t"
  "run_free (s\<lparr>kheap_lock := l\<rparr>) k n = run_free s k n" "caches_ok (s\<lparr>kheap_lock := l\<rparr>) G cl = caches_ok s G cl"
  "slab_ok (s\<lparr>kheap_lock := l\<rparr>) a m fl = slab_ok s a m fl" "cache_for_size z (s\<lparr>kheap_lock := l\<rparr>) = cache_for_size z s"
  "frames (s\<lparr>kheap_lock := l\<rparr>) = frames s"
proof -
  let ?t = "s\<lparr>kheap_lock := l\<rparr>"
  note f = pmm_eq_facts [of s ?t]
  have e: "pmm_eq s ?t" by (simp add: pmm_eq_def)
  show fr: "frames ?t = frames s" by (rule f(7) [OF e])
  show ok: "slab_ok ?t a m fl = slab_ok s a m fl" for a m fl using e by (simp add: slab_ok_def f)
  show c: "caches_ok ?t G cl = caches_ok s G cl" by (simp add: caches_ok_def)
  show "heap_rel ?t G cl = heap_rel s G cl" using e by (simp add: heap_rel_def f ok c fr)
  show o: "object ?t G q c = object s G q c" for q c by (simp add: object_def)
  show "mem_kept ?t G t = mem_kept s G t" "mem_kept s G (t\<lparr>kheap_lock := l\<rparr>) = mem_kept s G t"
    by (simp_all add: mem_kept_def o)
  show "run_free ?t k n = run_free s k n" using e by (simp add: run_free_def pmm_eq_def page_ptr_def)
  show "cache_for_size z ?t = cache_for_size z s" by (simp add: cache_for_size_def)
qed

text \<open>An operation between taking and giving back the lock.\<close>

lemma cache_for_size_heap:
  assumes r: "heap_rel s G cl"
  shows "case cache_for_size z s of Some i \<Rightarrow> i < 8 \<and> unat z \<le> unat (cache_sizes ! i) | None \<Rightarrow> 2048 < unat z"
proof -
  have o: "c_object_size (caches s i) = cache_sizes ! i" if "i < 8" for i using r that by (simp add: heap_rel_def caches_ok_def)
  have u: "z \<le> ucast (cache_sizes ! i) \<longleftrightarrow> unat z \<le> unat (cache_sizes ! i)" for i
  proof -
    have "unat (cache_sizes ! i) < 2 ^ 64" using unat_bound [of "cache_sizes ! i"] by simp
    then show ?thesis by (simp add: word_le_nat_alt unat_ucast_mod)
  qed
  show ?thesis
  proof (cases "cache_for_size z s")
    case None
    then have "\<not> z \<le> ucast (c_object_size (caches s 7))" by (auto simp: cache_for_size_def find_None_iff)
    then show ?thesis using None o [of 7] u [of 7] by (simp add: cache_sizes_def)
  next
    case (Some i)
    then have "i < 8" "z \<le> ucast (c_object_size (caches s i))" by (auto simp: cache_for_size_def find_Some_iff)
    then show ?thesis using Some o [of i] u [of i] by simp
  qed
qed

definition bytes_kept :: "(u64 \<Rightarrow> nat option) \<Rightarrow> mem \<Rightarrow> mem \<Rightarrow> bool" where
  "bytes_kept L m m' \<longleftrightarrow> (\<forall>p c q. L p = Some c \<longrightarrow> q < c \<longrightarrow> m' (p + of_nat q) = m (p + of_nat q))"

lemma bytes_kept_trans: "bytes_kept L m m' \<Longrightarrow> bytes_kept L m' m'' \<Longrightarrow> bytes_kept L m m''"
  by (simp add: bytes_kept_def)

lemma bytes_kept_new: "bytes_kept (L(p \<mapsto> c)) m m' \<Longrightarrow> L p = None \<Longrightarrow> bytes_kept L m m'"
  unfolding bytes_kept_def by (metis fun_upd_other option.distinct(1))

text \<open>The number of pages that must be free in a row for a request to succeed for certain.\<close>

definition pages_for :: "u64 \<Rightarrow> nat" where
  "pages_for sz = (let z = ALIGN_UP sz KHEAP_ALIGN in if unat z \<le> 2048 then 1 else big_pages z)"

lemma unat_ALIGN_16:
  assumes "unat sz + 16 \<le> 2 ^ 64"
  shows "unat sz \<le> unat (ALIGN_UP sz KHEAP_ALIGN)" and "unat (ALIGN_UP sz KHEAP_ALIGN) \<le> unat sz + 15"
proof -
  have u: "unat (ALIGN_UP sz KHEAP_ALIGN) = (unat sz + 15) div 16 * 16"
    unfolding KHEAP_ALIGN_def using assms by (subst unat_ALIGN_UP) simp_all
  have "(unat sz + 15) mod 16 < 16" by simp
  moreover have "unat sz + 15 = (unat sz + 15) div 16 * 16 + (unat sz + 15) mod 16" by (rule div_mult_mod_eq [symmetric])
  ultimately show "unat sz \<le> unat (ALIGN_UP sz KHEAP_ALIGN)" "unat (ALIGN_UP sz KHEAP_ALIGN) \<le> unat sz + 15"
    unfolding u by linarith+
qed

lemma kmalloc_heap:
  assumes h: "heap s L" and sz: "sz \<noteq> 0" "unat sz + 8192 \<le> 2 ^ 64"
  shows "(\<forall>k. \<not> run_free s k (of_nat (pages_for sz))) \<and> kmalloc me sz s = Some (NULL, s) \<or>
    (\<exists>p t c. kmalloc me sz s = Some (p, t) \<and> p \<noteq> NULL \<and> L p = None \<and> unat sz \<le> c \<and> heap t (L(p \<mapsto> c)) \<and>
      bytes_kept L (heap_mem s) (heap_mem t))"
proof -
  from h obtain G cl where l: "lock_free (kheap_lock s)" and r: "heap_rel s G cl" and L: "\<forall>p c. L p = Some c \<longleftrightarrow> object s G p c"
    by (auto simp: heap_def)
  define z where "z = ALIGN_UP sz KHEAP_ALIGN"
  define s1 where "s1 = s\<lparr>kheap_lock := (kheap_lock s)\<lparr>locked := 1, owner := me\<rparr>\<rparr>"
  have z: "unat sz \<le> unat z" "unat z \<le> unat sz + 15" using unat_ALIGN_16 [of sz] sz(2) by (simp_all add: z_def)
  have r1: "heap_rel s1 G cl" and bk: "release_heap me s1 = s"
    using r l by (simp_all add: s1_def release_heap_def)
  have run: "kmalloc me sz s = map_option (\<lambda>(p, t). (p, release_heap me t))
      (case cache_for_size z s1 of None \<Rightarrow> kmalloc_big me z s1 | Some i \<Rightarrow> kmalloc_small me i s1)"
    using sz(1) l by (simp add: kmalloc_def z_def [symmetric] acquire_heap_def s1_def [symmetric] Let_def)
  have fin: "heap (release_heap me t) (L(p \<mapsto> c)) \<and> bytes_kept L (heap_mem s) (heap_mem (release_heap me t)) \<and> L p = None"
    if t: "heap_rel t G' cl'" "kheap_lock t = kheap_lock s1" "mem_kept s1 G t" "\<forall>c. \<not> object s1 G p c"
      "\<forall>q d. object t G' q d \<longleftrightarrow> q = p \<and> d = c \<or> object s1 G q d" for t p c G' cl'
  proof -
    have o: "object s1 G q d \<longleftrightarrow> object s G q d" for q d by (simp add: s1_def)
    have np: "L p = None" using L t(4) o by (metis option.exhaust)
    have "lock_free (kheap_lock (release_heap me t))" using t(2) l by (simp add: release_heap_def s1_def)
    moreover have "heap_rel (release_heap me t) G' cl'" using t(1) by (simp add: release_heap_def)
    moreover have "(L(p \<mapsto> c)) q = Some d \<longleftrightarrow> object (release_heap me t) G' q d" for q d
      using t(4,5) L o by (auto simp: release_heap_def)
    ultimately have "heap (release_heap me t) (L(p \<mapsto> c))" unfolding heap_def by blast
    moreover have "bytes_kept L (heap_mem s) (heap_mem (release_heap me t))"
      using t(3) L o by (simp add: bytes_kept_def mem_kept_def release_heap_def s1_def)
    ultimately show ?thesis using np by simp
  qed
  show ?thesis
  proof (cases "cache_for_size z s1")
    case (Some i)
    then have i: "i < 8" "unat z \<le> unat (cache_sizes ! i)" using cache_for_size_heap [OF r1, of z] by auto
    have "unat (cache_sizes ! i) \<le> 2048" using i(1) by (rule cache_sizes_cases) simp_all
    then have pf: "pages_for sz = 1" using i(2) by (simp add: pages_for_def z_def Let_def)
    from kmalloc_small_rel [OF r1 i(1), of me] show ?thesis
    proof (elim disjE conjE exE)
      fix p t G' cl'
      assume a: "kmalloc_small me i s1 = Some (p, t)" "p \<noteq> NULL" "heap_rel t G' cl'" "kheap_lock t = kheap_lock s1"
        "mem_kept s1 G t" "\<forall>c. \<not> object s1 G p c"
        "\<forall>q c. object t G' q c \<longleftrightarrow> q = p \<and> c = unat (cache_sizes ! i) \<or> object s1 G q c"
      from fin [OF a(3-7)] a(1,2) show ?thesis using run Some le_trans [OF z(1) i(2)] by auto
    qed (use run Some bk pf in \<open>simp add: s1_def\<close>)
  next
    case None
    then have z2: "2048 < unat z" using cache_for_size_heap [OF r1, of z] by simp
    then have pf: "pages_for sz = big_pages z" by (simp add: pages_for_def z_def Let_def)
    have zb: "unat z + 48 + 4096 \<le> 2 ^ 64" using z(2) sz(2) by simp
    have big: "unat sz \<le> big_pages z * 4096 - 32" using big_pages_word(3) [OF zb] z(1) by simp
    from kmalloc_big_rel [OF r1 zb, of me] show ?thesis
    proof (elim disjE conjE exE)
      fix p t G'
      assume a: "kmalloc_big me z s1 = Some (p, t)" "p \<noteq> NULL" "heap_rel t G' cl" "kheap_lock t = kheap_lock s1"
        "mem_kept s1 G t" "\<forall>c. \<not> object s1 G p c"
        "\<forall>q c. object t G' q c \<longleftrightarrow> q = p \<and> c = big_pages z * 4096 - 32 \<or> object s1 G q c"
      from fin [OF a(3-7)] a(1,2) show ?thesis using run None big by auto
    qed (use run None bk pf in \<open>simp add: s1_def\<close>)
  qed
qed

section \<open>Freeing\<close>

lemma live_slab:
  assumes "heap_rel s G cl" and "object s G p c"
  obtains n fl where "G (page_base p) = Some (n, fl)" "p \<in> slots (page_base p) (slab_at s (page_base p)) n" "p \<notin> set fl"
    "c = slot_size (slab_at s (page_base p)) n" "slab_ok s (page_base p) n fl" "p \<noteq> NULL"
proof -
  from assms(2) obtain a n fl where a: "G a = Some (n, fl)" "p \<in> slots a (slab_at s a) n" "p \<notin> set fl" "c = slot_size (slab_at s a) n"
    by (auto simp: object_def)
  have ok: "slab_ok s a n fl" and hh: "hhdm_ok s" using assms(1) a(1) by (auto simp: heap_rel_def)
  have "page_base p = a" by (rule slot_page_base [OF ok hh a(2)])
  moreover have "p \<noteq> NULL" using slot_not_small [OF ok hh a(2)] by auto
  ultimately show thesis using that a ok by simp
qed

text \<open>The checks of \<^verbatim>\<open>kfree\<close> pass for an object in use.\<close>

lemma kfree_checks:
  assumes ok: "slab_ok s a n fl" and hh: "hhdm_ok s" and p: "p \<in> slots a (slab_at s a) n"
  shows "sl_magic (slab_at s a) = SLAB_MAGIC" and "\<not> a + ucast (sl_npages (slab_at s a)) * PAGE_SIZE \<le> p"
proof -
  show "sl_magic (slab_at s a) = SLAB_MAGIC" using ok by (simp add: slab_ok_def header_ok_def)
  have top: "unat a + 4096 * n < 2 ^ 64" and n: "0 < n" using slab_base(4) [OF ok hh] ok by (auto simp: slab_ok_def)
  have "n < 2 ^ 32" using ok hh by (auto simp: slab_ok_def hhdm_ok_def)
  then have "unat (ucast (sl_npages (slab_at s a)) :: u64) = n"
    using ok by (simp add: slab_ok_def header_ok_def unat_of_nat_small unat_ucast_mod)
  then have "unat (ucast (sl_npages (slab_at s a)) * 0x1000 :: u64) = n * 4096"
    using top by (subst unat_mult_no_wrap) auto
  then have e: "unat (a + ucast (sl_npages (slab_at s a)) * 0x1000) = unat a + n * 4096"
    using top by (subst unat_add_no_wrap) auto
  obtain k where "unat p = unat a + 32 + k * slot_size (slab_at s a) n" "32 + k * slot_size (slab_at s a) n < 4096"
    by (rule slot_place [OF ok hh p])
  then have "unat p < unat a + n * 4096" using n by simp
  then show "\<not> a + ucast (sl_npages (slab_at s a)) * PAGE_SIZE \<le> p" by (simp add: word_le_nat_alt e)
qed

lemma caches_ok_forget:
  assumes "caches_ok s G cl" and "G a = Some (n, [])"
  shows "caches_ok s (G(a := None)) cl"
proof -
  have "(\<exists>n fl. (G(a := None)) b = Some (n, fl) \<and> fl \<noteq> [] \<and> unat (sl_cache_index (slab_at s b)) = i) \<longleftrightarrow>
      (\<exists>n fl. G b = Some (n, fl) \<and> fl \<noteq> [] \<and> unat (sl_cache_index (slab_at s b)) = i)" for b i
    using assms(2) by (cases "b = a") auto
  then show ?thesis using assms(1) by (simp add: caches_ok_def)
qed

text \<open>The last step of \<^verbatim>\<open>kfree\<close> when a slab goes back to the page allocator.\<close>

lemma heap_give_back:
  assumes r: "heap_rel s G cl" and a: "G a = Some (n, fl)" and lo: "links_only s t" and c: "caches_ok t (G(a := None)) cl'"
    and l: "lock_free l" and L: "\<forall>q d. L q = Some d \<longleftrightarrow> q \<notin> slots a (slab_at s a) n \<and> object s G q d"
  shows "\<exists>u. slab_destroy me a (t\<lparr>kheap_lock := l\<rparr>) = Some ((), u) \<and> heap u L \<and> heap_mem u = heap_mem s"
proof -
  note d = heap_rel_drop [OF r a lo c]
  have A: "heap_rel (t\<lparr>kheap_lock := l\<rparr>) (G(a := None)) cl'" and B: "slab_ok (t\<lparr>kheap_lock := l\<rparr>) a n fl"
    using d(1,2) by simp_all
  have C: "frames (t\<lparr>kheap_lock := l\<rparr>) a n \<inter> frames (t\<lparr>kheap_lock := l\<rparr>) b m = {}" if "(G(a := None)) b = Some (m, gl)" for b m gl
    using d(3) [OF that] by simp
  have "\<exists>u. slab_destroy me a (t\<lparr>kheap_lock := l\<rparr>) = Some ((), u) \<and> heap_rel u (G(a := None)) cl' \<and>
      heap_view u = heap_view (t\<lparr>kheap_lock := l\<rparr>) \<and>
      frees u = frees (t\<lparr>kheap_lock := l\<rparr>) \<union> frame_ptrs (t\<lparr>kheap_lock := l\<rparr>) (frame_no (t\<lparr>kheap_lock := l\<rparr>) a) n \<and>
      (\<forall>q d. object u (G(a := None)) q d \<longleftrightarrow> object (t\<lparr>kheap_lock := l\<rparr>) (G(a := None)) q d)"
    by (rule slab_destroy_rel [OF A B]) (rule C)
  then obtain u where
    u: "slab_destroy me a (t\<lparr>kheap_lock := l\<rparr>) = Some ((), u)" "heap_rel u (G(a := None)) cl'"
      "heap_view u = heap_view (t\<lparr>kheap_lock := l\<rparr>)" "\<forall>q d. object u (G(a := None)) q d \<longleftrightarrow> object t (G(a := None)) q d"
    by auto
  have "kheap_lock u = l" "heap_mem u = heap_mem s" using u(3) lo by (simp_all add: heap_view_def links_only_def)
  moreover have "\<forall>q d. L q = Some d \<longleftrightarrow> object u (G(a := None)) q d" using L u(4) d(4) by simp
  ultimately show ?thesis using u(1,2) l unfolding heap_def by blast
qed

lemma kfree_heap:
  assumes h: "heap s L" and p: "L p = Some c"
  shows "\<exists>t. kfree me p s = Some ((), t) \<and> heap t (L(p := None)) \<and> heap_mem t = heap_mem s"
proof -
  from h obtain G cl where l: "lock_free (kheap_lock s)" and r: "heap_rel s G cl" and L: "\<forall>p c. L p = Some c \<longleftrightarrow> object s G p c"
    by (auto simp: heap_def)
  define a where "a = page_base p"
  obtain n fl where a: "G a = Some (n, fl)" "p \<in> slots a (slab_at s a) n" "p \<notin> set fl" "c = slot_size (slab_at s a) n"
    "slab_ok s a n fl" "p \<noteq> NULL"
    using live_slab [OF r, of p c] L p unfolding a_def by blast
  have hh: "hhdm_ok s" and ch: "caches_ok s G cl" using r by (auto simp: heap_rel_def)
  define l1 where "l1 = (kheap_lock s)\<lparr>locked := 1, owner := me\<rparr>"
  define s1 where "s1 = s\<lparr>kheap_lock := l1\<rparr>"
  have s1: "slab_at s1 = slab_at s" "caches s1 = caches s" by (simp_all add: s1_def)
  have r1: "heap_rel s1 G cl" and ok1: "slab_ok s1 a n fl" using r a(5) by (simp_all add: s1_def)
  have unl: "release_heap me t = t\<lparr>kheap_lock := kheap_lock s\<rparr>" if "kheap_lock t = l1" for t :: "'a kheap_scheme"
    using that l by (simp add: release_heap_def l1_def)
  have acq: "acquire_heap me s = Some s1" using l by (simp add: acquire_heap_def s1_def l1_def)
  note chk = kfree_checks [OF a(5) hh a(2)]
  show ?thesis
  proof (cases "sl_cache_index (slab_at s a) = BIG_CACHE_INDEX \<or> sl_capacity (slab_at s a) = 1")
    case True
    have "header_ok (slab_at s a) n fl" using a(5) by (simp add: slab_ok_def)
    then have cap: "unat (sl_capacity (slab_at s a)) = 1" using True by (auto simp: header_ok_def)
    have sl: "slots a (slab_at s a) n = {p}" using a(2) cap by (auto simp: slots_def)
    then have "fl = []" using a(3,5) by (cases fl) (auto simp: slab_ok_def)
    then have "caches_ok s1 (G(a := None)) cl" using ch a(1) by (intro caches_ok_forget) (simp_all add: s1_def)
    moreover have "\<forall>q d. (L(p := None)) q = Some d \<longleftrightarrow> q \<notin> slots a (slab_at s1 a) n \<and> object s1 G q d"
      using L sl by (simp add: s1_def)
    moreover have "links_only s1 s1" by (simp add: links_only_def)
    ultimately obtain u where "slab_destroy me a (s1\<lparr>kheap_lock := kheap_lock s\<rparr>) = Some ((), u)" "heap u (L(p := None))" "heap_mem u = heap_mem s1"
      using heap_give_back [OF r1 a(1) _ _ l, of s1 cl "L(p := None)" me] by blast
    moreover have "kfree me p s = slab_destroy me a (s1\<lparr>kheap_lock := kheap_lock s\<rparr>)"
      using a(6) chk True acq unl [of s1] by (simp add: kfree_def a_def [symmetric] s1 Let_def) (simp add: s1_def)
    ultimately show ?thesis by (auto simp: s1_def)
  next
    case False
    define i where "i = unat (sl_cache_index (slab_at s a))"
    have "header_ok (slab_at s a) n fl" using a(5) by (simp add: slab_ok_def)
    then have i: "i < 8" using False by (auto simp: header_ok_def i_def split: if_splits)
    have ii: "unat (sl_cache_index (slab_at s1 a)) = i" by (simp add: s1 i_def)
    define t where "t = returned i a p s1"
    obtain cl' where t: "heap_rel t (G(a \<mapsto> (n, p # fl))) cl'" "pmm_eq s1 t" "heap_mem t = heap_mem s1" "kheap_lock t = l1"
      "\<forall>q c. object t (G(a \<mapsto> (n, p # fl))) q c \<longleftrightarrow> q \<noteq> p \<and> object s1 G q c"
      "unat (sl_cache_index (slab_at t a)) = i"
      using returned_rel [OF r1 a(1) _ a(3) ii i] a(2) unfolding t_def by (auto simp: s1_def i_def)
    have run: "kfree me p s = (if sl_free_count (slab_at t a) = sl_capacity (slab_at t a) \<and> 1 < c_slab_count (caches t i)
        then case cache_remove_slab i a t of None \<Rightarrow> None | Some s5 \<Rightarrow> slab_destroy me a (release_heap me s5)
        else Some ((), release_heap me t))"
      using a(6) chk False acq
      by (simp add: kfree_def a_def [symmetric] s1 Let_def t_def returned_def i_def [symmetric])
    have LL: "(L(p := None)) q = Some d \<longleftrightarrow> object t (G(a \<mapsto> (n, p # fl))) q d" for q d
      using L t(5) by (simp add: s1_def)
    show ?thesis
    proof (cases "sl_free_count (slab_at t a) = sl_capacity (slab_at t a) \<and> 1 < c_slab_count (caches t i)")
      case False
      have "heap (t\<lparr>kheap_lock := kheap_lock s\<rparr>) (L(p := None))"
        unfolding heap_def using t(1) l LL by auto
      then show ?thesis using run False unl [OF t(4)] t(3) by (simp add: s1_def)
    next
      case True
      let ?H = "G(a \<mapsto> (n, p # fl))"
      have Ha: "?H a = Some (n, p # fl)" by simp
      have okt: "slab_ok t a n (p # fl)" and ct: "caches_ok t ?H cl'" using t(1) by (simp_all add: heap_rel_def)
      have len: "length (p # fl) = unat (sl_capacity (slab_at t a))" using free_list_length(2) [OF okt] True by simp
      have fin: "finite (slots a (slab_at t a) n)" "card (slots a (slab_at t a) n) \<le> unat (sl_capacity (slab_at t a))"
        unfolding slots_def using card_image_le [of "{0 ..< unat (sl_capacity (slab_at t a))}"] by auto
      have "set (p # fl) = slots a (slab_at t a) n"
        by (rule card_seteq [OF fin(1)]) (use okt fin(2) len distinct_card [of "p # fl"] in \<open>auto simp: slab_ok_def\<close>)
      then have "\<not> object t ?H q d" if "q \<in> slots a (slab_at t a) n" for q d
        using object_in_slab [OF t(1) Ha that] that by blast
      then have L': "\<forall>q d. (L(p := None)) q = Some d \<longleftrightarrow> q \<notin> slots a (slab_at t a) n \<and> object t ?H q d" using LL by blast
      have "a \<in> set (cl' i)" using ct i t(6) Ha unfolding caches_ok_def by blast
      then obtain u where u: "cache_remove_slab i a t = Some u" "caches_ok u (?H(a := None)) (cl'(i := remove1 a (cl' i)))" "links_only t u"
        using cache_remove_slab_ok [OF ct i _ cache_length [OF t(1) i], of a "?H(a := None)"] by auto
      have "kheap_lock u = l1" using u(3) t(4) by (simp add: links_only_def)
      then show ?thesis
        using heap_give_back [where L = "L(p := None)" and me = me, OF t(1) Ha u(3,2) l L'] run True u(1) unl [of u] t(3) by (simp add: s1_def)
    qed
  qed
qed

section \<open>The interface to the rest of the kernel\<close>

text \<open>
  What the file systems, the task manager and the device code rely on: \<open>live\<close> relates a state to the
  objects in use and their sizes. An allocation adds one object or changes nothing, freeing an
  object removes it, and neither touches the bytes of the others.
\<close>

locale object_allocator =
  fixes live :: "'s \<Rightarrow> (u64 \<Rightarrow> nat option) \<Rightarrow> bool" and bytes :: "'s \<Rightarrow> mem" and valid :: "u64 \<Rightarrow> bool"
    and alloc :: "u64 \<Rightarrow> 's \<Rightarrow> (u64 \<times> 's) option" and dealloc :: "u64 \<Rightarrow> 's \<Rightarrow> (unit \<times> 's) option"
  assumes alloc_law: "live s L \<Longrightarrow> valid sz \<Longrightarrow> alloc sz s = Some (NULL, s) \<or>
      (\<exists>p t c. alloc sz s = Some (p, t) \<and> p \<noteq> NULL \<and> L p = None \<and> unat sz \<le> c \<and> live t (L(p \<mapsto> c)) \<and>
        bytes_kept L (bytes s) (bytes t))"
    and dealloc_law: "live s L \<Longrightarrow> L p = Some c \<Longrightarrow>
      \<exists>t. dealloc p s = Some ((), t) \<and> live t (L(p := None)) \<and> bytes t = bytes s"
    and live_apart: "live s L \<Longrightarrow> L p = Some c \<Longrightarrow> L q = Some d \<Longrightarrow> p \<noteq> q \<Longrightarrow>
      unat p + c \<le> unat q \<or> unat q + d \<le> unat p"
begin

lemma alloc_dealloc:
  assumes "live s L" and "valid sz" and "alloc sz s = Some (p, t)" and "p \<noteq> NULL"
  shows "\<exists>u. dealloc p t = Some ((), u) \<and> live u L \<and> bytes_kept L (bytes s) (bytes u)"
proof -
  obtain c where c: "L p = None" "live t (L(p \<mapsto> c))" "bytes_kept L (bytes s) (bytes t)"
    using alloc_law [OF assms(1,2)] assms(3,4) by auto
  from dealloc_law [OF c(2), of p c] obtain u where "dealloc p t = Some ((), u)" "live u (L(p := None))" "bytes u = bytes t"
    by auto
  moreover have "L(p := None) = L" using c(1) by (simp add: fun_upd_idem)
  ultimately show ?thesis using c(3) by auto
qed

text \<open>Objects allocated one after the other are different and all in use.\<close>

fun alloc_all :: "u64 list \<Rightarrow> 's \<Rightarrow> (u64 list \<times> 's) option" where
  "alloc_all [] s = Some ([], s)"
| "alloc_all (z # zs) s =
     (case alloc z s of None \<Rightarrow> None
      | Some (p, t) \<Rightarrow> (case alloc_all zs t of None \<Rightarrow> None | Some (ps, u) \<Rightarrow> Some (p # ps, u)))"

lemma alloc_all_live:
  "live s L \<Longrightarrow> \<forall>z \<in> set zs. valid z \<Longrightarrow>
   \<exists>ps t M. alloc_all zs s = Some (ps, t) \<and> live t M \<and> L \<subseteq>\<^sub>m M \<and> length ps = length zs \<and>
     distinct (filter (\<lambda>p. p \<noteq> NULL) ps) \<and>
     (\<forall>p \<in> set ps. p \<noteq> NULL \<longrightarrow> L p = None \<and> M p \<noteq> None) \<and> bytes_kept L (bytes s) (bytes t)"
proof (induction zs arbitrary: s L)
  case Nil
  then show ?case by (auto simp: bytes_kept_def)
next
  case (Cons z zs)
  have v: "valid z" "\<forall>z \<in> set zs. valid z" using Cons.prems(2) by auto
  from alloc_law [OF Cons.prems(1) v(1)] show ?case
  proof (elim disjE exE conjE)
    assume a: "alloc z s = Some (NULL, s)"
    from Cons.IH [OF Cons.prems(1) v(2)] obtain ps t M where
      "alloc_all zs s = Some (ps, t)" "live t M" "L \<subseteq>\<^sub>m M" "length ps = length zs"
      "distinct (filter (\<lambda>p. p \<noteq> NULL) ps)" "\<forall>p \<in> set ps. p \<noteq> NULL \<longrightarrow> L p = None \<and> M p \<noteq> None"
      "bytes_kept L (bytes s) (bytes t)"
      by blast
    with a show ?thesis by (intro exI [of _ "NULL # ps"] exI [of _ t] exI [of _ M]) simp
  next
    fix p t c
    assume a: "alloc z s = Some (p, t)" "p \<noteq> NULL" "L p = None" "live t (L(p \<mapsto> c))" "bytes_kept L (bytes s) (bytes t)"
    from Cons.IH [OF a(4) v(2)] obtain ps u M where
      b: "alloc_all zs t = Some (ps, u)" "live u M" "L(p \<mapsto> c) \<subseteq>\<^sub>m M" "length ps = length zs"
      "distinct (filter (\<lambda>p. p \<noteq> NULL) ps)" "\<forall>q \<in> set ps. q \<noteq> NULL \<longrightarrow> (L(p \<mapsto> c)) q = None \<and> M q \<noteq> None"
      "bytes_kept (L(p \<mapsto> c)) (bytes t) (bytes u)"
      by blast
    have "M p = Some c" using b(3) by (auto simp: map_le_def)
    moreover have "L \<subseteq>\<^sub>m M" using b(3) a(3) unfolding map_le_def by (metis domI domIff fun_upd_apply)
    moreover have "bytes_kept L (bytes s) (bytes u)" using a(3,5) b(7) bytes_kept_new bytes_kept_trans by blast
    moreover have "p \<notin> set ps" "\<forall>q \<in> set ps. q \<noteq> NULL \<longrightarrow> L q = None \<and> M q \<noteq> None" using b(6) a(2) by (auto split: if_splits)
    ultimately show ?thesis using a b by (intro exI [of _ "p # ps"] exI [of _ u] exI [of _ M]) auto
  qed
qed

end

definition kmalloc_valid :: "u64 \<Rightarrow> bool" where
  "kmalloc_valid sz \<longleftrightarrow> sz \<noteq> 0 \<and> unat sz + 8192 \<le> 2 ^ 64"

interpretation kheap: object_allocator heap heap_mem kmalloc_valid "kmalloc me" "kfree me" for me
proof
  fix s :: "'a kheap_scheme" and L sz
  show "kmalloc me sz s = Some (NULL, s) \<or> (\<exists>p t c. kmalloc me sz s = Some (p, t) \<and> p \<noteq> NULL \<and> L p = None \<and>
      unat sz \<le> c \<and> heap t (L(p \<mapsto> c)) \<and> bytes_kept L (heap_mem s) (heap_mem t))" if "heap s L" "kmalloc_valid sz"
    using kmalloc_heap [OF that(1), of sz me] that(2) unfolding kmalloc_valid_def by blast
next
  fix s :: "'a kheap_scheme" and L p c assume "heap s L" "L p = Some c"
  then show "\<exists>t. kfree me p s = Some ((), t) \<and> heap t (L(p := None)) \<and> heap_mem t = heap_mem s" by (rule kfree_heap)
next
  fix s :: "'a kheap_scheme" and L p c q d assume a: "heap s L" "L p = Some c" "L q = Some d" "p \<noteq> q"
  then obtain G cl where "heap_rel s G cl" "object s G p c" "object s G q d" by (auto simp: heap_def)
  then show "unat p + c \<le> unat q \<or> unat q + d \<le> unat p" using a(4) by (rule objects_apart)
qed

section \<open>Reallocation\<close>

lemma heap_mem_upd [simp]: "heap (s\<lparr>heap_mem := m\<rparr>) L = heap s L"
proof -
  let ?t = "s\<lparr>heap_mem := m\<rparr>"
  have e: "pmm_eq s ?t" by (simp add: pmm_eq_def)
  note f = pmm_eq_facts [OF e]
  have ok: "slab_ok ?t a n fl = slab_ok s a n fl" for a n fl by (simp add: slab_ok_def f)
  have "heap_rel ?t G cl = heap_rel s G cl" for G cl by (simp add: heap_rel_def f ok caches_ok_def)
  moreover have "object ?t G q c = object s G q c" for G q c by (simp add: object_def)
  ultimately show ?thesis by (simp add: heap_def)
qed

lemma object_size_bound:
  assumes "heap s L" and "L p = Some c"
  shows "unat (sl_object_size (slab_at s (page_base p))) \<le> c" and "sl_magic (slab_at s (page_base p)) = SLAB_MAGIC"
    and "p \<noteq> NULL" and "unat p + c < 2 ^ 64" and "16 dvd unat p"
proof -
  from assms obtain G cl where r: "heap_rel s G cl" and o: "object s G p c" by (auto simp: heap_def)
  obtain n fl where a: "G (page_base p) = Some (n, fl)" "p \<in> slots (page_base p) (slab_at s (page_base p)) n"
    "c = slot_size (slab_at s (page_base p)) n" "slab_ok s (page_base p) n fl" "p \<noteq> NULL"
    by (rule live_slab [OF r o])
  have h: "header_ok (slab_at s (page_base p)) n fl" "0 < n" using a(4) by (auto simp: slab_ok_def)
  then show "unat (sl_object_size (slab_at s (page_base p))) \<le> c" "sl_magic (slab_at s (page_base p)) = SLAB_MAGIC"
    using a(3) by (auto simp: header_ok_def slot_size_def)
  show "p \<noteq> NULL" by (rule a(5))
  have hh: "hhdm_ok s" using r by (simp add: heap_rel_def)
  obtain k where k: "unat p = unat (page_base p) + 32 + k * c" "32 + (k + 1) * c \<le> n * 4096"
    by (rule slot_place [OF a(4) hh a(2)]) (auto simp: a(3))
  note b = slab_base [OF a(4) hh]
  show "unat p + c < 2 ^ 64" using k b(4) by simp
  have "(16::nat) dvd 4096" by (rule dvdI [of _ _ 256]) simp
  then have "16 dvd unat (page_base p)" using b(2) by (metis dvd_trans mod_0_imp_dvd)
  moreover have "16 dvd c" using header_geometry(2) [OF h] a(3) by auto
  moreover have "16 dvd (32::nat)" by simp
  ultimately show "16 dvd unat p" unfolding k(1) by (intro dvd_add dvd_mult)
qed

lemma apart_ranges:
  fixes p q :: u64
  assumes "unat p + c \<le> unat q \<or> unat q + d \<le> unat p" and "unat p + c < 2 ^ 64" and "unat q + d < 2 ^ 64"
    and "i < c" and "j < d"
  shows "p + of_nat i \<noteq> q + of_nat j"
proof -
  have i: "unat (p + of_nat i) = unat p + i" and j: "unat (q + of_nat j) = unat q + j"
    using assms by (auto simp: unat_word_ariths unat_of_nat)
  have "unat p + i \<noteq> unat q + j" using assms(1,4,5) by linarith
  then show ?thesis unfolding i [symmetric] j [symmetric] by (simp only: word_unat_eq_iff not_False_eq_True)
qed

lemma krealloc_heap:
  fixes s :: "'b kheap_scheme"
  assumes h: "heap s L" and p: "L p = Some c" and new: "kmalloc_valid new"
  defines "old \<equiv> sl_object_size (slab_at s (page_base p))"
  shows "if unat new \<le> unat old then krealloc me p new s = Some (p, s)
    else krealloc me p new s = Some (NULL, s) \<or>
      (\<exists>q t d. krealloc me p new s = Some (q, t) \<and> q \<noteq> NULL \<and> L q = None \<and> unat new \<le> d \<and>
        heap t (L(q \<mapsto> d, p := None)) \<and> (\<forall>i < unat old. heap_mem t (q + of_nat i) = heap_mem s (p + of_nat i)) \<and>
        bytes_kept (L(p := None)) (heap_mem s) (heap_mem t))"
proof -
  note o = object_size_bound [OF h p, folded old_def]
  have nz: "new \<noteq> 0" using new by (simp add: kmalloc_valid_def)
  have u: "unat (ucast old :: u64) = unat old" using unat_bound [of old] by (simp add: unat_ucast_mod)
  show ?thesis
  proof (cases "unat new \<le> unat old")
    case True
    then show ?thesis using o nz by (simp add: krealloc_def Let_def old_def [symmetric] word_le_nat_alt u)
  next
    case False
    then have lt: "\<not> new \<le> ucast old" by (simp add: word_le_nat_alt u)
    have run: "krealloc me p new s = (case kmalloc me new s of None \<Rightarrow> None
        | Some (q, t) \<Rightarrow> if q = NULL then Some (NULL, t)
            else map_option (\<lambda>(_, u). (q, u)) (kfree me p (t\<lparr>heap_mem := memcpy (heap_mem t) q p (ucast old)\<rparr>)))"
      using o nz lt by (simp add: krealloc_def Let_def old_def [symmetric])
    from kheap.alloc_law [OF h new, of me] have "krealloc me p new s = Some (NULL, s) \<or>
      (\<exists>q t d. krealloc me p new s = Some (q, t) \<and> q \<noteq> NULL \<and> L q = None \<and> unat new \<le> d \<and>
        heap t (L(q \<mapsto> d, p := None)) \<and> (\<forall>i < unat old. heap_mem t (q + of_nat i) = heap_mem s (p + of_nat i)) \<and>
        bytes_kept (L(p := None)) (heap_mem s) (heap_mem t))"
    proof (elim disjE exE conjE)
      fix q t d
      assume a: "kmalloc me new s = Some (q, t)" "q \<noteq> NULL" "L q = None" "unat new \<le> d" "heap t (L(q \<mapsto> d))"
        "bytes_kept L (heap_mem s) (heap_mem t)"
      let ?m = "memcpy (heap_mem t) q p (ucast old)"
      have pq: "p \<noteq> q" using p a(3) by auto
      have hd: "heap (t\<lparr>heap_mem := ?m\<rparr>) (L(q \<mapsto> d))" using a(5) by simp
      have Lp: "(L(q \<mapsto> d)) p = Some c" using p pq by simp
      have oq: "unat q + d < 2 ^ 64" by (rule object_size_bound(4) [OF a(5)]) simp
      have sep: "x + of_nat i \<noteq> q + of_nat j" if "L x = Some e" "i < e" "j < d" for x e i j
      proof (rule apart_ranges)
        have xq: "x \<noteq> q" "(L(q \<mapsto> d)) x = Some e" using that(1) a(3) by auto
        show "unat x + e \<le> unat q \<or> unat q + d \<le> unat x" by (rule kheap.live_apart [OF a(5) xq(2) _ xq(1)]) simp
        show "unat x + e < 2 ^ 64" by (rule object_size_bound(4) [OF h that(1)])
      qed (use that oq in auto)
      have mc: "?m x = (if x - q < ucast old then heap_mem t (x - q + p) else heap_mem t x)" for x
        by (rule memcpy_apply, rule sep [OF p]) (use False a(4) o(1) in \<open>simp_all add: u\<close>)
      obtain v where v: "kfree me p (t\<lparr>heap_mem := ?m\<rparr>) = Some ((), v)" "heap v (L(q \<mapsto> d, p := None))" "heap_mem v = ?m"
        using kheap.dealloc_law [where L = "L(q \<mapsto> d)" and me = me, OF hd Lp] by auto
      have copied: "heap_mem v (q + of_nat i) = heap_mem s (p + of_nat i)" if i: "i < unat old" for i
      proof -
        have "(of_nat i :: u64) < ucast old" using i unat_of_nat_le [of i "ucast old :: u64"] by (simp add: word_less_nat_alt u)
        then have "heap_mem v (q + of_nat i) = heap_mem t (p + of_nat i)" by (simp add: v(3) mc add.commute)
        also have "\<dots> = heap_mem s (p + of_nat i)" using a(6) p i o(1) unfolding bytes_kept_def by auto
        finally show ?thesis .
      qed
      have "heap_mem v (x + of_nat i) = heap_mem s (x + of_nat i)" if x: "L x = Some e" "i < e" for x e i
      proof -
        have "\<not> x + of_nat i - q < ucast old"
        proof
          assume "x + of_nat i - q < ucast old"
          then obtain j where "j < unat old" "x + of_nat i = q + of_nat j" using in_range [of "ucast old" "x + of_nat i" q] by (auto simp: u)
          then show False using sep [OF x, of j] False a(4) by auto
        qed
        then show ?thesis using a(6) x by (simp add: v(3) mc bytes_kept_def)
      qed
      then have "bytes_kept (L(p := None)) (heap_mem s) (heap_mem v)" by (auto simp: bytes_kept_def split: if_splits)
      with run a v copied show ?thesis by auto
    qed (simp add: run)
    with False show ?thesis by simp
  qed
qed

section \<open>Initialisation\<close>

lemma kheap_init_ready:
  assumes "pmm_ready s" and "hhdm_ok s" and l: "lock_free (kheap_lock s)"
  shows "\<exists>t. kheap_init me s = Some t \<and> heap t Map.empty \<and> pmm_eq s t"
proof -
  let ?l = "(kheap_lock s)\<lparr>locked := 1, owner := me\<rparr>"
  define u where "u = fold (\<lambda>i. upd_cache i (\<lambda>c. c\<lparr>c_object_size := cache_sizes ! i, c_slabs := NULL, c_slab_count := 0\<rparr>)) [0 ..< 8] (s\<lparr>kheap_lock := ?l\<rparr>)"
  have f: "kheap_lock (fold (\<lambda>i. upd_cache i (g i)) is x) = kheap_lock x \<and> pmm_eq x (fold (\<lambda>i. upd_cache i (g i)) is x) \<and>
      (\<forall>j. caches (fold (\<lambda>i. upd_cache i (g i)) is x) j = (if j \<in> set is then g j (caches x j) else caches x j))"
    if "distinct is" for g "is" and x :: "'a kheap_scheme"
    using that
  proof (induction "is" arbitrary: x)
    case (Cons i "is")
    from Cons.IH [of "upd_cache i (g i) x"] Cons.prems show ?case by (auto simp: pmm_eq_def) (simp_all add: upd_cache_def)
  qed simp
  have u: "kheap_lock u = ?l" "pmm_eq (s\<lparr>kheap_lock := ?l\<rparr>) u"
    "\<And>j. j < 8 \<Longrightarrow> caches u j = (caches s j)\<lparr>c_object_size := cache_sizes ! j, c_slabs := NULL, c_slab_count := 0\<rparr>"
    unfolding u_def using f [of "[0 ..< 8]"] by simp_all
  define t where "t = u\<lparr>kheap_lock := kheap_lock s\<rparr>"
  have run: "kheap_init me s = Some t"
    using l u(1) by (simp add: kheap_init_def acquire_heap_def u_def [symmetric] release_heap_def t_def)
  have e: "pmm_eq s t" using u(2) by (simp add: t_def pmm_eq_def)
  have "caches_ok t Map.empty (\<lambda>_. [])" using u(3) by (simp add: caches_ok_def t_def)
  then have "heap_rel t Map.empty (\<lambda>_. [])" using assms pmm_eq_facts(1,4) [OF e] by (simp add: heap_rel_def)
  then have "heap t Map.empty" using l unfolding heap_def by (force simp: t_def object_def)
  then show ?thesis using run e by blast
qed

text \<open>A machine with sixteen frames, of which fifteen are free.\<close>

definition boot_kheap :: kheap where
  "boot_kheap = \<lparr>mem_map = 0xFFFF800000000000, max_pfn = 15, db_phys = 0, hhdm_offset = 0xFFFF800000000000,
     page_at = (\<lambda>p. \<lparr>u1_next = 0, u2 = 0, pg_flags = (if p = 0xFFFF800000000000 then 4 else 1), refcount = 0\<rparr>),
     free_list = 0, free_pages = 0, total_pages = 0, pmm_lock = SPINLOCK_INIT,
     slab_at = (\<lambda>_. clear_slab), link_at = (\<lambda>_. 0), heap_mem = (\<lambda>_. 0),
     caches = (\<lambda>_. \<lparr>c_object_size = 0, c_slabs = 0, c_slab_count = 0\<rparr>), kheap_lock = SPINLOCK_INIT\<rparr>"

definition boot_frames :: "u64 list" where
  "boot_frames =
    [0xFFFF8000000003C0, 0xFFFF800000000380, 0xFFFF800000000340, 0xFFFF800000000300, 0xFFFF8000000002C0,
     0xFFFF800000000280, 0xFFFF800000000240, 0xFFFF800000000200, 0xFFFF8000000001C0, 0xFFFF800000000180,
     0xFFFF800000000140, 0xFFFF800000000100, 0xFFFF8000000000C0, 0xFFFF800000000080, 0xFFFF800000000040]"

lemma heap_view_init: "pmm_init me s = Some (r, t) \<Longrightarrow> heap_view t = heap_view s"
proof (unfold pmm_init_def, erule heap_view_lock [rotated])
  have p: "heap_view (pmm_init_page i x) = heap_view x" for i and x :: "'b kheap_scheme"
    by (simp add: pmm_init_page_def Let_def)
  have z: "heap_view (x\<lparr>free_list := a, free_pages := b, total_pages := c\<rparr>) = heap_view x" for a b c and x :: "'b kheap_scheme"
    by (simp add: heap_view_def)
  show "heap_view (snd (let s1 = x\<lparr>free_list := NULL, free_pages := 0, total_pages := max_pfn x + 1\<rparr>
      in if mem_map s1 = NULL then ((), s1) else ((), fold pmm_init_page (all_pfns (max_pfn s1)) s1))) = heap_view x" for x :: "'b kheap_scheme"
    by (simp only: Let_def snd_conv z heap_view_fold [OF p] if_distrib if_cancel)
qed

lemma boot_kheap_heap:
  obtains s t where "pmm_init 0 boot_kheap = Some ((), s)" and "kheap_init 0 s = Some t" and "heap t Map.empty"
    and "run_free t 1 1" and "pmm_ready s" and "hhdm_ok s" and "lock_free (kheap_lock s)" and "frees t = set boot_frames"
proof -
  have wf: "db_wf boot_kheap" and l: "lock_free (pmm_lock boot_kheap)" by (simp_all add: boot_kheap_def db_wf_def)
  have c: "\<not> is_page_dirty (page_at boot_kheap p) \<and> (is_page_free (page_at boot_kheap p) \<longrightarrow> refcount (page_at boot_kheap p) = 0)" for p
    by (auto simp: boot_kheap_def is_page_dirty_def bit_simps)
  let ?xs = "rev (filter (\<lambda>p. is_page_free (page_at boot_kheap p)) (map (page_ptr boot_kheap) (all_pfns (max_pfn boot_kheap))))"
  have xs: "?xs = boot_frames"
    by (simp add: boot_frames_def boot_kheap_def all_pfns_def page_ptr_def is_page_free_def upt_rec)
  obtain s where s: "pmm_init 0 boot_kheap = Some ((), s)" "pmm_idle s ?xs" "others_kept {} boot_kheap s"
    using pmm_init_idle [OF wf l c, of 0] by blast
  have v: "heap_view s = heap_view boot_kheap" by (rule heap_view_init [OF s(1)])
  have m: "mem_map s = 0xFFFF800000000000" "max_pfn s = 15" "hhdm_offset s = 0xFFFF800000000000" "kheap_lock s = SPINLOCK_INIT"
    using s(3) v by (simp_all add: others_kept_def heap_view_def boot_kheap_def)
  have rd: "pmm_ready s" using s(2) by (auto simp: pmm_ready_def)
  have hh: "hhdm_ok s" by (simp add: hhdm_ok_def m)
  have lf: "lock_free (kheap_lock s)" by (simp add: m)
  obtain t where t: "kheap_init 0 s = Some t" "heap t Map.empty" "pmm_eq s t" using kheap_init_ready [OF rd hh lf] by blast
  have "0xFFFF800000000040 \<in> frees s" unfolding pmm_idle_frees [OF s(2), symmetric] xs by (simp add: boot_frames_def)
  then have "run_free t 1 1" using t(3) by (simp add: run_free_def pmm_eq_def m page_ptr_def frees_def)
  moreover have "frees t = set boot_frames" using pmm_idle_frees [OF s(2)] pmm_eq_facts(3) [OF t(3)] xs by simp
  ultimately show thesis using that [OF s(1) t(1,2) _ rd hh lf] by simp
qed

lemma cache_for_small: "heap_rel s G cl \<Longrightarrow> unat z \<le> 16 \<Longrightarrow> cache_for_size z s = Some 0"
  by (simp add: cache_for_size_def upt_rec heap_rel_def caches_ok_def cache_sizes_def word_le_nat_alt)

section \<open>Properties\<close>

text \<open>
  After \<^verbatim>\<open>kheap_init\<close> on a ready page allocator the heap is valid and holds no object, and the
  page allocator is unchanged.
\<close>
theorem kheap_init_empty:
  assumes "pmm_ready s" and "hhdm_ok s" and "lock_free (kheap_lock s)"
  shows "\<exists>t. kheap_init me s = Some t \<and> heap t Map.empty \<and> frees t = frees s"
  using kheap_init_ready [OF assms, of me] pmm_eq_facts(3) by blast

theorem kheap_init_empty_witness:
  "\<exists>s t. pmm_init 0 boot_kheap = Some ((), s) \<and> kheap_init 0 s = Some t \<and> heap t Map.empty"
proof -
  obtain s where "pmm_init 0 boot_kheap = Some ((), s)" "pmm_ready s" "hhdm_ok s" "lock_free (kheap_lock s)"
    by (rule boot_kheap_heap)
  with kheap_init_empty [of s 0] show ?thesis by blast
qed

text \<open>
  C7. \<^verbatim>\<open>kmalloc\<close> returns for every size up to \<open>2^64 - 8192\<close>. Either it answers \<open>NULL\<close> with the state unchanged,
  and then no run of as many free frames as the request needs exists; or the answer is a new
  object, at least as large as the request, aligned to 16 bytes, that overlaps no object in use; the
  bytes of the objects in use are unchanged, and the heap is valid with the new object in use.
\<close>
theorem kmalloc_correct:
  assumes "heap s L" and "sz \<noteq> 0" and "unat sz + 8192 \<le> 2 ^ 64"
  shows "\<exists>p t. kmalloc me sz s = Some (p, t) \<and>
    (if p = NULL then t = s \<and> (\<forall>k. \<not> run_free s k (of_nat (pages_for sz)))
     else \<exists>c. L p = None \<and> unat sz \<le> c \<and> 16 dvd unat p \<and> heap t (L(p \<mapsto> c)) \<and>
       (\<forall>q d. L q = Some d \<longrightarrow> unat p + c \<le> unat q \<or> unat q + d \<le> unat p) \<and>
       bytes_kept L (heap_mem s) (heap_mem t))"
proof -
  have "unat p + c \<le> unat q \<or> unat q + d \<le> unat p" if "heap t (L(p \<mapsto> c))" "L p = None" "L q = Some d" for t :: "'a kheap_scheme" and p c q d
  proof -
    have "p \<noteq> q" "(L(p \<mapsto> c)) q = Some d" using that by auto
    then show ?thesis using kheap.live_apart [OF that(1), of p c q d] by simp
  qed
  moreover have "16 dvd unat p" if "heap t (L(p \<mapsto> c))" for t :: "'a kheap_scheme" and p c
    by (rule object_size_bound(5) [OF that]) simp
  ultimately show ?thesis using kmalloc_heap [OF assms, of me] by (elim disjE exE conjE) (simp, metis)
qed

theorem kmalloc_correct_witness:
  "\<exists>(t :: kheap) p u. heap t Map.empty \<and> kmalloc 0 100 t = Some (p, u) \<and> p \<noteq> NULL"
proof -
  obtain s t :: kheap where t: "heap t Map.empty" "run_free t 1 1" by (rule boot_kheap_heap)
  have "pages_for 100 = 1" by (simp add: pages_for_def ALIGN_UP_def DIV_ROUND_UP_def KHEAP_ALIGN_def)
  with kmalloc_correct [OF t(1), of 100 0] t show ?thesis by (auto split: if_splits)
qed

text \<open>
  C8. \<^verbatim>\<open>kfree\<close> of an object in use returns; afterwards exactly that object is no longer in use, the
  heap is valid, and no byte of memory has changed.
\<close>
theorem kfree_correct:
  assumes "heap s L" and "L p = Some c"
  shows "\<exists>t. kfree me p s = Some ((), t) \<and> heap t (L(p := None)) \<and> heap_mem t = heap_mem s"
  by (rule kheap.dealloc_law [OF assms])

theorem kfree_correct_witness:
  "\<exists>(t :: kheap) p u v. heap t Map.empty \<and> kmalloc 0 100 t = Some (p, u) \<and> p \<noteq> NULL \<and> kfree 0 p u = Some ((), v) \<and> heap v Map.empty"
proof -
  obtain s t :: kheap where t: "heap t Map.empty" "run_free t 1 1" by (rule boot_kheap_heap)
  have "pages_for 100 = 1" by (simp add: pages_for_def ALIGN_UP_def DIV_ROUND_UP_def KHEAP_ALIGN_def)
  then obtain p u c where u: "kmalloc 0 100 t = Some (p, u)" "p \<noteq> NULL" "heap u [p \<mapsto> c]"
    using kmalloc_heap [OF t(1), of 100 0] t by auto
  have "[p \<mapsto> c](p := None) = Map.empty" by simp
  with kfree_correct [OF u(3), of p c 0] t u show ?thesis by auto
qed

text \<open>
  \<^verbatim>\<open>krealloc\<close> of an object in use: a request up to the recorded object size returns the same
  pointer; otherwise it answers \<open>NULL\<close> with nothing changed, or a new object that holds the bytes of
  the old one up to the recorded object size, the old one is no longer in use and the bytes of all
  others are unchanged. The recorded size is a 16-bit field: of an object larger than 65535 bytes
  only the first 65535 are kept.
\<close>
theorem krealloc_correct:
  assumes "heap s L" and "L p = Some c" and "kmalloc_valid new"
  shows "let old = sl_object_size (slab_at s (page_base p)) in
    if unat new \<le> unat old then krealloc me p new s = Some (p, s)
    else krealloc me p new s = Some (NULL, s) \<or>
      (\<exists>q t d. krealloc me p new s = Some (q, t) \<and> q \<noteq> NULL \<and> L q = None \<and> unat new \<le> d \<and>
        heap t (L(q \<mapsto> d, p := None)) \<and> (\<forall>i < unat old. heap_mem t (q + of_nat i) = heap_mem s (p + of_nat i)) \<and>
        bytes_kept (L(p := None)) (heap_mem s) (heap_mem t))"
  unfolding Let_def by (rule krealloc_heap [OF assms])

theorem krealloc_correct_witness:
  "\<exists>(t :: kheap) p u q v. heap t Map.empty \<and> kmalloc 0 100 t = Some (p, u) \<and> p \<noteq> NULL \<and> krealloc 0 p 500 u = Some (q, v)"
proof -
  obtain s t :: kheap where t: "heap t Map.empty" "run_free t 1 1" by (rule boot_kheap_heap)
  have "pages_for 100 = 1" by (simp add: pages_for_def ALIGN_UP_def DIV_ROUND_UP_def KHEAP_ALIGN_def)
  then obtain p u c where u: "kmalloc 0 100 t = Some (p, u)" "p \<noteq> NULL" "heap u [p \<mapsto> c]"
    using kmalloc_heap [OF t(1), of 100 0] t by auto
  have "kmalloc_valid 500" by (simp add: kmalloc_valid_def)
  from krealloc_correct [OF u(3) _ this, of p c 0] have "\<exists>q v. krealloc 0 p 500 u = Some (q, v)"
    by (auto simp: Let_def split: if_splits)
  with t u show ?thesis by blast
qed

text \<open>
  A request within 15 bytes of \<open>2^64\<close> wraps around when it is rounded up: it is answered like a
  request for one byte, with an object of 16 bytes.
\<close>
theorem kmalloc_size_wraps:
  assumes "heap s L" and "2 ^ 64 - 15 \<le> unat sz"
  shows "kmalloc me sz s = kmalloc me 1 s"
proof -
  from assms(1) obtain G cl where r: "heap_rel s G cl" and l: "lock_free (kheap_lock s)" by (auto simp: heap_def)
  define k where "k = unat sz + 15 - 2 ^ 64"
  have k: "unat sz + 15 = k + 2 ^ 64" unfolding k_def using assms(2) by linarith
  have "unat (sz + 15) = (unat sz + 15) mod 2 ^ 64" by (simp add: unat_word_ariths)
  also have "\<dots> = (k + 2 ^ 64) mod 2 ^ 64" by (simp only: k)
  also have "\<dots> < 16" using k unat_bound [of sz] by simp
  finally have "(sz + 15) div 16 = 0" by (simp add: word_unat_eq_iff unat_div)
  then have "unat (ALIGN_UP sz KHEAP_ALIGN) = 0" by (simp add: ALIGN_UP_def DIV_ROUND_UP_def KHEAP_ALIGN_def)
  moreover have "unat (ALIGN_UP 1 KHEAP_ALIGN) = 16" by (simp add: ALIGN_UP_def DIV_ROUND_UP_def KHEAP_ALIGN_def)
  ultimately have "cache_for_size (ALIGN_UP sz KHEAP_ALIGN) s = Some 0" "cache_for_size (ALIGN_UP 1 KHEAP_ALIGN) s = Some 0"
    using cache_for_small [OF r] by simp_all
  moreover have "sz \<noteq> 0" using assms(2) by auto
  ultimately show ?thesis using l by (simp add: kmalloc_def acquire_heap_def)
qed

theorem kmalloc_size_wraps_witness:
  "\<exists>(t :: kheap). heap t Map.empty \<and> kmalloc 0 0xFFFFFFFFFFFFFFFF t = kmalloc 0 1 t"
proof -
  obtain s t :: kheap where t: "heap t Map.empty" by (rule boot_kheap_heap)
  with kmalloc_size_wraps [where sz = "0xFFFFFFFFFFFFFFFF" and me = 0, OF t] show ?thesis by auto
qed

end
