(* ===== verification/Kheap_Room.thy ===== *)
theory Kheap_Room
  imports Kheap
begin

text \<open>
  How many free frames the heap leaves: an allocation of at most 2048 bytes takes at most one
  frame, and a deallocation takes none. With this a client that makes a known number of small
  allocations can say how many free frames are enough for all of them to succeed.
\<close>

section \<open>Steps that keep free frames free\<close>

definition keeps_free :: "'b pmm_scheme \<Rightarrow> 'b pmm_scheme \<Rightarrow> bool" where
  "keeps_free s t \<longleftrightarrow> mem_map t = mem_map s \<and> max_pfn t = max_pfn s \<and>
     (\<forall>p. is_page_free (page_at s p) \<longrightarrow> is_page_free (page_at t p))"

lemma keeps_free_refl [simp]: "keeps_free s s"
  by (simp add: keeps_free_def)

lemma keeps_free_trans: "keeps_free s t \<Longrightarrow> keeps_free t u \<Longrightarrow> keeps_free s u"
  by (simp add: keeps_free_def)

lemma keeps_free_frees: "keeps_free s t \<Longrightarrow> frees s \<subseteq> frees t"
  by (auto simp: keeps_free_def frees_def db_page_def page_ptr_def)

lemma pmm_eq_keeps_free: "pmm_eq s t \<Longrightarrow> keeps_free s t"
  by (simp add: keeps_free_def pmm_eq_def)

lemma release_locked_keeps: "keeps_free s (snd (release_locked pg s))"
proof -
  have u: "keeps_free x (upd_page p f x)" if "\<And>y. is_page_free y \<Longrightarrow> is_page_free (f y)" for x :: "'b pmm_scheme" and p f
    using that by (auto simp: keeps_free_def upd_page_def)
  have r: "keeps_free x (x\<lparr>free_list := a\<rparr>)" "keeps_free x (x\<lparr>free_pages := b\<rparr>)" for x :: "'b pmm_scheme" and a b
    by (simp_all add: keeps_free_def)
  have f: "is_page_free (y\<lparr>refcount := a\<rparr>) = is_page_free y" "is_page_free (y\<lparr>u2 := c\<rparr>) = is_page_free y"
    "is_page_free (y\<lparr>u1_next := d\<rparr>) = is_page_free y" for y a c d
    by (simp_all add: is_page_free_def)
  have g: "is_page_free (y\<lparr>pg_flags := set_flags w PAGE_FREE\<rparr>)" for y w
    by (simp add: is_page_free_def set_flags_def has_flag_def or_and_absorb)
  have p: "keeps_free x (free_list_push pg x)" for x :: "'b pmm_scheme"
  proof -
    define y where "y = upd_page pg (\<lambda>p. p\<lparr>u2 := NULL, u1_next := free_list x\<rparr>) x"
    define w where "w = (if free_list y \<noteq> NULL then upd_page (free_list y) (\<lambda>p. p\<lparr>u2 := pg\<rparr>) y else y)"
    have xy: "keeps_free x y" unfolding y_def by (rule u) (simp add: f)
    have "keeps_free y (upd_page (free_list y) (\<lambda>p. p\<lparr>u2 := pg\<rparr>) y)" by (rule u) (simp only: f)
    then have yw: "keeps_free y w" unfolding w_def by simp
    show ?thesis unfolding free_list_push_def Let_def y_def [symmetric] w_def [symmetric]
      by (rule keeps_free_trans [OF keeps_free_trans [OF xy yw] r(1)])
  qed
  define x where "x = upd_page pg (\<lambda>p. p\<lparr>refcount := refcount p - 1\<rparr>) s"
  define y where "y = upd_page pg (\<lambda>p. p\<lparr>pg_flags := set_flags (clear_flags (pg_flags p)
      (PAGE_ALLOCATED OR PAGE_SHARED OR PAGE_COW)) PAGE_FREE, u2 := 0\<rparr>) x"
  define z where "z = free_list_push pg y"
  have x: "keeps_free s x" unfolding x_def by (rule u) (simp add: f)
  have y: "keeps_free s y" unfolding y_def by (rule keeps_free_trans [OF x u]) (simp add: f g)
  have z: "keeps_free s (z\<lparr>free_pages := free_pages z + 1\<rparr>)"
    unfolding z_def by (rule keeps_free_trans [OF keeps_free_trans [OF y p] r(2)])
  show ?thesis
    unfolding release_locked_def Let_def x_def [symmetric] y_def [symmetric] z_def [symmetric] using x y z by simp
qed

lemma pmm_page_release_keeps:
  assumes "pmm_page_release me p s = Some (r, t)"
  shows "keeps_free s t"
proof (cases "p = NULL")
  case True
  then show ?thesis using assms by (simp add: pmm_page_release_def)
next
  case False
  then obtain l where l: "lock_acquire me (pmm_lock s) = Some l"
    using assms by (auto simp: pmm_page_release_def with_pmm_lock_def split: option.splits)
  define x where "x = snd (release_locked p (s\<lparr>pmm_lock := l\<rparr>))"
  have "t = x\<lparr>pmm_lock := lock_release me (pmm_lock x)\<rparr>"
    using assms False l by (auto simp: pmm_page_release_def with_pmm_lock_def x_def split: prod.splits)
  moreover have "keeps_free (s\<lparr>pmm_lock := l\<rparr>) x" unfolding x_def by (rule release_locked_keeps)
  ultimately show ?thesis by (simp add: keeps_free_def)
qed

lemma release_each_keeps: "release_each me ps s = Some (r, t) \<Longrightarrow> keeps_free s t"
  by (induction ps arbitrary: s) (auto split: option.splits dest: pmm_page_release_keeps intro: keeps_free_trans)

lemma slab_destroy_keeps: "slab_destroy me a s = Some (r, t) \<Longrightarrow> keeps_free s t"
  unfolding slab_destroy_def pmm_pages_release_def Let_def
  by (auto split: if_splits dest: pmm_page_release_keeps release_each_keeps)

lemma pmm_eq_steps:
  "pmm_eq s (upd_slab a f s)" "pmm_eq s (upd_cache i g s)" "pmm_eq s (set_link p v s)" "pmm_eq s (release_heap me s)"
  "pmm_eq s (cache_add_slab i a s)" "pmm_eq s (push_free a p s)" "pmm_eq s (unlink_slab i q a s)"
  by (simp_all add: pmm_eq_def upd_slab_def upd_cache_def set_link_def release_heap_def cache_add_slab_def push_free_def
      unlink_slab_def Let_def)

lemma remove_loop_pmm_eq: "remove_loop i a prev cur s = Some t \<Longrightarrow> pmm_eq s t"
proof (erule remove_loop.raw_induct [rotated])
  fix rl :: "nat \<Rightarrow> u64 \<Rightarrow> u64 \<Rightarrow> u64 \<Rightarrow> 'a kheap_scheme \<Rightarrow> 'a kheap_scheme option" and i a prev cur s t
  assume "\<And>i a prev cur s t. rl i a prev cur s = Some t \<Longrightarrow> pmm_eq s t"
    and "(if cur = NULL then Some s else if cur = a then Some (unlink_slab i prev cur s)
          else rl i a cur (sl_next (slab_at s cur)) s) = Some t"
  then show "pmm_eq s t" by (auto simp: pmm_eq_steps split: if_splits)
qed

lemma cache_remove_slab_pmm_eq: "cache_remove_slab i a s = Some t \<Longrightarrow> pmm_eq s t"
  unfolding cache_remove_slab_def by (rule remove_loop_pmm_eq)

lemma acquire_heap_pmm_eq: "acquire_heap me s = Some t \<Longrightarrow> pmm_eq s t"
  by (auto simp: acquire_heap_def pmm_eq_def)

lemma kfree_keeps:
  assumes "kfree me p s = Some (r, t)"
  shows "keeps_free s t"
proof -
  have d: "keeps_free x t" if "slab_destroy me a y = Some (v, t)" "pmm_eq x y" for x y :: "'a kheap_scheme" and a v
    using that by (meson keeps_free_trans pmm_eq_keeps_free slab_destroy_keeps)
  have r: "pmm_eq x (release_heap me y)" if "pmm_eq x y" for x y :: "'a kheap_scheme"
    using that pmm_eq_steps(4) pmm_eq_trans by blast
  have ret: "pmm_eq x (returned i a p x)" for x :: "'a kheap_scheme" and i a
    unfolding returned_def Let_def
    by (smt (verit, best) pmm_eq_refl pmm_eq_steps(1) pmm_eq_steps(5) pmm_eq_steps(6) pmm_eq_trans)
  show ?thesis
  proof (cases "p = NULL \<or> sl_magic (slab_at s (page_base p)) \<noteq> SLAB_MAGIC \<or>
      page_base p + ucast (sl_npages (slab_at s (page_base p))) * PAGE_SIZE \<le> p")
    case True
    then have "kfree me p s = Some ((), s)" by (elim disjE) (simp_all add: kfree_def Let_def)
    then have "t = s" using assms by simp
    then show ?thesis by simp
  next
    case False
    then obtain s1 where s1: "acquire_heap me s = Some s1" using assms by (auto simp: kfree_def Let_def split: option.splits)
    note e = acquire_heap_pmm_eq [OF s1]
    define a where "a = page_base p"
    define i where "i = unat (sl_cache_index (slab_at s1 a))"
    have run: "kfree me p s = (if sl_cache_index (slab_at s1 a) = BIG_CACHE_INDEX \<or> sl_capacity (slab_at s1 a) = 1
        then slab_destroy me a (release_heap me s1)
        else let x = returned i a p s1 in
          if sl_free_count (slab_at x a) = sl_capacity (slab_at x a) \<and> 1 < c_slab_count (caches x i)
          then case cache_remove_slab i a x of None \<Rightarrow> None | Some s5 \<Rightarrow> slab_destroy me a (release_heap me s5)
          else Some ((), release_heap me x))"
      using False s1 by (simp add: kfree_def a_def [symmetric] Let_def returned_def i_def [symmetric])
    have x: "pmm_eq s (returned i a p s1)" by (rule pmm_eq_trans [OF e ret])
    have c: "pmm_eq s y" if "cache_remove_slab i a (returned i a p s1) = Some y" for y
      by (rule pmm_eq_trans [OF x cache_remove_slab_pmm_eq [OF that]])
    from assms run show ?thesis
      by (auto simp: Let_def split: if_splits option.splits
          intro: d [OF _ r [OF e]] d [OF _ r [OF c]] pmm_eq_keeps_free [OF r [OF x]])
  qed
qed

section \<open>Room for small objects\<close>

definition room :: "'b kheap_scheme \<Rightarrow> nat \<Rightarrow> bool" where
  "room s k \<longleftrightarrow> finite (frees s) \<and> k \<le> card (frees s)"

lemma room_mono: "room s k \<Longrightarrow> j \<le> k \<Longrightarrow> room s j"
  by (simp add: room_def)

lemma heap_frees_finite: "heap s L \<Longrightarrow> finite (frees s)"
  unfolding heap_def heap_rel_def pmm_ready_def by (metis List.finite_set pmm_idle_frees)

lemma room_keeps: "room s k \<Longrightarrow> keeps_free s t \<Longrightarrow> heap t L \<Longrightarrow> room t k"
  unfolding room_def by (meson card_mono heap_frees_finite keeps_free_frees order_trans)

lemma room_mem [simp]: "room (s\<lparr>heap_mem := m\<rparr>) k = room s k"
  by (simp add: room_def frees_def db_page_def page_ptr_def)

lemma take_object_pmm_eq: "take_object i a s = Some (p, t) \<Longrightarrow> pmm_eq s t"
  unfolding take_object_def Let_def
  by (auto split: if_splits dest!: cache_remove_slab_pmm_eq simp: pmm_eq_def upd_slab_def)

lemma fold_push_free_pmm_eq: "pmm_eq s (fold (\<lambda>i. push_free a (g i)) is s)"
  by (induction "is" arbitrary: s) (auto intro: pmm_eq_trans [OF pmm_eq_steps(6)])

lemma slab_create_room:
  assumes r: "heap_rel s G cl" and i: "i < 8" and c: "slab_create me (cache_sizes ! i) (of_nat i) s = Some (a, t)"
  shows "\<exists>x. frees s - {x} \<subseteq> frees t"
proof -
  have rd: "pmm_ready s" using r by (simp add: heap_rel_def)
  have al: "pmm_alloc_pages me 1 s = pmm_alloc_page me s" by (simp add: pmm_alloc_pages_def)
  have "0 < unat (1 :: u64)" by simp
  from alloc_run [OF rd this, of me] consider
    (none) "pmm_alloc_page me s = Some (NULL, s)"
    | (some) k u where "pmm_alloc_page me s = Some (page_ptr s (of_nat k), u)" "frees u = frees s - frame_ptrs s k 1"
    unfolding al by auto
  then show ?thesis
  proof cases
    case none
    then have "t = s" using c by (simp add: slab_create_def)
    then show ?thesis by auto
  next
    case some
    have "frame_ptrs s k 1 \<subseteq> {page_ptr s (of_nat k)}" by (auto simp: frame_ptrs_def)
    then have u: "frees s - {page_ptr s (of_nat k)} \<subseteq> frees u" using some(2) by auto
    have z: "pmm_eq x (zero_mem b n x)" for b n and x :: "'a kheap_scheme" by (simp add: pmm_eq_def zero_mem_def)
    have e: "keeps_free x (upd_slab b f (zero_mem d n x))" for b f d n and x :: "'a kheap_scheme"
      by (rule pmm_eq_keeps_free [OF pmm_eq_trans [OF z pmm_eq_steps(1)]])
    have w: "keeps_free x (fold (\<lambda>i. push_free b (g i)) js (upd_slab b' h (upd_slab b'' f (zero_mem d n x))))"
      for b b' b'' f g h d n js and x :: "'a kheap_scheme"
      by (rule keeps_free_trans [OF e pmm_eq_keeps_free [OF pmm_eq_trans [OF pmm_eq_steps(1) fold_push_free_pmm_eq]]])
    have "keeps_free u t"
      using c some(1) unfolding slab_create_def
      by (auto simp: Let_def split: if_splits dest!: pmm_page_release_keeps intro: keeps_free_trans [OF e] w)
    then show ?thesis using u keeps_free_frees by blast
  qed
qed

lemma kmalloc_small_room:
  assumes r: "heap_rel s G cl" and i: "i < 8" and c: "kmalloc_small me i s = Some (p, t)"
  shows "\<exists>x. frees s - {x} \<subseteq> frees t"
proof -
  have o: "c_object_size (caches s i) = cache_sizes ! i" using r i by (simp add: heap_rel_def caches_ok_def)
  obtain a where a: "find_slab (c_slabs (caches s i)) s = Some a" using c by (auto simp: kmalloc_small_def split: option.splits)
  show ?thesis
  proof (cases "a = NULL")
    case False
    then have "pmm_eq s t" using c a take_object_pmm_eq by (simp add: kmalloc_small_def)
    then have "frees s \<subseteq> frees t" using pmm_eq_keeps_free keeps_free_frees by blast
    then show ?thesis by blast
  next
    case True
    then obtain b u where b: "slab_create me (cache_sizes ! i) (of_nat i) s = Some (b, u)"
      and t: "t = u \<or> take_object i b (cache_add_slab i b u) = Some (p, t)"
      using c a o by (auto simp: kmalloc_small_def split: option.splits if_splits)
    have "keeps_free u t"
      using t by (metis keeps_free_refl pmm_eq_keeps_free pmm_eq_steps(5) pmm_eq_trans take_object_pmm_eq)
    then show ?thesis using slab_create_room [OF r i b] keeps_free_frees by blast
  qed
qed

text \<open>The law for small requests with room: they succeed and take at most one frame.\<close>

lemma kmalloc_with_room:
  assumes h: "heap s L" and sz: "0 < unat sz" "unat sz \<le> 2048" and k: "room s (Suc k)"
  shows "\<exists>p t c. kmalloc me sz s = Some (p, t) \<and> p \<noteq> NULL \<and> L p = None \<and> unat sz \<le> c \<and> heap t (L(p \<mapsto> c)) \<and>
    bytes_kept L (heap_mem s) (heap_mem t) \<and> room t k"
proof -
  from h obtain G cl where l: "lock_free (kheap_lock s)" and r: "heap_rel s G cl" by (auto simp: heap_def)
  define z where "z = ALIGN_UP sz KHEAP_ALIGN"
  have u: "unat z = (unat sz + 15) div 16 * 16"
    unfolding z_def KHEAP_ALIGN_def by (subst unat_ALIGN_UP) (use sz in simp_all)
  have zb: "unat z \<le> 2048" unfolding u using div_le_mono [of "unat sz + 15" 2063 16] sz(2) by simp
  obtain p where p: "p \<in> frees s" using k unfolding room_def by (metis card.empty not_less_eq_eq zero_le all_not_in_conv)
  have wf: "db_wf s" using r by (auto simp: heap_rel_def pmm_ready_def pmm_idle_def pmm_rel_def)
  obtain j where j: "j \<le> max_pfn s" "p = page_ptr s j" "is_page_free (page_at s p)"
    using p by (auto simp: frees_def db_page_def)
  then have rf: "run_free s (unat j) 1" by (simp add: run_free_def word_le_nat_alt)
  have pf: "pages_for sz = 1" using zb by (simp add: pages_for_def z_def [symmetric])
  have ne: "sz \<noteq> 0" using sz(1) by auto
  have "unat sz + 8192 \<le> 2 ^ 64" using sz(2) by simp
  from kmalloc_heap [OF h ne this, of me] rf pf obtain q t c where
    t: "kmalloc me sz s = Some (q, t)" "q \<noteq> NULL" "L q = None" "unat sz \<le> c" "heap t (L(q \<mapsto> c))" "bytes_kept L (heap_mem s) (heap_mem t)"
    by auto
  define s1 where "s1 = s\<lparr>kheap_lock := (kheap_lock s)\<lparr>locked := 1, owner := me\<rparr>\<rparr>"
  have e1: "pmm_eq s s1" by (simp add: pmm_eq_def s1_def)
  have r1: "heap_rel s1 G cl" using r by (simp add: s1_def)
  obtain i where i: "i < 8" "cache_for_size z s1 = Some i"
  proof -
    have "c_object_size (caches s1 7) = 2048" using r1 by (simp add: heap_rel_def caches_ok_def cache_sizes_def)
    then have "z \<le> ucast (c_object_size (caches s1 7))" using zb by (simp add: word_le_nat_alt)
    then have "cache_for_size z s1 \<noteq> None" unfolding cache_for_size_def find_None_iff by (auto intro!: exI [of _ 7])
    then obtain i where i: "cache_for_size z s1 = Some i" by blast
    then have "i < 8" by (auto simp: cache_for_size_def find_Some_iff)
    then show thesis using that i by blast
  qed
  obtain t' where t': "kmalloc_small me i s1 = Some (q, t')" "t = release_heap me t'"
    using t(1) ne l i by (auto simp: kmalloc_def z_def [symmetric] acquire_heap_def s1_def [symmetric] Let_def)
  obtain x where x: "frees s1 - {x} \<subseteq> frees t'" using kmalloc_small_room [OF r1 i(1) t'(1)] by blast
  have "frees t = frees t'" using pmm_eq_facts(3) [OF pmm_eq_steps(4)] t'(2) by simp
  then have sub: "frees s - {x} \<subseteq> frees t" using x pmm_eq_facts(3) [OF e1] by simp
  have fin: "finite (frees t)" by (rule heap_frees_finite [OF t(5)])
  have "card (frees s) - 1 \<le> card (frees s - {x})" by (simp add: card_Diff_singleton_if)
  also have "\<dots> \<le> card (frees t)" by (rule card_mono [OF fin sub])
  finally have "room t k" using k fin by (simp add: room_def)
  then show ?thesis using t by blast
qed

lemma krealloc_with_room:
  assumes h: "heap s L" and p: "L p = Some c" and new: "0 < unat new" "unat new \<le> 2048" and k: "room s (Suc k)"
  defines "old \<equiv> sl_object_size (slab_at s (page_base p))"
  shows "if unat new \<le> unat old then krealloc me p new s = Some (p, s)
    else \<exists>q t d. krealloc me p new s = Some (q, t) \<and> q \<noteq> NULL \<and> L q = None \<and> unat new \<le> d \<and>
        heap t (L(q \<mapsto> d, p := None)) \<and> (\<forall>i < unat old. heap_mem t (q + of_nat i) = heap_mem s (p + of_nat i)) \<and>
        bytes_kept (L(p := None)) (heap_mem s) (heap_mem t) \<and> room t k"
proof (cases "unat new \<le> unat old")
  case True
  have "kmalloc_valid new" using new by (auto simp: kmalloc_valid_def)
  from krealloc_heap [OF h p this, of me] True show ?thesis by (simp add: old_def)
next
  case False
  have valid: "kmalloc_valid new" using new by (auto simp: kmalloc_valid_def)
  note o = object_size_bound [OF h p, folded old_def]
  obtain q u d where u: "kmalloc me new s = Some (q, u)" "q \<noteq> NULL" "room u k"
    using kmalloc_with_room [OF h new k, of me] by blast
  have "unat (ucast old :: u64) = unat old" using unat_bound [of old] by (simp add: unat_ucast_mod)
  then have "\<not> new \<le> ucast old" using False by (simp add: word_le_nat_alt)
  then have run: "krealloc me p new s = map_option (\<lambda>(_, v). (q, v)) (kfree me p (u\<lparr>heap_mem := memcpy (heap_mem u) q p (ucast old)\<rparr>))"
    using o(2,3) u(1,2) new(1) by (auto simp: krealloc_def Let_def old_def [symmetric])
  from krealloc_heap [OF h p valid, of me, folded old_def] False run u(2) obtain r t d where
    t: "krealloc me p new s = Some (r, t)" "r \<noteq> NULL" "L r = None" "unat new \<le> d" "heap t (L(r \<mapsto> d, p := None))"
      "\<forall>i < unat old. heap_mem t (r + of_nat i) = heap_mem s (p + of_nat i)" "bytes_kept (L(p := None)) (heap_mem s) (heap_mem t)"
    by auto
  have "map_option (\<lambda>(_, v). (q, v)) (kfree me p (u\<lparr>heap_mem := memcpy (heap_mem u) q p (ucast old)\<rparr>)) = Some (r, t)"
    using run t(1) by simp
  then obtain x where "kfree me p (u\<lparr>heap_mem := memcpy (heap_mem u) q p (ucast old)\<rparr>) = Some (x, t)"
    by (auto simp: map_option_eq_Some)
  then have "keeps_free u t" using kfree_keeps by (fastforce simp: keeps_free_def)
  then have "room t k" using room_keeps [OF u(3) _ t(5)] by blast
  with t False show ?thesis by auto
qed

lemma boot_room:
  obtains t :: kheap where "heap t Map.empty" and "room t 15"
proof -
  obtain s t :: kheap where t: "heap t Map.empty" "frees t = set boot_frames" by (rule boot_kheap_heap)
  have "distinct boot_frames" "length boot_frames = 15" by (simp_all add: boot_frames_def)
  then have "card (frees t) = 15" using t(2) distinct_card [of boot_frames] by simp
  then show thesis using that [OF t(1)] t(2) by (simp add: room_def)
qed

end
