(* ===== verification/Kheap_Small.thy ===== *)
theory Kheap_Small
  imports Kheap_Room
begin

text \<open>
  Objects of up to 2048 bytes come from the slab caches, which record their exact size. So a client
  that reallocates such an object keeps all of its bytes, not only the ones it asked for.
\<close>

lemma small_recorded:
  assumes "heap s L" and "L p = Some c" and "c \<le> 2048"
  shows "sl_cache_index (slab_at s (page_base p)) \<noteq> BIG_CACHE_INDEX" and "unat (sl_object_size (slab_at s (page_base p))) = c"
proof -
  from assms(1,2) obtain G cl where r: "heap_rel s G cl" and o: "object s G p c" by (auto simp: heap_def)
  obtain n fl where a: "c = slot_size (slab_at s (page_base p)) n" "slab_ok s (page_base p) n fl"
    by (rule live_slab [OF r o])
  have "0 < n" using a(2) by (simp add: slab_ok_def)
  then have "c \<noteq> n * 4096 - 32" using assms(3) by (cases n) auto
  then show "sl_cache_index (slab_at s (page_base p)) \<noteq> BIG_CACHE_INDEX" using a(1) by (auto simp: slot_size_def)
  then show "unat (sl_object_size (slab_at s (page_base p))) = c" using a(1) by (simp add: slot_size_def)
qed

lemma small_size_unique:
  assumes "heap s L" and "L p = Some c" and "c \<le> 2048" and "heap s M" and "M p = Some d"
  shows "d = c"
proof -
  from assms(4,5) obtain G cl where r: "heap_rel s G cl" and o: "object s G p d" by (auto simp: heap_def)
  obtain n fl where "d = slot_size (slab_at s (page_base p)) n" by (rule live_slab [OF r o])
  with small_recorded [OF assms(1-3)] show ?thesis by (simp add: slot_size_def)
qed

lemma kmalloc_small_object:
  assumes h: "heap s L" and sz: "0 < unat sz" "unat sz \<le> 2048" and k: "kmalloc me sz s = Some (p, t)" "p \<noteq> NULL"
    and t: "heap t M" "M p = Some c"
  shows "c \<le> 2048"
proof -
  from h obtain G cl where l: "lock_free (kheap_lock s)" and r: "heap_rel s G cl" by (auto simp: heap_def)
  define z where "z = ALIGN_UP sz KHEAP_ALIGN"
  have u: "unat z = (unat sz + 15) div 16 * 16"
    unfolding z_def KHEAP_ALIGN_def by (subst unat_ALIGN_UP) (use sz in simp_all)
  have zb: "unat z \<le> 2048" unfolding u using div_le_mono [of "unat sz + 15" 2063 16] sz(2) by simp
  define s1 where "s1 = s\<lparr>kheap_lock := (kheap_lock s)\<lparr>locked := 1, owner := me\<rparr>\<rparr>"
  have r1: "heap_rel s1 G cl" using r by (simp add: s1_def)
  obtain i where i: "i < 8" "cache_for_size z s1 = Some i"
    using cache_for_size_heap [OF r1, of z] zb by (cases "cache_for_size z s1") auto
  have "sz \<noteq> 0" using sz(1) by auto
  then have "map_option (\<lambda>(p, t). (p, release_heap me t)) (kmalloc_small me i s1) = Some (p, t)"
    using k(1) l i(2) by (simp add: kmalloc_def z_def [symmetric] acquire_heap_def s1_def [symmetric] Let_def)
  then obtain t' where t': "kmalloc_small me i s1 = Some (p, t')" "t = release_heap me t'" by auto
  obtain G' cl' where g: "heap_rel t' G' cl'" "object t' G' p (unat (cache_sizes ! i))"
    using kmalloc_small_rel [OF r1 i(1), of me] t'(1) k(2) by auto
  obtain n fl where a: "unat (cache_sizes ! i) = slot_size (slab_at t' (page_base p)) n" "slab_ok t' (page_base p) n fl"
    by (rule live_slab [OF g])
  have c8: "unat (cache_sizes ! i) \<le> 2048" using i(1) by (rule cache_sizes_cases) simp_all
  have "0 < n" using a(2) by (simp add: slab_ok_def)
  then have "unat (cache_sizes ! i) \<noteq> n * 4096 - 32" using c8 by (cases n) auto
  then have nb: "sl_cache_index (slab_at t' (page_base p)) \<noteq> BIG_CACHE_INDEX" using a(1) by (auto simp: slot_size_def)
  from t obtain H dl where "heap_rel t H dl" and "object t H p c" by (auto simp: heap_def)
  then obtain m where "c = slot_size (slab_at t (page_base p)) m" by (rule live_slab)
  then show ?thesis using nb a(1) c8 t'(2) by (simp add: slot_size_def release_heap_def)
qed

text \<open>\<^verbatim>\<open>krealloc\<close> of a small object to a small size: it grows with all its bytes when there is room for it.\<close>

lemma krealloc_small:
  assumes h: "heap s L" and p: "L p = Some c" "c \<le> 2048" and new: "0 < unat new" "unat new \<le> 2048" and k: "room s (Suc k)"
  obtains q t d where "krealloc me p new s = Some (q, t)" "q \<noteq> NULL" "q = p \<or> L q = None" "unat new \<le> d" "d \<le> 2048"
    "heap t (L(p := None, q \<mapsto> d))" "\<forall>i < c. heap_mem t (q + of_nat i) = heap_mem s (p + of_nat i)"
    "bytes_kept (L(p := None)) (heap_mem s) (heap_mem t)" "room t k"
proof -
  note result = that
  have old: "unat (sl_object_size (slab_at s (page_base p))) = c" by (rule small_recorded(2) [OF h p])
  note kr = krealloc_with_room [OF h p(1) new k, of me, unfolded old]
  show thesis
  proof (cases "unat new \<le> c")
    case True
    then have "krealloc me p new s = Some (p, s)" using kr by simp
    moreover have "L(p := None, p \<mapsto> c) = L" using p(1) by auto
    ultimately show thesis using result [of p s c] True h p object_size_bound(3) [OF h p(1)] room_mono [OF k, of k]
      by (simp add: bytes_kept_def)
  next
    case False
    then obtain q t d where t: "krealloc me p new s = Some (q, t)" "q \<noteq> NULL" "L q = None" "unat new \<le> d"
      "heap t (L(q \<mapsto> d, p := None))" "\<forall>i < c. heap_mem t (q + of_nat i) = heap_mem s (p + of_nat i)"
      "bytes_kept (L(p := None)) (heap_mem s) (heap_mem t)" "room t k" using kr by auto
    have pq: "p \<noteq> q" using p t(3) by auto
    have uc: "unat (ucast (sl_object_size (slab_at s (page_base p))) :: u64) = c"
      using unat_bound [of "sl_object_size (slab_at s (page_base p))"] by (simp add: unat_ucast_mod old)
    then have lt: "\<not> new \<le> ucast (sl_object_size (slab_at s (page_base p)))" using False by (simp add: word_le_nat_alt)
    have nz: "new \<noteq> 0" using new(1) by auto
    obtain q' u e where u: "kmalloc me new s = Some (q', u)" "q' \<noteq> NULL" "heap u (L(q' \<mapsto> e))" and q': "L q' = None"
      using kmalloc_with_room [OF h new k, of me] by blast
    have e: "e \<le> 2048" by (rule kmalloc_small_object [OF h new u]) simp
    let ?u = "u\<lparr>heap_mem := memcpy (heap_mem u) q' p (ucast (sl_object_size (slab_at s (page_base p))))\<rparr>"
    have run: "krealloc me p new s = map_option (\<lambda>(_, v). (q', v)) (kfree me p ?u)"
      using object_size_bound(2,3) [OF h p(1)] nz lt u(1,2) by (simp add: krealloc_def Let_def)
    have hu: "heap ?u (L(q' \<mapsto> e))" using u(3) by simp
    have Lp: "(L(q' \<mapsto> e)) p = Some c" using p q' by auto
    obtain v where v: "kfree me p ?u = Some ((), v)" "heap v (L(q' \<mapsto> e, p := None))"
      using kheap.dealloc_law [where me = me, OF hu Lp] by blast
    have "q' = q" "v = t" using run v(1) t(1) by simp_all
    then have "d = e" using small_size_unique [OF v(2) _ e, of q "L(q \<mapsto> d, p := None)" d] t(5) pq by simp
    moreover have "L(q \<mapsto> d, p := None) = L(p := None, q \<mapsto> d)" using pq by (simp add: fun_upd_twist)
    ultimately show thesis using result [of q t d] t e by simp
  qed
qed

lemma object_end:
  assumes "heap s L" and "L p = Some c"
  shows "unat p + c + 16 \<le> 2 ^ 64"
proof -
  from assms obtain G cl where r: "heap_rel s G cl" and o: "object s G p c" by (auto simp: heap_def)
  obtain n fl where a: "c = slot_size (slab_at s (page_base p)) n" "slab_ok s (page_base p) n fl" by (rule live_slab [OF r o])
  then have "16 dvd c" using header_geometry(2) [of "slab_at s (page_base p)" n fl] by (auto simp: slab_ok_def)
  then obtain j where j: "c = 16 * j" by (auto simp: dvd_def)
  obtain k where k: "unat p = 16 * k" using object_size_bound(5) [OF assms] by (auto simp: dvd_def)
  have "16 * (k + j) < 16 * 2 ^ 60" using object_size_bound(4) [OF assms] j k by simp
  then have "k + j + 1 \<le> 2 ^ 60" by simp
  then have "16 * (k + j + 1) \<le> 16 * 2 ^ 60" by (rule mult_le_mono2)
  then show ?thesis using j k by simp
qed

end
