(* ===== verification/Sched.thy ===== *)
theory Sched
  imports Spinlock Dll
begin

text \<open>
  The scheduler of \<^verbatim>\<open>sched/sched.c\<close>: one multi-level feedback queue per CPU, with work stealing,
  priority boost, time accounting and lazy FPU switching. The threads are records at addresses;
  \<open>me\<close> is the CPU that runs the code, \<open>now_ns\<close> and \<open>tsc\<close> are what the clocks read. Interrupt masking is
  not modelled. A result \<open>None\<close> means that the CPU never returns.
\<close>

section \<open>State\<close>

datatype thread_state =
  THREAD_NEW | THREAD_READY | THREAD_RUNNING | THREAD_BLOCKED | THREAD_SLEEPING | THREAD_ZOMBIE | THREAD_DEAD

record thread =
  t_proc :: u64
  t_state :: thread_state
  priority_level :: int
  time_in_level_ns :: u64
  last_run_tsc :: u64
  total_runtime_ns :: u64
  last_cpu :: int
  pinned_cpu :: int
  kstack_base :: u64
  kstack_size :: u64
  kernel_rsp :: u64
  fpu_region :: "u8 list"
  fpu_used :: bool
  fpu_dirty :: bool
  blocked_on :: u64
  t_exit_code :: int
  rq_next :: u64
  rq_prev :: u64
  t_lock :: spinlock

record mlfq_queue =
  q_head :: u64
  q_tail :: u64
  q_count :: u32

record runqueue =
  rq_lock :: spinlock
  levels :: "nat \<Rightarrow> mlfq_queue"
  nr_running :: u32
  idle :: u64
  rq_current :: u64
  last_boost_ns :: u64
  needs_resched :: bool

text \<open>
  The fields of \<^verbatim>\<open>cpu_t\<close> that the scheduler uses, \<open>rq\<close> as the index of the run queue, and the
  machine registers it touches: \<open>cr0\<close>, the FPU registers and the address space that is loaded.
\<close>

record cpu =
  cpu_rq :: "nat option"
  idle_thread :: u64
  current_thread :: u64
  zombie_to_reap :: u64
  need_resched :: bool
  tss_rsp0 :: u64
  sysret_kernel_rsp :: u64
  cr0 :: u64
  fpu_regs :: "u8 list"
  active_vmm :: u64

text \<open>\<open>freed\<close> collects the threads whose stack and descriptor went back to the heap.\<close>

record sched =
  thread_at :: "u64 \<Rightarrow> thread"
  runqueues :: "nat \<Rightarrow> runqueue"
  cpus :: "nat \<Rightarrow> cpu"
  nr_cpus :: u32
  proc_vmm :: "u64 \<Rightarrow> u64"
  freed :: "u64 set"

definition upd_thread :: "u64 \<Rightarrow> (thread \<Rightarrow> thread) \<Rightarrow> 'b sched_scheme \<Rightarrow> 'b sched_scheme" where
  "upd_thread t f s = s\<lparr>thread_at := (thread_at s)(t := f (thread_at s t))\<rparr>"

definition upd_rq :: "nat \<Rightarrow> (runqueue \<Rightarrow> runqueue) \<Rightarrow> 'b sched_scheme \<Rightarrow> 'b sched_scheme" where
  "upd_rq r f s = s\<lparr>runqueues := (runqueues s)(r := f (runqueues s r))\<rparr>"

definition upd_cpu :: "nat \<Rightarrow> (cpu \<Rightarrow> cpu) \<Rightarrow> 'b sched_scheme \<Rightarrow> 'b sched_scheme" where
  "upd_cpu c f s = s\<lparr>cpus := (cpus s)(c := f (cpus s c))\<rparr>"

definition upd_q :: "nat \<Rightarrow> nat \<Rightarrow> (mlfq_queue \<Rightarrow> mlfq_queue) \<Rightarrow> 'b sched_scheme \<Rightarrow> 'b sched_scheme" where
  "upd_q r l f = upd_rq r (\<lambda>rq. rq\<lparr>levels := (levels rq)(l := f (levels rq l))\<rparr>)"

abbreviation queue_at :: "'b sched_scheme \<Rightarrow> nat \<Rightarrow> nat \<Rightarrow> mlfq_queue" where
  "queue_at s r l \<equiv> levels (runqueues s r) l"

section \<open>Queues\<close>

definition mlfq_push :: "nat \<Rightarrow> nat \<Rightarrow> u64 \<Rightarrow> 'b sched_scheme \<Rightarrow> 'b sched_scheme" where
  "mlfq_push r l t s =
     (let s1 = upd_thread t (\<lambda>x. x\<lparr>rq_next := NULL, rq_prev := q_tail (queue_at s r l)\<rparr>) s;
          tl = q_tail (queue_at s1 r l);
          s2 = (if tl \<noteq> NULL then upd_thread tl (\<lambda>x. x\<lparr>rq_next := t\<rparr>) s1
                else upd_q r l (\<lambda>q. q\<lparr>q_head := t\<rparr>) s1)
      in upd_q r l (\<lambda>q. q\<lparr>q_tail := t, q_count := q_count q + 1\<rparr>) s2)"

definition mlfq_pop :: "nat \<Rightarrow> nat \<Rightarrow> 'b sched_scheme \<Rightarrow> u64 \<times> 'b sched_scheme" where
  "mlfq_pop r l s =
     (let t = q_head (queue_at s r l) in
      if t = NULL then (NULL, s)
      else let nx = rq_next (thread_at s t);
               s1 = upd_q r l (\<lambda>q. q\<lparr>q_head := nx\<rparr>) s;
               s2 = (if nx \<noteq> NULL then upd_thread nx (\<lambda>x. x\<lparr>rq_prev := NULL\<rparr>) s1
                     else upd_q r l (\<lambda>q. q\<lparr>q_tail := NULL\<rparr>) s1);
               s3 = upd_thread t (\<lambda>x. x\<lparr>rq_next := NULL, rq_prev := NULL\<rparr>) s2
           in (t, upd_q r l (\<lambda>q. q\<lparr>q_count := q_count q - 1\<rparr>) s3))"

definition mlfq_remove :: "nat \<Rightarrow> nat \<Rightarrow> u64 \<Rightarrow> 'b sched_scheme \<Rightarrow> 'b sched_scheme" where
  "mlfq_remove r l t s =
     (let pv = rq_prev (thread_at s t);
          s1 = (if pv \<noteq> NULL then upd_thread pv (\<lambda>x. x\<lparr>rq_next := rq_next (thread_at s t)\<rparr>) s
                else if q_head (queue_at s r l) = t
                then upd_q r l (\<lambda>q. q\<lparr>q_head := rq_next (thread_at s t)\<rparr>) s else s);
          nx = rq_next (thread_at s1 t);
          s2 = (if nx \<noteq> NULL then upd_thread nx (\<lambda>x. x\<lparr>rq_prev := rq_prev (thread_at s1 t)\<rparr>) s1
                else if q_tail (queue_at s1 r l) = t
                then upd_q r l (\<lambda>q. q\<lparr>q_tail := rq_prev (thread_at s1 t)\<rparr>) s1 else s1);
          s3 = upd_thread t (\<lambda>x. x\<lparr>rq_next := NULL, rq_prev := NULL\<rparr>) s2
      in upd_q r l (\<lambda>q. q\<lparr>q_count := q_count q - 1\<rparr>) s3)"

section \<open>Run queues\<close>

definition sched_rq_for_cpu :: "int \<Rightarrow> 'b sched_scheme \<Rightarrow> nat option" where
  "sched_rq_for_cpu c s = (if c < 0 \<or> nr_cpus s \<le> word_of_int c then None else Some (nat c))"

definition with_rq_lock ::
  "nat \<Rightarrow> nat \<Rightarrow> ('b sched_scheme \<Rightarrow> 'a \<times> 'b sched_scheme) \<Rightarrow> 'b sched_scheme \<Rightarrow> ('a \<times> 'b sched_scheme) option" where
  "with_rq_lock me r body s =
     (case lock_acquire (int me) (rq_lock (runqueues s r)) of None \<Rightarrow> None
      | Some l \<Rightarrow> let (x, s') = body (upd_rq r (\<lambda>rq. rq\<lparr>rq_lock := l\<rparr>) s)
                 in Some (x, upd_rq r (\<lambda>rq. rq\<lparr>rq_lock := lock_release (int me) (rq_lock rq)\<rparr>) s'))"

text \<open>\<open>idl\<close> is the thread that \<^verbatim>\<open>thread_create\<close> returned for the idle loop of the CPU.\<close>

definition runqueue_init_one :: "nat \<Rightarrow> int \<Rightarrow> u64 \<Rightarrow> 'b sched_scheme \<Rightarrow> 'b sched_scheme" where
  "runqueue_init_one r cpu_index idl s =
     (let s1 = upd_rq r (\<lambda>rq. rq\<lparr>rq_lock := SPINLOCK_INIT,
                 levels := (\<lambda>i. if i < 8 then \<lparr>q_head = NULL, q_tail = NULL, q_count = 0\<rparr> else levels rq i),
                 nr_running := 0, rq_current := NULL, last_boost_ns := 0, needs_resched := False\<rparr>) s;
          s2 = upd_thread idl (\<lambda>x. x\<lparr>t_state := THREAD_RUNNING, pinned_cpu := cpu_index, last_cpu := cpu_index\<rparr>) s1
      in upd_rq r (\<lambda>rq. rq\<lparr>idle := idl\<rparr>) s2)"

text \<open>The part that \<^verbatim>\<open>sched_init\<close> and \<^verbatim>\<open>sched_init_ap\<close> share: CPU \<open>me\<close> gets run queue \<open>me\<close>.\<close>

definition attach_cpu :: "nat \<Rightarrow> u64 \<Rightarrow> 'b sched_scheme \<Rightarrow> 'b sched_scheme" where
  "attach_cpu me idl s =
     (let s1 = runqueue_init_one me (int me) idl s;
          i = idle (runqueues s1 me)
      in upd_rq me (\<lambda>rq. rq\<lparr>rq_current := i\<rparr>)
           (upd_cpu me (\<lambda>c. c\<lparr>cpu_rq := Some me, idle_thread := i, current_thread := i\<rparr>) s1))"

definition CR0_TS :: u64 where "CR0_TS = 8"

definition sched_fpu_init :: "nat \<Rightarrow> 'b sched_scheme \<Rightarrow> 'b sched_scheme" where
  "sched_fpu_init me = upd_cpu me (\<lambda>c. c\<lparr>cr0 := (cr0 c OR CR0_TS) AND NOT 4\<rparr>)"

definition sched_init :: "u64 \<Rightarrow> 'b sched_scheme \<Rightarrow> 'b sched_scheme" where
  "sched_init idl s = sched_fpu_init 0 (attach_cpu 0 idl (s\<lparr>nr_cpus := 1\<rparr>))"

definition sched_init_ap :: "nat \<Rightarrow> u64 \<Rightarrow> 'b sched_scheme \<Rightarrow> 'b sched_scheme" where
  "sched_init_ap me idl s =
     (let s1 = (if nr_cpus s \<le> of_nat me then s\<lparr>nr_cpus := of_nat me + 1\<rparr> else s)
      in sched_fpu_init me (attach_cpu me idl s1))"

definition sched_set_priority :: "u64 \<Rightarrow> int \<Rightarrow> 'b sched_scheme \<Rightarrow> 'b sched_scheme" where
  "sched_set_priority t level =
     upd_thread t (\<lambda>x. x\<lparr>priority_level := (if level < 0 then 0 else if 8 \<le> level then 7 else level),
                         time_in_level_ns := 0\<rparr>)"

definition level_of :: "'b sched_scheme \<Rightarrow> u64 \<Rightarrow> nat" where
  "level_of s t = nat (priority_level (thread_at s t))"

definition enqueue_locked :: "u64 \<Rightarrow> int \<Rightarrow> nat \<Rightarrow> 'b sched_scheme \<Rightarrow> unit \<times> 'b sched_scheme" where
  "enqueue_locked t c r s =
     (let s1 = upd_thread t (\<lambda>x. x\<lparr>t_state := THREAD_READY, last_cpu := c\<rparr>) s;
          s2 = mlfq_push r (level_of s1 t) t s1
      in ((), upd_rq r (\<lambda>rq. rq\<lparr>nr_running := nr_running rq + 1\<rparr>) s2))"

definition sched_enqueue :: "nat \<Rightarrow> u64 \<Rightarrow> 'b sched_scheme \<Rightarrow> (unit \<times> 'b sched_scheme) option" where
  "sched_enqueue me t s =
     (let x = thread_at s t;
          c = (if 0 \<le> pinned_cpu x then pinned_cpu x else if 0 \<le> last_cpu x then last_cpu x else int me)
      in case sched_rq_for_cpu c s of
           Some r \<Rightarrow> with_rq_lock me r (enqueue_locked t c r) s
         | None \<Rightarrow> (case cpu_rq (cpus s me) of None \<Rightarrow> None
                   | Some r \<Rightarrow> with_rq_lock me r (enqueue_locked t (int me) r) s))"

definition sched_dequeue :: "nat \<Rightarrow> u64 \<Rightarrow> 'b sched_scheme \<Rightarrow> (unit \<times> 'b sched_scheme) option" where
  "sched_dequeue me t s =
     (case sched_rq_for_cpu (last_cpu (thread_at s t)) s of
        None \<Rightarrow> Some ((), s)
      | Some r \<Rightarrow> with_rq_lock me r (\<lambda>s.
          let s1 = mlfq_remove r (level_of s t) t s
          in ((), if 0 < nr_running (runqueues s1 r)
                  then upd_rq r (\<lambda>rq. rq\<lparr>nr_running := nr_running rq - 1\<rparr>) s1 else s1)) s)"

section \<open>Stealing, picking and boosting\<close>

definition steal_from :: "nat \<Rightarrow> 'b sched_scheme \<Rightarrow> u64 \<times> 'b sched_scheme" where
  "steal_from v s =
     (if nr_running (runqueues s v) = 0 then (NULL, s)
      else case find (\<lambda>l. 1 < q_count (queue_at s v l)) (rev [0 ..< 8]) of
             None \<Rightarrow> (NULL, s)
           | Some l \<Rightarrow> let (t, s1) = mlfq_pop v l s
                      in (t, upd_rq v (\<lambda>rq. rq\<lparr>nr_running := nr_running rq - 1\<rparr>) s1))"

text \<open>The loop of \<^verbatim>\<open>try_steal\<close> over the remaining CPUs. Run queues lie in one array, so their addresses
  are ordered as their indices.\<close>

fun try_steal_loop :: "nat \<Rightarrow> nat \<Rightarrow> nat list \<Rightarrow> 'b sched_scheme \<Rightarrow> (u64 \<times> 'b sched_scheme) option" where
  "try_steal_loop me self [] s = Some (NULL, s)"
| "try_steal_loop me self (i # is) s =
     (if i = me \<or> nr_running (runqueues s i) \<le> 1 then try_steal_loop me self is s
      else let first = (if i < self then i else self); second = (if i < self then self else i) in
        case with_rq_lock me first (\<lambda>s. case with_rq_lock me second (steal_from i) s of
                 None \<Rightarrow> (None, s) | Some (t, s') \<Rightarrow> (Some t, s')) s of
          None \<Rightarrow> None
        | Some (None, s') \<Rightarrow> None
        | Some (Some stolen, s') \<Rightarrow>
            if stolen \<noteq> NULL then Some (stolen, upd_thread stolen (\<lambda>x. x\<lparr>last_cpu := int me\<rparr>) s')
            else try_steal_loop me self is s')"

definition try_steal :: "nat \<Rightarrow> nat \<Rightarrow> 'b sched_scheme \<Rightarrow> (u64 \<times> 'b sched_scheme) option" where
  "try_steal me self s = try_steal_loop me self [0 ..< unat (nr_cpus s)] s"

definition mlfq_pick_next :: "nat \<Rightarrow> 'b sched_scheme \<Rightarrow> u64 \<times> 'b sched_scheme" where
  "mlfq_pick_next r s =
     (case find (\<lambda>l. 0 < q_count (queue_at s r l)) [0 ..< 8] of
        None \<Rightarrow> (NULL, s) | Some l \<Rightarrow> mlfq_pop r l s)"

text \<open>The inner loop of \<^verbatim>\<open>maybe_boost\<close>: one level is emptied into level 0.\<close>

partial_function (option) boost_level :: "nat \<Rightarrow> nat \<Rightarrow> 'b sched_scheme \<Rightarrow> 'b sched_scheme option" where
  "boost_level r l s =
     (let (t, s1) = mlfq_pop r l s in
      if t = NULL then Some s1
      else boost_level r l (mlfq_push r 0 t
             (upd_thread t (\<lambda>x. x\<lparr>priority_level := 0, time_in_level_ns := 0\<rparr>) s1)))"

fun boost_levels :: "nat \<Rightarrow> nat list \<Rightarrow> 'b sched_scheme \<Rightarrow> 'b sched_scheme option" where
  "boost_levels r [] s = Some s"
| "boost_levels r (l # ls) s = (case boost_level r l s of None \<Rightarrow> None | Some s1 \<Rightarrow> boost_levels r ls s1)"

definition maybe_boost :: "nat \<Rightarrow> u64 \<Rightarrow> 'b sched_scheme \<Rightarrow> 'b sched_scheme option" where
  "maybe_boost r now_ns s =
     (if last_boost_ns (runqueues s r) = 0 then Some (upd_rq r (\<lambda>rq. rq\<lparr>last_boost_ns := now_ns\<rparr>) s)
      else if now_ns - last_boost_ns (runqueues s r) < 200 * 1000000 then Some s
      else boost_levels r [1 ..< 8] (upd_rq r (\<lambda>rq. rq\<lparr>last_boost_ns := now_ns\<rparr>) s))"

section \<open>Switching\<close>

definition fpu_save :: "nat \<Rightarrow> u64 \<Rightarrow> 'b sched_scheme \<Rightarrow> 'b sched_scheme" where
  "fpu_save me t s =
     (if \<not> fpu_dirty (thread_at s t) then s
      else upd_thread t (\<lambda>x. x\<lparr>fpu_region := fpu_regs (cpus s me), fpu_dirty := False\<rparr>) s)"

definition fpu_lazy_disable :: "nat \<Rightarrow> 'b sched_scheme \<Rightarrow> 'b sched_scheme" where
  "fpu_lazy_disable me = upd_cpu me (\<lambda>c. c\<lparr>cr0 := cr0 c OR CR0_TS\<rparr>)"

text \<open>The handler of the fault that the first FPU instruction after a switch raises.\<close>

definition nm_handler :: "nat \<Rightarrow> 'b sched_scheme \<Rightarrow> 'b sched_scheme" where
  "nm_handler me s =
     (let s1 = upd_cpu me (\<lambda>c. c\<lparr>cr0 := cr0 c AND NOT CR0_TS\<rparr>) s;
          cur = current_thread (cpus s1 me);
          s2 = (if \<not> fpu_used (thread_at s1 cur)
                then upd_thread cur (\<lambda>x. x\<lparr>fpu_used := True, fpu_region := replicate 512 0\<rparr>) s1 else s1);
          s3 = upd_cpu me (\<lambda>c. c\<lparr>fpu_regs := fpu_region (thread_at s2 cur)\<rparr>) s2
      in upd_thread cur (\<lambda>x. x\<lparr>fpu_dirty := True\<rparr>) s3)"

text \<open>\<open>rsp\<close> is the stack pointer that \<^verbatim>\<open>context_switch\<close> stores for the thread that leaves.\<close>

definition do_switch :: "nat \<Rightarrow> u64 \<Rightarrow> u64 \<Rightarrow> u64 \<Rightarrow> u64 \<Rightarrow> 'b sched_scheme \<Rightarrow> 'b sched_scheme" where
  "do_switch me prev next tsc rsp s =
     (let s1 = fpu_lazy_disable me (fpu_save me prev s);
          s2 = upd_cpu me (\<lambda>c. c\<lparr>current_thread := next\<rparr>) s1;
          s3 = (case cpu_rq (cpus s2 me) of None \<Rightarrow> s2 | Some r \<Rightarrow> upd_rq r (\<lambda>rq. rq\<lparr>rq_current := next\<rparr>) s2);
          s4 = upd_thread next (\<lambda>x. x\<lparr>t_state := THREAD_RUNNING, last_run_tsc := tsc\<rparr>) s3;
          v = proc_vmm s4 (t_proc (thread_at s4 next));
          s5 = (if v \<noteq> NULL then upd_cpu me (\<lambda>c. c\<lparr>active_vmm := v\<rparr>) s4 else s4);
          top = kstack_base (thread_at s5 next) + kstack_size (thread_at s5 next);
          s6 = upd_cpu me (\<lambda>c. c\<lparr>tss_rsp0 := top, sysret_kernel_rsp := top\<rparr>) s5
      in upd_thread prev (\<lambda>x. x\<lparr>kernel_rsp := rsp\<rparr>) s6)"

definition thread_free_resources :: "u64 \<Rightarrow> 'b sched_scheme \<Rightarrow> 'b sched_scheme" where
  "thread_free_resources t s = s\<lparr>freed := insert t (freed s)\<rparr>"

definition reap_pending_zombie :: "nat \<Rightarrow> 'b sched_scheme \<Rightarrow> 'b sched_scheme" where
  "reap_pending_zombie me s =
     (let z = zombie_to_reap (cpus s me) in
      if z \<noteq> NULL then thread_free_resources z (upd_cpu me (\<lambda>c. c\<lparr>zombie_to_reap := NULL\<rparr>) s) else s)"

text \<open>The first critical section of \<^verbatim>\<open>schedule\<close>: the previous thread goes back, the queues are boosted,
  the next thread is picked.\<close>

definition requeue_prev :: "nat \<Rightarrow> u64 \<Rightarrow> 'b sched_scheme \<Rightarrow> 'b sched_scheme" where
  "requeue_prev r prev s =
     (if t_state (thread_at s prev) = THREAD_RUNNING
      then let s1 = sched_set_priority prev (priority_level (thread_at s prev)) s;
               s2 = mlfq_push r (level_of s1 prev) prev s1;
               s3 = upd_thread prev (\<lambda>x. x\<lparr>t_state := THREAD_READY\<rparr>) s2
           in upd_rq r (\<lambda>rq. rq\<lparr>nr_running := nr_running rq + 1\<rparr>) s3
      else s)"

definition pick_locked :: "nat \<Rightarrow> u64 \<Rightarrow> u64 \<Rightarrow> 'b sched_scheme \<Rightarrow> (u64 \<times> 'b sched_scheme) option" where
  "pick_locked r prev now_ns s =
     (case maybe_boost r now_ns (requeue_prev r prev s) of None \<Rightarrow> None
      | Some s1 \<Rightarrow> let (next, s2) = mlfq_pick_next r s1
                  in Some (next, upd_rq r (\<lambda>rq. rq\<lparr>needs_resched := False\<rparr>) s2))"

definition acquire_rq :: "nat \<Rightarrow> nat \<Rightarrow> 'b sched_scheme \<Rightarrow> 'b sched_scheme option" where
  "acquire_rq me r s = map_option (\<lambda>l. upd_rq r (\<lambda>rq. rq\<lparr>rq_lock := l\<rparr>) s)
     (lock_acquire (int me) (rq_lock (runqueues s r)))"

definition release_rq :: "nat \<Rightarrow> nat \<Rightarrow> 'b sched_scheme \<Rightarrow> 'b sched_scheme" where
  "release_rq me r = upd_rq r (\<lambda>rq. rq\<lparr>rq_lock := lock_release (int me) (rq_lock rq)\<rparr>)"

definition schedule :: "nat \<Rightarrow> u64 \<Rightarrow> u64 \<Rightarrow> u64 \<Rightarrow> 'b sched_scheme \<Rightarrow> 'b sched_scheme option" where
  "schedule me now_ns tsc rsp s0 = do {
     let s = reap_pending_zombie me s0;
     r \<leftarrow> cpu_rq (cpus s me);
     let prev = current_thread (cpus s me);
     s1 \<leftarrow> acquire_rq me r s;
     (picked, s2) \<leftarrow> pick_locked r prev now_ns s1;
     (next, s3) \<leftarrow>
       (if picked \<noteq> NULL then Some (picked, s2)
        else do {
          (stolen, t1) \<leftarrow> try_steal me r (release_rq me r s2);
          t2 \<leftarrow> acquire_rq me r t1;
          Some (stolen, t2)
        });
     let s4 = (if next = NULL then s3 else upd_rq r (\<lambda>rq. rq\<lparr>nr_running := nr_running rq - 1\<rparr>) s3);
     let chosen = (if next = NULL then idle (runqueues s3 r) else next);
     let s5 = release_rq me r s4;
     if chosen = prev then Some s5 else Some (do_switch me prev chosen tsc rsp s5)
   }"

section \<open>Ticks, sleeping and waking\<close>

definition level_quantum_ms :: "u64 list" where
  "level_quantum_ms = [5, 10, 20, 40, 80, 120, 160, 200]"

definition sched_tick :: "nat \<Rightarrow> u64 \<Rightarrow> u64 \<Rightarrow> 'b sched_scheme \<Rightarrow> 'b sched_scheme" where
  "sched_tick me tsc tsc_freq s =
     (let cur = current_thread (cpus s me) in
      if cur = idle_thread (cpus s me) then upd_cpu me (\<lambda>c. c\<lparr>need_resched := True\<rparr>) s
      else let delta_ns = (tsc - last_run_tsc (thread_at s cur)) * 1000000000 div (if tsc_freq \<noteq> 0 then tsc_freq else 1);
               s1 = upd_thread cur (\<lambda>x. x\<lparr>time_in_level_ns := time_in_level_ns x + delta_ns,
                                         total_runtime_ns := total_runtime_ns x + delta_ns\<rparr>) s;
               quantum_ns = level_quantum_ms ! level_of s1 cur * 1000000
           in if quantum_ns \<le> time_in_level_ns (thread_at s1 cur)
              then upd_cpu me (\<lambda>c. c\<lparr>need_resched := True\<rparr>)
                     (upd_thread cur (\<lambda>x. x\<lparr>time_in_level_ns := 0,
                        priority_level := (if priority_level x < 7 then priority_level x + 1 else priority_level x)\<rparr>) s1)
              else s1)"

definition sched_check_resched :: "nat \<Rightarrow> u64 \<Rightarrow> u64 \<Rightarrow> u64 \<Rightarrow> 'b sched_scheme \<Rightarrow> 'b sched_scheme option" where
  "sched_check_resched me now_ns tsc rsp s =
     (if cpu_rq (cpus s me) = None then Some s
      else if need_resched (cpus s me)
      then schedule me now_ns tsc rsp (upd_cpu me (\<lambda>c. c\<lparr>need_resched := False\<rparr>) s)
      else Some s)"

definition with_thread_lock ::
  "nat \<Rightarrow> u64 \<Rightarrow> ('b sched_scheme \<Rightarrow> 'a \<times> 'b sched_scheme) \<Rightarrow> 'b sched_scheme \<Rightarrow> ('a \<times> 'b sched_scheme) option" where
  "with_thread_lock me t body s =
     (case lock_acquire (int me) (t_lock (thread_at s t)) of None \<Rightarrow> None
      | Some l \<Rightarrow> let (x, s') = body (upd_thread t (\<lambda>x. x\<lparr>t_lock := l\<rparr>) s)
                 in Some (x, upd_thread t (\<lambda>x. x\<lparr>t_lock := lock_release (int me) (t_lock x)\<rparr>) s'))"

definition sched_mark_blocked :: "nat \<Rightarrow> u64 \<Rightarrow> 'b sched_scheme \<Rightarrow> (unit \<times> 'b sched_scheme) option" where
  "sched_mark_blocked me t =
     with_thread_lock me t (\<lambda>s. ((), upd_thread t (\<lambda>x. x\<lparr>t_state := THREAD_BLOCKED\<rparr>) s))"

definition sched_wake :: "nat \<Rightarrow> u64 \<Rightarrow> 'b sched_scheme \<Rightarrow> (unit \<times> 'b sched_scheme) option" where
  "sched_wake me t s =
     (case with_thread_lock me t (\<lambda>s.
         if t_state (thread_at s t) \<noteq> THREAD_BLOCKED \<and> t_state (thread_at s t) \<noteq> THREAD_SLEEPING then (False, s)
         else (True, upd_thread t (\<lambda>x. x\<lparr>t_state := THREAD_READY\<rparr>) s)) s of
        None \<Rightarrow> None
      | Some (w, s') \<Rightarrow> if w then sched_enqueue me t s' else Some ((), s'))"

definition sched_exit_current :: "nat \<Rightarrow> u64 \<Rightarrow> int \<Rightarrow> u64 \<Rightarrow> u64 \<Rightarrow> u64 \<Rightarrow> 'b sched_scheme \<Rightarrow> 'b sched_scheme option" where
  "sched_exit_current me self code now_ns tsc rsp s =
     (case with_thread_lock me self (\<lambda>s. ((), upd_thread self (\<lambda>x. x\<lparr>t_state := THREAD_ZOMBIE\<rparr>) s))
             (upd_thread self (\<lambda>x. x\<lparr>t_exit_code := code\<rparr>) s) of
        None \<Rightarrow> None
      | Some (_, s1) \<Rightarrow> schedule me now_ns tsc rsp (upd_cpu me (\<lambda>c. c\<lparr>zombie_to_reap := self\<rparr>) s1))"

definition sched_idle_enter :: "nat \<Rightarrow> 'b sched_scheme \<Rightarrow> 'b sched_scheme option" where
  "sched_idle_enter me s =
     (let i = idle_thread (cpus s me); s1 = upd_cpu me (\<lambda>c. c\<lparr>current_thread := i\<rparr>) s
      in map_option (\<lambda>r. upd_rq r (\<lambda>rq. rq\<lparr>rq_current := i\<rparr>) s1) (cpu_rq (cpus s me)))"

definition sched_start :: "nat \<Rightarrow> 'b sched_scheme \<Rightarrow> 'b sched_scheme" where
  "sched_start me s =
     (let i = thread_at s (idle_thread (cpus s me))
      in upd_cpu me (\<lambda>c. c\<lparr>tss_rsp0 := kstack_base i + kstack_size i\<rparr>) s)"

section \<open>Field access\<close>

lemma upd_thread_simps [simp]:
  "thread_at (upd_thread t f s) = (thread_at s)(t := f (thread_at s t))"
  "runqueues (upd_thread t f s) = runqueues s" "cpus (upd_thread t f s) = cpus s"
  "nr_cpus (upd_thread t f s) = nr_cpus s" "proc_vmm (upd_thread t f s) = proc_vmm s"
  "freed (upd_thread t f s) = freed s"
  by (simp_all add: upd_thread_def)

lemma upd_rq_simps [simp]:
  "thread_at (upd_rq r g s) = thread_at s"
  "runqueues (upd_rq r g s) = (runqueues s)(r := g (runqueues s r))" "cpus (upd_rq r g s) = cpus s"
  "nr_cpus (upd_rq r g s) = nr_cpus s" "proc_vmm (upd_rq r g s) = proc_vmm s" "freed (upd_rq r g s) = freed s"
  by (simp_all add: upd_rq_def)

lemma upd_cpu_simps [simp]:
  "thread_at (upd_cpu c h s) = thread_at s" "runqueues (upd_cpu c h s) = runqueues s"
  "cpus (upd_cpu c h s) = (cpus s)(c := h (cpus s c))"
  "nr_cpus (upd_cpu c h s) = nr_cpus s" "proc_vmm (upd_cpu c h s) = proc_vmm s" "freed (upd_cpu c h s) = freed s"
  by (simp_all add: upd_cpu_def)

lemma upd_q_simps [simp]:
  "thread_at (upd_q r l g s) = thread_at s" "cpus (upd_q r l g s) = cpus s"
  "nr_cpus (upd_q r l g s) = nr_cpus s" "proc_vmm (upd_q r l g s) = proc_vmm s" "freed (upd_q r l g s) = freed s"
  "runqueues (upd_q r l g s) = (runqueues s)(r := (runqueues s r)\<lparr>levels := (levels (runqueues s r))(l := g (queue_at s r l))\<rparr>)"
  by (simp_all add: upd_q_def)

abbreviation rnext :: "'b sched_scheme \<Rightarrow> u64 \<Rightarrow> u64" where "rnext s t \<equiv> rq_next (thread_at s t)"
abbreviation rprev :: "'b sched_scheme \<Rightarrow> u64 \<Rightarrow> u64" where "rprev s t \<equiv> rq_prev (thread_at s t)"

text \<open>A thread up to its queue links.\<close>

definition unlinked :: "thread \<Rightarrow> thread" where
  "unlinked x = x\<lparr>rq_next := NULL, rq_prev := NULL\<rparr>"

definition same_threads :: "'b sched_scheme \<Rightarrow> 'b sched_scheme \<Rightarrow> bool" where
  "same_threads s s' \<longleftrightarrow> (\<forall>t. unlinked (thread_at s' t) = unlinked (thread_at s t)) \<and> cpus s' = cpus s \<and>
     nr_cpus s' = nr_cpus s \<and> proc_vmm s' = proc_vmm s \<and> freed s' = freed s"

lemma same_threads_refl [simp]: "same_threads s s"
  by (simp add: same_threads_def)

lemma unlinked_fields:
  assumes "unlinked x = unlinked y"
  shows "priority_level x = priority_level y" "t_state x = t_state y" "last_cpu x = last_cpu y"
    "pinned_cpu x = pinned_cpu y" "t_proc x = t_proc y" "fpu_dirty x = fpu_dirty y" "time_in_level_ns x = time_in_level_ns y"
    "t_lock x = t_lock y" "fpu_region x = fpu_region y" "fpu_used x = fpu_used y"
  using assms by (cases x; cases y; simp add: unlinked_def)+

section \<open>One queue\<close>

definition qrepr :: "nat \<Rightarrow> nat \<Rightarrow> 'b sched_scheme \<Rightarrow> u64 list \<Rightarrow> bool" where
  "qrepr r l s xs \<longleftrightarrow> dll (rnext s) (rprev s) (q_head (queue_at s r l)) xs (q_tail (queue_at s r l)) \<and>
     q_count (queue_at s r l) = of_nat (length xs)"

lemma mlfq_push_links:
  assumes "t \<noteq> q_tail (queue_at s r l)"
  shows "rnext (mlfq_push r l t s) a =
      (if a = t then NULL else if a = q_tail (queue_at s r l) \<and> q_tail (queue_at s r l) \<noteq> NULL then t else rnext s a)"
    and "rprev (mlfq_push r l t s) a = (if a = t then q_tail (queue_at s r l) else rprev s a)"
    and "queue_at (mlfq_push r l t s) r l =
      \<lparr>q_head = (if q_tail (queue_at s r l) = NULL then t else q_head (queue_at s r l)), q_tail = t,
       q_count = q_count (queue_at s r l) + 1\<rparr>"
  using assms by (auto simp: mlfq_push_def Let_def)

lemma mlfq_push_others:
  "(r', l') \<noteq> (r, l) \<Longrightarrow> queue_at (mlfq_push r l t s) r' l' = queue_at s r' l'"
  "nr_running (runqueues (mlfq_push r l t s) r') = nr_running (runqueues s r')"
  "rq_lock (runqueues (mlfq_push r l t s) r') = rq_lock (runqueues s r')"
  "last_boost_ns (runqueues (mlfq_push r l t s) r') = last_boost_ns (runqueues s r')"
  "idle (runqueues (mlfq_push r l t s) r') = idle (runqueues s r')"
  "same_threads s (mlfq_push r l t s)"
  by (auto simp: mlfq_push_def Let_def same_threads_def unlinked_def)

lemma qrepr_push:
  assumes q: "qrepr r l s xs" and t: "t \<noteq> NULL" "t \<notin> set xs"
  shows "qrepr r l (mlfq_push r l t s) (xs @ [t])"
proof -
  let ?s = "mlfq_push r l t s" and ?q = "queue_at s r l"
  have d: "dll (rnext s) (rprev s) (q_head ?q) xs (q_tail ?q)" using q by (simp add: qrepr_def)
  have e: "q_tail ?q = NULL \<longleftrightarrow> xs = []" using dll_tail_NULL [OF d] .
  have ne: "t \<noteq> q_tail ?q" using dll_tail [OF d] t by (auto split: if_splits)
  note links = mlfq_push_links [OF ne]
  have "dll (rnext ?s) (rprev ?s) (if xs = [] then t else q_head ?q) (xs @ [t]) t"
    by (rule dll_push_back [OF d t]) (use links ne t in auto)
  with links(3) e q show ?thesis by (simp add: qrepr_def)
qed

lemma mlfq_pop_links:
  assumes "q_head (queue_at s r l) = t" and "t \<noteq> NULL" and "rnext s t \<noteq> t"
  shows "fst (mlfq_pop r l s) = t"
    and "rnext (snd (mlfq_pop r l s)) a = (if a = t then NULL else rnext s a)"
    and "rprev (snd (mlfq_pop r l s)) a =
      (if a = t then NULL else if a = rnext s t \<and> rnext s t \<noteq> NULL then NULL else rprev s a)"
    and "queue_at (snd (mlfq_pop r l s)) r l =
      \<lparr>q_head = rnext s t, q_tail = (if rnext s t = NULL then NULL else q_tail (queue_at s r l)),
       q_count = q_count (queue_at s r l) - 1\<rparr>"
  using assms by (auto simp: mlfq_pop_def Let_def)

lemma mlfq_pop_others:
  "(r', l') \<noteq> (r, l) \<Longrightarrow> queue_at (snd (mlfq_pop r l s)) r' l' = queue_at s r' l'"
  "nr_running (runqueues (snd (mlfq_pop r l s)) r') = nr_running (runqueues s r')"
  "rq_lock (runqueues (snd (mlfq_pop r l s)) r') = rq_lock (runqueues s r')"
  "last_boost_ns (runqueues (snd (mlfq_pop r l s)) r') = last_boost_ns (runqueues s r')"
  "idle (runqueues (snd (mlfq_pop r l s)) r') = idle (runqueues s r')"
  "same_threads s (snd (mlfq_pop r l s))"
  by (auto simp: mlfq_pop_def Let_def same_threads_def unlinked_def)

lemma qrepr_pop_empty: "qrepr r l s [] \<Longrightarrow> mlfq_pop r l s = (NULL, s)"
  by (simp add: qrepr_def mlfq_pop_def)

lemma qrepr_pop:
  assumes q: "qrepr r l s (t # xs)"
  shows "fst (mlfq_pop r l s) = t" and "qrepr r l (snd (mlfq_pop r l s)) xs"
proof -
  let ?s = "snd (mlfq_pop r l s)" and ?q = "queue_at s r l"
  have d: "dll (rnext s) (rprev s) (q_head ?q) ([] @ t # xs) (q_tail ?q)" using q by (simp add: qrepr_def)
  note nb = dll_neighbours [OF d]
  have h: "q_head ?q = t" using dll_head [OF d] by simp
  have dist: "t \<notin> set xs" "distinct xs" using dll_distinct [OF d] by auto
  have nt: "rnext s t \<noteq> t" using nb(2) nb(3) dist by (auto split: if_splits dest: hd_in_set)
  note links = mlfq_pop_links [OF h nb(3) nt]
  show "fst (mlfq_pop r l s) = t" using links(1) .
  have p0: "rprev s t = NULL" using nb(1) by simp
  have "dll (rnext ?s) (rprev ?s) (if rprev s t = NULL then rnext s t else q_head ?q) ([] @ xs)
      (if rnext s t = NULL then rprev s t else q_tail ?q)"
    by (rule dll_unlink [where n' = "rnext ?s" and p' = "rprev ?s", OF d]) (use links p0 nt dist in auto)
  with links(4) p0 q show "qrepr r l ?s xs" by (auto simp: qrepr_def split: if_splits)
qed

lemma mlfq_remove_links:
  assumes "rprev s t \<noteq> t" and "rnext s t \<noteq> t"
    and "rprev s t = NULL \<Longrightarrow> q_head (queue_at s r l) = t" and "rnext s t = NULL \<Longrightarrow> q_tail (queue_at s r l) = t"
  shows "rnext (mlfq_remove r l t s) a =
      (if a = t then NULL else if a = rprev s t \<and> rprev s t \<noteq> NULL then rnext s t else rnext s a)"
    and "rprev (mlfq_remove r l t s) a =
      (if a = t then NULL else if a = rnext s t \<and> rnext s t \<noteq> NULL then rprev s t else rprev s a)"
    and "q_head (queue_at (mlfq_remove r l t s) r l) = (if rprev s t = NULL then rnext s t else q_head (queue_at s r l))"
    and "q_tail (queue_at (mlfq_remove r l t s) r l) = (if rnext s t = NULL then rprev s t else q_tail (queue_at s r l))"
    and "q_count (queue_at (mlfq_remove r l t s) r l) = q_count (queue_at s r l) - 1"
  using assms by (cases "rprev s t = NULL"; cases "rnext s t = NULL"; simp add: mlfq_remove_def Let_def)+

lemma same_threads_trans: "same_threads s t \<Longrightarrow> same_threads t u \<Longrightarrow> same_threads s u"
  by (simp add: same_threads_def)

lemma same_threads_upd_q [simp]: "same_threads s (upd_q r l g s') = same_threads s s'"
  by (simp add: same_threads_def)

lemma same_threads_upd:
  "same_threads s s' \<Longrightarrow> (\<And>x. unlinked (f x) = unlinked x) \<Longrightarrow> same_threads s (upd_thread t f s')"
  by (simp add: same_threads_def)

lemma unlinked_links [simp]:
  "unlinked (x\<lparr>rq_next := a\<rparr>) = unlinked x" "unlinked (x\<lparr>rq_prev := b\<rparr>) = unlinked x"
  "unlinked (x\<lparr>rq_next := a, rq_prev := b\<rparr>) = unlinked x"
  by (simp_all add: unlinked_def)

lemma mlfq_remove_others:
  "(r', l') \<noteq> (r, l) \<Longrightarrow> queue_at (mlfq_remove r l t s) r' l' = queue_at s r' l'"
  "nr_running (runqueues (mlfq_remove r l t s) r') = nr_running (runqueues s r')"
  "rq_lock (runqueues (mlfq_remove r l t s) r') = rq_lock (runqueues s r')"
  "same_threads s (mlfq_remove r l t s)"
  unfolding mlfq_remove_def Let_def
  by (cases "r' = r"; simp) (simp_all add: same_threads_upd)

lemma qrepr_remove:
  assumes q: "qrepr r l s (xs @ t # ys)"
  shows "qrepr r l (mlfq_remove r l t s) (xs @ ys)"
proof -
  let ?s = "mlfq_remove r l t s" and ?q = "queue_at s r l"
  have d: "dll (rnext s) (rprev s) (q_head ?q) (xs @ t # ys) (q_tail ?q)" using q by (simp add: qrepr_def)
  note nb = dll_neighbours [OF d]
  have dist: "distinct (xs @ t # ys)" using dll_distinct [OF d] .
  have ne: "rprev s t \<noteq> t" "rnext s t \<noteq> t"
    using nb dist by (auto split: if_splits dest: hd_in_set last_in_set)
  have hd: "rprev s t = NULL \<Longrightarrow> q_head ?q = t"
    using dll_prev_NULL [OF d] dll_head [OF d] by simp
  have tl: "rnext s t = NULL \<Longrightarrow> q_tail ?q = t"
    using dll_next_NULL [OF d] dll_tail [OF d] by simp
  note links = mlfq_remove_links [OF ne hd tl]
  have "dll (rnext ?s) (rprev ?s) (if rprev s t = NULL then rnext s t else q_head ?q) (xs @ ys)
      (if rnext s t = NULL then rprev s t else q_tail ?q)"
    by (rule dll_unlink [where n' = "rnext ?s" and p' = "rprev ?s", OF d]) (use links ne dist in auto)
  with links(3-5) q show ?thesis by (simp add: qrepr_def)
qed

interpretation mlfq: intrusive_queue "qrepr r l" "mlfq_push r l" "mlfq_pop r l" "mlfq_remove r l" for r l
proof
  show "distinct xs \<and> NULL \<notin> set xs" if "qrepr r l s xs" for s :: "'a sched_scheme" and xs
    using that dll_distinct dll_null unfolding qrepr_def by blast
  show "xs = ys" if "qrepr r l s xs" "qrepr r l s ys" for s :: "'a sched_scheme" and xs ys
    using that unfolding qrepr_def by (blast intro: dll_unique)
qed (auto intro: qrepr_push qrepr_pop_empty qrepr_pop qrepr_remove)

section \<open>All queues\<close>

text \<open>
  \<open>qs r l\<close> is the contents of level \<open>l\<close> of run queue \<open>r\<close>; no thread is in two queues.
\<close>

definition qs_rel :: "'b sched_scheme \<Rightarrow> (nat \<Rightarrow> nat \<Rightarrow> u64 list) \<Rightarrow> bool" where
  "qs_rel s qs \<longleftrightarrow> (\<forall>r. \<forall>l < 8. qrepr r l s (qs r l)) \<and>
     (\<forall>r r' l l' t. l < 8 \<longrightarrow> l' < 8 \<longrightarrow> t \<in> set (qs r l) \<longrightarrow> t \<in> set (qs r' l') \<longrightarrow> r = r' \<and> l = l')"

definition queued :: "(nat \<Rightarrow> nat \<Rightarrow> u64 list) \<Rightarrow> u64 set" where
  "queued qs = (\<Union>r. \<Union>l < 8. set (qs r l))"

definition upd_qs :: "nat \<Rightarrow> nat \<Rightarrow> u64 list \<Rightarrow> (nat \<Rightarrow> nat \<Rightarrow> u64 list) \<Rightarrow> nat \<Rightarrow> nat \<Rightarrow> u64 list" where
  "upd_qs r l xs qs = qs(r := (qs r)(l := xs))"

lemma queuedI: "l < 8 \<Longrightarrow> t \<in> set (qs r l) \<Longrightarrow> t \<in> queued qs"
  by (auto simp: queued_def)

lemma upd_qs_apply: "upd_qs r l xs qs r' l' = (if r' = r \<and> l' = l then xs else qs r' l')"
  by (simp add: upd_qs_def)

lemma queued_upd: "l < 8 \<Longrightarrow> t \<in> queued (upd_qs r l xs qs) \<longleftrightarrow>
   t \<in> set xs \<or> (\<exists>r' l'. l' < 8 \<and> (r', l') \<noteq> (r, l) \<and> t \<in> set (qs r' l'))"
  by (auto simp: queued_def upd_qs_apply split: if_splits)

lemma qs_rel_disjoint:
  "qs_rel s qs \<Longrightarrow> l < 8 \<Longrightarrow> l' < 8 \<Longrightarrow> t \<in> set (qs r l) \<Longrightarrow> t \<in> set (qs r' l') \<Longrightarrow> r = r' \<and> l = l'"
  unfolding qs_rel_def by blast

lemma qs_rel_distinct: "qs_rel s qs \<Longrightarrow> l < 8 \<Longrightarrow> distinct (qs r l)"
  by (auto simp: qs_rel_def dest: mlfq.repr_distinct)

lemma qs_rel_not_NULL: "qs_rel s qs \<Longrightarrow> NULL \<notin> queued qs"
  by (auto simp: qs_rel_def queued_def dest: mlfq.repr_distinct)

text \<open>A queue whose descriptor and whose members' links are as before.\<close>

lemma qrepr_cong:
  assumes "queue_at s' r l = queue_at s r l" and "\<And>a. a \<in> set xs \<Longrightarrow> rnext s' a = rnext s a \<and> rprev s' a = rprev s a"
  shows "qrepr r l s' xs = qrepr r l s xs"
  unfolding qrepr_def assms(1) using dll_cong [of xs "rnext s'" "rnext s" "rprev s'" "rprev s"] assms(2) by simp

lemma qs_rel_update:
  assumes "qs_rel s qs" and "l < 8" and "qrepr r l s' xs"
    and "\<And>r' l'. (r', l') \<noteq> (r, l) \<Longrightarrow> queue_at s' r' l' = queue_at s r' l'"
    and "\<And>a r' l'. (r', l') \<noteq> (r, l) \<Longrightarrow> l' < 8 \<Longrightarrow> a \<in> set (qs r' l') \<Longrightarrow> rnext s' a = rnext s a \<and> rprev s' a = rprev s a"
    and "\<And>a r' l'. a \<in> set xs \<Longrightarrow> l' < 8 \<Longrightarrow> a \<in> set (qs r' l') \<Longrightarrow> (r', l') = (r, l)"
  shows "qs_rel s' (upd_qs r l xs qs)"
proof -
  have "qrepr r' l' s' (upd_qs r l xs qs r' l')" if "l' < 8" for r' l'
  proof (cases "(r', l') = (r, l)")
    case True
    with assms(3) show ?thesis by (simp add: upd_qs_apply)
  next
    case False
    have "qrepr r' l' s (qs r' l')" using assms(1) that by (simp add: qs_rel_def)
    then have "qrepr r' l' s' (qs r' l')"
      using qrepr_cong [OF assms(4) [OF False]] assms(5) [OF False that] by blast
    with False show ?thesis by (auto simp: upd_qs_apply)
  qed
  moreover have "r1 = r2 \<and> l1 = l2"
    if "l1 < 8" "l2 < 8" "t \<in> set (upd_qs r l xs qs r1 l1)" "t \<in> set (upd_qs r l xs qs r2 l2)" for r1 r2 l1 l2 t
  proof -
    have old: "r1 = r2 \<and> l1 = l2" if "t \<in> set (qs r1 l1)" "t \<in> set (qs r2 l2)"
      using that \<open>l1 < 8\<close> \<open>l2 < 8\<close> assms(1) unfolding qs_rel_def by blast
    show ?thesis
      using that old assms(6) [of t l1 r1] assms(6) [of t l2 r2]
      by (cases "r1 = r \<and> l1 = l"; cases "r2 = r \<and> l2 = l") (simp_all add: upd_qs_apply)
  qed
  ultimately show ?thesis unfolding qs_rel_def by blast
qed

lemma queue_tail_in:
  assumes "qs_rel s qs" and "l < 8"
  shows "q_tail (queue_at s r l) \<noteq> NULL \<Longrightarrow> q_tail (queue_at s r l) \<in> set (qs r l)"
    and "q_head (queue_at s r l) \<noteq> NULL \<Longrightarrow> q_head (queue_at s r l) \<in> set (qs r l)"
proof -
  have d: "dll (rnext s) (rprev s) (q_head (queue_at s r l)) (qs r l) (q_tail (queue_at s r l))"
    using assms by (simp add: qs_rel_def qrepr_def)
  show "q_tail (queue_at s r l) \<noteq> NULL \<Longrightarrow> q_tail (queue_at s r l) \<in> set (qs r l)"
    using dll_tail [OF d] by (auto split: if_splits)
  show "q_head (queue_at s r l) \<noteq> NULL \<Longrightarrow> q_head (queue_at s r l) \<in> set (qs r l)"
    using dll_head [OF d] by (auto split: if_splits)
qed

lemma qs_push:
  assumes q: "qs_rel s qs" and l: "l < 8" and t: "t \<noteq> NULL" "t \<notin> queued qs"
  shows "qs_rel (mlfq_push r l t s) (upd_qs r l (qs r l @ [t]) qs)"
proof (rule qs_rel_update [OF q l])
  have tq: "t \<notin> set (qs r' l')" if "l' < 8" for r' l' using t(2) that by (auto simp: queued_def)
  have ne: "t \<noteq> q_tail (queue_at s r l)" using queue_tail_in(1) [OF q l] t tq [OF l] by metis
  show "qrepr r l (mlfq_push r l t s) (qs r l @ [t])"
    using q l t(1) tq by (intro qrepr_push) (auto simp: qs_rel_def)
  show "queue_at (mlfq_push r l t s) r' l' = queue_at s r' l'" if "(r', l') \<noteq> (r, l)" for r' l'
    using that by (rule mlfq_push_others(1))
  show "rnext (mlfq_push r l t s) a = rnext s a \<and> rprev (mlfq_push r l t s) a = rprev s a"
    if "(r', l') \<noteq> (r, l)" "l' < 8" "a \<in> set (qs r' l')" for a r' l'
  proof -
    have "a \<noteq> t" using tq that by auto
    moreover have "a \<noteq> q_tail (queue_at s r l)" if "q_tail (queue_at s r l) \<noteq> NULL"
      using queue_tail_in(1) [OF q l, of r] that \<open>a \<in> set (qs r' l')\<close> \<open>l' < 8\<close> \<open>(r', l') \<noteq> (r, l)\<close> q l
      unfolding qs_rel_def by blast
    ultimately show ?thesis using mlfq_push_links [OF ne] by auto
  qed
  show "(r', l') = (r, l)" if "a \<in> set (qs r l @ [t])" "l' < 8" "a \<in> set (qs r' l')" for a r' l'
    using that tq q l unfolding qs_rel_def by auto
qed

lemma qs_pop:
  assumes q: "qs_rel s qs" and l: "l < 8" and x: "qs r l = t # xs"
  shows "fst (mlfq_pop r l s) = t" and "qs_rel (snd (mlfq_pop r l s)) (upd_qs r l xs qs)"
proof -
  have rep: "qrepr r l s (t # xs)" using q l x unfolding qs_rel_def by metis
  show "fst (mlfq_pop r l s) = t" using qrepr_pop(1) [OF rep] .
  have d: "dll (rnext s) (rprev s) (q_head (queue_at s r l)) ([] @ t # xs) (q_tail (queue_at s r l))"
    using rep by (simp add: qrepr_def)
  note nb = dll_neighbours [OF d]
  have nt: "rnext s t \<noteq> t" using nb dll_distinct [OF d] by (auto split: if_splits dest: hd_in_set)
  have nx: "rnext s t \<noteq> NULL \<Longrightarrow> rnext s t \<in> set (qs r l)" using nb(2) x by (auto split: if_splits)
  have h: "q_head (queue_at s r l) = t" using dll_head [OF d] by simp
  note links = mlfq_pop_links [OF h nb(3) nt]
  show "qs_rel (snd (mlfq_pop r l s)) (upd_qs r l xs qs)"
  proof (rule qs_rel_update [OF q l qrepr_pop(2) [OF rep] mlfq_pop_others(1)])
    show "rnext (snd (mlfq_pop r l s)) a = rnext s a \<and> rprev (snd (mlfq_pop r l s)) a = rprev s a"
      if "(r', l') \<noteq> (r, l)" "l' < 8" "a \<in> set (qs r' l')" for a r' l'
    proof -
      have "a \<notin> set (qs r l)" using that q l unfolding qs_rel_def by blast
      then have "a \<noteq> t" "rnext s t \<noteq> NULL \<Longrightarrow> a \<noteq> rnext s t" using x nx by auto
      then show ?thesis using links by auto
    qed
    show "(r', l') = (r, l)" if "a \<in> set xs" "l' < 8" "a \<in> set (qs r' l')" for a r' l'
      using that q l x unfolding qs_rel_def by (metis list.set_intros(2))
  qed
qed

lemma qs_remove:
  assumes q: "qs_rel s qs" and l: "l < 8" and x: "qs r l = xs @ t # ys"
  shows "qs_rel (mlfq_remove r l t s) (upd_qs r l (xs @ ys) qs)"
proof -
  have rep: "qrepr r l s (xs @ t # ys)" using q l x unfolding qs_rel_def by metis
  have d: "dll (rnext s) (rprev s) (q_head (queue_at s r l)) (xs @ t # ys) (q_tail (queue_at s r l))"
    using rep by (simp add: qrepr_def)
  note nb = dll_neighbours [OF d]
  have ne: "rprev s t \<noteq> t" "rnext s t \<noteq> t"
    using nb dll_distinct [OF d] by (auto split: if_splits dest: hd_in_set last_in_set)
  have mem: "rprev s t \<noteq> NULL \<Longrightarrow> rprev s t \<in> set (qs r l)" "rnext s t \<noteq> NULL \<Longrightarrow> rnext s t \<in> set (qs r l)"
    using nb x by (auto split: if_splits)
  have hd: "rprev s t = NULL \<Longrightarrow> q_head (queue_at s r l) = t" using dll_prev_NULL [OF d] dll_head [OF d] by simp
  have tl: "rnext s t = NULL \<Longrightarrow> q_tail (queue_at s r l) = t" using dll_next_NULL [OF d] dll_tail [OF d] by simp
  note links = mlfq_remove_links [OF ne hd tl]
  show ?thesis
  proof (rule qs_rel_update [OF q l qrepr_remove [OF rep] mlfq_remove_others(1)])
    show "rnext (mlfq_remove r l t s) a = rnext s a \<and> rprev (mlfq_remove r l t s) a = rprev s a"
      if "(r', l') \<noteq> (r, l)" "l' < 8" "a \<in> set (qs r' l')" for a r' l'
    proof -
      have "a \<notin> set (qs r l)" using that q l unfolding qs_rel_def by blast
      then have "a \<noteq> t" "rprev s t \<noteq> NULL \<Longrightarrow> a \<noteq> rprev s t" "rnext s t \<noteq> NULL \<Longrightarrow> a \<noteq> rnext s t"
        using x mem by auto
      then show ?thesis using links by auto
    qed
    show "(r', l') = (r, l)" if "a \<in> set (xs @ ys)" "l' < 8" "a \<in> set (qs r' l')" for a r' l'
    proof -
      have "a \<in> set (qs r l)" using that(1) x by auto
      with that q l show ?thesis unfolding qs_rel_def by blast
    qed
  qed
qed

text \<open>Changes that touch neither links nor queues.\<close>

lemma qs_rel_cong:
  assumes "\<And>r l. queue_at s' r l = queue_at s r l"
    and "\<And>t. rnext s' t = rnext s t" and "\<And>t. rprev s' t = rprev s t"
  shows "qs_rel s' = qs_rel s"
proof -
  have "qrepr r l s' xs = qrepr r l s xs" for r l xs by (rule qrepr_cong) (simp_all add: assms)
  then show ?thesis unfolding qs_rel_def [abs_def] by simp
qed

lemma qs_rel_frame [simp]:
  "qs_rel (upd_cpu c h s) = qs_rel s"
  "qs_rel (upd_rq r (\<lambda>rq. rq\<lparr>nr_running := g rq\<rparr>) s) = qs_rel s"
  "qs_rel (upd_rq r (\<lambda>rq. rq\<lparr>rq_lock := g2 rq\<rparr>) s) = qs_rel s"
  "qs_rel (upd_rq r (\<lambda>rq. rq\<lparr>last_boost_ns := g3 rq\<rparr>) s) = qs_rel s"
  "qs_rel (upd_rq r (\<lambda>rq. rq\<lparr>rq_current := g4 rq\<rparr>) s) = qs_rel s"
  "qs_rel (upd_rq r (\<lambda>rq. rq\<lparr>needs_resched := g5 rq\<rparr>) s) = qs_rel s"
  "qs_rel (s\<lparr>freed := F\<rparr>) = qs_rel s"
  by (rule qs_rel_cong; simp)+

lemma qs_rel_upd_thread:
  assumes "\<And>x. rq_next (f x) = rq_next x" and "\<And>x. rq_prev (f x) = rq_prev x"
  shows "qs_rel (upd_thread t f s) = qs_rel s"
  by (rule qs_rel_cong) (simp_all add: assms)

section \<open>The choice of the next thread\<close>

text \<open>The first level of \<open>qs r\<close> that is not empty.\<close>

definition top_level :: "(nat \<Rightarrow> u64 list) \<Rightarrow> nat option" where
  "top_level ls = find (\<lambda>l. ls l \<noteq> []) [0 ..< 8]"

lemma top_level_Some:
  assumes "top_level ls = Some l"
  shows "l < 8" and "ls l \<noteq> []" and "\<And>k. k < l \<Longrightarrow> ls k = []"
proof -
  from assms obtain i where i: "i < 8" "ls ([0 ..< 8] ! i) \<noteq> []" "l = [0 ..< 8] ! i"
    "\<forall>j < i. \<not> ls ([0 ..< 8] ! j) \<noteq> []"
    by (auto simp: top_level_def find_Some_iff)
  then show "l < 8" "ls l \<noteq> []" by simp_all
  show "ls k = []" if "k < l" for k using i that nth_upt [of 0 k 8] by simp
qed

lemma top_level_None: "top_level ls = None \<longleftrightarrow> (\<forall>l < 8. ls l = [])"
  by (auto simp: top_level_def find_None_iff)

definition waiting :: "(nat \<Rightarrow> u64 list) \<Rightarrow> nat" where
  "waiting ls = (\<Sum>l < 8. length (ls l))"

lemma waiting_level: "l < 8 \<Longrightarrow> length (ls l) \<le> waiting ls"
  unfolding waiting_def by (rule member_le_sum) auto

lemma waiting_upd: "l < 8 \<Longrightarrow> waiting (ls(l := xs)) + length (ls l) = waiting ls + length xs"
proof -
  assume l: "l < 8"
  have "waiting (ls(l := xs)) = length xs + (\<Sum>k \<in> {..<8} - {l}. length (ls k))"
    unfolding waiting_def using l by (subst sum.remove [of _ l]) (auto intro: sum.cong)
  moreover have "waiting ls = length (ls l) + (\<Sum>k \<in> {..<8} - {l}. length (ls k))"
    unfolding waiting_def using l by (subst sum.remove [of _ l]) auto
  ultimately show ?thesis by simp
qed

lemma pick_next_qs:
  assumes q: "qs_rel s qs" and w: "waiting (qs r) < 2 ^ 32"
  shows "case top_level (qs r) of
      None \<Rightarrow> mlfq_pick_next r s = (NULL, s)
    | Some l \<Rightarrow> fst (mlfq_pick_next r s) = hd (qs r l) \<and> mlfq_pick_next r s = mlfq_pop r l s \<and>
        qs_rel (snd (mlfq_pick_next r s)) (upd_qs r l (tl (qs r l)) qs)"
proof -
  have c: "0 < q_count (queue_at s r l) \<longleftrightarrow> qs r l \<noteq> []" if "l < 8" for l
  proof -
    have "q_count (queue_at s r l) = of_nat (length (qs r l))" using q that by (simp add: qs_rel_def qrepr_def)
    moreover have "length (qs r l) < 2 ^ 32" using waiting_level [OF that, of "qs r"] w by simp
    ultimately have "unat (q_count (queue_at s r l)) = length (qs r l)" by (simp add: unat_of_nat)
    then show ?thesis by (metis length_greater_0_conv unat_gt_0 word_neq_0_conv)
  qed
  then have f: "find (\<lambda>l. 0 < q_count (queue_at s r l)) [0 ..< 8] = top_level (qs r)"
    unfolding top_level_def by (intro find_cong) auto
  show ?thesis
  proof (cases "top_level (qs r)")
    case None
    then show ?thesis using f by (simp add: mlfq_pick_next_def)
  next
    case (Some l)
    note t = top_level_Some [OF Some]
    then obtain x xs where x: "qs r l = x # xs" by (cases "qs r l") auto
    from qs_pop [OF q t(1) x] Some f x show ?thesis by (simp add: mlfq_pick_next_def)
  qed
qed

section \<open>The priority boost\<close>

text \<open>A thread up to its queue links, its priority and the time spent at it.\<close>

definition core :: "thread \<Rightarrow> thread" where
  "core x = x\<lparr>rq_next := NULL, rq_prev := NULL, priority_level := 0, time_in_level_ns := 0\<rparr>"

definition same_core :: "'b sched_scheme \<Rightarrow> 'b sched_scheme \<Rightarrow> bool" where
  "same_core s s' \<longleftrightarrow> (\<forall>t. core (thread_at s' t) = core (thread_at s t)) \<and> cpus s' = cpus s \<and>
     nr_cpus s' = nr_cpus s \<and> proc_vmm s' = proc_vmm s \<and> freed s' = freed s \<and>
     (\<forall>r. nr_running (runqueues s' r) = nr_running (runqueues s r) \<and>
          rq_lock (runqueues s' r) = rq_lock (runqueues s r) \<and> idle (runqueues s' r) = idle (runqueues s r))"

lemma core_fields:
  assumes "core x = core y"
  shows "t_state x = t_state y" "t_proc x = t_proc y" "last_cpu x = last_cpu y" "pinned_cpu x = pinned_cpu y"
    "fpu_region x = fpu_region y" "fpu_dirty x = fpu_dirty y" "fpu_used x = fpu_used y" "t_lock x = t_lock y"
  using assms by (cases x; cases y; simp add: core_def)+

lemma unlinked_core: "unlinked x = unlinked y \<Longrightarrow> core x = core y"
  by (cases x; cases y; simp add: core_def unlinked_def)

lemma same_core_refl [simp]: "same_core s s"
  by (simp add: same_core_def)

lemma same_core_trans: "same_core s t \<Longrightarrow> same_core t u \<Longrightarrow> same_core s u"
  by (simp add: same_core_def)

lemma same_core_push: "same_core s (mlfq_push r l t s)"
  using mlfq_push_others(2,3,5,6) [where r = r and l = l and t = t and s = s]
  by (auto simp: same_core_def same_threads_def intro: unlinked_core)

lemma same_core_pop: "same_core s (snd (mlfq_pop r l s))"
  using mlfq_pop_others(2,3,5,6) [where r = r and l = l and s = s]
  by (auto simp: same_core_def same_threads_def intro: unlinked_core)

lemma same_core_prio: "same_core s (upd_thread t (\<lambda>x. x\<lparr>priority_level := p, time_in_level_ns := q\<rparr>) s)"
  by (simp add: same_core_def core_def)

lemma priority_push_pop [simp]:
  "priority_level (thread_at (mlfq_push r l t s) a) = priority_level (thread_at s a)"
  "priority_level (thread_at (snd (mlfq_pop r l s)) a) = priority_level (thread_at s a)"
  using mlfq_push_others(6) [of s r l t] mlfq_pop_others(6) [of s r l]
  unfolding same_threads_def by (blast intro: unlinked_fields(1))+

lemma boost_level_qs:
  "qs_rel s qs \<Longrightarrow> 0 < l \<Longrightarrow> l < 8 \<Longrightarrow> qs r l = xs \<Longrightarrow>
   \<exists>s'. boost_level r l s = Some s' \<and> qs_rel s' (upd_qs r l [] (upd_qs r 0 (qs r 0 @ xs) qs)) \<and> same_core s s' \<and>
     (\<forall>t. priority_level (thread_at s' t) = (if t \<in> set xs then 0 else priority_level (thread_at s t)))"
proof (induction xs arbitrary: s qs)
  case Nil
  have "qrepr r l s []" using Nil.prems unfolding qs_rel_def by metis
  then have "boost_level r l s = Some s" by (subst boost_level.simps) (simp add: qrepr_pop_empty)
  moreover have "upd_qs r l [] (upd_qs r 0 (qs r 0 @ []) qs) = qs"
    using Nil.prems by (auto simp: upd_qs_def fun_eq_iff)
  ultimately show ?case using Nil.prems(1) by simp
next
  case (Cons t xs)
  let ?s1 = "snd (mlfq_pop r l s)"
  let ?s2 = "upd_thread t (\<lambda>x. x\<lparr>priority_level := 0, time_in_level_ns := 0\<rparr>) ?s1"
  let ?s3 = "mlfq_push r 0 t ?s2"
  let ?q1 = "upd_qs r l xs qs"
  let ?q3 = "upd_qs r 0 (qs r 0 @ [t]) ?q1"
  note pop = qs_pop [OF Cons.prems(1,3,4)]
  have "t \<in> set (qs r l)" using Cons.prems(4) by simp
  then have tn: "t \<noteq> NULL"
    using qs_rel_not_NULL [OF Cons.prems(1)] queuedI [of l t qs r] Cons.prems(3) by auto
  have q2: "qs_rel ?s2 ?q1" using pop(2) by (simp add: qs_rel_upd_thread)
  have tq: "t \<notin> queued ?q1"
  proof -
    have "t \<notin> set xs" using qs_rel_distinct [OF Cons.prems(1,3), of r] Cons.prems(4) by simp
    moreover have "t \<notin> set (qs r' l')" if "l' < 8" "(r', l') \<noteq> (r, l)" for r' l'
      using qs_rel_disjoint [OF Cons.prems(1,3) that(1) \<open>t \<in> set (qs r l)\<close>] that(2) by blast
    ultimately show ?thesis using queued_upd [OF Cons.prems(3), of t r xs qs] by metis
  qed
  have q3: "qs_rel ?s3 ?q3"
    using qs_push [OF q2 _ tn tq, of 0 r] Cons.prems(2) by (simp add: upd_qs_apply)
  have "?q3 r l = xs" using Cons.prems(2) by (simp add: upd_qs_apply)
  from Cons.IH [OF q3 Cons.prems(2,3) this] obtain s' where
    s': "boost_level r l ?s3 = Some s'" "qs_rel s' (upd_qs r l [] (upd_qs r 0 (?q3 r 0 @ xs) ?q3))" "same_core ?s3 s'"
      "\<forall>a. priority_level (thread_at s' a) = (if a \<in> set xs then 0 else priority_level (thread_at ?s3 a))"
    by blast
  have "boost_level r l s = Some s'"
    using s'(1) pop(1) tn by (subst boost_level.simps) (simp add: case_prod_beta Let_def)
  moreover have "upd_qs r l [] (upd_qs r 0 (?q3 r 0 @ xs) ?q3) = upd_qs r l [] (upd_qs r 0 (qs r 0 @ t # xs) qs)"
    using Cons.prems(2) by (auto simp: upd_qs_def fun_eq_iff)
  moreover have "same_core s s'"
    using same_core_trans [OF same_core_pop same_core_trans [OF same_core_prio same_core_trans [OF same_core_push s'(3)]]] .
  ultimately show ?case using s'(2,4) by auto
qed

lemma boost_levels_qs:
  assumes "qs_rel s qs" and "\<forall>l \<in> set ls. 0 < l \<and> l < 8" and "distinct ls"
  shows "\<exists>s'. boost_levels r ls s = Some s' \<and>
    qs_rel s' (qs(r := (\<lambda>k. if k = 0 then qs r 0 @ concat (map (qs r) ls) else if k \<in> set ls then [] else qs r k))) \<and>
    same_core s s' \<and>
    (\<forall>t. priority_level (thread_at s' t) = (if t \<in> set (concat (map (qs r) ls)) then 0 else priority_level (thread_at s t)))"
  using assms
proof (induction ls arbitrary: s qs)
  case Nil
  have "qs(r := (\<lambda>k. if k = 0 then qs r 0 @ concat (map (qs r) []) else if k \<in> set [] then [] else qs r k)) = qs"
    by (simp add: fun_eq_iff)
  with Nil show ?case by simp
next
  case (Cons l ls)
  define q1 where "q1 = upd_qs r l [] (upd_qs r 0 (qs r 0 @ qs r l) qs)"
  obtain s1 where s1: "boost_level r l s = Some s1" "qs_rel s1 q1" "same_core s s1"
    "\<forall>t. priority_level (thread_at s1 t) = (if t \<in> set (qs r l) then 0 else priority_level (thread_at s t))"
    using boost_level_qs [OF Cons.prems(1) _ _ refl, of l r] Cons.prems(2) by (auto simp: q1_def)
  have keep: "q1 r k = qs r k" if "k \<in> set ls" for k
    using Cons.prems(2,3) that by (auto simp: q1_def upd_qs_apply)
  then have cc: "concat (map (q1 r) ls) = concat (map (qs r) ls)" by (metis map_cong)
  obtain s' where s': "boost_levels r ls s1 = Some s'"
    "qs_rel s' (q1(r := (\<lambda>k. if k = 0 then q1 r 0 @ concat (map (q1 r) ls) else if k \<in> set ls then [] else q1 r k)))"
    "same_core s1 s'"
    "\<forall>t. priority_level (thread_at s' t) = (if t \<in> set (concat (map (q1 r) ls)) then 0 else priority_level (thread_at s1 t))"
  proof -
    have "\<forall>l \<in> set ls. 0 < l \<and> l < 8" "distinct ls" using Cons.prems(2,3) by auto
    from Cons.IH [OF s1(2) this] that show thesis by (elim exE conjE) assumption
  qed
  moreover have "q1(r := (\<lambda>k. if k = 0 then q1 r 0 @ concat (map (q1 r) ls) else if k \<in> set ls then [] else q1 r k)) =
      qs(r := (\<lambda>k. if k = 0 then qs r 0 @ concat (map (qs r) (l # ls)) else if k \<in> set (l # ls) then [] else qs r k))"
    using Cons.prems(2) unfolding cc by (auto simp: q1_def upd_qs_def fun_eq_iff)
  ultimately have "qs_rel s' (qs(r := (\<lambda>k. if k = 0 then qs r 0 @ concat (map (qs r) (l # ls)) else if k \<in> set (l # ls) then [] else qs r k)))"
    by simp
  moreover have "boost_levels r (l # ls) s = Some s'" using s1(1) s'(1) by simp
  moreover have "\<forall>t. priority_level (thread_at s' t) =
      (if t \<in> set (concat (map (qs r) (l # ls))) then 0 else priority_level (thread_at s t))"
    using s1(4) s'(4) unfolding cc by simp
  ultimately show ?case using same_core_trans [OF s1(3) s'(3)] by blast
qed

text \<open>The queues after \<open>maybe_boost\<close>, when it is due: everything is at level 0, in the order of the levels.\<close>

definition boost_due :: "u64 \<Rightarrow> runqueue \<Rightarrow> bool" where
  "boost_due now_ns rq \<longleftrightarrow> last_boost_ns rq \<noteq> 0 \<and> \<not> now_ns - last_boost_ns rq < 200 * 1000000"

definition boost_qs :: "(nat \<Rightarrow> u64 list) \<Rightarrow> nat \<Rightarrow> u64 list" where
  "boost_qs ls k = (if k = 0 then concat (map ls [0 ..< 8]) else if k < 8 then [] else ls k)"

lemma same_core_rq [simp]:
  "same_core s (upd_rq r (\<lambda>rq. rq\<lparr>last_boost_ns := n\<rparr>) s)" "same_core s (upd_rq r (\<lambda>rq. rq\<lparr>needs_resched := b\<rparr>) s)"
  by (simp_all add: same_core_def)

lemma maybe_boost_qs:
  assumes "qs_rel s qs"
  shows "\<exists>s'. maybe_boost r now_ns s = Some s' \<and> same_core s s' \<and>
    qs_rel s' (if boost_due now_ns (runqueues s r) then qs(r := boost_qs (qs r)) else qs) \<and>
    (\<forall>t. priority_level (thread_at s' t) =
      (if boost_due now_ns (runqueues s r) \<and> t \<in> set (concat (map (qs r) [1 ..< 8])) then 0
       else priority_level (thread_at s t)))"
proof (cases "boost_due now_ns (runqueues s r)")
  case True
  let ?s = "upd_rq r (\<lambda>rq. rq\<lparr>last_boost_ns := now_ns\<rparr>) s"
  have e: "[0 ..< 8] = 0 # [1 ..< 8]" by (simp add: upt_rec)
  have "(\<lambda>k. if k = 0 then qs r 0 @ concat (map (qs r) [1 ..< 8]) else if k \<in> set [1 ..< 8] then [] else qs r k) =
      boost_qs (qs r)"
    unfolding boost_qs_def e by auto
  moreover have "qs_rel ?s qs" using assms by simp
  ultimately obtain s' where s': "boost_levels r [1 ..< 8] ?s = Some s'" "qs_rel s' (qs(r := boost_qs (qs r)))"
    "same_core ?s s'" "\<forall>t. priority_level (thread_at s' t) =
      (if t \<in> set (concat (map (qs r) [1 ..< 8])) then 0 else priority_level (thread_at ?s t))"
    using boost_levels_qs [of ?s qs "[1 ..< 8]" r] by auto
  have "maybe_boost r now_ns s = Some s'" using True s'(1) by (simp add: maybe_boost_def boost_due_def)
  moreover have "same_core s s'" using same_core_trans [OF same_core_rq(1) s'(3)] .
  ultimately show ?thesis using True s'(2,4) by auto
next
  case False
  then show ?thesis using assms by (auto simp: maybe_boost_def boost_due_def)
qed

section \<open>The invariant and the critical section of schedule\<close>

definition sched_inv :: "'b sched_scheme \<Rightarrow> (nat \<Rightarrow> nat \<Rightarrow> u64 list) \<Rightarrow> bool" where
  "sched_inv s qs \<longleftrightarrow> qs_rel s qs \<and> (\<forall>r. lock_free (rq_lock (runqueues s r))) \<and>
     (\<forall>r. \<forall>l < 8. \<forall>t \<in> set (qs r l). priority_level (thread_at s t) = int l \<and> t_state (thread_at s t) = THREAD_READY) \<and>
     (\<forall>r. nr_running (runqueues s r) = of_nat (waiting (qs r)))"

definition clamp_level :: "int \<Rightarrow> nat" where
  "clamp_level p = (if p < 0 then 0 else if 8 \<le> p then 7 else nat p)"

lemma clamp_level_less: "clamp_level p < 8"
  by (auto simp: clamp_level_def)

text \<open>The queues after the previous thread went back to its level, and after the boost.\<close>

definition requeue_qs :: "nat \<Rightarrow> u64 \<Rightarrow> thread \<Rightarrow> (nat \<Rightarrow> nat \<Rightarrow> u64 list) \<Rightarrow> nat \<Rightarrow> nat \<Rightarrow> u64 list" where
  "requeue_qs r prev x qs =
     (if t_state x = THREAD_RUNNING
      then upd_qs r (clamp_level (priority_level x)) (qs r (clamp_level (priority_level x)) @ [prev]) qs else qs)"

definition ready_qs :: "nat \<Rightarrow> u64 \<Rightarrow> u64 \<Rightarrow> 'b sched_scheme \<Rightarrow> (nat \<Rightarrow> nat \<Rightarrow> u64 list) \<Rightarrow> nat \<Rightarrow> nat \<Rightarrow> u64 list" where
  "ready_qs r prev now_ns s qs =
     (let q1 = requeue_qs r prev (thread_at s prev) qs
      in if boost_due now_ns (runqueues s r) then q1(r := boost_qs (q1 r)) else q1)"

lemma same_core_state:
  assumes "same_core s s'"
  shows "t_state (thread_at s' t) = t_state (thread_at s t)" "cpus s' = cpus s" "nr_cpus s' = nr_cpus s"
    "nr_running (runqueues s' r) = nr_running (runqueues s r)" "rq_lock (runqueues s' r) = rq_lock (runqueues s r)"
    "idle (runqueues s' r) = idle (runqueues s r)" "freed s' = freed s"
proof -
  from assms have c: "core (thread_at s' t) = core (thread_at s t)" by (simp add: same_core_def)
  show "t_state (thread_at s' t) = t_state (thread_at s t)" using core_fields(1) [OF c] .
qed (use assms in \<open>simp_all add: same_core_def\<close>)

lemma requeue_prev_qs:
  assumes q: "qs_rel s qs" and p: "prev \<noteq> NULL" "prev \<notin> queued qs"
  shows "qs_rel (requeue_prev r prev s) (requeue_qs r prev (thread_at s prev) qs)"
    and "priority_level (thread_at (requeue_prev r prev s) t) =
      (if t = prev \<and> t_state (thread_at s prev) = THREAD_RUNNING
       then int (clamp_level (priority_level (thread_at s prev))) else priority_level (thread_at s t))"
    and "t_state (thread_at (requeue_prev r prev s) t) =
      (if t = prev \<and> t_state (thread_at s prev) = THREAD_RUNNING then THREAD_READY else t_state (thread_at s t))"
    and "nr_running (runqueues (requeue_prev r prev s) r') =
      (if r' = r \<and> t_state (thread_at s prev) = THREAD_RUNNING then nr_running (runqueues s r') + 1
       else nr_running (runqueues s r'))"
    and "rq_lock (runqueues (requeue_prev r prev s) r') = rq_lock (runqueues s r')"
    and "last_boost_ns (runqueues (requeue_prev r prev s) r') = last_boost_ns (runqueues s r')"
    and "idle (runqueues (requeue_prev r prev s) r') = idle (runqueues s r')"
    and "cpus (requeue_prev r prev s) = cpus s"
proof -
  let ?lv = "clamp_level (priority_level (thread_at s prev))"
  let ?s1 = "sched_set_priority prev (priority_level (thread_at s prev)) s"
  have lv: "level_of ?s1 prev = ?lv" by (simp add: level_of_def sched_set_priority_def clamp_level_def)
  have q1: "qs_rel ?s1 qs" using q unfolding sched_set_priority_def by (simp add: qs_rel_upd_thread)
  note push = qs_push [OF q1 clamp_level_less [of "priority_level (thread_at s prev)"] p, where r = r]
  note oth = mlfq_push_others [where r = r and l = ?lv and t = prev and s = ?s1]
  have st: "t_state (thread_at (mlfq_push r ?lv prev ?s1) a) = t_state (thread_at s a)" for a
  proof -
    have "unlinked (thread_at (mlfq_push r ?lv prev ?s1) a) = unlinked (thread_at ?s1 a)"
      using oth(6) by (simp add: same_threads_def)
    from unlinked_fields(2) [OF this] show ?thesis by (simp add: sched_set_priority_def)
  qed
  show "qs_rel (requeue_prev r prev s) (requeue_qs r prev (thread_at s prev) qs)"
    using push q unfolding requeue_prev_def requeue_qs_def by (auto simp: Let_def lv qs_rel_upd_thread)
  show "priority_level (thread_at (requeue_prev r prev s) t) =
      (if t = prev \<and> t_state (thread_at s prev) = THREAD_RUNNING then int ?lv else priority_level (thread_at s t))"
    unfolding requeue_prev_def by (simp add: Let_def lv) (simp add: sched_set_priority_def clamp_level_def)
  show "t_state (thread_at (requeue_prev r prev s) t) =
      (if t = prev \<and> t_state (thread_at s prev) = THREAD_RUNNING then THREAD_READY else t_state (thread_at s t))"
    unfolding requeue_prev_def by (simp add: Let_def lv st)
  have c: "cpus (mlfq_push r ?lv prev ?s1) = cpus s"
    using oth(6) unfolding same_threads_def by (simp add: sched_set_priority_def)
  show "nr_running (runqueues (requeue_prev r prev s) r') =
      (if r' = r \<and> t_state (thread_at s prev) = THREAD_RUNNING then nr_running (runqueues s r') + 1
       else nr_running (runqueues s r'))"
    "rq_lock (runqueues (requeue_prev r prev s) r') = rq_lock (runqueues s r')"
    "last_boost_ns (runqueues (requeue_prev r prev s) r') = last_boost_ns (runqueues s r')"
    "idle (runqueues (requeue_prev r prev s) r') = idle (runqueues s r')"
    "cpus (requeue_prev r prev s) = cpus s"
    unfolding requeue_prev_def by (simp_all add: Let_def lv oth(2-5) c) (simp_all add: sched_set_priority_def)
qed

lemma waiting_boost: "waiting (boost_qs ls) = waiting ls"
proof -
  have "waiting (boost_qs ls) = (\<Sum>l < (8::nat). if l = 0 then length (concat (map ls [0 ..< 8])) else 0)"
    unfolding waiting_def by (rule sum.cong) (auto simp: boost_qs_def)
  also have "\<dots> = length (concat (map ls [0 ..< 8]))" by simp
  also have "\<dots> = waiting ls"
    by (simp add: waiting_def length_concat sum_list_distinct_conv_sum_set comp_def lessThan_atLeast0 del: upt_Suc upt_rec)
  finally show ?thesis .
qed

lemma in_concat_levels: "t \<in> set (concat (map ls [0 ..< 8])) \<longleftrightarrow> (\<exists>l < 8. t \<in> set (ls l))"
  by auto

text \<open>What the queues, priorities, states and counters of a consistent scheduler are.\<close>

definition qs_ok :: "'b sched_scheme \<Rightarrow> (nat \<Rightarrow> nat \<Rightarrow> u64 list) \<Rightarrow> bool" where
  "qs_ok s qs \<longleftrightarrow> qs_rel s qs \<and>
     (\<forall>r. \<forall>l < 8. \<forall>t \<in> set (qs r l). priority_level (thread_at s t) = int l \<and> t_state (thread_at s t) = THREAD_READY) \<and>
     (\<forall>r. nr_running (runqueues s r) = of_nat (waiting (qs r)))"

lemma sched_inv_ok: "sched_inv s qs \<longleftrightarrow> qs_ok s qs \<and> (\<forall>r. lock_free (rq_lock (runqueues s r)))"
  unfolding sched_inv_def qs_ok_def by blast

lemma qs_okD:
  assumes "qs_ok s qs"
  shows "qs_rel s qs" "nr_running (runqueues s r) = of_nat (waiting (qs r))"
    "l < 8 \<Longrightarrow> t \<in> set (qs r l) \<Longrightarrow> priority_level (thread_at s t) = int l"
    "l < 8 \<Longrightarrow> t \<in> set (qs r l) \<Longrightarrow> t_state (thread_at s t) = THREAD_READY"
  using assms unfolding qs_ok_def by blast+

lemma requeue_ok:
  assumes ok: "qs_ok s qs" and p: "prev \<noteq> NULL" "prev \<notin> queued qs"
  shows "qs_ok (requeue_prev r prev s) (requeue_qs r prev (thread_at s prev) qs)"
proof -
  let ?lv = "clamp_level (priority_level (thread_at s prev))" and ?run = "t_state (thread_at s prev) = THREAD_RUNNING"
  note rq = requeue_prev_qs [OF qs_okD(1) [OF ok] p, of r]
  have mem: "t \<in> set (qs r' l) \<or> (?run \<and> t = prev \<and> l = ?lv)"
    if "t \<in> set (requeue_qs r prev (thread_at s prev) qs r' l)" for r' l t
    using that by (auto simp: requeue_qs_def upd_qs_apply split: if_splits)
  have np: "t \<noteq> prev" if "l < 8" "t \<in> set (qs r' l)" for t l r' using that p(2) queuedI [of l t qs r'] by auto
  have w: "waiting (requeue_qs r prev (thread_at s prev) qs r') = waiting (qs r') + (if r' = r \<and> ?run then 1 else 0)" for r'
    using waiting_upd [OF clamp_level_less, of "qs r" "priority_level (thread_at s prev)" "qs r ?lv @ [prev]"]
    by (simp add: requeue_qs_def upd_qs_def)
  show ?thesis
    unfolding qs_ok_def
  proof (intro conjI allI impI ballI)
    fix r' l t assume "l < 8" "t \<in> set (requeue_qs r prev (thread_at s prev) qs r' l)"
    with mem [of t r' l] np [of l t r'] qs_okD(3,4) [OF ok, of l t r']
    show "priority_level (thread_at (requeue_prev r prev s) t) = int l" "t_state (thread_at (requeue_prev r prev s) t) = THREAD_READY"
      unfolding rq(2,3) by auto
  next
    show "nr_running (runqueues (requeue_prev r prev s) r') = of_nat (waiting (requeue_qs r prev (thread_at s prev) qs r'))" for r'
      unfolding rq(4) w using qs_okD(2) [OF ok, of r'] by (cases "r' = r"; cases ?run) simp_all
  qed (rule rq(1))
qed

lemma boost_ok:
  assumes ok: "qs_ok s qs"
  shows "\<exists>s'. maybe_boost r now_ns s = Some s' \<and> same_core s s' \<and>
    qs_ok s' (if boost_due now_ns (runqueues s r) then qs(r := boost_qs (qs r)) else qs)"
proof -
  let ?due = "boost_due now_ns (runqueues s r)"
  let ?q = "if ?due then qs(r := boost_qs (qs r)) else qs"
  obtain s' where s': "maybe_boost r now_ns s = Some s'" "same_core s s'" "qs_rel s' ?q"
    "\<And>t. priority_level (thread_at s' t) =
      (if ?due \<and> t \<in> set (concat (map (qs r) [1 ..< 8])) then 0 else priority_level (thread_at s t))"
    using maybe_boost_qs [OF qs_okD(1) [OF ok], of r now_ns] by blast
  have "priority_level (thread_at s' t) = int l \<and> t_state (thread_at s' t) = THREAD_READY"
    if "l < 8" "t \<in> set (?q r' l)" for r' l t
  proof (cases "?due \<and> r' = r")
    case True
    with that have l: "l = 0" "t \<in> set (concat (map (qs r) [0 ..< 8]))" by (auto simp: boost_qs_def split: if_splits)
    then obtain k where k: "k < 8" "t \<in> set (qs r k)" using in_concat_levels [of t "qs r"] by blast
    have "priority_level (thread_at s' t) = 0"
    proof (cases k)
      case 0
      then show ?thesis using s'(4) [of t] qs_okD(3) [OF ok k] by auto
    next
      case (Suc j)
      then have "t \<in> set (concat (map (qs r) [1 ..< 8]))" using k by auto
      then show ?thesis using s'(4) [of t] True by simp
    qed
    then show ?thesis using same_core_state(1) [OF s'(2)] qs_okD(4) [OF ok k] l(1) by simp
  next
    case False
    then have t: "t \<in> set (qs r' l)" using that(2) by (auto split: if_splits)
    moreover have "t \<notin> set (concat (map (qs r) [1 ..< 8]))" if "?due"
      using False that t qs_rel_disjoint [OF qs_okD(1) [OF ok] \<open>l < 8\<close>] by auto
    ultimately show ?thesis
      using s'(4) [of t] same_core_state(1) [OF s'(2)] qs_okD(3,4) [OF ok \<open>l < 8\<close> t] by auto
  qed
  moreover have "nr_running (runqueues s' r') = of_nat (waiting (?q r'))" for r'
    using same_core_state(4) [OF s'(2)] qs_okD(2) [OF ok] by (auto simp: waiting_boost)
  ultimately have "qs_ok s' ?q" unfolding qs_ok_def using s'(3) by blast
  with s' show ?thesis by blast
qed

text \<open>Taking the head of a level and counting it out.\<close>

lemma pick_ok:
  assumes ok: "qs_ok s qs" and w: "waiting (qs r) < 2 ^ 32" and t: "top_level (qs r) = Some l"
  shows "\<exists>s'. mlfq_pick_next r s = (hd (qs r l), s') \<and> same_core s s' \<and>
    qs_ok (upd_rq r (\<lambda>rq. rq\<lparr>nr_running := nr_running rq - 1\<rparr>) s') (upd_qs r l (tl (qs r l)) qs) \<and>
    hd (qs r l) \<noteq> NULL \<and> hd (qs r l) \<notin> queued (upd_qs r l (tl (qs r l)) qs)"
proof -
  let ?s' = "snd (mlfq_pick_next r s)" and ?q = "upd_qs r l (tl (qs r l)) qs"
  note tl = top_level_Some [OF t]
  have pick: "fst (mlfq_pick_next r s) = hd (qs r l)" "mlfq_pick_next r s = mlfq_pop r l s" "qs_rel ?s' ?q"
    using pick_next_qs [OF qs_okD(1) [OF ok] w] t by auto
  have sc: "same_core s ?s'" using same_core_pop [of s r l] pick(2) by simp
  have h: "hd (qs r l) \<in> set (qs r l)" "qs r l = hd (qs r l) # tl (qs r l)" using tl(2) by simp_all
  have dis: "hd (qs r l) \<notin> queued ?q"
  proof
    assume "hd (qs r l) \<in> queued ?q"
    then consider "hd (qs r l) \<in> set (tl (qs r l))"
      | r' l' where "l' < 8" "(r', l') \<noteq> (r, l)" "hd (qs r l) \<in> set (qs r' l')"
      using queued_upd [OF tl(1), of "hd (qs r l)" r "tl (qs r l)" qs] by metis
    then show False
    proof cases
      case 1
      then show False using qs_rel_distinct [OF qs_okD(1) [OF ok] tl(1), of r] h(2) by (metis distinct.simps(2))
    next
      case 2
      then show False using qs_rel_disjoint [OF qs_okD(1) [OF ok] tl(1) 2(1) h(1) 2(3)] by simp
    qed
  qed
  have sub: "t \<in> set (qs r' l')" if "t \<in> set (?q r' l')" for t r' l'
    using that tl(2) by (auto simp: upd_qs_apply split: if_splits dest: list.set_sel(2))
  have pr: "priority_level (thread_at ?s' t) = priority_level (thread_at s t)" for t using pick(2) by simp
  have "nr_running (runqueues (upd_rq r (\<lambda>rq. rq\<lparr>nr_running := nr_running rq - 1\<rparr>) ?s') r') = of_nat (waiting (?q r'))" for r'
  proof (cases "r' = r")
    case True
    have "waiting (?q r) + length (qs r l) = waiting (qs r) + length (tl (qs r l))"
      using waiting_upd [OF tl(1), of "qs r" "tl (qs r l)"] by (simp add: upd_qs_def)
    then have "waiting (qs r) = Suc (waiting (?q r))" using tl(2) by (cases "qs r l") auto
    then show ?thesis using True same_core_state(4) [OF sc] qs_okD(2) [OF ok, of r] by simp
  next
    case False
    then show ?thesis using same_core_state(4) [OF sc] qs_okD(2) [OF ok, of r'] by (simp add: upd_qs_def)
  qed
  moreover have "priority_level (thread_at ?s' t) = int l' \<and> t_state (thread_at ?s' t) = THREAD_READY"
    if "l' < 8" "t \<in> set (?q r' l')" for r' l' t
    using qs_okD(3,4) [OF ok that(1) sub [OF that(2)]] pr same_core_state(1) [OF sc] by simp
  ultimately have "qs_ok (upd_rq r (\<lambda>rq. rq\<lparr>nr_running := nr_running rq - 1\<rparr>) ?s') ?q"
    unfolding qs_ok_def using pick(3) by simp
  moreover have "hd (qs r l) \<noteq> NULL"
    using qs_rel_not_NULL [OF qs_okD(1) [OF ok]] queuedI [of l _ qs r, OF tl(1) h(1)] by auto
  moreover have "mlfq_pick_next r s = (hd (qs r l), ?s')" using pick(1) by (simp add: prod_eq_iff)
  ultimately show ?thesis using sc dis by (intro exI [of _ ?s'] conjI)
qed

lemma do_switch_fields:
  "thread_at (do_switch me prev next tsc rsp s) t =
     (let x = thread_at s t;
          x1 = (if t = prev \<and> fpu_dirty x then x\<lparr>fpu_region := fpu_regs (cpus s me), fpu_dirty := False\<rparr> else x);
          x2 = (if t = next then x1\<lparr>t_state := THREAD_RUNNING, last_run_tsc := tsc\<rparr> else x1)
      in if t = prev then x2\<lparr>kernel_rsp := rsp\<rparr> else x2)"
  "levels (runqueues (do_switch me prev next tsc rsp s) r) = levels (runqueues s r)"
  "nr_running (runqueues (do_switch me prev next tsc rsp s) r) = nr_running (runqueues s r)"
  "rq_lock (runqueues (do_switch me prev next tsc rsp s) r) = rq_lock (runqueues s r)"
  "current_thread (cpus (do_switch me prev next tsc rsp s) c) = (if c = me then next else current_thread (cpus s c))"
  by (auto simp: do_switch_def fpu_save_def fpu_lazy_disable_def Let_def split: option.splits)

text \<open>\<open>do_switch\<close> leaves the queues alone, and of a thread that is not chosen nothing the queues depend on.\<close>

lemma do_switch_ok:
  assumes ok: "qs_ok s qs" and n: "next \<notin> queued qs"
  shows "qs_ok (do_switch me prev next tsc rsp s) qs"
proof -
  let ?s = "do_switch me prev next tsc rsp s"
  have l: "rnext ?s t = rnext s t \<and> rprev ?s t = rprev s t \<and> priority_level (thread_at ?s t) = priority_level (thread_at s t)" for t
    by (simp add: do_switch_fields(1) Let_def)
  have st: "t \<noteq> next \<Longrightarrow> t_state (thread_at ?s t) = t_state (thread_at s t)" for t
    by (simp add: do_switch_fields(1) Let_def)
  have "qs_rel ?s = qs_rel s" by (rule qs_rel_cong) (simp_all add: do_switch_fields(2) l)
  moreover have "t \<noteq> next" if "k < 8" "t \<in> set (qs r k)" for t r k using that n queuedI [of k t qs r] by auto
  ultimately show ?thesis
    using qs_okD [OF ok] l st unfolding qs_ok_def by (auto simp: do_switch_fields(3))
qed

lemma qs_ok_frame:
  assumes "\<And>t. thread_at s' t = thread_at s t" and "\<And>r. levels (runqueues s' r) = levels (runqueues s r)"
    and "\<And>r. nr_running (runqueues s' r) = nr_running (runqueues s r)"
  shows "qs_ok s' = qs_ok s"
proof -
  have "qs_rel s' = qs_rel s" by (rule qs_rel_cong) (simp_all add: assms)
  then show ?thesis unfolding qs_ok_def [abs_def] by (simp add: assms)
qed

lemma reap_none: "zombie_to_reap (cpus s me) = NULL \<Longrightarrow> reap_pending_zombie me s = s"
  by (simp add: reap_pending_zombie_def Let_def)

text \<open>\<open>schedule\<close> when a thread is ready on this CPU.\<close>

lemma schedule_ready:
  assumes inv: "sched_inv s qs" and cpu: "cpu_rq (cpus s me) = Some r" "zombie_to_reap (cpus s me) = NULL"
    and prev: "current_thread (cpus s me) = prev" "prev \<noteq> NULL" "prev \<notin> queued qs"
    and w: "waiting (qs r) + 1 < 2 ^ 32" and top: "top_level (ready_qs r prev now_ns s qs r) = Some l"
  defines "rd \<equiv> ready_qs r prev now_ns s qs" and "n \<equiv> hd (ready_qs r prev now_ns s qs r l)"
  shows "\<exists>s'. schedule me now_ns tsc rsp s = Some s' \<and> current_thread (cpus s' me) = n \<and>
    sched_inv s' (upd_qs r l (tl (rd r l)) rd) \<and> n \<noteq> NULL \<and> n \<notin> queued (upd_qs r l (tl (rd r l)) rd) \<and>
    (if n = prev then t_state (thread_at s' n) = (if t_state (thread_at s prev) = THREAD_RUNNING then THREAD_READY else t_state (thread_at s prev))
     else t_state (thread_at s' n) = THREAD_RUNNING \<and> t_state (thread_at s' prev) =
       (if t_state (thread_at s prev) = THREAD_RUNNING then THREAD_READY else t_state (thread_at s prev)))"
proof -
  let ?L = "(rq_lock (runqueues s r))\<lparr>locked := 1, owner := int me\<rparr>"
  let ?s1 = "upd_rq r (\<lambda>rq. rq\<lparr>rq_lock := ?L\<rparr>) s"
  let ?q1 = "requeue_qs r prev (thread_at s prev) qs"
  have ok: "qs_ok s qs" and free: "\<And>r. lock_free (rq_lock (runqueues s r))" using inv by (auto simp: sched_inv_ok)
  have ok1: "qs_ok ?s1 qs" using ok qs_ok_frame [of ?s1 s] by simp
  have okr: "qs_ok (requeue_prev r prev ?s1) ?q1" using requeue_ok [OF ok1 prev(2,3), of r] by simp
  note rq = requeue_prev_qs [OF qs_okD(1) [OF ok1] prev(2,3), of r]
  obtain s2 where s2: "maybe_boost r now_ns (requeue_prev r prev ?s1) = Some s2" "same_core (requeue_prev r prev ?s1) s2"
    "qs_ok s2 rd"
    using boost_ok [OF okr, of r now_ns] by (auto simp: rd_def ready_qs_def Let_def boost_due_def rq(6))
  have "waiting (rd r) = waiting (?q1 r)" by (simp add: rd_def ready_qs_def Let_def waiting_boost)
  also have "\<dots> \<le> waiting (qs r) + 1"
    using waiting_upd [OF clamp_level_less, of "qs r" "priority_level (thread_at s prev)"
        "qs r (clamp_level (priority_level (thread_at s prev))) @ [prev]"]
    by (simp add: requeue_qs_def upd_qs_def)
  finally have "waiting (rd r) < 2 ^ 32" using w by linarith
  then obtain s3 where s3: "mlfq_pick_next r s2 = (n, s3)" "same_core s2 s3"
    "qs_ok (upd_rq r (\<lambda>rq. rq\<lparr>nr_running := nr_running rq - 1\<rparr>) s3) (upd_qs r l (tl (rd r l)) rd)"
    "n \<noteq> NULL" "n \<notin> queued (upd_qs r l (tl (rd r l)) rd)"
    using pick_ok [OF s2(3)] top unfolding rd_def n_def by blast
  define s5 where "s5 = release_rq me r (upd_rq r (\<lambda>rq. rq\<lparr>nr_running := nr_running rq - 1\<rparr>)
      (upd_rq r (\<lambda>rq. rq\<lparr>needs_resched := False\<rparr>) s3))"
  have lk: "rq_lock (runqueues s3 r') = rq_lock (runqueues ?s1 r')" for r'
    using same_core_state(5) [OF s3(2)] same_core_state(5) [OF s2(2)] rq(5) by simp
  have cp: "cpus s5 = cpus s"
    using same_core_state(2) [OF s3(2)] same_core_state(2) [OF s2(2)] rq(8) by (simp add: s5_def release_rq_def)
  have st: "t_state (thread_at s5 t) = t_state (thread_at (requeue_prev r prev ?s1) t)" for t
    using same_core_state(1) [OF s3(2)] same_core_state(1) [OF s2(2)] by (simp add: s5_def release_rq_def)
  have ok5: "qs_ok s5 (upd_qs r l (tl (rd r l)) rd)"
    using s3(3) qs_ok_frame [of s5 "upd_rq r (\<lambda>rq. rq\<lparr>nr_running := nr_running rq - 1\<rparr>) s3"]
    by (simp add: s5_def release_rq_def)
  have free5: "lock_free (rq_lock (runqueues s5 r'))" for r'
    using free [of r] free [of r'] lk by (simp add: s5_def release_rq_def)
  have run: "schedule me now_ns tsc rsp s = Some (if n = prev then s5 else do_switch me prev n tsc rsp s5)"
    using cpu prev(1) free [of r] s2(1) s3(1,4)
    by (simp add: schedule_def reap_none acquire_rq_def pick_locked_def Let_def s5_def)
  show ?thesis
  proof (cases "n = prev")
    case True
    then show ?thesis using run s3(4,5) ok5 free5 cp prev(1) st rq(3) by (simp add: sched_inv_ok)
  next
    case False
    have "sched_inv (do_switch me prev n tsc rsp s5) (upd_qs r l (tl (rd r l)) rd)"
      using do_switch_ok [OF ok5 s3(5)] free5 by (simp add: sched_inv_ok do_switch_fields(4))
    with False show ?thesis using run s3(4,5) st rq(3) by (simp add: do_switch_fields(1,5) Let_def)
  qed
qed

section \<open>Enqueueing, dequeueing, waking\<close>

lemma with_rq_lock_free:
  assumes "lock_free (rq_lock (runqueues s r))"
  shows "with_rq_lock me r body s =
    (let (x, s') = body (upd_rq r (\<lambda>rq. rq\<lparr>rq_lock := rq_lock rq\<lparr>locked := 1, owner := int me\<rparr>\<rparr>) s)
     in Some (x, release_rq me r s'))"
  using assms by (simp add: with_rq_lock_def release_rq_def upd_rq_def)

lemma push_ok:
  assumes ok: "qs_ok s qs" and l: "l < 8" and t: "t \<noteq> NULL" "t \<notin> queued qs"
    and p: "priority_level (thread_at s t) = int l" "t_state (thread_at s t) = THREAD_READY"
  shows "qs_ok (upd_rq r (\<lambda>rq. rq\<lparr>nr_running := nr_running rq + 1\<rparr>) (mlfq_push r l t s)) (upd_qs r l (qs r l @ [t]) qs)"
proof -
  note oth = mlfq_push_others [where r = r and l = l and t = t and s = s]
  have st: "t_state (thread_at (mlfq_push r l t s) a) = t_state (thread_at s a)" for a
    using same_core_state(1) [OF same_core_push] .
  have mem: "a = t \<and> k = l \<or> a \<in> set (qs r' k)" if "a \<in> set (upd_qs r l (qs r l @ [t]) qs r' k)" for a r' k
    using that by (auto simp: upd_qs_apply split: if_splits)
  have "waiting (upd_qs r l (qs r l @ [t]) qs r') = waiting (qs r') + (if r' = r then 1 else 0)" for r'
    using waiting_upd [OF l, of "qs r" "qs r l @ [t]"] by (simp add: upd_qs_def)
  then have "nr_running (runqueues (upd_rq r (\<lambda>rq. rq\<lparr>nr_running := nr_running rq + 1\<rparr>) (mlfq_push r l t s)) r') =
      of_nat (waiting (upd_qs r l (qs r l @ [t]) qs r'))" for r'
    using qs_okD(2) [OF ok, of r'] by (cases "r' = r") (simp_all add: oth(2))
  moreover have "priority_level (thread_at (mlfq_push r l t s) a) = int k \<and> t_state (thread_at (mlfq_push r l t s) a) = THREAD_READY"
    if "k < 8" "a \<in> set (upd_qs r l (qs r l @ [t]) qs r' k)" for a r' k
    using mem [OF that(2)] p qs_okD(3,4) [OF ok that(1), of a r'] st by auto
  ultimately show ?thesis
    using qs_push [OF qs_okD(1) [OF ok] l t, of r] unfolding qs_ok_def by simp
qed

lemma release_rq_inv:
  assumes "qs_ok s' qs" and "\<And>k. lock_free (rq_lock (runqueues s k))"
    and "\<And>k. rq_lock (runqueues s' k) = (if k = r then (rq_lock (runqueues s r))\<lparr>locked := 1, owner := int me\<rparr> else rq_lock (runqueues s k))"
  shows "sched_inv (release_rq me r s') qs"
proof -
  have "qs_ok (release_rq me r s') = qs_ok s'" by (rule qs_ok_frame) (simp_all add: release_rq_def)
  then show ?thesis using assms by (simp add: sched_inv_ok release_rq_def)
qed

lemma qs_ok_upd_thread:
  assumes "qs_ok s qs" and "t \<notin> queued qs" and "\<And>x. rq_next (f x) = rq_next x" and "\<And>x. rq_prev (f x) = rq_prev x"
  shows "qs_ok (upd_thread t f s) qs"
proof -
  have "a \<noteq> t" if "k < 8" "a \<in> set (qs r k)" for a r k using that assms(2) queuedI [of k a qs r] by auto
  then show ?thesis using qs_okD [OF assms(1)] unfolding qs_ok_def by (auto simp: qs_rel_upd_thread assms(3,4))
qed

text \<open>The run queue that \<^verbatim>\<open>sched_enqueue\<close> chooses.\<close>

definition target_cpu :: "nat \<Rightarrow> thread \<Rightarrow> int" where
  "target_cpu me x = (if 0 \<le> pinned_cpu x then pinned_cpu x else if 0 \<le> last_cpu x then last_cpu x else int me)"

lemma sched_enqueue_inv:
  assumes inv: "sched_inv s qs" and t: "t \<noteq> NULL" "t \<notin> queued qs" and l: "priority_level (thread_at s t) = int l" "l < 8"
    and r: "sched_rq_for_cpu (target_cpu me (thread_at s t)) s = Some r"
  shows "\<exists>s'. sched_enqueue me t s = Some ((), s') \<and> sched_inv s' (upd_qs r l (qs r l @ [t]) qs) \<and>
    last_cpu (thread_at s' t) = target_cpu me (thread_at s t) \<and> t_state (thread_at s' t) = THREAD_READY \<and>
    priority_level (thread_at s' t) = int l \<and> cpus s' = cpus s \<and> nr_cpus s' = nr_cpus s"
proof -
  let ?c = "target_cpu me (thread_at s t)"
  let ?s1 = "upd_rq r (\<lambda>rq. rq\<lparr>rq_lock := rq_lock rq\<lparr>locked := 1, owner := int me\<rparr>\<rparr>) s"
  let ?s2 = "upd_thread t (\<lambda>x. x\<lparr>t_state := THREAD_READY, last_cpu := ?c\<rparr>) ?s1"
  let ?s3 = "upd_rq r (\<lambda>rq. rq\<lparr>nr_running := nr_running rq + 1\<rparr>) (mlfq_push r l t ?s2)"
  have ok: "qs_ok s qs" and free: "\<And>r. lock_free (rq_lock (runqueues s r))" using inv by (auto simp: sched_inv_ok)
  have "qs_ok ?s1 qs" using ok qs_ok_frame [of ?s1 s] by simp
  then have "qs_ok ?s2 qs" by (rule qs_ok_upd_thread [OF _ t(2)]) simp_all
  then have ok3: "qs_ok ?s3 (upd_qs r l (qs r l @ [t]) qs)"
    by (rule push_ok [OF _ l(2) t]) (use l in simp_all)
  note oth = mlfq_push_others [where r = r and l = l and t = t and s = ?s2]
  have "sched_enqueue me t s = Some ((), release_rq me r ?s3)"
    using r free [of r] l by (simp add: sched_enqueue_def target_cpu_def [symmetric] with_rq_lock_free enqueue_locked_def
        Let_def level_of_def)
  moreover have "sched_inv (release_rq me r ?s3) (upd_qs r l (qs r l @ [t]) qs)"
    by (rule release_rq_inv [OF ok3 free]) (simp add: oth(3))
  moreover have u: "unlinked (thread_at (mlfq_push r l t ?s2) t) = unlinked (thread_at ?s2 t)"
    "cpus (mlfq_push r l t ?s2) = cpus ?s2" "nr_cpus (mlfq_push r l t ?s2) = nr_cpus ?s2"
    using oth(6) by (simp_all add: same_threads_def)
  ultimately show ?thesis
    using unlinked_fields(1-3) [OF u(1)] l by (intro exI [of _ "release_rq me r ?s3"]) (simp add: release_rq_def)
qed

lemma sched_dequeue_inv:
  assumes inv: "sched_inv s qs" and x: "qs r l = xs @ t # ys" "l < 8" and w: "waiting (qs r) < 2 ^ 32"
    and r: "sched_rq_for_cpu (last_cpu (thread_at s t)) s = Some r"
  shows "\<exists>s'. sched_dequeue me t s = Some ((), s') \<and> sched_inv s' (upd_qs r l (xs @ ys) qs)"
proof -
  let ?s1 = "upd_rq r (\<lambda>rq. rq\<lparr>rq_lock := rq_lock rq\<lparr>locked := 1, owner := int me\<rparr>\<rparr>) s"
  let ?s2 = "mlfq_remove r l t ?s1" and ?q = "upd_qs r l (xs @ ys) qs"
  let ?s3 = "upd_rq r (\<lambda>rq. rq\<lparr>nr_running := nr_running rq - 1\<rparr>) ?s2"
  have ok: "qs_ok s qs" and free: "\<And>r. lock_free (rq_lock (runqueues s r))" using inv by (auto simp: sched_inv_ok)
  have ok1: "qs_ok ?s1 qs" using ok qs_ok_frame [of ?s1 s] by simp
  note oth = mlfq_remove_others [where r = r and l = l and t = t and s = ?s1]
  have u: "unlinked (thread_at ?s2 a) = unlinked (thread_at s a)" for a using oth(4) by (simp add: same_threads_def)
  have sub: "a \<in> set (qs r' k)" if "a \<in> set (?q r' k)" for a r' k
    using that x(1) by (auto simp: upd_qs_apply split: if_splits)
  have wt: "waiting (qs r) = Suc (waiting (?q r))"
    using waiting_upd [OF x(2), of "qs r" "xs @ ys"] x(1) by (simp add: upd_qs_def)
  have nr: "nr_running (runqueues s r) = of_nat (Suc (waiting (?q r)))" using qs_okD(2) [OF ok, of r] wt by simp
  have "unat (nr_running (runqueues s r)) = Suc (waiting (?q r))" unfolding nr by (rule unat_of_nat_small) (use w wt in simp)
  then have pos: "0 < nr_running (runqueues s r)" by (simp add: word_less_nat_alt)
  have "nr_running (runqueues ?s3 r') = of_nat (waiting (?q r'))" for r'
  proof (cases "r' = r")
    case True
    then show ?thesis using nr oth(2) by simp
  next
    case False
    then show ?thesis using qs_okD(2) [OF ok, of r'] oth(2) by (simp add: upd_qs_def)
  qed
  moreover have "priority_level (thread_at ?s2 a) = int k \<and> t_state (thread_at ?s2 a) = THREAD_READY"
    if "k < 8" "a \<in> set (?q r' k)" for a r' k
    using qs_okD(3,4) [OF ok that(1) sub [OF that(2)]] unlinked_fields(1,2) [OF u] by simp
  ultimately have "qs_ok ?s3 ?q"
    using qs_remove [OF qs_okD(1) [OF ok1] x(2,1)] unfolding qs_ok_def by simp
  then have "sched_inv (release_rq me r ?s3) ?q"
    by (rule release_rq_inv [OF _ free]) (simp add: oth(3))
  moreover have "level_of ?s1 t = l" using qs_okD(3) [OF ok x(2), of t r] x(1) by (simp add: level_of_def)
  then have "sched_dequeue me t s = Some ((), release_rq me r ?s3)"
    using r free [of r] pos oth(2) by (simp add: sched_dequeue_def with_rq_lock_free Let_def)
  ultimately show ?thesis by blast
qed

section \<open>A machine with three threads\<close>

definition blank_thread :: thread where
  "blank_thread = \<lparr>t_proc = 0, t_state = THREAD_NEW, priority_level = 0, time_in_level_ns = 0, last_run_tsc = 0,
     total_runtime_ns = 0, last_cpu = -1, pinned_cpu = -1, kstack_base = 0, kstack_size = 0, kernel_rsp = 0,
     fpu_region = [], fpu_used = False, fpu_dirty = False, blocked_on = 0, t_exit_code = 0, rq_next = 0,
     rq_prev = 0, t_lock = SPINLOCK_INIT\<rparr>"

definition blank_rq :: runqueue where
  "blank_rq = \<lparr>rq_lock = SPINLOCK_INIT, levels = (\<lambda>_. \<lparr>q_head = 0, q_tail = 0, q_count = 0\<rparr>), nr_running = 0,
     idle = 0, rq_current = 0, last_boost_ns = 0, needs_resched = False\<rparr>"

definition blank_cpu :: cpu where
  "blank_cpu = \<lparr>cpu_rq = None, idle_thread = 0, current_thread = 0, zombie_to_reap = 0, need_resched = False,
     tss_rsp0 = 0, sysret_kernel_rsp = 0, cr0 = 0, fpu_regs = [], active_vmm = 0\<rparr>"

definition blank_sched :: sched where
  "blank_sched = \<lparr>thread_at = (\<lambda>_. blank_thread), runqueues = (\<lambda>_. blank_rq), cpus = (\<lambda>_. blank_cpu), nr_cpus = 0,
     proc_vmm = (\<lambda>_. 0), freed = {}\<rparr>"

text \<open>CPU 0 has run \<open>sched_init\<close> with the idle thread at \<^verbatim>\<open>0x1000\<close>.\<close>

definition one_cpu :: sched where
  "one_cpu = sched_init 0x1000 blank_sched"

lemma one_cpu_facts:
  "sched_inv one_cpu (\<lambda>_ _. [])" "cpu_rq (cpus one_cpu 0) = Some 0" "zombie_to_reap (cpus one_cpu 0) = NULL"
  "current_thread (cpus one_cpu 0) = 0x1000" "t_state (thread_at one_cpu 0x1000) = THREAD_RUNNING"
  "priority_level (thread_at one_cpu t) = 0" "nr_cpus one_cpu = 1" "last_boost_ns (runqueues one_cpu r) = 0"
  by (auto simp: one_cpu_def sched_init_def attach_cpu_def sched_fpu_init_def runqueue_init_one_def Let_def
      blank_sched_def blank_thread_def blank_rq_def blank_cpu_def sched_inv_def qs_rel_def qrepr_def waiting_def)

section \<open>Properties\<close>

text \<open>
  C11. A level of a run queue is a first-in first-out queue: threads pushed on an empty level come
  out in the order they went in, and then the level is empty again; a thread can be removed from
  the middle and the others keep their order. (The laws of the queue interface, discharged for
  \<open>mlfq_push\<close>, \<open>mlfq_pop\<close> and \<open>mlfq_remove\<close>.)
\<close>
theorem mlfq_is_a_queue:
  assumes "qrepr r l s []" and "distinct ts" and "NULL \<notin> set ts"
  shows "fst (mlfq.pops r l (length ts) (fold (mlfq_push r l) ts s)) = ts \<and>
    mlfq_pop r l (snd (mlfq.pops r l (length ts) (fold (mlfq_push r l) ts s))) =
      (NULL, snd (mlfq.pops r l (length ts) (fold (mlfq_push r l) ts s))) \<and>
    (\<forall>t \<in> set ts. qrepr r l (mlfq_remove r l t (fold (mlfq_push r l) ts s)) (remove1 t ts))"
proof -
  have "qrepr r l (fold (mlfq_push r l) ts s) ([] @ ts)"
    by (rule mlfq.push_all_repr) (use assms in auto)
  then show ?thesis using mlfq.fifo [OF assms] mlfq.unlink_member by auto
qed

theorem mlfq_is_a_queue_witness:
  "fst (mlfq.pops 0 2 2 (fold (mlfq_push 0 2) [0x2000, 0x3000] blank_sched)) = [0x2000, 0x3000]"
proof -
  have "qrepr 0 2 blank_sched []" by (simp add: qrepr_def blank_sched_def blank_rq_def)
  moreover have "distinct [0x2000, 0x3000 :: u64]" "NULL \<notin> set [0x2000, 0x3000 :: u64]" by simp_all
  ultimately show ?thesis using mlfq_is_a_queue [of 0 2 blank_sched "[0x2000, 0x3000]"] by (simp add: numeral_2_eq_2)
qed

text \<open>
  C12. \<open>schedule\<close> returns and does what a multi-level feedback queue should: a thread that was running
  goes to the end of its level; when a boost is due all levels are emptied into level 0 in order; then
  the thread at the head of the first non-empty level becomes the current one, and is RUNNING when it is
  another thread than before. Every queue, every priority and every counter stays consistent. The
  hypotheses: the invariant, no pending zombie, at most \<open>2^32 - 2\<close> waiting threads, and something to run.
\<close>
theorem schedule_picks_next:
  assumes "sched_inv s qs" and "cpu_rq (cpus s me) = Some r" and "zombie_to_reap (cpus s me) = NULL"
    and "current_thread (cpus s me) = prev" and "prev \<noteq> NULL" and "prev \<notin> queued qs"
    and "waiting (qs r) + 1 < 2 ^ 32" and "top_level (ready_qs r prev now_ns s qs r) = Some l"
  shows "\<exists>s'. schedule me now_ns tsc rsp s = Some s' \<and>
    (let rd = ready_qs r prev now_ns s qs; n = hd (rd r l) in
      current_thread (cpus s' me) = n \<and> sched_inv s' (upd_qs r l (tl (rd r l)) rd) \<and>
      n \<notin> queued (upd_qs r l (tl (rd r l)) rd) \<and> (\<forall>k < l. rd r k = []) \<and>
      (n \<noteq> prev \<longrightarrow> t_state (thread_at s' n) = THREAD_RUNNING))"
proof -
  have "\<forall>k < l. ready_qs r prev now_ns s qs r k = []" using top_level_Some(3) [OF assms(8)] by blast
  moreover obtain s' where "schedule me now_ns tsc rsp s = Some s'"
    "current_thread (cpus s' me) = hd (ready_qs r prev now_ns s qs r l)"
    "sched_inv s' (upd_qs r l (tl (ready_qs r prev now_ns s qs r l)) (ready_qs r prev now_ns s qs))"
    "hd (ready_qs r prev now_ns s qs r l) \<notin> queued (upd_qs r l (tl (ready_qs r prev now_ns s qs r l)) (ready_qs r prev now_ns s qs))"
    "hd (ready_qs r prev now_ns s qs r l) \<noteq> prev \<Longrightarrow> t_state (thread_at s' (hd (ready_qs r prev now_ns s qs r l))) = THREAD_RUNNING"
    using schedule_ready [OF assms, of tsc rsp] by (auto split: if_splits)
  ultimately show ?thesis by (auto simp: Let_def)
qed

theorem schedule_picks_next_witness:
  "\<exists>s' s''. sched_enqueue 0 0x2000 one_cpu = Some ((), s') \<and> schedule 0 5 0 0 s' = Some s'' \<and>
     current_thread (cpus s'' 0) = 0x2000"
proof -
  let ?q = "upd_qs 0 0 [0x2000] (\<lambda>_ _. [])"
  obtain s' where s': "sched_enqueue 0 0x2000 one_cpu = Some ((), s')" "sched_inv s' ?q" "cpus s' = cpus one_cpu"
    using sched_enqueue_inv [OF one_cpu_facts(1), of "0x2000" 0 0 0] one_cpu_facts(6,7)
    by (auto simp: queued_def target_cpu_def sched_rq_for_cpu_def one_cpu_def sched_init_def attach_cpu_def
        sched_fpu_init_def runqueue_init_one_def Let_def blank_sched_def blank_thread_def upd_qs_apply)
  have rd: "hd (ready_qs 0 0x1000 5 s' ?q 0 0) = 0x2000" "top_level (ready_qs 0 0x1000 5 s' ?q 0) = Some 0"
    by (auto simp: ready_qs_def requeue_qs_def upd_qs_def top_level_def boost_qs_def upt_rec Let_def)
  have w: "waiting (?q 0) = 1"
    using waiting_upd [of 0 "\<lambda>_. []" "[0x2000 :: u64]"] by (simp add: upd_qs_def waiting_def)
  have "\<exists>s''. schedule 0 5 0 0 s' = Some s'' \<and> (let rd = ready_qs 0 0x1000 5 s' ?q; n = hd (rd 0 0) in
      current_thread (cpus s'' 0) = n \<and> sched_inv s'' (upd_qs 0 0 (tl (rd 0 0)) rd) \<and>
      n \<notin> queued (upd_qs 0 0 (tl (rd 0 0)) rd) \<and> (\<forall>k < 0. rd 0 k = []) \<and>
      (n \<noteq> 0x1000 \<longrightarrow> t_state (thread_at s'' n) = THREAD_RUNNING))"
    by (rule schedule_picks_next [OF s'(2)])
      (use s'(3) one_cpu_facts(2-4) rd w in \<open>auto simp: queued_def upd_qs_apply split: if_splits\<close>)
  with s'(1) rd(1) show ?thesis by (auto simp: Let_def)
qed

text \<open>
  Entering and leaving a run queue: \<open>sched_enqueue\<close> puts a thread at the end of its level on the CPU it
  is pinned to, or ran on last, and \<open>sched_dequeue\<close> takes it out again so that the queues are what they
  were; both keep the invariant.
\<close>
theorem enqueue_dequeue:
  assumes "sched_inv s qs" and "t \<noteq> NULL" and "t \<notin> queued qs"
    and "priority_level (thread_at s t) = int l" and "l < 8"
    and "sched_rq_for_cpu (target_cpu me (thread_at s t)) s = Some r" and "waiting (qs r) + 1 < 2 ^ 32"
  shows "\<exists>s' s''. sched_enqueue me t s = Some ((), s') \<and> sched_inv s' (upd_qs r l (qs r l @ [t]) qs) \<and>
    t_state (thread_at s' t) = THREAD_READY \<and> sched_dequeue me t s' = Some ((), s'') \<and> sched_inv s'' qs"
proof -
  let ?q = "upd_qs r l (qs r l @ [t]) qs"
  obtain s' where s': "sched_enqueue me t s = Some ((), s')" "sched_inv s' ?q"
    "last_cpu (thread_at s' t) = target_cpu me (thread_at s t)" "t_state (thread_at s' t) = THREAD_READY" "nr_cpus s' = nr_cpus s"
    using sched_enqueue_inv [OF assms(1-6)] by blast
  have "?q r l = qs r l @ t # []" by (simp add: upd_qs_apply)
  moreover have "waiting (?q r) < 2 ^ 32"
    using waiting_upd [OF assms(5), of "qs r" "qs r l @ [t]"] assms(7) by (simp add: upd_qs_def)
  moreover have "sched_rq_for_cpu (last_cpu (thread_at s' t)) s' = Some r"
    using assms(6) s'(3,5) by (simp add: sched_rq_for_cpu_def)
  ultimately obtain s'' where "sched_dequeue me t s' = Some ((), s'')" "sched_inv s'' (upd_qs r l (qs r l @ []) ?q)"
    using sched_dequeue_inv [OF s'(2) _ assms(5)] by blast
  moreover have "upd_qs r l (qs r l @ []) ?q = qs" by (simp add: upd_qs_def)
  ultimately show ?thesis using s' by auto
qed

theorem enqueue_dequeue_witness:
  "\<exists>s' s''. sched_enqueue 0 0x2000 one_cpu = Some ((), s') \<and> sched_dequeue 0 0x2000 s' = Some ((), s'')"
proof -
  have "sched_rq_for_cpu (target_cpu 0 (thread_at one_cpu 0x2000)) one_cpu = Some 0"
    by (simp add: target_cpu_def sched_rq_for_cpu_def one_cpu_def sched_init_def attach_cpu_def
        sched_fpu_init_def runqueue_init_one_def Let_def blank_sched_def blank_thread_def)
  moreover have "(0x2000 :: u64) \<notin> queued (\<lambda>_ _. [])" "waiting (\<lambda>_. [] :: u64 list) + 1 < 2 ^ 32"
    by (simp_all add: queued_def waiting_def)
  ultimately show ?thesis
    using enqueue_dequeue [OF one_cpu_facts(1), of "0x2000" 0 0 0] one_cpu_facts(6) by auto
qed

text \<open>
  The priority boost loses nobody: when it is due, level 0 of the run queue afterwards holds the threads
  of all eight levels, those of a better level first and each level in its order, the other levels
  are empty, every thread moved has priority 0, and other run queues are untouched. The loop ends.
\<close>
theorem boost_moves_everybody:
  assumes "qs_ok s qs" and "boost_due now_ns (runqueues s r)"
  shows "\<exists>s' qs'. maybe_boost r now_ns s = Some s' \<and> qs_ok s' qs' \<and>
    qs' r 0 = concat (map (qs r) [0 ..< 8]) \<and> (\<forall>l. 0 < l \<and> l < 8 \<longrightarrow> qs' r l = []) \<and>
    (\<forall>r'. r' \<noteq> r \<longrightarrow> qs' r' = qs r') \<and> (\<forall>t \<in> set (qs' r 0). priority_level (thread_at s' t) = 0)"
proof -
  obtain s' where s': "maybe_boost r now_ns s = Some s'" "qs_ok s' (qs(r := boost_qs (qs r)))"
    using boost_ok [OF assms(1), of r now_ns] assms(2) by auto
  then have "\<forall>t \<in> set ((qs(r := boost_qs (qs r))) r 0). priority_level (thread_at s' t) = 0"
    using qs_okD(3) [OF s'(2), of 0 _ r] by auto
  with s' show ?thesis by (intro exI [of _ s'] exI [of _ "qs(r := boost_qs (qs r))"]) (simp add: boost_qs_def)
qed

theorem boost_moves_everybody_witness:
  "\<exists>s'. maybe_boost 0 500000000 (upd_rq 0 (\<lambda>rq. rq\<lparr>last_boost_ns := 1\<rparr>) one_cpu) = Some s'"
proof -
  let ?s = "upd_rq 0 (\<lambda>rq. rq\<lparr>last_boost_ns := 1\<rparr>) one_cpu"
  have "qs_ok one_cpu (\<lambda>_ _. [])" using one_cpu_facts(1) by (simp add: sched_inv_ok)
  moreover have "qs_ok ?s = qs_ok one_cpu" by (rule qs_ok_frame) simp_all
  ultimately have "qs_ok ?s (\<lambda>_ _. [])" by simp
  moreover have "boost_due 500000000 (runqueues ?s 0)" by (simp add: boost_due_def)
  ultimately show ?thesis using boost_moves_everybody by blast
qed

text \<open>
  A thread can be lost. When \<open>schedule\<close> puts the running thread back and then picks that same thread, it
  returns without making it RUNNING again: the current thread is in state READY and in no queue. At the
  next call a current thread in that state is not put back: as soon as anything else is ready on the CPU,
  another thread runs, the old one is in no queue, and \<open>sched_wake\<close> does not bring it back, because it
  only acts on blocked and sleeping threads.
\<close>
theorem ready_current_thread_is_lost:
  assumes "sched_inv s qs" and "cpu_rq (cpus s me) = Some r" and "zombie_to_reap (cpus s me) = NULL"
    and "current_thread (cpus s me) = prev" and "prev \<noteq> NULL" and "prev \<notin> queued qs"
    and "waiting (qs r) + 1 < 2 ^ 32" and "lock_free (t_lock (thread_at s prev))"
  shows "(t_state (thread_at s prev) = THREAD_RUNNING \<and> (\<forall>l < 8. qs r l = []) \<longrightarrow>
      (\<exists>s' qs'. schedule me now_ns tsc rsp s = Some s' \<and> sched_inv s' qs' \<and> current_thread (cpus s' me) = prev \<and>
        t_state (thread_at s' prev) = THREAD_READY \<and> prev \<notin> queued qs')) \<and>
    (t_state (thread_at s prev) = THREAD_READY \<and> (\<exists>l < 8. qs r l \<noteq> []) \<longrightarrow>
      (\<exists>s' qs'. schedule me now_ns tsc rsp s = Some s' \<and> sched_inv s' qs' \<and> current_thread (cpus s' me) \<noteq> prev \<and>
        t_state (thread_at s' prev) = THREAD_READY \<and> prev \<notin> queued qs'))"
proof (intro conjI impI)
  let ?rd = "ready_qs r prev now_ns s qs"
  {
    assume a: "t_state (thread_at s prev) = THREAD_RUNNING \<and> (\<forall>l < 8. qs r l = [])"
    let ?lv = "clamp_level (priority_level (thread_at s prev))"
    have rq: "requeue_qs r prev (thread_at s prev) qs r k = (if k = ?lv then [prev] else [])" if "k < 8" for k
      using a that clamp_level_less by (auto simp: requeue_qs_def upd_qs_def)
    have "\<exists>k < 8. ?rd r k \<noteq> []"
    proof (cases "boost_due now_ns (runqueues s r)")
      case True
      have "prev \<in> set (requeue_qs r prev (thread_at s prev) qs r ?lv)" using rq [OF clamp_level_less] by simp
      then have "prev \<in> set (concat (map (requeue_qs r prev (thread_at s prev) qs r) [0 ..< 8]))"
        unfolding in_concat_levels using clamp_level_less by (intro exI [of _ ?lv] conjI)
      then have "prev \<in> set (?rd r 0)"
        using True by (simp add: ready_qs_def Let_def boost_qs_def)
      then show ?thesis by (intro exI [of _ 0]) auto
    next
      case False
      then show ?thesis using rq [OF clamp_level_less] clamp_level_less
        by (intro exI [of _ ?lv]) (auto simp: ready_qs_def Let_def)
    qed
    then obtain l where l: "top_level (?rd r) = Some l" using top_level_None [of "?rd r"] by (cases "top_level (?rd r)") auto
    note t = top_level_Some [OF l]
    have "set (?rd r l) \<subseteq> {prev}"
      using rq t(1) by (auto simp: ready_qs_def Let_def boost_qs_def split: if_splits)
    then have "hd (?rd r l) = prev" using t(2) hd_in_set by blast
    with schedule_ready [OF assms(1-7) l, of tsc rsp] a
    show "\<exists>s' qs'. schedule me now_ns tsc rsp s = Some s' \<and> sched_inv s' qs' \<and> current_thread (cpus s' me) = prev \<and>
        t_state (thread_at s' prev) = THREAD_READY \<and> prev \<notin> queued qs'" by auto
  next
    assume a: "t_state (thread_at s prev) = THREAD_READY \<and> (\<exists>l < 8. qs r l \<noteq> [])"
    then have rq: "requeue_qs r prev (thread_at s prev) qs = qs" by (simp add: requeue_qs_def)
    have "\<exists>k < 8. ?rd r k \<noteq> []"
    proof (cases "boost_due now_ns (runqueues s r)")
      case True
      from a obtain k where "k < 8" "qs r k \<noteq> []" by blast
      then have "concat (map (qs r) [0 ..< 8]) \<noteq> []" by auto
      then have "?rd r 0 \<noteq> []" using True by (simp add: ready_qs_def rq boost_qs_def del: upt_rec)
      then show ?thesis by (intro exI [of _ 0]) simp
    next
      case False
      then show ?thesis using a by (simp add: ready_qs_def rq)
    qed
    then obtain l where l: "top_level (?rd r) = Some l" using top_level_None [of "?rd r"] by (cases "top_level (?rd r)") auto
    note t = top_level_Some [OF l]
    have in_qs: "x \<in> queued qs" if "x \<in> set (?rd r' k)" "k < 8" for x r' k
      using that by (auto simp: ready_qs_def rq boost_qs_def intro: queuedI split: if_splits)
    have np: "hd (?rd r l) \<noteq> prev" using in_qs [of "hd (?rd r l)" r l] t assms(6) by auto
    have "prev \<notin> queued (upd_qs r l (tl (?rd r l)) ?rd)"
    proof
      assume "prev \<in> queued (upd_qs r l (tl (?rd r l)) ?rd)"
      then obtain r' k where "k < 8" "prev \<in> set (?rd r' k)"
        using queued_upd [OF t(1), of prev r "tl (?rd r l)" ?rd] t(1,2) by (metis list.set_sel(2))
      then show False using in_qs [of prev r' k] assms(6) by blast
    qed
    with schedule_ready [OF assms(1-7) l, of tsc rsp] a np
    show "\<exists>s' qs'. schedule me now_ns tsc rsp s = Some s' \<and> sched_inv s' qs' \<and> current_thread (cpus s' me) \<noteq> prev \<and>
        t_state (thread_at s' prev) = THREAD_READY \<and> prev \<notin> queued qs'" by auto
  }
qed

theorem ready_current_thread_is_lost_witness:
  "\<exists>s'. schedule 0 5 0 0 one_cpu = Some s' \<and> current_thread (cpus s' 0) = 0x1000 \<and>
     t_state (thread_at s' 0x1000) = THREAD_READY"
proof -
  have "(0x1000 :: u64) \<notin> queued (\<lambda>_ _. [])" "waiting (\<lambda>_. [] :: u64 list) + 1 < 2 ^ 32" "(0x1000 :: u64) \<noteq> NULL"
    by (simp_all add: queued_def waiting_def)
  moreover have "lock_free (t_lock (thread_at one_cpu 0x1000))"
    by (simp add: one_cpu_def sched_init_def attach_cpu_def sched_fpu_init_def runqueue_init_one_def Let_def
        blank_sched_def blank_thread_def)
  ultimately show ?thesis
    using ready_current_thread_is_lost [OF one_cpu_facts(1-4), of 5 0 0] one_cpu_facts(5) by auto
qed

section \<open>Lazy FPU switching\<close>

lemma do_switch_fpu:
  "fpu_region (thread_at (do_switch me p n tsc rsp s) t) =
     (if t = p \<and> fpu_dirty (thread_at s t) then fpu_regs (cpus s me) else fpu_region (thread_at s t))"
  "fpu_dirty (thread_at (do_switch me p n tsc rsp s) t) = (t \<noteq> p \<and> fpu_dirty (thread_at s t))"
  "fpu_used (thread_at (do_switch me p n tsc rsp s) t) = fpu_used (thread_at s t)"
  "fpu_regs (cpus (do_switch me p n tsc rsp s) c) = fpu_regs (cpus s c)"
  "cr0 (cpus (do_switch me p n tsc rsp s) c) = (if c = me then cr0 (cpus s c) OR CR0_TS else cr0 (cpus s c))"
  "current_thread (cpus (do_switch me p n tsc rsp s) c) = (if c = me then n else current_thread (cpus s c))"
proof -
  show "fpu_region (thread_at (do_switch me p n tsc rsp s) t) =
     (if t = p \<and> fpu_dirty (thread_at s t) then fpu_regs (cpus s me) else fpu_region (thread_at s t))"
    "fpu_dirty (thread_at (do_switch me p n tsc rsp s) t) = (t \<noteq> p \<and> fpu_dirty (thread_at s t))"
    "fpu_used (thread_at (do_switch me p n tsc rsp s) t) = fpu_used (thread_at s t)"
    by (simp_all add: do_switch_fields(1) Let_def)
  show "fpu_regs (cpus (do_switch me p n tsc rsp s) c) = fpu_regs (cpus s c)"
    "cr0 (cpus (do_switch me p n tsc rsp s) c) = (if c = me then cr0 (cpus s c) OR CR0_TS else cr0 (cpus s c))"
    by (simp_all add: do_switch_def fpu_save_def fpu_lazy_disable_def Let_def split: option.split)
qed (simp add: do_switch_fields(5))

lemma nm_handler_fpu:
  "fpu_dirty (thread_at (nm_handler me s) t) = (t = current_thread (cpus s me) \<or> fpu_dirty (thread_at s t))"
  "fpu_used (thread_at (nm_handler me s) t) = (t = current_thread (cpus s me) \<or> fpu_used (thread_at s t))"
  "fpu_region (thread_at (nm_handler me s) t) =
     (if t = current_thread (cpus s me) \<and> \<not> fpu_used (thread_at s t) then replicate 512 0 else fpu_region (thread_at s t))"
  "fpu_regs (cpus (nm_handler me s) c) =
     (if c = me then if fpu_used (thread_at s (current_thread (cpus s me))) then fpu_region (thread_at s (current_thread (cpus s me)))
        else replicate 512 0
      else fpu_regs (cpus s c))"
  "cr0 (cpus (nm_handler me s) c) = (if c = me then cr0 (cpus s c) AND NOT CR0_TS else cr0 (cpus s c))"
  "current_thread (cpus (nm_handler me s) c) = current_thread (cpus s c)"
  by (auto simp: nm_handler_def Let_def)

text \<open>
  What the processor does before an FPU instruction: with the task-switched bit set it raises the fault that \<open>nm_handler\<close>
  handles, and the instruction then runs with what the registers hold.
\<close>

definition task_switched :: "nat \<Rightarrow> 'b sched_scheme \<Rightarrow> bool" where
  "task_switched me s \<longleftrightarrow> cr0 (cpus s me) AND CR0_TS \<noteq> 0"

definition fpu_access :: "nat \<Rightarrow> 'b sched_scheme \<Rightarrow> 'b sched_scheme" where
  "fpu_access me s = (if task_switched me s then nm_handler me s else s)"

text \<open>
  Steps of the CPUs \<open>C\<close>: an FPU instruction of the current thread of a CPU, which replaces the contents of the registers by any function of
  them, and a switch to a thread that is current on none of the CPUs. \<open>g\<close> is the specification: every thread has registers of its own, and an
  instruction changes only those of the thread that executes it.
\<close>

inductive fpu_step :: "nat set \<Rightarrow> 'b sched_scheme \<times> (u64 \<Rightarrow> u8 list) \<Rightarrow> 'b sched_scheme \<times> (u64 \<Rightarrow> u8 list) \<Rightarrow> bool" for C where
  fpu_use: "me \<in> C \<Longrightarrow> a = current_thread (cpus s me) \<Longrightarrow>
    fpu_step C (s, g) (upd_cpu me (\<lambda>c. c\<lparr>fpu_regs := f (fpu_regs c)\<rparr>) (fpu_access me s), g(a := f (g a)))"
| fpu_switch: "me \<in> C \<Longrightarrow> a = current_thread (cpus s me) \<Longrightarrow> \<forall>c \<in> C. current_thread (cpus s c) \<noteq> b \<Longrightarrow>
    fpu_step C (s, g) (do_switch me a b tsc rsp s, g)"

text \<open>Where the registers of a thread are: in the CPU while it is dirty, otherwise in its save area, or nowhere yet.\<close>

definition fpu_saved :: "thread \<Rightarrow> u8 list" where
  "fpu_saved x = (if fpu_used x then fpu_region x else replicate 512 0)"

definition fpu_inv :: "nat set \<Rightarrow> 'b sched_scheme \<Rightarrow> (u64 \<Rightarrow> u8 list) \<Rightarrow> bool" where
  "fpu_inv C s g \<longleftrightarrow> inj_on (\<lambda>c. current_thread (cpus s c)) C \<and>
     (\<forall>t. fpu_dirty (thread_at s t) \<longrightarrow> (\<exists>c \<in> C. current_thread (cpus s c) = t \<and> \<not> task_switched c s)) \<and>
     (\<forall>c \<in> C. \<not> task_switched c s \<longrightarrow> fpu_used (thread_at s (current_thread (cpus s c))) \<and>
        fpu_dirty (thread_at s (current_thread (cpus s c))) \<and> fpu_regs (cpus s c) = g (current_thread (cpus s c))) \<and>
     (\<forall>t. \<not> fpu_dirty (thread_at s t) \<longrightarrow> fpu_saved (thread_at s t) = g t)"

lemma fpu_invD:
  assumes "fpu_inv C s g"
  shows "inj_on (\<lambda>c. current_thread (cpus s c)) C"
    and "fpu_dirty (thread_at s t) \<Longrightarrow> \<exists>c \<in> C. current_thread (cpus s c) = t \<and> \<not> task_switched c s"
    and "c \<in> C \<Longrightarrow> \<not> task_switched c s \<Longrightarrow> fpu_used (thread_at s (current_thread (cpus s c)))"
    and "c \<in> C \<Longrightarrow> \<not> task_switched c s \<Longrightarrow> fpu_dirty (thread_at s (current_thread (cpus s c)))"
    and "c \<in> C \<Longrightarrow> \<not> task_switched c s \<Longrightarrow> fpu_regs (cpus s c) = g (current_thread (cpus s c))"
    and "\<not> fpu_dirty (thread_at s t) \<Longrightarrow> fpu_saved (thread_at s t) = g t"
  using assms by (simp_all add: fpu_inv_def)

lemma fpu_dirty_current:
  assumes "fpu_inv C s g" and "me \<in> C"
  shows "fpu_dirty (thread_at s (current_thread (cpus s me))) \<longleftrightarrow> \<not> task_switched me s"
  using fpu_invD(2) [OF assms(1)] fpu_invD(4) [OF assms] inj_onD [OF fpu_invD(1) [OF assms(1)]] assms(2) by metis

lemma task_switched_simps:
  "task_switched c (nm_handler me s) \<longleftrightarrow> c \<noteq> me \<and> task_switched c s"
  "task_switched c (do_switch me a b tsc rsp s) \<longleftrightarrow> c = me \<or> task_switched c s"
  "task_switched c (upd_cpu me (\<lambda>x. x\<lparr>fpu_regs := f (fpu_regs x)\<rparr>) s) = task_switched c s"
proof -
  show "task_switched c (nm_handler me s) \<longleftrightarrow> c \<noteq> me \<and> task_switched c s"
    by (simp add: task_switched_def nm_handler_fpu and_not_and_self)
  have "(8 :: u64) \<noteq> 0" by simp
  then show "task_switched c (do_switch me a b tsc rsp s) \<longleftrightarrow> c = me \<or> task_switched c s"
    by (simp add: task_switched_def do_switch_fpu or_and_absorb) (simp add: CR0_TS_def)
  show "task_switched c (upd_cpu me (\<lambda>x. x\<lparr>fpu_regs := f (fpu_regs x)\<rparr>) s) = task_switched c s"
    by (simp add: task_switched_def)
qed

text \<open>The fault keeps the invariant, and gives the registers of the current thread.\<close>

lemma fpu_access_inv:
  assumes "fpu_inv C s g" and "me \<in> C"
  shows "fpu_inv C (fpu_access me s) g" and "\<not> task_switched me (fpu_access me s)"
    and "current_thread (cpus (fpu_access me s) c) = current_thread (cpus s c)"
proof -
  show "fpu_inv C (fpu_access me s) g"
  proof (cases "task_switched me s")
    case True
    let ?a = "current_thread (cpus s me)" and ?s = "nm_handler me s"
    note i = fpu_invD [OF assms(1)]
    have clean: "\<not> fpu_dirty (thread_at s ?a)" using fpu_dirty_current [OF assms] True by simp
    have regs: "fpu_regs (cpus ?s me) = g ?a" using i(6) [OF clean] by (simp add: nm_handler_fpu fpu_saved_def)
    have other: "current_thread (cpus s c) \<noteq> ?a" if "c \<in> C" "c \<noteq> me" for c
      using inj_onD [OF i(1) _ that(1) assms(2)] that(2) by blast
    have "fpu_inv C ?s g"
      unfolding fpu_inv_def
    proof (intro conjI allI impI ballI)
      show "inj_on (\<lambda>c. current_thread (cpus ?s c)) C" using i(1) by (simp add: nm_handler_fpu)
    next
      fix t assume t: "fpu_dirty (thread_at ?s t)"
      show "\<exists>c \<in> C. current_thread (cpus ?s c) = t \<and> \<not> task_switched c ?s"
      proof (cases "t = ?a")
        case True
        then show ?thesis using assms(2) by (auto simp: nm_handler_fpu task_switched_simps)
      next
        case False
        then show ?thesis using t i(2) [of t] by (auto simp: nm_handler_fpu task_switched_simps)
      qed
    next
      fix c assume c: "c \<in> C" "\<not> task_switched c ?s"
      show "fpu_used (thread_at ?s (current_thread (cpus ?s c)))" "fpu_dirty (thread_at ?s (current_thread (cpus ?s c)))"
        "fpu_regs (cpus ?s c) = g (current_thread (cpus ?s c))"
        using c i(3-5) [of c] regs by (cases "c = me"; simp add: nm_handler_fpu task_switched_simps)+
    next
      fix t assume t: "\<not> fpu_dirty (thread_at ?s t)"
      then show "fpu_saved (thread_at ?s t) = g t" using i(6) [of t] by (auto simp: nm_handler_fpu fpu_saved_def)
    qed
    then show ?thesis using True by (simp add: fpu_access_def)
  next
    case False
    then show ?thesis using assms(1) by (simp add: fpu_access_def)
  qed
  show "\<not> task_switched me (fpu_access me s)" by (simp add: fpu_access_def task_switched_simps)
  show "current_thread (cpus (fpu_access me s) c) = current_thread (cpus s c)" by (simp add: fpu_access_def nm_handler_fpu)
qed

lemma fpu_write_inv:
  assumes "fpu_inv C s g" and "me \<in> C" and "\<not> task_switched me s" and "a = current_thread (cpus s me)"
  shows "fpu_inv C (upd_cpu me (\<lambda>c. c\<lparr>fpu_regs := f (fpu_regs c)\<rparr>) s) (g(a := f (g a)))"
proof -
  note i = fpu_invD [OF assms(1)]
  have other: "current_thread (cpus s c) \<noteq> a" if "c \<in> C" "c \<noteq> me" for c
    using inj_onD [OF i(1) _ that(1) assms(2)] that(2) assms(4) by blast
  let ?s = "upd_cpu me (\<lambda>c. c\<lparr>fpu_regs := f (fpu_regs c)\<rparr>) s"
  have cur: "current_thread (cpus ?s c) = current_thread (cpus s c)" "thread_at ?s = thread_at s" for c by simp_all
  show ?thesis
    unfolding fpu_inv_def cur task_switched_simps
  proof (intro conjI allI impI ballI)
    fix c assume c: "c \<in> C" "\<not> task_switched c s"
    show "fpu_regs (cpus ?s c) = (g(a := f (g a))) (current_thread (cpus s c))"
      using i(5) [OF c] other [OF c(1)] assms(4) by (cases "c = me") simp_all
  next
    fix t assume t: "\<not> fpu_dirty (thread_at s t)"
    have "fpu_dirty (thread_at s a)" using i(4) [OF assms(2,3)] assms(4) by simp
    then show "fpu_saved (thread_at s t) = (g(a := f (g a))) t" using i(6) [OF t] t by auto
  qed (use i in \<open>simp_all\<close>)
qed

lemma fpu_switch_inv:
  assumes "fpu_inv C s g" and "me \<in> C" and "a = current_thread (cpus s me)" and "\<forall>c \<in> C. current_thread (cpus s c) \<noteq> b"
  shows "fpu_inv C (do_switch me a b tsc rsp s) g"
proof -
  note i = fpu_invD [OF assms(1)]
  have other: "current_thread (cpus s c) \<noteq> a" if "c \<in> C" "c \<noteq> me" for c
    using inj_onD [OF i(1) _ that(1) assms(2)] that(2) assms(3) by blast
  let ?s = "do_switch me a b tsc rsp s"
  show ?thesis
    unfolding fpu_inv_def task_switched_simps
  proof (intro conjI allI impI ballI)
    show "inj_on (\<lambda>c. current_thread (cpus ?s c)) C"
      using i(1) assms(4) by (auto simp: inj_on_def do_switch_fpu)
  next
    fix t assume t: "fpu_dirty (thread_at ?s t)"
    then obtain c where c: "c \<in> C" "current_thread (cpus s c) = t" "\<not> task_switched c s" "t \<noteq> a"
      using i(2) [of t] by (auto simp: do_switch_fpu)
    then have "c \<noteq> me" using assms(3) by auto
    then show "\<exists>c \<in> C. current_thread (cpus ?s c) = t \<and> \<not> (c = me \<or> task_switched c s)"
      using c by (auto simp: do_switch_fpu)
  next
    fix c assume c: "c \<in> C" "\<not> (c = me \<or> task_switched c s)"
    then show "fpu_used (thread_at ?s (current_thread (cpus ?s c)))" "fpu_dirty (thread_at ?s (current_thread (cpus ?s c)))"
      "fpu_regs (cpus ?s c) = g (current_thread (cpus ?s c))"
      using i(3-5) [of c] other [of c] by (simp_all add: do_switch_fpu)
  next
    fix t assume t: "\<not> fpu_dirty (thread_at ?s t)"
    show "fpu_saved (thread_at ?s t) = g t"
    proof (cases "fpu_dirty (thread_at s t)")
      case True
      then have ta: "t = a" using t by (simp add: do_switch_fpu)
      then have "\<not> task_switched me s" using True fpu_dirty_current [OF assms(1,2)] assms(3) by simp
      then show ?thesis using ta True i(3,5) [OF assms(2)] assms(3) by (simp add: fpu_saved_def do_switch_fpu)
    next
      case False
      then show ?thesis using i(6) [of t] by (simp add: fpu_saved_def do_switch_fpu split: if_splits)
    qed
  qed
qed

lemma fpu_step_inv:
  assumes "fpu_step C (s, g) (s', g')" and "fpu_inv C s g"
  shows "fpu_inv C s' g'"
  using assms
proof (induction "(s, g)" "(s', g')" arbitrary: s g s' g' rule: fpu_step.induct)
  case (fpu_use me a s g f)
  note acc = fpu_access_inv [OF fpu_use(3,1)]
  show ?case using fpu_write_inv [OF acc(1) fpu_use(1) acc(2), of a f] acc(3) [of me] fpu_use(2) by simp
next
  case (fpu_switch me a s b g tsc rsp)
  then show ?case by (intro fpu_switch_inv)
qed

lemma fpu_run_inv:
  assumes "(fpu_step C)\<^sup>*\<^sup>* (s, g) (s', g')" and "fpu_inv C s g"
  shows "fpu_inv C s' g'"
  using assms by (induction rule: rtranclp_induct2) (auto intro: fpu_step_inv)

text \<open>
  C13. Every thread has FPU registers of its own, although they are saved and restored lazily: start with threads that never used the
  FPU, on any set of CPUs that run different threads with the task-switched bit set; let the CPUs execute FPU instructions and switch threads in any order,
  where a thread is switched to only while it is current on no CPU, also to another CPU than before and also without having used the
  FPU in between. Then the next FPU instruction on a CPU finds what the current thread itself left in the registers last, and zeros if that thread never used them.
\<close>
theorem fpu_state_survives:
  assumes "\<forall>t. \<not> fpu_used (thread_at s t) \<and> \<not> fpu_dirty (thread_at s t)" and "\<forall>c \<in> C. task_switched c s"
    and "inj_on (\<lambda>c. current_thread (cpus s c)) C"
    and "(fpu_step C)\<^sup>*\<^sup>* (s, \<lambda>_. replicate 512 0) (s', g)" and "me \<in> C"
  shows "fpu_regs (cpus (fpu_access me s') me) = g (current_thread (cpus s' me))"
proof -
  have "fpu_inv C s (\<lambda>_. replicate 512 0)" using assms(1-3) by (simp add: fpu_inv_def fpu_saved_def)
  then have "fpu_inv C s' g" using fpu_run_inv [OF assms(4)] by blast
  note acc = fpu_access_inv [OF this assms(5)]
  show ?thesis using fpu_invD(5) [OF acc(1) assms(5) acc(2)] acc(3) [of me] by simp
qed

text \<open>Thread \<^verbatim>\<open>0x1000\<close> uses the FPU, \<^verbatim>\<open>0x2000\<close> does not, \<^verbatim>\<open>0x3000\<close> does, \<^verbatim>\<open>0x2000\<close> does not again, and \<^verbatim>\<open>0x1000\<close> comes back.\<close>

theorem fpu_state_survives_witness:
  "let s1 = upd_cpu 0 (\<lambda>c. c\<lparr>fpu_regs := [7]\<rparr>) (fpu_access 0 one_cpu);
       s2 = do_switch 0 0x2000 0x3000 2 0 (do_switch 0 0x1000 0x2000 1 0 s1);
       s3 = upd_cpu 0 (\<lambda>c. c\<lparr>fpu_regs := [9]\<rparr>) (fpu_access 0 s2);
       s4 = do_switch 0 0x2000 0x1000 4 0 (do_switch 0 0x3000 0x2000 3 0 s3)
   in fpu_regs (cpus (fpu_access 0 s4) 0) = [7]"
proof -
  let ?z = "\<lambda>_ :: u64. replicate 512 (0 :: u8)"
  define s1 where "s1 = upd_cpu 0 (\<lambda>c. c\<lparr>fpu_regs := [7]\<rparr>) (fpu_access 0 one_cpu)"
  define t1 where "t1 = do_switch 0 0x1000 0x2000 1 0 s1"
  define s2 where "s2 = do_switch 0 0x2000 0x3000 2 0 t1"
  define s3 where "s3 = upd_cpu 0 (\<lambda>c. c\<lparr>fpu_regs := [9]\<rparr>) (fpu_access 0 s2)"
  define t3 where "t3 = do_switch 0 0x3000 0x2000 3 0 s3"
  define s4 where "s4 = do_switch 0 0x2000 0x1000 4 0 t3"
  have acc: "current_thread (cpus (fpu_access 0 s) 0) = current_thread (cpus s 0)" for s :: sched
    by (simp add: fpu_access_def nm_handler_fpu)
  have cur: "current_thread (cpus s1 0) = 0x1000" "current_thread (cpus t1 0) = 0x2000" "current_thread (cpus s2 0) = 0x3000"
    "current_thread (cpus s3 0) = 0x3000" "current_thread (cpus t3 0) = 0x2000" "current_thread (cpus s4 0) = 0x1000"
    by (simp_all add: s1_def t1_def s2_def s3_def t3_def s4_def do_switch_fpu acc one_cpu_facts(4))
  have "fpu_step {0} (one_cpu, ?z) (s1, ?z(0x1000 := [7]))"
    using fpu_use [of 0 "{0}" "0x1000" one_cpu ?z "\<lambda>_. [7]"] by (simp add: s1_def one_cpu_facts(4))
  moreover have "fpu_step {0} (s1, ?z(0x1000 := [7])) (t1, ?z(0x1000 := [7]))" "fpu_step {0} (t1, ?z(0x1000 := [7])) (s2, ?z(0x1000 := [7]))"
    unfolding t1_def s2_def using cur(1,2) by (auto intro!: fpu_switch simp: t1_def)
  moreover have "fpu_step {0} (s2, ?z(0x1000 := [7])) (s3, ?z(0x1000 := [7], 0x3000 := [9]))"
    using fpu_use [of 0 "{0}" "0x3000" s2 "?z(0x1000 := [7])" "\<lambda>_. [9]"] by (simp add: s3_def cur(3))
  moreover have "fpu_step {0} (s3, ?z(0x1000 := [7], 0x3000 := [9])) (t3, ?z(0x1000 := [7], 0x3000 := [9]))"
    "fpu_step {0} (t3, ?z(0x1000 := [7], 0x3000 := [9])) (s4, ?z(0x1000 := [7], 0x3000 := [9]))"
    unfolding t3_def s4_def using cur(4,5) by (auto intro!: fpu_switch simp: t3_def)
  ultimately have run: "(fpu_step {0})\<^sup>*\<^sup>* (one_cpu, ?z) (s4, ?z(0x1000 := [7], 0x3000 := [9]))"
    by (meson converse_rtranclp_into_rtranclp rtranclp.rtrancl_refl)
  have fresh: "\<forall>t. \<not> fpu_used (thread_at one_cpu t) \<and> \<not> fpu_dirty (thread_at one_cpu t)" "\<forall>c \<in> {0}. task_switched c one_cpu"
    by (simp_all add: one_cpu_def sched_init_def attach_cpu_def sched_fpu_init_def runqueue_init_one_def Let_def
        blank_sched_def blank_thread_def blank_cpu_def task_switched_def CR0_TS_def)
  have "fpu_regs (cpus (fpu_access 0 s4) 0) = (?z(0x1000 := [7], 0x3000 := [9])) (current_thread (cpus s4 0))"
    by (rule fpu_state_survives [OF fresh _ run]) simp_all
  then show ?thesis using cur(6) unfolding Let_def s4_def t3_def s3_def s2_def t1_def s1_def by simp
qed

text \<open>
  An exiting thread is freed under its own feet: \<open>sched_exit_current\<close> stores the thread as the zombie to
  reap and calls \<open>schedule\<close>, whose first action is to reap the zombie of this CPU. The descriptor and the
  kernel stack of the thread go back to the heap while it is still the current thread and before the
  switch away from it.
\<close>
theorem exit_frees_running_thread:
  assumes "current_thread (cpus s me) = self" and "self \<noteq> NULL" and "lock_free (t_lock (thread_at s self))"
  shows "\<exists>s1. sched_exit_current me self code now_ns tsc rsp s = schedule me now_ns tsc rsp s1 \<and>
    current_thread (cpus (reap_pending_zombie me s1) me) = self \<and> self \<in> freed (reap_pending_zombie me s1)"
proof -
  let ?s1 = "upd_cpu me (\<lambda>c. c\<lparr>zombie_to_reap := self\<rparr>)
    (upd_thread self (\<lambda>x. x\<lparr>t_exit_code := code, t_lock := t_lock x, t_state := THREAD_ZOMBIE\<rparr>) s)"
  have "sched_exit_current me self code now_ns tsc rsp s = schedule me now_ns tsc rsp ?s1"
    using assms(3) by (simp add: sched_exit_current_def with_thread_lock_def upd_thread_def)
  with assms show ?thesis
    by (intro exI [of _ ?s1]) (simp add: reap_pending_zombie_def thread_free_resources_def Let_def)
qed

theorem exit_frees_running_thread_witness:
  "\<exists>s1. sched_exit_current 0 0x1000 3 0 0 0 one_cpu = schedule 0 0 0 0 s1 \<and> 0x1000 \<in> freed (reap_pending_zombie 0 s1)"
proof -
  have "lock_free (t_lock (thread_at one_cpu 0x1000))"
    by (simp add: one_cpu_def sched_init_def attach_cpu_def sched_fpu_init_def runqueue_init_one_def Let_def
        blank_sched_def blank_thread_def)
  with one_cpu_facts(4) show ?thesis
    using exit_frees_running_thread [of one_cpu 0 "0x1000" 3 0 0 0] by auto
qed

text \<open>
  Run time is counted more than once: \<open>sched_tick\<close> adds the time since the thread was switched to, and
  does not move that mark. After two ticks, \<open>a\<close> and \<open>a + b\<close> nanoseconds after the switch, the total has
  grown by \<open>a + (a + b)\<close> rather than \<open>a + b\<close> (clock at 1 GHz, no overflow).
\<close>
theorem tick_counts_time_twice:
  assumes "current_thread (cpus s me) = t" and "idle_thread (cpus s me) \<noteq> t"
    and "unat (a + b) * 1000000000 < 2 ^ 64" and "unat a * 1000000000 < 2 ^ 64"
  shows "let s1 = sched_tick me (last_run_tsc (thread_at s t) + a) 1000000000 s;
      s2 = sched_tick me (last_run_tsc (thread_at s t) + (a + b)) 1000000000 s1
    in total_runtime_ns (thread_at s2 t) = total_runtime_ns (thread_at s t) + a + (a + b)"
proof -
  have d: "x * 1000000000 div 1000000000 = x" if "unat x * 1000000000 < 2 ^ 64" for x :: u64
    using that by (simp add: word_unat_eq_iff unat_div unat_mult_no_wrap)
  show ?thesis
    using assms d [OF assms(3)] d [OF assms(4)]
    by (auto simp: sched_tick_def Let_def)
qed

theorem tick_counts_time_twice_witness:
  "let s = upd_cpu 0 (\<lambda>c. c\<lparr>current_thread := 0x2000\<rparr>) one_cpu;
       s2 = sched_tick 0 30 1000000000 (sched_tick 0 10 1000000000 s)
   in total_runtime_ns (thread_at s2 0x2000) = 40"
proof -
  let ?s = "upd_cpu 0 (\<lambda>c. c\<lparr>current_thread := 0x2000\<rparr>) one_cpu"
  have "idle_thread (cpus ?s 0) \<noteq> 0x2000" "last_run_tsc (thread_at ?s 0x2000) = 0" "total_runtime_ns (thread_at ?s 0x2000) = 0"
    by (simp_all add: one_cpu_def sched_init_def attach_cpu_def sched_fpu_init_def runqueue_init_one_def Let_def
        blank_sched_def blank_thread_def)
  then show ?thesis using tick_counts_time_twice [of ?s 0 "0x2000" 10 20] by (simp add: Let_def)
qed

end
