(* ===== verification/Waitqueue.thy ===== *)
theory Waitqueue
  imports Sched
begin

text \<open>
  The wait queues of \<^verbatim>\<open>sched/waitqueue.c\<close>. A wait node is embedded in its thread, so it is found under
  the thread's address. \<^verbatim>\<open>waitqueue_wait\<close> gives up the CPU in the middle: \<open>waitqueue_sleep\<close> is its part up
  to and including \<^verbatim>\<open>schedule\<close>, \<open>waitqueue_resume\<close> what the thread does when it runs again.
\<close>

section \<open>State and operations\<close>

record wait_node =
  wn_next :: u64
  wn_prev :: u64
  wn_thread :: u64
  woken :: bool

record waitqueue =
  wq_lock :: spinlock
  wq_head :: u64
  wq_tail :: u64

record wsched = sched +
  node_at :: "u64 \<Rightarrow> wait_node"
  wq_at :: "u64 \<Rightarrow> waitqueue"

definition upd_node :: "u64 \<Rightarrow> (wait_node \<Rightarrow> wait_node) \<Rightarrow> 'b wsched_scheme \<Rightarrow> 'b wsched_scheme" where
  "upd_node n f s = s\<lparr>node_at := (node_at s)(n := f (node_at s n))\<rparr>"

definition upd_wq :: "u64 \<Rightarrow> (waitqueue \<Rightarrow> waitqueue) \<Rightarrow> 'b wsched_scheme \<Rightarrow> 'b wsched_scheme" where
  "upd_wq w f s = s\<lparr>wq_at := (wq_at s)(w := f (wq_at s w))\<rparr>"

definition waitqueue_init :: "u64 \<Rightarrow> 'b wsched_scheme \<Rightarrow> 'b wsched_scheme" where
  "waitqueue_init w = upd_wq w (\<lambda>_. \<lparr>wq_lock = SPINLOCK_INIT, wq_head = NULL, wq_tail = NULL\<rparr>)"

definition wq_link :: "u64 \<Rightarrow> u64 \<Rightarrow> 'b wsched_scheme \<Rightarrow> 'b wsched_scheme" where
  "wq_link w n s =
     (let s1 = upd_node n (\<lambda>x. x\<lparr>wn_next := NULL, wn_prev := wq_tail (wq_at s w), woken := False\<rparr>) s;
          tl = wq_tail (wq_at s1 w);
          s2 = (if tl \<noteq> NULL then upd_node tl (\<lambda>x. x\<lparr>wn_next := n\<rparr>) s1 else upd_wq w (\<lambda>q. q\<lparr>wq_head := n\<rparr>) s1)
      in upd_wq w (\<lambda>q. q\<lparr>wq_tail := n\<rparr>) s2)"

definition wq_unlink :: "u64 \<Rightarrow> u64 \<Rightarrow> 'b wsched_scheme \<Rightarrow> 'b wsched_scheme" where
  "wq_unlink w n s =
     (let pv = wn_prev (node_at s n);
          s1 = (if pv \<noteq> NULL then upd_node pv (\<lambda>x. x\<lparr>wn_next := wn_next (node_at s n)\<rparr>) s
                else upd_wq w (\<lambda>q. q\<lparr>wq_head := wn_next (node_at s n)\<rparr>) s);
          nx = wn_next (node_at s1 n);
          s2 = (if nx \<noteq> NULL then upd_node nx (\<lambda>x. x\<lparr>wn_prev := wn_prev (node_at s1 n)\<rparr>) s1
                else upd_wq w (\<lambda>q. q\<lparr>wq_tail := wn_prev (node_at s1 n)\<rparr>) s1)
      in upd_node n (\<lambda>x. x\<lparr>wn_next := NULL, wn_prev := NULL\<rparr>) s2)"

definition acquire_wq :: "nat \<Rightarrow> u64 \<Rightarrow> 'b wsched_scheme \<Rightarrow> 'b wsched_scheme option" where
  "acquire_wq me w s = map_option (\<lambda>l. upd_wq w (\<lambda>q. q\<lparr>wq_lock := l\<rparr>) s) (lock_acquire (int me) (wq_lock (wq_at s w)))"

definition release_wq :: "nat \<Rightarrow> u64 \<Rightarrow> 'b wsched_scheme \<Rightarrow> 'b wsched_scheme" where
  "release_wq me w = upd_wq w (\<lambda>q. q\<lparr>wq_lock := lock_release (int me) (wq_lock q)\<rparr>)"

definition waitqueue_block :: "nat \<Rightarrow> u64 \<Rightarrow> 'b wsched_scheme \<Rightarrow> 'b wsched_scheme option" where
  "waitqueue_block me w s = do {
     let self = current_thread (cpus s me);
     s1 \<leftarrow> acquire_wq me w s;
     let s2 = wq_link w self (upd_node self (\<lambda>x. x\<lparr>wn_thread := self, woken := False\<rparr>) s1);
     (_, s3) \<leftarrow> sched_mark_blocked me self (upd_thread self (\<lambda>x. x\<lparr>blocked_on := w\<rparr>) s2);
     Some (release_wq me w s3)
   }"

definition waitqueue_sleep :: "nat \<Rightarrow> u64 \<Rightarrow> u64 \<Rightarrow> u64 \<Rightarrow> u64 \<Rightarrow> 'b wsched_scheme \<Rightarrow> 'b wsched_scheme option" where
  "waitqueue_sleep me w now_ns tsc rsp s =
     (case waitqueue_block me w s of None \<Rightarrow> None | Some s1 \<Rightarrow> schedule me now_ns tsc rsp s1)"

definition waitqueue_resume :: "nat \<Rightarrow> u64 \<Rightarrow> u64 \<Rightarrow> 'b wsched_scheme \<Rightarrow> 'b wsched_scheme option" where
  "waitqueue_resume me w self s =
     (case acquire_wq me w s of None \<Rightarrow> None
      | Some s1 \<Rightarrow>
          let s2 = (if \<not> woken (node_at s1 self) then wq_unlink w self s1 else s1)
          in Some (release_wq me w (upd_thread self (\<lambda>x. x\<lparr>blocked_on := NULL\<rparr>) s2)))"

definition waitqueue_wake_one :: "nat \<Rightarrow> u64 \<Rightarrow> 'b wsched_scheme \<Rightarrow> (unit \<times> 'b wsched_scheme) option" where
  "waitqueue_wake_one me w s =
     (case acquire_wq me w s of None \<Rightarrow> None
      | Some s1 \<Rightarrow>
          let n = wq_head (wq_at s1 w) in
          if n = NULL then Some ((), release_wq me w s1)
          else let s2 = upd_node n (\<lambda>x. x\<lparr>woken := True\<rparr>) (wq_unlink w n s1)
               in sched_wake me (wn_thread (node_at s2 n)) (release_wq me w s2))"

partial_function (option) wake_loop :: "nat \<Rightarrow> u64 \<Rightarrow> 'b wsched_scheme \<Rightarrow> (unit \<times> 'b wsched_scheme) option" where
  "wake_loop me n s =
     (if n = NULL then Some ((), s)
      else let next = wn_next (node_at s n);
               s1 = upd_node n (\<lambda>x. x\<lparr>woken := True, wn_next := NULL, wn_prev := NULL\<rparr>) s
           in case sched_wake me (wn_thread (node_at s1 n)) s1 of None \<Rightarrow> None
              | Some (_, s2) \<Rightarrow> wake_loop me next s2)"

definition waitqueue_wake_all :: "nat \<Rightarrow> u64 \<Rightarrow> 'b wsched_scheme \<Rightarrow> (unit \<times> 'b wsched_scheme) option" where
  "waitqueue_wake_all me w s =
     (case acquire_wq me w s of None \<Rightarrow> None
      | Some s1 \<Rightarrow> wake_loop me (wq_head (wq_at s1 w))
          (release_wq me w (upd_wq w (\<lambda>q. q\<lparr>wq_head := NULL, wq_tail := NULL\<rparr>) s1)))"

definition waitqueue_has_waiters :: "nat \<Rightarrow> u64 \<Rightarrow> 'b wsched_scheme \<Rightarrow> (bool \<times> 'b wsched_scheme) option" where
  "waitqueue_has_waiters me w s =
     (case acquire_wq me w s of None \<Rightarrow> None
      | Some s1 \<Rightarrow> Some (wq_head (wq_at s1 w) \<noteq> NULL, release_wq me w s1))"

section \<open>Field access\<close>

lemma upd_node_simps [simp]:
  "node_at (upd_node n f s) = (node_at s)(n := f (node_at s n))" "wq_at (upd_node n f s) = wq_at s"
  "thread_at (upd_node n f s) = thread_at s" "runqueues (upd_node n f s) = runqueues s"
  "cpus (upd_node n f s) = cpus s" "nr_cpus (upd_node n f s) = nr_cpus s" "wsched.more (upd_node n f s) = wsched.more s"
  by (simp_all add: upd_node_def)

lemma upd_wq_simps [simp]:
  "node_at (upd_wq w g s) = node_at s" "wq_at (upd_wq w g s) = (wq_at s)(w := g (wq_at s w))"
  "thread_at (upd_wq w g s) = thread_at s" "runqueues (upd_wq w g s) = runqueues s"
  "cpus (upd_wq w g s) = cpus s" "nr_cpus (upd_wq w g s) = nr_cpus s" "wsched.more (upd_wq w g s) = wsched.more s"
  by (simp_all add: upd_wq_def)

lemma sched_upd_wsched [simp]:
  "node_at (upd_thread t f' s) = node_at s" "wq_at (upd_thread t f' s) = wq_at s"
  "node_at (upd_rq r g' s) = node_at s" "wq_at (upd_rq r g' s) = wq_at s"
  "node_at (upd_q r l h' s) = node_at s" "wq_at (upd_q r l h' s) = wq_at s"
  "node_at (upd_cpu c k' s) = node_at s" "wq_at (upd_cpu c k' s) = wq_at s"
  "wsched.more (upd_thread t f' s) = wsched.more s" "wsched.more (upd_rq r g' s) = wsched.more s"
  "wsched.more (upd_q r l h' s) = wsched.more s" "wsched.more (upd_cpu c k' s) = wsched.more s"
  for s :: "'b wsched_scheme"
  by (simp_all add: upd_thread_def upd_rq_def upd_q_def upd_cpu_def)

abbreviation wnext :: "'b wsched_scheme \<Rightarrow> u64 \<Rightarrow> u64" where "wnext s n \<equiv> wn_next (node_at s n)"
abbreviation wprev :: "'b wsched_scheme \<Rightarrow> u64 \<Rightarrow> u64" where "wprev s n \<equiv> wn_prev (node_at s n)"

section \<open>The queue\<close>

definition wqrepr :: "u64 \<Rightarrow> 'b wsched_scheme \<Rightarrow> u64 list \<Rightarrow> bool" where
  "wqrepr w s xs \<longleftrightarrow> dll (wnext s) (wprev s) (wq_head (wq_at s w)) xs (wq_tail (wq_at s w))"

text \<open>Removing the head, as \<^verbatim>\<open>waitqueue_wake_one\<close> does.\<close>

definition wq_pop :: "u64 \<Rightarrow> 'b wsched_scheme \<Rightarrow> u64 \<times> 'b wsched_scheme" where
  "wq_pop w s = (let n = wq_head (wq_at s w) in if n = NULL then (NULL, s) else (n, wq_unlink w n s))"

lemma wq_link_links:
  assumes "n \<noteq> wq_tail (wq_at s w)"
  shows "wnext (wq_link w n s) a =
      (if a = n then NULL else if a = wq_tail (wq_at s w) \<and> wq_tail (wq_at s w) \<noteq> NULL then n else wnext s a)"
    and "wprev (wq_link w n s) a = (if a = n then wq_tail (wq_at s w) else wprev s a)"
    and "wq_head (wq_at (wq_link w n s) w) = (if wq_tail (wq_at s w) = NULL then n else wq_head (wq_at s w))"
    and "wq_tail (wq_at (wq_link w n s) w) = n"
  using assms by (auto simp: wq_link_def Let_def)

lemma wq_unlink_links:
  assumes "wprev s n \<noteq> n" and "wnext s n \<noteq> n"
  shows "wnext (wq_unlink w n s) a =
      (if a = n then NULL else if a = wprev s n \<and> wprev s n \<noteq> NULL then wnext s n else wnext s a)"
    and "wprev (wq_unlink w n s) a =
      (if a = n then NULL else if a = wnext s n \<and> wnext s n \<noteq> NULL then wprev s n else wprev s a)"
    and "wq_head (wq_at (wq_unlink w n s) w) = (if wprev s n = NULL then wnext s n else wq_head (wq_at s w))"
    and "wq_tail (wq_at (wq_unlink w n s) w) = (if wnext s n = NULL then wprev s n else wq_tail (wq_at s w))"
  using assms by (cases "wprev s n = NULL"; cases "wnext s n = NULL"; simp add: wq_unlink_def Let_def)+

lemma wqrepr_link:
  assumes q: "wqrepr w s xs" and n: "n \<noteq> NULL" "n \<notin> set xs"
  shows "wqrepr w (wq_link w n s) (xs @ [n])"
proof -
  let ?s = "wq_link w n s"
  have d: "dll (wnext s) (wprev s) (wq_head (wq_at s w)) xs (wq_tail (wq_at s w))" using q by (simp add: wqrepr_def)
  have ne: "n \<noteq> wq_tail (wq_at s w)" using dll_tail [OF d] n by (auto split: if_splits)
  note links = wq_link_links [OF ne]
  have "dll (wnext ?s) (wprev ?s) (if xs = [] then n else wq_head (wq_at s w)) (xs @ [n]) n"
    by (rule dll_push_back [OF d n]) (use links ne n in auto)
  with links(3,4) dll_tail_NULL [OF d] show ?thesis by (simp add: wqrepr_def)
qed

lemma wqrepr_unlink:
  assumes q: "wqrepr w s (xs @ n # ys)"
  shows "wqrepr w (wq_unlink w n s) (xs @ ys)"
proof -
  let ?s = "wq_unlink w n s"
  have d: "dll (wnext s) (wprev s) (wq_head (wq_at s w)) (xs @ n # ys) (wq_tail (wq_at s w))"
    using q by (simp add: wqrepr_def)
  note nb = dll_neighbours [OF d]
  have dist: "distinct (xs @ n # ys)" using dll_distinct [OF d] .
  have ne: "wprev s n \<noteq> n" "wnext s n \<noteq> n" using nb dist by (auto split: if_splits dest: hd_in_set last_in_set)
  note links = wq_unlink_links [OF ne]
  have "dll (wnext ?s) (wprev ?s) (if wprev s n = NULL then wnext s n else wq_head (wq_at s w)) (xs @ ys)
      (if wnext s n = NULL then wprev s n else wq_tail (wq_at s w))"
    by (rule dll_unlink [where n' = "wnext ?s" and p' = "wprev ?s", OF d]) (use links ne dist in auto)
  with links(3,4) show ?thesis by (simp add: wqrepr_def)
qed

lemma wqrepr_head: "wqrepr w s xs \<Longrightarrow> wq_head (wq_at s w) = (if xs = [] then NULL else hd xs)"
  using dll_head by (fastforce simp: wqrepr_def)

lemma wqrepr_not_NULL: "wqrepr w s xs \<Longrightarrow> NULL \<notin> set xs"
  by (auto simp: wqrepr_def dest: dll_null)

interpretation wq: intrusive_queue "wqrepr w" "wq_link w" "wq_pop w" "wq_unlink w" for w
proof
  fix s :: "'a wsched_scheme" and x xs ys
  show "distinct xs \<and> NULL \<notin> set xs" if "wqrepr w s xs"
    using that dll_distinct dll_null unfolding wqrepr_def by blast
  show "xs = ys" if "wqrepr w s xs" "wqrepr w s ys"
    using that unfolding wqrepr_def by (blast intro: dll_unique)
  show "wq_pop w s = (NULL, s)" if "wqrepr w s []" using wqrepr_head [OF that] by (simp add: wq_pop_def)
  show "fst (wq_pop w s) = x \<and> wqrepr w (snd (wq_pop w s)) xs" if q: "wqrepr w s (x # xs)"
  proof -
    have "wq_head (wq_at s w) = x" "x \<noteq> NULL" using wqrepr_head [OF q] wqrepr_not_NULL [OF q] by auto
    with wqrepr_unlink [of w s "[]" x xs] q show ?thesis by (simp add: wq_pop_def)
  qed
qed (auto intro: wqrepr_link wqrepr_unlink)

section \<open>Waking\<close>

lemma sched_inv_wsched [simp]:
  "sched_inv (upd_node n f s) = sched_inv s" "sched_inv (upd_wq w g s) = sched_inv s"
proof -
  have "qs_ok (upd_node n f s) = qs_ok s" "qs_ok (upd_wq w g s) = qs_ok s" by (rule qs_ok_frame; simp)+
  then show "sched_inv (upd_node n f s) = sched_inv s" "sched_inv (upd_wq w g s) = sched_inv s"
    by (simp_all add: sched_inv_ok fun_eq_iff)
qed

text \<open>What the scheduler does to a thread it enqueues leaves the wait queues and all other threads alone.\<close>

lemma sched_enqueue_frame:
  fixes s :: "'b wsched_scheme"
  assumes "sched_enqueue me t s = Some (u, s')"
  shows "node_at s' = node_at s" "wq_at s' = wq_at s" "nr_cpus s' = nr_cpus s" "wsched.more s' = wsched.more s"
    "a \<noteq> t \<Longrightarrow> unlinked (thread_at s' a) = unlinked (thread_at s a)"
proof -
  have push: "node_at (mlfq_push r l t x) = node_at x" "wq_at (mlfq_push r l t x) = wq_at x"
    "nr_cpus (mlfq_push r l t x) = nr_cpus x" "wsched.more (mlfq_push r l t x) = wsched.more x"
    "unlinked (thread_at (mlfq_push r l t x) b) = unlinked (thread_at x b)" for r l b and x :: "'b wsched_scheme"
    using mlfq_push_others(6) [of x r l t] by (simp_all add: mlfq_push_def Let_def same_threads_def)
  have "\<exists>r c. with_rq_lock me r (enqueue_locked t c r) s = Some (u, s')"
    using assms by (auto simp: sched_enqueue_def Let_def split: option.splits)
  then obtain r c where "with_rq_lock me r (enqueue_locked t c r) s = Some (u, s')" by blast
  then show "node_at s' = node_at s" "wq_at s' = wq_at s" "nr_cpus s' = nr_cpus s" "wsched.more s' = wsched.more s"
    "a \<noteq> t \<Longrightarrow> unlinked (thread_at s' a) = unlinked (thread_at s a)"
    by (auto simp: with_rq_lock_def enqueue_locked_def Let_def push split: option.splits)
qed

text \<open>A thread that can be woken onto run queue \<open>r\<close> at level \<open>l\<close>.\<close>

definition sleeper :: "nat \<Rightarrow> nat \<Rightarrow> nat \<Rightarrow> 'b sched_scheme \<Rightarrow> u64 \<Rightarrow> bool" where
  "sleeper me r l s t \<longleftrightarrow> t \<noteq> NULL \<and> t_state (thread_at s t) = THREAD_BLOCKED \<and> lock_free (t_lock (thread_at s t)) \<and>
     priority_level (thread_at s t) = int l \<and> l < 8 \<and> sched_rq_for_cpu (target_cpu me (thread_at s t)) s = Some r"

lemma sched_wake_inv:
  fixes s :: "'b wsched_scheme"
  assumes inv: "sched_inv s qs" and t: "sleeper me r l s t" "t \<notin> queued qs"
  shows "\<exists>s'. sched_wake me t s = Some ((), s') \<and> sched_inv s' (upd_qs r l (qs r l @ [t]) qs) \<and>
    t_state (thread_at s' t) = THREAD_READY \<and> node_at s' = node_at s \<and> wq_at s' = wq_at s \<and> nr_cpus s' = nr_cpus s \<and>
    wsched.more s' = wsched.more s \<and> (\<forall>a. a \<noteq> t \<longrightarrow> unlinked (thread_at s' a) = unlinked (thread_at s a))"
proof -
  let ?s1 = "upd_thread t (\<lambda>x. x\<lparr>t_state := THREAD_READY\<rparr>) s"
  have locked: "with_thread_lock me t (\<lambda>s.
         if t_state (thread_at s t) \<noteq> THREAD_BLOCKED \<and> t_state (thread_at s t) \<noteq> THREAD_SLEEPING then (False, s)
         else (True, upd_thread t (\<lambda>x. x\<lparr>t_state := THREAD_READY\<rparr>) s)) s = Some (True, ?s1)"
    using t(1) by (simp add: with_thread_lock_def sleeper_def upd_thread_def)
  have "qs_ok ?s1 qs" using inv t(2) by (intro qs_ok_upd_thread) (simp_all add: sched_inv_ok)
  then have "sched_inv ?s1 qs" using inv by (simp add: sched_inv_ok)
  moreover have "target_cpu me (thread_at ?s1 t) = target_cpu me (thread_at s t)"
    "sched_rq_for_cpu c ?s1 = sched_rq_for_cpu c s" for c
    by (simp_all add: target_cpu_def sched_rq_for_cpu_def)
  then have "sched_rq_for_cpu (target_cpu me (thread_at ?s1 t)) ?s1 = Some r" using t(1) by (simp add: sleeper_def)
  ultimately obtain s' where s': "sched_enqueue me t ?s1 = Some ((), s')" "sched_inv s' (upd_qs r l (qs r l @ [t]) qs)"
    "t_state (thread_at s' t) = THREAD_READY"
    using sched_enqueue_inv [of ?s1 qs t l me r] t by (auto simp: sleeper_def)
  have "sched_wake me t s = Some ((), s')" using locked s'(1) by (simp add: sched_wake_def)
  with s' sched_enqueue_frame [OF s'(1)] show ?thesis by auto
qed

lemma sleeper_cong:
  assumes "unlinked (thread_at s' t) = unlinked (thread_at s t)" and "nr_cpus s' = nr_cpus s"
  shows "sleeper me r l s' t = sleeper me r l s t"
  using unlinked_fields [OF assms(1)] assms(2) by (simp add: sleeper_def sched_rq_for_cpu_def target_cpu_def)

text \<open>Each of \<open>ts\<close> goes to the end of level \<open>l t\<close> of run queue \<open>r t\<close>, in this order.\<close>

definition queue_all :: "(u64 \<Rightarrow> nat) \<Rightarrow> (u64 \<Rightarrow> nat) \<Rightarrow> u64 list \<Rightarrow> (nat \<Rightarrow> nat \<Rightarrow> u64 list) \<Rightarrow> nat \<Rightarrow> nat \<Rightarrow> u64 list" where
  "queue_all r l ts qs = (\<lambda>i k. qs i k @ filter (\<lambda>t. r t = i \<and> l t = k) ts)"

lemma queue_all_Nil [simp]: "queue_all r l [] qs = qs"
  by (simp add: queue_all_def)

lemma queue_all_Cons: "queue_all r l (t # ts) qs = queue_all r l ts (upd_qs (r t) (l t) (qs (r t) (l t) @ [t]) qs)"
  by (auto simp: queue_all_def upd_qs_apply fun_eq_iff)

lemma queued_queue_all: "queued (queue_all r l ts qs) \<subseteq> queued qs \<union> set ts"
  by (auto simp: queued_def queue_all_def)

text \<open>The loop of \<^verbatim>\<open>waitqueue_wake_all\<close> over a detached chain of nodes.\<close>

lemma wake_loop_inv:
  fixes s :: "'b wsched_scheme"
  assumes "chain (wnext s) n ts" and "distinct ts" and "sched_inv s qs" and "set ts \<inter> queued qs = {}"
    and "\<forall>t \<in> set ts. sleeper me (r t) (l t) s t \<and> wn_thread (node_at s t) = t"
  shows "\<exists>s'. wake_loop me n s = Some ((), s') \<and> sched_inv s' (queue_all r l ts qs) \<and>
    (\<forall>t \<in> set ts. woken (node_at s' t) \<and> t_state (thread_at s' t) = THREAD_READY) \<and> wq_at s' = wq_at s \<and>
    nr_cpus s' = nr_cpus s \<and> wsched.more s' = wsched.more s \<and>
    (\<forall>a. a \<notin> set ts \<longrightarrow> node_at s' a = node_at s a \<and> unlinked (thread_at s' a) = unlinked (thread_at s a))"
  using assms
proof (induction ts arbitrary: n s qs)
  case Nil
  then show ?case by (subst wake_loop.simps) simp
next
  case (Cons t ts)
  let ?s1 = "upd_node t (\<lambda>x. x\<lparr>woken := True, wn_next := NULL, wn_prev := NULL\<rparr>) s"
  let ?qs = "upd_qs (r t) (l t) (qs (r t) (l t) @ [t]) qs"
  have n: "n = t" "t \<noteq> NULL" and t: "sleeper me (r t) (l t) s t" "wn_thread (node_at s t) = t" using Cons.prems(1,5) by auto
  have "sleeper me (r t) (l t) ?s1 t" using t(1) by (simp add: sleeper_cong [of ?s1 t s])
  then obtain s2 where s2: "sched_wake me t ?s1 = Some ((), s2)" "sched_inv s2 ?qs"
    "t_state (thread_at s2 t) = THREAD_READY" "node_at s2 = node_at ?s1" "wq_at s2 = wq_at ?s1" "nr_cpus s2 = nr_cpus s"
    "wsched.more s2 = wsched.more s" "\<And>a. a \<noteq> t \<Longrightarrow> unlinked (thread_at s2 a) = unlinked (thread_at s a)"
    using sched_wake_inv [of ?s1 qs me "r t" "l t" t] Cons.prems(3,4) by auto
  have "t \<notin> set ts" using Cons.prems(2) by simp
  then have ne: "a \<noteq> t" if "a \<in> set ts" for a using that by auto
  have "chain (wnext s2) (wnext s t) ts"
    using chain_cong [of ts "wnext s2" "wnext s"] Cons.prems(1) s2(4) ne by simp
  moreover have "set ts \<inter> queued ?qs = {}"
    using queued_queue_all [of r l "[t]" qs] Cons.prems(4) \<open>t \<notin> set ts\<close> by (auto simp: queue_all_Cons)
  moreover have "\<forall>a \<in> set ts. sleeper me (r a) (l a) s2 a \<and> wn_thread (node_at s2 a) = a"
    using Cons.prems(5) s2(4) ne sleeper_cong [OF s2(8) s2(6)] by simp
  ultimately obtain s' where s': "wake_loop me (wnext s t) s2 = Some ((), s')" "sched_inv s' (queue_all r l ts ?qs)"
    "\<forall>a \<in> set ts. woken (node_at s' a) \<and> t_state (thread_at s' a) = THREAD_READY" "wq_at s' = wq_at s2"
    "nr_cpus s' = nr_cpus s2" "wsched.more s' = wsched.more s2"
    "\<forall>a. a \<notin> set ts \<longrightarrow> node_at s' a = node_at s2 a \<and> unlinked (thread_at s' a) = unlinked (thread_at s2 a)"
    using Cons.IH [OF _ distinct_tl [OF Cons.prems(2), simplified] s2(2)] by blast
  have "wake_loop me n s = Some ((), s')"
    using s'(1) s2(1) n t(2) by (subst wake_loop.simps) (simp add: Let_def)
  moreover have "woken (node_at s' t) \<and> t_state (thread_at s' t) = THREAD_READY"
    using s'(7) \<open>t \<notin> set ts\<close> s2(3,4) unlinked_fields(2) [of "thread_at s' t" "thread_at s2 t"] by simp
  moreover have "node_at s' a = node_at s a \<and> unlinked (thread_at s' a) = unlinked (thread_at s a)" if "a \<notin> set (t # ts)" for a
    using s'(7) s2(4) s2(8) [of a] that by simp
  ultimately show ?case using s' s2(5-7) by (auto simp: queue_all_Cons)
qed

lemma wake_all_inv:
  fixes s :: "'b wsched_scheme"
  assumes "sched_inv s qs" and "lock_free (wq_lock (wq_at s w))" and "wqrepr w s ts"
    and "\<forall>t \<in> set ts. sleeper me (r t) (l t) s t \<and> wn_thread (node_at s t) = t \<and> t \<notin> queued qs"
  obtains s' where "waitqueue_wake_all me w s = Some ((), s')" "sched_inv s' (queue_all r l ts qs)"
    "\<And>t. t \<in> set ts \<Longrightarrow> woken (node_at s' t) \<and> t_state (thread_at s' t) = THREAD_READY"
    "wq_at s' = (wq_at s)(w := (wq_at s w)\<lparr>wq_head := NULL, wq_tail := NULL\<rparr>)"
    "nr_cpus s' = nr_cpus s" "wsched.more s' = wsched.more s"
    "\<And>a. a \<notin> set ts \<Longrightarrow> node_at s' a = node_at s a \<and> unlinked (thread_at s' a) = unlinked (thread_at s a)"
proof -
  let ?s1 = "upd_wq w (\<lambda>q. q\<lparr>wq_lock := (wq_lock (wq_at s w))\<lparr>locked := 1, owner := int me\<rparr>\<rparr>) s"
  let ?s2 = "release_wq me w (upd_wq w (\<lambda>q. q\<lparr>wq_head := NULL, wq_tail := NULL\<rparr>) ?s1)"
  have acq: "acquire_wq me w s = Some ?s1" using assms(2) by (simp add: acquire_wq_def)
  have d: "dll (wnext s) (wprev s) (wq_head (wq_at s w)) ts (wq_tail (wq_at s w))" using assms(3) by (simp add: wqrepr_def)
  have c: "chain (wnext ?s2) (wq_head (wq_at s w)) ts" using d by (auto simp: release_wq_def dll_def dest: dseg_chain)
  have keep: "thread_at ?s2 = thread_at s" "nr_cpus ?s2 = nr_cpus s" "node_at ?s2 = node_at s" "wsched.more ?s2 = wsched.more s"
    by (simp_all add: release_wq_def)
  have inv: "sched_inv ?s2 qs" using assms(1) by (simp add: release_wq_def)
  have wq: "wq_at ?s2 = (wq_at s)(w := (wq_at s w)\<lparr>wq_head := NULL, wq_tail := NULL\<rparr>)"
    using assms(2) by (simp add: release_wq_def)
  have "sleeper me a b ?s2 t = sleeper me a b s t" for t a b by (rule sleeper_cong) (simp_all add: keep)
  then have sl: "\<forall>t \<in> set ts. sleeper me (r t) (l t) ?s2 t \<and> wn_thread (node_at ?s2 t) = t"
    using assms(4) keep(3) by simp
  have "set ts \<inter> queued qs = {}" using assms(4) by auto
  from wake_loop_inv [OF c dll_distinct [OF d] inv this sl] obtain s' where
    s': "wake_loop me (wq_head (wq_at s w)) ?s2 = Some ((), s')" "sched_inv s' (queue_all r l ts qs)"
      "\<forall>t \<in> set ts. woken (node_at s' t) \<and> t_state (thread_at s' t) = THREAD_READY" "wq_at s' = wq_at ?s2"
      "nr_cpus s' = nr_cpus ?s2" "wsched.more s' = wsched.more ?s2"
      "\<forall>a. a \<notin> set ts \<longrightarrow> node_at s' a = node_at ?s2 a \<and> unlinked (thread_at s' a) = unlinked (thread_at ?s2 a)"
    by blast
  have "waitqueue_wake_all me w s = Some ((), s')" using acq s'(1) by (simp add: waitqueue_wake_all_def)
  then show thesis by (rule that [OF _ s'(2)]) (use s' keep wq in simp_all)
qed

section \<open>Properties\<close>

text \<open>
  \<open>waitqueue_wake_one\<close> wakes the thread that has waited longest: it returns, the head leaves the queue
  and the others keep their order, its node is marked woken, and it is READY at the end of its level of
  the run queue of its CPU, with the scheduler's invariant intact; a queue without waiters is left as it
  is.
\<close>
theorem wake_one_fifo:
  fixes s :: "'b wsched_scheme"
  assumes "sched_inv s qs" and "lock_free (wq_lock (wq_at s w))" and "wqrepr w s ts"
    and "\<forall>t \<in> set ts. sleeper me r l s t \<and> wn_thread (node_at s t) = t \<and> t \<notin> queued qs"
  shows "case ts of
      [] \<Rightarrow> waitqueue_wake_one me w s = Some ((), s)
    | t # us \<Rightarrow> \<exists>s'. waitqueue_wake_one me w s = Some ((), s') \<and> wqrepr w s' us \<and> woken (node_at s' t) \<and>
        t_state (thread_at s' t) = THREAD_READY \<and> sched_inv s' (upd_qs r l (qs r l @ [t]) qs) \<and>
        lock_free (wq_lock (wq_at s' w))"
proof -
  let ?s1 = "upd_wq w (\<lambda>q. q\<lparr>wq_lock := (wq_lock (wq_at s w))\<lparr>locked := 1, owner := int me\<rparr>\<rparr>) s"
  have acq: "acquire_wq me w s = Some ?s1" using assms(2) by (simp add: acquire_wq_def)
  have r1: "wqrepr w ?s1 ts" using assms(3) by (simp add: wqrepr_def)
  show ?thesis
  proof (cases ts)
    case Nil
    then have "wq_head (wq_at ?s1 w) = NULL" using wqrepr_head [OF r1] by simp
    moreover have "release_wq me w ?s1 = s" using assms(2) by (simp add: release_wq_def upd_wq_def)
    ultimately show ?thesis using acq Nil by (simp add: waitqueue_wake_one_def)
  next
    case (Cons t us)
    then have h: "wq_head (wq_at ?s1 w) = t" "t \<noteq> NULL" using wqrepr_head [OF r1] wqrepr_not_NULL [OF r1] by auto
    let ?s2 = "wq_unlink w t ?s1" and ?s3 = "release_wq me w (upd_node t (\<lambda>x. x\<lparr>woken := True\<rparr>) (wq_unlink w t ?s1))"
    have r2: "wqrepr w ?s2 us" using wqrepr_unlink [of w ?s1 "[]" t us] r1 Cons by simp
    have keep: "thread_at ?s2 = thread_at s" "runqueues ?s2 = runqueues s" "nr_cpus ?s2 = nr_cpus s"
      "wn_thread (node_at ?s2 t) = wn_thread (node_at s t)" "wq_lock (wq_at ?s2 w) = wq_lock (wq_at ?s1 w)"
      by (simp_all add: wq_unlink_def Let_def)
    have "sched_inv ?s2 = sched_inv ?s1"
      unfolding wq_unlink_def Let_def by (simp split: if_split)
    then have "sched_inv ?s3 qs" using assms(1) by (simp add: release_wq_def)
    moreover have "sleeper me r l ?s3 t = sleeper me r l s t"
      by (rule sleeper_cong) (simp_all add: release_wq_def keep)
    ultimately obtain s' where s': "sched_wake me t ?s3 = Some ((), s')" "sched_inv s' (upd_qs r l (qs r l @ [t]) qs)"
      "t_state (thread_at s' t) = THREAD_READY" "node_at s' = node_at ?s3" "wq_at s' = wq_at ?s3"
      using sched_wake_inv [of ?s3 qs me r l t] assms(4) Cons by auto
    have "waitqueue_wake_one me w s = Some ((), s')"
      using acq h s'(1) keep(4) assms(4) Cons by (simp add: waitqueue_wake_one_def Let_def)
    moreover have "wqrepr w s' us"
      using r2 s'(4,5) unfolding wqrepr_def
      by (subst dll_cong [where n = "wnext ?s2" and p = "wprev ?s2"]) (auto simp: release_wq_def)
    moreover have "woken (node_at s' t)" "lock_free (wq_lock (wq_at s' w))"
      using s'(4,5) keep(5) assms(2) by (simp_all add: release_wq_def)
    ultimately show ?thesis using Cons s'(2,3) by auto
  qed
qed

text \<open>A thread at \<^verbatim>\<open>0x2000\<close> sleeps on the wait queue at \<^verbatim>\<open>0x9000\<close>.\<close>

definition one_sleeper :: wsched where
  "one_sleeper =
     upd_thread 0x2000 (\<lambda>x. x\<lparr>t_state := THREAD_BLOCKED, last_cpu := 0\<rparr>)
       (sched_init 0x1000 (sched.extend blank_sched
         \<lparr>node_at = (\<lambda>n. \<lparr>wn_next = 0, wn_prev = 0, wn_thread = n, woken = False\<rparr>),
          wq_at = (\<lambda>_. \<lparr>wq_lock = SPINLOCK_INIT, wq_head = 0x2000, wq_tail = 0x2000\<rparr>)\<rparr>))"

lemma one_sleeper_facts:
  "sched_inv one_sleeper (\<lambda>_ _. [])" "lock_free (wq_lock (wq_at one_sleeper 0x9000))"
  "wqrepr 0x9000 one_sleeper [0x2000]"
  "sleeper 0 0 0 one_sleeper 0x2000" "wn_thread (node_at one_sleeper 0x2000) = 0x2000"
  by (auto simp: one_sleeper_def sched_init_def attach_cpu_def sched_fpu_init_def runqueue_init_one_def Let_def
      blank_sched_def blank_thread_def blank_rq_def blank_cpu_def sched_inv_def qs_rel_def qrepr_def waiting_def
      wqrepr_def dll_def sleeper_def sched_rq_for_cpu_def target_cpu_def sched.extend_def
      upd_thread_def upd_rq_def upd_cpu_def)

theorem wake_one_fifo_witness:
  "\<exists>s'. waitqueue_wake_one 0 0x9000 one_sleeper = Some ((), s') \<and> t_state (thread_at s' 0x2000) = THREAD_READY"
proof -
  have "\<forall>t \<in> set [0x2000]. sleeper 0 0 0 one_sleeper t \<and> wn_thread (node_at one_sleeper t) = t \<and> t \<notin> queued (\<lambda>_ _. [])"
    using one_sleeper_facts(4,5) by (simp add: queued_def)
  from wake_one_fifo [OF one_sleeper_facts(1-3) this] show ?thesis by auto
qed

text \<open>
  C33. \<open>waitqueue_wake_all\<close> returns and wakes everybody: all waiters are marked woken and READY, the wait queue is empty, and each waiter
  is at the end of its own level of the run queue of its own CPU, where those that share a level keep the order in which they waited. The
  waiters are blocked threads in no run queue, whose CPU exists.
\<close>
theorem wake_all_wakes_everybody:
  fixes s :: "'b wsched_scheme"
  assumes "sched_inv s qs" and "lock_free (wq_lock (wq_at s w))" and "wqrepr w s ts"
    and "\<forall>t \<in> set ts. sleeper me (r t) (l t) s t \<and> wn_thread (node_at s t) = t \<and> t \<notin> queued qs"
  shows "\<exists>s'. waitqueue_wake_all me w s = Some ((), s') \<and> wqrepr w s' [] \<and>
    (\<forall>t \<in> set ts. woken (node_at s' t) \<and> t_state (thread_at s' t) = THREAD_READY) \<and>
    sched_inv s' (\<lambda>i k. qs i k @ filter (\<lambda>t. r t = i \<and> l t = k) ts)"
proof -
  obtain s' where s': "waitqueue_wake_all me w s = Some ((), s')" "sched_inv s' (queue_all r l ts qs)"
    "\<And>t. t \<in> set ts \<Longrightarrow> woken (node_at s' t) \<and> t_state (thread_at s' t) = THREAD_READY"
    "wq_at s' = (wq_at s)(w := (wq_at s w)\<lparr>wq_head := NULL, wq_tail := NULL\<rparr>)"
    using wake_all_inv [OF assms] by metis
  then have "wqrepr w s' []" by (simp add: wqrepr_def)
  with s'(1-3) show ?thesis unfolding queue_all_def by blast
qed

text \<open>Two waiters on the queue at \<^verbatim>\<open>0x9000\<close>: \<^verbatim>\<open>0x2000\<close> of priority 0 and \<^verbatim>\<open>0x3000\<close> of priority 3.\<close>

definition two_sleepers :: wsched where
  "two_sleepers =
     upd_thread 0x2000 (\<lambda>x. x\<lparr>t_state := THREAD_BLOCKED, last_cpu := 0\<rparr>)
      (upd_thread 0x3000 (\<lambda>x. x\<lparr>t_state := THREAD_BLOCKED, last_cpu := 0, priority_level := 3\<rparr>)
       (sched_init 0x1000 (sched.extend blank_sched
         \<lparr>node_at = (\<lambda>n. \<lparr>wn_next = if n = 0x2000 then 0x3000 else 0, wn_prev = if n = 0x3000 then 0x2000 else 0,
            wn_thread = n, woken = False\<rparr>),
          wq_at = (\<lambda>_. \<lparr>wq_lock = SPINLOCK_INIT, wq_head = 0x2000, wq_tail = 0x3000\<rparr>)\<rparr>)))"

lemma two_sleepers_facts:
  "sched_inv two_sleepers (\<lambda>_ _. [])" "lock_free (wq_lock (wq_at two_sleepers 0x9000))"
  "wqrepr 0x9000 two_sleepers [0x2000, 0x3000]"
  "sleeper 0 0 0 two_sleepers 0x2000" "sleeper 0 0 3 two_sleepers 0x3000" "wn_thread (node_at two_sleepers t) = t"
  by (auto simp: two_sleepers_def sched_init_def attach_cpu_def sched_fpu_init_def runqueue_init_one_def Let_def
      blank_sched_def blank_thread_def blank_rq_def blank_cpu_def sched_inv_def qs_rel_def qrepr_def waiting_def
      wqrepr_def dll_def sleeper_def sched_rq_for_cpu_def target_cpu_def sched.extend_def
      upd_thread_def upd_rq_def upd_cpu_def)

theorem wake_all_wakes_everybody_witness:
  "\<exists>s' qs. waitqueue_wake_all 0 0x9000 two_sleepers = Some ((), s') \<and> woken (node_at s' 0x2000) \<and> woken (node_at s' 0x3000) \<and>
     sched_inv s' qs \<and> qs 0 0 = [0x2000] \<and> qs 0 3 = [0x3000]"
proof -
  let ?l = "\<lambda>t :: u64. if t = 0x2000 then 0 else 3 :: nat"
  have "\<forall>t \<in> set [0x2000, 0x3000]. sleeper 0 0 (?l t) two_sleepers t \<and> wn_thread (node_at two_sleepers t) = t \<and> t \<notin> queued (\<lambda>_ _. [])"
    using two_sleepers_facts(4-6) by (simp add: queued_def)
  from wake_all_wakes_everybody [where r = "\<lambda>_. 0" and l = ?l, OF two_sleepers_facts(1-3) this] show ?thesis by fastforce
qed

end
