(* ===== verification/Rbtree.thy ===== *)
theory Rbtree
  imports Lapis_Prelude
begin

text \<open>
  The red-black tree of \<^verbatim>\<open>util/rbtree.c\<close>: nodes with parent pointers that live inside the objects
  they order. The state is the tree header, root and size, and the nodes by address; \<open>None\<close> says
  that the code goes through a null pointer or does not come back. The comparison function is an
  argument, as it is a field of the header in the source.

  The source writes each rebalancing step twice, once for each side. Here a step has the side as an
  argument \<open>d\<close>: the case \<open>Lft\<close> is the branch for a left child and \<open>Rgt\<close> the mirrored one.
\<close>

section \<open>Data\<close>

datatype rb_color = RB_BLACK | RB_RED

record rb_node =
  rb_parent :: u64
  rb_left :: u64
  rb_right :: u64
  rb_colour :: rb_color

record rb_tree =
  rb_root :: u64
  rb_size :: u64
  rb_at :: "u64 \<Rightarrow> rb_node"

datatype side = Lft | Rgt

fun opp :: "side \<Rightarrow> side" where
  "opp Lft = Rgt"
| "opp Rgt = Lft"

fun child :: "side \<Rightarrow> rb_node \<Rightarrow> u64" where
  "child Lft n = rb_left n"
| "child Rgt n = rb_right n"

fun set_child :: "side \<Rightarrow> u64 \<Rightarrow> rb_node \<Rightarrow> rb_node" where
  "set_child Lft p n = n\<lparr>rb_left := p\<rparr>"
| "set_child Rgt p n = n\<lparr>rb_right := p\<rparr>"

definition rb_get :: "u64 \<Rightarrow> (rb_node \<Rightarrow> 'a) \<Rightarrow> rb_tree \<Rightarrow> 'a option" where
  "rb_get p f s = (if p = NULL then None else Some (f (rb_at s p)))"

definition rb_put :: "u64 \<Rightarrow> (rb_node \<Rightarrow> rb_node) \<Rightarrow> rb_tree \<Rightarrow> rb_tree option" where
  "rb_put p f s = (if p = NULL then None else Some (s\<lparr>rb_at := (rb_at s)(p := f (rb_at s p))\<rparr>))"

section \<open>Colours and rotations\<close>

definition rb_node_color :: "u64 \<Rightarrow> rb_tree \<Rightarrow> rb_color" where
  "rb_node_color p s = (if p = NULL then RB_BLACK else rb_colour (rb_at s p))"

definition is_red :: "u64 \<Rightarrow> rb_tree \<Rightarrow> bool" where
  "is_red p s \<longleftrightarrow> p \<noteq> NULL \<and> rb_colour (rb_at s p) = RB_RED"

definition paint :: "u64 \<Rightarrow> rb_color \<Rightarrow> rb_tree \<Rightarrow> rb_tree option" where
  "paint p c = rb_put p (\<lambda>n. n\<lparr>rb_colour := c\<rparr>)"

definition replace_child :: "u64 \<Rightarrow> u64 \<Rightarrow> u64 \<Rightarrow> rb_tree \<Rightarrow> rb_tree option" where
  "replace_child parent old_child new_child s =
     do {
       s \<leftarrow> (if parent = NULL then Some (s\<lparr>rb_root := new_child\<rparr>)
             else if rb_left (rb_at s parent) = old_child then rb_put parent (set_child Lft new_child) s
             else rb_put parent (set_child Rgt new_child) s);
       if new_child \<noteq> NULL then rb_put new_child (\<lambda>n. n\<lparr>rb_parent := parent\<rparr>) s else Some s }"

text \<open>\<open>rotate Lft\<close> is \<^verbatim>\<open>_rotate_left\<close> and \<open>rotate Rgt\<close> is \<^verbatim>\<open>_rotate_right\<close>.\<close>

definition rotate :: "side \<Rightarrow> u64 \<Rightarrow> rb_tree \<Rightarrow> rb_tree option" where
  "rotate d node s =
     do {
       r \<leftarrow> rb_get node (child (opp d)) s;
       rl \<leftarrow> rb_get r (child d) s;
       s \<leftarrow> rb_put r (set_child d node) s;
       s \<leftarrow> rb_put node (set_child (opp d) rl) s;
       s \<leftarrow> (if rl \<noteq> NULL then rb_put rl (\<lambda>n. n\<lparr>rb_parent := node\<rparr>) s else Some s);
       np \<leftarrow> rb_get node rb_parent s;
       s \<leftarrow> rb_put r (\<lambda>n. n\<lparr>rb_parent := np\<rparr>) s;
       np \<leftarrow> rb_get node rb_parent s;
       s \<leftarrow> replace_child np node r s;
       rb_put node (\<lambda>n. n\<lparr>rb_parent := r\<rparr>) s }"

section \<open>Insertion\<close>

partial_function (option) insert_fixup :: "u64 \<Rightarrow> rb_tree \<Rightarrow> rb_tree option" where
  "insert_fixup node s =
     do {
       p \<leftarrow> rb_get node rb_parent s;
       if \<not> is_red p s then paint (rb_root s) RB_BLACK s
       else do {
         g \<leftarrow> rb_get p rb_parent s;
         gl \<leftarrow> rb_get g rb_left s;
         let d = (if p = gl then Lft else Rgt);
         uncle \<leftarrow> rb_get g (child (opp d)) s;
         if is_red uncle s
         then do {
           s \<leftarrow> paint p RB_BLACK s;
           s \<leftarrow> paint uncle RB_BLACK s;
           s \<leftarrow> paint g RB_RED s;
           insert_fixup g s }
         else do {
           inner \<leftarrow> rb_get p (child (opp d)) s;
           (node, s) \<leftarrow> (if node = inner then do { s \<leftarrow> rotate d p s; Some (p, s) } else Some (node, s));
           p \<leftarrow> rb_get node rb_parent s;
           s \<leftarrow> paint p RB_BLACK s;
           g \<leftarrow> rb_get p rb_parent s;
           s \<leftarrow> paint g RB_RED s;
           s \<leftarrow> rotate (opp d) g s;
           insert_fixup node s } } }"

text \<open>
  The search for the place of a new node. \<open>link\<close> says where the null pointer was found: in the root
  of the tree, or on a side of \<open>parent\<close>. The result \<open>None\<close> inside is an equal key.
\<close>

partial_function (option) insert_walk ::
  "(u64 \<Rightarrow> u64 \<Rightarrow> int) \<Rightarrow> u64 \<Rightarrow> u64 \<Rightarrow> u64 \<Rightarrow> side option \<Rightarrow> rb_tree \<Rightarrow> (u64 \<times> side option) option option" where
  "insert_walk compare node cur parent link s =
     (if cur = NULL then Some (Some (parent, link))
      else let cmp = compare node cur in
        if cmp < 0 then insert_walk compare node (rb_left (rb_at s cur)) cur (Some Lft) s
        else if 0 < cmp then insert_walk compare node (rb_right (rb_at s cur)) cur (Some Rgt) s
        else Some None)"

definition rb_insert :: "(u64 \<Rightarrow> u64 \<Rightarrow> int) \<Rightarrow> u64 \<Rightarrow> rb_tree \<Rightarrow> (int \<times> rb_tree) option" where
  "rb_insert compare node s =
     do {
       w \<leftarrow> insert_walk compare node (rb_root s) NULL None s;
       case w of None \<Rightarrow> Some (-1, s)
       | Some (parent, link) \<Rightarrow> do {
           s \<leftarrow> rb_put node (\<lambda>_. \<lparr>rb_parent = parent, rb_left = NULL, rb_right = NULL, rb_colour = RB_RED\<rparr>) s;
           s \<leftarrow> (case link of None \<Rightarrow> Some (s\<lparr>rb_root := node\<rparr>) | Some d \<Rightarrow> rb_put parent (set_child d node) s);
           s \<leftarrow> insert_fixup node (s\<lparr>rb_size := rb_size s + 1\<rparr>);
           Some (0, s) } }"

section \<open>Removal\<close>

definition transplant :: "u64 \<Rightarrow> u64 \<Rightarrow> rb_tree \<Rightarrow> rb_tree option" where
  "transplant u v s =
     do {
       up \<leftarrow> rb_get u rb_parent s;
       s \<leftarrow> replace_child up u v s;
       if v \<noteq> NULL then do { up \<leftarrow> rb_get u rb_parent s; rb_put v (\<lambda>n. n\<lparr>rb_parent := up\<rparr>) s } else Some s }"

partial_function (option) remove_fixup :: "u64 \<Rightarrow> u64 \<Rightarrow> rb_tree \<Rightarrow> rb_tree option" where
  "remove_fixup node parent s =
     (if (node = NULL \<or> rb_colour (rb_at s node) = RB_BLACK) \<and> node \<noteq> rb_root s
      then do {
        pl \<leftarrow> rb_get parent rb_left s;
        let d = (if node = pl then Lft else Rgt);
        sibling \<leftarrow> rb_get parent (child (opp d)) s;
        (sibling, s) \<leftarrow>
          (if is_red sibling s
           then do {
             s \<leftarrow> paint sibling RB_BLACK s;
             s \<leftarrow> paint parent RB_RED s;
             s \<leftarrow> rotate d parent s;
             sibling \<leftarrow> rb_get parent (child (opp d)) s;
             Some (sibling, s) }
           else Some (sibling, s));
        sl \<leftarrow> rb_get sibling rb_left s;
        sr \<leftarrow> rb_get sibling rb_right s;
        if rb_node_color sl s = RB_BLACK \<and> rb_node_color sr s = RB_BLACK
        then do {
          s \<leftarrow> paint sibling RB_RED s;
          pp \<leftarrow> rb_get parent rb_parent s;
          remove_fixup parent pp s }
        else do {
          far \<leftarrow> rb_get sibling (child (opp d)) s;
          (sibling, s) \<leftarrow>
            (if rb_node_color far s = RB_BLACK
             then do {
               near \<leftarrow> rb_get sibling (child d) s;
               s \<leftarrow> paint near RB_BLACK s;
               s \<leftarrow> paint sibling RB_RED s;
               s \<leftarrow> rotate (opp d) sibling s;
               sibling \<leftarrow> rb_get parent (child (opp d)) s;
               Some (sibling, s) }
             else Some (sibling, s));
          pc \<leftarrow> rb_get parent rb_colour s;
          s \<leftarrow> paint sibling pc s;
          s \<leftarrow> paint parent RB_BLACK s;
          far \<leftarrow> rb_get sibling (child (opp d)) s;
          s \<leftarrow> (if far \<noteq> NULL then paint far RB_BLACK s else Some s);
          s \<leftarrow> rotate d parent s;
          remove_fixup (rb_root s) parent s } }
      else if node \<noteq> NULL then paint node RB_BLACK s else Some s)"

text \<open>\<open>descend d\<close> is the loop that follows the children on one side to the end.\<close>

partial_function (option) descend :: "side \<Rightarrow> u64 \<Rightarrow> rb_tree \<Rightarrow> u64 option" where
  "descend d p s =
     (if p = NULL then None
      else if child d (rb_at s p) = NULL then Some p else descend d (child d (rb_at s p)) s)"

definition rb_remove :: "u64 \<Rightarrow> rb_tree \<Rightarrow> rb_tree option" where
  "rb_remove node s =
     do {
       c \<leftarrow> rb_get node rb_colour s;
       l \<leftarrow> rb_get node rb_left s;
       r \<leftarrow> rb_get node rb_right s;
       np \<leftarrow> rb_get node rb_parent s;
       (y_orig_color, x, x_parent, s) \<leftarrow>
         (if l = NULL then do { s \<leftarrow> transplant node r s; Some (c, r, np, s) }
          else if r = NULL then do { s \<leftarrow> transplant node l s; Some (c, l, np, s) }
          else do {
            y \<leftarrow> descend Lft r s;
            yc \<leftarrow> rb_get y rb_colour s;
            x \<leftarrow> rb_get y rb_right s;
            yp \<leftarrow> rb_get y rb_parent s;
            (x_parent, s) \<leftarrow>
              (if yp = node then Some (y, s)
               else do {
                 yr \<leftarrow> rb_get y rb_right s;
                 s \<leftarrow> transplant y yr s;
                 nr \<leftarrow> rb_get node rb_right s;
                 s \<leftarrow> rb_put y (set_child Rgt nr) s;
                 s \<leftarrow> rb_put nr (\<lambda>n. n\<lparr>rb_parent := y\<rparr>) s;
                 Some (yp, s) });
            s \<leftarrow> transplant node y s;
            nl \<leftarrow> rb_get node rb_left s;
            s \<leftarrow> rb_put y (set_child Lft nl) s;
            s \<leftarrow> rb_put nl (\<lambda>n. n\<lparr>rb_parent := y\<rparr>) s;
            nc \<leftarrow> rb_get node rb_colour s;
            s \<leftarrow> paint y nc s;
            Some (yc, x, x_parent, s) });
       let s = s\<lparr>rb_size := rb_size s - 1\<rparr>;
       if y_orig_color = RB_BLACK then remove_fixup x x_parent s else Some s }"

section \<open>Search and traversal\<close>

partial_function (option) find_loop :: "(u64 \<Rightarrow> u64 \<Rightarrow> int) \<Rightarrow> u64 \<Rightarrow> u64 \<Rightarrow> rb_tree \<Rightarrow> u64 option" where
  "find_loop compare key current s =
     (if current = NULL then Some NULL
      else let cmp = compare key current in
        if cmp < 0 then find_loop compare key (rb_left (rb_at s current)) s
        else if 0 < cmp then find_loop compare key (rb_right (rb_at s current)) s
        else Some current)"

definition rb_find :: "(u64 \<Rightarrow> u64 \<Rightarrow> int) \<Rightarrow> u64 \<Rightarrow> rb_tree \<Rightarrow> u64 option" where
  "rb_find compare key s = find_loop compare key (rb_root s) s"

partial_function (option) lower_loop :: "(u64 \<Rightarrow> u64 \<Rightarrow> int) \<Rightarrow> u64 \<Rightarrow> u64 \<Rightarrow> u64 \<Rightarrow> rb_tree \<Rightarrow> u64 option" where
  "lower_loop compare key current result s =
     (if current = NULL then Some result
      else let cmp = compare key current in
        if cmp < 0 then lower_loop compare key (rb_left (rb_at s current)) current s
        else if 0 < cmp then lower_loop compare key (rb_right (rb_at s current)) result s
        else Some current)"

definition rb_lower_bound :: "(u64 \<Rightarrow> u64 \<Rightarrow> int) \<Rightarrow> u64 \<Rightarrow> rb_tree \<Rightarrow> u64 option" where
  "rb_lower_bound compare key s = lower_loop compare key (rb_root s) NULL s"

partial_function (option) upper_loop :: "(u64 \<Rightarrow> u64 \<Rightarrow> int) \<Rightarrow> u64 \<Rightarrow> u64 \<Rightarrow> u64 \<Rightarrow> rb_tree \<Rightarrow> u64 option" where
  "upper_loop compare key current result s =
     (if current = NULL then Some result
      else if compare key current < 0 then upper_loop compare key (rb_left (rb_at s current)) current s
      else upper_loop compare key (rb_right (rb_at s current)) result s)"

definition rb_upper_bound :: "(u64 \<Rightarrow> u64 \<Rightarrow> int) \<Rightarrow> u64 \<Rightarrow> rb_tree \<Rightarrow> u64 option" where
  "rb_upper_bound compare key s = upper_loop compare key (rb_root s) NULL s"

definition rb_first :: "rb_tree \<Rightarrow> u64 option" where
  "rb_first s = (if rb_root s = NULL then Some NULL else descend Lft (rb_root s) s)"

definition rb_last :: "rb_tree \<Rightarrow> u64 option" where
  "rb_last s = (if rb_root s = NULL then Some NULL else descend Rgt (rb_root s) s)"

partial_function (option) climb :: "side \<Rightarrow> u64 \<Rightarrow> u64 \<Rightarrow> rb_tree \<Rightarrow> u64 option" where
  "climb d node parent s =
     (if parent \<noteq> NULL \<and> node = child d (rb_at s parent) then climb d parent (rb_parent (rb_at s parent)) s
      else Some parent)"

text \<open>\<open>neighbour Rgt\<close> is \<^verbatim>\<open>rb_next\<close> and \<open>neighbour Lft\<close> is \<^verbatim>\<open>rb_prev\<close>.\<close>

definition neighbour :: "side \<Rightarrow> u64 \<Rightarrow> rb_tree \<Rightarrow> u64 option" where
  "neighbour d node s =
     do {
       c \<leftarrow> rb_get node (child d) s;
       if c \<noteq> NULL then descend (opp d) c s
       else do { p \<leftarrow> rb_get node rb_parent s; climb d node p s } }"

definition rb_next :: "u64 \<Rightarrow> rb_tree \<Rightarrow> u64 option" where
  "rb_next = neighbour Rgt"

definition rb_prev :: "u64 \<Rightarrow> rb_tree \<Rightarrow> u64 option" where
  "rb_prev = neighbour Lft"

end
