(* ===== verification/Rbtree_Zipper.thy ===== *)
theory Rbtree_Zipper
  imports Rbtree
begin

text \<open>
  What the nodes of a red-black tree in memory represent: a tree of addresses and colours, seen from
  one of its subtrees. A \<open>frame\<close> is the parent of the subtree in focus, with its other subtree; a list of
  frames leads up to the root. Painting, rotating and replacing are steps on this view, the same for
  both sides.
\<close>

section \<open>Trees and contexts\<close>

datatype ptree = Tip | Bin ptree u64 rb_color ptree

fun bin :: "side \<Rightarrow> u64 \<Rightarrow> rb_color \<Rightarrow> ptree \<Rightarrow> ptree \<Rightarrow> ptree" where
  "bin Lft a c x y = Bin x a c y"
| "bin Rgt a c x y = Bin y a c x"

fun addr :: "ptree \<Rightarrow> u64" where
  "addr Tip = NULL"
| "addr (Bin l a c r) = a"

fun addrs :: "ptree \<Rightarrow> u64 set" where
  "addrs Tip = {}"
| "addrs (Bin l a c r) = insert a (addrs l \<union> addrs r)"

fun colour :: "ptree \<Rightarrow> rb_color" where
  "colour Tip = RB_BLACK"
| "colour (Bin l a c r) = c"

fun inorder :: "ptree \<Rightarrow> u64 list" where
  "inorder Tip = []"
| "inorder (Bin l a c r) = inorder l @ a # inorder r"

text \<open>A tree without sharing and without null addresses.\<close>

fun apart :: "ptree \<Rightarrow> bool" where
  "apart Tip \<longleftrightarrow> True"
| "apart (Bin l a c r) \<longleftrightarrow> a \<noteq> NULL \<and> a \<notin> addrs l \<and> a \<notin> addrs r \<and> addrs l \<inter> addrs r = {} \<and> apart l \<and> apart r"

datatype frame = Frame side u64 rb_color ptree

fun frame_addr :: "frame \<Rightarrow> u64" where
  "frame_addr (Frame d a c y) = a"

fun up_addr :: "frame list \<Rightarrow> u64" where
  "up_addr [] = NULL"
| "up_addr (f # fs) = frame_addr f"

fun up_colour :: "frame list \<Rightarrow> rb_color" where
  "up_colour [] = RB_BLACK"
| "up_colour (Frame d a c y # fs) = c"

fun plug :: "frame list \<Rightarrow> ptree \<Rightarrow> ptree" where
  "plug [] t = t"
| "plug (Frame d a c y # fs) t = plug fs (bin d a c t y)"

fun ctx_addrs :: "frame list \<Rightarrow> u64 set" where
  "ctx_addrs [] = {}"
| "ctx_addrs (Frame d a c y # fs) = insert a (addrs y \<union> ctx_addrs fs)"

fun ctx_apart :: "frame list \<Rightarrow> bool" where
  "ctx_apart [] \<longleftrightarrow> True"
| "ctx_apart (Frame d a c y # fs) \<longleftrightarrow> a \<noteq> NULL \<and> a \<notin> addrs y \<and> a \<notin> ctx_addrs fs \<and> addrs y \<inter> ctx_addrs fs = {} \<and>
     apart y \<and> ctx_apart fs"

section \<open>Trees in memory\<close>

definition node_is :: "side \<Rightarrow> u64 \<Rightarrow> u64 \<Rightarrow> u64 \<Rightarrow> rb_color \<Rightarrow> rb_node \<Rightarrow> bool" where
  "node_is d par x y c n \<longleftrightarrow> rb_parent n = par \<and> child d n = x \<and> child (opp d) n = y \<and> rb_colour n = c"

fun tree_at :: "(u64 \<Rightarrow> rb_node) \<Rightarrow> u64 \<Rightarrow> ptree \<Rightarrow> bool" where
  "tree_at h par Tip \<longleftrightarrow> True"
| "tree_at h par (Bin l a c r) \<longleftrightarrow> node_is Lft par (addr l) (addr r) c (h a) \<and> tree_at h a l \<and> tree_at h a r"

fun ctx_at :: "(u64 \<Rightarrow> rb_node) \<Rightarrow> u64 \<Rightarrow> u64 \<Rightarrow> frame list \<Rightarrow> bool" where
  "ctx_at h root p [] \<longleftrightarrow> root = p"
| "ctx_at h root p (Frame d a c y # fs) \<longleftrightarrow> node_is d (up_addr fs) p (addr y) c (h a) \<and> tree_at h a y \<and> ctx_at h root a fs"

text \<open>The tree \<open>t\<close> in focus below the context \<open>fs\<close>.\<close>

definition focus :: "rb_tree \<Rightarrow> frame list \<Rightarrow> ptree \<Rightarrow> bool" where
  "focus s fs t \<longleftrightarrow> ctx_at (rb_at s) (rb_root s) (addr t) fs \<and> tree_at (rb_at s) (up_addr fs) t \<and>
     apart t \<and> ctx_apart fs \<and> addrs t \<inter> ctx_addrs fs = {}"

text \<open>What changes at most: the nodes in a set, and the root pointer.\<close>

definition within :: "u64 set \<Rightarrow> rb_tree \<Rightarrow> rb_tree \<Rightarrow> bool" where
  "within A s t \<longleftrightarrow> rb_size t = rb_size s \<and> (\<forall>q. q \<notin> A \<longrightarrow> rb_at t q = rb_at s q)"

lemma within_refl [simp]: "within A s s"
  by (simp add: within_def)

lemma within_trans: "within A s t \<Longrightarrow> within A t u \<Longrightarrow> within A s u"
  by (simp add: within_def)

lemma within_mono: "within A s t \<Longrightarrow> A \<subseteq> B \<Longrightarrow> within B s t"
  by (auto simp: within_def)

lemma within_chain: "within A s t \<Longrightarrow> within B t u \<Longrightarrow> A \<subseteq> C \<Longrightarrow> B \<subseteq> C \<Longrightarrow> within C s u"
  by (blast intro: within_trans within_mono)

subsection \<open>Both sides at once\<close>

lemma opp_opp [simp]: "opp (opp d) = d"
  by (cases d) simp_all

lemma opp_neq [simp]: "opp d \<noteq> d" "d \<noteq> opp d"
  by (cases d; simp)+

lemma other_side: "e \<noteq> d \<Longrightarrow> e = opp d"
  by (cases d; cases e) simp_all

lemma bin_opp: "bin (opp d) a c x y = bin d a c y x"
  by (cases d) simp_all

lemma bin_sel [simp]: "addr (bin d a c x y) = a" "colour (bin d a c x y) = c"
  "addrs (bin d a c x y) = insert a (addrs x \<union> addrs y)"
  by (cases d; auto)+

lemma bin_apart [simp]: "apart (bin d a c x y) \<longleftrightarrow>
    a \<noteq> NULL \<and> a \<notin> addrs x \<and> a \<notin> addrs y \<and> addrs x \<inter> addrs y = {} \<and> apart x \<and> apart y"
  by (cases d) auto

lemma node_is_opp: "node_is (opp d) par x y c n = node_is d par y x c n"
  by (auto simp: node_is_def)

lemma node_is_Lft: "node_is Lft par x y c n \<longleftrightarrow> rb_parent n = par \<and> rb_left n = x \<and> rb_right n = y \<and> rb_colour n = c"
  by (simp add: node_is_def)

lemma node_is_Rgt: "node_is Rgt par x y c n \<longleftrightarrow> rb_parent n = par \<and> rb_right n = x \<and> rb_left n = y \<and> rb_colour n = c"
  by (simp add: node_is_def)

lemma tree_at_bin [simp]:
  "tree_at h par (bin d a c x y) \<longleftrightarrow> node_is d par (addr x) (addr y) c (h a) \<and> tree_at h a x \<and> tree_at h a y"
  by (cases d) (auto simp: node_is_def)

lemma bin_exists: "\<exists>x y. Bin l a c r = bin d a c x y"
proof (cases d)
  case Lft
  then show ?thesis by (intro exI [of _ l] exI [of _ r]) simp
next
  case Rgt
  then show ?thesis by (intro exI [of _ r] exI [of _ l]) simp
qed

lemma bin_cases:
  obtains (Tip) "t = Tip" | (Bin) a c x y where "t = bin d a c x y"
  using bin_exists by (cases t) blast+

lemma bin_not_Tip [simp]: "bin d a c x y \<noteq> Tip" "Tip \<noteq> bin d a c x y"
  by (cases d; simp)+

lemma addr_in: "t \<noteq> Tip \<Longrightarrow> addr t \<in> addrs t"
  by (cases t) auto

lemma addr_NULL: "apart t \<Longrightarrow> addr t = NULL \<longleftrightarrow> t = Tip"
  by (cases t) auto

lemma NULL_notin: "apart t \<Longrightarrow> NULL \<notin> addrs t"
  by (induction t) auto

lemma NULL_ctx: "ctx_apart fs \<Longrightarrow> NULL \<notin> ctx_addrs fs"
proof (induction fs)
  case (Cons f fs)
  then show ?case using NULL_notin by (cases f) auto
qed simp

lemma child_set_child [simp]: "child d (set_child d p n) = p" "child (opp d) (set_child d p n) = child (opp d) n"
  "child d (set_child (opp d) p n) = child d n" "child (opp d) (set_child (opp d) p n) = p"
  "rb_parent (set_child d p n) = rb_parent n" "rb_colour (set_child d p n) = rb_colour n"
  by (cases d; simp)+

lemma child_update [simp]: "child d (n\<lparr>rb_parent := p\<rparr>) = child d n" "child d (n\<lparr>rb_colour := c\<rparr>) = child d n"
  by (cases d; simp)+

subsection \<open>Moving the focus\<close>

lemma focus_down: "focus s fs (bin d a c x y) \<longleftrightarrow> focus s (Frame d a c y # fs) x"
  unfolding focus_def by auto

lemma focus_plug: "focus s fs t \<longleftrightarrow> focus s [] (plug fs t)"
proof (induction fs arbitrary: t)
  case (Cons f fs)
  then show ?case by (cases f) (simp add: focus_down [symmetric])
qed simp

lemma addrs_plug [simp]: "addrs (plug fs t) = ctx_addrs fs \<union> addrs t"
proof (induction fs arbitrary: t)
  case (Cons f fs)
  then show ?case by (cases f) auto
qed simp

lemma plug_append: "plug (gs @ fs) t = plug fs (plug gs t)"
proof (induction gs arbitrary: t)
  case (Cons g gs)
  then show ?case by (cases g) simp
qed simp

lemma focus_node:
  assumes "focus s fs (bin d a c x y)"
  shows "a \<noteq> NULL" "rb_parent (rb_at s a) = up_addr fs" "child d (rb_at s a) = addr x" "child (opp d) (rb_at s a) = addr y"
    "rb_colour (rb_at s a) = c"
  using assms by (auto simp: focus_def node_is_def)

lemma focus_frame:
  assumes "focus s (Frame d a c y # fs) t"
  shows "a \<noteq> NULL" "rb_parent (rb_at s a) = up_addr fs" "child d (rb_at s a) = addr t" "child (opp d) (rb_at s a) = addr y"
    "rb_colour (rb_at s a) = c"
  using focus_node [of s fs d a c t y] assms by (simp_all add: focus_down)

lemma focus_root: "focus s [] t \<Longrightarrow> rb_root s = addr t"
  by (simp add: focus_def)

lemma is_red_colour: "focus s fs t \<Longrightarrow> is_red (addr t) s \<longleftrightarrow> colour t = RB_RED"
  using addr_NULL by (cases t) (auto simp: is_red_def focus_def node_is_def)

lemma node_color_colour: "focus s fs t \<Longrightarrow> rb_node_color (addr t) s = colour t"
  using addr_NULL by (cases t) (auto simp: rb_node_color_def focus_def node_is_def)

lemma is_red_top: "focus s fs t \<Longrightarrow> is_red (up_addr fs) s \<longleftrightarrow> up_colour fs = RB_RED"
  by (cases fs rule: up_colour.cases) (auto simp: is_red_def dest: focus_frame)

lemma side_of_frame:
  assumes "focus s (Frame d a c y # fs) t" and "addr t \<noteq> addr y"
  shows "(if addr t = rb_left (rb_at s a) then Lft else Rgt) = d"
  using focus_frame(3,4) [OF assms(1)] assms(2) by (cases d) auto

subsection \<open>What an update elsewhere leaves alone\<close>

lemma tree_at_cong: "(\<And>a. a \<in> addrs t \<Longrightarrow> h' a = h a) \<Longrightarrow> tree_at h' par t = tree_at h par t"
  by (induction t arbitrary: par) auto

lemma ctx_at_cong: "(\<And>a. a \<in> ctx_addrs fs \<Longrightarrow> h' a = h a) \<Longrightarrow> ctx_at h' root p fs = ctx_at h root p fs"
proof (induction fs arbitrary: p)
  case (Cons f fs)
  obtain d a c y where f: "f = Frame d a c y" by (cases f)
  have "tree_at h' a y = tree_at h a y" by (rule tree_at_cong) (use Cons.prems f in auto)
  moreover have "ctx_at h' root a fs = ctx_at h root a fs" by (rule Cons.IH) (use Cons.prems f in auto)
  ultimately show ?case using Cons.prems [of a] by (simp add: f)
qed simp

lemma tree_at_upd [simp]: "a \<notin> addrs t \<Longrightarrow> tree_at (h(a := n)) par t = tree_at h par t"
  by (rule tree_at_cong) auto

lemma ctx_at_upd [simp]: "a \<notin> ctx_addrs fs \<Longrightarrow> ctx_at (h(a := n)) root p fs = ctx_at h root p fs"
  by (rule ctx_at_cong) auto

text \<open>A new parent for the root of a tree.\<close>

lemma tree_at_parent:
  assumes t: "tree_at h par t" "apart t"
    and h: "\<And>p. p \<in> addrs t \<Longrightarrow> h' p = (if p = addr t then (h p)\<lparr>rb_parent := par'\<rparr> else h p)"
  shows "tree_at h' par' t"
proof (cases t)
  case (Bin l a c r)
  have "tree_at h' a l" using t h by (subst tree_at_cong [of _ _ h]) (auto simp: Bin)
  moreover have "tree_at h' a r" using t h by (subst tree_at_cong [of _ _ h]) (auto simp: Bin)
  ultimately show ?thesis using t h [of a] by (simp add: Bin node_is_def)
qed simp

section \<open>Steps\<close>

lemma paint_focus:
  assumes "focus s fs (bin d a c x y)"
  obtains s' where "paint a c' s = Some s'" "focus s' fs (bin d a c' x y)" "within {a} s s'" "rb_root s' = rb_root s"
    "\<And>p. rb_parent (rb_at s' p) = rb_parent (rb_at s p)" "\<And>e p. child e (rb_at s' p) = child e (rb_at s p)"
proof -
  let ?s = "s\<lparr>rb_at := (rb_at s)(a := (rb_at s a)\<lparr>rb_colour := c'\<rparr>)\<rparr>"
  have "paint a c' s = Some ?s" using focus_node(1) [OF assms] by (simp add: paint_def rb_put_def)
  moreover have "focus ?s fs (bin d a c' x y)" using assms by (auto simp: focus_def node_is_def)
  ultimately show thesis by (rule that) (simp_all add: within_def)
qed

text \<open>Another address in the place of the focus.\<close>

lemma replace_child_ctx:
  assumes ctx: "ctx_at (rb_at s) (rb_root s) old fs" "ctx_apart fs" and old: "old \<noteq> NULL" "old \<notin> ctx_addrs fs"
    and new: "new \<notin> ctx_addrs fs"
  obtains s' where "replace_child (up_addr fs) old new s = Some s'" "ctx_at (rb_at s') (rb_root s') new fs" "rb_size s' = rb_size s"
    "\<And>p. p \<notin> ctx_addrs fs \<Longrightarrow> rb_at s' p = (if p = new \<and> new \<noteq> NULL then (rb_at s p)\<lparr>rb_parent := up_addr fs\<rparr> else rb_at s p)"
proof (cases fs)
  case Nil
  let ?t = "s\<lparr>rb_root := new, rb_at := (if new = NULL then rb_at s else (rb_at s)(new := (rb_at s new)\<lparr>rb_parent := NULL\<rparr>))\<rparr>"
  have "replace_child (up_addr fs) old new s = Some ?t" by (simp add: Nil replace_child_def rb_put_def)
  then show thesis by (rule that) (auto simp: Nil)
next
  case (Cons f gs)
  obtain d a c y where f: "f = Frame d a c y" by (cases f)
  have a: "a \<noteq> NULL" "a \<notin> addrs y" "a \<notin> ctx_addrs gs" "a \<noteq> new" and n: "node_is d (up_addr gs) old (addr y) c (rb_at s a)"
    using ctx new by (auto simp: Cons f)
  have "addr y \<noteq> old" using old addr_in [of y] by (cases "y = Tip") (auto simp: Cons f)
  let ?h = "(rb_at s)(a := set_child d new (rb_at s a))"
  let ?t = "s\<lparr>rb_at := (if new = NULL then ?h else ?h(new := (?h new)\<lparr>rb_parent := a\<rparr>))\<rparr>"
  have "replace_child (up_addr fs) old new s = Some ?t"
    using n \<open>addr y \<noteq> old\<close> a(1,4) by (cases d) (simp_all add: Cons f replace_child_def rb_put_def node_is_def)
  moreover have "ctx_at (rb_at ?t) (rb_root ?t) new fs"
    using ctx n a new by (auto simp: Cons f node_is_def)
  ultimately show thesis by (rule that) (use a(4) in \<open>auto simp: Cons f\<close>)
qed

lemma rotate_focus:
  assumes f: "focus s fs (bin d a ca x (bin d b cb y z))"
  obtains s' where "rotate d a s = Some s'" "focus s' fs (bin d b cb (bin d a ca x y) z)"
    "within (ctx_addrs fs \<union> addrs (bin d a ca x (bin d b cb y z))) s s'"
proof -
  let ?u = "bin d a ca x (bin d b cb y z)" and ?v = "bin d b cb (bin d a ca x y) z"
  have ab: "a \<noteq> NULL" "b \<noteq> NULL" "a \<noteq> b" and dis: "a \<notin> addrs x" "a \<notin> addrs y" "a \<notin> addrs z" "b \<notin> addrs x" "b \<notin> addrs y" "b \<notin> addrs z"
    "addrs x \<inter> addrs y = {}" "addrs x \<inter> addrs z = {}" "addrs y \<inter> addrs z = {}" "apart x" "apart y" "apart z"
    and na: "node_is d (up_addr fs) (addr x) b ca (rb_at s a)" and nb: "node_is d a (addr y) (addr z) cb (rb_at s b)"
    and tr: "tree_at (rb_at s) a x" "tree_at (rb_at s) b y" "tree_at (rb_at s) b z"
    and cx: "ctx_at (rb_at s) (rb_root s) a fs" "ctx_apart fs" "addrs ?u \<inter> ctx_addrs fs = {}"
    using f by (auto simp: focus_def)
  define h1 where "h1 = (rb_at s)(b := set_child d a (rb_at s b), a := set_child (opp d) (addr y) (rb_at s a))"
  define h2 where "h2 = (if addr y = NULL then h1 else h1(addr y := (h1 (addr y))\<lparr>rb_parent := a\<rparr>))"
  define h3 where "h3 = h2(b := (h2 b)\<lparr>rb_parent := up_addr fs\<rparr>)"
  have yab: "addr y \<noteq> NULL \<Longrightarrow> addr y \<noteq> a \<and> addr y \<noteq> b \<and> addr y \<in> addrs y" using dis addr_in [of y] by (cases "y = Tip") auto
  have pa: "rb_parent (h2 a) = up_addr fs" using na yab ab by (auto simp: h2_def h1_def node_is_def)
  have step: "rotate d a s = do { s \<leftarrow> replace_child (up_addr fs) a b (s\<lparr>rb_at := h3\<rparr>); rb_put a (\<lambda>n. n\<lparr>rb_parent := b\<rparr>) s }"
  proof -
    have r: "rb_get a (child (opp d)) s = Some b" "rb_get b (child d) s = Some (addr y)"
      using na nb ab by (auto simp: rb_get_def node_is_def)
    have "rb_put b (set_child d a) s = Some (s\<lparr>rb_at := (rb_at s)(b := set_child d a (rb_at s b))\<rparr>)" using ab by (simp add: rb_put_def)
    moreover have "rb_put a (set_child (opp d) (addr y)) (s\<lparr>rb_at := (rb_at s)(b := set_child d a (rb_at s b))\<rparr>) = Some (s\<lparr>rb_at := h1\<rparr>)"
      using ab by (simp add: rb_put_def h1_def)
    moreover have "(if addr y \<noteq> NULL then rb_put (addr y) (\<lambda>n. n\<lparr>rb_parent := a\<rparr>) (s\<lparr>rb_at := h1\<rparr>) else Some (s\<lparr>rb_at := h1\<rparr>)) = Some (s\<lparr>rb_at := h2\<rparr>)"
      by (simp add: rb_put_def h2_def)
    moreover have "rb_get a rb_parent (s\<lparr>rb_at := h2\<rparr>) = Some (up_addr fs)" "rb_get a rb_parent (s\<lparr>rb_at := h3\<rparr>) = Some (up_addr fs)"
      using pa ab by (simp_all add: rb_get_def h3_def)
    moreover have "rb_put b (\<lambda>n. n\<lparr>rb_parent := up_addr fs\<rparr>) (s\<lparr>rb_at := h2\<rparr>) = Some (s\<lparr>rb_at := h3\<rparr>)" using ab by (simp add: rb_put_def h3_def)
    ultimately show ?thesis by (simp only: rotate_def r Option.bind.simps)
  qed
  have out: "h3 p = rb_at s p" if "p \<notin> {a, b, addr y}" for p using that by (simp add: h3_def h2_def h1_def)
  have "ctx_at h3 (rb_root s) a fs = ctx_at (rb_at s) (rb_root s) a fs"
    by (rule ctx_at_cong, rule out) (use cx(3) yab NULL_ctx [OF cx(2)] in \<open>cases "addr y = NULL"; auto\<close>)
  then have c3: "ctx_at (rb_at (s\<lparr>rb_at := h3\<rparr>)) (rb_root (s\<lparr>rb_at := h3\<rparr>)) a fs" using cx(1) by simp
  have nin: "a \<notin> ctx_addrs fs" "b \<notin> ctx_addrs fs" using cx(3) by auto
  obtain s4 where s4: "replace_child (up_addr fs) a b (s\<lparr>rb_at := h3\<rparr>) = Some s4" "ctx_at (rb_at s4) (rb_root s4) b fs" "rb_size s4 = rb_size (s\<lparr>rb_at := h3\<rparr>)"
    "\<And>p. p \<notin> ctx_addrs fs \<Longrightarrow> rb_at s4 p = (if p = b \<and> b \<noteq> NULL then (rb_at (s\<lparr>rb_at := h3\<rparr>) p)\<lparr>rb_parent := up_addr fs\<rparr>
       else rb_at (s\<lparr>rb_at := h3\<rparr>) p)"
    by (rule replace_child_ctx [OF c3 cx(2) ab(1) nin]) (rule that, assumption+)
  define h5 where "h5 = (rb_at s4)(a := (rb_at s4 a)\<lparr>rb_parent := b\<rparr>)"
  have run: "rotate d a s = Some (s4\<lparr>rb_at := h5\<rparr>)" unfolding step s4(1) using ab by (simp add: rb_put_def h5_def)
  have h5: "h5 p = rb_at s p" if p: "p \<in> addrs x \<union> addrs z \<union> (addrs y - {addr y})" for p
  proof -
    have ne: "p \<noteq> a" "p \<noteq> b" "p \<notin> ctx_addrs fs" using p dis cx(3) by auto
    have "p \<noteq> addr y"
    proof (cases "addr y = NULL")
      case True
      then show ?thesis using p NULL_notin dis by auto
    next
      case False
      then show ?thesis using p yab dis by auto
    qed
    then show ?thesis using ne s4(4) [of p] out [of p] by (simp add: h5_def)
  qed
  have ya: "h5 (addr y) = (rb_at s (addr y))\<lparr>rb_parent := a\<rparr>" if "addr y \<noteq> NULL"
    using that yab cx(3) s4(4) [of "addr y"] by (auto simp: h5_def h3_def h2_def h1_def)
  have na': "node_is d b (addr x) (addr y) ca (h5 a)"
    using na nin s4(4) [of a] ab yab by (auto simp: h5_def h3_def h2_def h1_def node_is_def)
  have nb': "node_is d (up_addr fs) a (addr z) cb (h5 b)"
    using nb nin s4(4) [of b] ab yab by (auto simp: h5_def h3_def h2_def h1_def node_is_def)
  have "tree_at h5 a x" using tr(1) by (subst tree_at_cong [of _ _ "rb_at s"]) (auto intro: h5)
  moreover have "tree_at h5 b z" using tr(3) by (subst tree_at_cong [of _ _ "rb_at s"]) (auto intro: h5)
  moreover have "tree_at h5 a y"
  proof (rule tree_at_parent [OF tr(2) dis(11)])
    fix p
    assume p: "p \<in> addrs y"
    then have "p = addr y \<Longrightarrow> addr y \<noteq> NULL" using NULL_notin [OF dis(11)] by metis
    then show "h5 p = (if p = addr y then (rb_at s p)\<lparr>rb_parent := a\<rparr> else rb_at s p)"
      using p h5 [of p] ya by auto
  qed
  moreover have "ctx_at h5 (rb_root s4) b fs" using s4(2) nin by (simp add: h5_def)
  ultimately have "focus (s4\<lparr>rb_at := h5\<rparr>) fs ?v" using na' nb' ab dis cx by (auto simp: focus_def)
  moreover have "within (ctx_addrs fs \<union> addrs ?u) s (s4\<lparr>rb_at := h5\<rparr>)"
    unfolding within_def
  proof (intro conjI allI impI)
    fix q
    assume q: "q \<notin> ctx_addrs fs \<union> addrs ?u"
    then have "q \<noteq> a" "q \<noteq> b" "q \<notin> ctx_addrs fs" "h3 q = rb_at s q"
      using yab by (auto simp: h3_def h2_def h1_def)
    then show "rb_at (s4\<lparr>rb_at := h5\<rparr>) q = rb_at s q" using s4(4) [of q] by (simp add: h5_def)
  qed (use s4(3) in simp)
  ultimately show thesis using that run by blast
qed

end
