(* ===== verification/Rbtree_Insert.thy ===== *)
theory Rbtree_Insert
  imports Rbtree_Zipper
begin

text \<open>
  Colours, balance and order of red-black trees, and what \<^verbatim>\<open>rb_insert\<close> does to them.
\<close>

section \<open>Invariants\<close>

fun bheight :: "ptree \<Rightarrow> nat" where
  "bheight Tip = 0"
| "bheight (Bin l a c r) = bheight l + (if c = RB_BLACK then 1 else 0)"

fun invc :: "ptree \<Rightarrow> bool" where
  "invc Tip \<longleftrightarrow> True"
| "invc (Bin l a c r) \<longleftrightarrow> (c = RB_RED \<longrightarrow> colour l = RB_BLACK \<and> colour r = RB_BLACK) \<and> invc l \<and> invc r"

fun invh :: "ptree \<Rightarrow> bool" where
  "invh Tip \<longleftrightarrow> True"
| "invh (Bin l a c r) \<longleftrightarrow> bheight l = bheight r \<and> invh l \<and> invh r"

definition rb_inv :: "ptree \<Rightarrow> bool" where
  "rb_inv t \<longleftrightarrow> invc t \<and> invh t \<and> colour t = RB_BLACK"

text \<open>What a context asks of the black height of the tree in its place.\<close>

fun ctx_inv :: "frame list \<Rightarrow> nat \<Rightarrow> bool" where
  "ctx_inv [] h \<longleftrightarrow> True"
| "ctx_inv (Frame d a c y # fs) h \<longleftrightarrow> bheight y = h \<and> invc y \<and> invh y \<and>
     (c = RB_RED \<longrightarrow> colour y = RB_BLACK \<and> fs \<noteq> [] \<and> up_colour fs = RB_BLACK) \<and>
     ctx_inv fs (h + (if c = RB_BLACK then 1 else 0))"

lemma bin_invc [simp]: "invc (bin d a c x y) \<longleftrightarrow> (c = RB_RED \<longrightarrow> colour x = RB_BLACK \<and> colour y = RB_BLACK) \<and> invc x \<and> invc y"
  by (cases d) auto

lemma bin_invh [simp]: "invh (bin d a c x y) \<longleftrightarrow> bheight x = bheight y \<and> invh x \<and> invh y"
  by (cases d) auto

lemma bin_bheight: "bheight x = bheight y \<Longrightarrow> bheight (bin d a c x y) = bheight y + (if c = RB_BLACK then 1 else 0)"
  by (cases d) auto

lemma colour_cases: "c \<noteq> RB_BLACK \<longleftrightarrow> c = RB_RED" "c \<noteq> RB_RED \<longleftrightarrow> c = RB_BLACK"
  by (cases c; simp)+

lemma plug_inv: "rb_inv (plug fs t) \<longleftrightarrow>
    ctx_inv fs (bheight t) \<and> invc t \<and> invh t \<and> (colour t = RB_RED \<longrightarrow> fs \<noteq> [] \<and> up_colour fs = RB_BLACK)"
proof (induction fs arbitrary: t)
  case Nil
  then show ?case by (cases "colour t") (auto simp: rb_inv_def)
next
  case (Cons f fs)
  obtain d a c y where f: "f = Frame d a c y" by (cases f)
  show ?case using bin_bheight [of t y d a c] by (cases c) (auto simp: f Cons.IH colour_cases)
qed

lemma bin_inorder: "inorder (bin d b cb (bin d a ca x y) z) = inorder (bin d a ca x (bin d b cb y z))"
  by (cases d) auto

lemma bin_inorder_cong: "inorder x = inorder x' \<Longrightarrow> inorder y = inorder y' \<Longrightarrow> inorder (bin d a c x y) = inorder (bin d a c' x' y')"
  by (cases d) auto

lemma plug_inorder: "inorder t = inorder t' \<Longrightarrow> inorder (plug fs t) = inorder (plug fs t')"
proof (induction fs arbitrary: t t')
  case (Cons f fs)
  obtain d a c y where f: "f = Frame d a c y" by (cases f)
  show ?case unfolding f plug.simps by (rule Cons.IH) (rule bin_inorder_cong [OF Cons.prems refl])
qed simp

lemma set_inorder [simp]: "set (inorder t) = addrs t"
  by (induction t) auto

text \<open>The root of a tree painted black.\<close>

fun black :: "ptree \<Rightarrow> ptree" where
  "black Tip = Tip"
| "black (Bin l a c r) = Bin l a RB_BLACK r"

lemma black_sel [simp]: "inorder (black t) = inorder t" "addrs (black t) = addrs t" "addr (black t) = addr t" "colour (black t) = RB_BLACK"
  by (cases t; simp)+

lemma black_inv: "invc t \<Longrightarrow> invh t \<Longrightarrow> rb_inv (black t)"
  by (cases t) (auto simp: rb_inv_def)

lemma black_id: "colour t = RB_BLACK \<Longrightarrow> black t = t"
  by (cases t) auto

lemma paint_black:
  assumes "focus s fs t" and "t \<noteq> Tip"
  obtains s' where "paint (addr t) RB_BLACK s = Some s'" "focus s' fs (black t)" "within (addrs t) s s'"
proof (cases t)
  case (Bin l a c r)
  then have "focus s fs (bin Lft a c l r)" using assms(1) by simp
  from paint_focus [OF this] obtain s' where "paint a RB_BLACK s = Some s'" "focus s' fs (bin Lft a RB_BLACK l r)" "within {a} s s'"
    by metis
  then show thesis using Bin by (intro that [of s']) (auto elim: within_mono)
qed (use assms in simp)

section \<open>Restoring the colours after an insertion\<close>

text \<open>With a black parent, or none, the loop ends.\<close>

lemma insert_fixup_done:
  assumes f: "focus s fs (bin e n c x y)" and b: "up_colour fs = RB_BLACK" and i: "invc (plug fs (bin e n c x y))" "invh (plug fs (bin e n c x y))"
  shows "\<exists>s' t. insert_fixup n s = Some s' \<and> focus s' [] t \<and> inorder t = inorder (plug fs (bin e n c x y)) \<and> rb_inv t \<and>
    within (addrs (plug fs (bin e n c x y))) s s'"
proof -
  let ?T = "plug fs (bin e n c x y)"
  have T: "focus s [] ?T" using f focus_plug by blast
  have "n \<in> addrs ?T" by simp
  then have "?T \<noteq> Tip" by (metis addrs.simps(1) empty_iff)
  from paint_black [OF T this] obtain s' where s': "paint (addr ?T) RB_BLACK s = Some s'" "focus s' [] (black ?T)" "within (addrs ?T) s s'" .
  have "rb_get n rb_parent s = Some (up_addr fs)" using focus_node [OF f] by (simp add: rb_get_def)
  then have "insert_fixup n s = Some s'"
    using is_red_top [OF f] b s'(1) focus_root [OF T] by (subst insert_fixup.simps) simp
  then show ?thesis using s'(2,3) black_inv [OF i] by (intro exI [of _ s'] exI [of _ "black ?T"]) simp
qed

text \<open>The turn at the grandparent, for a node on the outer side.\<close>

lemma insert_fixup_outer:
  assumes f: "focus s (Frame d p RB_RED u # Frame d g RB_BLACK w # hs) (bin e n RB_RED x y)"
    and h: "bheight x = k" "bheight y = k" "bheight u = k" "bheight w = k" "ctx_inv hs (Suc k)" and c: "invc x" "invc y" "invc u" "invc w"
    and i: "invh x" "invh y" "invh u" "invh w" and b: "colour x = RB_BLACK" "colour y = RB_BLACK" "colour u = RB_BLACK" "colour w = RB_BLACK"
  shows "\<exists>s' t. do { p \<leftarrow> rb_get n rb_parent s; s \<leftarrow> paint p RB_BLACK s; g \<leftarrow> rb_get p rb_parent s; s \<leftarrow> paint g RB_RED s;
          s \<leftarrow> rotate (opp d) g s; insert_fixup n s } = Some s' \<and> focus s' [] t \<and>
    inorder t = inorder (plug (Frame d p RB_RED u # Frame d g RB_BLACK w # hs) (bin e n RB_RED x y)) \<and> rb_inv t \<and>
    within (addrs (plug (Frame d p RB_RED u # Frame d g RB_BLACK w # hs) (bin e n RB_RED x y))) s s'"
proof -
  let ?t = "bin e n RB_RED x y" and ?fs = "Frame d p RB_RED u # Frame d g RB_BLACK w # hs"
  have r1: "rb_get n rb_parent s = Some p" using focus_node [OF f] by (simp add: rb_get_def)
  have "focus s (Frame d g RB_BLACK w # hs) (bin d p RB_RED ?t u)" using f by (simp add: focus_down)
  from paint_focus [OF this] obtain s1 where s1: "paint p RB_BLACK s = Some s1"
    "focus s1 (Frame d g RB_BLACK w # hs) (bin d p RB_BLACK ?t u)" "within {p} s s1" by metis
  have r2: "rb_get p rb_parent s1 = Some g" using focus_node [OF s1(2)] by (simp add: rb_get_def)
  have "focus s1 hs (bin d g RB_BLACK (bin d p RB_BLACK ?t u) w)" using s1(2) by (simp add: focus_down)
  from paint_focus [OF this] obtain s2 where s2: "paint g RB_RED s1 = Some s2"
    "focus s2 hs (bin d g RB_RED (bin d p RB_BLACK ?t u) w)" "within {g} s1 s2" by metis
  have "focus s2 hs (bin (opp d) g RB_RED w (bin (opp d) p RB_BLACK u ?t))" using s2(2) by (simp add: bin_opp)
  from rotate_focus [OF this] obtain s3 where s3: "rotate (opp d) g s2 = Some s3"
    "focus s3 hs (bin (opp d) p RB_BLACK (bin (opp d) g RB_RED w u) ?t)"
    "within (ctx_addrs hs \<union> addrs (bin (opp d) g RB_RED w (bin (opp d) p RB_BLACK u ?t))) s2 s3" by metis
  let ?gs = "Frame d p RB_BLACK (bin d g RB_RED u w) # hs"
  have f3: "focus s3 ?gs ?t" using s3(2) by (simp add: bin_opp focus_down)
  have "bheight ?t = k" "bheight (bin d g RB_RED u w) = k" using bin_bheight [of x y] bin_bheight [of u w] h by simp_all
  then have "rb_inv (plug ?gs ?t)" unfolding plug_inv using h c i b by simp
  then have "invc (plug ?gs ?t)" "invh (plug ?gs ?t)" by (simp_all only: rb_inv_def)
  from insert_fixup_done [OF f3 _ this] obtain s' t where s': "insert_fixup n s3 = Some s'" "focus s' [] t"
    "inorder t = inorder (plug ?gs ?t)" "rb_inv t" "within (addrs (plug ?gs ?t)) s3 s'" by auto
  have "inorder (bin d p RB_BLACK ?t (bin d g RB_RED u w)) = inorder (bin d g RB_BLACK (bin d p RB_RED ?t u) w)"
    by (cases d) simp_all
  then have "inorder (plug ?gs ?t) = inorder (plug ?fs ?t)" unfolding plug.simps by (rule plug_inorder)
  moreover have "within (addrs (plug ?fs ?t)) s s'"
    by (rule within_chain [OF s1(3) within_chain [OF s2(3) within_chain [OF s3(3) s'(5), of "addrs (plug ?fs ?t)"], of "addrs (plug ?fs ?t)"]]) auto
  ultimately show ?thesis using r1 s1(1) r2 s2(1) s3(1) s'(1-4) by (intro exI [of _ s'] exI [of _ t]) simp
qed

lemma insert_fixup_focus:
  assumes "focus s fs (bin e n RB_RED x y)" and "ctx_inv fs (bheight x)" and "invc (bin e n RB_RED x y)" "invh (bin e n RB_RED x y)"
  shows "\<exists>s' t. insert_fixup n s = Some s' \<and> focus s' [] t \<and> inorder t = inorder (plug fs (bin e n RB_RED x y)) \<and> rb_inv t \<and>
    within (addrs (plug fs (bin e n RB_RED x y))) s s'"
  using assms
proof (induction "length fs" arbitrary: fs s n e x y rule: less_induct)
  case less
  let ?t = "bin e n RB_RED x y"
  note f = less.prems(1)
  have n: "n \<noteq> NULL" "rb_get n rb_parent s = Some (up_addr fs)" using focus_node [OF f] by (simp_all add: rb_get_def)
  have hx: "bheight x = bheight y" "bheight ?t = bheight x" using less.prems(4) bin_bheight [of x y e n RB_RED] by simp_all
  show ?case
  proof (cases "up_colour fs")
    case RB_BLACK
    have "invc (plug fs ?t) \<and> invh (plug fs ?t)"
    proof (cases "fs = []")
      case True
      then show ?thesis using less.prems(3,4) by simp
    next
      case False
      then have "rb_inv (plug fs ?t)" using less.prems(2-4) hx RB_BLACK by (simp add: plug_inv)
      then show ?thesis by (simp add: rb_inv_def)
    qed
    then show ?thesis using insert_fixup_done [OF f RB_BLACK] by blast
  next
    case RB_RED
    then obtain d p u gs where fs: "fs = Frame d p RB_RED u # gs" by (cases fs rule: up_colour.cases) auto
    have pu: "bheight u = bheight x" "invc u" "invh u" "colour u = RB_BLACK" "gs \<noteq> []" "up_colour gs = RB_BLACK" "ctx_inv gs (bheight x)"
      using less.prems(2) by (auto simp: fs)
    then obtain k g w hs where gs: "gs = Frame k g RB_BLACK w # hs" by (cases gs rule: up_colour.cases) auto
    have gw: "bheight w = bheight x" "invc w" "invh w" "ctx_inv hs (Suc (bheight x))" using pu(7) by (auto simp: gs)
    have fp: "focus s gs (bin d p RB_RED ?t u)" using f by (simp add: fs focus_down)
    have pg: "p \<noteq> NULL" "rb_get p rb_parent s = Some g" using focus_node [OF fp] by (simp_all add: rb_get_def gs)
    have fg: "focus s hs (bin k g RB_BLACK (bin d p RB_RED ?t u) w)" using fp by (simp add: gs focus_down)
    have gp: "g \<noteq> NULL" "rb_get g (child (opp k)) s = Some (addr w)" using focus_node [OF fg] by (simp_all add: rb_get_def)
    have "p \<noteq> addr w" using fg addr_in [of w] pg(1) by (cases "w = Tip") (auto simp: focus_def)
    with side_of_frame [OF fp [unfolded gs]] have sd: "(if p = rb_left (rb_at s g) then Lft else Rgt) = k" by simp
    have fw: "focus s (Frame (opp k) g RB_BLACK (bin d p RB_RED ?t u) # hs) w"
      using fg by (simp add: focus_down [symmetric] bin_opp)
    note isw = is_red_colour [OF fw]
    have red: "is_red p s" using is_red_top [OF f] by (simp add: fs)
    note unfold1 = insert_fixup.simps [of n s]
    show ?thesis
    proof (cases "colour w")
      case wr: RB_RED
      then obtain wa w1 w2 where w: "w = bin Lft wa RB_RED w1 w2" by (cases w) auto
      from paint_focus [OF fp] obtain s1 where s1: "paint p RB_BLACK s = Some s1" "focus s1 gs (bin d p RB_BLACK ?t u)" "within {p} s s1" by metis
      have "focus s1 (Frame (opp k) g RB_BLACK (bin d p RB_BLACK ?t u) # hs) w"
        using s1(2) by (simp add: gs focus_down [symmetric] bin_opp)
      from paint_focus [OF this [unfolded w]] obtain s2 where s2: "paint wa RB_BLACK s1 = Some s2"
        "focus s2 (Frame (opp k) g RB_BLACK (bin d p RB_BLACK ?t u) # hs) (bin Lft wa RB_BLACK w1 w2)" "within {wa} s1 s2" by metis
      let ?w = "bin Lft wa RB_BLACK w1 w2" and ?p = "bin d p RB_BLACK ?t u"
      have "focus s2 hs (bin k g RB_BLACK ?p ?w)" using s2(2) by (simp only: focus_down [symmetric] bin_opp)
      from paint_focus [OF this] obtain s3 where s3: "paint g RB_RED s2 = Some s3" "focus s3 hs (bin k g RB_RED ?p ?w)" "within {g} s2 s3" by metis
      have hp: "bheight ?p = Suc (bheight x)" using bin_bheight [of ?t u d p RB_BLACK] hx pu(1) by simp
      have hw: "bheight ?w = Suc (bheight x)" using gw(1,3) by (simp add: w)
      have run: "insert_fixup n s = insert_fixup g s3"
        unfolding unfold1 using n(2) red pg(2) gp sd isw wr s1(1) s2(1) s3(1) by (simp add: fs rb_get_def w)
      have "\<exists>s' t. insert_fixup g s3 = Some s' \<and> focus s' [] t \<and> inorder t = inorder (plug hs (bin k g RB_RED ?p ?w)) \<and> rb_inv t \<and>
          within (addrs (plug hs (bin k g RB_RED ?p ?w))) s3 s'"
        by (rule less.hyps [OF _ s3(2)]) (use hp hw gw pu less.prems(3,4) hx in \<open>auto simp: fs gs w\<close>)
      then obtain s' t where s': "insert_fixup g s3 = Some s'" "focus s' [] t" "inorder t = inorder (plug hs (bin k g RB_RED ?p ?w))" "rb_inv t"
          "within (addrs (plug hs (bin k g RB_RED ?p ?w))) s3 s'" by blast
      have "inorder (bin k g RB_RED ?p ?w) = inorder (bin k g RB_BLACK (bin d p RB_RED ?t u) w)"
        by (intro bin_inorder_cong) (simp_all add: w)
      then have "inorder (plug hs (bin k g RB_RED ?p ?w)) = inorder (plug fs ?t)" unfolding fs gs plug.simps by (rule plug_inorder)
      moreover have "within (addrs (plug fs ?t)) s s'"
        by (rule within_chain [OF s1(3) within_chain [OF s2(3) within_chain [OF s3(3) s'(5), of "addrs (plug fs ?t)"], of "addrs (plug fs ?t)"]])
          (auto simp: fs gs w)
      ultimately show ?thesis using run s' by auto
    next
      case wb: RB_BLACK
      let ?fin = "\<lambda>n s. do { p \<leftarrow> rb_get n rb_parent s; s \<leftarrow> paint p RB_BLACK s; g \<leftarrow> rb_get p rb_parent s; s \<leftarrow> paint g RB_RED s;
          s \<leftarrow> rotate (opp k) g s; insert_fixup n s }"
      have run: "insert_fixup n s = do { inner \<leftarrow> rb_get p (child (opp k)) s;
           (n, s) \<leftarrow> (if n = inner then do { s \<leftarrow> rotate k p s; Some (p, s) } else Some (n, s)); ?fin n s }"
        unfolding unfold1 using n(2) red pg(2) gp sd isw wb by (simp add: fs rb_get_def)
      show ?thesis
      proof (cases "d = k")
        case True
        have "addr u \<noteq> n" using f addr_in [of u] n(1) by (cases "u = Tip") (auto simp: focus_def fs)
        moreover have "child (opp k) (rb_at s p) = addr u" using focus_node(4) [OF fp] True by simp
        ultimately have "insert_fixup n s = ?fin n s" unfolding run using pg(1) by (simp add: rb_get_def)
        moreover have "focus s (Frame k p RB_RED u # Frame k g RB_BLACK w # hs) ?t" using f by (simp add: fs gs True)
        note insert_fixup_outer [OF this refl _ pu(1) gw(1) gw(4)]
        ultimately show ?thesis using less.prems(3,4) pu(2-4) gw(2,3) wb by (simp add: fs gs True)
      next
        case False
        then have d: "d = opp k" by (rule other_side)
        obtain x' y' where t: "?t = bin k n RB_RED x' y'" by (cases e; cases k) (auto intro: that)
        have t': "invc (bin k n RB_RED x' y')" "invh (bin k n RB_RED x' y')" "bheight y' = bheight x"
          using less.prems(3,4) hx bin_bheight [of x' y' k n RB_RED] unfolding t by simp_all
        have "focus s gs (bin k p RB_RED u (bin k n RB_RED x' y'))" using fp by (simp add: t d bin_opp)
        from rotate_focus [OF this] obtain s1 where s1: "rotate k p s = Some s1" "focus s1 gs (bin k n RB_RED (bin k p RB_RED u x') y')"
          "within (ctx_addrs gs \<union> addrs (bin k p RB_RED u (bin k n RB_RED x' y'))) s s1" by metis
        have "child (opp k) (rb_at s p) = n" using focus_node(3) [OF fp] d by simp
        then have "insert_fixup n s = ?fin p s1" unfolding run using pg(1) s1(1) by (simp add: rb_get_def)
        moreover have "focus s1 (Frame k n RB_RED y' # Frame k g RB_BLACK w # hs) (bin k p RB_RED u x')"
          using s1(2) by (simp add: gs focus_down)
        note insert_fixup_outer [OF this pu(1) _ t'(3) gw(1) gw(4)]
        ultimately obtain s' t where s': "insert_fixup n s = Some s'" "focus s' [] t"
          "inorder t = inorder (plug (Frame k n RB_RED y' # Frame k g RB_BLACK w # hs) (bin k p RB_RED u x'))" "rb_inv t"
          "within (addrs (plug (Frame k n RB_RED y' # Frame k g RB_BLACK w # hs) (bin k p RB_RED u x'))) s1 s'"
          using t' pu(2-4) gw(2,3) wb by auto
        have "inorder (bin k n RB_RED (bin k p RB_RED u x') y') = inorder (bin d p RB_RED ?t u)"
          unfolding t d bin_opp by (rule bin_inorder)
        then have "inorder (plug (Frame k n RB_RED y' # Frame k g RB_BLACK w # hs) (bin k p RB_RED u x')) = inorder (plug fs ?t)"
          unfolding fs gs plug.simps by (intro plug_inorder bin_inorder_cong) simp_all
        moreover have "within (addrs (plug fs ?t)) s s'"
          by (rule within_chain [OF s1(3) s'(5)]) (auto simp: fs gs t)
        ultimately show ?thesis using s' by auto
      qed
    qed
  qed
qed

end
