(* ===== verification/Rbtree_Search.thy ===== *)
theory Rbtree_Search
  imports Rbtree_Insert
begin

text \<open>
  A red-black tree as the list of its nodes in order: traversal in both directions, and, with a
  comparison function that compares keys, search and insertion.
\<close>

section \<open>Order of the nodes\<close>

text \<open>The nodes of a tree seen in direction \<open>d\<close>, and those of a context that come after its hole.\<close>

definition dir :: "side \<Rightarrow> ptree \<Rightarrow> u64 list" where
  "dir d t = (case d of Rgt \<Rightarrow> inorder t | Lft \<Rightarrow> rev (inorder t))"

fun beyond :: "side \<Rightarrow> frame list \<Rightarrow> u64 list" where
  "beyond d [] = []"
| "beyond d (Frame e a c y # fs) = (if e = d then beyond d fs else a # dir d y @ beyond d fs)"

fun first_of :: "u64 list \<Rightarrow> u64" where
  "first_of [] = NULL"
| "first_of (a # as) = a"

lemma dir_Tip [simp]: "dir d Tip = []"
  by (cases d) (simp_all add: dir_def)

lemma dir_bin: "dir d (bin d a c x y) = dir d y @ a # dir d x" "dir d (bin (opp d) a c x y) = dir d x @ a # dir d y"
  by (cases d; simp add: dir_def)+

lemma dir_opp: "dir (opp d) t = rev (dir d t)"
  by (cases d) (simp_all add: dir_def)

lemma dir_Nil [simp]: "dir d t = [] \<longleftrightarrow> t = Tip"
  by (cases d; cases t) (simp_all add: dir_def)

lemma dir_plug: "dir d (plug fs t) = rev (beyond (opp d) fs) @ dir d t @ beyond d fs"
proof (induction fs arbitrary: t)
  case (Cons f fs)
  obtain e a c y where f: "f = Frame e a c y" by (cases f)
  show ?case
  proof (cases "e = d")
    case True
    then show ?thesis by (simp add: f Cons.IH dir_bin(1) dir_opp)
  next
    case False
    then have "e = opp d" by (rule other_side)
    then show ?thesis by (simp add: f Cons.IH dir_bin(2))
  qed
qed simp

lemma inorder_plug: "inorder (plug fs t) = rev (beyond Lft fs) @ inorder t @ beyond Rgt fs"
  using dir_plug [of Rgt fs t] by (simp add: dir_def)

lemma set_beyond: "set (beyond d fs) \<subseteq> ctx_addrs fs"
proof (induction fs)
  case (Cons f fs)
  have "set (dir d y) = addrs y" for y by (cases d) (simp_all add: dir_def)
  with Cons show ?case by (cases f) auto
qed simp

lemma distinct_inorder: "apart t \<Longrightarrow> distinct (inorder t)"
  by (induction t) auto

section \<open>Traversal\<close>

lemma descend_first:
  assumes "focus s fs t" and "t \<noteq> Tip"
  shows "descend d (addr t) s = Some (first_of (dir (opp d) t))"
  using assms
proof (induction t arbitrary: fs)
  case (Bin l a c r)
  obtain x y where t: "Bin l a c r = bin d a c x y" using bin_exists by blast
  then have xy: "x = l \<or> x = r" by (cases d) auto
  have f: "focus s fs (bin d a c x y)" using Bin.prems(1) t by simp
  note nd = focus_node [OF f]
  have fx: "focus s (Frame d a c y # fs) x" using f by (simp add: focus_down)
  have dr: "dir (opp d) (Bin l a c r) = dir (opp d) x @ a # dir (opp d) y" unfolding t using dir_bin(2) [of "opp d"] by simp
  show ?case
  proof (cases "x = Tip")
    case True
    then show ?thesis using nd dr by (subst descend.simps) simp
  next
    case False
    then have "addr x \<noteq> NULL" using fx addr_NULL by (simp add: focus_def)
    moreover have "descend d (addr x) s = Some (first_of (dir (opp d) x))" using xy Bin.IH fx False by blast
    moreover have "dir (opp d) x \<noteq> []" using False by simp
    then have "first_of (dir (opp d) x @ a # dir (opp d) y) = first_of (dir (opp d) x)" by (cases "dir (opp d) x") simp_all
    ultimately show ?thesis using nd dr by (subst descend.simps) simp
  qed
qed simp

lemma climb_first: "focus s fs t \<Longrightarrow> t \<noteq> Tip \<Longrightarrow> climb d (addr t) (up_addr fs) s = Some (first_of (beyond d fs))"
proof (induction fs arbitrary: t)
  case Nil
  then show ?case by (subst climb.simps) simp
next
  case (Cons f fs)
  obtain e a c y where f: "f = Frame e a c y" by (cases f)
  note nd = focus_frame [OF Cons.prems(1) [unfolded f]]
  have fu: "focus s fs (bin e a c t y)" using Cons.prems(1) by (simp add: f focus_down)
  have ne: "addr t \<noteq> addr y"
    using fu addr_in [OF Cons.prems(2)] addr_in [of y] NULL_notin [of t] by (cases "y = Tip") (auto simp: focus_def)
  show ?case
  proof (cases "e = d")
    case True
    have "climb d a (up_addr fs) s = Some (first_of (beyond d fs))" using Cons.IH [OF fu] by simp
    then show ?thesis using nd True by (subst climb.simps) (simp add: f)
  next
    case False
    then have "d = opp e" using other_side by metis
    then show ?thesis using nd ne False by (subst climb.simps) (simp add: f)
  qed
qed

lemma neighbour_first:
  assumes "focus s fs (bin d a c x y)"
  shows "neighbour d a s = Some (first_of (dir d x @ beyond d fs))"
proof (cases "x = Tip")
  case True
  then show ?thesis using focus_node [OF assms] climb_first [OF assms, of d] by (simp add: neighbour_def rb_get_def)
next
  case False
  have fx: "focus s (Frame d a c y # fs) x" using assms by (simp add: focus_down)
  then have "addr x \<noteq> NULL" using addr_NULL False by (simp add: focus_def)
  moreover have "descend (opp d) (addr x) s = Some (first_of (dir d x))" using descend_first [OF fx False, of "opp d"] by simp
  moreover have "first_of (dir d x @ beyond d fs) = first_of (dir d x)" using False by (cases "dir d x") simp_all
  ultimately show ?thesis using focus_node [OF assms] by (simp add: neighbour_def rb_get_def)
qed

text \<open>Every node of a tree can be brought into focus.\<close>

lemma focus_at:
  assumes "a \<in> addrs t"
  obtains gs c x y where "plug fs t = plug gs (bin d a c x y)"
  using assms
proof (induction t arbitrary: fs)
  case (Bin l b c r)
  consider "a = b" | "a \<in> addrs l" | "a \<in> addrs r" using Bin.prems(2) by auto
  then show thesis
  proof cases
    case 1
    then show thesis using Bin.prems(1) bin_exists by metis
  next
    case 2
    then show thesis using Bin.IH(1) [of "Frame Lft b c r # fs"] Bin.prems(1) by (metis plug.simps(2) bin.simps(1))
  next
    case 3
    then show thesis using Bin.IH(2) [of "Frame Rgt b c l # fs"] Bin.prems(1) by (metis plug.simps(2) bin.simps(2))
  qed
qed simp

text \<open>The tree as a list: \<open>rb_list s xs\<close> says that the tree is well-formed, balanced, and has the nodes \<open>xs\<close> in order.\<close>

definition rb_list :: "rb_tree \<Rightarrow> u64 list \<Rightarrow> bool" where
  "rb_list s xs \<longleftrightarrow> (\<exists>t. focus s [] t \<and> rb_inv t \<and> inorder t = xs)"

lemma rb_list_distinct: "rb_list s xs \<Longrightarrow> distinct xs \<and> NULL \<notin> set xs"
  using distinct_inorder NULL_notin by (auto simp: rb_list_def focus_def)

lemma rb_list_frame:
  assumes "rb_list s xs" and "rb_root s' = rb_root s" and "\<And>p. p \<in> set xs \<Longrightarrow> rb_at s' p = rb_at s p"
  shows "rb_list s' xs"
proof -
  obtain t where t: "focus s [] t" "rb_inv t" "inorder t = xs" using assms(1) by (auto simp: rb_list_def)
  have "tree_at (rb_at s') NULL t = tree_at (rb_at s) NULL t" by (rule tree_at_cong) (use assms(3) t(3) in auto)
  then show ?thesis using t assms(2) by (auto simp: rb_list_def focus_def)
qed

lemma rb_list_Nil: "rb_root s = NULL \<Longrightarrow> rb_list s []"
  unfolding rb_list_def by (rule exI [of _ Tip]) (simp add: focus_def rb_inv_def)

lemma rb_first_list: "rb_list s xs \<Longrightarrow> rb_first s = Some (first_of xs)"
proof -
  assume "rb_list s xs"
  then obtain t where t: "focus s [] t" "inorder t = xs" by (auto simp: rb_list_def)
  then have r: "rb_root s = addr t" "addr t = NULL \<longleftrightarrow> t = Tip" using addr_NULL by (auto simp: focus_def)
  show ?thesis
  proof (cases "t = Tip")
    case False
    then show ?thesis using r descend_first [OF t(1) False, of Lft] t(2) by (simp add: rb_first_def dir_def)
  qed (use r t(2) in \<open>auto simp: rb_first_def\<close>)
qed

lemma rb_last_list: "rb_list s xs \<Longrightarrow> rb_last s = Some (first_of (rev xs))"
proof -
  assume "rb_list s xs"
  then obtain t where t: "focus s [] t" "inorder t = xs" by (auto simp: rb_list_def)
  then have r: "rb_root s = addr t" "addr t = NULL \<longleftrightarrow> t = Tip" using addr_NULL by (auto simp: focus_def)
  show ?thesis
  proof (cases "t = Tip")
    case False
    then show ?thesis using r descend_first [OF t(1) False, of Rgt] t(2) by (simp add: rb_last_def dir_def)
  qed (use r t(2) in \<open>auto simp: rb_last_def\<close>)
qed

lemma split_unique:
  assumes "xs @ a # ys = xs' @ a # ys'" and "distinct (xs @ a # ys)"
  shows "xs = xs'" "ys = ys'"
proof -
  have "a \<notin> set xs" "a \<notin> set ys" using assms(2) by auto
  then show "xs = xs'" "ys = ys'" using assms(1) append_Cons_eq_iff [of a xs ys xs' ys'] by auto
qed

lemma rb_neighbours_list:
  assumes "rb_list s (xs @ a # ys)"
  shows "rb_next a s = Some (first_of ys)" "rb_prev a s = Some (first_of (rev xs))"
proof -
  obtain t where t: "focus s [] t" "inorder t = xs @ a # ys" using assms by (auto simp: rb_list_def)
  have a: "a \<in> addrs t" using t(2) unfolding set_inorder [symmetric] by simp
  have d: "distinct (xs @ a # ys)" using rb_list_distinct [OF assms] by blast
  obtain fs c x y where p: "plug [] t = plug fs (bin Rgt a c x y)" by (rule focus_at [OF a])
  then have f: "focus s fs (bin Rgt a c x y)" using t(1) focus_plug by simp
  have eq: "xs @ a # ys = (rev (beyond Lft fs) @ inorder y) @ a # (inorder x @ beyond Rgt fs)"
    using t(2) p by (simp add: inorder_plug)
  note u = split_unique [OF eq d]
  show "rb_next a s = Some (first_of ys)" unfolding rb_next_def using neighbour_first [OF f] u(2) by (simp add: dir_def)
  have "focus s fs (bin Lft a c y x)" using f by simp
  from neighbour_first [OF this] show "rb_prev a s = Some (first_of (rev xs))"
    unfolding rb_prev_def using u(1) by (simp add: dir_def)
qed

section \<open>The height of the tree\<close>

fun height :: "ptree \<Rightarrow> nat" where
  "height Tip = 0"
| "height (Bin l a c r) = Suc (max (height l) (height r))"

lemma bheight_size: "invh t \<Longrightarrow> 2 ^ bheight t \<le> Suc (length (inorder t))"
proof (induction t)
  case (Bin l a c r)
  then have "(2::nat) ^ bheight l \<le> Suc (length (inorder l))" "(2::nat) ^ bheight l \<le> Suc (length (inorder r))" by auto
  then show ?case by auto
qed simp

lemma height_bheight: "invc t \<Longrightarrow> invh t \<Longrightarrow> height t \<le> 2 * bheight t + (if colour t = RB_RED then 1 else 0)"
proof (induction t)
  case (Bin l a c r)
  then have "height l \<le> 2 * bheight l + (if colour l = RB_RED then 1 else 0)" "height r \<le> 2 * bheight l + (if colour r = RB_RED then 1 else 0)" by auto
  then show ?case using Bin.prems by (cases c) (auto split: if_splits)
qed simp

lemma height_bound:
  assumes "rb_inv t"
  shows "2 ^ height t \<le> (Suc (length (inorder t)))\<^sup>2"
proof -
  have "height t \<le> 2 * bheight t" using height_bheight [of t] assms by (simp add: rb_inv_def)
  then have "(2::nat) ^ height t \<le> 2 ^ (2 * bheight t)" by simp
  also have "\<dots> = (2 ^ bheight t)\<^sup>2" by (simp add: power_mult [symmetric] mult.commute)
  also have "\<dots> \<le> (Suc (length (inorder t)))\<^sup>2" using bheight_size [of t] assms by (simp add: rb_inv_def power_mono)
  finally show ?thesis .
qed

section \<open>Search and insertion by key\<close>

lemma find_append: "find P (xs @ ys) = (case find P xs of None \<Rightarrow> find P ys | Some a \<Rightarrow> Some a)"
  by (induction xs) auto

lemma insort_middle:
  assumes "\<forall>a \<in> set xs. key a < key n" and "\<forall>b \<in> set ys. key n < key b"
  shows "insort_key key n (xs @ ys) = xs @ n # ys"
  using assms by (induction xs) (auto simp: insort_is_Cons less_imp_le leD)

definition by_key :: "(u64 \<Rightarrow> 'k::linorder) \<Rightarrow> u64 list \<Rightarrow> bool" where
  "by_key key xs \<longleftrightarrow> sorted_wrt (\<lambda>a b. key a < key b) xs"

definition or_null :: "u64 option \<Rightarrow> u64" where
  "or_null r = (case r of None \<Rightarrow> NULL | Some a \<Rightarrow> a)"

fun up_link :: "frame list \<Rightarrow> side option" where
  "up_link [] = None"
| "up_link (Frame d a c y # fs) = Some d"

text \<open>A new red node in an empty place.\<close>

lemma link_node:
  assumes f: "focus s gs Tip" and n: "n \<noteq> NULL" "n \<notin> ctx_addrs gs"
  obtains s' where
    "do { s \<leftarrow> rb_put n (\<lambda>_. \<lparr>rb_parent = up_addr gs, rb_left = NULL, rb_right = NULL, rb_colour = RB_RED\<rparr>) s;
          case up_link gs of None \<Rightarrow> Some (s\<lparr>rb_root := n\<rparr>) | Some d \<Rightarrow> rb_put (up_addr gs) (set_child d n) s } = Some s'"
    "focus s' gs (bin Lft n RB_RED Tip Tip)" "within (insert n (ctx_addrs gs)) s s'"
proof (cases gs)
  case Nil
  let ?s = "s\<lparr>rb_at := (rb_at s)(n := \<lparr>rb_parent = NULL, rb_left = NULL, rb_right = NULL, rb_colour = RB_RED\<rparr>), rb_root := n\<rparr>"
  show thesis by (rule that [of ?s]) (use n f in \<open>simp_all add: Nil rb_put_def focus_def node_is_def within_def\<close>)
next
  case (Cons g hs)
  obtain d a c y where g: "g = Frame d a c y" by (cases g)
  let ?h = "(rb_at s)(n := \<lparr>rb_parent = a, rb_left = NULL, rb_right = NULL, rb_colour = RB_RED\<rparr>)"
  let ?s = "s\<lparr>rb_at := ?h(a := set_child d n (rb_at s a))\<rparr>"
  show thesis
  proof (rule that [of ?s])
    show "focus ?s gs (bin Lft n RB_RED Tip Tip)"
      using f n by (auto simp: Cons g focus_def node_is_def)
  qed (use n f in \<open>auto simp: Cons g rb_put_def within_def focus_def\<close>)
qed

locale comparator =
  fixes compare :: "u64 \<Rightarrow> u64 \<Rightarrow> int" and key :: "u64 \<Rightarrow> 'k::linorder"
  assumes compare_less: "compare a b < 0 \<longleftrightarrow> key a < key b" and compare_greater: "0 < compare a b \<longleftrightarrow> key b < key a"
begin

lemma lower_loop_find:
  assumes "focus s fs t" and "by_key key (inorder t)"
  shows "lower_loop compare k (addr t) res s = Some (case find (\<lambda>a. key k \<le> key a) (inorder t) of None \<Rightarrow> res | Some a \<Rightarrow> a)"
  using assms
proof (induction t arbitrary: fs res)
  case Tip
  then show ?case by (subst lower_loop.simps) simp
next
  case (Bin l a c r)
  have f: "focus s fs (bin Lft a c l r)" using Bin.prems(1) by simp
  note nd = focus_node [OF f]
  have srt: "by_key key (inorder l)" "by_key key (inorder r)" "\<And>b. b \<in> addrs l \<Longrightarrow> key b < key a"
    using Bin.prems(2) by (auto simp: by_key_def sorted_wrt_append)
  have "focus s (Frame Lft a c r # fs) l" "focus s (Frame Rgt a c l # fs) r" using f by (simp_all add: focus_down [symmetric])
  note IH = Bin.IH(1) [OF this(1) srt(1)] Bin.IH(2) [OF this(2) srt(2)]
  have fl: "find (\<lambda>b. key k \<le> key b) (inorder l) = None" if "key a \<le> key k"
    using that srt(3) by (force simp: find_None_iff)
  consider "key k < key a" | "key a < key k" | "key k = key a" by (rule linorder_cases)
  then show ?case
  proof cases
    case 1
    then show ?thesis using nd IH(1) [of a] compare_less [of k a]
      by (subst lower_loop.simps) (simp add: find_append less_imp_le split: option.splits)
  next
    case 2
    then show ?thesis using nd less_imp_neq [OF 2] IH(2) [of res] fl compare_less [of k a] compare_greater [of k a]
      by (subst lower_loop.simps) (simp add: find_append)
  next
    case 3
    then show ?thesis using nd fl compare_less [of k a] compare_greater [of k a]
      by (subst lower_loop.simps) (simp add: find_append)
  qed
qed

lemma upper_loop_find:
  assumes "focus s fs t" and "by_key key (inorder t)"
  shows "upper_loop compare k (addr t) res s = Some (case find (\<lambda>a. key k < key a) (inorder t) of None \<Rightarrow> res | Some a \<Rightarrow> a)"
  using assms
proof (induction t arbitrary: fs res)
  case Tip
  then show ?case by (subst upper_loop.simps) simp
next
  case (Bin l a c r)
  have f: "focus s fs (bin Lft a c l r)" using Bin.prems(1) by simp
  note nd = focus_node [OF f]
  have srt: "by_key key (inorder l)" "by_key key (inorder r)" "\<And>b. b \<in> addrs l \<Longrightarrow> key b < key a"
    using Bin.prems(2) by (auto simp: by_key_def sorted_wrt_append)
  have "focus s (Frame Lft a c r # fs) l" "focus s (Frame Rgt a c l # fs) r" using f by (simp_all add: focus_down [symmetric])
  note IH = Bin.IH(1) [OF this(1) srt(1)] Bin.IH(2) [OF this(2) srt(2)]
  show ?case
  proof (cases "key k < key a")
    case True
    then show ?thesis using nd IH(1) [of a] compare_less [of k a]
      by (subst upper_loop.simps) (simp add: find_append split: option.splits)
  next
    case False
    then have "find (\<lambda>b. key k < key b) (inorder l) = None" using srt(3) by (force simp: find_None_iff)
    then show ?thesis using False nd IH(2) [of res] compare_less [of k a]
      by (subst upper_loop.simps) (simp add: find_append)
  qed
qed

lemma find_loop_find:
  assumes "focus s fs t" and "by_key key (inorder t)"
  shows "find_loop compare k (addr t) s = Some (or_null (find (\<lambda>a. key k = key a) (inorder t)))"
  using assms
proof (induction t arbitrary: fs)
  case Tip
  then show ?case by (subst find_loop.simps) (simp add: or_null_def)
next
  case (Bin l a c r)
  have f: "focus s fs (bin Lft a c l r)" using Bin.prems(1) by simp
  note nd = focus_node [OF f]
  have srt: "by_key key (inorder l)" "by_key key (inorder r)" "\<And>b. b \<in> addrs l \<Longrightarrow> key b < key a" "\<And>b. b \<in> addrs r \<Longrightarrow> key a < key b"
    using Bin.prems(2) by (auto simp: by_key_def sorted_wrt_append)
  have "focus s (Frame Lft a c r # fs) l" "focus s (Frame Rgt a c l # fs) r" using f by (simp_all add: focus_down [symmetric])
  note IH = Bin.IH(1) [OF this(1) srt(1)] Bin.IH(2) [OF this(2) srt(2)]
  have fl: "find (\<lambda>b. key k = key b) (inorder l) = None" if "key a \<le> key k" using that srt(3) by (force simp: find_None_iff)
  have fr: "find (\<lambda>b. key k = key b) (inorder r) = None" if "key k \<le> key a" using that srt(4) by (force simp: find_None_iff)
  consider "key k < key a" | "key a < key k" | "key k = key a" by (rule linorder_cases)
  then show ?case
  proof cases
    case 1
    then show ?thesis using nd less_imp_neq [OF 1] IH(1) fr compare_less [of k a]
      by (subst find_loop.simps) (simp add: find_append split: option.splits)
  next
    case 2
    then show ?thesis using nd less_imp_neq [OF 2] IH(2) fl compare_less [of k a] compare_greater [of k a]
      by (subst find_loop.simps) (simp add: find_append)
  next
    case 3
    then show ?thesis using nd fl compare_less [of k a] compare_greater [of k a]
      by (subst find_loop.simps) (simp add: find_append or_null_def)
  qed
qed

lemma rb_search_list:
  assumes "rb_list s xs" and "by_key key xs"
  shows "rb_find compare k s = Some (or_null (find (\<lambda>a. key k = key a) xs))"
    and "rb_lower_bound compare k s = Some (or_null (find (\<lambda>a. key k \<le> key a) xs))"
    and "rb_upper_bound compare k s = Some (or_null (find (\<lambda>a. key k < key a) xs))"
proof -
  obtain t where t: "focus s [] t" "inorder t = xs" "rb_root s = addr t" using assms(1) by (auto simp: rb_list_def focus_def)
  have o: "by_key key (inorder t)" using assms(2) t(2) by simp
  show "rb_find compare k s = Some (or_null (find (\<lambda>a. key k = key a) xs))"
    "rb_lower_bound compare k s = Some (or_null (find (\<lambda>a. key k \<le> key a) xs))"
    "rb_upper_bound compare k s = Some (or_null (find (\<lambda>a. key k < key a) xs))"
    using find_loop_find [OF t(1) o] lower_loop_find [OF t(1) o] upper_loop_find [OF t(1) o] t(2,3)
    by (simp_all add: rb_find_def rb_lower_bound_def rb_upper_bound_def or_null_def)
qed

lemma insert_walk_focus:
  assumes "focus s fs t" and "by_key key (inorder t)" and "\<forall>a \<in> set (beyond Lft fs). key a < key n" and "\<forall>b \<in> set (beyond Rgt fs). key n < key b"
  shows "if \<exists>a \<in> addrs t. key a = key n then insert_walk compare n (addr t) (up_addr fs) (up_link fs) s = Some None
    else \<exists>gs. insert_walk compare n (addr t) (up_addr fs) (up_link fs) s = Some (Some (up_addr gs, up_link gs)) \<and> plug gs Tip = plug fs t \<and>
      (\<forall>a \<in> set (beyond Lft gs). key a < key n) \<and> (\<forall>b \<in> set (beyond Rgt gs). key n < key b)"
  using assms
proof (induction t arbitrary: fs)
  case Tip
  then show ?case by (subst insert_walk.simps) (auto intro!: exI [of _ fs])
next
  case (Bin l a c r)
  have f: "focus s fs (bin Lft a c l r)" using Bin.prems(1) by simp
  note nd = focus_node [OF f]
  have srt: "by_key key (inorder l)" "by_key key (inorder r)" "\<And>b. b \<in> addrs l \<Longrightarrow> key b < key a" "\<And>b. b \<in> addrs r \<Longrightarrow> key a < key b"
    using Bin.prems(2) by (auto simp: by_key_def sorted_wrt_append)
  have fl: "focus s (Frame Lft a c r # fs) l" and fr: "focus s (Frame Rgt a c l # fs) r" using f by (simp_all add: focus_down [symmetric])
  consider "key n < key a" | "key a < key n" | "key n = key a" by (rule linorder_cases)
  then show ?case
  proof cases
    case 1
    have b: "\<forall>b \<in> set (beyond Rgt (Frame Lft a c r # fs)). key n < key b" "\<forall>b \<in> set (beyond Lft (Frame Lft a c r # fs)). key b < key n"
      using 1 Bin.prems(3,4) srt(4) by (auto simp: dir_def intro: less_trans)
    have "insert_walk compare n a (up_addr fs) (up_link fs) s = insert_walk compare n (addr l) a (Some Lft) s"
      using 1 nd compare_less [of n a] by (subst insert_walk.simps) simp
    moreover have "(\<exists>b \<in> addrs (Bin l a c r). key b = key n) = (\<exists>b \<in> addrs l. key b = key n)" using 1 srt(4) by fastforce
    ultimately show ?thesis using Bin.IH(1) [OF fl srt(1) b(2,1)] by (simp only: addr.simps up_addr.simps up_link.simps frame_addr.simps plug.simps bin.simps)
  next
    case 2
    have b: "\<forall>b \<in> set (beyond Rgt (Frame Rgt a c l # fs)). key n < key b" "\<forall>b \<in> set (beyond Lft (Frame Rgt a c l # fs)). key b < key n"
      using 2 Bin.prems(3,4) srt(3) by (auto simp: dir_def intro: less_trans)
    have "insert_walk compare n a (up_addr fs) (up_link fs) s = insert_walk compare n (addr r) a (Some Rgt) s"
      using 2 nd compare_less [of n a] compare_greater [of n a] by (subst insert_walk.simps) simp
    moreover have "(\<exists>b \<in> addrs (Bin l a c r). key b = key n) = (\<exists>b \<in> addrs r. key b = key n)" using 2 srt(3) by fastforce
    ultimately show ?thesis using Bin.IH(2) [OF fr srt(2) b(2,1)] by (simp only: addr.simps up_addr.simps up_link.simps frame_addr.simps plug.simps bin.simps)
  next
    case 3
    then show ?thesis using nd compare_less [of n a] compare_greater [of n a] by (subst insert_walk.simps) auto
  qed
qed

lemma rb_insert_list:
  assumes "rb_list s xs" and o: "by_key key xs" and n: "n \<noteq> NULL" "n \<notin> set xs"
  shows "if \<exists>a \<in> set xs. key a = key n then rb_insert compare n s = Some (-1, s)
    else \<exists>s'. rb_insert compare n s = Some (0, s') \<and> rb_list s' (insort_key key n xs) \<and> by_key key (insort_key key n xs) \<and>
      rb_size s' = rb_size s + 1 \<and> (\<forall>q. q \<notin> insert n (set xs) \<longrightarrow> rb_at s' q = rb_at s q)"
proof -
  obtain t where t: "focus s [] t" "rb_inv t" "inorder t = xs" "rb_root s = addr t" using assms(1) by (auto simp: rb_list_def focus_def)
  have A: "addrs t = set xs" using t(3) set_inorder by metis
  have "by_key key (inorder t)" using o t(3) by simp
  note w = insert_walk_focus [OF t(1) this, of n, simplified, unfolded A t(4) [symmetric]]
  show ?thesis
  proof (cases "\<exists>a \<in> set xs. key a = key n")
    case True
    then show ?thesis using w by (simp add: rb_insert_def)
  next
    case False
    then obtain gs where gs: "insert_walk compare n (rb_root s) NULL None s = Some (Some (up_addr gs, up_link gs))" "plug gs Tip = t"
      "\<forall>a \<in> set (beyond Lft gs). key a < key n" "\<forall>b \<in> set (beyond Rgt gs). key n < key b" using w by auto
    have f: "focus s gs Tip" using t(1) gs(2) focus_plug by metis
    have c: "ctx_addrs gs = set xs" using A gs(2) addrs_plug [of gs Tip] by simp
    have xs: "xs = rev (beyond Lft gs) @ beyond Rgt gs" using inorder_plug [of gs Tip] gs(2) t(3) by simp
    obtain s1 where s1: "do { s \<leftarrow> rb_put n (\<lambda>_. \<lparr>rb_parent = up_addr gs, rb_left = NULL, rb_right = NULL, rb_colour = RB_RED\<rparr>) s;
          case up_link gs of None \<Rightarrow> Some (s\<lparr>rb_root := n\<rparr>) | Some d \<Rightarrow> rb_put (up_addr gs) (set_child d n) s } = Some s1"
      "focus s1 gs (bin Lft n RB_RED Tip Tip)" "within (insert n (ctx_addrs gs)) s s1"
      by (rule link_node [OF f n(1)]) (use n(2) c in simp)
    let ?s = "s1\<lparr>rb_size := rb_size s1 + 1\<rparr>" and ?n = "bin Lft n RB_RED Tip Tip"
    have f1: "focus ?s gs ?n" using s1(2) by (simp add: focus_def)
    have "ctx_inv gs (bheight Tip)" using t(2) gs(2) plug_inv [of gs Tip] by simp
    from insert_fixup_focus [OF f1 this] obtain s' t' where s': "insert_fixup n ?s = Some s'" "focus s' [] t'"
      "inorder t' = inorder (plug gs ?n)" "rb_inv t'" "within (addrs (plug gs ?n)) ?s s'" by auto
    have ins: "inorder t' = insort_key key n xs"
      unfolding s'(3) inorder_plug xs by (subst insort_middle) (use gs(3,4) in auto)
    have "rb_insert compare n s = Some (0, s')"
      using gs(1) s1(1) s'(1) by (auto simp: rb_insert_def bind_eq_Some_conv)
    moreover have "rb_list s' (insort_key key n xs)" unfolding rb_list_def using s'(2,4) ins by blast
    moreover have "by_key key (insort_key key n xs)"
    proof -
      have "insort_key key n xs = rev (beyond Lft gs) @ n # beyond Rgt gs" unfolding xs by (rule insort_middle) (use gs(3,4) in auto)
      then show ?thesis using o gs(3,4) unfolding xs by (auto simp: by_key_def sorted_wrt_append)
    qed
    moreover have "rb_size s' = rb_size s + 1" "\<forall>q. q \<notin> insert n (set xs) \<longrightarrow> rb_at s' q = rb_at s q"
      using s'(5) s1(3) c by (auto simp: within_def)
    ultimately show ?thesis using False by auto
  qed
qed

end

end
