(* ===== verification/Rbtree_Remove.thy ===== *)
theory Rbtree_Remove
  imports Rbtree_Search
begin

text \<open>
  What \<^verbatim>\<open>rb_remove\<close> does: the tree stays balanced and loses exactly one node.
\<close>

section \<open>Restoring the black heights\<close>

text \<open>The outcome of a repair: a balanced tree with the given nodes in order.\<close>

definition repaired :: "ptree \<Rightarrow> rb_tree \<Rightarrow> rb_tree option \<Rightarrow> bool" where
  "repaired T s r \<longleftrightarrow> (\<exists>s' t. r = Some s' \<and> focus s' [] t \<and> inorder t = inorder T \<and> rb_inv t \<and> within (addrs T) s s')"

lemma repaired_step:
  assumes "repaired T' s' r" and "inorder T' = inorder T" and "within A s s'" and "A \<subseteq> addrs T"
  shows "repaired T s r"
proof -
  have "addrs T' = addrs T" using assms(2) set_inorder by metis
  moreover from assms(1) obtain s'' t where t: "r = Some s''" "focus s'' [] t" "inorder t = inorder T'" "rb_inv t" "within (addrs T') s' s''"
    unfolding repaired_def by blast
  ultimately have "within (addrs T) s s''" using within_chain [OF assms(3) t(5) assms(4)] by simp
  then show ?thesis using t assms(2) unfolding repaired_def by (intro exI [of _ s''] exI [of _ t]) simp
qed

lemma root_ctx: "ctx_at h root p fs \<Longrightarrow> fs \<noteq> [] \<Longrightarrow> root \<in> ctx_addrs fs"
proof (induction fs arbitrary: p)
  case (Cons f fs)
  obtain d a c y where f: "f = Frame d a c y" by (cases f)
  show ?case using Cons.IH [of a] Cons.prems by (cases "fs = []") (auto simp: f)
qed simp

lemma focus_not_root:
  assumes "focus s fs t" and "fs \<noteq> []"
  shows "addr t \<noteq> rb_root s"
proof -
  have "rb_root s \<in> ctx_addrs fs" using assms root_ctx by (auto simp: focus_def)
  then show ?thesis using assms(1) addr_in [of t] NULL_ctx by (cases "t = Tip") (auto simp: focus_def)
qed

text \<open>The loop ends at the root and at a red node, which is painted black.\<close>

lemma remove_fixup_root:
  assumes f: "focus s [] t" and i: "invc t" "invh t"
  shows "repaired t s (remove_fixup (rb_root s) par s)"
proof (cases "t = Tip")
  case True
  then have "remove_fixup (rb_root s) par s = Some s" using focus_root [OF f] by (subst remove_fixup.simps) simp
  then show ?thesis using f True by (auto simp: repaired_def rb_inv_def intro!: exI [of _ Tip])
next
  case False
  from paint_black [OF f False] obtain s' where s': "paint (addr t) RB_BLACK s = Some s'" "focus s' [] (black t)" "within (addrs t) s s'" .
  have "rb_root s \<noteq> NULL" using f False addr_NULL by (auto simp: focus_def)
  then have "remove_fixup (rb_root s) par s = Some s'" using s'(1) focus_root [OF f] by (subst remove_fixup.simps) simp
  then show ?thesis using s' black_inv [OF i] unfolding repaired_def by (intro exI [of _ s'] exI [of _ "black t"]) simp
qed

lemma remove_fixup_red:
  assumes f: "focus s fs t" and red: "colour t = RB_RED" and i: "invc (black t)" "invh t" "ctx_inv fs (Suc (bheight t))"
  shows "repaired (plug fs t) s (remove_fixup (addr t) par s)"
proof -
  obtain a l r where t: "t = Bin l a RB_RED r" using red by (cases t) auto
  then have nt: "t \<noteq> Tip" by simp
  from paint_black [OF f nt] obtain s' where s': "paint (addr t) RB_BLACK s = Some s'" "focus s' fs (black t)" "within (addrs t) s s'" .
  have "addr t \<noteq> NULL" "rb_colour (rb_at s (addr t)) = RB_RED" using f by (auto simp: focus_def node_is_def t)
  then have run: "remove_fixup (addr t) par s = Some s'" using s'(1) by (subst remove_fixup.simps) simp
  have "rb_inv (plug fs (black t))" unfolding plug_inv using i by (simp add: t)
  moreover have "focus s' [] (plug fs (black t))" using s'(2) focus_plug by blast
  moreover have "inorder (plug fs (black t)) = inorder (plug fs t)" by (rule plug_inorder) simp
  moreover have "within (addrs (plug fs t)) s s'" by (rule within_mono [OF s'(3)]) auto
  ultimately show ?thesis using run unfolding repaired_def by blast
qed

text \<open>The end of a repair with a red child on the far side of the sibling.\<close>

definition far_case :: "side \<Rightarrow> u64 \<Rightarrow> u64 \<Rightarrow> rb_tree \<Rightarrow> rb_tree option" where
  "far_case d parent sibling s =
     do { pc \<leftarrow> rb_get parent rb_colour s;
          s \<leftarrow> paint sibling pc s;
          s \<leftarrow> paint parent RB_BLACK s;
          far \<leftarrow> rb_get sibling (child (opp d)) s;
          s \<leftarrow> (if far \<noteq> NULL then paint far RB_BLACK s else Some s);
          s \<leftarrow> rotate d parent s;
          remove_fixup (rb_root s) parent s }"

definition sibling_case :: "side \<Rightarrow> u64 \<Rightarrow> u64 \<Rightarrow> rb_tree \<Rightarrow> rb_tree option" where
  "sibling_case d parent sibling s =
     do { sl \<leftarrow> rb_get sibling rb_left s;
          sr \<leftarrow> rb_get sibling rb_right s;
          if rb_node_color sl s = RB_BLACK \<and> rb_node_color sr s = RB_BLACK
          then do {
            s \<leftarrow> paint sibling RB_RED s;
            pp \<leftarrow> rb_get parent rb_parent s;
            remove_fixup parent pp s }
          else do {
            far \<leftarrow> rb_get sibling (child (opp d)) s;
            (sibling, s) \<leftarrow>
              (if rb_node_color far s = RB_BLACK
               then do {
                 near \<leftarrow> rb_get sibling (child d) s;
                 s \<leftarrow> paint near RB_BLACK s;
                 s \<leftarrow> paint sibling RB_RED s;
                 s \<leftarrow> rotate (opp d) sibling s;
                 sibling \<leftarrow> rb_get parent (child (opp d)) s;
                 Some (sibling, s) }
               else Some (sibling, s));
            far_case d parent sibling s } }"

lemma far_case_repairs:
  assumes f: "focus s (Frame d p c (bin d b cb y1 y2) # fs) t" and red: "colour y2 = RB_RED"
    and h: "bheight y1 = bheight t" "bheight y2 = bheight t" "invc t" "invh t" "invc y1" "invh y1" "invc y2" "invh y2"
    and r: "c = RB_RED \<longrightarrow> fs \<noteq> [] \<and> up_colour fs = RB_BLACK" "ctx_inv fs (Suc (bheight t) + (if c = RB_BLACK then 1 else 0))"
  shows "repaired (plug (Frame d p c (bin d b cb y1 y2) # fs) t) s (far_case d p b s)"
proof -
  let ?A = "addrs (plug (Frame d p c (bin d b cb y1 y2) # fs) t)"
  obtain e l r' where y2: "y2 = bin Lft e RB_RED l r'" using red by (cases y2) auto
  have g1: "rb_get p rb_colour s = Some c" using focus_frame [OF f] by (simp add: rb_get_def)
  have "focus s (Frame (opp d) p c t # fs) (bin d b cb y1 y2)" using f by (simp add: focus_down [symmetric] bin_opp)
  from paint_focus [OF this] obtain s1 where s1: "paint b c s = Some s1" "focus s1 (Frame (opp d) p c t # fs) (bin d b c y1 y2)" "within {b} s s1" by metis
  have "focus s1 fs (bin d p c t (bin d b c y1 y2))" using s1(2) by (simp only: focus_down [symmetric] bin_opp)
  from paint_focus [OF this] obtain s2 where s2: "paint p RB_BLACK s1 = Some s2" "focus s2 fs (bin d p RB_BLACK t (bin d b c y1 y2))" "within {p} s1 s2" by metis
  have fb: "focus s2 (Frame (opp d) p RB_BLACK t # fs) (bin d b c y1 y2)" using s2(2) by (simp only: focus_down [symmetric] bin_opp)
  have g2: "rb_get b (child (opp d)) s2 = Some e" using focus_node [OF fb] by (simp add: rb_get_def y2)
  have "focus s2 (Frame (opp d) b c y1 # Frame (opp d) p RB_BLACK t # fs) y2" using fb by (simp only: focus_down [symmetric] bin_opp)
  from paint_focus [OF this [unfolded y2]] obtain s3 where s3: "paint e RB_BLACK s2 = Some s3"
    "focus s3 (Frame (opp d) b c y1 # Frame (opp d) p RB_BLACK t # fs) (bin Lft e RB_BLACK l r')" "within {e} s2 s3" by metis
  let ?y2 = "bin Lft e RB_BLACK l r'"
  have e: "e \<noteq> NULL" using focus_node(1) [OF s3(2)] .
  have "focus s3 fs (bin d p RB_BLACK t (bin d b c y1 ?y2))" using s3(2) by (simp only: focus_down [symmetric] bin_opp)
  from rotate_focus [OF this] obtain s4 where s4: "rotate d p s3 = Some s4" "focus s4 fs (bin d b c (bin d p RB_BLACK t y1) ?y2)"
    "within (ctx_addrs fs \<union> addrs (bin d p RB_BLACK t (bin d b c y1 ?y2))) s3 s4" by metis
  let ?T = "plug fs (bin d b c (bin d p RB_BLACK t y1) ?y2)"
  have T: "focus s4 [] ?T" using s4(2) focus_plug by blast
  have hh: "bheight (bin d p RB_BLACK t y1) = Suc (bheight t)" "bheight ?y2 = Suc (bheight t)"
    using h bin_bheight [of t y1 d p RB_BLACK] by (simp_all add: y2)
  then have "bheight (bin d b c (bin d p RB_BLACK t y1) ?y2) = Suc (bheight t) + (if c = RB_BLACK then 1 else 0)"
    using bin_bheight [of "bin d p RB_BLACK t y1" ?y2 d b c] by simp
  then have "rb_inv ?T" unfolding plug_inv using r h hh by (simp add: y2 split: if_splits)
  then have "repaired ?T s4 (remove_fixup (rb_root s4) p s4)" using remove_fixup_root [OF T] by (simp add: rb_inv_def)
  moreover have "inorder (bin d b c (bin d p RB_BLACK t y1) ?y2) = inorder (bin d p c t (bin d b cb y1 y2))"
    unfolding bin_inorder by (intro bin_inorder_cong refl) (simp add: y2)
  then have "inorder ?T = inorder (plug (Frame d p c (bin d b cb y1 y2) # fs) t)" unfolding plug.simps by (rule plug_inorder)
  moreover have "within ?A s s4"
    by (rule within_chain [OF s1(3) within_chain [OF s2(3) within_chain [OF s3(3) s4(3), of ?A], of ?A]]) (auto simp: y2)
  ultimately have "repaired (plug (Frame d p c (bin d b cb y1 y2) # fs) t) s (remove_fixup (rb_root s4) p s4)"
    by (rule repaired_step) simp
  then show ?thesis using g1 s1(1) s2(1) g2 e s3(1) s4(1) by (simp add: far_case_def)
qed

lemma children_black:
  assumes "focus s fs (bin d b c y1 y2)"
  shows "rb_node_color (rb_left (rb_at s b)) s = RB_BLACK \<and> rb_node_color (rb_right (rb_at s b)) s = RB_BLACK \<longleftrightarrow>
    colour y1 = RB_BLACK \<and> colour y2 = RB_BLACK"
proof -
  have "focus s (Frame d b c y2 # fs) y1" "focus s (Frame (opp d) b c y1 # fs) y2"
    using assms by (simp_all add: focus_down [symmetric] bin_opp)
  note c = node_color_colour [OF this(1)] node_color_colour [OF this(2)]
  show ?thesis using c focus_node(3,4) [OF assms] by (cases d) auto
qed

lemma sibling_case_repairs:
  assumes f: "focus s (Frame d p c (bin d b RB_BLACK y1 y2) # fs) t"
    and h: "bheight y1 = bheight t" "bheight y2 = bheight t" "invc t" "invh t" "invc y1" "invh y1" "invc y2" "invh y2"
    and r: "c = RB_RED \<longrightarrow> fs \<noteq> [] \<and> up_colour fs = RB_BLACK" "ctx_inv fs (Suc (bheight t) + (if c = RB_BLACK then 1 else 0))"
    and rec: "\<And>s'. colour y1 = RB_BLACK \<Longrightarrow> colour y2 = RB_BLACK \<Longrightarrow> focus s' fs (bin d p c t (bin d b RB_RED y1 y2)) \<Longrightarrow>
      repaired (plug fs (bin d p c t (bin d b RB_RED y1 y2))) s' (remove_fixup p (up_addr fs) s')"
  shows "repaired (plug (Frame d p c (bin d b RB_BLACK y1 y2) # fs) t) s (sibling_case d p b s)"
proof -
  let ?T = "plug (Frame d p c (bin d b RB_BLACK y1 y2) # fs) t"
  have fb: "focus s (Frame (opp d) p c t # fs) (bin d b RB_BLACK y1 y2)" using f by (simp add: focus_down [symmetric] bin_opp)
  note nb = focus_node [OF fb]
  have get: "rb_get b rb_left s = Some (rb_left (rb_at s b))" "rb_get b rb_right s = Some (rb_right (rb_at s b))"
    "rb_get b (child (opp d)) s = Some (addr y2)" "rb_get b (child d) s = Some (addr y1)" using nb by (simp_all add: rb_get_def)
  note cb = children_black [OF fb]
  show ?thesis
  proof (cases "colour y1 = RB_BLACK \<and> colour y2 = RB_BLACK")
    case True
    from paint_focus [OF fb] obtain s1 where s1: "paint b RB_RED s = Some s1" "focus s1 (Frame (opp d) p c t # fs) (bin d b RB_RED y1 y2)" "within {b} s s1" by metis
    have fp: "focus s1 fs (bin d p c t (bin d b RB_RED y1 y2))" using s1(2) by (simp only: focus_down [symmetric] bin_opp)
    have "rb_get p rb_parent s1 = Some (up_addr fs)" using focus_node [OF fp] by (simp add: rb_get_def)
    then have run: "sibling_case d p b s = remove_fixup p (up_addr fs) s1" using get cb True s1(1) by (simp add: sibling_case_def)
    have "repaired (plug fs (bin d p c t (bin d b RB_RED y1 y2))) s1 (remove_fixup p (up_addr fs) s1)" by (rule rec) (use True fp in auto)
    moreover have "inorder (plug fs (bin d p c t (bin d b RB_RED y1 y2))) = inorder ?T"
      unfolding plug.simps by (intro plug_inorder bin_inorder_cong refl)
    ultimately have "repaired ?T s (remove_fixup p (up_addr fs) s1)" by (rule repaired_step [OF _ _ s1(3)]) auto
    then show ?thesis using run by simp
  next
    case False
    then have nb: "\<not> (rb_node_color (rb_left (rb_at s b)) s = RB_BLACK \<and> rb_node_color (rb_right (rb_at s b)) s = RB_BLACK)" using cb by blast
    have "focus s (Frame (opp d) b RB_BLACK y1 # Frame (opp d) p c t # fs) y2" using fb by (simp only: focus_down [symmetric] bin_opp)
    note far = node_color_colour [OF this]
    show ?thesis
    proof (cases "colour y2")
      case RB_RED
      have "sibling_case d p b s = far_case d p b s" using get far RB_RED by (simp add: sibling_case_def if_not_P [OF nb])
      then show ?thesis using far_case_repairs [OF f RB_RED h r] by simp
    next
      case y2b: RB_BLACK
      then have "colour y1 = RB_RED" using False colour_cases by metis
      then obtain n n1 n2 where y1: "y1 = bin d n RB_RED n1 n2" by (cases y1) (use bin_exists in \<open>force+\<close>)
      have fn: "focus s (Frame d b RB_BLACK y2 # Frame (opp d) p c t # fs) y1" using fb by (simp only: focus_down [symmetric])
      from paint_focus [OF fn [unfolded y1]] obtain s1 where s1: "paint n RB_BLACK s = Some s1"
        "focus s1 (Frame d b RB_BLACK y2 # Frame (opp d) p c t # fs) (bin d n RB_BLACK n1 n2)" "within {n} s s1" by metis
      have "focus s1 (Frame (opp d) p c t # fs) (bin d b RB_BLACK (bin d n RB_BLACK n1 n2) y2)" using s1(2) by (simp only: focus_down [symmetric])
      from paint_focus [OF this] obtain s2 where s2: "paint b RB_RED s1 = Some s2"
        "focus s2 (Frame (opp d) p c t # fs) (bin d b RB_RED (bin d n RB_BLACK n1 n2) y2)" "within {b} s1 s2" by metis
      have "focus s2 (Frame (opp d) p c t # fs) (bin (opp d) b RB_RED y2 (bin (opp d) n RB_BLACK n2 n1))" using s2(2) by (simp add: bin_opp)
      from rotate_focus [OF this] obtain s3 where s3: "rotate (opp d) b s2 = Some s3"
        "focus s3 (Frame (opp d) p c t # fs) (bin (opp d) n RB_BLACK (bin (opp d) b RB_RED y2 n2) n1)"
        "within (ctx_addrs (Frame (opp d) p c t # fs) \<union> addrs (bin (opp d) b RB_RED y2 (bin (opp d) n RB_BLACK n2 n1))) s2 s3" by metis
      let ?y = "bin d n RB_BLACK n1 (bin d b RB_RED n2 y2)"
      have f3: "focus s3 (Frame d p c ?y # fs) t" using s3(2) by (simp add: focus_down [symmetric] bin_opp)
      have gp: "rb_get p (child (opp d)) s3 = Some n" using focus_frame [OF f3] by (simp add: rb_get_def)
      have run: "sibling_case d p b s = far_case d p n s3" using get far y2b s1(1) s2(1) s3(1) gp by (simp add: y1 sibling_case_def if_not_P [OF nb])
      have hn: "bheight n1 = bheight t" "bheight n2 = bheight t" using h bin_bheight [of n1 n2 d n RB_RED] by (simp_all add: y1)
      have "repaired (plug (Frame d p c ?y # fs) t) s3 (far_case d p n s3)"
        by (rule far_case_repairs [OF f3 _ _ _ _ _ _ _ _ _ r]) (use h hn bin_bheight [of n2 y2 d b RB_RED] y2b in \<open>auto simp: y1\<close>)
      moreover have "inorder ?y = inorder (bin d b RB_BLACK y1 y2)" unfolding y1 by (cases d) simp_all
      then have "inorder (plug (Frame d p c ?y # fs) t) = inorder ?T"
        unfolding plug.simps by (intro plug_inorder bin_inorder_cong refl)
      moreover have "within (addrs ?T) s s3"
        by (rule within_chain [OF s1(3) within_chain [OF s2(3) s3(3), of "addrs ?T"]]) (auto simp: y1)
      ultimately have "repaired ?T s (far_case d p n s3)" by (rule repaired_step) simp
      then show ?thesis using run by simp
    qed
  qed
qed

lemma remove_fixup_repairs:
  assumes "focus s fs t" and "invc t" "invh t" and "ctx_inv fs (Suc (bheight t))"
  shows "repaired (plug fs t) s (remove_fixup (addr t) (up_addr fs) s)"
  using assms
proof (induction fs arbitrary: s t)
  case Nil
  then show ?case using remove_fixup_root [of s t] focus_root [of s t] by simp
next
  case (Cons f gs)
  obtain d p c y where f: "f = Frame d p c y" by (cases f)
  note foc = Cons.prems(1) [unfolded f]
  let ?T = "plug (Frame d p c y # gs) t"
  show ?case
  proof (cases "colour t")
    case RB_RED
    then have "invc (black t)" using Cons.prems(2) by (cases t) auto
    then show ?thesis using remove_fixup_red [OF Cons.prems(1) RB_RED _ Cons.prems(3,4)] by blast
  next
    case RB_BLACK
    have y: "bheight y = Suc (bheight t)" "invc y" "invh y" "c = RB_RED \<longrightarrow> colour y = RB_BLACK \<and> gs \<noteq> [] \<and> up_colour gs = RB_BLACK"
      "ctx_inv gs (Suc (bheight t) + (if c = RB_BLACK then 1 else 0))" using Cons.prems(4) by (auto simp: f)
    then have "y \<noteq> Tip" by auto
    then obtain b cb y1 y2 where yy: "y = bin d b cb y1 y2" by (cases y) (use bin_exists in \<open>force+\<close>)
    note nd = focus_frame [OF foc]
    have fy: "focus s (Frame (opp d) p c t # gs) y" using foc by (simp add: focus_down [symmetric] bin_opp)
    have by0: "addr y \<noteq> NULL" "addr y \<notin> addrs t"
      using focus_node [OF fy [unfolded yy]] fy by (auto simp: yy focus_def)
    have ne: "addr t \<noteq> addr y" using by0 addr_in [of t] by (cases "t = Tip") auto
    have loop: "addr t = NULL \<or> rb_colour (rb_at s (addr t)) = RB_BLACK"
      using node_color_colour [OF foc] RB_BLACK by (auto simp: rb_node_color_def split: if_splits)
    have nr: "addr t \<noteq> rb_root s" by (rule focus_not_root [OF foc]) simp
    have sd: "(if addr t = rb_left (rb_at s p) then Lft else Rgt) = d" by (rule side_of_frame [OF foc ne])
    have gets: "rb_get p rb_left s = Some (rb_left (rb_at s p))" "rb_get p (child (opp d)) s = Some b" using nd by (simp_all add: rb_get_def yy)
    have red: "is_red b s \<longleftrightarrow> cb = RB_RED" using is_red_colour [OF fy] by (simp add: yy)
    have hy: "bheight y1 = bheight y2" "invc y1" "invh y1" "invc y2" "invh y2" using y(2,3) by (simp_all add: yy)
    have run: "remove_fixup (addr t) p s =
        do { (sibling, s) \<leftarrow>
               (if is_red b s
                then do { s \<leftarrow> paint b RB_BLACK s; s \<leftarrow> paint p RB_RED s; s \<leftarrow> rotate d p s;
                          sibling \<leftarrow> rb_get p (child (opp d)) s; Some (sibling, s) }
                else Some (b, s));
             sibling_case d p sibling s }"
      by (subst remove_fixup.simps)
        (simp only: loop nr gets sd Option.bind.simps Let_def sibling_case_def [abs_def] far_case_def [abs_def] not_False_eq_True simp_thms if_True)
    show ?thesis
    proof (cases cb)
      case cbb: RB_BLACK
      have h: "bheight y1 = bheight t" "bheight y2 = bheight t" using y(1) hy(1) bin_bheight [of y1 y2 d b cb] by (simp_all add: yy cbb)
      have "remove_fixup (addr t) p s = sibling_case d p b s" using run red cbb by simp
      moreover have "repaired (plug (Frame d p c (bin d b RB_BLACK y1 y2) # gs) t) s (sibling_case d p b s)"
      proof (rule sibling_case_repairs)
        show "focus s (Frame d p c (bin d b RB_BLACK y1 y2) # gs) t" using foc by (simp add: yy cbb)
        fix s'
        assume a: "colour y1 = RB_BLACK" "colour y2 = RB_BLACK" "focus s' gs (bin d p c t (bin d b RB_RED y1 y2))"
        have hb: "bheight (bin d b RB_RED y1 y2) = bheight t" using bin_bheight [of y1 y2 d b RB_RED] h by simp
        let ?t = "bin d p c t (bin d b RB_RED y1 y2)"
        have ht: "bheight ?t = bheight t + (if c = RB_BLACK then 1 else 0)" "invh ?t" "invc (black ?t)"
          using hb bin_bheight [of t "bin d b RB_RED y1 y2" d p c] h hy a(1,2) Cons.prems(2,3) by (simp, simp, cases d, simp_all)
        have "repaired (plug gs ?t) s' (remove_fixup (addr ?t) (up_addr gs) s')"
        proof (cases c)
          case RB_RED
          show ?thesis by (rule remove_fixup_red [OF a(3) _ ht(3,2)]) (use ht(1) y(5) RB_RED in simp_all)
        next
          case RB_BLACK
          show ?thesis by (rule Cons.IH [OF a(3)]) (use ht a(1,2) y(5) RB_BLACK hy Cons.prems(2) in simp_all)
        qed
        then show "repaired (plug gs ?t) s' (remove_fixup p (up_addr gs) s')" by simp
      qed (use h hy y(4,5) Cons.prems(2,3) in auto)
      ultimately show ?thesis by (simp add: f yy cbb)
    next
      case cbr: RB_RED
      then have c: "c = RB_BLACK" using y(4) by (cases c) (auto simp: yy)
      have h: "bheight y1 = Suc (bheight t)" "bheight y2 = Suc (bheight t)" "colour y1 = RB_BLACK" "colour y2 = RB_BLACK"
        using y(1,2) hy(1) bin_bheight [of y1 y2 d b cb] by (simp_all add: yy cbr)
      from paint_focus [OF fy [unfolded yy]] obtain s1 where s1: "paint b RB_BLACK s = Some s1"
        "focus s1 (Frame (opp d) p c t # gs) (bin d b RB_BLACK y1 y2)" "within {b} s s1" by metis
      have "focus s1 gs (bin d p c t (bin d b RB_BLACK y1 y2))" using s1(2) by (simp only: focus_down [symmetric] bin_opp)
      from paint_focus [OF this] obtain s2 where s2: "paint p RB_RED s1 = Some s2"
        "focus s2 gs (bin d p RB_RED t (bin d b RB_BLACK y1 y2))" "within {p} s1 s2" by metis
      from rotate_focus [OF s2(2)] obtain s3 where s3: "rotate d p s2 = Some s3" "focus s3 gs (bin d b RB_BLACK (bin d p RB_RED t y1) y2)"
        "within (ctx_addrs gs \<union> addrs (bin d p RB_RED t (bin d b RB_BLACK y1 y2))) s2 s3" by metis
      let ?fs = "Frame d b RB_BLACK y2 # gs"
      have "y1 \<noteq> Tip" using h(1) by auto
      then obtain b1 z1 z2 where y1: "y1 = bin d b1 RB_BLACK z1 z2" using h(3) by (cases y1) (use bin_exists in \<open>force+\<close>)
      have f3: "focus s3 (Frame d p RB_RED (bin d b1 RB_BLACK z1 z2) # ?fs) t" using s3(2) by (simp add: focus_down [symmetric] y1)
      have "rb_get p (child (opp d)) s3 = Some b1" using focus_frame [OF f3] by (simp add: rb_get_def)
      then have go: "remove_fixup (addr t) p s = sibling_case d p b1 s3" using run red cbr s1(1) s2(1) s3(1) by simp
      have hz: "bheight z1 = bheight t" "bheight z2 = bheight t" "invc z1" "invc z2" "invh z1" "invh z2"
        using h(1) hy bin_bheight [of z1 z2 d b1 RB_BLACK] by (auto simp: y1)
      have "repaired (plug (Frame d p RB_RED (bin d b1 RB_BLACK z1 z2) # ?fs) t) s3 (sibling_case d p b1 s3)"
      proof (rule sibling_case_repairs [OF f3])
        fix s'
        assume a: "colour z1 = RB_BLACK" "colour z2 = RB_BLACK" "focus s' ?fs (bin d p RB_RED t (bin d b1 RB_RED z1 z2))"
        have hb: "bheight (bin d b1 RB_RED z1 z2) = bheight t" using bin_bheight [of z1 z2 d b1 RB_RED] hz by simp
        let ?t = "bin d p RB_RED t (bin d b1 RB_RED z1 z2)"
        have ht: "bheight ?t = bheight t" "invh ?t" "invc (black ?t)"
          using hb bin_bheight [of t "bin d b1 RB_RED z1 z2" d p RB_RED] hz a(1,2) Cons.prems(2,3) by (simp, simp, cases d, simp_all)
        have "repaired (plug ?fs ?t) s' (remove_fixup (addr ?t) (up_addr ?fs) s')"
          by (rule remove_fixup_red [OF a(3) _ ht(3,2)]) (use ht(1) hy h y(5) c in simp_all)
        then show "repaired (plug ?fs ?t) s' (remove_fixup p (up_addr ?fs) s')" by simp
      qed (use hz hy h y(5) c Cons.prems(2,3) in auto)
      moreover have "inorder (bin d b RB_BLACK (bin d p RB_RED t (bin d b1 RB_BLACK z1 z2)) y2) = inorder (bin d p c t y)"
        unfolding yy y1 by (cases d) simp_all
      then have "inorder (plug (Frame d p RB_RED (bin d b1 RB_BLACK z1 z2) # ?fs) t) = inorder ?T"
        unfolding plug.simps by (rule plug_inorder)
      moreover have "within (addrs ?T) s s3"
        by (rule within_chain [OF s1(3) within_chain [OF s2(3) s3(3), of "addrs ?T"]]) (auto simp: yy)
      ultimately have "repaired ?T s (sibling_case d p b1 s3)" by (rule repaired_step) simp
      then show ?thesis using go by (simp add: f)
    qed
  qed
qed

section \<open>Taking a node out\<close>

text \<open>\<open>hole s u fs\<close>: the node \<open>u\<close> is in the place that the context \<open>fs\<close> leaves open.\<close>

definition hole :: "rb_tree \<Rightarrow> u64 \<Rightarrow> frame list \<Rightarrow> bool" where
  "hole s u fs \<longleftrightarrow> ctx_at (rb_at s) (rb_root s) u fs \<and> ctx_apart fs \<and> u \<noteq> NULL \<and> u \<notin> ctx_addrs fs \<and> rb_parent (rb_at s u) = up_addr fs"

lemma focus_hole: "focus s fs (bin d u c x y) \<Longrightarrow> hole s u fs"
  using focus_node [of s fs d u c x y] by (auto simp: focus_def hole_def)

lemma transplant_focus:
  assumes u: "hole s u fs" and v: "tree_at (rb_at s) par v" "apart v" "addrs v \<inter> ctx_addrs fs = {}" "u \<noteq> addr v"
  obtains s' where "transplant u (addr v) s = Some s'" "focus s' fs v" "rb_size s' = rb_size s"
    "\<forall>p. p \<notin> ctx_addrs fs \<and> (p \<noteq> addr v \<or> addr v = NULL) \<longrightarrow> rb_at s' p = rb_at s p"
proof -
  have h: "ctx_at (rb_at s) (rb_root s) u fs" "ctx_apart fs" "u \<noteq> NULL" "u \<notin> ctx_addrs fs" "rb_parent (rb_at s u) = up_addr fs"
    using u by (auto simp: hole_def)
  have nv: "addr v \<notin> ctx_addrs fs" using v(3) addr_in [of v] NULL_ctx [OF h(2)] by (cases "v = Tip") auto
  obtain s1 where s1: "replace_child (up_addr fs) u (addr v) s = Some s1" "ctx_at (rb_at s1) (rb_root s1) (addr v) fs" "rb_size s1 = rb_size s"
    "\<And>p. p \<notin> ctx_addrs fs \<Longrightarrow> rb_at s1 p = (if p = addr v \<and> addr v \<noteq> NULL then (rb_at s p)\<lparr>rb_parent := up_addr fs\<rparr> else rb_at s p)"
    by (rule replace_child_ctx [OF h(1-4) nv]) (rule that, assumption+)
  have "tree_at (rb_at s1) (up_addr fs) v"
  proof (rule tree_at_parent [OF v(1,2)])
    fix p
    assume p: "p \<in> addrs v"
    then have "p \<notin> ctx_addrs fs" "p = addr v \<Longrightarrow> addr v \<noteq> NULL" using v(3) NULL_notin [OF v(2)] by auto
    then show "rb_at s1 p = (if p = addr v then (rb_at s p)\<lparr>rb_parent := up_addr fs\<rparr> else rb_at s p)" using s1(4) [of p] by auto
  qed
  then have f1: "focus s1 fs v" using s1(2) h v by (simp add: focus_def)
  have pv: "rb_parent (rb_at s1 (addr v)) = up_addr fs" if "addr v \<noteq> NULL" using s1(4) [OF nv] that by simp
  have up: "rb_parent (rb_at s1 u) = up_addr fs" using s1(4) [OF h(4)] h(5) v(4) by simp
  have "rb_at s1 (addr v) = (rb_at s1 (addr v))\<lparr>rb_parent := up_addr fs\<rparr>" if "addr v \<noteq> NULL" using pv [OF that] by (cases "rb_at s1 (addr v)") simp
  then have "transplant u (addr v) s = Some s1"
    using h(3,5) s1(1) up by (simp add: transplant_def rb_get_def rb_put_def fun_upd_idem)
  then show thesis by (rule that [OF _ f1 s1(3)]) (use s1(4) in auto)
qed

text \<open>The successor takes the place and the colour of the node.\<close>

definition take_place :: "u64 \<Rightarrow> u64 \<Rightarrow> rb_tree \<Rightarrow> rb_tree option" where
  "take_place z y s =
     do { s \<leftarrow> transplant z y s;
          nl \<leftarrow> rb_get z rb_left s;
          s \<leftarrow> rb_put y (set_child Lft nl) s;
          s \<leftarrow> rb_put nl (\<lambda>n. n\<lparr>rb_parent := y\<rparr>) s;
          nc \<leftarrow> rb_get z rb_colour s;
          paint y nc s }"

lemma take_place_focus:
  assumes z: "hole s z fs" "rb_left (rb_at s z) = addr l" "rb_colour (rb_at s z) = cz" and l: "tree_at (rb_at s) z l" "apart l" "l \<noteq> Tip"
    and v: "tree_at (rb_at s) par (bin Lft y cy Tip r)" "apart (bin Lft y cy Tip r)"
    and dis: "addrs (bin Lft y cy Tip r) \<inter> ctx_addrs fs = {}" "addrs l \<inter> ctx_addrs fs = {}" "addrs l \<inter> addrs (bin Lft y cy Tip r) = {}"
      "z \<notin> addrs (bin Lft y cy Tip r)" "z \<notin> addrs l"
  obtains s' where "take_place z y s = Some s'" "focus s' fs (bin Lft y cz l r)" "within (ctx_addrs fs \<union> addrs l \<union> insert y (addrs r)) s s'"
proof -
  let ?v = "bin Lft y cy Tip r"
  have zn: "z \<noteq> NULL" "z \<notin> ctx_addrs fs" "z \<noteq> y" using z(1) dis(4) by (auto simp: hole_def)
  have "z \<noteq> addr ?v" using zn(3) by simp
  from transplant_focus [OF z(1) v dis(1) this] obtain s1 where s1: "transplant z y s = Some s1" "focus s1 fs ?v" "rb_size s1 = rb_size s"
    "\<forall>p. p \<notin> ctx_addrs fs \<and> p \<noteq> y \<longrightarrow> rb_at s1 p = rb_at s p" by (metis bin_sel(1))
  have al: "addr l \<noteq> NULL" "addr l \<in> addrs l" using addr_NULL [OF l(2)] addr_in [OF l(3)] l(3) by auto
  then have ly: "addr l \<noteq> y" "addr l \<notin> addrs r" "addr l \<notin> ctx_addrs fs" "addr l \<noteq> z" "y \<notin> addrs l" using dis by auto
  have zs: "rb_left (rb_at s1 z) = addr l" "rb_colour (rb_at s1 z) = cz" using s1(4) zn z(2,3) by simp_all
  have yn: "y \<noteq> NULL" "y \<notin> ctx_addrs fs" "y \<notin> addrs r" using v(2) dis(1) by auto
  define h where "h = (rb_at s1)(y := (set_child Lft (addr l) (rb_at s1 y)), addr l := (rb_at s1 (addr l))\<lparr>rb_parent := y\<rparr>)"
  let ?s = "s1\<lparr>rb_at := h(y := (h y)\<lparr>rb_colour := cz\<rparr>)\<rparr>"
  have run: "take_place z y s = Some ?s"
    using s1(1) zs zn yn al ly by (simp add: take_place_def rb_get_def rb_put_def paint_def h_def)
  have ny: "node_is Lft (up_addr fs) NULL (addr r) cy (rb_at s1 y)" and tr: "tree_at (rb_at s1) y r" using s1(2) by (auto simp: focus_def)
  have "tree_at (rb_at ?s) y l"
  proof (rule tree_at_parent [OF l(1,2)])
    fix p
    assume "p \<in> addrs l"
    then have "p \<notin> ctx_addrs fs" "p \<noteq> y" using dis by auto
    then show "rb_at ?s p = (if p = addr l then (rb_at s p)\<lparr>rb_parent := y\<rparr> else rb_at s p)" using s1(4) by (auto simp: h_def)
  qed
  moreover have "tree_at (rb_at ?s) y r" using tr yn ly by (simp add: h_def)
  moreover have "ctx_at (rb_at ?s) (rb_root ?s) y fs" using s1(2) yn ly by (simp add: h_def focus_def)
  moreover have "node_is Lft (up_addr fs) (addr l) (addr r) cz (rb_at ?s y)" using ny ly(1) by (simp add: h_def node_is_def)
  ultimately have "focus ?s fs (bin Lft y cz l r)" using v(2) l(2) z(1) dis by (auto simp: focus_def hole_def)
  moreover have "within (ctx_addrs fs \<union> addrs l \<union> insert y (addrs r)) s ?s"
    using s1(3,4) al(2) by (auto simp: within_def h_def)
  ultimately show thesis using that run by blast
qed

lemma leftmost: "t \<noteq> Tip \<Longrightarrow> \<exists>gs y c x. t = plug gs (bin Lft y c Tip x) \<and> beyond Lft gs = []"
proof (induction t)
  case (Bin l a c r)
  show ?case
  proof (cases "l = Tip")
    case True
    then show ?thesis by (intro exI [of _ "[]"] exI) auto
  next
    case False
    then obtain gs y cy x where g: "l = plug gs (bin Lft y cy Tip x)" "beyond Lft gs = []" using Bin.IH(1) by blast
    have "beyond Lft (gs @ [Frame Lft a c r]) = []" using g(2)
    proof (induction gs)
      case (Cons g gs)
      then show ?case by (cases g) (auto split: if_splits)
    qed simp
    then show ?thesis using g(1) by (intro exI [of _ "gs @ [Frame Lft a c r]"] exI) (auto simp: plug_append)
  qed
qed simp

text \<open>The address in a frame does not matter for the balance.\<close>

lemma ctx_inv_addr: "ctx_inv (gs @ Frame d a c y # fs) h = ctx_inv (gs @ Frame d b c y # fs) h"
proof (induction gs arbitrary: h)
  case (Cons g gs)
  have "up_colour (gs @ Frame d a c y # fs) = up_colour (gs @ Frame d b c y # fs)" by (cases gs rule: up_colour.cases) simp_all
  then show ?case using Cons.IH by (cases g) simp
qed simp

lemma up_append: "up_addr (gs @ fs) = (if gs = [] then up_addr fs else up_addr gs)"
  by (cases gs) simp_all

lemma ctx_addrs_append: "ctx_addrs (gs @ fs) = ctx_addrs gs \<union> ctx_addrs fs"
proof (induction gs)
  case (Cons g gs)
  then show ?case by (cases g) auto
qed simp

text \<open>The end of \<^verbatim>\<open>rb_remove\<close>, with a black or a red node gone from above \<open>x\<close>.\<close>

lemma remove_finish:
  assumes f: "focus s fs x" and i: "ctx_inv fs (bheight x + (if c = RB_BLACK then 1 else 0))" "invc x" "invh x"
    "c = RB_RED \<Longrightarrow> colour x = RB_BLACK"
  shows "repaired (plug fs x) s (if c = RB_BLACK then remove_fixup (addr x) (up_addr fs) s else Some s)"
proof (cases c)
  case RB_BLACK
  then show ?thesis using remove_fixup_repairs [OF f] i by simp
next
  case RB_RED
  then have "rb_inv (plug fs x)" unfolding plug_inv using i by simp
  moreover have "focus s [] (plug fs x)" using f focus_plug by blast
  ultimately show ?thesis unfolding repaired_def using RB_RED by auto
qed

lemma remove_one_child:
  assumes f: "focus s fs (bin d z c Tip v)" and inv: "rb_inv (plug fs (bin d z c Tip v))"
  obtains s1 where "transplant z (addr v) s = Some s1" "rb_size s1 = rb_size s" "\<forall>q. q \<notin> ctx_addrs fs \<union> addrs v \<longrightarrow> rb_at s1 q = rb_at s q"
    "repaired (plug fs v) (s1\<lparr>rb_size := n\<rparr>)
       (if c = RB_BLACK then remove_fixup (addr v) (up_addr fs) (s1\<lparr>rb_size := n\<rparr>) else Some (s1\<lparr>rb_size := n\<rparr>))"
proof -
  have v: "tree_at (rb_at s) z v" "apart v" "addrs v \<inter> ctx_addrs fs = {}" "z \<notin> addrs v" using f by (auto simp: focus_def)
  have zv: "z \<noteq> addr v" using focus_node(1) [OF f] v(4) addr_in [of v] by (cases "v = Tip") auto
  obtain s1 where s1: "transplant z (addr v) s = Some s1" "focus s1 fs v" "rb_size s1 = rb_size s"
    "\<forall>p. p \<notin> ctx_addrs fs \<and> (p \<noteq> addr v \<or> addr v = NULL) \<longrightarrow> rb_at s1 p = rb_at s p"
    by (rule transplant_focus [OF focus_hole [OF f] v(1-3) zv])
  have pi: "ctx_inv fs (bheight (bin d z c Tip v))" "invc v" "invh v" "bheight v = 0" "c = RB_RED \<Longrightarrow> colour v = RB_BLACK"
    using inv unfolding plug_inv by auto
  have "bheight (bin d z c Tip v) = bheight v + (if c = RB_BLACK then 1 else 0)" using bin_bheight [of Tip v d z c] pi(4) by simp
  moreover have "focus (s1\<lparr>rb_size := n\<rparr>) fs v" using s1(2) by (simp add: focus_def)
  ultimately have r: "repaired (plug fs v) (s1\<lparr>rb_size := n\<rparr>)
       (if c = RB_BLACK then remove_fixup (addr v) (up_addr fs) (s1\<lparr>rb_size := n\<rparr>) else Some (s1\<lparr>rb_size := n\<rparr>))"
    using remove_finish [of "s1\<lparr>rb_size := n\<rparr>" fs v c] pi by simp
  have "rb_at s1 q = rb_at s q" if q: "q \<notin> ctx_addrs fs \<union> addrs v" for q
  proof (cases "q = addr v")
    case True
    then have "v = Tip" using q addr_in [of v] by auto
    then show ?thesis using q s1(4) by simp
  next
    case False
    then show ?thesis using q s1(4) by auto
  qed
  then show thesis using that [OF s1(1,3) _ r] by blast
qed

text \<open>The case of two children.\<close>

definition swap_out :: "u64 \<Rightarrow> u64 \<Rightarrow> rb_tree \<Rightarrow> (rb_color \<times> u64 \<times> u64 \<times> rb_tree) option" where
  "swap_out node r s =
     do {
       y \<leftarrow> descend Lft r s;
       yc \<leftarrow> rb_get y rb_colour s;
       x \<leftarrow> rb_get y rb_right s;
       yp \<leftarrow> rb_get y rb_parent s;
       (x_parent, s) \<leftarrow>
         (if yp = node then Some (y, s)
          else do {
            yr \<leftarrow> rb_get y rb_right s;
            s \<leftarrow> transplant y yr s;
            nr \<leftarrow> rb_get node rb_right s;
            s \<leftarrow> rb_put y (set_child Rgt nr) s;
            s \<leftarrow> rb_put nr (\<lambda>n. n\<lparr>rb_parent := y\<rparr>) s;
            Some (yp, s) });
       s \<leftarrow> take_place node y s;
       Some (yc, x, x_parent, s) }"

text \<open>The successor \<open>y\<close> is taken out of the right subtree, whose other nodes become its own.\<close>

lemma take_successor:
  assumes f: "focus s fs (bin Lft z cz l (plug gs (bin Lft y yc Tip x)))"
  obtains s' par where
    "(if rb_parent (rb_at s y) = z then Some (y, s)
      else do { yr \<leftarrow> rb_get y rb_right s; s' \<leftarrow> transplant y yr s; nr \<leftarrow> rb_get z rb_right s'; s' \<leftarrow> rb_put y (set_child Rgt nr) s';
            s' \<leftarrow> rb_put nr (\<lambda>n. n\<lparr>rb_parent := y\<rparr>) s'; Some (rb_parent (rb_at s y), s') }) = Some (up_addr (gs @ Frame Rgt y cz l # fs), s')"
    "hole s' z fs" "rb_left (rb_at s' z) = addr l" "rb_colour (rb_at s' z) = cz" "tree_at (rb_at s') z l"
    "tree_at (rb_at s') par (bin Lft y yc Tip (plug gs x))" "apart (bin Lft y yc Tip (plug gs x))"
    "within (addrs (plug fs (bin Lft z cz l (plug gs (bin Lft y yc Tip x))))) s s'"
proof (cases "gs = []")
  case True
  let ?v = "bin Lft y yc Tip x"
  have "focus s (Frame Rgt z cz l # fs) ?v" using f by (simp add: True focus_down [symmetric])
  note ny = focus_node [OF this]
  show thesis
    by (rule that [of s z]) (use f focus_hole [OF f] focus_node [OF f] ny in \<open>auto simp: True focus_def\<close>)
next
  case False
  let ?r = "plug gs (bin Lft y yc Tip x)" and ?zf = "Frame Rgt z cz l # fs" and ?r' = "plug gs x"
  have fr: "focus s ?zf ?r" using f by (simp add: focus_down [symmetric])
  have fy: "focus s (gs @ ?zf) (bin Lft y yc Tip x)" using fr focus_plug [of s "gs @ ?zf"] focus_plug [of s ?zf ?r] by (simp add: plug_append)
  note ny = focus_node [OF fy]
  have dis: "z \<notin> addrs l" "z \<notin> addrs ?r" "addrs l \<inter> addrs ?r = {}" "addrs ?r \<inter> ctx_addrs fs = {}" using f by (auto simp: focus_def)
  have ra: "addrs ?r = ctx_addrs gs \<union> insert y (addrs x)" by simp
  have yx: "y \<notin> addrs x" "apart x" "tree_at (rb_at s) y x" "addrs x \<inter> ctx_addrs (gs @ ?zf) = {}" "y \<notin> ctx_addrs (gs @ ?zf)" "y \<noteq> NULL"
    using fy by (auto simp: focus_def)
  have yax: "y \<noteq> addr x" using yx(1,6) addr_in [of x] by (cases "x = Tip") auto
  obtain s1 where s1: "transplant y (addr x) s = Some s1" "focus s1 (gs @ ?zf) x" "rb_size s1 = rb_size s"
    "\<forall>p. p \<notin> ctx_addrs (gs @ ?zf) \<and> (p \<noteq> addr x \<or> addr x = NULL) \<longrightarrow> rb_at s1 p = rb_at s p"
    by (rule transplant_focus [OF focus_hole [OF fy] yx(3,2,4) yax])
  have fz: "focus s1 fs (bin Lft z cz l ?r')" using s1(2) focus_plug [of s1 "gs @ ?zf"] focus_plug [of s1 ?zf ?r'] by (simp add: plug_append focus_down [symmetric])
  note nz = focus_node [OF fz]
  have r'a: "addrs ?r' = ctx_addrs gs \<union> addrs x" by simp
  have gs0: "up_addr gs \<in> ctx_addrs gs" using False by (cases gs rule: ctx_addrs.cases) auto
  then have "?r' \<noteq> Tip" using r'a by (metis Un_iff addrs.simps(1) empty_iff)
  moreover have "apart ?r'" using fz by (simp add: focus_def)
  ultimately have nr: "addr ?r' \<noteq> NULL" "addr ?r' \<in> addrs ?r'" using addr_NULL [of ?r'] addr_in [of ?r'] by simp_all
  have yr': "y \<notin> addrs ?r'" using yx(1,5) by (auto simp: ctx_addrs_append)
  have y1: "rb_at s1 y = rb_at s y" using s1(4) yx(5) yax by auto
  have yp: "rb_parent (rb_at s y) = up_addr gs" "up_addr gs \<noteq> z" using ny(2) False gs0 dis(2) by (auto simp: up_append)
  define h where "h = (rb_at s1)(y := set_child Rgt (addr ?r') (rb_at s1 y), addr ?r' := (rb_at s1 (addr ?r'))\<lparr>rb_parent := y\<rparr>)"
  let ?s = "s1\<lparr>rb_at := h\<rparr>"
  have ney: "addr ?r' \<noteq> y" using nr(2) yr' by auto
  have zz: "z \<noteq> y" "z \<noteq> addr ?r'" using dis(2) nr(2) by auto
  have "rb_get y rb_right s = Some (addr x)" "rb_get z rb_right s1 = Some (addr ?r')" using ny nz by (simp_all add: rb_get_def)
  then have run: "(if rb_parent (rb_at s y) = z then Some (y, s)
      else do { yr \<leftarrow> rb_get y rb_right s; s' \<leftarrow> transplant y yr s; nr \<leftarrow> rb_get z rb_right s'; s' \<leftarrow> rb_put y (set_child Rgt nr) s';
            s' \<leftarrow> rb_put nr (\<lambda>n. n\<lparr>rb_parent := y\<rparr>) s'; Some (rb_parent (rb_at s y), s') }) = Some (up_addr (gs @ Frame Rgt y cz l # fs), ?s)"
    using yp s1(1) nr(1) yx(6) ney False by (simp add: rb_put_def h_def up_append)
  show thesis
  proof (rule that [OF run])
    have out: "y \<notin> ctx_addrs fs" "addr ?r' \<notin> ctx_addrs fs" "y \<notin> addrs l" "addr ?r' \<notin> addrs l" using dis nr(2) by auto
    show "hole ?s z fs" using fz out zz nz by (auto simp: hole_def focus_def h_def)
    show "rb_left (rb_at ?s z) = addr l" "rb_colour (rb_at ?s z) = cz" using zz nz by (simp_all add: h_def)
    show "tree_at (rb_at ?s) z l" using fz out by (auto simp: focus_def h_def)
    have "tree_at (rb_at ?s) y ?r'"
    proof (rule tree_at_parent [of "rb_at s1" z])
      show "tree_at (rb_at s1) z ?r'" "apart ?r'" using fz by (auto simp: focus_def)
      show "rb_at ?s p = (if p = addr ?r' then (rb_at s1 p)\<lparr>rb_parent := y\<rparr> else rb_at s1 p)" if "p \<in> addrs ?r'" for p
        using that yr' by (auto simp: h_def)
    qed
    then show "tree_at (rb_at ?s) (rb_parent (rb_at ?s y)) (bin Lft y yc Tip ?r')"
      using ny ney y1 by (simp add: h_def node_is_def)
    show "apart (bin Lft y yc Tip ?r')" using fz yr' yx(6) by (auto simp: focus_def)
    show "within (addrs (plug fs (bin Lft z cz l ?r))) s ?s"
      unfolding within_def
    proof (intro conjI allI impI)
      fix q
      assume q: "q \<notin> addrs (plug fs (bin Lft z cz l ?r))"
      then have "q \<noteq> y" "q \<noteq> addr ?r'" "q \<notin> ctx_addrs (gs @ ?zf)" using nr(2) by (auto simp: ctx_addrs_append)
      moreover have "q \<noteq> addr x \<or> addr x = NULL" using q addr_in [of x] by (cases "x = Tip") auto
      ultimately show "rb_at ?s q = rb_at s q" using s1(4) by (simp add: h_def)
    qed (use s1(3) in simp)
  qed
qed

lemma swap_out_focus:
  assumes f: "focus s fs (bin Lft z cz l (plug gs (bin Lft y yc Tip x)))" and l: "l \<noteq> Tip" and b: "beyond Lft gs = []"
  obtains s' where "swap_out z (addr (plug gs (bin Lft y yc Tip x))) s = Some (yc, addr x, up_addr (gs @ Frame Rgt y cz l # fs), s')"
    "focus s' (gs @ Frame Rgt y cz l # fs) x" "within (addrs (plug fs (bin Lft z cz l (plug gs (bin Lft y yc Tip x))))) s s'"
proof -
  let ?r = "plug gs (bin Lft y yc Tip x)" and ?zf = "Frame Rgt z cz l # fs" and ?r' = "plug gs x"
  let ?A = "addrs (plug fs (bin Lft z cz l ?r))"
  have fr: "focus s ?zf ?r" using f by (simp add: focus_down [symmetric])
  have fy: "focus s (gs @ ?zf) (bin Lft y yc Tip x)" using fr focus_plug [of s "gs @ ?zf"] focus_plug [of s ?zf ?r] by (simp add: plug_append)
  note ny = focus_node [OF fy]
  have "y \<in> addrs ?r" by simp
  then have rn: "?r \<noteq> Tip" by (metis addrs.simps(1) empty_iff)
  have "inorder ?r = y # inorder x @ beyond Rgt gs" using inorder_plug [of gs "bin Lft y yc Tip x"] b by simp
  then have ds: "descend Lft (addr ?r) s = Some y" using descend_first [OF fr rn, of Lft] by (simp add: dir_def)
  have gets: "rb_get y rb_colour s = Some yc" "rb_get y rb_right s = Some (addr x)" "rb_get y rb_parent s = Some (rb_parent (rb_at s y))"
    using ny by (simp_all add: rb_get_def)
  obtain s1 par where s1: "(if rb_parent (rb_at s y) = z then Some (y, s)
      else do { yr \<leftarrow> rb_get y rb_right s; s' \<leftarrow> transplant y yr s; nr \<leftarrow> rb_get z rb_right s'; s' \<leftarrow> rb_put y (set_child Rgt nr) s';
            s' \<leftarrow> rb_put nr (\<lambda>n. n\<lparr>rb_parent := y\<rparr>) s'; Some (rb_parent (rb_at s y), s') }) = Some (up_addr (gs @ Frame Rgt y cz l # fs), s1)"
    "hole s1 z fs" "rb_left (rb_at s1 z) = addr l" "rb_colour (rb_at s1 z) = cz" "tree_at (rb_at s1) z l"
    "tree_at (rb_at s1) par (bin Lft y yc Tip ?r')" "apart (bin Lft y yc Tip ?r')" "within ?A s s1"
    by (rule take_successor [OF f])
  have dis: "z \<notin> addrs l" "z \<notin> addrs ?r" "addrs l \<inter> addrs ?r = {}" "addrs l \<inter> ctx_addrs fs = {}" "addrs ?r \<inter> ctx_addrs fs = {}" "apart l"
    using f by (auto simp: focus_def)
  have ad: "addrs (bin Lft y yc Tip ?r') = addrs ?r" by auto
  obtain s' where s': "take_place z y s1 = Some s'" "focus s' fs (bin Lft y cz l ?r')" "within (ctx_addrs fs \<union> addrs l \<union> insert y (addrs ?r')) s1 s'"
    by (rule take_place_focus [OF s1(2-5) dis(6) l s1(6,7)]) (use dis ad in auto)
  have "swap_out z (addr ?r) s = Some (yc, addr x, up_addr (gs @ Frame Rgt y cz l # fs), s')"
    unfolding swap_out_def using ds gets s1(1) s'(1) by (simp del: plug.simps)
  moreover have "focus s' (gs @ Frame Rgt y cz l # fs) x"
    using s'(2) focus_plug [of s' "gs @ Frame Rgt y cz l # fs" x] focus_plug [of s' fs] by (simp add: plug_append)
  moreover have "within ?A s s'" by (rule within_chain [OF s1(8) s'(3)]) auto
  ultimately show thesis by (rule that)
qed

lemma rb_remove_two:
  assumes "rb_get z rb_colour s = Some c" "rb_get z rb_left s = Some l" "rb_get z rb_right s = Some r" "rb_get z rb_parent s = Some np"
    and "l \<noteq> NULL" "r \<noteq> NULL"
  shows "rb_remove z s = do { (yc, x, xp, s) \<leftarrow> swap_out z r s; let s = s\<lparr>rb_size := rb_size s - 1\<rparr>;
    if yc = RB_BLACK then remove_fixup x xp s else Some s }"
  using assms by (simp add: rb_remove_def swap_out_def take_place_def split_def Let_def cong: if_cong)

lemma rb_remove_list:
  assumes "rb_list s (xs @ z # ys)"
  obtains s' where "rb_remove z s = Some s'" "rb_list s' (xs @ ys)" "rb_size s' = rb_size s - 1"
    "\<forall>q. q \<notin> set (xs @ z # ys) \<longrightarrow> rb_at s' q = rb_at s q"
proof -
  obtain t where t: "focus s [] t" "rb_inv t" "inorder t = xs @ z # ys" using assms by (auto simp: rb_list_def)
  have z: "z \<in> addrs t" using t(3) unfolding set_inorder [symmetric] by simp
  obtain fs cz l r where p: "plug [] t = plug fs (bin Lft z cz l r)" by (rule focus_at [OF z])
  let ?T = "plug fs (bin Lft z cz l r)"
  have f: "focus s fs (bin Lft z cz l r)" and inv: "rb_inv ?T" using t(1,2) p focus_plug by simp_all
  have A: "addrs ?T = set (xs @ z # ys)" using t(3) p set_inorder [of t] by (metis plug.simps(1))
  note nz = focus_node [OF f]
  have gets: "rb_get z rb_colour s = Some cz" "rb_get z rb_left s = Some (addr l)" "rb_get z rb_right s = Some (addr r)" "rb_get z rb_parent s = Some (up_addr fs)"
    using nz by (simp_all add: rb_get_def)
  have d: "distinct (xs @ z # ys)" using rb_list_distinct [OF assms] by blast
  have "xs @ z # ys = (rev (beyond Lft fs) @ inorder l) @ z # (inorder r @ beyond Rgt fs)" using t(3) p by (simp add: inorder_plug)
  note xy = split_unique [OF this d]
  have lr: "addr l = NULL \<longleftrightarrow> l = Tip" "addr r = NULL \<longleftrightarrow> r = Tip" using f addr_NULL by (auto simp: focus_def)
  note result = that
  have fin: thesis
    if run: "rb_remove z s = res" and rep: "repaired T' s1 res" and s1: "rb_size s1 = rb_size s - 1" "\<forall>q. q \<notin> addrs ?T \<longrightarrow> rb_at s1 q = rb_at s q"
      and T': "inorder T' = xs @ ys" for T' s1 res
  proof -
    obtain s' u where s': "res = Some s'" "focus s' [] u" "inorder u = inorder T'" "rb_inv u" "within (addrs T') s1 s'"
      using rep unfolding repaired_def by blast
    have "addrs T' = set (xs @ ys)" using T' set_inorder by metis
    then have "\<forall>q. q \<notin> set (xs @ z # ys) \<longrightarrow> rb_at s' q = rb_at s q" using s'(5) s1(2) unfolding A within_def by simp
    moreover have "rb_list s' (xs @ ys)" unfolding rb_list_def using s' T' by auto
    moreover have "rb_size s' = rb_size s - 1" using s'(5) s1(1) by (simp add: within_def)
    ultimately show thesis using result [of s'] run s'(1) by simp
  qed
  note rm = rb_remove_def [of z s, unfolded gets, simplified]
  show thesis
  proof (cases "l = Tip \<or> r = Tip")
    case True
    then obtain e v where v: "bin Lft z cz l r = bin e z cz Tip v" "(if addr l = NULL then addr r else addr l) = addr v" "inorder v = inorder l @ inorder r"
    proof
      assume "l = Tip"
      then show thesis using that [of Lft r] by simp
    next
      assume "r = Tip"
      then show thesis using that [of Rgt l] lr by auto
    qed
    have f': "focus s fs (bin e z cz Tip v)" and inv': "rb_inv (plug fs (bin e z cz Tip v))" using f inv v(1) by simp_all
    obtain s1 where s1: "transplant z (addr v) s = Some s1" "rb_size s1 = rb_size s" "\<forall>q. q \<notin> ctx_addrs fs \<union> addrs v \<longrightarrow> rb_at s1 q = rb_at s q"
      "repaired (plug fs v) (s1\<lparr>rb_size := rb_size s - 1\<rparr>)
       (if cz = RB_BLACK then remove_fixup (addr v) (up_addr fs) (s1\<lparr>rb_size := rb_size s - 1\<rparr>) else Some (s1\<lparr>rb_size := rb_size s - 1\<rparr>))"
      by (rule remove_one_child [OF f' inv', of "rb_size s - 1"])
    have run: "rb_remove z s = (if cz = RB_BLACK then remove_fixup (addr v) (up_addr fs) (s1\<lparr>rb_size := rb_size s - 1\<rparr>) else Some (s1\<lparr>rb_size := rb_size s - 1\<rparr>))"
      using s1(1,2) v(2) True lr unfolding rm by (auto simp: Let_def)
    have "addrs v \<subseteq> addrs ?T" using v(1) by auto
    with s1(3) have "\<forall>q. q \<notin> addrs ?T \<longrightarrow> rb_at (s1\<lparr>rb_size := rb_size s - 1\<rparr>) q = rb_at s q" by auto
    from fin [OF run s1(4) _ this] show thesis using xy by (simp add: inorder_plug v(3))
  next
    case False
    then obtain gs y yc x where r: "r = plug gs (bin Lft y yc Tip x)" "beyond Lft gs = []" using leftmost by blast
    obtain s1 where s1: "swap_out z (addr r) s = Some (yc, addr x, up_addr (gs @ Frame Rgt y cz l # fs), s1)"
      "focus s1 (gs @ Frame Rgt y cz l # fs) x" "within (addrs ?T) s s1"
      using swap_out_focus [OF f [unfolded r(1)] _ r(2)] False unfolding r(1) by metis
    let ?fs = "gs @ Frame Rgt y cz l # fs" and ?s = "s1\<lparr>rb_size := rb_size s1 - 1\<rparr>"
    have "rb_remove z s = (if yc = RB_BLACK then remove_fixup (addr x) (up_addr ?fs) ?s else Some ?s)"
      using rb_remove_two [OF gets] False lr s1(1) by simp
    moreover have pi: "ctx_inv ?fs (bheight (bin Lft y yc Tip x))" "invc x" "invh x" "bheight x = 0" "yc = RB_RED \<Longrightarrow> colour x = RB_BLACK"
      using inv plug_inv [of "gs @ Frame Rgt z cz l # fs" "bin Lft y yc Tip x"] ctx_inv_addr [of gs Rgt z cz l fs _ y]
      by (auto simp: r(1) plug_append)
    have "focus ?s ?fs x" using s1(2) by (simp add: focus_def)
    from remove_finish [OF this, of yc] have "repaired (plug ?fs x) ?s (if yc = RB_BLACK then remove_fixup (addr x) (up_addr ?fs) ?s else Some ?s)"
      using pi by simp
    moreover have "inorder (plug ?fs x) = xs @ ys"
      using xy r by (simp add: plug_append inorder_plug)
    moreover have "rb_size ?s = rb_size s - 1" "\<forall>q. q \<notin> addrs ?T \<longrightarrow> rb_at ?s q = rb_at s q" using s1(3) by (simp_all add: within_def)
    ultimately show thesis using fin by blast
  qed
qed

end
