(* ===== verification/Rbtree_Props.thy ===== *)
theory Rbtree_Props
  imports Rbtree_Remove "HOL-Library.Multiset"
begin

text \<open>
  The contract of the red-black tree. \<open>rb_list s xs\<close> says that the tree in memory is well-linked and
  balanced and that \<open>xs\<close> are the addresses of its nodes from left to right; \<open>comparator compare key\<close> that the
  comparison function of the tree compares keys.
\<close>

section \<open>Building a tree\<close>

fun insert_all :: "(u64 \<Rightarrow> u64 \<Rightarrow> int) \<Rightarrow> u64 list \<Rightarrow> rb_tree \<Rightarrow> rb_tree option" where
  "insert_all compare [] s = Some s"
| "insert_all compare (n # ns) s = do { (r, s) \<leftarrow> rb_insert compare n s; if r = 0 then insert_all compare ns s else None }"

lemma insert_all_list:
  assumes c: "comparator compare key" and "rb_list s xs" and "by_key key xs" and "NULL \<notin> set ns" and "distinct (map key (xs @ ns))"
  shows "\<exists>s'. insert_all compare ns s = Some s' \<and> rb_list s' (foldl (\<lambda>xs n. insort_key key n xs) xs ns) \<and>
    by_key key (foldl (\<lambda>xs n. insort_key key n xs) xs ns) \<and> rb_size s' = rb_size s + of_nat (length ns)"
  using assms(2-)
proof (induction ns arbitrary: s xs)
  case (Cons n ns)
  have "n \<noteq> NULL" "n \<notin> set xs" "\<not> (\<exists>a \<in> set xs. key a = key n)"
    using Cons.prems(3,4) by (auto, metis image_eqI)
  with comparator.rb_insert_list [OF c Cons.prems(1,2) this(1,2)] obtain s1 where
    s1: "rb_insert compare n s = Some (0, s1)" "rb_list s1 (insort_key key n xs)" "by_key key (insort_key key n xs)" "rb_size s1 = rb_size s + 1" by auto
  have "set (map key (insort_key key n xs)) = insert (key n) (key ` set xs)" by (auto simp: set_insort_key)
  moreover have "distinct (map key (insort_key key n xs))"
    using s1(3) by (auto simp: by_key_def sorted_wrt_map [symmetric] strict_sorted_iff)
  ultimately have "distinct (map key (insort_key key n xs @ ns))" using Cons.prems(4) by (auto simp: set_insort_key)
  from Cons.IH [OF s1(2,3) _ this] Cons.prems(3) show ?case using s1(1,4) by (auto simp: algebra_simps)
qed auto

text \<open>Nodes ordered by their addresses, for examples.\<close>

definition addr_cmp :: "u64 \<Rightarrow> u64 \<Rightarrow> int" where
  "addr_cmp a b = (if a < b then -1 else if b < a then 1 else 0)"

interpretation addr_order: comparator addr_cmp unat
  by unfold_locales (auto simp: addr_cmp_def word_less_nat_alt)

definition empty_tree :: rb_tree where
  "empty_tree = \<lparr>rb_root = NULL, rb_size = 0, rb_at = (\<lambda>_. \<lparr>rb_parent = NULL, rb_left = NULL, rb_right = NULL, rb_colour = RB_BLACK\<rparr>)\<rparr>"

lemma example_tree:
  obtains s where "rb_list s [0x1000, 0x2000, 0x3000, 0x4000, 0x5000]" "by_key unat [0x1000, 0x2000, 0x3000, 0x4000, 0x5000 :: u64]" "rb_size s = 5"
proof -
  have "rb_list empty_tree []" by (rule rb_list_Nil) (simp add: empty_tree_def)
  from insert_all_list [OF addr_order.comparator_axioms this, of "[0x3000, 0x1000, 0x5000, 0x2000, 0x4000]"] obtain s where
    "rb_list s [0x1000, 0x2000, 0x3000, 0x4000, 0x5000]" "rb_size s = 5" by (auto simp: by_key_def empty_tree_def)
  moreover have "by_key unat [0x1000, 0x2000, 0x3000, 0x4000, 0x5000 :: u64]" by (simp add: by_key_def)
  ultimately show thesis by (intro that)
qed

section \<open>Properties\<close>

text \<open>
  C29. \<^verbatim>\<open>rb_insert\<close> returns -1 and changes nothing when a node with an equal key is in the tree. Otherwise it
  returns 0, the tree stays a balanced red-black tree, its nodes in order are the old ones with the
  new one in its place, the size grows by one, and no node outside the tree is touched.
\<close>
theorem rb_insert_correct:
  assumes "comparator compare key" and "rb_list s xs" and "by_key key xs" and "n \<noteq> NULL" and "n \<notin> set xs"
  shows "if \<exists>a \<in> set xs. key a = key n then rb_insert compare n s = Some (-1, s)
    else \<exists>s'. rb_insert compare n s = Some (0, s') \<and> rb_list s' (insort_key key n xs) \<and> by_key key (insort_key key n xs) \<and>
      rb_size s' = rb_size s + 1 \<and> (\<forall>q. q \<notin> insert n (set xs) \<longrightarrow> rb_at s' q = rb_at s q)"
  by (rule comparator.rb_insert_list [OF assms])

theorem rb_insert_correct_witness:
  "\<exists>s s'. rb_insert addr_cmp 0x2800 s = Some (0, s') \<and> rb_list s' [0x1000, 0x2000, 0x2800, 0x3000, 0x4000, 0x5000]"
proof -
  obtain s where s: "rb_list s [0x1000, 0x2000, 0x3000, 0x4000, 0x5000]" "by_key unat [0x1000, 0x2000, 0x3000, 0x4000, 0x5000 :: u64]" "rb_size s = 5"
    by (rule example_tree)
  from rb_insert_correct [OF addr_order.comparator_axioms s(1,2), of "0x2800"] show ?thesis by auto
qed

text \<open>
  C30. \<^verbatim>\<open>rb_remove\<close> of a node of the tree returns: the tree stays a balanced red-black tree, its nodes in
  order are the others, the size shrinks by one, and no node outside the tree is touched.
\<close>
theorem rb_remove_correct:
  assumes "rb_list s (xs @ z # ys)"
  shows "\<exists>s'. rb_remove z s = Some s' \<and> rb_list s' (xs @ ys) \<and> rb_size s' = rb_size s - 1 \<and>
    (\<forall>q. q \<notin> set (xs @ z # ys) \<longrightarrow> rb_at s' q = rb_at s q)"
proof -
  obtain s' where "rb_remove z s = Some s'" "rb_list s' (xs @ ys)" "rb_size s' = rb_size s - 1"
    "\<forall>q. q \<notin> set (xs @ z # ys) \<longrightarrow> rb_at s' q = rb_at s q"
    by (rule rb_remove_list [OF assms])
  then show ?thesis by (intro exI [of _ s'] conjI)
qed

theorem rb_remove_correct_witness:
  "\<exists>s s'. rb_remove 0x2000 s = Some s' \<and> rb_list s' [0x1000, 0x3000, 0x4000, 0x5000] \<and> rb_size s' = 4"
proof -
  obtain s where s: "rb_list s [0x1000, 0x2000, 0x3000, 0x4000, 0x5000]" "rb_size s = 5" by (rule example_tree)
  from rb_remove_correct [of s "[0x1000]" "0x2000" "[0x3000, 0x4000, 0x5000]"] s show ?thesis by auto
qed

text \<open>
  C31. Searching and walking through the tree returns and agrees with the list of its nodes: \<^verbatim>\<open>rb_find\<close> gives
  the node with the key, \<^verbatim>\<open>rb_lower_bound\<close> and \<^verbatim>\<open>rb_upper_bound\<close> the first node whose key is not below, or
  above, the key, \<^verbatim>\<open>rb_first\<close> and \<^verbatim>\<open>rb_last\<close> the ends, \<^verbatim>\<open>rb_next\<close> and \<^verbatim>\<open>rb_prev\<close> the neighbours; null where there is none.
\<close>
theorem rb_search_correct:
  assumes "comparator compare key" and "rb_list s xs" and "by_key key xs"
  shows "rb_find compare k s = Some (or_null (find (\<lambda>a. key k = key a) xs)) \<and>
    rb_lower_bound compare k s = Some (or_null (find (\<lambda>a. key k \<le> key a) xs)) \<and>
    rb_upper_bound compare k s = Some (or_null (find (\<lambda>a. key k < key a) xs)) \<and>
    rb_first s = Some (first_of xs) \<and> rb_last s = Some (first_of (rev xs)) \<and>
    (\<forall>as a bs. xs = as @ a # bs \<longrightarrow> rb_next a s = Some (first_of bs) \<and> rb_prev a s = Some (first_of (rev as)))"
  using comparator.rb_search_list [OF assms] rb_first_list [OF assms(2)] rb_last_list [OF assms(2)] rb_neighbours_list [of s] assms(2)
  by blast

theorem rb_search_correct_witness:
  "\<exists>s. rb_find addr_cmp 0x3000 s = Some 0x3000 \<and> rb_lower_bound addr_cmp 0x3001 s = Some 0x4000 \<and> rb_upper_bound addr_cmp 0x5000 s = Some NULL \<and>
     rb_next 0x3000 s = Some 0x4000 \<and> rb_prev 0x1000 s = Some NULL"
proof -
  obtain s where s: "rb_list s [0x1000, 0x2000, 0x3000, 0x4000, 0x5000]" "by_key unat [0x1000, 0x2000, 0x3000, 0x4000, 0x5000 :: u64]" by (rule example_tree)
  note r = rb_search_correct [OF addr_order.comparator_axioms s]
  have "rb_find addr_cmp 0x3000 s = Some 0x3000" "rb_lower_bound addr_cmp 0x3001 s = Some 0x4000" "rb_upper_bound addr_cmp 0x5000 s = Some NULL"
    using r [of "0x3000"] r [of "0x3001"] r [of "0x5000"] by (simp_all add: or_null_def)
  moreover have "[0x1000, 0x2000, 0x3000, 0x4000, 0x5000 :: u64] = [0x1000, 0x2000] @ 0x3000 # [0x4000, 0x5000]"
    "[0x1000, 0x2000, 0x3000, 0x4000, 0x5000 :: u64] = [] @ 0x1000 # [0x2000, 0x3000, 0x4000, 0x5000]" by simp_all
  then have "rb_next 0x3000 s = Some 0x4000" "rb_prev 0x1000 s = Some NULL" using r first_of.simps by (metis, metis rev.simps(1))
  ultimately show ?thesis by blast
qed

text \<open>
  C32. Inserting any nodes with different keys into an empty tree, in any order, sorts them by key, and the
  height \<open>h\<close> of the tree of \<open>n\<close> nodes satisfies \<open>2^h \<le> (n + 1)^2\<close>, so that every search
  takes at most about \<open>2 log\<^sub>2 (n + 1)\<close> steps.
\<close>
theorem rb_insert_all_balanced:
  assumes "comparator compare key" and "rb_root s = NULL" and "NULL \<notin> set ns" and "distinct (map key ns)"
  shows "\<exists>s' t. insert_all compare ns s = Some s' \<and> focus s' [] t \<and> inorder t = sort_key key ns \<and>
    2 ^ height t \<le> (length ns + 1)\<^sup>2 \<and> rb_size s' = rb_size s + of_nat (length ns)"
proof -
  have "by_key key []" by (simp add: by_key_def)
  from insert_all_list [OF assms(1) rb_list_Nil [OF assms(2)] this assms(3)] assms(4) obtain s' where
    s': "insert_all compare ns s = Some s'" "rb_list s' (foldl (\<lambda>xs n. insort_key key n xs) [] ns)" "by_key key (foldl (\<lambda>xs n. insort_key key n xs) [] ns)"
      "rb_size s' = rb_size s + of_nat (length ns)" by auto
  let ?xs = "foldl (\<lambda>xs n. insort_key key n xs) [] ns"
  obtain t where t: "focus s' [] t" "rb_inv t" "inorder t = ?xs" using s'(2) by (auto simp: rb_list_def)
  have m: "mset (foldl (\<lambda>xs n. insort_key key n xs) ys ns) = mset ys + mset ns" for ys by (induction ns arbitrary: ys) auto
  have "sorted (map key ?xs)" using s'(3) by (auto simp: by_key_def sorted_wrt_map strict_sorted_iff elim: sorted_wrt_mono_rel [rotated])
  moreover have "inj_on key (set ns)" using assms(4) by (simp add: distinct_map)
  moreover have mx: "mset ?xs = mset ns" using m [of "[]"] by simp
  ultimately have xs: "sort_key key ns = ?xs" by (intro sort_key_inj_key_eq) simp_all
  have "length ?xs = length ns" using mx by (metis size_mset)
  then have "2 ^ height t \<le> (length ns + 1)\<^sup>2" using height_bound [OF t(2)] t(3) by simp
  then show ?thesis using s'(1,4) t xs by auto
qed

theorem rb_insert_all_balanced_witness:
  "\<exists>s t. insert_all addr_cmp [0x3000, 0x1000, 0x5000, 0x2000, 0x4000] empty_tree = Some s \<and> focus s [] t \<and>
     inorder t = [0x1000, 0x2000, 0x3000, 0x4000, 0x5000] \<and> 2 ^ height t \<le> (36::nat)"
proof -
  have "\<exists>s t. insert_all addr_cmp [0x3000, 0x1000, 0x5000, 0x2000, 0x4000] empty_tree = Some s \<and> focus s [] t \<and>
      inorder t = sort_key unat [0x3000, 0x1000, 0x5000, 0x2000, 0x4000] \<and> 2 ^ height t \<le> (length [0x3000, 0x1000, 0x5000, 0x2000, 0x4000 :: u64] + 1)\<^sup>2 \<and>
      rb_size s = rb_size empty_tree + of_nat (length [0x3000, 0x1000, 0x5000, 0x2000, 0x4000 :: u64])"
    by (rule rb_insert_all_balanced [OF addr_order.comparator_axioms]) (simp_all add: empty_tree_def)
  then obtain s t where "insert_all addr_cmp [0x3000, 0x1000, 0x5000, 0x2000, 0x4000] empty_tree = Some s" "focus s [] t"
      "inorder t = [0x1000, 0x2000, 0x3000, 0x4000, 0x5000]" "2 ^ height t \<le> (length [0x3000, 0x1000, 0x5000, 0x2000, 0x4000 :: u64] + 1)\<^sup>2"
    by auto
  moreover have "(length [0x3000, 0x1000, 0x5000, 0x2000, 0x4000 :: u64] + 1)\<^sup>2 = 36" by (simp add: power2_eq_square)
  ultimately show ?thesis by (intro exI [of _ s] exI [of _ t]) simp
qed

end
