(* ===== verification/Paging.thy ===== *)
theory Paging
  imports Kheap "HOL-Library.Sublist"
begin

text \<open>
  The page tables of \<^verbatim>\<open>mm/paging.c\<close>: four-level x86-64 tables reached through the direct map. The
  state extends that of the kernel heap by one more view of memory, \<open>pte_at\<close>, the 64-bit entries of
  the page tables by their address, by the two locks, the list of MMIO regions and the fields of
  \<^verbatim>\<open>kernel_info\<close> that the code uses. \<open>cr3\<close> is the register of the CPU that runs the code; the
  translation look-aside buffer and the \<^verbatim>\<open>invlpg\<close> instructions are not modelled, nor are the log
  messages.

  A table is the virtual address of its first entry; \<open>pt\<close>, as in the code, is a physical address.
\<close>

section \<open>State\<close>

record mmio_region =
  rg_vaddr :: u64
  rg_paddr :: u64
  rg_npages :: u64
  rg_next :: u64

record paging = kheap +
  pte_at :: "u64 \<Rightarrow> u64"
  paging_lock :: spinlock
  mmio_lock :: spinlock
  mmio_at :: "u64 \<Rightarrow> mmio_region"
  mmio_regions :: u64
  kernel_pt :: u64
  kstack_top :: u64
  kaddr_virt :: u64
  kaddr_phys :: u64
  cr3 :: u64

abbreviation (input) PFLAG_PRESENT :: u64 where "PFLAG_PRESENT \<equiv> 0x1"
abbreviation (input) PFLAG_WRITE :: u64 where "PFLAG_WRITE \<equiv> 0x2"
abbreviation (input) PFLAG_USER :: u64 where "PFLAG_USER \<equiv> 0x4"
abbreviation (input) PFLAG_PWT :: u64 where "PFLAG_PWT \<equiv> 0x8"
abbreviation (input) PFLAG_PCD :: u64 where "PFLAG_PCD \<equiv> 0x10"
abbreviation (input) PFLAG_HUGE :: u64 where "PFLAG_HUGE \<equiv> 0x80"
abbreviation (input) PFLAG_NX :: u64 where "PFLAG_NX \<equiv> 0x8000000000000000"
abbreviation (input) PFLAG_RW :: u64 where "PFLAG_RW \<equiv> 0x3"
abbreviation (input) PFLAG_RO :: u64 where "PFLAG_RO \<equiv> 0x1"
abbreviation (input) PFLAG_MMIO :: u64 where "PFLAG_MMIO \<equiv> 0x800000000000001B"

abbreviation (input) PAGE_FRAME_MASK :: u64 where "PAGE_FRAME_MASK \<equiv> 0x000FFFFFFFFFF000"

definition KSTACK_SIZE :: u64 where "KSTACK_SIZE = 64 * 0x1000"

definition pml1_index :: "u64 \<Rightarrow> u64" where "pml1_index v = drop_bit 12 v AND 0x1ff"
definition pml2_index :: "u64 \<Rightarrow> u64" where "pml2_index v = drop_bit 21 v AND 0x1ff"
definition pml3_index :: "u64 \<Rightarrow> u64" where "pml3_index v = drop_bit 30 v AND 0x1ff"
definition pml4_index :: "u64 \<Rightarrow> u64" where "pml4_index v = drop_bit 39 v AND 0x1ff"

text \<open>\<^verbatim>\<open>table[i]\<close> read and written, and \<^verbatim>\<open>memset(table, 0, PAGE_SIZE)\<close> as every view sees it.\<close>

definition pte :: "'b paging_scheme \<Rightarrow> u64 \<Rightarrow> u64 \<Rightarrow> u64" where
  "pte s table i = pte_at s (table + 8 * i)"

definition set_pte :: "u64 \<Rightarrow> u64 \<Rightarrow> 'b paging_scheme \<Rightarrow> 'b paging_scheme" where
  "set_pte a w s = s\<lparr>pte_at := (pte_at s)(a := w)\<rparr>"

definition zero_page :: "u64 \<Rightarrow> 'b paging_scheme \<Rightarrow> 'b paging_scheme" where
  "zero_page a s =
     (zero_mem a PAGE_SIZE s)\<lparr>pte_at := (\<lambda>x. if x - a < PAGE_SIZE then 0 else pte_at s x)\<rparr>"

definition present :: "u64 \<Rightarrow> bool" where
  "present e \<longleftrightarrow> e AND PFLAG_PRESENT \<noteq> 0"

definition acquire_paging :: "int \<Rightarrow> 'b paging_scheme \<Rightarrow> 'b paging_scheme option" where
  "acquire_paging me s = map_option (\<lambda>l. s\<lparr>paging_lock := l\<rparr>) (lock_acquire me (paging_lock s))"

definition release_paging :: "int \<Rightarrow> 'b paging_scheme \<Rightarrow> 'b paging_scheme" where
  "release_paging me s = s\<lparr>paging_lock := lock_release me (paging_lock s)\<rparr>"

definition acquire_mmio :: "int \<Rightarrow> 'b paging_scheme \<Rightarrow> 'b paging_scheme option" where
  "acquire_mmio me s = map_option (\<lambda>l. s\<lparr>mmio_lock := l\<rparr>) (lock_acquire me (mmio_lock s))"

definition release_mmio :: "int \<Rightarrow> 'b paging_scheme \<Rightarrow> 'b paging_scheme" where
  "release_mmio me s = s\<lparr>mmio_lock := lock_release me (mmio_lock s)\<rparr>"

section \<open>Tables\<close>

definition alloc_pte :: "int \<Rightarrow> 'b paging_scheme \<Rightarrow> (u64 \<times> 'b paging_scheme) option" where
  "alloc_pte me s = do {
     (pg, s1) \<leftarrow> pmm_alloc_page me s;
     if pg = NULL then Some (0, s1)
     else let phys = pfn_db_page_to_phys s1 pg in Some (phys, zero_page (PHYS_TO_VIRT s1 phys) s1)}"

definition free_pte :: "int \<Rightarrow> u64 \<Rightarrow> 'b paging_scheme \<Rightarrow> 'b paging_scheme option" where
  "free_pte me phys s =
     (let pg = pfn_db_phys_to_page s phys
      in if pg = NULL then Some s else map_option snd (pmm_page_release me pg s))"

text \<open>Giving up a mapped frame: the statements that mapping over an entry, unmapping and freeing a
  table have in common.\<close>

definition drop_frame :: "int \<Rightarrow> u64 \<Rightarrow> 'b paging_scheme \<Rightarrow> 'b paging_scheme option" where
  "drop_frame me phys s =
     (let pg = pfn_db_phys_to_page s phys in
      if pg = NULL then Some s
      else do { (_, s1) \<leftarrow> pmm_page_unshare me pg s; (_, s2) \<leftarrow> pmm_page_release me pg s1; Some s2 })"

definition pte_next :: "int \<Rightarrow> u64 \<Rightarrow> u64 \<Rightarrow> u64 \<Rightarrow> 'b paging_scheme \<Rightarrow> (u64 \<times> 'b paging_scheme) option" where
  "pte_next me table i flags s =
     (let entry = pte s table i in
      if present entry then Some (PHYS_TO_VIRT s (entry AND PAGE_FRAME_MASK), s)
      else if flags = 0 then Some (NULL, s)
      else do {
        (phys, s1) \<leftarrow> alloc_pte me s;
        if phys = 0 then Some (NULL, s1)
        else let s2 = set_pte (table + 8 * i) (phys OR flags) s1 in Some (PHYS_TO_VIRT s2 phys, s2)})"

definition leaf_entry :: "int \<Rightarrow> u64 \<Rightarrow> u64 \<Rightarrow> u64 \<Rightarrow> 'b paging_scheme \<Rightarrow> (u64 \<times> 'b paging_scheme) option" where
  "leaf_entry me pml4 vaddr flags s = do {
     (pml3, s1) \<leftarrow> pte_next me pml4 (pml4_index vaddr) flags s;
     if pml3 = NULL then Some (NULL, s1) else do {
     (pml2, s2) \<leftarrow> pte_next me pml3 (pml3_index vaddr) flags s1;
     if pml2 = NULL then Some (NULL, s2) else do {
     (pml1, s3) \<leftarrow> pte_next me pml2 (pml2_index vaddr) flags s2;
     if pml1 = NULL then Some (NULL, s3) else Some (pml1 + 8 * pml1_index vaddr, s3)}}}"

text \<open>The recursion over the levels of a table; the code starts it with depth 3.\<close>

fun pte_free_level :: "int \<Rightarrow> nat \<Rightarrow> u64 \<Rightarrow> 'b paging_scheme \<Rightarrow> 'b paging_scheme option" where
  "pte_free_level me 0 table s = None"
| "pte_free_level me (Suc 0) table s = do {
     s1 \<leftarrow> for_each (\<lambda>i t. let entry = pte t table (of_nat i) in
              if \<not> present entry then Some t else drop_frame me (entry AND PAGE_FRAME_MASK) t) [0 ..< 512] s;
     free_pte me (VIRT_TO_PHYS s1 table) s1}"
| "pte_free_level me (Suc (Suc d)) table s = do {
     s1 \<leftarrow> for_each (\<lambda>i t. let entry = pte t table (of_nat i) in
              if \<not> present entry then Some t
              else if entry AND PFLAG_HUGE \<noteq> 0 then Some t
              else pte_free_level me (Suc d) (PHYS_TO_VIRT t (entry AND PAGE_FRAME_MASK)) t) [0 ..< 512] s;
     free_pte me (VIRT_TO_PHYS s1 table) s1}"

definition table_empty :: "'b paging_scheme \<Rightarrow> u64 \<Rightarrow> bool" where
  "table_empty s table \<longleftrightarrow> list_all (\<lambda>i. \<not> present (pte s table (of_nat i))) [0 ..< 512]"

text \<open>Freeing a table that its parent's entry points to, and clearing that entry.\<close>

definition free_table :: "int \<Rightarrow> u64 \<Rightarrow> u64 \<Rightarrow> 'b paging_scheme \<Rightarrow> 'b paging_scheme option" where
  "free_table me parent i s = do {
     s1 \<leftarrow> free_pte me (pte s parent i AND PAGE_FRAME_MASK) s;
     Some (set_pte (parent + 8 * i) 0 s1)}"

definition u_pte_free_empty :: "int \<Rightarrow> u64 \<Rightarrow> u64 \<Rightarrow> 'b paging_scheme \<Rightarrow> 'b paging_scheme option" where
  "u_pte_free_empty me pt vaddr s =
     (let pml4 = PHYS_TO_VIRT s pt; i4 = pml4_index vaddr in
      if \<not> present (pte s pml4 i4) then Some s
      else let pml3 = PHYS_TO_VIRT s (pte s pml4 i4 AND PAGE_FRAME_MASK); i3 = pml3_index vaddr in
      if \<not> present (pte s pml3 i3) then Some s
      else let pml2 = PHYS_TO_VIRT s (pte s pml3 i3 AND PAGE_FRAME_MASK); i2 = pml2_index vaddr in
      if \<not> present (pte s pml2 i2) then Some s
      else let pml1 = PHYS_TO_VIRT s (pte s pml2 i2 AND PAGE_FRAME_MASK) in
      if \<not> table_empty s pml1 then Some s
      else do {
        s1 \<leftarrow> free_table me pml2 i2 s;
        if \<not> table_empty s1 pml2 then Some s1
        else do {
          s2 \<leftarrow> free_table me pml3 i3 s1;
          if \<not> table_empty s2 pml3 then Some s2 else free_table me pml4 i4 s2}})"

section \<open>Mapping and unmapping\<close>

definition table_flags :: "u64 \<Rightarrow> u64" where
  "table_flags flags =
     (if flags AND PFLAG_USER \<noteq> 0 then (PFLAG_PRESENT OR PFLAG_WRITE) OR PFLAG_USER
      else PFLAG_PRESENT OR PFLAG_WRITE)"

text \<open>Writing a leaf entry over whatever is there: the statements that \<^verbatim>\<open>map_page\<close> and
  \<^verbatim>\<open>map_paddr\<close> share.\<close>

definition overwrite_entry :: "int \<Rightarrow> u64 \<Rightarrow> u64 \<Rightarrow> u64 \<Rightarrow> 'b paging_scheme \<Rightarrow> 'b paging_scheme option" where
  "overwrite_entry me entry phys flags s = do {
     s1 \<leftarrow> (if present (pte_at s entry) then drop_frame me (pte_at s entry AND PAGE_FRAME_MASK) s else Some s);
     Some (set_pte entry (phys OR (flags AND NOT PAGE_FRAME_MASK) OR PFLAG_PRESENT) s1)}"

definition map_page :: "int \<Rightarrow> u64 \<Rightarrow> u64 \<Rightarrow> u64 \<Rightarrow> u64 \<Rightarrow> 'b paging_scheme \<Rightarrow> 'b paging_scheme option" where
  "map_page me pt vaddr0 page flags s =
     (if page = NULL then Some s
      else if pt = NULL then Some s
      else do {
        s1 \<leftarrow> acquire_paging me s;
        let vaddr = ALIGN_DOWN vaddr0 PAGE_SIZE;
        let phys = pfn_db_page_to_phys s1 page;
        (entry, s2) \<leftarrow> leaf_entry me (PHYS_TO_VIRT s1 pt) vaddr (table_flags flags) s1;
        if entry = NULL then Some (release_paging me s2)
        else do {
          s3 \<leftarrow> overwrite_entry me entry phys flags s2;
          (_, s4) \<leftarrow> pmm_page_share me page s3;
          (_, s5) \<leftarrow> pmm_page_retain me page s4;
          Some (release_paging me s5)}})"

text \<open>When no table can be allocated, \<^verbatim>\<open>map_paddr\<close> returns with the lock still taken.\<close>

definition map_paddr :: "int \<Rightarrow> u64 \<Rightarrow> u64 \<Rightarrow> u64 \<Rightarrow> u64 \<Rightarrow> 'b paging_scheme \<Rightarrow> 'b paging_scheme option" where
  "map_paddr me pt vaddr0 paddr0 flags s =
     (if pt = NULL then Some s
      else do {
        s1 \<leftarrow> acquire_paging me s;
        let vaddr = ALIGN_DOWN vaddr0 PAGE_SIZE;
        let paddr = ALIGN_DOWN paddr0 PAGE_SIZE;
        (entry, s2) \<leftarrow> leaf_entry me (PHYS_TO_VIRT s1 pt) vaddr (table_flags flags) s1;
        if entry = NULL then Some s2
        else do {
          s3 \<leftarrow> overwrite_entry me entry paddr flags s2;
          Some (release_paging me s3)}})"

definition map_paddr_range ::
  "int \<Rightarrow> u64 \<Rightarrow> u64 \<Rightarrow> u64 \<Rightarrow> u64 \<Rightarrow> u64 \<Rightarrow> 'b paging_scheme \<Rightarrow> 'b paging_scheme option" where
  "map_paddr_range me pt vaddr paddr pnum flags s =
     (if pt = NULL then Some s
      else for_each (\<lambda>i. map_paddr me pt (vaddr + of_nat i * PAGE_SIZE) (paddr + of_nat i * PAGE_SIZE) flags)
             [0 ..< unat pnum] s)"

definition unmap_page :: "int \<Rightarrow> u64 \<Rightarrow> u64 \<Rightarrow> 'b paging_scheme \<Rightarrow> 'b paging_scheme option" where
  "unmap_page me pt vaddr0 s =
     (if pt = NULL then Some s
      else do {
        s1 \<leftarrow> acquire_paging me s;
        let vaddr = ALIGN_DOWN vaddr0 PAGE_SIZE;
        (entry, s2) \<leftarrow> leaf_entry me (PHYS_TO_VIRT s1 pt) vaddr 0 s1;
        if entry = NULL \<or> \<not> present (pte_at s2 entry) then Some (release_paging me s2)
        else do {
          s3 \<leftarrow> drop_frame me (pte_at s2 entry AND PAGE_FRAME_MASK) s2;
          s4 \<leftarrow> u_pte_free_empty me pt vaddr (set_pte entry 0 s3);
          Some (release_paging me s4)}})"

definition get_paddr :: "int \<Rightarrow> u64 \<Rightarrow> u64 \<Rightarrow> 'b paging_scheme \<Rightarrow> (u64 \<times> 'b paging_scheme) option" where
  "get_paddr me pt vaddr s =
     (if pt = NULL then Some (0, s)
      else do {
        (entry, s1) \<leftarrow> leaf_entry me (PHYS_TO_VIRT s pt) vaddr 0 s;
        if entry = NULL \<or> \<not> present (pte_at s1 entry) then Some (0, s1)
        else Some (pte_at s1 entry AND PAGE_FRAME_MASK, s1)})"

definition get_pflags :: "int \<Rightarrow> u64 \<Rightarrow> u64 \<Rightarrow> 'b paging_scheme \<Rightarrow> (u64 \<times> 'b paging_scheme) option" where
  "get_pflags me pt vaddr s =
     (if pt = NULL then Some (0, s)
      else do {
        (entry, s1) \<leftarrow> leaf_entry me (PHYS_TO_VIRT s pt) vaddr 0 s;
        if entry = NULL \<or> \<not> present (pte_at s1 entry) then Some (0, s1)
        else Some (pte_at s1 entry AND NOT PAGE_FRAME_MASK, s1)})"

definition pte_free_empty :: "int \<Rightarrow> u64 \<Rightarrow> u64 \<Rightarrow> 'b paging_scheme \<Rightarrow> 'b paging_scheme option" where
  "pte_free_empty me pt vaddr s = do {
     s1 \<leftarrow> acquire_paging me s;
     s2 \<leftarrow> u_pte_free_empty me pt vaddr s1;
     Some (release_paging me s2)}"

section \<open>MMIO regions\<close>

text \<open>The loop of \<^verbatim>\<open>map_mmio\<close> stops at the first page whose tables cannot be allocated.\<close>

fun mmio_loop :: "int \<Rightarrow> u64 \<Rightarrow> u64 \<Rightarrow> u64 \<Rightarrow> nat list \<Rightarrow> 'b paging_scheme \<Rightarrow> 'b paging_scheme option" where
  "mmio_loop me pml4 vaddr paddr [] s = Some s"
| "mmio_loop me pml4 vaddr paddr (i # is) s = do {
     (entry, s1) \<leftarrow> leaf_entry me pml4 (vaddr + of_nat i * PAGE_SIZE) (PFLAG_PRESENT OR PFLAG_WRITE) s;
     if entry = NULL then Some s1
     else mmio_loop me pml4 vaddr paddr is
            (set_pte entry ((paddr + of_nat i * PAGE_SIZE) OR PFLAG_MMIO) s1)}"

definition map_mmio :: "int \<Rightarrow> u64 \<Rightarrow> u64 \<Rightarrow> u64 \<Rightarrow> u64 \<Rightarrow> 'b paging_scheme \<Rightarrow> 'b paging_scheme option" where
  "map_mmio me pt vaddr paddr npages s =
     (if pt = NULL then Some s
      else mmio_loop me (PHYS_TO_VIRT s pt) (ALIGN_DOWN vaddr PAGE_SIZE) (ALIGN_DOWN paddr PAGE_SIZE)
             [0 ..< unat npages] s)"

partial_function (option) map_regions :: "int \<Rightarrow> u64 \<Rightarrow> u64 \<Rightarrow> 'b paging_scheme \<Rightarrow> 'b paging_scheme option" where
  "map_regions me phys region s =
     (if region = NULL then Some s
      else do {
        s1 \<leftarrow> map_mmio me phys (rg_vaddr (mmio_at s region)) (rg_paddr (mmio_at s region))
               (rg_npages (mmio_at s region)) s;
        map_regions me phys (rg_next (mmio_at s1 region)) s1})"

definition reg_kernel_mmio :: "int \<Rightarrow> u64 \<Rightarrow> u64 \<Rightarrow> u64 \<Rightarrow> 'b paging_scheme \<Rightarrow> 'b paging_scheme option" where
  "reg_kernel_mmio me vaddr paddr npages s = do {
     s1 \<leftarrow> acquire_mmio me s;
     (region, s2) \<leftarrow> kzalloc me 32 s1;
     if region = NULL then Some (release_mmio me s2)
     else Some (release_mmio me
       (s2\<lparr>mmio_at := (mmio_at s2)(region := \<lparr>rg_vaddr = vaddr, rg_paddr = paddr, rg_npages = npages,
                                            rg_next = mmio_regions s2\<rparr>),
           mmio_regions := region\<rparr>))}"

section \<open>Page tables as a whole\<close>

text \<open>\<^verbatim>\<open>to[i] = from[i]\<close> for the upper half of a top-level table.\<close>

definition copy_kernel_half :: "u64 \<Rightarrow> u64 \<Rightarrow> 'b paging_scheme \<Rightarrow> 'b paging_scheme" where
  "copy_kernel_half dst src s =
     fold (\<lambda>i t. set_pte (dst + 8 * of_nat i) (pte t src (of_nat i)) t) [256 ..< 512] s"

definition pte_alloc :: "int \<Rightarrow> 'b paging_scheme \<Rightarrow> (u64 \<times> 'b paging_scheme) option" where
  "pte_alloc me s = do {
     (pg, s1) \<leftarrow> pmm_alloc_page me s;
     if pg = NULL then Some (NULL, s1)
     else do {
       let phys = pfn_db_page_to_phys s1 pg;
       let pml4 = PHYS_TO_VIRT s1 phys;
       let s2 = zero_page pml4 s1;
       let s3 = (if kernel_pt s2 \<noteq> NULL then copy_kernel_half pml4 (PHYS_TO_VIRT s2 (kernel_pt s2)) s2 else s2);
       s4 \<leftarrow> acquire_mmio me s3;
       s5 \<leftarrow> map_regions me phys (mmio_regions s4) s4;
       Some (phys, release_mmio me s5)}}"

definition pte_free :: "int \<Rightarrow> u64 \<Rightarrow> 'b paging_scheme \<Rightarrow> 'b paging_scheme option" where
  "pte_free me pt s =
     (if pt = NULL then Some s
      else if pt = kernel_pt s then Some s
      else let pml4 = PHYS_TO_VIRT s pt in do {
        s1 \<leftarrow> for_each (\<lambda>i t. let entry = pte t pml4 (of_nat i) in
                 if \<not> present entry then Some t
                 else if entry AND PFLAG_HUGE \<noteq> 0 then Some t
                 else pte_free_level me 3 (PHYS_TO_VIRT t (entry AND PAGE_FRAME_MASK)) t) [0 ..< 256] s;
        free_pte me pt s1})"

section \<open>Start-up\<close>

text \<open>Mapping the kernel's own pages from \<open>vaddr\<close> up to \<open>fin\<close>.\<close>

partial_function (option) map_kernel_pages ::
  "int \<Rightarrow> u64 \<Rightarrow> u64 \<Rightarrow> u64 \<Rightarrow> 'b paging_scheme \<Rightarrow> 'b paging_scheme option" where
  "map_kernel_pages me vaddr fin flags s =
     (if vaddr < fin
      then do {
        s1 \<leftarrow> map_paddr me (kernel_pt s) vaddr (vaddr - kaddr_virt s + kaddr_phys s) flags s;
        map_kernel_pages me (vaddr + PAGE_SIZE) fin flags s1}
      else Some s)"

definition map_section :: "int \<Rightarrow> u64 \<Rightarrow> u64 \<Rightarrow> u64 \<Rightarrow> 'b paging_scheme \<Rightarrow> 'b paging_scheme option" where
  "map_section me vstart vend flags =
     map_kernel_pages me (ALIGN_DOWN vstart PAGE_SIZE) (ALIGN_UP vend PAGE_SIZE) flags"

text \<open>The symbols of the linker script.\<close>

record kernel_image =
  limine_requests_start :: u64
  limine_requests_end :: u64
  text_start :: u64
  text_end :: u64
  rodata_start :: u64
  rodata_end :: u64
  data_start :: u64
  data_end :: u64

definition paging_init :: "int \<Rightarrow> kernel_image \<Rightarrow> 'b paging_scheme \<Rightarrow> 'b paging_scheme option" where
  "paging_init me k s = do {
     (pt, s0) \<leftarrow> pte_alloc me s;
     let s1 = s0\<lparr>kernel_pt := pt\<rparr>;
     if pt = NULL then Some s1
     else do {
       s2 \<leftarrow> map_section me (limine_requests_start k) (limine_requests_end k) (PFLAG_RO OR PFLAG_NX) s1;
       s3 \<leftarrow> map_section me (text_start k) (text_end k) PFLAG_RO s2;
       s4 \<leftarrow> map_section me (rodata_start k) (rodata_end k) (PFLAG_RO OR PFLAG_NX) s3;
       s5 \<leftarrow> map_section me (data_start k) (data_end k) (PFLAG_RW OR PFLAG_NX) s4;
       let stack_top = ALIGN_UP (kstack_top s5) PAGE_SIZE;
       s6 \<leftarrow> map_kernel_pages me (stack_top - KSTACK_SIZE) stack_top PFLAG_RW s5;
       let s7 = copy_kernel_half (PHYS_TO_VIRT s6 (kernel_pt s6)) (PHYS_TO_VIRT s6 (cr3 s6)) s6;
       Some (s7\<lparr>cr3 := kernel_pt s7\<rparr>)}}"

end
