(* ===== verification/Paging_Tree.thy ===== *)
theory Paging_Tree
  imports Paging
begin

text \<open>
  The tree that the entries of a page table span: \<open>walk\<close> follows the entries of a path of indices
  from a table, \<open>mapping\<close> is what the four levels translate an address to, and \<open>tree_ok\<close> says that
  different paths lead to different tables in frames that are in use. The lemmas show how a store
  to one entry changes the walks, for the three stores the code does: a leaf entry, the entry of a
  fresh table, and the clearing of the entry of an empty table.
\<close>

section \<open>Walks\<close>

definition next_table :: "'b paging_scheme \<Rightarrow> u64 \<Rightarrow> u64" where
  "next_table s e = PHYS_TO_VIRT s (e AND PAGE_FRAME_MASK)"

fun walk :: "'b paging_scheme \<Rightarrow> u64 \<Rightarrow> u64 list \<Rightarrow> u64 option" where
  "walk s t [] = Some t"
| "walk s t (i # p) = (if present (pte s t i) then walk s (next_table s (pte s t i)) p else None)"

definition idx_path :: "u64 list \<Rightarrow> bool" where
  "idx_path p \<longleftrightarrow> length p \<le> 3 \<and> (\<forall>i \<in> set p. i < 512)"

definition used_frame :: "'b paging_scheme \<Rightarrow> nat \<Rightarrow> bool" where
  "used_frame s k \<longleftrightarrow> 0 < k \<and> k \<le> unat (max_pfn s) \<and> \<not> is_page_free (page_at s (page_ptr s (of_nat k)))"

definition tree_ok :: "'b paging_scheme \<Rightarrow> u64 \<Rightarrow> bool" where
  "tree_ok s t \<longleftrightarrow>
     (\<forall>p a. idx_path p \<longrightarrow> walk s t p = Some a \<longrightarrow> (\<exists>k. used_frame s k \<and> a = frame_va s k)) \<and>
     (\<forall>p q a. idx_path p \<longrightarrow> idx_path q \<longrightarrow> walk s t p = Some a \<longrightarrow> walk s t q = Some a \<longrightarrow> p = q)"

definition leaf_of :: "'b paging_scheme \<Rightarrow> u64 \<Rightarrow> u64 list \<Rightarrow> u64 \<Rightarrow> u64 option" where
  "leaf_of s t p j =
     (case walk s t p of None \<Rightarrow> None | Some a \<Rightarrow> if present (pte s a j) then Some (pte s a j) else None)"

definition vpath :: "u64 \<Rightarrow> u64 list" where
  "vpath v = [pml4_index v, pml3_index v, pml2_index v]"

text \<open>The entry that translates \<open>v\<close> in the page table at the physical address \<open>pt\<close>.\<close>

definition mapping :: "'b paging_scheme \<Rightarrow> u64 \<Rightarrow> u64 \<Rightarrow> u64 option" where
  "mapping s pt v = leaf_of s (PHYS_TO_VIRT s pt) (vpath v) (pml1_index v)"

lemma walk_append: "walk s t (p @ q) = walk s t p \<bind> (\<lambda>a. walk s a q)"
  by (induction p arbitrary: t) auto

lemma walk_snoc:
  "walk s t (p @ [i]) =
     walk s t p \<bind> (\<lambda>a. if present (pte s a i) then Some (next_table s (pte s a i)) else None)"
  by (cases "walk s t p") (simp_all add: walk_append)

lemma index_bound [simp]:
  "pml1_index v < 512" "pml2_index v < 512" "pml3_index v < 512" "pml4_index v < 512"
proof -
  have "x AND 0x1ff < 512" for x :: u64
    using word_and_le1 [of x "0x1ff"] by (simp add: and.commute word_less_nat_alt word_le_nat_alt)
  then show "pml1_index v < 512" "pml2_index v < 512" "pml3_index v < 512" "pml4_index v < 512"
    by (simp_all add: pml1_index_def pml2_index_def pml3_index_def pml4_index_def)
qed

lemma idx_path_vpath [simp]: "idx_path (vpath v)"
  by (simp add: idx_path_def vpath_def)

lemma idx_path_Nil [simp]: "idx_path []"
  by (simp add: idx_path_def)

lemma idx_path_snoc: "idx_path (p @ [i]) \<longleftrightarrow> idx_path p \<and> length p < 3 \<and> i < 512"
  by (auto simp: idx_path_def)

section \<open>Addresses of entries\<close>

lemma unat_entry:
  assumes "hhdm_ok s" and "k \<le> unat (max_pfn s)" and "j < 512"
  shows "unat (frame_va s k + 8 * j) = unat (hhdm_offset s) + 4096 * k + 8 * unat j"
proof -
  have j: "unat j < 512" using assms(3) by (simp add: word_less_nat_alt)
  then have "unat (8 * j) = 8 * unat j" by (subst unat_mult_no_wrap) auto
  moreover have "unat (hhdm_offset s) + 4096 * k + 8 * unat j < 2 ^ 64"
    using assms(1,2) j by (auto simp: hhdm_ok_def)
  ultimately show ?thesis
    by (subst unat_add_no_wrap) (simp_all add: unat_frame_va [OF assms(1,2)])
qed

lemma page_parts: "4096 * k + x = 4096 * l + y \<Longrightarrow> x < 4096 \<Longrightarrow> y < 4096 \<Longrightarrow> k = l" for k l x y :: nat
proof -
  assume e: "4096 * k + x = 4096 * l + y" and b: "x < 4096" "y < 4096"
  have "(4096 * k + x) div 4096 = (4096 * l + y) div 4096" using e by simp
  with b show "k = l" by simp
qed

lemma entry_inj:
  assumes h: "hhdm_ok s" and k: "k \<le> unat (max_pfn s)" "l \<le> unat (max_pfn s)" and j: "i < 512" "j < 512"
    and e: "frame_va s k + 8 * i = frame_va s l + 8 * j"
  shows "k = l" and "i = j"
proof -
  have b: "unat i < 512" "unat j < 512" using j by (simp_all add: word_less_nat_alt)
  have eq: "4096 * k + 8 * unat i = 4096 * l + 8 * unat j"
    using unat_entry [OF h k(1) j(1)] unat_entry [OF h k(2) j(2)] e by simp
  have "k = l" using page_parts [OF eq] b by simp
  moreover from this eq have "unat i = unat j" by simp
  ultimately show "k = l" "i = j" by (simp_all add: word_unat_eq_iff)
qed

lemma entry_in_page:
  assumes h: "hhdm_ok s" and k: "k \<le> unat (max_pfn s)" "l \<le> unat (max_pfn s)" and j: "j < 512"
  shows "frame_va s k + 8 * j - frame_va s l < 0x1000 \<longleftrightarrow> k = l"
proof
  have b: "unat j < 512" using j by (simp add: word_less_nat_alt)
  let ?x = "frame_va s k + 8 * j"
  assume lt: "?x - frame_va s l < 0x1000"
  have "unat (?x - frame_va s l + frame_va s l) = unat (?x - frame_va s l) + unat (frame_va s l)"
    using lt h k(2) by (intro unat_add_no_wrap) (auto simp: unat_frame_va word_less_nat_alt hhdm_ok_def)
  then have "unat (hhdm_offset s) + 4096 * k + 8 * unat j = unat (?x - frame_va s l) + (unat (hhdm_offset s) + 4096 * l)"
    using unat_entry [OF h k(1) j] unat_frame_va [OF h k(2)] by simp
  moreover have "unat (?x - frame_va s l) < 4096" using lt by (simp add: word_less_nat_alt)
  ultimately show "k = l"
    using b page_parts [of k "8 * unat j" l "unat (?x - frame_va s l)"] by simp
next
  assume "k = l"
  moreover have "8 * j < 0x1000"
    using j by (simp add: word_less_nat_alt unat_word_ariths)
  ultimately show "frame_va s k + 8 * j - frame_va s l < 0x1000" by simp
qed

lemma frames_apart:
  assumes h: "hhdm_ok s" and k: "k \<le> unat (max_pfn s)" "l \<le> unat (max_pfn s)"
    and x: "x - frame_va s k < 0x1000" "x - frame_va s l < 0x1000"
  shows "k = l"
proof -
  have u: "unat x = unat (x - frame_va s j) + (unat (hhdm_offset s) + 4096 * j)"
    if "x - frame_va s j < 0x1000" "j \<le> unat (max_pfn s)" for j
  proof -
    have "unat (x - frame_va s j + frame_va s j) = unat (x - frame_va s j) + unat (frame_va s j)"
      using that h by (intro unat_add_no_wrap) (auto simp: unat_frame_va word_less_nat_alt hhdm_ok_def)
    then show ?thesis using unat_frame_va [OF h that(2)] by simp
  qed
  have "4096 * k + unat (x - frame_va s k) = 4096 * l + unat (x - frame_va s l)"
    using u [OF x(1) k(1)] u [OF x(2) k(2)] by linarith
  then show ?thesis by (rule page_parts) (use x in \<open>simp_all add: word_less_nat_alt\<close>)
qed

lemma frame_va_inj:
  "hhdm_ok s \<Longrightarrow> k \<le> unat (max_pfn s) \<Longrightarrow> l \<le> unat (max_pfn s) \<Longrightarrow> frame_va s k = frame_va s l \<longleftrightarrow> k = l"
  using frame_no_va by metis

text \<open>The flag bits of an entry do not disturb its frame.\<close>

lemma bit_frame_mask: "bit PAGE_FRAME_MASK n \<longleftrightarrow> 12 \<le> n \<and> n < 52"
proof -
  have m: "PAGE_FRAME_MASK = push_bit 12 (mask 40)" by (simp add: mask_eq_exp_minus_1 push_bit_eq_mult)
  show ?thesis unfolding m bit_push_bit_iff bit_mask_iff by auto
qed

lemma frame_bits:
  assumes "k < 2 ^ 40"
  shows "bit (of_nat k * 0x1000 :: u64) n \<Longrightarrow> 12 \<le> n \<and> n < 52"
proof -
  assume b: "bit (of_nat k * 0x1000 :: u64) n"
  have eq: "(of_nat k * 0x1000 :: u64) = push_bit 12 (of_nat k)" by (simp add: push_bit_eq_mult)
  from b have n: "12 \<le> n" "bit (of_nat k :: u64) (n - 12)" unfolding eq by (auto simp: bit_simps)
  from n(2) have "bit k (n - 12)" by (simp add: bit_simps)
  then have "2 ^ (n - 12) \<le> k" by (metis bit_iff_odd div_less even_zero not_le)
  with assms have "(2::nat) ^ (n - 12) < 2 ^ 40" by linarith
  then have "n - 12 < 40" by (rule power_less_imp_less_exp [rotated]) simp
  with n(1) show ?thesis by simp
qed

lemma entry_frame:
  assumes "k < 2 ^ 40" and "f AND PAGE_FRAME_MASK = 0"
  shows "(of_nat k * 0x1000 OR f) AND PAGE_FRAME_MASK = (of_nat k * 0x1000 :: u64)"
proof (rule bit_word_eqI)
  fix n
  have "\<not> (bit f n \<and> bit PAGE_FRAME_MASK n)"
    using assms(2) by (metis bit_0_eq bit_and_iff bot_apply bot_bool_def)
  then show "bit ((of_nat k * 0x1000 OR f) AND PAGE_FRAME_MASK) n = bit (of_nat k * 0x1000 :: u64) n"
    using frame_bits [OF assms(1), of n] bit_frame_mask [of n] by (auto simp: bit_and_iff bit_or_iff)
qed

lemma present_bit: "present e \<longleftrightarrow> bit e 0"
  using and_exp_eq_0_iff_not_bit [of e 0] by (simp add: present_def)

lemma present_zero [simp]: "\<not> present 0"
  by (simp add: present_def)

section \<open>Changing one entry\<close>

text \<open>
  A state \<open>s'\<close> whose entries in the tables of \<open>s\<close> are the same except for one, the entry \<open>i\<close> of the
  table at the path \<open>p\<close>: every walk that does not go through it is the same.
\<close>

definition entries_kept :: "'b paging_scheme \<Rightarrow> u64 \<Rightarrow> u64 list \<Rightarrow> 'b paging_scheme \<Rightarrow> bool" where
  "entries_kept s t P s' \<longleftrightarrow> hhdm_offset s' = hhdm_offset s \<and>
     (\<forall>q a j. idx_path q \<longrightarrow> walk s t q = Some a \<longrightarrow> j < 512 \<longrightarrow> q @ [j] \<noteq> P \<longrightarrow> pte s' a j = pte s a j)"

lemma next_table_cong: "hhdm_offset s' = hhdm_offset s \<Longrightarrow> next_table s' = next_table s"
  by (rule ext) (simp add: next_table_def PHYS_TO_VIRT_def)

lemma walk_kept:
  assumes k: "entries_kept s t P s'" and q: "idx_path q" and np: "\<not> prefix P q"
  shows "walk s' t q = walk s t q"
  using q np
proof (induction q rule: rev_induct)
  case (snoc j q)
  have q: "idx_path q" "j < 512" using snoc.prems(1) by (simp_all add: idx_path_snoc)
  have "\<not> prefix P q" using snoc.prems(2) by (auto intro: prefix_prefix)
  with snoc.IH q(1) have IH: "walk s' t q = walk s t q" by simp
  have ne: "q @ [j] \<noteq> P" using snoc.prems(2) by auto
  show ?case
  proof (cases "walk s t q")
    case (Some a)
    with k q ne have e: "pte s' a j = pte s a j" unfolding entries_kept_def by blast
    have "next_table s' = next_table s" using k next_table_cong unfolding entries_kept_def by blast
    with e IH Some show ?thesis by (simp add: walk_snoc)
  qed (simp add: walk_snoc IH)
qed simp

lemma leaf_of_kept:
  assumes k: "entries_kept s t P s'" and q: "idx_path q" "j < 512" and np: "\<not> prefix P (q @ [j])"
  shows "leaf_of s' t q j = leaf_of s t q j"
proof -
  have "\<not> prefix P q" using np by (auto intro: prefix_prefix)
  from walk_kept [OF k q(1) this] have w: "walk s' t q = walk s t q" .
  show ?thesis
  proof (cases "walk s t q")
    case (Some a)
    have "q @ [j] \<noteq> P" using np by auto
    with k q Some have "pte s' a j = pte s a j" unfolding entries_kept_def by blast
    with w Some show ?thesis by (simp add: leaf_of_def)
  qed (simp add: leaf_of_def w)
qed

lemma tree_ok_table:
  assumes "tree_ok s t" and "idx_path p" and "walk s t p = Some a"
  obtains k where "used_frame s k" and "k \<le> unat (max_pfn s)" and "a = frame_va s k"
  using assms by (auto simp: tree_ok_def used_frame_def)

lemma tree_ok_inj:
  "tree_ok s t \<Longrightarrow> idx_path p \<Longrightarrow> idx_path q \<Longrightarrow> walk s t p = Some a \<Longrightarrow> walk s t q = Some a \<Longrightarrow> p = q"
  by (auto simp: tree_ok_def)

lemma table_entry_inj:
  assumes ok: "tree_ok s t" and h: "hhdm_ok s" and p: "idx_path p" "walk s t p = Some b" "i < 512"
    and q: "idx_path q" "walk s t q = Some a" "j < 512" and e: "a + 8 * j = b + 8 * i"
  shows "q @ [j] = p @ [i]"
proof -
  from tree_ok_table [OF ok p(1,2)] obtain k where k: "k \<le> unat (max_pfn s)" "b = frame_va s k" .
  from tree_ok_table [OF ok q(1,2)] obtain l where l: "l \<le> unat (max_pfn s)" "a = frame_va s l" .
  have "l = k" "j = i" using entry_inj [OF h l(1) k(1) q(3) p(3)] e k(2) l(2) by simp_all
  with k l tree_ok_inj [OF ok q(1) p(1)] q(2) p(2) show ?thesis by simp
qed

text \<open>The tree after such a change: it is well formed when the tables that are still reached are in
  use and what the changed entry leads to is at most one fresh table.\<close>

lemma tree_ok_change:
  assumes ok: "tree_ok s t" and k: "entries_kept s t P s'" and h: "frame_va s' = frame_va s"
    and used: "\<And>q a k. idx_path q \<Longrightarrow> walk s t q = Some a \<Longrightarrow> \<not> prefix P q \<Longrightarrow> used_frame s k \<Longrightarrow>
      a = frame_va s k \<Longrightarrow> used_frame s' k"
    and new: "\<And>q a. idx_path q \<Longrightarrow> prefix P q \<Longrightarrow> walk s' t q = Some a \<Longrightarrow>
      q = P \<and> (\<exists>n. used_frame s' n \<and> a = frame_va s n) \<and> (\<forall>r. idx_path r \<longrightarrow> \<not> prefix P r \<longrightarrow> walk s t r \<noteq> Some a)"
  shows "tree_ok s' t"
proof -
  have "\<exists>k. used_frame s' k \<and> a = frame_va s' k" if w: "idx_path q" "walk s' t q = Some a" for q a
  proof (cases "prefix P q")
    case True
    with new w show ?thesis by (auto simp: h)
  next
    case False
    with walk_kept [OF k w(1)] w have wa: "walk s t q = Some a" by simp
    from tree_ok_table [OF ok w(1) this] obtain l where "used_frame s l" "a = frame_va s l" .
    with used [OF w(1) wa False] show ?thesis by (auto simp: h)
  qed
  moreover have "p = q" if w: "idx_path p" "idx_path q" "walk s' t p = Some a" "walk s' t q = Some a" for p q a
  proof (cases "prefix P p"; cases "prefix P q")
    assume "prefix P p" "prefix P q"
    with new w show ?thesis by blast
  next
    assume pq: "prefix P p" "\<not> prefix P q"
    then have "walk s t q = Some a" using walk_kept [OF k w(2)] w(4) by simp
    with new [OF w(1) pq(1) w(3)] pq(2) w(2) show ?thesis by blast
  next
    assume pq: "\<not> prefix P p" "prefix P q"
    then have "walk s t p = Some a" using walk_kept [OF k w(1)] w(3) by simp
    with new [OF w(2) pq(2) w(4)] pq(1) w(1) show ?thesis by blast
  next
    assume "\<not> prefix P p" "\<not> prefix P q"
    then show ?thesis
      using walk_kept [OF k] w tree_ok_inj [OF ok w(1,2)] by simp
  qed
  ultimately show ?thesis unfolding tree_ok_def by blast
qed

end
