(* ===== verification/Paging_Map.thy ===== *)
theory Paging_Map
  imports Paging_Tree
begin

text \<open>
  The operations of \<^verbatim>\<open>mm/paging.c\<close> on a well-formed page table: walking down with and without
  allocation of missing tables, and the invariant \<open>pt_core\<close> that they keep. The facts about the
  page allocator that these proofs need are collected first.
\<close>

section \<open>The page allocator leaves everything else alone\<close>

definition outside_pmm :: "'b pmm_scheme \<Rightarrow> u64 \<times> 'b" where
  "outside_pmm s = (hhdm_offset s, pmm.more s)"

lemma outside_pmm_upd [simp]:
  "outside_pmm (upd_page p f s) = outside_pmm s" "outside_pmm (s\<lparr>free_list := a\<rparr>) = outside_pmm s"
  "outside_pmm (s\<lparr>free_pages := b\<rparr>) = outside_pmm s" "outside_pmm (s\<lparr>pmm_lock := l\<rparr>) = outside_pmm s"
  by (simp_all add: outside_pmm_def upd_page_def)

lemma outside_pmm_lists [simp]:
  "outside_pmm (free_list_remove p s) = outside_pmm s" "outside_pmm (free_list_push p s) = outside_pmm s"
  by (simp_all add: free_list_remove_def free_list_push_def Let_def)

lemma outside_pmm_lock:
  assumes "\<And>s. outside_pmm (snd (body s)) = outside_pmm s" and "with_pmm_lock me body s = Some (r, t)"
  shows "outside_pmm t = outside_pmm s"
proof -
  from assms(2) obtain l where t: "t = (snd (body (s\<lparr>pmm_lock := l\<rparr>)))\<lparr>pmm_lock := lock_release me (pmm_lock (snd (body (s\<lparr>pmm_lock := l\<rparr>))))\<rparr>"
    by (auto simp: with_pmm_lock_def case_prod_beta Let_def split: option.splits)
  show ?thesis unfolding t by (simp add: assms(1))
qed

lemma outside_pmm_ops:
  "pmm_alloc_page me s = Some (p, t) \<Longrightarrow> outside_pmm t = outside_pmm s"
  "pmm_page_release me p s = Some (r, t) \<Longrightarrow> outside_pmm t = outside_pmm s"
  "pmm_page_share me p s = Some (r, t) \<Longrightarrow> outside_pmm t = outside_pmm s"
  "pmm_page_unshare me p s = Some (r, t) \<Longrightarrow> outside_pmm t = outside_pmm s"
  "pmm_page_retain me p s = Some (r, t) \<Longrightarrow> outside_pmm t = outside_pmm s"
  "pmm_page_mark_cow me p s = Some (r, t) \<Longrightarrow> outside_pmm t = outside_pmm s"
  "pmm_page_clear_cow me p s = Some (r, t) \<Longrightarrow> outside_pmm t = outside_pmm s"
  subgoal unfolding pmm_alloc_page_def
    by (erule outside_pmm_lock [rotated]) (simp add: alloc_locked_def claim_page_def Let_def)
  subgoal by (auto simp: pmm_page_release_def release_locked_def Let_def split: if_splits elim!: outside_pmm_lock [rotated])
  subgoal by (auto simp: pmm_page_share_def share_locked_def Let_def split: if_splits elim!: outside_pmm_lock [rotated])
  subgoal by (auto simp: pmm_page_unshare_def unshare_locked_def Let_def split: if_splits elim!: outside_pmm_lock [rotated])
  subgoal by (auto simp: pmm_page_retain_def retain_locked_def Let_def split: if_splits elim!: outside_pmm_lock [rotated])
  subgoal by (auto simp: pmm_page_mark_cow_def split: if_splits elim!: outside_pmm_lock [rotated])
  subgoal by (auto simp: pmm_page_clear_cow_def split: if_splits elim!: outside_pmm_lock [rotated])
  done

lemma outside_pmm_fields:
  assumes "outside_pmm t = outside_pmm s"
  shows "hhdm_offset t = hhdm_offset s" "pte_at t = pte_at s" "paging_lock t = paging_lock s"
    "mmio_lock t = mmio_lock s" "mmio_regions t = mmio_regions s" "kernel_pt t = kernel_pt s"
    "heap_mem t = heap_mem s" "paging.more t = paging.more s"
  using assms by (cases s; cases t; simp add: outside_pmm_def)+

section \<open>Pages and frames\<close>

lemma ready_wf: "pmm_ready s \<Longrightarrow> db_wf s"
  by (auto simp: pmm_ready_def pmm_idle_def pmm_rel_def)

lemma frame_page:
  assumes "db_wf s" and "db_page s p"
  obtains k where "k \<le> unat (max_pfn s)" and "p = page_ptr s (of_nat k)"
    and "pfn_db_page_to_phys s p = of_nat k * PAGE_SIZE"
proof -
  from assms(2) obtain i where i: "i \<le> max_pfn s" "p = page_ptr s i" by (auto simp: db_page_def)
  show ?thesis
    by (rule that [of "unat i"])
      (use i page_to_phys_page_ptr [OF assms(1) i(1)] in \<open>simp_all add: word_le_nat_alt\<close>)
qed

lemma of_nat_pfn: "k \<le> unat (max_pfn s) \<Longrightarrow> of_nat k \<le> max_pfn s"
  by (simp add: word_le_nat_alt unat_of_nat_le)

lemma frame_ptr_inj:
  assumes "db_wf s" and "k \<le> unat (max_pfn s)" and "l \<le> unat (max_pfn s)"
  shows "page_ptr s (of_nat k) = page_ptr s (of_nat l) \<longleftrightarrow> k = l"
  using page_ptr_inj [OF assms(1) of_nat_pfn [OF assms(2)] of_nat_pfn [OF assms(3)]]
    unat_of_nat_le [OF assms(2)] unat_of_nat_le [OF assms(3)] by metis

lemma frame_to_page:
  assumes "db_wf s" and "k \<le> unat (max_pfn s)"
  shows "pfn_db_phys_to_page s (of_nat k * PAGE_SIZE) = page_ptr s (of_nat k)"
    and "page_ptr s (of_nat k) \<noteq> NULL" and "db_page s (page_ptr s (of_nat k))"
  using phys_to_page_ptr [OF assms(1) of_nat_pfn [OF assms(2)]]
    page_ptr_not_NULL [OF assms(1) of_nat_pfn [OF assms(2)]] of_nat_pfn [OF assms(2)]
  by (auto simp: db_page_def)

lemma used_frame_frees: "used_frame s k \<longleftrightarrow> 0 < k \<and> k \<le> unat (max_pfn s) \<and> page_ptr s (of_nat k) \<notin> frees s"
  using of_nat_pfn [of k s] by (auto simp: used_frame_def frees_def db_page_def)

lemma frame_va_ok:
  assumes "hhdm_ok s" and "k \<le> unat (max_pfn s)"
  shows "frame_va s k \<noteq> NULL" and "k < 2 ^ 40"
  using unat_frame_va [OF assms] assms by (auto simp: hhdm_ok_def)

section \<open>The invariant\<close>

text \<open>
  \<open>pt_core\<close>: the page allocator is idle and never hands out frame 0, which \<^verbatim>\<open>pfn_db_init\<close> reserves
  and which the code takes for a failed allocation, and the entries below \<open>pt\<close> form a tree.
  \<open>pt_inv\<close>: moreover nobody holds \<open>paging_lock\<close>.
\<close>

definition pt_core :: "'b paging_scheme \<Rightarrow> u64 \<Rightarrow> bool" where
  "pt_core s pt \<longleftrightarrow> pmm_ready s \<and> hhdm_ok s \<and> page_ptr s 0 \<notin> frees s \<and> pt \<noteq> NULL \<and>
     tree_ok s (PHYS_TO_VIRT s pt)"

definition pt_inv :: "'b paging_scheme \<Rightarrow> u64 \<Rightarrow> bool" where
  "pt_inv s pt \<longleftrightarrow> pt_core s pt \<and> lock_free (paging_lock s)"

text \<open>Two states that agree on what \<open>pt_core\<close> and \<open>mapping\<close> speak about.\<close>

definition same_tables :: "'b paging_scheme \<Rightarrow> 'b paging_scheme \<Rightarrow> bool" where
  "same_tables s s' \<longleftrightarrow> pte_at s' = pte_at s \<and> hhdm_offset s' = hhdm_offset s \<and> mem_map s' = mem_map s \<and>
     max_pfn s' = max_pfn s"

lemma same_tables_walk:
  assumes "same_tables s s'"
  shows "walk s' t p = walk s t p" and "mapping s' pt v = mapping s pt v" and "PHYS_TO_VIRT s' = PHYS_TO_VIRT s"
    and "frame_va s' = frame_va s" and "page_ptr s' = page_ptr s" and "hhdm_ok s' = hhdm_ok s" and "pte s' = pte s"
proof -
  show p: "pte s' = pte s" using assms by (intro ext) (simp add: same_tables_def pte_def)
  show ph: "PHYS_TO_VIRT s' = PHYS_TO_VIRT s" using assms by (intro ext) (simp add: same_tables_def PHYS_TO_VIRT_def)
  show w: "walk s' t p = walk s t p" for t p
    by (induction p arbitrary: t) (simp_all add: p next_table_def ph)
  show "mapping s' pt v = mapping s pt v" unfolding mapping_def leaf_of_def w p ph ..
  show "frame_va s' = frame_va s" by (rule ext) (simp add: frame_va_def ph)
  show "page_ptr s' = page_ptr s" using assms by (intro ext) (simp add: same_tables_def page_ptr_def)
  show "hhdm_ok s' = hhdm_ok s" using assms by (simp add: same_tables_def hhdm_ok_def)
qed

lemma pt_core_same:
  assumes c: "pt_core s pt" and e: "same_tables s s'" and r: "pmm_ready s'"
    and z: "page_ptr s 0 \<notin> frees s'"
    and u: "\<And>k p. idx_path p \<Longrightarrow> walk s (PHYS_TO_VIRT s pt) p = Some (frame_va s k) \<Longrightarrow> used_frame s k \<Longrightarrow> used_frame s' k"
  shows "pt_core s' pt"
proof -
  note w = same_tables_walk [OF e]
  have "tree_ok s' (PHYS_TO_VIRT s pt)"
    using c u unfolding pt_core_def tree_ok_def w by metis
  with c r z show ?thesis unfolding pt_core_def w by simp
qed

section \<open>Walking down\<close>

text \<open>
  What building missing tables does: the invariant is kept, every address is translated as before,
  tables that were there are still there, and only free pages are touched.
\<close>

definition fresh_tables :: "u64 \<Rightarrow> 'b paging_scheme \<Rightarrow> 'b paging_scheme \<Rightarrow> bool" where
  "fresh_tables pt s s' \<longleftrightarrow> (\<forall>q a. idx_path q \<longrightarrow> walk s' (PHYS_TO_VIRT s pt) q = Some a \<longrightarrow>
     walk s (PHYS_TO_VIRT s pt) q = Some a \<or>
     (\<exists>n \<le> unat (max_pfn s). a = frame_va s n \<and> page_ptr s (of_nat n) \<in> frees s))"

text \<open>The bytes of the frames in use are left alone.\<close>

definition frames_kept :: "'b paging_scheme \<Rightarrow> 'b paging_scheme \<Rightarrow> bool" where
  "frames_kept s s' \<longleftrightarrow> (\<forall>k x. used_frame s k \<and> x - frame_va s k < PAGE_SIZE \<longrightarrow> heap_mem s' x = heap_mem s x)"

definition grown :: "u64 \<Rightarrow> 'b paging_scheme \<Rightarrow> 'b paging_scheme \<Rightarrow> bool" where
  "grown pt s s' \<longleftrightarrow> pt_core s' pt \<and> hhdm_offset s' = hhdm_offset s \<and> (\<forall>v. mapping s' pt v = mapping s pt v) \<and>
     others_kept (frees s) s s' \<and> frees s' \<subseteq> frees s \<and> paging_lock s' = paging_lock s \<and>
     fresh_tables pt s s' \<and> frames_kept s s'"

lemma others_kept_mono: "others_kept P s s' \<Longrightarrow> p \<in> Q \<Longrightarrow> P = {p} \<Longrightarrow> others_kept Q s s'"
  by (auto simp: others_kept_def)

lemma grown_refl: "pt_core s pt \<Longrightarrow> grown pt s s"
  by (simp add: grown_def others_kept_def fresh_tables_def frames_kept_def)

lemma grown_frames:
  assumes "grown pt s s'"
  shows "frame_va s' = frame_va s" "page_ptr s' = page_ptr s" "max_pfn s' = max_pfn s" "PHYS_TO_VIRT s' = PHYS_TO_VIRT s"
  using assms by (auto simp: grown_def others_kept_def frame_va_def PHYS_TO_VIRT_def page_ptr_def fun_eq_iff)

lemma fresh_tables_trans:
  assumes g: "grown pt s s'" and 1: "fresh_tables pt s s'" and 2: "fresh_tables pt s' s''"
  shows "fresh_tables pt s s''"
proof -
  have f: "frees s' \<subseteq> frees s" using g by (simp add: grown_def)
  show ?thesis using 1 2 f unfolding fresh_tables_def grown_frames [OF g] by (meson subsetD)
qed

lemma grown_trans:
  assumes g: "grown pt s s'" and g': "grown pt s' s''"
  shows "grown pt s s''"
proof -
  have "fresh_tables pt s s''" using fresh_tables_trans [OF g] g g' by (simp add: grown_def)
  moreover have "others_kept (frees s) s s''"
    using g g' unfolding grown_def others_kept_def by auto
  moreover have "used_frame s k \<Longrightarrow> used_frame s' k" for k
    using g grown_frames [OF g] by (auto simp: grown_def used_frame_frees)
  then have "frames_kept s s''"
    using g g' grown_frames(1) [OF g] unfolding grown_def frames_kept_def by metis
  ultimately show ?thesis using g g' by (auto simp: grown_def)
qed

lemma zero_page_fields [simp]:
  "pmm_eq s (zero_page a s)" "paging_lock (zero_page a s) = paging_lock s" "mmio_regions (zero_page a s) = mmio_regions s"
  "mmio_lock (zero_page a s) = mmio_lock s"
  "pte_at (zero_page a s) = (\<lambda>x. if x - a < 0x1000 then 0 else pte_at s x)"
  "hhdm_offset (zero_page a s) = hhdm_offset s" "max_pfn (zero_page a s) = max_pfn s"
  "mem_map (zero_page a s) = mem_map s" "page_at (zero_page a s) = page_at s"
  by (simp_all add: zero_page_def zero_mem_def pmm_eq_def)

lemma set_pte_fields [simp]:
  "pmm_eq s (set_pte a w s)" "paging_lock (set_pte a w s) = paging_lock s"
  "pte_at (set_pte a w s) = (pte_at s)(a := w)" "hhdm_offset (set_pte a w s) = hhdm_offset s"
  "max_pfn (set_pte a w s) = max_pfn s" "mem_map (set_pte a w s) = mem_map s" "page_at (set_pte a w s) = page_at s"
  by (simp_all add: set_pte_def pmm_eq_def)

text \<open>Allocating a table: a frame that was free, zeroed.\<close>

lemma alloc_pte_some:
  assumes r: "pmm_ready s" and h: "hhdm_ok s" and z: "page_ptr s 0 \<notin> frees s" and ne: "frees s \<noteq> {}"
  obtains n s' where "alloc_pte me s = Some (of_nat n * PAGE_SIZE, s')" and "0 < n" and "n \<le> unat (max_pfn s)"
    and "page_ptr s (of_nat n) \<in> frees s" and "frees s' = frees s - {page_ptr s (of_nat n)}"
    and "pmm_ready s'" and "others_kept {page_ptr s (of_nat n)} s s'" and "hhdm_offset s' = hhdm_offset s"
    and "paging_lock s' = paging_lock s" and "of_nat n * PAGE_SIZE \<noteq> (0 :: u64)"
    and "pte_at s' = (\<lambda>x. if x - frame_va s n < PAGE_SIZE then 0 else pte_at s x)"
    and "\<forall>x. \<not> x - frame_va s n < PAGE_SIZE \<longrightarrow> heap_mem s' x = heap_mem s x"
proof -
  from r obtain xs where i: "pmm_idle s xs" by (auto simp: pmm_ready_def)
  with ne pmm_idle_frees [OF i] obtain p ys where xs: "xs = p # ys" by (cases xs) auto
  obtain s1 where s1: "pmm_alloc_page me s = Some (p, s1)" "pmm_idle s1 ys" "others_kept {p} s s1"
    using pmm_alloc_page_idle [of s p ys me] i xs by auto
  have p: "p \<in> frees s" using pmm_idle_frees [OF i] xs by auto
  have pn: "p \<notin> set ys" using i xs pmm_rel_length(2) [of s xs] by (auto simp: pmm_idle_def)
  note wf = ready_wf [OF r]
  have db1: "db_page s1 p" using p s1(3) db_page_cong [of s1 s] by (auto simp: others_kept_def frees_def)
  have f1: "frees s1 = frees s - {p}"
    using frees_kept [OF s1(3)] pmm_idle_frees [OF s1(2)] pn by auto
  have k1: "mem_map s1 = mem_map s" "max_pfn s1 = max_pfn s" using s1(3) by (simp_all add: others_kept_def)
  have wf1: "db_wf s1" using wf db_wf_cong [OF k1] by simp
  obtain n where n: "n \<le> unat (max_pfn s1)" "p = page_ptr s1 (of_nat n)"
    "pfn_db_page_to_phys s1 p = of_nat n * PAGE_SIZE"
    by (rule frame_page [OF wf1 db1])
  have ptr: "page_ptr s1 = page_ptr s" using k1 by (intro ext) (simp add: page_ptr_def)
  note o1 = outside_pmm_fields [OF outside_pmm_ops(1) [OF s1(1)]]
  have n0: "0 < n" using z p n(2) ptr by (cases n) auto
  let ?s' = "zero_page (PHYS_TO_VIRT s1 (of_nat n * PAGE_SIZE)) s1"
  have va: "PHYS_TO_VIRT s1 (of_nat n * PAGE_SIZE) = frame_va s n"
    using o1(1) by (simp add: frame_va_def PHYS_TO_VIRT_def)
  have "unat (of_nat n * 0x1000 :: u64) = n * 4096"
    using h n(1) k1 unat_of_nat_le [OF n(1)] by (subst unat_mult_no_wrap) (auto simp: hhdm_ok_def)
  then have nz: "of_nat n * PAGE_SIZE \<noteq> (0 :: u64)" using n0 by (auto simp: word_unat_eq_iff)
  have "p \<noteq> NULL" using wf1 db1 by (rule db_page_not_NULL)
  then have a: "alloc_pte me s = Some (of_nat n * PAGE_SIZE, ?s')"
    using s1(1) n(3) by (simp add: alloc_pte_def Let_def)
  note e = pmm_eq_facts [OF zero_page_fields(1) [of s1 "PHYS_TO_VIRT s1 (of_nat n * PAGE_SIZE)"]]
  show ?thesis
  proof (rule that [OF a n0])
    show "pmm_ready ?s'" unfolding e using s1(2) by (auto simp: pmm_ready_def)
    show "frees ?s' = frees s - {page_ptr s (of_nat n)}" unfolding e f1 using n(2) ptr by simp
    show "others_kept {page_ptr s (of_nat n)} s ?s'" using s1(3) n(2) ptr by (simp add: others_kept_def)
    show "pte_at ?s' = (\<lambda>x. if x - frame_va s n < PAGE_SIZE then 0 else pte_at s x)"
      unfolding zero_page_fields va o1 ..
    show "\<forall>x. \<not> x - frame_va s n < PAGE_SIZE \<longrightarrow> heap_mem ?s' x = heap_mem s x"
      unfolding va using o1 by (simp add: zero_page_def zero_mem_def memset_apply)
  qed (use n k1 ptr p o1 nz in \<open>simp_all\<close>)
qed

lemma alloc_pte_none: "pmm_ready s \<Longrightarrow> frees s = {} \<Longrightarrow> alloc_pte me s = Some (0, s)"
  using pmm.alloc_empty [of s me] by (simp add: alloc_pte_def)

text \<open>An entry that is written with a fresh table.\<close>

lemma grow_tree:
  assumes c: "pt_core s pt" and p: "idx_path (p @ [i])" and b: "walk s (PHYS_TO_VIRT s pt) p = Some b"
    and np: "\<not> present (pte s b i)" and f: "f AND PAGE_FRAME_MASK = 0" "present f"
    and n: "n \<le> unat (max_pfn s)" "page_ptr s (of_nat n) \<in> frees s" "frees s' = frees s - {page_ptr s (of_nat n)}"
    and s': "pmm_ready s'" "others_kept {page_ptr s (of_nat n)} s s'" "hhdm_offset s' = hhdm_offset s"
    and w: "pte_at s' = (\<lambda>x. if x - frame_va s n < PAGE_SIZE then 0 else pte_at s x)(b + 8 * i := of_nat n * PAGE_SIZE OR f)"
  shows "pt_core s' pt" and "mapping s' pt v = mapping s pt v"
    and "walk s' (PHYS_TO_VIRT s pt) (p @ [i]) = Some (frame_va s n)" and "fresh_tables pt s s'"
proof -
  define t where "t = PHYS_TO_VIRT s pt"
  have ok: "tree_ok s t" and h: "hhdm_ok s" and r: "pmm_ready s" using c by (simp_all add: pt_core_def t_def)
  have p': "idx_path p" "i < 512" "length p < 3" using p by (simp_all add: idx_path_snoc)
  have bt: "walk s t p = Some b" using b by (simp add: t_def)
  have mx: "max_pfn s' = max_pfn s" "mem_map s' = mem_map s" using s'(2) by (simp_all add: others_kept_def)
  have fv: "frame_va s' = frame_va s" using s'(3) by (intro ext) (simp add: frame_va_def PHYS_TO_VIRT_def)
  have ptr: "page_ptr s' = page_ptr s" using mx by (intro ext) (simp add: page_ptr_def)
  have h': "hhdm_ok s'" using h mx s'(3) by (simp add: hhdm_ok_def)
  have fresh: "a \<noteq> frame_va s n" if "idx_path q" "walk s t q = Some a" for q a
  proof -
    from tree_ok_table [OF ok that] obtain k where k: "used_frame s k" "k \<le> unat (max_pfn s)" "a = frame_va s k" .
    then have "k \<noteq> n" using n(2) by (auto simp: used_frame_frees)
    with k n(1) h show ?thesis by (simp add: frame_va_inj)
  qed
  have kept: "entries_kept s t (p @ [i]) s'"
    unfolding entries_kept_def
  proof (intro conjI allI impI)
    fix q a j assume q: "idx_path q" "walk s t q = Some a" "j < 512" "q @ [j] \<noteq> p @ [i]"
    from tree_ok_table [OF ok q(1,2)] obtain k where k: "k \<le> unat (max_pfn s)" "a = frame_va s k" .
    have "k \<noteq> n" using fresh [OF q(1,2)] k(2) by auto
    then have "\<not> a + 8 * j - frame_va s n < PAGE_SIZE" using entry_in_page [OF h k(1) n(1) q(3)] k(2) by simp
    moreover have "a + 8 * j \<noteq> b + 8 * i"
      using table_entry_inj [OF ok h p'(1) bt p'(2) q(1,2,3)] q(4) by blast
    ultimately show "pte s' a j = pte s a j" by (simp add: pte_def w)
  qed (rule s'(3))
  have zero: "pte s' (frame_va s n) j = 0" if "j < 512" for j
  proof -
    obtain k where k: "k \<le> unat (max_pfn s)" "b = frame_va s k" using tree_ok_table [OF ok p'(1) bt] .
    have "frame_va s n + 8 * j \<noteq> b + 8 * i"
      using fresh [OF p'(1) bt] entry_inj(1) [OF h n(1) k(1) that p'(2)] k(2) by auto
    with entry_in_page [OF h n(1) n(1) that] show ?thesis by (simp add: pte_def w)
  qed
  have e: "pte s' b i = of_nat n * PAGE_SIZE OR f" by (simp add: pte_def w)
  have pres: "present (pte s' b i)" using f(2) unfolding e by (simp add: present_bit bit_or_iff)
  have nx: "next_table s' (pte s' b i) = frame_va s n"
    unfolding e next_table_def entry_frame [OF frame_va_ok(2) [OF h n(1)] f(1)]
    using s'(3) by (simp add: frame_va_def PHYS_TO_VIRT_def)
  have wp: "walk s' t p = Some b"
    using walk_kept [OF kept p'(1)] bt by (simp add: prefix_def)
  have new: "walk s' t (p @ [i]) = Some (frame_va s n)" by (simp add: walk_snoc wp pres nx)
  then show "walk s' (PHYS_TO_VIRT s pt) (p @ [i]) = Some (frame_va s n)" by (simp add: t_def)
  have deeper: "q = p @ [i] \<and> a = frame_va s n" if q: "idx_path q" "prefix (p @ [i]) q" "walk s' t q = Some a" for q a
  proof -
    obtain r where qr: "q = (p @ [i]) @ r" using q(2) by (auto simp: prefix_def)
    have "r = []"
    proof (rule ccontr)
      assume "r \<noteq> []"
      then obtain j r' where rj: "r = j # r'" by (cases r) auto
      have "j < 512" using q(1) by (simp add: qr rj idx_path_def)
      then have "walk s' t q = None" unfolding qr rj by (subst walk_append) (simp add: new zero)
      with q(3) show False by simp
    qed
    with qr q(3) new show ?thesis by simp
  qed
  show "fresh_tables pt s s'"
    unfolding fresh_tables_def t_def [symmetric] using deeper n walk_kept [OF kept] by metis
  have used: "used_frame s' k" if "used_frame s k" for k
    using that n by (auto simp: used_frame_frees mx ptr)
  have "n \<noteq> 0" using n(2) c by (cases "n = 0") (auto simp: pt_core_def)
  then have un: "used_frame s' n" using n by (simp add: used_frame_frees mx ptr)
  have tok: "tree_ok s' t"
    by (rule tree_ok_change [OF ok kept fv]) (use used un deeper fresh in \<open>blast+\<close>)
  have "page_ptr s' 0 \<notin> frees s'" using c n(3) by (simp add: pt_core_def ptr)
  with tok s'(1,3) h' c show "pt_core s' pt" by (simp add: pt_core_def t_def PHYS_TO_VIRT_def)
  show "mapping s' pt v = mapping s pt v"
  proof -
    have t': "PHYS_TO_VIRT s' pt = t" using s'(3) by (simp add: t_def PHYS_TO_VIRT_def)
    have "leaf_of s' t (vpath v) (pml1_index v) = leaf_of s t (vpath v) (pml1_index v)"
    proof (cases "prefix (p @ [i]) (vpath v @ [pml1_index v])")
      case False
      then show ?thesis by (intro leaf_of_kept [OF kept]) simp_all
    next
      case True
      then have pre: "prefix (p @ [i]) (vpath v)" using p'(3) by (auto simp: vpath_def prefix_def Cons_eq_append_conv)
      then obtain r where vr: "vpath v = (p @ [i]) @ r" by (auto simp: prefix_def)
      have old: "walk s t (p @ [i]) = None" using bt np by (simp add: walk_snoc)
      have "walk s t (vpath v) = None" unfolding vr by (subst walk_append) (simp add: old)
      moreover have "walk s' t (vpath v) = None \<or> walk s' t (vpath v) = Some (frame_va s n)"
        using deeper [OF idx_path_vpath pre] by (cases "walk s' t (vpath v)") auto
      ultimately show ?thesis using zero by (auto simp: leaf_of_def)
    qed
    then show ?thesis by (simp add: mapping_def t' t_def)
  qed
qed

lemma pte_next_grown:
  assumes c: "pt_core s pt" and p: "idx_path (p @ [i])" and b: "walk s (PHYS_TO_VIRT s pt) p = Some b"
    and f: "f AND PAGE_FRAME_MASK = 0" "present f" and P: "P = p @ [i]"
  obtains a s' where "pte_next me b i f s = Some (a, s')" and "grown pt s s'"
    and "card (frees s) \<le> Suc (card (frees s'))"
    and "if a = NULL then frees s = {} else walk s' (PHYS_TO_VIRT s pt) P = Some a"
proof (cases "present (pte s b i)")
  case True
  then have w: "walk s (PHYS_TO_VIRT s pt) (p @ [i]) = Some (next_table s (pte s b i))" using b by (simp add: walk_snoc)
  have ok: "tree_ok s (PHYS_TO_VIRT s pt)" and h: "hhdm_ok s" using c by (simp_all add: pt_core_def)
  from tree_ok_table [OF ok p w] obtain k where "k \<le> unat (max_pfn s)" "next_table s (pte s b i) = frame_va s k" .
  then have "next_table s (pte s b i) \<noteq> NULL" using frame_va_ok(1) [OF h] by simp
  with True w grown_refl [OF c] that [of "next_table s (pte s b i)" s] show ?thesis
    by (simp add: pte_next_def next_table_def P)
next
  case np: False
  have core: "pmm_ready s" "hhdm_ok s" "page_ptr s 0 \<notin> frees s" using c by (simp_all add: pt_core_def)
  have f0: "f \<noteq> 0" using f(2) by auto
  show ?thesis
  proof (cases "frees s = {}")
    case True
    then have "pte_next me b i f s = Some (NULL, s)"
      using np f0 alloc_pte_none [OF core(1) True] by (simp add: pte_next_def)
    with True grown_refl [OF c] that [of NULL s] show ?thesis by simp
  next
    case False
    obtain n s1 where
      n: "alloc_pte me s = Some (of_nat n * PAGE_SIZE, s1)" "0 < n" "n \<le> unat (max_pfn s)" "page_ptr s (of_nat n) \<in> frees s"
        "frees s1 = frees s - {page_ptr s (of_nat n)}"
      and s1: "pmm_ready s1" "others_kept {page_ptr s (of_nat n)} s s1" "hhdm_offset s1 = hhdm_offset s"
        "paging_lock s1 = paging_lock s" "of_nat n * PAGE_SIZE \<noteq> (0 :: u64)"
        "pte_at s1 = (\<lambda>x. if x - frame_va s n < PAGE_SIZE then 0 else pte_at s x)"
        "\<forall>x. \<not> x - frame_va s n < PAGE_SIZE \<longrightarrow> heap_mem s1 x = heap_mem s x"
      by (rule alloc_pte_some [OF core False, of me])
    let ?s' = "set_pte (b + 8 * i) (of_nat n * PAGE_SIZE OR f) s1"
    have e: "pte_next me b i f s = Some (frame_va s n, ?s')"
      using np f0 n(1) s1(3,5) by (simp add: pte_next_def frame_va_def PHYS_TO_VIRT_def)
    note q = pmm_eq_facts [OF set_pte_fields(1) [of s1 "b + 8 * i" "of_nat n * PAGE_SIZE OR f"]]
    have r': "pmm_ready ?s'" "others_kept {page_ptr s (of_nat n)} s ?s'" "hhdm_offset ?s' = hhdm_offset s"
      "frees ?s' = frees s - {page_ptr s (of_nat n)}"
      "pte_at ?s' = (\<lambda>x. if x - frame_va s n < PAGE_SIZE then 0 else pte_at s x)(b + 8 * i := of_nat n * PAGE_SIZE OR f)"
      using q s1 n(5) by (simp_all add: others_kept_def)
    note g = grow_tree [OF c p b np f n(3,4) r'(4,1,2,3,5)]
    have "others_kept (frees s) s ?s'" using r'(2) n(4) by (rule others_kept_mono) simp
    moreover have "frames_kept s ?s'"
      unfolding frames_kept_def
    proof (intro allI impI, elim conjE)
      fix k x assume k: "used_frame s k" "x - frame_va s k < PAGE_SIZE"
      have "\<not> x - frame_va s n < PAGE_SIZE"
        using frames_apart [OF core(2) _ n(3) k(2)] k(1) n(4) by (auto simp: used_frame_frees)
      then show "heap_mem ?s' x = heap_mem s x" using s1(7) by (simp add: set_pte_def)
    qed
    ultimately have "grown pt s ?s'" using g(1,2,4) r'(3,4) s1(4) by (auto simp: grown_def)
    moreover have "card (frees s) \<le> Suc (card (frees ?s'))"
      using r'(4) n(4) pmm.avail_finite [OF core(1)] by (simp add: card_Diff_singleton)
    moreover have "frame_va s n \<noteq> NULL" using frame_va_ok(1) [OF core(2) n(3)] .
    ultimately show ?thesis using e g(3) that [of "frame_va s n" ?s'] by (simp add: P)
  qed
qed

text \<open>Three levels down, with the tables that are missing built on the way.\<close>

lemma leaf_entry_grown:
  assumes c: "pt_core s pt" and f: "f AND PAGE_FRAME_MASK = 0" "present f"
  shows "\<exists>e s'. leaf_entry me (PHYS_TO_VIRT s pt) v f s = Some (e, s') \<and> grown pt s s' \<and> card (frees s) \<le> card (frees s') + 3 \<and>
    (e = NULL \<longrightarrow> card (frees s) < 3) \<and>
    (e \<noteq> NULL \<longrightarrow> (\<exists>a. walk s' (PHYS_TO_VIRT s pt) (vpath v) = Some a \<and> e = a + 8 * pml1_index v))"
proof -
  let ?t = "PHYS_TO_VIRT s pt"
  have tt: "PHYS_TO_VIRT s' pt = ?t" if "grown pt s s'" for s'
    using that by (simp add: grown_def PHYS_TO_VIRT_def)
  obtain a3 s1 where 1: "pte_next me ?t (pml4_index v) f s = Some (a3, s1)" "grown pt s s1"
    "card (frees s) \<le> Suc (card (frees s1))"
    "if a3 = NULL then frees s = {} else walk s1 ?t [pml4_index v] = Some a3"
    by (rule pte_next_grown [OF c, of "[]" "pml4_index v" ?t f "[pml4_index v]" me])
      (use f in \<open>simp_all add: idx_path_def\<close>)
  show ?thesis
  proof (cases "a3 = NULL")
    case True
    with 1 show ?thesis by (simp add: leaf_entry_def)
  next
    case a3: False
    have c1: "pt_core s1 pt" using 1(2) by (simp add: grown_def)
    obtain a2 s2 where 2: "pte_next me a3 (pml3_index v) f s1 = Some (a2, s2)" "grown pt s1 s2"
      "card (frees s1) \<le> Suc (card (frees s2))"
      "if a2 = NULL then frees s1 = {} else walk s2 ?t [pml4_index v, pml3_index v] = Some a2"
      unfolding tt [OF 1(2), symmetric]
      by (rule pte_next_grown [OF c1, of "[pml4_index v]" "pml3_index v" a3 f "[pml4_index v, pml3_index v]" me])
        (use f 1(4) a3 tt [OF 1(2)] in \<open>simp_all add: idx_path_def\<close>)
    note g2 = grown_trans [OF 1(2) 2(2)]
    show ?thesis
    proof (cases "a2 = NULL")
      case True
      with 1 2 a3 g2 show ?thesis by (simp add: leaf_entry_def)
    next
      case a2: False
      have c2: "pt_core s2 pt" using 2(2) by (simp add: grown_def)
      obtain a1 s3 where 3: "pte_next me a2 (pml2_index v) f s2 = Some (a1, s3)" "grown pt s2 s3"
        "card (frees s2) \<le> Suc (card (frees s3))"
        "if a1 = NULL then frees s2 = {} else walk s3 ?t (vpath v) = Some a1"
        unfolding tt [OF g2, symmetric]
        by (rule pte_next_grown [OF c2, of "[pml4_index v, pml3_index v]" "pml2_index v" a2 f "vpath v" me])
          (use f 2(4) a2 tt [OF g2] in \<open>simp_all add: idx_path_def vpath_def\<close>)
      note g3 = grown_trans [OF g2 3(2)]
      show ?thesis
      proof (cases "a1 = NULL")
        case True
        with 1 2 3 a3 a2 g3 show ?thesis by (simp add: leaf_entry_def)
      next
        case a1: False
        have w: "walk s3 ?t (vpath v) = Some a1" using 3(4) a1 by simp
        have "a1 + 8 * pml1_index v \<noteq> NULL"
        proof -
          have ok: "tree_ok s3 ?t" "hhdm_ok s3" using 3(2) tt [OF g3] by (simp_all add: grown_def pt_core_def)
          from tree_ok_table [OF ok(1) idx_path_vpath w] obtain k where
            k: "k \<le> unat (max_pfn s3)" "a1 = frame_va s3 k" .
          have "unat (a1 + 8 * pml1_index v) \<noteq> 0"
            using unat_entry [OF ok(2) k(1), of "pml1_index v"] k(2) ok(2) by (simp add: hhdm_ok_def)
          then show ?thesis by auto
        qed
        with 1 2 3 a3 a2 a1 g3 w show ?thesis by (simp add: leaf_entry_def)
      qed
    qed
  qed
qed

text \<open>Without allocation the walk only reads.\<close>

lemma pte_next_read:
  "pte_next me b i 0 s = Some (if present (pte s b i) then next_table s (pte s b i) else NULL, s)"
  by (simp add: pte_next_def next_table_def Let_def)

lemma table_not_NULL:
  assumes c: "pt_core s pt" and p: "idx_path p" "walk s (PHYS_TO_VIRT s pt) p = Some a" and i: "i < 512"
  shows "a \<noteq> NULL" and "a + 8 * i \<noteq> NULL"
proof -
  have ok: "tree_ok s (PHYS_TO_VIRT s pt)" "hhdm_ok s" using c by (simp_all add: pt_core_def)
  from tree_ok_table [OF ok(1) p] obtain k where k: "k \<le> unat (max_pfn s)" "a = frame_va s k" .
  show "a \<noteq> NULL" using frame_va_ok(1) [OF ok(2) k(1)] k(2) by simp
  have "unat (a + 8 * i) \<noteq> 0" using unat_entry [OF ok(2) k(1) i] k(2) ok(2) by (simp add: hhdm_ok_def)
  then show "a + 8 * i \<noteq> NULL" by auto
qed

lemma leaf_entry_read:
  assumes c: "pt_core s pt"
  shows "leaf_entry me (PHYS_TO_VIRT s pt) v 0 s =
    Some (case walk s (PHYS_TO_VIRT s pt) (vpath v) of None \<Rightarrow> NULL | Some a \<Rightarrow> a + 8 * pml1_index v, s)"
proof -
  let ?t = "PHYS_TO_VIRT s pt"
  have nn: "a \<noteq> NULL" if "idx_path p" "walk s ?t p = Some a" for p a
    using table_not_NULL(1) [OF c that, of 0] by simp
  show ?thesis
    using nn [of "[pml4_index v]"] nn [of "[pml4_index v, pml3_index v]"] nn [of "vpath v"]
    by (auto simp: leaf_entry_def pte_next_read vpath_def idx_path_def)
qed

lemma get_paddr_mapping:
  assumes c: "pt_core s pt"
  shows "get_paddr me pt v s =
      Some (case mapping s pt v of None \<Rightarrow> 0 | Some e \<Rightarrow> e AND PAGE_FRAME_MASK, s)"
    and "get_pflags me pt v s =
      Some (case mapping s pt v of None \<Rightarrow> 0 | Some e \<Rightarrow> e AND NOT PAGE_FRAME_MASK, s)"
  using table_not_NULL(2) [OF c idx_path_vpath, of v _ "pml1_index v"] c
  by (auto simp: get_paddr_def get_pflags_def leaf_entry_read [OF c] mapping_def leaf_of_def pte_def pt_core_def
      split: option.split)

section \<open>Addresses on the same page\<close>

text \<open>The page of an address, as the four levels see it: bits 12 to 47.\<close>

definition vpage :: "u64 \<Rightarrow> u64" where
  "vpage v = take_bit 36 (drop_bit 12 v)"

lemma field_eq_bits:
  "take_bit k (drop_bit m v) = take_bit k (drop_bit m w) \<longleftrightarrow> (\<forall>n. m \<le> n \<and> n < m + k \<longrightarrow> bit v n = bit w n)"
  (is "?l = ?r") for v w :: u64
proof
  assume e: ?l
  show ?r
  proof (intro allI impI)
    fix n assume n: "m \<le> n \<and> n < m + k"
    have "bit (take_bit k (drop_bit m v)) (n - m) = bit (take_bit k (drop_bit m w)) (n - m)" using e by simp
    with n show "bit v n = bit w n" by (simp add: bit_take_bit_iff bit_drop_bit_eq less_diff_conv2)
  qed
next
  assume r: ?r
  show ?l
    by (rule bit_word_eqI) (use r in \<open>auto simp: bit_take_bit_iff bit_drop_bit_eq\<close>)
qed

lemma index_eq_bits:
  "drop_bit m v AND 0x1ff = drop_bit m w AND 0x1ff \<longleftrightarrow> (\<forall>n. m \<le> n \<and> n < m + 9 \<longrightarrow> bit v n = bit w n)" for v w :: u64
proof -
  have mask9: "(0x1ff :: u64) = mask 9" by (simp add: mask_eq_exp_minus_1)
  show ?thesis unfolding mask9 take_bit_eq_mask [symmetric] by (rule field_eq_bits)
qed

lemma vpage_eq_bits: "vpage v = vpage w \<longleftrightarrow> (\<forall>n. 12 \<le> n \<and> n < 48 \<longrightarrow> bit v n = bit w n)"
  using field_eq_bits [of 36 12 v w] by (simp add: vpage_def)

lemma same_vpage: "vpath v @ [pml1_index v] = vpath w @ [pml1_index w] \<longleftrightarrow> vpage v = vpage w"
proof -
  have "vpath v @ [pml1_index v] = vpath w @ [pml1_index w] \<longleftrightarrow>
      (\<forall>n. 39 \<le> n \<and> n < 48 \<longrightarrow> bit v n = bit w n) \<and> (\<forall>n. 30 \<le> n \<and> n < 39 \<longrightarrow> bit v n = bit w n) \<and>
      (\<forall>n. 21 \<le> n \<and> n < 30 \<longrightarrow> bit v n = bit w n) \<and> (\<forall>n. 12 \<le> n \<and> n < 21 \<longrightarrow> bit v n = bit w n)"
    using index_eq_bits [of 39 v w] index_eq_bits [of 30 v w] index_eq_bits [of 21 v w] index_eq_bits [of 12 v w]
    by (simp add: vpath_def pml1_index_def pml2_index_def pml3_index_def pml4_index_def)
  also have "\<dots> \<longleftrightarrow> (\<forall>n. 12 \<le> n \<and> n < 48 \<longrightarrow> bit v n = bit w n)"
    (is "?l = ?r")
  proof
    assume l: ?l
    show ?r
    proof (intro allI impI)
      fix n :: nat assume "12 \<le> n \<and> n < 48"
      then consider "39 \<le> n \<and> n < 48" | "30 \<le> n \<and> n < 39" | "21 \<le> n \<and> n < 30" | "12 \<le> n \<and> n < 21" by linarith
      then show "bit v n = bit w n" using l by cases simp_all
    qed
  next
    assume ?r
    then show ?l by simp
  qed
  finally show ?thesis unfolding vpage_eq_bits .
qed

lemma vpage_align: "vpage (ALIGN_DOWN v PAGE_SIZE) = vpage v"
  unfolding vpage_eq_bits and_not_low12 [symmetric]
proof (intro allI impI)
  fix n :: nat assume n: "12 \<le> n \<and> n < 48"
  have m: "(0xFFF :: u64) = mask 12" by (simp add: mask_eq_exp_minus_1)
  show "bit (v AND NOT 0xFFF) n = bit v n" unfolding m using n by (auto simp: bit_simps)
qed

end
