(* ===== verification/Paging_Ops.thy ===== *)
theory Paging_Ops
  imports Paging_Map
begin

text \<open>
  Mapping and unmapping on a well-formed page table: what \<^verbatim>\<open>map_page\<close> and \<^verbatim>\<open>unmap_page\<close> do to the
  translation of every address, to the tables and to the reference count of the mapped page.
\<close>

section \<open>Leaf entries\<close>

lemma set_pte_mem: "heap_mem (set_pte a w s) = heap_mem s"
  by (simp add: set_pte_def)

lemma leaf_store:
  assumes c: "pt_core s pt" and a: "walk s (PHYS_TO_VIRT s pt) (vpath v) = Some a"
  shows "pt_core (set_pte (a + 8 * pml1_index v) w s) pt"
    and "mapping (set_pte (a + 8 * pml1_index v) w s) pt x =
      (if vpage x = vpage v then if present w then Some w else None else mapping s pt x)"
    and "idx_path q \<Longrightarrow> walk (set_pte (a + 8 * pml1_index v) w s) (PHYS_TO_VIRT s pt) q = walk s (PHYS_TO_VIRT s pt) q"
proof -
  let ?s = "set_pte (a + 8 * pml1_index v) w s" and ?P = "vpath v @ [pml1_index v]"
  define t where "t = PHYS_TO_VIRT s pt"
  have ok: "tree_ok s t" and h: "hhdm_ok s" using c by (simp_all add: pt_core_def t_def)
  have at: "walk s t (vpath v) = Some a" using a by (simp add: t_def)
  note e = pmm_eq_facts [OF set_pte_fields(1) [of s "a + 8 * pml1_index v" w]]
  have kept: "entries_kept s t ?P ?s"
    unfolding entries_kept_def
  proof (intro conjI allI impI)
    fix q b j assume q: "idx_path q" "walk s t q = Some b" "j < 512" "q @ [j] \<noteq> ?P"
    have "b + 8 * j \<noteq> a + 8 * pml1_index v"
      using table_entry_inj [OF ok h idx_path_vpath at index_bound(1) q(1,2,3)] q(4) by blast
    then show "pte ?s b j = pte s b j" by (simp add: pte_def)
  qed simp
  have np: "\<not> prefix ?P q" if "idx_path q" for q
    using that prefix_length_le [of ?P q] by (auto simp: idx_path_def vpath_def)
  have wk: "walk ?s t q = walk s t q" if "idx_path q" for q by (rule walk_kept [OF kept that np [OF that]])
  then show "idx_path q \<Longrightarrow> walk ?s (PHYS_TO_VIRT s pt) q = walk s (PHYS_TO_VIRT s pt) q"
    by (simp add: t_def)
  have uf: "used_frame ?s = used_frame s" by (rule ext) (simp add: used_frame_frees e)
  have "tree_ok ?s t"
    by (rule tree_ok_change [OF ok kept]) (use np in \<open>auto simp: e uf\<close>)
  then show "pt_core ?s pt" using c by (simp add: pt_core_def e t_def PHYS_TO_VIRT_def)
  have t': "PHYS_TO_VIRT ?s pt = t" by (simp add: t_def PHYS_TO_VIRT_def)
  show "mapping ?s pt x = (if vpage x = vpage v then if present w then Some w else None else mapping s pt x)"
  proof (cases "vpage x = vpage v")
    case True
    then have "vpath x = vpath v" "pml1_index x = pml1_index v" using same_vpage [of x v] by simp_all
    with True show ?thesis using wk [of "vpath v"] at by (simp add: mapping_def leaf_of_def t' pte_def)
  next
    case False
    then have "?P \<noteq> vpath x @ [pml1_index x]" using same_vpage [of v x] by auto
    then have "\<not> prefix ?P (vpath x @ [pml1_index x])" by (auto simp: vpath_def prefix_def)
    from leaf_of_kept [OF kept idx_path_vpath index_bound(1) this] False show ?thesis
      by (simp add: mapping_def t' t_def)
  qed
qed

section \<open>Giving up a frame\<close>

lemma release_any:
  assumes r: "pmm_ready s" and p: "db_page s p"
  obtains s' where "pmm_page_release me p s = Some ((), s')" and "pmm_ready s'" and "others_kept {p} s s'"
    and "1 < refcount (page_at s p) \<longrightarrow> page_at s' p = (page_at s p)\<lparr>refcount := refcount (page_at s p) - 1\<rparr>"
proof -
  from r obtain xs where i: "pmm_idle s xs" by (auto simp: pmm_ready_def)
  note result = that
  consider (none) "refcount (page_at s p) = 0"
    | (last) "refcount (page_at s p) = 1" "\<not> is_page_free (page_at s p)" "\<not> is_page_reserved (page_at s p)"
    | (more) "\<not> is_page_free (page_at s p)"
        "1 < refcount (page_at s p) \<or> refcount (page_at s p) = 1 \<and> is_page_reserved (page_at s p)"
  proof -
    have "refcount (page_at s p) = 0 \<or> refcount (page_at s p) = 1 \<or> 1 < refcount (page_at s p)"
    proof -
      have "unat (refcount (page_at s p)) = 0 \<or> unat (refcount (page_at s p)) = 1 \<or> 1 < unat (refcount (page_at s p))" by linarith
      then show ?thesis by (auto simp: word_less_nat_alt word_unat_eq_iff)
    qed
    moreover have "is_page_free (page_at s p) \<Longrightarrow> refcount (page_at s p) = 0"
      using i p by (auto simp: pmm_idle_def pmm_rel_def frees_def)
    ultimately show ?thesis using that by fastforce
  qed
  then show ?thesis
  proof cases
    case none
    then show ?thesis using result [of s] pmm_page_release_none [OF i none] r by (simp add: others_kept_def)
  next
    case last
    with pmm_page_release_last [OF i p idle_page_not_NULL [OF i p]] obtain s' where
      "pmm_page_release me p s = Some ((), s')" "pmm_idle s' (p # xs)" "others_kept {p} s s'" by auto
    then show ?thesis using result [of s'] last(1) by (auto simp: pmm_ready_def)
  next
    case more
    with pmm_page_release_more [OF i p] obtain s' where
      "pmm_page_release me p s = Some ((), s')" "pmm_idle s' xs" "others_kept {p} s s'"
      "page_at s' p = (page_at s p)\<lparr>refcount := refcount (page_at s p) - 1\<rparr>" by blast
    then show ?thesis using result [of s'] by (auto simp: pmm_ready_def)
  qed
qed

lemma drop_frame_used:
  assumes r: "pmm_ready s" and k: "used_frame s k" and p: "p = page_ptr s (of_nat k)"
  obtains s' where "drop_frame me (of_nat k * PAGE_SIZE) s = Some s'" and "pmm_ready s'" and "others_kept {p} s s'"
    and "outside_pmm s' = outside_pmm s"
    and "1 < refcount (page_at s p) \<longrightarrow> refcount (page_at s' p) = refcount (page_at s p) - 1 \<and> p \<notin> frees s'"
proof -
  note wf = ready_wf [OF r]
  have k': "k \<le> unat (max_pfn s)" "\<not> is_page_free (page_at s p)" using k p by (simp_all add: used_frame_def)
  note f = frame_to_page [OF wf k'(1)]
  from r obtain xs where i: "pmm_idle s xs" by (auto simp: pmm_ready_def)
  obtain s1 where s1: "pmm_page_unshare me p s = Some ((), s1)" "pmm_idle s1 xs" "others_kept {p} s s1"
    and p1: "page_at s1 p = (let q = page_at s p; c = (if 0 < u2 q then u2 q - 1 else u2 q) in
      if is_page_shared q
      then q\<lparr>u2 := c, pg_flags := (if c \<le> 1 then clear_flags (pg_flags q) PAGE_SHARED else pg_flags q)\<rparr> else q)"
    using pmm_page_unshare_used [OF i, of p me] f(3) k'(2) p by auto
  have rf: "refcount (page_at s1 p) = refcount (page_at s p)" "\<not> is_page_free (page_at s1 p)"
    using k'(2) unfolding p1 by (auto simp: Let_def is_page_free_def bit_simps)
  have r1: "pmm_ready s1" using s1(2) by (auto simp: pmm_ready_def)
  have db1: "db_page s1 p" using f(3) p s1(3) db_page_cong [of s1 s] by (simp add: others_kept_def)
  obtain s2 where s2: "pmm_page_release me p s1 = Some ((), s2)" "pmm_ready s2" "others_kept {p} s1 s2"
    "1 < refcount (page_at s1 p) \<longrightarrow> page_at s2 p = (page_at s1 p)\<lparr>refcount := refcount (page_at s1 p) - 1\<rparr>"
    by (rule release_any [OF r1 db1])
  show ?thesis
  proof (rule that [of s2])
    show "drop_frame me (of_nat k * PAGE_SIZE) s = Some s2"
      using f(1,2) s1(1) s2(1) p by (simp add: drop_frame_def Let_def)
    show "others_kept {p} s s2" using s1(3) s2(3) by (simp add: others_kept_def)
    show "outside_pmm s2 = outside_pmm s"
      using outside_pmm_ops(4) [OF s1(1)] outside_pmm_ops(2) [OF s2(1)] by simp
    show "1 < refcount (page_at s p) \<longrightarrow> refcount (page_at s2 p) = refcount (page_at s p) - 1 \<and> p \<notin> frees s2"
      using s2(4) rf by (auto simp: frees_def is_page_free_def)
  qed (rule s2(2))
qed

text \<open>
  A frame that holds data, not a table of the page table: giving it up changes no translation.
\<close>

definition data_frame :: "'b paging_scheme \<Rightarrow> u64 \<Rightarrow> nat \<Rightarrow> bool" where
  "data_frame s pt k \<longleftrightarrow> used_frame s k \<and>
     (\<forall>q. idx_path q \<longrightarrow> walk s (PHYS_TO_VIRT s pt) q \<noteq> Some (frame_va s k))"

lemma frees_insert: "others_kept {p} s s' \<Longrightarrow> frees s' \<subseteq> insert p (frees s)"
  using frees_kept [of p s s'] by auto

lemma frees_sub: "others_kept P s s' \<Longrightarrow> frees s' \<subseteq> frees s \<union> P"
  using db_page_cong [of s' s] by (auto simp: frees_def others_kept_def is_page_free_def)

lemma outside_same_tables:
  assumes "outside_pmm s' = outside_pmm s" and "others_kept P s s'"
  shows "same_tables s s'"
  using outside_pmm_fields [OF assms(1)] assms(2) by (simp add: same_tables_def others_kept_def)

lemma release_core:
  assumes c: "pt_core s pt" and k: "k \<le> unat (max_pfn s)" "k \<noteq> 0"
    and nt: "\<And>q. idx_path q \<Longrightarrow> walk s (PHYS_TO_VIRT s pt) q \<noteq> Some (frame_va s k)"
    and s': "pmm_ready s'" "others_kept {page_ptr s (of_nat k)} s s'" "outside_pmm s' = outside_pmm s"
  shows "pt_core s' pt" and "mapping s' pt = mapping s pt"
proof -
  note e = outside_same_tables [OF s'(3,2)] note w = same_tables_walk [OF e]
  note fi = frees_insert [OF s'(2)]
  have wf: "db_wf s" using c by (auto simp: pt_core_def intro: ready_wf)
  have mx: "max_pfn s' = max_pfn s" using s'(2) by (simp add: others_kept_def)
  show "pt_core s' pt"
  proof (rule pt_core_same [OF c e s'(1)])
    have "page_ptr s 0 \<noteq> page_ptr s (of_nat k)" using frame_ptr_inj [OF wf _ k(1), of 0] k(2) by auto
    then show "page_ptr s 0 \<notin> frees s'" using fi c by (auto simp: pt_core_def)
    fix l q assume l: "idx_path q" "walk s (PHYS_TO_VIRT s pt) q = Some (frame_va s l)" "used_frame s l"
    have "l \<noteq> k" using nt [OF l(1)] l(2) by auto
    with l(3) k(1) fi show "used_frame s' l"
      using frame_ptr_inj [OF wf, of l k] unfolding used_frame_frees w mx by blast
  qed
  show "mapping s' pt = mapping s pt" by (rule ext) (rule w(2))
qed

lemma drop_data_frame:
  assumes c: "pt_core s pt" and k: "data_frame s pt k" and p: "p = page_ptr s (of_nat k)"
  obtains s' where "drop_frame me (of_nat k * PAGE_SIZE) s = Some s'" and "pt_core s' pt"
    and "others_kept {p} s s'" and "same_tables s s'" and "paging_lock s' = paging_lock s"
    and "1 < refcount (page_at s p) \<longrightarrow> refcount (page_at s' p) = refcount (page_at s p) - 1 \<and> p \<notin> frees s'"
    and "outside_pmm s' = outside_pmm s"
proof -
  have r: "pmm_ready s" and u: "used_frame s k" using c k by (simp_all add: pt_core_def data_frame_def)
  obtain s' where s': "drop_frame me (of_nat k * PAGE_SIZE) s = Some s'" "pmm_ready s'" "others_kept {p} s s'"
    "outside_pmm s' = outside_pmm s"
    "1 < refcount (page_at s p) \<longrightarrow> refcount (page_at s' p) = refcount (page_at s p) - 1 \<and> p \<notin> frees s'"
    by (rule drop_frame_used [OF r u p])
  have "pt_core s' pt"
    by (rule release_core(1) [OF c]) (use k s' p in \<open>auto simp: data_frame_def used_frame_def\<close>)
  then show ?thesis
    using that [OF s'(1)] s'(3,4,5) outside_same_tables [OF s'(4,3)] outside_pmm_fields(3) [OF s'(4)] by blast
qed

section \<open>Mapping a page\<close>

lemma table_flags_ok: "table_flags f AND PAGE_FRAME_MASK = 0" "present (table_flags f)"
  by (auto simp: table_flags_def present_def)

lemma acquire_paging_free:
  "lock_free (paging_lock s) \<Longrightarrow> acquire_paging me s = Some (s\<lparr>paging_lock := (paging_lock s)\<lparr>locked := 1, owner := me\<rparr>\<rparr>)"
  by (simp add: acquire_paging_def)

lemma lock_upd_same:
  "same_tables s (s\<lparr>paging_lock := l\<rparr>)" "pmm_eq s (s\<lparr>paging_lock := l\<rparr>)"
  by (simp_all add: same_tables_def pmm_eq_def)

lemma pt_core_lock [simp]: "pt_core (s\<lparr>paging_lock := l\<rparr>) pt = pt_core s pt"
proof -
  note w = same_tables_walk [OF lock_upd_same(1)] note e = pmm_eq_facts [OF lock_upd_same(2)]
  show ?thesis by (simp add: pt_core_def tree_ok_def w e used_frame_def)
qed

lemma lock_upd_simps [simp]:
  "mapping (s\<lparr>paging_lock := l\<rparr>) pt = mapping s pt" "frees (s\<lparr>paging_lock := l\<rparr>) = frees s"
  "PHYS_TO_VIRT (s\<lparr>paging_lock := l\<rparr>) = PHYS_TO_VIRT s"
  subgoal by (rule ext) (rule same_tables_walk(2) [OF lock_upd_same(1)])
  subgoal by (rule pmm_eq_facts(3) [OF lock_upd_same(2)])
  subgoal by (rule same_tables_walk(3) [OF lock_upd_same(1)])
  done

lemmas lock_upd_walk [simp] = same_tables_walk(1,4,5,6,7) [OF lock_upd_same(1)]

text \<open>What is there before a leaf entry is written: nothing, or an entry whose frame holds data and
  is not the page to be mapped.\<close>

definition replaceable :: "'b paging_scheme \<Rightarrow> u64 \<Rightarrow> u64 \<Rightarrow> u64 option \<Rightarrow> bool" where
  "replaceable s pt page m \<longleftrightarrow>
     (\<forall>e. m = Some e \<longrightarrow> (\<exists>k. e AND PAGE_FRAME_MASK = of_nat k * PAGE_SIZE \<and> data_frame s pt k \<and>
        page_ptr s (of_nat k) \<noteq> page))"

definition new_entry :: "u64 \<Rightarrow> u64 \<Rightarrow> u64" where
  "new_entry phys flags = phys OR (flags AND NOT PAGE_FRAME_MASK) OR PFLAG_PRESENT"

lemma new_entry_present [simp]: "present (new_entry phys flags)"
  by (simp add: new_entry_def present_bit bit_or_iff)

lemma new_entry_frame:
  assumes "k < 2 ^ 40"
  shows "new_entry (of_nat k * PAGE_SIZE) flags AND PAGE_FRAME_MASK = of_nat k * PAGE_SIZE"
proof -
  have "((flags AND NOT PAGE_FRAME_MASK) OR PFLAG_PRESENT) AND PAGE_FRAME_MASK = 0"
    by (simp add: bit.conj_disj_distrib2 and.assoc)
  from entry_frame [OF assms this] show ?thesis by (simp add: new_entry_def or.assoc)
qed

lemma new_entry_flags:
  assumes "k < 2 ^ 40"
  shows "new_entry (of_nat k * PAGE_SIZE) flags AND NOT PAGE_FRAME_MASK = (flags AND NOT PAGE_FRAME_MASK) OR PFLAG_PRESENT"
proof (rule bit_word_eqI)
  fix n assume "n < LENGTH(64)"
  have one: "bit (1 :: u64) n \<longleftrightarrow> n = 0" by (simp add: bit_1_iff)
  show "bit (new_entry (of_nat k * PAGE_SIZE) flags AND NOT PAGE_FRAME_MASK) n =
      bit ((flags AND NOT PAGE_FRAME_MASK) OR PFLAG_PRESENT) n"
    unfolding new_entry_def bit_and_iff bit_or_iff bit_not_iff one
    using frame_bits [OF assms, of n] bit_frame_mask [of n] by auto
qed

text \<open>The page that an entry maps.\<close>

definition mapped_page :: "'b paging_scheme \<Rightarrow> u64 option \<Rightarrow> u64 set" where
  "mapped_page s m = (case m of None \<Rightarrow> {} | Some e \<Rightarrow> {pfn_db_phys_to_page s (e AND PAGE_FRAME_MASK)})"

lemma mapped_page_used:
  assumes c: "pt_core s pt" and m: "replaceable s pt page m"
  shows "mapped_page s m \<inter> frees s = {}"
proof (cases m)
  case (Some e)
  with m obtain k where k: "e AND PAGE_FRAME_MASK = of_nat k * PAGE_SIZE" "data_frame s pt k" by (auto simp: replaceable_def)
  have "db_wf s" using c by (auto simp: pt_core_def intro: ready_wf)
  with Some k frame_to_page(1) [of s k] show ?thesis by (auto simp: mapped_page_def data_frame_def used_frame_frees)
qed (simp add: mapped_page_def)

lemma frees_super: "others_kept P s s' \<Longrightarrow> frees s - P \<subseteq> frees s'"
  using db_page_cong [of s' s] by (auto simp: frees_def others_kept_def is_page_free_def)

text \<open>Writing the entry once the tables are there.\<close>

lemma overwrite_leaf:
  assumes c: "pt_core s pt" and a: "walk s (PHYS_TO_VIRT s pt) (vpath v) = Some a"
    and m: "replaceable s pt page (mapping s pt v)"
  obtains s' where "overwrite_entry me (a + 8 * pml1_index v) phys flags s = Some s'" and "pt_core s' pt"
    and "mapping s' pt = (\<lambda>x. if vpage x = vpage v then Some (new_entry phys flags) else mapping s pt x)"
    and "others_kept (mapped_page s (mapping s pt v)) s s'" and "page \<notin> frees s \<longrightarrow> page \<notin> frees s'"
    and "paging_lock s' = paging_lock s" and "hhdm_offset s' = hhdm_offset s"
    and "\<forall>q. idx_path q \<longrightarrow> walk s' (PHYS_TO_VIRT s pt) q = walk s (PHYS_TO_VIRT s pt) q"
    and "heap_mem s' = heap_mem s"
proof -
  note result = that
  let ?e = "a + 8 * pml1_index v"
  have pe: "pte_at s ?e = pte s a (pml1_index v)" by (simp add: pte_def)
  have store: ?thesis if s1: "overwrite_entry me ?e phys flags s = Some (set_pte ?e (new_entry phys flags) s1)"
    and c1: "pt_core s1 pt" and t1: "same_tables s s1" and o1: "others_kept (mapped_page s (mapping s pt v)) s s1"
    and p1: "page \<notin> frees s \<longrightarrow> page \<notin> frees s1" and l1: "paging_lock s1 = paging_lock s" "heap_mem s1 = heap_mem s" for s1
  proof -
    note w = same_tables_walk [OF t1]
    have a1: "walk s1 (PHYS_TO_VIRT s1 pt) (vpath v) = Some a" using a by (simp add: w)
    note ls = leaf_store [OF c1 a1]
    have h: "hhdm_offset s1 = hhdm_offset s" using t1 by (simp add: same_tables_def)
    show ?thesis
      by (rule result [OF s1 ls(1)])
        (use o1 p1 l1 h ls(3) in \<open>auto simp: set_pte_mem ls(2) w pmm_eq_facts(3) [OF set_pte_fields(1)] others_kept_def\<close>)
  qed
  show ?thesis
  proof (cases "mapping s pt v")
    case None
    then have "\<not> present (pte s a (pml1_index v))" using a by (simp add: mapping_def leaf_of_def split: if_splits)
    then have "overwrite_entry me ?e phys flags s = Some (set_pte ?e (new_entry phys flags) s)"
      by (simp add: overwrite_entry_def pe new_entry_def)
    then show ?thesis by (rule store) (use c in \<open>simp_all add: same_tables_def others_kept_def\<close>)
  next
    case (Some e)
    then have e: "present (pte s a (pml1_index v))" "pte s a (pml1_index v) = e"
      using a by (simp_all add: mapping_def leaf_of_def split: if_splits)
    from m Some obtain k where k: "e AND PAGE_FRAME_MASK = of_nat k * PAGE_SIZE" "data_frame s pt k"
      "page_ptr s (of_nat k) \<noteq> page" by (auto simp: replaceable_def)
    obtain s1 where s1: "drop_frame me (of_nat k * PAGE_SIZE) s = Some s1" "pt_core s1 pt"
      "others_kept {page_ptr s (of_nat k)} s s1" "same_tables s s1" "paging_lock s1 = paging_lock s"
      "1 < refcount (page_at s (page_ptr s (of_nat k))) \<longrightarrow>
         refcount (page_at s1 (page_ptr s (of_nat k))) = refcount (page_at s (page_ptr s (of_nat k))) - 1 \<and>
         page_ptr s (of_nat k) \<notin> frees s1"
      "outside_pmm s1 = outside_pmm s"
      by (rule drop_data_frame [OF c k(2) refl])
    have o: "overwrite_entry me ?e phys flags s = Some (set_pte ?e (new_entry phys flags) s1)"
      using e k(1) s1(1) by (simp add: overwrite_entry_def pe new_entry_def)
    have "mapped_page s (mapping s pt v) = {page_ptr s (of_nat k)}"
    proof -
      have "db_wf s" using c by (auto simp: pt_core_def intro: ready_wf)
      then show ?thesis
        using Some k(1,2) frame_to_page(1) [of s k] by (simp add: mapped_page_def data_frame_def used_frame_def)
    qed
    then have "others_kept (mapped_page s (mapping s pt v)) s s1" using s1(3) by simp
    with o s1 frees_insert [OF s1(3)] k(3) outside_pmm_fields(7) [OF s1(7)] show ?thesis by (intro store [of s1]) auto
  qed
qed

text \<open>The frames that survive: what holds data before the tables are built does so afterwards.\<close>

lemma grown_data_frame:
  assumes c: "pt_core s pt" and g: "grown pt s s'" and k: "data_frame s pt k"
  shows "data_frame s' pt k"
proof -
  note f = grown_frames [OF g]
  have sub: "frees s' \<subseteq> frees s" and fr: "fresh_tables pt s s'" using g by (simp_all add: grown_def)
  have h: "hhdm_ok s" using c by (simp add: pt_core_def)
  have k': "k \<le> unat (max_pfn s)" "page_ptr s (of_nat k) \<notin> frees s"
    using k by (simp_all add: data_frame_def used_frame_frees)
  have "walk s' (PHYS_TO_VIRT s pt) q \<noteq> Some (frame_va s k)" if q: "idx_path q" for q
  proof
    assume "walk s' (PHYS_TO_VIRT s pt) q = Some (frame_va s k)"
    then consider "walk s (PHYS_TO_VIRT s pt) q = Some (frame_va s k)"
      | n where "n \<le> unat (max_pfn s)" "frame_va s k = frame_va s n" "page_ptr s (of_nat n) \<in> frees s"
      using fr q unfolding fresh_tables_def by blast
    then show False
    proof cases
      case 1
      with k q show ?thesis by (simp add: data_frame_def)
    next
      case 2
      then have "k = n" using frame_va_inj [OF h k'(1) 2(1)] by simp
      with 2(3) k'(2) show ?thesis by simp
    qed
  qed
  then show ?thesis using k k' sub by (auto simp: data_frame_def used_frame_frees f)
qed

lemma grown_replaceable:
  assumes c: "pt_core s pt" and g: "grown pt s s'" and r: "replaceable s pt page m"
  shows "replaceable s' pt page m"
  using r grown_data_frame [OF c g] unfolding replaceable_def grown_frames(2) [OF g] by blast

lemma share_retain:
  assumes c: "pt_core s pt" and p: "db_page s page" "page \<notin> frees s"
  obtains s1 s2 where "pmm_page_share me page s = Some ((), s1)" and "pmm_page_retain me page s1 = Some ((), s2)"
    and "pt_core s2 pt" and "mapping s2 pt = mapping s pt" and "others_kept {page} s s2"
    and "refcount (page_at s2 page) = refcount (page_at s page) + 1" and "frees s2 = frees s"
    and "outside_pmm s2 = outside_pmm s"
proof -
  obtain xs where i: "pmm_idle s xs" using c by (auto simp: pt_core_def pmm_ready_def)
  have nf: "\<not> is_page_free (page_at s page)" using p by (auto simp: frees_def)
  obtain s1 where s1: "pmm_page_share me page s = Some ((), s1)" "pmm_idle s1 xs" "others_kept {page} s s1"
    and p1: "page_at s1 page = (page_at s page)\<lparr>pg_flags := set_flags (pg_flags (page_at s page)) PAGE_SHARED,
      u2 := (if \<not> is_page_shared (page_at s page) \<and> u2 (page_at s page) = 0 then 2 else u2 (page_at s page) + 1)\<rparr>"
    using pmm_page_share_used [OF i p(1) nf, of me] by blast
  have nf1: "\<not> is_page_free (page_at s1 page)" using nf unfolding p1 by (simp add: is_page_free_def bit_simps)
  have db1: "db_page s1 page" using p(1) s1(3) db_page_cong [of s1 s] by (simp add: others_kept_def)
  obtain s2 where s2: "pmm_page_retain me page s1 = Some ((), s2)" "pmm_idle s2 xs" "others_kept {page} s1 s2"
    and p2: "refcount (page_at s2 page) = refcount (page_at s1 page) + 1"
    using pmm_page_retain_used [OF s1(2) db1 nf1, of me] by (auto simp: Let_def)
  have o: "outside_pmm s2 = outside_pmm s" using outside_pmm_ops(3) [OF s1(1)] outside_pmm_ops(5) [OF s2(1)] by simp
  have k: "others_kept {page} s s2" using s1(3) s2(3) by (simp add: others_kept_def)
  note e = outside_same_tables [OF o k]
  have f: "frees s2 = frees s" using pmm_idle_frees [OF i] pmm_idle_frees [OF s2(2)] by simp
  have "max_pfn s2 = max_pfn s" using k by (simp add: others_kept_def)
  then have uf: "used_frame s2 = used_frame s"
    using same_tables_walk(5) [OF e] by (intro ext) (simp add: used_frame_frees f)
  have "pt_core s2 pt"
    by (rule pt_core_same [OF c e]) (use c s2(2) f uf in \<open>auto simp: pmm_ready_def pt_core_def\<close>)
  moreover have "refcount (page_at s2 page) = refcount (page_at s page) + 1" using p2 p1 by simp
  moreover have "mapping s2 pt = mapping s pt" by (rule ext) (rule same_tables_walk(2) [OF e])
  ultimately show ?thesis using that s1(1) s2(1) k f o by blast
qed

lemma map_page_mapped:
  assumes i: "pt_inv s pt" and p: "db_page s page" "page \<notin> frees s"
    and m: "replaceable s pt page (mapping s pt v)" and n: "3 \<le> card (frees s)"
  obtains s' where "map_page me pt v page flags s = Some s'" and "pt_inv s' pt"
    and "mapping s' pt = (\<lambda>x. if vpage x = vpage v then Some (new_entry (pfn_db_page_to_phys s page) flags)
                             else mapping s pt x)"
    and "refcount (page_at s' page) = refcount (page_at s page) + 1"
    and "others_kept (insert page (frees s \<union> mapped_page s (mapping s pt v))) s s'"
    and "frees s' \<subseteq> frees s \<union> mapped_page s (mapping s pt v)" and "hhdm_offset s' = hhdm_offset s"
    and "\<forall>k. data_frame s pt k \<and> page_ptr s (of_nat k) \<notin> mapped_page s (mapping s pt v) \<longrightarrow> data_frame s' pt k"
    and "frames_kept s s'" and "card (frees s) \<le> card (frees s') + 3"
proof -
  define w where "w = ALIGN_DOWN v PAGE_SIZE"
  have vw: "vpage w = vpage v" by (simp add: w_def vpage_align)
  then have mw: "mapping t q w = mapping t q v" for t :: "'a paging_scheme" and q
    using same_vpage [of w v] by (simp add: mapping_def)
  have c: "pt_core s pt" and l: "lock_free (paging_lock s)" using i by (simp_all add: pt_inv_def)
  let ?s1 = "s\<lparr>paging_lock := (paging_lock s)\<lparr>locked := 1, owner := me\<rparr>\<rparr>"
  have c1: "pt_core ?s1 pt" using c by simp
  have phys: "pfn_db_page_to_phys ?s1 page = pfn_db_page_to_phys s page"
    by (simp add: pfn_db_page_to_phys_def page_ptr_def)
  obtain e s2 where s2: "leaf_entry me (PHYS_TO_VIRT s pt) w (table_flags flags) ?s1 = Some (e, s2)" "grown pt ?s1 s2"
    "card (frees s) \<le> card (frees s2) + 3" "e = NULL \<longrightarrow> card (frees s) < 3"
    "e \<noteq> NULL \<longrightarrow> (\<exists>a. walk s2 (PHYS_TO_VIRT s pt) (vpath w) = Some a \<and> e = a + 8 * pml1_index w)"
    using leaf_entry_grown [OF c1 table_flags_ok, of me w flags] by (simp only: lock_upd_simps) blast
  have e0: "e \<noteq> NULL" using s2(4) n by auto
  note gf = grown_frames [OF s2(2)]
  have g: "pt_core s2 pt" "mapping s2 pt = mapping s pt" "others_kept (frees s) s s2" "frees s2 \<subseteq> frees s"
    "paging_lock s2 = paging_lock ?s1" "hhdm_offset s2 = hhdm_offset s"
    using s2(2) by (auto simp: grown_def others_kept_def)
  obtain a where a: "walk s2 (PHYS_TO_VIRT s2 pt) (vpath w) = Some a" "e = a + 8 * pml1_index w"
    using s2(5) e0 gf(4) by auto
  have c2: "pt_core ?s1 pt" "replaceable ?s1 pt page (mapping s pt v)" using c m
    by (simp_all add: replaceable_def data_frame_def used_frame_def)
  have m2: "replaceable s2 pt page (mapping s2 pt w)"
    using grown_replaceable [OF c2(1) s2(2) c2(2)] unfolding g(2) mw .
  obtain s3 where s3: "overwrite_entry me (a + 8 * pml1_index w) (pfn_db_page_to_phys s page) flags s2 = Some s3" "pt_core s3 pt"
    "mapping s3 pt = (\<lambda>x. if vpage x = vpage w then Some (new_entry (pfn_db_page_to_phys s page) flags) else mapping s2 pt x)"
    "others_kept (mapped_page s2 (mapping s2 pt w)) s2 s3" "page \<notin> frees s2 \<longrightarrow> page \<notin> frees s3"
    "paging_lock s3 = paging_lock s2" "hhdm_offset s3 = hhdm_offset s2"
    "\<forall>q. idx_path q \<longrightarrow> walk s3 (PHYS_TO_VIRT s2 pt) q = walk s2 (PHYS_TO_VIRT s2 pt) q" "heap_mem s3 = heap_mem s2"
    by (rule overwrite_leaf [OF g(1) a(1) m2])
  have mp: "mapped_page s2 (mapping s2 pt w) = mapped_page s (mapping s pt v)"
  proof -
    have "pfn_db_phys_to_page s2 = pfn_db_phys_to_page s"
      by (rule ext) (use gf(2,3) in \<open>simp add: pfn_db_phys_to_page_def Let_def\<close>)
    then show ?thesis by (simp add: mapped_page_def g(2) mw split: option.split)
  qed
  have db3: "db_page s3 page" "page \<notin> frees s3"
    using p g(3,4) s3(4,5) db_page_cong [of s3 s] by (auto simp: others_kept_def)
  have keep3: "refcount (page_at s3 page) = refcount (page_at s page)"
  proof -
    have wf: "db_wf s" using c by (auto simp: pt_core_def intro: ready_wf)
    have "page \<notin> mapped_page s (mapping s pt v)"
      using m frame_to_page(1) [OF wf]
      by (auto simp: mapped_page_def replaceable_def data_frame_def used_frame_def split: option.split)
    with s3(4) g(3) p(2) show ?thesis unfolding mp by (simp add: others_kept_def)
  qed
  obtain s4 s5 where s5: "pmm_page_share me page s3 = Some ((), s4)" "pmm_page_retain me page s4 = Some ((), s5)"
    "pt_core s5 pt" "mapping s5 pt = mapping s3 pt" "others_kept {page} s3 s5"
    "refcount (page_at s5 page) = refcount (page_at s3 page) + 1" "frees s5 = frees s3" "outside_pmm s5 = outside_pmm s3"
    by (rule share_retain [OF s3(2) db3])
  note o5 = outside_pmm_fields [OF s5(8)]
  have nn: "page \<noteq> NULL" using p(1) c by (auto simp: pt_core_def dest: ready_wf db_page_not_NULL)
  have lk: "lock_release me (paging_lock s5) = paging_lock s" using l o5(3) s3(6) g(5) by simp
  show ?thesis
  proof (rule that [of "release_paging me s5"])
    show "map_page me pt v page flags s = Some (release_paging me s5)"
      using s2(1) s3(1) s5(1,2) c l e0 a(2) phys nn
      by (simp add: map_page_def acquire_paging_free w_def [symmetric] pt_core_def)
    show "pt_inv (release_paging me s5) pt" using s5(3) l by (simp add: pt_inv_def release_paging_def lk)
    show "mapping (release_paging me s5) pt = (\<lambda>x. if vpage x = vpage v then Some (new_entry (pfn_db_page_to_phys s page) flags) else mapping s pt x)"
      unfolding release_paging_def lock_upd_simps s5(4) s3(3) vw g(2) ..
    show "refcount (page_at (release_paging me s5) page) = refcount (page_at s page) + 1"
      using s5(6) keep3 by (simp add: release_paging_def)
    show "others_kept (insert page (frees s \<union> mapped_page s (mapping s pt v))) s (release_paging me s5)"
      using g(3) s3(4) s5(5) unfolding mp by (simp add: others_kept_def release_paging_def)
    show "frees (release_paging me s5) \<subseteq> frees s \<union> mapped_page s (mapping s pt v)"
      using frees_sub [OF s3(4)] g(4) s5(7) unfolding mp by (auto simp: release_paging_def)
    show "hhdm_offset (release_paging me s5) = hhdm_offset s" using o5(1) s3(7) g(6) by (simp add: release_paging_def)
    have e5: "same_tables s3 s5" using outside_same_tables [OF s5(8,5)] .
    have pv3: "PHYS_TO_VIRT s3 = PHYS_TO_VIRT s2" "frame_va s3 = frame_va s2" "max_pfn s3 = max_pfn s2" "page_ptr s3 = page_ptr s2"
      using s3(4,7) by (auto simp: PHYS_TO_VIRT_def frame_va_def page_ptr_def others_kept_def fun_eq_iff)
    show "card (frees s) \<le> card (frees (release_paging me s5)) + 3"
    proof -
      have "mapped_page s (mapping s pt v) \<inter> frees s = {}" using mapped_page_used [OF c m] .
      then have "frees s2 \<subseteq> frees s3" using frees_super [OF s3(4)] g(4) unfolding mp by blast
      moreover have "finite (frees s3)" using s3(2) by (auto simp: pt_core_def intro: pmm.avail_finite)
      ultimately have "card (frees s2) \<le> card (frees s3)" by (simp add: card_mono)
      then show ?thesis using s2(3) s5(7) by (simp add: release_paging_def)
    qed
    have "frames_kept ?s1 s2" using s2(2) by (simp add: grown_def)
    then show "frames_kept s (release_paging me s5)"
      using s3(9) o5(7) by (simp add: frames_kept_def release_paging_def used_frame_def)
    show "\<forall>k. data_frame s pt k \<and> page_ptr s (of_nat k) \<notin> mapped_page s (mapping s pt v) \<longrightarrow> data_frame (release_paging me s5) pt k"
    proof safe
      fix k assume k: "data_frame s pt k" "page_ptr s (of_nat k) \<notin> mapped_page s (mapping s pt v)"
      then have "data_frame ?s1 pt k" by (simp add: data_frame_def used_frame_def)
      from grown_data_frame [OF c1 s2(2) this] have d2: "data_frame s2 pt k" .
      have "page_ptr s2 (of_nat k) \<notin> frees s3" using frees_sub [OF s3(4)] d2 k(2) gf(2) unfolding mp by (auto simp: data_frame_def used_frame_frees)
      with d2 s3(8) show "data_frame (release_paging me s5) pt k"
        using s5(7) same_tables_walk [OF e5] e5 by (simp add: data_frame_def used_frame_frees release_paging_def pv3 same_tables_def)
    qed
  qed
qed

section \<open>Unmapping a page\<close>

text \<open>The pages that hold the tables of a page table.\<close>

definition table_pages :: "'b paging_scheme \<Rightarrow> u64 \<Rightarrow> u64 set" where
  "table_pages s pt = {page_ptr s (of_nat k) |k q. used_frame s k \<and> idx_path q \<and>
     walk s (PHYS_TO_VIRT s pt) q = Some (frame_va s k)}"

text \<open>What giving back empty tables does: no translation changes and only tables are released.\<close>

definition shrunk :: "u64 \<Rightarrow> 'b paging_scheme \<Rightarrow> 'b paging_scheme \<Rightarrow> bool" where
  "shrunk pt s s' \<longleftrightarrow> pt_core s' pt \<and> mapping s' pt = mapping s pt \<and> others_kept (table_pages s pt) s s' \<and>
     table_pages s' pt \<subseteq> table_pages s pt \<and> paging_lock s' = paging_lock s \<and> hhdm_offset s' = hhdm_offset s"

lemma shrunk_refl: "pt_core s pt \<Longrightarrow> shrunk pt s s"
  by (simp add: shrunk_def others_kept_def)

lemma shrunk_trans: "shrunk pt s s' \<Longrightarrow> shrunk pt s' s'' \<Longrightarrow> shrunk pt s s''"
  unfolding shrunk_def others_kept_def by auto

lemma table_empty_iff: "table_empty s a \<longleftrightarrow> (\<forall>j < 512. \<not> present (pte s a j))"
proof -
  have "(\<forall>j < 512. \<not> present (pte s a j)) \<longleftrightarrow> (\<forall>i < 512. \<not> present (pte s a (of_nat i)))"
  proof safe
    fix j :: u64 assume a: "\<forall>i < 512. \<not> present (pte s a (of_nat i))" "j < 512" "present (pte s a j)"
    have "unat j < 512" using a(2) by (simp add: word_less_nat_alt)
    then have "\<not> present (pte s a (of_nat (unat j)))" using a(1) by blast
    with a(3) show False by simp
  qed (auto simp: word_less_nat_alt unat_of_nat_small)
  then show ?thesis by (auto simp: table_empty_def list_all_iff)
qed

lemma free_table_shrunk:
  assumes c: "pt_core s pt" and p: "idx_path (p @ [i])" and b: "walk s (PHYS_TO_VIRT s pt) p = Some b"
    and a: "present (pte s b i)" and e: "table_empty s (next_table s (pte s b i))"
  obtains s' where "free_table me b i s = Some s'" and "shrunk pt s s'"
    and "\<And>q. idx_path q \<Longrightarrow> \<not> prefix (p @ [i]) q \<Longrightarrow> walk s' (PHYS_TO_VIRT s pt) q = walk s (PHYS_TO_VIRT s pt) q"
proof -
  define t where "t = PHYS_TO_VIRT s pt"
  let ?P = "p @ [i]" and ?a = "next_table s (pte s b i)"
  have ok: "tree_ok s t" and h: "hhdm_ok s" and r: "pmm_ready s" using c by (simp_all add: pt_core_def t_def)
  have p': "idx_path p" "i < 512" "length p < 3" using p by (simp_all add: idx_path_snoc)
  have bt: "walk s t p = Some b" using b by (simp add: t_def)
  have at: "walk s t ?P = Some ?a" using bt a by (simp add: walk_snoc)
  obtain k where k: "used_frame s k" "k \<le> unat (max_pfn s)" "?a = frame_va s k" by (rule tree_ok_table [OF ok p at])
  have fr: "pte s b i AND PAGE_FRAME_MASK = of_nat k * PAGE_SIZE"
    using k(3) by (simp add: next_table_def frame_va_def PHYS_TO_VIRT_def)
  note wf = ready_wf [OF r] note f = frame_to_page [OF wf k(2)]
  obtain s1 where s1: "pmm_page_release me (page_ptr s (of_nat k)) s = Some ((), s1)" "pmm_ready s1"
    "others_kept {page_ptr s (of_nat k)} s s1"
    "1 < refcount (page_at s (page_ptr s (of_nat k))) \<longrightarrow> page_at s1 (page_ptr s (of_nat k)) =
       (page_at s (page_ptr s (of_nat k)))\<lparr>refcount := refcount (page_at s (page_ptr s (of_nat k))) - 1\<rparr>"
    by (rule release_any [OF r f(3)])
  note o1 = outside_pmm_fields [OF outside_pmm_ops(2) [OF s1(1)]]
  let ?s = "set_pte (b + 8 * i) 0 s1"
  note q = pmm_eq_facts [OF set_pte_fields(1) [of s1 "b + 8 * i" 0]]
  have mx: "max_pfn ?s = max_pfn s" "mem_map ?s = mem_map s" using s1(3) by (simp_all add: others_kept_def)
  have ho: "hhdm_offset ?s = hhdm_offset s" using o1(1) by simp
  have fv: "frame_va ?s = frame_va s" "PHYS_TO_VIRT ?s = PHYS_TO_VIRT s"
    using ho by (auto simp: frame_va_def PHYS_TO_VIRT_def fun_eq_iff)
  have ptr: "page_ptr ?s = page_ptr s" using mx by (intro ext) (simp add: page_ptr_def)
  have ft: "free_table me b i s = Some ?s" using f(1,2) s1(1) by (simp add: free_table_def free_pte_def fr)
  have kept: "entries_kept s t ?P ?s"
    unfolding entries_kept_def
  proof (intro conjI allI impI)
    fix q x j assume q: "idx_path q" "walk s t q = Some x" "j < 512" "q @ [j] \<noteq> ?P"
    have "x + 8 * j \<noteq> b + 8 * i" using table_entry_inj [OF ok h p'(1) bt p'(2) q(1,2,3)] q(4) by blast
    then show "pte ?s x j = pte s x j" using o1(2) by (simp add: pte_def)
  qed (rule ho)
  have wk: "walk ?s t q = walk s t q" if "idx_path q" "\<not> prefix ?P q" for q by (rule walk_kept [OF kept that])
  have wb: "walk ?s t p = Some b" using wk [OF p'(1)] bt by (simp add: prefix_def)
  have gone: "walk ?s t q = None" if pre: "prefix ?P q" for q
  proof -
    obtain z where z: "q = ?P @ z" using pre by (auto simp: prefix_def)
    have "walk ?s t ?P = None" by (simp add: walk_snoc wb pte_def)
    then show ?thesis unfolding z by (subst walk_append) simp
  qed
  have used: "used_frame ?s l" if l: "used_frame s l" "l \<noteq> k" for l
  proof -
    have "page_ptr s (of_nat l) \<noteq> page_ptr s (of_nat k)" using frame_ptr_inj [OF wf _ k(2), of l] l by (auto simp: used_frame_def)
    then show ?thesis using frees_insert [OF s1(3)] l(1) unfolding used_frame_frees mx ptr q(3) by blast
  qed
  have apart: "l \<noteq> k" if "idx_path q" "walk s t q = Some (frame_va s l)" "\<not> prefix ?P q" for q l
    using tree_ok_inj [OF ok that(1) p that(2)] at k(3) that(3) by auto
  have "tree_ok ?s t"
    by (rule tree_ok_change [OF ok kept fv(1)]) (use used apart gone in \<open>auto\<close>)
  moreover have "page_ptr s 0 \<notin> frees ?s"
  proof -
    have "page_ptr s 0 \<noteq> page_ptr s (of_nat k)" using frame_ptr_inj [OF wf _ k(2), of 0] k(1) by (auto simp: used_frame_def)
    then show ?thesis using frees_insert [OF s1(3)] c unfolding q(3) by (auto simp: pt_core_def)
  qed
  moreover have "hhdm_ok ?s" using h mx ho by (simp add: hhdm_ok_def)
  ultimately have core: "pt_core ?s pt" using c s1(2) unfolding pt_core_def q(1) fv ptr t_def by simp
  have map: "mapping ?s pt v = mapping s pt v" for v
  proof (cases "prefix ?P (vpath v @ [pml1_index v])")
    case False
    with leaf_of_kept [OF kept idx_path_vpath, of "pml1_index v"] show ?thesis by (simp add: mapping_def fv t_def)
  next
    case True
    then have "prefix ?P (vpath v)" using p'(3) by (auto simp: vpath_def prefix_def Cons_eq_append_conv)
    then obtain z where z: "vpath v = ?P @ z" by (auto simp: prefix_def)
    have "leaf_of s t (vpath v) (pml1_index v) = None"
    proof (cases z)
      case Nil
      with z at e show ?thesis by (simp add: leaf_of_def table_empty_iff)
    next
      case (Cons j z')
      have "j < 512" using idx_path_vpath [of v] unfolding z Cons by (simp add: idx_path_def)
      then have "walk s t (vpath v) = None"
        unfolding z Cons using e by (subst walk_append) (simp add: at table_empty_iff)
      then show ?thesis by (simp add: leaf_of_def)
    qed
    moreover have "walk ?s t (vpath v) = None" using gone z by (auto simp: prefix_def)
    ultimately show ?thesis by (simp add: mapping_def fv leaf_of_def t_def [symmetric])
  qed
  have "page_ptr s (of_nat k) \<in> table_pages s pt"
    using k p at by (auto simp: table_pages_def t_def)
  from others_kept_mono [OF s1(3) this refl] have ok1: "others_kept (table_pages s pt) s ?s" by (simp add: others_kept_def)
  have sub: "table_pages ?s pt \<subseteq> table_pages s pt"
  proof
    fix x assume "x \<in> table_pages ?s pt"
    then obtain l q where x: "x = page_ptr s (of_nat l)" "used_frame ?s l" "idx_path q" "walk ?s t q = Some (frame_va s l)"
      by (auto simp: table_pages_def ptr fv t_def)
    then have np: "\<not> prefix ?P q" using gone by force
    then have w: "walk s t q = Some (frame_va s l)" using wk x(3,4) by simp
    obtain m where m: "used_frame s m" "m \<le> unat (max_pfn s)" "frame_va s l = frame_va s m" by (rule tree_ok_table [OF ok x(3) w])
    then have "l = m" using x(2) mx(1) frame_va_inj [OF h, of l m] by (simp add: used_frame_def)
    with m(1) x(1,3) w show "x \<in> table_pages s pt" by (auto simp: table_pages_def t_def)
  qed
  have "shrunk pt s ?s" unfolding shrunk_def using core map ok1 sub o1(3) ho by auto
  with ft wk show ?thesis by (intro that [of ?s]) (simp_all add: t_def)
qed

lemma u_pte_free_empty_shrunk:
  assumes c: "pt_core s pt"
  shows "\<exists>s'. u_pte_free_empty me pt v s = Some s' \<and> shrunk pt s s'"
proof -
  let ?t = "PHYS_TO_VIRT s pt" and ?i4 = "pml4_index v" and ?i3 = "pml3_index v" and ?i2 = "pml2_index v"
  define a3 where "a3 = next_table s (pte s ?t ?i4)"
  define a2 where "a2 = next_table s (pte s a3 ?i3)"
  define a1 where "a1 = next_table s (pte s a2 ?i2)"
  have def: "u_pte_free_empty me pt v s =
     (if \<not> present (pte s ?t ?i4) \<or> \<not> present (pte s a3 ?i3) \<or> \<not> present (pte s a2 ?i2) \<or> \<not> table_empty s a1 then Some s
      else free_table me a2 ?i2 s \<bind> (\<lambda>s1. if \<not> table_empty s1 a2 then Some s1
        else free_table me a3 ?i3 s1 \<bind> (\<lambda>s2. if \<not> table_empty s2 a3 then Some s2 else free_table me ?t ?i4 s2)))"
    unfolding u_pte_free_empty_def Let_def a1_def a2_def a3_def next_table_def by simp
  show ?thesis
  proof (cases "present (pte s ?t ?i4) \<and> present (pte s a3 ?i3) \<and> present (pte s a2 ?i2) \<and> table_empty s a1")
    case False
    then have "u_pte_free_empty me pt v s = Some s" unfolding def by auto
    with shrunk_refl [OF c] show ?thesis by blast
  next
    case True
    then have pr: "present (pte s ?t ?i4)" "present (pte s a3 ?i3)" "present (pte s a2 ?i2)" "table_empty s a1" by simp_all
    have w3: "walk s ?t [?i4] = Some a3" and w2: "walk s ?t [?i4, ?i3] = Some a2" using pr by (simp_all add: a3_def a2_def)
    obtain s1 where s1: "free_table me a2 ?i2 s = Some s1" "shrunk pt s s1"
      and k1: "\<And>q. idx_path q \<Longrightarrow> \<not> prefix [?i4, ?i3, ?i2] q \<Longrightarrow> walk s1 ?t q = walk s ?t q"
      using free_table_shrunk [OF c, of "[?i4, ?i3]" ?i2 a2 me] w2 pr a1_def by (auto simp: idx_path_def)
    have t1: "PHYS_TO_VIRT s1 pt = ?t" and c1: "pt_core s1 pt" using s1(2) by (simp_all add: shrunk_def PHYS_TO_VIRT_def)
    have w31: "walk s1 ?t [?i4] = Some a3" and w21: "walk s1 ?t [?i4, ?i3] = Some a2"
      using k1 [of "[?i4]"] k1 [of "[?i4, ?i3]"] w3 w2 by (simp_all add: idx_path_def)
    show ?thesis
    proof (cases "table_empty s1 a2")
      case False
      then have "u_pte_free_empty me pt v s = Some s1" unfolding def using pr s1(1) by simp
      with s1(2) show ?thesis by blast
    next
      case e2: True
      have p31: "present (pte s1 a3 ?i3)" "next_table s1 (pte s1 a3 ?i3) = a2"
        using w31 w21 by (auto split: if_splits)
      obtain s2 where s2: "free_table me a3 ?i3 s1 = Some s2" "shrunk pt s1 s2"
        and k2: "\<And>q. idx_path q \<Longrightarrow> \<not> prefix [?i4, ?i3] q \<Longrightarrow> walk s2 ?t q = walk s1 ?t q"
        using free_table_shrunk [OF c1, of "[?i4]" ?i3 a3 me] w31 p31 e2 t1 by (auto simp: idx_path_def)
      have t2: "PHYS_TO_VIRT s2 pt = ?t" and c2: "pt_core s2 pt"
        using s2(2) t1 by (simp_all add: shrunk_def PHYS_TO_VIRT_def)
      note sh2 = shrunk_trans [OF s1(2) s2(2)]
      show ?thesis
      proof (cases "table_empty s2 a3")
        case False
        then have "u_pte_free_empty me pt v s = Some s2" unfolding def using pr s1(1) s2(1) e2 by simp
        with sh2 show ?thesis by blast
      next
        case e3: True
        have "walk s2 ?t [?i4] = Some a3" using k2 [of "[?i4]"] w31 by (simp add: idx_path_def)
        then have p42: "present (pte s2 ?t ?i4)" "next_table s2 (pte s2 ?t ?i4) = a3" by (auto split: if_splits)
        obtain s3 where s3: "free_table me ?t ?i4 s2 = Some s3" "shrunk pt s2 s3"
          using free_table_shrunk [OF c2, of "[]" ?i4 ?t me] p42 e3 t2 by (auto simp: idx_path_def)
        have "u_pte_free_empty me pt v s = Some s3" unfolding def using pr s1(1) s2(1) e2 e3 s3(1) by simp
        with shrunk_trans [OF sh2 s3(2)] show ?thesis by blast
      qed
    qed
  qed
qed

lemma unmap_page_mapped:
  assumes i: "pt_inv s pt" and m: "mapping s pt v = Some e" and k: "e AND PAGE_FRAME_MASK = of_nat k * PAGE_SIZE" "data_frame s pt k"
    and p: "p = page_ptr s (of_nat k)"
  obtains s' where "unmap_page me pt v s = Some s'" and "pt_inv s' pt"
    and "mapping s' pt = (\<lambda>x. if vpage x = vpage v then None else mapping s pt x)"
    and "others_kept (insert p (table_pages s pt)) s s'" and "hhdm_offset s' = hhdm_offset s"
    and "1 < refcount (page_at s p) \<longrightarrow> refcount (page_at s' p) = refcount (page_at s p) - 1 \<and> p \<notin> frees s'"
proof -
  define w where "w = ALIGN_DOWN v PAGE_SIZE"
  have vw: "vpage w = vpage v" by (simp add: w_def vpage_align)
  then have mw: "mapping t q w = mapping t q v" for t :: "'a paging_scheme" and q
    using same_vpage [of w v] by (simp add: mapping_def)
  have c: "pt_core s pt" and l: "lock_free (paging_lock s)" using i by (simp_all add: pt_inv_def)
  let ?s1 = "s\<lparr>paging_lock := (paging_lock s)\<lparr>locked := 1, owner := me\<rparr>\<rparr>"
  have c1: "pt_core ?s1 pt" "data_frame ?s1 pt k" using c k(2) by (simp_all add: data_frame_def used_frame_def)
  have "mapping ?s1 pt w = Some e" using m mw by simp
  then obtain a where a: "walk ?s1 (PHYS_TO_VIRT ?s1 pt) (vpath w) = Some a" "present (pte s a (pml1_index w))" "pte s a (pml1_index w) = e"
    by (auto simp: mapping_def leaf_of_def split: option.splits if_splits)
  let ?e = "a + 8 * pml1_index w"
  have nz: "?e \<noteq> NULL" using table_not_NULL(2) [OF c1(1) idx_path_vpath a(1)] by simp
  have le: "leaf_entry me (PHYS_TO_VIRT s pt) w 0 ?s1 = Some (?e, ?s1)"
    using leaf_entry_read [OF c1(1), of me w] a(1) by simp
  obtain s2 where s2: "drop_frame me (of_nat k * PAGE_SIZE) ?s1 = Some s2" "pt_core s2 pt" "others_kept {p} ?s1 s2"
    "same_tables ?s1 s2" "paging_lock s2 = paging_lock ?s1"
    "1 < refcount (page_at ?s1 p) \<longrightarrow> refcount (page_at s2 p) = refcount (page_at ?s1 p) - 1 \<and> p \<notin> frees s2"
    by (rule drop_data_frame [OF c1]) (simp_all add: p)
  note t2 = same_tables_walk [OF s2(4)]
  have a2: "walk s2 (PHYS_TO_VIRT s2 pt) (vpath w) = Some a" using a(1) by (simp add: t2)
  note ls = leaf_store [OF s2(2) a2, where w = 0]
  let ?s3 = "set_pte ?e 0 s2"
  note q3 = pmm_eq_facts [OF set_pte_fields(1) [of s2 ?e 0]]
  obtain s4 where s4: "u_pte_free_empty me pt w ?s3 = Some s4" "shrunk pt ?s3 s4"
    using u_pte_free_empty_shrunk [OF ls(1), of me w] by blast
  have sub: "table_pages ?s3 pt \<subseteq> table_pages s pt"
  proof
    fix x assume "x \<in> table_pages ?s3 pt"
    then obtain n q where x: "x = page_ptr s (of_nat n)" "used_frame ?s3 n" "idx_path q" "walk ?s3 (PHYS_TO_VIRT s pt) q = Some (frame_va s n)"
      by (auto simp: table_pages_def q3 t2 PHYS_TO_VIRT_def s2(4) [unfolded same_tables_def])
    then have "walk s (PHYS_TO_VIRT s pt) q = Some (frame_va s n)" using ls(3) [OF x(3)] t2 by simp
    moreover from tree_ok_table [OF _ x(3) this] c obtain n' where "used_frame s n'" "n' \<le> unat (max_pfn s)" "frame_va s n = frame_va s n'"
      by (auto simp: pt_core_def)
    moreover from this x(2) c have "n = n'" 
      using frame_va_inj [of s n n'] s2(4) by (simp add: used_frame_def pt_core_def same_tables_def)
    ultimately show "x \<in> table_pages s pt" using x(1,3) by (auto simp: table_pages_def)
  qed
  have np: "p \<notin> table_pages s pt"
  proof
    assume "p \<in> table_pages s pt"
    then obtain n q where n: "p = page_ptr s (of_nat n)" "used_frame s n" "idx_path q" "walk s (PHYS_TO_VIRT s pt) q = Some (frame_va s n)"
      by (auto simp: table_pages_def)
    have "n = k" using n(1,2) p k(2) frame_ptr_inj [of s n k] c by (auto simp: pt_core_def used_frame_def data_frame_def dest: ready_wf)
    with n k(2) show False by (simp add: data_frame_def)
  qed
  have sh: "pt_core s4 pt" "mapping s4 pt = mapping ?s3 pt" "others_kept (table_pages s pt) ?s3 s4" "paging_lock s4 = paging_lock ?s3"
    "hhdm_offset s4 = hhdm_offset ?s3"
    using s4(2) sub unfolding shrunk_def others_kept_def by auto
  show ?thesis
  proof (rule that [of "release_paging me s4"])
    show "unmap_page me pt v s = Some (release_paging me s4)"
      using c l le nz a(2,3) k(1) s2(1) s4(1)
      by (simp add: unmap_page_def acquire_paging_free w_def [symmetric] pt_core_def pte_def)
    show "pt_inv (release_paging me s4) pt" using sh(1,4) s2(5) l by (simp add: pt_inv_def release_paging_def)
    show "mapping (release_paging me s4) pt = (\<lambda>x. if vpage x = vpage v then None else mapping s pt x)"
      unfolding release_paging_def lock_upd_simps sh(2) by (rule ext) (simp add: ls(2) t2 vw)
    show "others_kept (insert p (table_pages s pt)) s (release_paging me s4)"
      using s2(3) sh(3) by (simp add: others_kept_def release_paging_def)
    show "hhdm_offset (release_paging me s4) = hhdm_offset s" using sh(5) s2(4) by (simp add: release_paging_def same_tables_def)
    have kp: "refcount (page_at s4 p) = refcount (page_at s2 p)" "pg_flags (page_at s4 p) = pg_flags (page_at s2 p)"
      "db_page s4 = db_page s2"
      using sh(3) np db_page_cong [of s4 s2] by (auto simp: others_kept_def)
    show "1 < refcount (page_at s p) \<longrightarrow> refcount (page_at (release_paging me s4) p) = refcount (page_at s p) - 1 \<and>
        p \<notin> frees (release_paging me s4)"
      unfolding release_paging_def lock_upd_simps using s2(6) kp by (simp add: frees_def is_page_free_def)
  qed
qed

text \<open>An address that is not mapped is left alone.\<close>

lemma unmap_page_unmapped:
  assumes i: "pt_inv s pt" and m: "mapping s pt v = None"
  shows "unmap_page me pt v s = Some s"
proof -
  define w where "w = ALIGN_DOWN v PAGE_SIZE"
  have mw: "mapping s pt w = None"
    using m same_vpage [of w v] vpage_align [of v] by (simp add: mapping_def w_def)
  have c: "pt_core s pt" and l: "lock_free (paging_lock s)" using i by (simp_all add: pt_inv_def)
  let ?s1 = "s\<lparr>paging_lock := (paging_lock s)\<lparr>locked := 1, owner := me\<rparr>\<rparr>"
  have c1: "pt_core ?s1 pt" using c by simp
  have rel: "release_paging me ?s1 = s" using l by (simp add: release_paging_def)
  from leaf_entry_read [OF c1, of me w] have le: "leaf_entry me (PHYS_TO_VIRT s pt) w 0 ?s1 =
    Some (case walk s (PHYS_TO_VIRT s pt) (vpath w) of None \<Rightarrow> NULL | Some a \<Rightarrow> a + 8 * pml1_index w, ?s1)"
    by simp
  have "(case walk s (PHYS_TO_VIRT s pt) (vpath w) of None \<Rightarrow> NULL | Some a \<Rightarrow> a + 8 * pml1_index w) = NULL \<or>
    \<not> present (pte_at s (case walk s (PHYS_TO_VIRT s pt) (vpath w) of None \<Rightarrow> NULL | Some a \<Rightarrow> a + 8 * pml1_index w))"
    using mw by (auto simp: mapping_def leaf_of_def pte_def split: option.splits if_splits)
  with c l le rel show ?thesis
    by (simp add: unmap_page_def acquire_paging_free w_def [symmetric] pt_core_def)
qed

section \<open>No frame left\<close>

lemma leaf_entry_full:
  assumes c: "pt_core s pt" and f: "frees s = {}" "f \<noteq> 0" and n: "walk s (PHYS_TO_VIRT s pt) (vpath v) = None"
  shows "leaf_entry me (PHYS_TO_VIRT s pt) v f s = Some (NULL, s)"
proof -
  let ?t = "PHYS_TO_VIRT s pt"
  have "alloc_pte me s = Some (0, s)" using c f(1) by (intro alloc_pte_none) (simp_all add: pt_core_def)
  then have nx: "pte_next me b i f s = Some (if present (pte s b i) then next_table s (pte s b i) else NULL, s)" for b i
    using f(2) by (simp add: pte_next_def next_table_def Let_def)
  show ?thesis
    using n by (auto simp: leaf_entry_def nx vpath_def split: if_splits)
qed

lemma taken_paging:
  assumes "locked (paging_lock s) \<noteq> 0"
  shows "pt \<noteq> NULL \<Longrightarrow> page \<noteq> NULL \<Longrightarrow> map_page me pt v page flags s = None"
    and "pt \<noteq> NULL \<Longrightarrow> map_paddr me pt v paddr flags s = None"
    and "pt \<noteq> NULL \<Longrightarrow> unmap_page me pt v s = None"
  using assms by (simp_all add: map_page_def map_paddr_def unmap_page_def acquire_paging_def)

section \<open>Taking a page for data\<close>

lemma alloc_page_core:
  assumes c: "pt_core s pt" and ne: "frees s \<noteq> {}"
  obtains p k s' where "pmm_alloc_page me s = Some (p, s')" and "p \<in> frees s" and "p = page_ptr s (of_nat k)" and "p \<noteq> NULL"
    and "pt_core s' pt" and "mapping s' pt = mapping s pt" and "data_frame s' pt k" and "frees s' = frees s - {p}"
    and "refcount (page_at s' p) = 1" and "outside_pmm s' = outside_pmm s" and "others_kept {p} s s'"
proof -
  obtain xs where i: "pmm_idle s xs" using c by (auto simp: pt_core_def pmm_ready_def)
  with ne pmm_idle_frees [OF i] obtain p ys where xs: "xs = p # ys" by (cases xs) auto
  obtain s1 where s1: "pmm_alloc_page me s = Some (p, s1)" "pmm_idle s1 ys" "others_kept {p} s s1" "refcount (page_at s1 p) = 1"
    using pmm_alloc_page_idle [of s p ys me] i xs by auto
  have p: "p \<in> frees s" using pmm_idle_frees [OF i] xs by auto
  have pn: "p \<notin> set ys" using i xs pmm_rel_length(2) [of s xs] by (auto simp: pmm_idle_def)
  have fr: "frees s1 = frees s - {p}" using frees_kept [OF s1(3)] pmm_idle_frees [OF s1(2)] pn by auto
  have wf: "db_wf s" and h: "hhdm_ok s" and ok: "tree_ok s (PHYS_TO_VIRT s pt)"
    using c by (auto simp: pt_core_def intro: ready_wf)
  obtain k where k: "k \<le> unat (max_pfn s)" "p = page_ptr s (of_nat k)" "pfn_db_page_to_phys s p = of_nat k * PAGE_SIZE"
    using p by (auto simp: frees_def elim: frame_page [OF wf])
  have k0: "k \<noteq> 0" using p k(2) c by (cases "k = 0") (auto simp: pt_core_def)
  note o = outside_pmm_ops(1) [OF s1(1)]
  note e = outside_same_tables [OF o s1(3)] note w = same_tables_walk [OF e]
  have nt: "walk s (PHYS_TO_VIRT s pt) q \<noteq> Some (frame_va s k)" if "idx_path q" for q
  proof
    assume "walk s (PHYS_TO_VIRT s pt) q = Some (frame_va s k)"
    from tree_ok_table [OF ok that this] obtain l where "used_frame s l" "l \<le> unat (max_pfn s)" "frame_va s k = frame_va s l" .
    with frame_va_inj [OF h k(1)] p k(2) show False by (auto simp: used_frame_frees)
  qed
  have mx: "max_pfn s1 = max_pfn s" using e by (simp add: same_tables_def)
  have uf: "used_frame s l \<Longrightarrow> used_frame s1 l" for l using fr by (auto simp: used_frame_frees mx w)
  have core: "pt_core s1 pt"
    by (rule pt_core_same [OF c e]) (use s1(2) fr uf c in \<open>auto simp: pmm_ready_def pt_core_def\<close>)
  have "data_frame s1 pt k" using nt k k0 fr by (simp add: data_frame_def used_frame_frees mx w)
  moreover have "p \<noteq> NULL" using wf p by (auto simp: frees_def dest: db_page_not_NULL)
  moreover have "mapping s1 pt = mapping s pt" by (rule ext) (rule w(2))
  ultimately show ?thesis using that [OF s1(1) p k(2) _ core] fr s1(3,4) o by blast
qed

end
