(* ===== verification/Paging_Props.thy ===== *)
theory Paging_Props
  imports Paging_Ops
begin

text \<open>
  The correctness of the page tables: a new table translates exactly the kernel half, mapping and
  unmapping change the translation of one page and of nothing else, and what happens when no frame is
  left for a table.
\<close>

section \<open>A new page table\<close>

lemma copy_entries:
  assumes "\<And>i. i < 512 \<Longrightarrow> x \<noteq> dst + 8 * of_nat i" and "n \<le> 512"
  shows "pte_at (fold (\<lambda>i t. set_pte (dst + 8 * of_nat i) (pte t src (of_nat i)) t) [256 ..< n] s) x = pte_at s x"
  using assms(2)
proof (induction n)
  case (Suc n)
  then show ?case using assms(1) [of n] by (cases "256 \<le> n") auto
qed simp

lemma copy_half:
  assumes inj: "\<And>i j. i < 512 \<Longrightarrow> j < 512 \<Longrightarrow> dst + 8 * of_nat i = dst + 8 * (of_nat j :: u64) \<longleftrightarrow> i = j"
    and apart: "\<And>i j. i < 512 \<Longrightarrow> j < 512 \<Longrightarrow> src + 8 * of_nat i \<noteq> dst + 8 * (of_nat j :: u64)" and i: "i < 512"
  shows "pte (copy_kernel_half dst src s) dst (of_nat i) = (if 256 \<le> i then pte s src (of_nat i) else pte s dst (of_nat i))"
proof -
  let ?f = "\<lambda>n. fold (\<lambda>i t. set_pte (dst + 8 * of_nat i) (pte t src (of_nat i)) t) [256 ..< n] s"
  have "pte_at (?f n) (dst + 8 * of_nat i) =
      (if 256 \<le> i \<and> i < n then pte s src (of_nat i) else pte s dst (of_nat i))" if "n \<le> 512" for n
    using that
  proof (induction n)
    case (Suc n)
    have "pte_at (?f n) (src + 8 * of_nat n) = pte_at s (src + 8 * of_nat n)"
      by (rule copy_entries) (use apart Suc.prems in auto)
    then have "pte (?f n) src (of_nat n) = pte s src (of_nat n)"
      unfolding pte_def [of "?f n"] pte_def [of s] .
    then have step: "pte_at (?f (Suc n)) = (if 256 \<le> n then (pte_at (?f n))(dst + 8 * of_nat n := pte s src (of_nat n)) else pte_at (?f n))"
      by (cases "256 \<le> n") (simp only: upt_Suc if_True fold_append fold_simps comp_apply set_pte_fields, simp)
    show ?case
    proof (cases "256 \<le> n \<and> i = n")
      case True
      then show ?thesis unfolding step by simp
    next
      case False
      have n: "n < 512" using Suc.prems by simp
      have ne: "256 \<le> n \<Longrightarrow> dst + 8 * of_nat i \<noteq> dst + 8 * of_nat n" using inj [OF i n] False by blast
      have eq: "pte_at (?f (Suc n)) (dst + 8 * of_nat i) = pte_at (?f n) (dst + 8 * of_nat i)"
        unfolding step by (cases "256 \<le> n") (simp_all only: if_True if_False fun_upd_apply ne not_True_eq_False not_False_eq_True)
      show ?thesis unfolding eq Suc.IH [OF less_imp_le [OF n]] using False by (auto simp: less_Suc_eq)
    qed
  qed (simp add: pte_def)
  from this [OF order_refl] i show ?thesis
    unfolding copy_kernel_half_def [symmetric] pte_def [of "copy_kernel_half dst src s"] by simp
qed

lemma copy_fields:
  "pmm_eq s (copy_kernel_half dst src s) \<and> paging_lock (copy_kernel_half dst src s) = paging_lock s \<and>
   mmio_lock (copy_kernel_half dst src s) = mmio_lock s \<and> mmio_regions (copy_kernel_half dst src s) = mmio_regions s \<and>
   paging.more (copy_kernel_half dst src s) = paging.more s"
  unfolding copy_kernel_half_def
  by (rule fold_invariant) (auto simp: pmm_eq_def set_pte_def)

text \<open>The tree below a new root in the frame \<open>n\<close> whose upper half is that of the kernel.\<close>

lemma new_tree:
  fixes s s' :: "'b paging_scheme"
  assumes k: "kpt \<noteq> NULL \<longrightarrow> pt_core s kpt" and r: "pmm_ready s" "hhdm_ok s" "page_ptr s 0 \<notin> frees s"
    and n: "0 < n" "n \<le> unat (max_pfn s)" "page_ptr s (of_nat n) \<in> frees s" "frees s' = frees s - {page_ptr s (of_nat n)}"
    and s': "pmm_ready s'" "mem_map s' = mem_map s" "max_pfn s' = max_pfn s" "hhdm_offset s' = hhdm_offset s"
    and root: "\<And>j. j < 512 \<Longrightarrow> pte s' (frame_va s n) j =
      (if 256 \<le> j \<and> kpt \<noteq> NULL then pte s (PHYS_TO_VIRT s kpt) j else 0)"
    and rest: "\<And>x. \<not> x - frame_va s n < PAGE_SIZE \<Longrightarrow> pte_at s' x = pte_at s x"
  shows "pt_core s' (of_nat n * PAGE_SIZE)"
    and "mapping s' (of_nat n * PAGE_SIZE) v = (if 256 \<le> pml4_index v \<and> kpt \<noteq> NULL then mapping s kpt v else None)"
    and "walk s' (frame_va s n) (vpath v) = (if 256 \<le> pml4_index v \<and> kpt \<noteq> NULL then walk s (PHYS_TO_VIRT s kpt) (vpath v) else None)"
proof -
  define kr where "kr = PHYS_TO_VIRT s kpt"
  define nr where "nr = frame_va s n"
  have fv: "frame_va s' = frame_va s" "PHYS_TO_VIRT s' = PHYS_TO_VIRT s" "next_table s' = next_table s"
    using s'(4) by (auto simp: frame_va_def PHYS_TO_VIRT_def next_table_def fun_eq_iff)
  have ptr: "page_ptr s' = page_ptr s" using s'(2) by (auto simp: page_ptr_def)
  have nr: "PHYS_TO_VIRT s' (of_nat n * PAGE_SIZE) = nr" using fv(2) by (simp add: nr_def frame_va_def)
  have nz: "of_nat n * PAGE_SIZE \<noteq> (0 :: u64)"
  proof -
    have "unat (of_nat n * 0x1000 :: u64) = n * 4096"
      using r(2) n(2) unat_of_nat_le [OF n(2)] by (subst unat_mult_no_wrap) (auto simp: hhdm_ok_def)
    then show ?thesis using n(1) by (auto simp: word_unat_eq_iff)
  qed
  have kt: "\<exists>l. used_frame s l \<and> a = frame_va s l \<and> l \<noteq> n" if "kpt \<noteq> NULL" "idx_path q" "walk s kr q = Some a" for q a
  proof -
    have "tree_ok s kr" using k that(1) by (simp add: pt_core_def kr_def)
    from tree_ok_table [OF this that(2,3)] obtain l where "used_frame s l" "a = frame_va s l" .
    moreover from this have "l \<noteq> n" using n(3) by (auto simp: used_frame_frees)
    ultimately show ?thesis by blast
  qed
  have ke: "pte s' a j = pte s a j" if "kpt \<noteq> NULL" "idx_path q" "walk s kr q = Some a" "j < 512" for q a j
  proof -
    from kt [OF that(1-3)] obtain l where l: "l \<le> unat (max_pfn s)" "a = frame_va s l" "l \<noteq> n" by (auto simp: used_frame_def)
    then have "\<not> a + 8 * j - frame_va s n < PAGE_SIZE" using entry_in_page [OF r(2) l(1) n(2) that(4)] by simp
    from rest [OF this] show ?thesis by (simp add: pte_def)
  qed
  have kw: "walk s' kr q = walk s kr q" if "kpt \<noteq> NULL" "idx_path q" for q
  proof -
    have "entries_kept s kr [0, 0, 0, 0, 0] s'" using ke [OF that(1)] s'(4) by (auto simp: entries_kept_def)
    moreover have "\<not> prefix [0, 0, 0, 0, 0] q"
      using that(2) prefix_length_le [of "[0, 0, 0, 0, 0]" q] by (auto simp: idx_path_def)
    ultimately show ?thesis using that(2) by (intro walk_kept)
  qed
  have w: "walk s' nr (i # q) = (if 256 \<le> i \<and> kpt \<noteq> NULL then walk s kr (i # q) else None)" if q: "idx_path (i # q)" for i q
  proof (cases "256 \<le> i \<and> kpt \<noteq> NULL")
    case True
    have i: "i < 512" using q by (simp add: idx_path_def)
    have "pte s' nr i = pte s' kr i" using root [OF i] ke [of "[]" kr i] True i by (simp add: nr_def kr_def)
    then have "walk s' nr (i # q) = walk s' kr (i # q)" by simp
    with True kw [OF _ q] show ?thesis by simp
  next
    case False
    have "i < 512" using q by (simp add: idx_path_def)
    from root [OF this] False have "pte s' nr i = 0" by (simp add: nr_def del: not_le)
    then have "walk s' nr (i # q) = None" by simp
    with False show ?thesis by auto
  qed
  have used: "used_frame s' l" if "used_frame s l" for l using that n by (auto simp: used_frame_frees s'(3) ptr)
  have un: "used_frame s' n" using n by (simp add: used_frame_frees s'(3) ptr)
  have cases: "q = [] \<and> a = nr \<or> (\<exists>i z. q = i # z \<and> kpt \<noteq> NULL \<and> walk s kr q = Some a)"
    if "idx_path q" "walk s' nr q = Some a" for q a
    using that w by (cases q) (auto split: if_splits)
  have "\<exists>l. used_frame s' l \<and> a = frame_va s' l" if "idx_path q" "walk s' nr q = Some a" for q a
    using cases [OF that] that(1) kt [of q a] un used by (auto simp: fv nr_def)
  moreover have "p = q" if pq: "idx_path p" "idx_path q" "walk s' nr p = Some a" "walk s' nr q = Some a" for p q a
  proof -
    have fresh: False if "kpt \<noteq> NULL" "idx_path z" "walk s kr z = Some nr" for z
    proof -
      from kt [OF that] obtain l where "used_frame s l" "nr = frame_va s l" "l \<noteq> n" by blast
      then show False using frame_va_inj [OF r(2) n(2), of l] by (auto simp: nr_def used_frame_def)
    qed
    have inj: "p = q" if "kpt \<noteq> NULL" "walk s kr p = Some a" "walk s kr q = Some a"
      using tree_ok_inj [of s kr p q a] k pq that by (simp add: pt_core_def kr_def)
    from cases [OF pq(1,3)] cases [OF pq(2,4)] show ?thesis using fresh [OF _ pq(1)] fresh [OF _ pq(2)] inj by blast
  qed
  ultimately have "tree_ok s' nr" unfolding tree_ok_def by blast
  moreover have "page_ptr s' 0 \<notin> frees s'" using r(3) n(4) by (simp add: ptr)
  moreover have "hhdm_ok s'" using r(2) s' by (simp add: hhdm_ok_def)
  ultimately show "pt_core s' (of_nat n * PAGE_SIZE)" using s'(1) nz nr by (simp add: pt_core_def)
  have wv: "walk s' nr (vpath v) = (if 256 \<le> pml4_index v \<and> kpt \<noteq> NULL then walk s kr (vpath v) else None)"
    using w [of "pml4_index v" "[pml3_index v, pml2_index v]"] idx_path_vpath [of v] unfolding vpath_def by blast
  then show "walk s' (frame_va s n) (vpath v) = (if 256 \<le> pml4_index v \<and> kpt \<noteq> NULL then walk s (PHYS_TO_VIRT s kpt) (vpath v) else None)"
    by (simp add: nr_def kr_def)
  from wv show "mapping s' (of_nat n * PAGE_SIZE) v = (if 256 \<le> pml4_index v \<and> kpt \<noteq> NULL then mapping s kpt v else None)"
    unfolding mapping_def nr kr_def [symmetric] leaf_of_def
    using ke [OF _ idx_path_vpath, of v _ "pml1_index v"] by (auto split: option.split)
qed

text \<open>A page table that was there before is not touched by writing to a frame that was free.\<close>

lemma fresh_frame_kept:
  fixes s s' :: "'b paging_scheme"
  assumes c: "pt_core s t" and n: "n \<le> unat (max_pfn s)" "page_ptr s (of_nat n) \<in> frees s" and f: "frees s' \<subseteq> frees s"
    and s': "pmm_ready s'" "mem_map s' = mem_map s" "max_pfn s' = max_pfn s" "hhdm_offset s' = hhdm_offset s"
    and rest: "\<And>x. \<not> x - frame_va s n < PAGE_SIZE \<Longrightarrow> pte_at s' x = pte_at s x"
  shows "pt_core s' t" and "mapping s' t = mapping s t"
proof -
  let ?r = "PHYS_TO_VIRT s t"
  have ok: "hhdm_ok s" "tree_ok s ?r" using c by (simp_all add: pt_core_def)
  have fv: "frame_va s' = frame_va s" "PHYS_TO_VIRT s' = PHYS_TO_VIRT s" using s'(4) by (auto simp: frame_va_def PHYS_TO_VIRT_def fun_eq_iff)
  have ptr: "page_ptr s' = page_ptr s" using s'(2) by (auto simp: page_ptr_def)
  have "pte s' a j = pte s a j" if a: "idx_path q" "walk s ?r q = Some a" and j: "j < 512" for q a j
  proof -
    obtain l where l: "used_frame s l" "a = frame_va s l" by (rule tree_ok_table [OF ok(2) a])
    then have "l \<le> unat (max_pfn s)" "l \<noteq> n" using n(2) by (auto simp: used_frame_frees)
    then have "\<not> a + 8 * j - frame_va s n < PAGE_SIZE" using entry_in_page [OF ok(1) _ n(1) j, of l] l(2) by simp
    from rest [OF this] show ?thesis by (simp add: pte_def)
  qed
  then have kept: "entries_kept s ?r [0, 0, 0, 0, 0] s'" using s'(4) by (auto simp: entries_kept_def)
  have np: "\<not> prefix [0, 0, 0, 0, 0] q" if "length q \<le> 4" for q :: "u64 list"
    using that prefix_length_le [of "[0, 0, 0, 0, 0]" q] by auto
  have w: "walk s' ?r q = walk s ?r q" if "idx_path q" for q
    using that np [of q] by (intro walk_kept [OF kept that]) (simp add: idx_path_def)
  have used: "used_frame s' l" if "used_frame s l" for l using that f by (auto simp: used_frame_frees s'(3) ptr)
  have "tree_ok s' ?r" using ok(2) used unfolding tree_ok_def fv by (metis w)
  then show "pt_core s' t" using c f s' by (auto simp: pt_core_def fv ptr hhdm_ok_def)
  show "mapping s' t = mapping s t"
  proof
    fix v
    show "mapping s' t v = mapping s t v"
      unfolding mapping_def fv by (rule leaf_of_kept [OF kept]) (simp_all add: np vpath_def, simp add: idx_path_def)
  qed
qed

lemma root_entry_inj:
  assumes "hhdm_ok s" and "k \<le> unat (max_pfn s)" and "i < 512" and "j < 512"
  shows "frame_va s k + 8 * of_nat i = frame_va s k + 8 * (of_nat j :: u64) \<longleftrightarrow> i = j"
proof
  assume e: "frame_va s k + 8 * of_nat i = frame_va s k + 8 * (of_nat j :: u64)"
  have u: "unat (of_nat i :: u64) = i" "unat (of_nat j :: u64) = j" using assms(3,4) by (simp_all add: unat_of_nat_small)
  have "of_nat i < (512 :: u64)" "of_nat j < (512 :: u64)" using assms(3,4) by (simp_all add: word_less_nat_alt u)
  from entry_inj(2) [OF assms(1,2,2) this e] show "i = j" using u by metis
qed simp

lemma pte_alloc_eq:
  assumes a: "alloc_pte me s = Some (phys, s2)" "phys \<noteq> 0" and m: "mmio_regions s2 = NULL" "lock_free (mmio_lock s2)"
  shows "pte_alloc me s = Some (phys,
    if kernel_pt s2 \<noteq> NULL then copy_kernel_half (PHYS_TO_VIRT s2 phys) (PHYS_TO_VIRT s2 (kernel_pt s2)) s2 else s2)"
proof -
  obtain pg s1 where 1: "pmm_alloc_page me s = Some (pg, s1)" "pg \<noteq> NULL" "phys = pfn_db_page_to_phys s1 pg"
    "s2 = zero_page (PHYS_TO_VIRT s1 phys) s1"
    using a by (auto simp: alloc_pte_def Let_def bind_eq_Some_conv split: if_splits)
  let ?s3 = "if kernel_pt s2 \<noteq> NULL then copy_kernel_half (PHYS_TO_VIRT s1 phys) (PHYS_TO_VIRT s2 (kernel_pt s2)) s2 else s2"
  have m3: "mmio_lock ?s3 = mmio_lock s2" "mmio_regions ?s3 = NULL" by (simp_all add: copy_fields m(1))
  have pv: "PHYS_TO_VIRT s2 = PHYS_TO_VIRT s1" by (rule ext) (simp add: 1(4) PHYS_TO_VIRT_def)
  have acq: "acquire_mmio me ?s3 = Some (?s3\<lparr>mmio_lock := (mmio_lock s2)\<lparr>locked := 1, owner := me\<rparr>\<rparr>)"
    using m(2) m3(1) by (simp add: acquire_mmio_def)
  have rel: "release_mmio me (?s3\<lparr>mmio_lock := (mmio_lock s2)\<lparr>locked := 1, owner := me\<rparr>\<rparr>) = ?s3"
    using m(2) m3(1) by (simp add: release_mmio_def)
  let ?s4 = "?s3\<lparr>mmio_lock := (mmio_lock s2)\<lparr>locked := 1, owner := me\<rparr>\<rparr>"
  have "map_regions me phys (mmio_regions ?s4) ?s4 = Some ?s4"
    using m3(2) by (subst map_regions.simps) simp
  with 1 acq rel show ?thesis unfolding pte_alloc_def Let_def pv
    by (simp only: 1(1) bind.bind_lunit prod.case 1(2) if_False 1(3) [symmetric] 1(4) [symmetric] pv)
qed

lemma alloc_pte_fields:
  assumes "alloc_pte me s = Some (phys, s')"
  shows "kernel_pt s' = kernel_pt s" "mmio_regions s' = mmio_regions s" "mmio_lock s' = mmio_lock s" "paging.more s' = paging.more s"
proof -
  obtain pg s1 where 1: "pmm_alloc_page me s = Some (pg, s1)"
    "s' = s1 \<or> s' = zero_page (PHYS_TO_VIRT s1 phys) s1"
    using assms by (auto simp: alloc_pte_def Let_def bind_eq_Some_conv split: if_splits)
  note o = outside_pmm_fields [OF outside_pmm_ops(1) [OF 1(1)]]
  show "kernel_pt s' = kernel_pt s" "mmio_regions s' = mmio_regions s" "mmio_lock s' = mmio_lock s" "paging.more s' = paging.more s"
    using 1(2) o by (auto simp: zero_page_def zero_mem_def)
qed

lemma index_word: "j < 512 \<Longrightarrow> unat j < 512" for j :: u64
  by (simp add: word_less_nat_alt)

lemma pte_alloc_new:
  fixes s :: "'b paging_scheme"
  assumes r: "pmm_ready s" "hhdm_ok s" "page_ptr s 0 \<notin> frees s" and ne: "frees s \<noteq> {}"
    and k: "kernel_pt s \<noteq> NULL \<longrightarrow> pt_core s (kernel_pt s)" and m: "mmio_regions s = NULL" "lock_free (mmio_lock s)"
  obtains pt s' where "pte_alloc me s = Some (pt, s')" and "pt_core s' pt" and "paging_lock s' = paging_lock s"
    and "\<forall>v. mapping s' pt v = (if 256 \<le> pml4_index v \<and> kernel_pt s \<noteq> NULL then mapping s (kernel_pt s) v else None)"
    and "\<exists>p \<in> frees s. frees s' = frees s - {p}"
    and "\<forall>v. kernel_pt s = NULL \<longrightarrow> walk s' (PHYS_TO_VIRT s' pt) (vpath v) = None" and "paging.more s' = paging.more s"
    and "\<forall>t. pt_core s t \<longrightarrow> pt_core s' t \<and> mapping s' t = mapping s t"
proof -
  obtain n s2 where n: "alloc_pte me s = Some (of_nat n * PAGE_SIZE, s2)" "0 < n" "n \<le> unat (max_pfn s)"
      "page_ptr s (of_nat n) \<in> frees s" "frees s2 = frees s - {page_ptr s (of_nat n)}"
    and s2: "pmm_ready s2" "others_kept {page_ptr s (of_nat n)} s s2" "hhdm_offset s2 = hhdm_offset s"
      "paging_lock s2 = paging_lock s" "of_nat n * PAGE_SIZE \<noteq> (0 :: u64)"
      "pte_at s2 = (\<lambda>x. if x - frame_va s n < PAGE_SIZE then 0 else pte_at s x)"
      "\<forall>x. \<not> x - frame_va s n < PAGE_SIZE \<longrightarrow> heap_mem s2 x = heap_mem s x"
    by (rule alloc_pte_some [OF r ne, of me])
  note f2 = alloc_pte_fields [OF n(1)]
  define nr where "nr = frame_va s n"
  define kr where "kr = PHYS_TO_VIRT s (kernel_pt s)"
  have pv: "PHYS_TO_VIRT s2 = PHYS_TO_VIRT s" using s2(3) by (auto simp: PHYS_TO_VIRT_def)
  have nr': "PHYS_TO_VIRT s (of_nat n * PAGE_SIZE) = nr" by (simp add: nr_def frame_va_def)
  define s3 where "s3 = (if kernel_pt s \<noteq> NULL then copy_kernel_half nr kr s2 else s2)"
  have alloc: "pte_alloc me s = Some (of_nat n * PAGE_SIZE, s3)"
    using pte_alloc_eq [OF n(1) s2(5)] m f2 unfolding pv nr' by (simp add: s3_def kr_def)
  have e3: "pmm_eq s2 s3" "paging_lock s3 = paging_lock s2" "paging.more s3 = paging.more s"
    by (simp_all add: s3_def copy_fields f2)
  note q = pmm_eq_facts [OF e3(1)]
  have inj: "nr + 8 * of_nat i = nr + 8 * of_nat j \<longleftrightarrow> i = j" if "i < 512" "j < 512" for i j
    unfolding nr_def by (rule root_entry_inj [OF r(2) n(3) that])
  have zero: "pte s2 nr j = 0" if "j < 512" for j
    using entry_in_page [OF r(2) n(3,3) that] by (simp add: pte_def s2(6) nr_def)
  have kl: "\<exists>l \<le> unat (max_pfn s). kr = frame_va s l \<and> l \<noteq> n" if "kernel_pt s \<noteq> NULL"
  proof -
    have "tree_ok s kr" using k that by (simp add: pt_core_def kr_def)
    then obtain l where "used_frame s l" "kr = frame_va s l" using tree_ok_table [of s kr "[]" kr] by auto
    with n(4) show ?thesis by (auto simp: used_frame_frees)
  qed
  have root: "pte s3 nr j = (if 256 \<le> j \<and> kernel_pt s \<noteq> NULL then pte s kr j else 0)" if j: "j < 512" for j
  proof (cases "kernel_pt s \<noteq> NULL")
    case True
    then obtain l where l: "l \<le> unat (max_pfn s)" "kr = frame_va s l" "l \<noteq> n" using kl by blast
    have apart: "kr + 8 * of_nat i \<noteq> nr + 8 * of_nat i'" if "i < 512" "i' < 512" for i i' :: nat
    proof
      assume e: "kr + 8 * of_nat i = nr + 8 * of_nat i'"
      have b: "of_nat i < (512 :: u64)" "of_nat i' < (512 :: u64)" using that by (simp_all add: word_less_nat_alt unat_of_nat_small)
      from entry_inj(1) [OF r(2) l(1) n(3) b] e l(2,3) show False by (simp add: nr_def)
    qed
    have old: "pte s2 kr j = pte s kr j"
      using entry_in_page [OF r(2) l(1) n(3) j] l(2,3) by (simp add: pte_def s2(6))
    have "pte s3 nr (of_nat (unat j)) = (if 256 \<le> unat j then pte s2 kr (of_nat (unat j)) else pte s2 nr (of_nat (unat j)))"
      unfolding s3_def if_P [OF True] by (rule copy_half [OF inj apart index_word [OF j]])
    then show ?thesis using True old zero [OF j] by (simp add: word_le_nat_alt)
  next
    case False
    then show ?thesis using zero [OF j] by (simp add: s3_def)
  qed
  have rest: "pte_at s3 x = pte_at s x" if x: "\<not> x - nr < PAGE_SIZE" for x
  proof -
    have "x \<noteq> nr + 8 * of_nat i" if i: "i < 512" for i
    proof
      assume e: "x = nr + 8 * of_nat i"
      have "of_nat i < (512 :: u64)" using i by (simp add: word_less_nat_alt unat_of_nat_small)
      from entry_in_page [OF r(2) n(3,3) this] x e show False by (simp add: nr_def)
    qed
    then have "pte_at (copy_kernel_half nr kr s2) x = pte_at s2 x"
      unfolding copy_kernel_half_def by (rule copy_entries) simp_all
    moreover have "pte_at s2 x = pte_at s x" using x by (simp add: s2(6) nr_def)
    ultimately show ?thesis by (simp add: s3_def)
  qed
  have mx: "mem_map s3 = mem_map s" "max_pfn s3 = max_pfn s" "hhdm_offset s3 = hhdm_offset s"
    using s2(2,3) e3(1) by (simp_all add: others_kept_def pmm_eq_def)
  have fr: "frees s3 = frees s - {page_ptr s (of_nat n)}" "pmm_ready s3" using q n(5) s2(1) by simp_all
  note nt = new_tree [OF k r n(2-4) fr(1,2) mx root [unfolded nr_def kr_def] rest [unfolded nr_def]]
  show ?thesis
  proof (rule that [OF alloc nt(1)])
    have "PHYS_TO_VIRT s3 (of_nat n * PAGE_SIZE) = frame_va s n" using mx(3) by (simp add: frame_va_def PHYS_TO_VIRT_def)
    then show "\<forall>v. kernel_pt s = NULL \<longrightarrow> walk s3 (PHYS_TO_VIRT s3 (of_nat n * PAGE_SIZE)) (vpath v) = None"
      using nt(3) by simp
    have "frees s3 \<subseteq> frees s" using fr(1) by blast
    from fresh_frame_kept [OF _ n(3,4) this fr(2) mx rest [unfolded nr_def]]
    show "\<forall>t. pt_core s t \<longrightarrow> pt_core s3 t \<and> mapping s3 t = mapping s t" by blast
  qed (use e3(2,3) s2(4) nt(2) fr(1) n(4) in auto)
qed

section \<open>A machine with sixteen frames\<close>

definition boot_machine :: "'b \<Rightarrow> 'b paging_scheme" where
  "boot_machine r = \<lparr>mem_map = 0xFFFF800000000000, max_pfn = 15, db_phys = 0, hhdm_offset = 0xFFFF800000000000,
     page_at = (\<lambda>p. \<lparr>u1_next = 0, u2 = 0, pg_flags = (if p = 0xFFFF800000000000 then 4 else 1), refcount = 0\<rparr>),
     free_list = 0, free_pages = 0, total_pages = 0, pmm_lock = SPINLOCK_INIT,
     slab_at = (\<lambda>_. clear_slab), link_at = (\<lambda>_. 0), heap_mem = (\<lambda>_. 0),
     caches = (\<lambda>_. \<lparr>c_object_size = 0, c_slabs = 0, c_slab_count = 0\<rparr>), kheap_lock = SPINLOCK_INIT,
     pte_at = (\<lambda>_. 0), paging_lock = SPINLOCK_INIT, mmio_lock = SPINLOCK_INIT,
      mmio_at = (\<lambda>_. \<lparr>rg_vaddr = 0, rg_paddr = 0, rg_npages = 0, rg_next = 0\<rparr>), mmio_regions = NULL,
      kernel_pt = NULL, kstack_top = 0xFFFFFFFF80010000, kaddr_virt = 0xFFFFFFFF80000000, kaddr_phys = 0x100000, cr3 = 0, \<dots> = r\<rparr>"

definition boot_paging :: paging where
  "boot_paging = boot_machine ()"

lemma outside_pmm_init: "pmm_init me s = Some (r, t) \<Longrightarrow> outside_pmm t = outside_pmm s"
proof (unfold pmm_init_def, erule outside_pmm_lock [rotated])
  have p: "outside_pmm (pmm_init_page i x) = outside_pmm x" for i and x :: "'b pmm_scheme"
    by (simp add: pmm_init_page_def Let_def)
  have z: "outside_pmm (x\<lparr>free_list := a, free_pages := b, total_pages := c\<rparr>) = outside_pmm x" for a b c and x :: "'b pmm_scheme"
    by (simp add: outside_pmm_def)
  have f: "outside_pmm (fold pmm_init_page xs x) = outside_pmm x" for xs and x :: "'b pmm_scheme"
    by (induction xs arbitrary: x) (simp_all add: p)
  show "outside_pmm (snd (let s1 = x\<lparr>free_list := NULL, free_pages := 0, total_pages := max_pfn x + 1\<rparr>
      in if mem_map s1 = NULL then ((), s1) else ((), fold pmm_init_page (all_pfns (max_pfn s1)) s1))) = outside_pmm x" for x :: "'b pmm_scheme"
    by (simp only: Let_def snd_conv z f if_distrib if_cancel)
qed

lemma boot_machine_idle:
  obtains s where "pmm_ready s" and "hhdm_ok s" and "page_ptr s 0 \<notin> frees s" and "card (frees s) = 15"
    and "outside_pmm s = outside_pmm (boot_machine r)" and "pmm_init 0 (boot_machine r) = Some ((), s)"
proof -
  note b = boot_machine_def
  have wf: "db_wf (boot_machine r)" and l: "lock_free (pmm_lock (boot_machine r))" by (simp_all add: b db_wf_def)
  have c: "\<not> is_page_dirty (page_at (boot_machine r) p) \<and> (is_page_free (page_at (boot_machine r) p) \<longrightarrow> refcount (page_at (boot_machine r) p) = 0)" for p
    by (auto simp: b is_page_dirty_def bit_simps)
  let ?xs = "rev (filter (\<lambda>p. is_page_free (page_at (boot_machine r) p)) (map (page_ptr (boot_machine r)) (all_pfns (max_pfn (boot_machine r)))))"
  have xs: "?xs = boot_frames"
    by (simp add: boot_frames_def b all_pfns_def page_ptr_def is_page_free_def upt_rec)
  obtain s where s: "pmm_init 0 (boot_machine r) = Some ((), s)" "pmm_idle s ?xs" "others_kept {} (boot_machine r) s"
    using pmm_init_idle [OF wf l c, of 0] by blast
  have v: "outside_pmm s = outside_pmm (boot_machine r)" by (rule outside_pmm_init [OF s(1)])
  have m: "mem_map s = 0xFFFF800000000000" "max_pfn s = 15" "hhdm_offset s = 0xFFFF800000000000"
    using s(3) outside_pmm_fields(1) [OF v] by (simp_all add: others_kept_def b)
  have fr: "frees s = set boot_frames" using pmm_idle_frees [OF s(2)] xs by simp
  have "distinct boot_frames" "length boot_frames = 15" by (simp_all add: boot_frames_def)
  then have card: "card (frees s) = 15" using fr distinct_card [of boot_frames] by simp
  have "page_ptr s 0 \<notin> frees s" unfolding fr by (simp add: page_ptr_def m boot_frames_def)
  moreover have "hhdm_ok s" by (simp add: hhdm_ok_def m)
  moreover have "pmm_ready s" using s(2) by (auto simp: pmm_ready_def)
  ultimately show ?thesis using that card v s(1) by blast
qed

lemma boot_page_table:
  obtains s :: "'b paging_scheme" and pt where "pt_inv s pt" and "mapping s pt = Map.empty" and "14 \<le> card (frees s)"
    and "\<forall>v. walk s (PHYS_TO_VIRT s pt) (vpath v) = None" and "paging.more s = r"
proof -
  obtain s :: "'b paging_scheme" where s: "pmm_ready s" "hhdm_ok s" "page_ptr s 0 \<notin> frees s" "card (frees s) = 15"
    "outside_pmm s = outside_pmm (boot_machine r)" "pmm_init 0 (boot_machine r) = Some ((), s)" by (rule boot_machine_idle)
  note o = outside_pmm_fields [OF s(5)]
  have ne: "frees s \<noteq> {}" using s(4) by auto
  have k: "kernel_pt s = NULL" "mmio_regions s = NULL" "mmio_lock s = SPINLOCK_INIT" "paging_lock s = SPINLOCK_INIT" "paging.more s = r"
    using o by (simp_all add: boot_machine_def)
  have k1: "kernel_pt s \<noteq> NULL \<longrightarrow> pt_core s (kernel_pt s)" and k2: "lock_free (mmio_lock s)" using k by simp_all
  obtain pt s' where s': "pte_alloc 0 s = Some (pt, s')" "pt_core s' pt" "paging_lock s' = paging_lock s"
    "\<forall>v. mapping s' pt v = (if 256 \<le> pml4_index v \<and> kernel_pt s \<noteq> NULL then mapping s (kernel_pt s) v else None)"
    "\<exists>p \<in> frees s. frees s' = frees s - {p}"
    "\<forall>v. kernel_pt s = NULL \<longrightarrow> walk s' (PHYS_TO_VIRT s' pt) (vpath v) = None" "paging.more s' = paging.more s"
    by (rule pte_alloc_new [OF s(1-3) ne k1 k(2) k2])
  obtain p where p: "p \<in> frees s" "frees s' = frees s - {p}" using s'(5) by blast
  have "14 \<le> card (frees s')" unfolding p(2) card_Diff_singleton [OF p(1)] s(4) by simp
  moreover have "pt_inv s' pt" using s'(2,3) k by (simp add: pt_inv_def)
  moreover have "mapping s' pt = Map.empty" by (rule ext) (simp add: s'(4) k(1))
  ultimately show ?thesis using that s'(6,7) k(1,5) by simp
qed

text \<open>Every free page can be taken: what is left is a page table without room to grow.\<close>

lemma drain_frames:
  assumes "pt_inv s pt"
  shows "\<exists>s'. pt_inv s' pt \<and> frees s' = {} \<and> same_tables s s'"
  using assms
proof (induction "card (frees s)" arbitrary: s)
  case 0
  moreover have "finite (frees s)" using 0 by (auto simp: pt_inv_def pt_core_def intro: pmm.avail_finite)
  ultimately show ?case by (auto simp: same_tables_def)
next
  case (Suc n)
  have c: "pt_core s pt" using Suc.prems by (simp add: pt_inv_def)
  have ne: "frees s \<noteq> {}" using Suc.hyps(2) by auto
  obtain p k s1 where s1: "pmm_alloc_page 0 s = Some (p, s1)" "p \<in> frees s" "p = page_ptr s (of_nat k)" "p \<noteq> NULL"
    "pt_core s1 pt" "mapping s1 pt = mapping s pt" "data_frame s1 pt k" "frees s1 = frees s - {p}"
    "refcount (page_at s1 p) = 1" "outside_pmm s1 = outside_pmm s" "others_kept {p} s s1"
    by (rule alloc_page_core [OF c ne])
  have i1: "pt_inv s1 pt" using s1(5) Suc.prems outside_pmm_fields(3) [OF s1(10)] by (simp add: pt_inv_def)
  have "n = card (frees s1)" unfolding s1(8) card_Diff_singleton [OF s1(2)] using Suc.hyps(2) by simp
  from Suc.hyps(1) [OF this i1] obtain s' where "pt_inv s' pt" "frees s' = {}" "same_tables s1 s'" by blast
  with outside_same_tables [OF s1(10,11)] show ?case by (auto simp: same_tables_def)
qed

text \<open>The same machine with a page taken for data.\<close>

lemma boot_data_page:
  obtains s :: paging and pt page k where "pt_inv s pt" and "mapping s pt = Map.empty" and "13 \<le> card (frees s)"
    and "page = page_ptr s (of_nat k)" and "data_frame s pt k" and "refcount (page_at s page) = 1"
proof -
  obtain s :: paging and pt where s: "pt_inv s pt" "mapping s pt = Map.empty" "14 \<le> card (frees s)"
    "\<forall>v. walk s (PHYS_TO_VIRT s pt) (vpath v) = None" by (rule boot_page_table [of "()"])
  have c: "pt_core s pt" using s(1) by (simp add: pt_inv_def)
  have ne: "frees s \<noteq> {}" using s(3) by auto
  obtain p k s' where s': "pmm_alloc_page 0 s = Some (p, s')" "p \<in> frees s" "p = page_ptr s (of_nat k)" "p \<noteq> NULL"
    "pt_core s' pt" "mapping s' pt = mapping s pt" "data_frame s' pt k" "frees s' = frees s - {p}"
    "refcount (page_at s' p) = 1" "outside_pmm s' = outside_pmm s" "others_kept {p} s s'"
    by (rule alloc_page_core [OF c ne])
  show ?thesis
  proof (rule that [of s' pt p k])
    show "pt_inv s' pt" using s'(5) s(1) outside_pmm_fields(3) [OF s'(10)] by (simp add: pt_inv_def)
    show "13 \<le> card (frees s')" using s'(2,8) s(3) by (simp add: card_Diff_singleton)
    show "p = page_ptr s' (of_nat k)" using s'(3,11) by (simp add: others_kept_def page_ptr_def)
  qed (use s' s(2) in auto)
qed

section \<open>Properties\<close>

text \<open>
  C19. While no MMIO region is registered, \<open>pte_alloc\<close> returns; without a free frame the result is 0 and nothing changes. Otherwise it takes one free frame and
  returns a well-formed page table that translates the kernel half of the address space as the kernel's page table does and
  nothing else, and every page table that was well-formed before still is and translates every address as before.
\<close>
theorem pte_alloc_correct:
  assumes "pmm_ready s" and "hhdm_ok s" and "page_ptr s 0 \<notin> frees s"
    and "kernel_pt s \<noteq> NULL \<longrightarrow> pt_core s (kernel_pt s)" and "mmio_regions s = NULL" and "lock_free (mmio_lock s)"
    and "lock_free (paging_lock s)"
  shows "if frees s = {} then pte_alloc me s = Some (NULL, s)
    else \<exists>pt s'. pte_alloc me s = Some (pt, s') \<and> pt_inv s' pt \<and>
      (\<forall>v. mapping s' pt v = (if 256 \<le> pml4_index v \<and> kernel_pt s \<noteq> NULL then mapping s (kernel_pt s) v else None)) \<and>
      (\<exists>p \<in> frees s. frees s' = frees s - {p}) \<and>
      (\<forall>t. pt_inv s t \<longrightarrow> pt_inv s' t \<and> mapping s' t = mapping s t)"
proof (cases "frees s = {}")
  case True
  then have "pmm_alloc_page me s = Some (NULL, s)" using pmm.alloc_empty [of s me] assms(1) by simp
  then have "pte_alloc me s = Some (NULL, s)" by (simp add: pte_alloc_def)
  then show ?thesis using True by simp
next
  case False
  obtain pt s' where s': "pte_alloc me s = Some (pt, s')" "pt_core s' pt" "paging_lock s' = paging_lock s"
    "\<forall>v. mapping s' pt v = (if 256 \<le> pml4_index v \<and> kernel_pt s \<noteq> NULL then mapping s (kernel_pt s) v else None)"
    "\<exists>p \<in> frees s. frees s' = frees s - {p}"
    "\<forall>v. kernel_pt s = NULL \<longrightarrow> walk s' (PHYS_TO_VIRT s' pt) (vpath v) = None"
    "\<forall>t. pt_core s t \<longrightarrow> pt_core s' t \<and> mapping s' t = mapping s t"
    by (rule pte_alloc_new [OF assms(1-3) False assms(4-6)])
  have "pt_inv s' pt" "\<forall>t. pt_inv s t \<longrightarrow> pt_inv s' t \<and> mapping s' t = mapping s t"
    unfolding pt_inv_def s'(3) using s'(2,7) assms(7) by blast+
  with s'(1,4,5) False show ?thesis by auto
qed

theorem pte_alloc_correct_witness:
  "\<exists>s :: paging. pmm_init 0 boot_paging = Some ((), s) \<and>
    (\<exists>pt s'. pte_alloc 0 s = Some (pt, s') \<and> pt_inv s' pt \<and> (\<forall>v. mapping s' pt v = None))"
proof -
  obtain s :: paging where s: "pmm_ready s" "hhdm_ok s" "page_ptr s 0 \<notin> frees s" "card (frees s) = 15"
    "outside_pmm s = outside_pmm (boot_machine ())" "pmm_init 0 (boot_machine ()) = Some ((), s)" by (rule boot_machine_idle)
  note o = outside_pmm_fields [OF s(5)]
  have k: "kernel_pt s = NULL" "mmio_regions s = NULL" "mmio_lock s = SPINLOCK_INIT" "paging_lock s = SPINLOCK_INIT"
    using o by (simp_all add: boot_machine_def)
  have ne: "frees s \<noteq> {}" using s(4) by auto
  from pte_alloc_correct [OF s(1-3), of 0] k ne have "\<exists>pt s'. pte_alloc 0 s = Some (pt, s') \<and> pt_inv s' pt \<and> (\<forall>v. mapping s' pt v = None)"
    by auto
  with s(6) show ?thesis unfolding boot_paging_def by blast
qed

text \<open>
  C20. With three free frames, \<open>map_page\<close> returns; afterwards the addresses of the page of \<open>v\<close> are translated
  by the new entry and all others as before, the page has one reference more, and no descriptor
  changes but those of the page, of free frames and of the page that was mapped there.
\<close>
theorem map_page_correct:
  assumes "pt_inv s pt" and "db_page s page" and "page \<notin> frees s"
    and "replaceable s pt page (mapping s pt v)" and "3 \<le> card (frees s)"
  shows "\<exists>s'. map_page me pt v page flags s = Some s' \<and> pt_inv s' pt \<and>
    mapping s' pt = (\<lambda>x. if vpage x = vpage v then Some (new_entry (pfn_db_page_to_phys s page) flags) else mapping s pt x) \<and>
    refcount (page_at s' page) = refcount (page_at s page) + 1 \<and>
    others_kept (insert page (frees s \<union> mapped_page s (mapping s pt v))) s s'"
  by (rule map_page_mapped [OF assms, of me flags]) blast

theorem map_page_correct_witness:
  "\<exists>(s :: paging) pt page s'. pt_inv s pt \<and> map_page 0 pt 0x400000 page 7 s = Some s' \<and> pt_inv s' pt \<and>
     mapping s pt 0x400ABC = None \<and> mapping s' pt 0x400ABC = Some (new_entry (pfn_db_page_to_phys s page) 7) \<and>
     mapping s' pt 0x401000 = None"
proof -
  obtain s :: paging and pt page k where s: "pt_inv s pt" "mapping s pt = Map.empty" "13 \<le> card (frees s)"
    "page = page_ptr s (of_nat k)" "data_frame s pt k" "refcount (page_at s page) = 1" by (rule boot_data_page)
  have p: "db_page s page" "page \<notin> frees s" using s(1,4,5) frame_to_page(3) [of s k]
    by (auto simp: pt_inv_def pt_core_def data_frame_def used_frame_frees intro: ready_wf)
  have m: "replaceable s pt page (mapping s pt 0x400000)" by (simp add: s(2) replaceable_def)
  have n: "3 \<le> card (frees s)" using s(3) by linarith
  obtain s' where s': "map_page 0 pt 0x400000 page 7 s = Some s'" "pt_inv s' pt"
    "mapping s' pt = (\<lambda>x. if vpage x = vpage 0x400000 then Some (new_entry (pfn_db_page_to_phys s page) 7) else mapping s pt x)"
    using map_page_correct [OF s(1) p m n, of 0 7] by blast
  have v: "vpage 0x400ABC = vpage 0x400000" "vpage 0x401000 \<noteq> vpage 0x400000"
    by (simp_all add: vpage_def take_bit_eq_mod drop_bit_eq_div)
  have "mapping s' pt 0x400ABC = Some (new_entry (pfn_db_page_to_phys s page) 7)" "mapping s' pt 0x401000 = None"
    unfolding s'(3) s(2) using v by simp_all
  then show ?thesis using s(1,2) s'(1,2) by (intro exI [of _ s] exI [of _ pt] exI [of _ page] exI [of _ s']) simp
qed

text \<open>
  C21. Mapping a page at an address that is not mapped and unmapping it again: in between \<open>get_paddr\<close> finds the
  frame of the page and \<open>get_pflags\<close> its flags; afterwards every address is translated as before and
  the page has the references it had.
\<close>
theorem map_unmap_roundtrip:
  assumes "pt_inv s pt" and "page = page_ptr s (of_nat k)" and "data_frame s pt k" and "mapping s pt v = None"
    and "3 \<le> card (frees s)" and "0 < refcount (page_at s page)" and "refcount (page_at s page) < 0xFFFFFFFF"
  shows "\<exists>s1 s2. map_page me pt v page flags s = Some s1 \<and>
    get_paddr me pt v s1 = Some (of_nat k * PAGE_SIZE, s1) \<and>
    get_pflags me pt v s1 = Some ((flags AND NOT PAGE_FRAME_MASK) OR PFLAG_PRESENT, s1) \<and>
    unmap_page me pt v s1 = Some s2 \<and> pt_inv s2 pt \<and> mapping s2 pt = mapping s pt \<and>
    refcount (page_at s2 page) = refcount (page_at s page)"
proof -
  have c: "pt_core s pt" using assms(1) by (simp add: pt_inv_def)
  then have wf: "db_wf s" and h: "hhdm_ok s" by (auto simp: pt_core_def intro: ready_wf)
  have k: "k \<le> unat (max_pfn s)" "page \<notin> frees s" using assms(2,3) by (simp_all add: data_frame_def used_frame_frees)
  have p: "db_page s page" using frame_to_page(3) [OF wf k(1)] assms(2) by simp
  have ph: "pfn_db_page_to_phys s page = of_nat k * PAGE_SIZE"
    using page_to_phys_page_ptr [OF wf of_nat_pfn [OF k(1)]] assms(2) by simp
  have m: "replaceable s pt page (mapping s pt v)" by (simp add: assms(4) replaceable_def)
  obtain s1 where s1: "map_page me pt v page flags s = Some s1" "pt_inv s1 pt"
    "mapping s1 pt = (\<lambda>x. if vpage x = vpage v then Some (new_entry (pfn_db_page_to_phys s page) flags) else mapping s pt x)"
    "refcount (page_at s1 page) = refcount (page_at s page) + 1"
    "others_kept (insert page (frees s \<union> mapped_page s (mapping s pt v))) s s1"
    "frees s1 \<subseteq> frees s \<union> mapped_page s (mapping s pt v)" "hhdm_offset s1 = hhdm_offset s"
    "\<forall>k. data_frame s pt k \<and> page_ptr s (of_nat k) \<notin> mapped_page s (mapping s pt v) \<longrightarrow> data_frame s1 pt k"
    "frames_kept s s1" "card (frees s) \<le> card (frees s1) + 3"
    by (rule map_page_mapped [OF assms(1) p k(2) m assms(5)])
  let ?e = "new_entry (of_nat k * PAGE_SIZE) flags"
  have e: "mapping s1 pt v = Some ?e" by (simp add: s1(3) ph)
  have k40: "k < 2 ^ 40" by (rule frame_va_ok(2) [OF h k(1)])
  note f = new_entry_frame [OF k40, of flags] new_entry_flags [OF k40, of flags]
  have c1: "pt_core s1 pt" using s1(2) by (simp add: pt_inv_def)
  have d1: "data_frame s1 pt k" using s1(8) assms(3,4) by (simp add: mapped_page_def)
  have p1: "page = page_ptr s1 (of_nat k)" using s1(5) assms(2) by (simp add: others_kept_def page_ptr_def)
  have gt: "1 < refcount (page_at s page) + 1"
  proof -
    have "0 < unat (refcount (page_at s page))" "unat (refcount (page_at s page)) < 0xFFFFFFFF"
      using assms(6,7) by (simp_all add: word_less_nat_alt)
    then have "unat (refcount (page_at s page) + 1) = unat (refcount (page_at s page)) + 1"
      by (subst unat_add_no_wrap) simp_all
    with \<open>0 < unat (refcount (page_at s page))\<close> show ?thesis by (simp add: word_less_nat_alt)
  qed
  obtain s2 where s2: "unmap_page me pt v s1 = Some s2" "pt_inv s2 pt"
    "mapping s2 pt = (\<lambda>x. if vpage x = vpage v then None else mapping s1 pt x)"
    "others_kept (insert page (table_pages s1 pt)) s1 s2" "hhdm_offset s2 = hhdm_offset s1"
    "1 < refcount (page_at s1 page) \<longrightarrow> refcount (page_at s2 page) = refcount (page_at s1 page) - 1 \<and> page \<notin> frees s2"
    by (rule unmap_page_mapped [OF s1(2) e f(1) d1 p1])
  have "mapping s2 pt = mapping s pt"
  proof
    fix x
    have "vpage x = vpage v \<Longrightarrow> mapping s pt x = mapping s pt v"
      using same_vpage [of x v] by (simp add: mapping_def)
    then show "mapping s2 pt x = mapping s pt x" unfolding s2(3) s1(3) using assms(4) by simp
  qed
  moreover have "refcount (page_at s2 page) = refcount (page_at s page)" using s2(6) s1(4) gt by simp
  moreover have "get_paddr me pt v s1 = Some (of_nat k * PAGE_SIZE, s1)"
    "get_pflags me pt v s1 = Some ((flags AND NOT PAGE_FRAME_MASK) OR PFLAG_PRESENT, s1)"
    unfolding get_paddr_mapping [OF c1] e option.case f by (rule refl)+
  ultimately show ?thesis using s1(1) s2(1,2) by blast
qed

theorem map_unmap_roundtrip_witness:
  "\<exists>(s :: paging) pt page k s1 s2. map_page 0 pt 0x7FFF0000 page 3 s = Some s1 \<and>
     get_paddr 0 pt 0x7FFF0000 s1 = Some (of_nat k * PAGE_SIZE, s1) \<and> unmap_page 0 pt 0x7FFF0000 s1 = Some s2 \<and>
     mapping s2 pt = Map.empty \<and> refcount (page_at s2 page) = 1"
proof -
  obtain s :: paging and pt page k where s: "pt_inv s pt" "mapping s pt = Map.empty" "13 \<le> card (frees s)"
    "page = page_ptr s (of_nat k)" "data_frame s pt k" "refcount (page_at s page) = 1" by (rule boot_data_page)
  have n: "3 \<le> card (frees s)" using s(3) by linarith
  have r: "0 < refcount (page_at s page)" "refcount (page_at s page) < 0xFFFFFFFF" by (simp_all add: s(6))
  have m: "mapping s pt 0x7FFF0000 = None" by (simp add: s(2))
  from map_unmap_roundtrip [OF s(1,4,5) m n r, of 0 3] s(2,6) show ?thesis by metis
qed

text \<open>
  When no frame is left for a missing table, \<open>map_page\<close> reports failure and leaves the state as it was, but
  \<open>map_paddr\<close> returns with \<open>paging_lock\<close> taken: from then on no CPU returns from mapping or unmapping
  anything.
\<close>
theorem map_paddr_leaks_lock:
  assumes "pt_inv s pt" and "frees s = {}" and "walk s (PHYS_TO_VIRT s pt) (vpath v) = None"
  shows "(page \<noteq> NULL \<longrightarrow> map_page me pt v page flags s = Some s) \<and>
    (\<exists>s'. map_paddr me pt v paddr flags s = Some s' \<and>
      (\<forall>cpu pt' v' page' paddr' flags'. pt' \<noteq> NULL \<and> page' \<noteq> NULL \<longrightarrow>
        map_page cpu pt' v' page' flags' s' = None \<and> map_paddr cpu pt' v' paddr' flags' s' = None \<and>
        unmap_page cpu pt' v' s' = None))"
proof -
  define w where "w = ALIGN_DOWN v PAGE_SIZE"
  have "vpath w = vpath v" using same_vpage [of w v] by (simp add: w_def vpage_align)
  then have nw: "walk s (PHYS_TO_VIRT s pt) (vpath w) = None" using assms(3) by simp
  have c: "pt_core s pt" and l: "lock_free (paging_lock s)" using assms(1) by (simp_all add: pt_inv_def)
  let ?s1 = "s\<lparr>paging_lock := (paging_lock s)\<lparr>locked := 1, owner := me\<rparr>\<rparr>"
  have c1: "pt_core ?s1 pt" "frees ?s1 = {}" using c assms(2) by simp_all
  have n1: "walk ?s1 (PHYS_TO_VIRT ?s1 pt) (vpath w) = None" using nw by simp
  have tf: "table_flags flags \<noteq> 0" by (simp add: table_flags_def)
  have le: "leaf_entry me (PHYS_TO_VIRT s pt) w (table_flags flags) ?s1 = Some (NULL, ?s1)"
    using leaf_entry_full [OF c1 tf n1, of me] by simp
  have pt0: "pt \<noteq> NULL" using c by (simp add: pt_core_def)
  have "map_page me pt v page flags s = Some s" if "page \<noteq> NULL"
    using that pt0 le l by (simp add: map_page_def acquire_paging_free w_def [symmetric] release_paging_def)
  moreover have "map_paddr me pt v paddr flags s = Some ?s1"
    using pt0 le l by (simp add: map_paddr_def acquire_paging_free w_def [symmetric])
  moreover have "locked (paging_lock ?s1) \<noteq> 0" by simp
  note taken_paging [OF this]
  ultimately show ?thesis by blast
qed

theorem map_paddr_leaks_lock_witness:
  "\<exists>(s :: paging) pt s'. pt_inv s pt \<and> map_page 0 pt 0x1000 0x40 3 s = Some s \<and> map_paddr 0 pt 0x1000 0x2000 3 s = Some s' \<and>
     map_page 1 pt 0x1000 0x40 3 s' = None \<and> unmap_page 1 pt 0x1000 s' = None"
proof -
  obtain s :: paging and pt where s: "pt_inv s pt" "mapping s pt = Map.empty" "14 \<le> card (frees s)"
    "\<forall>v. walk s (PHYS_TO_VIRT s pt) (vpath v) = None" by (rule boot_page_table [of "()"])
  from drain_frames [OF s(1)] obtain u where u: "pt_inv u pt" "frees u = {}" "same_tables s u" by blast
  have w: "walk u (PHYS_TO_VIRT u pt) (vpath 0x1000) = None" using s(4) same_tables_walk [OF u(3)] by simp
  have p: "pt \<noteq> NULL" using u(1) by (simp add: pt_inv_def pt_core_def)
  from map_paddr_leaks_lock [where page = "0x40" and me = "0" and flags = "3" and paddr = "0x2000", OF u(1,2) w] obtain s' where
    s': "map_page 0 pt 0x1000 0x40 3 u = Some u" "map_paddr 0 pt 0x1000 0x2000 3 u = Some s'"
    "\<forall>cpu pt' v' page' paddr' flags'. pt' \<noteq> NULL \<and> page' \<noteq> NULL \<longrightarrow>
        map_page cpu pt' v' page' flags' s' = None \<and> map_paddr cpu pt' v' paddr' flags' s' = None \<and>
        unmap_page cpu pt' v' s' = None"
    by auto
  from s'(3) p have "map_page 1 pt 0x1000 0x40 3 s' = None" "unmap_page 1 pt 0x1000 s' = None" by (simp_all add: exI [of _ 1])
  with s'(1,2) u(1) show ?thesis by blast
qed

end
