(* ===== verification/Vmm.thy ===== *)
theory Vmm
  imports Paging_Props Rbtree_Props
begin

text \<open>
  The virtual memory manager of \<^verbatim>\<open>mm/vmm.c\<close>: the areas of an address space in a red-black tree ordered by
  their base, on top of the page tables, the page allocator and the kernel heap, and the page-fault
  handler of \<^verbatim>\<open>mm/paging.c\<close>. The state extends that of paging by the areas, the tree nodes embedded in
  them and the address spaces, each by address, and by the globals of the file. \<^verbatim>\<open>vmm_dump\<close> only
  writes log messages and is not modelled.

  A tree node is the field \<^verbatim>\<open>rbn\<close> of an area, 40 bytes into it. A search key is an area on the stack;
  the model places it at address 0, where no area is.
\<close>

section \<open>State\<close>

record vma =
  vm_base :: u64
  vm_size :: u64
  vm_flags :: u32
  vnode_backing :: u64
  vnode_offset :: u64

record vmm =
  vmas_root :: u64
  vmas_size :: u64
  vmas_count :: u64
  pml4 :: u64
  vmm_flags :: u32
  mmap_base :: u64
  stack_top :: u64
  brk :: u64
  brk_base :: u64

record vmm_state = paging +
  vma_at :: "u64 \<Rightarrow> vma"
  rbn_at :: "u64 \<Rightarrow> rb_node"
  vmm_at :: "u64 \<Rightarrow> vmm"
  current_vmm :: u64
  kernel_vmm :: u64
  vmm_lock :: spinlock

abbreviation (input) VFLAG_PRESENT :: u32 where "VFLAG_PRESENT \<equiv> 0x1"
abbreviation (input) VFLAG_WRITABLE :: u32 where "VFLAG_WRITABLE \<equiv> 0x2"
abbreviation (input) VFLAG_USER :: u32 where "VFLAG_USER \<equiv> 0x4"
abbreviation (input) VFLAG_EXECUTABLE :: u32 where "VFLAG_EXECUTABLE \<equiv> 0x8"
abbreviation (input) VFLAG_LAZY :: u32 where "VFLAG_LAZY \<equiv> 0x10"
abbreviation (input) VFLAG_ALLOCATED :: u32 where "VFLAG_ALLOCATED \<equiv> 0x20"
abbreviation (input) VFLAG_SHARED :: u32 where "VFLAG_SHARED \<equiv> 0x40"
abbreviation (input) VFLAG_FIXED :: u32 where "VFLAG_FIXED \<equiv> 0x80"
abbreviation (input) VFLAG_MMIO :: u32 where "VFLAG_MMIO \<equiv> 0x200"
abbreviation (input) VMM_FLAG_OWNS_PML4 :: u32 where "VMM_FLAG_OWNS_PML4 \<equiv> 0x1"

abbreviation (input) VMM_USER_START :: u64 where "VMM_USER_START \<equiv> 0x1000"
abbreviation (input) VMM_MMAP_BASE :: u64 where "VMM_MMAP_BASE \<equiv> 0x0000700000000000"
abbreviation (input) VMM_STACK_TOP :: u64 where "VMM_STACK_TOP \<equiv> 0x00007FFFFFFFE000"

abbreviation (input) PF_PRESENT :: u64 where "PF_PRESENT \<equiv> 0x1"
abbreviation (input) PF_WRITE :: u64 where "PF_WRITE \<equiv> 0x2"
abbreviation (input) PF_USER :: u64 where "PF_USER \<equiv> 0x4"
abbreviation (input) PF_IFETCH :: u64 where "PF_IFETCH \<equiv> 0x8"

definition sizeof_vma :: u64 where "sizeof_vma = 72"
definition sizeof_vmm :: u64 where "sizeof_vmm = 80"

definition vflag :: "u32 \<Rightarrow> u32 \<Rightarrow> bool" where
  "vflag f m \<longleftrightarrow> f AND m \<noteq> 0"

definition upd_vma :: "u64 \<Rightarrow> (vma \<Rightarrow> vma) \<Rightarrow> 'b vmm_state_scheme \<Rightarrow> 'b vmm_state_scheme" where
  "upd_vma a f s = s\<lparr>vma_at := (vma_at s)(a := f (vma_at s a))\<rparr>"

definition upd_vmm :: "u64 \<Rightarrow> (vmm \<Rightarrow> vmm) \<Rightarrow> 'b vmm_state_scheme \<Rightarrow> 'b vmm_state_scheme" where
  "upd_vmm m f s = s\<lparr>vmm_at := (vmm_at s)(m := f (vmm_at s m))\<rparr>"

definition acquire_vmm :: "int \<Rightarrow> 'b vmm_state_scheme \<Rightarrow> 'b vmm_state_scheme option" where
  "acquire_vmm me s = map_option (\<lambda>l. s\<lparr>vmm_lock := l\<rparr>) (lock_acquire me (vmm_lock s))"

definition release_vmm :: "int \<Rightarrow> 'b vmm_state_scheme \<Rightarrow> 'b vmm_state_scheme" where
  "release_vmm me s = s\<lparr>vmm_lock := lock_release me (vmm_lock s)\<rparr>"

section \<open>Areas and their tree\<close>

text \<open>\<open>vma_of\<close> is \<^verbatim>\<open>containerof(node, vma_t, rbn)\<close>, \<open>rbn_of\<close> is \<^verbatim>\<open>&vma->rbn\<close>.\<close>

definition vma_of :: "u64 \<Rightarrow> u64" where "vma_of node = node - 40"
definition rbn_of :: "u64 \<Rightarrow> u64" where "rbn_of v = v + 40"

definition vma_cmp :: "(u64 \<Rightarrow> vma) \<Rightarrow> u64 \<Rightarrow> u64 \<Rightarrow> int" where
  "vma_cmp h a b =
     (let va = h (vma_of a); vb = h (vma_of b) in
      if vm_base va < vm_base vb then -1 else if vm_base vb < vm_base va then 1 else 0)"

definition tree_of :: "'b vmm_state_scheme \<Rightarrow> u64 \<Rightarrow> rb_tree" where
  "tree_of s m = \<lparr>rb_root = vmas_root (vmm_at s m), rb_size = vmas_size (vmm_at s m), rb_at = rbn_at s\<rparr>"

definition put_tree :: "u64 \<Rightarrow> rb_tree \<Rightarrow> 'b vmm_state_scheme \<Rightarrow> 'b vmm_state_scheme" where
  "put_tree m t s = (upd_vmm m (\<lambda>x. x\<lparr>vmas_root := rb_root t, vmas_size := rb_size t\<rparr>) s)\<lparr>rbn_at := rb_at t\<rparr>"

definition insert_vma :: "u64 \<Rightarrow> u64 \<Rightarrow> 'b vmm_state_scheme \<Rightarrow> (int \<times> 'b vmm_state_scheme) option" where
  "insert_vma m v s = do {
     (r, t) \<leftarrow> rb_insert (vma_cmp (vma_at s)) (rbn_of v) (tree_of s m);
     Some (r, put_tree m t s)}"

definition remove_vma :: "u64 \<Rightarrow> u64 \<Rightarrow> 'b vmm_state_scheme \<Rightarrow> 'b vmm_state_scheme option" where
  "remove_vma m v s = map_option (\<lambda>t. put_tree m t s) (rb_remove (rbn_of v) (tree_of s m))"

definition vflags_to_pflags :: "u32 \<Rightarrow> u64" where
  "vflags_to_pflags f =
     (if vflag f VFLAG_PRESENT then PFLAG_PRESENT else 0) OR (if vflag f VFLAG_WRITABLE then PFLAG_WRITE else 0) OR
     (if vflag f VFLAG_USER then PFLAG_USER else 0) OR (if \<not> vflag f VFLAG_EXECUTABLE then PFLAG_NX else 0) OR
     (if vflag f VFLAG_MMIO then PFLAG_PCD OR PFLAG_PWT else 0)"

definition zero_vma :: vma where
  "zero_vma = \<lparr>vm_base = 0, vm_size = 0, vm_flags = 0, vnode_backing = 0, vnode_offset = 0\<rparr>"

definition zero_node :: rb_node where
  "zero_node = \<lparr>rb_parent = 0, rb_left = 0, rb_right = 0, rb_colour = RB_BLACK\<rparr>"

definition vma_alloc :: "int \<Rightarrow> 'b vmm_state_scheme \<Rightarrow> (u64 \<times> 'b vmm_state_scheme) option" where
  "vma_alloc me s = do {
     (v, s1) \<leftarrow> kzalloc me sizeof_vma s;
     if v = NULL then Some (NULL, s1)
     else Some (v, (upd_vma v (\<lambda>_. zero_vma) s1)\<lparr>rbn_at := (rbn_at s1)(rbn_of v := zero_node)\<rparr>)}"

definition vma_free :: "int \<Rightarrow> u64 \<Rightarrow> 'b vmm_state_scheme \<Rightarrow> 'b vmm_state_scheme option" where
  "vma_free me v s = map_option snd (kfree me v s)"

definition vma_has :: "vma \<Rightarrow> u64 \<Rightarrow> bool" where
  "vma_has v va \<longleftrightarrow> vm_base v \<le> va \<and> va < vm_base v + vm_size v"

definition with_key :: "u64 \<Rightarrow> (u64 \<Rightarrow> vma) \<Rightarrow> u64 \<Rightarrow> vma" where
  "with_key va h = h(NULL := zero_vma\<lparr>vm_base := va\<rparr>)"

definition lower_vma :: "u64 \<Rightarrow> u64 \<Rightarrow> 'b vmm_state_scheme \<Rightarrow> u64 option" where
  "lower_vma m va s = rb_lower_bound (vma_cmp (with_key va (vma_at s))) (rbn_of NULL) (tree_of s m)"

definition find_vma :: "u64 \<Rightarrow> u64 \<Rightarrow> 'b vmm_state_scheme \<Rightarrow> u64 option" where
  "find_vma m va s = do {
     node \<leftarrow> lower_vma m va s;
     if node \<noteq> NULL
     then if vma_has (vma_at s (vma_of node)) va then Some (vma_of node)
          else do {
            prev \<leftarrow> rb_prev node (tree_of s m);
            if prev \<noteq> NULL \<and> vma_has (vma_at s (vma_of prev)) va then Some (vma_of prev) else Some NULL}
     else do {
       lst \<leftarrow> rb_last (tree_of s m);
       if lst \<noteq> NULL \<and> vma_has (vma_at s (vma_of lst)) va then Some (vma_of lst) else Some NULL}}"

definition find_vma_next :: "u64 \<Rightarrow> u64 \<Rightarrow> 'b vmm_state_scheme \<Rightarrow> u64 option" where
  "find_vma_next m va s = do {
     node \<leftarrow> lower_vma m va s;
     if node \<noteq> NULL then Some (vma_of node) else Some NULL}"

text \<open>The search for a gap below \<open>hint\<close>; the result 0 is failure.\<close>

partial_function (option) gap_loop :: "u64 \<Rightarrow> u64 \<Rightarrow> u64 \<Rightarrow> 'b vmm_state_scheme \<Rightarrow> u64 option" where
  "gap_loop m sz hint s =
     (if hint < VMM_USER_START + sz then Some 0
      else let candidate = (hint - sz) AND NOT (PAGE_SIZE - 1) in
        if candidate < VMM_USER_START then Some 0
        else do {
          o1 \<leftarrow> find_vma m candidate s;
          overlap \<leftarrow> (if o1 = NULL then find_vma m (candidate + sz - 1) s else Some o1);
          if overlap = NULL
          then do {
            next \<leftarrow> find_vma_next m candidate s;
            if next = NULL \<or> candidate + sz \<le> vm_base (vma_at s next) then Some candidate
            else gap_loop m sz (vm_base (vma_at s next)) s}
          else gap_loop m sz (vm_base (vma_at s overlap)) s})"

definition find_free_gap :: "u64 \<Rightarrow> u64 \<Rightarrow> 'b vmm_state_scheme \<Rightarrow> (u64 \<times> 'b vmm_state_scheme) option" where
  "find_free_gap m sz s = do {
     g \<leftarrow> gap_loop m sz (mmap_base (vmm_at s m)) s;
     if g = 0 then Some (0, s) else Some (g, upd_vmm m (\<lambda>x. x\<lparr>mmap_base := g\<rparr>) s)}"

definition range_overlaps :: "u64 \<Rightarrow> u64 \<Rightarrow> u64 \<Rightarrow> 'b vmm_state_scheme \<Rightarrow> bool option" where
  "range_overlaps m base sz s = do {
     v \<leftarrow> find_vma m base s;
     if v = NULL then Some False else Some (vm_base (vma_at s v) < base + sz)}"

section \<open>The pages of an area\<close>

fun allocate_loop :: "int \<Rightarrow> u64 \<Rightarrow> u64 \<Rightarrow> u64 \<Rightarrow> nat list \<Rightarrow> 'b vmm_state_scheme \<Rightarrow> (int \<times> 'b vmm_state_scheme) option" where
  "allocate_loop me pt base pflags [] s = Some (EOK, s)"
| "allocate_loop me pt base pflags (i # is) s = do {
     (page, s1) \<leftarrow> pmm_alloc_page me s;
     if page = NULL
     then do {
       s2 \<leftarrow> for_each (\<lambda>j. unmap_page me pt (base + of_nat j * PAGE_SIZE)) [0 ..< i] s1;
       Some (ENOMEM, s2)}
     else do {
       let s2 = zero_page (PHYS_TO_VIRT s1 (pfn_db_page_to_phys s1 page)) s1;
       s3 \<leftarrow> map_page me pt (base + of_nat i * PAGE_SIZE) page pflags s2;
       allocate_loop me pt base pflags is s3}}"

definition vma_allocate_pages :: "int \<Rightarrow> u64 \<Rightarrow> u64 \<Rightarrow> 'b vmm_state_scheme \<Rightarrow> (int \<times> 'b vmm_state_scheme) option" where
  "vma_allocate_pages me m v s =
     (let a = vma_at s v in
      if vm_size a mod PAGE_SIZE \<noteq> 0 then Some (-1, s)
      else do {
        (r, s1) \<leftarrow> allocate_loop me (pml4 (vmm_at s m)) (vm_base a) (vflags_to_pflags (vm_flags a))
                   [0 ..< unat (vm_size a div PAGE_SIZE)] s;
        if r \<noteq> EOK then Some (r, s1)
        else Some (EOK, upd_vma v (\<lambda>x. x\<lparr>vm_flags := vm_flags x OR VFLAG_ALLOCATED\<rparr>) s1)})"

definition vma_free_pages :: "int \<Rightarrow> u64 \<Rightarrow> u64 \<Rightarrow> 'b vmm_state_scheme \<Rightarrow> 'b vmm_state_scheme option" where
  "vma_free_pages me m v s =
     (let a = vma_at s v in
      if \<not> vflag (vm_flags a) VFLAG_ALLOCATED then Some s
      else if vm_size a mod PAGE_SIZE \<noteq> 0 then Some s
      else do {
        s1 \<leftarrow> for_each (\<lambda>i. unmap_page me (pml4 (vmm_at s m)) (vm_base a + of_nat i * PAGE_SIZE))
               [0 ..< unat (vm_size a div PAGE_SIZE)] s;
        Some (upd_vma v (\<lambda>x. x\<lparr>vm_flags := vm_flags x AND NOT VFLAG_ALLOCATED\<rparr>) s1)})"

section \<open>Address spaces\<close>

definition new_vmm :: vmm where
  "new_vmm = \<lparr>vmas_root = NULL, vmas_size = 0, vmas_count = 0, pml4 = 0, vmm_flags = 0, mmap_base = 0,
     stack_top = 0, brk = 0, brk_base = 0\<rparr>"

definition vmm_create :: "int \<Rightarrow> 'b vmm_state_scheme \<Rightarrow> (u64 \<times> 'b vmm_state_scheme) option" where
  "vmm_create me s = do {
     (m, s1) \<leftarrow> kzalloc me sizeof_vmm s;
     if m = NULL then Some (NULL, s1)
     else do {
       (pt, s2) \<leftarrow> pte_alloc me (upd_vmm m (\<lambda>_. new_vmm) s1);
       let s3 = upd_vmm m (\<lambda>x. x\<lparr>pml4 := pt, mmap_base := VMM_MMAP_BASE, stack_top := VMM_STACK_TOP,
                                   vmm_flags := VMM_FLAG_OWNS_PML4\<rparr>) s2;
       if pt = NULL then map_option (\<lambda>(_, t). (NULL, t)) (kfree me m s3) else Some (m, s3)}}"

definition vmm_switch :: "u64 \<Rightarrow> 'b vmm_state_scheme \<Rightarrow> 'b vmm_state_scheme" where
  "vmm_switch m s =
     (if m = NULL \<or> pml4 (vmm_at s m) = NULL then s
      else if m = current_vmm s then s
      else s\<lparr>current_vmm := m, cr3 := pml4 (vmm_at s m)\<rparr>)"

definition vmm_set_kernel :: "u64 \<Rightarrow> 'b vmm_state_scheme \<Rightarrow> 'b vmm_state_scheme" where
  "vmm_set_kernel m s = s\<lparr>kernel_vmm := m, current_vmm := m\<rparr>"

text \<open>The loop of \<^verbatim>\<open>vmm_destroy\<close>: \<^verbatim>\<open>rb_for_each_safe\<close> reads the next node before the body runs.\<close>

partial_function (option) destroy_loop :: "int \<Rightarrow> u64 \<Rightarrow> u64 \<Rightarrow> 'b vmm_state_scheme \<Rightarrow> 'b vmm_state_scheme option" where
  "destroy_loop me m node s =
     (if node = NULL then Some s
      else do {
        tmp \<leftarrow> rb_next node (tree_of s m);
        let v = vma_of node;
        s1 \<leftarrow> vma_free_pages me m v s;
        s2 \<leftarrow> remove_vma m v s1;
        s3 \<leftarrow> vma_free me v s2;
        destroy_loop me m tmp s3})"

definition vmm_destroy :: "int \<Rightarrow> u64 \<Rightarrow> 'b vmm_state_scheme \<Rightarrow> 'b vmm_state_scheme option" where
  "vmm_destroy me m s0 =
     (if m = NULL then Some s0
      else do {
        let s = (if m = current_vmm s0 then vmm_switch (kernel_vmm s0) s0 else s0);
        node \<leftarrow> rb_first (tree_of s m);
        s1 \<leftarrow> destroy_loop me m node s;
        s2 \<leftarrow> (if vflag (vmm_flags (vmm_at s1 m)) VMM_FLAG_OWNS_PML4 then pte_free me (pml4 (vmm_at s1 m)) s1
               else Some s1);
        map_option snd (kfree me m s2)})"

definition vmm_create_from_pml4 :: "int \<Rightarrow> u64 \<Rightarrow> 'b vmm_state_scheme \<Rightarrow> (u64 \<times> 'b vmm_state_scheme) option" where
  "vmm_create_from_pml4 me pt s = do {
     (m, s1) \<leftarrow> kzalloc me sizeof_vmm s;
     if m = NULL then Some (NULL, s1)
     else Some (m, upd_vmm m (\<lambda>_. new_vmm\<lparr>pml4 := pt, mmap_base := VMM_MMAP_BASE, stack_top := VMM_STACK_TOP\<rparr>) s1)}"

section \<open>Mapping, unmapping, protecting\<close>

text \<open>The part of \<^verbatim>\<open>vmm_map\<close> that picks the base, under the lock; 0 is failure.\<close>

definition choose_base :: "u64 \<Rightarrow> u64 \<Rightarrow> u64 \<Rightarrow> u32 \<Rightarrow> 'b vmm_state_scheme \<Rightarrow> (u64 option \<times> 'b vmm_state_scheme) option" where
  "choose_base m base0 sz flags s =
     (if base0 = 0 \<and> \<not> vflag flags VFLAG_FIXED
      then do { (g, s1) \<leftarrow> find_free_gap m sz s; Some (if g = 0 then None else Some g, s1) }
      else do {
        let base = ALIGN_DOWN base0 PAGE_SIZE;
        ov \<leftarrow> (if vflag flags VFLAG_FIXED then range_overlaps m base sz s else Some False);
        Some (if ov then None else Some base, s) })"

definition vmm_map :: "int \<Rightarrow> u64 \<Rightarrow> u64 \<Rightarrow> u64 \<Rightarrow> u32 \<Rightarrow> 'b vmm_state_scheme \<Rightarrow> (u64 \<times> 'b vmm_state_scheme) option" where
  "vmm_map me m base0 sz0 flags s0 =
     (if m = NULL \<or> sz0 = 0 then Some (0, s0)
      else do {
        let sz = ALIGN_UP sz0 PAGE_SIZE;
        s1 \<leftarrow> acquire_vmm me s0;
        (b, s2) \<leftarrow> choose_base m base0 sz flags s1;
        case b of None \<Rightarrow> Some (0, release_vmm me s2)
        | Some base \<Rightarrow> do {
            (v, s3) \<leftarrow> vma_alloc me s2;
            if v = NULL then Some (0, release_vmm me s3)
            else do {
              let s4 = upd_vma v (\<lambda>x. x\<lparr>vm_base := base, vm_size := sz, vm_flags := flags,
                                        vnode_backing := NULL, vnode_offset := 0\<rparr>) s3;
              (r, s5) \<leftarrow> (if \<not> vflag flags VFLAG_LAZY then vma_allocate_pages me m v s4 else Some (EOK, s4));
              if r \<noteq> EOK
              then do { s6 \<leftarrow> vma_free me v s5; Some (0, release_vmm me s6) }
              else do {
                (q, s6) \<leftarrow> insert_vma m v s5;
                if q \<noteq> 0
                then do {
                  s7 \<leftarrow> vma_free_pages me m v s6;
                  s8 \<leftarrow> vma_free me v s7;
                  Some (0, release_vmm me s8) }
                else Some (base, release_vmm me (upd_vmm m (\<lambda>x. x\<lparr>vmas_count := vmas_count x + 1\<rparr>) s6))}}}})"

definition vma_split :: "int \<Rightarrow> u64 \<Rightarrow> u64 \<Rightarrow> u64 \<Rightarrow> 'b vmm_state_scheme \<Rightarrow> (u64 \<times> 'b vmm_state_scheme) option" where
  "vma_split me m v split_addr s =
     (let a = vma_at s v in
      if split_addr \<le> vm_base a \<or> vm_base a + vm_size a \<le> split_addr then Some (NULL, s)
      else do {
        (w, s1) \<leftarrow> vma_alloc me s;
        if w = NULL then Some (NULL, s1)
        else do {
          let a1 = vma_at s1 v;
          let s2 = upd_vma w (\<lambda>x. x\<lparr>vm_base := split_addr, vm_size := vm_base a1 + vm_size a1 - split_addr,
                                    vm_flags := vm_flags a1, vnode_backing := NULL, vnode_offset := 0\<rparr>) s1;
          let s3 = upd_vma v (\<lambda>x. x\<lparr>vm_size := split_addr - vm_base x\<rparr>) s2;
          (r, s4) \<leftarrow> insert_vma m w s3;
          if r \<noteq> 0 then do { s5 \<leftarrow> vma_free me w s4; Some (NULL, s5) }
          else Some (w, upd_vmm m (\<lambda>x. x\<lparr>vmas_count := vmas_count x + 1\<rparr>) s4)}})"

partial_function (option) unmap_loop ::
  "int \<Rightarrow> u64 \<Rightarrow> u64 \<Rightarrow> u64 \<Rightarrow> u64 \<Rightarrow> 'b vmm_state_scheme \<Rightarrow> 'b vmm_state_scheme option" where
  "unmap_loop me m base fin node s =
     (if node = NULL then Some s
      else do {
        let v = vma_of node;
        next \<leftarrow> rb_next node (tree_of s m);
        let a = vma_at s v;
        if base \<le> vm_base a \<and> vm_base a + vm_size a \<le> fin
        then do {
          s1 \<leftarrow> vma_free_pages me m v s;
          s2 \<leftarrow> remove_vma m v s1;
          s3 \<leftarrow> vma_free me v s2;
          unmap_loop me m base fin next (upd_vmm m (\<lambda>x. x\<lparr>vmas_count := vmas_count x - 1\<rparr>) s3)}
        else if fin \<le> vm_base a then Some s
        else unmap_loop me m base fin next s})"

definition vmm_unmap :: "int \<Rightarrow> u64 \<Rightarrow> u64 \<Rightarrow> u64 \<Rightarrow> 'b vmm_state_scheme \<Rightarrow> (int \<times> 'b vmm_state_scheme) option" where
  "vmm_unmap me m base0 sz0 s0 =
     (if m = NULL \<or> sz0 = 0 then Some (- EINVAL, s0)
      else do {
        let base = ALIGN_DOWN base0 PAGE_SIZE;
        let sz = ALIGN_UP sz0 PAGE_SIZE;
        let fin = base + sz;
        s1 \<leftarrow> acquire_vmm me s0;
        first \<leftarrow> find_vma m base s1;
        (ok1, s2) \<leftarrow> (if first \<noteq> NULL \<and> vm_base (vma_at s1 first) < base
                      then map_option (\<lambda>(w, t). (w \<noteq> NULL, t)) (vma_split me m first base s1) else Some (True, s1));
        if \<not> ok1 then Some (- ENOMEM, release_vmm me s2)
        else do {
          lst \<leftarrow> find_vma m (fin - 1) s2;
          (ok2, s3) \<leftarrow> (if lst \<noteq> NULL \<and> vm_base (vma_at s2 lst) + vm_size (vma_at s2 lst) < fin
                      then map_option (\<lambda>(w, t). (w \<noteq> NULL, t)) (vma_split me m lst fin s2) else Some (True, s2));
          if \<not> ok2 then Some (- ENOMEM, release_vmm me s3)
          else do {
            node \<leftarrow> rb_first (tree_of s3 m);
            s4 \<leftarrow> unmap_loop me m base fin node s3;
            Some (0, release_vmm me s4)}}})"

text \<open>The loop of \<^verbatim>\<open>vmm_protect\<close>. An area found again after a split is used without a check; going through
  a null pointer is \<open>None\<close>.\<close>

definition protect_page :: "int \<Rightarrow> u64 \<Rightarrow> u64 \<Rightarrow> u64 \<Rightarrow> 'b vmm_state_scheme \<Rightarrow> 'b vmm_state_scheme option" where
  "protect_page me pt va pflags s = do {
     (pa, s1) \<leftarrow> get_paddr me pt va s;
     if pa = 0 then Some s1
     else let page = pfn_db_phys_to_page s1 pa in
       if page = NULL then Some s1
       else do { s2 \<leftarrow> unmap_page me pt va s1; map_page me pt va page pflags s2 }}"

definition preserve :: u32 where
  "preserve = (VFLAG_ALLOCATED OR VFLAG_LAZY) OR VFLAG_PRESENT"

definition protect_area :: "int \<Rightarrow> u64 \<Rightarrow> u64 \<Rightarrow> u32 \<Rightarrow> 'b vmm_state_scheme \<Rightarrow> 'b vmm_state_scheme option" where
  "protect_area me m v new_flags s =
     (let s1 = upd_vma v (\<lambda>x. x\<lparr>vm_flags := (vm_flags x AND preserve) OR (new_flags AND NOT preserve)\<rparr>) s;
          a = vma_at s1 v
      in if vflag (vm_flags a) VFLAG_ALLOCATED
         then for_each (\<lambda>i. protect_page me (pml4 (vmm_at s1 m)) (vm_base a + of_nat i * PAGE_SIZE)
                              (vflags_to_pflags (vm_flags a))) [0 ..< unat (vm_size a div PAGE_SIZE)] s1
         else Some s1)"

partial_function (option) protect_loop ::
  "int \<Rightarrow> u64 \<Rightarrow> u64 \<Rightarrow> u64 \<Rightarrow> u32 \<Rightarrow> 'b vmm_state_scheme \<Rightarrow> (int \<times> 'b vmm_state_scheme) option" where
  "protect_loop me m va fin new_flags s =
     (if \<not> va < fin then Some (0, s)
      else do {
        v0 \<leftarrow> find_vma m va s;
        if v0 = NULL then Some (- EINVAL, s)
        else do {
          (ok1, s1) \<leftarrow> (if vm_base (vma_at s v0) < va
                        then map_option (\<lambda>(w, t). (w \<noteq> NULL, t)) (vma_split me m v0 va s) else Some (True, s));
          if \<not> ok1 then Some (- ENOMEM, s1)
          else do {
            v \<leftarrow> (if vm_base (vma_at s v0) < va then find_vma m va s1 else Some v0);
            if v = NULL then None
            else do {
              (ok2, s2) \<leftarrow> (if fin < vm_base (vma_at s1 v) + vm_size (vma_at s1 v)
                            then map_option (\<lambda>(w, t). (w \<noteq> NULL, t)) (vma_split me m v fin s1) else Some (True, s1));
              if \<not> ok2 then Some (- ENOMEM, s2)
              else do {
                s3 \<leftarrow> protect_area me m v new_flags s2;
                protect_loop me m (vm_base (vma_at s3 v) + vm_size (vma_at s3 v)) fin new_flags s3}}}}})"

definition vmm_protect :: "int \<Rightarrow> u64 \<Rightarrow> u64 \<Rightarrow> u64 \<Rightarrow> u32 \<Rightarrow> 'b vmm_state_scheme \<Rightarrow> (int \<times> 'b vmm_state_scheme) option" where
  "vmm_protect me m base0 sz0 new_flags s0 =
     (if m = NULL \<or> sz0 = 0 then Some (- EINVAL, s0)
      else do {
        let base = ALIGN_DOWN base0 PAGE_SIZE;
        let sz = ALIGN_UP sz0 PAGE_SIZE;
        s1 \<leftarrow> acquire_vmm me s0;
        (r, s2) \<leftarrow> protect_loop me m base (base + sz) new_flags s1;
        Some (r, release_vmm me s2)})"

text \<open>\<^verbatim>\<open>vmm_brk\<close> calls \<^verbatim>\<open>vmm_map\<close> and \<^verbatim>\<open>vmm_unmap\<close> with the lock taken, and does not release it on these paths.\<close>

definition vmm_brk :: "int \<Rightarrow> u64 \<Rightarrow> u64 \<Rightarrow> 'b vmm_state_scheme \<Rightarrow> (u64 \<times> 'b vmm_state_scheme) option" where
  "vmm_brk me m new_brk0 s0 =
     (if m = NULL then Some (0, s0)
      else let new_brk = ALIGN_UP new_brk0 PAGE_SIZE in
        if new_brk < brk_base (vmm_at s0 m) then Some (brk_base (vmm_at s0 m), s0)
        else do {
          s1 \<leftarrow> acquire_vmm me s0;
          let b = brk (vmm_at s1 m);
          if b < new_brk
          then do {
            (got, s2) \<leftarrow> vmm_map me m b (new_brk - b) ((VFLAG_PRESENT OR VFLAG_WRITABLE) OR VFLAG_USER) s1;
            if got = 0 then Some (brk (vmm_at s2 m), s2)
            else Some (new_brk, upd_vmm m (\<lambda>x. x\<lparr>brk := new_brk\<rparr>) s2)}
          else if new_brk < b
          then do {
            (r, s2) \<leftarrow> vmm_unmap me m new_brk (b - new_brk) s1;
            if r \<noteq> 0 then Some (brk (vmm_at s2 m), s2)
            else Some (new_brk, upd_vmm m (\<lambda>x. x\<lparr>brk := new_brk\<rparr>) s2)}
          else let s2 = release_vmm me s1 in Some (brk (vmm_at s2 m), s2)})"

definition vmm_find :: "u64 \<Rightarrow> u64 \<Rightarrow> 'b vmm_state_scheme \<Rightarrow> u64 option" where
  "vmm_find m va s = (if m = NULL then Some NULL else find_vma m va s)"

definition vmm_find_next :: "u64 \<Rightarrow> u64 \<Rightarrow> 'b vmm_state_scheme \<Rightarrow> u64 option" where
  "vmm_find_next m va s = (if m = NULL then Some NULL else find_vma_next m va s)"

partial_function (option) access_loop :: "u64 \<Rightarrow> u32 \<Rightarrow> u64 \<Rightarrow> u64 \<Rightarrow> 'b vmm_state_scheme \<Rightarrow> int option" where
  "access_loop m access va fin s =
     (if \<not> va < fin then Some 1
      else do {
        v \<leftarrow> find_vma m va s;
        if v = NULL then Some 0
        else if vm_flags (vma_at s v) AND access \<noteq> access then Some 0
        else access_loop m access (vm_base (vma_at s v) + vm_size (vma_at s v)) fin s})"

definition vmm_is_accessible :: "u64 \<Rightarrow> u64 \<Rightarrow> u64 \<Rightarrow> u32 \<Rightarrow> 'b vmm_state_scheme \<Rightarrow> int option" where
  "vmm_is_accessible m base sz access s =
     (if m = NULL \<or> sz = 0 then Some 0
      else access_loop m access (ALIGN_DOWN base PAGE_SIZE) (ALIGN_UP (base + sz) PAGE_SIZE) s)"

section \<open>Page faults\<close>

text \<open>The two ways in which a fault is repaired: a fresh zeroed page, and copy on write.\<close>

definition lazy_fault :: "int \<Rightarrow> u64 \<Rightarrow> u64 \<Rightarrow> u64 \<Rightarrow> 'b vmm_state_scheme \<Rightarrow> (int \<times> 'b vmm_state_scheme) option" where
  "lazy_fault me m v fault_page s =
     (if \<not> vflag (vm_flags (vma_at s v)) VFLAG_LAZY then Some (- EFAULT, s)
      else do {
        (page, s1) \<leftarrow> pmm_alloc_page me s;
        if page = NULL then Some (- ENOMEM, s1)
        else do {
          let s2 = zero_page (PHYS_TO_VIRT s1 (pfn_db_page_to_phys s1 page)) s1;
          s3 \<leftarrow> map_page me (pml4 (vmm_at s2 m)) fault_page page (vflags_to_pflags (vm_flags (vma_at s2 v))) s2;
          Some (EOK, s3)}})"

definition cow_fault :: "int \<Rightarrow> u64 \<Rightarrow> u64 \<Rightarrow> u64 \<Rightarrow> u64 \<Rightarrow> 'b vmm_state_scheme \<Rightarrow> (int \<times> 'b vmm_state_scheme) option" where
  "cow_fault me m v fault_page pa s =
     (let old_page = pfn_db_phys_to_page s pa in
      if old_page = NULL \<or> \<not> is_page_cow (page_at s old_page) then Some (- EFAULT, s)
      else if u2 (page_at s old_page) \<le> 1
      then do {
        (_, s1) \<leftarrow> pmm_page_clear_cow me old_page s;
        s2 \<leftarrow> map_page me (pml4 (vmm_at s1 m)) fault_page old_page (vflags_to_pflags (vm_flags (vma_at s1 v))) s1;
        Some (EOK, s2)}
      else do {
        (new_page, s1) \<leftarrow> pmm_alloc_page me s;
        if new_page = NULL then Some (- ENOMEM, s1)
        else do {
          let new_virt = PHYS_TO_VIRT s1 (pfn_db_page_to_phys s1 new_page);
          let s2 = zero_page new_virt s1;
          let s3 = s2\<lparr>heap_mem := memcpy (heap_mem s2) new_virt (PHYS_TO_VIRT s2 pa) PAGE_SIZE\<rparr>;
          (_, s4) \<leftarrow> pmm_page_unshare me old_page s3;
          (_, s5) \<leftarrow> pmm_page_release me old_page s4;
          s6 \<leftarrow> map_page me (pml4 (vmm_at s5 m)) fault_page new_page (vflags_to_pflags (vm_flags (vma_at s5 v))) s5;
          Some (EOK, s6)}})"

definition vmm_pf_handler :: "int \<Rightarrow> u64 \<Rightarrow> u64 \<Rightarrow> u64 \<Rightarrow> 'b vmm_state_scheme \<Rightarrow> (int \<times> 'b vmm_state_scheme) option" where
  "vmm_pf_handler me m fault_addr error_code s =
     (if m = NULL then Some (- EINVAL, s)
      else do {
        let fault_page = ALIGN_DOWN fault_addr PAGE_SIZE;
        v \<leftarrow> find_vma m fault_page s;
        if v = NULL then Some (- EFAULT, s)
        else let f = vm_flags (vma_at s v); is_write = (error_code AND PF_WRITE \<noteq> 0) in
        if is_write \<and> \<not> vflag f VFLAG_WRITABLE then Some (- EFAULT, s)
        else if error_code AND PF_USER \<noteq> 0 \<and> \<not> vflag f VFLAG_USER then Some (- EFAULT, s)
        else if error_code AND PF_IFETCH \<noteq> 0 \<and> \<not> vflag f VFLAG_EXECUTABLE then Some (- EFAULT, s)
        else do {
          (pa, s1) \<leftarrow> get_paddr me (pml4 (vmm_at s m)) fault_page s;
          if pa = 0 then lazy_fault me m v fault_page s1
          else if is_write \<and> error_code AND PF_PRESENT \<noteq> 0 then cow_fault me m v fault_page pa s1
          else Some (EFAULT, s1)}})"

text \<open>\<^verbatim>\<open>pf_handler\<close> of \<^verbatim>\<open>mm/paging.c\<close>: an unhandled fault halts the machine.\<close>

definition pf_handler :: "int \<Rightarrow> u64 \<Rightarrow> u64 \<Rightarrow> 'b vmm_state_scheme \<Rightarrow> 'b vmm_state_scheme option" where
  "pf_handler me cr2 error s = do {
     (r, s1) \<leftarrow> vmm_pf_handler me (current_vmm s) cr2 error s;
     if r \<noteq> EOK then None else Some s1}"

section \<open>Fork\<close>

definition fork_page :: "int \<Rightarrow> bool \<Rightarrow> u64 \<Rightarrow> u64 \<Rightarrow> u64 \<Rightarrow> u64 \<Rightarrow> 'b vmm_state_scheme \<Rightarrow> 'b vmm_state_scheme option" where
  "fork_page me shared ppt cpt va pflags s = do {
     (pa, s1) \<leftarrow> get_paddr me ppt va s;
     if pa = 0 then Some s1
     else let page = pfn_db_phys_to_page s1 pa in
       if page = NULL then Some s1
       else do {
         (_, s2) \<leftarrow> (if shared then Some ((), s1) else pmm_page_mark_cow me page s1);
         (_, s3) \<leftarrow> pmm_page_share me page s2;
         (_, s4) \<leftarrow> pmm_page_retain me page s3;
         s5 \<leftarrow> map_page me cpt va page pflags s4;
         if shared then Some s5 else map_page me ppt va page pflags s5}}"

definition fork_area :: "int \<Rightarrow> u64 \<Rightarrow> u64 \<Rightarrow> vma \<Rightarrow> 'b vmm_state_scheme \<Rightarrow> 'b vmm_state_scheme option" where
  "fork_area me parent chld a s =
     (let pages = [0 ..< unat (vm_size a div PAGE_SIZE)]; pf = vflags_to_pflags (vm_flags a);
          ppt = pml4 (vmm_at s parent); cpt = pml4 (vmm_at s chld)
      in if vflag (vm_flags a) VFLAG_SHARED
         then for_each (\<lambda>i. fork_page me True ppt cpt (vm_base a + of_nat i * PAGE_SIZE) pf) pages s
         else if vflag (vm_flags a) VFLAG_ALLOCATED
         then for_each (\<lambda>i. fork_page me False ppt cpt (vm_base a + of_nat i * PAGE_SIZE) (pf AND NOT PFLAG_WRITE)) pages s
         else Some s)"

partial_function (option) fork_loop ::
  "int \<Rightarrow> u64 \<Rightarrow> u64 \<Rightarrow> u64 \<Rightarrow> 'b vmm_state_scheme \<Rightarrow> (bool \<times> 'b vmm_state_scheme) option" where
  "fork_loop me parent chld node s =
     (if node = NULL then Some (True, s)
      else do {
        (w, s1) \<leftarrow> vma_alloc me s;
        if w = NULL then do { s2 \<leftarrow> vmm_destroy me chld s1; Some (False, s2) }
        else do {
          let a = vma_at s1 (vma_of node);
          let s2 = upd_vma w (\<lambda>x. a) s1;
          s3 \<leftarrow> fork_area me parent chld a s2;
          (_, s4) \<leftarrow> insert_vma chld w s3;
          let s5 = upd_vmm chld (\<lambda>x. x\<lparr>vmas_count := vmas_count x + 1\<rparr>) s4;
          next \<leftarrow> rb_next node (tree_of s5 parent);
          fork_loop me parent chld next s5}})"

definition vmm_fork :: "int \<Rightarrow> u64 \<Rightarrow> 'b vmm_state_scheme \<Rightarrow> (u64 \<times> 'b vmm_state_scheme) option" where
  "vmm_fork me parent s0 =
     (if parent = NULL then Some (NULL, s0)
      else do {
        (chld, s1) \<leftarrow> vmm_create me s0;
        if chld = NULL then Some (NULL, s1)
        else do {
          s2 \<leftarrow> acquire_vmm me s1;
          node \<leftarrow> rb_first (tree_of s2 parent);
          (ok, s3) \<leftarrow> fork_loop me parent chld node s2;
          if \<not> ok then Some (NULL, release_vmm me s3)
          else let p = vmm_at s3 parent in
            Some (chld, release_vmm me (upd_vmm chld (\<lambda>x. x\<lparr>mmap_base := mmap_base p, stack_top := stack_top p,
                                                              brk := brk p, brk_base := brk_base p\<rparr>) s3))}})"

end
