(* ===== verification/Vmm_Areas.thy ===== *)
theory Vmm_Areas
  imports Vmm
begin

text \<open>
  The areas of an address space: \<open>vm_rel s m vs\<close> says that the tree of the address space \<open>m\<close> links the
  areas \<open>vs\<close>, in the order of their addresses, and that these do not overlap. The searches of
  \<^verbatim>\<open>mm/vmm.c\<close> are shown to agree with that list.
\<close>

section \<open>The abstract view\<close>

definition fin :: "vma \<Rightarrow> nat" where
  "fin a = unat (vm_base a) + unat (vm_size a)"

definition area_ok :: "vma \<Rightarrow> bool" where
  "area_ok a \<longleftrightarrow> 0 < vm_size a \<and> fin a < 2 ^ 64"

definition areas_ok :: "vma list \<Rightarrow> bool" where
  "areas_ok as \<longleftrightarrow> (\<forall>a \<in> set as. area_ok a) \<and> sorted_wrt (\<lambda>a b. fin a \<le> unat (vm_base b)) as"

definition vm_rel :: "'b vmm_state_scheme \<Rightarrow> u64 \<Rightarrow> u64 list \<Rightarrow> bool" where
  "vm_rel s m vs \<longleftrightarrow> rb_list (tree_of s m) (map rbn_of vs) \<and> NULL \<notin> set vs \<and> areas_ok (map (vma_at s) vs)"

abbreviation covers :: "'b vmm_state_scheme \<Rightarrow> u64 \<Rightarrow> u64 \<Rightarrow> bool" where
  "covers s va v \<equiv> vma_has (vma_at s v) va"

lemma vma_node [simp]: "vma_of (rbn_of v) = v" "rbn_of (vma_of n) = n" "rbn_of v = rbn_of w \<longleftrightarrow> v = w"
  by (simp_all add: vma_of_def rbn_of_def)

lemma unat_fin: "area_ok a \<Longrightarrow> unat (vm_base a + vm_size a) = fin a"
  by (simp add: area_ok_def fin_def unat_add_no_wrap)

lemma vma_has_iff: "area_ok a \<Longrightarrow> vma_has a va \<longleftrightarrow> unat (vm_base a) \<le> unat va \<and> unat va < fin a"
  by (simp add: vma_has_def word_le_nat_alt word_less_nat_alt unat_fin)

lemma area_ok_less: "area_ok a \<Longrightarrow> unat (vm_base a) < fin a"
  by (simp add: area_ok_def fin_def word_less_nat_alt)

text \<open>The order of the tree is the order of the bases.\<close>

interpretation vma_order: comparator "vma_cmp h" "\<lambda>n. unat (vm_base (h (vma_of n)))" for h
  by unfold_locales (auto simp: vma_cmp_def Let_def word_less_nat_alt)

lemma by_key_nodes: "by_key (\<lambda>n. unat (vm_base (h (vma_of n)))) (map rbn_of vs)" if "areas_ok (map h vs)"
proof -
  have "sorted_wrt (\<lambda>a b. unat (vm_base (h a)) < unat (vm_base (h b))) vs"
  proof (rule sorted_wrt_mono_rel)
    show "sorted_wrt (\<lambda>a b. fin (h a) \<le> unat (vm_base (h b))) vs" using that by (simp add: areas_ok_def sorted_wrt_map)
    fix a b assume "a \<in> set vs" "fin (h a) \<le> unat (vm_base (h b))"
    moreover have "area_ok (h a)" using that \<open>a \<in> set vs\<close> by (simp add: areas_ok_def)
    ultimately show "unat (vm_base (h a)) < unat (vm_base (h b))" using area_ok_less by (meson less_le_trans)
  qed
  then show ?thesis by (simp add: by_key_def sorted_wrt_map)
qed

section \<open>Searching\<close>

lemma lower_vma_find:
  assumes r: "vm_rel s m vs"
  shows "lower_vma m va s = Some (or_null (map_option rbn_of (find (\<lambda>v. va \<le> vm_base (vma_at s v)) vs)))"
proof -
  let ?h = "with_key va (vma_at s)"
  have n: "NULL \<notin> set vs" and l: "rb_list (tree_of s m) (map rbn_of vs)" and a: "areas_ok (map (vma_at s) vs)"
    using r by (simp_all add: vm_rel_def)
  have e: "map ?h vs = map (vma_at s) vs" using n by (auto simp: with_key_def)
  have k: "by_key (\<lambda>n. unat (vm_base (?h (vma_of n)))) (map rbn_of vs)" by (rule by_key_nodes) (simp add: e a)
  have "find (\<lambda>n. unat (vm_base (?h (vma_of (rbn_of NULL)))) \<le> unat (vm_base (?h (vma_of n)))) (map rbn_of vs) =
      map_option rbn_of (find (\<lambda>v. va \<le> vm_base (vma_at s v)) vs)"
    using n by (induction vs) (auto simp: with_key_def word_le_nat_alt)
  then show ?thesis unfolding lower_vma_def vma_order.rb_search_list(2) [OF l k] by simp
qed

text \<open>Where an address falls: the areas below it, of which only the last can cover it, and those above.\<close>

lemma split_areas:
  assumes "areas_ok (map h vs)"
  obtains as bs where "vs = as @ bs" and "\<forall>v \<in> set as. vm_base (h v) < va" and "find (\<lambda>v. va \<le> vm_base (h v)) vs = find (\<lambda>_. True) bs"
    and "\<forall>v \<in> set (butlast as). \<not> vma_has (h v) va" and "\<forall>v \<in> set (tl bs). \<not> vma_has (h v) va"
    and "bs \<noteq> [] \<Longrightarrow> vma_has (h (hd bs)) va \<Longrightarrow> \<forall>v \<in> set as. \<not> vma_has (h v) va"
proof -
  let ?P = "\<lambda>v. vm_base (h v) < va"
  obtain AS BS where d: "AS = takeWhile ?P vs" "BS = dropWhile ?P vs" by blast
  have vs: "vs = AS @ BS" by (simp add: d)
  have ok: "area_ok (h v)" if "v \<in> set vs" for v using assms that by (simp add: areas_ok_def)
  have sw: "sorted_wrt (\<lambda>v w. fin (h v) \<le> unat (vm_base (h w))) (AS @ BS)"
    using assms unfolding vs [symmetric] by (simp add: areas_ok_def sorted_wrt_map)
  have as: "\<forall>v \<in> set AS. ?P v" by (auto simp: d dest: set_takeWhileD)
  have hd: "va \<le> vm_base (h (hd BS))" if "BS \<noteq> []" using hd_dropWhile [of ?P vs] that by (simp add: d)
  have in_as: "v \<in> set vs" if "v \<in> set AS" for v using that vs by simp
  have in_bs: "v \<in> set vs" if "v \<in> set BS" for v using that vs by simp
  show ?thesis
  proof (rule that [OF vs as])
    show "find (\<lambda>v. va \<le> vm_base (h v)) vs = find (\<lambda>_. True) BS"
      unfolding d by (induction vs) (auto simp: not_less)
    show "\<forall>v \<in> set (butlast AS). \<not> vma_has (h v) va"
    proof (cases "AS = []")
      case False
      then have sp: "AS = butlast AS @ [last AS]" by simp
      have "sorted_wrt (\<lambda>v w. fin (h v) \<le> unat (vm_base (h w))) (butlast AS @ [last AS])"
        using sw unfolding sp [symmetric] by (simp add: sorted_wrt_append)
      then have "\<forall>v \<in> set (butlast AS). fin (h v) \<le> unat (vm_base (h (last AS)))" by (simp add: sorted_wrt_append)
      moreover have "vm_base (h (last AS)) < va" using as False last_in_set by blast
      ultimately show ?thesis
        using ok in_as in_set_butlastD [of _ AS] by (fastforce simp: vma_has_iff word_less_nat_alt)
    qed simp
    show "\<forall>v \<in> set (tl BS). \<not> vma_has (h v) va"
    proof (cases "BS = []")
      case False
      then have sp: "BS = hd BS # tl BS" by simp
      have "sorted_wrt (\<lambda>v w. fin (h v) \<le> unat (vm_base (h w))) (hd BS # tl BS)"
        using sw unfolding sp [symmetric] by (simp add: sorted_wrt_append)
      then have "\<forall>v \<in> set (tl BS). fin (h (hd BS)) \<le> unat (vm_base (h v))" by simp
      moreover have "unat va < fin (h (hd BS))"
        using hd [OF False] area_ok_less [OF ok [OF in_bs [OF hd_in_set [OF False]]]] by (simp add: word_le_nat_alt)
      ultimately show ?thesis
        using ok in_bs list.set_sel(2) [OF False] by (fastforce simp: vma_has_iff)
    next
      case True
      show ?thesis unfolding True by simp
    qed
    show "\<forall>v \<in> set AS. \<not> vma_has (h v) va" if "BS \<noteq> []" "vma_has (h (hd BS)) va"
    proof -
      have sp: "BS = hd BS # tl BS" using that(1) by simp
      have "\<forall>v \<in> set AS. fin (h v) \<le> unat (vm_base (h (hd BS)))"
        using sw that(1) by (auto simp: sorted_wrt_append)
      moreover have "unat (vm_base (h (hd BS))) \<le> unat va"
        using that(2) ok [OF in_bs [OF hd_in_set [OF that(1)]]] by (simp add: vma_has_iff)
      ultimately show ?thesis using ok in_as by (fastforce simp: vma_has_iff)
    qed
  qed
qed

lemma find_none: "find P xs = None" if "\<forall>x \<in> set xs. \<not> P x"
  using that by (simp add: find_None_iff)

lemma find_last:
  assumes "\<forall>x \<in> set (butlast xs). \<not> P x" and "\<forall>y \<in> set ys. \<not> P y"
  shows "find P (xs @ ys) = (if xs \<noteq> [] \<and> P (last xs) then Some (last xs) else None)"
proof (cases "xs = []")
  case False
  then have xs: "xs = butlast xs @ [last xs]" by simp
  have "find P (butlast xs @ [last xs]) = (if P (last xs) then Some (last xs) else None)"
    using find_none [OF assms(1)] by (simp add: find_append)
  with xs False find_none [OF assms(2)] show ?thesis by (simp add: find_append)
qed (use find_none [OF assms(2)] in simp)

lemma first_of_rev: "first_of (rev (map f xs)) = (if xs = [] then NULL else f (last xs))"
  by (cases xs rule: rev_cases) simp_all

lemma find_vma_list:
  assumes r: "vm_rel s m vs"
  shows "find_vma m va s = Some (or_null (find (covers s va) vs))"
proof -
  have l: "rb_list (tree_of s m) (map rbn_of vs)" and a: "areas_ok (map (vma_at s) vs)" using r by (simp_all add: vm_rel_def)
  obtain as bs where vs: "vs = as @ bs" and lo: "find (\<lambda>v. va \<le> vm_base (vma_at s v)) vs = find (\<lambda>_. True) bs"
    and na: "\<forall>v \<in> set (butlast as). \<not> covers s va v" and nb: "\<forall>v \<in> set (tl bs). \<not> covers s va v"
    and one: "bs \<noteq> [] \<Longrightarrow> covers s va (hd bs) \<Longrightarrow> \<forall>v \<in> set as. \<not> covers s va v"
    by (rule split_areas [OF a, of va]) (rule that, assumption+)
  have nn: "rbn_of v \<noteq> NULL" if "v \<in> set vs" for v using rb_list_distinct [OF l] that by force
  show ?thesis
  proof (cases bs)
    case Nil
    have "lower_vma m va s = Some NULL" unfolding lower_vma_find [OF r] lo Nil by (simp add: or_null_def)
    moreover have "rb_last (tree_of s m) = Some (if as = [] then NULL else rbn_of (last as))"
      using rb_last_list [OF l] first_of_rev [of rbn_of as] vs Nil by simp
    moreover have "find (covers s va) vs = (if as \<noteq> [] \<and> covers s va (last as) then Some (last as) else None)"
      using find_last [of as "covers s va" "[]", OF na] vs Nil by simp
    moreover have "as \<noteq> [] \<Longrightarrow> rbn_of (last as) \<noteq> NULL" using nn vs by simp
    ultimately show ?thesis by (cases "as = []") (simp_all add: find_vma_def or_null_def)
  next
    case (Cons b cs)
    have lw: "lower_vma m va s = Some (rbn_of b)" unfolding lower_vma_find [OF r] lo Cons by (simp add: or_null_def)
    have bn: "rbn_of b \<noteq> NULL" using nn vs Cons by simp
    show ?thesis
    proof (cases "covers s va b")
      case True
      then have "find (covers s va) vs = Some b" using find_none [of as "covers s va"] one vs Cons by (simp add: find_append)
      with True lw bn show ?thesis by (simp add: find_vma_def or_null_def)
    next
      case False
      have pv: "rb_prev (rbn_of b) (tree_of s m) = Some (if as = [] then NULL else rbn_of (last as))"
        using rb_neighbours_list(2) [of "tree_of s m" "map rbn_of as" "rbn_of b" "map rbn_of cs"] l first_of_rev [of rbn_of as] vs Cons by simp
      have "\<forall>v \<in> set bs. \<not> covers s va v" using nb False Cons by auto
      then have "find (covers s va) vs = (if as \<noteq> [] \<and> covers s va (last as) then Some (last as) else None)"
        using find_last [OF na] vs by simp
      moreover have "as \<noteq> [] \<Longrightarrow> rbn_of (last as) \<noteq> NULL" using nn vs by simp
      ultimately show ?thesis using False lw bn pv by (cases "as = []") (simp_all add: find_vma_def or_null_def)
    qed
  qed
qed

lemma find_vma_next_list:
  assumes r: "vm_rel s m vs"
  shows "find_vma_next m va s = Some (or_null (find (\<lambda>v. va \<le> vm_base (vma_at s v)) vs))"
proof (cases "find (\<lambda>v. va \<le> vm_base (vma_at s v)) vs")
  case (Some v)
  then have "v \<in> set vs" by (auto simp: find_Some_iff)
  moreover have "NULL \<notin> set (map rbn_of vs)"
    using r rb_list_distinct [of "tree_of s m" "map rbn_of vs"] by (simp add: vm_rel_def)
  ultimately have "rbn_of v \<noteq> NULL" by force
  with Some show ?thesis by (simp add: find_vma_next_def lower_vma_find [OF r] or_null_def)
qed (simp add: find_vma_next_def lower_vma_find [OF r] or_null_def)

text \<open>At most one area covers an address, so the search finds it.\<close>

lemma covers_unique:
  assumes "areas_ok (map h vs)" and "v \<in> set vs" "w \<in> set vs" and "vma_has (h v) va" "vma_has (h w) va"
  shows "v = w"
proof -
  have sw: "sorted_wrt (\<lambda>v w. fin (h v) \<le> unat (vm_base (h w))) vs" and ok: "\<forall>v \<in> set vs. area_ok (h v)"
    using assms(1) by (auto simp: areas_ok_def sorted_wrt_map)
  obtain i j where ij: "i < length vs" "vs ! i = v" "j < length vs" "vs ! j = w" using assms(2,3) by (auto simp: in_set_conv_nth)
  have no: "\<not> i' < j'" if "i' < length vs" "j' < length vs" "vma_has (h (vs ! i')) va" "vma_has (h (vs ! j')) va" for i' j'
    using that sorted_wrt_nth_less [OF sw, of i' j'] ok by (fastforce simp: vma_has_iff)
  have "i = j" using no [of i j] no [of j i] ij assms(4,5) by fastforce
  with ij show ?thesis by simp
qed

lemma find_vma_cases:
  assumes r: "vm_rel s m vs"
  obtains v where "find_vma m va s = Some v" and "v \<in> set vs" and "covers s va v" and "v \<noteq> NULL"
  | "find_vma m va s = Some NULL" and "\<forall>v \<in> set vs. \<not> covers s va v"
proof (cases "find (covers s va) vs")
  case None
  then have "find_vma m va s = Some NULL" by (simp add: find_vma_list [OF r] or_null_def)
  then show ?thesis by (rule that(2)) (use None in \<open>auto simp: find_None_iff\<close>)
next
  case (Some v)
  then have "v \<in> set vs" "covers s va v" by (auto simp: find_Some_iff)
  moreover from this r have "v \<noteq> NULL" by (auto simp: vm_rel_def)
  ultimately show ?thesis using that(1) find_vma_list [OF r, of va] Some by (auto simp: or_null_def)
qed

section \<open>Gaps\<close>

text \<open>A place for \<open>sz\<close> bytes below \<open>hint\<close>: above the first page, on a page boundary, in no area.\<close>

definition gap_at :: "(u64 \<Rightarrow> vma) \<Rightarrow> u64 list \<Rightarrow> u64 \<Rightarrow> u64 \<Rightarrow> u64 \<Rightarrow> bool" where
  "gap_at h vs sz hint c \<longleftrightarrow> 0x1000 \<le> unat c \<and> 4096 dvd unat c \<and> unat c + unat sz \<le> unat hint \<and>
     (\<forall>v \<in> set vs. fin (h v) \<le> unat c \<or> unat c + unat sz \<le> unat (vm_base (h v)))"

lemma unat_candidate:
  assumes "unat sz \<le> unat hint"
  shows "unat ((hint - sz) AND NOT (PAGE_SIZE - 1)) = (unat hint - unat sz) div 4096 * 4096"
proof -
  have "unat (hint - sz) = unat hint - unat sz" using assms by (simp add: unat_sub word_le_nat_alt)
  moreover have "(hint - sz) AND NOT (PAGE_SIZE - 1) = ALIGN_DOWN (hint - sz) PAGE_SIZE" using and_not_low12 [of "hint - sz"] by simp
  ultimately show ?thesis by (simp add: unat_ALIGN_DOWN)
qed

text \<open>An area in the way of the highest candidate: every gap lies below its base.\<close>

lemma gap_below:
  assumes c: "unat c = (unat hint - unat sz) div 4096 * 4096" and v: "v \<in> set vs" "unat (vm_base (h v)) < unat c + unat sz"
    and cov: "unat (vm_base (h v)) \<le> unat c \<Longrightarrow> unat c < fin (h v)" and ok: "area_ok (h v)" and hs: "unat sz \<le> unat hint"
  shows "gap_at h vs sz hint x \<longleftrightarrow> gap_at h vs sz (vm_base (h v)) x"
proof -
  have cl: "unat c + unat sz \<le> unat hint" using c hs div_times_less_eq_dividend [of "unat hint - unat sz" 4096] by linarith
  have "unat x + unat sz \<le> unat (vm_base (h v))" if g: "gap_at h vs sz hint x"
  proof -
    have "unat x \<le> unat c"
    proof -
      obtain k where k: "unat x = 4096 * k" using g by (auto simp: gap_at_def)
      have "4096 * k + unat sz \<le> unat hint" using g k by (simp add: gap_at_def)
      then have "4096 * k \<le> unat hint - unat sz" by linarith
      then have "k \<le> (unat hint - unat sz) div 4096" by (simp add: less_eq_div_iff_mult_less_eq mult.commute)
      then show ?thesis using c k by simp
    qed
    moreover have "fin (h v) \<le> unat x \<or> unat x + unat sz \<le> unat (vm_base (h v))" using g v(1) by (simp add: gap_at_def)
    ultimately show ?thesis using cov area_ok_less [OF ok] by linarith
  qed
  then show ?thesis using v(2) cl by (auto simp: gap_at_def)
qed

lemma gap_free:
  assumes r: "vm_rel s m vs" and nc: "\<forall>v \<in> set vs. \<not> covers s c v"
    and nx: "find (\<lambda>v. c \<le> vm_base (vma_at s v)) vs = None \<or>
      (\<exists>w. find (\<lambda>v. c \<le> vm_base (vma_at s v)) vs = Some w \<and> unat c + unat sz \<le> unat (vm_base (vma_at s w)))"
    and v: "v \<in> set vs"
  shows "fin (vma_at s v) \<le> unat c \<or> unat c + unat sz \<le> unat (vm_base (vma_at s v))"
proof (cases "c \<le> vm_base (vma_at s v)")
  case True
  have sw: "sorted_wrt (\<lambda>v w. fin (vma_at s v) \<le> unat (vm_base (vma_at s w))) vs" and ok: "\<forall>v \<in> set vs. area_ok (vma_at s v)"
    using r by (auto simp: vm_rel_def areas_ok_def sorted_wrt_map)
  have "find (\<lambda>v. c \<le> vm_base (vma_at s v)) vs \<noteq> None" using True v by (auto simp: find_None_iff)
  then obtain w where w: "find (\<lambda>v. c \<le> vm_base (vma_at s v)) vs = Some w" "unat c + unat sz \<le> unat (vm_base (vma_at s w))"
    using nx by auto
  obtain i j where ij: "i < length vs" "vs ! i = w" "\<forall>k < i. \<not> c \<le> vm_base (vma_at s (vs ! k))" "j < length vs" "vs ! j = v"
    using w(1) v by (auto simp: find_Some_iff in_set_conv_nth)
  have "\<not> j < i" using ij True by auto
  then have "unat (vm_base (vma_at s w)) \<le> unat (vm_base (vma_at s v))"
  proof (cases "i = j")
    case False
    with \<open>\<not> j < i\<close> have "fin (vma_at s w) \<le> unat (vm_base (vma_at s v))"
      using sorted_wrt_nth_less [OF sw, of i j] ij by simp
    moreover have "area_ok (vma_at s w)" using ok ij(1,2) nth_mem by blast
    ultimately show ?thesis using area_ok_less by (meson le_trans less_imp_le)
  qed (use ij in simp)
  with w(2) show ?thesis by simp
next
  case False
  moreover have "area_ok (vma_at s v)" using r v by (auto simp: vm_rel_def areas_ok_def)
  ultimately show ?thesis using nc v by (auto simp: vma_has_iff word_le_nat_alt)
qed

text \<open>The loop ends, because the hint goes down in every round, and finds the highest gap there is.\<close>

lemma gap_loop_highest:
  assumes r: "vm_rel s m vs" and sz: "0 < sz" "unat sz + 0x1000 < 2 ^ 64"
  shows "\<exists>g. gap_loop m sz hint s = Some g \<and>
    (if g = 0 then \<forall>x. \<not> gap_at (vma_at s) vs sz hint x
     else gap_at (vma_at s) vs sz hint g \<and> (\<forall>x. gap_at (vma_at s) vs sz hint x \<longrightarrow> unat x \<le> unat g))"
proof (induction "unat hint" arbitrary: hint rule: less_induct)
  case less
  let ?h = "vma_at s"
  have us: "unat (0x1000 + sz) = 0x1000 + unat sz" using sz(2) by (subst unat_add_no_wrap) simp_all
  have s0: "0 < unat sz" using sz(1) by (simp add: word_less_nat_alt)
  show ?case
  proof (cases "hint < 0x1000 + sz")
    case True
    then have "gap_loop m sz hint s = Some 0" by (subst gap_loop.simps) simp
    moreover have "\<not> gap_at ?h vs sz hint x" for x using True by (auto simp: gap_at_def word_less_nat_alt us)
    ultimately show ?thesis by auto
  next
    case h: False
    then have hs: "unat sz + 0x1000 \<le> unat hint" by (simp add: word_less_nat_alt us)
    define c where "c = (hint - sz) AND NOT (PAGE_SIZE - 1)"
    have uc: "unat c = (unat hint - unat sz) div 4096 * 4096" unfolding c_def by (rule unat_candidate) (use hs in simp)
    have cl: "unat c + unat sz \<le> unat hint"
      using uc hs div_times_less_eq_dividend [of "unat hint - unat sz" 4096] by linarith
    have cge: "0x1000 \<le> unat c"
    proof -
      have "1 \<le> (unat hint - unat sz) div 4096" using hs by (simp add: less_eq_div_iff_mult_less_eq)
      then show ?thesis using uc by simp
    qed
    have ucs: "unat (c + sz) = unat c + unat sz" "unat (c + sz - 1) = unat c + unat sz - 1"
    proof -
      have "unat c + unat sz < 18446744073709551616" by (rule le_less_trans [OF cl unat64_bound])
      then show e: "unat (c + sz) = unat c + unat sz" by (simp add: unat_add_no_wrap)
      have "1 \<le> c + sz" using s0 by (simp add: word_le_nat_alt e)
      then show "unat (c + sz - 1) = unat c + unat sz - 1" by (simp add: unat_sub e)
    qed
    have nu: "\<not> c < 0x1000" using cge by (simp add: word_less_nat_alt)
    have ok: "area_ok (?h v)" if "v \<in> set vs" for v using r that by (auto simp: vm_rel_def areas_ok_def)
    have step: "gap_loop m sz hint s = do {
          o1 \<leftarrow> find_vma m c s;
          overlap \<leftarrow> (if o1 = NULL then find_vma m (c + sz - 1) s else Some o1);
          if overlap = NULL
          then do {
            next \<leftarrow> find_vma_next m c s;
            if next = NULL \<or> c + sz \<le> vm_base (?h next) then Some c
            else gap_loop m sz (vm_base (?h next)) s}
          else gap_loop m sz (vm_base (?h overlap)) s}"
      using h nu unfolding gap_loop.simps [of m sz hint s] Let_def c_def [symmetric] by simp
    have again: ?thesis if v: "v \<in> set vs" "unat (vm_base (?h v)) < unat c + unat sz"
      and cov: "unat (vm_base (?h v)) \<le> unat c \<Longrightarrow> unat c < fin (?h v)"
      and e: "gap_loop m sz hint s = gap_loop m sz (vm_base (?h v)) s" for v
    proof -
      have lt: "unat (vm_base (?h v)) < unat hint" using v(2) cl by linarith
      have eq: "gap_at ?h vs sz hint = gap_at ?h vs sz (vm_base (?h v))"
        by (rule ext, rule gap_below [where h = ?h, OF uc v cov ok [OF v(1)]]) (use hs in simp_all)
      show ?thesis unfolding e eq by (rule less [OF lt])
    qed
    show ?thesis
    proof (cases rule: find_vma_cases [OF r, of c])
      case (1 v)
      then have e: "gap_loop m sz hint s = gap_loop m sz (vm_base (?h v)) s" unfolding step by simp
      show ?thesis by (rule again [OF 1(2) _ _ e]) (use 1(3) ok [OF 1(2)] s0 in \<open>auto simp: vma_has_iff\<close>)
    next
      case nc: 2
      show ?thesis
      proof (cases rule: find_vma_cases [OF r, of "c + sz - 1"])
        case (1 v)
        then have e: "gap_loop m sz hint s = gap_loop m sz (vm_base (?h v)) s" unfolding step using nc(1) by simp
        show ?thesis
          by (rule again [OF 1(2) _ _ e]) (use 1(3) ok [OF 1(2)] s0 in \<open>auto simp: vma_has_iff ucs\<close>)
      next
        case 2
        let ?n = "find (\<lambda>v. c \<le> vm_base (?h v)) vs"
        have fn: "find_vma_next m c s = Some (or_null ?n)" by (rule find_vma_next_list [OF r])
        show ?thesis
        proof (cases "?n = None \<or> (\<exists>w. ?n = Some w \<and> unat c + unat sz \<le> unat (vm_base (?h w)))")
          case True
          then have e: "gap_loop m sz hint s = Some c"
            unfolding step using nc(1) 2(1) fn by (auto simp: or_null_def word_le_nat_alt ucs)
          have "gap_at ?h vs sz hint c"
            using gap_free [OF r nc(2) True] cge cl uc by (simp add: gap_at_def)
          moreover have "unat x \<le> unat c" if g: "gap_at ?h vs sz hint x" for x
          proof -
            obtain k where k: "unat x = 4096 * k" using g by (auto simp: gap_at_def)
            have "4096 * k + unat sz \<le> unat hint" using g k by (simp add: gap_at_def)
            then have "k \<le> (unat hint - unat sz) div 4096" by (simp add: less_eq_div_iff_mult_less_eq mult.commute)
            then show ?thesis using uc k by simp
          qed
          moreover have "c \<noteq> 0" using cge by auto
          ultimately show ?thesis using e by auto
        next
          case False
          then obtain w where w: "?n = Some w" "unat (vm_base (?h w)) < unat c + unat sz" by auto
          have wi: "w \<in> set vs" "c \<le> vm_base (?h w)" using w(1) by (auto simp: find_Some_iff)
          have "w \<noteq> NULL" using wi(1) r by (auto simp: vm_rel_def)
          with w fn nc(1) 2(1) have e: "gap_loop m sz hint s = gap_loop m sz (vm_base (?h w)) s"
            unfolding step by (simp add: or_null_def word_le_nat_alt ucs)
          show ?thesis
            by (rule again [OF wi(1) w(2) _ e]) (use wi(2) area_ok_less [OF ok [OF wi(1)]] in \<open>simp add: word_le_nat_alt\<close>)
        qed
      qed
    qed
  qed
qed

end
