(* ===== verification/Vmm_Props.thy ===== *)
theory Vmm_Props
  imports Vmm_Areas
begin

text \<open>
  What the searches over the areas of an address space promise: finding an area, finding a place for a
  new one, deciding whether a range is accessible, and that \<^verbatim>\<open>vmm_brk\<close> never comes back when it has to move the
  break.
\<close>

section \<open>Access checks\<close>

definition grants :: "vma \<Rightarrow> u32 \<Rightarrow> bool" where
  "grants a access \<longleftrightarrow> vm_flags a AND access = access"

definition accessible :: "'b vmm_state_scheme \<Rightarrow> u64 list \<Rightarrow> u32 \<Rightarrow> nat \<Rightarrow> nat \<Rightarrow> bool" where
  "accessible s vs access lo hi \<longleftrightarrow>
     (\<forall>x :: u64. lo \<le> unat x \<and> unat x < hi \<longrightarrow> (\<exists>v \<in> set vs. covers s x v \<and> grants (vma_at s v) access))"

lemma access_loop_iff:
  assumes r: "vm_rel s m vs"
  shows "access_loop m access va e s = Some (if accessible s vs access (unat va) (unat e) then 1 else 0)"
proof (induction "unat e - unat va" arbitrary: va rule: less_induct)
  case less
  show ?case
  proof (cases "va < e")
    case False
    then have "access_loop m access va e s = Some 1" by (subst access_loop.simps) simp
    moreover have "accessible s vs access (unat va) (unat e)" using False by (auto simp: accessible_def word_less_nat_alt)
    ultimately show ?thesis by simp
  next
    case lt: True
    then have ul: "unat va < unat e" by (simp add: word_less_nat_alt)
    have ar: "areas_ok (map (vma_at s) vs)" using r by (simp add: vm_rel_def)
    show ?thesis
    proof (cases rule: find_vma_cases [OF r, of va])
      case (1 v)
      have only: "w = v" if "w \<in> set vs" "covers s va w" for w by (rule covers_unique [OF ar that(1) 1(2) that(2) 1(3)])
      show ?thesis
      proof (cases "grants (vma_at s v) access")
        case False
        then have "access_loop m access va e s = Some 0"
          using lt 1 by (subst access_loop.simps) (simp add: grants_def)
        moreover have "\<not> accessible s vs access (unat va) (unat e)"
          unfolding accessible_def using ul only False by (auto intro!: exI [of _ va])
        ultimately show ?thesis by simp
      next
        case True
        let ?n = "vm_base (vma_at s v) + vm_size (vma_at s v)"
        have ok: "area_ok (vma_at s v)" using ar 1(2) by (simp add: areas_ok_def)
        have un: "unat ?n = fin (vma_at s v)" "unat va < fin (vma_at s v)" "unat (vm_base (vma_at s v)) \<le> unat va"
          using unat_fin [OF ok] 1(3) ok by (simp_all add: vma_has_iff)
        have e: "access_loop m access va e s = access_loop m access ?n e s"
          using lt 1 True by (subst access_loop.simps) (simp add: grants_def)
        have "unat e - unat ?n < unat e - unat va" using un(1,2) ul by simp
        from less [OF this] have "access_loop m access va e s = Some (if accessible s vs access (unat ?n) (unat e) then 1 else 0)"
          unfolding e .
        moreover have "accessible s vs access (unat ?n) (unat e) \<longleftrightarrow> accessible s vs access (unat va) (unat e)"
        proof -
          have cv: "covers s x v" if "unat va \<le> unat x" "unat x < unat ?n" for x
            using that un ok unfolding vma_has_iff [OF ok] by linarith
          show ?thesis
          proof
            assume "accessible s vs access (unat ?n) (unat e)"
            then show "accessible s vs access (unat va) (unat e)"
              unfolding accessible_def using cv True 1(2) not_less by blast
          next
            have "unat va \<le> unat ?n" using un by linarith
            moreover assume "accessible s vs access (unat va) (unat e)"
            ultimately show "accessible s vs access (unat ?n) (unat e)"
              unfolding accessible_def by (meson le_trans)
          qed
        qed
        ultimately show ?thesis by simp
      qed
    next
      case 2
      then have "access_loop m access va e s = Some 0" using lt by (subst access_loop.simps) simp
      moreover have "\<not> accessible s vs access (unat va) (unat e)"
        unfolding accessible_def using ul 2(2) by (auto intro!: exI [of _ va])
      ultimately show ?thesis by simp
    qed
  qed
qed

section \<open>An address space with two areas\<close>

definition example_areas :: "u64 \<Rightarrow> vma" where
  "example_areas = (\<lambda>_. zero_vma)
     (0x9000 := zero_vma\<lparr>vm_base := 0x400000, vm_size := 0x2000, vm_flags := 0x17\<rparr>,
      0x9100 := zero_vma\<lparr>vm_base := 0x600000, vm_size := 0x1000, vm_flags := 0x5\<rparr>)"

lemma example_areas_ok: "areas_ok (map example_areas [0x9000, 0x9100])"
  by (simp add: areas_ok_def area_ok_def fin_def example_areas_def)

lemma more_fields:
  assumes "paging.more s = vmm_state.fields h n m c k l"
  shows "vma_at s = h" "rbn_at s = n" "vmm_at s = m" "current_vmm s = c" "vmm_lock s = l"
  using assms by (cases s; simp add: vmm_state.defs)+

text \<open>Address space \<open>0x8000\<close> with the page table \<open>pt\<close>.\<close>

definition example_space :: "rb_tree \<Rightarrow> u64 \<Rightarrow> u64 \<Rightarrow> vmm" where
  "example_space t pt = (\<lambda>_. new_vmm)
     (0x8000 := new_vmm\<lparr>vmas_root := rb_root t, vmas_size := rb_size t, vmas_count := 2, pml4 := pt,
                        mmap_base := 0x601000, brk := 0x700000, brk_base := 0x700000\<rparr>)"

lemma example_nodes:
  obtains t where "rb_list t (map rbn_of [0x9000, 0x9100])"
proof -
  have e: "rb_list empty_tree []" by (rule rb_list_Nil) (simp add: empty_tree_def)
  have bk: "by_key (\<lambda>n. unat (vm_base (example_areas (vma_of n)))) []" by (simp add: by_key_def)
  have d: "distinct (map (\<lambda>n. unat (vm_base (example_areas (vma_of n)))) ([] @ [rbn_of 0x9000, rbn_of 0x9100]))" "NULL \<notin> set [rbn_of 0x9000, rbn_of 0x9100]"
    by (simp_all add: example_areas_def, simp_all add: rbn_of_def)
  from insert_all_list [OF vma_order.comparator_axioms e bk d(2,1)] obtain t where
    "rb_list t (foldl (\<lambda>xs n. insort_key (\<lambda>n. unat (vm_base (example_areas (vma_of n)))) n xs) [] [rbn_of 0x9000, rbn_of 0x9100])"
    by blast
  then have "rb_list t (map rbn_of [0x9000, 0x9100])" by (simp add: example_areas_def)
  then show ?thesis by (rule that)
qed

lemma example_vmm:
  obtains s :: vmm_state and pt where "vm_rel s 0x8000 [0x9000, 0x9100]" and "vma_at s = example_areas" and "pt_inv s pt"
    and "mapping s pt = Map.empty" and "14 \<le> card (frees s)" and "pml4 (vmm_at s 0x8000) = pt" and "mmap_base (vmm_at s 0x8000) = 0x601000"
    and "brk (vmm_at s 0x8000) = 0x700000" and "brk_base (vmm_at s 0x8000) = 0x700000" and "lock_free (vmm_lock s)"
proof -
  obtain t where t: "rb_list t (map rbn_of [0x9000, 0x9100])" by (rule example_nodes)
  let ?r = "\<lambda>pt. vmm_state.fields example_areas (rb_at t) (example_space t pt) 0x8000 0x8000 SPINLOCK_INIT"
  obtain s0 :: vmm_state and pt where s0: "pt_inv s0 pt" "mapping s0 pt = Map.empty" "14 \<le> card (frees s0)"
    "\<forall>v. walk s0 (PHYS_TO_VIRT s0 pt) (vpath v) = None" "paging.more s0 = ?r 0" by (rule boot_page_table)
  let ?s = "s0\<lparr>vmm_at := example_space t pt\<rparr>"
  have e: "same_tables s0 ?s" "pmm_eq s0 ?s" by (simp_all add: same_tables_def pmm_eq_def)
  note w = same_tables_walk [OF e(1)] note q = pmm_eq_facts [OF e(2)]
  note f = more_fields [OF s0(5)]
  have tr: "tree_of ?s 0x8000 = t" by (simp add: tree_of_def example_space_def f)
  show ?thesis
  proof (rule that [of ?s pt])
    show "vm_rel ?s 0x8000 [0x9000, 0x9100]" using t example_areas_ok by (simp add: vm_rel_def tr f)
    have uf: "used_frame ?s = used_frame s0" by (rule ext) (simp add: used_frame_def page_ptr_def)
    show "pt_inv ?s pt" using s0(1) by (simp add: pt_inv_def pt_core_def tree_ok_def w q uf)
    show "mapping ?s pt = Map.empty" by (rule ext) (simp add: w s0(2))
    show "14 \<le> card (frees ?s)" using s0(3) by (simp add: q)
  qed (simp_all add: f example_space_def)
qed

section \<open>Properties\<close>

text \<open>
  C22. \<open>vmm_find\<close> returns for every address: the one area that covers it, or null when none does; and
  \<open>vmm_find_next\<close> returns the lowest area that does not begin below the address.
\<close>
theorem vmm_find_correct:
  assumes "vm_rel s m vs" and "m \<noteq> NULL"
  shows "\<exists>v w. vmm_find m va s = Some v \<and> vmm_find_next m va s = Some w \<and>
    (if v = NULL then \<forall>x \<in> set vs. \<not> covers s va x
     else v \<in> set vs \<and> covers s va v \<and> (\<forall>x \<in> set vs. covers s va x \<longrightarrow> x = v)) \<and>
    w = or_null (find (\<lambda>x. va \<le> vm_base (vma_at s x)) vs)"
proof -
  have a: "areas_ok (map (vma_at s) vs)" using assms(1) by (simp add: vm_rel_def)
  show ?thesis
    using find_vma_next_list [OF assms(1)] assms(2) covers_unique [OF a]
    by (cases rule: find_vma_cases [OF assms(1), of va]) (auto simp: vmm_find_def vmm_find_next_def)
qed

theorem vmm_find_correct_witness:
  "\<exists>s :: vmm_state. vmm_find 0x8000 0x401FFF s = Some 0x9000 \<and> vmm_find 0x8000 0x402000 s = Some NULL \<and>
     vmm_find_next 0x8000 0x402000 s = Some 0x9100"
proof -
  obtain s :: vmm_state and pt where s: "vm_rel s 0x8000 [0x9000, 0x9100]" "vma_at s = example_areas" by (rule example_vmm)
  note c = vmm_find_correct [OF s(1), of "0x401FFF"] vmm_find_correct [OF s(1), of "0x402000"]
  have "covers s 0x401FFF 0x9000" "\<not> covers s 0x402000 0x9000" "\<not> covers s 0x402000 0x9100"
    by (simp_all add: s(2) example_areas_def vma_has_def)
  then show ?thesis using c by (intro exI [of _ s]) (auto simp: s(2) example_areas_def or_null_def split: if_splits)
qed

text \<open>
  C23. \<open>find_free_gap\<close> ends for every address space and every size: it returns 0 and changes nothing when no
  page boundary below \<open>mmap_base\<close> has room for the size, and otherwise the highest one that has; the place
  overlaps no area.
\<close>
theorem find_free_gap_highest:
  assumes "vm_rel s m vs" and "0 < sz" and "unat sz + 0x1000 < 2 ^ 64"
  shows "\<exists>g s'. find_free_gap m sz s = Some (g, s') \<and> vm_rel s' m vs \<and>
    (if g = 0 then s' = s \<and> (\<forall>x. \<not> gap_at (vma_at s) vs sz (mmap_base (vmm_at s m)) x)
     else gap_at (vma_at s) vs sz (mmap_base (vmm_at s m)) g \<and> mmap_base (vmm_at s' m) = g \<and>
       (\<forall>x. gap_at (vma_at s) vs sz (mmap_base (vmm_at s m)) x \<longrightarrow> unat x \<le> unat g))"
proof -
  obtain g where g: "gap_loop m sz (mmap_base (vmm_at s m)) s = Some g"
    "if g = 0 then \<forall>x. \<not> gap_at (vma_at s) vs sz (mmap_base (vmm_at s m)) x
     else gap_at (vma_at s) vs sz (mmap_base (vmm_at s m)) g \<and>
       (\<forall>x. gap_at (vma_at s) vs sz (mmap_base (vmm_at s m)) x \<longrightarrow> unat x \<le> unat g)"
    using gap_loop_highest [OF assms, of "mmap_base (vmm_at s m)"] by blast
  show ?thesis
  proof (cases "g = 0")
    case True
    with g assms(1) show ?thesis by (intro exI [of _ 0] exI [of _ s]) (simp add: find_free_gap_def)
  next
    case False
    let ?s = "upd_vmm m (\<lambda>x. x\<lparr>mmap_base := g\<rparr>) s"
    have "tree_of ?s m = tree_of s m" "vma_at ?s = vma_at s" by (simp_all add: tree_of_def upd_vmm_def)
    with assms(1) have "vm_rel ?s m vs" by (simp add: vm_rel_def)
    with False g show ?thesis by (intro exI [of _ g] exI [of _ ?s]) (simp add: find_free_gap_def upd_vmm_def)
  qed
qed

theorem find_free_gap_highest_witness:
  "\<exists>s s' :: vmm_state. find_free_gap 0x8000 0x1000 s = Some (0x5FF000, s')"
proof -
  obtain s :: vmm_state and pt where s: "vm_rel s 0x8000 [0x9000, 0x9100]" "vma_at s = example_areas" "mmap_base (vmm_at s 0x8000) = 0x601000"
    by (rule example_vmm)
  have sz: "0 < (0x1000 :: u64)" "unat (0x1000 :: u64) + 0x1000 < 2 ^ 64" by simp_all
  have gd: "gap_at (vma_at s) [0x9000, 0x9100] 0x1000 0x601000 0x5FF000"
    by (simp add: gap_at_def s(2) example_areas_def fin_def)
  have mx: "unat x \<le> 0x5FF000" if x: "gap_at (vma_at s) [0x9000, 0x9100] 0x1000 0x601000 x" for x
    using x by (auto simp: gap_at_def s(2) example_areas_def fin_def)
  obtain g s' where g: "find_free_gap 0x8000 0x1000 s = Some (g, s')"
    "if g = 0 then s' = s \<and> (\<forall>x. \<not> gap_at (vma_at s) [0x9000, 0x9100] 0x1000 0x601000 x)
     else gap_at (vma_at s) [0x9000, 0x9100] 0x1000 0x601000 g \<and> mmap_base (vmm_at s' 0x8000) = g \<and>
       (\<forall>x. gap_at (vma_at s) [0x9000, 0x9100] 0x1000 0x601000 x \<longrightarrow> unat x \<le> unat g)"
    using find_free_gap_highest [OF s(1) sz] unfolding s(3) by blast
  have "g \<noteq> 0" using g(2) gd by auto
  then have "gap_at (vma_at s) [0x9000, 0x9100] 0x1000 0x601000 g" "unat (0x5FF000 :: u64) \<le> unat g" using g(2) gd by auto
  then have "unat g = unat (0x5FF000 :: u64)" using mx [of g] by simp
  then have "g = 0x5FF000" by (simp add: word_unat_eq_iff)
  with g(1) show ?thesis by blast
qed

lemma ALIGN_UP_top:
  assumes "2 ^ 64 < n + 4096" and "n \<le> 2 ^ 64"
  shows "ALIGN_UP (of_nat n) 0x1000 = 0"
proof (cases "n = 2 ^ 64")
  case True
  have "of_nat (2 ^ 64) = (0 :: u64)" by (simp add: word_of_nat_eq_0_iff)
  then show ?thesis unfolding True by (simp add: ALIGN_UP_def DIV_ROUND_UP_def)
next
  case False
  have un: "unat (of_nat n + 0xFFF :: u64) = n + 4095 - 2 ^ 64"
    using assms False by (simp add: unat_word_ariths unat_of_nat take_bit_nat_eq_self_iff mod_if)
  then have "(of_nat n + 0xFFF :: u64) div 0x1000 = 0"
    using assms(2) False by (simp add: word_unat_eq_iff unat_div)
  then show ?thesis by (simp add: ALIGN_UP_def DIV_ROUND_UP_def)
qed

lemma page_range:
  assumes "0 < unat sz" and "unat base + unat sz + 4096 \<le> 2 ^ 64"
  shows "unat (ALIGN_DOWN base 0x1000) \<le> y \<and> y < unat (ALIGN_UP (base + sz) 0x1000) \<longleftrightarrow>
    unat base div 4096 \<le> y div 4096 \<and> y div 4096 \<le> (unat base + unat sz - 1) div 4096"
proof -
  have bs: "unat (base + sz) = unat base + unat sz" using assms(2) by (simp add: unat_add_no_wrap)
  have lo: "unat (ALIGN_DOWN base 0x1000) = unat base div 4096 * 4096" by (simp add: unat_ALIGN_DOWN)
  have hi: "unat (ALIGN_UP (base + sz) 0x1000) = (unat base + unat sz + 4095) div 4096 * 4096"
    using unat_ALIGN_UP [of "0x1000" "base + sz"] assms(2) bs by simp
  have "(unat base + unat sz + 4095) div 4096 = Suc ((unat base + unat sz - 1) div 4096)"
  proof -
    have "unat base + unat sz + 4095 = (unat base + unat sz - 1) + 4096" using assms(1) by simp
    then show ?thesis by (simp only: div_add_self2 [of 4096])
  qed
  moreover have "y < Suc k * 4096 \<longleftrightarrow> y div 4096 \<le> k" for k by (simp add: less_Suc_eq_le [symmetric] div_less_iff_less_mult)
  moreover have "k * 4096 \<le> y \<longleftrightarrow> k \<le> y div 4096" for k by (simp add: less_eq_div_iff_mult_less_eq)
  ultimately show ?thesis unfolding lo hi by presburger
qed

text \<open>
  C24. What \<open>vmm_is_accessible\<close> answers for every range that does not run over the end of the address space. The call returns. Without an
  address space or for an empty range the answer is 0. Otherwise, for a range that does not end within the last page of the address space, it is 1 exactly when every byte of every
  page that the range touches lies in an area with all the access flags asked for; for a range that ends within the last page the answer is 1, whatever is mapped there.
\<close>
theorem vmm_is_accessible_iff:
  assumes "vm_rel s m vs" and "unat base + unat sz \<le> 2 ^ 64"
  shows "vmm_is_accessible m base sz access s =
    Some (if m = NULL \<or> sz = 0 then 0
      else if 2 ^ 64 < unat base + unat sz + 4096 then 1
      else if \<forall>x :: u64. unat base div 4096 \<le> unat x div 4096 \<and> unat x div 4096 \<le> (unat base + unat sz - 1) div 4096 \<longrightarrow>
             (\<exists>v \<in> set vs. covers s x v \<and> grants (vma_at s v) access) then 1 else 0)"
proof (cases "m = NULL \<or> sz = 0")
  case True
  then show ?thesis by (simp add: vmm_is_accessible_def)
next
  case ne: False
  then have s0: "0 < unat sz" by (simp add: unat_gt_0)
  let ?lo = "ALIGN_DOWN base 0x1000" and ?hi = "ALIGN_UP (base + sz) 0x1000"
  have run: "vmm_is_accessible m base sz access s = Some (if accessible s vs access (unat ?lo) (unat ?hi) then 1 else 0)"
    using ne by (simp add: vmm_is_accessible_def access_loop_iff [OF assms(1)])
  show ?thesis
  proof (cases "2 ^ 64 < unat base + unat sz + 4096")
    case True
    have "base + sz = of_nat (unat base + unat sz)" by simp
    then have "?hi = 0" using ALIGN_UP_top [OF True assms(2)] by metis
    then have "accessible s vs access (unat ?lo) (unat ?hi)" by (simp add: accessible_def)
    then show ?thesis using run ne True by simp
  next
    case False
    then have "unat base + unat sz + 4096 \<le> 2 ^ 64" by simp
    note r = page_range [OF s0 this]
    show ?thesis using run ne False by (simp add: accessible_def r)
  qed
qed

theorem vmm_is_accessible_iff_witness:
  "\<exists>s :: vmm_state. vmm_is_accessible 0x8000 0x402FFF 1 1 s = Some 0 \<and> vmm_is_accessible 0x8000 0x400FFF 2 7 s = Some 1 \<and>
     vmm_is_accessible 0x8000 0x600000 1 7 s = Some 0"
proof -
  obtain s :: vmm_state and pt where s: "vm_rel s 0x8000 [0x9000, 0x9100]" "vma_at s = example_areas" by (rule example_vmm)
  note acc = vmm_is_accessible_iff [OF s(1)]
  have cov: "covers s x 0x9000 \<longleftrightarrow> unat x div 4096 \<in> {0x400, 0x401}" "covers s x 0x9100 \<longleftrightarrow> unat x div 4096 = 0x600" for x
  proof -
    have "covers s x 0x9000 \<longleftrightarrow> 0x400 * 4096 \<le> unat x \<and> unat x < 0x402 * 4096"
      "covers s x 0x9100 \<longleftrightarrow> 0x600 * 4096 \<le> unat x \<and> unat x < 0x601 * 4096"
      by (simp_all add: s(2) example_areas_def vma_has_def word_le_nat_alt word_less_nat_alt)
    then show "covers s x 0x9000 \<longleftrightarrow> unat x div 4096 \<in> {0x400, 0x401}" "covers s x 0x9100 \<longleftrightarrow> unat x div 4096 = 0x600"
      by (auto simp: less_eq_div_iff_mult_less_eq div_less_iff_less_mult)
  qed
  have gr: "grants (vma_at s 0x9000) 7" "\<not> grants (vma_at s 0x9100) 7" by (simp_all add: s(2) example_areas_def grants_def)
  have no: "\<exists>x :: u64. 0x402 \<le> unat x div 4096 \<and> unat x div 4096 = 0x402" "\<exists>x :: u64. 0x600 \<le> unat x div 4096 \<and> unat x div 4096 = 0x600"
    by (rule exI [of _ "0x402000"], simp, rule exI [of _ "0x600000"], simp)
  have "vmm_is_accessible 0x8000 0x402FFF 1 1 s = Some 0" using acc [of "0x402FFF" 1 1] no(1) by (auto simp: cov)
  moreover have "vmm_is_accessible 0x8000 0x400FFF 2 7 s = Some 1" using acc [of "0x400FFF" 2 7] gr(1) by (auto simp: cov)
  moreover have "vmm_is_accessible 0x8000 0x600000 1 7 s = Some 0" using acc [of "0x600000" 1 7] no(2) gr(2) by (auto simp: cov)
  ultimately show ?thesis by blast
qed

text \<open>
  A range that ends exactly at the top of the address space is reported accessible in every address
  space, whatever it maps: its end wraps around to 0 and the loop does not run.
\<close>
theorem vmm_is_accessible_top:
  assumes "m \<noteq> NULL" and "sz \<noteq> 0" and "base + sz = 0"
  shows "vmm_is_accessible m base sz access s = Some 1"
  using assms by (simp add: vmm_is_accessible_def ALIGN_UP_def DIV_ROUND_UP_def access_loop.simps)

theorem vmm_is_accessible_top_witness:
  "\<forall>s :: vmm_state. vmm_is_accessible 0x8000 0xFFFFFFFFFFFFF000 0x1000 0xF s = Some 1"
  by (intro allI, rule vmm_is_accessible_top) simp_all

text \<open>
  C25. \<open>vmm_brk\<close> returns only when the break stays where it is or the request lies below its base: to grow or to
  shrink the heap it takes \<open>vmm_lock\<close> and then waits for it in \<open>vmm_map\<close> or \<open>vmm_unmap\<close>.
\<close>
theorem vmm_brk_deadlock:
  assumes "m \<noteq> NULL" and "lock_free (vmm_lock s)"
  shows "vmm_brk me m b s =
    (if ALIGN_UP b PAGE_SIZE < brk_base (vmm_at s m) then Some (brk_base (vmm_at s m), s)
     else if ALIGN_UP b PAGE_SIZE = brk (vmm_at s m) then Some (brk (vmm_at s m), s) else None)"
proof -
  let ?n = "ALIGN_UP b PAGE_SIZE" and ?s1 = "s\<lparr>vmm_lock := (vmm_lock s)\<lparr>locked := 1, owner := me\<rparr>\<rparr>"
  have acq: "acquire_vmm me s = Some ?s1" using assms(2) by (simp add: acquire_vmm_def)
  have rel: "release_vmm me ?s1 = s" using assms(2) by (simp add: release_vmm_def)
  have taken: "acquire_vmm me ?s1 = None" by (simp add: acquire_vmm_def)
  consider "?n < brk_base (vmm_at s m)" | "\<not> ?n < brk_base (vmm_at s m)" "brk (vmm_at s m) < ?n"
    | "\<not> ?n < brk_base (vmm_at s m)" "?n < brk (vmm_at s m)" | "\<not> ?n < brk_base (vmm_at s m)" "?n = brk (vmm_at s m)"
    by (meson linorder_neqE)
  then show ?thesis
  proof cases
    case 2
    then have "vmm_map me m (brk (vmm_at s m)) (?n - brk (vmm_at s m)) f ?s1 = None" for f
      using assms(1) taken by (simp add: vmm_map_def)
    with 2 acq assms(1) show ?thesis by (simp add: vmm_brk_def Let_def less_imp_neq)
  next
    case 3
    then have "vmm_unmap me m ?n (brk (vmm_at s m) - ?n) ?s1 = None"
      using assms(1) taken by (simp add: vmm_unmap_def)
    moreover have "\<not> brk (vmm_at s m) < ?n" "?n \<noteq> brk (vmm_at s m)" using 3(2) by auto
    ultimately show ?thesis using 3 acq assms(1) by (simp add: vmm_brk_def Let_def)
  qed (use acq rel assms(1) in \<open>simp_all add: vmm_brk_def Let_def\<close>)
qed

theorem vmm_brk_deadlock_witness:
  "\<exists>s :: vmm_state. vmm_brk 0 0x8000 0x700000 s = Some (0x700000, s) \<and> vmm_brk 0 0x8000 0x701000 s = None"
proof -
  obtain s :: vmm_state and pt where s: "brk (vmm_at s 0x8000) = 0x700000" "brk_base (vmm_at s 0x8000) = 0x700000" "lock_free (vmm_lock s)"
    by (rule example_vmm)
  show ?thesis
    using vmm_brk_deadlock [OF _ s(3), of "0x8000" 0 "0x700000"] vmm_brk_deadlock [OF _ s(3), of "0x8000" 0 "0x701000"] s(1,2)
    by (intro exI [of _ s]) (simp add: ALIGN_UP_def DIV_ROUND_UP_def)
qed

end
