(* ===== verification/Fs_State.thy ===== *)
theory Fs_State
  imports Kheap_Room
begin

text \<open>
  The data of the file-system layer (\<^verbatim>\<open>fs/vfs/vfs.h\<close>, \<^verbatim>\<open>fs/vfs/kfile.h\<close>, \<^verbatim>\<open>fs/ramfs/ramfs.h\<close>).
  The state holds the kernel heap, from which every object, string and file buffer is allocated,
  and one map per C type. Strings and file contents are bytes of the heap; a string argument of a
  function is passed as its value, \<open>None\<close> for a null pointer.

  An operation is a function to \<open>option\<close>: \<open>None\<close> says that the CPU does not come back from it,
  because it spins, or because it goes through a null pointer (the kernel maps nothing at
  address 0), or touches memory outside the string or buffer it works on.

  The tables \<^verbatim>\<open>vnops_t\<close> and \<^verbatim>\<open>vfsops_t\<close> hold either null pointers, as \<^verbatim>\<open>kzalloc\<close> leaves them, or the
  functions of ramfs, the only file system of the kernel.
\<close>

section \<open>Data\<close>

datatype ramfs_ftype = RAMFS_FILE | RAMFS_DIRECTORY | RAMFS_SYMLINK

record ramfs_node =
  rn_name :: u64
  rn_type :: ramfs_ftype
  rn_size :: u64
  rn_data :: u64
  rn_mode :: u32
  rn_sibling :: u64
  rn_child :: u64

record ramfs =
  rf_root_node :: u64
  rf_size :: u64

datatype vnode_type = VNODE_NULL | VNODE_REGULAR | VNODE_DIR | VNODE_BLOCK | VNODE_CHAR
  | VNODE_LINK | VNODE_PIPE | VNODE_SOCKET | VNODE_BAD

datatype vnops = No_vnops | Ramfs_vnops
datatype vfsops = No_vfsops | Ramfs_vfsops
datatype mount_fn = No_mount | Ramfs_fstype_mount

record vnode =
  vn_path :: u64
  vn_vtype :: vnode_type
  vn_node_data :: u64
  vn_uid :: u32
  vn_gid :: u32
  vn_mode :: u32
  vn_ops :: u64
  vn_vfs_here :: u64
  vn_root_vfs :: u64
  vn_refcount :: u32
  vn_lock :: spinlock

record vfs =
  vf_driver :: u64
  vf_root_vnode :: u64
  vf_data :: u64
  vf_block_size :: u64
  vf_flags :: u32
  vf_lock :: spinlock
  vf_ops :: u64
  vf_next :: u64

record vfs_fs_driver =
  dr_id :: u16
  dr_name :: string
  dr_mount :: mount_fn
  dr_next :: u64

record dirent =
  d_ino :: u64
  d_off :: u64
  d_reclen :: u16
  d_type :: u8
  d_name :: string

record stat =
  st_dev :: u64
  st_ino :: u64
  st_nlink :: u64
  st_mode :: u32
  st_uid :: u32
  st_gid :: u32
  st_rdev :: u64
  st_size :: u64
  st_blksize :: u64
  st_blocks :: u64
  st_atim :: "int \<times> int"
  st_mtim :: "int \<times> int"
  st_ctim :: "int \<times> int"

record statfs =
  sf_block_size :: u64
  sf_total_blocks :: u64
  sf_free_blocks :: u64
  sf_total_nodes :: u64
  sf_free_nodes :: u64

record kfile =
  kf_buf_start :: u64
  kf_size :: u64
  kf_flags :: u64
  kf_offset :: u64
  kf_private :: u64

text \<open>
  \<open>strtok_next\<close> is the static position of \<^verbatim>\<open>strtok\<close>: the buffer it points into and the rest of the
  string there. \<open>ramfs_fstype\<close> is the address of the static driver object.
\<close>

record fs =
  hp :: kheap
  rnode_at :: "u64 \<Rightarrow> ramfs_node"
  ramfs_at :: "u64 \<Rightarrow> ramfs"
  vnode_at :: "u64 \<Rightarrow> vnode"
  vfs_at :: "u64 \<Rightarrow> vfs"
  vnops_at :: "u64 \<Rightarrow> vnops"
  vfsops_at :: "u64 \<Rightarrow> vfsops"
  driver_at :: "u64 \<Rightarrow> vfs_fs_driver"
  kfile_at :: "u64 \<Rightarrow> kfile"
  dirent_at :: "u64 \<Rightarrow> dirent"
  vfs_list_head :: u64
  vfs_list_lock :: spinlock
  vfs_driver_list_head :: u64
  vfs_driver_list_lock :: spinlock
  next_vfs_driver_id :: u16
  strtok_next :: "(u64 \<times> string) option"
  ramfs_fstype :: u64

section \<open>Constants of the headers\<close>

abbreviation (input) V_CREATE :: u32 where "V_CREATE \<equiv> 1"
abbreviation (input) V_DIR :: u32 where "V_DIR \<equiv> 32"
abbreviation (input) S_IFDIR :: u32 where "S_IFDIR \<equiv> 0x4000"
abbreviation (input) S_IFREG :: u32 where "S_IFREG \<equiv> 0x8000"
abbreviation (input) S_IFLNK :: u32 where "S_IFLNK \<equiv> 0xA000"
abbreviation (input) DT_DIR :: u8 where "DT_DIR \<equiv> 4"
abbreviation (input) DT_REG :: u8 where "DT_REG \<equiv> 8"
abbreviation (input) DT_LNK :: u8 where "DT_LNK \<equiv> 10"

text \<open>\<^verbatim>\<open>sizeof\<close> of the structures on x86-64\<close>

abbreviation (input) SIZEOF_RAMFS_NODE :: u64 where "SIZEOF_RAMFS_NODE \<equiv> 56"
abbreviation (input) SIZEOF_RAMFS :: u64 where "SIZEOF_RAMFS \<equiv> 16"
abbreviation (input) SIZEOF_VNODE :: u64 where "SIZEOF_VNODE \<equiv> 112"
abbreviation (input) SIZEOF_VFS :: u64 where "SIZEOF_VFS \<equiv> 96"
abbreviation (input) SIZEOF_VNOPS :: u64 where "SIZEOF_VNOPS \<equiv> 128"
abbreviation (input) SIZEOF_VFSOPS :: u64 where "SIZEOF_VFSOPS \<equiv> 56"
abbreviation (input) SIZEOF_KFILE :: u64 where "SIZEOF_KFILE \<equiv> 40"
abbreviation (input) SIZEOF_DIRENT :: u64 where "SIZEOF_DIRENT \<equiv> 275"

section \<open>Access through pointers\<close>

definition deref :: "(fs \<Rightarrow> u64 \<Rightarrow> 'a) \<Rightarrow> u64 \<Rightarrow> fs \<Rightarrow> 'a option" where
  "deref f p s = (if p = NULL then None else Some (f s p))"

definition set_rnode :: "u64 \<Rightarrow> (ramfs_node \<Rightarrow> ramfs_node) \<Rightarrow> fs \<Rightarrow> fs option" where
  "set_rnode p f s = (if p = NULL then None else Some (s\<lparr>rnode_at := (rnode_at s)(p := f (rnode_at s p))\<rparr>))"

definition set_ramfs :: "u64 \<Rightarrow> (ramfs \<Rightarrow> ramfs) \<Rightarrow> fs \<Rightarrow> fs option" where
  "set_ramfs p f s = (if p = NULL then None else Some (s\<lparr>ramfs_at := (ramfs_at s)(p := f (ramfs_at s p))\<rparr>))"

definition set_vnode :: "u64 \<Rightarrow> (vnode \<Rightarrow> vnode) \<Rightarrow> fs \<Rightarrow> fs option" where
  "set_vnode p f s = (if p = NULL then None else Some (s\<lparr>vnode_at := (vnode_at s)(p := f (vnode_at s p))\<rparr>))"

definition set_vfs :: "u64 \<Rightarrow> (vfs \<Rightarrow> vfs) \<Rightarrow> fs \<Rightarrow> fs option" where
  "set_vfs p f s = (if p = NULL then None else Some (s\<lparr>vfs_at := (vfs_at s)(p := f (vfs_at s p))\<rparr>))"

definition set_driver :: "u64 \<Rightarrow> (vfs_fs_driver \<Rightarrow> vfs_fs_driver) \<Rightarrow> fs \<Rightarrow> fs option" where
  "set_driver p f s = (if p = NULL then None else Some (s\<lparr>driver_at := (driver_at s)(p := f (driver_at s p))\<rparr>))"

definition set_kfile :: "u64 \<Rightarrow> (kfile \<Rightarrow> kfile) \<Rightarrow> fs \<Rightarrow> fs option" where
  "set_kfile p f s = (if p = NULL then None else Some (s\<lparr>kfile_at := (kfile_at s)(p := f (kfile_at s p))\<rparr>))"

definition set_vnops :: "u64 \<Rightarrow> vnops \<Rightarrow> fs \<Rightarrow> fs option" where
  "set_vnops p v s = (if p = NULL then None else Some (s\<lparr>vnops_at := (vnops_at s)(p := v)\<rparr>))"

definition set_vfsops :: "u64 \<Rightarrow> vfsops \<Rightarrow> fs \<Rightarrow> fs option" where
  "set_vfsops p v s = (if p = NULL then None else Some (s\<lparr>vfsops_at := (vfsops_at s)(p := v)\<rparr>))"

text \<open>A table of operations that is there and has its functions set, the test \<^verbatim>\<open>!v->ops || !v->ops->f\<close>.\<close>

definition has_ops :: "u64 \<Rightarrow> fs \<Rightarrow> bool" where
  "has_ops p s \<longleftrightarrow> vn_ops (vnode_at s p) \<noteq> NULL \<and> vnops_at s (vn_ops (vnode_at s p)) = Ramfs_vnops"

section \<open>Heap, strings\<close>

definition heap_op :: "(kheap \<Rightarrow> ('a \<times> kheap) option) \<Rightarrow> fs \<Rightarrow> ('a \<times> fs) option" where
  "heap_op f s = map_option (\<lambda>(r, h). (r, s\<lparr>hp := h\<rparr>)) (f (hp s))"

definition fs_mem :: "fs \<Rightarrow> mem" where
  "fs_mem s = heap_mem (hp s)"

definition set_mem :: "mem \<Rightarrow> fs \<Rightarrow> fs" where
  "set_mem m s = s\<lparr>hp := (hp s)\<lparr>heap_mem := m\<rparr>\<rparr>"

definition cstring :: "mem \<Rightarrow> u64 \<Rightarrow> string option" where
  "cstring m p = (if p = NULL then None
     else map_option (\<lambda>n. map (\<lambda>i. char_of (unat (m (p + of_nat i)))) [0 ..< unat n]) (strlen m p))"

definition put_string :: "u64 \<Rightarrow> string \<Rightarrow> mem \<Rightarrow> mem" where
  "put_string p str m = (\<lambda>a. let i = unat (a - p) in
     if i < length str then of_char (str ! i) else if i = length str then 0 else m a)"

text \<open>\<^verbatim>\<open>strdup\<close> of a string given by value.\<close>

definition dup_string :: "int \<Rightarrow> string \<Rightarrow> fs \<Rightarrow> (u64 \<times> fs) option" where
  "dup_string me str s =
     do { (p, s) \<leftarrow> heap_op (kzalloc me (of_nat (length str) + 1)) s;
          Some (p, if p = NULL then s else set_mem (put_string p str (fs_mem s)) s) }"

text \<open>The words between slashes, in the order in which \<^verbatim>\<open>strtok_r(.., "/", ..)\<close> returns them.\<close>

definition path_words :: "string \<Rightarrow> string list" where
  "path_words p = tokens {CHR ''/''} p"

text \<open>The joined path that \<^verbatim>\<open>strcpy\<close> and \<^verbatim>\<open>strcat\<close> build for a child; reading \<^verbatim>\<open>path[len - 1]\<close> of an
  empty path is out of bounds.\<close>

definition join_path :: "string \<Rightarrow> string \<Rightarrow> string option" where
  "join_path parent name =
     (if parent = [] then None
      else Some (parent @ (if last parent = CHR ''/'' then [] else ''/'') @ name))"

text \<open>One leading slash skipped.\<close>

definition skip_slash :: "string \<Rightarrow> string" where
  "skip_slash p = (case p of [] \<Rightarrow> [] | c # r \<Rightarrow> if c = CHR ''/'' then r else p)"

section \<open>Strings in memory\<close>

lemma char_of_byte: "char_of (unat (of_char c :: u8)) = c"
proof -
  have l: "(of_char c :: nat) < 256" using of_char_mod_256 [of c, where ?'a = nat] mod_less_divisor [of 256 "of_char c :: nat"] by simp
  have "(of_char c :: u8) = of_nat (of_char c)" by (simp only: of_nat_of_char)
  then have "unat (of_char c :: u8) = of_char c" using l by (simp only: unat_of_nat) simp
  then show ?thesis by (simp only: char_of_char)
qed

lemma cstring_cstr:
  assumes "cstr m p str"
  shows "cstring m p = Some str"
proof -
  have b: "length str < 2 ^ 64" using cstr_bound [OF assms] by linarith
  then have u: "unat (of_nat (length str) :: u64) = length str" by (simp add: unat_of_nat)
  have "map (\<lambda>i. char_of (unat (m (p + of_nat i)))) [0 ..< length str] = str"
    by (rule nth_equalityI) (use cstr_nth [OF assms] in \<open>auto simp: char_of_byte\<close>)
  then show ?thesis using cstr_not_NULL [OF assms] strlen_cstr [OF assms] by (simp add: cstring_def u)
qed

lemma put_string_outside: "length str < unat (a - p) \<Longrightarrow> put_string p str m a = m a"
  by (simp add: put_string_def)

text \<open>Strings that C can hold and that fit in a small object.\<close>

definition str_ok :: "string \<Rightarrow> bool" where
  "str_ok str \<longleftrightarrow> (\<forall>c \<in> set str. of_char c \<noteq> (0 :: u8)) \<and> length str < 2048"

lemma cstr_put_string:
  assumes "p \<noteq> NULL" and "unat p + length str < 2 ^ 64" and "str_ok str"
  shows "cstr (put_string p str m) p str"
proof -
  have o: "unat (of_nat i :: u64) = i" if "i \<le> length str" for i using that assms(2) by (simp add: unat_of_nat)
  have c: "cstr (put_string p str m) (p + of_nat i) (drop i str)" if "i \<le> length str" for i
    using that
  proof (induction "length str - i" arbitrary: i)
    case 0
    then have i: "i = length str" by simp
    have "unat (p + of_nat i) = unat p + i" using assms(2) o [of i] i by (simp add: unat_word_ariths)
    then have "p + of_nat i \<noteq> NULL" using assms(1) by (metis add_is_0 unat_eq_zero)
    then show ?case using o [of i] i by (simp add: put_string_def)
  next
    case (Suc n)
    then have i: "i < length str" by simp
    have "unat (p + of_nat i) = unat p + i" using assms(2) o [of i] i by (simp add: unat_word_ariths)
    then have nz: "p + of_nat i \<noteq> NULL" using assms(1) by (metis add_is_0 unat_eq_zero)
    have "cstr (put_string p str m) (p + of_nat (Suc i)) (drop (Suc i) str)" by (rule Suc.hyps(1)) (use Suc.hyps(2) i in auto)
    moreover have "of_char (str ! i) \<noteq> (0 :: u8)" using assms(3) i by (simp add: str_ok_def)
    ultimately show ?case using i nz o [of i] by (simp add: Cons_nth_drop_Suc [symmetric] put_string_def add.assoc add.commute [of 1])
  qed
  from c [of 0] show ?thesis by simp
qed

section \<open>Allocation seen from the file system\<close>

definition same_fs :: "fs \<Rightarrow> fs \<Rightarrow> bool" where
  "same_fs s t \<longleftrightarrow> (\<exists>h. t = s\<lparr>hp := h\<rparr>)"

lemma same_fs_hp [simp]: "same_fs s (s\<lparr>hp := h\<rparr>)"
  unfolding same_fs_def by (rule exI) (rule refl)

lemma same_fs_refl [simp]: "same_fs s s"
  unfolding same_fs_def by (rule exI [of _ "hp s"]) simp

lemma same_fs_mem [simp]: "same_fs s (set_mem m t) = same_fs s t"
proof
  assume "same_fs s (set_mem m t)"
  then obtain h where "t\<lparr>hp := (hp t)\<lparr>heap_mem := m\<rparr>\<rparr> = s\<lparr>hp := h\<rparr>" by (auto simp: same_fs_def set_mem_def)
  then have "t = s\<lparr>hp := hp t\<rparr>" by (cases t, cases s) simp
  then show "same_fs s t" unfolding same_fs_def by blast
qed (auto simp: same_fs_def set_mem_def)

lemma same_fs_fields:
  assumes "same_fs s t"
  shows "rnode_at t = rnode_at s" "ramfs_at t = ramfs_at s" "vnode_at t = vnode_at s" "vfs_at t = vfs_at s"
    "vnops_at t = vnops_at s" "vfsops_at t = vfsops_at s" "driver_at t = driver_at s" "kfile_at t = kfile_at s"
    "dirent_at t = dirent_at s" "vfs_list_head t = vfs_list_head s" "vfs_list_lock t = vfs_list_lock s"
    "vfs_driver_list_head t = vfs_driver_list_head s" "vfs_driver_list_lock t = vfs_driver_list_lock s"
    "strtok_next t = strtok_next s" "ramfs_fstype t = ramfs_fstype s"
  using assms by (auto simp: same_fs_def)

lemma same_fs_trans: "same_fs s t \<Longrightarrow> same_fs t u \<Longrightarrow> same_fs s u"
  by (auto simp: same_fs_def)

definition fs_ready :: "fs \<Rightarrow> (u64 \<Rightarrow> nat option) \<Rightarrow> nat \<Rightarrow> bool" where
  "fs_ready s L k \<longleftrightarrow> heap (hp s) L \<and> room (hp s) k"

lemma fs_ready_mono: "fs_ready s L k \<Longrightarrow> j \<le> k \<Longrightarrow> fs_ready s L j"
  by (auto simp: fs_ready_def intro: room_mono)

lemma fs_ready_hp: "hp t = hp s \<Longrightarrow> fs_ready t L k = fs_ready s L k"
  by (simp add: fs_ready_def)

lemma live_offset:
  assumes "heap h M" and "M p = Some c" and "M x = Some e" and "x \<noteq> p" and "i < e"
  shows "c \<le> unat (x + of_nat i - p)"
proof (rule ccontr)
  assume n: "\<not> c \<le> unat (x + of_nat i - p)"
  have "x + of_nat i = p + of_nat (unat (x + of_nat i - p))" by simp
  moreover have "x + of_nat i \<noteq> p + of_nat (unat (x + of_nat i - p))"
    by (rule apart_ranges [OF kheap.live_apart [OF assms(1,3,2,4)] object_size_bound(4) [OF assms(1,3)]
          object_size_bound(4) [OF assms(1,2)] assms(5)]) (use n in simp)
  ultimately show False by blast
qed

lemma bytes_kept_outside:
  assumes "heap h (L(p \<mapsto> c))" and "L p = None" and "\<And>a. c \<le> unat (a - p) \<Longrightarrow> m' a = m a"
  shows "bytes_kept L m m'"
  unfolding bytes_kept_def
proof (intro allI impI)
  fix x e i
  assume x: "L x = Some e" "i < e"
  then have "x \<noteq> p" "(L(p \<mapsto> c)) x = Some e" using assms(2) by auto
  then have "c \<le> unat (x + of_nat i - p)" using live_offset [OF assms(1), of p c x e i] x(2) by simp
  then show "m' (x + of_nat i) = m (x + of_nat i)" by (rule assms(3))
qed

lemma new_raw:
  assumes r: "fs_ready s L (Suc k)" and n: "0 < unat n" "unat n \<le> 2048"
  obtains p t c where "heap_op (kmalloc me n) s = Some (p, t)" "p \<noteq> NULL" "L p = None" "unat n \<le> c"
    "fs_ready t (L(p \<mapsto> c)) k" "bytes_kept L (fs_mem s) (fs_mem t)" "same_fs s t"
proof -
  have h: "heap (hp s) L" "room (hp s) (Suc k)" using r by (simp_all add: fs_ready_def)
  from kmalloc_with_room [OF h(1) n h(2), of me] obtain p t c where
    "kmalloc me n (hp s) = Some (p, t)" "p \<noteq> NULL" "L p = None" "unat n \<le> c" "heap t (L(p \<mapsto> c))"
    "bytes_kept L (heap_mem (hp s)) (heap_mem t)" "room t k" by blast
  then show thesis
    by (intro that [of p "s\<lparr>hp := t\<rparr>" c]) (simp_all add: heap_op_def fs_ready_def fs_mem_def)
qed

lemma new_object:
  assumes r: "fs_ready s L (Suc k)" and n: "0 < unat n" "unat n \<le> 2048"
  obtains p t c where "heap_op (kzalloc me n) s = Some (p, t)" "p \<noteq> NULL" "L p = None" "unat n \<le> c"
    "fs_ready t (L(p \<mapsto> c)) k" "bytes_kept L (fs_mem s) (fs_mem t)" "same_fs s t"
proof -
  have h: "heap (hp s) L" "room (hp s) (Suc k)" using r by (simp_all add: fs_ready_def)
  from kmalloc_with_room [OF h(1) n h(2), of me] obtain p t c where
    t: "kmalloc me n (hp s) = Some (p, t)" "p \<noteq> NULL" "L p = None" "unat n \<le> c" "heap t (L(p \<mapsto> c))"
    "bytes_kept L (heap_mem (hp s)) (heap_mem t)" "room t k" by blast
  let ?m = "memset (heap_mem t) p 0 n"
  have "bytes_kept L (heap_mem t) ?m"
    by (rule bytes_kept_outside [OF t(5,3)]) (use t(4) in \<open>simp add: memset_apply word_less_nat_alt\<close>)
  then have "bytes_kept L (heap_mem (hp s)) ?m" by (rule bytes_kept_trans [OF t(6)])
  then show thesis using t
    by (intro that [of p "s\<lparr>hp := t\<lparr>heap_mem := ?m\<rparr>\<rparr>" c]) (simp_all add: heap_op_def kzalloc_def fs_ready_def fs_mem_def)
qed

text \<open>A string of its own in the heap.\<close>

definition str_at :: "fs \<Rightarrow> (u64 \<Rightarrow> nat option) \<Rightarrow> u64 \<Rightarrow> string \<Rightarrow> bool" where
  "str_at s L p str \<longleftrightarrow> cstr (fs_mem s) p str \<and> (\<exists>c. L p = Some c \<and> length str < c)"

lemma str_at_cstring: "str_at s L p str \<Longrightarrow> cstring (fs_mem s) p = Some str"
  by (simp add: str_at_def cstring_cstr)

lemma str_at_kept:
  assumes "str_at s L p str" and "bytes_kept L (fs_mem s) (fs_mem t)" and "M p = L p"
  shows "str_at t M p str"
proof -
  obtain c where c: "L p = Some c" "length str < c" and s: "cstr (fs_mem s) p str" using assms(1) by (auto simp: str_at_def)
  have "fs_mem t (p + of_nat i) = fs_mem s (p + of_nat i)" if "i \<le> length str" for i
    using assms(2) c that by (simp add: bytes_kept_def)
  then show ?thesis using cstr_frame [OF s] c assms(3) by (auto simp: str_at_def)
qed

lemma str_at_live: "str_at s L p str \<Longrightarrow> L p \<noteq> None"
  by (auto simp: str_at_def)

lemma new_string:
  assumes r: "fs_ready s L (Suc k)" and str: "str_ok str"
  obtains p t c where "dup_string me str s = Some (p, t)" "p \<noteq> NULL" "L p = None"
    "fs_ready t (L(p \<mapsto> c)) k" "bytes_kept L (fs_mem s) (fs_mem t)" "same_fs s t" "str_at t (L(p \<mapsto> c)) p str"
proof -
  have u: "unat (of_nat (length str) + 1 :: u64) = length str + 1"
    using str by (simp add: str_ok_def unat_word_ariths unat_of_nat)
  have n: "0 < unat (of_nat (length str) + 1 :: u64)" "unat (of_nat (length str) + 1 :: u64) \<le> 2048"
    using str by (simp_all add: u str_ok_def)
  obtain p t c where t: "heap_op (kzalloc me (of_nat (length str) + 1)) s = Some (p, t)" "p \<noteq> NULL" "L p = None"
    "unat (of_nat (length str) + 1 :: u64) \<le> c" "fs_ready t (L(p \<mapsto> c)) k" "bytes_kept L (fs_mem s) (fs_mem t)" "same_fs s t"
    by (rule new_object [OF r n])
  let ?t = "set_mem (put_string p str (fs_mem t)) t"
  have h: "heap (hp t) (L(p \<mapsto> c))" using t(5) by (simp add: fs_ready_def)
  have "bytes_kept L (fs_mem t) (fs_mem ?t)"
    by (rule bytes_kept_outside [OF h t(3)]) (use t(4) u in \<open>simp add: fs_mem_def set_mem_def put_string_outside\<close>)
  then have "bytes_kept L (fs_mem s) (fs_mem ?t)" by (rule bytes_kept_trans [OF t(6)])
  moreover have "unat p + c < 2 ^ 64" by (rule object_size_bound(4) [OF h]) simp
  then have "cstr (fs_mem ?t) p str"
    using t(2,4) u str by (simp add: fs_mem_def set_mem_def cstr_put_string)
  ultimately show thesis using t u
    by (intro that [of p ?t c]) (simp_all add: dup_string_def fs_ready_def str_at_def, simp_all add: set_mem_def)
qed

lemma free_object:
  assumes "fs_ready s L k" and "L p = Some c"
  obtains t where "heap_op (kfree me p) s = Some ((), t)" "fs_ready t (L(p := None)) k" "fs_mem t = fs_mem s" "same_fs s t"
proof -
  have h: "heap (hp s) L" "room (hp s) k" using assms(1) by (simp_all add: fs_ready_def)
  from kheap.dealloc_law [OF h(1) assms(2), of me] obtain t where
    t: "kfree me p (hp s) = Some ((), t)" "heap t (L(p := None))" "heap_mem t = heap_mem (hp s)" by blast
  have "room t k" by (rule room_keeps [OF h(2) kfree_keeps [OF t(1)] t(2)])
  with t show thesis by (intro that [of "s\<lparr>hp := t\<rparr>"]) (simp_all add: heap_op_def fs_ready_def fs_mem_def)
qed

text \<open>A state with nothing in it but a heap.\<close>

definition bare_fs :: "kheap \<Rightarrow> fs" where
  "bare_fs h = \<lparr>hp = h,
     rnode_at = (\<lambda>_. \<lparr>rn_name = 0, rn_type = RAMFS_FILE, rn_size = 0, rn_data = 0, rn_mode = 0, rn_sibling = 0, rn_child = 0\<rparr>),
     ramfs_at = (\<lambda>_. \<lparr>rf_root_node = 0, rf_size = 0\<rparr>),
     vnode_at = (\<lambda>_. \<lparr>vn_path = 0, vn_vtype = VNODE_NULL, vn_node_data = 0, vn_uid = 0, vn_gid = 0, vn_mode = 0,
       vn_ops = 0, vn_vfs_here = 0, vn_root_vfs = 0, vn_refcount = 0, vn_lock = SPINLOCK_INIT\<rparr>),
     vfs_at = (\<lambda>_. \<lparr>vf_driver = 0, vf_root_vnode = 0, vf_data = 0, vf_block_size = 0, vf_flags = 0,
       vf_lock = SPINLOCK_INIT, vf_ops = 0, vf_next = 0\<rparr>),
     vnops_at = (\<lambda>_. No_vnops), vfsops_at = (\<lambda>_. No_vfsops),
     driver_at = (\<lambda>_. \<lparr>dr_id = 0, dr_name = [], dr_mount = No_mount, dr_next = 0\<rparr>),
     kfile_at = (\<lambda>_. \<lparr>kf_buf_start = 0, kf_size = 0, kf_flags = 0, kf_offset = 0, kf_private = 0\<rparr>),
     dirent_at = (\<lambda>_. \<lparr>d_ino = 0, d_off = 0, d_reclen = 0, d_type = 0, d_name = []\<rparr>),
     vfs_list_head = 0, vfs_list_lock = SPINLOCK_INIT, vfs_driver_list_head = 0, vfs_driver_list_lock = SPINLOCK_INIT,
     next_vfs_driver_id = 1, strtok_next = None, ramfs_fstype = 0x1000\<rparr>"

lemma bare_ready:
  obtains h where "fs_ready (bare_fs h) Map.empty 15"
proof -
  obtain h :: kheap where "heap h Map.empty" "room h 15" by (rule boot_room)
  then show thesis using that [of h] by (simp add: fs_ready_def bare_fs_def)
qed

end
