(* ===== verification/Vnode.thy ===== *)
theory Vnode
  imports Fs_State
begin

text \<open>
  The part of \<^verbatim>\<open>fs/vfs/vfs.c\<close> that does not call a file system: the list of drivers, the list of
  mounted file systems with the search for the mount a path lies in, and the reference-counted
  vnodes.
\<close>

section \<open>Drivers\<close>

partial_function (option) find_driver_name :: "string \<Rightarrow> u64 \<Rightarrow> fs \<Rightarrow> u64 option" where
  "find_driver_name nm it s =
     (if it = NULL then Some NULL
      else if dr_name (driver_at s it) = nm then Some it
      else find_driver_name nm (dr_next (driver_at s it)) s)"

partial_function (option) find_driver_id :: "u16 \<Rightarrow> u64 \<Rightarrow> u64 \<Rightarrow> fs \<Rightarrow> (u64 \<times> u64) option" where
  "find_driver_id k prev it s =
     (if it = NULL then Some (prev, NULL)
      else if dr_id (driver_at s it) = k then Some (prev, it)
      else find_driver_id k it (dr_next (driver_at s it)) s)"

definition acquire_drivers :: "int \<Rightarrow> fs \<Rightarrow> fs option" where
  "acquire_drivers me s = map_option (\<lambda>l. s\<lparr>vfs_driver_list_lock := l\<rparr>) (lock_acquire me (vfs_driver_list_lock s))"

definition release_drivers :: "int \<Rightarrow> fs \<Rightarrow> fs" where
  "release_drivers me s = s\<lparr>vfs_driver_list_lock := lock_release me (vfs_driver_list_lock s)\<rparr>"

definition vfs_register_driver :: "int \<Rightarrow> u64 \<Rightarrow> fs \<Rightarrow> (int \<times> fs) option" where
  "vfs_register_driver me driver s =
     (if driver = NULL \<or> dr_name (driver_at s driver) = [] \<or> dr_mount (driver_at s driver) = No_mount
      then Some (- EINVAL, s)
      else do {
        s \<leftarrow> acquire_drivers me s;
        it \<leftarrow> find_driver_name (dr_name (driver_at s driver)) (vfs_driver_list_head s) s;
        if it \<noteq> NULL then Some (- EEXIST, release_drivers me s)
        else do {
          s \<leftarrow> set_driver driver (\<lambda>d. d\<lparr>dr_id := next_vfs_driver_id s, dr_next := vfs_driver_list_head s\<rparr>)
                 (s\<lparr>next_vfs_driver_id := next_vfs_driver_id s + 1\<rparr>);
          Some (uint (dr_id (driver_at s driver)), release_drivers me (s\<lparr>vfs_driver_list_head := driver\<rparr>)) } })"

definition vfs_unregister_driver :: "int \<Rightarrow> u16 \<Rightarrow> fs \<Rightarrow> (int \<times> fs) option" where
  "vfs_unregister_driver me k s =
     do {
       s \<leftarrow> acquire_drivers me s;
       (prev, it) \<leftarrow> find_driver_id k NULL (vfs_driver_list_head s) s;
       if it = NULL then Some (- ENOENT, release_drivers me s)
       else do {
         s \<leftarrow> (if prev \<noteq> NULL then set_driver prev (\<lambda>d. d\<lparr>dr_next := dr_next (driver_at s it)\<rparr>) s
               else Some (s\<lparr>vfs_driver_list_head := dr_next (driver_at s it)\<rparr>));
         Some (0, release_drivers me s) } }"

definition vfs_find_driver_by_name :: "int \<Rightarrow> string \<Rightarrow> fs \<Rightarrow> (u64 \<times> fs) option" where
  "vfs_find_driver_by_name me nm s =
     do {
       s \<leftarrow> acquire_drivers me s;
       it \<leftarrow> find_driver_name nm (vfs_driver_list_head s) s;
       Some (it, release_drivers me s) }"

definition vfs_find_driver_by_id :: "int \<Rightarrow> u16 \<Rightarrow> fs \<Rightarrow> (u64 \<times> fs) option" where
  "vfs_find_driver_by_id me k s =
     do {
       s \<leftarrow> acquire_drivers me s;
       (_, it) \<leftarrow> find_driver_id k NULL (vfs_driver_list_head s) s;
       Some (it, release_drivers me s) }"

section \<open>Mounted file systems\<close>

definition zero_vfs :: vfs where
  "zero_vfs = \<lparr>vf_driver = 0, vf_root_vnode = 0, vf_data = 0, vf_block_size = 0, vf_flags = 0,
     vf_lock = SPINLOCK_INIT, vf_ops = 0, vf_next = 0\<rparr>"

definition vfs_create_fs :: "int \<Rightarrow> u64 \<Rightarrow> u64 \<Rightarrow> fs \<Rightarrow> (u64 \<times> fs) option" where
  "vfs_create_fs me driver fs_data s =
     (if driver = NULL then Some (NULL, s)
      else do {
        (v, s) \<leftarrow> heap_op (kzalloc me SIZEOF_VFS) s;
        if v = NULL then Some (NULL, s)
        else do {
          s \<leftarrow> set_vfs v (\<lambda>_. zero_vfs\<lparr>vf_driver := driver, vf_data := fs_data\<rparr>) s;
          (ops, s) \<leftarrow> heap_op (kzalloc me SIZEOF_VFSOPS) s;
          s \<leftarrow> set_vfs v (\<lambda>x. x\<lparr>vf_ops := ops\<rparr>) s;
          if ops = NULL
          then do { (_, s) \<leftarrow> heap_op (kfree me v) s; Some (NULL, s) }
          else do { s \<leftarrow> set_vfsops ops No_vfsops s; Some (v, s) } } })"

definition acquire_mounts :: "int \<Rightarrow> fs \<Rightarrow> fs option" where
  "acquire_mounts me s = map_option (\<lambda>l. s\<lparr>vfs_list_lock := l\<rparr>) (lock_acquire me (vfs_list_lock s))"

definition release_mounts :: "int \<Rightarrow> fs \<Rightarrow> fs" where
  "release_mounts me s = s\<lparr>vfs_list_lock := lock_release me (vfs_list_lock s)\<rparr>"

partial_function (option) last_vfs :: "u64 \<Rightarrow> fs \<Rightarrow> u64 option" where
  "last_vfs v s = (if vf_next (vfs_at s v) = NULL then Some v else last_vfs (vf_next (vfs_at s v)) s)"

definition vfs_append :: "int \<Rightarrow> u64 \<Rightarrow> fs \<Rightarrow> (int \<times> fs) option" where
  "vfs_append me v s =
     do {
       s \<leftarrow> acquire_mounts me s;
       if vfs_list_head s = NULL then Some (EOK, release_mounts me (s\<lparr>vfs_list_head := v\<rparr>))
       else do {
         it \<leftarrow> last_vfs (vfs_list_head s) s;
         s \<leftarrow> set_vfs it (\<lambda>x. x\<lparr>vf_next := v\<rparr>) s;
         Some (EOK, release_mounts me s) } }"

text \<open>
  The test of one mount in \<^verbatim>\<open>vfs_resolve_mount\<close>: \<open>mounted_over path prefix\<close> when the prefix is the
  root and the path absolute, or the path continues after the prefix with a slash or ends there.
\<close>

definition mounted_over :: "string \<Rightarrow> string \<Rightarrow> bool" where
  "mounted_over path prefix \<longleftrightarrow> length prefix \<le> length path \<and>
     (if prefix = ''/'' then take 1 path = ''/''
      else take (length prefix) path = prefix \<and>
           (length path = length prefix \<or> path ! length prefix = CHR ''/''))"

partial_function (option) resolve_loop :: "string \<Rightarrow> u64 \<Rightarrow> u64 \<Rightarrow> nat \<Rightarrow> fs \<Rightarrow> (u64 \<times> nat) option" where
  "resolve_loop path v best best_len s =
     (if v = NULL then Some (best, best_len)
      else let r = vf_root_vnode (vfs_at s v); nxt = vf_next (vfs_at s v) in
        if r = NULL \<or> vn_path (vnode_at s r) = NULL then resolve_loop path nxt best best_len s
        else do {
          prefix \<leftarrow> cstring (fs_mem s) (vn_path (vnode_at s r));
          if mounted_over path prefix \<and> best_len < length prefix
          then resolve_loop path nxt v (length prefix) s
          else resolve_loop path nxt best best_len s })"

text \<open>The results are the return value, \<^verbatim>\<open>*out\<close> and \<^verbatim>\<open>*remaining_path\<close>.\<close>

definition vfs_resolve_mount :: "int \<Rightarrow> string \<Rightarrow> fs \<Rightarrow> ((int \<times> u64 \<times> u64) \<times> fs) option" where
  "vfs_resolve_mount me path s =
     do {
       s \<leftarrow> acquire_mounts me s;
       (best, best_len) \<leftarrow> resolve_loop path (vfs_list_head s) NULL 0 s;
       let s = release_mounts me s;
       let (best, best_len) = (if best = NULL \<and> path = ''/'' \<and> vfs_list_head s \<noteq> NULL
                               then (vfs_list_head s, 1) else (best, best_len));
       if best = NULL then Some ((- ENOENT, NULL, NULL), s)
       else do {
         (rem, s) \<leftarrow> dup_string me (dropWhile (\<lambda>c. c = CHR ''/'') (drop best_len path)) s;
         Some ((EOK, best, rem), s) } }"

section \<open>Vnodes\<close>

definition zero_vnode :: vnode where
  "zero_vnode = \<lparr>vn_path = 0, vn_vtype = VNODE_NULL, vn_node_data = 0, vn_uid = 0, vn_gid = 0, vn_mode = 0,
     vn_ops = 0, vn_vfs_here = 0, vn_root_vfs = 0, vn_refcount = 0, vn_lock = SPINLOCK_INIT\<rparr>"

definition vnode_create :: "int \<Rightarrow> u64 \<Rightarrow> string \<Rightarrow> vnode_type \<Rightarrow> u64 \<Rightarrow> fs \<Rightarrow> (u64 \<times> fs) option" where
  "vnode_create me root_vfs path ty data s =
     do {
       (v, s) \<leftarrow> heap_op (kzalloc me SIZEOF_VNODE) s;
       if v = NULL then Some (NULL, s)
       else do {
         s \<leftarrow> set_vnode v (\<lambda>_. zero_vnode) s;
         (p, s) \<leftarrow> dup_string me path s;
         s \<leftarrow> set_vnode v (\<lambda>x. x\<lparr>vn_path := p, vn_vtype := ty, vn_root_vfs := root_vfs, vn_node_data := data,
                vn_refcount := 1, vn_vfs_here := NULL, vn_lock := SPINLOCK_INIT\<rparr>) s;
         (ops, s) \<leftarrow> heap_op (kzalloc me SIZEOF_VNOPS) s;
         s \<leftarrow> set_vnode v (\<lambda>x. x\<lparr>vn_ops := ops\<rparr>) s;
         if ops = NULL
         then do {
           (_, s) \<leftarrow> heap_op (kfree me p) s;
           (_, s) \<leftarrow> heap_op (kfree me v) s;
           Some (NULL, s) }
         else do { s \<leftarrow> set_vnops ops No_vnops s; Some (v, s) } } }"

definition acquire_vnode :: "int \<Rightarrow> u64 \<Rightarrow> fs \<Rightarrow> fs option" where
  "acquire_vnode me v s =
     do { l \<leftarrow> lock_acquire me (vn_lock (vnode_at s v)); set_vnode v (\<lambda>x. x\<lparr>vn_lock := l\<rparr>) s }"

definition release_vnode :: "int \<Rightarrow> u64 \<Rightarrow> fs \<Rightarrow> fs option" where
  "release_vnode me v s = set_vnode v (\<lambda>x. x\<lparr>vn_lock := lock_release me (vn_lock x)\<rparr>) s"

definition vnode_ref :: "int \<Rightarrow> u64 \<Rightarrow> fs \<Rightarrow> fs option" where
  "vnode_ref me v s =
     (if v = NULL then Some s
      else do {
        s \<leftarrow> acquire_vnode me v s;
        s \<leftarrow> set_vnode v (\<lambda>x. x\<lparr>vn_refcount := vn_refcount x + 1\<rparr>) s;
        release_vnode me v s })"

definition vnode_unref :: "int \<Rightarrow> u64 \<Rightarrow> fs \<Rightarrow> fs option" where
  "vnode_unref me v s =
     (if v = NULL then Some s
      else do {
        s \<leftarrow> acquire_vnode me v s;
        s \<leftarrow> set_vnode v (\<lambda>x. x\<lparr>vn_refcount := vn_refcount x - 1\<rparr>) s;
        if vn_refcount (vnode_at s v) = 0
        then do {
          s \<leftarrow> release_vnode me v s;
          (_, s) \<leftarrow> (if vn_path (vnode_at s v) \<noteq> NULL then heap_op (kfree me (vn_path (vnode_at s v))) s else Some ((), s));
          (_, s) \<leftarrow> (if vn_ops (vnode_at s v) \<noteq> NULL then heap_op (kfree me (vn_ops (vnode_at s v))) s else Some ((), s));
          (_, s) \<leftarrow> heap_op (kfree me v) s;
          Some s }
        else release_vnode me v s })"

end
