(* ===== verification/Ramfs.thy ===== *)
theory Ramfs
  imports Vnode
begin

text \<open>
  The in-memory file system of \<^verbatim>\<open>fs/ramfs/ramfs.c\<close>: a tree of nodes linked by first child and next
  sibling, with names and file contents on the kernel heap, and the operations that the VFS calls
  through its tables. \<^verbatim>\<open>ramfs_print\<close> only writes to the log and is left out; \<^verbatim>\<open>ramfs_vfs_init\<close> calls
  \<^verbatim>\<open>vfs_mount\<close> and is in theory \<open>Vfs\<close>.
\<close>

section \<open>The tree\<close>

definition zero_rnode :: ramfs_node where
  "zero_rnode = \<lparr>rn_name = 0, rn_type = RAMFS_FILE, rn_size = 0, rn_data = 0, rn_mode = 0, rn_sibling = 0, rn_child = 0\<rparr>"

definition ramfs_create_fs :: "int \<Rightarrow> fs \<Rightarrow> (u64 \<times> fs) option" where
  "ramfs_create_fs me s =
     do {
       (r, s) \<leftarrow> heap_op (kzalloc me SIZEOF_RAMFS) s;
       Some (r, if r = NULL then s else s\<lparr>ramfs_at := (ramfs_at s)(r := \<lparr>rf_root_node = 0, rf_size = 0\<rparr>)\<rparr>) }"

definition default_mode :: "ramfs_ftype \<Rightarrow> u32" where
  "default_mode ft = (case ft of RAMFS_DIRECTORY \<Rightarrow> S_IFDIR OR 0x1ED | RAMFS_FILE \<Rightarrow> S_IFREG OR 0x1A4
     | RAMFS_SYMLINK \<Rightarrow> S_IFLNK OR 0x1FF)"

text \<open>The result of \<^verbatim>\<open>kzalloc\<close> is not checked before it is written to.\<close>

definition ramfs_create_node :: "int \<Rightarrow> ramfs_ftype \<Rightarrow> fs \<Rightarrow> (u64 \<times> fs) option" where
  "ramfs_create_node me ft s =
     do {
       (n, s) \<leftarrow> heap_op (kzalloc me SIZEOF_RAMFS_NODE) s;
       s \<leftarrow> set_rnode n (\<lambda>_. zero_rnode\<lparr>rn_type := ft, rn_mode := default_mode ft\<rparr>) s;
       Some (n, s) }"

text \<open>The loop over siblings that compares names; \<open>ok\<close> is what else the caller asks of the node.\<close>

partial_function (option) find_named :: "(ramfs_node \<Rightarrow> bool) \<Rightarrow> string \<Rightarrow> u64 \<Rightarrow> fs \<Rightarrow> u64 option" where
  "find_named ok dir n s =
     (if n = NULL then Some NULL
      else do {
        nm \<leftarrow> cstring (fs_mem s) (rn_name (rnode_at s n));
        if nm = dir \<and> ok (rnode_at s n) then Some n
        else find_named ok dir (rn_sibling (rnode_at s n)) s })"

text \<open>The loop of \<^verbatim>\<open>ramfs_find_node\<close> over the words of the path, from the first child of a directory.\<close>

fun find_walk :: "string list \<Rightarrow> u64 \<Rightarrow> fs \<Rightarrow> u64 option" where
  "find_walk [] cur s = Some NULL"
| "find_walk (dir # ds) cur s =
     do {
       found \<leftarrow> find_named (\<lambda>_. True) dir cur s;
       if found = NULL then Some NULL
       else if ds = [] then Some found
       else find_walk ds (rn_child (rnode_at s found)) s }"

definition ramfs_find_node :: "int \<Rightarrow> u64 \<Rightarrow> string option \<Rightarrow> fs \<Rightarrow> ((int \<times> u64) \<times> fs) option" where
  "ramfs_find_node me ramfs path s =
     (case path of None \<Rightarrow> Some ((-1, NULL), s)
      | Some path \<Rightarrow>
          if ramfs = NULL \<or> rf_root_node (ramfs_at s ramfs) = NULL then Some ((-1, NULL), s)
          else let path = skip_slash path; root = rf_root_node (ramfs_at s ramfs) in
            if path = [] then Some ((0, root), s)
            else do {
              (name_dup, s) \<leftarrow> dup_string me path s;
              found \<leftarrow> find_walk (if name_dup = NULL then [] else path_words path) (rn_child (rnode_at s root)) s;
              (_, s) \<leftarrow> heap_op (kfree me name_dup) s;
              Some ((if found = NULL then -1 else 0, found), s) })"

partial_function (option) last_sibling :: "u64 \<Rightarrow> fs \<Rightarrow> u64 option" where
  "last_sibling n s =
     (if rn_sibling (rnode_at s n) = NULL then Some n else last_sibling (rn_sibling (rnode_at s n)) s)"

definition ramfs_append_child :: "u64 \<Rightarrow> u64 \<Rightarrow> fs \<Rightarrow> (int \<times> fs) option" where
  "ramfs_append_child parent child s =
     do {
       pn \<leftarrow> deref rnode_at parent s;
       if rn_child pn = NULL
       then do { s \<leftarrow> set_rnode parent (\<lambda>x. x\<lparr>rn_child := child\<rparr>) s; Some (0, s) }
       else do {
         l \<leftarrow> last_sibling (rn_child pn) s;
         s \<leftarrow> set_rnode l (\<lambda>x. x\<lparr>rn_sibling := child\<rparr>) s;
         Some (0, s) } }"

text \<open>
  The loop of \<^verbatim>\<open>ramfs_node_add\<close>: missing directories and the file at the end are created on the
  way. The node stays what the caller put in \<^verbatim>\<open>*out\<close> when the path has no words.
\<close>

fun add_walk :: "int \<Rightarrow> string list \<Rightarrow> u64 \<Rightarrow> u64 \<Rightarrow> fs \<Rightarrow> (u64 \<times> fs) option" where
  "add_walk me [] cur out s = Some (out, s)"
| "add_walk me (dir # ds) cur out s =
     (let rt = (if ds \<noteq> [] then RAMFS_DIRECTORY else RAMFS_FILE) in
      do {
        cn \<leftarrow> deref rnode_at cur s;
        found \<leftarrow> find_named (\<lambda>n. rn_type n = rt) dir (rn_child cn) s;
        (found, s) \<leftarrow>
          (if found \<noteq> NULL then Some (found, s)
           else do {
             (n, s) \<leftarrow> ramfs_create_node me rt s;
             (nm, s) \<leftarrow> dup_string me dir s;
             s \<leftarrow> set_rnode n (\<lambda>x. x\<lparr>rn_name := nm\<rparr>) s;
             (_, s) \<leftarrow> ramfs_append_child cur n s;
             Some (n, s) });
        if ds \<noteq> [] then add_walk me ds found out s else Some (found, s) })"

definition ramfs_node_add :: "int \<Rightarrow> u64 \<Rightarrow> string option \<Rightarrow> u64 \<Rightarrow> fs \<Rightarrow> ((int \<times> u64) \<times> fs) option" where
  "ramfs_node_add me ramfs path out s =
     (case path of None \<Rightarrow> Some ((EFAULT, out), s)
      | Some path \<Rightarrow>
          if ramfs = NULL \<or> rf_root_node (ramfs_at s ramfs) = NULL then Some ((EFAULT, out), s)
          else let path = skip_slash path in
            do {
              (name_dup, s) \<leftarrow> dup_string me path s;
              (out, s) \<leftarrow> add_walk me (if name_dup = NULL then [] else path_words path) (rf_root_node (ramfs_at s ramfs)) out s;
              (_, s) \<leftarrow> heap_op (kfree me name_dup) s;
              Some ((EOK, out), s) })"

definition ramfs_find_or_create_node :: "int \<Rightarrow> u64 \<Rightarrow> string option \<Rightarrow> ramfs_ftype \<Rightarrow> fs \<Rightarrow> ((int \<times> u64) \<times> fs) option" where
  "ramfs_find_or_create_node me ramfs path ft s =
     do {
       ((_, found), s) \<leftarrow> ramfs_find_node me ramfs path s;
       if found = NULL
       then do { (n, s) \<leftarrow> ramfs_create_node me ft s; Some ((1, n), s) }
       else Some ((0, found), s) }"

text \<open>
  \<^verbatim>\<open>ramfs_get_node_size\<close>: \<open>node_size True\<close> is the function, \<open>node_size False\<close> its loop over the
  children of a directory.
\<close>

partial_function (option) node_size :: "bool \<Rightarrow> u64 \<Rightarrow> fs \<Rightarrow> u64 option" where
  "node_size whole n s =
     (if whole then
        (if n = NULL then Some 14
         else case rn_type (rnode_at s n) of
             RAMFS_FILE \<Rightarrow> Some (rn_size (rnode_at s n))
           | RAMFS_DIRECTORY \<Rightarrow> node_size False (rn_child (rnode_at s n)) s
           | RAMFS_SYMLINK \<Rightarrow> map_option (\<lambda>k. k + 1) (strlen (fs_mem s) (rn_data (rnode_at s n))))
      else if n = NULL then Some 0
      else do {
        a \<leftarrow> node_size True n s;
        b \<leftarrow> node_size False (rn_sibling (rnode_at s n)) s;
        Some (a + b) })"

definition ramfs_get_node_size :: "u64 \<Rightarrow> fs \<Rightarrow> u64 option" where
  "ramfs_get_node_size n s = node_size True n s"

section \<open>From vnodes to nodes\<close>

text \<open>\<^verbatim>\<open>vnode->path + strlen(vnode->root_vfs->root_vnode->path)\<close>, less one leading slash.\<close>

definition rel_path :: "u64 \<Rightarrow> fs \<Rightarrow> string option" where
  "rel_path v s =
     do {
       x \<leftarrow> deref vnode_at v s;
       f \<leftarrow> deref vfs_at (vn_root_vfs x) s;
       r \<leftarrow> deref vnode_at (vf_root_vnode f) s;
       p \<leftarrow> cstring (fs_mem s) (vn_path x);
       rp \<leftarrow> cstring (fs_mem s) (vn_path r);
       if length rp \<le> length p then Some (skip_slash (drop (length rp) p)) else None }"

text \<open>
  The block at the beginning of the directory operations that finds the node of a vnode: the node
  it carries, the root for an empty relative path, or a search.
\<close>

definition node_of :: "int \<Rightarrow> u64 \<Rightarrow> u64 \<Rightarrow> fs \<Rightarrow> (u64 \<times> fs) option" where
  "node_of me v ramfs s =
     (if vn_node_data (vnode_at s v) \<noteq> NULL then Some (vn_node_data (vnode_at s v), s)
      else do {
        rel \<leftarrow> rel_path v s;
        if rel = [] then do { r \<leftarrow> deref ramfs_at ramfs s; Some (rf_root_node r, s) }
        else do { ((_, n), s) \<leftarrow> ramfs_find_node me ramfs (Some rel) s; Some (n, s) } })"

definition ramfs_of :: "u64 \<Rightarrow> fs \<Rightarrow> u64 option" where
  "ramfs_of v s = do { f \<leftarrow> deref vfs_at (vn_root_vfs (vnode_at s v)) s; Some (vf_data f) }"

section \<open>Vnode operations\<close>

text \<open>\<^verbatim>\<open>vnode\<close> and \<^verbatim>\<open>fio\<close> are \<^verbatim>\<open>*vnode_r\<close> and \<^verbatim>\<open>*fio_out\<close>, which the function does not change.\<close>

definition ramfs_open :: "int \<Rightarrow> u64 \<Rightarrow> u32 \<Rightarrow> u64 \<Rightarrow> fs \<Rightarrow> (int \<times> fs) option" where
  "ramfs_open me vnode flags fio s =
     (if vnode = NULL then Some (EFAULT, s)
      else do {
        ramfs \<leftarrow> ramfs_of vnode s;
        if ramfs = NULL then Some (EFAULT, s)
        else do {
          (node, s) \<leftarrow>
            (if vn_node_data (vnode_at s vnode) \<noteq> NULL then Some (vn_node_data (vnode_at s vnode), s)
             else do {
               rel \<leftarrow> rel_path vnode s;
               ((_, n), s) \<leftarrow> ramfs_find_node me ramfs (Some rel) s;
               Some (n, s) });
          if node = NULL \<and> flags AND V_CREATE = 0 then Some (ENOENT, s)
          else do {
            ((ret, node), s) \<leftarrow>
              (if node \<noteq> NULL then Some ((EOK, node), s)
               else do {
                 rel \<leftarrow> rel_path vnode s;
                 ((ret, node), s) \<leftarrow> ramfs_node_add me ramfs (Some rel) NULL s;
                 if ret \<noteq> EOK then Some ((ret, node), s)
                 else if flags AND V_DIR \<noteq> 0
                 then do {
                   s \<leftarrow> set_rnode node (\<lambda>x. x\<lparr>rn_type := RAMFS_DIRECTORY, rn_size := 0, rn_data := NULL\<rparr>) s;
                   Some ((EOK, node), s) }
                 else Some ((EOK, node), s) });
            if ret \<noteq> EOK then Some (ENOTRECOVERABLE, s)
            else do {
              nd \<leftarrow> deref rnode_at node s;
              s \<leftarrow> set_vnode vnode (\<lambda>x. x\<lparr>vn_node_data := node\<rparr>) s;
              if fio = NULL then Some (EFAULT, s)
              else do {
                s \<leftarrow> (if rn_type nd \<noteq> RAMFS_DIRECTORY
                      then set_kfile fio (\<lambda>x. x\<lparr>kf_buf_start := rn_data nd, kf_size := rn_size nd\<rparr>) s
                      else set_kfile fio (\<lambda>x. x\<lparr>kf_buf_start := NULL, kf_size := 0\<rparr>) s);
                s \<leftarrow> set_kfile fio (\<lambda>x. x\<lparr>kf_private := vnode\<rparr>) s;
                Some (EOK, s) } } } } })"

text \<open>The results are the return value and \<^verbatim>\<open>*bytes\<close>; \<^verbatim>\<open>*offset\<close> is not changed.\<close>

definition ramfs_read :: "u64 \<Rightarrow> u64 \<Rightarrow> u64 \<Rightarrow> u64 \<Rightarrow> fs \<Rightarrow> ((int \<times> u64) \<times> fs) option" where
  "ramfs_read vn bytes offset out s =
     (if vn = NULL then Some ((- EFAULT, bytes), s)
      else let s = set_mem (memset (fs_mem s) out 0 bytes) s;
               n = vn_node_data (vnode_at s vn); size = rn_size (rnode_at s n) in
        if n = NULL then Some ((- EFAULT, bytes), s)
        else if \<not> size < bytes \<and> size \<le> offset then Some ((- EINVAL, bytes), s)
        else let b1 = (if size < bytes then size else bytes);
                 b2 = (if size < b1 + offset then size - offset else b1)
          in Some ((EOK, b2), set_mem (memcpy (fs_mem s) out (rn_data (rnode_at s n) + offset) b2) s))"

text \<open>Writing through the null pointer of a failed \<^verbatim>\<open>krealloc\<close> faults.\<close>

definition ramfs_write :: "int \<Rightarrow> u64 \<Rightarrow> u64 \<Rightarrow> u64 \<Rightarrow> u64 \<Rightarrow> fs \<Rightarrow> (int \<times> fs) option" where
  "ramfs_write me vn buf bytes offset s =
     (if vn = NULL then Some (EFAULT, s)
      else let n = vn_node_data (vnode_at s vn) in
        if n = NULL then Some (EFAULT, s)
        else do {
          s \<leftarrow> (if rn_size (rnode_at s n) < bytes + offset
                then do {
                  let more = (bytes + offset) - rn_size (rnode_at s n);
                  (d, s) \<leftarrow> heap_op (krealloc me (rn_data (rnode_at s n)) (rn_size (rnode_at s n) + more)) s;
                  set_rnode n (\<lambda>x. x\<lparr>rn_data := d, rn_size := rn_size x + more\<rparr>) s }
                else Some s);
          if rn_data (rnode_at s n) = NULL \<and> bytes \<noteq> 0 then None
          else Some (EOK, set_mem (memcpy (fs_mem s) (rn_data (rnode_at s n) + offset) buf bytes) s) })"

definition ramfs_close :: "u64 \<Rightarrow> fs \<Rightarrow> (int \<times> fs) option" where
  "ramfs_close vnode s =
     (if vnode = NULL then Some (EFAULT, s)
      else if vn_node_data (vnode_at s vnode) = NULL then Some (EFAULT, s)
      else do { s \<leftarrow> set_vnode vnode (\<lambda>x. x\<lparr>vn_node_data := NULL\<rparr>) s; Some (EOK, s) })"

definition ramfs_ioctl :: "u64 \<Rightarrow> int" where
  "ramfs_ioctl vnode = (if vnode = NULL then EFAULT else ENOSYS)"

definition vtype_of :: "ramfs_ftype \<Rightarrow> vnode_type" where
  "vtype_of ft = (case ft of RAMFS_FILE \<Rightarrow> VNODE_REGULAR | RAMFS_DIRECTORY \<Rightarrow> VNODE_DIR | RAMFS_SYMLINK \<Rightarrow> VNODE_LINK)"

text \<open>The vnode that \<^verbatim>\<open>ramfs_lookup\<close> and \<^verbatim>\<open>ramfs_create\<close> make for a child of a directory.\<close>

definition child_vnode :: "int \<Rightarrow> u64 \<Rightarrow> string \<Rightarrow> vnode_type \<Rightarrow> u64 \<Rightarrow> fs \<Rightarrow> (u64 \<times> fs) option" where
  "child_vnode me parent name ty child s =
     do {
       p \<leftarrow> cstring (fs_mem s) (vn_path (vnode_at s parent));
       (cp, s) \<leftarrow> heap_op (kmalloc me (of_nat (length p) + of_nat (length name) + 2)) s;
       cpath \<leftarrow> join_path p name;
       if cp = NULL then None
       else do {
         let s = set_mem (put_string cp cpath (fs_mem s)) s;
         (v, s) \<leftarrow> vnode_create me (vn_root_vfs (vnode_at s parent)) cpath ty child s;
         (_, s) \<leftarrow> heap_op (kfree me cp) s;
         cn \<leftarrow> deref rnode_at child s;
         s \<leftarrow> set_vnode v (\<lambda>x. x\<lparr>vn_mode := rn_mode cn\<rparr>) s;
         if vn_ops (vnode_at s parent) = NULL then None
         else do {
           s \<leftarrow> set_vnops (vn_ops (vnode_at s v)) (vnops_at s (vn_ops (vnode_at s parent))) s;
           Some (v, s) } } }"

definition ramfs_lookup :: "int \<Rightarrow> u64 \<Rightarrow> string option \<Rightarrow> fs \<Rightarrow> ((int \<times> u64) \<times> fs) option" where
  "ramfs_lookup me parent name s =
     (case name of None \<Rightarrow> Some ((EFAULT, NULL), s)
      | Some name \<Rightarrow>
          if parent = NULL then Some ((EFAULT, NULL), s)
          else do {
            ramfs \<leftarrow> ramfs_of parent s;
            if ramfs = NULL then Some ((EFAULT, NULL), s)
            else do {
              (pn, s) \<leftarrow> node_of me parent ramfs s;
              if pn = NULL then Some ((ENOENT, NULL), s)
              else if rn_type (rnode_at s pn) \<noteq> RAMFS_DIRECTORY then Some ((ENOTDIR, NULL), s)
              else do {
                child \<leftarrow> find_named (\<lambda>_. True) name (rn_child (rnode_at s pn)) s;
                if child = NULL then Some ((ENOENT, NULL), s)
                else do {
                  (v, s) \<leftarrow> child_vnode me parent name (vtype_of (rn_type (rnode_at s child))) child s;
                  Some ((EOK, v), s) } } } })"

definition dtype_of :: "ramfs_ftype \<Rightarrow> u8" where
  "dtype_of ft = (case ft of RAMFS_DIRECTORY \<Rightarrow> DT_DIR | RAMFS_SYMLINK \<Rightarrow> DT_LNK | RAMFS_FILE \<Rightarrow> DT_REG)"

partial_function (option) readdir_loop :: "u64 \<Rightarrow> u64 \<Rightarrow> u64 \<Rightarrow> u64 \<Rightarrow> fs \<Rightarrow> (u64 \<times> fs) option" where
  "readdir_loop entries mx child idx s =
     (if child = NULL \<or> \<not> idx < mx then Some (idx, s)
      else do {
        nm \<leftarrow> cstring (fs_mem s) (rn_name (rnode_at s child));
        let e = \<lparr>d_ino = child, d_off = idx + 1, d_reclen = 275,
                 d_type = dtype_of (rn_type (rnode_at s child)), d_name = take 255 nm\<rparr>;
        readdir_loop entries mx (rn_sibling (rnode_at s child)) (idx + 1)
          (s\<lparr>dirent_at := (dirent_at s)(entries + idx * SIZEOF_DIRENT := e)\<rparr>) })"

definition ramfs_readdir :: "int \<Rightarrow> u64 \<Rightarrow> u64 \<Rightarrow> u64 \<Rightarrow> fs \<Rightarrow> ((int \<times> u64) \<times> fs) option" where
  "ramfs_readdir me vnode entries count s =
     (if vnode = NULL \<or> entries = NULL then Some ((EFAULT, count), s)
      else if vn_vtype (vnode_at s vnode) \<noteq> VNODE_DIR then Some ((ENOTDIR, count), s)
      else do {
        ramfs \<leftarrow> ramfs_of vnode s;
        if ramfs = NULL then Some ((EFAULT, count), s)
        else do {
          (dn, s) \<leftarrow> node_of me vnode ramfs s;
          if dn = NULL \<or> rn_type (rnode_at s dn) \<noteq> RAMFS_DIRECTORY then Some ((ENOTDIR, count), s)
          else do {
            (idx, s) \<leftarrow> readdir_loop entries count (rn_child (rnode_at s dn)) 0 s;
            Some ((EOK, idx), s) } } })"

text \<open>The results are the return value and the string left in \<^verbatim>\<open>buf\<close>.\<close>

definition ramfs_readlink :: "u64 \<Rightarrow> u64 \<Rightarrow> fs \<Rightarrow> (int \<times> string) option" where
  "ramfs_readlink vnode sz s =
     (if vnode = NULL then Some (EFAULT, [])
      else if vn_vtype (vnode_at s vnode) \<noteq> VNODE_LINK then Some (EINVAL, [])
      else let n = vn_node_data (vnode_at s vnode) in
        if n = NULL \<or> rn_type (rnode_at s n) \<noteq> RAMFS_SYMLINK then Some (EINVAL, [])
        else if rn_data (rnode_at s n) = NULL then Some (EINVAL, [])
        else do {
          target \<leftarrow> cstring (fs_mem s) (rn_data (rnode_at s n));
          let len = (if of_nat (length target) < sz - 1 then of_nat (length target) else sz - 1);
          Some (EOK, take (unat len) target) })"

text \<open>
  What \<^verbatim>\<open>ramfs_mkdir\<close>, \<^verbatim>\<open>ramfs_create\<close> and \<^verbatim>\<open>ramfs_symlink\<close> do before they make a node: the directory
  of the parent vnode is found and must not have a child of the name. The result is an error or
  the directory's node.
\<close>

definition new_child_check :: "int \<Rightarrow> u64 \<Rightarrow> string \<Rightarrow> fs \<Rightarrow> ((int \<times> u64) \<times> fs) option" where
  "new_child_check me parent name s =
     do {
       ramfs \<leftarrow> ramfs_of parent s;
       if ramfs = NULL then Some ((EFAULT, NULL), s)
       else do {
         (pn, s) \<leftarrow> node_of me parent ramfs s;
         if pn = NULL \<or> rn_type (rnode_at s pn) \<noteq> RAMFS_DIRECTORY then Some ((ENOTDIR, NULL), s)
         else do {
           c \<leftarrow> find_named (\<lambda>_. True) name (rn_child (rnode_at s pn)) s;
           Some ((if c \<noteq> NULL then EEXIST else EOK, pn), s) } } }"

definition ramfs_mkdir :: "int \<Rightarrow> u64 \<Rightarrow> string option \<Rightarrow> u32 \<Rightarrow> fs \<Rightarrow> (int \<times> fs) option" where
  "ramfs_mkdir me parent name mode s =
     (case name of None \<Rightarrow> Some (EFAULT, s)
      | Some name \<Rightarrow>
          if parent = NULL then Some (EFAULT, s)
          else do {
            ((ret, pn), s) \<leftarrow> new_child_check me parent name s;
            if ret \<noteq> EOK then Some (ret, s)
            else do {
              (n, s) \<leftarrow> ramfs_create_node me RAMFS_DIRECTORY s;
              (nm, s) \<leftarrow> dup_string me name s;
              s \<leftarrow> set_rnode n (\<lambda>x. x\<lparr>rn_name := nm, rn_mode := S_IFDIR OR (mode AND 0x1FF)\<rparr>) s;
              (_, s) \<leftarrow> ramfs_append_child pn n s;
              Some (EOK, s) } })"

text \<open>
  The loops of \<^verbatim>\<open>ramfs_rmdir\<close> and \<^verbatim>\<open>ramfs_remove\<close> walk with a pointer \<^verbatim>\<open>prev\<close> to the link they came
  through: the child field of the directory (\<open>prev = NULL\<close>) or the sibling field of a node. They
  return the predecessor and the child found.
\<close>

partial_function (option) find_prev :: "string \<Rightarrow> u64 \<Rightarrow> u64 \<Rightarrow> fs \<Rightarrow> (u64 \<times> u64) option" where
  "find_prev name prev child s =
     (if child = NULL then Some (prev, NULL)
      else do {
        nm \<leftarrow> cstring (fs_mem s) (rn_name (rnode_at s child));
        if nm = name then Some (prev, child)
        else find_prev name child (rn_sibling (rnode_at s child)) s })"

definition unlink_child :: "u64 \<Rightarrow> u64 \<Rightarrow> u64 \<Rightarrow> fs \<Rightarrow> fs option" where
  "unlink_child pn prev child s =
     (if prev = NULL then set_rnode pn (\<lambda>x. x\<lparr>rn_child := rn_sibling (rnode_at s child)\<rparr>) s
      else set_rnode prev (\<lambda>x. x\<lparr>rn_sibling := rn_sibling (rnode_at s child)\<rparr>) s)"

definition ramfs_rmdir :: "int \<Rightarrow> u64 \<Rightarrow> string option \<Rightarrow> fs \<Rightarrow> (int \<times> fs) option" where
  "ramfs_rmdir me parent name s =
     (case name of None \<Rightarrow> Some (EFAULT, s)
      | Some name \<Rightarrow>
          if parent = NULL then Some (EFAULT, s)
          else do {
            ramfs \<leftarrow> ramfs_of parent s;
            if ramfs = NULL then Some (EFAULT, s)
            else do {
              (pn, s) \<leftarrow> node_of me parent ramfs s;
              if pn = NULL \<or> rn_type (rnode_at s pn) \<noteq> RAMFS_DIRECTORY then Some (ENOTDIR, s)
              else do {
                (prev, child) \<leftarrow> find_prev name NULL (rn_child (rnode_at s pn)) s;
                if child = NULL then Some (ENOENT, s)
                else if rn_type (rnode_at s child) \<noteq> RAMFS_DIRECTORY then Some (ENOTDIR, s)
                else if rn_child (rnode_at s child) \<noteq> NULL then Some (ENOTEMPTY, s)
                else do {
                  s \<leftarrow> unlink_child pn prev child s;
                  (_, s) \<leftarrow> heap_op (kfree me (rn_name (rnode_at s child))) s;
                  (_, s) \<leftarrow> heap_op (kfree me child) s;
                  Some (EOK, s) } } } })"

definition ramfs_create :: "int \<Rightarrow> u64 \<Rightarrow> string option \<Rightarrow> u32 \<Rightarrow> fs \<Rightarrow> ((int \<times> u64) \<times> fs) option" where
  "ramfs_create me parent name mode s =
     (case name of None \<Rightarrow> Some ((EFAULT, NULL), s)
      | Some name \<Rightarrow>
          if parent = NULL then Some ((EFAULT, NULL), s)
          else do {
            ((ret, pn), s) \<leftarrow> new_child_check me parent name s;
            if ret \<noteq> EOK then Some ((ret, NULL), s)
            else do {
              (n, s) \<leftarrow> ramfs_create_node me RAMFS_FILE s;
              (nm, s) \<leftarrow> dup_string me name s;
              s \<leftarrow> set_rnode n (\<lambda>x. x\<lparr>rn_name := nm, rn_size := 0, rn_data := NULL, rn_mode := S_IFREG OR mode\<rparr>) s;
              (_, s) \<leftarrow> ramfs_append_child pn n s;
              (v, s) \<leftarrow> child_vnode me parent name VNODE_REGULAR n s;
              Some ((EOK, v), s) } })"

definition ramfs_remove :: "int \<Rightarrow> u64 \<Rightarrow> string option \<Rightarrow> fs \<Rightarrow> (int \<times> fs) option" where
  "ramfs_remove me parent name s =
     (case name of None \<Rightarrow> Some (EFAULT, s)
      | Some name \<Rightarrow>
          if parent = NULL then Some (EFAULT, s)
          else do {
            ramfs \<leftarrow> ramfs_of parent s;
            if ramfs = NULL then Some (EFAULT, s)
            else do {
              (pn, s) \<leftarrow> node_of me parent ramfs s;
              if pn = NULL \<or> rn_type (rnode_at s pn) \<noteq> RAMFS_DIRECTORY then Some (ENOTDIR, s)
              else do {
                (prev, child) \<leftarrow> find_prev name NULL (rn_child (rnode_at s pn)) s;
                if child = NULL then Some (ENOENT, s)
                else if rn_type (rnode_at s child) = RAMFS_DIRECTORY then Some (EISDIR, s)
                else do {
                  s \<leftarrow> unlink_child pn prev child s;
                  (_, s) \<leftarrow> heap_op (kfree me (rn_name (rnode_at s child))) s;
                  (_, s) \<leftarrow> (if rn_data (rnode_at s child) \<noteq> NULL then heap_op (kfree me (rn_data (rnode_at s child))) s
                             else Some ((), s));
                  (_, s) \<leftarrow> heap_op (kfree me child) s;
                  Some (EOK, s) } } } })"

definition ramfs_symlink :: "int \<Rightarrow> u64 \<Rightarrow> string option \<Rightarrow> string option \<Rightarrow> fs \<Rightarrow> (int \<times> fs) option" where
  "ramfs_symlink me parent name target s =
     (case (name, target) of
        (Some name, Some target) \<Rightarrow>
          if parent = NULL then Some (EFAULT, s)
          else do {
            ((ret, pn), s) \<leftarrow> new_child_check me parent name s;
            if ret \<noteq> EOK then Some (ret, s)
            else do {
              (n, s) \<leftarrow> ramfs_create_node me RAMFS_SYMLINK s;
              (nm, s) \<leftarrow> dup_string me name s;
              (d, s) \<leftarrow> dup_string me target s;
              s \<leftarrow> set_rnode n (\<lambda>x. x\<lparr>rn_name := nm, rn_size := of_nat (length target) + 1, rn_data := d\<rparr>) s;
              (_, s) \<leftarrow> ramfs_append_child pn n s;
              Some (EOK, s) } }
      | _ \<Rightarrow> Some (EFAULT, s))"

text \<open>The result holds the contents of \<^verbatim>\<open>*st\<close> when the call succeeds.\<close>

definition ramfs_getattr :: "int \<Rightarrow> u64 \<Rightarrow> fs \<Rightarrow> ((int \<times> stat option) \<times> fs) option" where
  "ramfs_getattr me vnode s =
     (if vnode = NULL then Some ((EFAULT, None), s)
      else do {
        (n, s) \<leftarrow>
          (if vn_node_data (vnode_at s vnode) \<noteq> NULL then Some (vn_node_data (vnode_at s vnode), s)
           else do { ramfs \<leftarrow> ramfs_of vnode s; node_of me vnode ramfs s });
        if n = NULL then Some ((EFAULT, None), s)
        else let nd = rnode_at s n; v = vnode_at s vnode in
          Some ((EOK, Some \<lparr>st_dev = 1, st_ino = n, st_nlink = 1, st_mode = rn_mode nd, st_uid = vn_uid v, st_gid = vn_gid v,
            st_rdev = 0, st_size = rn_size nd, st_blksize = 4096, st_blocks = (rn_size nd + 4095) div 4096,
            st_atim = (0, 0), st_mtim = (0, 0), st_ctim = (0, 0)\<rparr>), s) })"

definition ramfs_setattr :: "u64 \<Rightarrow> stat option \<Rightarrow> fs \<Rightarrow> (int \<times> fs) option" where
  "ramfs_setattr vnode st s =
     (case st of None \<Rightarrow> Some (EFAULT, s)
      | Some st \<Rightarrow>
          if vnode = NULL then Some (EFAULT, s)
          else if vn_node_data (vnode_at s vnode) = NULL then Some (EFAULT, s)
          else do {
            s \<leftarrow> set_rnode (vn_node_data (vnode_at s vnode)) (\<lambda>x. x\<lparr>rn_mode := st_mode st\<rparr>) s;
            s \<leftarrow> set_vnode vnode (\<lambda>x. x\<lparr>vn_uid := st_uid st, vn_gid := st_gid st\<rparr>) s;
            Some (EOK, s) })"

section \<open>Operations on the mounted file system\<close>

definition ramfs_vfs_mount :: "u64 \<Rightarrow> int" where
  "ramfs_vfs_mount v = (if v = NULL then EFAULT else EOK)"

definition ramfs_vfs_unmount :: "u64 \<Rightarrow> int" where
  "ramfs_vfs_unmount v = (if v = NULL then EFAULT else EOK)"

definition ramfs_vfs_root :: "int \<Rightarrow> u64 \<Rightarrow> fs \<Rightarrow> ((int \<times> u64) \<times> fs) option" where
  "ramfs_vfs_root me v s =
     (if v = NULL then Some ((EFAULT, NULL), s)
      else do {
        s \<leftarrow> vnode_ref me (vf_root_vnode (vfs_at s v)) s;
        Some ((EOK, vf_root_vnode (vfs_at s v)), s) })"

definition ramfs_vfs_statfs :: "u64 \<Rightarrow> fs \<Rightarrow> int \<times> statfs option" where
  "ramfs_vfs_statfs v s =
     (if v = NULL then (EFAULT, None)
      else if vf_data (vfs_at s v) = NULL then (EFAULT, None)
      else (EOK, Some \<lparr>sf_block_size = 1, sf_total_blocks = rf_size (ramfs_at s (vf_data (vfs_at s v))),
              sf_free_blocks = 0, sf_total_nodes = 0, sf_free_nodes = 0\<rparr>))"

definition ramfs_vfs_sync :: "u64 \<Rightarrow> int" where
  "ramfs_vfs_sync v = EOK"

text \<open>The root directory that \<^verbatim>\<open>ramfs_fstype_mount\<close> gives a file system without one.\<close>

definition make_root :: "int \<Rightarrow> u64 \<Rightarrow> fs \<Rightarrow> fs option" where
  "make_root me ramfs s =
     do {
       (n, s) \<leftarrow> ramfs_create_node me RAMFS_DIRECTORY s;
       s \<leftarrow> set_ramfs ramfs (\<lambda>x. x\<lparr>rf_root_node := n\<rparr>) s;
       (nm, s) \<leftarrow> dup_string me ''/'' s;
       set_rnode n (\<lambda>x. x\<lparr>rn_name := nm\<rparr>) s }"

definition ramfs_fstype_mount :: "int \<Rightarrow> u64 \<Rightarrow> string \<Rightarrow> fs \<Rightarrow> ((int \<times> u64) \<times> fs) option" where
  "ramfs_fstype_mount me device mount_point s =
     do {
       (ramfs, s) \<leftarrow>
         (if device \<noteq> NULL then Some (device, s)
          else do {
            (r, s) \<leftarrow> ramfs_create_fs me s;
            s \<leftarrow> make_root me r s;
            Some (r, s) });
       s \<leftarrow> (if rf_root_node (ramfs_at s ramfs) = NULL then make_root me ramfs s else Some s);
       (v, s) \<leftarrow> vfs_create_fs me (ramfs_fstype s) ramfs s;
       if v = NULL then Some ((ENOMEM, NULL), s)
       else do {
         s \<leftarrow> set_vfsops (vf_ops (vfs_at s v)) Ramfs_vfsops s;
         (r, s) \<leftarrow> vnode_create me v mount_point VNODE_DIR (rf_root_node (ramfs_at s ramfs)) s;
         s \<leftarrow> set_vfs v (\<lambda>x. x\<lparr>vf_root_vnode := r\<rparr>) s;
         if r = NULL
         then do {
           (_, s) \<leftarrow> heap_op (kfree me (vf_ops (vfs_at s v))) s;
           (_, s) \<leftarrow> heap_op (kfree me v) s;
           Some ((ENOMEM, NULL), s) }
         else do {
           (_, s) \<leftarrow> (if vn_path (vnode_at s r) \<noteq> NULL then heap_op (kfree me (vn_path (vnode_at s r))) s else Some ((), s));
           (p, s) \<leftarrow> dup_string me mount_point s;
           s \<leftarrow> set_vnode r (\<lambda>x. x\<lparr>vn_path := p\<rparr>) s;
           s \<leftarrow> set_vnops (vn_ops (vnode_at s r)) Ramfs_vnops s;
           s \<leftarrow> set_vnode r (\<lambda>x. x\<lparr>vn_mode := rn_mode (rnode_at s (rf_root_node (ramfs_at s ramfs)))\<rparr>) s;
           Some ((EOK, v), s) } } }"

definition ramfs_init :: "int \<Rightarrow> fs \<Rightarrow> fs option" where
  "ramfs_init me s = map_option snd (vfs_register_driver me (ramfs_fstype s) s)"

end
