(* ===== verification/Ramfs_Tree.thy ===== *)
theory Ramfs_Tree
  imports Ramfs
begin

text \<open>
  The tree that ramfs keeps in the heap. \<open>tree_inv s L T G\<close> relates the state to an abstract
  directory graph \<open>G\<close>, which gives for the node of a directory its entries in order, each a name
  with a node. The ghost \<open>T\<close> gives every object of the tree its role, so that no two parts of the
  tree share an object of the heap \<open>L\<close>.
\<close>

section \<open>The invariant\<close>

type_synonym dirs = "u64 \<Rightarrow> (string \<times> u64) list option"

datatype role = Is_root | Is_node u64 | Is_name u64 | Is_data u64

abbreviation sib :: "fs \<Rightarrow> u64 \<Rightarrow> u64" where
  "sib s n \<equiv> rn_sibling (rnode_at s n)"

definition node_ok :: "fs \<Rightarrow> (u64 \<Rightarrow> nat option) \<Rightarrow> (u64 \<Rightarrow> role option) \<Rightarrow> u64 \<Rightarrow> string \<Rightarrow> u64 \<Rightarrow> bool" where
  "node_ok s L T d nm n \<longleftrightarrow>
     T n = Some (Is_node d) \<and> L n \<noteq> None \<and>
     str_at s L (rn_name (rnode_at s n)) nm \<and> T (rn_name (rnode_at s n)) = Some (Is_name n) \<and>
     (rn_data (rnode_at s n) \<noteq> NULL \<longrightarrow> T (rn_data (rnode_at s n)) = Some (Is_data n) \<and>
        (\<exists>c. L (rn_data (rnode_at s n)) = Some c \<and> unat (rn_size (rnode_at s n)) \<le> c)) \<and>
     (rn_data (rnode_at s n) = NULL \<longrightarrow> rn_size (rnode_at s n) = 0) \<and>
     (rn_type (rnode_at s n) = RAMFS_DIRECTORY \<longrightarrow> rn_data (rnode_at s n) = NULL) \<and>
     (rn_type (rnode_at s n) = RAMFS_SYMLINK \<longrightarrow> (\<exists>target. str_at s L (rn_data (rnode_at s n)) target))"

definition entries_ok :: "fs \<Rightarrow> (u64 \<Rightarrow> nat option) \<Rightarrow> (u64 \<Rightarrow> role option) \<Rightarrow> dirs \<Rightarrow> u64 \<Rightarrow> (string \<times> u64) list \<Rightarrow> bool" where
  "entries_ok s L T G d es \<longleftrightarrow> distinct (map fst es) \<and> distinct (map snd es) \<and>
     (\<forall>(nm, n) \<in> set es. node_ok s L T d nm n \<and> (G n \<noteq> None \<longleftrightarrow> rn_type (rnode_at s n) = RAMFS_DIRECTORY) \<and>
        (rn_type (rnode_at s n) \<noteq> RAMFS_DIRECTORY \<longrightarrow> rn_child (rnode_at s n) = NULL))"

definition dir_ok :: "fs \<Rightarrow> (u64 \<Rightarrow> nat option) \<Rightarrow> (u64 \<Rightarrow> role option) \<Rightarrow> dirs \<Rightarrow> u64 \<Rightarrow> (string \<times> u64) list \<Rightarrow> bool" where
  "dir_ok s L T G d es \<longleftrightarrow> d \<noteq> NULL \<and> L d \<noteq> None \<and> (T d = Some Is_root \<or> (\<exists>p. T d = Some (Is_node p))) \<and>
     rn_type (rnode_at s d) = RAMFS_DIRECTORY \<and> chain (sib s) (rn_child (rnode_at s d)) (map snd es) \<and>
     d \<notin> snd ` set es \<and> entries_ok s L T G d es"

definition tree_inv :: "fs \<Rightarrow> (u64 \<Rightarrow> nat option) \<Rightarrow> (u64 \<Rightarrow> role option) \<Rightarrow> dirs \<Rightarrow> bool" where
  "tree_inv s L T G \<longleftrightarrow> (\<forall>d es. G d = Some es \<longrightarrow> dir_ok s L T G d es)"

text \<open>The nodes of the tree, and all its objects.\<close>

definition members :: "dirs \<Rightarrow> u64 set" where
  "members G = (\<Union>d \<in> dom G. snd ` set (the (G d)))"

definition nodes :: "dirs \<Rightarrow> u64 set" where
  "nodes G = dom G \<union> members G"

definition objects :: "fs \<Rightarrow> dirs \<Rightarrow> u64 set" where
  "objects s G = nodes G \<union> {rn_name (rnode_at s n) | n. n \<in> members G} \<union>
     ({rn_data (rnode_at s n) | n. n \<in> members G} - {NULL})"

lemma member_iff: "n \<in> members G \<longleftrightarrow> (\<exists>d es nm. G d = Some es \<and> (nm, n) \<in> set es)"
  by (auto simp: members_def) force+

lemma tree_invD: "tree_inv s L T G \<Longrightarrow> G d = Some es \<Longrightarrow> dir_ok s L T G d es"
  by (simp add: tree_inv_def)

lemma entry_ok:
  assumes "tree_inv s L T G" and "G d = Some es" and "(nm, n) \<in> set es"
  shows "node_ok s L T d nm n" and "G n \<noteq> None \<longleftrightarrow> rn_type (rnode_at s n) = RAMFS_DIRECTORY"
    and "rn_type (rnode_at s n) \<noteq> RAMFS_DIRECTORY \<Longrightarrow> rn_child (rnode_at s n) = NULL" and "n \<in> members G"
proof -
  have "entries_ok s L T G d es" using tree_invD [OF assms(1,2)] by (simp add: dir_ok_def)
  with assms(3) show "node_ok s L T d nm n" "G n \<noteq> None \<longleftrightarrow> rn_type (rnode_at s n) = RAMFS_DIRECTORY"
    "rn_type (rnode_at s n) \<noteq> RAMFS_DIRECTORY \<Longrightarrow> rn_child (rnode_at s n) = NULL"
    unfolding entries_ok_def by blast+
  show "n \<in> members G" using assms(2,3) by (auto simp: member_iff)
qed

lemma nodes_live:
  assumes "tree_inv s L T G" and "n \<in> nodes G"
  shows "L n \<noteq> None"
  using assms(2) unfolding nodes_def
proof
  assume "n \<in> dom G"
  then obtain es where "G n = Some es" by blast
  then show ?thesis using tree_invD [OF assms(1)] by (simp add: dir_ok_def)
next
  assume "n \<in> members G"
  then obtain d es nm where "G d = Some es" "(nm, n) \<in> set es" by (auto simp: member_iff)
  then show ?thesis using entry_ok(1) [OF assms(1)] by (simp add: node_ok_def)
qed

text \<open>
  Frame: the tree is unchanged when the objects it uses are. The entries of one directory first.
\<close>

lemma node_ok_frame:
  assumes "node_ok s L T d nm n" and "rnode_at t n = rnode_at s n"
    and "\<And>p. p \<in> {n, rn_name (rnode_at s n), rn_data (rnode_at s n)} \<Longrightarrow> p \<noteq> NULL \<Longrightarrow> M p = L p \<and> U p = T p"
    and "bytes_kept L (fs_mem s) (fs_mem t)" and "n \<noteq> NULL"
  shows "node_ok t M U d nm n"
proof -
  have nm: "rn_name (rnode_at s n) \<noteq> NULL" using assms(1) by (auto simp: node_ok_def str_at_def dest: cstr_not_NULL)
  have k: "str_at t M p str" if "str_at s L p str" "M p = L p" for p str
    using str_at_kept [of s L p str t M] that assms(4) by blast
  have nn: "p \<noteq> NULL" if "str_at s L p str" for p str using that by (auto simp: str_at_def dest: cstr_not_NULL)
  have sl: "\<exists>target. str_at t M (rn_data (rnode_at s n)) target" if "\<exists>target. str_at s L (rn_data (rnode_at s n)) target"
    using that assms(3) [of "rn_data (rnode_at s n)"] k nn by (metis insertCI)
  have m: "M n = L n" "U n = T n" "M (rn_name (rnode_at s n)) = L (rn_name (rnode_at s n))"
    "U (rn_name (rnode_at s n)) = T (rn_name (rnode_at s n))"
    using assms(3) [of n] assms(3) [of "rn_name (rnode_at s n)"] assms(5) nm by simp_all
  have dt: "rn_data (rnode_at s n) \<noteq> NULL \<Longrightarrow> M (rn_data (rnode_at s n)) = L (rn_data (rnode_at s n)) \<and>
      U (rn_data (rnode_at s n)) = T (rn_data (rnode_at s n))"
    using assms(3) [of "rn_data (rnode_at s n)"] by simp
  show ?thesis
    using assms(1) k [of "rn_name (rnode_at s n)" nm] sl dt unfolding node_ok_def assms(2) m by simp
qed

lemma tree_inv_frame:
  assumes inv: "tree_inv s L T G" and H: "\<And>d es. H d = Some es \<Longrightarrow> G d = Some es"
    and dom: "\<And>d es nm n. H d = Some es \<Longrightarrow> (nm, n) \<in> set es \<Longrightarrow> H n = G n"
    and r: "\<And>n. n \<in> nodes H \<Longrightarrow> rnode_at t n = rnode_at s n"
    and p: "\<And>p. p \<in> objects s H \<Longrightarrow> M p = L p \<and> U p = T p"
    and b: "bytes_kept L (fs_mem s) (fs_mem t)"
  shows "tree_inv t M U H"
  unfolding tree_inv_def
proof (intro allI impI)
  fix d es
  assume d: "H d = Some es"
  have dn: "d \<in> nodes H" using d by (auto simp: nodes_def)
  have em: "n \<in> members H" if "(nm, n) \<in> set es" for nm n using that d by (auto simp: member_iff)
  then have en: "n \<in> nodes H" if "(nm, n) \<in> set es" for nm n using that by (auto simp: nodes_def)
  note ok = tree_invD [OF inv H [OF d]]
  have "chain (sib t) (rn_child (rnode_at s d)) (map snd es)"
    using ok by (subst chain_cong [of _ _ "sib s"]) (auto simp: dir_ok_def r en)
  moreover have "node_ok t M U d nm n" if e: "(nm, n) \<in> set es" for nm n
  proof (rule node_ok_frame [OF entry_ok(1) [OF inv H [OF d] e]])
    show "rnode_at t n = rnode_at s n" by (rule r [OF en [OF e]])
    show "M p = L p \<and> U p = T p" if "p \<in> {n, rn_name (rnode_at s n), rn_data (rnode_at s n)}" "p \<noteq> NULL" for p
      by (rule p) (use that em [OF e] in \<open>auto simp: objects_def nodes_def\<close>)
    have "n \<in> set (map snd es)" using e by force
    then show "n \<noteq> NULL" using chain_not_NULL ok unfolding dir_ok_def by blast
  qed (rule b)
  moreover have "M d = L d \<and> U d = T d" by (rule p) (use dn in \<open>simp add: objects_def\<close>)
  ultimately show "dir_ok t M U H d es"
    using ok dom [OF d] r [OF dn] r [OF en] unfolding dir_ok_def entries_ok_def by auto
qed

lemma objects_live:
  assumes "tree_inv s L T G" and "p \<in> objects s G"
  shows "L p \<noteq> None"
proof -
  have "L (rn_name (rnode_at s n)) \<noteq> None \<and> (rn_data (rnode_at s n) \<noteq> NULL \<longrightarrow> L (rn_data (rnode_at s n)) \<noteq> None)"
    if m: "n \<in> members G" for n
  proof -
    obtain d es nm where "G d = Some es" "(nm, n) \<in> set es" using m by (auto simp: member_iff)
    from entry_ok(1) [OF assms(1) this] show ?thesis using str_at_live by (auto simp: node_ok_def)
  qed
  then show ?thesis using assms(2) nodes_live [OF assms(1)] by (auto simp: objects_def)
qed

text \<open>Allocating and filling new objects leaves the tree alone.\<close>

lemma tree_inv_grow:
  assumes "tree_inv s L T G" and "\<And>n. L n \<noteq> None \<Longrightarrow> rnode_at t n = rnode_at s n"
    and "\<And>p. L p \<noteq> None \<Longrightarrow> M p = L p \<and> U p = T p" and "bytes_kept L (fs_mem s) (fs_mem t)"
  shows "tree_inv t M U G"
  by (rule tree_inv_frame [OF assms(1)]) (use assms nodes_live objects_live in auto)

section \<open>Searching\<close>

lemma find_named_entries:
  assumes "chain (sib s) p (map snd es)" and "\<And>nm n. (nm, n) \<in> set es \<Longrightarrow> cstring (fs_mem s) (rn_name (rnode_at s n)) = Some nm"
  shows "find_named ok w p s = Some (case find (\<lambda>(nm, n). nm = w \<and> ok (rnode_at s n)) es of None \<Rightarrow> NULL | Some (_, n) \<Rightarrow> n)"
  using assms
proof (induction es arbitrary: p)
  case Nil
  then show ?case by (simp add: find_named.simps)
next
  case (Cons e es)
  obtain nm n where e: "e = (nm, n)" by (cases e)
  have p: "p = n" "n \<noteq> NULL" "chain (sib s) (sib s n) (map snd es)" using Cons.prems(1) by (auto simp: e)
  have c: "cstring (fs_mem s) (rn_name (rnode_at s n)) = Some nm" using Cons.prems(2) [of nm n] by (simp add: e)
  have IH: "find_named ok w (sib s n) s =
      Some (case find (\<lambda>(nm, n). nm = w \<and> ok (rnode_at s n)) es of None \<Rightarrow> NULL | Some (_, n) \<Rightarrow> n)"
    by (rule Cons.IH [OF p(3)]) (use Cons.prems(2) in auto)
  show ?case using p(2) c IH by (subst find_named.simps) (simp add: p(1) e)
qed

lemma find_map_of: "(case find (\<lambda>(nm, n). nm = w) es of None \<Rightarrow> d | Some (_, n) \<Rightarrow> n) =
    (case map_of es w of None \<Rightarrow> d | Some n \<Rightarrow> n)"
  by (induction es) auto

lemma entry_name:
  assumes "tree_inv s L T G" and "G d = Some es" and "(nm, n) \<in> set es"
  shows "cstring (fs_mem s) (rn_name (rnode_at s n)) = Some nm"
  using entry_ok(1) [OF assms] by (auto simp: node_ok_def str_at_cstring)

lemma find_named_dir:
  assumes "tree_inv s L T G" and "G d = Some es"
  shows "find_named (\<lambda>_. True) w (rn_child (rnode_at s d)) s = Some (case map_of es w of None \<Rightarrow> NULL | Some n \<Rightarrow> n)"
  using find_named_entries [of s "rn_child (rnode_at s d)" es "\<lambda>_. True" w] tree_invD [OF assms] entry_name [OF assms]
  by (simp add: dir_ok_def find_map_of)

lemma member_not_NULL: "tree_inv s L T G \<Longrightarrow> n \<in> members G \<Longrightarrow> n \<noteq> NULL"
  using chain_not_NULL tree_invD unfolding dir_ok_def member_iff by force

text \<open>Where a path leads in the abstract tree.\<close>

fun resolve :: "dirs \<Rightarrow> u64 \<Rightarrow> string list \<Rightarrow> u64 option" where
  "resolve G d [] = Some d"
| "resolve G d (w # ws) =
     (case G d of None \<Rightarrow> None
      | Some es \<Rightarrow> (case map_of es w of None \<Rightarrow> None | Some n \<Rightarrow> resolve G n ws))"

lemma find_walk_resolve:
  assumes inv: "tree_inv s L T G" and d: "d \<in> nodes G" "G d = None \<Longrightarrow> rn_child (rnode_at s d) = NULL" and ws: "ws \<noteq> []"
  shows "find_walk ws (rn_child (rnode_at s d)) s = Some (case resolve G d ws of None \<Rightarrow> NULL | Some n \<Rightarrow> n)"
  using d ws
proof (induction ws arbitrary: d)
  case (Cons w ws)
  show ?case
  proof (cases "G d")
    case None
    then show ?thesis using Cons.prems(2) by (simp add: find_named.simps)
  next
    case (Some es)
    note f = find_named_dir [OF inv Some, of w]
    show ?thesis
    proof (cases "map_of es w")
      case None
      then show ?thesis using f Some by simp
    next
      case n: (Some n)
      then have e: "(w, n) \<in> set es" by (rule map_of_SomeD)
      note eo = entry_ok [OF inv Some e]
      have nn: "n \<noteq> NULL" by (rule member_not_NULL [OF inv eo(4)])
      show ?thesis
      proof (cases "ws = []")
        case True
        then show ?thesis using f n nn Some by simp
      next
        case False
        have "find_walk ws (rn_child (rnode_at s n)) s = Some (case resolve G n ws of None \<Rightarrow> NULL | Some n \<Rightarrow> n)"
          by (rule Cons.IH) (use eo False in \<open>auto simp: nodes_def\<close>)
        then show ?thesis using f n nn Some False by simp
      qed
    qed
  qed
qed simp

lemma resolve_node: "resolve G d ws = Some n \<Longrightarrow> d \<in> nodes G \<Longrightarrow> n \<in> nodes G"
proof (induction ws arbitrary: d)
  case (Cons w ws)
  obtain es m where m: "G d = Some es" "map_of es w = Some m" "resolve G m ws = Some n"
    using Cons.prems(1) by (auto split: option.splits)
  then have "m \<in> nodes G" using map_of_SomeD [OF m(2)] by (auto simp: nodes_def member_iff)
  with Cons.IH [OF m(3)] show ?case .
qed simp

section \<open>Changing one directory\<close>

text \<open>
  The tree after the links of one directory have changed: what is left to show is the new list of
  entries, and that a node that came or went is in no other directory.
\<close>

lemma members_apart:
  assumes "tree_inv s L T G" and "G d = Some es" and "G x = Some fs" and "(nm, n) \<in> set es" and "(nm', n) \<in> set fs"
  shows "x = d"
  using entry_ok(1) [OF assms(1,2,4)] entry_ok(1) [OF assms(1,3,5)] by (simp add: node_ok_def)

lemma tree_inv_relink:
  assumes inv: "tree_inv s L T G" and d: "G d = Some es"
    and fields: "\<And>x. rn_name (rnode_at t x) = rn_name (rnode_at s x) \<and> rn_type (rnode_at t x) = rn_type (rnode_at s x) \<and>
      rn_size (rnode_at t x) = rn_size (rnode_at s x) \<and> rn_data (rnode_at t x) = rn_data (rnode_at s x)"
    and child: "\<And>x. x \<noteq> d \<Longrightarrow> rn_child (rnode_at t x) = rn_child (rnode_at s x)"
    and sibl: "\<And>x. x \<notin> snd ` set es \<Longrightarrow> sib t x = sib s x"
    and mem: "fs_mem t = fs_mem s"
    and ch: "chain (sib t) (rn_child (rnode_at t d)) (map snd es')" and nd: "d \<notin> snd ` set es'"
    and ent: "entries_ok s L T H d es'"
    and H: "H d = Some es'" "\<And>x. x \<noteq> d \<Longrightarrow> x \<noteq> n \<Longrightarrow> H x = G x" "n \<noteq> d"
    and n: "\<And>x fs nm. x \<noteq> d \<Longrightarrow> x \<noteq> n \<Longrightarrow> G x = Some fs \<Longrightarrow> (nm, n) \<notin> set fs"
    and new: "H n = None \<or> (H n = Some [] \<and> L n \<noteq> None \<and> T n = Some (Is_node d) \<and> n \<noteq> NULL \<and>
      rn_type (rnode_at s n) = RAMFS_DIRECTORY \<and> rn_child (rnode_at s n) = NULL)"
  shows "tree_inv t L T H"
  unfolding tree_inv_def
proof (intro allI impI)
  have nok: "node_ok t L T x nm m = node_ok s L T x nm m" for x nm m
    by (simp add: node_ok_def fields str_at_def mem)
  fix x fs
  assume x: "H x = Some fs"
  show "dir_ok t L T H x fs"
  proof (cases "x = d")
    case True
    have ok: "dir_ok s L T G d es" by (rule tree_invD [OF inv d])
    have "entries_ok t L T H d es'"
      using ent nd unfolding entries_ok_def nok by (force simp: fields child)
    then show ?thesis using ok True x H(1) ch nd by (simp add: dir_ok_def fields)
  next
    case xd: False
    show ?thesis
    proof (cases "x = n")
      case True
      then show ?thesis using new x H(3) by (auto simp: dir_ok_def entries_ok_def fields child)
    next
      case False
      then have gx: "G x = Some fs" using H(2) xd x by simp
      have ok: "dir_ok s L T G x fs" by (rule tree_invD [OF inv gx])
      have apart: "m \<notin> snd ` set es" "m \<noteq> n" "H m = G m \<or> m = d" if "(nm, m) \<in> set fs" for nm m
      proof -
        show "m \<notin> snd ` set es" using members_apart [OF inv d gx _ that] xd by force
        show "m \<noteq> n" using n [OF xd False gx] that by blast
        then show "H m = G m \<or> m = d" using H(2) by blast
      qed
      have "chain (sib t) (rn_child (rnode_at t x)) (map snd fs)"
        using ok by (subst chain_cong [of _ _ "sib s"]) (auto simp: dir_ok_def child [OF xd] sibl apart)
      moreover have hm: "(H m \<noteq> None) = (G m \<noteq> None)" if "(nm, m) \<in> set fs" for nm m
        using apart(3) [OF that] H(1) d by (metis option.distinct(1))
      moreover have cm: "rn_type (rnode_at s m) \<noteq> RAMFS_DIRECTORY \<longrightarrow> rn_child (rnode_at t m) = NULL" if "(nm, m) \<in> set fs" for nm m
      proof (cases "m = d")
        case True
        then show ?thesis using tree_invD [OF inv d] by (simp add: dir_ok_def)
      next
        case False
        then show ?thesis using entry_ok(3) [OF inv gx that] child by simp
      qed
      moreover have "\<forall>(nm, m) \<in> set fs. node_ok t L T x nm m \<and> (H m \<noteq> None \<longleftrightarrow> rn_type (rnode_at t m) = RAMFS_DIRECTORY) \<and>
          (rn_type (rnode_at t m) \<noteq> RAMFS_DIRECTORY \<longrightarrow> rn_child (rnode_at t m) = NULL)"
        using entry_ok(1,2) [OF inv gx] hm cm by (simp only: nok fields) blast
      ultimately show ?thesis using ok unfolding dir_ok_def entries_ok_def by (simp add: fields)
    qed
  qed
qed

lemma last_sibling_chain: "chain (sib s) p xs \<Longrightarrow> xs \<noteq> [] \<Longrightarrow> last_sibling p s = Some (last xs)"
proof (induction xs arbitrary: p)
  case (Cons x xs)
  have p: "p = x" "chain (sib s) (sib s x) xs" using Cons.prems(1) by auto
  show ?case
  proof (cases "xs = []")
    case True
    then show ?thesis using p by (simp add: last_sibling.simps)
  next
    case False
    then have "sib s x \<noteq> NULL" using p(2) by (cases xs) auto
    then show ?thesis using Cons.IH [OF p(2) False] False p(1) by (simp add: last_sibling.simps)
  qed
qed simp

lemma chain_append_end:
  assumes "chain n h xs" and "distinct xs" and "y \<noteq> NULL" and "n y = NULL" and "y \<notin> set xs" and "xs \<noteq> []"
  shows "chain (n(last xs := y)) h (xs @ [y])"
  using assms
proof (induction xs arbitrary: h)
  case (Cons x xs)
  show ?case
  proof (cases "xs = []")
    case True
    then show ?thesis using Cons.prems by auto
  next
    case False
    have "x \<noteq> last xs" using Cons.prems(2) False last_in_set by fastforce
    then show ?thesis using Cons.IH [of "n x"] Cons.prems False by simp
  qed
qed simp

lemma append_child_tree:
  assumes inv: "tree_inv s L T G" and d: "G d = Some es" and nm: "nm \<notin> fst ` set es"
    and n: "n \<notin> nodes G" "n \<noteq> NULL" "rn_sibling (rnode_at s n) = NULL" "rn_child (rnode_at s n) = NULL" "node_ok s L T d nm n"
    and H: "H = (if rn_type (rnode_at s n) = RAMFS_DIRECTORY then G(d \<mapsto> es @ [(nm, n)], n \<mapsto> []) else G(d \<mapsto> es @ [(nm, n)]))"
  shows "\<exists>r. ramfs_append_child d n s = Some (0, s\<lparr>rnode_at := r\<rparr>) \<and> tree_inv (s\<lparr>rnode_at := r\<rparr>) L T H \<and>
    (\<forall>x. rn_mode (r x) = rn_mode (rnode_at s x))"
proof -
  have ok: "dir_ok s L T G d es" by (rule tree_invD [OF inv d])
  then have ch: "chain (sib s) (rn_child (rnode_at s d)) (map snd es)" and dn: "d \<noteq> NULL" and nd: "d \<notin> snd ` set es"
    and di: "distinct (map snd es)" and eo: "entries_ok s L T G d es" by (auto simp: dir_ok_def entries_ok_def)
  have nes: "n \<notin> snd ` set es" "n \<noteq> d" using n(1) d by (force simp: nodes_def member_iff)+
  define r where "r = (if es = [] then (rnode_at s)(d := (rnode_at s d)\<lparr>rn_child := n\<rparr>)
    else (rnode_at s)(last (map snd es) := (rnode_at s (last (map snd es)))\<lparr>rn_sibling := n\<rparr>))"
  let ?t = "s\<lparr>rnode_at := r\<rparr>"
  have run: "ramfs_append_child d n s = Some (0, ?t)"
  proof (cases es)
    case Nil
    then show ?thesis using ch dn by (simp add: ramfs_append_child_def deref_def set_rnode_def r_def)
  next
    case (Cons e es')
    then have c: "rn_child (rnode_at s d) \<noteq> NULL" using ch by auto
    have "last (map snd es) \<noteq> NULL" using chain_not_NULL [OF ch] last_in_set [of "map snd es"] Cons by force
    then show ?thesis using last_sibling_chain [OF ch] c dn Cons
      by (simp add: ramfs_append_child_def deref_def set_rnode_def r_def)
  qed
  have dl: "es \<noteq> [] \<Longrightarrow> d \<noteq> last (map snd es)" using nd last_in_set [of "map snd es"] by auto
  have "tree_inv ?t L T H"
  proof (rule tree_inv_relink [OF inv d, where es' = "es @ [(nm, n)]" and n = n])
    have "chain ((sib s)(last (map snd es) := n)) (rn_child (rnode_at s d)) (map snd es @ [n])" if "es \<noteq> []"
      by (rule chain_append_end [OF ch di]) (use n nes that in auto)
    moreover have "sib ?t = (sib s)(last (map snd es) := n)" if "es \<noteq> []" using that by (auto simp: r_def)
    ultimately show "chain (sib ?t) (rn_child (rnode_at ?t d)) (map snd (es @ [(nm, n)]))"
      using n ch dl by (cases "es = []") (auto simp: r_def nes)
    show "H d = Some (es @ [(nm, n)])" "x \<noteq> d \<Longrightarrow> x \<noteq> n \<Longrightarrow> H x = G x" for x using H nes by auto
    have gn: "G n = None" using n(1) by (auto simp: nodes_def)
    have hg: "H m = G m" if "(nm', m) \<in> set es" for nm' m using that H nes nd by force
    have "\<forall>(nm', m) \<in> set es. node_ok s L T d nm' m \<and> (H m \<noteq> None \<longleftrightarrow> rn_type (rnode_at s m) = RAMFS_DIRECTORY) \<and>
        (rn_type (rnode_at s m) \<noteq> RAMFS_DIRECTORY \<longrightarrow> rn_child (rnode_at s m) = NULL)"
      using eo hg unfolding entries_ok_def by fastforce
    then show "entries_ok s L T H d (es @ [(nm, n)])"
      using eo nm n nes gn H unfolding entries_ok_def by auto
    show "(nm', n) \<notin> set fs" if "G x = Some fs" for x fs nm' using n(1) that by (force simp: nodes_def member_iff)
    show "H n = None \<or> H n = Some [] \<and> L n \<noteq> None \<and> T n = Some (Is_node d) \<and> n \<noteq> NULL \<and>
        rn_type (rnode_at s n) = RAMFS_DIRECTORY \<and> rn_child (rnode_at s n) = NULL"
      using H gn nes n by (auto simp: node_ok_def)
    show "d \<notin> snd ` set (es @ [(nm, n)])" using nd nes by auto
    show "n \<noteq> d" by (rule nes(2))
  qed (use dl last_in_set [of "map snd es"] in \<open>auto simp: r_def fs_mem_def\<close>)
  moreover have "rn_mode (r x) = rn_mode (rnode_at s x)" for x by (simp add: r_def)
  ultimately show ?thesis using run by blast
qed

section \<open>Making entries\<close>

text \<open>States that differ in the heap and the nodes only.\<close>

definition tree_step :: "fs \<Rightarrow> fs \<Rightarrow> bool" where
  "tree_step s t \<longleftrightarrow> (\<exists>h r. t = s\<lparr>hp := h, rnode_at := r\<rparr>)"

lemma tree_step_refl [simp]: "tree_step s s"
  unfolding tree_step_def by (rule exI [of _ "hp s"], rule exI [of _ "rnode_at s"]) simp

lemma tree_step_trans: "tree_step s t \<Longrightarrow> tree_step t u \<Longrightarrow> tree_step s u"
  unfolding tree_step_def by (elim exE, hypsubst) (simp, blast)

lemma same_fs_tree_step: "same_fs s t \<Longrightarrow> tree_step s t"
  unfolding same_fs_def tree_step_def by (elim exE) (rule exI, rule exI [of _ "rnode_at s"], simp)

lemma rnode_tree_step: "tree_step s (s\<lparr>rnode_at := r\<rparr>)"
  unfolding tree_step_def by (rule exI [of _ "hp s"], rule exI [of _ r]) simp

lemma tree_step_fields:
  assumes "tree_step s t"
  shows "ramfs_at t = ramfs_at s" "vnode_at t = vnode_at s" "vfs_at t = vfs_at s" "vnops_at t = vnops_at s"
    "vfsops_at t = vfsops_at s" "driver_at t = driver_at s" "kfile_at t = kfile_at s" "dirent_at t = dirent_at s"
    "vfs_list_head t = vfs_list_head s" "vfs_list_lock t = vfs_list_lock s" "strtok_next t = strtok_next s"
  using assms by (auto simp: tree_step_def)

text \<open>A vnode that carries the node of a directory.\<close>

definition dir_vnode :: "fs \<Rightarrow> u64 \<Rightarrow> u64 \<Rightarrow> bool" where
  "dir_vnode s v d \<longleftrightarrow> v \<noteq> NULL \<and> d \<noteq> NULL \<and> vn_node_data (vnode_at s v) = d \<and> vn_root_vfs (vnode_at s v) \<noteq> NULL \<and>
     vf_data (vfs_at s (vn_root_vfs (vnode_at s v))) \<noteq> NULL"

lemma dir_vnode_step: "tree_step s t \<Longrightarrow> dir_vnode t v d = dir_vnode s v d"
  by (simp add: dir_vnode_def tree_step_fields)

lemma dir_vnode_node:
  assumes "dir_vnode s v d"
  obtains r where "ramfs_of v s = Some r" "r \<noteq> NULL" "node_of me v r s = Some (d, s)" "v \<noteq> NULL" "d \<noteq> NULL"
  using assms by (auto simp: dir_vnode_def ramfs_of_def node_of_def deref_def)

lemma new_child_check_dir:
  assumes "tree_inv s L T G" and "G d = Some es" and v: "dir_vnode s v d"
  shows "new_child_check me v name s = Some ((if map_of es name = None then EOK else EEXIST, d), s)"
proof -
  obtain r where r: "ramfs_of v s = Some r" "r \<noteq> NULL" "node_of me v r s = Some (d, s)" "d \<noteq> NULL"
    by (rule dir_vnode_node [OF v])
  have ty: "rn_type (rnode_at s d) = RAMFS_DIRECTORY" using tree_invD [OF assms(1,2)] by (simp add: dir_ok_def)
  have "n \<noteq> NULL" if "map_of es name = Some n" for n
    by (rule member_not_NULL [OF assms(1) entry_ok(4) [OF assms(1,2) map_of_SomeD [OF that]]])
  then show ?thesis using r ty find_named_dir [OF assms(1,2), of name]
    by (auto simp: new_child_check_def split: option.splits)
qed

lemma fresh_node: "tree_inv s L T G \<Longrightarrow> L n = None \<Longrightarrow> n \<notin> nodes G"
  using nodes_live by blast

lemma make_child:
  assumes ready: "fs_ready s L (Suc (Suc k))" and inv: "tree_inv s L T G" and d: "G d = Some es"
    and nm: "str_ok name" "map_of es name = None"
    and f: "\<And>q x. f q x = x\<lparr>rn_name := q, rn_mode := md\<rparr>" and ft: "ft \<noteq> RAMFS_SYMLINK"
  obtains n s1 q s2 s3 t M U where "ramfs_create_node me ft s = Some (n, s1)" "dup_string me name s1 = Some (q, s2)"
    "set_rnode n (f q) s2 = Some s3" "ramfs_append_child d n s3 = Some (0, t)" "fs_ready t M k" "tree_step s t"
    "tree_inv t M U (if ft = RAMFS_DIRECTORY then G(d \<mapsto> es @ [(name, n)], n \<mapsto> []) else G(d \<mapsto> es @ [(name, n)]))"
    "L n = None" "rn_mode (rnode_at t n) = md" "\<And>p. L p \<noteq> None \<Longrightarrow> M p = L p" "bytes_kept L (fs_mem s) (fs_mem t)"
    "n \<noteq> NULL" "M n \<noteq> None"
proof -
  obtain n a c where a: "heap_op (kzalloc me SIZEOF_RAMFS_NODE) s = Some (n, a)" "n \<noteq> NULL" "L n = None"
    "fs_ready a (L(n \<mapsto> c)) (Suc k)" "bytes_kept L (fs_mem s) (fs_mem a)" "same_fs s a"
    by (rule new_object [OF ready, of SIZEOF_RAMFS_NODE]) auto
  let ?nd = "zero_rnode\<lparr>rn_type := ft, rn_mode := default_mode ft\<rparr>"
  define s1 where "s1 = a\<lparr>rnode_at := (rnode_at s)(n := ?nd)\<rparr>"
  have c1: "ramfs_create_node me ft s = Some (n, s1)"
    using a same_fs_fields(1) [OF a(6)] by (simp add: ramfs_create_node_def set_rnode_def s1_def)
  have r1: "fs_ready s1 (L(n \<mapsto> c)) (Suc k)" "fs_mem s1 = fs_mem a"
    using a(4) by (simp_all add: s1_def fs_ready_def fs_mem_def)
  obtain q s2 e where b: "dup_string me name s1 = Some (q, s2)" "q \<noteq> NULL" "(L(n \<mapsto> c)) q = None"
    "fs_ready s2 (L(n \<mapsto> c, q \<mapsto> e)) k" "bytes_kept (L(n \<mapsto> c)) (fs_mem s1) (fs_mem s2)" "same_fs s1 s2"
    "str_at s2 (L(n \<mapsto> c, q \<mapsto> e)) q name"
    by (rule new_string [OF r1(1) nm(1)])
  have qn: "q \<noteq> n" "L q = None" using b(3) by (auto split: if_splits)
  have rn2: "rnode_at s2 = (rnode_at s)(n := ?nd)" using same_fs_fields(1) [OF b(6)] by (simp add: s1_def)
  define s3 where "s3 = s2\<lparr>rnode_at := (rnode_at s)(n := ?nd\<lparr>rn_name := q, rn_mode := md\<rparr>)\<rparr>"
  have c3: "set_rnode n (f q) s2 = Some s3" using a(2) by (simp add: set_rnode_def rn2 s3_def f)
  let ?M = "L(n \<mapsto> c, q \<mapsto> e)" let ?U = "T(n \<mapsto> Is_node d, q \<mapsto> Is_name n)"
  have bk: "bytes_kept L (fs_mem s) (fs_mem s3)"
    using bytes_kept_trans [OF a(5)] bytes_kept_new [OF b(5) a(3)] r1(2) by (simp add: s3_def fs_mem_def)
  have inv3: "tree_inv s3 ?M ?U G"
    by (rule tree_inv_grow [OF inv _ _ bk]) (use a(3) qn in \<open>auto simp: s3_def\<close>)
  have nok: "node_ok s3 ?M ?U d name n"
    using qn b(7) ft by (auto simp: node_ok_def s3_def zero_rnode_def str_at_def fs_mem_def)
  have nmE: "name \<notin> fst ` set es" using nm(2) by (simp add: map_of_eq_None_iff)
  from append_child_tree [OF inv3 d nmE fresh_node [OF inv a(3)] a(2) _ _ nok refl]
  obtain r where r: "ramfs_append_child d n s3 = Some (0, s3\<lparr>rnode_at := r\<rparr>)"
    "tree_inv (s3\<lparr>rnode_at := r\<rparr>) ?M ?U (if rn_type (rnode_at s3 n) = RAMFS_DIRECTORY
       then G(d \<mapsto> es @ [(name, n)], n \<mapsto> []) else G(d \<mapsto> es @ [(name, n)]))"
    "\<And>x. rn_mode (r x) = rn_mode (rnode_at s3 x)"
    by (auto simp: s3_def zero_rnode_def)
  have "tree_step s (s3\<lparr>rnode_at := r\<rparr>)"
  proof -
    have "tree_step s s1"
      unfolding s1_def by (rule tree_step_trans [OF same_fs_tree_step [OF a(6)] rnode_tree_step])
    then have "tree_step s s3" unfolding s3_def
      by (rule tree_step_trans [OF tree_step_trans [OF _ same_fs_tree_step [OF b(6)]] rnode_tree_step])
    then show ?thesis by (rule tree_step_trans [OF _ rnode_tree_step])
  qed
  moreover have "fs_ready (s3\<lparr>rnode_at := r\<rparr>) ?M k" using b(4) by (simp add: s3_def fs_ready_def)
  moreover have "rn_mode (rnode_at (s3\<lparr>rnode_at := r\<rparr>) n) = md" by (simp add: r(3)) (simp add: s3_def)
  moreover have "rn_type (rnode_at s3 n) = ft" by (simp add: s3_def)
  moreover have "bytes_kept L (fs_mem s) (fs_mem (s3\<lparr>rnode_at := r\<rparr>))" using bk by (simp add: fs_mem_def)
  ultimately show thesis using c1 b(1) c3 r(1,2) a(2,3) qn
    by (intro that [of n s1 q s2 s3 "s3\<lparr>rnode_at := r\<rparr>" ?M ?U]) auto
qed

text \<open>\<^verbatim>\<open>ramfs_mkdir\<close> in a directory of the tree.\<close>

lemma mkdir_new:
  assumes ready: "fs_ready s L (Suc (Suc k))" and inv: "tree_inv s L T G" and d: "G d = Some es"
    and v: "dir_vnode s v d" and nm: "str_ok name" "map_of es name = None"
  obtains n t M U where "ramfs_mkdir me v (Some name) mode s = Some (EOK, t)" "fs_ready t M k" "tree_step s t"
    "tree_inv t M U (G(d \<mapsto> es @ [(name, n)], n \<mapsto> []))" "n \<notin> nodes G" "rn_mode (rnode_at t n) = S_IFDIR OR (mode AND 0x1FF)"
proof -
  let ?f = "\<lambda>q x. x\<lparr>rn_name := q, rn_mode := S_IFDIR OR (mode AND 0x1FF)\<rparr>"
  obtain n s1 q s2 s3 t M U where c: "ramfs_create_node me RAMFS_DIRECTORY s = Some (n, s1)" "dup_string me name s1 = Some (q, s2)"
    "set_rnode n (?f q) s2 = Some s3" "ramfs_append_child d n s3 = Some (0, t)" "fs_ready t M k" "tree_step s t"
    "tree_inv t M U (G(d \<mapsto> es @ [(name, n)], n \<mapsto> []))" "L n = None" "rn_mode (rnode_at t n) = S_IFDIR OR (mode AND 0x1FF)"
    by (rule make_child [OF ready inv d nm, of ?f _ RAMFS_DIRECTORY]) auto
  have "v \<noteq> NULL" using v by (simp add: dir_vnode_def)
  then have "ramfs_mkdir me v (Some name) mode s = Some (EOK, t)"
    using new_child_check_dir [OF inv d v, of me name] nm(2) c by (simp add: ramfs_mkdir_def)
  then show thesis using that c(5-9) fresh_node [OF inv c(8)] by blast
qed

lemma mkdir_exists:
  assumes inv: "tree_inv s L T G" and d: "G d = Some es" and v: "dir_vnode s v d" and nm: "map_of es name = Some n"
  shows "ramfs_mkdir me v (Some name) mode s = Some (EEXIST, s)"
proof -
  have "v \<noteq> NULL" using v by (simp add: dir_vnode_def)
  then show ?thesis using new_child_check_dir [OF inv d v, of me name] nm by (simp add: ramfs_mkdir_def)
qed

section \<open>Removing entries\<close>

lemma find_prev_found:
  assumes "chain (sib s) p (map snd (xs @ (w, n) # ys))" and "w \<notin> fst ` set xs"
    and "\<And>nm m. (nm, m) \<in> set (xs @ (w, n) # ys) \<Longrightarrow> cstring (fs_mem s) (rn_name (rnode_at s m)) = Some nm"
  shows "find_prev w prev p s = Some (last (prev # map snd xs), n)"
  using assms
proof (induction xs arbitrary: prev p)
  case Nil
  have "cstring (fs_mem s) (rn_name (rnode_at s n)) = Some w" "p = n" "n \<noteq> NULL"
    using Nil.prems(1) Nil.prems(3) [of w n] by auto
  then show ?case by (subst find_prev.simps) simp
next
  case (Cons e xs)
  obtain nm m where e: "e = (nm, m)" by (cases e)
  have m: "p = m" "m \<noteq> NULL" "cstring (fs_mem s) (rn_name (rnode_at s m)) = Some nm" "nm \<noteq> w"
    using Cons.prems by (auto simp: e)
  have "find_prev w m (sib s m) s = Some (last (m # map snd xs), n)"
    by (rule Cons.IH) (use Cons.prems in \<open>auto simp: e\<close>)
  then show ?case using m by (subst find_prev.simps) (simp add: e)
qed

lemma find_prev_missing:
  assumes "chain (sib s) p (map snd es)" and "w \<notin> fst ` set es"
    and "\<And>nm m. (nm, m) \<in> set es \<Longrightarrow> cstring (fs_mem s) (rn_name (rnode_at s m)) = Some nm"
  shows "\<exists>q. find_prev w prev p s = Some (q, NULL)"
  using assms
proof (induction es arbitrary: prev p)
  case Nil
  then show ?case by (simp add: find_prev.simps)
next
  case (Cons e es)
  obtain nm m where e: "e = (nm, m)" by (cases e)
  have m: "p = m" "m \<noteq> NULL" "cstring (fs_mem s) (rn_name (rnode_at s m)) = Some nm" "nm \<noteq> w"
    using Cons.prems by (auto simp: e)
  have "\<exists>q. find_prev w m (sib s m) s = Some (q, NULL)"
    by (rule Cons.IH) (use Cons.prems in \<open>auto simp: e\<close>)
  then show ?case using m by (subst find_prev.simps) simp
qed

lemma objects_roles:
  assumes "tree_inv s L T G" and "p \<in> objects s G"
  shows "p \<in> nodes G \<and> T p \<noteq> Some (Is_name x) \<and> T p \<noteq> Some (Is_data x) \<or>
    (\<exists>m \<in> members G. T p = Some (Is_name m) \<or> T p = Some (Is_data m))"
proof -
  have mem: "T m \<noteq> Some (Is_name x) \<and> T m \<noteq> Some (Is_data x) \<and> T (rn_name (rnode_at s m)) = Some (Is_name m) \<and>
      (rn_data (rnode_at s m) \<noteq> NULL \<longrightarrow> T (rn_data (rnode_at s m)) = Some (Is_data m))" if m: "m \<in> members G" for m
  proof -
    obtain d es nm where "G d = Some es" "(nm, m) \<in> set es" using m by (auto simp: member_iff)
    from entry_ok(1) [OF assms(1) this] show ?thesis by (auto simp: node_ok_def)
  qed
  have dirs: "T m \<noteq> Some (Is_name x) \<and> T m \<noteq> Some (Is_data x)" if "m \<in> dom G" for m
    using that tree_invD [OF assms(1), of m] by (auto simp: dir_ok_def)
  from assms(2) show ?thesis unfolding objects_def nodes_def using mem dirs by auto
qed

text \<open>Giving back the objects of a node that has left the tree.\<close>

lemma tree_inv_shrink:
  assumes inv: "tree_inv s L T G" and n: "n \<notin> nodes G"
    and M: "\<And>p. M p \<noteq> L p \<Longrightarrow> p = n \<and> (\<exists>d. T n = Some (Is_node d)) \<or> T p = Some (Is_name n) \<or> T p = Some (Is_data n)"
    and t: "rnode_at t = rnode_at s" "fs_mem t = fs_mem s"
  shows "tree_inv t M T G"
proof (rule tree_inv_frame [OF inv])
  fix p
  assume p: "p \<in> objects s G"
  have "n \<notin> members G" using n by (simp add: nodes_def)
  then have "p \<noteq> n \<or> T n \<noteq> Some (Is_node d)" "T p \<noteq> Some (Is_name n)" "T p \<noteq> Some (Is_data n)" for d
    using objects_roles [OF inv p, of n] n by auto
  then show "M p = L p \<and> T p = T p" using M by blast
qed (use t in \<open>auto simp: bytes_kept_def\<close>)

lemma unlink_child_tree:
  assumes inv: "tree_inv s L T G" and d: "G d = Some (xs @ (w, n) # ys)"
    and H: "H = G(d \<mapsto> xs @ ys, n := None)"
  obtains s1 where "unlink_child d (last (NULL # map snd xs)) n s = Some s1" "tree_step s s1" "hp s1 = hp s"
    "tree_inv s1 L T H" "n \<notin> nodes H" "n \<noteq> d"
    "rn_name (rnode_at s1 n) = rn_name (rnode_at s n)" "rn_data (rnode_at s1 n) = rn_data (rnode_at s n)"
proof -
  let ?es = "xs @ (w, n) # ys"
  have ok: "dir_ok s L T G d ?es" by (rule tree_invD [OF inv d])
  then have ch: "chain (sib s) (rn_child (rnode_at s d)) (map snd xs @ n # map snd ys)" and dn: "d \<noteq> NULL" and nd: "d \<notin> snd ` set ?es"
    and di: "distinct (map snd xs @ n # map snd ys)" and eo: "entries_ok s L T G d ?es" by (auto simp: dir_ok_def entries_ok_def)
  have nn: "n \<noteq> d" using nd by auto
  define r where "r = (if xs = [] then (rnode_at s)(d := (rnode_at s d)\<lparr>rn_child := sib s n\<rparr>)
    else (rnode_at s)(last (map snd xs) := (rnode_at s (last (map snd xs)))\<lparr>rn_sibling := sib s n\<rparr>))"
  let ?t = "s\<lparr>rnode_at := r\<rparr>"
  have lx: "last (map snd xs) \<in> set (map snd xs)" if "xs \<noteq> []" using that by (intro last_in_set) simp
  moreover have "NULL \<notin> set (map snd xs)" "d \<notin> set (map snd xs)" using chain_not_NULL [OF ch] nd by auto
  ultimately have l0: "xs \<noteq> [] \<Longrightarrow> last (map snd xs) \<noteq> NULL \<and> last (map snd xs) \<noteq> d" by metis
  have run: "unlink_child d (last (NULL # map snd xs)) n s = Some ?t"
    using dn l0 by (cases "xs = []") (auto simp: unlink_child_def set_rnode_def r_def)
  have apart: "(nm, n) \<notin> set fs" if "x \<noteq> d" "G x = Some fs" for x fs nm
    using members_apart [OF inv d that(2), of w n nm] that(1) by auto
  have nH: "n \<notin> nodes H"
    unfolding nodes_def using H nn di apart by (auto simp: member_iff split: if_splits) force+
  have "tree_inv ?t L T H"
  proof (rule tree_inv_relink [OF inv d, where es' = "xs @ ys" and n = n])
    have "chain (sib ?t) (if map snd xs = [] then sib s n else rn_child (rnode_at s d)) (map snd xs @ map snd ys)"
      by (rule chain_unlink [OF ch di]) (use nd l0 in \<open>auto simp: r_def\<close>)
    then show "chain (sib ?t) (rn_child (rnode_at ?t d)) (map snd (xs @ ys))"
      using l0 by (cases "xs = []") (auto simp: r_def)
    show "H d = Some (xs @ ys)" "x \<noteq> d \<Longrightarrow> x \<noteq> n \<Longrightarrow> H x = G x" for x using H nn by auto
    have hg: "H m = G m" if "(nm, m) \<in> set (xs @ ys)" for nm m
    proof -
      have "m \<noteq> d" using that nd by force
      moreover have "m \<noteq> n" using that di by force
      ultimately show ?thesis using H by simp
    qed
    have "node_ok s L T d nm m \<and> (H m \<noteq> None \<longleftrightarrow> rn_type (rnode_at s m) = RAMFS_DIRECTORY) \<and>
        (rn_type (rnode_at s m) \<noteq> RAMFS_DIRECTORY \<longrightarrow> rn_child (rnode_at s m) = NULL)"
      if e: "(nm, m) \<in> set (xs @ ys)" for nm m
    proof -
      have "(nm, m) \<in> set ?es" using e by auto
      from entry_ok(1-3) [OF inv d this] show ?thesis unfolding hg [OF e] by blast
    qed
    then have "\<forall>(nm, m) \<in> set (xs @ ys). node_ok s L T d nm m \<and> (H m \<noteq> None \<longleftrightarrow> rn_type (rnode_at s m) = RAMFS_DIRECTORY) \<and>
        (rn_type (rnode_at s m) \<noteq> RAMFS_DIRECTORY \<longrightarrow> rn_child (rnode_at s m) = NULL)"
      by blast
    moreover have "distinct (map fst (xs @ ys))" "distinct (map snd (xs @ ys))" using eo by (auto simp: entries_ok_def)
    ultimately show "entries_ok s L T H d (xs @ ys)" unfolding entries_ok_def by (intro conjI)
    show "(nm', n) \<notin> set fs" if "x \<noteq> d" "G x = Some fs" for x fs nm' by (rule apart [OF that])
    show "H n = None \<or> H n = Some [] \<and> L n \<noteq> None \<and> T n = Some (Is_node d) \<and> n \<noteq> NULL \<and>
        rn_type (rnode_at s n) = RAMFS_DIRECTORY \<and> rn_child (rnode_at s n) = NULL" using H by simp
    show "d \<notin> snd ` set (xs @ ys)" using nd by auto
    show "n \<noteq> d" by (rule nn)
  qed (use l0 lx in \<open>auto simp: r_def fs_mem_def\<close>)
  then show thesis using run rnode_tree_step nH nn by (intro that [of ?t]) (auto simp: r_def)
qed

text \<open>The entries without one name.\<close>

definition without :: "string \<Rightarrow> (string \<times> u64) list \<Rightarrow> (string \<times> u64) list" where
  "without name es = filter (\<lambda>e. fst e \<noteq> name) es"

lemma split_entry:
  assumes "tree_inv s L T G" and "G d = Some es" and "map_of es name = Some n"
  obtains xs ys where "es = xs @ (name, n) # ys" "name \<notin> fst ` set xs" "without name es = xs @ ys"
proof -
  obtain xs ys where es: "es = xs @ (name, n) # ys" using map_of_SomeD [OF assms(3)] by (meson split_list)
  have "distinct (map fst es)" using tree_invD [OF assms(1,2)] by (simp add: dir_ok_def entries_ok_def)
  then have "name \<notin> fst ` set xs" "name \<notin> fst ` set ys" by (auto simp: es)
  moreover from this have "filter (\<lambda>e. fst e \<noteq> name) xs = xs" "filter (\<lambda>e. fst e \<noteq> name) ys = ys" by (force simp: filter_id_conv)+
  ultimately show thesis using that [OF es] by (simp add: without_def es)
qed

lemma find_prev_dir:
  assumes inv: "tree_inv s L T G" and d: "G d = Some (xs @ (name, n) # ys)" and xs: "name \<notin> fst ` set xs"
  shows "find_prev name NULL (rn_child (rnode_at s d)) s = Some (last (NULL # map snd xs), n)"
  by (rule find_prev_found [OF _ xs entry_name [OF inv d]]) (use tree_invD [OF inv d] in \<open>auto simp: dir_ok_def\<close>)

text \<open>What \<^verbatim>\<open>ramfs_rmdir\<close> and \<^verbatim>\<open>ramfs_remove\<close> do once they have found the entry.\<close>

lemma drop_child:
  assumes ready: "fs_ready s L k" and inv: "tree_inv s L T G" and d: "G d = Some (xs @ (w, n) # ys)"
  obtains s1 s2 s3 t M where "unlink_child d (last (NULL # map snd xs)) n s = Some s1"
    "heap_op (kfree me (rn_name (rnode_at s1 n))) s1 = Some ((), s2)"
    "(if rn_data (rnode_at s2 n) \<noteq> NULL then heap_op (kfree me (rn_data (rnode_at s2 n))) s2 else Some ((), s2)) = Some ((), s3)"
    "heap_op (kfree me n) s3 = Some ((), t)" "fs_ready t M k" "tree_step s t" "tree_inv t M T (G(d \<mapsto> xs @ ys, n := None))"
    "L n \<noteq> None" "M n = None"
proof -
  let ?H = "G(d \<mapsto> xs @ ys, n := None)"
  obtain s1 where s1: "unlink_child d (last (NULL # map snd xs)) n s = Some s1" "tree_step s s1" "hp s1 = hp s"
    "tree_inv s1 L T ?H" "n \<notin> nodes ?H"
    "rn_name (rnode_at s1 n) = rn_name (rnode_at s n)" "rn_data (rnode_at s1 n) = rn_data (rnode_at s n)"
    by (rule unlink_child_tree [OF inv d refl])
  define nm where "nm = rn_name (rnode_at s n)" define da where "da = rn_data (rnode_at s n)"
  have "(w, n) \<in> set (xs @ (w, n) # ys)" by simp
  note nok = entry_ok(1) [OF inv d this]
  obtain c1 c2 where L: "L nm = Some c1" "L n = Some c2" and T: "T nm = Some (Is_name n)" "T n = Some (Is_node d)"
    using nok str_at_live by (fastforce simp: node_ok_def nm_def)
  have dT: "da \<noteq> NULL \<Longrightarrow> T da = Some (Is_data n) \<and> L da \<noteq> None" using nok by (auto simp: node_ok_def da_def)
  have ne: "nm \<noteq> n" "da \<noteq> NULL \<Longrightarrow> da \<noteq> n \<and> da \<noteq> nm" using T dT by auto
  have "fs_ready s1 L k" using ready s1(3) by (simp add: fs_ready_def)
  then obtain s2 where s2: "heap_op (kfree me nm) s1 = Some ((), s2)" "fs_ready s2 (L(nm := None)) k" "fs_mem s2 = fs_mem s1" "same_fs s1 s2"
    by (rule free_object) (rule L(1))
  let ?L = "if da = NULL then L(nm := None) else L(nm := None, da := None)"
  have "\<exists>s3. (if da \<noteq> NULL then heap_op (kfree me da) s2 else Some ((), s2)) = Some ((), s3) \<and> fs_ready s3 ?L k \<and>
      fs_mem s3 = fs_mem s2 \<and> same_fs s1 s3"
  proof (cases "da = NULL")
    case True
    then show ?thesis using s2 by simp
  next
    case False
    then obtain c3 where "(L(nm := None)) da = Some c3" using ne dT by auto
    from free_object [OF s2(2) this] obtain s3 where "heap_op (kfree me da) s2 = Some ((), s3)" "fs_ready s3 (L(nm := None, da := None)) k"
      "fs_mem s3 = fs_mem s2" "same_fs s2 s3" by metis
    then show ?thesis using False same_fs_trans [OF s2(4)] by auto
  qed
  then obtain s3 where s3: "(if da \<noteq> NULL then heap_op (kfree me da) s2 else Some ((), s2)) = Some ((), s3)" "fs_ready s3 ?L k"
      "fs_mem s3 = fs_mem s2" "same_fs s1 s3" by blast
  have "?L n = Some c2" using L ne by auto
  from free_object [OF s3(2) this] obtain t where t: "heap_op (kfree me n) s3 = Some ((), t)" "fs_ready t (?L(n := None)) k"
    "fs_mem t = fs_mem s3" "same_fs s3 t" by metis
  have st: "same_fs s1 t" by (rule same_fs_trans [OF s3(4) t(4)])
  have "tree_inv t (?L(n := None)) T ?H"
    by (rule tree_inv_shrink [OF s1(4,5)])
      (use T dT same_fs_fields(1) [OF st] t(3) s3(3) s2(3) in \<open>auto split: if_splits\<close>)
  moreover have "tree_step s t" by (rule tree_step_trans [OF s1(2) same_fs_tree_step [OF st]])
  moreover have "rnode_at s2 n = rnode_at s1 n" using same_fs_fields(1) [OF s2(4)] by simp
  ultimately show thesis using s1(1) s2(1) s3(1) t(1,2) L(2)
    by (intro that [of s1 s2 s3 t "?L(n := None)"]) (simp_all add: s1(6,7) nm_def [symmetric] da_def [symmetric], auto split: if_splits)
qed

lemma rmdir_empty:
  assumes ready: "fs_ready s L k" and inv: "tree_inv s L T G" and d: "G d = Some es" and v: "dir_vnode s v d"
    and n: "map_of es name = Some n" "G n = Some []"
  obtains t M where "ramfs_rmdir me v (Some name) s = Some (EOK, t)" "fs_ready t M k" "tree_step s t"
    "tree_inv t M T (G(d \<mapsto> without name es, n := None))" "M n = None"
proof -
  obtain xs ys where es: "es = xs @ (name, n) # ys" "name \<notin> fst ` set xs" "without name es = xs @ ys"
    by (rule split_entry [OF inv d n(1)])
  note d' = d [unfolded es(1)]
  obtain s1 s2 s3 t M where c: "unlink_child d (last (NULL # map snd xs)) n s = Some s1"
    "heap_op (kfree me (rn_name (rnode_at s1 n))) s1 = Some ((), s2)"
    "(if rn_data (rnode_at s2 n) \<noteq> NULL then heap_op (kfree me (rn_data (rnode_at s2 n))) s2 else Some ((), s2)) = Some ((), s3)"
    "heap_op (kfree me n) s3 = Some ((), t)" "fs_ready t M k" "tree_step s t" "tree_inv t M T (G(d \<mapsto> xs @ ys, n := None))" "M n = None"
    by (rule drop_child [OF ready inv d'])
  obtain r where r: "ramfs_of v s = Some r" "r \<noteq> NULL" "node_of me v r s = Some (d, s)" "v \<noteq> NULL" "d \<noteq> NULL"
    by (rule dir_vnode_node [OF v])
  have "(name, n) \<in> set es" by (simp add: es(1))
  note eo = entry_ok [OF inv d this]
  have ty: "rn_type (rnode_at s n) = RAMFS_DIRECTORY" "rn_type (rnode_at s d) = RAMFS_DIRECTORY" "rn_child (rnode_at s n) = NULL"
    using eo(2) n(2) tree_invD [OF inv d] tree_invD [OF inv n(2)] by (auto simp: dir_ok_def)
  then have data: "rn_data (rnode_at s n) = NULL" using eo(1) by (simp add: node_ok_def)
  have "rn_data (rnode_at s2 n) = NULL"
  proof -
    have "rn_data (rnode_at s1 n) = NULL"
      using c(1) data by (auto simp: unlink_child_def set_rnode_def split: if_splits)
    moreover have "rnode_at s2 = rnode_at s1" using c(2) by (auto simp: heap_op_def)
    ultimately show ?thesis by simp
  qed
  then have s3: "s3 = s2" using c(3) by simp
  have nn: "n \<noteq> NULL" by (rule member_not_NULL [OF inv eo(4)])
  have "ramfs_rmdir me v (Some name) s = Some (EOK, t)"
    using r ty nn find_prev_dir [OF inv d' es(2)] c(1,2,4) s3 by (simp add: ramfs_rmdir_def)
  then show thesis using that c(5-8) es(3) by metis
qed

lemma rmdir_errors:
  assumes inv: "tree_inv s L T G" and d: "G d = Some es" and v: "dir_vnode s v d"
  shows "map_of es name = None \<Longrightarrow> ramfs_rmdir me v (Some name) s = Some (ENOENT, s)"
    and "map_of es name = Some n \<Longrightarrow> G n = None \<Longrightarrow> ramfs_rmdir me v (Some name) s = Some (ENOTDIR, s)"
    and "map_of es name = Some n \<Longrightarrow> G n = Some (e # fs) \<Longrightarrow> ramfs_rmdir me v (Some name) s = Some (ENOTEMPTY, s)"
proof -
  obtain r where r: "ramfs_of v s = Some r" "r \<noteq> NULL" "node_of me v r s = Some (d, s)" "v \<noteq> NULL" "d \<noteq> NULL"
    by (rule dir_vnode_node [OF v])
  have ty: "rn_type (rnode_at s d) = RAMFS_DIRECTORY" and ch: "chain (sib s) (rn_child (rnode_at s d)) (map snd es)"
    using tree_invD [OF inv d] by (auto simp: dir_ok_def)
  show "ramfs_rmdir me v (Some name) s = Some (ENOENT, s)" if "map_of es name = None"
  proof -
    have "name \<notin> fst ` set es" using that by (simp add: map_of_eq_None_iff)
    then obtain q where "find_prev name NULL (rn_child (rnode_at s d)) s = Some (q, NULL)"
      using find_prev_missing [OF ch _ entry_name [OF inv d]] by blast
    then show ?thesis using r ty by (simp add: ramfs_rmdir_def)
  qed
  have found: "find_prev name NULL (rn_child (rnode_at s d)) s = Some (q, n) \<Longrightarrow> n \<noteq> NULL \<Longrightarrow>
    ramfs_rmdir me v (Some name) s = (if rn_type (rnode_at s n) \<noteq> RAMFS_DIRECTORY then Some (ENOTDIR, s)
      else if rn_child (rnode_at s n) \<noteq> NULL then Some (ENOTEMPTY, s) else ramfs_rmdir me v (Some name) s)" for q n
    using r ty by (simp add: ramfs_rmdir_def)
  have fp: "\<exists>q. find_prev name NULL (rn_child (rnode_at s d)) s = Some (q, n)" "n \<noteq> NULL"
    "G n \<noteq> None \<longleftrightarrow> rn_type (rnode_at s n) = RAMFS_DIRECTORY" if m: "map_of es name = Some n" for n
  proof -
    obtain xs ys where es: "es = xs @ (name, n) # ys" "name \<notin> fst ` set xs" by (rule split_entry [OF inv d m])
    show "\<exists>q. find_prev name NULL (rn_child (rnode_at s d)) s = Some (q, n)" using find_prev_dir [OF inv d [unfolded es(1)] es(2)] by blast
    show "n \<noteq> NULL" by (rule member_not_NULL [OF inv entry_ok(4) [OF inv d map_of_SomeD [OF m]]])
    show "G n \<noteq> None \<longleftrightarrow> rn_type (rnode_at s n) = RAMFS_DIRECTORY" by (rule entry_ok(2) [OF inv d map_of_SomeD [OF m]])
  qed
  show "ramfs_rmdir me v (Some name) s = Some (ENOTDIR, s)" if "map_of es name = Some n" "G n = None"
    using fp [OF that(1)] found that(2) by (metis (full_types))
  show "ramfs_rmdir me v (Some name) s = Some (ENOTEMPTY, s)" if "map_of es name = Some n" "G n = Some (e # fs)"
  proof -
    have "rn_child (rnode_at s n) \<noteq> NULL" using tree_invD [OF inv that(2)] by (auto simp: dir_ok_def)
    then show ?thesis using fp [OF that(1)] found that(2) by (metis (full_types) option.distinct(1))
  qed
qed

lemma remove_file:
  assumes ready: "fs_ready s L k" and inv: "tree_inv s L T G" and d: "G d = Some es" and v: "dir_vnode s v d"
    and n: "map_of es name = Some n" "G n = None"
  obtains t M where "ramfs_remove me v (Some name) s = Some (EOK, t)" "fs_ready t M k" "tree_step s t"
    "tree_inv t M T (G(d \<mapsto> without name es))" "M n = None" "L n \<noteq> None"
proof -
  obtain xs ys where es: "es = xs @ (name, n) # ys" "name \<notin> fst ` set xs" "without name es = xs @ ys"
    by (rule split_entry [OF inv d n(1)])
  note d' = d [unfolded es(1)]
  obtain s1 s2 s3 t M where c: "unlink_child d (last (NULL # map snd xs)) n s = Some s1"
    "heap_op (kfree me (rn_name (rnode_at s1 n))) s1 = Some ((), s2)"
    "(if rn_data (rnode_at s2 n) \<noteq> NULL then heap_op (kfree me (rn_data (rnode_at s2 n))) s2 else Some ((), s2)) = Some ((), s3)"
    "heap_op (kfree me n) s3 = Some ((), t)" "fs_ready t M k" "tree_step s t" "tree_inv t M T (G(d \<mapsto> xs @ ys, n := None))"
    "L n \<noteq> None" "M n = None"
    by (rule drop_child [OF ready inv d'])
  obtain r where r: "ramfs_of v s = Some r" "r \<noteq> NULL" "node_of me v r s = Some (d, s)" "v \<noteq> NULL" "d \<noteq> NULL"
    by (rule dir_vnode_node [OF v])
  have "(name, n) \<in> set es" by (simp add: es(1))
  note eo = entry_ok [OF inv d this]
  have ty: "rn_type (rnode_at s n) \<noteq> RAMFS_DIRECTORY" "rn_type (rnode_at s d) = RAMFS_DIRECTORY"
    using eo(2) n(2) tree_invD [OF inv d] by (auto simp: dir_ok_def)
  have nn: "n \<noteq> NULL" by (rule member_not_NULL [OF inv eo(4)])
  have "ramfs_remove me v (Some name) s = Some (EOK, t)"
    using r ty nn find_prev_dir [OF inv d' es(2)] c(1-4) by (simp add: ramfs_remove_def)
  moreover have "n \<noteq> d" using n(2) d by auto
  then have "G(d \<mapsto> xs @ ys, n := None) = G(d \<mapsto> without name es)" using n(2) es(3) by auto
  ultimately show thesis using that c(5-9) by metis
qed

lemma remove_errors:
  assumes inv: "tree_inv s L T G" and d: "G d = Some es" and v: "dir_vnode s v d"
  shows "map_of es name = None \<Longrightarrow> ramfs_remove me v (Some name) s = Some (ENOENT, s)"
    and "map_of es name = Some n \<Longrightarrow> G n \<noteq> None \<Longrightarrow> ramfs_remove me v (Some name) s = Some (EISDIR, s)"
proof -
  obtain r where r: "ramfs_of v s = Some r" "r \<noteq> NULL" "node_of me v r s = Some (d, s)" "v \<noteq> NULL" "d \<noteq> NULL"
    by (rule dir_vnode_node [OF v])
  have ty: "rn_type (rnode_at s d) = RAMFS_DIRECTORY" and ch: "chain (sib s) (rn_child (rnode_at s d)) (map snd es)"
    using tree_invD [OF inv d] by (auto simp: dir_ok_def)
  show "ramfs_remove me v (Some name) s = Some (ENOENT, s)" if "map_of es name = None"
  proof -
    have "name \<notin> fst ` set es" using that by (simp add: map_of_eq_None_iff)
    then obtain q where "find_prev name NULL (rn_child (rnode_at s d)) s = Some (q, NULL)"
      using find_prev_missing [OF ch _ entry_name [OF inv d]] by blast
    then show ?thesis using r ty by (simp add: ramfs_remove_def)
  qed
  show "ramfs_remove me v (Some name) s = Some (EISDIR, s)" if m: "map_of es name = Some n" and g: "G n \<noteq> None"
  proof -
    obtain xs ys where es: "es = xs @ (name, n) # ys" "name \<notin> fst ` set xs" by (rule split_entry [OF inv d m])
    have "n \<noteq> NULL" by (rule member_not_NULL [OF inv entry_ok(4) [OF inv d map_of_SomeD [OF m]]])
    moreover have "rn_type (rnode_at s n) = RAMFS_DIRECTORY" using entry_ok(2) [OF inv d map_of_SomeD [OF m]] g by blast
    ultimately show ?thesis using r ty find_prev_dir [OF inv d [unfolded es(1)] es(2)] by (simp add: ramfs_remove_def)
  qed
qed

section \<open>Paths\<close>

lemma find_node_resolve:
  assumes ready: "fs_ready s L (Suc k)" and inv: "tree_inv s L T G" and root: "rf_root_node (ramfs_at s r) = d" "G d \<noteq> None" "r \<noteq> NULL"
    and p: "str_ok path"
  obtains t where "ramfs_find_node me r (Some path) s =
      Some (case if skip_slash path \<noteq> [] \<and> path_words path = [] then None else resolve G d (path_words path) of
              None \<Rightarrow> (-1, NULL) | Some n \<Rightarrow> (0, n), t)"
    "fs_ready t L k" "tree_inv t L T G" "same_fs s t"
proof -
  have dn: "d \<in> nodes G" "d \<noteq> NULL" using root(2) tree_invD [OF inv] by (auto simp: nodes_def dir_ok_def)
  have ok: "str_ok (skip_slash path)" using p by (auto simp: str_ok_def skip_slash_def split: list.splits)
  have pw: "path_words (skip_slash path) = path_words path"
    by (cases path) (auto simp: skip_slash_def path_words_def tokens_def)
  show thesis
  proof (cases "skip_slash path = []")
    case True
    then have "path_words path = []" using pw by (simp add: path_words_def tokens_def)
    then show thesis using True root dn inv fs_ready_mono [OF ready, of k] by (intro that [of s]) (auto simp: ramfs_find_node_def)
  next
    case False
    obtain q a c where a: "dup_string me (skip_slash path) s = Some (q, a)" "q \<noteq> NULL" "L q = None" "fs_ready a (L(q \<mapsto> c)) k"
      "bytes_kept L (fs_mem s) (fs_mem a)" "same_fs s a"
      by (rule new_string [OF ready ok])
    have inva: "tree_inv a (L(q \<mapsto> c)) T G"
      by (rule tree_inv_grow [OF inv _ _ a(5)]) (use a(3) same_fs_fields(1) [OF a(6)] in auto)
    have "(L(q \<mapsto> c)) q = Some c" by simp
    from free_object [OF a(4) this] obtain t where t: "heap_op (kfree me q) a = Some ((), t)" "fs_ready t (L(q \<mapsto> c, q := None)) k"
      "fs_mem t = fs_mem a" "same_fs a t" by metis
    have L: "L(q \<mapsto> c, q := None) = L" using a(3) by (simp add: fun_upd_idem)
    have st: "same_fs s t" by (rule same_fs_trans [OF a(6) t(4)])
    have "tree_inv t L T G"
      by (rule tree_inv_grow [OF inv]) (use a(5) t(3) same_fs_fields(1) [OF st] in auto)
    moreover have "find_walk (path_words path) (rn_child (rnode_at a d)) a =
        Some (if path_words path = [] then NULL else case resolve G d (path_words path) of None \<Rightarrow> NULL | Some n \<Rightarrow> n)"
      using find_walk_resolve [OF inva dn(1) _, of "path_words path"] root(2) by (cases "path_words path = []") auto
    moreover have "n \<noteq> NULL" if "resolve G d (path_words path) = Some n" for n
      using resolve_node [OF that dn(1)] member_not_NULL [OF inv] tree_invD [OF inv] by (auto simp: nodes_def dir_ok_def)
    moreover have "rf_root_node (ramfs_at a r) = d" using root(1) same_fs_fields(2) [OF a(6)] by simp
    ultimately show thesis using a(1,2) t(1,2) L st root False dn
      by (intro that [of t]) (auto simp: ramfs_find_node_def pw split: option.splits)
  qed
qed

section \<open>A directory as a name space\<close>

text \<open>An operation applied to a list of names, each of which must succeed.\<close>

fun each :: "(string \<Rightarrow> 's \<Rightarrow> (int \<times> 's) option) \<Rightarrow> string list \<Rightarrow> 's \<Rightarrow> 's option" where
  "each op [] s = Some s"
| "each op (x # xs) s =
     (case op x s of None \<Rightarrow> None | Some (r, t) \<Rightarrow> if r = EOK then each op xs t else None)"

text \<open>
  What a client of a directory relies on. \<open>holds s k m E\<close>: the directory maps names to nodes as \<open>m\<close>
  does, the names in \<open>E\<close> are empty subdirectories, and there is room for \<open>k\<close> more frames.
\<close>

locale name_space =
  fixes holds :: "'s \<Rightarrow> nat \<Rightarrow> (string \<Rightarrow> u64 option) \<Rightarrow> string set \<Rightarrow> bool" and valid :: "string \<Rightarrow> bool"
    and add :: "string \<Rightarrow> 's \<Rightarrow> (int \<times> 's) option" and del :: "string \<Rightarrow> 's \<Rightarrow> (int \<times> 's) option"
  assumes add_new: "holds s (Suc (Suc k)) m E \<Longrightarrow> valid nm \<Longrightarrow> m nm = None \<Longrightarrow>
      \<exists>n t. add nm s = Some (EOK, t) \<and> holds t k (m(nm \<mapsto> n)) (insert nm E)"
    and add_old: "holds s k m E \<Longrightarrow> m nm = Some n \<Longrightarrow> add nm s = Some (EEXIST, s)"
    and del_empty: "holds s k m E \<Longrightarrow> nm \<in> E \<Longrightarrow> \<exists>t. del nm s = Some (EOK, t) \<and> holds t k (m(nm := None)) (E - {nm})"
    and del_missing: "holds s k m E \<Longrightarrow> m nm = None \<Longrightarrow> del nm s = Some (ENOENT, s)"
begin

lemma add_each:
  assumes "holds s (2 * length xs + k) m E" and "distinct xs" and "\<forall>x \<in> set xs. valid x \<and> m x = None"
  shows "\<exists>t f. each add xs s = Some t \<and> holds t k (m ++ f) (E \<union> set xs) \<and> dom f = set xs"
  using assms
proof (induction xs arbitrary: s m E)
  case Nil
  then show ?case by (auto intro!: exI [of _ Map.empty])
next
  case (Cons x xs)
  have "holds s (Suc (Suc (2 * length xs + k))) m E" using Cons.prems(1) by simp
  from add_new [OF this, of x] Cons.prems(3) obtain n t where
    t: "add x s = Some (EOK, t)" "holds t (2 * length xs + k) (m(x \<mapsto> n)) (insert x E)" by auto
  have d: "distinct xs" and "\<forall>y \<in> set xs. valid y \<and> (m(x \<mapsto> n)) y = None" using Cons.prems by auto
  from Cons.IH [OF t(2) this] obtain u f where
    u: "each add xs t = Some u" "holds u k (m(x \<mapsto> n) ++ f) (insert x E \<union> set xs)" "dom f = set xs" by blast
  have "m(x \<mapsto> n) ++ f = m ++ ([x \<mapsto> n] ++ f)" by simp
  with u(2) have "holds u k (m ++ ([x \<mapsto> n] ++ f)) (E \<union> set (x # xs))" by (simp only: list.set Un_insert_left Un_insert_right)
  moreover have "each add (x # xs) s = Some u" using t(1) u(1) by simp
  moreover have "dom ([x \<mapsto> n] ++ f) = set (x # xs)" using u(3) by auto
  ultimately show ?case by blast
qed

lemma del_each:
  assumes "holds s k m E" and "distinct ys" and "set ys \<subseteq> E"
  shows "\<exists>t. each del ys s = Some t \<and> holds t k (\<lambda>x. if x \<in> set ys then None else m x) (E - set ys)"
  using assms
proof (induction ys arbitrary: s m E)
  case Nil
  then show ?case by simp
next
  case (Cons y ys)
  from del_empty [OF Cons.prems(1), of y] Cons.prems(3) obtain t where
    t: "del y s = Some (EOK, t)" "holds t k (m(y := None)) (E - {y})" by auto
  have "set ys \<subseteq> E - {y}" using Cons.prems by auto
  from Cons.IH [OF t(2) _ this] Cons.prems(2) obtain u where
    u: "each del ys t = Some u" "holds u k (\<lambda>x. if x \<in> set ys then None else (m(y := None)) x) (E - {y} - set ys)" by auto
  have "(\<lambda>x. if x \<in> set ys then None else (m(y := None)) x) = (\<lambda>x. if x \<in> set (y # ys) then None else m x)" by auto
  moreover have "E - {y} - set ys = E - set (y # ys)" by auto
  ultimately show ?case using t(1) u by auto
qed

lemma add_del_each:
  assumes "holds s (2 * length xs + k) m {}" and xs: "distinct xs" "\<forall>x \<in> set xs. valid x \<and> m x = None"
    and ys: "distinct ys" "set ys = set xs"
  shows "\<exists>t u f. each add xs s = Some t \<and> holds t k (m ++ f) (set xs) \<and> dom f = set xs \<and> each del ys t = Some u \<and> holds u k m {}"
proof -
  from add_each [OF assms(1) xs] obtain t f where t: "each add xs s = Some t" "holds t k (m ++ f) (set xs)" "dom f = set xs" by auto
  from del_each [OF t(2) ys(1)] ys(2) obtain u where
    u: "each del ys t = Some u" "holds u k (\<lambda>x. if x \<in> set ys then None else (m ++ f) x) {}" by auto
  have "(if x \<in> set ys then None else (m ++ f) x) = m x" for x
  proof (cases "x \<in> set xs")
    case True
    then show ?thesis using xs(2) ys(2) by simp
  next
    case False
    then have "f x = None" using t(3) by blast
    then show ?thesis using False ys(2) by (simp add: map_add_def)
  qed
  then have "(\<lambda>x. if x \<in> set ys then None else (m ++ f) x) = m" by blast
  with t u show ?thesis by auto
qed

end

definition dir_holds :: "u64 \<Rightarrow> fs \<Rightarrow> nat \<Rightarrow> (string \<Rightarrow> u64 option) \<Rightarrow> string set \<Rightarrow> bool" where
  "dir_holds v s k m E \<longleftrightarrow> (\<exists>L T G d es. fs_ready s L k \<and> tree_inv s L T G \<and> dir_vnode s v d \<and> G d = Some es \<and> m = map_of es \<and>
     (\<forall>nm \<in> E. \<exists>n. map_of es nm = Some n \<and> G n = Some []))"

lemma map_of_append_new: "map_of es nm = None \<Longrightarrow> map_of (es @ [(nm, n)]) = (map_of es)(nm \<mapsto> n)"
  by (auto simp: fun_eq_iff map_add_def split: option.splits)

lemma map_of_without: "map_of (without nm es) = (map_of es)(nm := None)"
  by (induction es) (auto simp: without_def fun_eq_iff)

lemma entry_node_distinct:
  assumes "tree_inv s L T G" and "G d = Some es" and "map_of es a = Some n" and "map_of es b = Some n"
  shows "a = b"
proof -
  have "distinct (map snd es)" using tree_invD [OF assms(1,2)] by (simp add: dir_ok_def entries_ok_def)
  moreover have "(a, n) \<in> set es" "(b, n) \<in> set es" using assms(3,4) map_of_SomeD by metis+
  ultimately show ?thesis by (metis distinct_map inj_on_def prod.inject snd_conv)
qed

interpretation ramfs: name_space "dir_holds v" str_ok "\<lambda>nm. ramfs_mkdir me v (Some nm) mode" "\<lambda>nm. ramfs_rmdir me v (Some nm)"
  for me v mode
proof
  fix s k m E nm
  assume "dir_holds v s (Suc (Suc k)) m E" and nm: "str_ok nm" "m nm = None"
  then obtain L T G d es where h: "fs_ready s L (Suc (Suc k))" "tree_inv s L T G" "dir_vnode s v d" "G d = Some es" "m = map_of es"
    "\<forall>nm \<in> E. \<exists>n. map_of es nm = Some n \<and> G n = Some []" by (auto simp: dir_holds_def)
  from nm(2) h(5) have new: "map_of es nm = None" by simp
  obtain n t M U where t: "ramfs_mkdir me v (Some nm) mode s = Some (EOK, t)" "fs_ready t M k" "tree_step s t"
    "tree_inv t M U (G(d \<mapsto> es @ [(nm, n)], n \<mapsto> []))" "n \<notin> nodes G"
    by (rule mkdir_new [OF h(1,2,4,3) nm(1) new])
  have dn: "d \<noteq> n" using t(5) h(4) by (auto simp: nodes_def)
  have nd: "d \<notin> snd ` set es" using tree_invD [OF h(2,4)] by (simp add: dir_ok_def)
  have "\<exists>x. ((map_of es)(nm \<mapsto> n)) y = Some x \<and> (G(d \<mapsto> es @ [(nm, n)], n \<mapsto> [])) x = Some []" if y: "y \<in> insert nm E" for y
  proof (cases "y = nm")
    case False
    then obtain x where x: "map_of es y = Some x" "G x = Some []" using y h(6) by blast
    then have "x \<noteq> d" using map_of_SomeD [OF x(1)] nd by force
    then show ?thesis using x False by auto
  qed auto
  then have "dir_holds v t k (m(nm \<mapsto> n)) (insert nm E)"
    unfolding dir_holds_def h(5) map_of_append_new [OF new, symmetric]
    using t(2,4) dir_vnode_step [OF t(3)] h(3) dn
    by (intro exI [of _ M] exI [of _ U] exI [of _ "G(d \<mapsto> es @ [(nm, n)], n \<mapsto> [])"] exI [of _ d] exI [of _ "es @ [(nm, n)]"])
      (simp add: map_of_append_new [OF new])
  with t(1) show "\<exists>n t. ramfs_mkdir me v (Some nm) mode s = Some (EOK, t) \<and> dir_holds v t k (m(nm \<mapsto> n)) (insert nm E)" by blast
next
  fix s k m E nm n
  assume "dir_holds v s k m E" "m nm = Some n"
  then show "ramfs_mkdir me v (Some nm) mode s = Some (EEXIST, s)" using mkdir_exists by (fastforce simp: dir_holds_def)
next
  fix s k m E nm
  assume "dir_holds v s k m E" and nm: "nm \<in> E"
  then obtain L T G d es where h: "fs_ready s L k" "tree_inv s L T G" "dir_vnode s v d" "G d = Some es" "m = map_of es"
    "\<forall>nm \<in> E. \<exists>n. map_of es nm = Some n \<and> G n = Some []" by (auto simp: dir_holds_def)
  from nm h(6) obtain n where n: "map_of es nm = Some n" "G n = Some []" by blast
  obtain t M where t: "ramfs_rmdir me v (Some nm) s = Some (EOK, t)" "fs_ready t M k" "tree_step s t"
    "tree_inv t M T (G(d \<mapsto> without nm es, n := None))"
    by (rule rmdir_empty [OF h(1,2,4,3) n])
  have nd: "d \<notin> snd ` set es" using tree_invD [OF h(2,4)] by (simp add: dir_ok_def)
  then have dn: "d \<noteq> n" using map_of_SomeD [OF n(1)] by force
  have "\<exists>x. map_of (without nm es) y = Some x \<and> (G(d \<mapsto> without nm es, n := None)) x = Some []" if "y \<in> E - {nm}" for y
  proof -
    from that h(6) obtain x where x: "map_of es y = Some x" "G x = Some []" "y \<noteq> nm" by auto
    have "x \<in> snd ` set es" using map_of_SomeD [OF x(1)] by force
    then have "x \<noteq> d" using nd by blast
    moreover have "x \<noteq> n" using entry_node_distinct [OF h(2,4) x(1)] n(1) x(3) by blast
    ultimately show ?thesis using x by (simp add: map_of_without)
  qed
  then have "dir_holds v t k (m(nm := None)) (E - {nm})"
    unfolding dir_holds_def h(5) map_of_without [symmetric]
    using t(2,4) dir_vnode_step [OF t(3)] h(3) dn
    by (intro exI [of _ M] exI [of _ T] exI [of _ "G(d \<mapsto> without nm es, n := None)"] exI [of _ d] exI [of _ "without nm es"]) simp
  with t(1) show "\<exists>t. ramfs_rmdir me v (Some nm) s = Some (EOK, t) \<and> dir_holds v t k (m(nm := None)) (E - {nm})" by blast
next
  fix s k m E nm
  assume "dir_holds v s k m E" "m nm = None"
  then show "ramfs_rmdir me v (Some nm) s = Some (ENOENT, s)" using rmdir_errors(1) by (fastforce simp: dir_holds_def)
qed

end
