(* ===== verification/Ramfs_Props.thy ===== *)
theory Ramfs_Props
  imports Ramfs_Tree
begin

text \<open>
  What the directory operations of ramfs (\<^verbatim>\<open>fs/ramfs/ramfs.c\<close>) do to the abstract tree of theory
  \<open>Ramfs_Tree\<close>: making and removing entries on every branch, undoing a list of \<^verbatim>\<open>mkdir\<close> calls by
  \<^verbatim>\<open>rmdir\<close> calls in any order, and the node that a path leads to.
\<close>

section \<open>A tree to start from\<close>

lemma root_tree:
  obtains s L T d where "fs_ready s L 14" "tree_inv s L T [d \<mapsto> []]" "dir_vnode s 0x5000 d"
    "rf_root_node (ramfs_at s 0x7000) = d"
proof -
  obtain h where h: "fs_ready (bare_fs h) Map.empty 15" by (rule bare_ready)
  have "fs_ready (bare_fs h) Map.empty (Suc 14)" using h by simp
  then obtain d a c where a: "fs_ready a [d \<mapsto> c] 14" "same_fs (bare_fs h) a" "d \<noteq> NULL"
    by (rule new_object [of "bare_fs h" Map.empty 14 56 0]) auto
  let ?s = "a\<lparr>vnode_at := (\<lambda>v. (vnode_at a v)\<lparr>vn_node_data := d, vn_root_vfs := 0x6000\<rparr>),
    vfs_at := (\<lambda>v. (vfs_at a v)\<lparr>vf_data := 0x7000\<rparr>), ramfs_at := (\<lambda>r. (ramfs_at a r)\<lparr>rf_root_node := d\<rparr>),
    rnode_at := (\<lambda>n. (rnode_at a n)\<lparr>rn_type := RAMFS_DIRECTORY, rn_child := NULL\<rparr>)\<rparr>"
  have "fs_ready ?s [d \<mapsto> c] 14" using a(1) by (simp add: fs_ready_def)
  moreover have "tree_inv ?s [d \<mapsto> c] [d \<mapsto> Is_root] [d \<mapsto> []]"
    using a(3) by (simp add: tree_inv_def dir_ok_def entries_ok_def)
  moreover have "dir_vnode ?s 0x5000 d" using a(3) by (simp add: dir_vnode_def)
  ultimately show thesis by (rule that) simp
qed

text \<open>The same tree with one empty subdirectory.\<close>

lemma sub_tree:
  assumes "str_ok nm"
  obtains s L T d n where "fs_ready s L 12" "tree_inv s L T [d \<mapsto> [(nm, n)], n \<mapsto> []]" "dir_vnode s 0x5000 d"
    "rf_root_node (ramfs_at s 0x7000) = d" "n \<noteq> d"
proof -
  obtain s L T d where s: "fs_ready s L 14" "tree_inv s L T [d \<mapsto> []]" "dir_vnode s 0x5000 d" "rf_root_node (ramfs_at s 0x7000) = d"
    by (rule root_tree)
  have r: "fs_ready s L (Suc (Suc 12))" using s(1) by simp
  obtain n t M U where t: "fs_ready t M 12" "tree_step s t" "tree_inv t M U ([d \<mapsto> []](d \<mapsto> [] @ [(nm, n)], n \<mapsto> []))"
    "n \<notin> nodes [d \<mapsto> []]"
    by (rule mkdir_new [OF r s(2) _ s(3) assms, of "[]" 0 0]) simp_all
  show thesis
    by (rule that [OF t(1), of U d n]) (use t(3,4) s(3,4) dir_vnode_step [OF t(2)] tree_step_fields(1) [OF t(2)] in \<open>auto simp: nodes_def\<close>)
qed

section \<open>Properties\<close>

text \<open>
  C14. \<^verbatim>\<open>ramfs_mkdir\<close> in a directory of the tree, with two free frames: an existing name gives \<open>EEXIST\<close> and
  changes nothing; otherwise it succeeds, and the tree is the old one with a new empty directory under
  the name, at the end of the entries, with the permission bits of the mode and the directory type.
\<close>
theorem ramfs_mkdir_correct:
  assumes "fs_ready s L (Suc (Suc k))" and "tree_inv s L T G" and "G d = Some es" and "dir_vnode s v d" and "str_ok name"
  shows "case map_of es name of
      Some n \<Rightarrow> ramfs_mkdir me v (Some name) mode s = Some (EEXIST, s)
    | None \<Rightarrow> \<exists>n t M U. ramfs_mkdir me v (Some name) mode s = Some (EOK, t) \<and> fs_ready t M k \<and> n \<notin> nodes G \<and>
        tree_inv t M U (G(d \<mapsto> es @ [(name, n)], n \<mapsto> [])) \<and> dir_vnode t v d \<and>
        rn_mode (rnode_at t n) = S_IFDIR OR (mode AND 0x1FF)"
proof (cases "map_of es name")
  case None
  obtain n t M U where "ramfs_mkdir me v (Some name) mode s = Some (EOK, t)" "fs_ready t M k" "tree_step s t"
    "tree_inv t M U (G(d \<mapsto> es @ [(name, n)], n \<mapsto> []))" "n \<notin> nodes G" "rn_mode (rnode_at t n) = S_IFDIR OR (mode AND 0x1FF)"
    by (rule mkdir_new [OF assms None])
  then show ?thesis using None dir_vnode_step assms(4) by (simp only: option.case) blast
next
  case (Some n)
  then show ?thesis using mkdir_exists [OF assms(2-4)] by simp
qed

theorem ramfs_mkdir_correct_witness:
  "\<exists>s t n. ramfs_mkdir 0 0x5000 (Some ''bin'') 0x3ED s = Some (EOK, t) \<and> rn_mode (rnode_at t n) = 0x41ED"
proof -
  obtain s L T d where s: "fs_ready s L 14" "tree_inv s L T [d \<mapsto> []]" "dir_vnode s 0x5000 d" by (rule root_tree)
  have r: "fs_ready s L (Suc (Suc 12))" using s(1) by simp
  have "\<exists>n t M U. ramfs_mkdir 0 0x5000 (Some ''bin'') 0x3ED s = Some (EOK, t) \<and> rn_mode (rnode_at t n) = S_IFDIR OR (0x3ED AND 0x1FF)"
    using ramfs_mkdir_correct [OF r s(2) _ s(3), of "[]" "''bin''" 0 "0x3ED"] by (auto simp: str_ok_def)
  moreover have "S_IFDIR OR (0x3ED AND 0x1FF) = (0x41ED :: u32)" by simp
  ultimately show ?thesis by metis
qed

text \<open>
  C15. \<^verbatim>\<open>ramfs_rmdir\<close> and \<^verbatim>\<open>ramfs_remove\<close> in a directory of the tree, on every branch. A missing name gives
  \<open>ENOENT\<close>; \<^verbatim>\<open>rmdir\<close> of a file gives \<open>ENOTDIR\<close> and of a directory with entries \<open>ENOTEMPTY\<close>, \<^verbatim>\<open>remove\<close> of a
  directory gives \<open>EISDIR\<close>, and nothing is changed. Otherwise the entry leaves the tree, its node and
  name (and data) go back to the heap, and the rest of the tree stays as it is.
\<close>
theorem ramfs_unlink_correct:
  assumes "fs_ready s L k" and "tree_inv s L T G" and "G d = Some es" and "dir_vnode s v d"
  shows "case map_of es name of
      None \<Rightarrow> ramfs_rmdir me v (Some name) s = Some (ENOENT, s) \<and> ramfs_remove me v (Some name) s = Some (ENOENT, s)
    | Some n \<Rightarrow>
       (case G n of
          None \<Rightarrow> ramfs_rmdir me v (Some name) s = Some (ENOTDIR, s) \<and>
            (\<exists>t M. ramfs_remove me v (Some name) s = Some (EOK, t) \<and> fs_ready t M k \<and> tree_inv t M T (G(d \<mapsto> without name es)) \<and> M n = None)
        | Some [] \<Rightarrow> ramfs_remove me v (Some name) s = Some (EISDIR, s) \<and>
            (\<exists>t M. ramfs_rmdir me v (Some name) s = Some (EOK, t) \<and> fs_ready t M k \<and>
               tree_inv t M T (G(d \<mapsto> without name es, n := None)) \<and> M n = None)
        | Some (e # fs) \<Rightarrow> ramfs_remove me v (Some name) s = Some (EISDIR, s) \<and> ramfs_rmdir me v (Some name) s = Some (ENOTEMPTY, s))"
proof (cases "map_of es name")
  case None
  then show ?thesis using rmdir_errors(1) [OF assms(2-4)] remove_errors(1) [OF assms(2-4)] by simp
next
  case n: (Some n)
  show ?thesis
  proof (cases "G n")
    case None
    obtain t M where "ramfs_remove me v (Some name) s = Some (EOK, t)" "fs_ready t M k" "tree_inv t M T (G(d \<mapsto> without name es))" "M n = None"
      by (rule remove_file [OF assms n None])
    then show ?thesis using rmdir_errors(2) [OF assms(2-4) n None] by (simp only: n None option.case) blast
  next
    case g: (Some fs)
    have rm: "ramfs_remove me v (Some name) s = Some (EISDIR, s)" by (rule remove_errors(2) [OF assms(2-4) n]) (simp add: g)
    show ?thesis
    proof (cases fs)
      case Nil
      obtain t M where "ramfs_rmdir me v (Some name) s = Some (EOK, t)" "fs_ready t M k"
        "tree_inv t M T (G(d \<mapsto> without name es, n := None))" "M n = None"
        by (rule rmdir_empty [OF assms n g [unfolded Nil]])
      then show ?thesis using rm by (simp only: n g Nil option.case list.case) blast
    next
      case (Cons e es')
      show ?thesis using rm rmdir_errors(3) [OF assms(2-4) n g [unfolded Cons]] by (simp add: n g Cons)
    qed
  qed
qed

theorem ramfs_unlink_correct_witness:
  "\<exists>s t. ramfs_rmdir 0 0x5000 (Some ''tmp'') s = Some (EOK, t) \<and> ramfs_remove 0 0x5000 (Some ''tmp'') s = Some (EISDIR, s)"
proof -
  have ok: "str_ok ''tmp''" by (simp add: str_ok_def)
  obtain s L T d n where s: "fs_ready s L 12" "tree_inv s L T [d \<mapsto> [(''tmp'', n)], n \<mapsto> []]" "dir_vnode s 0x5000 d" "n \<noteq> d"
    by (rule sub_tree [OF ok])
  have "\<exists>t. ramfs_rmdir 0 0x5000 (Some ''tmp'') s = Some (EOK, t) \<and> ramfs_remove 0 0x5000 (Some ''tmp'') s = Some (EISDIR, s)"
    using ramfs_unlink_correct [OF s(1,2) _ s(3), of "[(''tmp'', n)]", where name = "''tmp''" and me = 0] s(4) by auto
  then show ?thesis by blast
qed

text \<open>
  C16. Making any list of new directories with \<^verbatim>\<open>ramfs_mkdir\<close> succeeds when there are two free frames for
  each, and removing them again with \<^verbatim>\<open>ramfs_rmdir\<close>, in any order, gives back the names the
  directory had before.
\<close>
theorem mkdir_rmdir_roundtrip:
  assumes "dir_holds v s (2 * length xs + k) m {}" and "distinct xs" and "\<forall>x \<in> set xs. str_ok x \<and> m x = None"
    and "distinct ys" and "set ys = set xs"
  shows "\<exists>t u f. each (\<lambda>nm. ramfs_mkdir me v (Some nm) mode) xs s = Some t \<and> dir_holds v t k (m ++ f) (set xs) \<and> dom f = set xs \<and>
    each (\<lambda>nm. ramfs_rmdir me v (Some nm)) ys t = Some u \<and> dir_holds v u k m {}"
  by (rule ramfs.add_del_each [OF assms])

theorem mkdir_rmdir_roundtrip_witness:
  "\<exists>s t u. each (\<lambda>nm. ramfs_mkdir 0 0x5000 (Some nm) 0x1ED) [''bin'', ''etc'', ''tmp''] s = Some t \<and>
     each (\<lambda>nm. ramfs_rmdir 0 0x5000 (Some nm)) [''etc'', ''tmp'', ''bin''] t = Some u \<and> dir_holds 0x5000 u 8 Map.empty {}"
proof -
  obtain s L T d where s: "fs_ready s L 14" "tree_inv s L T [d \<mapsto> []]" "dir_vnode s 0x5000 d" by (rule root_tree)
  have "dir_holds 0x5000 s 14 Map.empty {}"
    unfolding dir_holds_def using s by (intro exI [of _ L] exI [of _ T] exI [of _ "[d \<mapsto> []]"] exI [of _ d] exI [of _ "[]"]) simp
  then have "dir_holds 0x5000 s (2 * length [''bin'', ''etc'', ''tmp''] + 8) Map.empty {}" by simp
  note r = mkdir_rmdir_roundtrip [where ys = "[''etc'', ''tmp'', ''bin'']" and me = 0 and mode = "0x1ED", OF this]
  have "distinct [''bin'', ''etc'', ''tmp'']" "distinct [''etc'', ''tmp'', ''bin'']"
    "\<forall>x \<in> set [''bin'', ''etc'', ''tmp'']. str_ok x \<and> Map.empty x = (None :: u64 option)"
    "set [''etc'', ''tmp'', ''bin''] = set [''bin'', ''etc'', ''tmp'']" by (auto simp: str_ok_def)
  from r [OF this(1,3,2,4)] show ?thesis by (elim exE conjE) (intro exI conjI, assumption+)
qed

text \<open>
  C17. \<^verbatim>\<open>ramfs_find_node\<close> is path resolution in the abstract tree: it returns 0 and the node at the end of
  the path, following the words of the path from the root through the entries of directories, or
  -1 when there is none; a path of several slashes and no words finds nothing. The copy of the path
  it makes is freed again, and the tree stays as it is.
\<close>
theorem ramfs_find_node_resolves:
  assumes "fs_ready s L (Suc k)" and "tree_inv s L T G" and "G (rf_root_node (ramfs_at s r)) \<noteq> None" and "r \<noteq> NULL" and "str_ok path"
  shows "\<exists>t. ramfs_find_node me r (Some path) s =
      Some (case if skip_slash path \<noteq> [] \<and> path_words path = [] then None
                 else resolve G (rf_root_node (ramfs_at s r)) (path_words path) of
              None \<Rightarrow> (-1, NULL) | Some n \<Rightarrow> (0, n), t) \<and>
    fs_ready t L k \<and> tree_inv t L T G \<and> same_fs s t"
proof -
  obtain t where "ramfs_find_node me r (Some path) s =
      Some (case if skip_slash path \<noteq> [] \<and> path_words path = [] then None
                 else resolve G (rf_root_node (ramfs_at s r)) (path_words path) of
              None \<Rightarrow> (-1, NULL) | Some n \<Rightarrow> (0, n), t)"
    "fs_ready t L k" "tree_inv t L T G" "same_fs s t"
    by (rule find_node_resolve [OF assms(1,2) refl assms(3-5)])
  then show ?thesis by (intro exI [of _ t] conjI)
qed

theorem ramfs_find_node_resolves_witness:
  "\<exists>s n t u. ramfs_find_node 0 0x7000 (Some ''/usr'') s = Some ((0, n), t) \<and> n \<noteq> NULL \<and>
     ramfs_find_node 0 0x7000 (Some ''/usr/lib'') s = Some ((-1, NULL), u)"
proof -
  have ok: "str_ok ''usr''" "str_ok ''/usr''" "str_ok ''/usr/lib''" by (simp_all add: str_ok_def)
  obtain s L T d n where s: "fs_ready s L 12" "tree_inv s L T [d \<mapsto> [(''usr'', n)], n \<mapsto> []]" "rf_root_node (ramfs_at s 0x7000) = d" "n \<noteq> d"
    by (rule sub_tree [OF ok(1)])
  have w: "path_words ''/usr'' = [''usr'']" "path_words ''/usr/lib'' = [''usr'', ''lib'']" by (simp_all add: path_words_def tokens_def)
  have r: "fs_ready s L (Suc 11)" using s(1) by simp
  have n: "n \<noteq> NULL" by (rule member_not_NULL [OF s(2)]) (use s(4) in \<open>simp add: members_def\<close>)
  have "\<exists>t. ramfs_find_node 0 0x7000 (Some ''/usr'') s = Some ((0, n), t)"
    using ramfs_find_node_resolves [OF r s(2), of "0x7000" "''/usr''" 0] s(3,4) ok by (auto simp: w)
  moreover have "\<exists>u. ramfs_find_node 0 0x7000 (Some ''/usr/lib'') s = Some ((-1, NULL), u)"
    using ramfs_find_node_resolves [OF r s(2), of "0x7000" "''/usr/lib''" 0] s(3,4) ok by (auto simp: w)
  ultimately show ?thesis using n by blast
qed

end
