(* ===== verification/Ramfs_File.thy ===== *)
theory Ramfs_File
  imports Ramfs_Tree
begin

text \<open>
  The contents of ramfs files: what \<^verbatim>\<open>ramfs_write\<close> leaves in the heap and what \<^verbatim>\<open>ramfs_read\<close> takes out
  of it, for files whose size the heap has recorded: it keeps sizes in 16 bits, so these are files of up to 65535 bytes.
\<close>

section \<open>Blocks of live memory\<close>

definition block :: "mem \<Rightarrow> u64 \<Rightarrow> nat \<Rightarrow> u8 list" where
  "block m p n = map (\<lambda>i. m (p + of_nat i)) [0 ..< n]"

lemma length_block [simp]: "length (block m p n) = n"
  by (simp add: block_def)

lemma nth_block [simp]: "i < n \<Longrightarrow> block m p n ! i = m (p + of_nat i)"
  by (simp add: block_def)

lemma block_cong: "(\<And>i. i < n \<Longrightarrow> m' (q + of_nat i) = m (p + of_nat i)) \<Longrightarrow> block m' q n = block m p n"
  by (simp add: block_def)

lemma live_disjoint:
  assumes "heap h L" and "L x = Some e" and "L y = Some c" and "x \<noteq> y" and "i < e" and "j < c"
  shows "x + of_nat i \<noteq> y + of_nat j"
  by (rule apart_ranges [OF kheap.live_apart [OF assms(1-4)] object_size_bound(4) [OF assms(1,2)]
        object_size_bound(4) [OF assms(1,3)] assms(5,6)])

text \<open>No object is larger than the memory that the machine can have.\<close>

lemma object_small:
  assumes "heap s L" and "L p = Some c"
  shows "c \<le> 2 ^ 44"
proof -
  from assms obtain G cl where r: "heap_rel s G cl" and o: "object s G p c" by (auto simp: heap_def)
  obtain n fl where a: "p \<in> slots (page_base p) (slab_at s (page_base p)) n" "c = slot_size (slab_at s (page_base p)) n"
    "slab_ok s (page_base p) n fl" by (rule live_slab [OF r o])
  have hh: "hhdm_ok s" using r by (simp add: heap_rel_def)
  obtain k where "32 + (k + 1) * c \<le> n * 4096" by (rule slot_place [OF a(3) hh a(1)]) (auto simp: a(2))
  then have "c \<le> n * 4096" by simp
  moreover have "n \<le> 2 ^ 32" using a(3) hh by (auto simp: slab_ok_def hhdm_ok_def)
  ultimately show ?thesis by simp
qed

text \<open>The file of a node.\<close>

definition contents :: "fs \<Rightarrow> u64 \<Rightarrow> u8 list" where
  "contents s n = block (fs_mem s) (rn_data (rnode_at s n)) (unat (rn_size (rnode_at s n)))"

definition write_at :: "u8 list \<Rightarrow> nat \<Rightarrow> u8 list \<Rightarrow> u8 list" where
  "write_at bs off new = take off bs @ new @ drop (off + length new) bs"

lemma length_write_at: "off \<le> length bs \<Longrightarrow> length (write_at bs off new) = max (length bs) (off + length new)"
  by (auto simp: write_at_def)

lemma nth_write_at:
  assumes "off \<le> length bs" and "i < max (length bs) (off + length new)"
  shows "write_at bs off new ! i = (if off \<le> i \<and> i < off + length new then new ! (i - off) else bs ! i)"
  using assms by (auto simp: write_at_def nth_append min_def)

lemma in_file_range:
  fixes p offset n :: u64
  assumes "unat offset + unat n < 2 ^ 64" and "i < 2 ^ 64"
  shows "p + of_nat i - (p + offset) < n \<longleftrightarrow> unat offset \<le> i \<and> i < unat offset + unat n"
proof -
  have ui: "unat (of_nat i :: u64) = i" using assms(2) by (simp add: unat_of_nat)
  have "p + of_nat i - (p + offset) < n \<longleftrightarrow> (\<exists>j < unat n. (of_nat i :: u64) = offset + of_nat j)"
    unfolding in_range [symmetric] by (auto simp: add.assoc)
  also have "\<dots> \<longleftrightarrow> (\<exists>j < unat n. i = unat offset + j)"
  proof -
    have "(of_nat i :: u64) = offset + of_nat j \<longleftrightarrow> i = unat offset + j" if "j < unat n" for j
    proof -
      have "unat (offset + of_nat j) = unat offset + j"
        using that assms(1) unat_of_nat_le [of j n] by (subst unat_add_no_wrap) auto
      then show ?thesis using ui by (simp add: word_unat_eq_iff)
    qed
    then show ?thesis by blast
  qed
  also have "\<dots> \<longleftrightarrow> unat offset \<le> i \<and> i < unat offset + unat n" by presburger
  finally show ?thesis .
qed

lemma copy_into:
  fixes p offset n buf :: u64
  assumes d: "\<And>i j. i < unat n \<Longrightarrow> j < unat offset + unat n \<Longrightarrow> buf + of_nat i \<noteq> p + of_nat j"
    and b: "unat offset \<le> sz" "max sz (unat offset + unat n) < 2 ^ 64"
  shows "block (memcpy m (p + offset) buf n) p (max sz (unat offset + unat n)) =
    write_at (block m p sz) (unat offset) (block m buf (unat n))"
    (is "?l = ?r")
proof (rule nth_equalityI)
  show "length ?l = length ?r" using b by (simp add: length_write_at)
  fix i assume "i < length ?l"
  then have i: "i < max sz (unat offset + unat n)" by simp
  have ap: "memcpy m (p + offset) buf n q = (if q - (p + offset) < n then m (q - (p + offset) + buf) else m q)" for q
  proof (rule memcpy_apply)
    fix i j assume ij: "i < unat n" "j < unat n"
    have "p + offset + of_nat j = p + of_nat (unat offset + j)" by simp
    then show "buf + of_nat i \<noteq> p + offset + of_nat j" using d [OF ij(1), of "unat offset + j"] ij(2) by (simp add: add.assoc)
  qed
  have rg: "p + of_nat i - (p + offset) < n \<longleftrightarrow> unat offset \<le> i \<and> i < unat offset + unat n"
    by (rule in_file_range) (use i b in auto)
  have "p + of_nat i - (p + offset) + buf = buf + of_nat (i - unat offset)" if "unat offset \<le> i"
    using that by (simp add: of_nat_diff)
  then have "?l ! i = (if unat offset \<le> i \<and> i < unat offset + unat n then m (buf + of_nat (i - unat offset)) else m (p + of_nat i))"
    using i ap [of "p + of_nat i"] rg by (auto simp: add.commute)
  also have "\<dots> = ?r ! i" using i b by (subst nth_write_at) (auto simp: max_def split: if_splits)
  finally show "?l ! i = ?r ! i" .
qed

section \<open>Writing\<close>

text \<open>There is memory for an object of \<open>n\<close> bytes: as many free frames in a row as \<^verbatim>\<open>kmalloc\<close> needs for it.\<close>

definition memory_for :: "u64 \<Rightarrow> 'b kheap_scheme \<Rightarrow> bool" where
  "memory_for n s \<longleftrightarrow> (\<exists>k. run_free s k (of_nat (pages_for n)))"

lemma kmalloc_memory:
  assumes "heap s L" and "n \<noteq> 0" and "unat n + 8192 \<le> 2 ^ 64" and "memory_for n s"
  obtains p t c where "kmalloc me n s = Some (p, t)" "p \<noteq> NULL" "L p = None" "unat n \<le> c" "heap t (L(p \<mapsto> c))"
    "bytes_kept L (heap_mem s) (heap_mem t)"
  using kmalloc_heap [OF assms(1-3), of me] assms(4) unfolding memory_for_def by blast

lemma krealloc_memory:
  fixes s :: "'b kheap_scheme"
  assumes h: "heap s L" and p: "L p = Some c" and n: "n \<noteq> 0" "unat n + 8192 \<le> 2 ^ 64" "memory_for n s"
  defines "old \<equiv> sl_object_size (slab_at s (page_base p))"
  shows "if unat n \<le> unat old then krealloc me p n s = Some (p, s)
    else \<exists>q t d. krealloc me p n s = Some (q, t) \<and> q \<noteq> NULL \<and> L q = None \<and> unat n \<le> d \<and>
        heap t (L(q \<mapsto> d, p := None)) \<and> (\<forall>i < unat old. heap_mem t (q + of_nat i) = heap_mem s (p + of_nat i)) \<and>
        bytes_kept (L(p := None)) (heap_mem s) (heap_mem t)"
proof -
  have valid: "kmalloc_valid n" using n by (simp add: kmalloc_valid_def)
  obtain q u where u: "kmalloc me n s = Some (q, u)" "q \<noteq> NULL" by (rule kmalloc_memory [OF h n])
  have "krealloc me p n s \<noteq> Some (NULL, s)"
  proof (cases "n \<le> ucast old")
    case True
    then show ?thesis using n(1) object_size_bound(2,3) [OF h p] by (auto simp: krealloc_def Let_def old_def)
  next
    case False
    then show ?thesis using n(1) object_size_bound(2,3) [OF h p] u by (auto simp: krealloc_def Let_def old_def)
  qed
  then show ?thesis using krealloc_heap [OF h p valid, of me] unfolding old_def by auto
qed

lemma room_memory:
  assumes "heap s L" and "room s (Suc k)" and "unat n \<le> 2048"
  shows "memory_for n s"
proof -
  obtain p where "p \<in> frees s" using assms(2) unfolding room_def by (metis card.empty not_less_eq_eq zero_le all_not_in_conv)
  then obtain j where "j \<le> max_pfn s" "p = page_ptr s j" "is_page_free (page_at s p)" by (auto simp: frees_def db_page_def)
  then have "run_free s (unat j) 1" by (simp add: run_free_def word_le_nat_alt)
  moreover have "unat (ALIGN_UP n KHEAP_ALIGN) = (unat n + 15) div 16 * 16"
    unfolding KHEAP_ALIGN_def by (subst unat_ALIGN_UP) (use assms(3) in simp_all)
  then have "pages_for n = 1" using div_le_mono [of "unat n + 15" 2063 16] assms(3) by (simp add: pages_for_def)
  ultimately show ?thesis by (auto simp: memory_for_def)
qed

text \<open>
  A file as \<^verbatim>\<open>ramfs_write\<close> finds it: empty without a buffer, or in a buffer that the heap records as
  large enough.
\<close>

definition file_ok :: "fs \<Rightarrow> (u64 \<Rightarrow> nat option) \<Rightarrow> u64 \<Rightarrow> bool" where
  "file_ok s L n \<longleftrightarrow> n \<noteq> NULL \<and>
     (let p = rn_data (rnode_at s n); sz = unat (rn_size (rnode_at s n)) in
      if p = NULL then sz = 0
      else \<exists>c. L p = Some c \<and> sz \<le> c \<and> sz \<le> unat (sl_object_size (slab_at (hp s) (page_base p))))"

lemma write_buffer:
  assumes h: "heap (hp s) L" and f: "file_ok s L n" and new: "new \<noteq> 0" "unat new + 8192 \<le> 2 ^ 64" "memory_for new (hp s)"
    and lt: "rn_size (rnode_at s n) < new"
  obtains q h M d where "krealloc me (rn_data (rnode_at s n)) new (hp s) = Some (q, h)" "q \<noteq> NULL" "heap h M"
    "M q = Some d" "unat new \<le> d"
    "block (heap_mem h) q (unat (rn_size (rnode_at s n))) = contents s n"
    "\<And>x c. L x = Some c \<Longrightarrow> x \<noteq> rn_data (rnode_at s n) \<Longrightarrow> M x = Some c \<and> x \<noteq> q \<and> block (heap_mem h) x c = block (fs_mem s) x c"
proof -
  define p where "p = rn_data (rnode_at s n)"
  have bk: "block m' x c = block m x c" if "bytes_kept K m m'" "K x = Some c" for K m m' x c
    using that by (intro block_cong) (simp add: bytes_kept_def)
  show thesis
  proof (cases "p = NULL")
    case True
    then have e: "unat (rn_size (rnode_at s n)) = 0" using f by (simp add: file_ok_def p_def)
    obtain q h' c where q: "kmalloc me new (hp s) = Some (q, h')" "q \<noteq> NULL" "L q = None" "unat new \<le> c" "heap h' (L(q \<mapsto> c))"
      "bytes_kept L (heap_mem (hp s)) (heap_mem h')"
      by (rule kmalloc_memory [OF h new, of me])
    then have "krealloc me p new (hp s) = Some (q, h')" using True by (simp add: krealloc_def)
    moreover have "(L(q \<mapsto> c)) x = Some e \<and> x \<noteq> q \<and> block (heap_mem h') x e = block (fs_mem s) x e" if "L x = Some e" for x e
      using that q(3) bk [OF q(6) that] by (auto simp: fs_mem_def)
    ultimately show thesis using that [of q h' "L(q \<mapsto> c)" c] q e by (simp add: p_def [symmetric] contents_def block_def)
  next
    case False
    then obtain c where c: "L p = Some c" "unat (rn_size (rnode_at s n)) \<le> c"
      "unat (rn_size (rnode_at s n)) \<le> unat (sl_object_size (slab_at (hp s) (page_base p)))"
      using f by (auto simp: file_ok_def p_def Let_def)
    note kr = krealloc_memory [OF h c(1) new, of me]
    show thesis
    proof (cases "unat new \<le> unat (sl_object_size (slab_at (hp s) (page_base p)))")
      case True
      have "unat new \<le> c" using True object_size_bound(1) [OF h c(1)] by simp
      then show thesis using that [of p "hp s" L c] kr True False h c(1)
        by (simp add: p_def [symmetric] contents_def fs_mem_def)
    next
      case new': False
      then obtain q h' d where q: "krealloc me p new (hp s) = Some (q, h')" "q \<noteq> NULL" "L q = None" "unat new \<le> d"
        "heap h' (L(q \<mapsto> d, p := None))"
        "\<forall>i < unat (sl_object_size (slab_at (hp s) (page_base p))). heap_mem h' (q + of_nat i) = heap_mem (hp s) (p + of_nat i)"
        "bytes_kept (L(p := None)) (heap_mem (hp s)) (heap_mem h')"
        using kr by auto
      have pq: "p \<noteq> q" using c(1) q(3) by auto
      have "(L(q \<mapsto> d, p := None)) x = Some e \<and> x \<noteq> q \<and> block (heap_mem h') x e = block (fs_mem s) x e"
        if "L x = Some e" "x \<noteq> p" for x e
        using that q(3) bk [OF q(7), of x e] by (auto simp: fs_mem_def)
      moreover have "block (heap_mem h') q (unat (rn_size (rnode_at s n))) = contents s n"
        unfolding contents_def using q(6) c(3) by (intro block_cong) (simp add: fs_mem_def p_def)
      ultimately show thesis using that [of q h' "L(q \<mapsto> d, p := None)" d] q pq by (simp add: p_def [symmetric])
    qed
  qed
qed

lemma write_contents:
  assumes h: "heap (hp s) L" and f: "file_ok s L n" and vn: "vn \<noteq> NULL" "vn_node_data (vnode_at s vn) = n"
    and buf: "L buf = Some e" "unat bytes \<le> e" "buf \<noteq> rn_data (rnode_at s n)"
    and off: "unat offset \<le> unat (rn_size (rnode_at s n))" "0 < unat bytes" "unat offset + unat bytes + 8192 \<le> 2 ^ 64"
    and mem: "unat (rn_size (rnode_at s n)) < unat offset + unat bytes \<longrightarrow> memory_for (bytes + offset) (hp s)"
  obtains t M c where "ramfs_write me vn buf bytes offset s = Some (EOK, t)" "heap (hp t) M" "tree_step s t"
    "contents t n = write_at (contents s n) (unat offset) (block (fs_mem s) buf (unat bytes))"
    "M (rn_data (rnode_at t n)) = Some c" "unat (rn_size (rnode_at t n)) \<le> c" "rn_data (rnode_at t n) \<noteq> NULL"
    "\<And>x d. L x = Some d \<Longrightarrow> x \<noteq> rn_data (rnode_at s n) \<Longrightarrow> M x = Some d \<and> x \<noteq> rn_data (rnode_at t n) \<and>
       block (fs_mem t) x d = block (fs_mem s) x d"
    "\<And>x. x \<noteq> n \<Longrightarrow> rnode_at t x = rnode_at s x"
proof -
  define sz where "sz = rn_size (rnode_at s n)" define p where "p = rn_data (rnode_at s n)"
  have sum: "unat (bytes + offset) = unat bytes + unat offset" using off(3) by (subst unat_add_no_wrap) auto
  have nn: "n \<noteq> NULL" using f by (simp add: file_ok_def)
  define m where "m = max (unat sz) (unat offset + unat bytes)"
  have "\<exists>s1 M q d. (if sz < bytes + offset
          then do {
            let more = (bytes + offset) - sz;
            (d, s) \<leftarrow> heap_op (krealloc me p (sz + more)) s;
            set_rnode n (\<lambda>x. x\<lparr>rn_data := d, rn_size := rn_size x + more\<rparr>) s }
          else Some s) = Some s1 \<and> heap (hp s1) M \<and> tree_step s s1 \<and> q \<noteq> NULL \<and> M q = Some d \<and> m \<le> d \<and>
        rn_data (rnode_at s1 n) = q \<and> unat (rn_size (rnode_at s1 n)) = m \<and> block (fs_mem s1) q (unat sz) = contents s n \<and>
        (\<forall>x c. L x = Some c \<longrightarrow> x \<noteq> p \<longrightarrow> M x = Some c \<and> x \<noteq> q \<and> block (fs_mem s1) x c = block (fs_mem s) x c) \<and>
        (\<forall>x. x \<noteq> n \<longrightarrow> rnode_at s1 x = rnode_at s x)"
  proof (cases "sz < bytes + offset")
    case True
    have "0 < unat (bytes + offset)" "unat (bytes + offset) + 8192 \<le> 2 ^ 64" using off sum by simp_all
    moreover have "memory_for (bytes + offset) (hp s)" using mem True sum by (simp add: sz_def word_less_nat_alt)
    ultimately have nb: "bytes + offset \<noteq> 0" "unat (bytes + offset) + 8192 \<le> 2 ^ 64" "memory_for (bytes + offset) (hp s)" by auto
    obtain q h M d where q: "krealloc me p (bytes + offset) (hp s) = Some (q, h)" "q \<noteq> NULL" "heap h M"
      "M q = Some d" "unat (bytes + offset) \<le> d" "block (heap_mem h) q (unat sz) = contents s n"
      "\<And>x c. L x = Some c \<Longrightarrow> x \<noteq> p \<Longrightarrow> M x = Some c \<and> x \<noteq> q \<and> block (heap_mem h) x c = block (fs_mem s) x c"
      using write_buffer [OF h f nb True [unfolded sz_def], of me thesis] by (simp add: sz_def p_def)
    let ?s1 = "s\<lparr>hp := h, rnode_at := (rnode_at s)(n := (rnode_at s n)\<lparr>rn_data := q, rn_size := bytes + offset\<rparr>)\<rparr>"
    have "tree_step s ?s1" unfolding tree_step_def by blast
    moreover have "m = unat (bytes + offset)" using True sum by (simp add: m_def word_less_nat_alt)
    ultimately show ?thesis using q True nn
      by (intro exI [of _ ?s1] exI [of _ M] exI [of _ q] exI [of _ d])
        (simp add: heap_op_def set_rnode_def fs_mem_def sz_def [symmetric])
  next
    case False
    then have le: "unat offset + unat bytes \<le> unat sz" using sum by (simp add: word_less_nat_alt)
    then have "p \<noteq> NULL" using f off(2) by (auto simp: file_ok_def p_def sz_def Let_def split: if_splits)
    then obtain c where c: "L p = Some c" "unat sz \<le> c" using f by (auto simp: file_ok_def p_def sz_def Let_def)
    show ?thesis using False le c \<open>p \<noteq> NULL\<close> h
      by (intro exI [of _ s] exI [of _ L] exI [of _ p] exI [of _ c]) (auto simp: m_def p_def sz_def contents_def)
  qed
  then obtain s1 M q d where s1: "(if sz < bytes + offset
          then do {
            let more = (bytes + offset) - sz;
            (d, s) \<leftarrow> heap_op (krealloc me p (sz + more)) s;
            set_rnode n (\<lambda>x. x\<lparr>rn_data := d, rn_size := rn_size x + more\<rparr>) s }
          else Some s) = Some s1" "heap (hp s1) M" "tree_step s s1" "q \<noteq> NULL" "M q = Some d" "m \<le> d"
      "rn_data (rnode_at s1 n) = q" "unat (rn_size (rnode_at s1 n)) = m" "block (fs_mem s1) q (unat sz) = contents s n"
      "\<And>x c. L x = Some c \<Longrightarrow> x \<noteq> p \<Longrightarrow> M x = Some c \<and> x \<noteq> q \<and> block (fs_mem s1) x c = block (fs_mem s) x c"
      "\<And>x. x \<noteq> n \<Longrightarrow> rnode_at s1 x = rnode_at s x"
    by auto
  let ?m = "memcpy (fs_mem s1) (q + offset) buf bytes"
  let ?t = "set_mem ?m s1"
  have hM: "heap (hp s1) M" by (rule s1(2))
  have b1: "M buf = Some e" "buf \<noteq> q" "block (fs_mem s1) buf e = block (fs_mem s) buf e" using s1(10) [OF buf(1)] buf(3) by (simp_all add: p_def)
  have bb: "block (fs_mem s1) buf (unat bytes) = block (fs_mem s) buf (unat bytes)"
    using b1(3) buf(2) by (intro block_cong) (metis nth_block le_trans less_le_trans)
  have run: "ramfs_write me vn buf bytes offset s = Some (EOK, ?t)"
    unfolding ramfs_write_def Let_def vn(2) s1(1) [unfolded p_def sz_def Let_def] using vn(1) nn s1(4,7) by simp
  have sep: "x + of_nat i \<noteq> q + of_nat j" if "M x = Some c" "x \<noteq> q" "i < c" "j < m" for x c i j
    by (rule live_disjoint [OF hM that(1) s1(5) that(2,3)]) (use that s1(6) in simp)
  have ml: "unat offset + unat bytes \<le> m" by (simp add: m_def)
  have "block ?m q m = write_at (contents s n) (unat offset) (block (fs_mem s) buf (unat bytes))"
    unfolding m_def s1(9) [symmetric] bb [symmetric]
  proof (rule copy_into)
    fix i j assume "i < unat bytes" "j < unat offset + unat bytes"
    then show "buf + of_nat i \<noteq> q + of_nat j" using sep [OF b1(1,2), of i j] buf(2) ml by simp
  qed (use off sz_def unat_bound [of sz] in auto)
  then have "contents ?t n = write_at (contents s n) (unat offset) (block (fs_mem s) buf (unat bytes))"
    using s1(7,8) by (simp add: contents_def fs_mem_def set_mem_def)
  moreover have "block (fs_mem ?t) x c = block (fs_mem s) x c" if x: "L x = Some c" "x \<noteq> p" for x c
  proof -
    note X = s1(10) [OF x]
    have "?m (x + of_nat i) = fs_mem s1 (x + of_nat i)" if i: "i < c" for i
    proof -
      have "\<not> x + of_nat i - (q + offset) < bytes"
      proof
        assume "x + of_nat i - (q + offset) < bytes"
        then obtain j where "j < unat bytes" "x + of_nat i = q + offset + of_nat j" using in_range [of bytes "x + of_nat i" "q + offset"] by blast
        then show False using sep [of x c i "unat offset + j"] X i ml by (simp add: add.assoc)
      qed
      moreover have "buf + of_nat i \<noteq> q + offset + of_nat j" if "i < unat bytes" "j < unat bytes" for i j
        using sep [OF b1(1,2), of i "unat offset + j"] that buf(2) ml by (simp add: add.assoc)
      ultimately show ?thesis by (simp add: memcpy_apply)
    qed
    then have "block ?m x c = block (fs_mem s1) x c" by (intro block_cong)
    then show ?thesis using X by (simp add: fs_mem_def set_mem_def)
  qed
  moreover have "tree_step s ?t" by (rule tree_step_trans [OF s1(3) same_fs_tree_step]) simp
  moreover have "heap (hp ?t) M" using s1(2) by (simp add: set_mem_def)
  ultimately show thesis using that [of ?t M d] run s1(4-8,10,11) by (simp add: set_mem_def p_def)
qed

section \<open>Reading\<close>

lemma read_contents:
  assumes h: "heap (hp s) L" and vn: "vn \<noteq> NULL" "vn_node_data (vnode_at s vn) = n" "n \<noteq> NULL"
    and p: "L (rn_data (rnode_at s n)) = Some c" "unat (rn_size (rnode_at s n)) \<le> c"
    and out: "L out = Some e" "unat bytes \<le> e" "out \<noteq> rn_data (rnode_at s n)"
    and off: "unat offset < unat (rn_size (rnode_at s n))"
  obtains t b where "ramfs_read vn bytes offset out s = Some ((EOK, b), t)" "heap (hp t) L" "same_fs s t"
    "unat b = min (unat bytes) (unat (rn_size (rnode_at s n)) - unat offset)"
    "block (fs_mem t) out (unat b) = take (unat b) (drop (unat offset) (contents s n))"
    "\<And>x d. L x = Some d \<Longrightarrow> x \<noteq> out \<Longrightarrow> block (fs_mem t) x d = block (fs_mem s) x d"
proof -
  define sz where "sz = rn_size (rnode_at s n)" define d where "d = rn_data (rnode_at s n)"
  define m1 where "m1 = memset (fs_mem s) out 0 bytes"
  define b where "b = (if sz < (if sz < bytes then sz else bytes) + offset then sz - offset else (if sz < bytes then sz else bytes))"
  have szb: "unat sz \<le> 2 ^ 44" using object_small [OF h p(1)] p(2) by (simp add: sz_def)
  have ub: "unat b = min (unat bytes) (unat sz - unat offset)" and nr: "\<not> (\<not> sz < bytes \<and> sz \<le> offset)"
  proof -
    define b1 where "b1 = (if sz < bytes then sz else bytes)"
    have b1: "unat b1 = min (unat bytes) (unat sz)" by (auto simp: b1_def word_less_nat_alt)
    have s1: "unat (b1 + offset) = unat b1 + unat offset"
      using b1 szb off by (subst unat_add_no_wrap) (auto simp: sz_def)
    have "unat (sz - offset) = unat sz - unat offset" using off by (simp add: sz_def unat_sub_if')
    then show "unat b = min (unat bytes) (unat sz - unat offset)"
      using s1 b1 off unfolding b_def b1_def [symmetric] by (auto simp: word_less_nat_alt sz_def)
    show "\<not> (\<not> sz < bytes \<and> sz \<le> offset)" using off by (auto simp: word_le_nat_alt sz_def)
  qed
  let ?m = "memcpy m1 out (d + offset) b"
  let ?t = "set_mem ?m s"
  have same: "fs_mem (set_mem x s) = x" "rnode_at (set_mem x s) = rnode_at s" "vnode_at (set_mem x s) = vnode_at s"
    "set_mem y (set_mem x s) = set_mem y s" for x y by (simp_all add: fs_mem_def set_mem_def)
  have run: "ramfs_read vn bytes offset out s = Some ((EOK, b), ?t)"
    using vn nr unfolding ramfs_read_def Let_def same by (simp add: sz_def [symmetric] d_def [symmetric] b_def m1_def)
  have sep: "x + of_nat i \<noteq> out + of_nat j" if "L x = Some v" "x \<noteq> out" "i < v" "j < unat bytes" for x v i j
    by (rule live_disjoint [OF h that(1) out(1) that(2,3)]) (use that out(2) in simp)
  have not_out: "\<not> x + of_nat i - out < w" if "L x = Some v" "x \<noteq> out" "i < v" "unat w \<le> unat bytes" for x v i w
  proof
    assume "x + of_nat i - out < w"
    then obtain j where "j < unat w" "x + of_nat i = out + of_nat j" using in_range [of w "x + of_nat i" out] by blast
    then show False using sep [OF that(1-3), of j] that(4) by simp
  qed
  have dsep: "d + offset + of_nat i \<noteq> out + of_nat j" if "i < unat b" "j < unat b" for i j
  proof -
    have "unat offset + i < c" "j < unat bytes" using that p(2) ub by (auto simp: sz_def)
    from sep [OF p(1) out(3) [symmetric] this] show ?thesis by (simp add: d_def add.assoc)
  qed
  have ap: "?m q = (if q - out < b then m1 (q - out + (d + offset)) else m1 q)" for q
    by (rule memcpy_apply) (rule dsep)
  have bl: "unat b \<le> unat bytes" using ub by simp
  have keep: "m1 (x + of_nat i) = fs_mem s (x + of_nat i)" if "L x = Some v" "x \<noteq> out" "i < v" for x v i
    using not_out [OF that, of bytes] by (simp add: m1_def memset_apply)
  have other: "block (fs_mem ?t) x v = block (fs_mem s) x v" if "L x = Some v" "x \<noteq> out" for x v
    unfolding same using ap keep [OF that] not_out [OF that _ bl] by (intro block_cong) simp
  have "block ?m out (unat b) = take (unat b) (drop (unat offset) (contents s n))"
  proof (rule nth_equalityI)
    fix i assume "i < length (block ?m out (unat b))"
    then have i: "i < unat b" by simp
    have "(of_nat i :: u64) < b" using i unat_of_nat_le [of i b] by (simp add: word_less_nat_alt)
    then have "?m (out + of_nat i) = m1 (d + of_nat (unat offset + i))" using ap [of "out + of_nat i"] by (simp add: ac_simps)
    also have "\<dots> = fs_mem s (d + of_nat (unat offset + i))"
      unfolding d_def by (rule keep [OF p(1)]) (use out(3) p(2) i ub in \<open>auto simp: sz_def\<close>)
    finally have "?m (out + of_nat i) = fs_mem s (d + of_nat (unat offset + i))" .
    moreover have "unat offset + i < unat sz" using i unfolding ub by linarith
    ultimately show "block ?m out (unat b) ! i = take (unat b) (drop (unat offset) (contents s n)) ! i"
      using i ub less_imp_le [OF off] by (simp add: contents_def sz_def d_def)
  qed (use ub in \<open>simp add: contents_def sz_def\<close>)
  moreover have "heap (hp ?t) L" using h by (simp add: set_mem_def)
  ultimately show thesis using that [of b ?t] run ub other by (simp add: same sz_def)
qed

section \<open>Properties\<close>

text \<open>
  C18. A write of at least one byte to a ramfs file, at an offset within it or at its end, of a file whose size the heap has recorded in full (at most
  65535 bytes), from a buffer in the heap other than the file's own, succeeds when the file does not have to grow, or when there are enough free frames in a row for its new size:
  the file then holds the old bytes with the new ones written over them, and a read of the same number of bytes at the same
  offset into another heap buffer returns all of them, equal to the bytes of the source, without changing the file.
\<close>
theorem ramfs_write_read:
  assumes h: "heap (hp s) L" and f: "file_ok s L n" and vn: "vn \<noteq> NULL" "vn_node_data (vnode_at s vn) = n"
    and buf: "L buf = Some e" "unat bytes \<le> e" "buf \<noteq> rn_data (rnode_at s n)"
    and out: "L out = Some e'" "unat bytes \<le> e'" "out \<noteq> rn_data (rnode_at s n)"
    and off: "unat offset \<le> unat (rn_size (rnode_at s n))" "0 < unat bytes" "unat offset + unat bytes + 8192 \<le> 2 ^ 64"
    and mem: "unat (rn_size (rnode_at s n)) < unat offset + unat bytes \<longrightarrow> memory_for (bytes + offset) (hp s)"
  shows "\<exists>t u M. ramfs_write me vn buf bytes offset s = Some (EOK, t) \<and>
    contents t n = write_at (contents s n) (unat offset) (block (fs_mem s) buf (unat bytes)) \<and>
    ramfs_read vn bytes offset out t = Some ((EOK, bytes), u) \<and>
    block (fs_mem u) out (unat bytes) = block (fs_mem s) buf (unat bytes) \<and> contents u n = contents t n \<and> heap (hp u) M"
proof -
  obtain t M c where t: "ramfs_write me vn buf bytes offset s = Some (EOK, t)" "heap (hp t) M" "tree_step s t"
    "contents t n = write_at (contents s n) (unat offset) (block (fs_mem s) buf (unat bytes))"
    "M (rn_data (rnode_at t n)) = Some c" "unat (rn_size (rnode_at t n)) \<le> c"
    "\<And>x d. L x = Some d \<Longrightarrow> x \<noteq> rn_data (rnode_at s n) \<Longrightarrow> M x = Some d \<and> x \<noteq> rn_data (rnode_at t n) \<and>
       block (fs_mem t) x d = block (fs_mem s) x d"
    by (rule write_contents [where me = me, OF h f vn buf off mem]) (rule that, assumption+)
  have nn: "n \<noteq> NULL" using f by (simp add: file_ok_def)
  have vt: "vn_node_data (vnode_at t vn) = n" using vn(2) tree_step_fields(2) [OF t(3)] by simp
  have "length (contents t n) = max (unat (rn_size (rnode_at s n))) (unat offset + unat bytes)"
    unfolding t(4) using off(1) by (subst length_write_at) (simp_all add: contents_def)
  then have len: "unat (rn_size (rnode_at t n)) = max (unat (rn_size (rnode_at s n))) (unat offset + unat bytes)"
    by (simp add: contents_def)
  have "unat offset < unat (rn_size (rnode_at t n))" using len off(2) by simp
  then obtain u b where u: "ramfs_read vn bytes offset out t = Some ((EOK, b), u)" "heap (hp u) M" "same_fs t u"
    "unat b = min (unat bytes) (unat (rn_size (rnode_at t n)) - unat offset)"
    "block (fs_mem u) out (unat b) = take (unat b) (drop (unat offset) (contents t n))"
    "\<And>x d. M x = Some d \<Longrightarrow> x \<noteq> out \<Longrightarrow> block (fs_mem u) x d = block (fs_mem t) x d"
    using read_contents [OF t(2) vn(1) vt nn t(5,6), of out e' bytes offset] t(7) [OF out(1,3)] out(2) by metis
  have ub: "unat b = unat bytes" using u(4) len by auto
  then have b: "b = bytes" by (simp add: word_unat_eq_iff)
  have "take (unat bytes) (drop (unat offset) (contents t n)) = block (fs_mem s) buf (unat bytes)"
    unfolding t(4) using off(1) by (simp add: write_at_def contents_def)
  moreover have "contents u n = contents t n"
  proof -
    have "block (fs_mem u) (rn_data (rnode_at t n)) c = block (fs_mem t) (rn_data (rnode_at t n)) c"
      using u(6) [OF t(5)] t(7) [OF out(1,3)] by blast
    then have "fs_mem u (rn_data (rnode_at t n) + of_nat i) = fs_mem t (rn_data (rnode_at t n) + of_nat i)" if "i < c" for i
      using that nth_block by metis
    then show ?thesis unfolding contents_def same_fs_fields(1) [OF u(3)] using t(6) by (intro block_cong) simp
  qed
  ultimately show ?thesis using t(1,4) u(1,2,5) unfolding b by (intro exI [of _ t] exI [of _ u] exI [of _ M] conjI) simp_all
qed

theorem ramfs_write_read_witness:
  "\<exists>s t u buf out. ramfs_write 0 0x5000 buf 100 0 s = Some (EOK, t) \<and> ramfs_read 0x5000 100 0 out t = Some ((EOK, 100), u) \<and>
     block (fs_mem u) out 100 = block (fs_mem s) buf 100"
proof -
  obtain h where h: "fs_ready (bare_fs h) Map.empty 15" by (rule bare_ready)
  let ?s = "(bare_fs h)\<lparr>vnode_at := (\<lambda>v. (vnode_at (bare_fs h) v)\<lparr>vn_node_data := 0x6000\<rparr>)\<rparr>"
  have "fs_ready ?s Map.empty (Suc 14)" using h by (simp add: fs_ready_def)
  then obtain buf a c where a: "fs_ready a [buf \<mapsto> c] 14" "100 \<le> c" "same_fs ?s a" "buf \<noteq> NULL"
    by (rule new_object [of ?s Map.empty 14 100 0]) auto
  have "fs_ready a [buf \<mapsto> c] (Suc 13)" using a(1) by simp
  then obtain out b d where b: "fs_ready b [buf \<mapsto> c, out \<mapsto> d] 13" "100 \<le> d" "same_fs a b" "out \<noteq> NULL" "out \<noteq> buf"
    by (rule new_object [of a "[buf \<mapsto> c]" 13 100 0]) (auto split: if_splits)
  have st: "same_fs ?s b" by (rule same_fs_trans [OF a(3) b(3)])
  have n: "rn_data (rnode_at b 0x6000) = NULL" "rn_size (rnode_at b 0x6000) = 0" "vn_node_data (vnode_at b 0x5000) = 0x6000"
    unfolding same_fs_fields [OF st] by (simp_all add: bare_fs_def)
  have f: "file_ok b [buf \<mapsto> c, out \<mapsto> d] 0x6000" by (simp add: file_ok_def n)
  have r: "fs_ready b [buf \<mapsto> c, out \<mapsto> d] (Suc 12)" using b(1) by simp
  have L: "[buf \<mapsto> c, out \<mapsto> d] buf = Some c" "[buf \<mapsto> c, out \<mapsto> d] out = Some d" using b(5) by auto
  have h: "heap (hp b) [buf \<mapsto> c, out \<mapsto> d]" "memory_for 100 (hp b)" using r room_memory [of "hp b" _ 12 100] by (auto simp: fs_ready_def)
  from ramfs_write_read [where vn = "0x5000" and bytes = 100 and offset = 0 and me = 0, OF h(1) f _ n(3) L(1) _ _ L(2)] a(2,4) b(2,4) n(1) h(2)
  have "\<exists>t u. ramfs_write 0 0x5000 buf 100 0 b = Some (EOK, t) \<and> ramfs_read 0x5000 100 0 out t = Some ((EOK, 100), u) \<and>
      block (fs_mem u) out 100 = block (fs_mem b) buf 100" by auto
  then show ?thesis by blast
qed

text \<open>
  Reading past the end: when a read asks for more bytes than the file has and starts behind its
  end, \<^verbatim>\<open>ramfs_read\<close> does not fail but computes the number of bytes as size minus offset, which wraps
  around: it reports success with almost \<open>2^64\<close> bytes copied over the caller's buffer.
\<close>
theorem ramfs_read_past_end:
  assumes "vn \<noteq> NULL" and n: "vn_node_data (vnode_at s vn) = n" "n \<noteq> NULL"
    and sz: "rn_size (rnode_at s n) < bytes" "rn_size (rnode_at s n) < offset"
    and nw: "unat (rn_size (rnode_at s n)) + unat offset < 2 ^ 64"
  shows "\<exists>t. ramfs_read vn bytes offset out s = Some ((EOK, rn_size (rnode_at s n) - offset), t) \<and>
    unat (rn_size (rnode_at s n) - offset) = 2 ^ 64 - (unat offset - unat (rn_size (rnode_at s n)))"
proof -
  let ?z = "rn_size (rnode_at s n)"
  have same: "rnode_at (set_mem x s) = rnode_at s" "vnode_at (set_mem x s) = vnode_at s" for x by (simp_all add: set_mem_def)
  have "unat (?z + offset) = unat ?z + unat offset" using nw by (subst unat_add_no_wrap) auto
  then have "?z < ?z + offset" using sz(2) by (simp add: word_less_nat_alt)
  then have "\<exists>t. ramfs_read vn bytes offset out s = Some ((EOK, ?z - offset), t)"
    using assms by (simp add: ramfs_read_def Let_def same)
  moreover have "unat (?z - offset) = 2 ^ 64 - (unat offset - unat ?z)"
    using sz(2) by (simp add: unat_sub_if' word_less_nat_alt)
  ultimately show ?thesis by blast
qed

theorem ramfs_read_past_end_witness:
  "\<exists>s t. ramfs_read 0x5000 16 8 0x9000 s = Some ((EOK, - 5), t)"
proof -
  let ?b = "bare_fs boot_kheap"
  let ?s = "?b\<lparr>vnode_at := (\<lambda>v. (vnode_at ?b v)\<lparr>vn_node_data := 0x6000\<rparr>), rnode_at := (\<lambda>n. (rnode_at ?b n)\<lparr>rn_size := 3\<rparr>)\<rparr>"
  have "vn_node_data (vnode_at ?s 0x5000) = 0x6000" by simp
  from ramfs_read_past_end [where vn = "0x5000" and bytes = 16 and offset = 8 and out = "0x9000", OF _ this]
  have "\<exists>t. ramfs_read 0x5000 16 8 0x9000 ?s = Some ((EOK, - 5), t)" by (auto simp: word_less_nat_alt)
  then show ?thesis by blast
qed

end
