(* ===== verification/Vfs.thy ===== *)
theory Vfs
  imports Ramfs
begin

text \<open>
  The rest of \<^verbatim>\<open>fs/vfs/vfs.c\<close>: path lookup across mounts and symbolic links, mounting and unmounting,
  and the operations on paths and vnodes, with \<^verbatim>\<open>kfile_create\<close> of \<^verbatim>\<open>kfile.c\<close>, which \<^verbatim>\<open>vfs_open\<close> calls,
  and \<^verbatim>\<open>ramfs_vfs_init\<close> of \<^verbatim>\<open>ramfs.c\<close>, which calls \<^verbatim>\<open>vfs_mount\<close>.
\<close>

section \<open>Path lookup\<close>

text \<open>
  \<^verbatim>\<open>strtok\<close> on the buffer of a lookup. Its position is a static variable: a lookup inside another
  one moves it to another buffer. A later \<^verbatim>\<open>strtok(NULL, "/")\<close> that finds it in a buffer other than
  the caller's reads freed memory, and the model gives no result.
\<close>

definition strtok_at :: "u64 \<Rightarrow> string \<Rightarrow> fs \<Rightarrow> string option \<times> fs" where
  "strtok_at buf str s =
     (let t = dropWhile (\<lambda>c. c = CHR ''/'') str;
          w = takeWhile (\<lambda>c. c \<noteq> CHR ''/'') t; r = dropWhile (\<lambda>c. c \<noteq> CHR ''/'') t
      in if t = [] then (None, s\<lparr>strtok_next := Some (buf, [])\<rparr>)
         else (Some w, s\<lparr>strtok_next := (if r = [] then None else Some (buf, tl r))\<rparr>))"

definition strtok_again :: "u64 \<Rightarrow> fs \<Rightarrow> (string option \<times> fs) option" where
  "strtok_again buf s =
     (case strtok_next s of None \<Rightarrow> Some (None, s)
      | Some (b, str) \<Rightarrow> if b = buf then Some (strtok_at b str s) else None)"

definition ops_present :: "u64 \<Rightarrow> fs \<Rightarrow> bool option" where
  "ops_present v s = (if v = NULL then None else Some (has_ops v s))"

text \<open>
  The loop of \<^verbatim>\<open>vfs_lookup_internal\<close> over the components of the path. \<open>follow\<close> resolves the vnode
  found for a component; the error exits release what the loop holds.
\<close>

definition lookup_fail :: "int \<Rightarrow> u64 \<Rightarrow> u64 \<Rightarrow> int \<Rightarrow> fs \<Rightarrow> ((int \<times> u64) \<times> fs) option" where
  "lookup_fail me current rel ret s =
     do {
       s \<leftarrow> vnode_unref me current s;
       (_, s) \<leftarrow> heap_op (kfree me rel) s;
       Some ((ret, NULL), s) }"

partial_function (option) lookup_loop ::
  "(u64 \<Rightarrow> fs \<Rightarrow> ((int \<times> u64) \<times> fs) option) \<Rightarrow> int \<Rightarrow> u64 \<Rightarrow> u64 \<Rightarrow> string option \<Rightarrow> fs \<Rightarrow> ((int \<times> u64) \<times> fs) option" where
  "lookup_loop follow me rel current component s =
     (case component of
        None \<Rightarrow> do { (_, s) \<leftarrow> heap_op (kfree me rel) s; Some ((EOK, current), s) }
      | Some _ \<Rightarrow>
          do {
            cv \<leftarrow> deref vnode_at current s;
            if vn_vtype cv \<noteq> VNODE_DIR then lookup_fail me current rel (- ENOTDIR) s
            else if \<not> has_ops current s then lookup_fail me current rel (- ENOSYS) s
            else do {
              ((ret, nxt), s) \<leftarrow> ramfs_lookup me current component s;
              if ret \<noteq> EOK then lookup_fail me current rel ret s
              else do {
                nv \<leftarrow> deref vnode_at nxt s;
                (nxt, s) \<leftarrow>
                  (if vn_vfs_here nv = NULL then Some (nxt, s)
                   else do {
                     s \<leftarrow> vnode_unref me nxt s;
                     m \<leftarrow> deref vfs_at (vn_vfs_here (vnode_at s nxt)) s;
                     s \<leftarrow> vnode_ref me (vf_root_vnode m) s;
                     Some (vf_root_vnode m, s) });
                ((ret, resolved), s) \<leftarrow> follow nxt s;
                if ret \<noteq> EOK
                then do { s \<leftarrow> vnode_unref me nxt s; lookup_fail me current rel ret s }
                else do {
                  s \<leftarrow> (if resolved \<noteq> nxt
                        then do { s \<leftarrow> vnode_unref me nxt s; vnode_ref me resolved s } else Some s);
                  s \<leftarrow> vnode_unref me current s;
                  (component, s) \<leftarrow> strtok_again rel s;
                  lookup_loop follow me rel resolved component s } } } })"

definition MAX_SYMLINK_DEPTH :: int where "MAX_SYMLINK_DEPTH = 10"

definition lookup_with ::
  "(u64 \<Rightarrow> fs \<Rightarrow> ((int \<times> u64) \<times> fs) option) \<Rightarrow> int \<Rightarrow> string \<Rightarrow> int \<Rightarrow> fs \<Rightarrow> ((int \<times> u64) \<times> fs) option" where
  "lookup_with follow me path depth s =
     (if MAX_SYMLINK_DEPTH \<le> depth then Some ((- ELOOP, NULL), s)
      else do {
        ((ret, v, rel), s) \<leftarrow> vfs_resolve_mount me path s;
        if ret \<noteq> EOK then Some ((ret, NULL), s)
        else do {
          str \<leftarrow> (if rel = NULL then Some [] else cstring (fs_mem s) rel);
          if str = []
          then do {
            (_, s) \<leftarrow> (if rel \<noteq> NULL then heap_op (kfree me rel) s else Some ((), s));
            let r = vf_root_vnode (vfs_at s v);
            let here = vn_vfs_here (vnode_at s r);
            let out = (if r \<noteq> NULL \<and> here \<noteq> NULL then vf_root_vnode (vfs_at s here) else r);
            s \<leftarrow> vnode_ref me out s;
            Some ((EOK, out), s) }
          else if vf_root_vnode (vfs_at s v) = NULL
          then do { (_, s) \<leftarrow> heap_op (kfree me rel) s; Some ((- ENOENT, NULL), s) }
          else do {
            let current = vf_root_vnode (vfs_at s v);
            s \<leftarrow> vnode_ref me current s;
            (current, s) \<leftarrow>
              (if vn_vfs_here (vnode_at s current) = NULL then Some (current, s)
               else do {
                 let m = vn_vfs_here (vnode_at s current);
                 s \<leftarrow> vnode_unref me current s;
                 s \<leftarrow> vnode_ref me (vf_root_vnode (vfs_at s m)) s;
                 Some (vf_root_vnode (vfs_at s m), s) });
            let (component, s) = strtok_at rel str s;
            lookup_loop follow me rel current component s } } })"

text \<open>
  \<^verbatim>\<open>vfs_lookup_internal\<close> and \<^verbatim>\<open>vfs_follow_symlink\<close> call each other, but the inner lookup is always made
  with \<^verbatim>\<open>follow_symlinks = false\<close>, so the recursion is one level deep.
\<close>

definition no_follow :: "u64 \<Rightarrow> fs \<Rightarrow> ((int \<times> u64) \<times> fs) option" where
  "no_follow nxt s = Some ((EOK, nxt), s)"

definition vfs_follow_symlink :: "int \<Rightarrow> u64 \<Rightarrow> int \<Rightarrow> fs \<Rightarrow> ((int \<times> u64) \<times> fs) option" where
  "vfs_follow_symlink me vnode depth s =
     (if MAX_SYMLINK_DEPTH \<le> depth then Some ((- ELOOP, NULL), s)
      else do {
        x \<leftarrow> deref vnode_at vnode s;
        if vn_vtype x \<noteq> VNODE_LINK then Some ((EOK, vnode), s)
        else if \<not> has_ops vnode s then Some ((- EINVAL, NULL), s)
        else do {
          (ret, target) \<leftarrow> ramfs_readlink vnode 512 s;
          if ret \<noteq> EOK then Some ((ret, NULL), s)
          else lookup_with no_follow me target (depth + 1) s } })"

definition vfs_lookup_internal :: "int \<Rightarrow> string \<Rightarrow> int \<Rightarrow> bool \<Rightarrow> fs \<Rightarrow> ((int \<times> u64) \<times> fs) option" where
  "vfs_lookup_internal me path depth follow s =
     lookup_with (if follow then (\<lambda>nxt. vfs_follow_symlink me nxt (depth + 1)) else no_follow) me path depth s"

definition vfs_lookup :: "int \<Rightarrow> string \<Rightarrow> fs \<Rightarrow> ((int \<times> u64) \<times> fs) option" where
  "vfs_lookup me path s = vfs_lookup_internal me path 0 True s"

text \<open>
  The results are the return value, \<^verbatim>\<open>*parent\<close> and \<^verbatim>\<open>*filename\<close>. A lookup of the null pointer that
  \<^verbatim>\<open>strdup("/")\<close> may leave in \<^verbatim>\<open>parent_path\<close> faults as soon as something is mounted.
\<close>

definition vfs_lookup_parent :: "int \<Rightarrow> string option \<Rightarrow> fs \<Rightarrow> ((int \<times> u64 \<times> u64) \<times> fs) option" where
  "vfs_lookup_parent me path s =
     (case path of None \<Rightarrow> Some ((- EINVAL, NULL, NULL), s)
      | Some path \<Rightarrow>
          if CHR ''/'' \<notin> set path then Some ((- EINVAL, NULL, NULL), s)
          else let name = rev (takeWhile (\<lambda>c. c \<noteq> CHR ''/'') (rev path));
                   dir = take (length path - length name - 1) path
            in do {
              (pp, s) \<leftarrow>
                (if dir = [] then dup_string me ''/'' s
                 else do {
                   (p, s) \<leftarrow> heap_op (kmalloc me (of_nat (length dir) + 1)) s;
                   Some (p, if p = NULL then s else set_mem (put_string p dir (fs_mem s)) s) });
              if pp = NULL \<and> dir \<noteq> [] then Some ((- ENOMEM, NULL, NULL), s)
              else do {
                (fname, s) \<leftarrow> dup_string me name s;
                if fname = NULL
                then do { (_, s) \<leftarrow> heap_op (kfree me pp) s; Some ((- ENOMEM, NULL, NULL), s) }
                else if pp = NULL \<and> vfs_list_head s \<noteq> NULL then None
                else do {
                  ((ret, parent), s) \<leftarrow> vfs_lookup me (if pp = NULL then [] else if dir = [] then ''/'' else dir) s;
                  (_, s) \<leftarrow> heap_op (kfree me pp) s;
                  if ret \<noteq> EOK
                  then do { (_, s) \<leftarrow> heap_op (kfree me fname) s; Some ((ret, NULL, NULL), s) }
                  else Some ((EOK, parent, fname), s) } } })"

section \<open>Mounting\<close>

text \<open>The clean-up of \<^verbatim>\<open>vfs_mount\<close> and \<^verbatim>\<open>vfs_unmount\<close>; the unmount function of ramfs does nothing.\<close>

definition discard_vfs :: "int \<Rightarrow> u64 \<Rightarrow> fs \<Rightarrow> fs option" where
  "discard_vfs me v s =
     do {
       s \<leftarrow> vnode_unref me (vf_root_vnode (vfs_at s v)) s;
       (_, s) \<leftarrow> (if vf_ops (vfs_at s v) \<noteq> NULL then heap_op (kfree me (vf_ops (vfs_at s v))) s else Some ((), s));
       (_, s) \<leftarrow> heap_op (kfree me v) s;
       Some s }"

definition driver_mount :: "int \<Rightarrow> u64 \<Rightarrow> u64 \<Rightarrow> string \<Rightarrow> fs \<Rightarrow> ((int \<times> u64) \<times> fs) option" where
  "driver_mount me driver device path s =
     (case dr_mount (driver_at s driver) of No_mount \<Rightarrow> None
      | Ramfs_fstype_mount \<Rightarrow> ramfs_fstype_mount me device path s)"

definition vfs_mount :: "int \<Rightarrow> u64 \<Rightarrow> string option \<Rightarrow> string option \<Rightarrow> fs \<Rightarrow> (u64 \<times> fs) option" where
  "vfs_mount me device fstype_name path s =
     (case (fstype_name, path) of
        (Some nm, Some path) \<Rightarrow>
          do {
            (driver, s) \<leftarrow> vfs_find_driver_by_name me nm s;
            if driver = NULL then Some (NULL, s)
            else do {
              ((res, v), s) \<leftarrow> driver_mount me driver device path s;
              if res \<noteq> EOK \<or> v = NULL then Some (NULL, s)
              else do {
                s \<leftarrow> set_vfs v (\<lambda>x. x\<lparr>vf_driver := driver\<rparr>) s;
                if vf_root_vnode (vfs_at s v) = NULL
                then do { s \<leftarrow> discard_vfs me v s; Some (NULL, s) }
                else if path = ''/''
                then do { (_, s) \<leftarrow> vfs_append me v s; Some (v, s) }
                else do {
                  ((res, mp), s) \<leftarrow> vfs_lookup me path s;
                  if res \<noteq> EOK
                  then (if vfs_list_head s = NULL
                        then do { (_, s) \<leftarrow> vfs_append me v s; Some (v, s) }
                        else do { s \<leftarrow> discard_vfs me v s; Some (NULL, s) })
                  else do {
                    mv \<leftarrow> deref vnode_at mp s;
                    if vn_vtype mv \<noteq> VNODE_DIR
                    then do {
                      s \<leftarrow> vnode_unref me mp s;
                      s \<leftarrow> discard_vfs me v s;
                      Some (NULL, s) }
                    else do {
                      s \<leftarrow> set_vnode mp (\<lambda>x. x\<lparr>vn_vfs_here := v\<rparr>) s;
                      s \<leftarrow> vnode_unref me mp s;
                      (_, s) \<leftarrow> vfs_append me v s;
                      Some (v, s) } } } } } }
      | _ \<Rightarrow> Some (NULL, s))"

partial_function (option) find_mount :: "string \<Rightarrow> u64 \<Rightarrow> u64 \<Rightarrow> fs \<Rightarrow> (u64 \<times> u64) option" where
  "find_mount path prev cur s =
     (if cur = NULL then Some (prev, NULL)
      else let r = vf_root_vnode (vfs_at s cur) in
        if r = NULL then find_mount path cur (vf_next (vfs_at s cur)) s
        else do {
          p \<leftarrow> cstring (fs_mem s) (vn_path (vnode_at s r));
          if p = path then Some (prev, cur)
          else find_mount path cur (vf_next (vfs_at s cur)) s })"

definition vfs_unmount :: "int \<Rightarrow> string option \<Rightarrow> fs \<Rightarrow> (int \<times> fs) option" where
  "vfs_unmount me path s =
     (case path of None \<Rightarrow> Some (- EINVAL, s)
      | Some path \<Rightarrow>
          do {
            s \<leftarrow> acquire_mounts me s;
            (prev, cur) \<leftarrow> find_mount path NULL (vfs_list_head s) s;
            if cur = NULL then Some (- ENOENT, release_mounts me s)
            else do {
              s \<leftarrow> (if path = ''/'' then Some s
                    else do {
                      ((ret, mp), s) \<leftarrow> vfs_lookup me path s;
                      if ret \<noteq> EOK then Some s
                      else do {
                        s \<leftarrow> set_vnode mp (\<lambda>x. x\<lparr>vn_vfs_here := NULL\<rparr>) s;
                        vnode_unref me mp s } });
              s \<leftarrow> (if prev = NULL then Some (s\<lparr>vfs_list_head := vf_next (vfs_at s cur)\<rparr>)
                    else set_vfs prev (\<lambda>x. x\<lparr>vf_next := vf_next (vfs_at s cur)\<rparr>) s);
              s \<leftarrow> discard_vfs me cur s;
              Some (EOK, release_mounts me s) } })"

definition ramfs_vfs_init :: "int \<Rightarrow> u64 \<Rightarrow> string option \<Rightarrow> fs \<Rightarrow> (int \<times> fs) option" where
  "ramfs_vfs_init me ramfs path s =
     (if path = None then Some (EFAULT, s)
      else do {
        (v, s) \<leftarrow> vfs_mount me ramfs (Some ''ramfs'') path s;
        Some (if v = NULL then ENOTRECOVERABLE else EOK, s) })"

section \<open>Operations on paths\<close>

text \<open>
  The frame of the operations on a name in a directory: look up the parent, require the operation
  in its table, call it with the name, free the name and drop the parent.
\<close>

definition in_parent :: "int \<Rightarrow> string option \<Rightarrow> (u64 \<Rightarrow> string option \<Rightarrow> fs \<Rightarrow> ((int \<times> 'a) \<times> fs) option) \<Rightarrow> 'a \<Rightarrow> fs
    \<Rightarrow> ((int \<times> 'a) \<times> fs) option" where
  "in_parent me path f dflt s =
     do {
       ((ret, parent, fname), s) \<leftarrow> vfs_lookup_parent me path s;
       if ret \<noteq> EOK then Some ((ret, dflt), s)
       else do {
         ok \<leftarrow> ops_present parent s;
         if \<not> ok
         then do {
           s \<leftarrow> vnode_unref me parent s;
           (_, s) \<leftarrow> heap_op (kfree me fname) s;
           Some ((- ENOSYS, dflt), s) }
         else do {
           nm \<leftarrow> cstring (fs_mem s) fname;
           (r, s) \<leftarrow> f parent (Some nm) s;
           (_, s) \<leftarrow> heap_op (kfree me fname) s;
           s \<leftarrow> vnode_unref me parent s;
           Some (r, s) } } }"

definition plain :: "(int \<times> fs) option \<Rightarrow> ((int \<times> unit) \<times> fs) option" where
  "plain r = map_option (\<lambda>(x, s). ((x, ()), s)) r"

definition vfs_create :: "int \<Rightarrow> string option \<Rightarrow> u32 \<Rightarrow> fs \<Rightarrow> (int \<times> fs) option" where
  "vfs_create me path mode s =
     do {
       ((ret, v), s) \<leftarrow> in_parent me path (\<lambda>p n. ramfs_create me p n mode) NULL s;
       if ret \<noteq> EOK then Some (ret, s)
       else do { s \<leftarrow> vnode_unref me v s; Some (EOK, s) } }"

definition vfs_mkdir :: "int \<Rightarrow> string option \<Rightarrow> u32 \<Rightarrow> fs \<Rightarrow> (int \<times> fs) option" where
  "vfs_mkdir me path mode s =
     do { ((ret, _), s) \<leftarrow> in_parent me path (\<lambda>p n s. plain (ramfs_mkdir me p n mode s)) () s; Some (ret, s) }"

definition vfs_rmdir :: "int \<Rightarrow> string option \<Rightarrow> fs \<Rightarrow> (int \<times> fs) option" where
  "vfs_rmdir me path s =
     do { ((ret, _), s) \<leftarrow> in_parent me path (\<lambda>p n s. plain (ramfs_rmdir me p n s)) () s; Some (ret, s) }"

definition vfs_remove :: "int \<Rightarrow> string option \<Rightarrow> fs \<Rightarrow> (int \<times> fs) option" where
  "vfs_remove me path s =
     do { ((ret, _), s) \<leftarrow> in_parent me path (\<lambda>p n s. plain (ramfs_remove me p n s)) () s; Some (ret, s) }"

definition vfs_symlink :: "int \<Rightarrow> string option \<Rightarrow> string option \<Rightarrow> fs \<Rightarrow> (int \<times> fs) option" where
  "vfs_symlink me target linkpath s =
     (if target = None then Some (- EINVAL, s)
      else do {
        ((ret, _), s) \<leftarrow> in_parent me linkpath (\<lambda>p n s. plain (ramfs_symlink me p n target s)) () s;
        Some (ret, s) })"

text \<open>The result holds the string left in \<^verbatim>\<open>buf\<close>.\<close>

definition vfs_readlink :: "int \<Rightarrow> string option \<Rightarrow> u64 \<Rightarrow> fs \<Rightarrow> ((int \<times> string) \<times> fs) option" where
  "vfs_readlink me path sz s =
     (case path of None \<Rightarrow> Some ((- EINVAL, []), s)
      | Some path \<Rightarrow>
          do {
            ((ret, v), s) \<leftarrow> vfs_lookup_internal me path 0 False s;
            if ret \<noteq> EOK then Some ((ret, []), s)
            else do {
              x \<leftarrow> deref vnode_at v s;
              if vn_vtype x \<noteq> VNODE_LINK
              then do { s \<leftarrow> vnode_unref me v s; Some ((- EINVAL, []), s) }
              else if \<not> has_ops v s
              then do { s \<leftarrow> vnode_unref me v s; Some ((- ENOSYS, []), s) }
              else do {
                r \<leftarrow> ramfs_readlink v sz s;
                s \<leftarrow> vnode_unref me v s;
                Some (r, s) } } })"

definition vfs_stat :: "int \<Rightarrow> string option \<Rightarrow> fs \<Rightarrow> ((int \<times> stat option) \<times> fs) option" where
  "vfs_stat me path s =
     (case path of None \<Rightarrow> Some ((- EINVAL, None), s)
      | Some path \<Rightarrow>
          do {
            ((ret, v), s) \<leftarrow> vfs_lookup me path s;
            if ret \<noteq> EOK then Some ((ret, None), s)
            else do {
              ok \<leftarrow> ops_present v s;
              if \<not> ok then do { s \<leftarrow> vnode_unref me v s; Some ((- ENOSYS, None), s) }
              else do {
                (r, s) \<leftarrow> ramfs_getattr me v s;
                s \<leftarrow> vnode_unref me v s;
                Some (r, s) } } })"

definition vfs_setstat :: "int \<Rightarrow> string option \<Rightarrow> stat option \<Rightarrow> fs \<Rightarrow> (int \<times> fs) option" where
  "vfs_setstat me path st s =
     (case path of None \<Rightarrow> Some (- EINVAL, s)
      | Some path \<Rightarrow>
          if st = None then Some (- EINVAL, s)
          else do {
            ((ret, v), s) \<leftarrow> vfs_lookup me path s;
            if ret \<noteq> EOK then Some (ret, s)
            else do {
              ok \<leftarrow> ops_present v s;
              if \<not> ok then do { s \<leftarrow> vnode_unref me v s; Some (- ENOSYS, s) }
              else do {
                (r, s) \<leftarrow> ramfs_setattr v st s;
                s \<leftarrow> vnode_unref me v s;
                Some (r, s) } } })"

section \<open>Open files\<close>

definition kfile_create :: "int \<Rightarrow> fs \<Rightarrow> (u64 \<times> fs) option" where
  "kfile_create me s =
     do {
       (f, s) \<leftarrow> heap_op (kzalloc me SIZEOF_KFILE) s;
       if f = NULL then Some (NULL, s)
       else do {
         s \<leftarrow> set_kfile f (\<lambda>_. \<lparr>kf_buf_start = NULL, kf_size = 0, kf_flags = 0, kf_offset = 0, kf_private = NULL\<rparr>) s;
         Some (f, s) } }"

text \<open>The results are the return value and \<^verbatim>\<open>*out\<close>.\<close>

definition vfs_open :: "int \<Rightarrow> string option \<Rightarrow> u32 \<Rightarrow> fs \<Rightarrow> ((int \<times> u64) \<times> fs) option" where
  "vfs_open me path flags s =
     (case path of None \<Rightarrow> Some ((- EINVAL, NULL), s)
      | Some p \<Rightarrow>
          do {
            ((ret, v), s) \<leftarrow> vfs_lookup me p s;
            ((ret, v), s) \<leftarrow>
              (if ret = - ENOENT \<and> flags AND V_CREATE \<noteq> 0
               then in_parent me path (\<lambda>q n. ramfs_create me q n flags) NULL s
               else Some ((ret, v), s));
            if ret \<noteq> EOK then Some ((ret, NULL), s)
            else if v = NULL then Some ((- ENOENT, NULL), s)
            else if \<not> has_ops v s
            then do { s \<leftarrow> vnode_unref me v s; Some ((- ENOSYS, NULL), s) }
            else do {
              (file, s) \<leftarrow> kfile_create me s;
              if file = NULL
              then do { s \<leftarrow> vnode_unref me v s; Some ((- ENOMEM, NULL), s) }
              else do {
                (ret, s) \<leftarrow> ramfs_open me v flags file s;
                if ret \<noteq> EOK
                then do {
                  (_, s) \<leftarrow> heap_op (kfree me file) s;
                  s \<leftarrow> vnode_unref me v s;
                  Some ((ret, NULL), s) }
                else do {
                  s \<leftarrow> set_kfile file (\<lambda>x. x\<lparr>kf_private := v\<rparr>) s;
                  Some ((EOK, file), s) } } } })"

text \<open>A call through a table without functions jumps to address 0.\<close>

definition vfs_read :: "u64 \<Rightarrow> u64 \<Rightarrow> u64 \<Rightarrow> u64 \<Rightarrow> fs \<Rightarrow> (int \<times> fs) option" where
  "vfs_read vnode sz offset out s =
     (if vnode = NULL then Some (- EFAULT, s)
      else if \<not> has_ops vnode s then None
      else do { ((ret, _), s) \<leftarrow> ramfs_read vnode sz offset out s; Some (ret, s) })"

definition vfs_write :: "int \<Rightarrow> u64 \<Rightarrow> u64 \<Rightarrow> u64 \<Rightarrow> u64 \<Rightarrow> fs \<Rightarrow> (int \<times> fs) option" where
  "vfs_write me vnode buf sz offset s =
     (if vnode = NULL then Some (- EFAULT, s)
      else if \<not> has_ops vnode s then None
      else do {
        (ret, s) \<leftarrow> ramfs_write me vnode buf sz offset s;
        Some (if ret \<noteq> EOK then ret else sint (ucast sz :: u32), s) })"

definition vfs_ioctl :: "u64 \<Rightarrow> fs \<Rightarrow> int option" where
  "vfs_ioctl vnode s =
     (if vnode = NULL then Some (- EFAULT)
      else if \<not> has_ops vnode s then None else Some (ramfs_ioctl vnode))"

definition vfs_close :: "int \<Rightarrow> u64 \<Rightarrow> fs \<Rightarrow> (int \<times> fs) option" where
  "vfs_close me vnode s =
     (if vnode = NULL then Some (- EFAULT, s)
      else if \<not> has_ops vnode s
      then do { s \<leftarrow> vnode_unref me vnode s; Some (- ENOSYS, s) }
      else do {
        (r, s) \<leftarrow> ramfs_close vnode s;
        s \<leftarrow> vnode_unref me vnode s;
        Some (r, s) })"

definition vfs_readdir :: "int \<Rightarrow> u64 \<Rightarrow> u64 \<Rightarrow> u64 \<Rightarrow> fs \<Rightarrow> ((int \<times> u64) \<times> fs) option" where
  "vfs_readdir me vnode entries count s =
     (if vnode = NULL \<or> entries = NULL then Some ((- EINVAL, count), s)
      else if vn_vtype (vnode_at s vnode) \<noteq> VNODE_DIR then Some ((- ENOTDIR, count), s)
      else if \<not> has_ops vnode s then Some ((- ENOSYS, count), s)
      else ramfs_readdir me vnode entries count s)"

end
