(* ===== verification/Kfile.thy ===== *)
theory Kfile
  imports Vfs
begin

text \<open>
  Open files of the kernel, \<^verbatim>\<open>fs/vfs/kfile.c\<close>: opening, reading and writing at the file offset,
  seeking and closing. The directory listing \<^verbatim>\<open>fs_list\<close> writes to the log and is left out.
  \<^verbatim>\<open>kfile_create\<close> is in theory \<open>Vfs\<close>.
\<close>

abbreviation (input) O_CREAT :: u32 where "O_CREAT \<equiv> 0x40"
abbreviation (input) O_APPEND :: u64 where "O_APPEND \<equiv> 0x400"
abbreviation (input) O_DIRECTORY :: u32 where "O_DIRECTORY \<equiv> 0x10000"
abbreviation (input) PIPE_READ_END :: u64 where "PIPE_READ_END \<equiv> 0x100000"
abbreviation (input) PIPE_WRITE_END :: u64 where "PIPE_WRITE_END \<equiv> 0x200000"

datatype fseek = SEEK_SET | SEEK_CUR | SEEK_END
datatype fcntl_cmd = F_GETFL | F_SETFL

definition f2vflags :: "u32 \<Rightarrow> u32" where
  "f2vflags flags =
     (if flags AND O_CREAT \<noteq> 0 then V_CREATE else 0) OR (if flags AND O_DIRECTORY \<noteq> 0 then V_DIR else 0)"

definition kopen :: "int \<Rightarrow> string option \<Rightarrow> u32 \<Rightarrow> u32 \<Rightarrow> fs \<Rightarrow> ((int \<times> u64) \<times> fs) option" where
  "kopen me path flags mode s =
     (if path = None then Some ((- EINVAL, NULL), s)
      else do {
        (res, s) \<leftarrow> (if flags AND O_CREAT \<noteq> 0 then vfs_create me path mode s else Some (EOK, s));
        if res \<noteq> EOK \<and> res \<noteq> - EEXIST then Some ((res, NULL), s)
        else do {
          ((ret, f), s) \<leftarrow> vfs_open me path (f2vflags (flags AND NOT O_CREAT)) s;
          if ret \<noteq> EOK then Some ((ret, NULL), s)
          else do {
            s \<leftarrow> set_kfile f (\<lambda>x. x\<lparr>kf_offset := 0, kf_flags := scast flags\<rparr>) s;
            Some ((EOK, f), s) } } })"

definition kread :: "u64 \<Rightarrow> u64 \<Rightarrow> u64 \<Rightarrow> fs \<Rightarrow> (u64 \<times> fs) option" where
  "kread file out sz s =
     (if file = NULL \<or> out = NULL then Some (of_int (- EFAULT), s)
      else if kf_flags (kfile_at s file) AND PIPE_READ_END \<noteq> 0 then Some (of_int (- ENOSYS), s)
      else if kf_flags (kfile_at s file) AND PIPE_WRITE_END \<noteq> 0 then Some (0, s)
      else do {
        let vn = kf_private (kfile_at s file);
        ok \<leftarrow> ops_present vn s;
        if \<not> ok then None
        else do {
          ((ret, bytes), s) \<leftarrow> ramfs_read vn sz (kf_offset (kfile_at s file)) out s;
          if ret \<noteq> EOK then Some (of_int (- ret), s)
          else do {
            s \<leftarrow> set_kfile file (\<lambda>x. x\<lparr>kf_offset := kf_offset x + bytes\<rparr>) s;
            Some (bytes, s) } } })"

definition kwrite :: "int \<Rightarrow> u64 \<Rightarrow> u64 \<Rightarrow> u64 \<Rightarrow> fs \<Rightarrow> (int \<times> fs) option" where
  "kwrite me file buf sz s =
     (if file = NULL \<or> buf = NULL then Some (- EFAULT, s)
      else if kf_flags (kfile_at s file) AND PIPE_WRITE_END \<noteq> 0 then Some (- ENOSYS, s)
      else if kf_flags (kfile_at s file) AND PIPE_READ_END \<noteq> 0 then Some (0, s)
      else do {
        let offset = (if kf_flags (kfile_at s file) AND O_APPEND \<noteq> 0 then kf_size (kfile_at s file)
                      else kf_offset (kfile_at s file));
        (ret, s) \<leftarrow> vfs_write me (kf_private (kfile_at s file)) buf sz offset s;
        if ret < 0 then Some (ret, s)
        else do {
          s \<leftarrow> set_kfile file (\<lambda>x. x\<lparr>kf_size := (if kf_size x < kf_offset x + sz then kf_offset x + sz else kf_size x),
                 kf_offset := kf_offset x + sz\<rparr>) s;
          Some (ret, s) } })"

definition kclose :: "int \<Rightarrow> u64 \<Rightarrow> fs \<Rightarrow> (int \<times> fs) option" where
  "kclose me file s =
     (if file = NULL then Some (- EFAULT, s)
      else if kf_flags (kfile_at s file) AND PIPE_READ_END \<noteq> 0 then Some (0, s)
      else if kf_flags (kfile_at s file) AND PIPE_WRITE_END \<noteq> 0 then Some (0, s)
      else do {
        (ret, s) \<leftarrow> vfs_close me (kf_private (kfile_at s file)) s;
        (_, s) \<leftarrow> heap_op (kfree me file) s;
        Some (ret, s) })"

definition seek_to :: "fseek \<Rightarrow> u64 \<Rightarrow> kfile \<Rightarrow> u64" where
  "seek_to whence offset x =
     (case whence of SEEK_CUR \<Rightarrow> kf_offset x + offset | SEEK_END \<Rightarrow> kf_size x + offset | SEEK_SET \<Rightarrow> offset)"

definition kseek :: "u64 \<Rightarrow> u64 \<Rightarrow> fseek \<Rightarrow> fs \<Rightarrow> (u64 \<times> fs) option" where
  "kseek file offset whence s =
     (if file = NULL then Some (of_int (- EFAULT), s)
      else do {
        s \<leftarrow> set_kfile file (\<lambda>x. x\<lparr>kf_offset := seek_to whence offset x\<rparr>) s;
        Some (kf_offset (kfile_at s file), s) })"

text \<open>\<open>arg\<close> is the word that the pointer argument points to.\<close>

definition kfcntl :: "u64 \<Rightarrow> fcntl_cmd \<Rightarrow> u64 \<Rightarrow> fs \<Rightarrow> (u64 \<times> fs) option" where
  "kfcntl file cmd arg s =
     (case cmd of
        F_GETFL \<Rightarrow> do { f \<leftarrow> deref kfile_at file s; Some (kf_flags f, s) }
      | F_SETFL \<Rightarrow> do {
          s \<leftarrow> set_kfile file (\<lambda>x. x\<lparr>kf_flags := kf_flags x OR (arg AND O_APPEND)\<rparr>) s;
          Some (0, s) })"

section \<open>Modes as text\<close>

definition file_type_char :: "u32 \<Rightarrow> string" where
  "file_type_char mode =
     (let t = mode AND 0xF000 in
      if t = 0x8000 then ''-'' else if t = 0x4000 then ''d'' else if t = 0xA000 then ''l''
      else if t = 0x2000 then ''c'' else if t = 0x6000 then ''b'' else if t = 0x1000 then ''p''
      else if t = 0xC000 then ''s'' else ''?'')"

definition mode_bit :: "u32 \<Rightarrow> u32 \<Rightarrow> char \<Rightarrow> char" where
  "mode_bit mode b c = (if mode AND b \<noteq> 0 then c else CHR ''-'')"

definition mode_to_string :: "u32 \<Rightarrow> string" where
  "mode_to_string mode =
     [hd (file_type_char mode),
      mode_bit mode 0x100 CHR ''r'', mode_bit mode 0x80 CHR ''w'', mode_bit mode 0x40 CHR ''x'',
      mode_bit mode 0x20 CHR ''r'', mode_bit mode 0x10 CHR ''w'', mode_bit mode 0x8 CHR ''x'',
      mode_bit mode 0x4 CHR ''r'', mode_bit mode 0x2 CHR ''w'', mode_bit mode 0x1 CHR ''x'']"

end
