(* ===== verification/Fd.thy ===== *)
theory Fd
  imports Kfile
begin

text \<open>
  File descriptors, \<^verbatim>\<open>sched/fd.c\<close>: tables that map small numbers to reference-counted entries for
  files and directories, growing on demand. The state holds that of the file system.
\<close>

datatype fd_type = FD_NONE | FD_FILE | FD_DIR

record fd_entry =
  fe_type :: fd_type
  fe_file :: u64
  fe_dir_vnode :: u64
  fe_dir_buf :: u64
  fe_dir_count :: u64
  fe_dir_index :: u64
  fe_dir_off :: u64
  fe_flags :: u32
  fe_refcount :: u32
  fe_lock :: spinlock

record fd_table =
  ft_lock :: spinlock
  ft_entries :: u64
  ft_capacity :: u64
  ft_refcount :: u32

text \<open>\<open>slot_at\<close> is the contents of the arrays of entry pointers, by the address of the element.\<close>

record fds =
  kfs :: fs
  fd_table_at :: "u64 \<Rightarrow> fd_table"
  fd_entry_at :: "u64 \<Rightarrow> fd_entry"
  slot_at :: "u64 \<Rightarrow> u64"

abbreviation (input) FD_TABLE_INITIAL :: u64 where "FD_TABLE_INITIAL \<equiv> 16"
abbreviation (input) FD_TABLE_MAX :: u64 where "FD_TABLE_MAX \<equiv> 4096"
abbreviation (input) SIZEOF_FD_TABLE :: u64 where "SIZEOF_FD_TABLE \<equiv> 64"
abbreviation (input) SIZEOF_FD_ENTRY :: u64 where "SIZEOF_FD_ENTRY \<equiv> 104"

definition fs_op :: "(fs \<Rightarrow> ('a \<times> fs) option) \<Rightarrow> fds \<Rightarrow> ('a \<times> fds) option" where
  "fs_op f s = map_option (\<lambda>(r, t). (r, s\<lparr>kfs := t\<rparr>)) (f (kfs s))"

definition fs_do :: "(fs \<Rightarrow> fs option) \<Rightarrow> fds \<Rightarrow> fds option" where
  "fs_do f s = map_option (\<lambda>t. s\<lparr>kfs := t\<rparr>) (f (kfs s))"

definition upd_table :: "u64 \<Rightarrow> (fd_table \<Rightarrow> fd_table) \<Rightarrow> fds \<Rightarrow> fds" where
  "upd_table t f s = s\<lparr>fd_table_at := (fd_table_at s)(t := f (fd_table_at s t))\<rparr>"

definition upd_entry :: "u64 \<Rightarrow> (fd_entry \<Rightarrow> fd_entry) \<Rightarrow> fds \<Rightarrow> fds" where
  "upd_entry e f s = s\<lparr>fd_entry_at := (fd_entry_at s)(e := f (fd_entry_at s e))\<rparr>"

definition slot_addr :: "u64 \<Rightarrow> nat \<Rightarrow> u64" where
  "slot_addr a i = a + 8 * of_nat i"

definition get_slot :: "u64 \<Rightarrow> nat \<Rightarrow> fds \<Rightarrow> u64" where
  "get_slot t i s = slot_at s (slot_addr (ft_entries (fd_table_at s t)) i)"

definition set_slot :: "u64 \<Rightarrow> nat \<Rightarrow> u64 \<Rightarrow> fds \<Rightarrow> fds" where
  "set_slot a i e s = s\<lparr>slot_at := (slot_at s)(slot_addr a i := e)\<rparr>"

text \<open>\<^verbatim>\<open>kzalloc(sizeof(fd_entry_t *) * n)\<close>\<close>

definition alloc_slots :: "int \<Rightarrow> u64 \<Rightarrow> fds \<Rightarrow> (u64 \<times> fds) option" where
  "alloc_slots me n s =
     do {
       (p, s) \<leftarrow> fs_op (heap_op (kzalloc me (8 * n))) s;
       Some (p, if p = NULL then s else fold (\<lambda>i. set_slot p i NULL) [0 ..< unat n] s) }"

section \<open>Tables and entries\<close>

definition fdtable_create :: "int \<Rightarrow> fds \<Rightarrow> (u64 \<times> fds) option" where
  "fdtable_create me s =
     do {
       (t, s) \<leftarrow> fs_op (heap_op (kzalloc me SIZEOF_FD_TABLE)) s;
       if t = NULL then Some (NULL, s)
       else do {
         (es, s) \<leftarrow> alloc_slots me FD_TABLE_INITIAL s;
         if es = NULL
         then do { (_, s) \<leftarrow> fs_op (heap_op (kfree me t)) s; Some (NULL, s) }
         else Some (t, upd_table t (\<lambda>_. \<lparr>ft_lock = SPINLOCK_INIT, ft_entries = es, ft_capacity = FD_TABLE_INITIAL,
                ft_refcount = 1\<rparr>) s) } }"

definition lock_table :: "int \<Rightarrow> u64 \<Rightarrow> fds \<Rightarrow> fds option" where
  "lock_table me t s = map_option (\<lambda>l. upd_table t (\<lambda>x. x\<lparr>ft_lock := l\<rparr>) s) (lock_acquire me (ft_lock (fd_table_at s t)))"

definition unlock_table :: "int \<Rightarrow> u64 \<Rightarrow> fds \<Rightarrow> fds" where
  "unlock_table me t = upd_table t (\<lambda>x. x\<lparr>ft_lock := lock_release me (ft_lock x)\<rparr>)"

definition lock_entry :: "int \<Rightarrow> u64 \<Rightarrow> fds \<Rightarrow> fds option" where
  "lock_entry me e s = map_option (\<lambda>l. upd_entry e (\<lambda>x. x\<lparr>fe_lock := l\<rparr>) s) (lock_acquire me (fe_lock (fd_entry_at s e)))"

definition unlock_entry :: "int \<Rightarrow> u64 \<Rightarrow> fds \<Rightarrow> fds" where
  "unlock_entry me e = upd_entry e (\<lambda>x. x\<lparr>fe_lock := lock_release me (fe_lock x)\<rparr>)"

definition fdtable_ref :: "int \<Rightarrow> u64 \<Rightarrow> fds \<Rightarrow> fds option" where
  "fdtable_ref me t s =
     (if t = NULL then Some s
      else do {
        s \<leftarrow> lock_table me t s;
        Some (unlock_table me t (upd_table t (\<lambda>x. x\<lparr>ft_refcount := ft_refcount x + 1\<rparr>) s)) })"

definition fd_entry_ref :: "int \<Rightarrow> u64 \<Rightarrow> fds \<Rightarrow> fds option" where
  "fd_entry_ref me e s =
     (if e = NULL then Some s
      else do {
        s \<leftarrow> lock_entry me e s;
        Some (unlock_entry me e (upd_entry e (\<lambda>x. x\<lparr>fe_refcount := fe_refcount x + 1\<rparr>) s)) })"

definition fd_entry_unref :: "int \<Rightarrow> u64 \<Rightarrow> fds \<Rightarrow> fds option" where
  "fd_entry_unref me e s =
     (if e = NULL then Some s
      else do {
        s \<leftarrow> lock_entry me e s;
        let s = upd_entry e (\<lambda>x. x\<lparr>fe_refcount := fe_refcount x - 1\<rparr>) s;
        let remaining = fe_refcount (fd_entry_at s e);
        let s = unlock_entry me e s;
        let x = fd_entry_at s e;
        if 0 < remaining then Some s
        else do {
          s \<leftarrow> (if fe_type x = FD_FILE \<and> fe_file x \<noteq> NULL then map_option snd (fs_op (kclose me (fe_file x)) s)
                else if fe_type x = FD_DIR
                then do {
                  s \<leftarrow> fs_do (vnode_unref me (fe_dir_vnode x)) s;
                  if fe_dir_buf x \<noteq> NULL then map_option snd (fs_op (heap_op (kfree me (fe_dir_buf x))) s) else Some s }
                else Some s);
          map_option snd (fs_op (heap_op (kfree me e)) s) } })"

fun unref_all :: "int \<Rightarrow> u64 \<Rightarrow> nat list \<Rightarrow> fds \<Rightarrow> fds option" where
  "unref_all me t [] s = Some s"
| "unref_all me t (i # is) s =
     do {
       s \<leftarrow> (if get_slot t i s \<noteq> NULL then fd_entry_unref me (get_slot t i s) s else Some s);
       unref_all me t is s }"

definition fdtable_unref :: "int \<Rightarrow> u64 \<Rightarrow> fds \<Rightarrow> fds option" where
  "fdtable_unref me t s =
     (if t = NULL then Some s
      else do {
        s \<leftarrow> lock_table me t s;
        let s = upd_table t (\<lambda>x. x\<lparr>ft_refcount := ft_refcount x - 1\<rparr>) s;
        let remaining = ft_refcount (fd_table_at s t);
        let s = unlock_table me t s;
        if 0 < remaining then Some s
        else do {
          s \<leftarrow> unref_all me t [0 ..< unat (ft_capacity (fd_table_at s t))] s;
          (_, s) \<leftarrow> fs_op (heap_op (kfree me (ft_entries (fd_table_at s t)))) s;
          map_option snd (fs_op (heap_op (kfree me t)) s) } })"

definition new_capacity :: "u64 \<Rightarrow> u64 \<Rightarrow> u64" where
  "new_capacity cap mn =
     (let c1 = cap * 2; c2 = (if c1 < mn then mn else c1) in if FD_TABLE_MAX < c2 then FD_TABLE_MAX else c2)"

definition fdtable_grow :: "int \<Rightarrow> u64 \<Rightarrow> u64 \<Rightarrow> fds \<Rightarrow> (int \<times> fds) option" where
  "fdtable_grow me t min_capacity s =
     (if FD_TABLE_MAX < min_capacity then Some (- EMFILE, s)
      else do {
        let cap = ft_capacity (fd_table_at s t);
        let n = new_capacity cap min_capacity;
        (es, s) \<leftarrow> alloc_slots me n s;
        if es = NULL then Some (- ENOMEM, s)
        else do {
          let s = fold (\<lambda>i s. set_slot es i (get_slot t i s) s) [0 ..< unat cap] s;
          (_, s) \<leftarrow> fs_op (heap_op (kfree me (ft_entries (fd_table_at s t)))) s;
          Some (EOK, upd_table t (\<lambda>x. x\<lparr>ft_entries := es, ft_capacity := n\<rparr>) s) } })"

definition fdtable_install_at :: "int \<Rightarrow> u64 \<Rightarrow> int \<Rightarrow> u64 \<Rightarrow> fds \<Rightarrow> (int \<times> fds) option" where
  "fdtable_install_at me t fd e s =
     (if t = NULL \<or> fd < 0 \<or> e = NULL then Some (- EINVAL, s)
      else do {
        s \<leftarrow> lock_table me t s;
        (ret, s) \<leftarrow> (if ft_capacity (fd_table_at s t) \<le> of_int fd then fdtable_grow me t (of_int fd + 1) s else Some (EOK, s));
        if ret \<noteq> EOK then Some (ret, unlock_table me t s)
        else if get_slot t (nat fd) s \<noteq> NULL then Some (- EBUSY, unlock_table me t s)
        else do {
          let s = set_slot (ft_entries (fd_table_at s t)) (nat fd) e s;
          s \<leftarrow> fd_entry_ref me e s;
          Some (fd, unlock_table me t s) } })"

definition fdtable_install :: "int \<Rightarrow> u64 \<Rightarrow> u64 \<Rightarrow> fds \<Rightarrow> (int \<times> fds) option" where
  "fdtable_install me t e s =
     (if t = NULL \<or> e = NULL then Some (- EINVAL, s)
      else do {
        s \<leftarrow> lock_table me t s;
        let cap = ft_capacity (fd_table_at s t);
        (ret, i, s) \<leftarrow>
          (case find (\<lambda>i. get_slot t i s = NULL) [0 ..< unat cap] of
             Some i \<Rightarrow> Some (EOK, i, s)
           | None \<Rightarrow> do { (ret, s) \<leftarrow> fdtable_grow me t (cap + 1) s; Some (ret, unat cap, s) });
        if ret \<noteq> EOK then Some (ret, unlock_table me t s)
        else do {
          let s = set_slot (ft_entries (fd_table_at s t)) i e s;
          s \<leftarrow> fd_entry_ref me e s;
          Some (sint (of_nat i :: u32), unlock_table me t s) } })"

definition fdtable_get :: "int \<Rightarrow> u64 \<Rightarrow> int \<Rightarrow> fds \<Rightarrow> (u64 \<times> fds) option" where
  "fdtable_get me t fd s =
     (if t = NULL \<or> fd < 0 then Some (NULL, s)
      else do {
        s \<leftarrow> lock_table me t s;
        let e = (if of_int fd < ft_capacity (fd_table_at s t) then get_slot t (nat fd) s else NULL);
        s \<leftarrow> fd_entry_ref me e s;
        Some (e, unlock_table me t s) })"

definition fdtable_close :: "int \<Rightarrow> u64 \<Rightarrow> int \<Rightarrow> fds \<Rightarrow> (int \<times> fds) option" where
  "fdtable_close me t fd s =
     (if t = NULL \<or> fd < 0 then Some (- EINVAL, s)
      else do {
        s \<leftarrow> lock_table me t s;
        if ft_capacity (fd_table_at s t) \<le> of_int fd \<or> get_slot t (nat fd) s = NULL
        then Some (- EBADF, unlock_table me t s)
        else do {
          let e = get_slot t (nat fd) s;
          let s = unlock_table me t (set_slot (ft_entries (fd_table_at s t)) (nat fd) NULL s);
          s \<leftarrow> fd_entry_unref me e s;
          Some (EOK, s) } })"

definition fdtable_dup :: "int \<Rightarrow> u64 \<Rightarrow> int \<Rightarrow> fds \<Rightarrow> (int \<times> fds) option" where
  "fdtable_dup me t oldfd s =
     do {
       (e, s) \<leftarrow> fdtable_get me t oldfd s;
       if e = NULL then Some (- EBADF, s)
       else do {
         (newfd, s) \<leftarrow> fdtable_install me t e s;
         s \<leftarrow> fd_entry_unref me e s;
         Some (newfd, s) } }"

definition fdtable_dup2 :: "int \<Rightarrow> u64 \<Rightarrow> int \<Rightarrow> int \<Rightarrow> fds \<Rightarrow> (int \<times> fds) option" where
  "fdtable_dup2 me t oldfd newfd s =
     (if newfd < 0 then Some (- EINVAL, s)
      else do {
        (e, s) \<leftarrow> fdtable_get me t oldfd s;
        if e = NULL then Some (- EBADF, s)
        else if oldfd = newfd then do { s \<leftarrow> fd_entry_unref me e s; Some (newfd, s) }
        else do {
          (_, s) \<leftarrow> fdtable_close me t newfd s;
          (ret, s) \<leftarrow> fdtable_install_at me t newfd e s;
          s \<leftarrow> fd_entry_unref me e s;
          Some (if ret < 0 then ret else newfd, s) } })"

fun clone_slots :: "int \<Rightarrow> u64 \<Rightarrow> u64 \<Rightarrow> nat list \<Rightarrow> fds \<Rightarrow> fds option" where
  "clone_slots me src es [] s = Some s"
| "clone_slots me src es (i # is) s =
     do {
       s \<leftarrow> (if get_slot src i s \<noteq> NULL
             then fd_entry_ref me (get_slot src i s) (set_slot es i (get_slot src i s) s) else Some s);
       clone_slots me src es is s }"

definition fdtable_clone :: "int \<Rightarrow> u64 \<Rightarrow> fds \<Rightarrow> (u64 \<times> fds) option" where
  "fdtable_clone me src s =
     (if src = NULL then fdtable_create me s
      else do {
        (dst, s) \<leftarrow> fs_op (heap_op (kzalloc me SIZEOF_FD_TABLE)) s;
        if dst = NULL then Some (NULL, s)
        else do {
          s \<leftarrow> lock_table me src s;
          let cap = ft_capacity (fd_table_at s src);
          (es, s) \<leftarrow> alloc_slots me cap s;
          if es = NULL
          then do {
            (_, s) \<leftarrow> fs_op (heap_op (kfree me dst)) (unlock_table me src s);
            Some (NULL, s) }
          else do {
            let s = upd_table dst (\<lambda>_. \<lparr>ft_lock = SPINLOCK_INIT, ft_entries = es, ft_capacity = cap, ft_refcount = 1\<rparr>) s;
            s \<leftarrow> clone_slots me src es [0 ..< unat cap] s;
            Some (dst, unlock_table me src s) } } })"

section \<open>Operations on entries\<close>

definition zero_entry :: fd_entry where
  "zero_entry = \<lparr>fe_type = FD_NONE, fe_file = 0, fe_dir_vnode = 0, fe_dir_buf = 0, fe_dir_count = 0, fe_dir_index = 0,
     fe_dir_off = 0, fe_flags = 0, fe_refcount = 0, fe_lock = SPINLOCK_INIT\<rparr>"

definition drop_entry :: "int \<Rightarrow> u64 \<Rightarrow> fds \<Rightarrow> (u64 \<times> fds) option" where
  "drop_entry me e s = do { (_, s) \<leftarrow> fs_op (heap_op (kfree me e)) s; Some (NULL, s) }"

definition fd_open :: "int \<Rightarrow> string option \<Rightarrow> u32 \<Rightarrow> u32 \<Rightarrow> fds \<Rightarrow> (u64 \<times> fds) option" where
  "fd_open me path flags mode s =
     (case path of None \<Rightarrow> Some (NULL, s)
      | Some p \<Rightarrow>
          do {
            (e, s) \<leftarrow> fs_op (heap_op (kzalloc me SIZEOF_FD_ENTRY)) s;
            if e = NULL then Some (NULL, s)
            else do {
              let s = upd_entry e (\<lambda>_. zero_entry\<lparr>fe_refcount := 1, fe_flags := flags\<rparr>) s;
              ((ret, v), s) \<leftarrow> fs_op (vfs_lookup me p) s;
              if flags AND O_DIRECTORY \<noteq> 0
              then (if ret \<noteq> EOK then drop_entry me e s
                    else do {
                      x \<leftarrow> deref vnode_at v (kfs s);
                      if vn_vtype x \<noteq> VNODE_DIR
                      then do { s \<leftarrow> fs_do (vnode_unref me v) s; drop_entry me e s }
                      else Some (e, upd_entry e (\<lambda>x. x\<lparr>fe_type := FD_DIR, fe_dir_vnode := v, fe_dir_buf := NULL,
                             fe_dir_count := 0, fe_dir_index := 0, fe_dir_off := 0\<rparr>) s) })
              else do {
                (isdir, s) \<leftarrow>
                  (if ret \<noteq> EOK then Some (False, s)
                   else do {
                     x \<leftarrow> deref vnode_at v (kfs s);
                     s \<leftarrow> fs_do (vnode_unref me v) s;
                     Some (vn_vtype x = VNODE_DIR, s) });
                if isdir then drop_entry me e s
                else do {
                  ((ret, file), s) \<leftarrow> fs_op (kopen me path flags mode) s;
                  if ret \<noteq> EOK then drop_entry me e s
                  else Some (e, upd_entry e (\<lambda>x. x\<lparr>fe_type := FD_FILE, fe_file := file\<rparr>) s) } } } })"

definition fd_read :: "u64 \<Rightarrow> u64 \<Rightarrow> u64 \<Rightarrow> fds \<Rightarrow> (u64 \<times> fds) option" where
  "fd_read e buf sz s =
     (if e = NULL \<or> fe_type (fd_entry_at s e) \<noteq> FD_FILE then Some (of_int (- EINVAL), s)
      else fs_op (kread (fe_file (fd_entry_at s e)) buf sz) s)"

definition fd_write :: "int \<Rightarrow> u64 \<Rightarrow> u64 \<Rightarrow> u64 \<Rightarrow> fds \<Rightarrow> (int \<times> fds) option" where
  "fd_write me e buf sz s =
     (if e = NULL \<or> fe_type (fd_entry_at s e) \<noteq> FD_FILE then Some (- EINVAL, s)
      else fs_op (kwrite me (fe_file (fd_entry_at s e)) buf sz) s)"

definition fd_seek :: "u64 \<Rightarrow> u64 \<Rightarrow> fseek \<Rightarrow> fds \<Rightarrow> (u64 \<times> fds) option" where
  "fd_seek e offset whence s =
     (if e = NULL \<or> fe_type (fd_entry_at s e) \<noteq> FD_FILE then Some (of_int (- EINVAL), s)
      else fs_op (kseek (fe_file (fd_entry_at s e)) offset whence) s)"

definition fd_readdir :: "int \<Rightarrow> u64 \<Rightarrow> u64 \<Rightarrow> u64 \<Rightarrow> fds \<Rightarrow> (int \<times> fds) option" where
  "fd_readdir me e out mx s =
     (if e = NULL \<or> fe_type (fd_entry_at s e) \<noteq> FD_DIR \<or> out = NULL \<or> mx = 0 then Some (- EINVAL, s)
      else do {
        s \<leftarrow> lock_entry me e s;
        (ret, s) \<leftarrow>
          (if fe_dir_buf (fd_entry_at s e) \<noteq> NULL then Some (EOK, s)
           else do {
             (buf, s) \<leftarrow> fs_op (heap_op (kmalloc me (SIZEOF_DIRENT * 256))) s;
             if buf = NULL then Some (- ENOMEM, s)
             else do {
               ((ret, count), s) \<leftarrow> fs_op (vfs_readdir me (fe_dir_vnode (fd_entry_at s e)) buf 256) s;
               if ret \<noteq> EOK
               then do { (_, s) \<leftarrow> fs_op (heap_op (kfree me buf)) s; Some (ret, s) }
               else Some (EOK, upd_entry e (\<lambda>x. x\<lparr>fe_dir_buf := buf, fe_dir_count := count, fe_dir_index := 0\<rparr>) s) } });
        if ret \<noteq> EOK then Some (ret, unlock_entry me e s)
        else let x = fd_entry_at s e in
          if fe_dir_count x \<le> fe_dir_index x then Some (0, unlock_entry me e s)
          else let d = dirent_at (kfs s) (fe_dir_buf x + fe_dir_index x * SIZEOF_DIRENT);
                   s = s\<lparr>kfs := (kfs s)\<lparr>dirent_at := (dirent_at (kfs s))(out := d)\<rparr>\<rparr>;
                   s = upd_entry e (\<lambda>x. x\<lparr>fe_dir_index := fe_dir_index x + 1\<rparr>) s
            in Some (1, unlock_entry me e s) })"

end
