(* ===== verification/Cpio.thy ===== *)
theory Cpio
  imports Kfile
begin

text \<open>
  The reader of the initial ramdisk, \<^verbatim>\<open>fs/initrd/cpio.c\<close>: a newc archive in memory is parsed into an
  array of entries on the kernel heap, and the entries are created in the file system. The
  array lives in the bytes of the heap, as \<^verbatim>\<open>krealloc\<close> moves it by its bytes; the archive structure
  is a local variable of the caller and is passed by value, \<open>None\<close> for a null pointer. The log
  messages are left out.
\<close>

section \<open>Data\<close>

record cpio_reader =
  rd_pos :: u64
  rd_end :: u64

record cpio_entry =
  ce_ino :: u64
  ce_mode :: u64
  ce_uid :: u64
  ce_gid :: u64
  ce_nlink :: u64
  ce_mtime :: u64
  ce_filesize :: u64
  ce_devmajor :: u64
  ce_devminor :: u64
  ce_rdevmajor :: u64
  ce_rdevminor :: u64
  ce_namesize :: u64
  ce_check :: u64
  ce_name :: u64
  ce_data :: u64

record cpio_archive =
  ar_entries :: u64
  ar_entry_count :: u64
  ar_data :: u64
  ar_size :: u64

text \<open>The words of an entry in the order of the structure, behind the eight bytes of \<^verbatim>\<open>cmagic\<close> and its padding.\<close>

definition entry_words :: "cpio_entry \<Rightarrow> u64 list" where
  "entry_words e = [ce_ino e, ce_mode e, ce_uid e, ce_gid e, ce_nlink e, ce_mtime e, ce_filesize e, ce_devmajor e,
     ce_devminor e, ce_rdevmajor e, ce_rdevminor e, ce_namesize e, ce_check e, ce_name e, ce_data e]"

definition SIZEOF_CPIO_ENTRY :: u64 where "SIZEOF_CPIO_ENTRY = 128"

definition zero_entry :: cpio_entry where
  "zero_entry = \<lparr>ce_ino = 0, ce_mode = 0, ce_uid = 0, ce_gid = 0, ce_nlink = 0, ce_mtime = 0, ce_filesize = 0,
     ce_devmajor = 0, ce_devminor = 0, ce_rdevmajor = 0, ce_rdevminor = 0, ce_namesize = 0, ce_check = 0, ce_name = 0, ce_data = 0\<rparr>"

definition word_addr :: "u64 \<Rightarrow> nat \<Rightarrow> u64" where
  "word_addr a i = a + 8 + 8 * of_nat i"

text \<open>Clearing an entry and storing its words; reading them back.\<close>

definition put_entry :: "u64 \<Rightarrow> cpio_entry \<Rightarrow> mem \<Rightarrow> mem" where
  "put_entry a e m =
     fold (\<lambda>i. put64 (word_addr a i) (entry_words e ! i)) [0 ..< 15] (memset m a 0 SIZEOF_CPIO_ENTRY)"

definition get_entry :: "mem \<Rightarrow> u64 \<Rightarrow> cpio_entry" where
  "get_entry m a = (let w = (\<lambda>i. get64 m (word_addr a i)) in
     \<lparr>ce_ino = w 0, ce_mode = w 1, ce_uid = w 2, ce_gid = w 3, ce_nlink = w 4, ce_mtime = w 5, ce_filesize = w 6,
      ce_devmajor = w 7, ce_devminor = w 8, ce_rdevmajor = w 9, ce_rdevminor = w 10, ce_namesize = w 11,
      ce_check = w 12, ce_name = w 13, ce_data = w 14\<rparr>)"

definition entry_addr :: "u64 \<Rightarrow> nat \<Rightarrow> u64" where
  "entry_addr entries i = entries + of_nat i * SIZEOF_CPIO_ENTRY"

section \<open>Parsing\<close>

definition align4 :: "u64 \<Rightarrow> u64" where "align4 x = (x + 3) AND NOT 3"

text \<open>The local buffer \<^verbatim>\<open>temp\<close> is a memory of its own, at an arbitrary address.\<close>

definition parse_hex :: "mem \<Rightarrow> u64 \<Rightarrow> u64 option" where
  "parse_hex m buf =
     (let temp = (\<lambda>a. if a - 0x10 < 8 then m (buf + (a - 0x10)) else 0)
      in map_option fst (strtoull temp 0x10 16))"

text \<open>\<^verbatim>\<open>memcmp\<close> and \<^verbatim>\<open>strcmp\<close> with a literal, the result being 0.\<close>

definition is_at :: "mem \<Rightarrow> u64 \<Rightarrow> string \<Rightarrow> bool" where
  "is_at m p lit \<longleftrightarrow> list_all (\<lambda>i. m (p + of_nat i) = of_char (lit ! i)) [0 ..< length lit]"

definition equals_at :: "mem \<Rightarrow> u64 \<Rightarrow> string \<Rightarrow> bool" where
  "equals_at m p lit \<longleftrightarrow> is_at m p lit \<and> m (p + of_nat (length lit)) = 0"

text \<open>The thirteen numbers of a header, from \<open>pos\<close> on.\<close>

definition read_header :: "mem \<Rightarrow> u64 \<Rightarrow> cpio_entry option" where
  "read_header m pos = do {
     ino \<leftarrow> parse_hex m pos;
     mode \<leftarrow> parse_hex m (pos + 8);
     uid \<leftarrow> parse_hex m (pos + 16);
     gid \<leftarrow> parse_hex m (pos + 24);
     nlink \<leftarrow> parse_hex m (pos + 32);
     mtime \<leftarrow> parse_hex m (pos + 40);
     filesize \<leftarrow> parse_hex m (pos + 48);
     devmajor \<leftarrow> parse_hex m (pos + 56);
     devminor \<leftarrow> parse_hex m (pos + 64);
     rdevmajor \<leftarrow> parse_hex m (pos + 72);
     rdevminor \<leftarrow> parse_hex m (pos + 80);
     namesize \<leftarrow> parse_hex m (pos + 88);
     check \<leftarrow> parse_hex m (pos + 96);
     Some \<lparr>ce_ino = ino, ce_mode = mode, ce_uid = uid, ce_gid = gid, ce_nlink = nlink, ce_mtime = mtime,
       ce_filesize = filesize, ce_devmajor = devmajor, ce_devminor = devminor, ce_rdevmajor = rdevmajor,
       ce_rdevminor = rdevminor, ce_namesize = namesize, ce_check = check, ce_name = 0, ce_data = 0\<rparr>}"

text \<open>The result, the reader and the entry, which starts as zeroes.\<close>

definition cpio_reader_next :: "mem \<Rightarrow> cpio_reader \<Rightarrow> (int \<times> cpio_reader \<times> cpio_entry) option" where
  "cpio_reader_next m r =
     (if rd_end r - rd_pos r < 110 then Some (-1, r, zero_entry)
      else if \<not> is_at m (rd_pos r) ''070701'' \<and> \<not> is_at m (rd_pos r) ''070702'' then Some (-1, r, zero_entry)
      else do {
        e \<leftarrow> read_header m (rd_pos r + 6);
        let r1 = r\<lparr>rd_pos := rd_pos r + 6 + 13 * 8\<rparr>;
        if rd_end r1 - rd_pos r1 < ce_namesize e then Some (-1, r1, e)
        else do {
          let filename = rd_pos r1;
          let r2 = r1\<lparr>rd_pos := align4 (rd_pos r1 + ce_namesize e)\<rparr>;
          if m (filename + (ce_namesize e - 1)) \<noteq> 0 then Some (-1, r2, e)
          else if equals_at m filename ''TRAILER!!!'' then Some (1, r2, e)
          else let e1 = e\<lparr>ce_name := filename\<rparr> in
            if rd_end r2 - rd_pos r2 < ce_filesize e1 then Some (-1, r2, e1)
            else Some (0, r2\<lparr>rd_pos := align4 (rd_pos r2 + ce_filesize e1)\<rparr>, e1\<lparr>ce_data := rd_pos r2\<rparr>)}})"

text \<open>
  The loop of \<^verbatim>\<open>cpio_archive_parse\<close>: the array grows by doubling. The entry behind the last one holds
  whatever the reader stored before it stopped.
\<close>

partial_function (option) parse_loop ::
  "int \<Rightarrow> cpio_reader \<Rightarrow> u64 \<Rightarrow> cpio_archive \<Rightarrow> fs \<Rightarrow> ((int \<times> cpio_archive) \<times> fs) option" where
  "parse_loop me r capacity ar s =
     (if \<not> rd_pos r < rd_end r then Some ((0, ar), s)
      else do {
        (ok, capacity, ar, s) \<leftarrow>
          (if ar_entry_count ar = capacity
           then do {
             (p, s) \<leftarrow> heap_op (krealloc me (ar_entries ar) (2 * capacity * SIZEOF_CPIO_ENTRY)) s;
             if p = NULL then Some (False, 2 * capacity, ar, s)
             else Some (True, 2 * capacity, ar\<lparr>ar_entries := p\<rparr>, s)}
           else Some (True, capacity, ar, s));
        if \<not> ok then Some ((-1, ar), s)
        else do {
          (res, r, e) \<leftarrow> cpio_reader_next (fs_mem s) r;
          let s = set_mem (put_entry (ar_entries ar + ar_entry_count ar * SIZEOF_CPIO_ENTRY) e (fs_mem s)) s;
          if res = 1 then Some ((0, ar), s)
          else if res < 0 then Some ((-1, ar), s)
          else parse_loop me r capacity (ar\<lparr>ar_entry_count := ar_entry_count ar + 1\<rparr>) s}})"

definition cpio_archive_parse ::
  "int \<Rightarrow> cpio_archive option \<Rightarrow> u64 \<Rightarrow> u64 \<Rightarrow> fs \<Rightarrow> ((int \<times> cpio_archive option) \<times> fs) option" where
  "cpio_archive_parse me archive data sz s =
     (if archive = None \<or> data = NULL \<or> sz = 0 then Some ((-1, archive), s)
      else do {
        (p, s) \<leftarrow> heap_op (kzalloc me (4 * SIZEOF_CPIO_ENTRY)) s;
        let ar = \<lparr>ar_entries = p, ar_entry_count = 0, ar_data = data, ar_size = sz\<rparr>;
        if p = NULL then Some ((-1, Some ar), s)
        else do {
          ((ret, ar), s) \<leftarrow> parse_loop me \<lparr>rd_pos = data, rd_end = data + sz\<rparr> 4 ar s;
          Some ((ret, Some ar), s)}})"

definition cpio_archive_free :: "int \<Rightarrow> cpio_archive \<Rightarrow> fs \<Rightarrow> (cpio_archive \<times> fs) option" where
  "cpio_archive_free me ar s = do {
     s \<leftarrow> (if ar_entries ar \<noteq> NULL then map_option snd (heap_op (kfree me (ar_entries ar)) s) else Some s);
     Some (\<lparr>ar_entries = NULL, ar_entry_count = 0, ar_data = NULL, ar_size = 0\<rparr>, s)}"

section \<open>Extracting\<close>

definition normalize_dest :: "string \<Rightarrow> string" where
  "normalize_dest dest = (if dest = ''/'' then [] else dest)"

text \<open>\<^verbatim>\<open>memset(p, 0, n)\<close> and \<^verbatim>\<open>strcat(p, str)\<close>; both fault on a null pointer.\<close>

definition clear_bytes :: "u64 \<Rightarrow> u64 \<Rightarrow> fs \<Rightarrow> fs option" where
  "clear_bytes p n s = (if p = NULL then None else Some (set_mem (memset (fs_mem s) p 0 n) s))"

definition append_string :: "u64 \<Rightarrow> string \<Rightarrow> fs \<Rightarrow> fs option" where
  "append_string p str s =
     (if p = NULL then None
      else do { n \<leftarrow> strlen (fs_mem s) p; Some (set_mem (put_string (p + n) str (fs_mem s)) s) })"

text \<open>The tokens of \<^verbatim>\<open>strtok_r(.., "/", &save)\<close>, each with the test \<^verbatim>\<open>save && *save\<close> behind it.\<close>

function dir_tokens :: "string \<Rightarrow> (string \<times> bool) list" where
  "dir_tokens str =
     (let w = dropWhile (\<lambda>c. c = CHR ''/'') str in
      if w = [] then []
      else let t = takeWhile (\<lambda>c. c \<noteq> CHR ''/'') w; r = drop (length t + 1) w
        in (t, r \<noteq> []) # dir_tokens r)"
  by pat_completeness auto
termination
proof (relation "measure length", simp, unfold in_measure)
  fix str w t r :: string
  assume "w = dropWhile (\<lambda>c. c = CHR ''/'') str" "w \<noteq> []" "r = drop (length t + 1) w"
  then have "length r < length w" "length w \<le> length str" by (simp_all add: length_dropWhile_le)
  then show "length r < length str" by simp
qed

text \<open>
  One component of a path: the buffer grows when it has to, the component is appended, and what is
  not there yet is made. \<open>Inl\<close> is an early return of the whole function. The duplicate of the path
  is never freed and the reference that the lookup takes is never given back.
\<close>

definition set_owner :: "u64 \<Rightarrow> cpio_entry \<Rightarrow> fs \<Rightarrow> fs option" where
  "set_owner v file s = set_vnode v (\<lambda>x. x\<lparr>vn_gid := ucast (ce_gid file), vn_uid := ucast (ce_uid file)\<rparr>) s"

definition lookup_owner :: "int \<Rightarrow> string option \<Rightarrow> cpio_entry \<Rightarrow> fs \<Rightarrow> (int option \<times> fs) option" where
  "lookup_owner me path file s = do {
     p \<leftarrow> path;
     ((ret, v), s) \<leftarrow> vfs_lookup me p s;
     if ret \<noteq> EOK then Some (Some ENOENT, s)
     else do { s \<leftarrow> set_owner v file s; Some (None, s) }}"

definition make_component :: "int \<Rightarrow> bool \<Rightarrow> string \<Rightarrow> cpio_entry \<Rightarrow> fs \<Rightarrow> (int option \<times> fs) option" where
  "make_component me dir path file s = do {
     (dup, s) \<leftarrow> dup_string me path s;
     let dup = (if dup = NULL then None else Some path);
     if dir
     then do {
       (_, s) \<leftarrow> vfs_mkdir me dup 493 s;
       lookup_owner me dup file s}
     else do {
       (ret, s) \<leftarrow> vfs_create me dup (ucast (ce_mode file)) s;
       if ret \<noteq> EOK then Some (None, s)
       else do {
         ((ret, f), s) \<leftarrow> vfs_open me dup 0 s;
         s \<leftarrow> (if ret = EOK
               then do {
                 (_, s) \<leftarrow> kwrite me f (ce_data file) (ce_filesize file) s;
                 (_, s) \<leftarrow> kclose me f s;
                 Some s}
               else Some s);
         lookup_owner me dup file s}}}"

fun extract_tokens ::
  "int \<Rightarrow> cpio_entry \<Rightarrow> (string \<times> bool) list \<Rightarrow> u64 \<Rightarrow> u64 \<Rightarrow> fs \<Rightarrow> (int option \<times> u64 \<times> u64 \<times> fs) option" where
  "extract_tokens me file [] path sz s = Some (None, path, sz, s)"
| "extract_tokens me file ((dir, isdir) # ts) path sz s =
     (if dir = [] then extract_tokens me file ts path sz s
      else do {
        p \<leftarrow> cstring (fs_mem s) path;
        let need = of_nat (length p) + of_nat (length dir) + 2;
        (path, sz, s) \<leftarrow>
          (if sz < need then do { (q, s) \<leftarrow> heap_op (krealloc me path need) s; Some (q, need, s) }
           else Some (path, sz, s));
        s \<leftarrow> append_string path ''/'' s;
        s \<leftarrow> append_string path dir s;
        p \<leftarrow> cstring (fs_mem s) path;
        ((ret, v), s) \<leftarrow> vfs_lookup me p s;
        (stop, s) \<leftarrow> (if ret \<noteq> EOK then make_component me isdir p file s else Some (None, s));
        if stop \<noteq> None then Some (stop, path, sz, s) else extract_tokens me file ts path sz s})"

text \<open>When \<^verbatim>\<open>strdup\<close> of the name fails, \<^verbatim>\<open>strtok_r\<close> goes on from the variable \<^verbatim>\<open>save\<close>, which nothing has set.\<close>

fun extract_entries ::
  "int \<Rightarrow> string \<Rightarrow> u64 \<Rightarrow> nat list \<Rightarrow> u64 \<Rightarrow> u64 \<Rightarrow> fs \<Rightarrow> (int \<times> fs) option" where
  "extract_entries me base entries [] path sz s = Some (0, s)"
| "extract_entries me base entries (i # is) path sz s = do {
     s \<leftarrow> clear_bytes path sz s;
     s \<leftarrow> append_string path base s;
     let file = get_entry (fs_mem s) (entry_addr entries i);
     name \<leftarrow> cstring (fs_mem s) (ce_name file);
     (name_dup, s) \<leftarrow> dup_string me (skip_slash name) s;
     (path, sz, s) \<leftarrow>
       (if sz < ce_namesize file + 1
        then do { (q, s) \<leftarrow> heap_op (krealloc me path (ce_namesize file + 1)) s; Some (q, ce_namesize file + 1, s) }
        else Some (path, sz, s));
     if name_dup = NULL then None
     else do {
       (stop, path, sz, s) \<leftarrow> extract_tokens me file (dir_tokens (skip_slash name)) path sz s;
       case stop of Some ret \<Rightarrow> Some (ret, s)
       | None \<Rightarrow> do {
           (_, s) \<leftarrow> heap_op (kfree me name_dup) s;
           extract_entries me base entries is path sz s}}}"

definition cpio_archive_extract :: "int \<Rightarrow> cpio_archive option \<Rightarrow> string option \<Rightarrow> fs \<Rightarrow> (int \<times> fs) option" where
  "cpio_archive_extract me archive dest_path s =
     (case (archive, dest_path) of
        (Some ar, Some dest) \<Rightarrow> do {
          (path, s) \<leftarrow> heap_op (kmalloc me 20) s;
          s \<leftarrow> clear_bytes path 20 s;
          let need = of_nat (length dest) + 1;
          (path, sz, s) \<leftarrow>
            (if 20 < need then do { (q, s) \<leftarrow> heap_op (krealloc me path need) s; Some (q, need, s) }
             else Some (path, 20, s));
          s \<leftarrow> (if dest \<noteq> ''/'' then map_option snd (vfs_mkdir me (Some dest) 493 s) else Some s);
          extract_entries me (normalize_dest dest) (ar_entries ar) [0 ..< unat (ar_entry_count ar)] path sz s}
      | _ \<Rightarrow> Some (- EFAULT, s))"

text \<open>\<^verbatim>\<open>extract_initrd\<close> of \<^verbatim>\<open>main.c\<close>\<close>

definition extract_initrd :: "int \<Rightarrow> u64 \<Rightarrow> u64 \<Rightarrow> string option \<Rightarrow> fs \<Rightarrow> (int \<times> fs) option" where
  "extract_initrd me data sz dest_path s = do {
     ((ret, ar), s) \<leftarrow> cpio_archive_parse me
        (Some \<lparr>ar_entries = NULL, ar_entry_count = 0, ar_data = NULL, ar_size = 0\<rparr>) data sz s;
     if ret \<noteq> 0 then Some (-1, s)
     else do {
       (ret, s) \<leftarrow> cpio_archive_extract me ar dest_path s;
       s \<leftarrow> (case ar of Some a \<Rightarrow> map_option snd (cpio_archive_free me a s) | None \<Rightarrow> Some s);
       Some (if ret \<noteq> 0 then -1 else 0, s)}}"

end
