(* ===== verification/Cpio_Props.thy ===== *)
theory Cpio_Props
  imports Cpio Kheap_Small
begin

text \<open>
  Properties of the archive reader: the words of an entry in memory, the newc format as an encoding of
  files into bytes, and that parsing an encoded archive gives the entries back.
\<close>

section \<open>Words and entries in memory\<close>

lemma back_far:
  fixes x :: u64
  assumes "x + of_nat d = 0" and "0 < d" and "d \<le> 4096"
  shows "2 ^ 64 - 4096 \<le> unat x"
proof (rule ccontr)
  assume x: "\<not> 2 ^ 64 - 4096 \<le> unat x"
  have u: "unat (of_nat d :: u64) = d" by (rule unat_of_nat_small) (use assms in simp)
  have "unat (x + of_nat d) = unat x + d" using x assms by (subst unat_add_no_wrap) (simp_all only: u, simp)
  then show False using assms by simp
qed

text \<open>Byte \<open>j\<close> of word \<open>i\<close> does not lie in another word of the entry.\<close>

lemma words_apart:
  assumes "i < 15" and "k < 15" and "i \<noteq> k" and "j < 8"
  shows "8 \<le> unat (word_addr a i + of_nat j - word_addr a k)"
proof -
  let ?x = "word_addr a i + of_nat j - word_addr a k"
  show ?thesis
  proof (cases "k < i")
    case True
    have "?x = of_nat (8 * (i - k) + j)" using True by (simp add: word_addr_def of_nat_diff algebra_simps)
    moreover have "unat (of_nat (8 * (i - k) + j) :: u64) = 8 * (i - k) + j" by (rule unat_of_nat_small) (use assms in simp)
    ultimately have "unat ?x = 8 * (i - k) + j" by (simp only:)
    then show ?thesis using True by linarith
  next
    case False
    define d where "d = 8 * (k - i) - j"
    have d: "0 < d" "d < 120" using False assms by (auto simp: d_def)
    have x: "?x + of_nat d = 0" using False assms by (simp add: word_addr_def d_def of_nat_diff algebra_simps)
    from back_far [OF x d(1)] d(2) show ?thesis by simp
  qed
qed

lemma get_put_words:
  assumes "n \<le> 15" and "i < n"
  shows "get64 (fold (\<lambda>i. put64 (word_addr a i) (ws ! i)) [0 ..< n] m) (word_addr a i) = ws ! i"
  using assms
proof (induction n)
  case (Suc n)
  let ?m = "fold (\<lambda>i. put64 (word_addr a i) (ws ! i)) [0 ..< n] m"
  show ?case
  proof (cases "i = n")
    case False
    then have "get64 (put64 (word_addr a n) (ws ! n) ?m) (word_addr a i) = get64 ?m (word_addr a i)"
      using Suc.prems words_apart [of i n] by (intro get64_cong put64_outside) simp
    then show ?thesis using Suc False by simp
  qed (simp add: get_put64)
qed simp

lemma get_put_entry: "get_entry (put_entry a e m) a = e"
proof -
  have "get64 (put_entry a e m) (word_addr a i) = entry_words e ! i" if "i < 15" for i
    unfolding put_entry_def by (rule get_put_words) (use that in simp_all)
  then show ?thesis by (simp add: get_entry_def Let_def entry_words_def)
qed

lemma put_entry_outside:
  assumes "128 \<le> unat (x - a)"
  shows "put_entry a e m x = m x"
proof -
  have "put64 (word_addr a i) w m' x = m' x" if "i < 15" for i w m'
  proof (rule put64_outside)
    have "x - word_addr a i = (x - a) - of_nat (8 + 8 * i)" by (simp add: word_addr_def algebra_simps)
    moreover have "unat (of_nat (8 + 8 * i) :: u64) = 8 + 8 * i" using that by (subst unat_of_nat_small) simp_all
    ultimately have "unat (x - word_addr a i) = unat (x - a) - (8 + 8 * i)"
      using assms that by (simp only: unat_sub word_le_nat_alt)
    then show "8 \<le> unat (x - word_addr a i)" using assms that by simp
  qed
  then have "fold (\<lambda>i. put64 (word_addr a i) (entry_words e ! i)) [0 ..< n] m' x = m' x" if "n \<le> 15" for n m'
    using that by (induction n) auto
  then show ?thesis using assms by (simp add: put_entry_def memset_apply SIZEOF_CPIO_ENTRY_def word_less_nat_alt)
qed

lemma get_entry_cong:
  assumes "\<And>i. i < 128 \<Longrightarrow> m' (b + of_nat i) = m (a + of_nat i)"
  shows "get_entry m' b = get_entry m a"
proof -
  have "get64 m' (word_addr b i) = get64 m (word_addr a i)" if "i < 15" for i
  proof (rule get64_cong)
    fix j :: nat
    assume "j < 8"
    then show "m' (word_addr b i + of_nat j) = m (word_addr a i + of_nat j)"
      using assms [of "8 + 8 * i + j"] that by (simp add: word_addr_def add.assoc)
  qed
  then show ?thesis by (simp add: get_entry_def Let_def)
qed

section \<open>The newc format\<close>

definition holds :: "mem \<Rightarrow> u64 \<Rightarrow> u8 list \<Rightarrow> bool" where
  "holds m p bs \<longleftrightarrow> (\<forall>i < length bs. m (p + of_nat i) = bs ! i)"

lemma holds_append: "holds m p (xs @ ys) \<longleftrightarrow> holds m p xs \<and> holds m (p + of_nat (length xs)) ys"
proof -
  have "(\<forall>i < length xs + length ys. P i) \<longleftrightarrow> (\<forall>i < length xs. P i) \<and> (\<forall>i < length ys. P (length xs + i))" for P :: "nat \<Rightarrow> bool"
  proof (intro iffI conjI allI impI)
    fix i
    assume P: "(\<forall>i < length xs. P i) \<and> (\<forall>i < length ys. P (length xs + i))" and i: "i < length xs + length ys"
    show "P i"
    proof (cases "i < length xs")
      case False
      then have "P (length xs + (i - length xs))" using P i by (intro P [THEN conjunct2, rule_format]) simp
      then show ?thesis using False by simp
    qed (use P in simp)
  qed simp_all
  then show ?thesis by (simp add: holds_def nth_append add.assoc)
qed

lemma holds_Nil [simp]: "holds m p []"
  by (simp add: holds_def)

lemma holds_kept: "holds m p bs \<Longrightarrow> (\<And>i. i < length bs \<Longrightarrow> m' (p + of_nat i) = m (p + of_nat i)) \<Longrightarrow> holds m' p bs"
  by (simp add: holds_def)

abbreviation bytes_of :: "string \<Rightarrow> u8 list" where "bytes_of str \<equiv> map of_char str"

lemma holds_concat:
  assumes "holds m p (concat (map f xs))" and "\<And>x. length (f x) = n" and "i < length xs"
  shows "holds m (p + of_nat (i * n)) (f (xs ! i))"
  using assms(1,3)
proof (induction xs arbitrary: p i)
  case (Cons x xs)
  show ?case
  proof (cases i)
    case (Suc j)
    then have "holds m (p + of_nat n + of_nat (j * n)) (f (xs ! j))"
      using Cons.prems assms(2) by (intro Cons.IH) (simp_all add: holds_append)
    then show ?thesis using Suc by (simp add: add.assoc)
  qed (use Cons.prems in \<open>simp add: holds_append\<close>)
qed simp

text \<open>A file of an archive and its bytes: numbers in eight hexadecimal digits, the name with its terminator
  and the contents, both filled up to a multiple of four bytes.\<close>

record newc_file =
  nf_ino :: u32
  nf_mode :: u32
  nf_uid :: u32
  nf_gid :: u32
  nf_nlink :: u32
  nf_mtime :: u32
  nf_devmajor :: u32
  nf_devminor :: u32
  nf_rdevmajor :: u32
  nf_rdevminor :: u32
  nf_check :: u32
  nf_name :: string
  nf_data :: "u8 list"

definition header_numbers :: "newc_file \<Rightarrow> nat list" where
  "header_numbers f = [unat (nf_ino f), unat (nf_mode f), unat (nf_uid f), unat (nf_gid f), unat (nf_nlink f),
     unat (nf_mtime f), length (nf_data f), unat (nf_devmajor f), unat (nf_devminor f), unat (nf_rdevmajor f),
     unat (nf_rdevminor f), length (nf_name f) + 1, unat (nf_check f)]"

definition pad :: "nat \<Rightarrow> u8 list" where
  "pad n = replicate ((4 - n mod 4) mod 4) 0"

definition newc_header :: "newc_file \<Rightarrow> u8 list" where
  "newc_header f = bytes_of ''070701'' @ concat (map (\<lambda>v. bytes_of (to_hex True 8 v)) (header_numbers f))"

definition newc_name :: "newc_file \<Rightarrow> u8 list" where
  "newc_name f = bytes_of (nf_name f) @ [0] @ pad (110 + (length (nf_name f) + 1))"

definition newc_bytes :: "newc_file \<Rightarrow> u8 list" where
  "newc_bytes f = newc_header f @ newc_name f @ nf_data f @ pad (length (nf_data f))"

definition newc_ok :: "newc_file \<Rightarrow> bool" where
  "newc_ok f \<longleftrightarrow> (\<forall>c \<in> set (nf_name f). of_char c \<noteq> (0 :: u8)) \<and> length (nf_name f) + 1 < 2 ^ 32 \<and> length (nf_data f) < 2 ^ 32"

definition trailer :: "newc_file \<Rightarrow> bool" where
  "trailer f \<longleftrightarrow> newc_ok f \<and> nf_name f = ''TRAILER!!!''"

lemma length_header [simp]: "length (newc_header f) = 110"
  by (simp add: newc_header_def header_numbers_def)

definition name_len :: "newc_file \<Rightarrow> nat" where "name_len f = length (newc_name f)"

lemma pad_aligns: "(n + length (pad n)) = (n + 3) div 4 * 4"
proof -
  have "n mod 4 = 0 \<or> n mod 4 = 1 \<or> n mod 4 = 2 \<or> n mod 4 = 3" by linarith
  moreover have "n = n div 4 * 4 + n mod 4" by simp
  ultimately show ?thesis by (elim disjE) (simp_all add: pad_def, presburger+)
qed

lemma name_len: "110 + name_len f = (110 + (length (nf_name f) + 1) + 3) div 4 * 4"
  using pad_aligns [of "110 + (length (nf_name f) + 1)"] by (simp add: name_len_def newc_name_def)

lemma length_newc: "length (newc_bytes f) = 110 + name_len f + (length (nf_data f) + 3) div 4 * 4"
  using pad_aligns [of "length (nf_data f)"] by (simp add: newc_bytes_def name_len_def)

lemma newc_aligned: "4 dvd 110 + name_len f" "4 dvd length (newc_bytes f)"
  unfolding name_len length_newc by simp_all

section \<open>Reading one file\<close>

lemma parse_hex_digits:
  assumes "holds m buf (bytes_of (to_hex up 8 v))" and "v < 2 ^ 32"
  shows "parse_hex m buf = Some (of_nat v)"
proof -
  let ?t = "\<lambda>a. if a - 0x10 < 8 then m (buf + (a - 0x10)) else 0"
  let ?s = "to_hex up 8 v"
  have "0x10 + of_nat i \<noteq> NULL \<and> ?t (0x10 + of_nat i) = of_char (?s ! i) \<and> of_char (?s ! i) \<noteq> (0 :: u8)" if i: "i < 8" for i
  proof -
    have u: "unat (of_nat i :: u64) = i" using i by (simp add: unat_of_nat)
    then have "(of_nat i :: u64) < 8" using i by (simp add: word_less_nat_alt)
    moreover have "m (buf + of_nat i) = of_char (?s ! i)" using assms(1) i by (simp add: holds_def)
    moreover have "unat (0x10 + of_nat i :: u64) = 16 + i" using u i by (subst unat_add_no_wrap) simp_all
    then have "0x10 + of_nat i \<noteq> NULL" by (metis add_is_0 unat_0 zero_neq_numeral)
    moreover have "of_char (?s ! i) \<noteq> (0 :: u8)"
      using to_hex_chars [of "?s ! i" up 8 v] hex_char_digit(2) i by (metis length_to_hex nth_mem)
    ultimately show ?thesis by simp
  qed
  then have "cstr ?t 0x10 ?s" using cstr_append [of ?t "0x10" ?s "[]"] by simp
  from strtoull_digits [OF this] show ?thesis using assms(2) by (simp add: parse_hex_def Let_def)
qed

definition entry_of :: "u64 \<Rightarrow> newc_file \<Rightarrow> cpio_entry" where
  "entry_of p f = \<lparr>ce_ino = ucast (nf_ino f), ce_mode = ucast (nf_mode f), ce_uid = ucast (nf_uid f), ce_gid = ucast (nf_gid f),
     ce_nlink = ucast (nf_nlink f), ce_mtime = ucast (nf_mtime f), ce_filesize = of_nat (length (nf_data f)),
     ce_devmajor = ucast (nf_devmajor f), ce_devminor = ucast (nf_devminor f), ce_rdevmajor = ucast (nf_rdevmajor f),
     ce_rdevminor = ucast (nf_rdevminor f), ce_namesize = of_nat (length (nf_name f) + 1), ce_check = ucast (nf_check f),
     ce_name = p + 110, ce_data = p + of_nat (110 + name_len f)\<rparr>"

lemma read_header_newc:
  assumes "holds m p (newc_header f)" and "newc_ok f"
  shows "read_header m (p + 6) = Some ((entry_of p f)\<lparr>ce_name := 0, ce_data := 0\<rparr>)"
proof -
  have h: "holds m (p + 6) (concat (map (\<lambda>v. bytes_of (to_hex True 8 v)) (header_numbers f)))"
    using assms(1) unfolding newc_header_def holds_append by simp
  have b: "v < 2 ^ 32" if "v \<in> set (header_numbers f)" for v
    using that assms(2) by (auto simp: header_numbers_def newc_ok_def)
  have l: "length (header_numbers f) = 13" by (simp add: header_numbers_def)
  have n: "parse_hex m (p + 6 + of_nat (i * 8)) = Some (of_nat (header_numbers f ! i))" if "i < 13" for i
    by (rule parse_hex_digits [OF holds_concat [OF h]]) (use that b l in simp_all)
  note n [of 0] n [of 1] n [of 2] n [of 3] n [of 4] n [of 5] n [of 6] n [of 7] n [of 8] n [of 9] n [of 10] n [of 11] n [of 12]
  note this [simplified header_numbers_def, simplified]
  then show ?thesis unfolding read_header_def by (simp add: entry_of_def)
qed

lemma align4_next:
  assumes "4 dvd unat p" and "unat p + n + 3 < 2 ^ 64"
  shows "align4 (p + of_nat n) = p + of_nat ((n + 3) div 4 * 4)"
proof -
  obtain k where k: "unat p = 4 * k" using assms(1) by (auto simp: dvd_def)
  let ?x = "p + of_nat n + 3"
  have n: "unat (of_nat n :: u64) = n" by (rule unat_of_nat_small) (use assms in simp)
  have pn: "unat (p + of_nat n) = unat p + n" using assms by (subst unat_add_no_wrap) (simp_all add: n)
  have x: "unat ?x = unat p + n + 3" using assms by (subst unat_add_no_wrap) (simp_all add: pn)
  have "?x AND NOT 3 = ?x AND NOT (mask 2)" by (simp add: mask_eq_exp_minus_1)
  also have "\<dots> = ALIGN_DOWN ?x 4" by (simp add: and_not_mask_word push_bit_eq_mult drop_bit_eq_div ALIGN_DOWN_def)
  finally have "align4 (p + of_nat n) = ALIGN_DOWN ?x 4" by (simp add: align4_def)
  then have a: "unat (align4 (p + of_nat n)) = (unat p + n + 3) div 4 * 4" by (simp only: unat_ALIGN_DOWN x) simp
  also have "\<dots> = unat p + (n + 3) div 4 * 4" unfolding k by (simp add: add.assoc)
  finally have a: "unat (align4 (p + of_nat n)) = unat p + (n + 3) div 4 * 4" .
  have le: "(n + 3) div 4 * 4 \<le> n + 3" by simp
  have m: "unat (of_nat ((n + 3) div 4 * 4) :: u64) = (n + 3) div 4 * 4" by (rule unat_of_nat_small) (use assms le in simp)
  have "unat (p + of_nat ((n + 3) div 4 * 4)) = unat p + (n + 3) div 4 * 4"
    using assms le by (subst unat_add_no_wrap) (simp_all only: m, simp)
  with a show ?thesis by (simp only: word_unat_eq_iff)
qed

lemma holds_is_at: "holds m p (bytes_of lit @ bs) \<Longrightarrow> is_at m p lit"
  unfolding holds_append by (simp add: is_at_def holds_def list_all_iff)

lemma equals_at_name:
  assumes "holds m p (bytes_of name @ [0])" and "\<forall>c \<in> set name. of_char c \<noteq> (0 :: u8)" and "\<forall>c \<in> set lit. of_char c \<noteq> (0 :: u8)"
  shows "equals_at m p lit \<longleftrightarrow> name = lit"
proof
  assume e: "equals_at m p lit"
  have n: "m (p + of_nat i) = of_char (name ! i)" if "i < length name" for i
    using assms(1) that by (simp add: holds_def nth_append)
  have z: "m (p + of_nat (length name)) = 0" using assms(1) by (simp add: holds_def nth_append)
  have l: "m (p + of_nat i) = of_char (lit ! i)" if "i < length lit" for i
    using e that by (simp add: equals_at_def is_at_def list_all_iff)
  have y: "m (p + of_nat (length lit)) = 0" using e by (simp add: equals_at_def)
  have "\<not> length name < length lit" using z l [of "length name"] assms(3) by (metis nth_mem)
  moreover have "\<not> length lit < length name" using y n [of "length lit"] assms(2) by (metis nth_mem)
  ultimately have "length name = length lit" by simp
  moreover have "name ! i = lit ! i" if "i < length name" for i using n [OF that] l [of i] that calculation by simp
  ultimately show "name = lit" by (simp add: nth_equalityI)
next
  assume "name = lit"
  then show "equals_at m p lit" using assms(1) by (simp add: equals_at_def is_at_def holds_def list_all_iff nth_append)
qed

text \<open>The steps of the reader on the bytes of a file.\<close>

lemma reader_newc:
  assumes h: "holds m p (newc_bytes f)" and ok: "newc_ok f" and al: "4 dvd unat p"
    and fits: "unat p + length (newc_bytes f) \<le> unat e" "unat e < 2 ^ 64 - 4"
  shows "cpio_reader_next m \<lparr>rd_pos = p, rd_end = e\<rparr> =
    (if nf_name f = ''TRAILER!!!''
     then Some (1, \<lparr>rd_pos = p + of_nat (110 + name_len f), rd_end = e\<rparr>, (entry_of p f)\<lparr>ce_name := 0, ce_data := 0\<rparr>)
     else Some (0, \<lparr>rd_pos = p + of_nat (length (newc_bytes f)), rd_end = e\<rparr>, entry_of p f))"
proof -
  let ?n = "length (nf_name f) + 1" and ?d = "length (nf_data f)"
  have hs: "holds m p (newc_header f)" "holds m (p + 110) (newc_name f)"
    using h unfolding newc_bytes_def holds_append by simp_all
  have nm: "holds m (p + 110) (bytes_of (nf_name f) @ [0])" using hs(2) unfolding newc_name_def holds_append by simp
  have magic: "is_at m p ''070701''" using hs(1) unfolding newc_header_def by (rule holds_is_at)
  have len: "length (newc_bytes f) = 110 + name_len f + (?d + 3) div 4 * 4" by (rule length_newc)
  have nl: "110 + ?n \<le> 110 + name_len f" unfolding name_len by linarith
  have dl: "?d \<le> (?d + 3) div 4 * 4" by linarith
  have left: "unat (e - (p + of_nat k)) = unat e - (unat p + k)" if "k \<le> length (newc_bytes f)" for k
  proof -
    have k: "unat (of_nat k :: u64) = k" by (rule unat_of_nat_small) (use that fits in simp)
    have "unat (p + of_nat k) = unat p + k" using that fits k by (subst unat_add_no_wrap) (simp_all add: k)
    then show ?thesis using that fits by (subst unat_sub) (simp_all add: word_le_nat_alt)
  qed
  have un: "unat (of_nat ?n :: u64) = ?n" by (rule unat_of_nat_small) (use ok in \<open>simp add: newc_ok_def\<close>)
  have ud: "unat (of_nat ?d :: u64) = ?d" by (rule unat_of_nat_small) (use ok in \<open>simp add: newc_ok_def\<close>)
  have l0: "\<not> e - p < 110" using left [of 0] fits len by (simp add: word_less_nat_alt)
  have l1: "\<not> e - (p + 110) < of_nat ?n" using left [of 110] fits len nl unfolding word_less_nat_alt un by simp
  have l2: "\<not> e - (p + of_nat (110 + name_len f)) < of_nat ?d"
    using left [of "110 + name_len f"] fits len dl unfolding word_less_nat_alt ud by simp
  have a1: "align4 (p + of_nat (110 + ?n)) = p + of_nat (110 + name_len f)"
  proof -
    have "unat p + (110 + ?n) + 3 < 2 ^ 64" using fits len nl by simp
    from align4_next [OF al this] show ?thesis by (simp only: name_len)
  qed
  have up: "unat (p + of_nat (110 + name_len f)) = unat p + (110 + name_len f)"
  proof -
    have "unat (of_nat (110 + name_len f) :: u64) = 110 + name_len f" by (rule unat_of_nat_small) (use fits len in simp)
    then show ?thesis using fits len by (subst unat_add_no_wrap) simp_all
  qed
  have a2: "align4 (p + of_nat (110 + name_len f) + of_nat ?d) = p + of_nat (length (newc_bytes f))"
  proof -
    have "4 dvd unat (p + of_nat (110 + name_len f))" unfolding up using al newc_aligned(1) [of f] by (rule dvd_add)
    moreover have "unat (p + of_nat (110 + name_len f)) + ?d + 3 < 2 ^ 64" unfolding up using fits len dl by simp
    ultimately have "align4 (p + of_nat (110 + name_len f) + of_nat ?d) = p + of_nat (110 + name_len f) + of_nat ((?d + 3) div 4 * 4)"
      by (rule align4_next)
    then show ?thesis by (simp only: len of_nat_add add.assoc)
  qed
  have z: "m (p + 110 + (of_nat ?n - 1)) = 0" using nm by (simp add: holds_def nth_append)
  have lit: "\<forall>c \<in> set ''TRAILER!!!''. of_char c \<noteq> (0 :: u8)" by simp
  have t: "equals_at m (p + 110) ''TRAILER!!!'' \<longleftrightarrow> nf_name f = ''TRAILER!!!''"
    by (rule equals_at_name [OF nm _ lit]) (use ok in \<open>simp add: newc_ok_def\<close>)
  have p1: "p + 6 + 13 * 8 = p + 110" "p + 110 + of_nat ?n = p + of_nat (110 + ?n)" by simp_all
  let ?e = "(entry_of p f)\<lparr>ce_name := 0, ce_data := 0\<rparr>"
  have e: "ce_namesize ?e = of_nat ?n" "ce_filesize (?e\<lparr>ce_name := p + 110\<rparr>) = of_nat ?d"
    "?e\<lparr>ce_name := p + 110, ce_data := p + of_nat (110 + name_len f)\<rparr> = entry_of p f"
    by (simp_all add: entry_of_def)
  show ?thesis
    unfolding cpio_reader_next_def cpio_reader.simps if_not_P [OF l0] read_header_newc [OF hs(1) ok] Let_def bind.simps
      p1(1) e(1,2) if_not_P [OF l1] p1(2) a1 if_not_P [OF l2] a2 e(3) t
    using magic z by simp
qed

section \<open>The table of entries\<close>

text \<open>An array at \<open>q\<close> with room for \<open>cap\<close> entries, of which the first are \<open>es\<close>, in a heap whose other objects are
  \<open>L\<close>; the capacity can still be doubled up to sixteen.\<close>

definition table :: "fs \<Rightarrow> (u64 \<Rightarrow> nat option) \<Rightarrow> u64 \<Rightarrow> nat \<Rightarrow> cpio_entry list \<Rightarrow> bool" where
  "table s L q cap es \<longleftrightarrow> L q = None \<and> (\<exists>c k. fs_ready s (L(q \<mapsto> c)) k \<and> cap * 128 \<le> c \<and> c \<le> 2048 \<and> cap * 2 ^ k = 16) \<and>
     length es \<le> cap \<and> (\<forall>j < length es. get_entry (fs_mem s) (entry_addr q j) = es ! j)"

lemma table_prefix: "table s L q cap (es @ fs) \<Longrightarrow> table s L q cap es"
  by (auto simp: table_def nth_append)

lemma entry_addr_offset: "entry_addr q j + of_nat b = q + of_nat (128 * j + b)"
  by (simp add: entry_addr_def SIZEOF_CPIO_ENTRY_def algebra_simps)

lemma table_grow:
  assumes "table s L q cap es" and "length es = cap" and "cap < 16"
  obtains q' t where "heap_op (krealloc me q (2 * of_nat cap * SIZEOF_CPIO_ENTRY)) s = Some (q', t)" "q' \<noteq> NULL"
    "table t L q' (2 * cap) es" "same_fs s t" "bytes_kept L (fs_mem s) (fs_mem t)"
proof -
  from assms(1) obtain c k where c: "L q = None" "fs_ready s (L(q \<mapsto> c)) k" "cap * 128 \<le> c" "c \<le> 2048" "cap * 2 ^ k = 16"
    "\<forall>j < length es. get_entry (fs_mem s) (entry_addr q j) = es ! j" by (auto simp: table_def)
  obtain l where l: "k = Suc l" using c(5) assms(3) by (cases k) auto
  then have cap: "2 * cap * 2 ^ l = 16" using c(5) by simp
  have "2 * cap * 1 \<le> 2 * cap * 2 ^ l" by (intro mult_le_mono2) simp
  then have c16: "2 * cap \<le> 16" unfolding cap by simp
  have c0: "0 < cap" using c(5) by (cases cap) auto
  have sz: "unat (2 * of_nat cap * SIZEOF_CPIO_ENTRY :: u64) = 2 * cap * 128"
  proof -
    have "2 * of_nat cap * SIZEOF_CPIO_ENTRY = (of_nat (2 * cap * 128) :: u64)" by (simp add: SIZEOF_CPIO_ENTRY_def)
    moreover have "unat (of_nat (2 * cap * 128) :: u64) = 2 * cap * 128" by (rule unat_of_nat_small) (use c16 in simp)
    ultimately show ?thesis by (simp only:)
  qed
  have h: "heap (hp s) (L(q \<mapsto> c))" "room (hp s) (Suc l)" using c(2) l by (simp_all add: fs_ready_def)
  have Lq: "(L(q \<mapsto> c)) q = Some c" by simp
  have s0: "0 < unat (2 * of_nat cap * SIZEOF_CPIO_ENTRY :: u64)" "unat (2 * of_nat cap * SIZEOF_CPIO_ENTRY :: u64) \<le> 2048"
    unfolding sz using c0 c16 by simp_all
  obtain q' h' d where q': "krealloc me q (2 * of_nat cap * SIZEOF_CPIO_ENTRY) (hp s) = Some (q', h')" "q' \<noteq> NULL"
    "q' = q \<or> (L(q \<mapsto> c)) q' = None" "unat (2 * of_nat cap * SIZEOF_CPIO_ENTRY :: u64) \<le> d" "d \<le> 2048"
    "heap h' (L(q \<mapsto> c, q := None, q' \<mapsto> d))" "\<forall>i < c. heap_mem h' (q' + of_nat i) = heap_mem (hp s) (q + of_nat i)"
    "bytes_kept (L(q \<mapsto> c, q := None)) (heap_mem (hp s)) (heap_mem h')" "room h' l"
    by (rule krealloc_small [OF h(1) Lq c(4) s0 h(2)])
  let ?t = "s\<lparr>hp := h'\<rparr>"
  have L: "L(q \<mapsto> c, q := None) = L" using c(1) by auto
  have n: "L q' = None" using q'(3) c(1) by (auto split: if_splits)
  have "get_entry (fs_mem ?t) (entry_addr q' j) = es ! j" if j: "j < length es" for j
  proof -
    have "get_entry (fs_mem ?t) (entry_addr q' j) = get_entry (fs_mem s) (entry_addr q j)"
    proof (intro get_entry_cong)
      fix b :: nat
      assume "b < 128"
      then have "128 * j + b < c" using j c(3) assms(2) by linarith
      then have "heap_mem h' (q' + of_nat (128 * j + b)) = heap_mem (hp s) (q + of_nat (128 * j + b))" using q'(7) by blast
      then show "fs_mem ?t (entry_addr q' j + of_nat b) = fs_mem s (entry_addr q j + of_nat b)"
        unfolding entry_addr_offset by (simp add: fs_mem_def)
    qed
    then show ?thesis using c(6) j by simp
  qed
  moreover have "fs_ready ?t (L(q' \<mapsto> d)) l" using q'(6) [unfolded L] q'(9) by (simp add: fs_ready_def)
  ultimately have "table ?t L q' (2 * cap) es" using n q'(4,5) cap assms(2) unfolding table_def sz by auto
  moreover have "bytes_kept L (fs_mem s) (fs_mem ?t)" using q'(8) unfolding L by (simp add: fs_mem_def)
  ultimately show thesis using q'(1,2) by (intro that [of q' ?t]) (simp_all add: heap_op_def)
qed

lemma table_store:
  fixes e :: cpio_entry
  assumes "table s L q cap es" and "length es < cap"
  defines "t \<equiv> set_mem (put_entry (entry_addr q (length es)) e (fs_mem s)) s"
  shows "table t L q cap (es @ [e])" "same_fs s t" "bytes_kept L (fs_mem s) (fs_mem t)"
proof -
  let ?i = "length es" and ?a = "entry_addr q (length es)"
  from assms(1) obtain c k where c: "L q = None" "fs_ready s (L(q \<mapsto> c)) k" "cap * 128 \<le> c" "c \<le> 2048" "cap * 2 ^ k = 16"
    "\<forall>j < length es. get_entry (fs_mem s) (entry_addr q j) = es ! j" by (auto simp: table_def)
  have h: "heap (hp s) (L(q \<mapsto> c))" using c(2) by (simp add: fs_ready_def)
  have m: "fs_mem t = put_entry ?a e (fs_mem s)" by (simp add: t_def fs_mem_def set_mem_def)
  show "same_fs s t" unfolding t_def same_fs_mem by simp
  have room: "128 * ?i + 128 \<le> c" using assms(2) c(3) by simp
  show "bytes_kept L (fs_mem s) (fs_mem t)"
  proof (rule bytes_kept_outside [OF h c(1)])
    fix a
    assume a: "c \<le> unat (a - q)"
    have u: "unat (of_nat (128 * ?i) :: u64) = 128 * ?i" by (rule unat_of_nat_small) (use room c(4) in simp)
    have "a - ?a = (a - q) - of_nat (128 * ?i)" using entry_addr_offset [of q ?i 0] by (simp add: algebra_simps)
    then have "unat (a - ?a) = unat (a - q) - 128 * ?i"
      using a room u by (simp only: unat_sub word_le_nat_alt u)
    then show "fs_mem t a = fs_mem s a" unfolding m using a room by (intro put_entry_outside) simp
  qed
  have "get_entry (fs_mem t) (entry_addr q j) = (es @ [e]) ! j" if "j < Suc ?i" for j
  proof (cases "j = ?i")
    case True
    then show ?thesis unfolding m by (simp add: get_put_entry)
  next
    case False
    then have j: "j < ?i" using that by simp
    have "get_entry (fs_mem t) (entry_addr q j) = get_entry (fs_mem s) (entry_addr q j)" unfolding m
    proof (intro get_entry_cong put_entry_outside)
      fix b :: nat
      assume b: "b < 128"
      define d where "d = 128 * ?i - (128 * j + b)"
      have d: "0 < d" "d \<le> 4096" using b j room c(4) by (auto simp: d_def)
      have "entry_addr q j + of_nat b - ?a + of_nat d = 0"
        using j b by (simp add: entry_addr_def SIZEOF_CPIO_ENTRY_def d_def of_nat_diff algebra_simps)
      from back_far [OF this d] show "128 \<le> unat (entry_addr q j + of_nat b - ?a)" by simp
    qed
    then show ?thesis using c(6) j by (simp add: nth_append)
  qed
  moreover have "fs_ready t (L(q \<mapsto> c)) k" using c(2) by (simp add: fs_ready_def t_def set_mem_def)
  ultimately show "table t L q cap (es @ [e])" using c(1,3-5) assms(2) by (auto simp: table_def)
qed

lemma kzalloc_small_object:
  assumes "heap (hp s) L" and "0 < unat n" and "unat n \<le> 2048" and "heap_op (kzalloc me n) s = Some (q, t)" and "q \<noteq> NULL"
    and "heap (hp t) M" and "M q = Some c"
  shows "c \<le> 2048"
proof -
  obtain h where k: "kmalloc me n (hp s) = Some (q, h)" and "hp t = h\<lparr>heap_mem := memset (heap_mem h) q 0 n\<rparr>"
    using assms(4,5) by (auto simp: heap_op_def kzalloc_def map_option_eq_Some split: if_splits)
  then have "heap h M" using assms(6) by simp
  from kmalloc_small_object [OF assms(1-3) k assms(5) this assms(7)] show ?thesis .
qed

section \<open>Parsing an archive\<close>

fun layout :: "u64 \<Rightarrow> newc_file list \<Rightarrow> cpio_entry list" where
  "layout p [] = []"
| "layout p (f # fs) = entry_of p f # layout (p + of_nat (length (newc_bytes f))) fs"

lemma length_layout [simp]: "length (layout p fs) = length fs"
  by (induction fs arbitrary: p) auto

definition plain_file :: "newc_file \<Rightarrow> bool" where
  "plain_file f \<longleftrightarrow> newc_ok f \<and> nf_name f \<noteq> ''TRAILER!!!''"

definition archive :: "newc_file list \<Rightarrow> newc_file \<Rightarrow> u8 list \<Rightarrow> u8 list" where
  "archive fs tr rest = concat (map newc_bytes fs) @ newc_bytes tr @ rest"

text \<open>One turn of the loop up to the reader: the table has room for one more entry.\<close>

lemma parse_turn:
  assumes "table s L q cap es" and "length es < 16" and pos: "rd_pos r < rd_end r"
  obtains q' cap' t where
    "parse_loop me r (of_nat cap) \<lparr>ar_entries = q, ar_entry_count = of_nat (length es), ar_data = data, ar_size = sz\<rparr> s =
      (cpio_reader_next (fs_mem t) r \<bind> (\<lambda>(res, r, e). let
         ar = \<lparr>ar_entries = q', ar_entry_count = of_nat (length es), ar_data = data, ar_size = sz\<rparr>;
         u = set_mem (put_entry (entry_addr q' (length es)) e (fs_mem t)) t
       in if res = 1 then Some ((0, ar), u) else if res < 0 then Some ((-1, ar), u)
          else parse_loop me r (of_nat cap') (ar\<lparr>ar_entry_count := of_nat (length es) + 1\<rparr>) u))"
    "table t L q' cap' es" "length es < cap'" "same_fs s t" "bytes_kept L (fs_mem s) (fs_mem t)"
proof -
  note result = that
  let ?ar = "\<lambda>q. \<lparr>ar_entries = q, ar_entry_count = of_nat (length es), ar_data = data, ar_size = sz\<rparr>"
  have cap: "cap * 2 ^ k = 16 \<Longrightarrow> cap \<le> 16" for k
    using mult_le_mono2 [of 1 "2 ^ k" cap] by simp
  have le: "length es \<le> cap" "cap \<le> 16" using assms(1) cap by (auto simp: table_def)
  have eq: "(of_nat (length es) :: u64) = of_nat cap \<longleftrightarrow> length es = cap"
  proof -
    have "unat (of_nat (length es) :: u64) = length es" "unat (of_nat cap :: u64) = cap"
      by (rule unat_of_nat_small, use le in simp)+
    then show ?thesis by metis
  qed
  show thesis
  proof (cases "length es = cap")
    case True
    then have c16: "cap < 16" using assms(2) by simp
    obtain q' t where t: "heap_op (krealloc me q (2 * of_nat cap * SIZEOF_CPIO_ENTRY)) s = Some (q', t)" "q' \<noteq> NULL"
      "table t L q' (2 * cap) es" "same_fs s t" "bytes_kept L (fs_mem s) (fs_mem t)"
      by (rule table_grow [OF assms(1) True c16])
    have c2: "length es < 2 * cap" using t(3) True by (auto simp: table_def)
    have n: "(2 * of_nat cap :: u64) = of_nat (2 * cap)" by simp
    show thesis
    proof (rule result [OF _ t(3) c2 t(4,5)])
      show "parse_loop me r (of_nat cap) (?ar q) s = (cpio_reader_next (fs_mem t) r \<bind> (\<lambda>(res, r, e). let
         ar = ?ar q'; u = set_mem (put_entry (entry_addr q' (length es)) e (fs_mem t)) t
       in if res = 1 then Some ((0, ar), u) else if res < 0 then Some ((-1, ar), u)
          else parse_loop me r (of_nat (2 * cap)) (ar\<lparr>ar_entry_count := of_nat (length es) + 1\<rparr>) u))"
        unfolding parse_loop.simps [of me r] n [symmetric] using pos True t(1,2)
        by (cases "cpio_reader_next (fs_mem t) r") (auto simp: Let_def entry_addr_def)
    qed
  next
    case False
    show thesis
    proof (rule result [OF _ assms(1) _ same_fs_refl])
      show "parse_loop me r (of_nat cap) (?ar q) s = (cpio_reader_next (fs_mem s) r \<bind> (\<lambda>(res, r, e). let
         ar = ?ar q; u = set_mem (put_entry (entry_addr q (length es)) e (fs_mem s)) s
       in if res = 1 then Some ((0, ar), u) else if res < 0 then Some ((-1, ar), u)
          else parse_loop me r (of_nat cap) (ar\<lparr>ar_entry_count := of_nat (length es) + 1\<rparr>) u))"
        unfolding parse_loop.simps [of me r "of_nat cap" "?ar q"] using pos False eq
        by (cases "cpio_reader_next (fs_mem s) r") (auto simp: Let_def entry_addr_def)
    qed (use le False in \<open>simp_all add: bytes_kept_def\<close>)
  qed
qed

lemma reader_at:
  assumes "unat data + unat sz + 4 < 2 ^ 64" and "4 dvd unat data" and "4 dvd n"
    and "holds m (data + of_nat n) (newc_bytes g @ bs)" and "n + length (newc_bytes g @ bs) = unat sz" and "newc_ok g"
  shows "data + of_nat n < data + sz"
    and "cpio_reader_next m \<lparr>rd_pos = data + of_nat n, rd_end = data + sz\<rparr> =
      (if nf_name g = ''TRAILER!!!''
       then Some (1, \<lparr>rd_pos = data + of_nat n + of_nat (110 + name_len g), rd_end = data + sz\<rparr>,
              (entry_of (data + of_nat n) g)\<lparr>ce_name := 0, ce_data := 0\<rparr>)
       else Some (0, \<lparr>rd_pos = data + of_nat (n + length (newc_bytes g)), rd_end = data + sz\<rparr>, entry_of (data + of_nat n) g))"
proof -
  have n: "unat (of_nat n :: u64) = n" by (rule unat_of_nat_small) (use assms in simp)
  have p: "unat (data + of_nat n) = unat data + n" using assms by (subst unat_add_no_wrap) (simp_all add: n)
  have e: "unat (data + sz) = unat data + unat sz" using assms by (subst unat_add_no_wrap) simp_all
  have len: "0 < length (newc_bytes g)" by (simp add: length_newc)
  then have "n < unat sz" using assms(5) unfolding length_append by linarith
  then show "data + of_nat n < data + sz" unfolding word_less_nat_alt p e by simp
  have "holds m (data + of_nat n) (newc_bytes g)" using assms(4) unfolding holds_append by simp
  moreover have "4 dvd unat (data + of_nat n)" unfolding p using assms(2,3) by (rule dvd_add)
  moreover have "unat (data + of_nat n) + length (newc_bytes g) \<le> unat (data + sz)" using assms(5) unfolding p e by simp
  moreover have "unat (data + sz) < 2 ^ 64 - 4" using assms(1) unfolding e by simp
  ultimately show "cpio_reader_next m \<lparr>rd_pos = data + of_nat n, rd_end = data + sz\<rparr> =
      (if nf_name g = ''TRAILER!!!''
       then Some (1, \<lparr>rd_pos = data + of_nat n + of_nat (110 + name_len g), rd_end = data + sz\<rparr>,
              (entry_of (data + of_nat n) g)\<lparr>ce_name := 0, ce_data := 0\<rparr>)
       else Some (0, \<lparr>rd_pos = data + of_nat (n + length (newc_bytes g)), rd_end = data + sz\<rparr>, entry_of (data + of_nat n) g))"
    by (subst reader_newc [OF _ assms(6)]) (simp_all only: of_nat_add add.assoc)
qed

lemma archive_kept:
  assumes "holds m (data + of_nat n) bs" and "bytes_kept L m m'" and "L data = Some d" and "n + length bs \<le> d"
  shows "holds m' (data + of_nat n) bs"
proof (rule holds_kept [OF assms(1)])
  fix i
  assume "i < length bs"
  then have "n + i < d" using assms(4) by simp
  then have "m' (data + of_nat (n + i)) = m (data + of_nat (n + i))" using assms(2,3) unfolding bytes_kept_def by blast
  then show "m' (data + of_nat n + of_nat i) = m (data + of_nat n + of_nat i)" by (simp add: add.assoc)
qed

lemma parse_files:
  assumes "table s L q cap es" and "length es + length fs < 16" and "\<forall>f \<in> set fs. plain_file f" and "trailer tr"
    and "L data = Some d" and "unat sz \<le> d" and "unat data + d + 4 < 2 ^ 64" and "4 dvd unat data" and "4 dvd n"
    and "holds (fs_mem s) (data + of_nat n) (archive fs tr rest)" and "n + length (archive fs tr rest) = unat sz"
  shows "\<exists>q' t. parse_loop me \<lparr>rd_pos = data + of_nat n, rd_end = data + sz\<rparr> (of_nat cap)
      \<lparr>ar_entries = q, ar_entry_count = of_nat (length es), ar_data = data, ar_size = sz\<rparr> s =
      Some ((0, \<lparr>ar_entries = q', ar_entry_count = of_nat (length es + length fs), ar_data = data, ar_size = sz\<rparr>), t) \<and>
    (\<exists>cap'. table t L q' cap' (es @ layout (data + of_nat n) fs)) \<and> same_fs s t \<and> bytes_kept L (fs_mem s) (fs_mem t)"
  using assms
proof (induction fs arbitrary: s q cap es n)
  case Nil
  note a = Nil.prems
  have fit: "unat data + unat sz + 4 < 2 ^ 64" using a(6,7) by simp
  have h: "holds (fs_mem s) (data + of_nat n) (newc_bytes tr @ rest)" "n + length (newc_bytes tr @ rest) = unat sz"
    using a(10,11) by (simp_all add: archive_def)
  have tr: "newc_ok tr" "nf_name tr = ''TRAILER!!!''" using a(4) by (simp_all add: trailer_def)
  have es: "length es < 16" using a(2) by simp
  have pos: "rd_pos \<lparr>rd_pos = data + of_nat n, rd_end = data + sz\<rparr> < rd_end \<lparr>rd_pos = data + of_nat n, rd_end = data + sz\<rparr>"
    using reader_at(1) [OF fit a(8,9) h tr(1)] by simp
  obtain q' cap' t where t: "parse_loop me \<lparr>rd_pos = data + of_nat n, rd_end = data + sz\<rparr> (of_nat cap)
      \<lparr>ar_entries = q, ar_entry_count = of_nat (length es), ar_data = data, ar_size = sz\<rparr> s =
      (cpio_reader_next (fs_mem t) \<lparr>rd_pos = data + of_nat n, rd_end = data + sz\<rparr> \<bind> (\<lambda>(res, r, e). let
         ar = \<lparr>ar_entries = q', ar_entry_count = of_nat (length es), ar_data = data, ar_size = sz\<rparr>;
         u = set_mem (put_entry (entry_addr q' (length es)) e (fs_mem t)) t
       in if res = 1 then Some ((0, ar), u) else if res < 0 then Some ((-1, ar), u)
          else parse_loop me r (of_nat cap') (ar\<lparr>ar_entry_count := of_nat (length es) + 1\<rparr>) u))"
    "table t L q' cap' es" "length es < cap'" "same_fs s t" "bytes_kept L (fs_mem s) (fs_mem t)"
    by (rule parse_turn [OF a(1) es pos])
  have "n + length (newc_bytes tr @ rest) \<le> d" using h(2) a(6) by simp
  from archive_kept [OF h(1) t(5) a(5) this] have ht: "holds (fs_mem t) (data + of_nat n) (newc_bytes tr @ rest)" .
  let ?e = "(entry_of (data + of_nat n) tr)\<lparr>ce_name := 0, ce_data := 0\<rparr>"
  let ?u = "set_mem (put_entry (entry_addr q' (length es)) ?e (fs_mem t)) t"
  note st = table_store [OF t(2,3), of ?e]
  have "table ?u L q' cap' es" by (rule table_prefix [OF st(1)])
  moreover have "same_fs s ?u" by (rule same_fs_trans [OF t(4) st(2)])
  moreover have "bytes_kept L (fs_mem s) (fs_mem ?u)" by (rule bytes_kept_trans [OF t(5) st(3)])
  ultimately show ?case unfolding t(1) reader_at(2) [OF fit a(8,9) ht h(2) tr(1)] using tr(2)
    by (auto simp: Let_def intro!: exI [of _ cap'])
next
  case (Cons f fs)
  note a = Cons.prems
  let ?bs = "archive fs tr rest" and ?n = "n + length (newc_bytes f)"
  have fit: "unat data + unat sz + 4 < 2 ^ 64" using a(6,7) by simp
  have h: "holds (fs_mem s) (data + of_nat n) (newc_bytes f @ ?bs)" "n + length (newc_bytes f @ ?bs) = unat sz"
    using a(10,11) by (simp_all add: archive_def)
  have f: "newc_ok f" "nf_name f \<noteq> ''TRAILER!!!''" using a(3) by (simp_all add: plain_file_def)
  have es: "length es < 16" using a(2) by simp
  have pos: "rd_pos \<lparr>rd_pos = data + of_nat n, rd_end = data + sz\<rparr> < rd_end \<lparr>rd_pos = data + of_nat n, rd_end = data + sz\<rparr>"
    using reader_at(1) [OF fit a(8,9) h f(1)] by simp
  obtain q' cap' t where t: "parse_loop me \<lparr>rd_pos = data + of_nat n, rd_end = data + sz\<rparr> (of_nat cap)
      \<lparr>ar_entries = q, ar_entry_count = of_nat (length es), ar_data = data, ar_size = sz\<rparr> s =
      (cpio_reader_next (fs_mem t) \<lparr>rd_pos = data + of_nat n, rd_end = data + sz\<rparr> \<bind> (\<lambda>(res, r, e). let
         ar = \<lparr>ar_entries = q', ar_entry_count = of_nat (length es), ar_data = data, ar_size = sz\<rparr>;
         u = set_mem (put_entry (entry_addr q' (length es)) e (fs_mem t)) t
       in if res = 1 then Some ((0, ar), u) else if res < 0 then Some ((-1, ar), u)
          else parse_loop me r (of_nat cap') (ar\<lparr>ar_entry_count := of_nat (length es) + 1\<rparr>) u))"
    "table t L q' cap' es" "length es < cap'" "same_fs s t" "bytes_kept L (fs_mem s) (fs_mem t)"
    by (rule parse_turn [OF a(1) es pos])
  have nd: "n + length (newc_bytes f @ ?bs) \<le> d" using h(2) a(6) by simp
  from archive_kept [OF h(1) t(5) a(5) nd] have ht: "holds (fs_mem t) (data + of_nat n) (newc_bytes f @ ?bs)" .
  let ?e = "entry_of (data + of_nat n) f"
  let ?u = "set_mem (put_entry (entry_addr q' (length es)) ?e (fs_mem t)) t"
  note st = table_store [OF t(2,3), of ?e]
  have hu: "holds (fs_mem ?u) (data + of_nat ?n) ?bs"
    using archive_kept [OF ht st(3) a(5) nd] unfolding holds_append by (simp add: add.assoc)
  have step: "parse_loop me \<lparr>rd_pos = data + of_nat n, rd_end = data + sz\<rparr> (of_nat cap)
      \<lparr>ar_entries = q, ar_entry_count = of_nat (length es), ar_data = data, ar_size = sz\<rparr> s =
    parse_loop me \<lparr>rd_pos = data + of_nat ?n, rd_end = data + sz\<rparr> (of_nat cap')
      \<lparr>ar_entries = q', ar_entry_count = of_nat (length (es @ [?e])), ar_data = data, ar_size = sz\<rparr> ?u"
    unfolding t(1) reader_at(2) [OF fit a(8,9) ht h(2) f(1)] using f(2) by (simp add: Let_def add.commute)
  have "\<exists>q'' v. parse_loop me \<lparr>rd_pos = data + of_nat ?n, rd_end = data + sz\<rparr> (of_nat cap')
      \<lparr>ar_entries = q', ar_entry_count = of_nat (length (es @ [?e])), ar_data = data, ar_size = sz\<rparr> ?u =
      Some ((0, \<lparr>ar_entries = q'', ar_entry_count = of_nat (length (es @ [?e]) + length fs), ar_data = data, ar_size = sz\<rparr>), v) \<and>
    (\<exists>cap''. table v L q'' cap'' ((es @ [?e]) @ layout (data + of_nat ?n) fs)) \<and> same_fs ?u v \<and> bytes_kept L (fs_mem ?u) (fs_mem v)"
  proof (rule Cons.IH [OF st(1) _ _ a(4-8) _ hu])
    show "4 dvd ?n" using a(9) newc_aligned(2) by (rule dvd_add)
  qed (use a(2,3) h(2) in simp_all)
  then obtain q'' v cap'' where v: "parse_loop me \<lparr>rd_pos = data + of_nat ?n, rd_end = data + sz\<rparr> (of_nat cap')
      \<lparr>ar_entries = q', ar_entry_count = of_nat (length (es @ [?e])), ar_data = data, ar_size = sz\<rparr> ?u =
      Some ((0, \<lparr>ar_entries = q'', ar_entry_count = of_nat (length (es @ [?e]) + length fs), ar_data = data, ar_size = sz\<rparr>), v)"
    "table v L q'' cap'' ((es @ [?e]) @ layout (data + of_nat ?n) fs)" "same_fs ?u v" "bytes_kept L (fs_mem ?u) (fs_mem v)"
    by blast
  have "(es @ [?e]) @ layout (data + of_nat ?n) fs = es @ layout (data + of_nat n) (f # fs)" by (simp add: add.assoc)
  moreover have "same_fs s v" by (rule same_fs_trans [OF same_fs_trans [OF t(4) st(2)] v(3)])
  moreover have "bytes_kept L (fs_mem s) (fs_mem v)" by (rule bytes_kept_trans [OF bytes_kept_trans [OF t(5) st(3)] v(4)])
  moreover have "length (es @ [?e]) + length fs = length es + length (f # fs)" by simp
  ultimately show ?case unfolding step v(1) using v(2) by (intro exI conjI) (rule refl | simp only:)+
qed

lemma layout_holds:
  assumes "holds m p (concat (map newc_bytes fs) @ bs)" and "i < length fs"
  shows "holds m (ce_name (layout p fs ! i)) (bytes_of (nf_name (fs ! i)) @ [0]) \<and>
    holds m (ce_data (layout p fs ! i)) (nf_data (fs ! i))"
  using assms
proof (induction fs arbitrary: p i)
  case (Cons f fs)
  have h: "holds m p (newc_bytes f)" "holds m (p + of_nat (length (newc_bytes f))) (concat (map newc_bytes fs) @ bs)"
    using Cons.prems(1) by (simp_all add: holds_append add.assoc)
  show ?case
  proof (cases i)
    case 0
    have "holds m (p + 110) (newc_name f)" "holds m (p + 110 + of_nat (name_len f)) (nf_data f)"
      using h(1) unfolding newc_bytes_def holds_append by (simp_all add: name_len_def)
    moreover have "holds m (p + 110) (bytes_of (nf_name f) @ [0])"
      using calculation(1) unfolding newc_name_def holds_append by simp
    ultimately show ?thesis using 0 by (simp add: entry_of_def add.assoc)
  next
    case (Suc j)
    with Cons.IH [OF h(2), of j] Cons.prems(2) show ?thesis by simp
  qed
qed simp

section \<open>Properties\<close>

text \<open>
  C37. Parsing an encoded archive of at most fifteen files gives back its files: when the archive lies in a live object
  of the heap and three frames are free for the table, \<open>cpio_archive_parse\<close> returns 0, the
  table has one entry per file before the trailer, with the numbers of its header, and the name
  and data pointers of each entry lead to the name, with its terminator, and to the contents of the
  file. The objects of the heap, among them the archive, keep their bytes. Up to fifteen files the table fits into
  the slab caches; it grows twice on the way.
\<close>
theorem cpio_parse_roundtrip:
  assumes "fs_ready s L 3" and "L data = Some d" and "unat sz \<le> d" and "holds (fs_mem s) data (archive fs tr rest)"
    and "length (archive fs tr rest) = unat sz" and "\<forall>f \<in> set fs. plain_file f" and "trailer tr" and "length fs < 16"
  shows "\<exists>ar t c. cpio_archive_parse me (Some a) data sz s = Some ((0, Some ar), t) \<and> ar_entry_count ar = of_nat (length fs) \<and>
    map (\<lambda>i. get_entry (fs_mem t) (entry_addr (ar_entries ar) i)) [0 ..< length fs] = layout data fs \<and>
    (\<forall>i < length fs. holds (fs_mem t) (ce_name (layout data fs ! i)) (bytes_of (nf_name (fs ! i)) @ [0]) \<and>
      holds (fs_mem t) (ce_data (layout data fs ! i)) (nf_data (fs ! i))) \<and>
    bytes_kept L (fs_mem s) (fs_mem t) \<and> heap (hp t) (L(ar_entries ar \<mapsto> c))"
proof -
  have h: "heap (hp s) L" using assms(1) by (simp add: fs_ready_def)
  have sz: "0 < unat sz" using assms(5) by (simp add: archive_def length_newc)
  have r3: "fs_ready s L (Suc 2)" using assms(1) by (simp add: numeral_3_eq_3)
  obtain q t c where t: "heap_op (kzalloc me (4 * SIZEOF_CPIO_ENTRY)) s = Some (q, t)" "q \<noteq> NULL" "L q = None"
    "unat (4 * SIZEOF_CPIO_ENTRY) \<le> c" "fs_ready t (L(q \<mapsto> c)) 2" "bytes_kept L (fs_mem s) (fs_mem t)" "same_fs s t"
    by (rule new_object [OF r3, where n = "4 * SIZEOF_CPIO_ENTRY" and me = me]) (simp_all add: SIZEOF_CPIO_ENTRY_def)
  have c: "c \<le> 2048" by (rule kzalloc_small_object [OF h _ _ t(1,2), of "L(q \<mapsto> c)"]) (use t(5) in \<open>simp_all add: SIZEOF_CPIO_ENTRY_def fs_ready_def\<close>)
  have "\<exists>c k. fs_ready t (L(q \<mapsto> c)) k \<and> 4 * 128 \<le> c \<and> c \<le> 2048 \<and> 4 * 2 ^ k = (16 :: nat)"
    using t(4,5) c by (intro exI [of _ c] exI [of _ 2]) (simp add: SIZEOF_CPIO_ENTRY_def)
  then have tab: "table t L q 4 []" using t(3) by (simp add: table_def)
  have ht: "holds (fs_mem t) (data + of_nat 0) (archive fs tr rest)"
    using archive_kept [of "fs_mem s" data 0 "archive fs tr rest" L "fs_mem t" d] assms t(6) by simp
  have fit: "unat data + d + 4 < 2 ^ 64" using object_end [OF h assms(2)] by simp
  have al: "4 dvd unat data" using object_size_bound(5) [OF h assms(2)] dvd_trans [of 4 16 "unat data"] by simp
  obtain q' u cap where u: "parse_loop me \<lparr>rd_pos = data, rd_end = data + sz\<rparr> 4
      \<lparr>ar_entries = q, ar_entry_count = 0, ar_data = data, ar_size = sz\<rparr> t =
      Some ((0, \<lparr>ar_entries = q', ar_entry_count = of_nat (length fs), ar_data = data, ar_size = sz\<rparr>), u)"
    "table u L q' cap (layout data fs)" "bytes_kept L (fs_mem t) (fs_mem u)"
    using parse_files [OF tab _ assms(6,7,2,3) fit al _ ht, of me] assms(5,8) by auto
  have bk: "bytes_kept L (fs_mem s) (fs_mem u)" by (rule bytes_kept_trans [OF t(6) u(3)])
  have "holds (fs_mem u) data (archive fs tr rest)"
    using archive_kept [of "fs_mem s" data 0 "archive fs tr rest" L "fs_mem u" d] assms bk by simp
  note names = layout_holds [OF this [unfolded archive_def]]
  have "map (\<lambda>i. get_entry (fs_mem u) (entry_addr q' i)) [0 ..< length fs] = layout data fs"
    by (rule nth_equalityI) (use u(2) in \<open>simp_all add: table_def\<close>)
  moreover obtain c' where "heap (hp u) (L(q' \<mapsto> c'))" using u(2) by (auto simp: table_def fs_ready_def)
  moreover have "data \<noteq> NULL" by (rule object_size_bound(3) [OF h assms(2)])
  moreover have "sz \<noteq> 0" using sz by auto
  ultimately show ?thesis using t(1,2) u(1) bk names by (auto simp: cpio_archive_parse_def)
qed

definition example_file :: "string \<Rightarrow> u8 list \<Rightarrow> newc_file" where
  "example_file name bs = \<lparr>nf_ino = 7, nf_mode = 0x81A4, nf_uid = 1, nf_gid = 2, nf_nlink = 1, nf_mtime = 0, nf_devmajor = 0,
     nf_devminor = 0, nf_rdevmajor = 0, nf_rdevminor = 0, nf_check = 0, nf_name = name, nf_data = bs\<rparr>"

definition put_bytes :: "u64 \<Rightarrow> u8 list \<Rightarrow> mem \<Rightarrow> mem" where
  "put_bytes p bs m = (\<lambda>a. if unat (a - p) < length bs then bs ! unat (a - p) else m a)"

lemma holds_put_bytes: "length bs < 2 ^ 64 \<Longrightarrow> holds (put_bytes p bs m) p bs"
  by (simp add: holds_def put_bytes_def unat_of_nat)

theorem cpio_parse_roundtrip_witness:
  "\<exists>s data ar t. holds (fs_mem s) data (archive [example_file ''a'' [104, 105]] (example_file ''TRAILER!!!'' []) []) \<and>
     cpio_archive_parse 0 (Some \<lparr>ar_entries = 0, ar_entry_count = 0, ar_data = 0, ar_size = 0\<rparr>) data 240 s = Some ((0, Some ar), t) \<and>
     ar_entry_count ar = 1 \<and> ce_filesize (get_entry (fs_mem t) (entry_addr (ar_entries ar) 0)) = 2"
proof -
  let ?f = "example_file ''a'' [104, 105]" and ?tr = "example_file ''TRAILER!!!'' []"
  let ?bs = "archive [?f] ?tr []"
  obtain h where "fs_ready (bare_fs h) Map.empty 15" by (rule bare_ready)
  then have r: "fs_ready (bare_fs h) Map.empty (Suc 14)" by simp
  obtain p t c where t: "heap_op (kzalloc 0 240) (bare_fs h) = Some (p, t)" "unat (240 :: u64) \<le> c" "fs_ready t [p \<mapsto> c] 14"
    by (rule new_object [OF r, where n = 240 and me = 0]) simp_all
  define s where "s = set_mem (put_bytes p ?bs (fs_mem t)) t"
  have s: "fs_ready s [p \<mapsto> c] 3" using fs_ready_mono [OF t(3), of 3] by (simp add: s_def fs_ready_def set_mem_def)
  have "110 + name_len ?f = 112" "110 + name_len ?tr = 124" unfolding name_len by (simp_all add: example_file_def)
  then have len: "length ?bs = unat (240 :: u64)" by (simp add: archive_def length_newc) (simp add: example_file_def)
  have hs: "holds (fs_mem s) p ?bs" using holds_put_bytes [of ?bs p "fs_mem t"] len by (simp add: s_def fs_mem_def set_mem_def)
  have f: "\<forall>g \<in> set [?f]. plain_file g" and tr: "trailer ?tr"
    by (simp_all add: plain_file_def trailer_def newc_ok_def example_file_def)
  have p: "[p \<mapsto> c] p = Some c" by simp
  have e: "ce_filesize (layout p [?f] ! 0) = 2" by (simp add: entry_of_def example_file_def)
  from cpio_parse_roundtrip [OF s p t(2) hs len f tr, of 0 "\<lparr>ar_entries = 0, ar_entry_count = 0, ar_data = 0, ar_size = 0\<rparr>"]
  obtain ar u where u: "cpio_archive_parse 0 (Some \<lparr>ar_entries = 0, ar_entry_count = 0, ar_data = 0, ar_size = 0\<rparr>) p 240 s = Some ((0, Some ar), u)"
    "ar_entry_count ar = 1" "map (\<lambda>i. get_entry (fs_mem u) (entry_addr (ar_entries ar) i)) [0 ..< length [?f]] = layout p [?f]"
    by auto
  have "get_entry (fs_mem u) (entry_addr (ar_entries ar) 0) = layout p [?f] ! 0" using u(3) by simp
  with e have "ce_filesize (get_entry (fs_mem u) (entry_addr (ar_entries ar) 0)) = 2" by simp
  with u(1,2) hs show ?thesis by blast
qed

text \<open>
  The reader can step over the end of the archive. When the archive stops right behind a name that is not
  filled up to a multiple of four, the position is rounded up past the end, the remaining size is
  computed as an unsigned difference, and the check of the file size passes for every size: the entry
  is accepted although its data lies behind the end.
\<close>
theorem cpio_reader_overrun:
  assumes "holds m p (newc_header f @ bytes_of (nf_name f) @ [0])" and "newc_ok f" and "nf_name f \<noteq> ''TRAILER!!!''"
    and "4 dvd unat p" and "\<not> 4 dvd 110 + (length (nf_name f) + 1)" and "unat p + length (nf_name f) + 120 < 2 ^ 64"
    and "e = p + of_nat (110 + (length (nf_name f) + 1))"
  shows "\<exists>r x. cpio_reader_next m \<lparr>rd_pos = p, rd_end = e\<rparr> = Some (0, r, x) \<and> ce_filesize x = of_nat (length (nf_data f)) \<and>
    e < ce_data x"
proof -
  let ?n = "length (nf_name f) + 1" and ?k = "110 + name_len f"
  have hs: "holds m p (newc_header f)" "holds m (p + 110) (bytes_of (nf_name f) @ [0])"
    using assms(1) unfolding holds_append by simp_all
  have magic: "is_at m p ''070701''" using hs(1) unfolding newc_header_def by (rule holds_is_at)
  have un: "unat (of_nat ?n :: u64) = ?n" by (rule unat_of_nat_small) (use assms(2) in \<open>simp add: newc_ok_def\<close>)
  have k: "110 + ?n < ?k" "?k \<le> 110 + ?n + 3"
  proof -
    have "(110 + ?n + 3) div 4 * 4 \<le> 110 + ?n + 3" "110 + ?n \<le> (110 + ?n + 3) div 4 * 4" by linarith+
    moreover have "110 + ?n \<noteq> (110 + ?n + 3) div 4 * 4" using assms(5) by (metis dvd_triv_right)
    ultimately show "110 + ?n < ?k" "?k \<le> 110 + ?n + 3" unfolding name_len by linarith+
  qed
  have u: "unat (p + of_nat i) = unat p + i" if "i \<le> ?k" for i
  proof -
    have "unat (of_nat i :: u64) = i" by (rule unat_of_nat_small) (use that k assms(6) in simp)
    then show ?thesis using that k assms(6) by (subst unat_add_no_wrap) simp_all
  qed
  have ue: "unat e = unat p + (110 + ?n)" using u [of "110 + ?n"] k assms(7) by simp
  have l0: "\<not> e - p < 110" using ue by (simp add: word_less_nat_alt unat_sub word_le_nat_alt)
  have l1: "\<not> e - (p + 110) < of_nat ?n" using assms(7) by simp
  have a1: "align4 (p + of_nat (110 + ?n)) = p + of_nat ?k"
    using align4_next [OF assms(4), of "110 + ?n"] assms(6) by (simp only: name_len)
  have lt: "e < p + of_nat ?k" unfolding word_less_nat_alt ue using u [of ?k] k by simp
  have l2: "\<not> e - (p + of_nat ?k) < of_nat (length (nf_data f))"
  proof -
    define d where "d = ?k - (110 + ?n)"
    have d: "0 < d" "d \<le> 4096" using k by (auto simp: d_def)
    have "e - (p + of_nat ?k) + of_nat d = 0" using k unfolding assms(7) d_def by (simp add: of_nat_diff)
    from back_far [OF this d] have far: "2 ^ 64 - 4096 \<le> unat (e - (p + of_nat ?k))" .
    have "unat (of_nat (length (nf_data f)) :: u64) = length (nf_data f)" by (rule unat_of_nat_small) (use assms(2) in \<open>simp add: newc_ok_def\<close>)
    then show ?thesis using far assms(2) unfolding word_less_nat_alt newc_ok_def by simp
  qed
  have z: "m (p + 110 + (of_nat ?n - 1)) = 0" using hs(2) by (simp add: holds_def nth_append)
  have lit: "\<forall>c \<in> set ''TRAILER!!!''. of_char c \<noteq> (0 :: u8)" by simp
  have t: "\<not> equals_at m (p + 110) ''TRAILER!!!''"
    using equals_at_name [OF hs(2) _ lit] assms(2,3) by (simp add: newc_ok_def)
  have p1: "p + 6 + 13 * 8 = p + 110" "p + 110 + of_nat ?n = p + of_nat (110 + ?n)" by simp_all
  let ?e = "(entry_of p f)\<lparr>ce_name := 0, ce_data := 0\<rparr>"
  have x: "ce_namesize ?e = of_nat ?n" "ce_filesize (?e\<lparr>ce_name := p + 110\<rparr>) = of_nat (length (nf_data f))"
    by (simp_all add: entry_of_def)
  show ?thesis
    unfolding cpio_reader_next_def cpio_reader.simps if_not_P [OF l0] read_header_newc [OF hs(1) assms(2)] Let_def bind.simps
      p1(1) x(1,2) if_not_P [OF l1] p1(2) a1 if_not_P [OF l2] if_not_P [OF t]
    using magic z lt by (simp add: entry_of_def)
qed

definition short_archive :: mem where
  "short_archive = put_bytes 0x1000 (newc_header (example_file ''ab'' [1, 2, 3]) @ bytes_of ''ab'' @ [0]) (\<lambda>_. 0)"

theorem cpio_reader_overrun_witness:
  "\<exists>r x. cpio_reader_next short_archive \<lparr>rd_pos = 0x1000, rd_end = 0x1071\<rparr> = Some (0, r, x) \<and> ce_filesize x = 3 \<and> 0x1071 < ce_data x"
proof -
  let ?f = "example_file ''ab'' [1, 2, 3]"
  have n: "nf_name ?f = ''ab''" "nf_data ?f = [1, 2, 3]" by (simp_all add: example_file_def)
  have "holds short_archive 0x1000 (newc_header ?f @ bytes_of ''ab'' @ [0])"
    unfolding short_archive_def by (rule holds_put_bytes) simp
  then have h: "holds short_archive 0x1000 (newc_header ?f @ bytes_of (nf_name ?f) @ [0])" by (simp only: n)
  have ok: "newc_ok ?f" by (simp add: newc_ok_def n)
  have "unat (0x1000 :: u64) = 4 * 1024" by simp
  then have d: "4 dvd unat (0x1000 :: u64)" by (metis dvd_triv_left)
  have "\<not> 4 dvd 110 + (length (nf_name ?f) + 1)" unfolding n by simp
  from cpio_reader_overrun [OF h ok _ d this, where e = "0x1071"] show ?thesis unfolding n by simp
qed

end
