(* ===== verification/Task.thy ===== *)
theory Task
  imports Fd Waitqueue Vmm_Props
begin

text \<open>
  Processes and threads, \<^verbatim>\<open>sched/task.c\<close>: the process table, children and their reaping, creation of
  threads with their kernel stacks, fork, argument vectors and the auxiliary vector. The state puts
  the others together: the scheduler with its wait queues, the descriptor tables with the file
  system and the kernel heap below them, and the page tables and address spaces, which share that heap.
  An address space operation runs on the heap joined with \<open>tk_vm\<close>, the part of its state that is not
  the heap.

  The vector \<^verbatim>\<open>proc->vmm\<close> is the map \<open>proc_vmm\<close> of the scheduler, and \<^verbatim>\<open>proc->wait_children\<close> is the wait queue at
  its address. \<open>me\<close> is the CPU. A function that gives up the CPU is modelled up to that point. The endless
  loop of the init thread, which reaps orphans with \<^verbatim>\<open>proc_wait\<close>, is left out, as are the log messages.
\<close>

section \<open>State\<close>

datatype proc_state = PROC_RUNNING | PROC_ZOMBIE | PROC_DEAD

record proc =
  p_pid :: int
  p_name :: string
  p_state :: proc_state
  p_flags :: u32
  p_parent :: u64
  p_children :: u64
  p_sibling_next :: u64
  p_threads :: u64
  p_thread_count :: u32
  p_live_thread_count :: u32
  p_fdtable :: u64
  p_argv :: u64
  p_argc :: int
  p_envp :: u64
  p_envc :: int
  p_auxv :: "nat \<Rightarrow> int \<times> u64"
  p_auxv_count :: nat
  p_exit_code :: int
  p_uid :: u32
  p_gid :: u32
  p_refcount :: u32
  p_lock :: spinlock
  p_global_next :: u64

text \<open>The fields of \<^verbatim>\<open>thread_t\<close> that the scheduler does not use.\<close>

record thread_info =
  ti_tid :: int
  ti_proc_next :: u64

type_synonym vm_part = "(unit vmm_state_ext) paging_ext"

text \<open>\<open>arr_at\<close> holds the elements of the arrays of string pointers, by their address.\<close>

record tasks = wsched +
  tk_fds :: fds
  tk_vm :: vm_part
  proc_at :: "u64 \<Rightarrow> proc"
  tinfo_at :: "u64 \<Rightarrow> thread_info"
  arr_at :: "u64 \<Rightarrow> u64"
  proc_list_lock :: spinlock
  proc_list_head :: u64
  next_pid :: int
  tid_lock :: spinlock
  next_tid :: int
  init_proc :: u64

abbreviation (input) PROC_FLAG_USER :: u32 where "PROC_FLAG_USER \<equiv> 1"
abbreviation (input) PROC_FLAG_KERNEL :: u32 where "PROC_FLAG_KERNEL \<equiv> 2"
abbreviation (input) MAX_AUXV :: nat where "MAX_AUXV \<equiv> 32"
abbreviation (input) TASK_NAME_MAX :: nat where "TASK_NAME_MAX \<equiv> 32"
abbreviation (input) SIZEOF_PROC :: u64 where "SIZEOF_PROC \<equiv> 776"
abbreviation (input) SIZEOF_THREAD :: u64 where "SIZEOF_THREAD \<equiv> 736"
abbreviation (input) SIZEOF_CONTEXT :: u64 where "SIZEOF_CONTEXT \<equiv> 216"
abbreviation (input) VMM_STACK_SIZE :: u64 where "VMM_STACK_SIZE \<equiv> 0x800000"
abbreviation (input) VMM_GUARD_SIZE :: u64 where "VMM_GUARD_SIZE \<equiv> 0x1000"
abbreviation (input) VFLAG_STACK :: u32 where "VFLAG_STACK \<equiv> 0x100"

definition wait_children :: "u64 \<Rightarrow> u64" where "wait_children p = p + 656"

definition upd_proc :: "u64 \<Rightarrow> (proc \<Rightarrow> proc) \<Rightarrow> 'b tasks_scheme \<Rightarrow> 'b tasks_scheme" where
  "upd_proc p f s = s\<lparr>proc_at := (proc_at s)(p := f (proc_at s p))\<rparr>"

definition upd_tinfo :: "u64 \<Rightarrow> (thread_info \<Rightarrow> thread_info) \<Rightarrow> 'b tasks_scheme \<Rightarrow> 'b tasks_scheme" where
  "upd_tinfo t f s = s\<lparr>tinfo_at := (tinfo_at s)(t := f (tinfo_at s t))\<rparr>"

text \<open>Operations of the parts, run on the whole state.\<close>

definition fds_op :: "(fds \<Rightarrow> ('a \<times> fds) option) \<Rightarrow> 'b tasks_scheme \<Rightarrow> ('a \<times> 'b tasks_scheme) option" where
  "fds_op f s = map_option (\<lambda>(r, t). (r, s\<lparr>tk_fds := t\<rparr>)) (f (tk_fds s))"

definition fds_do :: "(fds \<Rightarrow> fds option) \<Rightarrow> 'b tasks_scheme \<Rightarrow> 'b tasks_scheme option" where
  "fds_do f s = map_option (\<lambda>t. s\<lparr>tk_fds := t\<rparr>) (f (tk_fds s))"

definition kh_op :: "(kheap \<Rightarrow> ('a \<times> kheap) option) \<Rightarrow> 'b tasks_scheme \<Rightarrow> ('a \<times> 'b tasks_scheme) option" where
  "kh_op f = fds_op (fs_op (heap_op f))"

definition kh :: "'b tasks_scheme \<Rightarrow> kheap" where
  "kh s = hp (kfs (tk_fds s))"

definition set_kh :: "kheap \<Rightarrow> 'b tasks_scheme \<Rightarrow> 'b tasks_scheme" where
  "set_kh h s = s\<lparr>tk_fds := (tk_fds s)\<lparr>kfs := (kfs (tk_fds s))\<lparr>hp := h\<rparr>\<rparr>\<rparr>"

definition tk_mem :: "'b tasks_scheme \<Rightarrow> mem" where
  "tk_mem s = heap_mem (kh s)"

definition set_tk_mem :: "mem \<Rightarrow> 'b tasks_scheme \<Rightarrow> 'b tasks_scheme" where
  "set_tk_mem m s = set_kh ((kh s)\<lparr>heap_mem := m\<rparr>) s"

definition vm_op :: "(vmm_state \<Rightarrow> ('a \<times> vmm_state) option) \<Rightarrow> 'b tasks_scheme \<Rightarrow> ('a \<times> 'b tasks_scheme) option" where
  "vm_op f s =
     map_option (\<lambda>(r, t). (r, (set_kh (kheap.truncate t) s)\<lparr>tk_vm := kheap.more t\<rparr>)) (f (kheap.extend (kh s) (tk_vm s)))"

definition vm_do :: "(vmm_state \<Rightarrow> vmm_state option) \<Rightarrow> 'b tasks_scheme \<Rightarrow> 'b tasks_scheme option" where
  "vm_do f s = map_option snd (vm_op (\<lambda>t. map_option (Pair ()) (f t)) s)"

definition lock_proc :: "nat \<Rightarrow> u64 \<Rightarrow> 'b tasks_scheme \<Rightarrow> 'b tasks_scheme option" where
  "lock_proc me p s =
     map_option (\<lambda>l. upd_proc p (\<lambda>x. x\<lparr>p_lock := l\<rparr>) s) (lock_acquire (int me) (p_lock (proc_at s p)))"

definition unlock_proc :: "nat \<Rightarrow> u64 \<Rightarrow> 'b tasks_scheme \<Rightarrow> 'b tasks_scheme" where
  "unlock_proc me p = upd_proc p (\<lambda>x. x\<lparr>p_lock := lock_release (int me) (p_lock x)\<rparr>)"

definition lock_list :: "nat \<Rightarrow> 'b tasks_scheme \<Rightarrow> 'b tasks_scheme option" where
  "lock_list me s = map_option (\<lambda>l. s\<lparr>proc_list_lock := l\<rparr>) (lock_acquire (int me) (proc_list_lock s))"

definition unlock_list :: "nat \<Rightarrow> 'b tasks_scheme \<Rightarrow> 'b tasks_scheme" where
  "unlock_list me s = s\<lparr>proc_list_lock := lock_release (int me) (proc_list_lock s)\<rparr>"

definition proc_flag :: "proc \<Rightarrow> u32 \<Rightarrow> bool" where
  "proc_flag x f \<longleftrightarrow> p_flags x AND f \<noteq> 0"

section \<open>Numbers and the process list\<close>

definition alloc_pid :: "nat \<Rightarrow> 'b tasks_scheme \<Rightarrow> (int \<times> 'b tasks_scheme) option" where
  "alloc_pid me s = do {
     s \<leftarrow> lock_list me s;
     let pid = next_pid s;
     Some (pid, unlock_list me (s\<lparr>next_pid := next_pid s + 1\<rparr>))}"

definition alloc_tid :: "nat \<Rightarrow> 'b tasks_scheme \<Rightarrow> (int \<times> 'b tasks_scheme) option" where
  "alloc_tid me s = do {
     l \<leftarrow> lock_acquire (int me) (tid_lock s);
     let tid = next_tid s;
     Some (tid, s\<lparr>next_tid := next_tid s + 1, tid_lock := lock_release (int me) l\<rparr>)}"

definition proc_list_add :: "nat \<Rightarrow> u64 \<Rightarrow> 'b tasks_scheme \<Rightarrow> 'b tasks_scheme option" where
  "proc_list_add me p s = do {
     s \<leftarrow> lock_list me s;
     let s = upd_proc p (\<lambda>x. x\<lparr>p_global_next := proc_list_head s\<rparr>) s;
     Some (unlock_list me (s\<lparr>proc_list_head := p\<rparr>))}"

text \<open>The loop that unlinks a process: \<open>prev\<close> is the process whose link \<^verbatim>\<open>pp\<close> points to, \<open>NULL\<close> for the head.\<close>

partial_function (option) remove_proc :: "u64 \<Rightarrow> u64 \<Rightarrow> u64 \<Rightarrow> 'b tasks_scheme \<Rightarrow> 'b tasks_scheme option" where
  "remove_proc p prev cur s =
     (if cur = NULL then Some s
      else if cur = p
      then (let nx = p_global_next (proc_at s p)
            in Some (if prev = NULL then s\<lparr>proc_list_head := nx\<rparr> else upd_proc prev (\<lambda>x. x\<lparr>p_global_next := nx\<rparr>) s))
      else remove_proc p cur (p_global_next (proc_at s cur)) s)"

definition proc_list_remove :: "nat \<Rightarrow> u64 \<Rightarrow> 'b tasks_scheme \<Rightarrow> 'b tasks_scheme option" where
  "proc_list_remove me p s = do {
     s \<leftarrow> lock_list me s;
     s \<leftarrow> remove_proc p NULL (proc_list_head s) s;
     Some (unlock_list me s)}"

partial_function (option) lookup_proc :: "int \<Rightarrow> u64 \<Rightarrow> 'b tasks_scheme \<Rightarrow> u64 option" where
  "lookup_proc pid p s =
     (if p = NULL then Some NULL
      else if p_pid (proc_at s p) = pid then Some p
      else lookup_proc pid (p_global_next (proc_at s p)) s)"

definition proc_lookup :: "nat \<Rightarrow> int \<Rightarrow> 'b tasks_scheme \<Rightarrow> (u64 \<times> 'b tasks_scheme) option" where
  "proc_lookup me pid s = do {
     s \<leftarrow> lock_list me s;
     p \<leftarrow> lookup_proc pid (proc_list_head s) s;
     Some (p, unlock_list me s)}"

definition task_subsystem_init :: "'b tasks_scheme \<Rightarrow> 'b tasks_scheme" where
  "task_subsystem_init s = s\<lparr>proc_list_head := NULL\<rparr>"

definition proc_ref :: "nat \<Rightarrow> u64 \<Rightarrow> 'b tasks_scheme \<Rightarrow> 'b tasks_scheme option" where
  "proc_ref me p s =
     (if p = NULL then Some s
      else do {
        s \<leftarrow> lock_proc me p s;
        Some (unlock_proc me p (upd_proc p (\<lambda>x. x\<lparr>p_refcount := p_refcount x + 1\<rparr>) s))})"

section \<open>Arrays of strings\<close>

definition elem :: "u64 \<Rightarrow> nat \<Rightarrow> u64" where "elem a i = a + 8 * of_nat i"

definition kfree_t :: "nat \<Rightarrow> u64 \<Rightarrow> 'b tasks_scheme \<Rightarrow> 'b tasks_scheme option" where
  "kfree_t me p s = map_option snd (kh_op (kfree (int me) p) s)"

definition free_string_array :: "nat \<Rightarrow> u64 \<Rightarrow> int \<Rightarrow> 'b tasks_scheme \<Rightarrow> 'b tasks_scheme option" where
  "free_string_array me arr num s =
     (if arr = NULL then Some s
      else do {
        s \<leftarrow> for_each (\<lambda>i s. kfree_t me (arr_at s (elem arr i)) s) [0 ..< nat num] s;
        kfree_t me arr s})"

text \<open>The loop of \<^verbatim>\<open>dup_string_array\<close>; on failure what has been copied is freed again.\<close>

fun dup_strings :: "nat \<Rightarrow> u64 \<Rightarrow> u64 \<Rightarrow> nat list \<Rightarrow> 'b tasks_scheme \<Rightarrow> (u64 \<times> 'b tasks_scheme) option" where
  "dup_strings me src dst [] s = Some (dst, s)"
| "dup_strings me src dst (i # is) s = do {
     len \<leftarrow> strlen (tk_mem s) (arr_at s (elem src i));
     (p, s) \<leftarrow> kh_op (kmalloc (int me) (len + 1)) s;
     let s = s\<lparr>arr_at := (arr_at s)(elem dst i := p)\<rparr>;
     if p = NULL
     then do {
       s \<leftarrow> for_each (\<lambda>j s. kfree_t me (arr_at s (elem dst j)) s) [0 ..< i] s;
       s \<leftarrow> kfree_t me dst s;
       Some (NULL, s)}
     else dup_strings me src dst is (set_tk_mem (memcpy (tk_mem s) p (arr_at s (elem src i)) (len + 1)) s)}"

definition dup_string_array :: "nat \<Rightarrow> u64 \<Rightarrow> int \<Rightarrow> 'b tasks_scheme \<Rightarrow> (u64 \<times> 'b tasks_scheme) option" where
  "dup_string_array me src num s =
     (if src = NULL \<or> num \<le> 0 then Some (NULL, s)
      else do {
        (dst, s) \<leftarrow> kh_op (kzalloc (int me) (8 * of_int num)) s;
        if dst = NULL then Some (NULL, s)
        else dup_strings me src dst [0 ..< nat num]
               (s\<lparr>arr_at := fold (\<lambda>i m. m(elem dst i := NULL)) [0 ..< nat num] (arr_at s)\<rparr>)})"

definition copy_argv_envp :: "nat \<Rightarrow> u64 \<Rightarrow> u64 \<Rightarrow> int \<Rightarrow> u64 \<Rightarrow> int \<Rightarrow> 'b tasks_scheme \<Rightarrow> (int \<times> 'b tasks_scheme) option" where
  "copy_argv_envp me dst argv argc envp envc s = do {
     (new_argv, s) \<leftarrow> dup_string_array me argv argc s;
     if argv \<noteq> NULL \<and> 0 < argc \<and> new_argv = NULL then Some (- ENOMEM, s)
     else do {
       (new_envp, s) \<leftarrow> dup_string_array me envp envc s;
       if envp \<noteq> NULL \<and> 0 < envc \<and> new_envp = NULL
       then do { s \<leftarrow> free_string_array me new_argv argc s; Some (- ENOMEM, s) }
       else Some (EOK, upd_proc dst (\<lambda>x. x\<lparr>p_argv := new_argv, p_argc := argc, p_envp := new_envp, p_envc := envc\<rparr>) s)}}"

definition drop_vectors :: "nat \<Rightarrow> u64 \<Rightarrow> 'b tasks_scheme \<Rightarrow> 'b tasks_scheme option" where
  "drop_vectors me p s = do {
     s \<leftarrow> free_string_array me (p_argv (proc_at s p)) (p_argc (proc_at s p)) s;
     s \<leftarrow> free_string_array me (p_envp (proc_at s p)) (p_envc (proc_at s p)) s;
     Some (upd_proc p (\<lambda>x. x\<lparr>p_argv := NULL, p_envp := NULL, p_argc := 0, p_envc := 0\<rparr>) s)}"

definition proc_set_argv :: "nat \<Rightarrow> u64 \<Rightarrow> int \<Rightarrow> u64 \<Rightarrow> int \<Rightarrow> u64 \<Rightarrow> 'b tasks_scheme \<Rightarrow> (int \<times> 'b tasks_scheme) option" where
  "proc_set_argv me p argc argv envc envp s =
     (if p = NULL then Some (- EINVAL, s)
      else do {
        s \<leftarrow> drop_vectors me p s;
        copy_argv_envp me p argv argc envp envc s})"

section \<open>The auxiliary vector\<close>

definition auxv_index :: "proc \<Rightarrow> int \<Rightarrow> nat option" where
  "auxv_index x key = find (\<lambda>i. fst (p_auxv x i) = key) [0 ..< p_auxv_count x]"

definition proc_set_auxv :: "nat \<Rightarrow> u64 \<Rightarrow> int \<Rightarrow> u64 \<Rightarrow> 'b tasks_scheme \<Rightarrow> (int \<times> 'b tasks_scheme) option" where
  "proc_set_auxv me p key v s =
     (if p = NULL then Some (- EINVAL, s)
      else do {
        s \<leftarrow> lock_proc me p s;
        case auxv_index (proc_at s p) key of
          Some i \<Rightarrow> Some (EOK, unlock_proc me p (upd_proc p (\<lambda>x. x\<lparr>p_auxv := (p_auxv x)(i := (key, v))\<rparr>) s))
        | None \<Rightarrow>
            if MAX_AUXV \<le> p_auxv_count (proc_at s p) then Some (- ENOMEM, unlock_proc me p s)
            else Some (EOK, unlock_proc me p (upd_proc p
                   (\<lambda>x. x\<lparr>p_auxv := (p_auxv x)(p_auxv_count x := (key, v)), p_auxv_count := p_auxv_count x + 1\<rparr>) s))})"

definition proc_get_auxv :: "nat \<Rightarrow> u64 \<Rightarrow> int \<Rightarrow> 'b tasks_scheme \<Rightarrow> (u64 \<times> 'b tasks_scheme) option" where
  "proc_get_auxv me p key s =
     (if p = NULL then Some (0, s)
      else do {
        s \<leftarrow> lock_proc me p s;
        let result = (case auxv_index (proc_at s p) key of Some i \<Rightarrow> snd (p_auxv (proc_at s p) i) | None \<Rightarrow> 0);
        Some (result, unlock_proc me p s)})"

section \<open>Life of a process\<close>

definition zero_proc :: proc where
  "zero_proc = \<lparr>p_pid = 0, p_name = [], p_state = PROC_RUNNING, p_flags = 0, p_parent = 0, p_children = 0, p_sibling_next = 0,
     p_threads = 0, p_thread_count = 0, p_live_thread_count = 0, p_fdtable = 0, p_argv = 0, p_argc = 0, p_envp = 0,
     p_envc = 0, p_auxv = (\<lambda>_. (0, 0)), p_auxv_count = 0, p_exit_code = 0, p_uid = 0, p_gid = 0, p_refcount = 0,
     p_lock = SPINLOCK_INIT, p_global_next = 0\<rparr>"

definition proc_free :: "nat \<Rightarrow> u64 \<Rightarrow> 'b tasks_scheme \<Rightarrow> 'b tasks_scheme option" where
  "proc_free me p s = do {
     let x = proc_at s p;
     s \<leftarrow> (if p_fdtable x \<noteq> NULL then fds_do (fdtable_unref (int me) (p_fdtable x)) s else Some s);
     s \<leftarrow> (if proc_vmm s p \<noteq> NULL \<and> \<not> proc_flag x PROC_FLAG_KERNEL then vm_do (vmm_destroy (int me) (proc_vmm s p)) s
           else Some s);
     s \<leftarrow> free_string_array me (p_argv x) (p_argc x) s;
     s \<leftarrow> free_string_array me (p_envp x) (p_envc x) s;
     kfree_t me p s}"

definition proc_unref :: "nat \<Rightarrow> u64 \<Rightarrow> 'b tasks_scheme \<Rightarrow> 'b tasks_scheme option" where
  "proc_unref me p s =
     (if p = NULL then Some s
      else do {
        s \<leftarrow> lock_proc me p s;
        let s = upd_proc p (\<lambda>x. x\<lparr>p_refcount := p_refcount x - 1\<rparr>) s;
        let remaining = p_refcount (proc_at s p);
        let s = unlock_proc me p s;
        if remaining = 0 then do { s \<leftarrow> proc_list_remove me p s; proc_free me p s } else Some s})"

definition proc_alloc :: "nat \<Rightarrow> string option \<Rightarrow> u32 \<Rightarrow> 'b tasks_scheme \<Rightarrow> (u64 \<times> 'b tasks_scheme) option" where
  "proc_alloc me name flags s = do {
     (p, s) \<leftarrow> kh_op (kzalloc (int me) SIZEOF_PROC) s;
     if p = NULL then Some (NULL, s)
     else do {
       (pid, s) \<leftarrow> alloc_pid me s;
       let s = upd_proc p (\<lambda>_. zero_proc\<lparr>p_pid := pid, p_flags := flags, p_state := PROC_RUNNING, p_refcount := 1,
                 p_lock := SPINLOCK_INIT,
                 p_name := (case name of None \<Rightarrow> [] | Some n \<Rightarrow> take (TASK_NAME_MAX - 1) n)\<rparr>) s;
       let s = waitqueue_init (wait_children p) (s\<lparr>proc_vmm := (proc_vmm s)(p := NULL)\<rparr>);
       s \<leftarrow> proc_list_add me p s;
       Some (p, s)}}"

definition proc_create_kernel :: "nat \<Rightarrow> string option \<Rightarrow> 'b tasks_scheme \<Rightarrow> (u64 \<times> 'b tasks_scheme) option" where
  "proc_create_kernel me name s = do {
     (p, s) \<leftarrow> proc_alloc me name PROC_FLAG_KERNEL s;
     if p = NULL then Some (NULL, s)
     else do {
       let s = s\<lparr>proc_vmm := (proc_vmm s)(p := kernel_vmm (kheap.extend (kh s) (tk_vm s)))\<rparr>;
       (t, s) \<leftarrow> fds_op (fdtable_create (int me)) s;
       let s = upd_proc p (\<lambda>x. x\<lparr>p_fdtable := t\<rparr>) s;
       if t = NULL then do { s \<leftarrow> proc_unref me p s; Some (NULL, s) } else Some (p, s)}}"

section \<open>Threads\<close>

definition kstack_alloc :: "nat \<Rightarrow> u64 \<Rightarrow> 'b tasks_scheme \<Rightarrow> (u64 \<times> 'b tasks_scheme) option" where
  "kstack_alloc me sz s = do {
     (pages, s) \<leftarrow> kh_op (pmm_alloc_pages (int me) (sz div PAGE_SIZE)) s;
     if pages = NULL then Some (NULL, s)
     else let virt = PHYS_TO_VIRT (kh s) (pfn_db_page_to_phys (kh s) pages)
       in Some (virt, set_kh (zero_mem virt sz (kh s)) s)}"

definition kstack_free :: "nat \<Rightarrow> u64 \<Rightarrow> u64 \<Rightarrow> 'b tasks_scheme \<Rightarrow> 'b tasks_scheme option" where
  "kstack_free me base sz s =
     (if base = NULL then Some s
      else let page = pfn_db_phys_to_page (kh s) (VIRT_TO_PHYS (kh s) base) in
        if page = NULL then Some s
        else map_option snd (kh_op (pmm_pages_release (int me) page (sz div PAGE_SIZE)) s))"

text \<open>\<^verbatim>\<open>thread_free_resources\<close> with its effect on the heap; theory \<open>Sched\<close> only records the thread.\<close>

definition free_thread :: "nat \<Rightarrow> u64 \<Rightarrow> 'b tasks_scheme \<Rightarrow> 'b tasks_scheme option" where
  "free_thread me t s = do {
     s \<leftarrow> kstack_free me (kstack_base (thread_at s t)) (kstack_size (thread_at s t)) s;
     kfree_t me t s}"

text \<open>Words are pushed on a stack one after the other.\<close>

definition push :: "u64 \<Rightarrow> u64 \<times> mem \<Rightarrow> u64 \<times> mem" where
  "push w = (\<lambda>(sp, m). (sp - 8, put64 (sp - 8) w m))"

definition build_bootstrap_frame :: "u64 \<Rightarrow> u64 \<Rightarrow> u64 \<Rightarrow> u64 \<Rightarrow> mem \<Rightarrow> u64 \<times> mem" where
  "build_bootstrap_frame stack_end return_addr rbx_val r12_val m =
     fold push [return_addr, 0, rbx_val, r12_val, 0, 0, 0, 0x202] (stack_end, m)"

text \<open>
  The two halves of \<^verbatim>\<open>context_switch\<close> (\<^verbatim>\<open>sched/context.asm\<close>): the registers that a called function has to keep are
  pushed over the return address; on the new stack they are popped and \<^verbatim>\<open>ret\<close> takes the return address.
\<close>

record regs =
  g_rflags :: u64
  g_r15 :: u64
  g_r14 :: u64
  g_r13 :: u64
  g_r12 :: u64
  g_rbx :: u64
  g_rbp :: u64
  g_rip :: u64
  g_rsp :: u64

definition context_save :: "regs \<Rightarrow> mem \<Rightarrow> u64 \<times> mem" where
  "context_save r m = fold push [g_rbp r, g_rbx r, g_r12 r, g_r13 r, g_r14 r, g_r15 r, g_rflags r] (g_rsp r, m)"

definition context_restore :: "mem \<Rightarrow> u64 \<Rightarrow> regs" where
  "context_restore m sp = \<lparr>g_rflags = get64 m sp, g_r15 = get64 m (sp + 8), g_r14 = get64 m (sp + 16), g_r13 = get64 m (sp + 24),
     g_r12 = get64 m (sp + 32), g_rbx = get64 m (sp + 40), g_rbp = get64 m (sp + 48), g_rip = get64 m (sp + 56), g_rsp = sp + 64\<rparr>"

definition zero_thread :: thread where
  "zero_thread = \<lparr>t_proc = 0, t_state = THREAD_NEW, priority_level = 0, time_in_level_ns = 0, last_run_tsc = 0,
     total_runtime_ns = 0, last_cpu = 0, pinned_cpu = 0, kstack_base = 0, kstack_size = 0, kernel_rsp = 0,
     fpu_region = replicate 512 0, fpu_used = False, fpu_dirty = False, blocked_on = 0, t_exit_code = 0,
     rq_next = 0, rq_prev = 0, t_lock = SPINLOCK_INIT\<rparr>"

definition thread_link_to_proc :: "nat \<Rightarrow> u64 \<Rightarrow> u64 \<Rightarrow> 'b tasks_scheme \<Rightarrow> 'b tasks_scheme option" where
  "thread_link_to_proc me p t s = do {
     s \<leftarrow> lock_proc me p s;
     let s = upd_tinfo t (\<lambda>x. x\<lparr>ti_proc_next := p_threads (proc_at s p)\<rparr>) s;
     Some (unlock_proc me p (upd_proc p (\<lambda>x. x\<lparr>p_threads := t, p_thread_count := p_thread_count x + 1,
       p_live_thread_count := p_live_thread_count x + 1\<rparr>) s))}"

text \<open>The common start of \<^verbatim>\<open>thread_create\<close> and \<^verbatim>\<open>thread_fork_from_syscall\<close>: descriptor, stack and number.\<close>

definition new_thread :: "nat \<Rightarrow> u64 \<Rightarrow> 'b tasks_scheme \<Rightarrow> (u64 \<times> 'b tasks_scheme) option" where
  "new_thread me p s = do {
     (t, s) \<leftarrow> kh_op (kzalloc (int me) SIZEOF_THREAD) s;
     if t = NULL then Some (NULL, s)
     else do {
       let s = upd_thread t (\<lambda>_. zero_thread) (upd_tinfo t (\<lambda>_. \<lparr>ti_tid = 0, ti_proc_next = NULL\<rparr>) s);
       (base, s) \<leftarrow> kstack_alloc me KSTACK_SIZE s;
       let s = upd_thread t (\<lambda>x. x\<lparr>kstack_base := base\<rparr>) s;
       if base = NULL then do { s \<leftarrow> kfree_t me t s; Some (NULL, s) }
       else do {
         (tid, s) \<leftarrow> alloc_tid me s;
         Some (t, upd_tinfo t (\<lambda>x. x\<lparr>ti_tid := tid\<rparr>) (upd_thread t (\<lambda>x. x\<lparr>kstack_size := KSTACK_SIZE, t_proc := p,
           t_state := THREAD_NEW, priority_level := 0, last_cpu := -1, pinned_cpu := -1, t_lock := SPINLOCK_INIT\<rparr>) s))}}}"

text \<open>\<open>trampoline\<close> is the address of \<^verbatim>\<open>thread_bootstrap_trampoline\<close>.\<close>

definition thread_create :: "nat \<Rightarrow> u64 \<Rightarrow> u64 \<Rightarrow> u64 \<Rightarrow> u64 \<Rightarrow> 'b tasks_scheme \<Rightarrow> (u64 \<times> 'b tasks_scheme) option" where
  "thread_create me trampoline p entry arg s =
     (if p = NULL then Some (NULL, s)
      else do {
        (t, s) \<leftarrow> new_thread me p s;
        if t = NULL then Some (NULL, s)
        else do {
          let x = thread_at s t;
          let stack_end = (kstack_base x + kstack_size x) AND NOT 0xF;
          let (sp, m) = build_bootstrap_frame stack_end trampoline entry arg (tk_mem s);
          s \<leftarrow> thread_link_to_proc me p t (upd_thread t (\<lambda>x. x\<lparr>kernel_rsp := sp\<rparr>) (set_tk_mem m s));
          Some (t, s)}})"

text \<open>The result is what \<^verbatim>\<open>usermode_enter\<close> is called with.\<close>

definition thread_user_entry_stub :: "nat \<Rightarrow> u64 \<Rightarrow> 'b tasks_scheme \<Rightarrow> ((u64 \<times> u64) \<times> 'b tasks_scheme) option" where
  "thread_user_entry_stub me arg s = do {
     let entry_rip = get64 (tk_mem s) arg;
     let user_stack_top = get64 (tk_mem s) (arg + 8);
     s \<leftarrow> kfree_t me arg s;
     Some ((entry_rip, user_stack_top), s)}"

definition thread_create_user ::
  "nat \<Rightarrow> u64 \<Rightarrow> u64 \<Rightarrow> u64 \<Rightarrow> u64 \<Rightarrow> u64 \<Rightarrow> 'b tasks_scheme \<Rightarrow> (u64 \<times> 'b tasks_scheme) option" where
  "thread_create_user me trampoline stub p entry_rip user_stack_top s =
     (if p = NULL \<or> \<not> proc_flag (proc_at s p) PROC_FLAG_USER then Some (NULL, s)
      else do {
        (args, s) \<leftarrow> kh_op (kzalloc (int me) 16) s;
        if args = NULL then Some (NULL, s)
        else do {
          let s = set_tk_mem (put64 (args + 8) user_stack_top (put64 args entry_rip (tk_mem s))) s;
          (t, s) \<leftarrow> thread_create me trampoline p stub args s;
          if t = NULL then do { s \<leftarrow> kfree_t me args s; Some (NULL, s) } else Some (t, s)}})"

definition proc_map_user_stack :: "nat \<Rightarrow> u64 \<Rightarrow> 'b tasks_scheme \<Rightarrow> (u64 \<times> 'b tasks_scheme) option" where
  "proc_map_user_stack me p s = do {
     (base, s) \<leftarrow> vm_op (vmm_map (int me) (proc_vmm s p) 0 VMM_STACK_SIZE
                    (VFLAG_PRESENT OR VFLAG_WRITABLE OR VFLAG_USER OR VFLAG_STACK)) s;
     if base = 0 then Some (0, s)
     else do {
       (_, s) \<leftarrow> vm_op (vmm_map (int me) (proc_vmm s p) (base - VMM_GUARD_SIZE) VMM_GUARD_SIZE VFLAG_FIXED) s;
       Some (base + VMM_STACK_SIZE, s)}}"

text \<open>\<open>entry\<close> is the address of \<^verbatim>\<open>fork_child_entry\<close>; \<^verbatim>\<open>rax\<close> is the sixth word of a context.\<close>

definition thread_fork_from_syscall ::
  "nat \<Rightarrow> u64 \<Rightarrow> u64 \<Rightarrow> u64 \<Rightarrow> u64 \<Rightarrow> 'b tasks_scheme \<Rightarrow> (u64 \<times> 'b tasks_scheme) option" where
  "thread_fork_from_syscall me entry child_proc parent_thread parent_ctx s = do {
     (t, s) \<leftarrow> new_thread me child_proc s;
     if t = NULL then Some (NULL, s)
     else do {
       let pt = thread_at s parent_thread;
       let s = upd_thread t (\<lambda>x. x\<lparr>priority_level := priority_level pt, fpu_region := fpu_region pt, fpu_used := fpu_used pt,
                 fpu_dirty := fpu_dirty pt\<rparr>) s;
       let stack_end = kstack_base (thread_at s t) + kstack_size (thread_at s t);
       let child_ctx = stack_end - SIZEOF_CONTEXT;
       let m = put64 (child_ctx + 40) 0 (memcpy (tk_mem s) child_ctx parent_ctx SIZEOF_CONTEXT);
       let (sp, m) = build_bootstrap_frame child_ctx entry child_ctx 0 m;
       s \<leftarrow> thread_link_to_proc me child_proc t (upd_thread t (\<lambda>x. x\<lparr>kernel_rsp := sp\<rparr>) (set_tk_mem m s));
       Some (t, s)}}"

definition thread_current :: "nat \<Rightarrow> 'b tasks_scheme \<Rightarrow> u64" where
  "thread_current me s = current_thread (cpus s me)"

definition proc_current :: "nat \<Rightarrow> 'b tasks_scheme \<Rightarrow> u64" where
  "proc_current me s = (if thread_current me s \<noteq> NULL then t_proc (thread_at s (thread_current me s)) else NULL)"

section \<open>Children\<close>

definition proc_add_child :: "nat \<Rightarrow> u64 \<Rightarrow> u64 \<Rightarrow> 'b tasks_scheme \<Rightarrow> 'b tasks_scheme option" where
  "proc_add_child me parent c s = do {
     s \<leftarrow> lock_proc me parent s;
     let s = upd_proc c (\<lambda>x. x\<lparr>p_sibling_next := p_children (proc_at s parent)\<rparr>) s;
     Some (unlock_proc me parent (upd_proc parent (\<lambda>x. x\<lparr>p_children := c\<rparr>) s))}"

definition unlink_sibling :: "u64 \<Rightarrow> u64 \<Rightarrow> u64 \<Rightarrow> 'b tasks_scheme \<Rightarrow> 'b tasks_scheme" where
  "unlink_sibling parent prev nx s =
     (if prev \<noteq> NULL then upd_proc prev (\<lambda>x. x\<lparr>p_sibling_next := nx\<rparr>) s else upd_proc parent (\<lambda>x. x\<lparr>p_children := nx\<rparr>) s)"

partial_function (option) remove_child :: "u64 \<Rightarrow> u64 \<Rightarrow> u64 \<Rightarrow> u64 \<Rightarrow> 'b tasks_scheme \<Rightarrow> 'b tasks_scheme option" where
  "remove_child parent c prev cur s =
     (if cur = NULL then Some s
      else if cur = c then Some (unlink_sibling parent prev (p_sibling_next (proc_at s c)) s)
      else remove_child parent c cur (p_sibling_next (proc_at s cur)) s)"

definition proc_remove_child :: "nat \<Rightarrow> u64 \<Rightarrow> u64 \<Rightarrow> 'b tasks_scheme \<Rightarrow> 'b tasks_scheme option" where
  "proc_remove_child me parent c s = do {
     s \<leftarrow> lock_proc me parent s;
     s \<leftarrow> remove_child parent c NULL (p_children (proc_at s parent)) s;
     Some (unlock_proc me parent s)}"

definition proc_fork :: "nat \<Rightarrow> u64 \<Rightarrow> u64 \<Rightarrow> u64 \<Rightarrow> u64 \<Rightarrow> 'b tasks_scheme \<Rightarrow> (int \<times> 'b tasks_scheme) option" where
  "proc_fork me entry parent parent_thread parent_ctx s =
     (if parent = NULL \<or> parent_thread = NULL \<or> parent_ctx = NULL then Some (- EINVAL, s)
      else do {
        let fail = (\<lambda>c s. map_option (Pair (- ENOMEM)) (proc_unref me c s));
        (c, s) \<leftarrow> proc_alloc me (Some (p_name (proc_at s parent))) (p_flags (proc_at s parent)) s;
        if c = NULL then Some (- ENOMEM, s)
        else do {
          (v, s) \<leftarrow> vm_op (vmm_fork (int me) (proc_vmm s parent)) s;
          let s = s\<lparr>proc_vmm := (proc_vmm s)(c := v)\<rparr>;
          if v = NULL then fail c s
          else do {
            (ft, s) \<leftarrow> fds_op (fdtable_clone (int me) (p_fdtable (proc_at s parent))) s;
            let s = upd_proc c (\<lambda>x. x\<lparr>p_fdtable := ft\<rparr>) s;
            if ft = NULL then fail c s
            else do {
              let pp = proc_at s parent;
              s \<leftarrow> (if p_argv pp \<noteq> NULL
                    then map_option snd (copy_argv_envp me c (p_argv pp) (p_argc pp) (p_envp pp) (p_envc pp) s) else Some s);
              let pp = proc_at s parent;
              let s = upd_proc c (\<lambda>x. x\<lparr>p_auxv := p_auxv pp, p_auxv_count := p_auxv_count pp, p_uid := p_uid pp,
                        p_gid := p_gid pp, p_parent := parent\<rparr>) s;
              s \<leftarrow> proc_add_child me parent c s;
              (t, s) \<leftarrow> thread_fork_from_syscall me entry c parent_thread parent_ctx s;
              if t = NULL then do { s \<leftarrow> proc_remove_child me parent c s; fail c s }
              else do {
                let pid = p_pid (proc_at s c);
                (_, s) \<leftarrow> sched_enqueue me t (upd_thread t (\<lambda>x. x\<lparr>t_state := THREAD_READY\<rparr>) s);
                Some (pid, s)}}}}})"

definition proc_reset_for_exec :: "nat \<Rightarrow> u64 \<Rightarrow> 'b tasks_scheme \<Rightarrow> 'b tasks_scheme option" where
  "proc_reset_for_exec me p s =
     (if p = NULL then Some s
      else do {
        s \<leftarrow> drop_vectors me p s;
        let s = upd_proc p (\<lambda>x. x\<lparr>p_auxv_count := 0\<rparr>) s;
        if 1 < p_thread_count (proc_at s p) then Some s
        else do {
          s \<leftarrow> (if proc_vmm s p \<noteq> NULL \<and> \<not> proc_flag (proc_at s p) PROC_FLAG_KERNEL
                then vm_do (vmm_destroy (int me) (proc_vmm s p)) s else Some s);
          (v, s) \<leftarrow> vm_op (vmm_create (int me)) s;
          Some (s\<lparr>proc_vmm := (proc_vmm s)(p := v)\<rparr>)}})"

section \<open>Exit and wait\<close>

text \<open>The loop of \<^verbatim>\<open>proc_exit\<close> that gives the children to init.\<close>

partial_function (option) reparent :: "nat \<Rightarrow> u64 \<Rightarrow> 'b tasks_scheme \<Rightarrow> 'b tasks_scheme option" where
  "reparent me c s =
     (if c = NULL then Some s
      else do {
        let next = p_sibling_next (proc_at s c);
        s \<leftarrow> lock_proc me c s;
        let s = unlock_proc me c (upd_proc c (\<lambda>x. x\<lparr>p_parent := init_proc s\<rparr>) s);
        s \<leftarrow> (if init_proc s \<noteq> NULL then proc_add_child me (init_proc s) c s else Some s);
        reparent me next s})"

definition wake_parent :: "nat \<Rightarrow> u64 \<Rightarrow> 'b tasks_scheme \<Rightarrow> 'b tasks_scheme option" where
  "wake_parent me p s =
     (if p \<noteq> NULL then map_option snd (waitqueue_wake_all me (wait_children p) s) else Some s)"

definition proc_exit :: "nat \<Rightarrow> u64 \<Rightarrow> int \<Rightarrow> 'b tasks_scheme \<Rightarrow> 'b tasks_scheme option" where
  "proc_exit me p code s = do {
     s \<leftarrow> lock_proc me p s;
     if p_state (proc_at s p) = PROC_ZOMBIE \<or> p_state (proc_at s p) = PROC_DEAD then Some (unlock_proc me p s)
     else do {
       let s = unlock_proc me p (upd_proc p (\<lambda>x. x\<lparr>p_state := PROC_ZOMBIE, p_exit_code := code\<rparr>) s);
       s \<leftarrow> reparent me (p_children (proc_at s p)) s;
       let s = upd_proc p (\<lambda>x. x\<lparr>p_children := NULL\<rparr>) s;
       s \<leftarrow> wake_parent me (p_parent (proc_at s p)) s;
       wake_parent me (init_proc s) s}}"

partial_function (option) unlink_thread :: "u64 \<Rightarrow> u64 \<Rightarrow> u64 \<Rightarrow> u64 \<Rightarrow> 'b tasks_scheme \<Rightarrow> 'b tasks_scheme option" where
  "unlink_thread p t prev cur s =
     (if cur = NULL then Some s
      else if cur = t
      then (let nx = ti_proc_next (tinfo_at s t)
            in Some (if prev = NULL then upd_proc p (\<lambda>x. x\<lparr>p_threads := nx\<rparr>) s else upd_tinfo prev (\<lambda>x. x\<lparr>ti_proc_next := nx\<rparr>) s))
      else unlink_thread p t cur (ti_proc_next (tinfo_at s cur)) s)"

definition proc_unlink_thread :: "nat \<Rightarrow> u64 \<Rightarrow> u64 \<Rightarrow> 'b tasks_scheme \<Rightarrow> 'b tasks_scheme option" where
  "proc_unlink_thread me p t s = do {
     s \<leftarrow> lock_proc me p s;
     s \<leftarrow> unlink_thread p t NULL (p_threads (proc_at s p)) s;
     Some (unlock_proc me p s)}"

definition thread_exit :: "nat \<Rightarrow> u64 \<Rightarrow> int \<Rightarrow> u64 \<Rightarrow> u64 \<Rightarrow> u64 \<Rightarrow> 'b tasks_scheme \<Rightarrow> 'b tasks_scheme option" where
  "thread_exit me t code now_ns tsc rsp s =
     (if t = NULL then Some s
      else do {
        let p = t_proc (thread_at s t);
        let is_self = (t = thread_current me s);
        (_, s) \<leftarrow> with_thread_lock me t (\<lambda>s. ((), upd_thread t (\<lambda>x. x\<lparr>t_exit_code := code, t_state := THREAD_ZOMBIE\<rparr>) s)) s;
        s \<leftarrow> lock_proc me p s;
        let s = upd_proc p (\<lambda>x. if 0 < p_live_thread_count x then x\<lparr>p_live_thread_count := p_live_thread_count x - 1\<rparr> else x) s;
        let last_thread = (p_live_thread_count (proc_at s p) = 0);
        let s = unlock_proc me p s;
        s \<leftarrow> (if last_thread then proc_exit me p code s else Some s);
        s \<leftarrow> proc_unlink_thread me p t s;
        if is_self then sched_exit_current me t code now_ns tsc rsp s else free_thread me t s})"

definition thread_destroy :: "nat \<Rightarrow> u64 \<Rightarrow> 'b tasks_scheme \<Rightarrow> 'b tasks_scheme option" where
  "thread_destroy me t s =
     (if t = NULL then Some s
      else do {
        (st, s) \<leftarrow> with_thread_lock me t (\<lambda>s. (t_state (thread_at s t), s)) s;
        if st \<noteq> THREAD_ZOMBIE \<and> st \<noteq> THREAD_DEAD then Some s
        else if t = thread_current me s then Some s
        else free_thread me t s})"

definition thread_exit_current :: "nat \<Rightarrow> u64 \<Rightarrow> u64 \<Rightarrow> u64 \<Rightarrow> 'b tasks_scheme \<Rightarrow> 'b tasks_scheme option" where
  "thread_exit_current me now_ns tsc rsp s = thread_exit me (thread_current me s) 0 now_ns tsc rsp s"

text \<open>The two searches of \<^verbatim>\<open>proc_wait\<close>: the first matching zombie with the child before it, and whether any child matches.\<close>

definition pid_matches :: "int \<Rightarrow> proc \<Rightarrow> bool" where
  "pid_matches pid x \<longleftrightarrow> pid = -1 \<or> p_pid x = pid"

partial_function (option) find_zombie :: "int \<Rightarrow> u64 \<Rightarrow> u64 \<Rightarrow> 'b tasks_scheme \<Rightarrow> (u64 \<times> u64) option" where
  "find_zombie pid prev iter s =
     (if iter = NULL then Some (NULL, prev)
      else if pid_matches pid (proc_at s iter) \<and> p_state (proc_at s iter) = PROC_ZOMBIE then Some (iter, prev)
      else find_zombie pid iter (p_sibling_next (proc_at s iter)) s)"

partial_function (option) has_match :: "int \<Rightarrow> u64 \<Rightarrow> 'b tasks_scheme \<Rightarrow> bool option" where
  "has_match pid iter s =
     (if iter = NULL then Some False
      else if pid_matches pid (proc_at s iter) then Some True
      else has_match pid (p_sibling_next (proc_at s iter)) s)"

text \<open>
  One round of the loop of \<^verbatim>\<open>proc_wait\<close>: \<open>Inl\<close> is the return value, with \<^verbatim>\<open>*status\<close> when a child was reaped; \<open>Inr\<close>
  says that the caller has to sleep on the wait queue and try again.
\<close>

definition wait_round :: "nat \<Rightarrow> u64 \<Rightarrow> int \<Rightarrow> 'b tasks_scheme \<Rightarrow> (((int \<times> int option) + unit) \<times> 'b tasks_scheme) option" where
  "wait_round me parent child_pid s = do {
     s \<leftarrow> lock_proc me parent s;
     (found, prev) \<leftarrow> find_zombie child_pid NULL (p_children (proc_at s parent)) s;
     if found = NULL
     then do {
       any \<leftarrow> has_match child_pid (p_children (proc_at s parent)) s;
       Some (if any then Inr () else Inl (- ECHILD, None), unlock_proc me parent s)}
     else do {
       let s = unlock_proc me parent (unlink_sibling parent prev (p_sibling_next (proc_at s found)) s);
       let pid = p_pid (proc_at s found);
       let status = p_exit_code (proc_at s found);
       s \<leftarrow> proc_unref me found (upd_proc found (\<lambda>x. x\<lparr>p_state := PROC_DEAD\<rparr>) s);
       Some (Inl (pid, Some status), s)}}"

text \<open>The part of \<^verbatim>\<open>proc_wait\<close> up to its return or to the point where another thread runs.\<close>

definition proc_wait :: "nat \<Rightarrow> u64 \<Rightarrow> int \<Rightarrow> u64 \<Rightarrow> u64 \<Rightarrow> u64 \<Rightarrow> 'b tasks_scheme \<Rightarrow>
    (((int \<times> int option) + unit) \<times> 'b tasks_scheme) option" where
  "proc_wait me parent child_pid now_ns tsc rsp s = do {
     (r, s) \<leftarrow> wait_round me parent child_pid s;
     case r of Inl x \<Rightarrow> Some (Inl x, s)
     | Inr _ \<Rightarrow> map_option (Pair (Inr ())) (waitqueue_sleep me (wait_children parent) now_ns tsc rsp s)}"

text \<open>\<open>init_fn\<close> is the address of \<^verbatim>\<open>init_proc_thread_fn\<close>.\<close>

definition task_create_init_proc :: "nat \<Rightarrow> u64 \<Rightarrow> u64 \<Rightarrow> 'b tasks_scheme \<Rightarrow> (u64 \<times> 'b tasks_scheme) option" where
  "task_create_init_proc me trampoline init_fn s = do {
     (p, s) \<leftarrow> proc_create_kernel me (Some ''init'') s;
     let s = s\<lparr>init_proc := p\<rparr>;
     if p = NULL then Some (NULL, s)
     else do {
       (t, s) \<leftarrow> thread_create me trampoline p init_fn NULL s;
       if t = NULL then Some (NULL, s)
       else do {
         (_, s) \<leftarrow> sched_enqueue me t (upd_thread t (\<lambda>x. x\<lparr>t_state := THREAD_READY\<rparr>) s);
         Some (init_proc s, s)}}}"

end
