(* ===== verification/Task_Props.thy ===== *)
theory Task_Props
  imports Task Slist
begin

text \<open>
  Properties of processes and threads: the process list, the children of a process and its threads
  as interpretations of the walk over links, the auxiliary vector as a bounded map, the first frame
  of a new thread, and exit and wait.
\<close>

section \<open>Field access\<close>

lemma upd_proc_simps [simp]:
  "proc_at (upd_proc p f s) = (proc_at s)(p := f (proc_at s p))" "tinfo_at (upd_proc p f s) = tinfo_at s"
  "proc_list_head (upd_proc p f s) = proc_list_head s" "proc_list_lock (upd_proc p f s) = proc_list_lock s"
  "init_proc (upd_proc p f s) = init_proc s" "thread_at (upd_proc p f s) = thread_at s" "cpus (upd_proc p f s) = cpus s"
  "wq_at (upd_proc p f s) = wq_at s" "proc_vmm (upd_proc p f s) = proc_vmm s" "node_at (upd_proc p f s) = node_at s"
  by (simp_all add: upd_proc_def)

lemma upd_tinfo_simps [simp]:
  "tinfo_at (upd_tinfo t f s) = (tinfo_at s)(t := f (tinfo_at s t))" "proc_at (upd_tinfo t f s) = proc_at s"
  by (simp_all add: upd_tinfo_def)

lemma upd_proc_same: "upd_proc p f (upd_proc p g s) = upd_proc p (\<lambda>x. f (g x)) s"
  by (simp add: upd_proc_def)

lemma upd_proc_id [simp]: "f (proc_at s p) = proc_at s p \<Longrightarrow> upd_proc p f s = s"
  by (simp add: upd_proc_def)

text \<open>A free lock is taken and given back.\<close>

lemma lock_proc_free:
  "lock_free (p_lock (proc_at s p)) \<Longrightarrow>
   lock_proc me p s = Some (upd_proc p (\<lambda>x. x\<lparr>p_lock := (p_lock x)\<lparr>locked := 1, owner := int me\<rparr>\<rparr>) s)"
  by (simp add: lock_proc_def upd_proc_def)

lemma unlock_proc_lock:
  assumes "lock_free (p_lock (proc_at s p))" and "\<And>x. p_lock (f x) = p_lock x"
    and "\<And>x l. f (x\<lparr>p_lock := l\<rparr>) = (f x)\<lparr>p_lock := l\<rparr>"
  shows "unlock_proc me p (upd_proc p f (upd_proc p (\<lambda>x. x\<lparr>p_lock := (p_lock x)\<lparr>locked := 1, owner := int me\<rparr>\<rparr>) s)) = upd_proc p f s"
proof -
  have own: "(f x)\<lparr>p_lock := p_lock x\<rparr> = f x" for x using assms(2) [of x] by (cases "f x") simp
  have "lock_release (int me) ((p_lock x)\<lparr>locked := 1, owner := int me\<rparr>) = p_lock x" if "x = proc_at s p" for x
    using assms(1) that by simp
  then show ?thesis by (simp add: unlock_proc_def upd_proc_def assms(2,3) own)
qed

lemma unlock_proc_lock0:
  "lock_free (p_lock (proc_at s p)) \<Longrightarrow>
   unlock_proc me p (upd_proc p (\<lambda>x. x\<lparr>p_lock := (p_lock x)\<lparr>locked := 1, owner := int me\<rparr>\<rparr>) s) = s"
  by (simp add: unlock_proc_def upd_proc_def)

section \<open>Links\<close>

interpretation plist: link_walk "\<lambda>s p. p_global_next (proc_at s p)" proc_list_head
  "\<lambda>p v. upd_proc p (\<lambda>x. x\<lparr>p_global_next := v\<rparr>)" "\<lambda>v s. s\<lparr>proc_list_head := v\<rparr>"
  "remove_proc :: u64 \<Rightarrow> u64 \<Rightarrow> u64 \<Rightarrow> 'b tasks_scheme \<Rightarrow> 'b tasks_scheme option"
  by unfold_locales (auto simp: Let_def intro: remove_proc.simps [THEN trans])

interpretation kids: link_walk "\<lambda>s p. p_sibling_next (proc_at s p)" "\<lambda>s. p_children (proc_at s parent)"
  "\<lambda>p v. upd_proc p (\<lambda>x. x\<lparr>p_sibling_next := v\<rparr>)" "\<lambda>v. upd_proc parent (\<lambda>x. x\<lparr>p_children := v\<rparr>)"
  "remove_child parent :: u64 \<Rightarrow> u64 \<Rightarrow> u64 \<Rightarrow> 'b tasks_scheme \<Rightarrow> 'b tasks_scheme option" for parent
  by unfold_locales (auto simp: unlink_sibling_def intro: remove_child.simps [THEN trans])

interpretation tlist: link_walk "\<lambda>s t. ti_proc_next (tinfo_at s t)" "\<lambda>s. p_threads (proc_at s p)"
  "\<lambda>t v. upd_tinfo t (\<lambda>x. x\<lparr>ti_proc_next := v\<rparr>)" "\<lambda>v. upd_proc p (\<lambda>x. x\<lparr>p_threads := v\<rparr>)"
  "unlink_thread p :: u64 \<Rightarrow> u64 \<Rightarrow> u64 \<Rightarrow> 'b tasks_scheme \<Rightarrow> 'b tasks_scheme option" for p
  by unfold_locales (auto simp: Let_def intro: unlink_thread.simps [THEN trans])

section \<open>Frames\<close>

lemma unat_negated: "unat (- d :: u64) = (if d = 0 then 0 else 2 ^ 64 - unat d)"
  using unat_sub_if' [of 0 d] by (auto simp: unat_eq_0)

lemma unat_numeral_8: "unat (8 :: u64) = 8"
  by simp

lemma get64_other:
  assumes "8 \<le> b - a" and "8 \<le> a - b"
  shows "get64 (put64 a w m) b = get64 m b"
proof (rule get64_cong)
  fix i :: nat assume i: "i < 8"
  define d where "d = b - a"
  have d: "8 \<le> unat d" "8 \<le> unat (- d)" using assms by (simp_all add: d_def word_le_nat_alt)
  have lt: "unat d + i < 2 ^ 64" using d(2) i unat_negated [of d] by (auto split: if_splits)
  have u: "unat (of_nat i :: u64) = i" using i by (simp add: unat_of_nat)
  have "unat (d + of_nat i) = unat d + i" using lt u unat_add_lem [of d "of_nat i"] by simp
  moreover have "b + of_nat i - a = d + of_nat i" by (simp add: d_def)
  ultimately have "8 \<le> unat (b + of_nat i - a)" using d(1) by (metis trans_le_add1)
  then show "put64 a w m (b + of_nat i) = m (b + of_nat i)" by (rule put64_outside)
qed

lemma push_simps [simp]: "fst (push w c) = fst c - 8" "snd (push w c) = put64 (fst c - 8) w (snd c)"
  by (simp_all add: push_def split_beta)

lemma pushed_sp: "fst (fold push ws c) = fst c - 8 * of_nat (length ws)"
  by (induction ws arbitrary: c) (simp_all add: algebra_simps)

lemma pushed_word:
  "length ws < 2 ^ 60 \<Longrightarrow> j < length ws \<Longrightarrow>
   get64 (snd (fold push ws c)) (fst (fold push ws c) + 8 * of_nat j) = rev ws ! j"
proof (induction ws arbitrary: j rule: rev_induct)
  case (snoc w ws)
  show ?case
  proof (cases j)
    case 0
    then show ?thesis by (simp add: get_put64)
  next
    case (Suc k)
    let ?sp = "fst (fold push ws c)"
    have "unat (8 * of_nat (Suc k) :: u64) = 8 * Suc k"
      using snoc.prems Suc by (simp add: unat_word_ariths unat_of_nat del: of_nat_Suc)
    then have d: "8 \<le> (8 * of_nat (Suc k) :: u64)" "8 \<le> - (8 * of_nat (Suc k) :: u64)"
      using snoc.prems Suc by (auto simp: word_le_nat_alt unat_negated simp del: of_nat_Suc)
    have "?sp - 8 + 8 * of_nat j - (?sp - 8) = 8 * of_nat (Suc k)" "?sp - 8 - (?sp - 8 + 8 * of_nat j) = - (8 * of_nat (Suc k))"
      using Suc by (simp_all del: of_nat_Suc)
    then have "get64 (put64 (?sp - 8) w (snd (fold push ws c))) (?sp - 8 + 8 * of_nat j)
      = get64 (snd (fold push ws c)) (?sp - 8 + 8 * of_nat j)"
      using d by (intro get64_other) (simp_all only:)
    moreover have "?sp - 8 + 8 * of_nat j = ?sp + 8 * of_nat k" using Suc by (simp add: algebra_simps)
    ultimately show ?thesis using snoc.IH [of k] snoc.prems Suc by simp
  qed
qed simp

lemma pushed_outside:
  "length ws < 2 ^ 60 \<Longrightarrow> 8 * length ws \<le> unat (x - fst (fold push ws c)) \<Longrightarrow> snd (fold push ws c) x = snd c x"
proof (induction ws rule: rev_induct)
  case (snoc w ws)
  let ?sp = "fst (fold push ws c)"
  have le: "8 * length ws + 8 \<le> unat (x - (?sp - 8))" using snoc.prems by simp
  have "unat (x - ?sp) = unat (x - (?sp - 8)) - 8"
  proof -
    have "x - ?sp = (x - (?sp - 8)) - 8" by simp
    moreover have "unat ((x - (?sp - 8)) - 8) = unat (x - (?sp - 8)) - unat (8 :: u64)"
      by (rule unat_sub) (use le in \<open>simp add: word_le_nat_alt\<close>)
    ultimately show ?thesis by (metis unat_numeral_8)
  qed
  then have "snd (fold push ws c) x = snd c x" using snoc le by simp
  then show ?case using le by (simp add: put64_outside)
qed simp

text \<open>
  C40. A new thread starts where it should: when \<^verbatim>\<open>context_switch\<close> leaves for the stack pointer that \<open>build_bootstrap_frame\<close>
  returns, it returns to the given address with \<^verbatim>\<open>rbx\<close> and \<^verbatim>\<open>r12\<close> as given, interrupts enabled and the stack empty
  again; outside the 64 bytes of the frame memory is as before.
\<close>

theorem bootstrap_frame_starts_thread:
  "case build_bootstrap_frame stack_end return_addr rbx_val r12_val m of (sp, m') \<Rightarrow>
     context_restore m' sp = \<lparr>g_rflags = 0x202, g_r15 = 0, g_r14 = 0, g_r13 = 0, g_r12 = r12_val, g_rbx = rbx_val, g_rbp = 0,
       g_rip = return_addr, g_rsp = stack_end\<rparr> \<and>
     {x. m' x \<noteq> m x} \<subseteq> {x. x - sp < 64}"
proof -
  let ?ws = "[return_addr, 0, rbx_val, r12_val, 0, 0, 0, 0x202]"
  define c where "c = fold push ?ws (stack_end, m)"
  have sp: "fst c = stack_end - 64" unfolding c_def pushed_sp by simp
  have w: "get64 (snd c) (fst c + 8 * of_nat j) = rev ?ws ! j" if "j < 8" for j
    unfolding c_def using that by (intro pushed_word) simp_all
  have "get64 (snd c) (fst c) = 0x202" using w [of 0] by simp
  moreover have "get64 (snd c) (fst c + 8) = 0" "get64 (snd c) (fst c + 16) = 0" "get64 (snd c) (fst c + 24) = 0"
    "get64 (snd c) (fst c + 32) = r12_val" "get64 (snd c) (fst c + 40) = rbx_val" "get64 (snd c) (fst c + 48) = 0"
    "get64 (snd c) (fst c + 56) = return_addr"
    using w [of 1] w [of 2] w [of 3] w [of 4] w [of 5] w [of 6] w [of 7] by simp_all
  moreover have "snd c x = m x" if "\<not> x - fst c < 64" for x
    unfolding c_def using that pushed_outside [of ?ws x "(stack_end, m)"] by (simp add: c_def word_less_nat_alt)
  ultimately show ?thesis
    unfolding build_bootstrap_frame_def c_def [symmetric] by (auto simp: split_beta context_restore_def sp)
qed

text \<open>
  Switching away and back changes nothing: what \<open>context_save\<close> leaves on the stack, \<open>context_restore\<close> takes from it, and
  the return address on top of the old stack is where the thread goes on.
\<close>

theorem context_switch_roundtrip:
  "case context_save r m of (sp, m') \<Rightarrow> context_restore m' sp = r\<lparr>g_rip := get64 m (g_rsp r), g_rsp := g_rsp r + 8\<rparr>"
proof -
  let ?ws = "[g_rbp r, g_rbx r, g_r12 r, g_r13 r, g_r14 r, g_r15 r, g_rflags r]"
  define c where "c = fold push ?ws (g_rsp r, m)"
  have sp: "fst c = g_rsp r - 56" unfolding c_def pushed_sp by simp
  have w: "get64 (snd c) (fst c + 8 * of_nat j) = rev ?ws ! j" if "j < 7" for j
    unfolding c_def using that by (intro pushed_word) simp_all
  have "get64 (snd c) (fst c) = g_rflags r" using w [of 0] by simp
  moreover have "get64 (snd c) (fst c + 8) = g_r15 r" "get64 (snd c) (fst c + 16) = g_r14 r" "get64 (snd c) (fst c + 24) = g_r13 r"
    "get64 (snd c) (fst c + 32) = g_r12 r" "get64 (snd c) (fst c + 40) = g_rbx r" "get64 (snd c) (fst c + 48) = g_rbp r"
    using w [of 1] w [of 2] w [of 3] w [of 4] w [of 5] w [of 6] by simp_all
  moreover have "get64 (snd c) (fst c + 56) = get64 m (g_rsp r)"
  proof (rule get64_cong)
    fix i :: nat assume "i < 8"
    then have "unat (fst c + 56 + of_nat i - fst c) = 56 + i" by (simp add: unat_word_ariths unat_of_nat)
    then have "snd c (fst c + 56 + of_nat i) = m (fst c + 56 + of_nat i)"
      using pushed_outside [of ?ws "fst c + 56 + of_nat i" "(g_rsp r, m)"] unfolding c_def [symmetric] by simp
    then show "snd c (fst c + 56 + of_nat i) = m (g_rsp r + of_nat i)" by (simp add: sp)
  qed
  ultimately show ?thesis
    unfolding context_save_def c_def [symmetric] by (simp add: split_beta context_restore_def sp)
qed

section \<open>The auxiliary vector as a bounded map\<close>

definition auxv_map :: "proc \<Rightarrow> int \<Rightarrow> u64 option" where
  "auxv_map x = map_of (map (p_auxv x) [0 ..< p_auxv_count x])"

definition auxv_ok :: "proc \<Rightarrow> bool" where
  "auxv_ok x \<longleftrightarrow> p_auxv_count x \<le> MAX_AUXV \<and> distinct (map (\<lambda>i. fst (p_auxv x i)) [0 ..< p_auxv_count x])"

lemma map_of_find: "map_of (map f is) k = map_option (\<lambda>i. snd (f i)) (find (\<lambda>i. fst (f i) = k) is)"
  by (induction "is") (auto simp: fun_upd_def split: prod.split)

lemma auxv_map_index: "auxv_map x k = map_option (\<lambda>i. snd (p_auxv x i)) (auxv_index x k)"
  unfolding auxv_map_def auxv_index_def by (rule map_of_find)

lemma auxv_index_lock [simp]: "auxv_index (x\<lparr>p_lock := l\<rparr>) k = auxv_index x k"
  by (simp add: auxv_index_def)

lemma auxv_index_Some: "auxv_index x k = Some i \<Longrightarrow> i < p_auxv_count x \<and> fst (p_auxv x i) = k"
  by (auto simp: auxv_index_def find_Some_iff)

lemma auxv_index_None: "auxv_index x k = None \<longleftrightarrow> k \<notin> (\<lambda>i. fst (p_auxv x i)) ` {0 ..< p_auxv_count x}"
  by (auto simp: auxv_index_def find_None_iff)

lemma auxv_card: "auxv_ok x \<Longrightarrow> card (dom (auxv_map x)) = p_auxv_count x"
  using distinct_card [of "map (\<lambda>i. fst (p_auxv x i)) [0 ..< p_auxv_count x]"]
  by (simp add: auxv_map_def auxv_ok_def dom_map_of_conv_image_fst image_image)

lemma auxv_overwrite:
  assumes i: "auxv_index x k = Some i"
  shows "auxv_map (x\<lparr>p_auxv := (p_auxv x)(i := (k, v))\<rparr>) = (auxv_map x)(k \<mapsto> v)"
    and "auxv_ok x \<Longrightarrow> auxv_ok (x\<lparr>p_auxv := (p_auxv x)(i := (k, v))\<rparr>)"
proof -
  let ?y = "x\<lparr>p_auxv := (p_auxv x)(i := (k, v))\<rparr>"
  have key: "fst (p_auxv ?y j) = fst (p_auxv x j)" for j using auxv_index_Some [OF i] by simp
  have idx: "auxv_index ?y j = auxv_index x j" for j unfolding auxv_index_def key by simp
  show "auxv_map ?y = (auxv_map x)(k \<mapsto> v)"
  proof
    fix j show "auxv_map ?y j = ((auxv_map x)(k \<mapsto> v)) j"
      using auxv_index_Some [of x j] auxv_index_Some [OF i] i
      by (cases "auxv_index x j") (auto simp: auxv_map_index idx)
  qed
  show "auxv_ok x \<Longrightarrow> auxv_ok ?y" unfolding auxv_ok_def key by simp
qed

lemma auxv_append:
  fixes v :: u64
  assumes "auxv_index x k = None"
  defines "y \<equiv> x\<lparr>p_auxv := (p_auxv x)(p_auxv_count x := (k, v)), p_auxv_count := p_auxv_count x + 1\<rparr>"
  shows "auxv_map y = (auxv_map x)(k \<mapsto> v)"
    and "auxv_ok x \<Longrightarrow> p_auxv_count x < MAX_AUXV \<Longrightarrow> auxv_ok y"
proof -
  let ?n = "p_auxv_count x"
  have y: "p_auxv_count y = Suc ?n" "p_auxv y ?n = (k, v)" "j < ?n \<Longrightarrow> p_auxv y j = p_auxv x j" for j
    by (simp_all add: y_def)
  have m: "map f [0 ..< Suc ?n] = map g [0 ..< ?n] @ [f ?n]" if "\<And>j. j < ?n \<Longrightarrow> f j = g j" for f g :: "nat \<Rightarrow> 'z"
    using that by (simp add: list_eq_iff_nth_eq nth_append)
  have "auxv_map x k = None" using assms(1) by (simp add: auxv_map_index)
  moreover have "map (p_auxv y) [0 ..< Suc ?n] = map (p_auxv x) [0 ..< ?n] @ [(k, v)]"
    using m [of "p_auxv y" "p_auxv x"] y(2,3) by simp
  then have "auxv_map y = map_of [(k, v)] ++ map_of (map (p_auxv x) [0 ..< ?n])"
    unfolding auxv_map_def y(1) by (simp only: map_of_append)
  ultimately show "auxv_map y = (auxv_map x)(k \<mapsto> v)"
    by (auto simp: auxv_map_def map_add_def fun_eq_iff split: option.split)
  have keys: "map (\<lambda>i. fst (p_auxv y i)) [0 ..< Suc ?n] = map (\<lambda>i. fst (p_auxv x i)) [0 ..< ?n] @ [fst (p_auxv y ?n)]"
    by (rule m) (simp add: y(3))
  show "auxv_ok x \<Longrightarrow> ?n < MAX_AUXV \<Longrightarrow> auxv_ok y"
    unfolding auxv_ok_def y(1) keys using assms(1) by (simp add: y(2) auxv_index_None)
qed

text \<open>
  C39. The auxiliary vector of a process is a map of at most 32 keys: \<open>proc_set_auxv\<close> stores the value under its key, over
  the old one if there is one, unless 32 other keys are there, in which case it says so and changes nothing;
  \<open>proc_get_auxv\<close> then reads what the map holds, 0 for an absent key. Nothing else of the state changes.
\<close>

theorem auxv_refines_map:
  assumes "p \<noteq> NULL" and "lock_free (p_lock (proc_at s p))" and "auxv_ok (proc_at s p)"
  shows "\<exists>r t. proc_set_auxv me p key v s = Some (r, t) \<and>
    (if key \<in> dom (auxv_map (proc_at s p)) \<or> card (dom (auxv_map (proc_at s p))) < MAX_AUXV
     then r = EOK \<and> auxv_map (proc_at t p) = (auxv_map (proc_at s p))(key \<mapsto> v) \<and> auxv_ok (proc_at t p) \<and>
       t = upd_proc p (\<lambda>x. x\<lparr>p_auxv := p_auxv (proc_at t p), p_auxv_count := p_auxv_count (proc_at t p)\<rparr>) s
     else r = - ENOMEM \<and> t = s) \<and>
    proc_get_auxv me p k t = Some (case auxv_map (proc_at t p) k of None \<Rightarrow> 0 | Some u \<Rightarrow> u, t)"
proof -
  let ?x = "proc_at s p"
  note free = lock_proc_free [OF assms(2), of me]
  have set_as: "proc_set_auxv me p key v s = (case auxv_index ?x key of
      Some i \<Rightarrow> Some (EOK, upd_proc p (\<lambda>x. x\<lparr>p_auxv := (p_auxv x)(i := (key, v))\<rparr>) s)
    | None \<Rightarrow> if MAX_AUXV \<le> p_auxv_count ?x then Some (- ENOMEM, s)
        else Some (EOK, upd_proc p (\<lambda>x. x\<lparr>p_auxv := (p_auxv x)(p_auxv_count x := (key, v)), p_auxv_count := p_auxv_count x + 1\<rparr>) s))"
    using assms(1) by (simp add: proc_set_auxv_def free unlock_proc_lock [OF assms(2)] unlock_proc_lock0 [OF assms(2)] split: option.split)
  have get_as: "proc_get_auxv me p k t = Some (case auxv_map (proc_at t p) k of None \<Rightarrow> 0 | Some u \<Rightarrow> u, t)"
    if "lock_free (p_lock (proc_at t p))" for t :: "'a tasks_scheme"
    using assms(1)
    by (simp add: proc_get_auxv_def lock_proc_free [OF that] unlock_proc_lock0 [OF that] auxv_map_index split: option.split)
  show ?thesis
  proof (cases "auxv_index ?x key")
    case (Some i)
    let ?t = "upd_proc p (\<lambda>x. x\<lparr>p_auxv := (p_auxv x)(i := (key, v))\<rparr>) s"
    have "key \<in> dom (auxv_map ?x)" using Some by (auto simp: auxv_map_index)
    moreover have "proc_get_auxv me p k ?t = Some (case auxv_map (proc_at ?t p) k of None \<Rightarrow> 0 | Some u \<Rightarrow> u, ?t)"
      by (rule get_as) (simp add: assms(2))
    moreover have "proc_set_auxv me p key v s = Some (EOK, ?t)" using Some by (simp add: set_as)
    moreover have "?t = upd_proc p (\<lambda>x. x\<lparr>p_auxv := p_auxv (proc_at ?t p), p_auxv_count := p_auxv_count (proc_at ?t p)\<rparr>) s"
      by (simp add: upd_proc_def)
    ultimately show ?thesis
      using auxv_overwrite(1) [OF Some, of v] auxv_overwrite(2) [OF Some assms(3), of v] by (intro exI [of _ EOK] exI [of _ ?t]) auto
  next
    case None
    have n: "key \<notin> dom (auxv_map ?x)" using None by (auto simp: auxv_map_index)
    show ?thesis
    proof (cases "p_auxv_count ?x < MAX_AUXV")
      case True
      let ?t = "upd_proc p (\<lambda>x. x\<lparr>p_auxv := (p_auxv x)(p_auxv_count x := (key, v)), p_auxv_count := p_auxv_count x + 1\<rparr>) s"
      have "proc_get_auxv me p k ?t = Some (case auxv_map (proc_at ?t p) k of None \<Rightarrow> 0 | Some u \<Rightarrow> u, ?t)"
        by (rule get_as) (simp add: assms(2))
      moreover have "proc_set_auxv me p key v s = Some (EOK, ?t)" using None True by (simp add: set_as)
      moreover have "?t = upd_proc p (\<lambda>x. x\<lparr>p_auxv := p_auxv (proc_at ?t p), p_auxv_count := p_auxv_count (proc_at ?t p)\<rparr>) s"
        by (simp add: upd_proc_def)
      ultimately show ?thesis
        using auxv_append(1) [OF None, of v] auxv_append(2) [OF None assms(3) True, of v] True
        by (intro exI [of _ EOK] exI [of _ ?t]) (auto simp: auxv_card [OF assms(3)])
    next
      case False
      then have "proc_set_auxv me p key v s = Some (- ENOMEM, s)" using None by (simp add: set_as)
      then show ?thesis using n False get_as [OF assms(2)] by (simp add: auxv_card [OF assms(3)])
    qed
  qed
qed

theorem auxv_refines_map_witness:
  "\<forall>s :: tasks. \<exists>t. proc_set_auxv 0 0x8000 6 4096 (s\<lparr>proc_at := \<lambda>_. zero_proc\<rparr>) = Some (EOK, t) \<and>
     proc_get_auxv 0 0x8000 6 t = Some (4096, t)"
proof
  fix s :: tasks
  define u where "u = s\<lparr>proc_at := \<lambda>_. zero_proc\<rparr>"
  have u: "lock_free (p_lock (proc_at u 0x8000))" "auxv_ok (proc_at u 0x8000)" "auxv_map (proc_at u 0x8000) = Map.empty"
    by (simp_all add: u_def zero_proc_def auxv_ok_def auxv_map_def)
  have nz: "(0x8000 :: u64) \<noteq> NULL" by simp
  obtain r t where "proc_set_auxv 0 0x8000 6 4096 u = Some (r, t)" "r = EOK" "auxv_map (proc_at t 0x8000) = [6 \<mapsto> 4096]"
    "proc_get_auxv 0 0x8000 6 t = Some (case auxv_map (proc_at t 0x8000) 6 of None \<Rightarrow> 0 | Some u \<Rightarrow> u, t)"
    using auxv_refines_map [OF nz u(1,2), of 0 6 4096 6] by (auto simp only: u(3) dom_empty card.empty if_True if_False simp_thms zero_less_numeral)
  then show "\<exists>t. proc_set_auxv 0 0x8000 6 4096 (s\<lparr>proc_at := \<lambda>_. zero_proc\<rparr>) = Some (EOK, t) \<and> proc_get_auxv 0 0x8000 6 t = Some (4096, t)"
    unfolding u_def [symmetric] by simp
qed

section \<open>The process list\<close>

definition procs :: "'b tasks_scheme \<Rightarrow> u64 list \<Rightarrow> bool" where
  "procs s xs \<longleftrightarrow> chain (\<lambda>p. p_global_next (proc_at s p)) (proc_list_head s) xs \<and> distinct xs \<and> lock_free (proc_list_lock s)"

text \<open>Two states whose processes differ at most in the links of the process list.\<close>

definition same_procs :: "'b tasks_scheme \<Rightarrow> 'b tasks_scheme \<Rightarrow> bool" where
  "same_procs t s \<longleftrightarrow> (\<exists>f. t = s\<lparr>proc_at := \<lambda>q. (proc_at s q)\<lparr>p_global_next := f q\<rparr>, proc_list_head := proc_list_head t\<rparr>)"

lemma lock_list_free:
  "lock_free (proc_list_lock s) \<Longrightarrow>
   lock_list me s = Some (s\<lparr>proc_list_lock := (proc_list_lock s)\<lparr>locked := 1, owner := int me\<rparr>\<rparr>)"
  by (simp add: lock_list_def)

lemma own_link: "(proc_at s)(p := (proc_at s p)\<lparr>p_global_next := v\<rparr>) =
   (\<lambda>q. (proc_at s q)\<lparr>p_global_next := if q = p then v else p_global_next (proc_at s q)\<rparr>)"
  by (rule ext) simp

lemma proc_list_add_refines:
  assumes "procs s xs" and "p \<noteq> NULL" and "p \<notin> set xs"
  obtains t where "proc_list_add me p s = Some t" "procs t (p # xs)" "same_procs t s"
proof -
  let ?t = "(upd_proc p (\<lambda>x. x\<lparr>p_global_next := proc_list_head s\<rparr>) s)\<lparr>proc_list_head := p\<rparr>"
  have l: "lock_free (proc_list_lock s)" and c: "chain (\<lambda>p. p_global_next (proc_at s p)) (proc_list_head s) xs" and "distinct xs"
    using assms(1) by (simp_all add: procs_def)
  have "proc_list_add me p s = Some ?t"
    using l by (simp add: proc_list_add_def lock_list_free unlock_list_def upd_proc_def)
  moreover have "chain (\<lambda>q. p_global_next (proc_at ?t q)) (proc_list_head s) xs"
    using c by (rule chain_cong [THEN iffD2, rotated]) (use assms(3) in auto)
  then have "procs ?t (p # xs)" using l assms \<open>distinct xs\<close> by (simp add: procs_def)
  moreover have "same_procs ?t s" unfolding same_procs_def
    by (rule exI [of _ "\<lambda>q. if q = p then proc_list_head s else p_global_next (proc_at s q)"])
      (simp add: upd_proc_def own_link)
  ultimately show thesis by (rule that)
qed

lemma remove_proc_refines:
  assumes "procs s xs"
  obtains t where "proc_list_remove me p s = Some t" "procs t (remove1 p xs)" "same_procs t s"
proof -
  let ?l = "\<lambda>s. s\<lparr>proc_list_lock := (proc_list_lock s)\<lparr>locked := 1, owner := int me\<rparr>\<rparr>"
  have l: "lock_free (proc_list_lock s)" and c: "chain (\<lambda>p. p_global_next (proc_at (?l s) p)) (proc_list_head (?l s)) xs"
    and d: "distinct xs" using assms by (simp_all add: procs_def)
  obtain u where u: "remove_proc p NULL (proc_list_head (?l s)) (?l s) = Some u"
    "chain (\<lambda>p. p_global_next (proc_at u p)) (proc_list_head u) (remove1 p xs)"
    "u = ?l s \<or> (\<exists>v. u = (?l s)\<lparr>proc_list_head := v\<rparr>) \<or>
      (\<exists>q v. q \<in> set xs \<and> q \<noteq> NULL \<and> u = upd_proc q (\<lambda>x. x\<lparr>p_global_next := v\<rparr>) (?l s))"
    by (rule plist.walk_removes [OF c d])
  let ?t = "unlock_list me u"
  have lu: "proc_list_lock u = proc_list_lock (?l s)" using u(3) by auto
  have "proc_list_remove me p s = Some ?t" using u(1) l by (simp add: proc_list_remove_def lock_list_free)
  moreover have "procs ?t (remove1 p xs)" using u(2) d l lu by (simp add: procs_def unlock_list_def)
  moreover have "same_procs ?t s"
    using u(3)
  proof (elim disjE exE conjE)
    assume "u = ?l s"
    then show ?thesis using l unfolding same_procs_def
      by (intro exI [of _ "\<lambda>q. p_global_next (proc_at s q)"]) (simp add: unlock_list_def)
  next
    fix v assume "u = (?l s)\<lparr>proc_list_head := v\<rparr>"
    then show ?thesis using l unfolding same_procs_def
      by (intro exI [of _ "\<lambda>q. p_global_next (proc_at s q)"]) (simp add: unlock_list_def)
  next
    fix q v assume "u = upd_proc q (\<lambda>x. x\<lparr>p_global_next := v\<rparr>) (?l s)"
    then show ?thesis using l unfolding same_procs_def
      by (intro exI [of _ "\<lambda>r. if r = q then v else p_global_next (proc_at s r)"])
        (simp add: unlock_list_def upd_proc_def own_link)
  qed
  ultimately show thesis by (rule that)
qed

lemma lookup_proc_finds:
  "chain (\<lambda>p. p_global_next (proc_at s p)) h xs \<Longrightarrow>
   lookup_proc pid h s = Some (case find (\<lambda>p. p_pid (proc_at s p) = pid) xs of None \<Rightarrow> NULL | Some p \<Rightarrow> p)"
proof (induction xs arbitrary: h)
  case Nil
  then show ?case by (subst lookup_proc.simps) simp
next
  case (Cons x xs)
  then show ?case by (subst lookup_proc.simps) auto
qed

text \<open>
  C38. The process list is a list: \<open>proc_list_add\<close> puts a new process in front, \<open>proc_list_remove\<close> takes a process out, or
  changes nothing when it is not there, and \<open>proc_lookup\<close> returns the first process with the given number, \<open>NULL\<close> when
  there is none. All three return, with the lock released, and change nothing but the links.
\<close>

theorem proc_list_refines:
  assumes "procs s xs"
  shows "(p \<noteq> NULL \<and> p \<notin> set xs \<longrightarrow> (\<exists>t. proc_list_add me p s = Some t \<and> procs t (p # xs) \<and> same_procs t s)) \<and>
    (\<exists>t. proc_list_remove me p s = Some t \<and> procs t (remove1 p xs) \<and> same_procs t s) \<and>
    proc_lookup me pid s = Some (case find (\<lambda>p. p_pid (proc_at s p) = pid) xs of None \<Rightarrow> NULL | Some p \<Rightarrow> p, s)"
proof (intro conjI impI)
  assume "p \<noteq> NULL \<and> p \<notin> set xs"
  then show "\<exists>t. proc_list_add me p s = Some t \<and> procs t (p # xs) \<and> same_procs t s"
    by (metis proc_list_add_refines [OF assms])
next
  show "\<exists>t. proc_list_remove me p s = Some t \<and> procs t (remove1 p xs) \<and> same_procs t s"
    by (metis remove_proc_refines [OF assms])
next
  have l: "lock_free (proc_list_lock s)" and c: "chain (\<lambda>p. p_global_next (proc_at s p)) (proc_list_head s) xs"
    using assms by (simp_all add: procs_def)
  show "proc_lookup me pid s = Some (case find (\<lambda>p. p_pid (proc_at s p) = pid) xs of None \<Rightarrow> NULL | Some p \<Rightarrow> p, s)"
    using lookup_proc_finds [of "s\<lparr>proc_list_lock := (proc_list_lock s)\<lparr>locked := 1, owner := int me\<rparr>\<rparr>", of "proc_list_head s" xs pid] c l
    by (simp add: proc_lookup_def lock_list_free unlock_list_def)
qed

theorem proc_list_refines_witness:
  "\<forall>s :: tasks. let s = s\<lparr>proc_at := (\<lambda>p. zero_proc\<lparr>p_pid := if p = 0x8000 then 7 else 8\<rparr>), proc_list_head := 0x8000,
       proc_list_lock := SPINLOCK_INIT\<rparr>
     in proc_lookup 0 7 s = Some (0x8000, s) \<and> (\<exists>t. proc_list_add 0 0x9000 s = Some t \<and> procs t [0x9000, 0x8000]) \<and>
       (\<exists>t. proc_list_remove 0 0x9000 s = Some t \<and> procs t [0x8000])"
proof
  fix s :: tasks
  define t where "t = s\<lparr>proc_at := (\<lambda>p. zero_proc\<lparr>p_pid := if p = 0x8000 then 7 else 8\<rparr>), proc_list_head := 0x8000,
       proc_list_lock := SPINLOCK_INIT\<rparr>"
  have "procs t [0x8000]" by (simp add: procs_def t_def zero_proc_def)
  from proc_list_refines [OF this, of "0x9000" 0 7]
  show "let s = s\<lparr>proc_at := (\<lambda>p. zero_proc\<lparr>p_pid := if p = 0x8000 then 7 else 8\<rparr>), proc_list_head := 0x8000,
       proc_list_lock := SPINLOCK_INIT\<rparr>
     in proc_lookup 0 7 s = Some (0x8000, s) \<and> (\<exists>t. proc_list_add 0 0x9000 s = Some t \<and> procs t [0x9000, 0x8000]) \<and>
       (\<exists>t. proc_list_remove 0 0x9000 s = Some t \<and> procs t [0x8000])"
    unfolding t_def [symmetric] Let_def by (auto simp: t_def zero_proc_def)
qed

end
