(* ===== verification/Task_Family.thy ===== *)
theory Task_Family
  imports Task_Props
begin

text \<open>
  Parents and children: the list of children of a process, what \<^verbatim>\<open>proc_exit\<close> does with the children of a
  process and with those who wait for it, and which child \<^verbatim>\<open>proc_wait\<close> reaps.
\<close>

section \<open>The list of children\<close>

definition children :: "'b tasks_scheme \<Rightarrow> u64 \<Rightarrow> u64 list \<Rightarrow> bool" where
  "children s p cs \<longleftrightarrow> chain (\<lambda>c. p_sibling_next (proc_at s c)) (p_children (proc_at s p)) cs"

lemma children_cong:
  assumes "p_children (proc_at t p) = p_children (proc_at s p)"
    and "\<And>c. c \<in> set cs \<Longrightarrow> p_sibling_next (proc_at t c) = p_sibling_next (proc_at s c)"
  shows "children t p cs = children s p cs"
  unfolding children_def assms(1) by (rule chain_cong) (rule assms(2))

text \<open>What a process keeps when its place in the family changes.\<close>

definition self_of :: "proc \<Rightarrow> proc" where
  "self_of x = x\<lparr>p_parent := NULL, p_sibling_next := NULL, p_children := NULL\<rparr>"

lemma self_of_fields:
  "self_of x = self_of y \<Longrightarrow> p_lock x = p_lock y"
  "self_of x = self_of y \<Longrightarrow> p_state x = p_state y"
  "self_of x = self_of y \<Longrightarrow> p_exit_code x = p_exit_code y"
  by (drule arg_cong [of _ _ p_lock], simp add: self_of_def)
    (drule arg_cong [of _ _ p_state], simp add: self_of_def,
     drule arg_cong [of _ _ p_exit_code], simp add: self_of_def)

text \<open>One turn of the loop of \<^verbatim>\<open>proc_exit\<close>: process \<open>i\<close> becomes the parent of \<open>c\<close>.\<close>

definition adopt :: "u64 \<Rightarrow> u64 \<Rightarrow> 'b tasks_scheme \<Rightarrow> 'b tasks_scheme" where
  "adopt i c s = s\<lparr>proc_at := (proc_at s)(c := (proc_at s c)\<lparr>p_parent := i, p_sibling_next := p_children (proc_at s i)\<rparr>,
     i := (proc_at s i)\<lparr>p_children := c\<rparr>)\<rparr>"

lemma proc_add_child_free:
  assumes "lock_free (p_lock (proc_at s i))" and "c \<noteq> i"
  shows "proc_add_child me i c s = Some (s\<lparr>proc_at := (proc_at s)(c := (proc_at s c)\<lparr>p_sibling_next := p_children (proc_at s i)\<rparr>,
     i := (proc_at s i)\<lparr>p_children := c\<rparr>)\<rparr>)"
  using assms by (simp add: proc_add_child_def lock_proc_free unlock_proc_def upd_proc_def fun_upd_twist)

lemma adopt_simps [simp]:
  assumes "c \<noteq> i"
  shows "proc_at (adopt i c s) c = (proc_at s c)\<lparr>p_parent := i, p_sibling_next := p_children (proc_at s i)\<rparr>"
    "proc_at (adopt i c s) i = (proc_at s i)\<lparr>p_children := c\<rparr>"
    "q \<noteq> c \<Longrightarrow> q \<noteq> i \<Longrightarrow> proc_at (adopt i c s) q = proc_at s q"
    "init_proc (adopt i c s) = init_proc s"
  using assms by (simp_all add: adopt_def)

lemma reparent_step:
  assumes "c \<noteq> NULL" and "c \<noteq> init_proc s" and "init_proc s \<noteq> NULL"
    and "lock_free (p_lock (proc_at s c))" and "lock_free (p_lock (proc_at s (init_proc s)))"
  shows "reparent me c s = reparent me (p_sibling_next (proc_at s c)) (adopt (init_proc s) c s)"
proof -
  let ?i = "init_proc s" and ?s1 = "upd_proc c (\<lambda>x. x\<lparr>p_parent := init_proc s\<rparr>) s"
  have "proc_add_child me ?i c ?s1 = Some (adopt ?i c s)"
    using assms by (subst proc_add_child_free) (auto simp: adopt_def upd_proc_def)
  then show ?thesis
    using assms by (subst reparent.simps) (simp add: lock_proc_free unlock_proc_lock)
qed

text \<open>The state after \<open>i\<close>, which had the children \<open>is\<close>, became the parent of all of \<open>cs\<close>.\<close>

definition adopted :: "u64 \<Rightarrow> u64 list \<Rightarrow> u64 list \<Rightarrow> 'b tasks_scheme \<Rightarrow> 'b tasks_scheme \<Rightarrow> bool" where
  "adopted i cs is s t \<longleftrightarrow> children t i (rev cs @ is) \<and> (\<forall>c \<in> set cs. p_parent (proc_at t c) = i) \<and>
     (\<forall>q. self_of (proc_at t q) = self_of (proc_at s q)) \<and>
     (\<forall>q. q \<notin> set cs \<longrightarrow> q \<noteq> i \<longrightarrow> proc_at t q = proc_at s q) \<and> p_parent (proc_at t i) = p_parent (proc_at s i) \<and>
     t = s\<lparr>proc_at := proc_at t\<rparr>"

lemma adopted_step:
  assumes "children s i is" and "c \<noteq> i" and "c \<noteq> NULL" and "c \<notin> set is" and "c \<notin> set cs" and "adopted i cs (c # is) (adopt i c s) t"
  shows "adopted i (c # cs) is s t"
proof -
  note t = assms(6) [unfolded adopted_def]
  have "proc_at t c = proc_at (adopt i c s) c" using t assms(2,5) by blast
  moreover have "self_of (proc_at (adopt i c s) q) = self_of (proc_at s q)" for q
    using assms(2) by (simp add: adopt_def self_of_def)
  moreover have "t = s\<lparr>proc_at := proc_at t\<rparr>"
  proof -
    have "t = (adopt i c s)\<lparr>proc_at := proc_at t\<rparr>" using t by blast
    also have "\<dots> = s\<lparr>proc_at := proc_at t\<rparr>" by (simp add: adopt_def)
    finally show ?thesis .
  qed
  ultimately show ?thesis using t assms(2) unfolding adopted_def by simp
qed

lemma children_adopt:
  assumes "children s i is" and "c \<noteq> i" and "c \<noteq> NULL" and "c \<notin> set is"
  shows "children (adopt i c s) i (c # is)"
proof -
  have "chain (\<lambda>q. p_sibling_next (proc_at (adopt i c s) q)) (p_children (proc_at s i)) is"
    using assms(1) unfolding children_def
    by (rule chain_cong [THEN iffD2, rotated]) (use assms(2,4) in \<open>auto simp: adopt_def\<close>)
  then show ?thesis using assms(2,3) by (simp add: children_def)
qed

lemma reparent_adopts:
  assumes "chain (\<lambda>c. p_sibling_next (proc_at s c)) h cs" and "children s (init_proc s) is" and "init_proc s \<notin> set cs"
    and "distinct (cs @ is)" and "init_proc s \<noteq> NULL"
    and "\<And>c. c \<in> set (init_proc s # cs) \<Longrightarrow> lock_free (p_lock (proc_at s c))"
  obtains t where "reparent me h s = Some t" "adopted (init_proc s) cs is s t"
  using assms
proof (induction cs arbitrary: h s "is" thesis)
  case Nil
  show ?case
  proof (rule Nil.prems(1))
    show "reparent me h s = Some s" using Nil.prems(2) by (subst reparent.simps) simp
    show "adopted (init_proc s) [] is s s" using Nil.prems(3) by (simp add: adopted_def)
  qed
next
  case (Cons c cs)
  let ?i = "init_proc s" and ?s = "adopt (init_proc s) c s"
  have c: "h = c" "c \<noteq> NULL" "c \<noteq> ?i" "c \<notin> set is" "c \<notin> set cs" "init_proc ?s = ?i" using Cons.prems(2,4,5) by (auto simp: adopt_def)
  have step: "reparent me h s = reparent me (p_sibling_next (proc_at s c)) ?s"
    unfolding c(1) using c Cons.prems by (intro reparent_step) auto
  have "chain (\<lambda>q. p_sibling_next (proc_at s q)) (p_sibling_next (proc_at s c)) cs" using Cons.prems(2) by simp
  then have "chain (\<lambda>q. p_sibling_next (proc_at ?s q)) (p_sibling_next (proc_at s c)) cs"
    by (rule chain_cong [THEN iffD2, rotated]) (use c in \<open>auto simp: adopt_def\<close>)
  moreover have "children ?s ?i (c # is)" using Cons.prems(3) c by (intro children_adopt)
  moreover have "lock_free (p_lock (proc_at ?s q))" if "q \<in> set (?i # cs)" for q
    using Cons.prems(7) [of q] that by (auto simp: adopt_def)
  ultimately obtain t where "reparent me (p_sibling_next (proc_at s c)) ?s = Some t" "adopted ?i cs (c # is) ?s t"
    using Cons.IH [of "p_sibling_next (proc_at s c)" ?s "c # is"] Cons.prems(4-6) c by auto
  with step show ?case using adopted_step [OF Cons.prems(3) c(3,2,4,5)] by (intro Cons.prems(1)) simp_all
qed

section \<open>Those who wait\<close>

lemma more_tasks: "wsched.more t = wsched.more s \<Longrightarrow> proc_at t = proc_at s \<and> init_proc t = init_proc s"
  for s t :: "'b tasks_scheme"
  by (cases s, cases t) simp

lemma wait_children_inj [simp]: "wait_children p = wait_children q \<longleftrightarrow> p = q"
  by (simp add: wait_children_def)

text \<open>The threads \<open>ts\<close> wait on \<open>w\<close>, and each of them can be woken onto level \<open>l t\<close> of run queue \<open>r t\<close>.\<close>

definition waiters :: "nat \<Rightarrow> (u64 \<Rightarrow> nat) \<Rightarrow> (u64 \<Rightarrow> nat) \<Rightarrow> (nat \<Rightarrow> nat \<Rightarrow> u64 list) \<Rightarrow> 'b wsched_scheme \<Rightarrow> u64 \<Rightarrow> u64 list \<Rightarrow> bool" where
  "waiters me r l qs s w ts \<longleftrightarrow> lock_free (wq_lock (wq_at s w)) \<and> wqrepr w s ts \<and>
     (\<forall>t \<in> set ts. sleeper me (r t) (l t) s t \<and> wn_thread (node_at s t) = t \<and> t \<notin> queued qs)"

definition awake :: "'b wsched_scheme \<Rightarrow> u64 \<Rightarrow> bool" where
  "awake s t \<longleftrightarrow> woken (node_at s t) \<and> t_state (thread_at s t) = THREAD_READY"

lemma waiters_frame:
  assumes "thread_at t = thread_at s" "nr_cpus t = nr_cpus s" "node_at t = node_at s" "wq_at t = wq_at s"
  shows "waiters me r l qs t w ts = waiters me r l qs s w ts"
  using sleeper_cong [of t _ s] by (simp add: waiters_def wqrepr_def assms)

lemma sched_inv_frame:
  assumes "thread_at t = thread_at s" "nr_cpus t = nr_cpus s" "runqueues t = runqueues s" "cpus t = cpus s"
  shows "sched_inv t qs = sched_inv s qs"
proof -
  have "qs_ok t = qs_ok s" by (rule qs_ok_frame) (simp_all add: assms)
  then show ?thesis by (simp add: sched_inv_ok assms)
qed

lemma wake_waiters:
  fixes s :: "'b wsched_scheme"
  assumes inv: "sched_inv s qs" and w: "waiters me r l qs s w ts"
  obtains t where "waitqueue_wake_all me w s = Some ((), t)" "sched_inv t (queue_all r l ts qs)"
    "\<And>a. a \<in> set ts \<Longrightarrow> awake t a" "wqrepr w t []" "lock_free (wq_lock (wq_at t w))" "wsched.more t = wsched.more s"
    "\<And>a. a \<notin> set ts \<Longrightarrow> awake t a = awake s a"
    "\<And>r' l' w' us. waiters me r' l' qs s w' us \<Longrightarrow> w' \<noteq> w \<Longrightarrow> set ts \<inter> set us = {} \<Longrightarrow>
       waiters me r' l' (queue_all r l ts qs) t w' us"
proof -
  let ?qs = "queue_all r l ts qs"
  from w have parts: "lock_free (wq_lock (wq_at s w))" "wqrepr w s ts"
    "\<forall>t \<in> set ts. sleeper me (r t) (l t) s t \<and> wn_thread (node_at s t) = t \<and> t \<notin> queued qs"
    by (simp_all add: waiters_def)
  obtain t where t: "waitqueue_wake_all me w s = Some ((), t)" "sched_inv t ?qs"
    "\<And>a. a \<in> set ts \<Longrightarrow> woken (node_at t a) \<and> t_state (thread_at t a) = THREAD_READY"
    "wq_at t = (wq_at s)(w := (wq_at s w)\<lparr>wq_head := NULL, wq_tail := NULL\<rparr>)"
    "nr_cpus t = nr_cpus s" "wsched.more t = wsched.more s"
    "\<And>a. a \<notin> set ts \<Longrightarrow> node_at t a = node_at s a \<and> unlinked (thread_at t a) = unlinked (thread_at s a)"
    using wake_all_inv [OF inv parts] by metis
  show thesis
  proof (rule that [OF t(1,2)])
    fix r' l' w' us
    assume u: "waiters me r' l' qs s w' us" and ne: "w' \<noteq> w" and dis: "set ts \<inter> set us = {}"
    have same: "node_at t a = node_at s a \<and> unlinked (thread_at t a) = unlinked (thread_at s a)" if "a \<in> set us" for a
      using t(7) dis that by blast
    have "a \<notin> queued ?qs" if "a \<in> set us" for a
      using queued_queue_all [of r l ts qs] u dis that by (auto simp: waiters_def)
    moreover have "sleeper me i k t a = sleeper me i k s a" if "a \<in> set us" for a i k
      using same [OF that] t(5) by (intro sleeper_cong) simp_all
    moreover have "wqrepr w' t us = wqrepr w' s us"
      using same ne t(4) unfolding wqrepr_def by (subst dll_cong [where n = "wnext s" and p = "wprev s"]) auto
    ultimately show "waiters me r' l' ?qs t w' us"
      using u same t(4) ne by (simp add: waiters_def)
  next
    fix a assume a: "a \<notin> set ts"
    have "t_state (thread_at t a) = t_state (thread_at s a)" using t(7) [OF a] by (intro unlinked_fields(2)) simp
    then show "awake t a = awake s a" using t(7) [OF a] by (simp add: awake_def)
  qed (use t(3,4,6) parts(1) in \<open>simp_all add: awake_def wqrepr_def\<close>)
qed

text \<open>The two calls at the end of \<^verbatim>\<open>proc_exit\<close>, for the parent \<open>pp\<close> and for init.\<close>

lemma wake_both:
  fixes s :: "'b tasks_scheme"
  assumes inv: "sched_inv s qs" and ts: "waiters me r l qs s (wait_children pp) ts" and us: "waiters me r' l' qs s (wait_children i) us"
    and "pp \<noteq> NULL" and "i \<noteq> NULL" and "pp = i \<or> set ts \<inter> set us = {}"
  obtains t u where "wake_parent me pp s = Some t" "wake_parent me i t = Some u" "init_proc t = init_proc s" "proc_at u = proc_at s"
    "\<And>a. a \<in> set ts \<union> set us \<Longrightarrow> awake u a"
proof -
  let ?qs = "queue_all r l ts qs"
  obtain t where t: "waitqueue_wake_all me (wait_children pp) s = Some ((), t)" "sched_inv t ?qs"
    "\<And>a. a \<in> set ts \<Longrightarrow> awake t a" "wqrepr (wait_children pp) t []" "lock_free (wq_lock (wq_at t (wait_children pp)))"
    "wsched.more t = wsched.more s"
    "\<And>r' l' w' us. waiters me r' l' qs s w' us \<Longrightarrow> w' \<noteq> wait_children pp \<Longrightarrow> set ts \<inter> set us = {} \<Longrightarrow>
       waiters me r' l' ?qs t w' us"
    using wake_waiters [OF inv ts] by metis
  note wp = t(1) more_tasks [OF t(6)]
  obtain vs where vs: "waiters me r' l' ?qs t (wait_children i) vs" "set ts \<union> set us = set ts \<union> set vs" "set ts \<inter> set vs = {}"
  proof (cases "pp = i")
    case True
    have "ts = us" using ts us True unfolding waiters_def wqrepr_def by (metis dll_unique)
    moreover have "waiters me r' l' ?qs t (wait_children i) []" using t(4,5) True by (simp add: waiters_def)
    ultimately show thesis using that [of "[]"] by simp
  next
    case False
    then have "waiters me r' l' ?qs t (wait_children i) us" using assms(6) by (intro t(7) [OF us]) simp_all
    then show thesis using that [of us] False assms(6) by simp
  qed
  obtain u where u: "waitqueue_wake_all me (wait_children i) t = Some ((), u)" "\<And>a. a \<in> set vs \<Longrightarrow> awake u a"
    "wsched.more u = wsched.more t" "\<And>a. a \<notin> set vs \<Longrightarrow> awake u a = awake t a"
    using wake_waiters [OF t(2) vs(1)] by metis
  have "awake u a" if "a \<in> set ts \<union> set us" for a
    using that vs(2,3) t(3) [of a] u(2,4) [of a] by blast
  then show thesis
    using wp more_tasks [OF u(3)] u(1) assms(4,5) by (intro that [of t u]) (simp_all add: wake_parent_def)
qed

section \<open>Exit\<close>

text \<open>
  C34. When a process exits, its children get init as their parent and are in front of init's own children, the process is
  a zombie with its exit code and without children, and every thread that waits for a child of its parent or
  of init is made ready, on whatever CPU and level it belongs. The call returns.
\<close>

theorem proc_exit_correct:
  fixes s :: "'b tasks_scheme"
  assumes "p_state (proc_at s p) = PROC_RUNNING" and "init_proc s \<notin> set (NULL # p # cs)" and "p \<notin> set cs" and "p_parent (proc_at s p) \<noteq> NULL"
    and "children s p cs" and "children s (init_proc s) is" and "distinct (cs @ is)"
    and "\<forall>q \<in> set (p # init_proc s # cs). lock_free (p_lock (proc_at s q))"
    and "sched_inv s qs" and "waiters me r l qs s (wait_children (p_parent (proc_at s p))) ts" and "waiters me r' l' qs s (wait_children (init_proc s)) us"
    and "p_parent (proc_at s p) = init_proc s \<or> set ts \<inter> set us = {}"
  shows "\<exists>t. proc_exit me p code s = Some t \<and>
    p_state (proc_at t p) = PROC_ZOMBIE \<and> p_exit_code (proc_at t p) = code \<and> children t p [] \<and>
    children t (init_proc s) (rev cs @ is) \<and> (\<forall>c \<in> set cs. p_parent (proc_at t c) = init_proc s) \<and> (\<forall>x \<in> set ts \<union> set us. awake t x)"
proof -
  let ?i = "init_proc s" and ?pp = "p_parent (proc_at s p)" and ?z = "\<lambda>x. x\<lparr>p_state := PROC_ZOMBIE, p_exit_code := code\<rparr>"
  let ?s1 = "upd_proc p ?z s"
  have ne: "?i \<noteq> NULL" "?i \<noteq> p" "?i \<notin> set cs" using assms(2) by auto
  have "chain (\<lambda>c. p_sibling_next (proc_at ?s1 c)) (p_children (proc_at s p)) cs"
    using assms(5) unfolding children_def by (rule chain_cong [THEN iffD2, rotated]) simp
  moreover have "children ?s1 (init_proc ?s1) is"
    using assms(6) by (subst children_cong [of _ _ s]) simp_all
  moreover have "lock_free (p_lock (proc_at ?s1 c))" if "c \<in> set (init_proc ?s1 # cs)" for c using assms(8) that by auto
  ultimately obtain t where t: "reparent me (p_children (proc_at s p)) ?s1 = Some t" "adopted ?i cs is ?s1 t"
    using ne assms(7) reparent_adopts [of ?s1 "p_children (proc_at s p)" cs "is" me] by (metis upd_proc_simps(5))
  let ?t1 = "upd_proc p (\<lambda>x. x\<lparr>p_children := NULL\<rparr>) t"
  note ad = t(2) [unfolded adopted_def]
  have p: "proc_at t p = proc_at ?s1 p" using ad ne assms(3) by auto
  have t_as: "t = ?s1\<lparr>proc_at := proc_at t\<rparr>" using ad by blast
  have same: "thread_at t = thread_at s" "nr_cpus t = nr_cpus s" "node_at t = node_at s" "wq_at t = wq_at s"
    "runqueues t = runqueues s" "cpus t = cpus s" "init_proc t = ?i"
    by (subst t_as, simp add: upd_proc_def)+
  have same1: "thread_at ?t1 = thread_at s" "nr_cpus ?t1 = nr_cpus s" "node_at ?t1 = node_at s" "wq_at ?t1 = wq_at s"
    "runqueues ?t1 = runqueues s" "cpus ?t1 = cpus s" "init_proc ?t1 = ?i"
    by (simp_all add: upd_proc_def same)
  have pp: "p_parent (proc_at ?t1 p) = ?pp" by (simp add: p)
  have inv: "sched_inv ?t1 qs" using assms(9) sched_inv_frame [OF same1(1,2,5,6)] by simp
  have w: "waiters me a b qs ?t1 q xs = waiters me a b qs s q xs" for a b q xs by (rule waiters_frame [OF same1(1-4)])
  have nn: "?pp \<noteq> NULL" using assms(4) by simp
  obtain u v where uv: "wake_parent me ?pp ?t1 = Some u" "wake_parent me ?i u = Some v" "init_proc u = init_proc ?t1"
    "proc_at v = proc_at ?t1" "\<And>a. a \<in> set ts \<union> set us \<Longrightarrow> awake v a"
    using wake_both [OF inv, of me r l ?pp ts r' l' ?i us] assms(10-12) nn ne(1) by (metis w)
  have "lock_free (p_lock (proc_at s p))" using assms(8) by simp
  then have "proc_exit me p code s = Some v"
    using assms(1) t(1) uv(1-3) pp same1(7) by (simp add: proc_exit_def lock_proc_free unlock_proc_lock)
  moreover have "children v ?i (rev cs @ is)"
  proof -
    have "children t ?i (rev cs @ is)" using ad by blast
    then show ?thesis using ne(2) by (subst children_cong [of _ _ t]) (simp_all add: uv(4))
  qed
  moreover have "\<forall>c \<in> set cs. p_parent (proc_at v c) = ?i" using ad assms(3) by (auto simp: uv(4))
  moreover have "children v p []" by (simp add: children_def uv(4))
  ultimately show ?thesis using uv(4,5) p by auto
qed

text \<open>
  Init at \<^verbatim>\<open>0x100\<close> has the child \<^verbatim>\<open>0x300\<close>, whose child is \<^verbatim>\<open>0x400\<close>, whose child is \<^verbatim>\<open>0x500\<close>. A thread waits for the children of
  \<^verbatim>\<open>0x300\<close>. The parts that processes do not use are those of any state.
\<close>

definition relatives :: "u64 \<Rightarrow> proc" where
  "relatives q =
     (if q = 0x100 then zero_proc\<lparr>p_pid := 1, p_children := 0x300\<rparr>
      else if q = 0x300 then zero_proc\<lparr>p_pid := 3, p_parent := 0x100, p_children := 0x400\<rparr>
      else if q = 0x400 then zero_proc\<lparr>p_pid := 4, p_parent := 0x300, p_children := 0x500\<rparr>
      else if q = 0x500 then zero_proc\<lparr>p_pid := 5, p_parent := 0x400\<rparr> else zero_proc)"

definition four_procs :: "tasks \<Rightarrow> tasks" where
  "four_procs s = s\<lparr>thread_at := thread_at one_sleeper, runqueues := runqueues one_sleeper, cpus := cpus one_sleeper,
     nr_cpus := nr_cpus one_sleeper, node_at := node_at one_sleeper,
     wq_at := (\<lambda>w. if w = wait_children 0x300 then wq_at one_sleeper 0x9000
       else \<lparr>wq_lock = SPINLOCK_INIT, wq_head = NULL, wq_tail = NULL\<rparr>),
     proc_at := relatives, init_proc := 0x100\<rparr>"

lemma four_procs_facts:
  "sched_inv (four_procs s) (\<lambda>_ _. [])"
  "waiters 0 (\<lambda>_. 0) (\<lambda>_. 0) (\<lambda>_ _. []) (four_procs s) (wait_children 0x300) [0x2000]"
  "waiters 0 (\<lambda>_. 0) (\<lambda>_. 0) (\<lambda>_ _. []) (four_procs s) (wait_children 0x100) []"
proof -
  show "sched_inv (four_procs s) (\<lambda>_ _. [])"
    using one_sleeper_facts(1) sched_inv_frame [of "four_procs s" one_sleeper] by (simp add: four_procs_def)
  have "sleeper 0 0 0 (four_procs s) 0x2000"
    using one_sleeper_facts(4) by (subst sleeper_cong [of _ _ one_sleeper]) (simp_all add: four_procs_def)
  then show "waiters 0 (\<lambda>_. 0) (\<lambda>_. 0) (\<lambda>_ _. []) (four_procs s) (wait_children 0x300) [0x2000]"
    using one_sleeper_facts(2,3,5) by (simp add: waiters_def four_procs_def wqrepr_def queued_def)
  show "waiters 0 (\<lambda>_. 0) (\<lambda>_. 0) (\<lambda>_ _. []) (four_procs s) (wait_children 0x100) []"
    by (simp add: waiters_def four_procs_def wqrepr_def)
qed

theorem proc_exit_correct_witness:
  "\<forall>s. \<exists>t. proc_exit 0 0x400 7 (four_procs s) = Some t \<and> children t 0x100 [0x500, 0x300] \<and>
     p_exit_code (proc_at t 0x400) = 7 \<and> awake t 0x2000"
proof
  fix s
  let ?s = "four_procs s"
  have i: "init_proc ?s = 0x100" "p_parent (proc_at ?s 0x400) = 0x300" by (simp_all add: four_procs_def relatives_def)
  have c: "children ?s 0x400 [0x500]" "children ?s (init_proc ?s) [0x300]"
    by (simp_all add: children_def four_procs_def relatives_def zero_proc_def)
  have "p_state (proc_at ?s 0x400) = PROC_RUNNING" "\<forall>q \<in> set [0x400, init_proc ?s, 0x500]. lock_free (p_lock (proc_at ?s q))"
    by (simp_all add: four_procs_def relatives_def zero_proc_def)
  from proc_exit_correct [OF this(1) _ _ _ c _ this(2) four_procs_facts(1), of 0 "\<lambda>_. 0" "\<lambda>_. 0" "[0x2000]" "\<lambda>_. 0" "\<lambda>_. 0" "[]" 7]
  show "\<exists>t. proc_exit 0 0x400 7 ?s = Some t \<and> children t 0x100 [0x500, 0x300] \<and>
      p_exit_code (proc_at t 0x400) = 7 \<and> awake t 0x2000"
    using four_procs_facts(2,3) [of s] i by auto
qed

section \<open>Wait\<close>

lemma map_option_bind_Some: "Option.bind m (\<lambda>x. Some (f x)) = map_option f m"
  by (cases m) simp_all

abbreviation zombie_match :: "int \<Rightarrow> 'b tasks_scheme \<Rightarrow> u64 \<Rightarrow> bool" where
  "zombie_match pid s c \<equiv> pid_matches pid (proc_at s c) \<and> p_state (proc_at s c) = PROC_ZOMBIE"

lemma find_zombie_finds:
  "chain (\<lambda>c. p_sibling_next (proc_at s c)) h (xs @ z # ys) \<Longrightarrow> \<forall>x \<in> set xs. \<not> zombie_match pid s x \<Longrightarrow> zombie_match pid s z \<Longrightarrow>
   find_zombie pid prev h s = Some (z, if xs = [] then prev else last xs)"
proof (induction xs arbitrary: h prev)
  case Nil
  then show ?case by (subst find_zombie.simps) simp
next
  case (Cons x xs)
  then show ?case by (subst find_zombie.simps) auto
qed

lemma find_zombie_misses:
  "chain (\<lambda>c. p_sibling_next (proc_at s c)) h xs \<Longrightarrow> \<forall>x \<in> set xs. \<not> zombie_match pid s x \<Longrightarrow>
   find_zombie pid prev h s = Some (NULL, if xs = [] then prev else last xs)"
proof (induction xs arbitrary: h prev)
  case Nil
  then show ?case by (subst find_zombie.simps) simp
next
  case (Cons x xs)
  then show ?case by (subst find_zombie.simps) auto
qed

lemma has_match_finds:
  "chain (\<lambda>c. p_sibling_next (proc_at s c)) h xs \<Longrightarrow> has_match pid h s = Some (\<exists>x \<in> set xs. pid_matches pid (proc_at s x))"
proof (induction xs arbitrary: h)
  case Nil
  then show ?case by (subst has_match.simps) simp
next
  case (Cons x xs)
  then show ?case by (subst has_match.simps) auto
qed

lemma children_lock:
  "children (upd_proc p (\<lambda>x. x\<lparr>p_lock := f x\<rparr>) s) q cs = children s q cs"
  by (rule children_cong) simp_all

lemma chain_lock:
  assumes "children s p cs"
  shows "chain (\<lambda>c. p_sibling_next (proc_at (upd_proc q (\<lambda>x. x\<lparr>p_lock := f x\<rparr>) s) c)) (p_children (proc_at s p)) cs"
  using assms unfolding children_def by (rule chain_cong [THEN iffD2, rotated]) simp

lemma zombie_match_lock: "zombie_match pid (upd_proc p (\<lambda>x. x\<lparr>p_lock := f x\<rparr>) s) c = zombie_match pid s c"
  by (simp add: pid_matches_def)

lemma wait_round_none:
  assumes "lock_free (p_lock (proc_at s p))" and "children s p cs" and "\<forall>c \<in> set cs. \<not> zombie_match pid s c"
  shows "wait_round me p pid s = Some (if \<exists>c \<in> set cs. pid_matches pid (proc_at s c) then Inr () else Inl (- ECHILD, None), s)"
proof -
  let ?s1 = "upd_proc p (\<lambda>x. x\<lparr>p_lock := (p_lock x)\<lparr>locked := 1, owner := int me\<rparr>\<rparr>) s"
  note c = chain_lock [OF assms(2), of p "\<lambda>x. (p_lock x)\<lparr>locked := 1, owner := int me\<rparr>"]
  have "find_zombie pid NULL (p_children (proc_at s p)) ?s1 = Some (NULL, if cs = [] then NULL else last cs)"
    using assms(3) by (intro find_zombie_misses [OF c]) (simp only: zombie_match_lock simp_thms)
  moreover have "has_match pid (p_children (proc_at s p)) ?s1 = Some (\<exists>x \<in> set cs. pid_matches pid (proc_at s x))"
    unfolding has_match_finds [OF c] by (auto simp: pid_matches_def)
  ultimately show ?thesis
    using assms(1) by (simp add: wait_round_def lock_proc_free unlock_proc_lock0)
qed

text \<open>Unlinking child \<open>z\<close> that comes after \<open>xs\<close>, with the lock given back.\<close>

lemma unlinked_child:
  assumes "children s p (xs @ z # ys)" and "distinct (xs @ z # ys)" and "p \<notin> set (xs @ z # ys)"
  defines "t \<equiv> unlink_sibling p (if xs = [] then NULL else last xs) (p_sibling_next (proc_at s z)) s"
  shows "children t p (xs @ ys)" and "\<And>q. self_of (proc_at t q) = self_of (proc_at s q)" and "proc_at t z = proc_at s z"
    and "t = s\<lparr>proc_at := proc_at t\<rparr>"
proof -
  have nn: "last xs \<noteq> NULL" if "xs \<noteq> []"
    using chain_not_NULL [OF assms(1) [unfolded children_def]] last_in_set [OF that] by (metis Un_iff set_append)
  have z: "z \<noteq> p" "xs \<noteq> [] \<Longrightarrow> last xs \<noteq> z" "xs \<noteq> [] \<Longrightarrow> last xs \<noteq> p" using assms(2,3) last_in_set [of xs] by auto
  have "chain (\<lambda>c. p_sibling_next (proc_at t c)) (if xs = [] then p_sibling_next (proc_at s z) else p_children (proc_at s p)) (xs @ ys)"
    using assms(1) [unfolded children_def] assms(2) by (rule chain_unlink) (auto simp: t_def unlink_sibling_def nn)
  moreover have "p_children (proc_at t p) = (if xs = [] then p_sibling_next (proc_at s z) else p_children (proc_at s p))"
    using nn z by (auto simp: t_def unlink_sibling_def)
  ultimately show "children t p (xs @ ys)" by (simp add: children_def)
  show "self_of (proc_at t q) = self_of (proc_at s q)" for q
    by (simp add: t_def unlink_sibling_def self_of_def)
  show "proc_at t z = proc_at s z" using z nn by (simp add: t_def unlink_sibling_def)
  show "t = s\<lparr>proc_at := proc_at t\<rparr>" by (simp add: t_def unlink_sibling_def upd_proc_def)
qed

lemma unlink_unlock:
  assumes "lock_free (p_lock (proc_at s p))" and "prev = NULL \<or> prev \<noteq> p"
  shows "unlock_proc me p (unlink_sibling p prev nx (upd_proc p (\<lambda>x. x\<lparr>p_lock := (p_lock x)\<lparr>locked := 1, owner := int me\<rparr>\<rparr>) s))
    = unlink_sibling p prev nx s"
proof (cases "prev = NULL")
  case True
  then show ?thesis using assms(1) by (simp add: unlink_sibling_def unlock_proc_lock)
next
  case False
  then show ?thesis using assms by (simp add: unlink_sibling_def unlock_proc_def upd_proc_def fun_upd_twist)
qed

text \<open>
  C35. One round of \<open>proc_wait\<close> in terms of the list of children: the first matching zombie is unlinked and marked dead,
  its number and exit code are the result once its last reference is dropped; without one the answer is \<open>-ECHILD\<close> when no child matches at all, and
  otherwise the caller has to sleep. Only the last reference is left to \<open>proc_unref\<close>; the other processes keep all but their links.
\<close>

theorem proc_wait_reaps_first:
  fixes s :: "'b tasks_scheme"
  assumes "lock_free (p_lock (proc_at s p))" and "children s p cs" and "distinct cs" and "p \<notin> set cs"
  shows "case find (zombie_match pid s) cs of
      None \<Rightarrow> wait_round me p pid s = Some (if \<exists>c \<in> set cs. pid_matches pid (proc_at s c) then Inr () else Inl (- ECHILD, None), s)
    | Some z \<Rightarrow> \<exists>t. children t p (remove1 z cs) \<and> proc_at t z = (proc_at s z)\<lparr>p_state := PROC_DEAD\<rparr> \<and>
        (\<forall>q. q \<noteq> z \<longrightarrow> self_of (proc_at t q) = self_of (proc_at s q)) \<and> t = s\<lparr>proc_at := proc_at t\<rparr> \<and>
        wait_round me p pid s = map_option (Pair (Inl (p_pid (proc_at s z), Some (p_exit_code (proc_at s z))))) (proc_unref me z t)"
proof (cases "find (zombie_match pid s) cs")
  case None
  then have "\<forall>c \<in> set cs. \<not> zombie_match pid s c" unfolding find_None_iff by blast
  from wait_round_none [OF assms(1,2) this] show ?thesis unfolding None by simp
next
  case (Some z)
  then obtain i where i: "i < length cs" "zombie_match pid s (cs ! i)" "z = cs ! i" "\<forall>j < i. \<not> zombie_match pid s (cs ! j)"
    by (auto simp: find_Some_iff)
  define xs ys where "xs = take i cs" and "ys = drop (Suc i) cs"
  have cs: "cs = xs @ z # ys" using i by (simp add: xs_def ys_def id_take_nth_drop)
  have no: "\<forall>x \<in> set xs. \<not> zombie_match pid s x" using i by (auto simp: xs_def in_set_conv_nth)
  define s1 where "s1 = upd_proc p (\<lambda>x. x\<lparr>p_lock := (p_lock x)\<lparr>locked := 1, owner := int me\<rparr>\<rparr>) s"
  define pr where "pr = (if xs = [] then NULL else last xs)"
  define t where "t = unlink_sibling p pr (p_sibling_next (proc_at s z)) s"
  have c: "children s p (xs @ z # ys)" "distinct (xs @ z # ys)" "p \<notin> set (xs @ z # ys)" using assms(2-4) unfolding cs by simp_all
  note t = unlinked_child [OF c, folded pr_def, folded t_def]
  note ch = chain_lock [OF c(1), of p "\<lambda>x. (p_lock x)\<lparr>locked := 1, owner := int me\<rparr>", folded s1_def]
  note zm = zombie_match_lock [of pid p "\<lambda>x. (p_lock x)\<lparr>locked := 1, owner := int me\<rparr>" s, folded s1_def]
  have f: "find_zombie pid NULL (p_children (proc_at s p)) s1 = Some (z, pr)"
    unfolding pr_def using no i(2,3) by (intro find_zombie_finds [OF ch]) (simp_all only: zm simp_thms)
  have z: "z \<noteq> NULL" "z \<noteq> p" using chain_not_NULL [OF ch] c(3) by auto
  have pr: "pr = NULL \<or> pr \<noteq> p" using c(3) last_in_set [of xs] by (auto simp: pr_def)
  have s1: "lock_proc me p s = Some s1" "proc_at s1 z = proc_at s z" "p_children (proc_at s1 p) = p_children (proc_at s p)"
    using z by (simp_all add: lock_proc_free [OF assms(1)] s1_def)
  have un: "unlock_proc me p (unlink_sibling p pr (p_sibling_next (proc_at s z)) s1) = t"
    unfolding s1_def t_def by (rule unlink_unlock [OF assms(1) pr])
  let ?t = "upd_proc z (\<lambda>x. x\<lparr>p_state := PROC_DEAD\<rparr>) t"
  have "wait_round me p pid s = map_option (Pair (Inl (p_pid (proc_at s z), Some (p_exit_code (proc_at s z))))) (proc_unref me z ?t)"
    using z(1) by (simp add: wait_round_def s1 f un t(3) map_option_bind_Some)
  moreover have "children ?t p (remove1 z cs)"
  proof -
    have "remove1 z cs = xs @ ys" using c(2) unfolding cs by (simp add: remove1_append)
    moreover have "children ?t p (xs @ ys)" using t(1) by (subst children_cong [of _ _ t]) simp_all
    ultimately show ?thesis by simp
  qed
  moreover have "?t = s\<lparr>proc_at := proc_at ?t\<rparr>"
  proof -
    obtain h where "t = s\<lparr>proc_at := h\<rparr>" using t(4) by blast
    then show ?thesis by (simp add: upd_proc_def)
  qed
  ultimately show ?thesis unfolding Some using t(2,3) by (intro option.case(2) [THEN iffD2] exI [of _ ?t]) simp
qed

theorem proc_wait_reaps_first_witness:
  "\<forall>s. \<exists>t. wait_round 0 0x300 (-1) (upd_proc 0x400 (\<lambda>x. x\<lparr>p_state := PROC_ZOMBIE, p_exit_code := 9, p_refcount := 2\<rparr>) (four_procs s))
     = Some (Inl (4, Some 9), t)"
proof
  fix s
  let ?s = "upd_proc 0x400 (\<lambda>x. x\<lparr>p_state := PROC_ZOMBIE, p_exit_code := 9, p_refcount := 2\<rparr>) (four_procs s)"
  have "lock_free (p_lock (proc_at ?s 0x300))" "children ?s 0x300 [0x400]"
    by (simp_all add: children_def four_procs_def relatives_def zero_proc_def)
  moreover have "find (zombie_match (-1) ?s) [0x400] = Some 0x400" by (simp add: pid_matches_def)
  ultimately obtain t where t: "proc_at t 0x400 = (proc_at ?s 0x400)\<lparr>p_state := PROC_DEAD\<rparr>"
    "wait_round 0 0x300 (-1) ?s = map_option (Pair (Inl (p_pid (proc_at ?s 0x400), Some (p_exit_code (proc_at ?s 0x400))))) (proc_unref 0 0x400 t)"
    using proc_wait_reaps_first [of ?s "0x300" "[0x400]" 0 "-1"] by auto
  have z: "p_pid (proc_at ?s 0x400) = 4" "p_exit_code (proc_at ?s 0x400) = 9" by (simp_all add: four_procs_def relatives_def)
  have "lock_free (p_lock (proc_at t 0x400))" "p_refcount (proc_at t 0x400) = 2"
    by (simp_all add: t(1) four_procs_def relatives_def zero_proc_def)
  then have "\<exists>u. proc_unref 0 0x400 t = Some u" by (simp add: proc_unref_def lock_proc_free Let_def)
  then show "\<exists>t. wait_round 0 0x300 (-1) ?s = Some (Inl (4, Some 9), t)" unfolding t(2) z by auto
qed

text \<open>Nobody waits on \<open>w\<close>.\<close>

definition deserted :: "'b wsched_scheme \<Rightarrow> u64 \<Rightarrow> bool" where
  "deserted s w \<longleftrightarrow> wq_at s w = \<lparr>wq_lock = SPINLOCK_INIT, wq_head = NULL, wq_tail = NULL\<rparr>"

lemma wake_nobody:
  assumes "deserted s w"
  shows "waitqueue_wake_all me w s = Some ((), s)"
proof -
  let ?s1 = "upd_wq w (\<lambda>q. q\<lparr>wq_lock := (wq_lock (wq_at s w))\<lparr>locked := 1, owner := int me\<rparr>\<rparr>) s"
  have "acquire_wq me w s = Some ?s1" using assms by (simp add: acquire_wq_def deserted_def)
  moreover have "release_wq me w (upd_wq w (\<lambda>q. q\<lparr>wq_head := NULL, wq_tail := NULL\<rparr>) ?s1) = s"
    using assms fun_upd_triv [of "wq_at s" w] by (simp add: release_wq_def upd_wq_def deserted_def)
  moreover have "wake_loop me NULL s = Some ((), s)" by (subst wake_loop.simps) simp
  ultimately show ?thesis using assms by (simp add: waitqueue_wake_all_def deserted_def)
qed

lemma block_deserted:
  assumes "deserted s w" and "lock_free (t_lock (thread_at s (current_thread (cpus s me))))" and "current_thread (cpus s me) \<noteq> NULL"
  obtains u where "waitqueue_block me w s = Some u" "wqrepr w u [current_thread (cpus s me)]"
    "t_state (thread_at u (current_thread (cpus s me))) = THREAD_BLOCKED" "wsched.more u = wsched.more s"
proof -
  let ?self = "current_thread (cpus s me)"
  let ?s1 = "upd_wq w (\<lambda>q. q\<lparr>wq_lock := (wq_lock (wq_at s w))\<lparr>locked := 1, owner := int me\<rparr>\<rparr>) s"
  let ?s2 = "upd_thread ?self (\<lambda>x. x\<lparr>blocked_on := w\<rparr>)
    (wq_link w ?self (upd_node ?self (\<lambda>x. x\<lparr>wn_thread := ?self, woken := False\<rparr>) ?s1))"
  let ?s3 = "upd_thread ?self (\<lambda>x. x\<lparr>t_state := THREAD_BLOCKED\<rparr>) ?s2"
  have acq: "acquire_wq me w s = Some ?s1" using assms(1) by (simp add: acquire_wq_def deserted_def)
  have th: "thread_at (wq_link w n x) = thread_at x" "cpus (wq_link w n x) = cpus x" "wsched.more (wq_link w n x) = wsched.more x"
    for n and x :: "'a wsched_scheme"
    by (simp_all add: wq_link_def Let_def)
  have "sched_mark_blocked me ?self ?s2 = Some ((), ?s3)"
    using assms(2) by (simp add: sched_mark_blocked_def with_thread_lock_def th upd_thread_def)
  then have "waitqueue_block me w s = Some (release_wq me w ?s3)" using acq by (simp add: waitqueue_block_def Let_def)
  moreover have "wqrepr w (release_wq me w ?s3) [?self]"
    using assms(1,3) by (simp add: wqrepr_def release_wq_def wq_link_def deserted_def dll_def Let_def)
  ultimately show thesis by (rule that) (simp_all add: release_wq_def th)
qed

lemma exit_of_leaf:
  assumes "p_state (proc_at s c) = PROC_RUNNING" and "p_children (proc_at s c) = NULL" and "lock_free (p_lock (proc_at s c))"
    and "deserted s (wait_children (p_parent (proc_at s c)))" and "deserted s (wait_children (init_proc s))"
  shows "proc_exit me c code s = Some (upd_proc c (\<lambda>x. x\<lparr>p_state := PROC_ZOMBIE, p_exit_code := code, p_children := NULL\<rparr>) s)"
proof -
  let ?t = "upd_proc c (\<lambda>x. x\<lparr>p_state := PROC_ZOMBIE, p_exit_code := code, p_children := NULL\<rparr>) s"
  have "deserted ?t w = deserted s w" for w by (simp add: deserted_def)
  then have w: "wake_parent me q ?t = Some ?t" if "q = p_parent (proc_at s c) \<or> q = init_proc s" for q
    using wake_nobody [of ?t] assms(4,5) that by (auto simp: wake_parent_def)
  have r: "reparent me NULL x = Some x" for x :: "'a tasks_scheme" by (subst reparent.simps) simp
  have t: "upd_proc c (\<lambda>x. x\<lparr>p_children := NULL\<rparr>) (upd_proc c (\<lambda>x. x\<lparr>p_state := PROC_ZOMBIE, p_exit_code := code\<rparr>) s) = ?t"
    by (simp add: upd_proc_same)
  show ?thesis
    using assms(1-3) w [of "p_parent (proc_at s c)"] w [of "init_proc s"]
    by (simp add: proc_exit_def lock_proc_free unlock_proc_lock r t)
qed

text \<open>
  C36. A wake-up of \<open>proc_wait\<close> can be lost. When a round has found a child but no zombie, the parent's lock is released
  before the thread is in the wait queue; a child that exits in between finds nobody to wake, and then the thread
  blocks although a further round would reap that child at once.
\<close>

theorem proc_wait_lost_wakeup:
  fixes s :: "'b tasks_scheme"
  assumes "children s p cs" and "distinct cs" and "p \<notin> set cs" and "lock_free (p_lock (proc_at s p))"
    and "wait_round me p pid s = Some (Inr (), s)"
    and "c \<in> set cs" and "pid_matches pid (proc_at s c)" and "p_parent (proc_at s c) = p" and "p_children (proc_at s c) = NULL"
    and "p_state (proc_at s c) = PROC_RUNNING" and "lock_free (p_lock (proc_at s c))"
    and "deserted s (wait_children p)" and "deserted s (wait_children (init_proc s))"
    and "lock_free (t_lock (thread_at s (current_thread (cpus s me))))" and "current_thread (cpus s me) \<noteq> NULL"
  shows "\<exists>t u. proc_exit me' c code s = Some t \<and> waitqueue_block me (wait_children p) t = Some u \<and>
    t_state (thread_at u (current_thread (cpus s me))) = THREAD_BLOCKED \<and>
    wqrepr (wait_children p) u [current_thread (cpus s me)] \<and>
    (\<exists>z. find (zombie_match pid u) cs = Some z \<and> children u p cs)"
proof -
  let ?t = "upd_proc c (\<lambda>x. x\<lparr>p_state := PROC_ZOMBIE, p_exit_code := code, p_children := NULL\<rparr>) s"
  have "proc_exit me' c code s = Some ?t" using assms by (intro exit_of_leaf) simp_all
  moreover obtain u where u: "waitqueue_block me (wait_children p) ?t = Some u"
    "wqrepr (wait_children p) u [current_thread (cpus ?t me)]"
    "t_state (thread_at u (current_thread (cpus ?t me))) = THREAD_BLOCKED" "wsched.more u = wsched.more ?t"
    by (rule block_deserted [of ?t "wait_children p" me]) (use assms(12,14,15) in \<open>simp_all add: deserted_def\<close>)
  have pa: "proc_at u = proc_at ?t" using more_tasks [OF u(4)] by simp
  have "zombie_match pid u c" using assms(7) by (simp add: pa pid_matches_def)
  then have "find (zombie_match pid u) cs \<noteq> None" using assms(6) unfolding find_None_iff by blast
  moreover have "children u p cs" using assms(1,3,6) by (subst children_cong [of _ _ s]) (auto simp: pa)
  ultimately show ?thesis using u(1-3) by auto
qed

text \<open>The same processes with nobody waiting; the process \<^verbatim>\<open>0x400\<close> has the child \<^verbatim>\<open>0x500\<close>, which exits.\<close>

theorem proc_wait_lost_wakeup_witness:
  "\<forall>s. \<exists>t u. proc_exit 1 0x500 7 ((four_procs s)\<lparr>wq_at := \<lambda>_. \<lparr>wq_lock = SPINLOCK_INIT, wq_head = NULL, wq_tail = NULL\<rparr>\<rparr>) = Some t \<and>
     waitqueue_block 0 (wait_children 0x400) t = Some u \<and> t_state (thread_at u 0x1000) = THREAD_BLOCKED"
proof
  fix s
  define v where "v = (four_procs s)\<lparr>wq_at := \<lambda>_. \<lparr>wq_lock = SPINLOCK_INIT, wq_head = NULL, wq_tail = NULL\<rparr>\<rparr>"
  have c: "children v 0x400 [0x500]" and l: "lock_free (p_lock (proc_at v 0x400))" "lock_free (p_lock (proc_at v 0x500))"
    and p: "p_parent (proc_at v 0x500) = 0x400" "p_children (proc_at v 0x500) = NULL" "p_state (proc_at v 0x500) = PROC_RUNNING"
    by (simp_all add: v_def children_def four_procs_def relatives_def zero_proc_def)
  have m: "pid_matches (-1) (proc_at v 0x500)" by (simp add: pid_matches_def)
  have w: "wait_round 0 0x400 (-1) v = Some (Inr (), v)"
    using wait_round_none [OF l(1) c, of "-1" 0] p(3) m by simp
  have d: "deserted v q" for q by (simp add: deserted_def v_def)
  have cur: "current_thread (cpus v 0) = 0x1000" "lock_free (t_lock (thread_at v 0x1000))"
    by (simp_all add: v_def four_procs_def one_sleeper_def sched_init_def attach_cpu_def sched_fpu_init_def runqueue_init_one_def
        Let_def blank_sched_def blank_thread_def blank_rq_def blank_cpu_def sched.extend_def)
  show "\<exists>t u. proc_exit 1 0x500 7 ((four_procs s)\<lparr>wq_at := \<lambda>_. \<lparr>wq_lock = SPINLOCK_INIT, wq_head = NULL, wq_tail = NULL\<rparr>\<rparr>) = Some t \<and>
      waitqueue_block 0 (wait_children 0x400) t = Some u \<and> t_state (thread_at u 0x1000) = THREAD_BLOCKED"
    unfolding v_def [symmetric]
    using proc_wait_lost_wakeup [OF c _ _ l(1) w _ m p(1,2,3) l(2) d d, of 1 7] cur by auto
qed

end
