(* ===== verification/Kterm.thy ===== *)
theory Kterm
  imports Lapis_Prelude
begin

text \<open>
  The terminal on the framebuffer: \<^verbatim>\<open>kterm/kterm.c\<close> with the glyphs of \<^verbatim>\<open>kterm/psf.c\<close>. The screen is a ring of 256 rows of
  256 cells; the framebuffer is a function from pixel indices to colours. A store outside the
  cells or outside the pixels of the framebuffer, and a use of a null framebuffer, is \<open>None\<close>.

  Characters are bytes; a C \<^verbatim>\<open>char\<close> is compared with letters only, where its sign does not matter. The parameters of an
  escape sequence are 32-bit integers, whose overflow wraps.
\<close>

section \<open>State\<close>

record limine_framebuffer =
  fb_address :: u64
  fb_width :: u64
  fb_height :: u64
  fb_pitch :: u64
  red_mask_shift :: u8
  green_mask_shift :: u8
  blue_mask_shift :: u8

record terminal_cell =
  tc_ch :: u8
  tc_fg :: u32
  tc_bg :: u32

datatype term_escape_state = TERM_ESC_NONE | TERM_ESC_SEEN | TERM_ESC_CSI

record term_escape_ctx =
  esc_state :: term_escape_state
  esc_params :: "int list"
  current_param_active :: bool
  private_mode :: bool
  bright :: bool
  cursor_visible :: bool
  saved_cursor_x :: u64
  saved_cursor_y :: u64

type_synonym rgb = "u32 \<times> u32 \<times> u32"

text \<open>
  \<open>esc_params\<close> holds the first \<^verbatim>\<open>param_count\<close> elements of the array; the others are always 0. \<open>psf\<close> is the bytes of the font
  behind the pointer, \<open>boot_fb\<close> the framebuffer of \<^verbatim>\<open>kernel_info\<close>.
\<close>

record kterm =
  boot_fb :: "limine_framebuffer option"
  framebuffer :: "limine_framebuffer option"
  psf :: "nat \<Rightarrow> u8"
  pixels :: "u64 \<Rightarrow> u32"
  screen_buffer :: "u64 \<Rightarrow> u64 \<Rightarrow> terminal_cell"
  char_cursor_x :: u64
  char_cursor_y :: u64
  old_cursor_x :: u64
  old_cursor_y :: u64
  rows :: u64
  cols :: u64
  scroll_base :: u64
  esc_ctx :: term_escape_ctx
  term_ready :: bool
  bg_color :: rgb
  fg_color :: rgb

abbreviation (input) FONT_WIDTH :: u64 where "FONT_WIDTH \<equiv> 8"
abbreviation (input) TERM_ESC_PARAMS_MAX :: nat where "TERM_ESC_PARAMS_MAX \<equiv> 16"
abbreviation (input) MAX_ROWS :: u64 where "MAX_ROWS \<equiv> 256"
abbreviation (input) MAX_COLS :: u64 where "MAX_COLS \<equiv> 256"
abbreviation (input) PSF1_MAGIC :: u16 where "PSF1_MAGIC \<equiv> 0x0436"
abbreviation (input) default_bg_rgb :: u32 where "default_bg_rgb \<equiv> 0x000000"
abbreviation (input) default_fg_rgb :: u32 where "default_fg_rgb \<equiv> 0xAAAAAA"

definition upd_esc :: "(term_escape_ctx \<Rightarrow> term_escape_ctx) \<Rightarrow> kterm \<Rightarrow> kterm" where
  "upd_esc f s = s\<lparr>esc_ctx := f (esc_ctx s)\<rparr>"

section \<open>Glyphs (psf.c)\<close>

definition psf_load :: "(nat \<Rightarrow> u8) \<Rightarrow> kterm \<Rightarrow> int \<times> kterm" where
  "psf_load buffer s =
     (let magic = (ucast (buffer 0) :: u16) OR push_bit 8 (ucast (buffer 1)); mode = buffer 2 in
      if magic \<noteq> PSF1_MAGIC then (-1, s)
      else if mode AND 1 = 0 \<and> mode AND 2 = 0 then (-1, s)
      else (0, s\<lparr>psf := buffer\<rparr>))"

definition psf_height :: "kterm \<Rightarrow> u64" where "psf_height s = ucast (psf s 3)"

definition fb_pixels :: "limine_framebuffer \<Rightarrow> nat" where
  "fb_pixels f = unat (fb_pitch f) div 4 * unat (fb_height f)"

definition fb_pitch_pixels :: "limine_framebuffer \<Rightarrow> u32" where
  "fb_pitch_pixels f = ucast (fb_pitch f div 4)"

definition put_pixel :: "limine_framebuffer \<Rightarrow> u64 \<Rightarrow> u32 \<Rightarrow> kterm \<Rightarrow> kterm option" where
  "put_pixel f i v s = (if unat i < fb_pixels f then Some (s\<lparr>pixels := (pixels s)(i := v)\<rparr>) else None)"

definition rgb_to_pixel :: "limine_framebuffer \<Rightarrow> rgb \<Rightarrow> u32" where
  "rgb_to_pixel f = (\<lambda>(r, g, b). push_bit (unat (red_mask_shift f)) r OR push_bit (unat (green_mask_shift f)) g
     OR push_bit (unat (blue_mask_shift f)) b)"

definition rgb_to_components :: "limine_framebuffer \<Rightarrow> u32 \<Rightarrow> rgb" where
  "rgb_to_components f v = (drop_bit (unat (red_mask_shift f)) v AND 0xFF, drop_bit (unat (green_mask_shift f)) v AND 0xFF,
     drop_bit (unat (blue_mask_shift f)) v AND 0xFF)"

definition psf_putc :: "u8 \<Rightarrow> u32 \<Rightarrow> u32 \<Rightarrow> rgb \<Rightarrow> rgb \<Rightarrow> kterm \<Rightarrow> kterm option" where
  "psf_putc c x y fg bg s = do {
     f \<leftarrow> boot_fb s;
     for_each (\<lambda>i. for_each (\<lambda>j s.
         let row = psf s (4 + unat c * unat (psf_height s) + i);
             color = (if bit row (7 - j) then rgb_to_pixel f fg else rgb_to_pixel f bg)
         in put_pixel f ((ucast y + of_nat i) * ucast (fb_pitch_pixels f) + (ucast x + of_nat j)) color s) [0 ..< 8])
       [0 ..< unat (psf_height s)] s}"

section \<open>Colours\<close>

definition ansi_palette :: "u32 list" where
  "ansi_palette = [0x000000, 0xAA0000, 0x00AA00, 0xAA5500, 0x0000AA, 0xAA00AA, 0x00AAAA, 0xAAAAAA,
     0x555555, 0xFF5555, 0x55FF55, 0xFFFF55, 0x5555FF, 0xFF55FF, 0x55FFFF, 0xFFFFFF]"

definition byte_of :: "int \<Rightarrow> u32" where "byte_of p = ucast (word_of_int p :: u8)"

definition ansi_basic_to_rgb :: "int \<Rightarrow> bool \<Rightarrow> u32" where
  "ansi_basic_to_rgb color br =
     (let color = (if color < 0 \<or> 7 < color then 7 else color) in ansi_palette ! nat (color + (if br then 8 else 0)))"

definition ansi_256_to_rgb :: "limine_framebuffer option \<Rightarrow> int \<Rightarrow> u32 option" where
  "ansi_256_to_rgb fb idx =
     (let idx = (if idx < 0 then 0 else idx) in
      if idx < 16 then Some (ansi_palette ! nat idx)
      else do {
        f \<leftarrow> fb;
        Some (if idx < 232
          then let cube = idx - 16; levels = [0, 95, 135, 175, 215, 255] in
            rgb_to_pixel f (levels ! nat (cube div 36), levels ! nat ((cube div 6) mod 6), levels ! nat (cube mod 6))
          else let gray = byte_of (8 + (idx - 232) * 10) in rgb_to_pixel f (gray, gray, gray))})"

definition cell_fg_rgb :: "kterm \<Rightarrow> u32 option" where
  "cell_fg_rgb s = map_option (\<lambda>f. rgb_to_pixel f (fg_color s)) (framebuffer s)"

definition cell_bg_rgb :: "kterm \<Rightarrow> u32 option" where
  "cell_bg_rgb s = map_option (\<lambda>f. rgb_to_pixel f (bg_color s)) (framebuffer s)"

definition find_fb :: "kterm \<Rightarrow> kterm" where
  "find_fb s = (if framebuffer s = None then s\<lparr>framebuffer := boot_fb s\<rparr> else s)"

definition kterm_set_bg :: "u32 \<Rightarrow> kterm \<Rightarrow> kterm" where
  "kterm_set_bg v s =
     (let s = find_fb s in case framebuffer s of None \<Rightarrow> s | Some f \<Rightarrow> s\<lparr>bg_color := rgb_to_components f v\<rparr>)"

definition kterm_set_fg :: "u32 \<Rightarrow> kterm \<Rightarrow> kterm" where
  "kterm_set_fg v s =
     (let s = find_fb s in case framebuffer s of None \<Rightarrow> s | Some f \<Rightarrow> s\<lparr>fg_color := rgb_to_components f v\<rparr>)"

definition reset_escape_state :: "kterm \<Rightarrow> kterm" where
  "reset_escape_state = upd_esc (\<lambda>e. e\<lparr>esc_state := TERM_ESC_NONE, esc_params := [], current_param_active := False,
     private_mode := False\<rparr>)"

definition reset_terminal_attributes :: "kterm \<Rightarrow> kterm" where
  "reset_terminal_attributes s =
     kterm_set_bg default_bg_rgb (kterm_set_fg default_fg_rgb (upd_esc (\<lambda>e. e\<lparr>bright := False\<rparr>) s))"

section \<open>Drawing\<close>

definition draw_char_at :: "u64 \<Rightarrow> u64 \<Rightarrow> u8 \<Rightarrow> u32 \<Rightarrow> u32 \<Rightarrow> kterm \<Rightarrow> kterm option" where
  "draw_char_at x y c fg bg s = do {
     f \<leftarrow> framebuffer s;
     psf_putc c (ucast (x * FONT_WIDTH)) (ucast (y * psf_height s)) (rgb_to_components f fg) (rgb_to_components f bg) s}"

definition get_cell :: "u64 \<Rightarrow> u64 \<Rightarrow> kterm \<Rightarrow> terminal_cell option" where
  "get_cell row col s = (if row < MAX_ROWS \<and> col < MAX_COLS then Some (screen_buffer s row col) else None)"

definition set_cell :: "u64 \<Rightarrow> u64 \<Rightarrow> terminal_cell \<Rightarrow> kterm \<Rightarrow> kterm option" where
  "set_cell row col c s =
     (if row < MAX_ROWS \<and> col < MAX_COLS
      then Some (s\<lparr>screen_buffer := (screen_buffer s)(row := (screen_buffer s row)(col := c))\<rparr>) else None)"

definition clear_cell :: "u64 \<Rightarrow> u64 \<Rightarrow> kterm \<Rightarrow> kterm option" where
  "clear_cell row col s = do {
     fg \<leftarrow> cell_fg_rgb s;
     bg \<leftarrow> cell_bg_rgb s;
     set_cell row col \<lparr>tc_ch = 32, tc_fg = fg, tc_bg = bg\<rparr> s}"

definition real_row :: "u64 \<Rightarrow> kterm \<Rightarrow> u64" where
  "real_row y s = (scroll_base s + y) mod MAX_ROWS"

definition shown :: "u8 \<Rightarrow> u8" where "shown c = (if c \<noteq> 0 then c else 32)"

definition draw_cell :: "u64 \<Rightarrow> u64 \<Rightarrow> kterm \<Rightarrow> kterm option" where
  "draw_cell x y s = do {
     cell \<leftarrow> get_cell (real_row y s) x s;
     draw_char_at x y (shown (tc_ch cell)) (tc_fg cell) (tc_bg cell) s}"

definition render_screen :: "kterm \<Rightarrow> kterm option" where
  "render_screen s = for_each (\<lambda>y. for_each (\<lambda>x. draw_cell (of_nat x) (of_nat y)) [0 ..< unat (cols s)]) [0 ..< unat (rows s)] s"

text \<open>The colours are put together again from their parts, so the pixels under the cursor stay as they are.\<close>

definition kterm_render_cursor :: "u64 \<Rightarrow> u64 \<Rightarrow> kterm \<Rightarrow> kterm option" where
  "kterm_render_cursor x y s =
     (if \<not> term_ready s \<or> framebuffer s = None then Some s
      else do {
        s \<leftarrow> (if old_cursor_x s \<noteq> x \<or> old_cursor_y s \<noteq> y then draw_cell (old_cursor_x s) (old_cursor_y s) s else Some s);
        if \<not> cursor_visible (esc_ctx s) then Some (s\<lparr>old_cursor_x := x, old_cursor_y := y\<rparr>)
        else do {
          f \<leftarrow> framebuffer s;
          let px = x * FONT_WIDTH;
          let py = y * psf_height s;
          s \<leftarrow> for_each (\<lambda>i. for_each (\<lambda>j s.
              let at = (py + of_nat j) * ucast (fb_pitch_pixels f) + (px + of_nat i)
              in put_pixel f at (rgb_to_pixel f (rgb_to_components f (pixels s at))) s) [0 ..< unat (psf_height s)]) [0 ..< 8] s;
          Some (s\<lparr>old_cursor_x := x, old_cursor_y := y\<rparr>)}})"

definition clear_all :: "kterm \<Rightarrow> kterm option" where
  "clear_all = for_each (\<lambda>i. for_each (\<lambda>j. clear_cell (of_nat i) (of_nat j)) [0 ..< 256]) [0 ..< 256]"

text \<open>The index of a row is computed in 32 bits.\<close>

definition kterm_cls :: "kterm \<Rightarrow> kterm option" where
  "kterm_cls s =
     (case framebuffer s of None \<Rightarrow> Some s
      | Some f \<Rightarrow>
          if fb_address f = NULL then Some s
          else do {
            let bg_pixel = rgb_to_pixel f (bg_color s);
            s \<leftarrow> for_each (\<lambda>y. let row_base = (ucast ((of_nat y :: u64) * ucast (fb_pitch_pixels f)) :: u32) in
                   for_each (\<lambda>x. put_pixel f (ucast row_base + of_nat x) bg_pixel) [0 ..< unat (fb_width f)])
                 [0 ..< unat (fb_height f)] s;
            s \<leftarrow> clear_all s;
            let s = reset_escape_state (s\<lparr>char_cursor_x := 0, char_cursor_y := 0, scroll_base := 0\<rparr>);
            s \<leftarrow> render_screen s;
            kterm_render_cursor (char_cursor_x s) (char_cursor_y s) s})"

definition kterm_init :: "kterm \<Rightarrow> kterm option" where
  "kterm_init s =
     (let s = s\<lparr>framebuffer := boot_fb s\<rparr> in
      case framebuffer s of None \<Rightarrow> Some s
      | Some f \<Rightarrow>
          if fb_address f = NULL then Some s
          else if psf_height s = 0 then None
          else do {
            let s = s\<lparr>rows := fb_height f div psf_height s, cols := fb_width f div FONT_WIDTH\<rparr>;
            s \<leftarrow> kterm_cls (reset_terminal_attributes s);
            s \<leftarrow> render_screen s;
            Some (s\<lparr>term_ready := True\<rparr>)})"

definition ensure_init :: "kterm \<Rightarrow> kterm option" where
  "ensure_init s = (if term_ready s then Some s else kterm_init s)"

definition scroll_up_by_one :: "kterm \<Rightarrow> kterm option" where
  "scroll_up_by_one s = do {
     let s = s\<lparr>scroll_base := (scroll_base s + 1) mod MAX_ROWS\<rparr>;
     let new_line = (scroll_base s + rows s - 1) mod MAX_ROWS;
     s \<leftarrow> for_each (\<lambda>i. clear_cell new_line (of_nat i)) [0 ..< 256] s;
     render_screen s}"

section \<open>Cursor and clearing\<close>

definition kterm_move_cursor :: "u64 \<Rightarrow> u64 \<Rightarrow> kterm \<Rightarrow> kterm option" where
  "kterm_move_cursor x y s = do {
     s \<leftarrow> ensure_init s;
     let x = (if cols s \<le> x then (if cols s \<noteq> 0 then cols s - 1 else 0) else x);
     let y = (if rows s \<le> y then (if rows s \<noteq> 0 then rows s - 1 else 0) else y);
     let s = s\<lparr>char_cursor_x := x, char_cursor_y := y\<rparr>;
     kterm_render_cursor (char_cursor_x s) (char_cursor_y s) s}"

definition kterm_save_cursor :: "kterm \<Rightarrow> kterm" where
  "kterm_save_cursor s = upd_esc (\<lambda>e. e\<lparr>saved_cursor_x := char_cursor_x s, saved_cursor_y := char_cursor_y s\<rparr>) s"

definition kterm_restore_cursor :: "kterm \<Rightarrow> kterm option" where
  "kterm_restore_cursor s = kterm_move_cursor (saved_cursor_x (esc_ctx s)) (saved_cursor_y (esc_ctx s)) s"

text \<open>The columns of a loop \<^verbatim>\<open>for (x = start; x <= end && x < cols; x++)\<close>.\<close>

definition columns :: "u64 \<Rightarrow> u64 \<Rightarrow> kterm \<Rightarrow> nat list" where
  "columns start fin s = [unat start ..< min (unat fin + 1) (unat (cols s))]"

definition clear_columns :: "u64 \<Rightarrow> u64 \<Rightarrow> u64 \<Rightarrow> kterm \<Rightarrow> kterm option" where
  "clear_columns row start fin s = for_each (\<lambda>x. clear_cell row (of_nat x)) (columns start fin s) s"

definition last_col :: "kterm \<Rightarrow> u64" where
  "last_col s = (if cols s \<noteq> 0 then cols s - 1 else 0)"

definition redraw :: "kterm \<Rightarrow> kterm option" where
  "redraw s = do {
     s \<leftarrow> render_screen s;
     kterm_render_cursor (char_cursor_x s) (char_cursor_y s) s}"

definition kterm_clear_line :: "int \<Rightarrow> kterm \<Rightarrow> kterm option" where
  "kterm_clear_line mode s = do {
     s \<leftarrow> ensure_init s;
     s \<leftarrow> clear_columns (real_row (char_cursor_y s) s) (if mode = 0 then char_cursor_x s else 0)
            (if mode = 1 then char_cursor_x s else last_col s) s;
     redraw s}"

definition clear_row :: "int \<Rightarrow> u64 \<Rightarrow> kterm \<Rightarrow> kterm option" where
  "clear_row mode y s =
     (if mode = 0 \<and> y < char_cursor_y s \<or> mode = 1 \<and> char_cursor_y s < y then Some s
      else clear_columns (real_row y s) (if mode = 0 \<and> y = char_cursor_y s then char_cursor_x s else 0)
             (if mode = 1 \<and> y = char_cursor_y s then char_cursor_x s else last_col s) s)"

definition kterm_clear_screen :: "int \<Rightarrow> kterm \<Rightarrow> kterm option" where
  "kterm_clear_screen mode s = do {
     s \<leftarrow> ensure_init s;
     if mode = 2 \<or> mode = 3 then kterm_cls s
     else do {
       s \<leftarrow> for_each (\<lambda>y. clear_row mode (of_nat y)) [0 ..< unat (rows s)] s;
       redraw s}}"

section \<open>Escape sequences\<close>

text \<open>The loop of \<^verbatim>\<open>term_apply_sgr\<close> over the parameters from \<^verbatim>\<open>i\<close> on.\<close>

definition set_colour :: "bool \<Rightarrow> u32 \<Rightarrow> kterm \<Rightarrow> kterm" where
  "set_colour is_fg v s = (if is_fg then kterm_set_fg v s else kterm_set_bg v s)"

definition sgr_basic :: "int \<Rightarrow> kterm \<Rightarrow> kterm option" where
  "sgr_basic p s =
     (if p = 0 then Some (reset_terminal_attributes s)
      else if p = 1 then Some (upd_esc (\<lambda>e. e\<lparr>bright := True\<rparr>) s)
      else if p = 22 then Some (upd_esc (\<lambda>e. e\<lparr>bright := False\<rparr>) s)
      else if p = 7 then do {
        fg \<leftarrow> cell_fg_rgb s;
        bg \<leftarrow> cell_bg_rgb s;
        Some (kterm_set_bg fg (kterm_set_fg bg s))}
      else if p = 27 then Some (reset_terminal_attributes s)
      else if p = 39 then Some (kterm_set_fg default_fg_rgb s)
      else if p = 49 then Some (kterm_set_bg default_bg_rgb s)
      else if 30 \<le> p \<and> p \<le> 37 then Some (kterm_set_fg (ansi_basic_to_rgb (p - 30) (bright (esc_ctx s))) s)
      else if 40 \<le> p \<and> p \<le> 47 then Some (kterm_set_bg (ansi_basic_to_rgb (p - 40) False) s)
      else if 90 \<le> p \<and> p \<le> 97 then Some (kterm_set_fg (ansi_basic_to_rgb (p - 90) True) s)
      else if 100 \<le> p \<and> p \<le> 107 then Some (kterm_set_bg (ansi_basic_to_rgb (p - 100) True) s)
      else Some s)"

function sgr_loop :: "int list \<Rightarrow> kterm \<Rightarrow> kterm option" where
  "sgr_loop [] s = Some s"
| "sgr_loop (p # ps) s =
     (if (p = 38 \<or> p = 48) \<and> ps \<noteq> []
      then (let mode = hd ps; rest = tl ps in
        if mode = 5 \<and> rest \<noteq> []
        then do {
          v \<leftarrow> ansi_256_to_rgb (framebuffer s) (hd rest);
          sgr_loop (tl rest) (set_colour (p = 38) v s)}
        else if mode = 2 \<and> 3 \<le> length rest
        then do {
          f \<leftarrow> framebuffer s;
          sgr_loop (drop 3 rest) (set_colour (p = 38) (rgb_to_pixel f (byte_of (rest ! 0), byte_of (rest ! 1), byte_of (rest ! 2))) s)}
        else sgr_loop rest s)
      else do {
        s \<leftarrow> sgr_basic p s;
        sgr_loop ps s})"
  by pat_completeness auto
termination
  by (relation "measure (\<lambda>(ps, s). length ps)") (auto simp: less_Suc_eq_le)

definition term_apply_sgr :: "kterm \<Rightarrow> kterm option" where
  "term_apply_sgr s =
     (if esc_params (esc_ctx s) = [] then Some (reset_terminal_attributes s) else sgr_loop (esc_params (esc_ctx s)) s)"

definition show_cursor :: "bool \<Rightarrow> kterm \<Rightarrow> kterm option" where
  "show_cursor v s =
     (let s = upd_esc (\<lambda>e. e\<lparr>cursor_visible := v\<rparr>) s in kterm_render_cursor (char_cursor_x s) (char_cursor_y s) s)"

definition step_back :: "u64 \<Rightarrow> u64 \<Rightarrow> u64" where
  "step_back a n = (if n < a then a - n else 0)"

definition one_less :: "int \<Rightarrow> u64" where
  "one_less p = (if 0 < p then word_of_int (p - 1) else 0)"

text \<open>The letters of the commands by their codes.\<close>

definition term_execute_csi :: "u8 \<Rightarrow> kterm \<Rightarrow> kterm option" where
  "term_execute_csi cmd s =
     (let ps = esc_params (esc_ctx s);
          p0 = (if 0 < length ps then ps ! 0 else 0);
          p1 = (if 1 < length ps then ps ! 1 else 0);
          n = (if 0 < p0 then word_of_int p0 else 1);
          x = char_cursor_x s; y = char_cursor_y s in
      if cmd = 0x41 then kterm_move_cursor x (step_back y n) s
      else if cmd = 0x42 then kterm_move_cursor x (y + n) s
      else if cmd = 0x43 then kterm_move_cursor (x + n) y s
      else if cmd = 0x44 then kterm_move_cursor (step_back x n) y s
      else if cmd = 0x45 then kterm_move_cursor 0 (y + n) s
      else if cmd = 0x46 then kterm_move_cursor 0 (step_back y n) s
      else if cmd = 0x47 then kterm_move_cursor (one_less p0) y s
      else if cmd = 0x48 \<or> cmd = 0x66 then kterm_move_cursor (one_less p1) (one_less p0) s
      else if cmd = 0x4A then kterm_clear_screen p0 s
      else if cmd = 0x4B then kterm_clear_line p0 s
      else if cmd = 0x6D then term_apply_sgr s
      else if cmd = 0x73 then Some (kterm_save_cursor s)
      else if cmd = 0x75 then kterm_restore_cursor s
      else if cmd = 0x68 then (if private_mode (esc_ctx s) \<and> p0 = 25 then show_cursor True s else Some s)
      else if cmd = 0x6C then (if private_mode (esc_ctx s) \<and> p0 = 25 then show_cursor False s else Some s)
      else Some s)"

definition wrap32 :: "int \<Rightarrow> int" where "wrap32 x = sint (word_of_int x :: u32)"

text \<open>A digit goes to the last parameter, after a new one has been started if none is open and there is room.\<close>

definition esc_digit :: "int \<Rightarrow> term_escape_ctx \<Rightarrow> term_escape_ctx" where
  "esc_digit d e =
     (let e = (if \<not> current_param_active e \<and> length (esc_params e) < TERM_ESC_PARAMS_MAX
               then e\<lparr>current_param_active := True, esc_params := esc_params e @ [0]\<rparr> else e);
          ps = esc_params e
      in if ps \<noteq> [] then e\<lparr>esc_params := butlast ps @ [wrap32 (last ps * 10 + d)]\<rparr> else e)"

definition esc_semicolon :: "term_escape_ctx \<Rightarrow> term_escape_ctx" where
  "esc_semicolon e =
     (if \<not> current_param_active e \<and> length (esc_params e) < TERM_ESC_PARAMS_MAX
      then e\<lparr>esc_params := esc_params e @ [0], current_param_active := False\<rparr>
      else e\<lparr>current_param_active := False\<rparr>)"

definition term_handle_escape :: "u8 \<Rightarrow> kterm \<Rightarrow> kterm option" where
  "term_handle_escape c s =
     (case esc_state (esc_ctx s) of
        TERM_ESC_SEEN \<Rightarrow>
          Some (if c = 0x5B
            then upd_esc (\<lambda>e. e\<lparr>esc_state := TERM_ESC_CSI, esc_params := [], current_param_active := False, private_mode := False\<rparr>) s
            else reset_escape_state s)
      | TERM_ESC_CSI \<Rightarrow>
          if c = 0x3F then Some (upd_esc (\<lambda>e. e\<lparr>private_mode := True\<rparr>) s)
          else if 0x30 \<le> c \<and> c \<le> 0x39 then Some (upd_esc (esc_digit (uint c - 0x30)) s)
          else if c = 0x3B then Some (upd_esc esc_semicolon s)
          else do {
            s \<leftarrow> (if 0x40 \<le> c \<and> c \<le> 0x7E then term_execute_csi c s else Some s);
            Some (reset_escape_state s)}
      | TERM_ESC_NONE \<Rightarrow> Some (reset_escape_state s))"

section \<open>Characters\<close>

text \<open>The end of \<^verbatim>\<open>term_raw_putc\<close>: wrap at the right edge, scroll at the bottom.\<close>

definition settle_cursor :: "kterm \<Rightarrow> kterm option" where
  "settle_cursor s = do {
     let s = (if cols s \<le> char_cursor_x s then s\<lparr>char_cursor_x := 0, char_cursor_y := char_cursor_y s + 1\<rparr> else s);
     s \<leftarrow> (if rows s \<le> char_cursor_y s then scroll_up_by_one (s\<lparr>char_cursor_y := rows s - 1\<rparr>) else Some s);
     kterm_render_cursor (char_cursor_x s) (char_cursor_y s) s}"

definition draw_current :: "u64 \<Rightarrow> kterm \<Rightarrow> kterm option" where
  "draw_current row s = do {
     cell \<leftarrow> get_cell row (char_cursor_x s) s;
     draw_char_at (char_cursor_x s) (char_cursor_y s) (tc_ch cell) (tc_fg cell) (tc_bg cell) s}"

definition put_plain :: "u8 \<Rightarrow> kterm \<Rightarrow> kterm option" where
  "put_plain c s = do {
     s \<leftarrow> (if c = 10 then Some (s\<lparr>char_cursor_x := 0, char_cursor_y := char_cursor_y s + 1\<rparr>)
           else if c = 13 then Some (s\<lparr>char_cursor_x := 0\<rparr>)
           else if c = 8
           then (if 0 < char_cursor_x s
             then do {
               let s = s\<lparr>char_cursor_x := char_cursor_x s - 1\<rparr>;
               let row = real_row (char_cursor_y s) s;
               s \<leftarrow> clear_cell row (char_cursor_x s) s;
               draw_current row s}
             else Some s)
           else do {
             let row = real_row (char_cursor_y s) s;
             fg \<leftarrow> cell_fg_rgb s;
             bg \<leftarrow> cell_bg_rgb s;
             s \<leftarrow> set_cell row (char_cursor_x s) \<lparr>tc_ch = c, tc_fg = fg, tc_bg = bg\<rparr> s;
             s \<leftarrow> draw_current row s;
             Some (s\<lparr>char_cursor_x := char_cursor_x s + 1\<rparr>)});
     settle_cursor s}"

definition term_raw_putc :: "u8 \<Rightarrow> kterm \<Rightarrow> kterm option" where
  "term_raw_putc c s = (if c = 9 then for_each (\<lambda>_. put_plain 32) [0 ..< 4 :: nat] s else put_plain c s)"

definition kterm_putc :: "u8 \<Rightarrow> kterm \<Rightarrow> kterm option" where
  "kterm_putc c s = do {
     s \<leftarrow> ensure_init s;
     if esc_state (esc_ctx s) \<noteq> TERM_ESC_NONE then term_handle_escape c s
     else if c = 27 then Some (upd_esc (\<lambda>e. e\<lparr>esc_state := TERM_ESC_SEEN\<rparr>) s)
     else term_raw_putc c s}"

text \<open>A string without its terminator.\<close>

definition kterm_puts :: "u8 list \<Rightarrow> kterm \<Rightarrow> kterm option" where
  "kterm_puts str s = do {
     s \<leftarrow> ensure_init s;
     for_each kterm_putc str s}"

end
