(* ===== verification/Kterm_Props.thy ===== *)
theory Kterm_Props
  imports Kterm
begin

text \<open>
  Properties of the terminal. Drawing changes pixels only, so every operation is a function of the rest of the state; the
  ring of rows is seen as a grid of visible rows; and an escape sequence reaches its command with its parameters.
\<close>

section \<open>The invariant\<close>

text \<open>
  The terminal fits: at most 256 rows and columns, and fewer than \<^verbatim>\<open>2^32\<close> pixels.
\<close>

definition geom :: "limine_framebuffer \<Rightarrow> kterm \<Rightarrow> bool" where
  "geom f s \<longleftrightarrow> framebuffer s = Some f \<and> boot_fb s = Some f \<and> fb_address f \<noteq> NULL \<and> psf_height s \<noteq> 0 \<and>
     rows s = fb_height f div psf_height s \<and> cols s = fb_width f div FONT_WIDTH \<and>
     0 < rows s \<and> rows s \<le> MAX_ROWS \<and> 0 < cols s \<and> cols s \<le> MAX_COLS \<and>
     fb_width f \<le> fb_pitch f div 4 \<and> fb_pixels f < 2 ^ 32"

definition term_inv :: "limine_framebuffer \<Rightarrow> kterm \<Rightarrow> bool" where
  "term_inv f s \<longleftrightarrow> geom f s \<and> term_ready s \<and> char_cursor_x s < cols s \<and> char_cursor_y s < rows s \<and> old_cursor_x s < cols s \<and>
     old_cursor_y s < rows s \<and> scroll_base s < MAX_ROWS \<and> length (esc_params (esc_ctx s)) \<le> TERM_ESC_PARAMS_MAX"

lemma for_each_total:
  assumes "\<And>x s. x \<in> set xs \<Longrightarrow> I s \<Longrightarrow> \<exists>t. f x s = Some t \<and> R s t \<and> I t" and "I s" and "\<And>s. R s s" and "\<And>s t u. R s t \<Longrightarrow> R t u \<Longrightarrow> R s u"
  shows "\<exists>t. for_each f xs s = Some t \<and> R s t \<and> I t"
  using assms(1,2)
proof (induction xs arbitrary: s)
  case Nil
  then show ?case using assms(3) by simp
next
  case (Cons x xs)
  obtain t where t: "f x s = Some t" "R s t" "I t" using Cons.prems by (metis list.set_intros(1))
  obtain u where "for_each f xs t = Some u" "R t u" "I u" using Cons.IH [OF _ t(3)] Cons.prems(1) by (metis list.set_intros(2))
  then show ?case using t assms(4) by auto
qed

lemma for_each_append: "for_each f (xs @ ys) s = for_each f xs s \<bind> for_each f ys"
  by (induction xs arbitrary: s) (auto split: bind_splits simp: Option.bind_assoc)

lemma for_each_map: "for_each f (map h xs) s = for_each (\<lambda>x. f (h x)) xs s"
proof (induction xs arbitrary: s)
  case (Cons x xs)
  then show ?case by (cases "f (h x) s") simp_all
qed simp

section \<open>Pixels\<close>

text \<open>\<open>t\<close> is \<open>s\<close> up to what is drawn.\<close>

definition drawn :: "kterm \<Rightarrow> kterm \<Rightarrow> bool" where
  "drawn s t \<longleftrightarrow> (\<exists>p. t = s\<lparr>pixels := p\<rparr>)"

lemma drawn_refl [simp]: "drawn s s"
  by (auto simp: drawn_def intro: exI [of _ "pixels s"])

lemma drawn_trans: "drawn s t \<Longrightarrow> drawn t u \<Longrightarrow> drawn s u"
  by (auto simp: drawn_def)

lemma drawn_simps:
  assumes "drawn s t"
  shows "boot_fb t = boot_fb s" "framebuffer t = framebuffer s" "psf t = psf s" "screen_buffer t = screen_buffer s"
    "char_cursor_x t = char_cursor_x s" "char_cursor_y t = char_cursor_y s" "old_cursor_x t = old_cursor_x s"
    "old_cursor_y t = old_cursor_y s" "rows t = rows s" "cols t = cols s" "scroll_base t = scroll_base s" "esc_ctx t = esc_ctx s"
    "term_ready t = term_ready s" "bg_color t = bg_color s" "fg_color t = fg_color s" "psf_height t = psf_height s"
    "real_row y t = real_row y s" "geom f t = geom f s"
  using assms by (auto simp: drawn_def psf_height_def real_row_def geom_def)

lemma geom_frame:
  "framebuffer t = framebuffer s \<Longrightarrow> boot_fb t = boot_fb s \<Longrightarrow> psf t = psf s \<Longrightarrow>
   rows t = rows s \<Longrightarrow> cols t = cols s \<Longrightarrow> geom f t = geom f s"
  by (simp add: geom_def psf_height_def)

lemma geomD:
  assumes "geom f s"
  shows "psf_height s \<noteq> 0" "framebuffer s = Some f" "boot_fb s = Some f" "fb_address f \<noteq> NULL" "0 < rows s" "rows s \<le> MAX_ROWS"
    "0 < cols s" "cols s \<le> MAX_COLS"
  using assms unfolding geom_def by blast+

lemma geom_size:
  assumes "geom f s" and "x < cols s" and "y < rows s" and "i < unat (psf_height s)" and "j < 8"
  shows "(unat y * unat (psf_height s) + i) * (unat (fb_pitch f) div 4) + (unat x * 8 + j) < fb_pixels f"
proof -
  let ?h = "unat (psf_height s)" and ?P = "unat (fb_pitch f) div 4" and ?H = "unat (fb_height f)"
  have "unat (rows s) = ?H div ?h" "unat (cols s) = unat (fb_width f) div 8" using assms(1) by (auto simp: geom_def unat_div)
  then have "unat y < ?H div ?h" "unat x < unat (fb_width f) div 8" using assms(2,3) by (simp_all add: word_less_nat_alt)
  then have "(unat y + 1) * ?h \<le> ?H" "(unat x + 1) * 8 \<le> unat (fb_width f)"
    using less_eq_div_iff_mult_less_eq [of ?h "unat y + 1" ?H] assms(4) less_eq_div_iff_mult_less_eq [of 8 "unat x + 1" "unat (fb_width f)"] by simp_all
  moreover have "unat (fb_width f) \<le> ?P" using assms(1) by (simp add: geom_def word_le_nat_alt unat_div)
  ultimately have yi: "unat y * ?h + i + 1 \<le> ?H" and xj: "unat x * 8 + j < ?P" using assms(4,5) by (simp_all add: algebra_simps)
  have "(unat y * ?h + i) * ?P + (unat x * 8 + j) < (unat y * ?h + i) * ?P + ?P" using xj by simp
  also have "\<dots> = (unat y * ?h + i + 1) * ?P" by (simp add: algebra_simps)
  also have "\<dots> \<le> ?H * ?P" using yi by (rule mult_le_mono1)
  finally show ?thesis by (simp add: fb_pixels_def mult.commute)
qed

lemma ucast32: "unat w < 2 ^ 32 \<Longrightarrow> ucast (ucast w :: u32) = (w :: u64)"
  by (simp add: word_unat_eq_iff unsigned_ucast_eq unsigned_take_bit_eq take_bit_nat_eq_self_iff)

lemma psf_height_bound: "unat (psf_height s) < 256"
proof -
  have "unat (psf s 3) < 256" using unat_bound [of "psf s 3"] by simp
  moreover have "unat (psf_height s) \<le> unat (psf s 3)"
    unfolding psf_height_def unsigned_ucast_eq by (rule take_bit_nat_less_eq_self)
  ultimately show ?thesis by simp
qed

lemma pixel_index:
  assumes "geom f s" and "x < cols s" and "y < rows s" and "i < unat (psf_height s)" and "j < 8"
  shows "unat ((y * psf_height s + of_nat i) * ucast (fb_pitch_pixels f) + (x * FONT_WIDTH + of_nat j)) < fb_pixels f"
proof -
  let ?h = "unat (psf_height s)" and ?P = "unat (fb_pitch f) div 4"
  note size = geom_size [OF assms]
  have lt: "fb_pixels f < 2 ^ 32" using assms(1) by (simp add: geom_def)
  have "fb_height f \<noteq> 0" using assms(1) by (auto simp: geom_def)
  then have "1 \<le> unat (fb_height f)" by (simp add: unat_gt_0 Suc_leI)
  then have P: "?P < 2 ^ 32" using lt mult_le_mono2 [of 1 "unat (fb_height f)" ?P] unfolding fb_pixels_def by linarith
  then have p: "unat (ucast (fb_pitch_pixels f) :: u64) = ?P"
    unfolding fb_pitch_pixels_def by (subst ucast32) (simp_all add: unat_div)
  define N where "N = (unat y * ?h + i) * ?P + (unat x * 8 + j)"
  have "(y * psf_height s + of_nat i) * ucast (fb_pitch_pixels f) + (x * FONT_WIDTH + of_nat j) = (of_nat N :: u64)"
    unfolding N_def p [symmetric] by simp
  moreover have "unat (of_nat N :: u64) = N"
    using size lt unfolding N_def [symmetric] by (simp add: unat_of_nat take_bit_nat_eq_self_iff)
  ultimately show ?thesis using size unfolding N_def by simp
qed

text \<open>Where a cell is drawn, in 32 bits as \<^verbatim>\<open>psf_putc\<close> takes it.\<close>

lemma narrow:
  assumes "geom f s" and "x < cols s" and "y < rows s"
  shows "ucast (ucast (x * FONT_WIDTH) :: u32) = x * FONT_WIDTH" "ucast (ucast (y * psf_height s) :: u32) = y * psf_height s"
proof -
  have b: "unat y < 256" "unat x < 256"
    using assms by (auto simp: geom_def word_less_nat_alt word_le_nat_alt)
  note h = psf_height_bound [of s]
  have "unat y * unat (psf_height s) \<le> 255 * 255" using b h by (intro mult_le_mono) simp_all
  then show "ucast (ucast (x * FONT_WIDTH) :: u32) = x * FONT_WIDTH" "ucast (ucast (y * psf_height s) :: u32) = y * psf_height s"
    using b by (intro ucast32; subst unat_mult_no_wrap; simp)+
qed

lemma for_each_drawn:
  assumes "\<And>x u. x \<in> set xs \<Longrightarrow> drawn s u \<Longrightarrow> \<exists>t. f x u = Some t \<and> drawn s t" and "drawn s u"
  shows "\<exists>t. for_each f xs u = Some t \<and> drawn s t"
  using for_each_total [of xs "drawn s" f "\<lambda>_ _. True" u] assms by simp

lemma put_pixel_drawn: "drawn s u \<Longrightarrow> unat i < fb_pixels f \<Longrightarrow> \<exists>t. put_pixel f i v u = Some t \<and> drawn s t"
  by (auto simp: put_pixel_def drawn_def)

lemma psf_putc_drawn:
  assumes "geom f s" and "x < cols s" and "y < rows s"
  shows "\<exists>t. psf_putc c (ucast (x * FONT_WIDTH)) (ucast (y * psf_height s)) fg bg s = Some t \<and> drawn s t"
proof -
  have f: "boot_fb s = Some f" using assms(1) by (simp add: geom_def)
  show ?thesis
    unfolding psf_putc_def f Option.bind.simps Let_def narrow [OF assms]
    by (intro for_each_drawn put_pixel_drawn pixel_index [OF assms]) simp_all
qed

lemma draw_char_drawn:
  assumes "geom f s" and "x < cols s" and "y < rows s"
  shows "\<exists>t. draw_char_at x y c fg bg s = Some t \<and> drawn s t"
proof -
  have "framebuffer s = Some f" using assms(1) by (simp add: geom_def)
  then show ?thesis using psf_putc_drawn [OF assms] by (simp add: draw_char_at_def)
qed

lemma mod_rows: "(a :: u64) mod MAX_ROWS < MAX_ROWS"
  by (simp add: word_mod_less_divisor)

lemma draw_cell_drawn:
  assumes "geom f s" and "x < cols s" and "y < rows s" and "drawn s u"
  shows "\<exists>t. draw_cell x y u = Some t \<and> drawn s t"
proof -
  have "x < MAX_COLS" using assms(1,2) by (auto simp: geom_def intro: less_le_trans)
  then have "get_cell (real_row y u) x u = Some (screen_buffer u (real_row y u) x)" by (simp add: get_cell_def real_row_def mod_rows)
  moreover have "geom f u" "x < cols u" "y < rows u" using assms drawn_simps [OF assms(4)] by simp_all
  ultimately show ?thesis using draw_char_drawn [of f u x y] drawn_trans [OF assms(4)] by (fastforce simp: draw_cell_def)
qed

lemma render_screen_drawn:
  assumes "geom f s" and "drawn s u"
  shows "\<exists>t. render_screen u = Some t \<and> drawn s t"
proof -
  have lt: "i < unat w \<Longrightarrow> of_nat i < w" for i and w :: u64
    using unsigned_less [of w] by (simp add: word_less_nat_alt unat_of_nat take_bit_nat_eq_self_iff)
  show ?thesis
    unfolding render_screen_def
    by (intro for_each_drawn draw_cell_drawn [OF assms(1)] lt assms(2)) (simp_all add: drawn_simps [OF assms(2)])
qed

lemma render_cursor_drawn:
  assumes "geom f s" and "x < cols s" and "y < rows s" and "old_cursor_x s < cols s" and "old_cursor_y s < rows s"
    and "term_ready s"
  shows "\<exists>t. kterm_render_cursor x y s = Some t \<and> drawn (s\<lparr>old_cursor_x := x, old_cursor_y := y\<rparr>) t"
proof -
  have g: "term_ready s" "framebuffer s = Some f" using assms(6) geomD [OF assms(1)] by simp_all
  obtain u where u: "(if old_cursor_x s \<noteq> x \<or> old_cursor_y s \<noteq> y then draw_cell (old_cursor_x s) (old_cursor_y s) s else Some s) = Some u"
    "drawn s u"
    using draw_cell_drawn [OF assms(1,4,5) drawn_refl] by (metis drawn_refl)
  have fin: "drawn (s\<lparr>old_cursor_x := x, old_cursor_y := y\<rparr>) (v\<lparr>old_cursor_x := x, old_cursor_y := y\<rparr>)" if "drawn s v" for v
  proof -
    obtain p where "v = s\<lparr>pixels := p\<rparr>" using \<open>drawn s v\<close> by (auto simp: drawn_def)
    then show ?thesis unfolding drawn_def by (intro exI [of _ p]) simp
  qed
  have "\<exists>v. for_each (\<lambda>i. for_each (\<lambda>j s'.
      let at = (y * psf_height s + of_nat j) * ucast (fb_pitch_pixels f) + (x * FONT_WIDTH + of_nat i)
      in put_pixel f at (rgb_to_pixel f (rgb_to_components f (pixels s' at))) s') [0 ..< unat (psf_height s)]) [0 ..< 8] u = Some v \<and> drawn s v"
    unfolding Let_def by (intro for_each_drawn put_pixel_drawn pixel_index [OF assms(1-3)] u(2)) simp_all
  then show ?thesis
    using u g fin drawn_simps(2,12,16) [OF u(2)] by (auto simp: kterm_render_cursor_def Let_def)
qed

section \<open>Cells\<close>

definition blank :: "limine_framebuffer \<Rightarrow> kterm \<Rightarrow> terminal_cell" where
  "blank f s = \<lparr>tc_ch = 32, tc_fg = rgb_to_pixel f (fg_color s), tc_bg = rgb_to_pixel f (bg_color s)\<rparr>"

text \<open>The state with the cells of row \<open>r\<close> in the columns \<open>xs\<close> cleared.\<close>

definition cleared :: "limine_framebuffer \<Rightarrow> u64 \<Rightarrow> nat set \<Rightarrow> kterm \<Rightarrow> kterm" where
  "cleared f r xs s = s\<lparr>screen_buffer := (screen_buffer s)(r := \<lambda>c. if unat c \<in> xs then blank f s else screen_buffer s r c)\<rparr>"

lemma cleared_simps [simp]:
  "boot_fb (cleared f r xs s) = boot_fb s" "framebuffer (cleared f r xs s) = framebuffer s" "psf (cleared f r xs s) = psf s"
  "char_cursor_x (cleared f r xs s) = char_cursor_x s" "char_cursor_y (cleared f r xs s) = char_cursor_y s"
  "old_cursor_x (cleared f r xs s) = old_cursor_x s" "old_cursor_y (cleared f r xs s) = old_cursor_y s"
  "rows (cleared f r xs s) = rows s" "cols (cleared f r xs s) = cols s" "scroll_base (cleared f r xs s) = scroll_base s"
  "esc_ctx (cleared f r xs s) = esc_ctx s" "term_ready (cleared f r xs s) = term_ready s" "bg_color (cleared f r xs s) = bg_color s"
  "fg_color (cleared f r xs s) = fg_color s"
  by (simp_all add: cleared_def)

lemma cleared_cell: "screen_buffer (cleared f r xs s) a c = (if a = r \<and> unat c \<in> xs then blank f s else screen_buffer s a c)"
  by (simp add: cleared_def)

lemma geom_cleared [simp]: "geom g (cleared f r xs s) = geom g s"
  by (rule geom_frame) simp_all

lemma blank_cleared [simp]: "blank g (cleared f r xs s) = blank g s"
  by (simp add: blank_def)

lemma clear_cell_as:
  assumes "geom f s" and "row < MAX_ROWS" and "i < 256"
  shows "clear_cell row (of_nat i) s = Some (cleared f row {i} s)"
proof -
  have u: "unat (of_nat i :: u64) = i" using assms(3) by (simp add: unat_of_nat take_bit_nat_eq_self_iff)
  then have "of_nat i < MAX_COLS" using assms(3) by (simp add: word_less_nat_alt)
  moreover have "(screen_buffer s row)(of_nat i := blank f s) = (\<lambda>c. if unat c \<in> {i} then blank f s else screen_buffer s row c)"
    using u by (auto simp: fun_eq_iff word_unat_eq_iff)
  ultimately show ?thesis
    using assms by (simp add: clear_cell_def cell_fg_rgb_def cell_bg_rgb_def set_cell_def cleared_def blank_def geom_def)
qed

lemma cleared_cleared: "cleared f r ys (cleared f r xs s) = cleared f r (xs \<union> ys) s"
  by (auto simp: cleared_def blank_def fun_eq_iff)

lemma clear_many:
  "geom f s \<Longrightarrow> row < MAX_ROWS \<Longrightarrow> \<forall>i \<in> set xs. i < 256 \<Longrightarrow>
   for_each (\<lambda>i. clear_cell row (of_nat i)) xs s = Some (cleared f row (set xs) s)"
proof (induction xs arbitrary: s)
  case Nil
  have "cleared f row {} s = s" by (simp add: cleared_def)
  then show ?case by simp
next
  case (Cons i xs)
  then show ?case by (simp add: clear_cell_as cleared_cleared)
qed

section \<open>The visible grid\<close>

definition ring :: "kterm \<Rightarrow> nat \<Rightarrow> u64" where
  "ring s y = of_nat ((unat (scroll_base s) + y) mod 256)"

definition vis :: "kterm \<Rightarrow> nat \<Rightarrow> nat \<Rightarrow> terminal_cell" where
  "vis s y x = screen_buffer s (ring s y) (of_nat x)"

lemma ring_cleared [simp]: "ring (cleared f r xs s) y = ring s y"
  by (simp add: ring_def)

lemma unat_ring: "unat (ring s y) = (unat (scroll_base s) + y) mod 256"
  by (simp add: ring_def unat_of_nat take_bit_nat_eq_self_iff less_trans [OF mod_less_divisor])

lemma ring_less [simp]: "ring s y < MAX_ROWS"
  by (simp add: word_less_nat_alt unat_ring)

lemma offset_unique:
  assumes "(b + y) mod 256 = (b + z) mod (256 :: nat)" and "y \<le> z" and "z - y < 256"
  shows "y = z"
proof -
  have "256 dvd (b + z) - (b + y)" using assms(1,2) mod_eq_dvd_iff_nat [of "b + y" "b + z" 256] by simp
  then have "256 dvd z - y" by simp
  then show ?thesis using assms(2,3) dvd_imp_le [of 256 "z - y"] by linarith
qed

lemma ring_eq:
  assumes "y < 256" and "z < 256"
  shows "ring s y = ring s z \<longleftrightarrow> y = z"
proof
  assume "ring s y = ring s z"
  then have "(unat (scroll_base s) + y) mod 256 = (unat (scroll_base s) + z) mod 256" by (simp only: word_unat_eq_iff unat_ring)
  then show "y = z" using offset_unique [of _ y z] offset_unique [of _ z y] assms by (metis le_cases less_imp_diff_less)
qed simp

lemma unat_mod256: "unat ((w :: u64) mod MAX_ROWS) = unat w mod 256"
  by (simp add: unat_mod_distrib)

lemma real_row_ring:
  assumes "scroll_base s < MAX_ROWS" and "y < MAX_ROWS"
  shows "real_row y s = ring s (unat y)"
proof -
  have "unat (scroll_base s) < 256" "unat y < 256" using assms by (simp_all add: word_less_nat_alt)
  then have "unat (scroll_base s + y) = unat (scroll_base s) + unat y" by (intro unat_add_no_wrap) simp
  then show ?thesis unfolding word_unat_eq_iff unat_ring real_row_def unat_mod256 by simp
qed

lemma new_line_ring:
  assumes "scroll_base s < MAX_ROWS" and "0 < rows s" and "rows s \<le> MAX_ROWS"
  shows "((scroll_base s + 1) mod MAX_ROWS + rows s - 1) mod MAX_ROWS = ring s (unat (rows s))"
proof -
  let ?b = "(scroll_base s + 1) mod MAX_ROWS"
  have R: "unat (rows s) \<le> 256" "0 < unat (rows s)" "unat (scroll_base s) < 256"
    using assms by (simp_all add: word_le_nat_alt word_less_nat_alt)
  have "unat (scroll_base s + 1) = unat (scroll_base s) + unat (1 :: u64)" by (rule unat_add_no_wrap) (use R in simp)
  then have b: "unat ?b = (unat (scroll_base s) + 1) mod 256" by (simp add: unat_mod256)
  have "unat (?b + (rows s - 1)) = unat ?b + unat (rows s - 1)"
  proof (rule unat_add_no_wrap)
    have "unat (rows s - 1) = unat (rows s) - 1" using assms(2) by (intro unat_minus_one) auto
    then show "unat ?b + unat (rows s - 1) < 2 ^ LENGTH(64)" using R(1) unfolding b by simp
  qed
  moreover have "unat (rows s - 1) = unat (rows s) - 1" using assms(2) by (intro unat_minus_one) auto
  ultimately have "unat (?b + rows s - 1) = (unat (scroll_base s) + 1) mod 256 + unat (rows s) - 1"
    using R(2) by (simp add: b add_diff_eq)
  moreover have "((unat (scroll_base s) + 1) mod 256 + unat (rows s) - 1) mod 256 = (unat (scroll_base s) + unat (rows s)) mod 256"
  proof -
    have "(unat (scroll_base s) + 1) mod 256 + unat (rows s) - 1 = (unat (scroll_base s) + 1) mod 256 + (unat (rows s) - 1)" using R by simp
    also have "\<dots> mod 256 = (unat (scroll_base s) + 1 + (unat (rows s) - 1)) mod 256" by (rule mod_add_left_eq)
    also have "unat (scroll_base s) + 1 + (unat (rows s) - 1) = unat (scroll_base s) + unat (rows s)" using R by simp
    finally show ?thesis .
  qed
  ultimately show ?thesis unfolding word_unat_eq_iff unat_ring unat_mod256 by simp
qed

lemma scroll_up_as:
  assumes "geom f s" and "scroll_base s < MAX_ROWS"
  shows "\<exists>t. scroll_up_by_one s = Some t \<and>
    drawn (cleared f (ring s (unat (rows s))) {0 ..< 256} (s\<lparr>scroll_base := (scroll_base s + 1) mod MAX_ROWS\<rparr>)) t"
proof -
  let ?s1 = "s\<lparr>scroll_base := (scroll_base s + 1) mod MAX_ROWS\<rparr>"
  have g: "geom f ?s1" using assms(1) by (subst geom_frame) simp_all
  have "0 < rows s" "rows s \<le> MAX_ROWS" using geomD [OF assms(1)] by blast+
  note nl = new_line_ring [OF assms(2) this]
  have "for_each (\<lambda>i. clear_cell (ring s (unat (rows s))) (of_nat i)) [0 ..< 256] ?s1
    = Some (cleared f (ring s (unat (rows s))) {0 ..< 256} ?s1)"
    using clear_many [OF g, of "ring s (unat (rows s))" "[0 ..< 256]"] by simp
  then show ?thesis
    using render_screen_drawn [of f, OF _ drawn_refl] g by (simp add: scroll_up_by_one_def Let_def nl)
qed

lemma ring_scrolled: "ring (s\<lparr>scroll_base := (scroll_base s + 1) mod MAX_ROWS\<rparr>) y = ring s (y + 1)" if "scroll_base s < MAX_ROWS"
proof -
  have "unat (scroll_base s + 1) = unat (scroll_base s) + unat (1 :: u64)"
    by (rule unat_add_no_wrap) (use that in \<open>simp add: word_less_nat_alt\<close>)
  then show ?thesis unfolding word_unat_eq_iff unat_ring by (simp add: unat_mod256 mod_add_left_eq add.assoc)
qed

text \<open>What scrolling does to the grid.\<close>

lemma vis_scrolled:
  assumes "scroll_base s < MAX_ROWS" and "R \<le> 256" and "y < R" and "x < 256"
  shows "vis (cleared f (ring s R) {0 ..< 256} (s\<lparr>scroll_base := (scroll_base s + 1) mod MAX_ROWS\<rparr>)) y x =
    (if y + 1 < R then vis s (y + 1) x else blank f s)"
proof -
  let ?s1 = "s\<lparr>scroll_base := (scroll_base s + 1) mod MAX_ROWS\<rparr>"
  have r: "ring (cleared f (ring s R) {0 ..< 256} ?s1) y = ring s (y + 1)"
    unfolding ring_cleared by (rule ring_scrolled [OF assms(1)])
  have u: "unat (of_nat x :: u64) = x" using assms(4) by (simp add: unat_of_nat take_bit_nat_eq_self_iff)
  have eq: "ring s (y + 1) = ring s R \<longleftrightarrow> y + 1 = R"
  proof
    assume "ring s (y + 1) = ring s R"
    then have "(unat (scroll_base s) + (y + 1)) mod 256 = (unat (scroll_base s) + R) mod 256" by (simp only: word_unat_eq_iff unat_ring)
    then show "y + 1 = R" by (rule offset_unique) (use assms(2,3) in linarith)+
  qed simp
  have "vis (cleared f (ring s R) {0 ..< 256} ?s1) y x = (if ring s (y + 1) = ring s R then blank f ?s1 else screen_buffer ?s1 (ring s (y + 1)) (of_nat x))"
    unfolding vis_def r cleared_cell u using assms(4) by simp
  also have "\<dots> = (if y + 1 = R then blank f s else vis s (y + 1) x)" unfolding eq vis_def by (simp add: blank_def)
  finally show ?thesis using assms(3) by simp
qed

section \<open>Typing\<close>

text \<open>
  The reference: a grid of \<open>R\<close> rows and \<open>C\<close> columns with a cursor, and what a character does to it. \<open>pen\<close> makes a cell of
  a character, in the current colours.
\<close>

type_synonym grid = "nat \<Rightarrow> nat \<Rightarrow> terminal_cell"

definition settle :: "nat \<Rightarrow> nat \<Rightarrow> terminal_cell \<Rightarrow> grid \<times> nat \<times> nat \<Rightarrow> grid \<times> nat \<times> nat" where
  "settle R C bl = (\<lambda>(g, x, y).
     let (x, y) = (if C \<le> x then (0, y + 1) else (x, y)) in
     if R \<le> y then ((\<lambda>b. if b + 1 < R then g (b + 1) else (\<lambda>_. bl)), x, R - 1) else (g, x, y))"

definition type_char :: "nat \<Rightarrow> nat \<Rightarrow> (u8 \<Rightarrow> terminal_cell) \<Rightarrow> u8 \<Rightarrow> grid \<times> nat \<times> nat \<Rightarrow> grid \<times> nat \<times> nat" where
  "type_char R C pen c = (\<lambda>(g, x, y). settle R C (pen 32)
     (if c = 10 then (g, 0, y + 1)
      else if c = 13 then (g, 0, y)
      else if c = 8 then (if 0 < x then (g(y := (g y)(x - 1 := pen 32)), x - 1, y) else (g, x, y))
      else (g(y := (g y)(x := pen c)), x + 1, y)))"

definition pen :: "limine_framebuffer \<Rightarrow> kterm \<Rightarrow> u8 \<Rightarrow> terminal_cell" where
  "pen f s c = \<lparr>tc_ch = c, tc_fg = rgb_to_pixel f (fg_color s), tc_bg = rgb_to_pixel f (bg_color s)\<rparr>"

text \<open>The terminal shows the grid \<open>g\<close> with the cursor at \<open>(x, y)\<close>, which in the middle of an operation may be one off the edge.\<close>

definition displays :: "limine_framebuffer \<Rightarrow> kterm \<Rightarrow> grid \<times> nat \<times> nat \<Rightarrow> bool" where
  "displays f s = (\<lambda>(g, x, y). geom f s \<and> term_ready s \<and> old_cursor_x s < cols s \<and> old_cursor_y s < rows s \<and> scroll_base s < MAX_ROWS \<and>
     length (esc_params (esc_ctx s)) \<le> TERM_ESC_PARAMS_MAX \<and> unat (char_cursor_x s) = x \<and> unat (char_cursor_y s) = y \<and>
     (\<forall>b < unat (rows s). \<forall>a < unat (cols s). vis s b a = g b a))"

definition keeps :: "kterm \<Rightarrow> kterm \<Rightarrow> bool" where
  "keeps s t \<longleftrightarrow> fg_color t = fg_color s \<and> bg_color t = bg_color s \<and> esc_ctx t = esc_ctx s \<and> rows t = rows s \<and> cols t = cols s"

lemma keeps_trans: "keeps s t \<Longrightarrow> keeps t u \<Longrightarrow> keeps s u"
  by (simp add: keeps_def)

lemma keeps_pen: "keeps s t \<Longrightarrow> pen f t = pen f s"
  by (simp add: keeps_def pen_def fun_eq_iff)

lemma drawn_displays:
  assumes "drawn s t"
  shows "displays f t = displays f s" "keeps s t" "keeps u t = keeps u s" "vis t = vis s"
proof -
  have v: "vis t = vis s" using drawn_simps [OF assms] by (simp add: fun_eq_iff vis_def ring_def)
  then show "displays f t = displays f s" "keeps s t" "keeps u t = keeps u s" "vis t = vis s"
    using drawn_simps [OF assms] by (simp_all add: displays_def keeps_def fun_eq_iff)
qed

lemma pen_space: "blank f s = pen f s 32"
  by (simp add: blank_def pen_def)

text \<open>The last step of typing a character.\<close>

lemma show_cursor_displays:
  assumes "displays f s (g, x, y)" and "x < unat (cols s)" and "y < unat (rows s)"
  shows "\<exists>t. kterm_render_cursor (char_cursor_x s) (char_cursor_y s) s = Some t \<and> displays f t (g, x, y) \<and> keeps s t"
proof -
  let ?s1 = "s\<lparr>old_cursor_x := char_cursor_x s, old_cursor_y := char_cursor_y s\<rparr>"
  have d: "geom f s" "old_cursor_x s < cols s" "old_cursor_y s < rows s" "term_ready s" using assms(1) by (simp_all add: displays_def)
  have c: "char_cursor_x s < cols s" "char_cursor_y s < rows s" using assms by (simp_all add: displays_def word_less_nat_alt)
  have "geom f ?s1 = geom f s" by (rule geom_frame) simp_all
  moreover have "vis ?s1 = vis s" by (simp add: fun_eq_iff vis_def ring_def)
  ultimately have "displays f ?s1 (g, x, y)" "keeps s ?s1" using assms(1) c by (simp_all add: displays_def keeps_def)
  then show ?thesis using render_cursor_drawn [OF d(1) c d(2-4)] drawn_displays [of ?s1] by metis
qed

lemma scroll_displays:
  assumes "displays f s (g, x, y)"
  shows "\<exists>t. scroll_up_by_one (s\<lparr>char_cursor_y := rows s - 1\<rparr>) = Some t \<and> keeps s t \<and>
    displays f t (\<lambda>b. if b + 1 < unat (rows s) then g (b + 1) else (\<lambda>_. pen f s 32), x, unat (rows s) - 1)"
proof -
  define u where "u = s\<lparr>char_cursor_y := rows s - 1\<rparr>"
  define R where "R = unat (rows s)"
  define v where "v = cleared f (ring u R) {0 ..< 256} (u\<lparr>scroll_base := (scroll_base u + 1) mod MAX_ROWS\<rparr>)"
  have d: "geom f s" "scroll_base s < MAX_ROWS" using assms by (simp_all add: displays_def)
  have gu: "geom f u" using d(1) by (subst geom_frame) (simp_all add: u_def)
  have R: "R \<le> 256" "0 < R" "unat (cols s) \<le> 256"
    using geomD [OF d(1)] by (simp_all add: R_def word_le_nat_alt word_less_nat_alt)
  have y: "unat (rows s - 1) = R - 1" using geomD(5) [OF d(1)] unfolding R_def by (intro unat_minus_one) auto
  obtain t where t: "scroll_up_by_one u = Some t" "drawn v t"
    using scroll_up_as [OF gu] d(2) by (auto simp: u_def v_def R_def)
  have gv: "geom f v" unfolding v_def geom_cleared using gu by (subst geom_frame) simp_all
  have "vis v b a = (if b + 1 < R then vis u (b + 1) a else blank f u)" if "b < R" "a < unat (cols s)" for b a
    unfolding v_def by (rule vis_scrolled) (use that R d(2) in \<open>simp_all add: u_def\<close>)
  moreover have "vis u = vis s" "blank f u = pen f s 32" by (simp_all add: fun_eq_iff vis_def ring_def u_def blank_def pen_def)
  ultimately have vv: "vis v b a = (if b + 1 < R then vis s (b + 1) a else pen f s 32)" if "b < R" "a < unat (cols s)" for b a
    using that by simp
  have "displays f v (\<lambda>b. if b + 1 < R then g (b + 1) else (\<lambda>_. pen f s 32), x, R - 1)"
    using assms gv vv by (simp add: displays_def v_def u_def y R_def mod_rows)
  moreover have "keeps s v" by (simp add: keeps_def v_def u_def)
  ultimately show ?thesis using t(1) drawn_displays(1,3) [OF t(2)] unfolding u_def R_def by (intro exI [of _ t]) simp
qed

lemma bottom_displays:
  assumes "displays f s (g, x, y)" and "x < unat (cols s)" and "y \<le> unat (rows s)"
  shows "\<exists>t. do {
      s \<leftarrow> (if rows s \<le> char_cursor_y s then scroll_up_by_one (s\<lparr>char_cursor_y := rows s - 1\<rparr>) else Some s);
      kterm_render_cursor (char_cursor_x s) (char_cursor_y s) s} = Some t \<and> keeps s t \<and>
    displays f t (if unat (rows s) \<le> y then (\<lambda>b. if b + 1 < unat (rows s) then g (b + 1) else (\<lambda>_. pen f s 32), x, unat (rows s) - 1)
      else (g, x, y))"
proof -
  let ?d = "if unat (rows s) \<le> y then (\<lambda>b. if b + 1 < unat (rows s) then g (b + 1) else (\<lambda>_. pen f s 32), x, unat (rows s) - 1) else (g, x, y)"
  have R: "0 < unat (rows s)" using assms(1) geomD(5) [of f s] by (simp add: displays_def word_less_nat_alt)
  have y: "rows s \<le> char_cursor_y s \<longleftrightarrow> unat (rows s) \<le> y" using assms(1) by (simp add: displays_def word_le_nat_alt)
  obtain u where u: "(if rows s \<le> char_cursor_y s then scroll_up_by_one (s\<lparr>char_cursor_y := rows s - 1\<rparr>) else Some s) = Some u"
    "keeps s u" "displays f u ?d"
  proof (cases "unat (rows s) \<le> y")
    case True
    then show thesis using scroll_displays [OF assms(1)] y that by auto
  next
    case False
    then show thesis using that [of s] assms(1) y by (simp add: keeps_def)
  qed
  obtain g' y' where d: "?d = (g', x, y')" "y' < unat (rows s)" using R by (cases "unat (rows s) \<le> y") auto
  have "displays f u (g', x, y')" using u(3) d(1) by simp
  moreover have "x < unat (cols u)" "y' < unat (rows u)" using assms(2) d(2) u(2) by (simp_all add: keeps_def)
  ultimately obtain t where "kterm_render_cursor (char_cursor_x u) (char_cursor_y u) u = Some t" "displays f t (g', x, y')" "keeps u t"
    using show_cursor_displays by blast
  then show ?thesis using u(1) keeps_trans [OF u(2)] unfolding d(1) by simp
qed

lemma settle_displays:
  assumes "displays f s (g, x, y)" and "x \<le> unat (cols s)" and "y \<le> unat (rows s)" and "x = unat (cols s) \<longrightarrow> y < unat (rows s)"
  shows "\<exists>t. settle_cursor s = Some t \<and> keeps s t \<and> displays f t (settle (unat (rows s)) (unat (cols s)) (pen f s 32) (g, x, y))"
proof (cases "x = unat (cols s)")
  case False
  then have "x < unat (cols s)" "\<not> cols s \<le> char_cursor_x s" using assms(1,2) by (simp_all add: displays_def word_le_nat_alt)
  then show ?thesis
    using bottom_displays [OF assms(1) _ assms(3)] by (simp add: settle_cursor_def settle_def)
next
  case True
  define s1 where "s1 = s\<lparr>char_cursor_x := 0, char_cursor_y := char_cursor_y s + 1\<rparr>"
  have g: "geom f s" using assms(1) by (simp add: displays_def)
  have c: "cols s \<le> char_cursor_x s" using assms(1) True by (simp add: displays_def word_le_nat_alt)
  have C: "0 < unat (cols s)" "unat (rows s) \<le> 256" using geomD [OF g] by (simp_all add: word_less_nat_alt word_le_nat_alt)
  have "unat (char_cursor_y s + 1) = y + 1"
    using assms(1,4) True C(2) unat_add_no_wrap [of "char_cursor_y s" 1] by (simp add: displays_def)
  moreover have "geom f s1" using g by (subst geom_frame) (simp_all add: s1_def)
  moreover have "vis s1 = vis s" by (simp add: fun_eq_iff vis_def ring_def s1_def)
  ultimately have d: "displays f s1 (g, 0, y + 1)" using assms(1) by (simp add: displays_def s1_def)
  have s1: "pen f s1 = pen f s" "keeps s1 = keeps s" "rows s1 = rows s" "cols s1 = cols s"
    by (simp_all add: fun_eq_iff pen_def keeps_def s1_def)
  have eq1: "settle_cursor s = do {
      s \<leftarrow> (if rows s1 \<le> char_cursor_y s1 then scroll_up_by_one (s1\<lparr>char_cursor_y := rows s1 - 1\<rparr>) else Some s1);
      kterm_render_cursor (char_cursor_x s) (char_cursor_y s) s}"
    unfolding settle_cursor_def Let_def if_P [OF c] s1_def ..
  have eq2: "settle (unat (rows s)) (unat (cols s)) (pen f s 32) (g, x, y) =
      (if unat (rows s) \<le> y + 1 then (\<lambda>b. if b + 1 < unat (rows s) then g (b + 1) else (\<lambda>_. pen f s 32), 0, unat (rows s) - 1)
       else (g, 0, y + 1))"
    unfolding settle_def True by simp
  have "y + 1 \<le> unat (rows s)" using assms(4) True by simp
  from bottom_displays [OF d, unfolded s1, OF C(1) this] show ?thesis unfolding eq1 eq2 s1 .
qed

text \<open>Storing a cell at the cursor.\<close>

lemma set_cell_displays:
  assumes "displays f s (g, x, y)" and "x < unat (cols s)" and "y < unat (rows s)"
  shows "\<exists>t. set_cell (real_row (char_cursor_y s) s) (char_cursor_x s) c s = Some t \<and> displays f t (g(y := (g y)(x := c)), x, y) \<and>
    keeps s t \<and> char_cursor_x t = char_cursor_x s \<and> char_cursor_y t = char_cursor_y s \<and>
    (\<exists>u. draw_current (real_row (char_cursor_y s) s) t = Some u \<and> drawn t u)"
proof -
  have d: "geom f s" "scroll_base s < MAX_ROWS" "unat (char_cursor_x s) = x" "unat (char_cursor_y s) = y"
    using assms(1) by (simp_all add: displays_def)
  have lim: "unat (rows s) \<le> 256" "unat (cols s) \<le> 256" using geomD [OF d(1)] by (simp_all add: word_le_nat_alt)
  define r where "r = real_row (char_cursor_y s) s"
  have "char_cursor_y s < MAX_ROWS" using assms(3) d(4) lim(1) by (simp add: word_less_nat_alt)
  then have r: "r = ring s y" using real_row_ring [OF d(2)] d(4) by (simp add: r_def)
  define t where "t = s\<lparr>screen_buffer := (screen_buffer s)(r := (screen_buffer s r)(char_cursor_x s := c))\<rparr>"
  have cx: "char_cursor_x s < MAX_COLS" using assms(2) d(3) lim(2) by (simp add: word_less_nat_alt)
  have st: "set_cell r (char_cursor_x s) c s = Some t" using cx by (simp add: set_cell_def r t_def)
  have g: "geom f t" using d(1) by (subst geom_frame) (simp_all add: t_def)
  have "vis t b a = (g(y := (g y)(x := c))) b a" if "b < unat (rows s)" "a < unat (cols s)" for b a
  proof -
    have "ring t b = ring s b" by (simp add: ring_def t_def)
    moreover have "ring s b = ring s y \<longleftrightarrow> b = y" using that(1) assms(3) lim(1) by (intro ring_eq) simp_all
    moreover have "(of_nat a :: u64) = char_cursor_x s \<longleftrightarrow> a = x"
      using that(2) lim(2) d(3) by (auto simp: word_unat_eq_iff unat_of_nat take_bit_nat_eq_self_iff)
    ultimately have "vis t b a = (if b = y \<and> a = x then c else vis s b a)"
      unfolding vis_def by (cases "b = y \<and> a = x") (auto simp: t_def r)
    then show ?thesis using assms(1) that by (simp add: displays_def)
  qed
  then have "displays f t (g(y := (g y)(x := c)), x, y)" using assms(1) g by (simp add: displays_def t_def)
  moreover have "keeps s t" by (simp add: keeps_def t_def)
  moreover have "\<exists>u. draw_current r t = Some u \<and> drawn t u"
  proof -
    have "char_cursor_x t < cols t" "char_cursor_y t < rows t" using assms(2,3) d by (simp_all add: t_def word_less_nat_alt)
    from draw_char_drawn [OF g this] show ?thesis using cx by (simp add: draw_current_def get_cell_def r t_def)
  qed
  ultimately show ?thesis using st unfolding r_def [symmetric] by (auto simp: t_def)
qed

lemma moved_displays:
  assumes "displays f s (g, x, y)"
  shows "displays f (s\<lparr>char_cursor_x := a\<rparr>) (g, unat a, y)" "keeps s (s\<lparr>char_cursor_x := a\<rparr>)"
    "displays f (s\<lparr>char_cursor_x := a, char_cursor_y := b\<rparr>) (g, unat a, unat b)" "keeps s (s\<lparr>char_cursor_x := a, char_cursor_y := b\<rparr>)"
proof -
  have "vis (s\<lparr>char_cursor_x := a\<rparr>) = vis s" "vis (s\<lparr>char_cursor_x := a, char_cursor_y := b\<rparr>) = vis s"
    by (simp_all add: fun_eq_iff vis_def ring_def)
  moreover have "geom f (s\<lparr>char_cursor_x := a\<rparr>) = geom f s" "geom f (s\<lparr>char_cursor_x := a, char_cursor_y := b\<rparr>) = geom f s"
    by (rule geom_frame; simp)+
  ultimately show "displays f (s\<lparr>char_cursor_x := a\<rparr>) (g, unat a, y)" "keeps s (s\<lparr>char_cursor_x := a\<rparr>)"
    "displays f (s\<lparr>char_cursor_x := a, char_cursor_y := b\<rparr>) (g, unat a, unat b)" "keeps s (s\<lparr>char_cursor_x := a, char_cursor_y := b\<rparr>)"
    using assms by (simp_all add: displays_def keeps_def)
qed

text \<open>The first part of \<open>put_plain\<close>, up to the settling of the cursor.\<close>

definition strike :: "u8 \<Rightarrow> kterm \<Rightarrow> kterm option" where
  "strike c s =
     (if c = 10 then Some (s\<lparr>char_cursor_x := 0, char_cursor_y := char_cursor_y s + 1\<rparr>)
      else if c = 13 then Some (s\<lparr>char_cursor_x := 0\<rparr>)
      else if c = 8
      then (if 0 < char_cursor_x s
        then do {
          let s = s\<lparr>char_cursor_x := char_cursor_x s - 1\<rparr>;
          let row = real_row (char_cursor_y s) s;
          s \<leftarrow> clear_cell row (char_cursor_x s) s;
          draw_current row s}
        else Some s)
      else do {
        let row = real_row (char_cursor_y s) s;
        fg \<leftarrow> cell_fg_rgb s;
        bg \<leftarrow> cell_bg_rgb s;
        s \<leftarrow> set_cell row (char_cursor_x s) \<lparr>tc_ch = c, tc_fg = fg, tc_bg = bg\<rparr> s;
        s \<leftarrow> draw_current row s;
        Some (s\<lparr>char_cursor_x := char_cursor_x s + 1\<rparr>)})"

lemma put_plain_strike: "put_plain c s = do { s \<leftarrow> strike c s; settle_cursor s }"
  unfolding put_plain_def strike_def ..

definition struck :: "u8 \<Rightarrow> (u8 \<Rightarrow> terminal_cell) \<Rightarrow> grid \<times> nat \<times> nat \<Rightarrow> grid \<times> nat \<times> nat" where
  "struck c ink = (\<lambda>(g, x, y).
     if c = 10 then (g, 0, y + 1)
     else if c = 13 then (g, 0, y)
     else if c = 8 then (if 0 < x then (g(y := (g y)(x - 1 := ink 32)), x - 1, y) else (g, x, y))
     else (g(y := (g y)(x := ink c)), x + 1, y))"

lemma type_char_struck: "type_char R C ink c scr = settle R C (ink 32) (struck c ink scr)"
  by (simp add: type_char_def struck_def split_beta)

lemma strike_letter:
  assumes "displays f s (g, x, y)" and "x < unat (cols s)" and "y < unat (rows s)" and "c \<notin> {8, 10, 13}"
  shows "\<exists>t. strike c s = Some t \<and> keeps s t \<and> displays f t (g(y := (g y)(x := pen f s c)), x + 1, y)"
proof -
  define r where "r = real_row (char_cursor_y s) s"
  have fb: "framebuffer s = Some f" using assms(1) geomD(2) [of f s] by (simp add: displays_def)
  obtain t u where t: "set_cell r (char_cursor_x s) (pen f s c) s = Some t" "displays f t (g(y := (g y)(x := pen f s c)), x, y)"
    "keeps s t" "char_cursor_x t = char_cursor_x s" "draw_current r t = Some u" "drawn t u"
    using set_cell_displays [OF assms(1-3), of "pen f s c"] unfolding r_def by blast
  let ?v = "u\<lparr>char_cursor_x := char_cursor_x u + 1\<rparr>"
  have "strike c s = Some ?v"
    using assms(4) fb t(1,5) by (simp add: strike_def Let_def r_def [symmetric] cell_fg_rgb_def cell_bg_rgb_def pen_def)
  moreover have du: "displays f u (g(y := (g y)(x := pen f s c)), x, y)" using t(2) drawn_displays(1) [OF t(6)] by simp
  have cu: "char_cursor_x u = char_cursor_x s" "cols u = cols s" using t(4,3) drawn_simps [OF t(6)] by (simp_all add: keeps_def)
  have x: "unat (char_cursor_x s) = x" "unat (cols s) \<le> 256" using assms(1) geomD(8) [of f s] by (simp_all add: displays_def word_le_nat_alt)
  then have "unat (char_cursor_x u + 1) = x + 1" using unat_add_no_wrap [of "char_cursor_x s" 1] assms(2) by (simp add: cu)
  then have "displays f ?v (g(y := (g y)(x := pen f s c)), x + 1, y)" using moved_displays(1) [OF du, of "char_cursor_x u + 1"] by simp
  moreover have "keeps s ?v"
    using keeps_trans [OF t(3) keeps_trans [OF drawn_displays(2) [OF t(6)] moved_displays(2) [OF du]]] .
  ultimately show ?thesis by blast
qed

lemma strike_backspace:
  assumes "displays f s (g, x, y)" and "x < unat (cols s)" and "y < unat (rows s)" and "0 < x"
  shows "\<exists>t. strike 8 s = Some t \<and> keeps s t \<and> displays f t (g(y := (g y)(x - 1 := pen f s 32)), x - 1, y)"
proof -
  define s1 where "s1 = s\<lparr>char_cursor_x := char_cursor_x s - 1\<rparr>"
  define r where "r = real_row (char_cursor_y s1) s1"
  have fb: "framebuffer s = Some f" using assms(1) geomD(2) [of f s] by (simp add: displays_def)
  have x: "unat (char_cursor_x s) = x" using assms(1) by (simp add: displays_def)
  then have nz: "0 < char_cursor_x s" using assms(4) by (simp add: word_less_nat_alt)
  then have "unat (char_cursor_x s - 1) = x - 1" using x by (subst unat_minus_one) auto
  then have d1: "displays f s1 (g, x - 1, y)" using moved_displays(1) [OF assms(1), of "char_cursor_x s - 1"] by (simp add: s1_def)
  have k1: "keeps s s1" unfolding s1_def by (rule moved_displays(2) [OF assms(1)])
  have lim: "x - 1 < unat (cols s1)" "y < unat (rows s1)" using assms(2,3) by (simp_all add: s1_def)
  obtain t u where t: "set_cell r (char_cursor_x s1) (pen f s 32) s1 = Some t" "displays f t (g(y := (g y)(x - 1 := pen f s 32)), x - 1, y)"
    "keeps s1 t" "draw_current r t = Some u" "drawn t u"
    using set_cell_displays [OF d1 lim, of "pen f s 32"] unfolding r_def by blast
  have "clear_cell r (char_cursor_x s1) s1 = set_cell r (char_cursor_x s1) (pen f s 32) s1"
    using fb by (simp add: clear_cell_def cell_fg_rgb_def cell_bg_rgb_def pen_def s1_def)
  then have "strike 8 s = Some u"
    using nz t(1,4) by (simp add: strike_def Let_def s1_def [symmetric] r_def [symmetric])
  then show ?thesis
    using t(2) drawn_displays(1,2) [OF t(5)] keeps_trans [OF k1 keeps_trans [OF t(3)]] by auto
qed

text \<open>The cursor of the reference stays on the screen.\<close>

definition inside :: "nat \<Rightarrow> nat \<Rightarrow> grid \<times> nat \<times> nat \<Rightarrow> bool" where
  "inside R C = (\<lambda>(g, x, y). x < C \<and> y < R)"

lemma type_char_inside: "inside R C scr \<Longrightarrow> inside R C (type_char R C ink c scr)"
  by (auto simp: inside_def type_char_def settle_def split: if_splits)

lemma strike_displays:
  assumes "displays f s scr" and "inside (unat (rows s)) (unat (cols s)) scr"
  obtains t g x y where "strike c s = Some t" "keeps s t" "struck c (pen f s) scr = (g, x, y)" "displays f t (g, x, y)"
    "x \<le> unat (cols s)" "y \<le> unat (rows s)" "x = unat (cols s) \<longrightarrow> y < unat (rows s)"
proof -
  obtain g x y where scr: "scr = (g, x, y)" by (cases scr)
  have d: "displays f s (g, x, y)" "x < unat (cols s)" "y < unat (rows s)" using assms by (simp_all add: scr inside_def)
  have cur: "unat (char_cursor_x s) = x" "unat (char_cursor_y s) = y" "unat (rows s) \<le> 256"
    using d(1) geomD(6) [of f s] by (simp_all add: displays_def word_le_nat_alt)
  consider "c = 10" | "c = 13" | "c = 8" "x = 0" | "c = 8" "0 < x" | "c \<notin> {8, 10, 13}" by auto
  then show thesis
  proof cases
    case 1
    let ?t = "s\<lparr>char_cursor_x := 0, char_cursor_y := char_cursor_y s + 1\<rparr>"
    have "unat (char_cursor_y s + 1) = y + 1" using unat_add_no_wrap [of "char_cursor_y s" 1] cur d(3) by simp
    then have "displays f ?t (g, 0, y + 1)" using moved_displays(3) [OF d(1), where a = 0 and b = "char_cursor_y s + 1"] by simp
    then show thesis using 1 d moved_displays(4) [OF d(1)] by (intro that [of ?t g 0 "y + 1"]) (simp_all add: strike_def struck_def scr)
  next
    case 2
    let ?t = "s\<lparr>char_cursor_x := 0\<rparr>"
    have "displays f ?t (g, 0, y)" using moved_displays(1) [OF d(1), of 0] by simp
    then show thesis using 2 d moved_displays(2) [OF d(1)] by (intro that [of ?t g 0 y]) (simp_all add: strike_def struck_def scr)
  next
    case 3
    then have "char_cursor_x s = 0" using cur by (simp add: unat_eq_0)
    then show thesis using 3 d by (intro that [of s g 0 y]) (simp_all add: strike_def struck_def scr keeps_def)
  next
    case 4
    obtain t where t: "strike 8 s = Some t" "keeps s t" "displays f t (g(y := (g y)(x - 1 := pen f s 32)), x - 1, y)"
      using strike_backspace [OF d 4(2)] by blast
    show thesis by (rule that [OF _ t(2) _ t(3)]) (use 4 d t(1) in \<open>simp_all add: struck_def scr\<close>)
  next
    case 5
    obtain t where t: "strike c s = Some t" "keeps s t" "displays f t (g(y := (g y)(x := pen f s c)), x + 1, y)"
      using strike_letter [OF d 5] by blast
    show thesis by (rule that [OF t(1,2) _ t(3)]) (use 5 d in \<open>simp_all add: struck_def scr\<close>)
  qed
qed

lemma put_plain_displays:
  assumes "displays f s scr" and "inside (unat (rows s)) (unat (cols s)) scr"
  shows "\<exists>t. put_plain c s = Some t \<and> keeps s t \<and> displays f t (type_char (unat (rows s)) (unat (cols s)) (pen f s) c scr)"
proof -
  obtain t g x y where t: "strike c s = Some t" "keeps s t" "struck c (pen f s) scr = (g, x, y)" "displays f t (g, x, y)"
    "x \<le> unat (cols s)" "y \<le> unat (rows s)" "x = unat (cols s) \<longrightarrow> y < unat (rows s)"
    by (rule strike_displays [OF assms])
  have k: "rows t = rows s" "cols t = cols s" "pen f t = pen f s" using t(2) keeps_pen [OF t(2)] by (simp_all add: keeps_def)
  obtain u where "settle_cursor t = Some u" "keeps t u"
    "displays f u (settle (unat (rows s)) (unat (cols s)) (pen f s 32) (g, x, y))"
    using settle_displays [OF t(4), unfolded k, OF t(5-7)] by blast
  then show ?thesis
    using t(1) keeps_trans [OF t(2)] unfolding put_plain_strike type_char_struck t(3) by auto
qed

lemma type_all:
  "displays f s scr \<Longrightarrow> inside (unat (rows s)) (unat (cols s)) scr \<Longrightarrow>
   \<exists>t. for_each put_plain cs s = Some t \<and> keeps s t \<and> displays f t (fold (type_char (unat (rows s)) (unat (cols s)) (pen f s)) cs scr)"
proof (induction cs arbitrary: s scr)
  case Nil
  then show ?case by (simp add: keeps_def)
next
  case (Cons c cs)
  let ?scr = "type_char (unat (rows s)) (unat (cols s)) (pen f s) c scr"
  obtain t where t: "put_plain c s = Some t" "keeps s t" "displays f t ?scr" using put_plain_displays [OF Cons.prems] by blast
  have k: "rows t = rows s" "cols t = cols s" "pen f t = pen f s" using t(2) keeps_pen [OF t(2)] by (simp_all add: keeps_def)
  have "inside (unat (rows s)) (unat (cols s)) ?scr" by (rule type_char_inside [OF Cons.prems(2)])
  then obtain u where "for_each put_plain cs t = Some u" "keeps t u"
    "displays f u (fold (type_char (unat (rows s)) (unat (cols s)) (pen f s)) cs ?scr)"
    using Cons.IH [OF t(3)] unfolding k by blast
  then show ?case using t(1) keeps_trans [OF t(2)] by auto
qed

lemma type_all_inside: "inside R C scr \<Longrightarrow> inside R C (fold (type_char R C ink) cs scr)"
  by (induction cs arbitrary: scr) (simp_all add: type_char_inside)

lemma inv_displays:
  "term_inv f s \<longleftrightarrow> displays f s (vis s, unat (char_cursor_x s), unat (char_cursor_y s)) \<and>
     inside (unat (rows s)) (unat (cols s)) (vis s, unat (char_cursor_x s), unat (char_cursor_y s))"
  by (auto simp: term_inv_def displays_def inside_def word_less_nat_alt)

lemma displays_inv:
  assumes "displays f s scr" and "inside (unat (rows s)) (unat (cols s)) scr"
  shows "term_inv f s"
  using assms by (auto simp: term_inv_def displays_def inside_def word_less_nat_alt split: prod.splits)

text \<open>A tab is four spaces.\<close>

definition expand :: "u8 \<Rightarrow> u8 list" where "expand c = (if c = 9 then [32, 32, 32, 32] else [c])"

lemma raw_putc_expand: "term_raw_putc c s = for_each put_plain (expand c) s"
proof (cases "c = 9")
  case True
  have "map (\<lambda>_. 32) [0 ..< 4 :: nat] = [32, 32, 32, 32 :: u8]" by (simp add: upt_conv_Cons)
  then show ?thesis using True for_each_map [of put_plain "\<lambda>_. 32" "[0 ..< 4]" s] by (simp add: term_raw_putc_def expand_def)
next
  case False
  then show ?thesis by (cases "put_plain c s") (simp_all add: term_raw_putc_def expand_def)
qed

text \<open>
  C26. The terminal shows what is written: a string without escape characters changes the visible grid as a screen of that size
  does that knows nothing of the ring of rows: letters go to the cursor, lines wrap at the right edge, the grid moves
  up at the bottom, and newline, return, backspace and tab do what they should. The call returns, no
  store leaves the cells or the pixels, and the terminal stays consistent.
\<close>

theorem kterm_puts_refines_screen:
  assumes "term_inv f s" and "esc_state (esc_ctx s) = TERM_ESC_NONE" and "27 \<notin> set str"
  shows "\<exists>t. kterm_puts str s = Some t \<and> term_inv f t \<and> rows t = rows s \<and> cols t = cols s \<and>
    displays f t (fold (type_char (unat (rows s)) (unat (cols s)) (pen f s)) (concat (map expand str))
      (vis s, unat (char_cursor_x s), unat (char_cursor_y s)))"
proof -
  have plain: "for_each kterm_putc cs u = for_each put_plain (concat (map expand cs)) u"
    if "27 \<notin> set cs" "term_inv f u" "esc_state (esc_ctx u) = TERM_ESC_NONE" for cs u
    using that
  proof (induction cs arbitrary: u)
    case (Cons c cs)
    have u: "displays f u (vis u, unat (char_cursor_x u), unat (char_cursor_y u))"
      "inside (unat (rows u)) (unat (cols u)) (vis u, unat (char_cursor_x u), unat (char_cursor_y u))"
      using Cons.prems(2) inv_displays by blast+
    obtain v where v: "for_each put_plain (expand c) u = Some v" "keeps u v"
      "displays f v (fold (type_char (unat (rows u)) (unat (cols u)) (pen f u)) (expand c) (vis u, unat (char_cursor_x u), unat (char_cursor_y u)))"
      using type_all [OF u] by blast
    have "term_inv f v"
      using displays_inv [OF v(3)] type_all_inside [OF u(2)] v(2) by (simp add: keeps_def)
    moreover have "kterm_putc c u = Some v"
      using Cons.prems v(1) by (auto simp: kterm_putc_def ensure_init_def term_inv_def raw_putc_expand)
    moreover have "for_each put_plain (expand c @ ds) u = for_each put_plain ds v" for ds
      using v(1) by (simp add: for_each_append)
    ultimately show ?case using Cons.IH [of v] Cons.prems(1,3) v(2) by (simp add: keeps_def)
  qed simp
  have s: "displays f s (vis s, unat (char_cursor_x s), unat (char_cursor_y s))"
    "inside (unat (rows s)) (unat (cols s)) (vis s, unat (char_cursor_x s), unat (char_cursor_y s))"
    using assms(1) inv_displays by blast+
  obtain t where t: "for_each put_plain (concat (map expand str)) s = Some t" "keeps s t"
    "displays f t (fold (type_char (unat (rows s)) (unat (cols s)) (pen f s)) (concat (map expand str)) (vis s, unat (char_cursor_x s), unat (char_cursor_y s)))"
    using type_all [OF s] by blast
  have "term_inv f t" using displays_inv [OF t(3)] type_all_inside [OF s(2)] t(2) by (simp add: keeps_def)
  moreover have "kterm_puts str s = Some t"
    using t(1) plain [OF assms(3,1,2)] assms(1) by (simp add: kterm_puts_def ensure_init_def term_inv_def)
  moreover have "rows t = rows s" "cols t = cols s" using t(2) by (simp_all add: keeps_def)
  ultimately show ?thesis using t(3) by blast
qed

definition example_fb :: limine_framebuffer where
  "example_fb = \<lparr>fb_address = 0xFFFF8000FD000000, fb_width = 1024, fb_height = 768, fb_pitch = 4096,
     red_mask_shift = 16, green_mask_shift = 8, blue_mask_shift = 0\<rparr>"

text \<open>A terminal of 48 rows of 128 letters that shows nothing yet.\<close>

definition example_term :: "kterm \<Rightarrow> kterm" where
  "example_term s = s\<lparr>boot_fb := Some example_fb, framebuffer := Some example_fb, psf := \<lambda>_. 16, rows := 48, cols := 128,
     char_cursor_x := 127, char_cursor_y := 47, old_cursor_x := 0, old_cursor_y := 0, scroll_base := 0, term_ready := True,
     esc_ctx := (esc_ctx s)\<lparr>esc_state := TERM_ESC_NONE, esc_params := []\<rparr>\<rparr>"

lemma example_term_inv: "term_inv example_fb (example_term s)"
  by (simp add: term_inv_def geom_def example_term_def example_fb_def psf_height_def fb_pixels_def)

theorem kterm_puts_refines_screen_witness:
  "\<forall>s. \<exists>t. kterm_puts [65, 66] (example_term s) = Some t \<and> unat (char_cursor_x t) = 1 \<and> unat (char_cursor_y t) = 47 \<and>
     vis t 46 127 = pen example_fb (example_term s) 65 \<and> vis t 47 0 = pen example_fb (example_term s) 66"
proof
  fix s
  have e: "esc_state (esc_ctx (example_term s)) = TERM_ESC_NONE" "(27 :: u8) \<notin> set [65, 66]" by (simp_all add: example_term_def)
  have "unat (rows (example_term s)) = 48" "unat (cols (example_term s)) = 128" "unat (char_cursor_x (example_term s)) = 127"
    "unat (char_cursor_y (example_term s)) = 47"
    by (simp_all add: example_term_def)
  then obtain t where t: "kterm_puts [65, 66] (example_term s) = Some t" "unat (rows t) = 48" "unat (cols t) = 128"
    "displays example_fb t (fold (type_char 48 128 (pen example_fb (example_term s))) [65, 66] (vis (example_term s), 127, 47))"
    using kterm_puts_refines_screen [OF example_term_inv e] by (auto simp: expand_def)
  have "fold (type_char 48 128 ink) [65, 66] (g, 127, 47) =
      (\<lambda>b a. if b = 47 then if a = 0 then ink 66 else ink 32 else if b < 47 then if b = 46 \<and> a = 127 then ink 65 else g (b + 1) a else ink 32, 1, 47)" for ink g
    by (simp add: type_char_def settle_def fun_eq_iff)
  with t have "unat (char_cursor_x t) = 1" "unat (char_cursor_y t) = 47"
    "vis t 46 127 = pen example_fb (example_term s) 65" "vis t 47 0 = pen example_fb (example_term s) 66"
    by (simp_all add: displays_def)
  with t(1) show "\<exists>t. kterm_puts [65, 66] (example_term s) = Some t \<and> unat (char_cursor_x t) = 1 \<and> unat (char_cursor_y t) = 47 \<and>
     vis t 46 127 = pen example_fb (example_term s) 65 \<and> vis t 47 0 = pen example_fb (example_term s) 66"
    by blast
qed

end
