(* ===== verification/Kterm_Safe.thy ===== *)
theory Kterm_Safe
  imports Kterm_Props
begin

text \<open>
  Escape sequences: every command keeps the terminal consistent, a started terminal survives any input, and
  a control sequence reaches its command with its parameters.
\<close>

section \<open>Operations keep the invariant\<close>

definition safe :: "limine_framebuffer \<Rightarrow> kterm option \<Rightarrow> bool" where
  "safe f r \<longleftrightarrow> (\<exists>t. r = Some t \<and> term_inv f t)"

lemma safe_bind: "safe f r \<Longrightarrow> (\<And>t. term_inv f t \<Longrightarrow> safe f (k t)) \<Longrightarrow> safe f (r \<bind> k)"
  by (auto simp: safe_def)

lemma safe_Some [simp]: "safe f (Some t) = term_inv f t"
  by (simp add: safe_def)

lemma safe_for_each:
  "(\<And>x u. x \<in> set xs \<Longrightarrow> term_inv f u \<Longrightarrow> safe f (h x u)) \<Longrightarrow> term_inv f s \<Longrightarrow> safe f (for_each h xs s)"
  using for_each_total [of xs "term_inv f" h "\<lambda>_ _. True" s] by (simp add: safe_def)

lemma inv_geom: "term_inv f s \<Longrightarrow> geom f s"
  by (simp add: term_inv_def)

lemma inv_drawn: "drawn s t \<Longrightarrow> term_inv f t = term_inv f s"
  using drawn_simps [of s t] by (simp add: term_inv_def)

lemma inv_frame:
  assumes "framebuffer t = framebuffer s" "boot_fb t = boot_fb s" "psf t = psf s" "rows t = rows s" "cols t = cols s"
    "term_ready t = term_ready s" "char_cursor_x t = char_cursor_x s" "char_cursor_y t = char_cursor_y s"
    "old_cursor_x t = old_cursor_x s" "old_cursor_y t = old_cursor_y s" "scroll_base t = scroll_base s"
    "length (esc_params (esc_ctx t)) \<le> TERM_ESC_PARAMS_MAX \<longleftrightarrow> length (esc_params (esc_ctx s)) \<le> TERM_ESC_PARAMS_MAX"
  shows "term_inv f t = term_inv f s"
  using assms geom_frame [of t s f] by (simp add: term_inv_def)

lemma inv_cleared [simp]: "term_inv f (cleared g r xs s) = term_inv f s"
  by (rule inv_frame) simp_all

lemma cursor_safe:
  assumes "term_inv f s"
  shows "safe f (kterm_render_cursor (char_cursor_x s) (char_cursor_y s) s)"
proof -
  let ?s1 = "s\<lparr>old_cursor_x := char_cursor_x s, old_cursor_y := char_cursor_y s\<rparr>"
  have i: "geom f s" "char_cursor_x s < cols s" "char_cursor_y s < rows s" "old_cursor_x s < cols s" "old_cursor_y s < rows s" "term_ready s"
    using assms by (simp_all add: term_inv_def)
  have "geom f ?s1 = geom f s" by (rule geom_frame) simp_all
  then have inv: "term_inv f ?s1" using assms by (simp add: term_inv_def)
  obtain t where "kterm_render_cursor (char_cursor_x s) (char_cursor_y s) s = Some t" "drawn ?s1 t"
    using render_cursor_drawn [OF i] by blast
  then show ?thesis using inv inv_drawn by (metis safe_Some)
qed

lemma render_safe:
  assumes "term_inv f s"
  shows "safe f (render_screen s)"
proof -
  obtain t where "render_screen s = Some t" "drawn s t" using render_screen_drawn [OF inv_geom [OF assms] drawn_refl] by blast
  then show ?thesis using assms inv_drawn by (metis safe_Some)
qed

lemma redraw_safe: "term_inv f s \<Longrightarrow> safe f (redraw s)"
  unfolding redraw_def by (intro safe_bind render_safe cursor_safe)

lemma move_cursor_safe:
  assumes "term_inv f s"
  shows "safe f (kterm_move_cursor x y s)"
proof -
  note g = geomD [OF inv_geom [OF assms]]
  define a where "a = (if cols s \<le> x then cols s - 1 else x)"
  define b where "b = (if rows s \<le> y then rows s - 1 else y)"
  let ?s1 = "s\<lparr>char_cursor_x := a, char_cursor_y := b\<rparr>"
  have lt: "w - 1 < w" if "0 < w" for w :: u64 using that by (simp add: word_less_nat_alt unat_minus_one word_neq_0_conv)
  have "a < cols s" "b < rows s" using g(5,7) lt by (auto simp: a_def b_def)
  moreover have "geom f ?s1 = geom f s" by (rule geom_frame) simp_all
  ultimately have "term_inv f ?s1" using assms by (simp add: term_inv_def)
  moreover have "kterm_move_cursor x y s = kterm_render_cursor (char_cursor_x ?s1) (char_cursor_y ?s1) ?s1"
    using assms g(5,7) by (auto simp: kterm_move_cursor_def ensure_init_def term_inv_def a_def b_def Let_def)
  ultimately show ?thesis using cursor_safe by metis
qed

lemma clear_columns_safe:
  assumes "term_inv f s" and "row < MAX_ROWS"
  shows "safe f (clear_columns row start fin s)"
proof -
  have "unat (cols s) \<le> 256" using geomD(8) [OF inv_geom [OF assms(1)]] by (simp add: word_le_nat_alt)
  then have "clear_columns row start fin s = Some (cleared f row (set (columns start fin s)) s)"
    unfolding clear_columns_def by (intro clear_many inv_geom assms) (auto simp: columns_def)
  then show ?thesis using assms(1) by simp
qed

lemma clear_line_safe: "term_inv f s \<Longrightarrow> safe f (kterm_clear_line mode s)"
  unfolding kterm_clear_line_def
  by (intro safe_bind clear_columns_safe redraw_safe) (simp_all add: ensure_init_def term_inv_def real_row_def mod_rows)

lemma clear_row_safe: "term_inv f s \<Longrightarrow> safe f (clear_row mode y s)"
  unfolding clear_row_def using clear_columns_safe [of f s] by (simp add: real_row_def mod_rows)

text \<open>\<^verbatim>\<open>kterm_cls\<close> also runs before the terminal is ready.\<close>

definition recelled :: "kterm \<Rightarrow> kterm \<Rightarrow> bool" where
  "recelled s t \<longleftrightarrow> (\<exists>b. t = s\<lparr>screen_buffer := b\<rparr>)"

lemma recelled_trans: "recelled s t \<Longrightarrow> recelled t u \<Longrightarrow> recelled s u"
  by (auto simp: recelled_def)

lemma recelled_geom: "recelled s t \<Longrightarrow> geom f t = geom f s"
  by (rule geom_frame) (auto simp: recelled_def)

lemma clear_all_cells:
  assumes "geom f s"
  shows "\<exists>t. clear_all s = Some t \<and> recelled s t"
proof -
  have refl: "recelled u u" for u by (auto simp: recelled_def intro: exI [of _ "screen_buffer u"])
  have row: "\<exists>t. for_each (\<lambda>j. clear_cell (of_nat i) (of_nat j)) [0 ..< 256] u = Some t \<and> recelled u t \<and> geom f t"
    if "i \<in> set [0 ..< 256]" "geom f u" for u i
  proof -
    have "(of_nat i :: u64) < MAX_ROWS" using that(1) by (simp add: word_less_nat_alt unat_of_nat take_bit_nat_eq_self_iff)
    then have "for_each (\<lambda>j. clear_cell (of_nat i) (of_nat j)) [0 ..< 256] u = Some (cleared f (of_nat i) {0 ..< 256} u)"
      using clear_many [OF that(2), of "of_nat i" "[0 ..< 256]"] by simp
    moreover have "recelled u (cleared f (of_nat i) {0 ..< 256} u)" by (auto simp: recelled_def cleared_def)
    ultimately show ?thesis using that(2) by simp
  qed
  have "\<exists>t. for_each (\<lambda>i. for_each (\<lambda>j. clear_cell (of_nat i) (of_nat j)) [0 ..< 256]) [0 ..< 256] s = Some t \<and> recelled s t \<and> geom f t"
    by (rule for_each_total [OF row assms refl recelled_trans])
  then show ?thesis unfolding clear_all_def by blast
qed

lemma unat_numeral_4: "unat (4 :: u64) = 4"
  by simp

lemma word_of_nat_unat: "of_nat (unat w) = (w :: u64)"
  by simp

lemma cls_pixels:
  assumes "geom f s"
  shows "\<exists>t. for_each (\<lambda>y. let row_base = (ucast ((of_nat y :: u64) * ucast (fb_pitch_pixels f)) :: u32) in
      for_each (\<lambda>x. put_pixel f (ucast row_base + of_nat x) v) [0 ..< unat (fb_width f)]) [0 ..< unat (fb_height f)] s = Some t \<and> drawn s t"
proof -
  let ?P = "unat (fb_pitch f) div 4"
  have lt: "fb_pixels f < 2 ^ 32" and w: "unat (fb_width f) \<le> ?P" using assms by (simp_all add: geom_def word_le_nat_alt unat_div)
  have in_range: "unat (ucast (ucast ((of_nat y :: u64) * ucast (fb_pitch_pixels f)) :: u32) + of_nat x :: u64) < fb_pixels f"
    if "y < unat (fb_height f)" "x < unat (fb_width f)" for y x
  proof -
    have "(y + 1) * ?P \<le> unat (fb_height f) * ?P" using that(1) by (intro mult_le_mono1) simp
    then have le: "y * ?P + ?P \<le> fb_pixels f" by (simp add: fb_pixels_def mult.commute)
    then have P: "?P < 2 ^ 32" using lt by linarith
    have "ucast (fb_pitch_pixels f) = fb_pitch f div 4"
      unfolding fb_pitch_pixels_def using P by (intro ucast32) (simp add: unat_div)
    moreover have "of_nat ?P = fb_pitch f div 4" using unat_div [of "fb_pitch f" 4] by (metis unat_numeral_4 word_of_nat_unat)
    ultimately have "(of_nat y :: u64) * ucast (fb_pitch_pixels f) = of_nat (y * ?P)" by (simp only: of_nat_mult)
    moreover have small: "unat (of_nat n :: u64) = n" if "n < 2 ^ 32" for n
      using that by (simp add: unat_of_nat take_bit_nat_eq_self_iff)
    have "y * ?P < 2 ^ 32" using le lt by linarith
    ultimately have "ucast (ucast ((of_nat y :: u64) * ucast (fb_pitch_pixels f)) :: u32) + of_nat x = (of_nat (y * ?P + x) :: u64)"
      by (simp only: of_nat_add ucast32 small)
    then show ?thesis using small [of "y * ?P + x"] le lt w that(2) by simp
  qed
  show ?thesis unfolding Let_def by (intro for_each_drawn put_pixel_drawn in_range) simp_all
qed

text \<open>The home position after \<^verbatim>\<open>kterm_cls\<close>; what the cursor was drawn over before matters only when the terminal is ready.\<close>

lemma cls_home:
  assumes "geom f s" and "old_cursor_x s < cols s" and "old_cursor_y s < rows s"
  shows "\<exists>t. kterm_cls s = Some t \<and> geom f t \<and> term_inv f (t\<lparr>term_ready := True\<rparr>) \<and> term_ready t = term_ready s"
proof -
  note g = geomD [OF assms(1)]
  let ?v = "rgb_to_pixel f (bg_color s)"
  obtain a where a: "for_each (\<lambda>y. let row_base = (ucast ((of_nat y :: u64) * ucast (fb_pitch_pixels f)) :: u32) in
      for_each (\<lambda>x. put_pixel f (ucast row_base + of_nat x) ?v) [0 ..< unat (fb_width f)]) [0 ..< unat (fb_height f)] s = Some a" "drawn s a"
    using cls_pixels [OF assms(1)] by blast
  have ga: "geom f a" using drawn_simps(18) [OF a(2)] assms(1) by simp
  obtain b where b: "clear_all a = Some b" "recelled a b" using clear_all_cells [OF ga] by blast
  define c where "c = reset_escape_state (b\<lparr>char_cursor_x := 0, char_cursor_y := 0, scroll_base := 0\<rparr>)"
  have old: "old_cursor_x b = old_cursor_x s" "old_cursor_y b = old_cursor_y s" "cols b = cols s" "rows b = rows s" "term_ready b = term_ready s"
    using b(2) drawn_simps [OF a(2)] by (auto simp: recelled_def)
  have "geom f b" using recelled_geom [OF b(2)] ga by simp
  moreover have "geom f c = geom f b" by (rule geom_frame) (simp_all add: c_def reset_escape_state_def upd_esc_def)
  ultimately have gc: "geom f c" by simp
  have cf: "char_cursor_x c = 0" "char_cursor_y c = 0" "scroll_base c = 0" "esc_params (esc_ctx c) = []" "old_cursor_x c = old_cursor_x s"
    "old_cursor_y c = old_cursor_y s" "cols c = cols s" "rows c = rows s" "term_ready c = term_ready s"
    by (simp_all add: c_def reset_escape_state_def upd_esc_def old)
  obtain d where d: "render_screen c = Some d" "drawn c d" using render_screen_drawn [OF gc drawn_refl] by blast
  note df = drawn_simps [OF d(2)]
  have gd: "geom f d" using gc df(18) by simp
  have cls: "kterm_cls s = kterm_render_cursor (char_cursor_x d) (char_cursor_y d) d"
    using g(2,4) a(1) b(1) d(1) by (simp add: kterm_cls_def Let_def c_def [symmetric])
  have inv: "term_inv f (d\<lparr>term_ready := True\<rparr>)"
  proof -
    have "geom f (d\<lparr>term_ready := True\<rparr>) = geom f d" by (rule geom_frame) simp_all
    then show ?thesis using gd df cf assms(2,3) g(5,7) by (simp add: term_inv_def)
  qed
  show ?thesis
  proof (cases "term_ready s")
    case True
    then have "d\<lparr>term_ready := True\<rparr> = d" using df(13) cf(9) by simp
    then have "term_inv f d" using inv by simp
    then obtain t where "kterm_render_cursor (char_cursor_x d) (char_cursor_y d) d = Some t" "term_inv f t"
      using cursor_safe by (auto simp: safe_def)
    moreover then have "term_ready t" "geom f t" by (simp_all add: term_inv_def)
    moreover have "term_inv f (t\<lparr>term_ready := True\<rparr>) = term_inv f t" using \<open>term_ready t\<close> by (intro inv_frame) simp_all
    ultimately show ?thesis using cls True by auto
  next
    case False
    then have "kterm_render_cursor (char_cursor_x d) (char_cursor_y d) d = Some d" using df(13) cf(9) by (simp add: kterm_render_cursor_def)
    then show ?thesis using cls inv gd df(13) cf(9) by simp
  qed
qed

lemma cls_safe:
  assumes "term_inv f s"
  shows "safe f (kterm_cls s)"
proof -
  have i: "geom f s" "old_cursor_x s < cols s" "old_cursor_y s < rows s" "term_ready s" using assms by (simp_all add: term_inv_def)
  obtain t where t: "kterm_cls s = Some t" "term_inv f (t\<lparr>term_ready := True\<rparr>)" "term_ready t = term_ready s"
    using cls_home [OF i(1-3)] by blast
  have "term_inv f (t\<lparr>term_ready := True\<rparr>) = term_inv f t" using t(3) i(4) by (intro inv_frame) simp_all
  then show ?thesis using t by simp
qed

lemma clear_screen_safe: "term_inv f s \<Longrightarrow> safe f (kterm_clear_screen mode s)"
  unfolding kterm_clear_screen_def
proof (rule safe_bind)
  show "safe f (ensure_init s)" if "term_inv f s" using that by (simp add: ensure_init_def term_inv_def)
  fix t assume t: "term_inv f t"
  then have "safe f (for_each (\<lambda>y. clear_row mode (of_nat y)) [0 ..< unat (rows t)] t)" by (intro safe_for_each clear_row_safe)
  then have "safe f (for_each (\<lambda>y. clear_row mode (of_nat y)) [0 ..< unat (rows t)] t \<bind> redraw)" by (rule safe_bind) (rule redraw_safe)
  then show "safe f (if mode = 2 \<or> mode = 3 then kterm_cls t
      else for_each (\<lambda>y. clear_row mode (of_nat y)) [0 ..< unat (rows t)] t \<bind> (\<lambda>s. redraw s))"
    using cls_safe [OF t] by simp
qed

section \<open>Colours\<close>

lemma find_fb_inv [simp]: "term_inv f s \<Longrightarrow> find_fb s = s"
  using geomD(2) [OF inv_geom, of f s] by (simp add: find_fb_def)

lemma set_fg_safe: "term_inv f s \<Longrightarrow> term_inv f (kterm_set_fg v s)"
  using geomD(2) [OF inv_geom, of f s] inv_frame [of "s\<lparr>fg_color := rgb_to_components f v\<rparr>" s f] by (simp add: kterm_set_fg_def)

lemma set_bg_safe: "term_inv f s \<Longrightarrow> term_inv f (kterm_set_bg v s)"
  using geomD(2) [OF inv_geom, of f s] inv_frame [of "s\<lparr>bg_color := rgb_to_components f v\<rparr>" s f] by (simp add: kterm_set_bg_def)

lemma upd_esc_safe:
  assumes "term_inv f s" and "length (esc_params (h (esc_ctx s))) \<le> TERM_ESC_PARAMS_MAX"
  shows "term_inv f (upd_esc h s)"
proof -
  have "length (esc_params (esc_ctx s)) \<le> TERM_ESC_PARAMS_MAX" using assms(1) by (simp add: term_inv_def)
  then have "term_inv f (upd_esc h s) = term_inv f s" using assms(2) by (intro inv_frame) (simp_all add: upd_esc_def)
  then show ?thesis using assms(1) by simp
qed

lemma inv_params: "term_inv f s \<Longrightarrow> length (esc_params (esc_ctx s)) \<le> TERM_ESC_PARAMS_MAX"
  by (simp add: term_inv_def)

lemma reset_attributes_safe: "term_inv f s \<Longrightarrow> term_inv f (reset_terminal_attributes s)"
  unfolding reset_terminal_attributes_def using inv_params [of f s] by (intro set_bg_safe set_fg_safe upd_esc_safe) simp_all

lemma reset_escape_safe: "term_inv f s \<Longrightarrow> term_inv f (reset_escape_state s)"
  unfolding reset_escape_state_def by (intro upd_esc_safe) simp_all

lemma set_colour_safe: "term_inv f s \<Longrightarrow> term_inv f (set_colour b v s)"
  by (simp add: set_colour_def set_fg_safe set_bg_safe)

lemma sgr_basic_safe:
  assumes "term_inv f s"
  shows "safe f (sgr_basic p s)"
proof -
  have "framebuffer s = Some f" using geomD(2) [OF inv_geom [OF assms]] .
  moreover have "term_inv f (upd_esc (\<lambda>e. e\<lparr>bright := b\<rparr>) s)" for b
    using assms inv_params [OF assms] by (intro upd_esc_safe) simp_all
  ultimately show ?thesis
    using assms by (simp add: sgr_basic_def cell_fg_rgb_def cell_bg_rgb_def reset_attributes_safe set_fg_safe set_bg_safe)
qed

lemma sgr_loop_safe: "term_inv f s \<Longrightarrow> safe f (sgr_loop ps s)"
proof (induction "length ps" arbitrary: ps s rule: less_induct)
  case less
  have fb: "framebuffer s = Some f" using geomD(2) [OF inv_geom [OF less.prems]] .
  then have pal: "\<exists>v. ansi_256_to_rgb (framebuffer s) n = Some v" for n by (simp add: ansi_256_to_rgb_def Let_def)
  show ?case
  proof (cases ps)
    case Nil
    then show ?thesis using less.prems by simp
  next
    case (Cons p qs)
    consider (ext) "(p = 38 \<or> p = 48) \<and> qs \<noteq> []" | (basic) "\<not> ((p = 38 \<or> p = 48) \<and> qs \<noteq> [])" by blast
    then show ?thesis
    proof cases
      case ext
      obtain v where v: "ansi_256_to_rgb (framebuffer s) (hd (tl qs)) = Some v" using pal by blast
      have len: "length (tl (tl qs)) < length ps" "length (drop 3 (tl qs)) < length ps" "length (tl qs) < length ps"
        using Cons by simp_all
      show ?thesis
        using ext fb v less.hyps [OF len(1)] less.hyps [OF len(2)] less.hyps [OF len(3)] less.prems set_colour_safe [OF less.prems]
        by (simp add: Cons Let_def)
    next
      case basic
      have "safe f (sgr_basic p s \<bind> sgr_loop qs)" by (rule safe_bind [OF sgr_basic_safe [OF less.prems] less.hyps]) (simp_all add: Cons)
      then show ?thesis unfolding Cons sgr_loop.simps(2) if_not_P [OF basic] .
    qed
  qed
qed

lemma sgr_safe: "term_inv f s \<Longrightarrow> safe f (term_apply_sgr s)"
  by (simp add: term_apply_sgr_def sgr_loop_safe reset_attributes_safe)

section \<open>Commands\<close>

lemma show_cursor_safe: "term_inv f s \<Longrightarrow> safe f (show_cursor v s)"
  unfolding show_cursor_def Let_def using inv_params [of f s] by (intro cursor_safe upd_esc_safe) simp_all

lemma save_cursor_safe: "term_inv f s \<Longrightarrow> term_inv f (kterm_save_cursor s)"
  unfolding kterm_save_cursor_def using inv_params [of f s] by (intro upd_esc_safe) simp_all

lemma execute_csi_safe:
  assumes "term_inv f s"
  shows "safe f (term_execute_csi cmd s)"
  using assms unfolding term_execute_csi_def Let_def
  by (simp only: safe_Some move_cursor_safe clear_screen_safe clear_line_safe sgr_safe save_cursor_safe show_cursor_safe
      kterm_restore_cursor_def if_split simp_thms cong: if_cong)

lemma handle_escape_safe:
  assumes "term_inv f s"
  shows "safe f (term_handle_escape c s)"
proof -
  note len = inv_params [OF assms]
  have "term_inv f (upd_esc (esc_digit d) s)" for d
    using len by (intro upd_esc_safe [OF assms]) (auto simp: esc_digit_def Let_def)
  moreover have "term_inv f (upd_esc esc_semicolon s)"
    using len by (intro upd_esc_safe [OF assms]) (auto simp: esc_semicolon_def)
  moreover have "term_inv f (upd_esc (\<lambda>e. e\<lparr>private_mode := True\<rparr>) s)" using len by (intro upd_esc_safe [OF assms]) simp
  moreover have "term_inv f (upd_esc (\<lambda>e. e\<lparr>esc_state := TERM_ESC_CSI, esc_params := [], current_param_active := False, private_mode := False\<rparr>) s)"
    by (intro upd_esc_safe [OF assms]) simp
  moreover have "safe f ((if 0x40 \<le> c \<and> c \<le> 0x7E then term_execute_csi c s else Some s) \<bind> (\<lambda>s. Some (reset_escape_state s)))"
    using execute_csi_safe [OF assms] assms by (intro safe_bind) (simp_all add: reset_escape_safe)
  ultimately show ?thesis
    using assms by (cases "esc_state (esc_ctx s)") (simp_all add: term_handle_escape_def reset_escape_safe)
qed

lemma raw_putc_safe:
  assumes "term_inv f s"
  shows "safe f (term_raw_putc c s)"
proof -
  have s: "displays f s (vis s, unat (char_cursor_x s), unat (char_cursor_y s))"
    "inside (unat (rows s)) (unat (cols s)) (vis s, unat (char_cursor_x s), unat (char_cursor_y s))"
    using assms inv_displays by blast+
  obtain t where t: "for_each put_plain (expand c) s = Some t" "keeps s t"
    "displays f t (fold (type_char (unat (rows s)) (unat (cols s)) (pen f s)) (expand c) (vis s, unat (char_cursor_x s), unat (char_cursor_y s)))"
    using type_all [OF s] by blast
  have "term_inv f t" using displays_inv [OF t(3)] type_all_inside [OF s(2)] t(2) by (simp add: keeps_def)
  then show ?thesis using t(1) by (simp add: raw_putc_expand)
qed

lemma putc_safe:
  assumes "term_inv f s"
  shows "safe f (kterm_putc c s)"
proof -
  have "ensure_init s = Some s" using assms by (simp add: ensure_init_def term_inv_def)
  moreover have "term_inv f (upd_esc (\<lambda>e. e\<lparr>esc_state := TERM_ESC_SEEN\<rparr>) s)"
    using inv_params [OF assms] by (intro upd_esc_safe [OF assms]) simp
  ultimately show ?thesis using assms by (simp add: kterm_putc_def handle_escape_safe raw_putc_safe)
qed

section \<open>From the start\<close>

text \<open>A framebuffer on which letters of height \<open>h\<close> make at most 256 rows and columns.\<close>

definition fits :: "limine_framebuffer \<Rightarrow> u64 \<Rightarrow> bool" where
  "fits f h \<longleftrightarrow> fb_address f \<noteq> NULL \<and> h \<noteq> 0 \<and> 0 < fb_height f div h \<and> fb_height f div h \<le> MAX_ROWS \<and>
     0 < fb_width f div FONT_WIDTH \<and> fb_width f div FONT_WIDTH \<le> MAX_COLS \<and> fb_width f \<le> fb_pitch f div 4 \<and> fb_pixels f < 2 ^ 32"

lemma init_safe:
  assumes "boot_fb s = Some f" and "fits f (psf_height s)" and "old_cursor_x s = 0" and "old_cursor_y s = 0"
  shows "safe f (kterm_init s)"
proof -
  define s1 where "s1 = s\<lparr>framebuffer := boot_fb s, rows := fb_height f div psf_height s, cols := fb_width f div FONT_WIDTH\<rparr>"
  define s2 where "s2 = reset_terminal_attributes s1"
  have ne: "fb_address f \<noteq> NULL" "psf_height s \<noteq> 0" using assms(2) by (simp_all add: fits_def)
  have "psf_height s1 = psf_height s" by (simp add: psf_height_def s1_def)
  then have g1: "geom f s1" using assms(1,2) by (simp add: geom_def fits_def s1_def)
  have fb: "framebuffer s1 = Some f" using assms(1) by (simp add: s1_def)
  have s2: "s2 = s1\<lparr>esc_ctx := (esc_ctx s1)\<lparr>bright := False\<rparr>, fg_color := rgb_to_components f default_fg_rgb,
      bg_color := rgb_to_components f default_bg_rgb\<rparr>"
    using fb by (simp add: s2_def reset_terminal_attributes_def kterm_set_bg_def kterm_set_fg_def find_fb_def upd_esc_def)
  have g2: "geom f s2" using g1 unfolding s2 by (subst geom_frame) simp_all
  have "old_cursor_x s2 < cols s2" "old_cursor_y s2 < rows s2"
    using geomD(5,7) [OF g2] assms(3,4) by (simp_all add: s2 s1_def)
  then obtain t where t: "kterm_cls s2 = Some t" "geom f t" "term_inv f (t\<lparr>term_ready := True\<rparr>)" using cls_home [OF g2] by blast
  obtain u where u: "render_screen t = Some u" "drawn t u" using render_screen_drawn [OF t(2) drawn_refl] by blast
  obtain p where p: "u = t\<lparr>pixels := p\<rparr>" using u(2) by (auto simp: drawn_def)
  have "drawn (t\<lparr>term_ready := True\<rparr>) (u\<lparr>term_ready := True\<rparr>)" unfolding drawn_def p by (intro exI [of _ p]) simp
  then have "term_inv f (u\<lparr>term_ready := True\<rparr>)" using t(3) inv_drawn by blast
  moreover have "kterm_init s = Some (u\<lparr>term_ready := True\<rparr>)"
  proof -
    have "kterm_init s = kterm_cls s2 \<bind> (\<lambda>s. render_screen s \<bind> (\<lambda>s. Some (s\<lparr>term_ready := True\<rparr>)))"
      using assms(1) ne by (simp add: kterm_init_def Let_def s2_def s1_def psf_height_def)
    then show ?thesis using t(1) u(1) by simp
  qed
  ultimately show ?thesis by simp
qed

text \<open>
  C27. The terminal survives any input. On a framebuffer that holds at least one and at most 256 rows and columns of letters, whose pitch covers its width and that has fewer than
  \<^verbatim>\<open>2^32\<close> pixels, and starting before the first use of the terminal, writing any bytes whatever,
  escape sequences in any state of completion among them, returns; no store leaves the cells or the pixels, the
  cursor stays on the screen, and at most 16 parameters are kept.
\<close>

theorem kterm_puts_safe:
  assumes "boot_fb s = Some f" and "fits f (psf_height s)" and "old_cursor_x s = 0" and "old_cursor_y s = 0" and "\<not> term_ready s"
  shows "\<exists>t. kterm_puts str s = Some t \<and> term_inv f t"
proof -
  have "safe f (ensure_init s)" using init_safe [OF assms(1-4)] assms(5) by (simp add: ensure_init_def)
  then have "safe f (kterm_puts str s)"
    unfolding kterm_puts_def by (rule safe_bind) (intro safe_for_each putc_safe)
  then show ?thesis by (simp add: safe_def)
qed

definition fresh :: "kterm \<Rightarrow> kterm" where
  "fresh s = s\<lparr>boot_fb := Some example_fb, psf := \<lambda>_. 16, old_cursor_x := 0, old_cursor_y := 0, term_ready := False\<rparr>"

lemma example_fits: "fits example_fb (psf_height (fresh s))"
  by (simp add: fits_def example_fb_def psf_height_def fresh_def fb_pixels_def)

theorem kterm_puts_safe_witness:
  "\<forall>s. \<exists>t. kterm_puts [27, 0x5B, 0x39, 0x39, 0x3B, 0x48, 65] (fresh s) = Some t \<and> char_cursor_x t < cols t"
proof
  fix s
  have "boot_fb (fresh s) = Some example_fb" "old_cursor_x (fresh s) = 0" "old_cursor_y (fresh s) = 0" "\<not> term_ready (fresh s)"
    by (simp_all add: fresh_def)
  from kterm_puts_safe [OF this(1) example_fits this(2-4), of "[27, 0x5B, 0x39, 0x39, 0x3B, 0x48, 65]"]
  show "\<exists>t. kterm_puts [27, 0x5B, 0x39, 0x39, 0x3B, 0x48, 65] (fresh s) = Some t \<and> char_cursor_x t < cols t"
    by (auto simp: term_inv_def)
qed

section \<open>Control sequences\<close>

text \<open>The bytes of a number and of a control sequence.\<close>

fun dec :: "nat \<Rightarrow> u8 list" where
  "dec n = (if n < 10 then [48 + of_nat n] else dec (n div 10) @ [48 + of_nat (n mod 10)])"

declare dec.simps [simp del]

fun param_bytes :: "nat list \<Rightarrow> u8 list" where
  "param_bytes [] = []"
| "param_bytes [n] = dec n"
| "param_bytes (n # ns) = dec n @ 59 # param_bytes ns"

definition csi :: "nat list \<Rightarrow> u8 \<Rightarrow> u8 list" where
  "csi ns cmd = [27, 91] @ param_bytes ns @ [cmd]"

text \<open>What a byte of the parameters does to the state of the parser.\<close>

definition param_step :: "u8 \<Rightarrow> term_escape_ctx \<Rightarrow> term_escape_ctx" where
  "param_step c = (if c = 59 then esc_semicolon else esc_digit (uint c - 48))"

definition param_byte :: "u8 \<Rightarrow> bool" where
  "param_byte c \<longleftrightarrow> c = 59 \<or> 48 \<le> c \<and> c \<le> 57"

lemma digit_byte:
  assumes "d < 10"
  shows "param_byte (48 + of_nat d)" "param_step (48 + of_nat d) = esc_digit (int d)"
proof -
  have "d \<in> {0, 1, 2, 3, 4, 5, 6, 7, 8, 9}" using assms by auto
  then show "param_byte (48 + of_nat d)" "param_step (48 + of_nat d) = esc_digit (int d)"
    by (auto simp: param_byte_def param_step_def)
qed

lemma dec_bytes: "\<forall>c \<in> set (dec n). param_byte c"
proof (induction n rule: dec.induct)
  case (1 n)
  then show ?case using digit_byte(1) [of "n mod 10"] digit_byte(1) [of n] by (subst dec.simps) auto
qed

lemma param_bytes_bytes: "\<forall>c \<in> set (param_bytes ns). param_byte c"
proof (induction ns rule: param_bytes.induct)
  case (3 n m ns)
  then show ?case using dec_bytes by (auto simp: param_byte_def)
qed (use dec_bytes in auto)

lemma wrap32_small:
  assumes "n < 2 ^ 31"
  shows "wrap32 (int n) = int n"
proof -
  have "int n < 2 ^ 31" using assms by simp
  then have "signed_take_bit 31 (int n) = int n" by (intro signed_take_bit_int_eq_self) simp_all
  then show ?thesis unfolding wrap32_def sint_sbintrunc' by simp
qed

lemma dec_params:
  assumes "\<not> current_param_active e" and "length (esc_params e) < TERM_ESC_PARAMS_MAX" and "n < 2 ^ 31"
  shows "fold param_step (dec n) e = e\<lparr>current_param_active := True, esc_params := esc_params e @ [int n]\<rparr>"
  using assms(3)
proof (induction n rule: dec.induct)
  case (1 n)
  show ?case
  proof (cases "n < 10")
    case True
    then show ?thesis
      using assms(1,2) digit_byte(2) [OF True] wrap32_small [of n] by (subst dec.simps) (simp add: esc_digit_def)
  next
    case False
    have "int (n div 10) * 10 + int (n mod 10) = int n" using div_mult_mod_eq [of n 10] by linarith
    then show ?thesis
      using False 1 digit_byte(2) [of "n mod 10"] wrap32_small [of n]
      by (subst dec.simps) (simp add: esc_digit_def)
  qed
qed

lemma param_bytes_params:
  "\<not> current_param_active e \<Longrightarrow> ns \<noteq> [] \<Longrightarrow> length (esc_params e) + length ns \<le> TERM_ESC_PARAMS_MAX \<Longrightarrow> \<forall>n \<in> set ns. n < 2 ^ 31 \<Longrightarrow>
   fold param_step (param_bytes ns) e = e\<lparr>current_param_active := True, esc_params := esc_params e @ map int ns\<rparr>"
proof (induction ns arbitrary: e rule: param_bytes.induct)
  case (2 n)
  then show ?case by (simp add: dec_params)
next
  case (3 n m ns)
  let ?e = "e\<lparr>esc_params := esc_params e @ [int n], current_param_active := False\<rparr>"
  have "fold param_step (dec n) e = e\<lparr>current_param_active := True, esc_params := esc_params e @ [int n]\<rparr>"
    using "3.prems" by (intro dec_params) auto
  then have "fold param_step (param_bytes (n # m # ns)) e = fold param_step (param_bytes (m # ns)) ?e"
    by (simp add: param_step_def esc_semicolon_def)
  also have "\<dots> = ?e\<lparr>current_param_active := True, esc_params := esc_params ?e @ map int (m # ns)\<rparr>"
    by (rule "3.IH") (use "3.prems" in auto)
  finally show ?case by simp
qed simp

lemma putc_param:
  assumes "term_ready s" and "esc_state (esc_ctx s) = TERM_ESC_CSI" and "param_byte c"
  shows "kterm_putc c s = Some (upd_esc (param_step c) s)"
proof -
  have "c \<noteq> 63" using assms(3) by (auto simp: param_byte_def)
  then show ?thesis
    using assms by (auto simp: kterm_putc_def ensure_init_def term_handle_escape_def param_byte_def param_step_def)
qed

lemma param_step_state [simp]: "esc_state (param_step c e) = esc_state e"
  by (simp add: param_step_def esc_semicolon_def esc_digit_def Let_def)

lemma puts_params:
  "term_ready s \<Longrightarrow> esc_state (esc_ctx s) = TERM_ESC_CSI \<Longrightarrow> \<forall>c \<in> set cs. param_byte c \<Longrightarrow>
   for_each kterm_putc cs s = Some (upd_esc (fold param_step cs) s)"
proof (induction cs arbitrary: s)
  case Nil
  then show ?case by (simp add: upd_esc_def)
next
  case (Cons c cs)
  have "for_each kterm_putc cs (upd_esc (param_step c) s) = Some (upd_esc (fold param_step cs) (upd_esc (param_step c) s))"
    using Cons.prems by (intro Cons.IH) (simp_all add: upd_esc_def)
  then show ?case using putc_param [OF Cons.prems(1,2)] Cons.prems(3) by (simp add: upd_esc_def)
qed

text \<open>
  C28. A control sequence reaches its command: the bytes of \<^verbatim>\<open>ESC [ n1 ; n2 ; ... c\<close> with at most 16 numbers below \<^verbatim>\<open>2^31\<close>
  run \<open>term_execute_csi\<close> once, for \<open>c\<close> and with exactly these numbers as parameters, and then the parser is back at rest.
\<close>

theorem kterm_csi_roundtrip:
  assumes "term_ready s" and "esc_state (esc_ctx s) = TERM_ESC_NONE" and "length ns \<le> TERM_ESC_PARAMS_MAX" and "\<forall>n \<in> set ns. n < 2 ^ 31"
    and "0x40 \<le> cmd" and "cmd \<le> 0x7E"
  shows "kterm_puts (csi ns cmd) s = map_option reset_escape_state (term_execute_csi cmd
    (upd_esc (\<lambda>e. e\<lparr>esc_state := TERM_ESC_CSI, esc_params := map int ns, current_param_active := ns \<noteq> [], private_mode := False\<rparr>) s))"
proof -
  let ?e = "\<lambda>e. e\<lparr>esc_state := TERM_ESC_CSI, esc_params := [], current_param_active := False, private_mode := False\<rparr>"
  let ?e' = "\<lambda>e. e\<lparr>esc_state := TERM_ESC_CSI, esc_params := map int ns, current_param_active := ns \<noteq> [], private_mode := False\<rparr>"
  define s1 where "s1 = upd_esc ?e s"
  have s1: "term_ready s1" "esc_state (esc_ctx s1) = TERM_ESC_CSI" using assms(1) by (simp_all add: s1_def upd_esc_def)
  have start: "for_each kterm_putc ([27, 91] @ cs) s = for_each kterm_putc cs s1" for cs
    using assms(1,2) by (simp add: kterm_putc_def ensure_init_def term_handle_escape_def upd_esc_def s1_def)
  have "fold param_step (param_bytes ns) (?e (esc_ctx s)) = ?e' (esc_ctx s)"
    using param_bytes_params [of "?e (esc_ctx s)" ns] assms(3,4) by (cases "ns = []") simp_all
  then have params: "for_each kterm_putc (param_bytes ns) s1 = Some (upd_esc ?e' s)"
    using puts_params [OF s1 param_bytes_bytes, of ns] by (simp add: s1_def upd_esc_def)
  have "cmd \<noteq> 63" "\<not> cmd \<le> 57" "cmd \<noteq> 59" using assms(5) by (auto simp: word_le_nat_alt)
  then have "kterm_putc cmd (upd_esc ?e' s) = map_option reset_escape_state (term_execute_csi cmd (upd_esc ?e' s))"
    using assms(1,5,6) by (simp add: kterm_putc_def ensure_init_def term_handle_escape_def upd_esc_def map_conv_bind_option comp_def)
  then show ?thesis
    using assms(1) params start [of "param_bytes ns @ [cmd]"]
    by (cases "term_execute_csi cmd (upd_esc ?e' s)") (simp_all add: kterm_puts_def ensure_init_def csi_def for_each_append)
qed

theorem kterm_csi_roundtrip_witness:
  "\<forall>s. kterm_puts [27, 0x5B, 0x33, 0x3B, 0x35, 0x48] (s\<lparr>term_ready := True, esc_ctx := (esc_ctx s)\<lparr>esc_state := TERM_ESC_NONE\<rparr>\<rparr>) =
     map_option reset_escape_state (kterm_move_cursor 4 2 (s\<lparr>term_ready := True, esc_ctx := (esc_ctx s)\<lparr>esc_state := TERM_ESC_CSI,
       esc_params := [3, 5], current_param_active := True, private_mode := False\<rparr>\<rparr>))"
proof
  fix s :: kterm
  let ?s = "s\<lparr>term_ready := True, esc_ctx := (esc_ctx s)\<lparr>esc_state := TERM_ESC_NONE\<rparr>\<rparr>"
  have "csi [3, 5] 0x48 = [27, 0x5B, 0x33, 0x3B, 0x35, 0x48]" by (simp add: csi_def dec.simps)
  then show "kterm_puts [27, 0x5B, 0x33, 0x3B, 0x35, 0x48] ?s =
     map_option reset_escape_state (kterm_move_cursor 4 2 (s\<lparr>term_ready := True, esc_ctx := (esc_ctx s)\<lparr>esc_state := TERM_ESC_CSI,
       esc_params := [3, 5], current_param_active := True, private_mode := False\<rparr>\<rparr>))"
    using kterm_csi_roundtrip [of ?s "[3, 5]" "0x48"] by (simp add: term_execute_csi_def one_less_def upd_esc_def)
qed

end
