(* ===== verification/Spec2Isabelle.thy ===== *)
theory Spec2Isabelle
  imports Lapis_Prelude Spinlock Semaphore Dll Slist Pfn_Db Pmm Kheap Kheap_Small Memory Sched Waitqueue
    Rbtree_Props Paging_Props Vmm_Props Fs_State Vnode Ramfs Ramfs_Tree Ramfs_Props Ramfs_File Vfs Kfile Fd
    Cpio_Props Task_Family Kterm_Safe
begin

text \<open>
  A verification of the lapis kernel, a small x86-64 kernel written in C (\<^verbatim>\<open>kernel/src\<close>).

  \<^bold>\<open>The program.\<close> At boot, \<^verbatim>\<open>main.c\<close> builds the page-frame database from the memory map
  (\<^verbatim>\<open>mm/pfn_db.c\<close>), the page allocator on top of it (\<^verbatim>\<open>mm/pmm.c\<close>) and the slab heap on top of that
  (\<^verbatim>\<open>mm/kheap.c\<close>). The heap serves all other parts: page tables and address spaces (\<^verbatim>\<open>mm/paging.c\<close>,
  \<^verbatim>\<open>mm/vmm.c\<close>), whose areas are nodes of a red-black tree (\<^verbatim>\<open>util/rbtree.c\<close>), the virtual file system (\<^verbatim>\<open>fs/vfs\<close>) with its only
  file system ramfs (\<^verbatim>\<open>fs/ramfs\<close>), kernel files and file descriptors (\<^verbatim>\<open>fs/vfs/kfile.c\<close>,
  \<^verbatim>\<open>sched/fd.c\<close>), the scheduler and wait queues (\<^verbatim>\<open>sched\<close>), the reader of the initial ramdisk, which fills the
  file system (\<^verbatim>\<open>fs/initrd\<close>), and processes and threads, which bring all of these together (\<^verbatim>\<open>sched/task.c\<close>). Text
  goes to the framebuffer through a terminal that understands escape sequences (\<^verbatim>\<open>kterm\<close>), which needs none of the others. Every shared structure is guarded by a
  spinlock (\<^verbatim>\<open>util/spinlock.c\<close>).

  \<^bold>\<open>How C is modelled.\<close> A pointer is a \<open>u64\<close>, null is \<open>NULL\<close>; a structure is a record and the objects of
  one C type are a function from addresses to records, a field of the state of the component, so that
  aliasing within a type is explicit. Integers are words of their width and wrap. Bytes are a function
  from addresses to \<open>u8\<close>. A function that can spin for ever on a lock, go through a null pointer
  or run off a string returns an \<open>option\<close>, where \<open>None\<close> says that it does not come back; error codes
  are the integers that the code returns. Loops are structural recursion where they follow a counter
  and \<open>partial_function (option)\<close> where they follow pointers; there is no fuel, and the theorems
  about the loops say that they return. Log messages are left out.

  \<^bold>\<open>Theories.\<close>
  \<^item> \<open>Lapis_Prelude\<close>: widths, constants, error codes, collections and lemmas that the others share.
  \<^item> \<open>Spinlock\<close>, \<open>Semaphore\<close>: the functions, and a step relation over any number of CPUs with one step
    per access to shared memory; mutual exclusion and conservation by rule induction over it, and that
    the sequential functions which the other theories call are complete runs of it.
  \<^item> \<open>Dll\<close>: doubly linked lists in a heap and their removal, as a locale that the page allocator, the run
    queues and the wait queues interpret.
  \<^item> \<open>Pfn_Db\<close>, \<open>Pmm\<close>: page descriptors and the free list; conversions, construction, allocation of
    single pages and contiguous runs, reference counts, sharing.
  \<^item> \<open>Memory\<close>: \<^verbatim>\<open>util/memory.c\<close>, the C strings behind pointers.
  \<^item> \<open>Kheap\<close>, \<open>Kheap_Room\<close>: the slab heap. \<open>heap h L\<close> says that \<open>h\<close> is a consistent heap whose live objects
    and their sizes are \<open>L\<close>; the locale of allocators gives what clients rely on. \<open>room\<close> counts free
    frames, so that a client can say when allocations succeed.
  \<^item> \<open>Sched\<close>, \<open>Waitqueue\<close>: run queues with levels, stealing, boost, switching, ticks, sleeping and waking; a
    step relation of FPU instructions and switches on any CPUs shows that lazy saving gives every thread registers of its own.
  \<^item> \<open>Fs_State\<close>: the records of the file system layer over the heap; \<open>Vnode\<close>: drivers, mounts, vnodes;
    \<open>Ramfs\<close>: all operations of ramfs; \<open>Vfs\<close>: path lookup with symbolic links and the operations on paths;
    \<open>Kfile\<close>, \<open>Fd\<close>: open files and descriptor tables.
  \<^item> \<open>Ramfs_Tree\<close>: the invariant that ties the nodes in the heap to an abstract tree of directories, and what
    every operation does to it; a directory as an interpretation of the locale \<open>name_space\<close>.
    \<open>Ramfs_Props\<close>, \<open>Ramfs_File\<close>: the properties of directories and of file contents.

  \<^item> \<open>Rbtree\<close> and the theories that start with its name: the red-black tree as nodes linked in a heap, tied to an
    abstract tree with its colours and its order; \<open>Rbtree_Zipper\<close> places a rebalancing loop in the tree,
    \<open>Rbtree_Props\<close> states that insertion and removal keep a balanced tree and what the searches return.
  \<^item> \<open>Paging\<close>: \<^verbatim>\<open>mm/paging.c\<close>. \<open>Paging_Tree\<close> reads the tables as a tree of frames and gives the mapping of an
    address; \<open>Paging_Map\<close> and \<open>Paging_Ops\<close> show what a walk that allocates tables, a store into a leaf and the freeing of
    empty tables do to it; \<open>Paging_Props\<close> has the properties of the operations.
  \<^item> \<open>Vmm\<close>: \<^verbatim>\<open>mm/vmm.c\<close> and the page-fault handler. \<open>Vmm_Areas\<close> relates the tree of an address space to the sorted
    list of its areas through the comparator of the code; \<open>Vmm_Props\<close> has the properties.

  \<^item> \<open>Kheap_Small\<close>: objects of the small caches seen from outside, as the reader of the ramdisk uses them. \<open>Cpio\<close>:
    \<^verbatim>\<open>fs/initrd/cpio.c\<close> and \<^verbatim>\<open>extract_initrd\<close> of \<^verbatim>\<open>main.c\<close>, with the table of entries as bytes of the heap. \<open>Cpio_Props\<close>: an encoder
    for archives, and that the parser reads back what it wrote, for archives that lie in a live heap object and
    have at most as many entries as the table can hold without a large allocation; and where the reader leaves the archive.
  \<^item> \<open>Slist\<close>: the walk over links that unlinks an element, as a locale. \<open>Task\<close>: \<^verbatim>\<open>sched/task.c\<close> and the two halves of
    \<^verbatim>\<open>context_switch\<close>. \<open>Task_Props\<close>: the lists of processes, children and threads as interpretations of the walk, the process list, the
    auxiliary vector and the frames of threads. \<open>Task_Family\<close>: exit, the adoption of orphans by init, and wait.
  \<^item> \<open>Kterm\<close>: \<^verbatim>\<open>kterm/kterm.c\<close> and \<^verbatim>\<open>kterm/psf.c\<close>, with the cells as a ring of rows and the framebuffer as a function from pixel
    indices to colours; a store outside of either is \<open>None\<close>. \<open>Kterm_Props\<close>: the invariant of the terminal, the visible
    grid behind the ring, and that plain text changes it as an abstract screen does. \<open>Kterm_Safe\<close>: every command of an escape
    sequence keeps the invariant, so the terminal survives any bytes on a framebuffer of at most 256 rows and columns of
    letters, and a control sequence reaches its command with its numbers. What the pixels of a glyph look like is
    not stated.

  \<^bold>\<open>Not modelled.\<close> The code that programs the processor and its devices (descriptor tables, interrupt
  controllers, timers, PCI), the lists of buses, devices and drivers, the log with its sinks, the bytes of the font, the
  callbacks of uACPI and nanoprintf, which are third-party code, functions that only log, the endless loops of the init and idle threads, the listing \<^verbatim>\<open>fs_list\<close> and
  the busy wait \<^verbatim>\<open>sched_sleep_ms\<close>. The translation
  look-aside buffer is not part of the state, so nothing is said about its invalidation.
\<close>

end
